(* ===== verification/Apfs_Prelude.thy ===== *)
theory Apfs_Prelude
  imports Main "HOL-Library.Word"
begin

text \<open>
  Shared vocabulary of the development: the machine types of the C sources, the errors that
  the library reports through \<open>libcerror\<close>, results as sums, checked accesses to byte
  arrays, the \<open>byte_stream_copy_to_*\<close> macros of \<open>common/byte_stream.h\<close>, and the
  bit-level view of bytes that the decompression components are specified with.
\<close>

unbundle bit_operations_syntax

section \<open>Machine types and errors\<close>

type_synonym byte = "8 word"
type_synonym bytes = "byte list"

text \<open>
  An error is the domain and code of the first \<open>libcerror_error_set\<close> on the failing path:
  later calls only append to the message of an error that is already set. The constructor
  \<open>OUT_OF_BOUNDS_ACCESS\<close> is not an error of the library: it marks a read or a write outside
  an array, which C leaves undefined. The safety theorems show that it never occurs.
\<close>

datatype error =
    ARGUMENT_VALUE_EXCEEDS_MAXIMUM
  | ARGUMENT_VALUE_OUT_OF_BOUNDS
  | ARGUMENT_VALUE_TOO_SMALL
  | ARGUMENT_VALUE_ZERO_OR_LESS
  | ARGUMENT_UNSUPPORTED_VALUE
  | ARGUMENT_INVALID_VALUE
  | RUNTIME_VALUE_ALREADY_SET
  | RUNTIME_VALUE_MISSING
  | RUNTIME_VALUE_OUT_OF_BOUNDS
  | RUNTIME_VALUE_EXCEEDS_MAXIMUM
  | RUNTIME_UNSUPPORTED_VALUE
  | RUNTIME_INITIALIZE_FAILED
  | RUNTIME_GET_FAILED
  | RUNTIME_COPY_FAILED
  | INPUT_VALUE_MISMATCH
  | INPUT_CHECKSUM_MISMATCH
  | IO_READ_FAILED
  | MEMORY_INSUFFICIENT
  | COMPRESSION_DECOMPRESS_FAILED
  | ENCRYPTION_GENERIC
  | CONVERSION_INPUT_FAILED
  | CONVERSION_OUTPUT_FAILED
  | OUT_OF_BOUNDS_ACCESS

type_synonym 'a result = "error + 'a"

lemma unat_byte_less [simp]: "unat (b :: byte) < 256"
  using unsigned_less [of b] by simp

lemma unat_byte_le: "unat (b :: byte) \<le> 255"
  using unat_byte_less [of b] by linarith

lemma unat_ucast_byte [simp]:
  assumes "8 \<le> LENGTH('a)"
  shows "unat (ucast (b :: byte) :: 'a::len word) = unat b"
proof -
  have "(256::nat) \<le> 2 ^ LENGTH('a)"
    using power_increasing [OF assms, of "2::nat"] by simp
  with unat_byte_less [of b] have "unat b < 2 ^ LENGTH('a)" by (rule order_less_le_trans)
  then show ?thesis by (simp add: unsigned_ucast_eq take_bit_nat_eq_self)
qed

text \<open>The largest \<open>ssize_t\<close>, on a platform with 64-bit sizes (\<open>common/types.h.in\<close>).\<close>

definition SSIZE_MAX :: nat where
  "SSIZE_MAX = 2 ^ 63 - 1"

text \<open>The largest allocation, \<open>common/memory.h\<close>.\<close>

definition MEMORY_MAXIMUM_ALLOCATION_SIZE :: nat where
  "MEMORY_MAXIMUM_ALLOCATION_SIZE = 128 * 1024 * 1024"

section \<open>Results\<close>

named_theorems result_simps \<open>rewriting of successful results\<close>

text \<open>Sequencing of calls: a failing call ends its caller with the same error.\<close>

definition bindR :: "'e + 'a \<Rightarrow> ('a \<Rightarrow> 'e + 'b) \<Rightarrow> 'e + 'b" where
  "bindR r k = (case r of Inl e \<Rightarrow> Inl e | Inr x \<Rightarrow> k x)"

lemma bindR_simps [simp]:
  "bindR (Inl e) k = Inl e"
  "bindR (Inr x) k = k x"
  by (simp_all add: bindR_def)

lemma bindR_eq_Inr [result_simps]:
  "bindR r k = Inr y \<longleftrightarrow> (\<exists>x. r = Inr x \<and> k x = Inr y)"
  by (cases r) auto

lemma bindR_eq_Inl [result_simps]:
  "bindR r k = Inl e \<longleftrightarrow> r = Inl e \<or> (\<exists>x. r = Inr x \<and> k x = Inl e)"
  by (cases r) auto

lemma bindR_cong [fundef_cong]:
  "r = r' \<Longrightarrow> (\<And>x. r' = Inr x \<Longrightarrow> k x = k' x) \<Longrightarrow> bindR r k = bindR r' k'"
  by (cases r') auto

text \<open>For evaluation: the continuation is not rewritten before its argument is known.\<close>

lemma bindR_weak_cong: "r = r' \<Longrightarrow> bindR r k = bindR r' k"
  by simp

text \<open>No undefined access: the result is a value or an error of the library.\<close>

definition safe :: "'a result \<Rightarrow> bool" where
  "safe r \<longleftrightarrow> r \<noteq> Inl OUT_OF_BOUNDS_ACCESS"

lemma safe_simps [simp]:
  "safe (Inr x)"
  "safe (Inl e) \<longleftrightarrow> e \<noteq> OUT_OF_BOUNDS_ACCESS"
  by (simp_all add: safe_def)

lemma safe_bindR [intro]:
  "safe r \<Longrightarrow> (\<And>x. r = Inr x \<Longrightarrow> safe (k x)) \<Longrightarrow> safe (bindR r k)"
  by (cases r) auto

text \<open>
  What a call guarantees: its errors satisfy \<open>E\<close>, its values \<open>P\<close>. The rules compose the
  guarantees of the calls of a sequence.
\<close>

definition post :: "('e \<Rightarrow> bool) \<Rightarrow> ('a \<Rightarrow> bool) \<Rightarrow> 'e + 'a \<Rightarrow> bool" where
  "post E P r \<longleftrightarrow> (case r of Inl e \<Rightarrow> E e | Inr x \<Rightarrow> P x)"

lemma post_simps [simp]:
  "post E P (Inl e) \<longleftrightarrow> E e"
  "post E P (Inr x) \<longleftrightarrow> P x"
  by (simp_all add: post_def)

lemma post_bindR:
  assumes "post E P r" "\<And>x. r = Inr x \<Longrightarrow> P x \<Longrightarrow> post E Q (k x)"
  shows "post E Q (bindR r k)"
  using assms by (cases r) auto

lemma post_weaken:
  "post E P r \<Longrightarrow> (\<And>e. E e \<Longrightarrow> F e) \<Longrightarrow> (\<And>x. P x \<Longrightarrow> Q x) \<Longrightarrow> post F Q r"
  by (cases r) auto

lemma postD: "post E P r \<Longrightarrow> r = Inr x \<Longrightarrow> P x"
  by simp

definition lib_error :: "error \<Rightarrow> bool" where
  "lib_error e \<longleftrightarrow> e \<noteq> OUT_OF_BOUNDS_ACCESS"

lemma lib_error_simps [simp]:
  "\<not> lib_error OUT_OF_BOUNDS_ACCESS"
  "e \<noteq> OUT_OF_BOUNDS_ACCESS \<Longrightarrow> lib_error e"
  by (simp_all add: lib_error_def)

lemma safe_post: "safe r \<longleftrightarrow> post lib_error (\<lambda>_. True) r"
  by (cases r) (simp_all add: lib_error_def)

section \<open>Checked array accesses\<close>

definition rd :: "'a list \<Rightarrow> nat \<Rightarrow> 'a result" where
  "rd xs i = (if i < length xs then Inr (xs ! i) else Inl OUT_OF_BOUNDS_ACCESS)"

definition wr :: "'a list \<Rightarrow> nat \<Rightarrow> 'a \<Rightarrow> 'a list result" where
  "wr xs i v = (if i < length xs then Inr (xs[i := v]) else Inl OUT_OF_BOUNDS_ACCESS)"

text \<open>The \<open>n\<close> bytes at offset \<open>i\<close>, as \<open>memory_copy\<close> reads them.\<close>

definition rd_slice :: "'a list \<Rightarrow> nat \<Rightarrow> nat \<Rightarrow> 'a list result" where
  "rd_slice xs i n =
     (if i + n \<le> length xs then Inr (take n (drop i xs)) else Inl OUT_OF_BOUNDS_ACCESS)"

text \<open>\<open>memory_copy\<close> of \<open>ys\<close> to offset \<open>i\<close> of \<open>xs\<close>.\<close>

definition wr_slice :: "'a list \<Rightarrow> nat \<Rightarrow> 'a list \<Rightarrow> 'a list result" where
  "wr_slice xs i ys =
     (if i + length ys \<le> length xs then Inr (take i xs @ ys @ drop (i + length ys) xs)
      else Inl OUT_OF_BOUNDS_ACCESS)"

lemma rd_Inr [simp]: "i < length xs \<Longrightarrow> rd xs i = Inr (xs ! i)"
  by (simp add: rd_def)

lemma rd_eq_Inr [result_simps]: "rd xs i = Inr v \<longleftrightarrow> i < length xs \<and> v = xs ! i"
  by (auto simp: rd_def)

lemma wr_Inr [simp]: "i < length xs \<Longrightarrow> wr xs i v = Inr (xs[i := v])"
  by (simp add: wr_def)

lemma wr_eq_Inr [result_simps]: "wr xs i v = Inr ys \<longleftrightarrow> i < length xs \<and> ys = xs[i := v]"
  by (auto simp: wr_def)

lemma rd_slice_Inr [simp]: "i + n \<le> length xs \<Longrightarrow> rd_slice xs i n = Inr (take n (drop i xs))"
  by (simp add: rd_slice_def)

lemma rd_slice_eq_Inr [result_simps]:
  "rd_slice xs i n = Inr ys \<longleftrightarrow> i + n \<le> length xs \<and> ys = take n (drop i xs)"
  by (auto simp: rd_slice_def)

lemma wr_slice_Inr [simp]:
  "i + length ys \<le> length xs \<Longrightarrow> wr_slice xs i ys = Inr (take i xs @ ys @ drop (i + length ys) xs)"
  by (simp add: wr_slice_def)

lemma wr_slice_eq_Inr [result_simps]:
  "wr_slice xs i ys = Inr zs \<longleftrightarrow>
     i + length ys \<le> length xs \<and> zs = take i xs @ ys @ drop (i + length ys) xs"
  by (auto simp: wr_slice_def)

section \<open>Results that leave a buffer behind\<close>

text \<open>
  Decompression writes the caller's buffer in place: a failing call reports the error and the
  buffer as it was left.
\<close>

type_synonym 'a buffer_result = "(error \<times> bytes) + 'a"

text \<open>A call that fails leaves the buffer as it is.\<close>

definition with_buffer :: "bytes \<Rightarrow> 'a result \<Rightarrow> 'a buffer_result" where
  "with_buffer buf r = (case r of Inl e \<Rightarrow> Inl (e, buf) | Inr x \<Rightarrow> Inr x)"

lemma with_buffer_simps [simp]:
  "with_buffer buf (Inl e) = Inl (e, buf)"
  "with_buffer buf (Inr x) = Inr x"
  by (simp_all add: with_buffer_def)

lemma with_buffer_eq_Inr [result_simps]: "with_buffer buf r = Inr x \<longleftrightarrow> r = Inr x"
  by (cases r) auto

lemma post_with_buffer:
  assumes "post lib_error P r"
  shows "post (\<lambda>(e, b). b = buf \<and> lib_error e) P (with_buffer buf r)"
  using assms by (cases r) auto

text \<open>
  A failure kept the first \<open>off\<close> bytes of the buffer and everything from \<open>n\<close> on.
\<close>

definition buffer_kept :: "bytes \<Rightarrow> nat \<Rightarrow> nat \<Rightarrow> error \<times> bytes \<Rightarrow> bool" where
  "buffer_kept buf off n = (\<lambda>(e, buf'). lib_error e \<and> length buf' = length buf \<and>
     take off buf' = take off buf \<and> drop n buf' = drop n buf)"

lemma buffer_kept_self: "lib_error e \<Longrightarrow> buffer_kept buf off n (e, buf)"
  by (simp add: buffer_kept_def)

lemma post_buffer_bindR:
  assumes "post lib_error P r" "\<And>x. r = Inr x \<Longrightarrow> P x \<Longrightarrow> post (buffer_kept buf off n) Q (k x)"
  shows "post (buffer_kept buf off n) Q (bindR (with_buffer buf r) k)"
  using assms by (cases r) (auto intro: buffer_kept_self)

lemma take_prefix_length:
  assumes "take off' buf' = take off buf @ new_data" "off \<le> length buf" "length buf' = length buf"
  shows "off \<le> off'"
  using arg_cong [OF assms(1), of length] assms(2,3) by auto

lemma drop_further: "drop k xs = drop k ys \<Longrightarrow> k \<le> m \<Longrightarrow> drop m xs = drop m ys"
  by (metis drop_drop le_add_diff_inverse2)

lemma buffer_kept_further:
  assumes "buffer_kept buf1 off1 n y" "length buf1 = length buf" "off1 \<le> n" "drop off1 buf1 = drop off1 buf"
    and "take off1 buf1 = take off buf @ new_data" "off \<le> off1" "off \<le> length buf"
  shows "buffer_kept buf off n y"
proof -
  obtain e buf2 where y: "y = (e, buf2)" by force
  have "take off buf2 = take off (take off1 buf2)" using assms(6) by simp
  also have "\<dots> = take off buf" using assms(1,5,7) y by (simp add: buffer_kept_def)
  finally show ?thesis
    using assms(1,2) y drop_further [OF assms(4,3)] by (simp add: buffer_kept_def)
qed

section \<open>Files\<close>

text \<open>
  The file I/O handle belongs to \<open>libbfio\<close>, which is not part of the sources: it is a parameter,
  the function that reads at most the given number of bytes at an offset
  (\<open>libbfio_handle_read_buffer_at_offset\<close>).
\<close>

type_synonym file_io = "nat \<Rightarrow> nat \<Rightarrow> bytes result"

text \<open>A read that must return all the bytes that were asked for.\<close>

definition read_buffer_at_offset :: "file_io \<Rightarrow> nat \<Rightarrow> nat \<Rightarrow> bytes result" where
  "read_buffer_at_offset file_io_handle file_offset n =
     bindR (file_io_handle file_offset n) (\<lambda>data.
       if length data \<noteq> n then Inl IO_READ_FAILED else Inr data)"

lemma read_buffer_at_offset_length [result_simps]:
  "read_buffer_at_offset f i n = Inr data \<longleftrightarrow> f i n = Inr data \<and> length data = n"
  by (cases "f i n") (auto simp: read_buffer_at_offset_def)

section \<open>Byte order\<close>

text \<open>
  The value of a byte sequence, least significant byte first and most significant byte first.
  The macros of \<open>common/byte_stream.h\<close> read a fixed number of bytes at an address.
\<close>

fun le_value :: "bytes \<Rightarrow> nat" where
  "le_value [] = 0"
| "le_value (b # bs) = unat b + 256 * le_value bs"

definition be_value :: "bytes \<Rightarrow> nat" where
  "be_value bs = le_value (rev bs)"

definition rd_le :: "nat \<Rightarrow> bytes \<Rightarrow> nat \<Rightarrow> nat result" where
  "rd_le n xs i = bindR (rd_slice xs i n) (\<lambda>bs. Inr (le_value bs))"

definition rd_be :: "nat \<Rightarrow> bytes \<Rightarrow> nat \<Rightarrow> nat result" where
  "rd_be n xs i = bindR (rd_slice xs i n) (\<lambda>bs. Inr (be_value bs))"

abbreviation rd_u16_le where "rd_u16_le \<equiv> rd_le 2"
abbreviation rd_u32_le where "rd_u32_le \<equiv> rd_le 4"
abbreviation rd_u64_le where "rd_u64_le \<equiv> rd_le 8"
abbreviation rd_u32_be where "rd_u32_be \<equiv> rd_be 4"

lemma le_value_bound: "le_value bs < 256 ^ length bs"
proof (induction bs)
  case Nil
  show ?case by simp
next
  case (Cons b bs)
  from Cons.IH unat_byte_less [of b] have "unat b + 256 * le_value bs < 256 * 256 ^ length bs" by linarith
  then show ?case by simp
qed

lemma le_value_take_bound: "le_value (take n bs) < 256 ^ n"
proof -
  have "le_value (take n bs) < 256 ^ length (take n bs)" by (rule le_value_bound)
  also have "\<dots> \<le> 256 ^ n" by (rule power_increasing) simp_all
  finally show ?thesis .
qed

lemma le_value_replicate_0 [simp]: "le_value (replicate n 0) = 0"
  by (induction n) simp_all

lemma be_value_bound: "be_value bs < 256 ^ length bs"
  using le_value_bound [of "rev bs"] by (simp add: be_value_def)

text \<open>Byte encodings, used to state what the readers recover.\<close>

fun le_encode :: "nat \<Rightarrow> nat \<Rightarrow> bytes" where
  "le_encode 0 v = []"
| "le_encode (Suc n) v = of_nat (v mod 256) # le_encode n (v div 256)"

definition be_encode :: "nat \<Rightarrow> nat \<Rightarrow> bytes" where
  "be_encode n v = rev (le_encode n v)"

lemma length_le_encode [simp]: "length (le_encode n v) = n"
  by (induction n v rule: le_encode.induct) auto

lemma le_encode_Nil [simp]: "le_encode n v = [] \<longleftrightarrow> n = 0"
  using length_le_encode [of n v] by (metis length_0_conv)

lemma length_be_encode [simp]: "length (be_encode n v) = n"
  by (simp add: be_encode_def)

lemma be_encode_Nil [simp]: "be_encode n v = [] \<longleftrightarrow> n = 0"
  by (simp add: be_encode_def)

lemma unat_byte_of_nat: "unat (of_nat (v mod 256) :: byte) = v mod 256"
  by (simp add: unat_of_nat)

lemma le_value_encode [simp]: "le_value (le_encode n v) = v mod 256 ^ n"
proof (induction n v rule: le_encode.induct)
  case (1 v)
  show ?case by simp
next
  case (2 n v)
  then show ?case
    by (simp add: unat_byte_of_nat mod_mult2_eq)
qed

lemma be_value_encode [simp]: "be_value (be_encode n v) = v mod 256 ^ n"
  by (simp add: be_value_def be_encode_def)

lemma rd_le_Inr [simp]: "i + n \<le> length xs \<Longrightarrow> rd_le n xs i = Inr (le_value (take n (drop i xs)))"
  by (simp add: rd_le_def)

lemma rd_le_eq_Inr [result_simps]:
  "rd_le n xs i = Inr v \<longleftrightarrow> i + n \<le> length xs \<and> v = le_value (take n (drop i xs))"
  by (auto simp: rd_le_def rd_slice_def)

lemma rd_be_Inr [simp]: "i + n \<le> length xs \<Longrightarrow> rd_be n xs i = Inr (be_value (take n (drop i xs)))"
  by (simp add: rd_be_def)

lemma rd_le_bound: "rd_le n xs i = Inr v \<Longrightarrow> v < 256 ^ n"
  using le_value_bound [of "take n (drop i xs)"] by (auto simp: rd_le_eq_Inr min_absorb2)

section \<open>Bits\<close>

text \<open>
  The bits of a byte, least significant first, and the number that a list of bits denotes
  when its first bit is the least significant one.
\<close>

definition byte_bits :: "byte \<Rightarrow> bool list" where
  "byte_bits b = map (bit b) [0..<8]"

definition bytes_bits :: "bytes \<Rightarrow> bool list" where
  "bytes_bits bs = concat (map byte_bits bs)"

fun bits_value :: "bool list \<Rightarrow> nat" where
  "bits_value [] = 0"
| "bits_value (b # bs) = of_bool b + 2 * bits_value bs"

lemma length_byte_bits [simp]: "length (byte_bits b) = 8"
  by (simp add: byte_bits_def)

lemma bytes_bits_simps [simp]:
  "bytes_bits [] = []"
  "bytes_bits (b # bs) = byte_bits b @ bytes_bits bs"
  "bytes_bits (xs @ ys) = bytes_bits xs @ bytes_bits ys"
  by (simp_all add: bytes_bits_def)

lemma length_bytes_bits [simp]: "length (bytes_bits bs) = 8 * length bs"
  by (induction bs) simp_all

lemma bits_value_bound: "bits_value bs < 2 ^ length bs"
  by (induction bs) auto

lemma bits_value_append:
  "bits_value (xs @ ys) = bits_value xs + 2 ^ length xs * bits_value ys"
  by (induction xs) (auto simp: algebra_simps)

text \<open>The \<open>n\<close> least significant bits of a number, least significant first.\<close>

definition lsb_bits :: "nat \<Rightarrow> nat \<Rightarrow> bool list" where
  "lsb_bits n v = map (bit v) [0..<n]"

lemma length_lsb_bits [simp]: "length (lsb_bits n v) = n"
  by (simp add: lsb_bits_def)

lemma lsb_bits_0 [simp]: "lsb_bits 0 v = []"
  by (simp add: lsb_bits_def)

lemma lsb_bits_Suc [simp]: "lsb_bits (Suc n) v = odd v # lsb_bits n (v div 2)"
  unfolding lsb_bits_def by (subst upt_conv_Cons) (simp_all flip: map_Suc_upt add: bit_0 bit_Suc comp_def del: upt_Suc)

lemma bits_value_lsb_bits [simp]: "bits_value (lsb_bits n v) = v mod 2 ^ n"
proof (induction n arbitrary: v)
  case (Suc n)
  have "of_bool (odd v) = v mod 2" by (simp add: mod_2_eq_odd)
  with Suc show ?case by (simp add: mod_mult2_eq)
qed simp

lemma lsb_bits_value [simp]: "length bs = n \<Longrightarrow> lsb_bits n (bits_value bs) = bs"
  by (induction bs arbitrary: n) auto

lemma lsb_bits_add: "lsb_bits (m + n) v = lsb_bits m v @ lsb_bits n (v div 2 ^ m)"
  by (induction m arbitrary: v) (simp_all add: div_mult2_eq)

lemma lsb_bits_mod [simp]: "lsb_bits n (v mod 2 ^ n) = lsb_bits n v"
  by (metis bits_value_lsb_bits length_lsb_bits lsb_bits_value)

lemma bit_beyond_take_bit:
  "take_bit n w = (w :: 'a::len word) \<Longrightarrow> n \<le> i \<Longrightarrow> \<not> bit w i"
  by (metis bit_take_bit_iff linorder_not_le)

end
