(* ===== verification/Bit_Stream.thy ===== *)
theory Bit_Stream
  imports Apfs_Prelude
begin

text \<open>
  The bit stream of \<open>libfsapfs_bit_stream.c\<close>: a byte array read through a 32-bit buffer.
  The stream is specified by the list of the bits that are still to be read
  (\<open>stream_bits\<close>); \<open>bit_stream_get_value\<close> removes a prefix of it.
\<close>

section \<open>State and operations\<close>

datatype storage_type = BYTE_FRONT_TO_BACK | BYTE_BACK_TO_FRONT

record bit_stream =
  byte_stream :: bytes
  byte_stream_size :: nat
  byte_stream_offset :: nat
  storage_type :: storage_type
  bit_buffer :: "32 word"
  bit_buffer_size :: nat

text \<open>A storage type other than the two supported ones is passed as \<open>None\<close>.\<close>

definition bit_stream_initialize ::
    "bit_stream option \<Rightarrow> bytes \<Rightarrow> nat \<Rightarrow> nat \<Rightarrow> storage_type option \<Rightarrow> bit_stream result" where
  "bit_stream_initialize current data data_size offset type =
     (if current \<noteq> None then Inl RUNTIME_VALUE_ALREADY_SET
      else if data_size > SSIZE_MAX then Inl ARGUMENT_VALUE_EXCEEDS_MAXIMUM
      else if offset > SSIZE_MAX then Inl ARGUMENT_VALUE_EXCEEDS_MAXIMUM
      else case type of
             None \<Rightarrow> Inl ARGUMENT_UNSUPPORTED_VALUE
           | Some t \<Rightarrow> Inr \<lparr>byte_stream = data, byte_stream_size = data_size, byte_stream_offset = offset,
                             storage_type = t, bit_buffer = 0, bit_buffer_size = 0\<rparr>)"

text \<open>One pass of the inner loop: the next byte enters the bit buffer.\<close>

definition load_byte :: "byte \<Rightarrow> bit_stream \<Rightarrow> bit_stream" where
  "load_byte b bs =
     bs\<lparr>bit_buffer :=
          (case storage_type bs of
             BYTE_BACK_TO_FRONT \<Rightarrow> bit_buffer bs OR push_bit (bit_buffer_size bs) (ucast b)
           | BYTE_FRONT_TO_BACK \<Rightarrow> push_bit 8 (bit_buffer bs) OR ucast b),
        bit_buffer_size := bit_buffer_size bs + 8,
        byte_stream_offset := byte_stream_offset bs + 1\<rparr>"

function fill_bit_buffer :: "nat \<Rightarrow> bit_stream \<Rightarrow> bit_stream result" where
  "fill_bit_buffer remaining bs =
     (if remaining > bit_buffer_size bs \<and> bit_buffer_size bs \<le> 24
      then if byte_stream_offset bs \<ge> byte_stream_size bs
           then Inl RUNTIME_VALUE_OUT_OF_BOUNDS
           else bindR (rd (byte_stream bs) (byte_stream_offset bs))
                  (\<lambda>b. fill_bit_buffer remaining (load_byte b bs))
      else Inr bs)"
  by pat_completeness auto
termination
  by (relation "measure (\<lambda>(_, bs). 25 - bit_buffer_size bs)") (auto simp: load_byte_def)

declare fill_bit_buffer.simps [simp del]

text \<open>
  The outer loop's body after the buffer was filled: \<open>r\<close> bits leave the buffer. The masks are
  those of the source; \<open>-1\<close> is the 32-bit word of ones.
\<close>

definition extract_bits :: "nat \<Rightarrow> bit_stream \<Rightarrow> 32 word \<times> bit_stream" where
  "extract_bits r bs =
     (let left = bit_buffer_size bs - r;
          (value, buffer) =
            (case storage_type bs of
               BYTE_BACK_TO_FRONT \<Rightarrow>
                 if r < 32 then (bit_buffer bs AND NOT (push_bit r (-1)), drop_bit r (bit_buffer bs))
                 else (bit_buffer bs, bit_buffer bs)
             | BYTE_FRONT_TO_BACK \<Rightarrow>
                 (drop_bit left (bit_buffer bs),
                  if left > 0 then bit_buffer bs AND drop_bit (32 - left) (-1) else bit_buffer bs))
      in (value, bs\<lparr>bit_buffer := (if left = 0 then 0 else buffer), bit_buffer_size := left\<rparr>))"

lemma fill_bit_buffer_pos:
  "fill_bit_buffer remaining bs = Inr bs' \<Longrightarrow> 0 < remaining \<Longrightarrow> 0 < bit_buffer_size bs'"
proof (induction remaining bs rule: fill_bit_buffer.induct)
  case (1 remaining bs)
  show ?case
  proof (cases "remaining > bit_buffer_size bs \<and> bit_buffer_size bs \<le> 24")
    case True
    with "1.prems" obtain b where
      "rd (byte_stream bs) (byte_stream_offset bs) = Inr b"
      "\<not> byte_stream_offset bs \<ge> byte_stream_size bs"
      "fill_bit_buffer remaining (load_byte b bs) = Inr bs'"
      by (auto simp: fill_bit_buffer.simps [of remaining bs] bindR_eq_Inr split: if_splits)
    with True "1.IH" "1.prems" show ?thesis by blast
  next
    case False
    with "1.prems" show ?thesis
      by (cases "bit_buffer_size bs") (auto simp: fill_bit_buffer.simps [of remaining bs])
  qed
qed

lemma bit_buffer_size_extract [simp]:
  "bit_buffer_size (snd (extract_bits r bs)) = bit_buffer_size bs - r"
  by (simp add: extract_bits_def Let_def split: prod.splits)

function get_value_loop ::
    "nat \<Rightarrow> nat \<Rightarrow> 32 word \<Rightarrow> bit_stream \<Rightarrow> (32 word \<times> bit_stream) result" where
  "get_value_loop number_of_bits remaining safe_value bs =
     (if remaining = 0 then Inr (safe_value, bs)
      else bindR (fill_bit_buffer remaining bs) (\<lambda>bs'.
        let r = (if remaining < bit_buffer_size bs' then remaining else bit_buffer_size bs');
            shifted = (if remaining < number_of_bits then push_bit remaining safe_value
                       else safe_value)
        in get_value_loop number_of_bits (remaining - r)
             (shifted OR fst (extract_bits r bs')) (snd (extract_bits r bs'))))"
  by pat_completeness auto
termination
  by (relation "measure (\<lambda>(_, remaining, _, _). remaining)")
     (auto dest: fill_bit_buffer_pos split: if_splits)

declare get_value_loop.simps [simp del]

definition bit_stream_get_value :: "bit_stream \<Rightarrow> nat \<Rightarrow> (32 word \<times> bit_stream) result" where
  "bit_stream_get_value bs number_of_bits =
     (if number_of_bits > 32 then Inl ARGUMENT_VALUE_EXCEEDS_MAXIMUM
      else get_value_loop number_of_bits number_of_bits 0 bs)"

section \<open>The remaining bits\<close>

definition stream_bits :: "bit_stream \<Rightarrow> bool list" where
  "stream_bits bs =
     map (bit (bit_buffer bs)) [0..<bit_buffer_size bs] @
     bytes_bits (drop (byte_stream_offset bs) (byte_stream bs))"

definition bs_inv :: "bit_stream \<Rightarrow> bool" where
  "bs_inv bs \<longleftrightarrow>
     byte_stream_size bs = length (byte_stream bs) \<and> byte_stream_offset bs \<le> byte_stream_size bs \<and>
     storage_type bs = BYTE_BACK_TO_FRONT \<and> bit_buffer_size bs \<le> 32 \<and>
     take_bit (bit_buffer_size bs) (bit_buffer bs) = bit_buffer bs"

text \<open>What reading never changes.\<close>

definition same_source :: "bit_stream \<Rightarrow> bit_stream \<Rightarrow> bool" where
  "same_source bs bs' \<longleftrightarrow>
     byte_stream bs' = byte_stream bs \<and> byte_stream_size bs' = byte_stream_size bs \<and>
     byte_stream_offset bs \<le> byte_stream_offset bs'"

lemma same_source_trans:
  "same_source a b \<Longrightarrow> same_source b c \<Longrightarrow> same_source a c"
  by (simp add: same_source_def)

lemma same_source_refl [simp]: "same_source a a"
  by (simp add: same_source_def)

lemma length_stream_bits:
  "length (stream_bits bs) =
     bit_buffer_size bs + 8 * (length (byte_stream bs) - byte_stream_offset bs)"
  by (simp add: stream_bits_def)

lemma bits_value_word:
  "bits_value (map (bit (w :: 'a::len word)) [0..<n]) = unat (take_bit n w)"
proof -
  have horner: "bits_value bs = horner_sum of_bool 2 bs" for bs
    by (induction bs) simp_all
  have "map (bit w) [0..<n] = map (bit (unat w)) [0..<n]"
    by (simp add: bit_unsigned_iff possible_bit_def bit_imp_possible_bit)
  then have "bits_value (map (bit w) [0..<n]) = take_bit n (unat w)"
    by (simp only: horner horner_sum_bit_eq_take_bit)
  then show ?thesis by (simp add: unsigned_take_bit_eq)
qed

lemma load_byte_bits:
  assumes "take_bit n w = (w :: 32 word)" "n \<le> 24"
  shows "map (bit (w OR push_bit n (ucast (b :: byte)))) [0..<n + 8] = map (bit w) [0..<n] @ byte_bits b"
    and "take_bit (n + 8) (w OR push_bit n (ucast b)) = w OR push_bit n (ucast b)"
proof -
  have "map (bit (w OR push_bit n (ucast b))) [n..<n + 8] = byte_bits b"
    using assms by (intro nth_equalityI) (auto simp: bit_simps byte_bits_def bit_beyond_take_bit)
  moreover have "map (bit (w OR push_bit n (ucast b))) [0..<n] = map (bit w) [0..<n]"
    by (auto simp: bit_simps)
  ultimately show "map (bit (w OR push_bit n (ucast b))) [0..<n + 8] = map (bit w) [0..<n] @ byte_bits b"
    by (simp add: upt_add_eq_append [of 0 n 8, simplified])
  show "take_bit (n + 8) (w OR push_bit n (ucast b)) = w OR push_bit n (ucast b)"
    using assms bit_beyond_take_bit [OF assms(1)]
    by (intro bit_word_eqI) (auto simp: bit_simps dest: bit_imp_le_length)
qed

text \<open>
  A request the buffer can satisfy in one piece: at most 25 bits, or at most 32 bits when the
  buffer holds whole bytes.
\<close>

definition one_piece :: "nat \<Rightarrow> bit_stream \<Rightarrow> bool" where
  "one_piece n bs \<longleftrightarrow> n \<le> 25 \<or> n \<le> 32 \<and> bit_buffer_size bs mod 8 = 0"

lemma load_byte_inv:
  assumes "bs_inv bs" "bit_buffer_size bs \<le> 24" "byte_stream_offset bs < byte_stream_size bs"
  defines "bs' \<equiv> load_byte (byte_stream bs ! byte_stream_offset bs) bs"
  shows "bs_inv bs'" "stream_bits bs' = stream_bits bs" "same_source bs bs'"
    "bit_buffer_size bs' = bit_buffer_size bs + 8"
    "byte_stream_offset bs' = byte_stream_offset bs + 1"
proof -
  have low: "take_bit (bit_buffer_size bs) (bit_buffer bs) = bit_buffer bs"
    and type: "storage_type bs = BYTE_BACK_TO_FRONT"
    and size: "byte_stream_size bs = length (byte_stream bs)"
    using assms by (simp_all add: bs_inv_def)
  show "bs_inv bs'"
    using assms load_byte_bits(2) [OF low] by (simp add: bs_inv_def load_byte_def)
  have "drop (byte_stream_offset bs) (byte_stream bs) =
      byte_stream bs ! byte_stream_offset bs # drop (Suc (byte_stream_offset bs)) (byte_stream bs)"
    using assms size by (simp add: Cons_nth_drop_Suc)
  then show "stream_bits bs' = stream_bits bs"
    using load_byte_bits(1) [OF low] assms type
    by (simp add: stream_bits_def load_byte_def)
qed (simp_all add: bs'_def same_source_def load_byte_def)

lemma fill_bit_buffer_ok:
  assumes "bs_inv bs" "one_piece m bs" "m \<le> length (stream_bits bs)"
  shows "\<exists>bs'. fill_bit_buffer m bs = Inr bs' \<and> bs_inv bs' \<and> stream_bits bs' = stream_bits bs \<and>
    same_source bs bs' \<and> m \<le> bit_buffer_size bs' \<and>
    (bit_buffer_size bs' = bit_buffer_size bs \<or> bit_buffer_size bs' < m + 8) \<and>
    bit_buffer_size bs' mod 8 = bit_buffer_size bs mod 8"
  using assms
proof (induction m bs rule: fill_bit_buffer.induct)
  case (1 m bs)
  show ?case
  proof (cases "m > bit_buffer_size bs")
    case True
    with "1.prems" have small: "bit_buffer_size bs \<le> 24"
      by (auto simp: one_piece_def)
    from True "1.prems" have off: "byte_stream_offset bs < byte_stream_size bs"
      by (auto simp: length_stream_bits bs_inv_def)
    define bs1 where "bs1 = load_byte (byte_stream bs ! byte_stream_offset bs) bs"
    note load = load_byte_inv [OF "1.prems"(1) small off, folded bs1_def]
    have rd: "rd (byte_stream bs) (byte_stream_offset bs) =
        Inr (byte_stream bs ! byte_stream_offset bs)"
      using off "1.prems" by (simp add: bs_inv_def)
    have "one_piece m bs1" using "1.prems"(2) load by (simp add: one_piece_def)
    with "1.IH" [OF _ _ rd] True small off load "1.prems"(3) obtain bs' where bs':
      "fill_bit_buffer m bs1 = Inr bs'" "bs_inv bs'" "stream_bits bs' = stream_bits bs"
      "same_source bs1 bs'" "m \<le> bit_buffer_size bs'"
      "bit_buffer_size bs' = bit_buffer_size bs1 \<or> bit_buffer_size bs' < m + 8"
      "bit_buffer_size bs' mod 8 = bit_buffer_size bs1 mod 8"
      unfolding bs1_def by auto
    moreover have "fill_bit_buffer m bs = fill_bit_buffer m bs1"
      using True small off rd by (simp add: fill_bit_buffer.simps [of m bs] bs1_def)
    ultimately show ?thesis
      using True load same_source_trans [OF load(3) bs'(4)] by auto
  next
    case False
    then show ?thesis using "1.prems" by (simp add: fill_bit_buffer.simps [of m bs])
  qed
qed

lemma fill_bit_buffer_short:
  assumes "bs_inv bs" "one_piece m bs" "length (stream_bits bs) < m"
  shows "fill_bit_buffer m bs = Inl RUNTIME_VALUE_OUT_OF_BOUNDS"
  using assms
proof (induction m bs rule: fill_bit_buffer.induct)
  case (1 m bs)
  from "1.prems" have big: "m > bit_buffer_size bs" by (simp add: length_stream_bits)
  with "1.prems" have small: "bit_buffer_size bs \<le> 24"
    by (auto simp: one_piece_def)
  show ?case
  proof (cases "byte_stream_offset bs < byte_stream_size bs")
    case True
    note load = load_byte_inv [OF "1.prems"(1) small True]
    have rd: "rd (byte_stream bs) (byte_stream_offset bs) =
        Inr (byte_stream bs ! byte_stream_offset bs)"
      using True "1.prems" by (simp add: bs_inv_def)
    have "one_piece m (load_byte (byte_stream bs ! byte_stream_offset bs) bs)"
      using "1.prems"(2) load by (simp add: one_piece_def)
    with "1.IH" [OF _ _ rd] load True big small "1.prems"(3) rd show ?thesis
      by (simp add: fill_bit_buffer.simps [of m bs])
  next
    case False
    with big small show ?thesis by (simp add: fill_bit_buffer.simps [of m bs])
  qed
qed

lemma extract_bits_inv:
  assumes "bs_inv bs" "r \<le> bit_buffer_size bs" "0 < r"
  shows "unat (fst (extract_bits r bs)) = bits_value (take r (stream_bits bs))"
    and "stream_bits (snd (extract_bits r bs)) = drop r (stream_bits bs)"
    and "bs_inv (snd (extract_bits r bs))" and "same_source bs (snd (extract_bits r bs))"
proof -
  let ?w = "bit_buffer bs" and ?n = "bit_buffer_size bs"
  have low: "take_bit ?n ?w = ?w" and type: "storage_type bs = BYTE_BACK_TO_FRONT" and "?n \<le> 32"
    using assms by (simp_all add: bs_inv_def)
  have val: "fst (extract_bits r bs) = take_bit r ?w"
  proof (cases "r < 32")
    case True
    then show ?thesis by (simp add: extract_bits_def Let_def type take_bit_eq_mask)
  next
    case False
    with assms \<open>?n \<le> 32\<close> have "r = 32" "?n = 32" by simp_all
    then show ?thesis using low by (simp add: extract_bits_def Let_def type)
  qed
  have "take r (stream_bits bs) = map (bit ?w) [0..<r]"
    using assms(2) by (simp add: stream_bits_def take_map)
  then show "unat (fst (extract_bits r bs)) = bits_value (take r (stream_bits bs))"
    by (simp add: val bits_value_word)
  have buffer: "bit_buffer (snd (extract_bits r bs)) = drop_bit r ?w"
  proof (cases "r = ?n")
    case True
    have "drop_bit ?n (take_bit ?n ?w) = 0" by (simp add: drop_bit_take_bit)
    then have "drop_bit ?n ?w = 0" by (simp only: low)
    with True show ?thesis by (simp add: extract_bits_def Let_def split: prod.splits)
  next
    case False
    with assms \<open>?n \<le> 32\<close> have "r < 32" by simp
    with False assms show ?thesis by (simp add: extract_bits_def Let_def type)
  qed
  have "map (bit (drop_bit r ?w)) [0..<?n - r] = drop r (map (bit ?w) [0..<?n])"
    using assms(2) by (intro nth_equalityI) (auto simp: bit_simps)
  moreover have frame: "byte_stream (snd (extract_bits r bs)) = byte_stream bs"
    "byte_stream_size (snd (extract_bits r bs)) = byte_stream_size bs"
    "byte_stream_offset (snd (extract_bits r bs)) = byte_stream_offset bs"
    "storage_type (snd (extract_bits r bs)) = storage_type bs"
    by (simp_all add: extract_bits_def Let_def split: prod.splits)
  ultimately show "stream_bits (snd (extract_bits r bs)) = drop r (stream_bits bs)"
    using assms(2) by (simp add: stream_bits_def buffer)
  have "take_bit (?n - r) (drop_bit r ?w) = drop_bit r ?w"
    by (metis low take_bit_drop_bit assms(2) le_add_diff_inverse2)
  then show "bs_inv (snd (extract_bits r bs))" "same_source bs (snd (extract_bits r bs))"
    using assms frame by (auto simp: bs_inv_def same_source_def buffer)
qed

section \<open>Reading a value\<close>

text \<open>
  A request that the buffer satisfies in one piece returns the next bits of the stream, least
  significant bit first, and removes them.
\<close>

lemma bit_stream_get_value_ok:
  assumes "bs_inv bs" "one_piece n bs" "n \<le> length (stream_bits bs)"
  shows "\<exists>v bs'. bit_stream_get_value bs n = Inr (v, bs') \<and> bs_inv bs' \<and>
    unat v = bits_value (take n (stream_bits bs)) \<and> stream_bits bs' = drop n (stream_bits bs) \<and>
    same_source bs bs' \<and> (bit_buffer_size bs < 8 \<longrightarrow> bit_buffer_size bs' < 8)"
proof -
  have "n \<le> 32" using assms by (auto simp: one_piece_def)
  show ?thesis
  proof (cases "n = 0")
    case True
    then show ?thesis using assms by (simp add: bit_stream_get_value_def get_value_loop.simps)
  next
    case False
    obtain bs1 where bs1: "fill_bit_buffer n bs = Inr bs1" "bs_inv bs1"
      "stream_bits bs1 = stream_bits bs" "same_source bs bs1" "n \<le> bit_buffer_size bs1"
      "bit_buffer_size bs1 = bit_buffer_size bs \<or> bit_buffer_size bs1 < n + 8"
      using fill_bit_buffer_ok [OF assms] by blast
    have r: "(if n < bit_buffer_size bs1 then n else bit_buffer_size bs1) = n"
      using bs1(5) by simp
    note ex = extract_bits_inv [OF bs1(2) bs1(5)]
    have "bit_stream_get_value bs n =
        get_value_loop n 0 (fst (extract_bits n bs1)) (snd (extract_bits n bs1))"
      using False \<open>n \<le> 32\<close> bs1(1) r
      by (simp add: bit_stream_get_value_def get_value_loop.simps [of n n] Let_def)
    then have "bit_stream_get_value bs n = Inr (extract_bits n bs1)"
      by (simp add: get_value_loop.simps)
    moreover have "bit_buffer_size bs < 8 \<longrightarrow> bit_buffer_size (snd (extract_bits n bs1)) < 8"
      using bs1(6) False by auto
    ultimately show ?thesis
      using ex False bs1 same_source_trans [OF bs1(4)]
      by (intro exI [of _ "fst (extract_bits n bs1)"] exI [of _ "snd (extract_bits n bs1)"]) simp
  qed
qed

lemma bit_stream_get_value_short:
  assumes "bs_inv bs" "one_piece n bs" "length (stream_bits bs) < n"
  shows "bit_stream_get_value bs n = Inl RUNTIME_VALUE_OUT_OF_BOUNDS"
  using assms fill_bit_buffer_short [OF assms]
  by (auto simp: bit_stream_get_value_def get_value_loop.simps [of n n] one_piece_def)

section \<open>Properties\<close>

text \<open>
  A request of at most 25 bits, or of at most 32 bits when the buffer holds whole
  bytes, returns the next bits of a back-to-front stream, least significant bit first, and
  removes exactly them; it fails with the library's error exactly when fewer bits are left.
\<close>

theorem bit_stream_get_value_returns:
  assumes "bs_inv bs" "one_piece n bs"
  shows "case bit_stream_get_value bs n of
      Inl e \<Rightarrow> e = RUNTIME_VALUE_OUT_OF_BOUNDS \<and> length (stream_bits bs) < n
    | Inr (v, bs') \<Rightarrow> n \<le> length (stream_bits bs) \<and> unat v = bits_value (take n (stream_bits bs)) \<and>
        stream_bits bs' = drop n (stream_bits bs) \<and> bs_inv bs'"
  using bit_stream_get_value_ok [OF assms] bit_stream_get_value_short [OF assms]
  by (cases "n \<le> length (stream_bits bs)") auto

theorem bit_stream_get_value_returns_witness:
  "case bit_stream_get_value \<lparr>byte_stream = [0xa5, 0x3c], byte_stream_size = 2, byte_stream_offset = 0,
       storage_type = BYTE_BACK_TO_FRONT, bit_buffer = 0, bit_buffer_size = 0\<rparr> 11 of
     Inl e \<Rightarrow> False
   | Inr (v, bs') \<Rightarrow> unat v = 0x4a5 \<and> length (stream_bits bs') = 5"
proof -
  let ?bs = "\<lparr>byte_stream = [0xa5, 0x3c], byte_stream_size = 2, byte_stream_offset = 0,
       storage_type = BYTE_BACK_TO_FRONT, bit_buffer = 0, bit_buffer_size = 0\<rparr>"
  have "bits_value (take 11 (stream_bits ?bs)) = 0x4a5" "length (stream_bits ?bs) = 16" by code_simp+
  with bit_stream_get_value_returns [of ?bs 11] show ?thesis
    by (auto simp: bs_inv_def one_piece_def split: sum.splits)
qed

text \<open>
  The condition on the buffer is needed: after four bits were read, a request of 32 bits
  is answered in two pieces that are combined in the wrong order. No caller in the library makes
  such a request.
\<close>

theorem bit_stream_get_value_unaligned:
  "case bit_stream_get_value \<lparr>byte_stream = [0x10, 0x32, 0x54, 0x76, 0x98], byte_stream_size = 5,
      byte_stream_offset = 0, storage_type = BYTE_BACK_TO_FRONT, bit_buffer = 0, bit_buffer_size = 0\<rparr> 4 of
     Inl e \<Rightarrow> False
   | Inr (v, bs) \<Rightarrow>
       (case bit_stream_get_value bs 32 of
          Inl e \<Rightarrow> False
        | Inr (w, bs') \<Rightarrow> unat w \<noteq> bits_value (take 32 (stream_bits bs)))"
  by (simp add: bit_stream_get_value_def get_value_loop.simps fill_bit_buffer.simps load_byte_def
      extract_bits_def Let_def stream_bits_def byte_bits_def bit_simps cong: bindR_weak_cong)
     (simp add: upt_rec bit_0 bit_1_iff mask_eq_exp_minus_1)

end
