(* ===== verification/Huffman_Tree.thy ===== *)
theory Huffman_Tree
  imports Bit_Stream
begin

text \<open>
  The canonical Huffman codes of \<open>libfsapfs_huffman_tree.c\<close>: building the tables from the
  code sizes and decoding a symbol bit by bit. The specification assigns every symbol its
  canonical code; decoding inverts it.
\<close>

section \<open>State and operations\<close>

record huffman_tree =
  maximum_code_size :: nat
  symbols :: "nat list"
  code_size_counts :: "int list"

definition huffman_tree_initialize :: "huffman_tree option \<Rightarrow> int \<Rightarrow> nat \<Rightarrow> huffman_tree result" where
  "huffman_tree_initialize current number_of_symbols max_size =
     (if current \<noteq> None then Inl RUNTIME_VALUE_ALREADY_SET
      else if number_of_symbols < 0 \<or> number_of_symbols > 1024 then Inl ARGUMENT_VALUE_OUT_OF_BOUNDS
      else if max_size > 32 then Inl ARGUMENT_VALUE_OUT_OF_BOUNDS
      else Inr \<lparr>maximum_code_size = max_size,
                symbols = replicate (nat number_of_symbols) 0,
                code_size_counts = replicate (max_size + 1) 0\<rparr>)"

text \<open>The code size frequencies; the third argument lists the symbols still to be counted.\<close>

fun count_code_sizes :: "nat \<Rightarrow> nat list \<Rightarrow> nat list \<Rightarrow> int list \<Rightarrow> int list result" where
  "count_code_sizes max_size sizes [] counts = Inr counts"
| "count_code_sizes max_size sizes (symbol # rest) counts =
     bindR (rd sizes symbol) (\<lambda>code_size.
       if code_size > max_size then Inl RUNTIME_VALUE_OUT_OF_BOUNDS
       else bindR (rd counts code_size) (\<lambda>c.
              bindR (wr counts code_size (c + 1)) (count_code_sizes max_size sizes rest)))"

text \<open>The check for over-subscribed code sizes; the list holds the bit indexes still to come.\<close>

fun check_code_sizes :: "int list \<Rightarrow> nat list \<Rightarrow> int \<Rightarrow> int result" where
  "check_code_sizes counts [] left_value = Inr left_value"
| "check_code_sizes counts (bit_index # rest) left_value =
     bindR (rd counts bit_index) (\<lambda>c.
       let left_value = push_bit 1 left_value - c
       in if left_value < 0 then Inl RUNTIME_VALUE_OUT_OF_BOUNDS
          else check_code_sizes counts rest left_value)"

text \<open>The offsets to sort the symbols per code size.\<close>

fun calculate_symbol_offsets :: "int list \<Rightarrow> nat list \<Rightarrow> int list \<Rightarrow> int list result" where
  "calculate_symbol_offsets counts [] offsets = Inr offsets"
| "calculate_symbol_offsets counts (bit_index # rest) offsets =
     bindR (rd offsets bit_index) (\<lambda>offset.
       bindR (rd counts bit_index) (\<lambda>c.
         bindR (wr offsets (bit_index + 1) (offset + c))
           (calculate_symbol_offsets counts rest)))"

text \<open>Filling the symbols sorted by code size.\<close>

fun fill_symbols ::
    "int \<Rightarrow> nat list \<Rightarrow> nat list \<Rightarrow> int list \<Rightarrow> nat list \<Rightarrow> nat list result" where
  "fill_symbols number sizes [] offsets syms = Inr syms"
| "fill_symbols number sizes (symbol # rest) offsets syms =
     bindR (rd sizes symbol) (\<lambda>code_size.
       if code_size = 0 then fill_symbols number sizes rest offsets syms
       else bindR (rd offsets code_size) (\<lambda>code_offset.
         if code_offset < 0 \<or> code_offset > number then Inl RUNTIME_VALUE_OUT_OF_BOUNDS
         else bindR (wr offsets code_size (code_offset + 1)) (\<lambda>offsets.
           bindR (wr syms (nat code_offset) symbol) (fill_symbols number sizes rest offsets))))"

text \<open>
  Building returns the updated tree and whether it has codes: \<open>False\<close> is the return value 0 of
  the source, for a tree without codes.
\<close>

definition huffman_tree_build ::
    "huffman_tree \<Rightarrow> nat list \<Rightarrow> int \<Rightarrow> (bool \<times> huffman_tree) result" where
  "huffman_tree_build tree sizes number =
     (if maximum_code_size tree = 0 then Inl RUNTIME_VALUE_OUT_OF_BOUNDS
      else if number < 0 \<or> number > 32767 then Inl ARGUMENT_VALUE_OUT_OF_BOUNDS
      else
        let max_size = maximum_code_size tree; all_symbols = [0..<nat number]
        in bindR (count_code_sizes max_size sizes all_symbols (replicate (max_size + 1) 0)) (\<lambda>counts.
             bindR (rd counts 0) (\<lambda>unused.
               if unused = number then Inr (False, tree\<lparr>code_size_counts := counts\<rparr>)
               else bindR (check_code_sizes counts [1..<max_size + 1] 1) (\<lambda>_.
                 bindR (calculate_symbol_offsets counts [1..<max_size] (replicate (max_size + 1) 0))
                   (\<lambda>offsets.
                 bindR (fill_symbols number sizes all_symbols offsets (symbols tree)) (\<lambda>syms.
                   Inr (True, tree\<lparr>code_size_counts := counts, symbols := syms\<rparr>)))))))"

definition rd_int :: "'a list \<Rightarrow> int \<Rightarrow> 'a result" where
  "rd_int xs i = (if i < 0 then Inl OUT_OF_BOUNDS_ACCESS else rd xs (nat i))"

fun get_symbol_loop ::
    "huffman_tree \<Rightarrow> nat list \<Rightarrow> int \<Rightarrow> int \<Rightarrow> int \<Rightarrow> bit_stream \<Rightarrow> (nat \<times> bit_stream) result" where
  "get_symbol_loop tree [] huffman_code first_huffman_code first_index bs =
     Inl RUNTIME_VALUE_OUT_OF_BOUNDS"
| "get_symbol_loop tree (bit_index # rest) huffman_code first_huffman_code first_index bs =
     bindR (bit_stream_get_value bs 1) (\<lambda>(value_32bit, bs').
       let code = push_bit 1 huffman_code OR uint value_32bit
       in bindR (rd (code_size_counts tree) bit_index) (\<lambda>code_size_count.
            if code - code_size_count < first_huffman_code
            then bindR (rd_int (symbols tree) (first_index + (code - first_huffman_code)))
                   (\<lambda>symbol. Inr (symbol, bs'))
            else get_symbol_loop tree rest code (push_bit 1 (first_huffman_code + code_size_count))
                   (first_index + code_size_count) bs'))"

definition huffman_tree_get_symbol_from_bit_stream ::
    "huffman_tree \<Rightarrow> bit_stream \<Rightarrow> (nat \<times> bit_stream) result" where
  "huffman_tree_get_symbol_from_bit_stream tree bs =
     get_symbol_loop tree [1..<maximum_code_size tree + 1] 0 0 0 bs"

section \<open>Canonical codes\<close>

text \<open>The symbols of a code size, in increasing order, and the counts and offsets they give.\<close>

definition symbols_of_size :: "nat list \<Rightarrow> nat \<Rightarrow> nat list" where
  "symbols_of_size sizes l = filter (\<lambda>s. sizes ! s = l) [0..<length sizes]"

definition size_count :: "nat list \<Rightarrow> nat \<Rightarrow> nat" where
  "size_count sizes l = length (symbols_of_size sizes l)"

text \<open>
  The first code of a size: codes of one size are consecutive, and the first code of the next
  size follows the last one with a zero bit appended (RFC 1951, section 3.2.2).
\<close>

fun first_code :: "nat list \<Rightarrow> nat \<Rightarrow> nat" where
  "first_code sizes 0 = 0"
| "first_code sizes (Suc l) = (if l = 0 then 0 else 2 * (first_code sizes l + size_count sizes l))"

definition canonical_code :: "nat list \<Rightarrow> nat \<Rightarrow> nat" where
  "canonical_code sizes s =
     first_code sizes (sizes ! s) + length (filter (\<lambda>t. sizes ! t = sizes ! s) [0..<s])"

text \<open>A number in \<open>l\<close> bits, most significant bit first, as Huffman codes are stored.\<close>

definition msb_bits :: "nat \<Rightarrow> nat \<Rightarrow> bool list" where
  "msb_bits l v = rev (map (bit v) [0..<l])"

definition code_bits :: "nat list \<Rightarrow> nat \<Rightarrow> bool list" where
  "code_bits sizes s = msb_bits (sizes ! s) (canonical_code sizes s)"

definition first_offset :: "nat list \<Rightarrow> nat \<Rightarrow> nat" where
  "first_offset sizes l = (\<Sum>j = 1..<l. size_count sizes j)"

text \<open>What a successfully built tree holds.\<close>

definition tree_of_sizes :: "nat list \<Rightarrow> huffman_tree \<Rightarrow> bool" where
  "tree_of_sizes sizes tree \<longleftrightarrow>
     1 \<le> maximum_code_size tree \<and>
     length (code_size_counts tree) = maximum_code_size tree + 1 \<and>
     (\<forall>s < length sizes. sizes ! s \<le> maximum_code_size tree) \<and>
     (\<forall>l \<in> {1..maximum_code_size tree}. code_size_counts tree ! l = int (size_count sizes l)) \<and>
     (\<forall>l \<in> {1..maximum_code_size tree}. \<forall>r < size_count sizes l.
        first_offset sizes l + r < length (symbols tree) \<and>
        symbols tree ! (first_offset sizes l + r) = symbols_of_size sizes l ! r) \<and>
     (\<forall>l \<in> {1..maximum_code_size tree}. first_code sizes l + size_count sizes l \<le> 2 ^ l)"

lemma symbols_of_size_less:
  "r < size_count sizes l \<Longrightarrow>
     symbols_of_size sizes l ! r < length sizes \<and> sizes ! (symbols_of_size sizes l ! r) = l"
  using nth_mem [of r "symbols_of_size sizes l"]
  by (auto simp: size_count_def symbols_of_size_def)

lemma symbols_of_size_rank:
  assumes "s < length sizes"
  defines "r \<equiv> length (filter (\<lambda>t. sizes ! t = sizes ! s) [0..<s])"
  shows "symbols_of_size sizes (sizes ! s) ! r = s" "r < size_count sizes (sizes ! s)"
proof -
  have "[0..<length sizes] = [0..<s] @ s # [Suc s..<length sizes]"
    using assms(1) upt_add_eq_append [of 0 s "length sizes - s"] upt_conv_Cons [of s "length sizes"]
    by simp
  then have "symbols_of_size sizes (sizes ! s) =
      filter (\<lambda>t. sizes ! t = sizes ! s) [0..<s] @ s #
      filter (\<lambda>t. sizes ! t = sizes ! s) [Suc s..<length sizes]"
    by (simp add: symbols_of_size_def)
  then show "symbols_of_size sizes (sizes ! s) ! r = s" "r < size_count sizes (sizes ! s)"
    by (simp_all add: r_def size_count_def)
qed

lemma first_code_mono:
  "1 \<le> b \<Longrightarrow> b < l \<Longrightarrow> 2 ^ (l - b) * (first_code sizes b + size_count sizes b) \<le> first_code sizes l"
proof (induction l)
  case 0
  then show ?case by simp
next
  case (Suc l)
  show ?case
  proof (cases "b = l")
    case True
    with Suc.prems show ?thesis by simp
  next
    case False
    with Suc have "2 ^ (l - b) * (first_code sizes b + size_count sizes b) \<le> first_code sizes l"
      by simp
    moreover have "(2::nat) ^ (Suc l - b) = 2 * 2 ^ (l - b)"
      using Suc.prems by (simp add: Suc_diff_le)
    ultimately show ?thesis using Suc.prems by (simp add: algebra_simps)
  qed
qed

lemma first_offset_Suc:
  "1 \<le> l \<Longrightarrow> first_offset sizes (Suc l) = first_offset sizes l + size_count sizes l"
  by (simp add: first_offset_def)

lemma shift_in_bit: "push_bit 1 (int c) OR of_bool b = int (2 * c + of_bool b)"
proof -
  have "push_bit 1 (int c) AND of_bool b = 0"
    by (cases b) (simp_all add: push_bit_eq_mult and_one_eq)
  then have "push_bit 1 (int c) OR of_bool b = push_bit 1 (int c) + of_bool b"
    by (simp add: disjunctive_add_eq_or)
  then show ?thesis by (simp add: push_bit_eq_mult)
qed

lemma shift_left_one: "push_bit 1 (int a + int b) = int (2 * (a + b))"
  by (simp add: push_bit_eq_mult)

lemma bit_stream_get_bit:
  assumes "bs_inv bs" "stream_bits bs = b # rest"
  shows "\<exists>v bs'. bit_stream_get_value bs 1 = Inr (v, bs') \<and> uint v = of_bool b \<and> bs_inv bs' \<and>
    stream_bits bs' = rest \<and> same_source bs bs' \<and>
    (bit_buffer_size bs < 8 \<longrightarrow> bit_buffer_size bs' < 8)"
proof -
  obtain v bs' where v: "bit_stream_get_value bs 1 = Inr (v, bs')" "bs_inv bs'"
    "unat v = bits_value (take 1 (stream_bits bs))" "stream_bits bs' = drop 1 (stream_bits bs)"
    "same_source bs bs'" "bit_buffer_size bs < 8 \<longrightarrow> bit_buffer_size bs' < 8"
    using bit_stream_get_value_ok [OF assms(1), of 1] assms(2) by (auto simp: one_piece_def)
  have "uint v = of_bool b"
    using v(3) assms(2) by (simp add: uint_nat)
  with v assms(2) show ?thesis by auto
qed

lemma bit_stream_get_bit_none:
  "bs_inv bs \<Longrightarrow> stream_bits bs = [] \<Longrightarrow> bit_stream_get_value bs 1 = Inl RUNTIME_VALUE_OUT_OF_BOUNDS"
  by (rule bit_stream_get_value_short) (simp_all add: one_piece_def)

section \<open>Decoding inverts the canonical code\<close>

lemma length_msb_bits [simp]: "length (msb_bits l v) = l"
  by (simp add: msb_bits_def)

lemma msb_bits_drop:
  assumes "b < l"
  shows "drop b (msb_bits l c) = bit c (l - Suc b) # drop (Suc b) (msb_bits l c)"
proof -
  have "msb_bits l c ! b = bit c (l - Suc b)"
    using assms by (simp add: msb_bits_def rev_nth)
  then show ?thesis
    using assms Cons_nth_drop_Suc [of b "msb_bits l c"] by simp
qed

lemma div_step: "2 * (c div 2 ^ Suc k) + of_bool (bit c k) = (c :: nat) div 2 ^ k"
proof -
  have "c div 2 ^ Suc k = c div 2 ^ k div 2"
    by (simp only: power_Suc2 div_mult2_eq)
  moreover have "of_bool (bit c k) = c div 2 ^ k mod 2"
    by (simp add: bit_iff_odd mod_2_eq_odd)
  ultimately show ?thesis by simp
qed

lemma get_symbol_loop_decodes:
  assumes tree: "tree_of_sizes sizes tree"
    and l: "l \<le> maximum_code_size tree" "r < size_count sizes l"
  defines "c \<equiv> first_code sizes l + r"
  assumes "b < l" "bs_inv bs" "stream_bits bs = drop b (msb_bits l c) @ rest"
  shows "\<exists>bs'. get_symbol_loop tree [Suc b..<maximum_code_size tree + 1] (int (c div 2 ^ (l - b)))
      (int (first_code sizes (Suc b))) (int (first_offset sizes (Suc b))) bs =
      Inr (symbols_of_size sizes l ! r, bs') \<and>
    bs_inv bs' \<and> stream_bits bs' = rest \<and> same_source bs bs' \<and>
    (bit_buffer_size bs < 8 \<longrightarrow> bit_buffer_size bs' < 8)"
  using assms(5-7)
proof (induction "l - b" arbitrary: b bs)
  case 0
  then show ?case by simp
next
  case (Suc k)
  let ?m = "maximum_code_size tree"
  have bits: "stream_bits bs = bit c (l - Suc b) # (drop (Suc b) (msb_bits l c) @ rest)"
    using Suc.prems msb_bits_drop by simp
  obtain v bs1 where bs1: "bit_stream_get_value bs 1 = Inr (v, bs1)"
    "uint v = of_bool (bit c (l - Suc b))" "bs_inv bs1"
    "stream_bits bs1 = drop (Suc b) (msb_bits l c) @ rest" "same_source bs bs1"
    "bit_buffer_size bs < 8 \<longrightarrow> bit_buffer_size bs1 < 8"
    using bit_stream_get_bit [OF Suc.prems(2) bits] by blast
  have "l - b = Suc (l - Suc b)" using Suc.prems(1) by simp
  then have code: "push_bit 1 (int (c div 2 ^ (l - b))) OR uint v = int (c div 2 ^ (l - Suc b))"
    by (simp only: bs1(2) shift_in_bit div_step)
  have "Suc b \<in> {1..?m}" using Suc.prems(1) l(1) by simp
  with tree have count: "rd (code_size_counts tree) (Suc b) = Inr (int (size_count sizes (Suc b)))"
    by (simp add: tree_of_sizes_def)
  have upt: "[Suc b..<?m + 1] = Suc b # [Suc (Suc b)..<?m + 1]"
    using Suc.prems(1) l(1) by (simp add: upt_conv_Cons del: upt_Suc)
  show ?case
  proof (cases "Suc b = l")
    case True
    have "int (first_offset sizes l) + (int c - int (first_code sizes l)) =
        int (first_offset sizes l + r)"
      by (simp add: c_def)
    moreover have "first_offset sizes l + r < length (symbols tree)"
      "symbols tree ! (first_offset sizes l + r) = symbols_of_size sizes l ! r"
      using tree l True \<open>Suc b \<in> {1..?m}\<close> by (auto simp: tree_of_sizes_def)
    ultimately have "rd_int (symbols tree)
        (int (first_offset sizes l) + (int c - int (first_code sizes l))) =
        Inr (symbols_of_size sizes l ! r)"
      by (simp add: rd_int_def del: of_nat_add)
    moreover have "int c - int (size_count sizes l) < int (first_code sizes l)"
      using l(2) by (simp add: c_def)
    ultimately show ?thesis
      unfolding upt using bs1 code count True by (simp add: Let_def del: upt_Suc)
  next
    case False
    then have less: "Suc b < l" using Suc.prems(1) by simp
    have "2 ^ (l - Suc b) * (first_code sizes (Suc b) + size_count sizes (Suc b)) \<le> c"
      using first_code_mono [of "Suc b" l sizes] less by (simp add: c_def)
    then have "first_code sizes (Suc b) + size_count sizes (Suc b) \<le> c div 2 ^ (l - Suc b)"
      by (simp add: less_eq_div_iff_mult_less_eq mult.commute)
    then have no: "\<not> int (c div 2 ^ (l - Suc b)) - int (size_count sizes (Suc b)) <
        int (first_code sizes (Suc b))"
      by linarith
    have "k = l - Suc b" using Suc.hyps(2) by simp
    from Suc.hyps(1) [OF this less bs1(3,4)] obtain bs' where bs':
      "get_symbol_loop tree [Suc (Suc b)..<?m + 1] (int (c div 2 ^ (l - Suc b)))
         (int (first_code sizes (Suc (Suc b)))) (int (first_offset sizes (Suc (Suc b)))) bs1 =
         Inr (symbols_of_size sizes l ! r, bs')"
      "bs_inv bs'" "stream_bits bs' = rest" "same_source bs1 bs'"
      "bit_buffer_size bs1 < 8 \<longrightarrow> bit_buffer_size bs' < 8"
      by blast
    moreover have "push_bit 1 (int (first_code sizes (Suc b)) + int (size_count sizes (Suc b))) =
        int (first_code sizes (Suc (Suc b)))"
      by (simp only: shift_left_one) simp
    moreover have "int (first_offset sizes (Suc b)) + int (size_count sizes (Suc b)) =
        int (first_offset sizes (Suc (Suc b)))"
      by (simp add: first_offset_Suc)
    ultimately show ?thesis
      unfolding upt using bs1 code count no same_source_trans [OF bs1(5) bs'(4)]
      by (simp add: Let_def del: upt_Suc first_code.simps)
  qed
qed

lemma huffman_tree_get_symbol_decodes:
  assumes "tree_of_sizes sizes tree" "bs_inv bs" "s < length sizes" "0 < sizes ! s"
    and "stream_bits bs = code_bits sizes s @ rest"
  shows "\<exists>bs'. huffman_tree_get_symbol_from_bit_stream tree bs = Inr (s, bs') \<and> bs_inv bs' \<and>
    stream_bits bs' = rest \<and> same_source bs bs' \<and>
    (bit_buffer_size bs < 8 \<longrightarrow> bit_buffer_size bs' < 8)"
proof -
  define l where "l = sizes ! s"
  define r where "r = length (filter (\<lambda>t. sizes ! t = sizes ! s) [0..<s])"
  have r: "symbols_of_size sizes l ! r = s" "r < size_count sizes l"
    using symbols_of_size_rank [OF assms(3)] by (simp_all add: l_def r_def)
  have "l \<in> {1..maximum_code_size tree}"
    using assms by (auto simp: tree_of_sizes_def l_def)
  with assms(1) have l: "l \<le> maximum_code_size tree"
    and "first_code sizes l + size_count sizes l \<le> 2 ^ l"
    by (auto simp: tree_of_sizes_def)
  then have zero: "(first_code sizes l + r) div 2 ^ (l - 0) = 0"
    using r(2) by simp
  have "stream_bits bs = drop 0 (msb_bits l (first_code sizes l + r)) @ rest"
    using assms(5) by (simp add: code_bits_def canonical_code_def l_def r_def)
  from get_symbol_loop_decodes [OF assms(1) l r(2) _ assms(2) this] show ?thesis
    using assms(4) r(1) zero
    by (simp add: huffman_tree_get_symbol_from_bit_stream_def l_def first_offset_def del: upt_Suc)
qed

text \<open>
  Conversely, whatever is decoded was the canonical code of the returned symbol, and the only
  error is the library's own.
\<close>

lemma msb_bits_of_bits: "length bits = l \<Longrightarrow> msb_bits l (bits_value (rev bits)) = bits"
proof -
  have "bit (bits_value bs) i \<longleftrightarrow> i < length bs \<and> bs ! i" for bs i
  proof (induction bs arbitrary: i)
    case (Cons b bs)
    then show ?case by (cases i) (auto simp: bit_Suc bit_0)
  qed simp
  then show "length bits = l \<Longrightarrow> ?thesis"
    by (intro nth_equalityI) (auto simp: msb_bits_def rev_nth)
qed

text \<open>
  The outcome of decoding from bit \<open>b\<close> on, when the bits before it had the value \<open>h\<close>.
\<close>

definition decodes_from ::
    "nat list \<Rightarrow> nat \<Rightarrow> nat \<Rightarrow> nat \<Rightarrow> bit_stream \<Rightarrow> (nat \<times> bit_stream) result \<Rightarrow> bool" where
  "decodes_from sizes m b h bs res \<longleftrightarrow>
     (case res of
        Inl e \<Rightarrow> e = RUNTIME_VALUE_OUT_OF_BOUNDS
      | Inr (s, bs') \<Rightarrow>
          (\<exists>l r bits. b < l \<and> l \<le> m \<and> r < size_count sizes l \<and>
             s = symbols_of_size sizes l ! r \<and> stream_bits bs = bits @ stream_bits bs' \<and>
             length bits = l - b \<and>
             h * 2 ^ (l - b) + bits_value (rev bits) = first_code sizes l + r) \<and>
          bs_inv bs' \<and> same_source bs bs' \<and> (bit_buffer_size bs < 8 \<longrightarrow> bit_buffer_size bs' < 8))"

lemma decodes_from_step:
  assumes "stream_bits bs = x # stream_bits bs1" "same_source bs bs1"
    and "bit_buffer_size bs < 8 \<longrightarrow> bit_buffer_size bs1 < 8"
    and "decodes_from sizes m (Suc b) (2 * h + of_bool x) bs1 res"
  shows "decodes_from sizes m b h bs res"
proof (cases res)
  case (Inl e)
  with assms(4) show ?thesis by (simp add: decodes_from_def)
next
  case (Inr p)
  obtain s bs' where p: "p = (s, bs')" by force
  with assms(4) Inr obtain l r bits where l: "Suc b < l" "l \<le> m" "r < size_count sizes l"
    "s = symbols_of_size sizes l ! r" "stream_bits bs1 = bits @ stream_bits bs'"
    "length bits = l - Suc b"
    "(2 * h + of_bool x) * 2 ^ (l - Suc b) + bits_value (rev bits) = first_code sizes l + r"
    and bs': "bs_inv bs'" "same_source bs1 bs'" "bit_buffer_size bs1 < 8 \<longrightarrow> bit_buffer_size bs' < 8"
    unfolding decodes_from_def by auto
  have "l - b = Suc (l - Suc b)" using l(1) by simp
  then have "stream_bits bs = (x # bits) @ stream_bits bs'" "length (x # bits) = l - b"
    "h * 2 ^ (l - b) + bits_value (rev (x # bits)) = first_code sizes l + r"
    using l assms(1) by (simp_all add: bits_value_append algebra_simps)
  moreover have "b < l" using l(1) by simp
  ultimately have "\<exists>l r bits. b < l \<and> l \<le> m \<and> r < size_count sizes l \<and>
      s = symbols_of_size sizes l ! r \<and> stream_bits bs = bits @ stream_bits bs' \<and>
      length bits = l - b \<and> h * 2 ^ (l - b) + bits_value (rev bits) = first_code sizes l + r"
    using l(2,3,4) by blast
  then show ?thesis
    using Inr p bs' assms(2,3) same_source_trans by (auto simp: decodes_from_def)
qed

lemma decodes_from_hit:
  assumes "stream_bits bs = x # stream_bits bs1" "same_source bs bs1" "bs_inv bs1"
    and "bit_buffer_size bs < 8 \<longrightarrow> bit_buffer_size bs1 < 8"
    and "Suc b \<le> m" "r < size_count sizes (Suc b)"
    and "2 * h + of_bool x = first_code sizes (Suc b) + r"
  shows "decodes_from sizes m b h bs (Inr (symbols_of_size sizes (Suc b) ! r, bs1))"
proof -
  have "stream_bits bs = [x] @ stream_bits bs1" "length [x] = Suc b - b"
    "h * 2 ^ (Suc b - b) + bits_value (rev [x]) = first_code sizes (Suc b) + r"
    using assms(1,7) by (simp_all add: algebra_simps del: first_code.simps)
  then have "\<exists>l r' bits. b < l \<and> l \<le> m \<and> r' < size_count sizes l \<and>
      symbols_of_size sizes (Suc b) ! r = symbols_of_size sizes l ! r' \<and>
      stream_bits bs = bits @ stream_bits bs1 \<and> length bits = l - b \<and>
      h * 2 ^ (l - b) + bits_value (rev bits) = first_code sizes l + r'"
    using assms(5,6) by blast
  with assms(2-4) show ?thesis by (simp add: decodes_from_def)
qed

lemma get_symbol_loop_sound:
  assumes tree: "tree_of_sizes sizes tree"
  assumes "b \<le> maximum_code_size tree" "bs_inv bs" "first_code sizes (Suc b) \<le> 2 * h"
  shows "decodes_from sizes (maximum_code_size tree) b h bs
    (get_symbol_loop tree [Suc b..<maximum_code_size tree + 1] (int h)
      (int (first_code sizes (Suc b))) (int (first_offset sizes (Suc b))) bs)"
  using assms(2-4)
proof (induction "maximum_code_size tree - b" arbitrary: b bs h)
  case 0
  then show ?case by (simp add: decodes_from_def)
next
  case (Suc k)
  let ?m = "maximum_code_size tree" and ?fc = "first_code sizes (Suc b)"
  let ?cnt = "size_count sizes (Suc b)" and ?fo = "first_offset sizes (Suc b)"
  have bm: "Suc b \<le> ?m" using Suc.hyps(2) by simp
  then have "Suc b \<in> {1..?m}" by simp
  with tree have count: "rd (code_size_counts tree) (Suc b) = Inr (int ?cnt)"
    by (simp add: tree_of_sizes_def)
  have upt: "[Suc b..<?m + 1] = Suc b # [Suc (Suc b)..<?m + 1]"
    using bm by (simp add: upt_conv_Cons del: upt_Suc)
  show ?case
  proof (cases "stream_bits bs")
    case Nil
    with bit_stream_get_bit_none [OF Suc.prems(2)] show ?thesis
      unfolding upt by (simp add: decodes_from_def)
  next
    case (Cons x xs)
    obtain v bs1 where bs1: "bit_stream_get_value bs 1 = Inr (v, bs1)"
      "uint v = of_bool x" "bs_inv bs1" "stream_bits bs = x # stream_bits bs1" "same_source bs bs1"
      "bit_buffer_size bs < 8 \<longrightarrow> bit_buffer_size bs1 < 8"
      using bit_stream_get_bit [OF Suc.prems(2) Cons] Cons by auto
    let ?h = "2 * h + of_bool x"
    have code: "push_bit 1 (int h) OR uint v = int ?h" by (simp only: bs1(2) shift_in_bit)
    show ?thesis
    proof (cases "?h < ?fc + ?cnt")
      case True
      define r where "r = ?h - ?fc"
      have r: "r < ?cnt" "?h = ?fc + r" using True Suc.prems(3) by (auto simp: r_def)
      then have idx: "int ?fo + (int ?h - int ?fc) = int (?fo + r)" "int ?h - int ?cnt < int ?fc"
        by linarith+
      have "rd_int (symbols tree) (int (?fo + r)) = Inr (symbols_of_size sizes (Suc b) ! r)"
        using tree r(1) \<open>Suc b \<in> {1..?m}\<close> 
        by (simp add: tree_of_sizes_def rd_int_def del: of_nat_add)
      then have "get_symbol_loop tree [Suc b..<?m + 1] (int h) (int ?fc) (int ?fo) bs =
          Inr (symbols_of_size sizes (Suc b) ! r, bs1)"
        unfolding upt using bs1(1) code count idx by (simp add: Let_def del: upt_Suc of_nat_add)
      then show ?thesis using decodes_from_hit [OF bs1(4,5,3,6) bm r] by simp
    next
      case False
      then have no: "\<not> int ?h - int ?cnt < int ?fc" by linarith
      have next_code: "push_bit 1 (int ?fc + int ?cnt) = int (first_code sizes (Suc (Suc b)))"
        by (simp only: shift_left_one) simp
      have next_offset: "int ?fo + int ?cnt = int (first_offset sizes (Suc (Suc b)))"
        by (simp add: first_offset_Suc)
      have step: "get_symbol_loop tree [Suc b..<?m + 1] (int h) (int ?fc) (int ?fo) bs =
          get_symbol_loop tree [Suc (Suc b)..<?m + 1] (int ?h)
            (int (first_code sizes (Suc (Suc b)))) (int (first_offset sizes (Suc (Suc b)))) bs1"
        unfolding upt using bs1(1) code count no next_code next_offset
        by (simp add: Let_def del: upt_Suc of_nat_add first_code.simps)
      have "k = ?m - Suc b" "first_code sizes (Suc (Suc b)) \<le> 2 * ?h"
        using Suc.hyps(2) False by simp_all
      from Suc.hyps(1) [OF this(1) bm bs1(3) this(2)] show ?thesis
        unfolding step by (rule decodes_from_step [OF bs1(4,5,6)])
    qed
  qed
qed

lemma huffman_tree_get_symbol_sound:
  assumes "tree_of_sizes sizes tree" "bs_inv bs"
  shows "case huffman_tree_get_symbol_from_bit_stream tree bs of
      Inl e \<Rightarrow> e = RUNTIME_VALUE_OUT_OF_BOUNDS
    | Inr (s, bs') \<Rightarrow> s < length sizes \<and> 0 < sizes ! s \<and>
        stream_bits bs = code_bits sizes s @ stream_bits bs' \<and> bs_inv bs' \<and> same_source bs bs' \<and>
        (bit_buffer_size bs < 8 \<longrightarrow> bit_buffer_size bs' < 8)"
proof -
  let ?m = "maximum_code_size tree"
  have "decodes_from sizes ?m 0 0 bs (huffman_tree_get_symbol_from_bit_stream tree bs)"
    using get_symbol_loop_sound [OF assms(1) _ assms(2), of 0 0]
    by (simp add: huffman_tree_get_symbol_from_bit_stream_def first_offset_def del: upt_Suc)
  moreover have "s < length sizes \<and> 0 < sizes ! s \<and> bits = code_bits sizes s"
    if "0 < l" "r < size_count sizes l" "s = symbols_of_size sizes l ! r" "length bits = l"
      "bits_value (rev bits) = first_code sizes l + r" for s l r and bits :: "bool list"
  proof -
    have s: "s < length sizes" "sizes ! s = l"
      using symbols_of_size_less [OF that(2)] that(3) by simp_all
    have "distinct (symbols_of_size sizes l)" by (simp add: symbols_of_size_def)
    then have "length (filter (\<lambda>t. sizes ! t = sizes ! s) [0..<s]) = r"
      using symbols_of_size_rank [OF s(1)] s that(2,3)
      by (auto simp: size_count_def nth_eq_iff_index_eq)
    then show ?thesis
      using s that msb_bits_of_bits [OF that(4)] by (simp add: code_bits_def canonical_code_def)
  qed
  ultimately show ?thesis
    unfolding decodes_from_def by (fastforce split: sum.splits)
qed

section \<open>Building the tree\<close>

text \<open>The symbols below \<open>k\<close> that have code size \<open>l\<close>; for all symbols, \<open>symbols_of_size\<close>.\<close>

definition symbols_below :: "nat list \<Rightarrow> nat \<Rightarrow> nat \<Rightarrow> nat list" where
  "symbols_below sizes k l = filter (\<lambda>s. sizes ! s = l) [0..<k]"

lemma symbols_below_simps [simp]:
  "symbols_below sizes 0 l = []"
  "symbols_below sizes (Suc k) l = symbols_below sizes k l @ (if sizes ! k = l then [k] else [])"
  "symbols_below sizes (length sizes) l = symbols_of_size sizes l"
  by (simp_all add: symbols_below_def symbols_of_size_def)

lemma length_symbols_below:
  "k \<le> length sizes \<Longrightarrow> length (symbols_below sizes k l) \<le> size_count sizes l"
proof -
  assume "k \<le> length sizes"
  then have "[0..<length sizes] = [0..<k] @ [k..<length sizes]"
    using upt_add_eq_append [of 0 k "length sizes - k"] by simp
  then show ?thesis by (simp add: symbols_below_def size_count_def symbols_of_size_def)
qed

lemma length_symbols_below_less:
  assumes "k < length sizes" "sizes ! k = l"
  shows "length (symbols_below sizes k l) < size_count sizes l"
proof -
  have "length (symbols_below sizes (Suc k) l) \<le> size_count sizes l"
    using assms by (intro length_symbols_below) simp
  then show ?thesis using assms(2) by simp
qed

lemma upt_step: "k < n \<Longrightarrow> [k..<n] = k # [Suc k..<n]"
  by (rule upt_conv_Cons)

lemma count_code_sizes_spec:
  assumes "n = length sizes" "k \<le> n" "length counts = max_size + 1"
    and "\<forall>l \<le> max_size. counts ! l = int (length (symbols_below sizes k l))"
  shows "case count_code_sizes max_size (sizes @ tail) [k..<n] counts of
      Inl e \<Rightarrow> e = RUNTIME_VALUE_OUT_OF_BOUNDS \<and> (\<exists>s \<in> {k..<n}. sizes ! s > max_size)
    | Inr counts' \<Rightarrow> (\<forall>s \<in> {k..<n}. sizes ! s \<le> max_size) \<and> length counts' = max_size + 1 \<and>
        (\<forall>l \<le> max_size. counts' ! l = int (size_count sizes l))"
  using assms(2-4)
proof (induction "n - k" arbitrary: k counts)
  case 0
  then show ?case using assms(1) by (simp add: size_count_def)
next
  case (Suc d)
  then have k: "k < n" by simp
  have rd: "rd (sizes @ tail) k = Inr (sizes ! k)"
    using k assms(1) by (simp add: nth_append)
  show ?case
  proof (cases "sizes ! k > max_size")
    case True
    then show ?thesis using k rd by (auto simp: upt_step)
  next
    case False
    let ?c = "counts[sizes ! k := counts ! (sizes ! k) + 1]"
    have "\<forall>l \<le> max_size. ?c ! l = int (length (symbols_below sizes (Suc k) l))"
      using Suc.prems False by (auto simp: nth_list_update)
    then have "case count_code_sizes max_size (sizes @ tail) [Suc k..<n] ?c of
        Inl e \<Rightarrow> e = RUNTIME_VALUE_OUT_OF_BOUNDS \<and> (\<exists>s \<in> {Suc k..<n}. sizes ! s > max_size)
      | Inr counts' \<Rightarrow> (\<forall>s \<in> {Suc k..<n}. sizes ! s \<le> max_size) \<and> length counts' = max_size + 1 \<and>
          (\<forall>l \<le> max_size. counts' ! l = int (size_count sizes l))"
      using Suc.hyps(1) [of "Suc k" ?c] Suc.hyps(2) Suc.prems k by simp
    moreover have "count_code_sizes max_size (sizes @ tail) [k..<n] counts =
        count_code_sizes max_size (sizes @ tail) [Suc k..<n] ?c"
      using rd False Suc.prems(2) by (simp add: upt_step [OF k])
    moreover have "{k..<n} = insert k {Suc k..<n}" using k by auto
    ultimately show ?thesis using False by (auto split: sum.splits)
  qed
qed

text \<open>The codes of at most \<open>b\<close> bits use this part of the \<open>2 ^ b\<close> bit patterns.\<close>

definition used_codes :: "nat list \<Rightarrow> nat \<Rightarrow> nat" where
  "used_codes sizes b = (if b = 0 then 0 else first_code sizes b + size_count sizes b)"

lemma used_codes_Suc: "used_codes sizes (Suc b) = 2 * used_codes sizes b + size_count sizes (Suc b)"
  by (simp add: used_codes_def)

lemma check_code_sizes_spec:
  assumes "length counts = m + 1" "\<forall>l \<le> m. counts ! l = int (size_count sizes l)" "b \<le> m"
    and "used_codes sizes b \<le> 2 ^ b"
  shows "case check_code_sizes counts [Suc b..<m + 1] (2 ^ b - int (used_codes sizes b)) of
      Inl e \<Rightarrow> e = RUNTIME_VALUE_OUT_OF_BOUNDS \<and> (\<exists>l \<in> {Suc b..m}. used_codes sizes l > 2 ^ l)
    | Inr _ \<Rightarrow> \<forall>l \<in> {Suc b..m}. used_codes sizes l \<le> 2 ^ l"
  using assms(3-4)
proof (induction "m - b" arbitrary: b)
  case 0
  then show ?case by simp
next
  case (Suc d)
  then have b: "Suc b \<le> m" by simp
  then have upt: "[Suc b..<m + 1] = Suc b # [Suc (Suc b)..<m + 1]"
    by (simp add: upt_conv_Cons del: upt_Suc)
  have "{Suc b..m} = insert (Suc b) {Suc (Suc b)..m}" using b by auto
  have left: "push_bit 1 (2 ^ b - int (used_codes sizes b)) - int (size_count sizes (Suc b)) =
      2 ^ Suc b - int (used_codes sizes (Suc b))"
    by (simp add: push_bit_eq_mult used_codes_Suc)
  have rd: "rd counts (Suc b) = Inr (int (size_count sizes (Suc b)))"
    using assms(1,2) b by simp
  show ?case
  proof (cases "used_codes sizes (Suc b) \<le> 2 ^ Suc b")
    case True
    then have "int (used_codes sizes (Suc b)) \<le> 2 ^ Suc b"
      by (simp only: of_nat_le_numeral_power_cancel_iff)
    then have "\<not> 2 ^ Suc b - int (used_codes sizes (Suc b)) < 0" by linarith
    then have "check_code_sizes counts [Suc b..<m + 1] (2 ^ b - int (used_codes sizes b)) =
        check_code_sizes counts [Suc (Suc b)..<m + 1] (2 ^ Suc b - int (used_codes sizes (Suc b)))"
      unfolding upt using rd by (simp only: check_code_sizes.simps bindR_simps Let_def left if_False)
    with Suc.hyps(1) [of "Suc b"] Suc.hyps(2) b True \<open>{Suc b..m} = _\<close> show ?thesis
      by (auto split: sum.splits)
  next
    case False
    then have "\<not> int (used_codes sizes (Suc b)) \<le> 2 ^ Suc b"
      by (simp only: of_nat_le_numeral_power_cancel_iff not_False_eq_True)
    then have "2 ^ Suc b - int (used_codes sizes (Suc b)) < 0" by linarith
    then have "check_code_sizes counts [Suc b..<m + 1] (2 ^ b - int (used_codes sizes b)) =
        Inl RUNTIME_VALUE_OUT_OF_BOUNDS"
      unfolding upt using rd by (simp only: check_code_sizes.simps bindR_simps Let_def left if_True)
    with False \<open>{Suc b..m} = _\<close> show ?thesis by auto
  qed
qed

lemma calculate_symbol_offsets_spec:
  assumes "length counts = m + 1" "\<forall>l \<le> m. counts ! l = int (size_count sizes l)"
    and "1 \<le> b" "b \<le> m" "length offsets = m + 1"
    and "\<forall>l \<in> {1..b}. offsets ! l = int (first_offset sizes l)"
  shows "\<exists>offsets'. calculate_symbol_offsets counts [b..<m] offsets = Inr offsets' \<and>
    length offsets' = m + 1 \<and> (\<forall>l \<in> {1..m}. offsets' ! l = int (first_offset sizes l))"
  using assms(3-6)
proof (induction "m - b" arbitrary: b offsets)
  case 0
  then show ?case by simp
next
  case (Suc d)
  then have b: "b < m" by simp
  let ?o = "offsets[b + 1 := int (first_offset sizes b) + int (size_count sizes b)]"
  have "\<forall>l \<in> {1..Suc b}. ?o ! l = int (first_offset sizes l)"
    using Suc.prems b by (auto simp: nth_list_update first_offset_Suc le_Suc_eq)
  moreover have "calculate_symbol_offsets counts [b..<m] offsets =
      calculate_symbol_offsets counts [Suc b..<m] ?o"
    using Suc.prems b assms(1,2) by (simp add: upt_step [OF b])
  ultimately show ?case
    using Suc.hyps(1) [of "Suc b" ?o] Suc.hyps(2) Suc.prems b by simp
qed

lemma first_offset_mono: "l \<le> l' \<Longrightarrow> first_offset sizes l \<le> first_offset sizes l'"
  unfolding first_offset_def by (rule sum_mono2) auto

lemma first_offset_less:
  assumes "1 \<le> l" "l < l'" "r < size_count sizes l"
  shows "first_offset sizes l + r < first_offset sizes l'"
  using assms first_offset_mono [of "Suc l" l' sizes] first_offset_Suc [of l sizes] by simp

lemma sum_filter_le:
  "finite A \<Longrightarrow> (\<Sum>j \<in> A. length (filter (\<lambda>s. f s = j) xs)) \<le> length xs"
proof (induction xs)
  case Nil
  then show ?case by simp
next
  case (Cons x xs)
  have "(\<Sum>j \<in> A. length (filter (\<lambda>s. f s = j) (x # xs))) =
      (\<Sum>j \<in> A. length (filter (\<lambda>s. f s = j) xs) + (if f x = j then 1 else 0))"
    by (rule sum.cong) auto
  also have "\<dots> = (\<Sum>j \<in> A. length (filter (\<lambda>s. f s = j) xs)) + (if f x \<in> A then 1 else 0)"
    using Cons.prems by (simp add: sum.distrib)
  also have "\<dots> \<le> length (x # xs)" using Cons by auto
  finally show ?case .
qed

lemma first_offset_le: "first_offset sizes l \<le> length sizes"
  using sum_filter_le [of "{1..<l}" "(!) sizes" "[0..<length sizes]"]
  by (simp add: first_offset_def size_count_def symbols_of_size_def)

text \<open>The symbols below \<open>k\<close> stand at their places.\<close>

definition sorted_below :: "nat list \<Rightarrow> nat \<Rightarrow> nat \<Rightarrow> nat list \<Rightarrow> bool" where
  "sorted_below sizes m k syms \<longleftrightarrow>
     (\<forall>l \<in> {1..m}. \<forall>r < length (symbols_below sizes k l).
        syms ! (first_offset sizes l + r) = symbols_below sizes k l ! r)"

lemma sorted_below_step:
  assumes sorted: "sorted_below sizes m k syms" and k: "k < length sizes"
    and size: "1 \<le> sizes ! k" "sizes ! k \<le> m" and len: "length sizes \<le> length syms"
  defines "p \<equiv> first_offset sizes (sizes ! k) + length (symbols_below sizes k (sizes ! k))"
  shows "sorted_below sizes m (Suc k) (syms[p := k])" "p < length sizes"
proof -
  let ?L = "sizes ! k"
  have below: "length (symbols_below sizes k ?L) < size_count sizes ?L"
    using length_symbols_below_less [OF k] by simp
  then have "p < first_offset sizes (Suc ?L)"
    using first_offset_Suc [OF size(1)] by (simp add: p_def)
  then show p: "p < length sizes" using first_offset_le [of sizes "Suc ?L"] by simp
  have other: "first_offset sizes l + r \<noteq> p"
    if "l \<in> {1..m}" "l \<noteq> ?L" "r < length (symbols_below sizes k l)" for l r
  proof (cases "l < ?L")
    case True
    have "r < size_count sizes l"
      using that(3) length_symbols_below [of k sizes l] k by simp
    with first_offset_less [of l ?L r sizes] True that(1) show ?thesis by (simp add: p_def)
  next
    case False
    with that have "?L < l" by simp
    with first_offset_less [OF size(1) this below] show ?thesis by (simp add: p_def)
  qed
  show "sorted_below sizes m (Suc k) (syms[p := k])"
    unfolding sorted_below_def
  proof (intro ballI allI impI)
    fix l r assume l: "l \<in> {1..m}" and r: "r < length (symbols_below sizes (Suc k) l)"
    show "syms[p := k] ! (first_offset sizes l + r) = symbols_below sizes (Suc k) l ! r"
    proof (cases "l = ?L")
      case True
      then show ?thesis using sorted l r p len
        by (auto simp: sorted_below_def p_def nth_append nth_list_update less_Suc_eq)
    next
      case False
      then show ?thesis using sorted l r other [OF l False, of r]
        by (auto simp: sorted_below_def nth_list_update)
    qed
  qed
qed

lemma fill_symbols_spec:
  assumes n: "n = length sizes" "n \<le> length syms" and small: "\<forall>s < n. sizes ! s \<le> m"
    and "k \<le> n" "length offsets = m + 1" "sorted_below sizes m k syms"
    and "\<forall>l \<in> {1..m}. offsets ! l = int (first_offset sizes l + length (symbols_below sizes k l))"
  shows "\<exists>syms'. fill_symbols (int n) (sizes @ tail) [k..<n] offsets syms = Inr syms' \<and>
    length syms' = length syms \<and> sorted_below sizes m n syms'"
  using assms(2,4-7)
proof (induction "n - k" arbitrary: k offsets syms)
  case 0
  then show ?case by simp
next
  case (Suc d)
  then have k: "k < n" by simp
  let ?L = "sizes ! k"
  let ?p = "first_offset sizes ?L + length (symbols_below sizes k ?L)"
  have rd: "rd (sizes @ tail) k = Inr ?L" using k n by (simp add: nth_append)
  have L: "?L \<le> m" using small k by simp
  show ?case
  proof (cases "?L = 0")
    case True
    have "\<forall>l \<in> {1..m}. symbols_below sizes (Suc k) l = symbols_below sizes k l"
      using True by auto
    with Suc.hyps(1) [of "Suc k" syms offsets] Suc.hyps(2) Suc.prems k rd True show ?thesis
      by (simp add: upt_step [OF k] sorted_below_def)
  next
    case False
    then have pos: "1 \<le> ?L" by simp
    note step = sorted_below_step [OF Suc.prems(4) k [unfolded n(1)] pos L]
    have p: "?p < n" and sorted: "sorted_below sizes m (Suc k) (syms[?p := k])"
      using step n Suc.prems(1) by simp_all
    let ?o = "offsets[?L := int ?p + 1]"
    have at: "offsets ! ?L = int ?p" using Suc.prems(5) pos L by simp
    have "\<forall>l \<in> {1..m}. ?o ! l = int (first_offset sizes l + length (symbols_below sizes (Suc k) l))"
      using Suc.prems(3,5) L by (auto simp: nth_list_update)
    moreover have "fill_symbols (int n) (sizes @ tail) [k..<n] offsets syms =
        fill_symbols (int n) (sizes @ tail) [Suc k..<n] ?o (syms[?p := k])"
      using rd False at L p Suc.prems(1,3)
      by (simp add: upt_step [OF k] nat_add_distrib)
    ultimately show ?thesis
      using Suc.hyps(1) [of "Suc k" "syms[?p := k]" ?o] Suc.hyps(2) Suc.prems sorted k by simp
  qed
qed

text \<open>
  Building succeeds on code sizes that fit the tree and are not over-subscribed, and then the
  tree holds their canonical codes; it fails with the library's error otherwise.
\<close>

definition valid_sizes :: "nat \<Rightarrow> nat list \<Rightarrow> bool" where
  "valid_sizes m sizes \<longleftrightarrow>
     (\<forall>s < length sizes. sizes ! s \<le> m) \<and> (\<forall>l \<in> {1..m}. used_codes sizes l \<le> 2 ^ l)"

lemma all_unused:
  "size_count sizes 0 = length sizes \<longleftrightarrow> (\<forall>s < length sizes. sizes ! s = 0)"
proof
  assume "size_count sizes 0 = length sizes"
  then show "\<forall>s < length sizes. sizes ! s = 0"
    using length_filter_less [of _ "[0..<length sizes]" "\<lambda>s. sizes ! s = 0"]
    by (fastforce simp: size_count_def symbols_of_size_def)
qed (simp add: size_count_def symbols_of_size_def)

lemma tree_of_sizesI:
  assumes "1 \<le> maximum_code_size tree" "length (code_size_counts tree) = maximum_code_size tree + 1"
    and "\<forall>l \<le> maximum_code_size tree. code_size_counts tree ! l = int (size_count sizes l)"
    and "sorted_below sizes (maximum_code_size tree) (length sizes) (symbols tree)"
    and "length sizes \<le> length (symbols tree)" "valid_sizes (maximum_code_size tree) sizes"
  shows "tree_of_sizes sizes tree"
proof -
  have "first_offset sizes l + r < length (symbols tree)"
    if "1 \<le> l" "r < size_count sizes l" for l r
    using first_offset_less [of l "Suc l" r sizes] first_offset_le [of sizes "Suc l"] that assms(5)
    by simp
  then show ?thesis
    using assms
    by (auto simp: tree_of_sizes_def valid_sizes_def used_codes_def sorted_below_def size_count_def)
qed

lemma huffman_tree_build_spec:
  assumes "1 \<le> maximum_code_size tree" "length sizes \<le> 32767" "length sizes \<le> length (symbols tree)"
  shows "case huffman_tree_build tree (sizes @ tail) (int (length sizes)) of
      Inl e \<Rightarrow> e = RUNTIME_VALUE_OUT_OF_BOUNDS \<and> \<not> valid_sizes (maximum_code_size tree) sizes
    | Inr (b, tree') \<Rightarrow> maximum_code_size tree' = maximum_code_size tree \<and>
        (b \<longleftrightarrow> (\<exists>s < length sizes. sizes ! s \<noteq> 0)) \<and>
        (b \<longrightarrow> valid_sizes (maximum_code_size tree) sizes \<and> tree_of_sizes sizes tree')"
proof -
  let ?m = "maximum_code_size tree" and ?n = "length sizes"
  let ?counting = "count_code_sizes ?m (sizes @ tail) [0..<?n] (replicate (?m + 1) 0)"
  have counting: "case ?counting of
      Inl e \<Rightarrow> e = RUNTIME_VALUE_OUT_OF_BOUNDS \<and> (\<exists>s \<in> {0..<?n}. sizes ! s > ?m)
    | Inr counts \<Rightarrow> (\<forall>s \<in> {0..<?n}. sizes ! s \<le> ?m) \<and> length counts = ?m + 1 \<and>
        (\<forall>l \<le> ?m. counts ! l = int (size_count sizes l))"
    by (rule count_code_sizes_spec) (simp_all del: replicate_Suc)
  show ?thesis
  proof (cases ?counting)
    case (Inl e)
    with counting assms show ?thesis
      by (auto simp: huffman_tree_build_def valid_sizes_def Let_def not_le)
  next
    case (Inr counts)
    with counting have counts: "length counts = ?m + 1" "\<forall>l \<le> ?m. counts ! l = int (size_count sizes l)"
      and small: "\<forall>s < ?n. sizes ! s \<le> ?m" by auto
    let ?kraft = "check_code_sizes counts [1..<?m + 1] 1"
    have kraft: "case ?kraft of
        Inl e \<Rightarrow> e = RUNTIME_VALUE_OUT_OF_BOUNDS \<and> (\<exists>l \<in> {1..?m}. used_codes sizes l > 2 ^ l)
      | Inr _ \<Rightarrow> \<forall>l \<in> {1..?m}. used_codes sizes l \<le> 2 ^ l"
      using check_code_sizes_spec [OF counts, of 0]
      by (simp add: used_codes_def del: upt_Suc split: sum.splits)
    have "\<exists>offsets. calculate_symbol_offsets counts [1..<?m] (replicate (?m + 1) 0) = Inr offsets \<and>
        length offsets = ?m + 1 \<and> (\<forall>l \<in> {1..?m}. offsets ! l = int (first_offset sizes l))"
      using assms(1) by (intro calculate_symbol_offsets_spec [OF counts])
        (auto simp: first_offset_def simp del: replicate_Suc)
    then obtain offsets where
      offsets: "calculate_symbol_offsets counts [1..<?m] (replicate (?m + 1) 0) = Inr offsets"
      "length offsets = ?m + 1" "\<forall>l \<in> {1..?m}. offsets ! l = int (first_offset sizes l)" by blast
    obtain syms where syms:
      "fill_symbols (int ?n) (sizes @ tail) [0..<?n] offsets (symbols tree) = Inr syms"
      "length syms = length (symbols tree)" "sorted_below sizes ?m ?n syms"
      using fill_symbols_spec [OF refl assms(3) small _ offsets(2), of 0 tail] offsets(3)
      by (auto simp: sorted_below_def)
    have build: "huffman_tree_build tree (sizes @ tail) (int ?n) =
        (if size_count sizes 0 = ?n then Inr (False, tree\<lparr>code_size_counts := counts\<rparr>)
         else bindR ?kraft (\<lambda>_. Inr (True, tree\<lparr>code_size_counts := counts, symbols := syms\<rparr>)))"
      using assms Inr counts offsets(1) syms(1)
      by (simp add: huffman_tree_build_def Let_def del: upt_Suc replicate_Suc)
    have "valid_sizes ?m sizes \<Longrightarrow>
        tree_of_sizes sizes (tree\<lparr>code_size_counts := counts, symbols := syms\<rparr>)"
      using assms counts syms by (intro tree_of_sizesI) simp_all
    with kraft small show ?thesis
      unfolding build by (auto simp: all_unused valid_sizes_def not_le split: sum.splits)
  qed
qed

section \<open>Properties\<close>

text \<open>
  Building a tree from code sizes fails exactly when a size exceeds the maximum or the
  sizes are over-subscribed, reports a tree without codes exactly when all sizes are zero, and
  otherwise leaves the symbols sorted by their canonical codes.
\<close>

theorem huffman_tree_build_correct:
  assumes "1 \<le> maximum_code_size tree" "length sizes \<le> 32767" "length sizes \<le> length (symbols tree)"
  shows "case huffman_tree_build tree (sizes @ tail) (int (length sizes)) of
      Inl e \<Rightarrow> e = RUNTIME_VALUE_OUT_OF_BOUNDS \<and> \<not> valid_sizes (maximum_code_size tree) sizes
    | Inr (b, tree') \<Rightarrow> (b \<longleftrightarrow> (\<exists>s < length sizes. sizes ! s \<noteq> 0)) \<and>
        (b \<longrightarrow> valid_sizes (maximum_code_size tree) sizes \<and> tree_of_sizes sizes tree')"
  using huffman_tree_build_spec [OF assms, of tail] by (auto split: sum.splits)

theorem huffman_tree_build_correct_witness:
  "case huffman_tree_build \<lparr>maximum_code_size = 2, symbols = [0, 0, 0], code_size_counts = [0, 0, 0]\<rparr>
       ([1, 2, 2] @ [7]) (int (length [1, 2, 2 :: nat])) of
      Inl e \<Rightarrow> e = RUNTIME_VALUE_OUT_OF_BOUNDS \<and> \<not> valid_sizes 2 [1, 2, 2]
    | Inr (b, tree') \<Rightarrow> b \<and> tree_of_sizes [1, 2, 2] tree'"
  using huffman_tree_build_correct
    [of "\<lparr>maximum_code_size = 2, symbols = [0, 0, 0], code_size_counts = [0, 0, 0]\<rparr>" "[1, 2, 2]" "[7]"]
  by (auto split: sum.splits)

text \<open>
  With a tree built from code sizes, decoding returns a symbol exactly when the stream
  starts with its canonical code, and leaves the bits after the code; otherwise it fails with
  the library's own error and never reads outside its tables.
\<close>

theorem huffman_tree_decode_correct:
  assumes "huffman_tree_build tree0 sizes (int (length sizes)) = Inr (True, tree)"
    and "length sizes \<le> 32767" "length sizes \<le> length (symbols tree0)" "bs_inv bs"
  shows "((\<exists>bs'. huffman_tree_get_symbol_from_bit_stream tree bs = Inr (s, bs') \<and> stream_bits bs' = rest) \<longleftrightarrow>
      s < length sizes \<and> 0 < sizes ! s \<and> stream_bits bs = code_bits sizes s @ rest) \<and>
    huffman_tree_get_symbol_from_bit_stream tree bs \<noteq> Inl OUT_OF_BOUNDS_ACCESS"
proof -
  have "1 \<le> maximum_code_size tree0"
    using assms(1) by (cases "maximum_code_size tree0") (auto simp: huffman_tree_build_def)
  from huffman_tree_build_spec [OF this assms(2,3), of "[]"] assms(1) have tree: "tree_of_sizes sizes tree" by simp
  note sound = huffman_tree_get_symbol_sound [OF tree assms(4)]
  show ?thesis
    using sound huffman_tree_get_symbol_decodes [OF tree assms(4), of s rest] by (auto split: sum.splits)
qed

theorem huffman_tree_decode_correct_witness:
  "\<exists>bs'. huffman_tree_get_symbol_from_bit_stream
        \<lparr>maximum_code_size = 2, symbols = [0, 1, 2], code_size_counts = [0, 1, 2]\<rparr>
        \<lparr>byte_stream = [3], byte_stream_size = 1, byte_stream_offset = 0, storage_type = BYTE_BACK_TO_FRONT,
         bit_buffer = 0, bit_buffer_size = 0\<rparr> = Inr (2, bs') \<and> stream_bits bs' = replicate 6 False"
proof -
  let ?bs = "\<lparr>byte_stream = [3], byte_stream_size = 1, byte_stream_offset = 0,
     storage_type = BYTE_BACK_TO_FRONT, bit_buffer = 0, bit_buffer_size = 0\<rparr>"
  let ?tree0 = "\<lparr>maximum_code_size = 2, symbols = [0, 0, 0], code_size_counts = [0, 0, 0]\<rparr>"
  let ?tree = "\<lparr>maximum_code_size = 2, symbols = [0, 1, 2], code_size_counts = [0, 1, 2]\<rparr>"
  have "huffman_tree_build ?tree0 [1, 2, 2] (int (length [1, 2, 2 :: nat])) = Inr (True, ?tree)" by code_simp
  moreover have "stream_bits ?bs = code_bits [1, 2, 2] 2 @ replicate 6 False" by code_simp
  ultimately show ?thesis
    using huffman_tree_decode_correct [of ?tree0 "[1, 2, 2]" ?tree ?bs 2 "replicate 6 False"]
    by (simp add: bs_inv_def)
qed

end
