(* ===== verification/Adler32.thy ===== *)
theory Adler32
  imports Apfs_Prelude
begin

text \<open>
  The Adler-32 checksum of \<open>libfsapfs_deflate.c\<close>: sums of 32-bit words over blocks of 5552
  bytes, each followed by a reduction modulo 65521 without division. The specification is the
  pair of sums over the natural numbers, reduced once.
\<close>

section \<open>The calculation\<close>

text \<open>One step of the unrolled loops: \<open>lower_word += data[ data_offset++ ]; upper_word += lower_word\<close>.\<close>

fun adler_step :: "32 word \<times> 32 word \<Rightarrow> byte \<Rightarrow> 32 word \<times> 32 word" where
  "adler_step (lower_word, upper_word) b = (lower_word + ucast b, upper_word + (lower_word + ucast b))"

definition adler_steps :: "32 word \<times> 32 word \<Rightarrow> bytes \<Rightarrow> 32 word \<times> 32 word" where
  "adler_steps s bs = foldl adler_step s bs"

text \<open>\<open>n\<close> passes over the body of 16 unrolled steps, with the data that remains.\<close>

fun adler_sixteens :: "nat \<Rightarrow> 32 word \<times> 32 word \<Rightarrow> bytes \<Rightarrow> (32 word \<times> 32 word) \<times> bytes" where
  "adler_sixteens 0 s bs = (s, bs)"
| "adler_sixteens (Suc n) s bs = adler_sixteens n (adler_steps s (take 16 bs)) (drop 16 bs)"

text \<open>The optimized equivalent of \<open>w %= 0xfff1\<close>.\<close>

definition adler_fold :: "32 word \<Rightarrow> 32 word" where
  "adler_fold w = (let v = drop_bit 16 w in (w AND 0xffff) + (push_bit 4 v - v))"

definition adler_reduce :: "32 word \<Rightarrow> 32 word" where
  "adler_reduce w =
     (let w = adler_fold w;
          w = (if w > 65521 then adler_fold w else w)
      in if w \<ge> 65521 then w - 65521 else w)"

function adler_blocks :: "32 word \<times> 32 word \<Rightarrow> bytes \<Rightarrow> (32 word \<times> 32 word) \<times> bytes" where
  "adler_blocks s bs =
     (if length bs \<ge> 0x15b0 then
        (case adler_sixteens 347 s bs of ((lower_word, upper_word), bs') \<Rightarrow>
           adler_blocks (adler_reduce lower_word, adler_reduce upper_word) (drop 0x15b0 bs))
      else (s, bs))"
  by pat_completeness auto
termination
  by (relation "measure (\<lambda>(_, bs). length bs)") auto

declare adler_blocks.simps [simp del]

text \<open>The remaining data: 16 bytes at a time while more than 16 remain, then byte by byte.\<close>

function adler_rest :: "32 word \<times> 32 word \<Rightarrow> bytes \<Rightarrow> 32 word \<times> 32 word" where
  "adler_rest s bs =
     (if length bs > 16 then adler_rest (adler_steps s (take 16 bs)) (drop 16 bs)
      else adler_steps s bs)"
  by pat_completeness auto
termination
  by (relation "measure (\<lambda>(_, bs). length bs)") auto

declare adler_rest.simps [simp del]

definition deflate_calculate_adler32 :: "bytes \<Rightarrow> 32 word \<Rightarrow> 32 word result" where
  "deflate_calculate_adler32 data initial_value =
     (if length data > SSIZE_MAX then Inl ARGUMENT_VALUE_EXCEEDS_MAXIMUM
      else
        let s = (initial_value AND 0xffff, drop_bit 16 initial_value AND 0xffff);
            (s, rest) = adler_blocks s data;
            (lower_word, upper_word) =
              (if rest \<noteq> [] then map_prod adler_reduce adler_reduce (adler_rest s rest) else s)
        in Inr (push_bit 16 upper_word OR lower_word))"

section \<open>Specification\<close>

fun adler_sums :: "nat \<times> nat \<Rightarrow> bytes \<Rightarrow> nat \<times> nat" where
  "adler_sums (a, b) [] = (a, b)"
| "adler_sums (a, b) (x # xs) = adler_sums (a + unat x, b + (a + unat x)) xs"

definition adler32 :: "nat \<Rightarrow> bytes \<Rightarrow> nat" where
  "adler32 v data =
     (case adler_sums (v mod 65536, v div 65536) data of
        (a, b) \<Rightarrow> 65536 * (b mod 65521) + a mod 65521)"

lemma adler_sums_Nil [simp]: "adler_sums s [] = s"
  by (cases s) simp

lemma adler_rest_eq: "adler_rest s bs = adler_steps s bs"
proof (induction s bs rule: adler_rest.induct)
  case (1 s bs)
  show ?case
  proof (cases "length bs > 16")
    case True
    with "1.IH" show ?thesis
      by (simp add: adler_rest.simps [of s bs] adler_steps_def flip: foldl_append)
  next
    case False
    then show ?thesis by (simp add: adler_rest.simps [of s bs])
  qed
qed

lemma adler_sixteens_eq:
  "16 * n \<le> length bs \<Longrightarrow>
     adler_sixteens n s bs = (adler_steps s (take (16 * n) bs), drop (16 * n) bs)"
proof (induction n arbitrary: s bs)
  case (Suc n)
  then show ?case
    by (simp add: adler_steps_def take_add add.commute flip: foldl_append)
qed (simp add: adler_steps_def)

lemma unat_adler_fold:
  "unat (adler_fold w) = unat w mod 65536 + 15 * (unat w div 65536)"
proof -
  let ?v = "drop_bit 16 w"
  have v: "unat ?v = unat w div 65536" by (simp add: unat_drop_bit_eq drop_bit_eq_div unat_div_distrib)
  have "unat w < 2 ^ 32" using unsigned_less [of w] by simp
  then have bound: "unat w div 65536 < 65536" by (simp add: div_less_iff_less_mult)
  have "push_bit 4 ?v - ?v = 15 * ?v"
    by (simp add: push_bit_eq_mult algebra_simps)
  then have "unat (push_bit 4 ?v - ?v) = (15 * (unat w div 65536)) mod 2 ^ 32"
    by (simp add: unat_word_ariths v)
  also have "\<dots> = 15 * (unat w div 65536)" using bound by simp
  finally have high: "unat (push_bit 4 ?v - ?v) = 15 * (unat w div 65536)" .
  have "w AND 0xffff = take_bit 16 w" by (simp add: take_bit_eq_mask mask_eq_exp_minus_1)
  then have low: "unat (w AND 0xffff) = unat w mod 65536"
    by (simp add: unsigned_take_bit_eq take_bit_eq_mod unat_mod_distrib)
  show ?thesis
    using bound by (simp add: adler_fold_def Let_def unat_word_ariths low high)
qed

lemma adler_fold_mod: "unat (adler_fold w) mod 65521 = unat w mod 65521"
proof -
  have "unat w = unat w mod 65536 + 65536 * (unat w div 65536)" by simp
  then have "unat w = unat (adler_fold w) + 65521 * (unat w div 65536)"
    by (simp add: unat_adler_fold)
  then show ?thesis by (metis mod_mult_self2)
qed

lemma unat_adler_reduce: "unat (adler_reduce w) = unat w mod 65521"
proof -
  define x where "x = adler_fold w"
  define y where "y = (if x > 65521 then adler_fold x else x)"
  have "unat w < 2 ^ 32" using unsigned_less [of w] by simp
  then have "unat w div 65536 < 65536" by (simp add: div_less_iff_less_mult)
  then have x: "unat x \<le> 1048560"
    using mod_less_divisor [of 65536 "unat w"] unfolding x_def unat_adler_fold by linarith
  have y: "unat y \<le> 65745"
  proof (cases "x > 65521")
    case True
    have "unat x mod 65536 + 15 * (unat x div 65536) \<le> 65745"
      using x div_mult_mod_eq [of "unat x" 65536] mod_less_divisor [of 65536 "unat x"]
      by (cases "unat x div 65536 \<le> 14") linarith+
    then show ?thesis using True by (simp add: y_def unat_adler_fold)
  next
    case False
    then show ?thesis by (simp add: y_def word_less_nat_alt)
  qed
  have "unat y mod 65521 = unat w mod 65521"
    by (simp add: y_def x_def adler_fold_mod)
  moreover have "unat (adler_reduce w) = (if unat y \<ge> 65521 then unat y - 65521 else unat y)"
    by (simp add: adler_reduce_def Let_def x_def y_def word_le_nat_alt unat_sub)
  ultimately show ?thesis
    using y by (auto simp: mod_if [of "unat y"] split: if_splits)
qed

text \<open>No sum wraps within a block: the bound of 5552 bytes is chosen for that.\<close>

lemma adler_sums_bound:
  "adler_sums (a, b) bs = (a', b') \<Longrightarrow>
     a' \<le> a + 255 * length bs \<and>
     b' \<le> b + length bs * a + 255 * (length bs * (length bs + 1) div 2)"
proof (induction bs arbitrary: a b)
  case Nil
  then show ?case by simp
next
  case (Cons x xs)
  have x: "unat x \<le> 255" by (rule unat_byte_le)
  let ?n = "length xs"
  have IH: "a' \<le> a + unat x + 255 * ?n"
    "b' \<le> b + (a + unat x) + ?n * (a + unat x) + 255 * (?n * (?n + 1) div 2)"
    using Cons.IH [of "a + unat x" "b + (a + unat x)"] Cons.prems by simp_all
  have "?n * unat x \<le> ?n * 255" using x by (rule mult_le_mono2)
  moreover have "Suc ?n * (Suc ?n + 1) div 2 = ?n * (?n + 1) div 2 + (?n + 1)"
  proof -
    have "Suc ?n * (Suc ?n + 1) = ?n * (?n + 1) + 2 * (?n + 1)" by (simp add: algebra_simps)
    then show ?thesis by simp
  qed
  ultimately have "b' \<le> b + Suc ?n * a + 255 * (Suc ?n * (Suc ?n + 1) div 2)"
    using IH(2) x by (simp only: distrib_left mult_Suc)
  with IH(1) x show ?case by simp
qed

lemma adler_sums_append: "adler_sums s (xs @ ys) = adler_sums (adler_sums s xs) ys"
proof (induction xs arbitrary: s)
  case Nil
  show ?case by (cases s) simp
next
  case (Cons x xs)
  then show ?case by (cases s) simp
qed

lemma adler_steps_sums:
  assumes "unat l = a" "unat u = b" "adler_sums (a, b) bs = (a', b')" "a' < 2 ^ 32" "b' < 2 ^ 32"
  shows "unat (fst (adler_steps (l, u) bs)) = a'" "unat (snd (adler_steps (l, u) bs)) = b'"
proof -
  have mono: "a \<le> a' \<and> b \<le> b'" if "adler_sums (a, b) bs = (a', b')" for a b a' b' bs
    using that by (induction bs arbitrary: a b) force+
  have "unat (fst (adler_steps (l, u) bs)) = a' \<and> unat (snd (adler_steps (l, u) bs)) = b'"
    using assms
  proof (induction bs arbitrary: l u a b)
    case Nil
    then show ?case by (simp add: adler_steps_def)
  next
    case (Cons x xs)
    have next_sums: "adler_sums (a + unat x, b + (a + unat x)) xs = (a', b')"
      using Cons.prems(3) by simp
    have "a + unat x < 2 ^ 32" "b + (a + unat x) < 2 ^ 32"
      using mono [OF next_sums] Cons.prems(4,5) by simp_all
    then have "unat (l + ucast x) = a + unat x" "unat (u + (l + ucast x)) = b + (a + unat x)"
      using Cons.prems(1,2) by (simp_all add: unat_word_ariths)
    from Cons.IH [OF this next_sums Cons.prems(4,5)] show ?case
      by (simp add: adler_steps_def)
  qed
  then show "unat (fst (adler_steps (l, u) bs)) = a'" "unat (snd (adler_steps (l, u) bs)) = b'"
    by simp_all
qed

text \<open>A pair of words that represents a pair of sums up to the modulus.\<close>

definition adler_rep :: "32 word \<times> 32 word \<Rightarrow> nat \<times> nat \<Rightarrow> bool" where
  "adler_rep s t \<longleftrightarrow>
     unat (fst s) mod 65521 = fst t mod 65521 \<and> unat (snd s) mod 65521 = snd t mod 65521"

definition adler_small :: "32 word \<times> 32 word \<Rightarrow> bool" where
  "adler_small s \<longleftrightarrow> unat (fst s) < 65521 \<and> unat (snd s) < 65521"

lemma adler_sums_cong:
  assumes "fst s mod 65521 = fst t mod 65521" "snd s mod 65521 = snd t mod 65521"
  shows "fst (adler_sums s bs) mod 65521 = fst (adler_sums t bs) mod 65521 \<and>
    snd (adler_sums s bs) mod 65521 = snd (adler_sums t bs) mod 65521"
  using assms
proof (induction bs arbitrary: s t)
  case Nil
  then show ?case by (cases s; cases t) simp
next
  case (Cons x xs)
  obtain a b c d where [simp]: "s = (a, b)" "t = (c, d)" by (cases s, cases t)
  have first: "(a + unat x) mod 65521 = (c + unat x) mod 65521"
    using Cons.prems by (intro mod_add_cong) simp_all
  then have "(b + (a + unat x)) mod 65521 = (d + (c + unat x)) mod 65521"
    using Cons.prems by (intro mod_add_cong) simp_all
  with first Cons.IH [of "(a + unat x, b + (a + unat x))" "(c + unat x, d + (c + unat x))"]
  show ?case by simp
qed

text \<open>A block of at most 5552 bytes from small sums, then the reduction.\<close>

lemma adler_block:
  assumes "adler_small s" "adler_rep s t" "length bs \<le> 5552"
  shows "adler_small (map_prod adler_reduce adler_reduce (adler_steps s bs))"
    and "adler_rep (map_prod adler_reduce adler_reduce (adler_steps s bs)) (adler_sums t bs)"
proof -
  obtain l u where s: "s = (l, u)" by force
  obtain a b where sums: "adler_sums (unat l, unat u) bs = (a, b)" by force
  let ?n = "length bs"
  have bounds: "a \<le> unat l + 255 * ?n" "b \<le> unat u + ?n * unat l + 255 * (?n * (?n + 1) div 2)"
    using adler_sums_bound [OF sums] by simp_all
  have small: "unat l \<le> 65520" "unat u \<le> 65520" using assms(1) s by (simp_all add: adler_small_def)
  have "?n * unat l \<le> 5552 * 65520" using assms(3) small(1) by (intro mult_le_mono) simp_all
  moreover have "?n * (?n + 1) div 2 \<le> 5552 * (5552 + 1) div 2"
    using assms(3) by (intro div_le_mono mult_le_mono) simp_all
  ultimately have "a < 2 ^ 32" "b < 2 ^ 32" using bounds small assms(3) by simp_all
  from adler_steps_sums [OF refl refl sums this] have steps:
    "unat (fst (adler_steps s bs)) = a" "unat (snd (adler_steps s bs)) = b" by (simp_all add: s)
  show "adler_small (map_prod adler_reduce adler_reduce (adler_steps s bs))"
    by (simp add: adler_small_def unat_adler_reduce)
  show "adler_rep (map_prod adler_reduce adler_reduce (adler_steps s bs)) (adler_sums t bs)"
    using adler_sums_cong [of "(unat l, unat u)" t bs] assms(2) sums steps
    by (simp add: adler_rep_def s unat_adler_reduce)
qed

lemma adler_blocks_rep:
  assumes "adler_small s" "adler_rep s t"
  shows "\<exists>pre rest s'. adler_blocks s bs = (s', rest) \<and> bs = pre @ rest \<and> length rest < 5552 \<and>
    adler_small s' \<and> adler_rep s' (adler_sums t pre)"
  using assms
proof (induction s bs arbitrary: t rule: adler_blocks.induct)
  case (1 s bs)
  show ?case
  proof (cases "length bs \<ge> 0x15b0")
    case True
    then have "length (take 5552 bs) \<le> 5552" by simp
    note block = adler_block [OF "1.prems" this]
    obtain l u where lu: "adler_steps s (take 5552 bs) = (l, u)" by force
    have sixteens: "adler_sixteens 347 s bs = ((l, u), drop 5552 bs)"
      using adler_sixteens_eq [of 347 bs s] True lu by simp
    have "adler_small (adler_reduce l, adler_reduce u)"
      "adler_rep (adler_reduce l, adler_reduce u) (adler_sums t (take 5552 bs))"
      using block lu by simp_all
    from "1.IH" [OF True sixteens [symmetric] refl this] obtain pre rest s' where
      "adler_blocks (adler_reduce l, adler_reduce u) (drop 0x15b0 bs) = (s', rest)"
      "drop 5552 bs = pre @ rest" "length rest < 5552" "adler_small s'"
      "adler_rep s' (adler_sums (adler_sums t (take 5552 bs)) pre)"
      by fastforce
    then have "adler_blocks s bs = (s', rest)" "bs = (take 5552 bs @ pre) @ rest"
      "length rest < 5552" "adler_small s'" "adler_rep s' (adler_sums t (take 5552 bs @ pre))"
      using True sixteens by (simp_all add: adler_blocks.simps [of s bs] adler_sums_append flip: append_assoc)
        (metis append_take_drop_id append_assoc)
    then show ?thesis by blast
  next
    case False
    with "1.prems" show ?thesis by (cases t) (simp add: adler_blocks.simps [of s bs])
  qed
qed

lemma combine_halves:
  assumes "unat l < 65536" "unat u < 65536"
  shows "unat (push_bit 16 u OR l :: 32 word) = 65536 * unat u + unat l"
proof -
  have "take_bit 16 l = l"
    using assms(1) by (intro word_unat_eq_iff [THEN iffD2])
      (simp add: unsigned_take_bit_eq take_bit_eq_mod unat_mod_distrib)
  then have "push_bit 16 u AND l = 0"
    using bit_beyond_take_bit [of 16 l] by (intro bit_word_eqI) (auto simp: bit_simps)
  then have "push_bit 16 u OR l = push_bit 16 u + l" by (simp add: disjunctive_add_eq_or)
  moreover have "push_bit 16 u = 65536 * u" by (simp add: push_bit_eq_mult mult.commute)
  ultimately show ?thesis using assms by (simp add: unat_word_ariths)
qed

section \<open>Correctness\<close>

definition adler_valid :: "nat \<Rightarrow> bool" where
  "adler_valid v \<longleftrightarrow> v mod 65536 < 65521 \<and> v div 65536 < 65521"

lemma word_halves:
  "unat (w AND 0xffff :: 32 word) = unat w mod 65536"
  "unat (drop_bit 16 w AND 0xffff :: 32 word) = unat w div 65536"
proof -
  have mask: "x AND 0xffff = take_bit 16 x" for x :: "32 word"
    by (simp add: take_bit_eq_mask mask_eq_exp_minus_1)
  show "unat (w AND 0xffff) = unat w mod 65536"
    by (simp add: mask unsigned_take_bit_eq take_bit_eq_mod unat_mod_distrib)
  have "unat w < 2 ^ 32" using unsigned_less [of w] by simp
  then have "unat w div 65536 < 65536" by (simp add: div_less_iff_less_mult)
  then show "unat (drop_bit 16 w AND 0xffff) = unat w div 65536"
    by (simp add: mask unsigned_take_bit_eq take_bit_eq_mod unat_mod_distrib drop_bit_eq_div
        unat_div_distrib)
qed

lemma deflate_calculate_adler32_correct:
  assumes "length data \<le> SSIZE_MAX" "adler_valid (unat v)"
  shows "\<exists>w. deflate_calculate_adler32 data v = Inr w \<and> unat w = adler32 (unat v) data \<and>
    adler_valid (unat w)"
proof -
  let ?s = "(v AND 0xffff, drop_bit 16 v AND 0xffff)" and ?t = "(unat v mod 65536, unat v div 65536)"
  have start: "adler_small ?s" "adler_rep ?s ?t"
    using assms(2) by (simp_all add: adler_small_def adler_rep_def adler_valid_def word_halves [of v])
  from adler_blocks_rep [OF this] obtain pre rest s' where
    blocks: "adler_blocks ?s data = (s', rest)" "data = pre @ rest" "length rest < 5552"
    "adler_small s'" "adler_rep s' (adler_sums ?t pre)" by blast
  define s'' where
    "s'' = (if rest \<noteq> [] then map_prod adler_reduce adler_reduce (adler_rest s' rest) else s')"
  have "adler_small s'' \<and> adler_rep s'' (adler_sums ?t data)"
    using adler_block [OF blocks(4,5), of rest] blocks(2-5)
    by (simp add: s''_def adler_rest_eq adler_sums_append)
  moreover obtain l u where lu: "s'' = (l, u)" by force
  moreover obtain a b where ab: "adler_sums ?t data = (a, b)" by force
  ultimately have halves: "unat l = a mod 65521" "unat u = b mod 65521"
    by (auto simp: adler_small_def adler_rep_def)
  have "unat l < 65521" "unat u < 65521" by (simp_all add: halves)
  then have combined: "unat (push_bit 16 u OR l) = 65536 * (b mod 65521) + a mod 65521"
    using combine_halves [of l u] by (simp add: halves)
  have "deflate_calculate_adler32 data v = Inr (push_bit 16 u OR l)"
    using assms(1) blocks(1) lu
    by (simp add: deflate_calculate_adler32_def Let_def s''_def)
  moreover have "adler_valid (65536 * (b mod 65521) + a mod 65521)"
  proof -
    have "a mod 65521 < 65536" "b mod 65521 < 65521" "a mod 65521 < 65521"
      using mod_less_divisor [of 65521 a] by simp_all
    then show ?thesis by (simp add: adler_valid_def)
  qed
  ultimately show ?thesis using combined ab by (simp add: adler32_def)
qed

text \<open>A checksum calculated piece by piece is the checksum of the whole.\<close>

lemma adler32_append:
  "adler32 v (xs @ ys) = adler32 (adler32 v xs) ys"
proof -
  obtain a b where ab: "adler_sums (v mod 65536, v div 65536) xs = (a, b)" by force
  have "a mod 65521 < 65536" using mod_less_divisor [of 65521 a] by simp
  then have "adler32 v xs mod 65536 = a mod 65521" "adler32 v xs div 65536 = b mod 65521"
    by (simp_all add: adler32_def ab)
  with adler_sums_cong [of "(a mod 65521, b mod 65521)" "(a, b)" ys] ab show ?thesis
    by (auto simp: adler32_def adler_sums_append split: prod.splits)
qed

section \<open>Properties\<close>

text \<open>
  The blockwise calculation with its reduction without division returns the Adler-32 of
  the data: the two sums modulo 65521 over the natural numbers. No 32-bit sum wraps.
\<close>

theorem calculate_adler32_correct:
  assumes "length data \<le> SSIZE_MAX" "adler_valid (unat v)"
  shows "\<exists>w. deflate_calculate_adler32 data v = Inr w \<and> unat w = adler32 (unat v) data"
  using deflate_calculate_adler32_correct [OF assms] by blast

theorem calculate_adler32_correct_witness:
  "\<exists>w. deflate_calculate_adler32 [0x61, 0x62, 0x63] 1 = Inr w \<and> unat w = 0x024d0127"
  using calculate_adler32_correct [of "[0x61, 0x62, 0x63]" 1]
  by (simp add: SSIZE_MAX_def adler_valid_def adler32_def)

end
