(* ===== verification/Deflate.thy ===== *)
theory Deflate
  imports Huffman_Tree Adler32
begin

text \<open>
  DEFLATE decompression, \<open>libfsapfs_deflate.c\<close>. The uncompressed data is the caller's buffer,
  written in place; a failing call reports the error and the buffer as it was left. Trees that
  the source holds by a pointer which may be NULL are of an option type.
\<close>

section \<open>Tables\<close>

definition deflate_code_sizes_sequence :: "nat list" where
  "deflate_code_sizes_sequence =
     [16, 17, 18, 0, 8, 7, 9, 6, 10, 5, 11, 4, 12, 3, 13, 2, 14, 1, 15]"

definition deflate_literal_codes_base :: "nat list" where
  "deflate_literal_codes_base =
     [3, 4, 5, 6, 7, 8, 9, 10, 11, 13, 15, 17, 19, 23, 27, 31,
      35, 43, 51, 59, 67, 83, 99, 115, 131, 163, 195, 227, 258]"

definition deflate_literal_codes_number_of_extra_bits :: "nat list" where
  "deflate_literal_codes_number_of_extra_bits =
     [0, 0, 0, 0, 0, 0, 0, 0, 1, 1, 1, 1, 2, 2, 2, 2,
      3, 3, 3, 3, 4, 4, 4, 4, 5, 5, 5, 5, 0]"

definition deflate_distance_codes_base :: "nat list" where
  "deflate_distance_codes_base =
     [1, 2, 3, 4, 5, 7, 9, 13, 17, 25, 33, 49, 65, 97, 129, 193,
      257, 385, 513, 769, 1025, 1537, 2049, 3073, 4097, 6145, 8193,
      12289, 16385, 24577]"

definition deflate_distance_codes_number_of_extra_bits :: "nat list" where
  "deflate_distance_codes_number_of_extra_bits =
     [0, 0, 0, 0, 1, 1, 2, 2, 3, 3, 4, 4, 5, 5, 6, 6,
      7, 7, 8, 8, 9, 9, 10, 10, 11, 11, 12, 12, 13, 13]"

lemmas deflate_tables =
  deflate_code_sizes_sequence_def deflate_literal_codes_base_def
  deflate_literal_codes_number_of_extra_bits_def deflate_distance_codes_base_def
  deflate_distance_codes_number_of_extra_bits_def

section \<open>Reading consumes bits\<close>

definition bits_left :: "bit_stream \<Rightarrow> nat" where
  "bits_left bs = bit_buffer_size bs + 8 * (byte_stream_size bs - byte_stream_offset bs)"

lemma fill_bit_buffer_bits_left:
  "fill_bit_buffer remaining bs = Inr bs' \<Longrightarrow> bits_left bs' = bits_left bs"
proof (induction remaining bs rule: fill_bit_buffer.induct)
  case (1 remaining bs)
  show ?case
  proof (cases "remaining > bit_buffer_size bs \<and> bit_buffer_size bs \<le> 24")
    case True
    with "1.prems" obtain b where b:
      "rd (byte_stream bs) (byte_stream_offset bs) = Inr b"
      "\<not> byte_stream_offset bs \<ge> byte_stream_size bs"
      "fill_bit_buffer remaining (load_byte b bs) = Inr bs'"
      by (auto simp: fill_bit_buffer.simps [of remaining bs] bindR_eq_Inr split: if_splits)
    with True "1.IH" have "bits_left bs' = bits_left (load_byte b bs)" by blast
    also have "\<dots> = bits_left bs" using b(2) by (simp add: bits_left_def load_byte_def)
    finally show ?thesis .
  next
    case False
    with "1.prems" show ?thesis by (auto simp: fill_bit_buffer.simps [of remaining bs])
  qed
qed

lemma extract_bits_bits_left:
  "r \<le> bit_buffer_size bs \<Longrightarrow> bits_left (snd (extract_bits r bs)) = bits_left bs - r"
  by (simp add: bits_left_def extract_bits_def Let_def split: prod.splits)

lemma get_value_loop_bits_left:
  "get_value_loop n remaining v bs = Inr (w, bs') \<Longrightarrow> bits_left bs = bits_left bs' + remaining"
proof (induction n remaining v bs rule: get_value_loop.induct)
  case (1 n remaining v bs)
  show ?case
  proof (cases "remaining = 0")
    case True
    with "1.prems" show ?thesis by (simp add: get_value_loop.simps)
  next
    case False
    with "1.prems" obtain bs1 where bs1: "fill_bit_buffer remaining bs = Inr bs1"
      by (auto simp: get_value_loop.simps [of n remaining] bindR_eq_Inr)
    define r where "r = (if remaining < bit_buffer_size bs1 then remaining else bit_buffer_size bs1)"
    have r: "r \<le> bit_buffer_size bs1" "r \<le> remaining" by (simp_all add: r_def)
    have "bits_left (snd (extract_bits r bs1)) = bits_left bs' + (remaining - r)"
      using "1.IH" [OF False bs1 r_def refl] "1.prems" False bs1
      by (simp add: get_value_loop.simps [of n remaining] Let_def r_def)
    moreover have "bits_left bs1 \<ge> r" using r(1) by (simp add: bits_left_def)
    ultimately show ?thesis
      using extract_bits_bits_left [OF r(1)] fill_bit_buffer_bits_left [OF bs1] r by simp
  qed
qed

lemma bit_stream_get_value_bits_left:
  "bit_stream_get_value bs n = Inr (v, bs') \<Longrightarrow> bits_left bs = bits_left bs' + n"
  by (auto simp: bit_stream_get_value_def dest: get_value_loop_bits_left split: if_splits)

lemma get_symbol_loop_bits_left:
  "get_symbol_loop tree is c f i bs = Inr (s, bs') \<Longrightarrow> bits_left bs' < bits_left bs"
proof (induction "is" arbitrary: c f i bs)
  case Nil
  then show ?case by simp
next
  case (Cons b "is")
  then obtain v bs1 where "bit_stream_get_value bs 1 = Inr (v, bs1)"
    by (auto simp: bindR_eq_Inr)
  with Cons bit_stream_get_value_bits_left [OF this] show ?case
    by (fastforce simp: bindR_eq_Inr Let_def split: if_splits)
qed

lemma huffman_tree_get_symbol_bits_left:
  "huffman_tree_get_symbol_from_bit_stream tree bs = Inr (s, bs') \<Longrightarrow> bits_left bs' < bits_left bs"
  unfolding huffman_tree_get_symbol_from_bit_stream_def by (rule get_symbol_loop_bits_left)

section \<open>Dynamic and fixed Huffman trees\<close>

text \<open>The code sizes of the code size alphabet; the first list holds the indexes to read.\<close>

fun read_code_size_codes ::
    "nat list \<Rightarrow> nat list \<Rightarrow> bit_stream \<Rightarrow> (nat list \<times> bit_stream) result" where
  "read_code_size_codes [] code_size_array bs = Inr (code_size_array, bs)"
| "read_code_size_codes (code_size_index # rest) code_size_array bs =
     bindR (bit_stream_get_value bs 3) (\<lambda>(code_size, bs).
       bindR (rd deflate_code_sizes_sequence code_size_index) (\<lambda>code_size_sequence.
         bindR (wr code_size_array code_size_sequence (unat code_size mod 256)) (\<lambda>code_size_array.
           read_code_size_codes rest code_size_array bs)))"

fun clear_code_size_codes :: "nat list \<Rightarrow> nat list \<Rightarrow> nat list result" where
  "clear_code_size_codes [] code_size_array = Inr code_size_array"
| "clear_code_size_codes (code_size_index # rest) code_size_array =
     bindR (rd deflate_code_sizes_sequence code_size_index) (\<lambda>code_size_sequence.
       bindR (wr code_size_array code_size_sequence 0) (clear_code_size_codes rest))"

text \<open>The code size to repeat and how often, for the symbols above 15.\<close>

definition read_repetition ::
    "nat \<Rightarrow> nat \<Rightarrow> nat list \<Rightarrow> bit_stream \<Rightarrow> (nat \<times> nat \<times> bit_stream) result" where
  "read_repetition symbol code_size_index code_size_array bs =
     (if symbol = 16 then
        if code_size_index = 0 then Inl ARGUMENT_VALUE_OUT_OF_BOUNDS
        else bindR (rd code_size_array (code_size_index - 1)) (\<lambda>code_size.
               bindR (bit_stream_get_value bs 2) (\<lambda>(times_to_repeat, bs).
                 Inr (code_size, unat times_to_repeat + 3, bs)))
      else if symbol = 17 then
        bindR (bit_stream_get_value bs 3) (\<lambda>(times_to_repeat, bs).
          Inr (0, unat times_to_repeat + 3, bs))
      else if symbol = 18 then
        bindR (bit_stream_get_value bs 7) (\<lambda>(times_to_repeat, bs).
          Inr (0, unat times_to_repeat + 11, bs))
      else Inl ARGUMENT_VALUE_OUT_OF_BOUNDS)"

fun write_repetition :: "nat list \<Rightarrow> nat \<Rightarrow> nat \<Rightarrow> nat \<Rightarrow> nat list result" where
  "write_repetition code_size_array code_size_index code_size 0 = Inr code_size_array"
| "write_repetition code_size_array code_size_index code_size (Suc times_to_repeat) =
     bindR (wr code_size_array code_size_index (code_size mod 256)) (\<lambda>code_size_array.
       write_repetition code_size_array (code_size_index + 1) code_size times_to_repeat)"

lemma read_repetition_pos: "read_repetition s i a bs = Inr (c, t, bs') \<Longrightarrow> 0 < t"
  by (auto simp: read_repetition_def bindR_eq_Inr split: if_splits)

function read_code_sizes ::
    "huffman_tree \<Rightarrow> nat \<Rightarrow> nat \<Rightarrow> nat list \<Rightarrow> bit_stream \<Rightarrow> (nat list \<times> bit_stream) result" where
  "read_code_sizes codes_tree number_of_code_sizes code_size_index code_size_array bs =
     (if code_size_index < number_of_code_sizes then
        bindR (huffman_tree_get_symbol_from_bit_stream codes_tree bs) (\<lambda>(symbol, bs1).
          if symbol < 16 then
            bindR (wr code_size_array code_size_index (symbol mod 256)) (\<lambda>code_size_array.
              read_code_sizes codes_tree number_of_code_sizes (code_size_index + 1)
                code_size_array bs1)
          else bindR (read_repetition symbol code_size_index code_size_array bs1)
            (\<lambda>(code_size, times_to_repeat, bs2).
            if code_size_index + times_to_repeat > number_of_code_sizes
            then Inl ARGUMENT_VALUE_OUT_OF_BOUNDS
            else bindR (write_repetition code_size_array code_size_index code_size times_to_repeat)
              (\<lambda>code_size_array.
              read_code_sizes codes_tree number_of_code_sizes (code_size_index + times_to_repeat)
                code_size_array bs2)))
      else Inr (code_size_array, bs))"
  by pat_completeness auto
termination
  by (relation "measure (\<lambda>(_, n, i, _, _). n - i)") (auto dest: read_repetition_pos)

declare read_code_sizes.simps [simp del]

text \<open>
  A tree that was built without codes (return value 0) makes the caller fail with its own error.
\<close>

definition build_tree :: "huffman_tree \<Rightarrow> nat list \<Rightarrow> nat \<Rightarrow> huffman_tree result" where
  "build_tree tree sizes number =
     bindR (huffman_tree_build tree sizes (int number)) (\<lambda>(has_codes, tree).
       if has_codes then Inr tree else Inl RUNTIME_INITIALIZE_FAILED)"

text \<open>The numbers of codes in the first 14 bits of a dynamic block.\<close>

definition read_code_numbers :: "bit_stream \<Rightarrow> (nat \<times> nat \<times> nat \<times> bit_stream) result" where
  "read_code_numbers bs =
     bindR (bit_stream_get_value bs 14) (\<lambda>(number_of_code_sizes, bs).
       let number_of_literal_codes = unat (number_of_code_sizes AND 0x1f);
           number_of_code_sizes = drop_bit 5 number_of_code_sizes;
           number_of_distance_codes = unat (number_of_code_sizes AND 0x1f);
           number_of_code_sizes = drop_bit 5 number_of_code_sizes;
           number_of_literal_codes = number_of_literal_codes + 257
       in if number_of_literal_codes > 286 then Inl RUNTIME_VALUE_OUT_OF_BOUNDS
          else let number_of_distance_codes = number_of_distance_codes + 1
               in if number_of_distance_codes > 30 then Inl RUNTIME_VALUE_OUT_OF_BOUNDS
                  else Inr (number_of_literal_codes, number_of_distance_codes,
                            unat number_of_code_sizes + 4, bs))"

definition build_codes_tree :: "nat \<Rightarrow> bit_stream \<Rightarrow> (nat list \<times> huffman_tree \<times> bit_stream) result" where
  "build_codes_tree number_of_code_sizes bs =
     bindR (read_code_size_codes [0..<number_of_code_sizes] (replicate 316 0) bs)
       (\<lambda>(code_size_array, bs).
       bindR (clear_code_size_codes [number_of_code_sizes..<19] code_size_array) (\<lambda>code_size_array.
         bindR (huffman_tree_initialize None 19 15) (\<lambda>codes_tree.
           bindR (build_tree codes_tree code_size_array 19) (\<lambda>codes_tree.
             Inr (code_size_array, codes_tree, bs)))))"

definition deflate_build_dynamic_huffman_trees ::
    "bit_stream \<Rightarrow> huffman_tree \<Rightarrow> huffman_tree \<Rightarrow>
       (huffman_tree \<times> huffman_tree \<times> bit_stream) result" where
  "deflate_build_dynamic_huffman_trees bs literals_tree distances_tree =
     bindR (read_code_numbers bs)
       (\<lambda>(number_of_literal_codes, number_of_distance_codes, number_of_code_sizes, bs).
       bindR (build_codes_tree number_of_code_sizes bs) (\<lambda>(code_size_array, codes_tree, bs).
         bindR (read_code_sizes codes_tree (number_of_literal_codes + number_of_distance_codes) 0
                  code_size_array bs) (\<lambda>(code_size_array, bs).
           bindR (rd code_size_array 256) (\<lambda>end_of_block_size.
             if end_of_block_size = 0 then Inl RUNTIME_VALUE_MISSING
             else bindR (build_tree literals_tree code_size_array number_of_literal_codes)
               (\<lambda>literals_tree.
               bindR (build_tree distances_tree (drop number_of_literal_codes code_size_array)
                        number_of_distance_codes) (\<lambda>distances_tree.
                 Inr (literals_tree, distances_tree, bs)))))))"

text \<open>The code sizes of the fixed trees.\<close>

definition fixed_code_size :: "nat \<Rightarrow> nat" where
  "fixed_code_size symbol =
     (if symbol < 144 then 8 else if symbol < 256 then 9 else if symbol < 280 then 7
      else if symbol < 288 then 8 else 5)"

definition deflate_build_fixed_huffman_trees ::
    "huffman_tree \<Rightarrow> huffman_tree \<Rightarrow> (huffman_tree \<times> huffman_tree) result" where
  "deflate_build_fixed_huffman_trees literals_tree distances_tree =
     (let code_size_array = map fixed_code_size [0..<318]
      in bindR (build_tree literals_tree code_size_array 288) (\<lambda>literals_tree.
           bindR (build_tree distances_tree (drop 288 code_size_array) 30) (\<lambda>distances_tree.
             Inr (literals_tree, distances_tree))))"

section \<open>Decoding a Huffman compressed block\<close>

text \<open>The size and the distance of a repetition, after its literal symbol was read.\<close>

definition read_repetition_size ::
    "nat \<Rightarrow> bit_stream \<Rightarrow> (nat \<times> bit_stream) result" where
  "read_repetition_size symbol bs =
     bindR (rd deflate_literal_codes_number_of_extra_bits symbol) (\<lambda>number_of_extra_bits.
       bindR (bit_stream_get_value bs number_of_extra_bits) (\<lambda>(extra_bits, bs).
         bindR (rd deflate_literal_codes_base symbol) (\<lambda>base.
           Inr ((base + unat extra_bits mod 65536) mod 65536, bs))))"

definition read_repetition_offset ::
    "huffman_tree \<Rightarrow> bit_stream \<Rightarrow> (nat \<times> bit_stream) result" where
  "read_repetition_offset distances_tree bs =
     bindR (huffman_tree_get_symbol_from_bit_stream distances_tree bs) (\<lambda>(symbol, bs).
       bindR (rd deflate_distance_codes_number_of_extra_bits symbol) (\<lambda>number_of_extra_bits.
         bindR (bit_stream_get_value bs number_of_extra_bits) (\<lambda>(extra_bits, bs).
           bindR (rd deflate_distance_codes_base symbol) (\<lambda>base.
             Inr ((base + unat extra_bits mod 65536) mod 65536, bs)))))"

text \<open>The copy within the uncompressed data, one byte at a time.\<close>

fun copy_repetition :: "bytes \<Rightarrow> nat \<Rightarrow> nat \<Rightarrow> nat \<Rightarrow> bytes result" where
  "copy_repetition buf data_offset compression_offset 0 = Inr buf"
| "copy_repetition buf data_offset compression_offset (Suc compression_size) =
     bindR (rd buf (data_offset - compression_offset)) (\<lambda>b.
       bindR (wr buf data_offset b) (\<lambda>buf.
         copy_repetition buf (data_offset + 1) compression_offset compression_size))"

lemma read_repetition_size_bits_left:
  "read_repetition_size s bs = Inr (n, bs') \<Longrightarrow> bits_left bs' \<le> bits_left bs"
  by (auto simp: read_repetition_size_def bindR_eq_Inr dest!: bit_stream_get_value_bits_left)

lemma read_repetition_offset_bits_left:
  "read_repetition_offset tree bs = Inr (n, bs') \<Longrightarrow> bits_left bs' \<le> bits_left bs"
  by (auto simp: read_repetition_offset_def bindR_eq_Inr
      dest!: bit_stream_get_value_bits_left huffman_tree_get_symbol_bits_left)

function decode_huffman_loop ::
    "huffman_tree \<Rightarrow> huffman_tree \<Rightarrow> nat \<Rightarrow> bytes \<Rightarrow> nat \<Rightarrow> bit_stream \<Rightarrow>
       (bytes \<times> nat \<times> bit_stream) buffer_result" where
  "decode_huffman_loop literals_tree distances_tree uncompressed_data_size buf data_offset bs =
     bindR (with_buffer buf (huffman_tree_get_symbol_from_bit_stream literals_tree bs))
       (\<lambda>(symbol, bs1).
       if symbol < 256 then
         if data_offset \<ge> uncompressed_data_size then Inl (ARGUMENT_VALUE_TOO_SMALL, buf)
         else bindR (with_buffer buf (wr buf data_offset (of_nat symbol))) (\<lambda>buf.
                decode_huffman_loop literals_tree distances_tree uncompressed_data_size buf
                  (data_offset + 1) bs1)
       else if symbol > 256 \<and> symbol < 286 then
         bindR (with_buffer buf (read_repetition_size (symbol - 257) bs1))
           (\<lambda>(compression_size, bs2).
           bindR (with_buffer buf (read_repetition_offset distances_tree bs2))
             (\<lambda>(compression_offset, bs3).
             if compression_offset > data_offset then Inl (RUNTIME_VALUE_OUT_OF_BOUNDS, buf)
             else if data_offset + compression_size > uncompressed_data_size
               then Inl (ARGUMENT_VALUE_TOO_SMALL, buf)
             else bindR (with_buffer buf
                      (copy_repetition buf data_offset compression_offset compression_size)) (\<lambda>buf.
                    decode_huffman_loop literals_tree distances_tree uncompressed_data_size buf
                      (data_offset + compression_size) bs3)))
       else if symbol \<noteq> 256 then Inl (RUNTIME_GET_FAILED, buf)
       else Inr (buf, data_offset, bs1))"
  by pat_completeness auto
termination
  by (relation "measure (\<lambda>(_, _, _, _, _, bs). bits_left bs)")
     (auto simp: with_buffer_eq_Inr dest!: huffman_tree_get_symbol_bits_left
        read_repetition_size_bits_left read_repetition_offset_bits_left)

declare decode_huffman_loop.simps [simp del]

definition deflate_decode_huffman ::
    "bit_stream \<Rightarrow> huffman_tree \<Rightarrow> huffman_tree \<Rightarrow> bytes \<Rightarrow> nat \<Rightarrow> nat \<Rightarrow>
       (bytes \<times> nat \<times> bit_stream) buffer_result" where
  "deflate_decode_huffman bs literals_tree distances_tree buf uncompressed_data_size data_offset =
     (if uncompressed_data_size > SSIZE_MAX then Inl (ARGUMENT_VALUE_EXCEEDS_MAXIMUM, buf)
      else decode_huffman_loop literals_tree distances_tree uncompressed_data_size buf data_offset bs)"

section \<open>Blocks\<close>

definition deflate_read_data_header :: "bytes \<Rightarrow> nat \<Rightarrow> nat \<Rightarrow> nat result" where
  "deflate_read_data_header compressed_data compressed_data_size compressed_data_offset =
     (if compressed_data_size > SSIZE_MAX then Inl ARGUMENT_VALUE_EXCEEDS_MAXIMUM
      else if compressed_data_size < 2 \<or> compressed_data_offset > compressed_data_size - 2
        then Inl ARGUMENT_VALUE_TOO_SMALL
      else
        bindR (rd compressed_data compressed_data_offset) (\<lambda>compression_data.
        bindR (rd compressed_data (compressed_data_offset + 1)) (\<lambda>flags.
          let safe_offset = compressed_data_offset + 2;
              compression_method = compression_data AND 0x0f;
              compression_information = drop_bit 4 compression_data
          in if flags AND 0x20 \<noteq> 0 \<and>
                (compressed_data_size < 6 \<or> safe_offset > compressed_data_size - 6)
             then Inl ARGUMENT_VALUE_TOO_SMALL
             else
               let safe_offset = (if flags AND 0x20 \<noteq> 0 then safe_offset + 4 else safe_offset)
               in if compression_method \<noteq> 8 then Inl RUNTIME_UNSUPPORTED_VALUE
                  else if (push_bit (unat compression_information + 8) 1 :: 32 word) > 32768
                    then Inl RUNTIME_UNSUPPORTED_VALUE
                  else Inr (compressed_data_offset + safe_offset))))"

definition deflate_read_block_header :: "bit_stream \<Rightarrow> (nat \<times> nat \<times> bit_stream) result" where
  "deflate_read_block_header bs =
     bindR (bit_stream_get_value bs 3) (\<lambda>(value_32bit, bs).
       Inr (unat (drop_bit 1 value_32bit) mod 256, unat (value_32bit AND 1) mod 256, bs))"

text \<open>A block of type \<open>LIBFSAPFS_DEFLATE_BLOCK_TYPE_UNCOMPRESSED\<close>.\<close>

definition read_uncompressed_block ::
    "bit_stream \<Rightarrow> bytes \<Rightarrow> nat \<Rightarrow> nat \<Rightarrow> (bytes \<times> nat \<times> bit_stream) result" where
  "read_uncompressed_block bs buf uncompressed_data_size data_offset =
     (let skip_bits = bit_buffer_size bs mod 8
      in bindR (if skip_bits > 0
                then bindR (bit_stream_get_value bs skip_bits) (\<lambda>(_, bs). Inr bs) else Inr bs)
        (\<lambda>bs. bindR (bit_stream_get_value bs 32) (\<lambda>(value_32bit, bs).
          let block_size_copy = drop_bit 16 value_32bit XOR 0xffff;
              block_size = value_32bit AND 0xffff
          in if block_size \<noteq> block_size_copy then Inl INPUT_VALUE_MISMATCH
             else if block_size = 0 then Inr (buf, data_offset, bs)
             else if unat block_size > byte_stream_size bs - byte_stream_offset bs
               then Inl ARGUMENT_VALUE_TOO_SMALL
             else if unat block_size > uncompressed_data_size - data_offset
               then Inl ARGUMENT_VALUE_TOO_SMALL
             else
               bindR (rd_slice (byte_stream bs) (byte_stream_offset bs) (unat block_size)) (\<lambda>block.
                 bindR (wr_slice buf data_offset block) (\<lambda>buf.
                   Inr (buf, data_offset + unat block_size,
                        bs\<lparr>byte_stream_offset := byte_stream_offset bs + unat block_size,
                           bit_buffer := 0, bit_buffer_size := 0\<rparr>))))))"

type_synonym trees = "huffman_tree \<times> huffman_tree"

definition deflate_read_block ::
    "bit_stream \<Rightarrow> nat \<Rightarrow> trees option \<Rightarrow> bytes \<Rightarrow> nat \<Rightarrow> nat \<Rightarrow>
       (bytes \<times> nat \<times> bit_stream) buffer_result" where
  "deflate_read_block bs block_type fixed_trees buf uncompressed_data_size data_offset =
     (if uncompressed_data_size > SSIZE_MAX then Inl (ARGUMENT_VALUE_EXCEEDS_MAXIMUM, buf)
      else if block_type = 0 then
        with_buffer buf (read_uncompressed_block bs buf uncompressed_data_size data_offset)
      else if block_type = 1 then
        (case fixed_trees of
           None \<Rightarrow> Inl (ARGUMENT_INVALID_VALUE, buf)
         | Some (literals_tree, distances_tree) \<Rightarrow>
             deflate_decode_huffman bs literals_tree distances_tree buf uncompressed_data_size
               data_offset)
      else if block_type = 2 then
        bindR (with_buffer buf
                 (bindR (huffman_tree_initialize None 288 15) (\<lambda>literals_tree.
                  bindR (huffman_tree_initialize None 30 15) (\<lambda>distances_tree.
                    deflate_build_dynamic_huffman_trees bs literals_tree distances_tree))))
          (\<lambda>(literals_tree, distances_tree, bs).
             deflate_decode_huffman bs literals_tree distances_tree buf uncompressed_data_size
               data_offset)
      else Inl (RUNTIME_UNSUPPORTED_VALUE, buf))"

section \<open>Decompression\<close>

text \<open>The fixed trees are built when the first block needs them.\<close>

definition prepare_fixed_trees :: "nat \<Rightarrow> trees option \<Rightarrow> trees option result" where
  "prepare_fixed_trees block_type fixed_trees =
     (if block_type = 1 \<and> fixed_trees = None then
        bindR (huffman_tree_initialize None 288 15) (\<lambda>literals_tree.
        bindR (huffman_tree_initialize None 30 15) (\<lambda>distances_tree.
        bindR (deflate_build_fixed_huffman_trees literals_tree distances_tree) (\<lambda>trees.
          Inr (Some trees))))
      else Inr fixed_trees)"


text \<open>Every call that reads from the stream leaves no more bits than there were.\<close>

lemma read_code_size_codes_bits_left:
  "read_code_size_codes is a bs = Inr (a', bs') \<Longrightarrow> bits_left bs' \<le> bits_left bs"
proof (induction "is" arbitrary: a bs)
  case Nil
  then show ?case by simp
next
  case (Cons i "is")
  then obtain v bs1 a1 where "bit_stream_get_value bs 3 = Inr (v, bs1)"
    "read_code_size_codes is a1 bs1 = Inr (a', bs')" by (auto simp: bindR_eq_Inr)
  with Cons.IH [OF this(2)] bit_stream_get_value_bits_left [OF this(1)] show ?case by simp
qed

lemma read_repetition_bits_left:
  "read_repetition s i a bs = Inr (c, t, bs') \<Longrightarrow> bits_left bs' \<le> bits_left bs"
  by (auto simp: read_repetition_def bindR_eq_Inr dest!: bit_stream_get_value_bits_left split: if_splits)

lemma read_code_sizes_bits_left:
  "read_code_sizes tree n i a bs = Inr (a', bs') \<Longrightarrow> bits_left bs' \<le> bits_left bs"
proof (induction tree n i a bs rule: read_code_sizes.induct)
  case (1 tree n i a bs)
  show ?case
  proof (cases "i < n")
    case True
    with "1.prems" obtain s bs1 where s: "huffman_tree_get_symbol_from_bit_stream tree bs = Inr (s, bs1)"
      by (auto simp: read_code_sizes.simps [of tree n i] bindR_eq_Inr)
    note less = huffman_tree_get_symbol_bits_left [OF s]
    show ?thesis
    proof (cases "s < 16")
      case small: True
      with True s "1.prems" obtain a1 where
        "wr a i (s mod 256) = Inr a1" "read_code_sizes tree n (i + 1) a1 bs1 = Inr (a', bs')"
        by (auto simp: read_code_sizes.simps [of tree n i] bindR_eq_Inr)
      with "1.IH"(1) [OF True s refl small] less show ?thesis by fastforce
    next
      case big: False
      with True s "1.prems" obtain c t bs2 a1 where
        rep: "read_repetition s i a bs1 = Inr (c, t, bs2)" "\<not> n < i + t"
        "write_repetition a i c t = Inr a1" "read_code_sizes tree n (i + t) a1 bs2 = Inr (a', bs')"
        by (auto simp: read_code_sizes.simps [of tree n i] bindR_eq_Inr split: if_splits)
      with "1.IH"(2) [OF True s refl big rep(1) refl refl rep(2,3,4)] less
        read_repetition_bits_left [OF rep(1)] show ?thesis by simp
    qed
  next
    case False
    with "1.prems" show ?thesis by (simp add: read_code_sizes.simps [of tree n i])
  qed
qed

lemma build_dynamic_bits_left:
  assumes "deflate_build_dynamic_huffman_trees bs l d = Inr (l', d', bs')"
  shows "bits_left bs' \<le> bits_left bs"
proof -
  obtain nl nd nc bs1 bs2 codes tree codes' where steps:
    "read_code_numbers bs = Inr (nl, nd, nc, bs1)"
    "build_codes_tree nc bs1 = Inr (codes, tree, bs2)"
    "read_code_sizes tree (nl + nd) 0 codes bs2 = Inr (codes', bs')"
    using assms by (auto simp: deflate_build_dynamic_huffman_trees_def bindR_eq_Inr split: if_splits)
  have "bits_left bs1 \<le> bits_left bs"
    using steps(1) by (auto simp: read_code_numbers_def bindR_eq_Inr Let_def
        dest!: bit_stream_get_value_bits_left split: if_splits)
  moreover have "bits_left bs2 \<le> bits_left bs1"
    using steps(2) by (auto simp: build_codes_tree_def bindR_eq_Inr
        dest!: read_code_size_codes_bits_left)
  ultimately show ?thesis using read_code_sizes_bits_left [OF steps(3)] by simp
qed

lemma decode_huffman_loop_bits_left:
  "decode_huffman_loop l d n buf off bs = Inr (buf', off', bs') \<Longrightarrow> bits_left bs' \<le> bits_left bs"
proof (induction l d n buf off bs rule: decode_huffman_loop.induct)
  case (1 l d n buf off bs)
  obtain s bs1 where s: "huffman_tree_get_symbol_from_bit_stream l bs = Inr (s, bs1)"
    using "1.prems" by (auto simp: decode_huffman_loop.simps [of l d n buf] bindR_eq_Inr result_simps)
  note unfold = decode_huffman_loop.simps [of l d n buf off bs] and wb = with_buffer_eq_Inr [THEN iffD2]
  note less = huffman_tree_get_symbol_bits_left [OF s]
  consider (literal) "s < 256" | (repetition) "\<not> s < 256" "256 < s \<and> s < 286" | (other) "s = 256"
    using "1.prems" s unfold by (cases "s = 256"; cases "s < 256"; cases "s < 286") auto
  then show ?case
  proof cases
    case literal
    with "1.prems" s unfold obtain buf1 where
      lit: "\<not> n \<le> off" "wr buf off (of_nat s) = Inr buf1"
      "decode_huffman_loop l d n buf1 (off + 1) bs1 = Inr (buf', off', bs')"
      by (auto simp: bindR_eq_Inr result_simps split: if_splits)
    from "1.IH"(1) [OF wb [OF s] refl literal lit(1) wb [OF lit(2)] lit(3)] less show ?thesis by simp
  next
    case repetition
    with "1.prems" s unfold obtain size bs2 dist bs3 buf1 where
      rep: "read_repetition_size (s - 257) bs1 = Inr (size, bs2)"
      "read_repetition_offset d bs2 = Inr (dist, bs3)" "\<not> off < dist" "\<not> n < off + size"
      "copy_repetition buf off dist size = Inr buf1"
      "decode_huffman_loop l d n buf1 (off + size) bs3 = Inr (buf', off', bs')"
      by (auto simp: bindR_eq_Inr with_buffer_eq_Inr split: if_splits)
    from "1.IH"(2) [OF wb [OF s] refl repetition wb [OF rep(1)] refl wb [OF rep(2)] refl rep(3,4)
        wb [OF rep(5)] rep(6)]
      read_repetition_size_bits_left [OF rep(1)] read_repetition_offset_bits_left [OF rep(2)] less
    show ?thesis by simp
  next
    case other
    with "1.prems" s unfold less show ?thesis by simp
  qed
qed

lemma read_uncompressed_block_bits_left:
  assumes "read_uncompressed_block bs buf n off = Inr (buf', off', bs')"
  shows "bits_left bs' \<le> bits_left bs"
proof -
  define k where "k = bit_buffer_size bs mod 8"
  define skipped where "skipped =
    (if 0 < k then bindR (bit_stream_get_value bs k) (\<lambda>(_, bs). Inr bs) else Inr bs)"
  obtain bs1 v bs2 where steps: "skipped = Inr bs1" "bit_stream_get_value bs1 32 = Inr (v, bs2)"
    and last: "bs' = bs2 \<or> (\<exists>m. bs' = bs2\<lparr>byte_stream_offset := byte_stream_offset bs2 + m,
                           bit_buffer := 0, bit_buffer_size := 0\<rparr>)"
    using assms unfolding read_uncompressed_block_def Let_def k_def [symmetric] skipped_def [symmetric]
    by (auto simp: bindR_eq_Inr result_simps split: if_splits)
  have "bits_left bs1 \<le> bits_left bs"
    using steps(1) by (auto simp: skipped_def bindR_eq_Inr dest!: bit_stream_get_value_bits_left
        split: if_splits)
  moreover have "bits_left bs' \<le> bits_left bs2" using last by (auto simp: bits_left_def)
  ultimately show ?thesis using bit_stream_get_value_bits_left [OF steps(2)] by simp
qed

lemma deflate_read_block_bits_left:
  assumes "deflate_read_block bs type fixed buf n off = Inr (buf', off', bs')"
  shows "bits_left bs' \<le> bits_left bs"
proof -
  consider "read_uncompressed_block bs buf n off = Inr (buf', off', bs')"
    | l d where "decode_huffman_loop l d n buf off bs = Inr (buf', off', bs')"
    | l0 d0 l d bs1 where "deflate_build_dynamic_huffman_trees bs l0 d0 = Inr (l, d, bs1)"
        "decode_huffman_loop l d n buf off bs1 = Inr (buf', off', bs')"
    using assms by (auto simp: deflate_read_block_def deflate_decode_huffman_def bindR_eq_Inr
        with_buffer_eq_Inr split: if_splits option.splits)
  then show ?thesis
  proof cases
    case 3
    with decode_huffman_loop_bits_left [OF 3(2)] build_dynamic_bits_left [OF 3(1)] show ?thesis by simp
  qed (auto dest: read_uncompressed_block_bits_left decode_huffman_loop_bits_left)
qed

lemma deflate_read_block_header_bits_left:
  "deflate_read_block_header bs = Inr (type, flag, bs') \<Longrightarrow> bits_left bs' < bits_left bs"
  by (auto simp: deflate_read_block_header_def bindR_eq_Inr dest!: bit_stream_get_value_bits_left)

text \<open>
  The loop over the blocks: it ends after the block with the last block flag, and when the
  bytes of the stream are used up.
\<close>

function decompress_blocks ::
    "trees option \<Rightarrow> nat \<Rightarrow> bytes \<Rightarrow> nat \<Rightarrow> bit_stream \<Rightarrow>
       (bytes \<times> nat \<times> bit_stream) buffer_result" where
  "decompress_blocks fixed_trees uncompressed_data_size buf data_offset bs =
     (if byte_stream_offset bs < byte_stream_size bs then
        bindR (with_buffer buf (deflate_read_block_header bs)) (\<lambda>(block_type, last_block_flag, bs).
          bindR (with_buffer buf (prepare_fixed_trees block_type fixed_trees)) (\<lambda>fixed_trees.
            bindR (deflate_read_block bs block_type fixed_trees buf uncompressed_data_size
                     data_offset) (\<lambda>(buf, data_offset, bs).
              if last_block_flag \<noteq> 0 then Inr (buf, data_offset, bs)
              else decompress_blocks fixed_trees uncompressed_data_size buf data_offset bs)))
      else Inr (buf, data_offset, bs))"
  by pat_completeness auto
termination
  by (relation "measure (\<lambda>(_, _, _, _, bs). bits_left bs)")
     (auto simp: with_buffer_eq_Inr dest!: deflate_read_block_header_bits_left
        deflate_read_block_bits_left)

declare decompress_blocks.simps [simp del]

text \<open>
  Decompression returns the buffer and the size of the data in it. The sizes are arguments of
  the source next to the arrays.
\<close>

definition deflate_decompress ::
    "bytes \<Rightarrow> nat \<Rightarrow> bytes \<Rightarrow> nat \<Rightarrow> (bytes \<times> nat) buffer_result" where
  "deflate_decompress compressed_data compressed_data_size buf uncompressed_data_size =
     (if compressed_data_size > SSIZE_MAX then Inl (ARGUMENT_VALUE_EXCEEDS_MAXIMUM, buf)
      else if uncompressed_data_size > SSIZE_MAX then Inl (ARGUMENT_VALUE_EXCEEDS_MAXIMUM, buf)
      else if 0 \<ge> compressed_data_size then Inl (ARGUMENT_VALUE_TOO_SMALL, buf)
      else bindR (with_buffer buf (bit_stream_initialize None compressed_data compressed_data_size 0
                   (Some BYTE_BACK_TO_FRONT))) (\<lambda>bs.
             bindR (decompress_blocks None uncompressed_data_size buf 0 bs) (\<lambda>(buf, data_offset, bs).
               Inr (buf, data_offset))))"

text \<open>Whole bytes in the bit buffer are put back before the checksum is read.\<close>

function unread_bytes :: "bit_stream \<Rightarrow> bit_stream" where
  "unread_bytes bs =
     (if bit_buffer_size bs \<ge> 8
      then unread_bytes (bs\<lparr>byte_stream_offset := byte_stream_offset bs - 1,
                            bit_buffer_size := bit_buffer_size bs - 8\<rparr>)
      else bs)"
  by pat_completeness auto
termination
  by (relation "measure bit_buffer_size") auto

declare unread_bytes.simps [simp del]

definition verify_checksum :: "bytes \<Rightarrow> nat \<Rightarrow> bit_stream \<Rightarrow> unit result" where
  "verify_checksum buf data_offset bs =
     (if byte_stream_size bs - byte_stream_offset bs \<ge> 4 then
        let bs = unread_bytes bs
        in bindR (rd_u32_be (byte_stream bs) (byte_stream_offset bs)) (\<lambda>stored_checksum.
             bindR (rd_slice buf 0 data_offset) (\<lambda>data.
               bindR (deflate_calculate_adler32 data 1) (\<lambda>calculated_checksum.
                 if stored_checksum \<noteq> unat calculated_checksum then Inl INPUT_CHECKSUM_MISMATCH
                 else Inr ())))
      else Inr ())"

definition deflate_decompress_zlib ::
    "bytes \<Rightarrow> nat \<Rightarrow> bytes \<Rightarrow> nat \<Rightarrow> (bytes \<times> nat) buffer_result" where
  "deflate_decompress_zlib compressed_data compressed_data_size buf uncompressed_data_size =
     (if compressed_data_size > SSIZE_MAX then Inl (ARGUMENT_VALUE_EXCEEDS_MAXIMUM, buf)
      else if uncompressed_data_size > SSIZE_MAX then Inl (ARGUMENT_VALUE_EXCEEDS_MAXIMUM, buf)
      else bindR (with_buffer buf (deflate_read_data_header compressed_data compressed_data_size 0))
        (\<lambda>compressed_data_offset.
        if compressed_data_offset \<ge> compressed_data_size then Inl (ARGUMENT_VALUE_TOO_SMALL, buf)
        else bindR (with_buffer buf (bit_stream_initialize None compressed_data compressed_data_size
                      compressed_data_offset (Some BYTE_BACK_TO_FRONT))) (\<lambda>bs.
          bindR (decompress_blocks None uncompressed_data_size buf 0 bs) (\<lambda>(buf, data_offset, bs).
            bindR (with_buffer buf (verify_checksum buf data_offset bs)) (\<lambda>_.
              Inr (buf, data_offset))))))"

end
