(* ===== verification/Deflate_Trees.thy ===== *)
theory Deflate_Trees
  imports Deflate
begin

text \<open>
  The Huffman trees of DEFLATE blocks. The header of a dynamic block is specified as a bit
  sequence that encodes the code sizes (RFC 1951, section 3.2.7); building the trees is sound
  and complete for it. The trees of fixed blocks are those of section 3.2.6.
\<close>

section \<open>Reading from the stream\<close>

text \<open>Between two calls less than a byte is buffered.\<close>

definition stream_ok :: "bit_stream \<Rightarrow> bool" where
  "stream_ok bs \<longleftrightarrow> bs_inv bs \<and> bit_buffer_size bs < 8"

text \<open>The stream \<open>bs'\<close> is left when \<open>bits\<close> were read from \<open>bs\<close>.\<close>

definition reads :: "bit_stream \<Rightarrow> bool list \<Rightarrow> bit_stream \<Rightarrow> bool" where
  "reads bs bits bs' \<longleftrightarrow> stream_ok bs' \<and> same_source bs bs' \<and> stream_bits bs = bits @ stream_bits bs'"

lemma reads_refl [simp]: "reads bs [] bs \<longleftrightarrow> stream_ok bs"
  by (simp add: reads_def)

lemma reads_trans: "reads a xs b \<Longrightarrow> reads b ys c \<Longrightarrow> reads a (xs @ ys) c"
  by (auto simp: reads_def intro: same_source_trans)

lemma reads_ok: "reads bs bits bs' \<Longrightarrow> stream_ok bs'"
  by (simp add: reads_def)

lemma get_value_reads:
  assumes "stream_ok bs" "n \<le> 25 \<or> n \<le> 32 \<and> bit_buffer_size bs = 0"
  shows "post (\<lambda>e. e = RUNTIME_VALUE_OUT_OF_BOUNDS \<and> length (stream_bits bs) < n)
    (\<lambda>(v, bs'). \<exists>bits. length bits = n \<and> reads bs bits bs' \<and> unat v = bits_value bits)
    (bit_stream_get_value bs n)"
proof -
  have piece: "bs_inv bs" "one_piece n bs"
    using assms by (auto simp: stream_ok_def one_piece_def)
  show ?thesis
  proof (cases "n \<le> length (stream_bits bs)")
    case True
    obtain v bs' where "bit_stream_get_value bs n = Inr (v, bs')" "bs_inv bs'"
      "unat v = bits_value (take n (stream_bits bs))" "stream_bits bs' = drop n (stream_bits bs)"
      "same_source bs bs'" "bit_buffer_size bs < 8 \<longrightarrow> bit_buffer_size bs' < 8"
      using bit_stream_get_value_ok [OF piece True] by blast
    with assms True show ?thesis
      by (auto simp: reads_def stream_ok_def intro!: exI [of _ "take n (stream_bits bs)"])
  next
    case False
    with bit_stream_get_value_short [OF piece] show ?thesis by simp
  qed
qed

lemma get_value_bits:
  assumes "stream_ok bs" "n \<le> 25"
  shows "post lib_error
    (\<lambda>(v, bs'). \<exists>bits. length bits = n \<and> reads bs bits bs' \<and> unat v = bits_value bits)
    (bit_stream_get_value bs n)"
  using get_value_reads [OF assms(1), of n] assms(2) by (auto elim!: post_weaken)

lemma get_value_post:
  assumes "stream_ok bs" "n \<le> 25"
  shows "post lib_error (\<lambda>(v, bs'). \<exists>bits. reads bs bits bs') (bit_stream_get_value bs n)"
  using get_value_bits [OF assms] by (rule post_weaken) auto

text \<open>The same in terms of the number read.\<close>

lemma get_number_reads:
  assumes "stream_ok bs" "n \<le> 25"
  shows "post lib_error (\<lambda>(v, bs'). unat v < 2 ^ n \<and> reads bs (lsb_bits n (unat v)) bs')
    (bit_stream_get_value bs n)"
  using get_value_bits [OF assms] by (rule post_weaken) (auto simp: bits_value_bound)

lemma get_value_complete:
  assumes "stream_ok bs" "length bits \<le> 25 \<or> length bits \<le> 32 \<and> bit_buffer_size bs = 0"
    and "stream_bits bs = bits @ rest"
  shows "\<exists>v bs'. bit_stream_get_value bs (length bits) = Inr (v, bs') \<and> reads bs bits bs' \<and>
    stream_bits bs' = rest \<and> unat v = bits_value bits"
proof (cases "bit_stream_get_value bs (length bits)")
  case (Inl e)
  with get_value_reads [OF assms(1,2)] assms(3) show ?thesis by simp
next
  case (Inr x)
  obtain v bs' where x: "x = (v, bs')" by force
  with get_value_reads [OF assms(1,2)] Inr obtain bits' where
    bits': "length bits' = length bits" "reads bs bits' bs'" "unat v = bits_value bits'" by auto
  then have "bits' @ stream_bits bs' = bits @ rest" using assms(3) by (simp add: reads_def)
  with bits' Inr x show ?thesis by auto
qed

lemma get_symbol_reads:
  assumes "tree_of_sizes sizes tree" "stream_ok bs"
  shows "post (\<lambda>e. e = RUNTIME_VALUE_OUT_OF_BOUNDS)
    (\<lambda>(s, bs'). s < length sizes \<and> 0 < sizes ! s \<and> reads bs (code_bits sizes s) bs')
    (huffman_tree_get_symbol_from_bit_stream tree bs)"
  using huffman_tree_get_symbol_sound [OF assms(1), of bs] assms(2)
  by (auto simp: post_def stream_ok_def reads_def split: sum.splits)

lemma get_symbol_complete:
  assumes "tree_of_sizes sizes tree" "stream_ok bs" "s < length sizes" "0 < sizes ! s"
    and "stream_bits bs = code_bits sizes s @ rest"
  shows "\<exists>bs'. huffman_tree_get_symbol_from_bit_stream tree bs = Inr (s, bs') \<and>
    reads bs (code_bits sizes s) bs' \<and> stream_bits bs' = rest"
  using huffman_tree_get_symbol_decodes [OF assms(1) _ assms(3-5)] assms(2,5)
  by (auto simp: stream_ok_def reads_def)

lemma get_number_complete:
  assumes "stream_ok bs" "n \<le> 25" "v < 2 ^ n" "stream_bits bs = lsb_bits n v @ rest"
  shows "\<exists>w bs'. bit_stream_get_value bs n = Inr (w, bs') \<and> reads bs (lsb_bits n v) bs' \<and>
    stream_bits bs' = rest \<and> unat w = v"
  using get_value_complete [OF assms(1) _ assms(4)] assms(2,3) by auto

section \<open>Building a tree\<close>

text \<open>Code sizes that a tree can be built from: not over-subscribed, and not all zero.\<close>

definition usable_sizes :: "nat \<Rightarrow> nat list \<Rightarrow> bool" where
  "usable_sizes m sizes \<longleftrightarrow> valid_sizes m sizes \<and> (\<exists>s < length sizes. sizes ! s \<noteq> 0)"

lemma build_tree_sound:
  assumes "1 \<le> maximum_code_size tree" "n \<le> 32767" "n \<le> length (symbols tree)" "n \<le> length sizes"
  shows "post lib_error
    (\<lambda>tree'. tree_of_sizes (take n sizes) tree' \<and> usable_sizes (maximum_code_size tree) (take n sizes))
    (build_tree tree sizes n)"
proof -
  have len: "length (take n sizes) = n" using assms(4) by simp
  have "post (\<lambda>e. e = RUNTIME_VALUE_OUT_OF_BOUNDS)
      (\<lambda>(b, tree'). b \<longrightarrow> tree_of_sizes (take n sizes) tree' \<and>
         usable_sizes (maximum_code_size tree) (take n sizes)) (huffman_tree_build tree sizes (int n))"
    using huffman_tree_build_spec [OF assms(1), of "take n sizes" "drop n sizes"] assms len
    by (auto simp: post_def usable_sizes_def split: sum.splits)
  then show ?thesis
    unfolding build_tree_def
    by (cases "huffman_tree_build tree sizes (int n)") auto
qed

lemma build_tree_complete:
  assumes "1 \<le> maximum_code_size tree" "n \<le> 32767" "n \<le> length (symbols tree)" "n \<le> length sizes"
    and "usable_sizes (maximum_code_size tree) (take n sizes)"
  shows "\<exists>tree'. build_tree tree sizes n = Inr tree' \<and> tree_of_sizes (take n sizes) tree'"
proof -
  have len: "length (take n sizes) = n" using assms(4) by simp
  have "\<exists>tree'. huffman_tree_build tree sizes (int n) = Inr (True, tree')"
    using huffman_tree_build_spec [OF assms(1), of "take n sizes" "drop n sizes"] assms len
    by (auto simp: usable_sizes_def split: sum.splits) (metis nth_take)
  with build_tree_sound [OF assms(1-4)] show ?thesis by (auto simp: build_tree_def)
qed

section \<open>The code size alphabet of a dynamic block\<close>

text \<open>The sizes of its codes are stored in a permuted order, three bits each.\<close>

definition codes_bits :: "nat list \<Rightarrow> nat list \<Rightarrow> bool list" where
  "codes_bits is cs = concat (map (\<lambda>i. lsb_bits 3 (cs ! (deflate_code_sizes_sequence ! i))) is)"

lemma code_sizes_sequence_less:
  assumes "i < 19"
  shows "i < length deflate_code_sizes_sequence" "deflate_code_sizes_sequence ! i < 19"
proof -
  have "\<forall>s \<in> set deflate_code_sizes_sequence. s < 19" by (simp add: deflate_tables)
  moreover show "i < length deflate_code_sizes_sequence" using assms by (simp add: deflate_tables)
  ultimately show "deflate_code_sizes_sequence ! i < 19" by simp
qed

lemma code_sizes_sequence_inj:
  assumes "i < 19" "j < 19"
  shows "deflate_code_sizes_sequence ! i = deflate_code_sizes_sequence ! j \<longleftrightarrow> i = j"
proof -
  have "distinct deflate_code_sizes_sequence" "length deflate_code_sizes_sequence = 19"
    by (simp_all add: deflate_tables)
  with assms show ?thesis by (simp add: nth_eq_iff_index_eq)
qed

lemma code_sizes_sequence_surj:
  assumes "s < 19"
  shows "\<exists>i < 19. s = deflate_code_sizes_sequence ! i"
proof -
  have "{0..<19} = set deflate_code_sizes_sequence" "length deflate_code_sizes_sequence = 19"
    by (code_simp, simp add: deflate_tables)
  with assms show ?thesis by (metis atLeast0LessThan in_set_conv_nth lessThan_iff)
qed

lemma codes_bits_cong:
  assumes "\<forall>i \<in> set is. cs ! (deflate_code_sizes_sequence ! i) = cs' ! (deflate_code_sizes_sequence ! i)"
  shows "codes_bits is cs = codes_bits is cs'"
  unfolding codes_bits_def using assms by (metis (mono_tags, lifting) map_eq_conv)

text \<open>The array \<open>a'\<close> agrees with \<open>a\<close> but for the sizes of the codes in \<open>is\<close>.\<close>

definition codes_changed :: "nat list \<Rightarrow> nat list \<Rightarrow> nat list \<Rightarrow> bool" where
  "codes_changed is a a' \<longleftrightarrow> length a' = length a \<and>
     (\<forall>j < 19. j \<notin> set is \<longrightarrow> a' ! (deflate_code_sizes_sequence ! j) = a ! (deflate_code_sizes_sequence ! j))"

lemma codes_changed_step:
  assumes "codes_changed is (a[deflate_code_sizes_sequence ! i := v]) a'" "i < 19"
  shows "codes_changed (i # is) a a'"
  using assms by (auto simp: codes_changed_def code_sizes_sequence_inj)

lemma codes_changed_head:
  assumes "codes_changed is (a[deflate_code_sizes_sequence ! i := v]) a'" "i < 19" "i \<notin> set is" "19 \<le> length a"
  shows "a' ! (deflate_code_sizes_sequence ! i) = v"
  using assms code_sizes_sequence_less(2) [of i] by (auto simp: codes_changed_def)

lemma read_code_size_codes_sound:
  assumes "stream_ok bs" "19 \<le> length a" "\<forall>i \<in> set is. i < 19" "distinct is"
  shows "post lib_error (\<lambda>(a', bs'). codes_changed is a a' \<and>
      (\<forall>i \<in> set is. a' ! (deflate_code_sizes_sequence ! i) < 8) \<and> reads bs (codes_bits is a') bs')
    (read_code_size_codes is a bs)"
  using assms
proof (induction "is" arbitrary: a bs)
  case Nil
  then show ?case by (simp add: codes_changed_def codes_bits_def)
next
  case (Cons i "is")
  have i: "i < 19" using Cons.prems by simp
  note seq = code_sizes_sequence_less [OF i]
  show ?case
    unfolding read_code_size_codes.simps
  proof (rule post_bindR [OF get_number_reads [OF Cons.prems(1)]], simp, clarify)
    fix v :: "32 word" and bs1
    assume v: "unat v < 2 ^ 3" and r: "reads bs (lsb_bits 3 (unat v)) bs1"
    let ?a = "a[deflate_code_sizes_sequence ! i := unat v]"
    have "post lib_error (\<lambda>(a', bs'). codes_changed is ?a a' \<and>
        (\<forall>i \<in> set is. a' ! (deflate_code_sizes_sequence ! i) < 8) \<and> reads bs1 (codes_bits is a') bs')
        (read_code_size_codes is ?a bs1)"
      using Cons reads_ok [OF r] by (intro Cons.IH) auto
    moreover have "codes_changed (i # is) a a' \<and> (\<forall>j \<in> set (i # is). a' ! (deflate_code_sizes_sequence ! j) < 8) \<and>
        reads bs (codes_bits (i # is) a') bs'"
      if "codes_changed is ?a a'" "\<forall>i \<in> set is. a' ! (deflate_code_sizes_sequence ! i) < 8"
        "reads bs1 (codes_bits is a') bs'" for a' bs'
      using that codes_changed_step [OF that(1) i] codes_changed_head [OF that(1) i] Cons.prems v
        reads_trans [OF r that(3)] by (auto simp: codes_bits_def)
    moreover have "unat v mod 256 = unat v" using v by simp
    ultimately show "post lib_error (\<lambda>(a', bs'). codes_changed (i # is) a a' \<and>
        (\<forall>i \<in> set (i # is). a' ! (deflate_code_sizes_sequence ! i) < 8) \<and> reads bs (codes_bits (i # is) a') bs')
      (bindR (rd deflate_code_sizes_sequence i) (\<lambda>s. bindR (wr a s (unat v mod 256))
         (\<lambda>a. read_code_size_codes is a bs1)))"
      using seq Cons.prems(2) by (auto elim!: post_weaken)
  qed
qed

lemma read_code_size_codes_complete:
  assumes "stream_ok bs" "19 \<le> length a" "\<forall>i \<in> set is. i < 19" "distinct is"
    and "\<forall>i \<in> set is. cs ! (deflate_code_sizes_sequence ! i) < 8"
    and "stream_bits bs = codes_bits is cs @ rest"
  shows "\<exists>a' bs'. read_code_size_codes is a bs = Inr (a', bs') \<and> codes_changed is a a' \<and>
    (\<forall>i \<in> set is. a' ! (deflate_code_sizes_sequence ! i) = cs ! (deflate_code_sizes_sequence ! i)) \<and>
    reads bs (codes_bits is cs) bs' \<and> stream_bits bs' = rest"
  using assms
proof (induction "is" arbitrary: a bs)
  case Nil
  then show ?case by (simp add: codes_changed_def codes_bits_def)
next
  case (Cons i "is")
  let ?v = "cs ! (deflate_code_sizes_sequence ! i)"
  have i: "i < 19" "?v < 2 ^ 3" using Cons.prems by simp_all
  note seq = code_sizes_sequence_less [OF i(1)]
  have "stream_bits bs = lsb_bits 3 ?v @ codes_bits is cs @ rest"
    using Cons.prems(6) by (simp add: codes_bits_def)
  with get_number_complete [OF Cons.prems(1) _ i(2)] obtain w bs1 where w:
    "bit_stream_get_value bs 3 = Inr (w, bs1)" "reads bs (lsb_bits 3 ?v) bs1"
    "stream_bits bs1 = codes_bits is cs @ rest" "unat w = ?v" by auto
  let ?a = "a[deflate_code_sizes_sequence ! i := ?v]"
  obtain a' bs' where rec: "read_code_size_codes is ?a bs1 = Inr (a', bs')" "codes_changed is ?a a'"
    "\<forall>i \<in> set is. a' ! (deflate_code_sizes_sequence ! i) = cs ! (deflate_code_sizes_sequence ! i)"
    "reads bs1 (codes_bits is cs) bs'" "stream_bits bs' = rest"
    using Cons.IH [OF reads_ok [OF w(2)], of ?a] Cons.prems w(3) by auto
  have "read_code_size_codes (i # is) a bs = Inr (a', bs')"
    using w(1,4) rec(1) seq Cons.prems(2) i(2) by simp
  with rec codes_changed_step [OF rec(2) i(1)] codes_changed_head [OF rec(2) i(1)] Cons.prems(2,4)
    reads_trans [OF w(2) rec(4)]
  show ?case by (auto simp: codes_bits_def)
qed

lemma clear_code_size_codes_ok:
  assumes "19 \<le> length a" "\<forall>i \<in> set is. i < 19" "distinct is"
  shows "\<exists>a'. clear_code_size_codes is a = Inr a' \<and> codes_changed is a a' \<and>
    (\<forall>i \<in> set is. a' ! (deflate_code_sizes_sequence ! i) = 0)"
  using assms
proof (induction "is" arbitrary: a)
  case Nil
  then show ?case by (simp add: codes_changed_def)
next
  case (Cons i "is")
  have i: "i < 19" using Cons.prems by simp
  let ?a = "a[deflate_code_sizes_sequence ! i := 0]"
  obtain a' where a': "clear_code_size_codes is ?a = Inr a'" "codes_changed is ?a a'"
    "\<forall>i \<in> set is. a' ! (deflate_code_sizes_sequence ! i) = 0"
    using Cons.IH [of ?a] Cons.prems by auto
  with codes_changed_step [OF a'(2) i] codes_changed_head [OF a'(2) i] Cons.prems
    code_sizes_sequence_less [OF i] show ?case by simp
qed


text \<open>The sizes \<open>cs\<close> of the code size alphabet, of which the first \<open>n\<close> are stored.\<close>

definition alphabet_sizes :: "nat \<Rightarrow> nat list \<Rightarrow> bool" where
  "alphabet_sizes n cs \<longleftrightarrow> length cs = 19 \<and> (\<forall>s < 19. cs ! s < 8) \<and>
     (\<forall>i \<in> {n..<19}. cs ! (deflate_code_sizes_sequence ! i) = 0) \<and> usable_sizes 15 cs"

lemma huffman_tree_initialize_ok:
  "n \<le> 1024 \<Longrightarrow> m \<le> 32 \<Longrightarrow> huffman_tree_initialize None (int n) m =
     Inr \<lparr>maximum_code_size = m, symbols = replicate n 0, code_size_counts = replicate (m + 1) 0\<rparr>"
  by (simp add: huffman_tree_initialize_def)

abbreviation empty_tree :: "nat \<Rightarrow> huffman_tree" where
  "empty_tree n \<equiv> \<lparr>maximum_code_size = 15, symbols = replicate n 0, code_size_counts = replicate 16 0\<rparr>"

lemmas initialize_trees =
  huffman_tree_initialize_ok [of 19 15, simplified] huffman_tree_initialize_ok [of 288 15, simplified]
  huffman_tree_initialize_ok [of 30 15, simplified]

lemma take_alphabet:
  assumes "19 \<le> length a" "i < 19"
  shows "take 19 a ! (deflate_code_sizes_sequence ! i) = a ! (deflate_code_sizes_sequence ! i)"
  using code_sizes_sequence_less(2) [OF assms(2)] assms(1) by simp

lemma build_codes_tree_sound:
  assumes "stream_ok bs" "n \<le> 19"
  shows "post lib_error (\<lambda>(a, tree, bs'). length a = 316 \<and>
      (\<exists>cs. alphabet_sizes n cs \<and> tree_of_sizes cs tree \<and> reads bs (codes_bits [0..<n] cs) bs'))
    (build_codes_tree n bs)"
proof -
  have built: "post lib_error (\<lambda>tree. tree_of_sizes (take 19 a) tree \<and> usable_sizes 15 (take 19 a))
      (build_tree (empty_tree 19) a 19)" if "length a = 316" for a
    using build_tree_sound [of "empty_tree 19" 19 a] that by simp
  show ?thesis
    unfolding build_codes_tree_def initialize_trees
  proof (rule post_bindR [OF read_code_size_codes_sound [OF assms(1)]], goal_cases)
    case (4 x)
    then obtain a bs1 where x: "x = (a, bs1)" "codes_changed [0..<n] (replicate 316 0) a"
      "\<forall>i < n. a ! (deflate_code_sizes_sequence ! i) < 8" "reads bs (codes_bits [0..<n] a) bs1" by auto
    have len: "length a = 316" using x(2) by (simp add: codes_changed_def)
    obtain a1 where a1: "clear_code_size_codes [n..<19] a = Inr a1" "codes_changed [n..<19] a a1"
      "\<forall>i \<in> {n..<19}. a1 ! (deflate_code_sizes_sequence ! i) = 0"
      using clear_code_size_codes_ok [of a "[n..<19]"] len by auto
    have len1: "length a1 = 316" using a1(2) len by (simp add: codes_changed_def)
    have kept: "a1 ! (deflate_code_sizes_sequence ! i) = a ! (deflate_code_sizes_sequence ! i)" if "i < n" for i
      using a1(2) that assms(2) by (simp add: codes_changed_def)
    have small: "a1 ! s < 8" if s: "s < 19" for s
    proof -
      obtain i where "i < 19" "s = deflate_code_sizes_sequence ! i" using code_sizes_sequence_surj [OF s] by blast
      then show ?thesis using kept [of i] x(3) a1(3) by (cases "i < n") auto
    qed
    have "codes_bits [0..<n] a = codes_bits [0..<n] (take 19 a1)"
      using kept take_alphabet [of a1] len1 assms(2) by (intro codes_bits_cong) auto
    with x(4) have "reads bs (codes_bits [0..<n] (take 19 a1)) bs1" by simp
    moreover have "alphabet_sizes n (take 19 a1)" if "usable_sizes 15 (take 19 a1)"
      using that small a1(3) take_alphabet [of a1] len1 by (simp add: alphabet_sizes_def)
    ultimately show ?case
      unfolding x(1) prod.case a1(1) bindR_simps
      using len1 by (intro post_bindR [OF built [OF len1]]) (auto intro!: exI [of _ "take 19 a1"])
  qed (use assms(2) in auto)
qed

lemma build_codes_tree_complete:
  assumes "stream_ok bs" "n \<le> 19" "alphabet_sizes n cs" "stream_bits bs = codes_bits [0..<n] cs @ rest"
  shows "\<exists>a tree bs'. build_codes_tree n bs = Inr (a, tree, bs') \<and> length a = 316 \<and>
    tree_of_sizes cs tree \<and> reads bs (codes_bits [0..<n] cs) bs' \<and> stream_bits bs' = rest"
proof -
  have cs: "length cs = 19" "\<forall>i < n. cs ! (deflate_code_sizes_sequence ! i) < 8" "usable_sizes 15 cs"
    "\<forall>i \<in> {n..<19}. cs ! (deflate_code_sizes_sequence ! i) = 0"
    using assms(2,3) code_sizes_sequence_less(2) by (auto simp: alphabet_sizes_def)
  then obtain a bs' where a: "read_code_size_codes [0..<n] (replicate 316 0) bs = Inr (a, bs')"
    "codes_changed [0..<n] (replicate 316 0) a"
    "\<forall>i < n. a ! (deflate_code_sizes_sequence ! i) = cs ! (deflate_code_sizes_sequence ! i)"
    "reads bs (codes_bits [0..<n] cs) bs'" "stream_bits bs' = rest"
    using read_code_size_codes_complete [OF assms(1) _ _ _ _ assms(4), of "replicate 316 0"] assms(2)
    by (auto simp del: replicate.simps)
  have len: "length a = 316" using a(2) by (simp add: codes_changed_def)
  obtain a1 where a1: "clear_code_size_codes [n..<19] a = Inr a1" "codes_changed [n..<19] a a1"
    "\<forall>i \<in> {n..<19}. a1 ! (deflate_code_sizes_sequence ! i) = 0"
    using clear_code_size_codes_ok [of a "[n..<19]"] len by auto
  have len1: "length a1 = 316" using a1(2) len by (simp add: codes_changed_def)
  have "take 19 a1 = cs"
  proof (rule nth_equalityI)
    fix s
    assume "s < length (take 19 a1)"
    then obtain i where i: "i < 19" "s = deflate_code_sizes_sequence ! i"
      using code_sizes_sequence_surj [of s] by auto
    show "take 19 a1 ! s = cs ! s"
      using i a(3) a1(2,3) cs(4) take_alphabet [of a1 i] len1 by (cases "i < n") (auto simp: codes_changed_def)
  qed (simp add: len1 cs(1))
  with build_tree_complete [of "empty_tree 19" 19 a1] cs(3) len1 obtain tree where
    "build_tree (empty_tree 19) a1 19 = Inr tree" "tree_of_sizes cs tree" by auto
  then show ?thesis
    using a a1(1) len1 by (simp add: build_codes_tree_def initialize_trees)
qed


section \<open>The code sizes of a dynamic block\<close>

text \<open>
  A code size, the previous one repeated, or a number of zeros; the repetitions carry the extra
  bits that give their length.
\<close>

datatype size_token = Size nat | Previous "bool list" | Zeros "bool list" | Many_Zeros "bool list"

fun size_symbol :: "size_token \<Rightarrow> nat" where
  "size_symbol (Size s) = s"
| "size_symbol (Previous xs) = 16"
| "size_symbol (Zeros xs) = 17"
| "size_symbol (Many_Zeros xs) = 18"

fun size_extra :: "size_token \<Rightarrow> bool list" where
  "size_extra (Size s) = []"
| "size_extra (Previous xs) = xs"
| "size_extra (Zeros xs) = xs"
| "size_extra (Many_Zeros xs) = xs"

fun size_token_wf :: "size_token \<Rightarrow> bool" where
  "size_token_wf (Size s) \<longleftrightarrow> s < 16"
| "size_token_wf (Previous xs) \<longleftrightarrow> length xs = 2"
| "size_token_wf (Zeros xs) \<longleftrightarrow> length xs = 3"
| "size_token_wf (Many_Zeros xs) \<longleftrightarrow> length xs = 7"

definition size_token_ok :: "nat list \<Rightarrow> size_token \<Rightarrow> bool" where
  "size_token_ok cs t \<longleftrightarrow> size_token_wf t \<and> size_symbol t < length cs \<and> 0 < cs ! size_symbol t"

definition size_token_bits :: "nat list \<Rightarrow> size_token \<Rightarrow> bool list" where
  "size_token_bits cs t = code_bits cs (size_symbol t) @ size_extra t"

definition size_tokens_bits :: "nat list \<Rightarrow> size_token list \<Rightarrow> bool list" where
  "size_tokens_bits cs ts = concat (map (size_token_bits cs) ts)"

fun add_sizes :: "size_token \<Rightarrow> nat list \<Rightarrow> nat list option" where
  "add_sizes (Size s) out = Some (out @ [s])"
| "add_sizes (Previous xs) out =
     (if out = [] then None else Some (out @ replicate (3 + bits_value xs) (last out)))"
| "add_sizes (Zeros xs) out = Some (out @ replicate (3 + bits_value xs) 0)"
| "add_sizes (Many_Zeros xs) out = Some (out @ replicate (11 + bits_value xs) 0)"

fun expand_sizes :: "size_token list \<Rightarrow> nat list \<Rightarrow> nat list option" where
  "expand_sizes [] out = Some out"
| "expand_sizes (t # ts) out = (case add_sizes t out of None \<Rightarrow> None | Some out' \<Rightarrow> expand_sizes ts out')"

lemma size_tokens_bits_simps [simp]:
  "size_tokens_bits cs [] = []"
  "size_tokens_bits cs (t # ts) = size_token_bits cs t @ size_tokens_bits cs ts"
  by (simp_all add: size_tokens_bits_def)

lemma expand_sizes_grows: "expand_sizes ts out = Some out' \<Longrightarrow> length out + length ts \<le> length out'"
proof (induction ts arbitrary: out)
  case (Cons t ts)
  then obtain out1 where "add_sizes t out = Some out1" "expand_sizes ts out1 = Some out'"
    by (auto split: option.splits)
  moreover from this(1) have "length out < length out1" by (cases t) (auto split: if_splits)
  ultimately show ?case using Cons.IH by fastforce
qed simp

text \<open>The sizes written so far are the first \<open>i\<close> of the array.\<close>

definition sizes_written :: "nat \<Rightarrow> nat list \<Rightarrow> bool" where
  "sizes_written i a \<longleftrightarrow> length a = 316 \<and> i \<le> 316 \<and> (\<forall>s \<in> set (take i a). s < 16)"

lemma last_written:
  assumes "sizes_written i a" "0 < i"
  shows "last (take i a) = a ! (i - 1)" "a ! (i - 1) < 16"
proof -
  have "take i a \<noteq> []" "length (take i a) = i" using assms by (auto simp: sizes_written_def)
  then show "last (take i a) = a ! (i - 1)" using assms(2) by (simp add: last_conv_nth)
  with \<open>take i a \<noteq> []\<close> show "a ! (i - 1) < 16"
    using assms(1) last_in_set unfolding sizes_written_def by metis
qed

lemma write_repetition_ok:
  assumes "i + t \<le> length a" "c < 256"
  shows "\<exists>a'. write_repetition a i c t = Inr a' \<and> length a' = length a \<and>
    take (i + t) a' = take i a @ replicate t c"
  using assms
proof (induction a i c t rule: write_repetition.induct)
  case (2 a i c t)
  then obtain a' where a': "write_repetition (a[i := c]) (i + 1) c t = Inr a'" "length a' = length a"
    "take (i + 1 + t) a' = take (i + 1) (a[i := c]) @ replicate t c" by auto
  moreover have "take (i + 1) (a[i := c]) = take i a @ [c]"
    using "2.prems" by (simp add: take_Suc_conv_app_nth)
  ultimately show ?case using "2.prems" by (auto simp: replicate_append_same)
qed simp

lemma read_repetition_sound:
  assumes "stream_ok bs" "sizes_written i a" "i < 316" "16 \<le> s"
  shows "post lib_error (\<lambda>(c, t, bs'). c < 16 \<and> (\<exists>tok. size_token_wf tok \<and> size_symbol tok = s \<and>
      reads bs (size_extra tok) bs' \<and> add_sizes tok (take i a) = Some (take i a @ replicate t c)))
    (read_repetition s i a bs)"
  (is "post _ ?Q _")
proof -
  have field: "post lib_error ?Q (bindR (bit_stream_get_value bs n) (\<lambda>(v, bs'). Inr (c, unat v + k, bs')))"
    if "n \<le> 25" "c < 16" and tok: "\<And>xs. length xs = n \<Longrightarrow> \<exists>tok. size_token_wf tok \<and> size_symbol tok = s \<and>
        size_extra tok = xs \<and> add_sizes tok (take i a) = Some (take i a @ replicate (k + bits_value xs) c)" for n k c
  proof (rule post_bindR [OF get_value_bits [OF assms(1) that(1)]], clarsimp simp: that(2))
    fix v :: "32 word" and bs' xs
    assume "reads bs xs bs'" "unat v = bits_value xs" "n = length xs"
    with tok [of xs] show "\<exists>tok. size_token_wf tok \<and> size_symbol tok = s \<and> reads bs (size_extra tok) bs' \<and>
        add_sizes tok (take i a) = Some (take i a @ replicate (bits_value xs + k) c)"
      by (auto simp: add.commute)
  qed
  have previous: "\<exists>tok. size_token_wf tok \<and> size_symbol tok = 16 \<and> size_extra tok = xs \<and>
      add_sizes tok (take i a) = Some (take i a @ replicate (3 + bits_value xs) (a ! (i - 1)))"
    if "0 < i" "length xs = 2" for xs
    using last_written [OF assms(2) that(1)] that assms(2)
    by (intro exI [of _ "Previous xs"]) (auto simp: sizes_written_def)
  have zeros: "length xs = 3 \<Longrightarrow> \<exists>tok. size_token_wf tok \<and> size_symbol tok = 17 \<and> size_extra tok = xs \<and>
      add_sizes tok (take i a) = Some (take i a @ replicate (3 + bits_value xs) 0)" for xs
    by (intro exI [of _ "Zeros xs"]) simp
  have many: "length xs = 7 \<Longrightarrow> \<exists>tok. size_token_wf tok \<and> size_symbol tok = 18 \<and> size_extra tok = xs \<and>
      add_sizes tok (take i a) = Some (take i a @ replicate (11 + bits_value xs) 0)" for xs
    by (intro exI [of _ "Many_Zeros xs"]) simp
  have "i - 1 < length a" using assms by (auto simp: sizes_written_def)
  then show ?thesis
    using field [of 2 "a ! (i - 1)" 3] field [of 3 0 3] field [of 7 0 11] previous zeros many
      last_written(2) [OF assms(2)]
    by (cases "s = 16"; cases "s = 17"; cases "s = 18"; cases "i = 0") (auto simp: read_repetition_def)
qed

lemma read_repetition_complete:
  assumes "stream_ok bs" "sizes_written i a" "size_token_wf tok" "16 \<le> size_symbol tok"
    and "add_sizes tok (take i a) = Some out" "stream_bits bs = size_extra tok @ rest"
  shows "\<exists>c t bs'. read_repetition (size_symbol tok) i a bs = Inr (c, t, bs') \<and> c < 16 \<and>
    out = take i a @ replicate t c \<and> reads bs (size_extra tok) bs' \<and> stream_bits bs' = rest"
proof -
  have "length (size_extra tok) \<le> 25" using assms(3) by (cases tok) auto
  with get_value_complete [OF assms(1) _ assms(6)] obtain v bs' where v:
    "bit_stream_get_value bs (length (size_extra tok)) = Inr (v, bs')" "reads bs (size_extra tok) bs'"
    "stream_bits bs' = rest" "unat v = bits_value (size_extra tok)" by auto
  show ?thesis
  proof (cases tok)
    case (Previous xs)
    then have "0 < i" using assms(5) by (cases i) (auto split: if_splits)
    with last_written [OF assms(2) this] Previous v assms show ?thesis
      by (auto simp: read_repetition_def sizes_written_def add.commute split: if_splits)
  qed (use v assms in \<open>auto simp: read_repetition_def add.commute\<close>)
qed


definition sizes_read ::
    "nat list \<Rightarrow> nat \<Rightarrow> nat \<Rightarrow> nat list \<Rightarrow> bit_stream \<Rightarrow> nat list \<times> bit_stream \<Rightarrow> bool" where
  "sizes_read cs n i a bs = (\<lambda>(a', bs'). sizes_written n a' \<and>
     (\<exists>ts. (\<forall>t \<in> set ts. size_token_ok cs t) \<and> reads bs (size_tokens_bits cs ts) bs' \<and>
        expand_sizes ts (take i a) = Some (take n a')))"

lemma sizes_read_step:
  assumes "sizes_read cs n i1 a1 bs1 x" "size_token_ok cs t" "reads bs (size_token_bits cs t) bs1"
    and "add_sizes t (take i a) = Some (take i1 a1)"
  shows "sizes_read cs n i a bs x"
proof -
  obtain a' bs' where x: "x = (a', bs')" by force
  with assms(1) obtain ts where ts: "sizes_written n a'" "\<forall>t \<in> set ts. size_token_ok cs t"
    "reads bs1 (size_tokens_bits cs ts) bs'" "expand_sizes ts (take i1 a1) = Some (take n a')"
    by (auto simp: sizes_read_def)
  then show ?thesis
    using assms reads_trans [OF assms(3) ts(3)] x
    by (auto simp: sizes_read_def intro!: exI [of _ "t # ts"])
qed

lemma write_size:
  assumes "sizes_written i a" "i < 316" "s < 16"
  shows "sizes_written (i + 1) (a[i := s])" "take (i + 1) (a[i := s]) = take i a @ [s]"
proof -
  show "take (i + 1) (a[i := s]) = take i a @ [s]"
    using assms by (simp add: sizes_written_def take_Suc_conv_app_nth)
  then show "sizes_written (i + 1) (a[i := s])" using assms by (auto simp: sizes_written_def)
qed

lemma write_sizes:
  assumes "sizes_written i a" "i + t \<le> 316" "c < 16"
  shows "\<exists>a'. write_repetition a i c t = Inr a' \<and> sizes_written (i + t) a' \<and>
    take (i + t) a' = take i a @ replicate t c"
  using write_repetition_ok [of i t a c] assms by (auto simp: sizes_written_def)

text \<open>One symbol of the code size alphabet with what follows it, then the rest.\<close>

lemma size_symbol_post:
  assumes rest: "\<And>i1 a1 bs1. i < i1 \<Longrightarrow> i1 \<le> n \<Longrightarrow> sizes_written i1 a1 \<Longrightarrow> stream_ok bs1 \<Longrightarrow>
      post lib_error (sizes_read cs n i1 a1 bs1) (k i1 a1 bs1)"
    and i: "i < n" "n \<le> 316" "sizes_written i a"
    and s: "s < length cs" "0 < cs ! s" "reads bs (code_bits cs s) bs1"
  shows "post lib_error (sizes_read cs n i a bs)
    (if s < 16 then bindR (wr a i (s mod 256)) (\<lambda>a. k (i + 1) a bs1)
     else bindR (read_repetition s i a bs1) (\<lambda>(c, t, bs2).
       if i + t > n then Inl ARGUMENT_VALUE_OUT_OF_BOUNDS
       else bindR (write_repetition a i c t) (\<lambda>a. k (i + t) a bs2)))"
proof (cases "s < 16")
  case True
  note w = write_size [OF i(3) _ True]
  have "size_token_ok cs (Size s)" "reads bs (size_token_bits cs (Size s)) bs1"
    using s True by (simp_all add: size_token_ok_def size_token_bits_def)
  then have "sizes_read cs n (i + 1) (a[i := s]) bs1 x \<Longrightarrow> sizes_read cs n i a bs x" for x
    using w i by (elim sizes_read_step) auto
  moreover have "post lib_error (sizes_read cs n (i + 1) (a[i := s]) bs1) (k (i + 1) (a[i := s]) bs1)"
    using w i reads_ok [OF s(3)] by (intro rest) auto
  ultimately show ?thesis using True i by (auto simp: sizes_written_def elim!: post_weaken)
next
  case False
  have "post lib_error (sizes_read cs n i a bs) (case x of (c, t, bs2) \<Rightarrow>
       if i + t > n then Inl ARGUMENT_VALUE_OUT_OF_BOUNDS
       else bindR (write_repetition a i c t) (\<lambda>a. k (i + t) a bs2))"
    if "case x of (c, t, bs2) \<Rightarrow> c < 16 \<and> (\<exists>tok. size_token_wf tok \<and> size_symbol tok = s \<and>
      reads bs1 (size_extra tok) bs2 \<and> add_sizes tok (take i a) = Some (take i a @ replicate t c))" for x
  proof -
    from that obtain c t bs2 tok where x: "x = (c, t, bs2)" "c < 16" "size_token_wf tok" "size_symbol tok = s"
      "reads bs1 (size_extra tok) bs2" "add_sizes tok (take i a) = Some (take i a @ replicate t c)" by auto
    have t: "0 < t"
      using expand_sizes_grows [of "[tok]" "take i a" "take i a @ replicate t c"] x(6) by simp
    show ?thesis
    proof (cases "i + t > n")
      case fits: False
      obtain a1 where a1: "write_repetition a i c t = Inr a1" "sizes_written (i + t) a1"
        "take (i + t) a1 = take i a @ replicate t c"
        using write_sizes [OF i(3) _ x(2), of t] fits i by auto
      have "size_token_ok cs tok" "reads bs (size_token_bits cs tok) bs2"
        using s x reads_trans [OF s(3) x(5)] by (auto simp: size_token_ok_def size_token_bits_def)
      then have "sizes_read cs n (i + t) a1 bs2 y \<Longrightarrow> sizes_read cs n i a bs y" for y
        using x(6) a1(3) by (elim sizes_read_step) auto
      moreover have "post lib_error (sizes_read cs n (i + t) a1 bs2) (k (i + t) a1 bs2)"
        using t fits a1(2) reads_ok [OF x(5)] by (intro rest) auto
      ultimately show ?thesis using fits a1(1) x(1) by (auto elim!: post_weaken)
    qed (simp add: x(1))
  qed
  then show ?thesis
    using False i by (auto intro!: post_bindR [OF read_repetition_sound [OF reads_ok [OF s(3)] i(3)]])
qed

lemma read_code_sizes_sound:
  assumes "tree_of_sizes cs tree" "stream_ok bs" "sizes_written i a" "i \<le> n" "n \<le> 316"
  shows "post lib_error (sizes_read cs n i a bs) (read_code_sizes tree n i a bs)"
  using assms(2-)
proof (induction "n - i" arbitrary: i a bs rule: less_induct)
  case less
  show ?case
  proof (cases "i < n")
    case True
    have symbol: "post lib_error (\<lambda>(s, bs1). s < length cs \<and> 0 < cs ! s \<and> reads bs (code_bits cs s) bs1)
        (huffman_tree_get_symbol_from_bit_stream tree bs)"
      using get_symbol_reads [OF assms(1) less.prems(1)] by (auto elim: post_weaken)
    have rest: "post lib_error (sizes_read cs n i1 a1 bs1) (read_code_sizes tree n i1 a1 bs1)"
      if "i < i1" "i1 \<le> n" "sizes_written i1 a1" "stream_ok bs1" for i1 a1 bs1
      using that less True by auto
    show ?thesis
      unfolding read_code_sizes.simps [of tree n i a bs] if_P [OF True]
      using size_symbol_post [where k = "read_code_sizes tree n", OF rest True less.prems(4,2)]
      by (intro post_bindR [OF symbol]) auto
  next
    case False
    then have "read_code_sizes tree n i a bs = Inr (a, bs)"
      unfolding read_code_sizes.simps [of tree n i a bs] by simp
    with False less.prems show ?thesis
      by (auto simp: sizes_read_def intro!: exI [of _ "[]"])
  qed
qed

lemma read_code_sizes_complete:
  assumes "tree_of_sizes cs tree" "stream_ok bs" "sizes_written i a" "n \<le> 316"
    and "\<forall>t \<in> set ts. size_token_ok cs t" "stream_bits bs = size_tokens_bits cs ts @ rest"
    and "expand_sizes ts (take i a) = Some sizes" "length sizes = n"
  shows "\<exists>a' bs'. read_code_sizes tree n i a bs = Inr (a', bs') \<and> take n a' = sizes \<and> length a' = 316 \<and>
    reads bs (size_tokens_bits cs ts) bs' \<and> stream_bits bs' = rest"
  using assms(2-)
proof (induction ts arbitrary: i a bs)
  case Nil
  then show ?case
    by (auto simp: read_code_sizes.simps [of tree n i] sizes_written_def)
next
  case (Cons t ts)
  let ?more = "size_tokens_bits cs ts @ rest"
  obtain out where out: "add_sizes t (take i a) = Some out" "expand_sizes ts out = Some sizes"
    using Cons.prems(6) by (auto split: option.splits)
  have len: "length (take i a) = i" using Cons.prems(2) by (simp add: sizes_written_def)
  have grow: "i < length out" "length out \<le> n"
    using expand_sizes_grows [of "[t]" "take i a" out] expand_sizes_grows [OF out(2)] out(1) Cons.prems(7) len
    by simp_all
  have t: "size_token_wf t" "size_symbol t < length cs" "0 < cs ! size_symbol t"
    using Cons.prems(4) by (auto simp: size_token_ok_def)
  have "stream_bits bs = code_bits cs (size_symbol t) @ size_extra t @ ?more"
    using Cons.prems(5) by (simp add: size_token_bits_def)
  from get_symbol_complete [OF assms(1) Cons.prems(1) t(2,3) this] obtain bs1 where bs1:
    "huffman_tree_get_symbol_from_bit_stream tree bs = Inr (size_symbol t, bs1)"
    "reads bs (code_bits cs (size_symbol t)) bs1" "stream_bits bs1 = size_extra t @ ?more" by blast
  have "\<exists>a1 bs2. read_code_sizes tree n i a bs = read_code_sizes tree n (length out) a1 bs2 \<and>
      sizes_written (length out) a1 \<and> take (length out) a1 = out \<and>
      reads bs (size_token_bits cs t) bs2 \<and> stream_bits bs2 = ?more"
  proof (cases "size_symbol t < 16")
    case True
    then obtain s where s: "t = Size s" "s < 16" by (cases t) auto
    note w = write_size [OF Cons.prems(2) _ s(2)]
    have "read_code_sizes tree n i a bs = read_code_sizes tree n (i + 1) (a[i := s]) bs1"
      using grow bs1(1) s Cons.prems(2,3) unfolding read_code_sizes.simps [of tree n i a bs]
      by (simp add: sizes_written_def)
    then show ?thesis
      using w s bs1 out(1) grow len Cons.prems(3)
      by (intro exI [of _ "a[i := s]"] exI [of _ bs1]) (auto simp: size_token_bits_def)
  next
    case False
    then obtain c k bs2 where rep: "read_repetition (size_symbol t) i a bs1 = Inr (c, k, bs2)" "c < 16"
      "out = take i a @ replicate k c" "reads bs1 (size_extra t) bs2" "stream_bits bs2 = ?more"
      using read_repetition_complete [OF reads_ok [OF bs1(2)] Cons.prems(2) t(1) _ out(1) bs1(3)] by auto
    have k: "length out = i + k" using rep(3) len by simp
    obtain a1 where a1: "write_repetition a i c k = Inr a1" "sizes_written (i + k) a1" "take (i + k) a1 = out"
      using write_sizes [OF Cons.prems(2) _ rep(2), of k] grow k Cons.prems(3) rep(3) by auto
    have "read_code_sizes tree n i a bs = read_code_sizes tree n (i + k) a1 bs2"
      using grow bs1(1) rep(1) a1(1) False k unfolding read_code_sizes.simps [of tree n i a bs] by simp
    then show ?thesis
      using a1 rep(5) k reads_trans [OF bs1(2) rep(4)] by (auto simp: size_token_bits_def)
  qed
  then obtain a1 bs2 where step: "read_code_sizes tree n i a bs = read_code_sizes tree n (length out) a1 bs2"
    "sizes_written (length out) a1" "take (length out) a1 = out"
    "reads bs (size_token_bits cs t) bs2" "stream_bits bs2 = ?more" by blast
  from Cons.IH [OF reads_ok [OF step(4)] step(2) Cons.prems(3) _ step(5)] Cons.prems(4,7) step(3) out(2)
  show ?case using step(1) by (auto dest: reads_trans [OF step(4)])
qed

text \<open>Literal and distance trees that a block can be decoded with.\<close>

definition block_trees :: "nat list \<Rightarrow> nat list \<Rightarrow> huffman_tree \<Rightarrow> huffman_tree \<Rightarrow> bool" where
  "block_trees literal_sizes distance_sizes literals_tree distances_tree \<longleftrightarrow>
     tree_of_sizes literal_sizes literals_tree \<and> length literal_sizes \<le> 288 \<and>
     tree_of_sizes distance_sizes distances_tree \<and> length distance_sizes \<le> 30"

section \<open>The header of a dynamic block\<close>

text \<open>
  The bits that describe literal code sizes \<open>ls\<close> and distance code sizes \<open>ds\<close>: their numbers,
  the sizes of the code size alphabet and the code sizes in that alphabet. At least one distance
  code is required, also for a block without repetitions.
\<close>

definition dynamic_header :: "bool list \<Rightarrow> nat list \<Rightarrow> nat list \<Rightarrow> bool" where
  "dynamic_header bits ls ds \<longleftrightarrow>
     257 \<le> length ls \<and> length ls \<le> 286 \<and> 1 \<le> length ds \<and> length ds \<le> 30 \<and> 0 < ls ! 256 \<and>
     usable_sizes 15 ls \<and> usable_sizes 15 ds \<and>
     (\<exists>n cs ts. 4 \<le> n \<and> n \<le> 19 \<and> alphabet_sizes n cs \<and> (\<forall>t \<in> set ts. size_token_ok cs t) \<and>
        expand_sizes ts [] = Some (ls @ ds) \<and>
        bits = lsb_bits 5 (length ls - 257) @ lsb_bits 5 (length ds - 1) @ lsb_bits 4 (n - 4) @
               codes_bits [0..<n] cs @ size_tokens_bits cs ts)"

definition numbers_bits :: "nat \<Rightarrow> nat \<Rightarrow> nat \<Rightarrow> bool list" where
  "numbers_bits nl nd nc = lsb_bits 5 (nl - 257) @ lsb_bits 5 (nd - 1) @ lsb_bits 4 (nc - 4)"

lemma read_code_numbers_value:
  "read_code_numbers bs = bindR (bit_stream_get_value bs 14) (\<lambda>(v, bs).
     let nl = unat v mod 32 + 257; nd = unat v div 32 mod 32 + 1
     in if nl > 286 then Inl RUNTIME_VALUE_OUT_OF_BOUNDS
        else if nd > 30 then Inl RUNTIME_VALUE_OUT_OF_BOUNDS
        else Inr (nl, nd, unat v div 1024 + 4, bs))"
proof -
  have mask: "unat (x AND 0x1f) = unat x mod 32" for x :: "32 word"
  proof -
    have "x AND 0x1f = take_bit 5 x" by (simp add: take_bit_eq_mask mask_eq_exp_minus_1)
    then show ?thesis by (simp add: unsigned_take_bit_eq take_bit_eq_mod unat_mod_distrib)
  qed
  have shift: "unat (drop_bit 5 x) = unat x div 32" for x :: "32 word"
    by (simp add: drop_bit_eq_div unat_div_distrib)
  have twice: "a div 32 div 32 = a div 1024" for a :: nat by (simp add: div_mult2_eq [symmetric])
  show ?thesis
    unfolding read_code_numbers_def Let_def mask shift twice by (simp add: split_def)
qed

lemma numbers_bits_value:
  "lsb_bits 14 v = numbers_bits (v mod 32 + 257) (v div 32 mod 32 + 1) (v div 1024 + 4)"
  using lsb_bits_add [of 5 9 v] lsb_bits_add [of 5 4 "v div 32"] lsb_bits_mod [of 5 v]
    lsb_bits_mod [of 5 "v div 32"]
  by (simp add: numbers_bits_def div_mult2_eq [symmetric] del: lsb_bits_Suc lsb_bits_mod)

lemma read_code_numbers_sound:
  assumes "stream_ok bs"
  shows "post lib_error (\<lambda>(nl, nd, nc, bs'). 257 \<le> nl \<and> nl \<le> 286 \<and> 1 \<le> nd \<and> nd \<le> 30 \<and> 4 \<le> nc \<and> nc \<le> 19 \<and>
      reads bs (numbers_bits nl nd nc) bs') (read_code_numbers bs)"
  unfolding read_code_numbers_value
  by (rule post_bindR [OF get_number_reads [OF assms]]) (auto simp: Let_def numbers_bits_value)

lemma read_code_numbers_complete:
  assumes "stream_ok bs" "257 \<le> nl" "nl \<le> 286" "1 \<le> nd" "nd \<le> 30" "4 \<le> nc" "nc \<le> 19"
    and "stream_bits bs = numbers_bits nl nd nc @ rest"
  shows "\<exists>bs'. read_code_numbers bs = Inr (nl, nd, nc, bs') \<and> reads bs (numbers_bits nl nd nc) bs' \<and>
    stream_bits bs' = rest"
proof -
  define x where "x = (nd - 1) + 32 * (nc - 4)"
  define v where "v = (nl - 257) + 32 * x"
  have parts: "v mod 32 + 257 = nl" "v div 32 mod 32 + 1 = nd" "v div 1024 + 4 = nc"
  proof -
    have "v div 32 = x" "v mod 32 = nl - 257" using assms(3) by (simp_all add: v_def)
    moreover have "x div 32 = nc - 4" "x mod 32 = nd - 1" using assms(5) by (simp_all add: x_def)
    moreover have "v div 1024 = v div 32 div 32" by (simp add: div_mult2_eq [symmetric])
    ultimately show "v mod 32 + 257 = nl" "v div 32 mod 32 + 1 = nd" "v div 1024 + 4 = nc"
      using assms(2-7) by simp_all
  qed
  have "v < 2 ^ 14" using assms by (simp add: v_def x_def)
  moreover have "stream_bits bs = lsb_bits 14 v @ rest"
    using assms(8) numbers_bits_value [of v] parts by simp
  ultimately obtain w bs' where "bit_stream_get_value bs 14 = Inr (w, bs')" "reads bs (lsb_bits 14 v) bs'"
    "stream_bits bs' = rest" "unat w = v"
    using get_number_complete [OF assms(1), of 14 v rest] by auto
  then show ?thesis
    using parts numbers_bits_value [of v] assms(2-7) by (simp add: read_code_numbers_value Let_def)
qed


lemma sizes_split:
  assumes "nl + nd \<le> length a"
  shows "take (nl + nd) a = take nl a @ take nd (drop nl a)"
  by (simp add: take_add)

lemma deflate_build_dynamic_huffman_trees_sound:
  assumes "stream_ok bs"
  shows "post lib_error (\<lambda>(l, d, bs'). \<exists>ls ds bits. block_trees ls ds l d \<and> dynamic_header bits ls ds \<and>
      reads bs bits bs')
    (deflate_build_dynamic_huffman_trees bs (empty_tree 288) (empty_tree 30))"
  (is "post _ ?Q _")
proof -
  have trees: "post lib_error ?Q (bindR (rd a 256) (\<lambda>end_of_block_size.
      if end_of_block_size = 0 then Inl RUNTIME_VALUE_MISSING
      else bindR (build_tree (empty_tree 288) a nl) (\<lambda>l.
             bindR (build_tree (empty_tree 30) (drop nl a) nd) (\<lambda>d. Inr (l, d, bs')))))"
    if n: "257 \<le> nl" "nl \<le> 286" "1 \<le> nd" "nd \<le> 30" "4 \<le> nc" "nc \<le> 19" and "alphabet_sizes nc cs"
      and a: "length a = 316" "\<forall>t \<in> set ts. size_token_ok cs t" "expand_sizes ts [] = Some (take (nl + nd) a)"
      and r: "reads bs (numbers_bits nl nd nc @ codes_bits [0..<nc] cs @ size_tokens_bits cs ts) bs'"
    for a nl nd nc cs ts bs'
  proof (cases "a ! 256 = 0")
    case False
    let ?ls = "take nl a" and ?ds = "take nd (drop nl a)"
    have "post lib_error (\<lambda>t. tree_of_sizes ?ls t \<and> usable_sizes 15 ?ls) (build_tree (empty_tree 288) a nl)"
      using build_tree_sound [of "empty_tree 288" nl a] n a(1) by simp
    moreover have "post lib_error (\<lambda>t. tree_of_sizes ?ds t \<and> usable_sizes 15 ?ds)
        (build_tree (empty_tree 30) (drop nl a) nd)"
      using build_tree_sound [of "empty_tree 30" nd "drop nl a"] n a(1) by simp
    moreover have "?Q (l, d, bs')" if "tree_of_sizes ?ls l" "usable_sizes 15 ?ls" "tree_of_sizes ?ds d"
      "usable_sizes 15 ?ds" for l d
    proof -
      have "dynamic_header (numbers_bits nl nd nc @ codes_bits [0..<nc] cs @ size_tokens_bits cs ts) ?ls ?ds"
        unfolding dynamic_header_def numbers_bits_def
        using that n a sizes_split [of nl nd a] False \<open>alphabet_sizes nc cs\<close>
        by (intro conjI exI [of _ nc] exI [of _ cs] exI [of _ ts]) auto
      moreover have "block_trees ?ls ?ds l d" using that n a(1) by (simp add: block_trees_def)
      ultimately show ?thesis using r by blast
    qed
    ultimately have "post lib_error ?Q (bindR (build_tree (empty_tree 288) a nl) (\<lambda>l.
             bindR (build_tree (empty_tree 30) (drop nl a) nd) (\<lambda>d. Inr (l, d, bs'))))"
      by (elim post_bindR) auto
    then show ?thesis using False a(1) by simp
  qed (use a in simp)
  show ?thesis
    unfolding deflate_build_dynamic_huffman_trees_def
  proof (rule post_bindR [OF read_code_numbers_sound [OF assms]], goal_cases)
    case (1 x)
    then obtain nl nd nc bs1 where x: "x = (nl, nd, nc, bs1)" and n: "257 \<le> nl" "nl \<le> 286" "1 \<le> nd"
      "nd \<le> 30" "4 \<le> nc" "nc \<le> 19" and r1: "reads bs (numbers_bits nl nd nc) bs1" by (cases x) auto
    show ?case
      unfolding x prod.case
    proof (rule post_bindR [OF build_codes_tree_sound [OF reads_ok [OF r1] n(6)]], goal_cases)
      case (1 y)
      then obtain a tree bs2 cs where y: "y = (a, tree, bs2)" and cs: "length a = 316" "alphabet_sizes nc cs"
        "tree_of_sizes cs tree" and r2: "reads bs1 (codes_bits [0..<nc] cs) bs2" by (cases y) auto
      have "post lib_error (sizes_read cs (nl + nd) 0 a bs2) (read_code_sizes tree (nl + nd) 0 a bs2)"
        using cs n by (intro read_code_sizes_sound [OF cs(3) reads_ok [OF r2]]) (auto simp: sizes_written_def)
      then show ?case
        unfolding y prod.case
      proof (rule post_bindR, goal_cases)
        case (1 z)
        then obtain a' bs3 ts where z: "z = (a', bs3)" "length a' = 316" "\<forall>t \<in> set ts. size_token_ok cs t"
          "expand_sizes ts [] = Some (take (nl + nd) a')" and r3: "reads bs2 (size_tokens_bits cs ts) bs3"
          by (cases z) (auto simp: sizes_read_def sizes_written_def)
        show ?case
          unfolding z(1) prod.case
          by (rule trees [OF n cs(2) z(2-4) reads_trans [OF r1 reads_trans [OF r2 r3]]])
      qed
    qed
  qed
qed

lemma deflate_build_dynamic_huffman_trees_complete:
  assumes "stream_ok bs" "dynamic_header bits ls ds" "stream_bits bs = bits @ rest"
  shows "\<exists>l d bs'. deflate_build_dynamic_huffman_trees bs (empty_tree 288) (empty_tree 30) = Inr (l, d, bs') \<and>
    block_trees ls ds l d \<and> reads bs bits bs' \<and> stream_bits bs' = rest"
proof -
  let ?nl = "length ls" and ?nd = "length ds"
  from assms(2) obtain nc cs ts where n: "257 \<le> ?nl" "?nl \<le> 286" "1 \<le> ?nd" "?nd \<le> 30" "4 \<le> nc" "nc \<le> 19"
    and sizes: "0 < ls ! 256" "usable_sizes 15 ls" "usable_sizes 15 ds"
    and cs: "alphabet_sizes nc cs" "\<forall>t \<in> set ts. size_token_ok cs t" "expand_sizes ts [] = Some (ls @ ds)"
    and bits: "bits = numbers_bits ?nl ?nd nc @ codes_bits [0..<nc] cs @ size_tokens_bits cs ts"
    by (auto simp: dynamic_header_def numbers_bits_def)
  obtain bs1 where bs1: "read_code_numbers bs = Inr (?nl, ?nd, nc, bs1)" "reads bs (numbers_bits ?nl ?nd nc) bs1"
    "stream_bits bs1 = codes_bits [0..<nc] cs @ size_tokens_bits cs ts @ rest"
    using read_code_numbers_complete [OF assms(1) n] assms(3) bits by auto
  obtain a tree bs2 where bs2: "build_codes_tree nc bs1 = Inr (a, tree, bs2)" "length a = 316"
    "tree_of_sizes cs tree" "reads bs1 (codes_bits [0..<nc] cs) bs2" "stream_bits bs2 = size_tokens_bits cs ts @ rest"
    using build_codes_tree_complete [OF reads_ok [OF bs1(2)] n(6) cs(1) bs1(3)] by blast
  obtain a' bs3 where bs3: "read_code_sizes tree (?nl + ?nd) 0 a bs2 = Inr (a', bs3)"
    "take (?nl + ?nd) a' = ls @ ds" "length a' = 316" "reads bs2 (size_tokens_bits cs ts) bs3" "stream_bits bs3 = rest"
    using read_code_sizes_complete [OF bs2(3) reads_ok [OF bs2(4)] _ _ cs(2) bs2(5), of 0 a "?nl + ?nd" "ls @ ds"]
      cs(3) n bs2(2) by (auto simp: sizes_written_def)
  have "take ?nl a' @ take ?nd (drop ?nl a') = ls @ ds" "length (take ?nl a') = ?nl"
    using sizes_split [of ?nl ?nd a'] bs3(2,3) n by simp_all
  then have parts: "take ?nl a' = ls" "take ?nd (drop ?nl a') = ds" by auto
  have "a' ! 256 = take ?nl a' ! 256" using n bs3(3) by simp
  then have end_of_block: "a' ! 256 \<noteq> 0" using sizes(1) parts(1) by simp
  obtain l where l: "build_tree (empty_tree 288) a' ?nl = Inr l" "tree_of_sizes ls l"
    using build_tree_complete [of "empty_tree 288" ?nl a'] n bs3(3) sizes(2) parts(1) by auto
  obtain d where d: "build_tree (empty_tree 30) (drop ?nl a') ?nd = Inr d" "tree_of_sizes ds d"
    using build_tree_complete [of "empty_tree 30" ?nd "drop ?nl a'"] n bs3(3) sizes(3) parts(2) by fastforce
  have "deflate_build_dynamic_huffman_trees bs (empty_tree 288) (empty_tree 30) = Inr (l, d, bs3)"
    using bs1(1) bs2(1) bs3(1,3) l(1) d(1) end_of_block by (simp add: deflate_build_dynamic_huffman_trees_def)
  moreover have "reads bs bits bs3"
    using reads_trans [OF bs1(2) reads_trans [OF bs2(4) bs3(4)]] bits by simp
  ultimately show ?thesis using l(2) d(2) n bs3(5) by (simp add: block_trees_def)
qed

section \<open>The fixed trees\<close>

definition fixed_literal_sizes :: "nat list" where
  "fixed_literal_sizes = map fixed_code_size [0..<288]"

definition fixed_distance_sizes :: "nat list" where
  "fixed_distance_sizes = replicate 30 5"

lemma size_count_map: "size_count (map f [0..<n]) l = length (filter (\<lambda>s. f s = l) [0..<n])"
  unfolding size_count_def symbols_of_size_def
  by (intro arg_cong [of _ _ length] filter_cong) auto

lemma size_count_fixed_literals:
  "size_count fixed_literal_sizes l =
     (if l = 7 then 24 else if l = 8 then 152 else if l = 9 then 112 else 0)"
proof -
  have const: "filter (\<lambda>s. fixed_code_size s = l) [a..<b] = (if c = l then [a..<b] else [])"
    if "\<And>s. a \<le> s \<Longrightarrow> s < b \<Longrightarrow> fixed_code_size s = c" for a b c
    using that by (auto simp: filter_empty_conv intro: filter_True)
  have "[0..<288::nat] = [0..<144] @ [144..<256] @ [256..<280] @ [280..<288]"
    using upt_add_eq_append [of 0 144 144] upt_add_eq_append [of 144 256 32]
      upt_add_eq_append [of 256 280 8] upt_add_eq_append [of 144 256 24]
    by (simp del: upt_rec_numeral)
  then have "filter (\<lambda>s. fixed_code_size s = l) [0..<288] =
      (if 8 = l then [0..<144] else []) @ (if 9 = l then [144..<256] else []) @
      (if 7 = l then [256..<280] else []) @ (if 8 = l then [280..<288] else [])"
    using const [of 0 144 8] const [of 144 256 9] const [of 256 280 7] const [of 280 288 8]
    by (simp only: filter_append) (simp add: fixed_code_size_def del: upt_rec_numeral)
  then show ?thesis
    unfolding fixed_literal_sizes_def size_count_map by (simp del: upt_rec_numeral)
qed

lemma size_count_fixed_distances: "size_count fixed_distance_sizes l = (if l = 5 then 30 else 0)"
proof -
  have "fixed_distance_sizes = map (\<lambda>_. 5) [0..<30]"
    by (simp add: fixed_distance_sizes_def map_replicate_const del: upt_rec_numeral)
  then have "size_count fixed_distance_sizes l = length (filter (\<lambda>_. 5 = l) [0..<30::nat])"
    using size_count_map [of "\<lambda>_. 5" 30 l] by (simp del: upt_rec_numeral)
  then show ?thesis by (simp del: upt_rec_numeral)
qed

lemma first_code_numeral:
  "first_code sizes (numeral k) =
     (if pred_numeral k = 0 then 0
      else 2 * (first_code sizes (pred_numeral k) + size_count sizes (pred_numeral k)))"
  by (simp add: numeral_eq_Suc)

lemma fixed_sizes_valid: "valid_sizes 15 fixed_literal_sizes" "valid_sizes 15 fixed_distance_sizes"
proof -
  have levels: "{1..15::nat} = {1,2,3,4,5,6,7,8,9,10,11,12,13,14,15}" by code_simp
  note evaluate = used_codes_def first_code_numeral size_count_fixed_literals size_count_fixed_distances
  have "fixed_literal_sizes ! s \<le> 15" if "s < length fixed_literal_sizes" for s
    using that by (simp add: fixed_literal_sizes_def fixed_code_size_def del: upt_rec_numeral)
  moreover have "\<forall>l \<in> {1..15}. used_codes fixed_literal_sizes l \<le> 2 ^ l"
    unfolding levels by (simp add: evaluate)
  ultimately show "valid_sizes 15 fixed_literal_sizes" by (simp add: valid_sizes_def)
  have "\<forall>l \<in> {1..15}. used_codes fixed_distance_sizes l \<le> 2 ^ l"
    unfolding levels by (simp add: evaluate)
  then show "valid_sizes 15 fixed_distance_sizes"
    by (simp add: valid_sizes_def fixed_distance_sizes_def)
qed

lemma fixed_sizes_usable: "usable_sizes 15 fixed_literal_sizes" "usable_sizes 15 fixed_distance_sizes"
proof -
  have "0 < length fixed_literal_sizes" "fixed_literal_sizes ! 0 \<noteq> 0"
    "0 < length fixed_distance_sizes" "fixed_distance_sizes ! 0 \<noteq> 0"
    by (simp_all add: fixed_literal_sizes_def fixed_distance_sizes_def fixed_code_size_def del: upt_rec_numeral)
  with fixed_sizes_valid show "usable_sizes 15 fixed_literal_sizes" "usable_sizes 15 fixed_distance_sizes"
    unfolding usable_sizes_def by blast+
qed

lemma deflate_build_fixed_huffman_trees_ok:
  assumes "maximum_code_size l = 15" "length (symbols l) = 288"
    and "maximum_code_size d = 15" "length (symbols d) = 30"
  shows "\<exists>l' d'. deflate_build_fixed_huffman_trees l d = Inr (l', d') \<and>
    block_trees fixed_literal_sizes fixed_distance_sizes l' d'"
proof -
  let ?a = "map fixed_code_size [0..<318]"
  have split: "take 288 ?a = fixed_literal_sizes" "take 30 (drop 288 ?a) = fixed_distance_sizes"
    unfolding fixed_literal_sizes_def fixed_distance_sizes_def
    by (auto simp: take_map drop_map fixed_code_size_def intro!: nth_equalityI simp del: upt_rec_numeral)
  obtain l' where l': "build_tree l ?a 288 = Inr l'" "tree_of_sizes (take 288 ?a) l'"
    using build_tree_complete [of l 288 ?a] assms fixed_sizes_usable(1) unfolding split
    by (auto simp del: upt_rec_numeral)
  obtain d' where d': "build_tree d (drop 288 ?a) 30 = Inr d'" "tree_of_sizes (take 30 (drop 288 ?a)) d'"
    using build_tree_complete [of d 30 "drop 288 ?a"] assms fixed_sizes_usable(2) unfolding split
    by (auto simp del: upt_rec_numeral)
  show ?thesis
    using l' d' unfolding split
    by (simp add: deflate_build_fixed_huffman_trees_def block_trees_def fixed_literal_sizes_def
        fixed_distance_sizes_def del: upt_rec_numeral replicate.simps)
qed


end
