(* ===== verification/Deflate_Tokens.thy ===== *)
theory Deflate_Tokens
  imports Deflate_Trees
begin

text \<open>
  The tokens of a Huffman compressed block and what they expand to. Decoding a block succeeds
  exactly on the encodings of token sequences whose expansion fits the buffer, and then the
  buffer holds the expansion.
\<close>

section \<open>Tokens\<close>

text \<open>
  A token is a literal byte, or a repetition with its length code, the extra bits of the length,
  its distance code and the extra bits of the distance.
\<close>

datatype token =
    Literal byte
  | Repeat nat "bool list" nat "bool list"

definition repeat_size :: "nat \<Rightarrow> bool list \<Rightarrow> nat" where
  "repeat_size i xs = deflate_literal_codes_base ! i + bits_value xs"

definition repeat_distance :: "nat \<Rightarrow> bool list \<Rightarrow> nat" where
  "repeat_distance j ys = deflate_distance_codes_base ! j + bits_value ys"

fun encodable :: "nat list \<Rightarrow> nat list \<Rightarrow> token \<Rightarrow> bool" where
  "encodable ls ds (Literal b) \<longleftrightarrow> unat b < length ls \<and> 0 < ls ! unat b"
| "encodable ls ds (Repeat i xs j ys) \<longleftrightarrow>
     i < 29 \<and> 257 + i < length ls \<and> 0 < ls ! (257 + i) \<and>
     length xs = deflate_literal_codes_number_of_extra_bits ! i \<and>
     j < 30 \<and> j < length ds \<and> 0 < ds ! j \<and>
     length ys = deflate_distance_codes_number_of_extra_bits ! j"

fun token_bits :: "nat list \<Rightarrow> nat list \<Rightarrow> token \<Rightarrow> bool list" where
  "token_bits ls ds (Literal b) = code_bits ls (unat b)"
| "token_bits ls ds (Repeat i xs j ys) = code_bits ls (257 + i) @ xs @ code_bits ds j @ ys"

definition tokens_bits :: "nat list \<Rightarrow> nat list \<Rightarrow> token list \<Rightarrow> bool list" where
  "tokens_bits ls ds ts = concat (map (token_bits ls ds) ts)"

lemma tokens_bits_simps [simp]:
  "tokens_bits ls ds [] = []"
  "tokens_bits ls ds (t # ts) = token_bits ls ds t @ tokens_bits ls ds ts"
  by (simp_all add: tokens_bits_def)

text \<open>A repetition copies from the output, also the bytes it has just produced.\<close>

fun lz_copy :: "nat \<Rightarrow> nat \<Rightarrow> bytes \<Rightarrow> bytes" where
  "lz_copy d 0 out = out"
| "lz_copy d (Suc n) out = lz_copy d n (out @ [out ! (length out - d)])"

fun expand_token :: "token \<Rightarrow> bytes \<Rightarrow> bytes option" where
  "expand_token (Literal b) out = Some (out @ [b])"
| "expand_token (Repeat i xs j ys) out =
     (if repeat_distance j ys \<le> length out
      then Some (lz_copy (repeat_distance j ys) (repeat_size i xs) out) else None)"

fun expand :: "token list \<Rightarrow> bytes \<Rightarrow> bytes option" where
  "expand [] out = Some out"
| "expand (t # ts) out = (case expand_token t out of None \<Rightarrow> None | Some out' \<Rightarrow> expand ts out')"

lemma length_lz_copy [simp]: "length (lz_copy d n out) = length out + n"
  by (induction d n out rule: lz_copy.induct) simp_all

lemma take_lz_copy [simp]: "take (length out) (lz_copy d n out) = out"
proof (induction n arbitrary: out)
  case 0
  show ?case by simp
next
  case (Suc n)
  have "take (length out) (lz_copy d n (out @ [out ! (length out - d)])) =
      take (length out) (take (length (out @ [out ! (length out - d)])) (lz_copy d n (out @ [out ! (length out - d)])))"
    by (simp only: take_take) simp
  then show ?case by (simp only: lz_copy.simps Suc.IH) simp
qed

text \<open>The copy repeats the last \<open>d\<close> bytes of the output periodically.\<close>

lemma lz_copy_periodic:
  assumes "0 < d" "d \<le> length out" "k < n"
  shows "lz_copy d n out ! (length out + k) = out ! (length out - d + k mod d)"
proof -
  have "\<forall>k < n. lz_copy d n (pre @ window) ! (length pre + length window + k) = window ! (k mod d)"
    if "length window = d" for pre window n
    using that
  proof (induction n arbitrary: pre window)
    case 0
    show ?case by simp
  next
    case (Suc n)
    with assms(1) obtain w ws where w: "window = w # ws" by (cases window) auto
    have step: "lz_copy d (Suc n) (pre @ window) = lz_copy d n ((pre @ [w]) @ (ws @ [w]))"
      using Suc.prems w by (simp add: nth_append)
    show ?case
    proof (intro allI impI)
      fix k
      assume k: "k < Suc n"
      show "lz_copy d (Suc n) (pre @ window) ! (length pre + length window + k) = window ! (k mod d)"
      proof (cases k)
        case 0
        have "lz_copy d n (pre @ w # ws @ [w]) ! length (pre @ w # ws) =
            take (length (pre @ w # ws @ [w])) (lz_copy d n (pre @ w # ws @ [w])) ! length (pre @ w # ws)"
          by (simp only: nth_take length_append) simp
        also have "\<dots> = w" by (simp only: take_lz_copy) (simp add: nth_append)
        finally show ?thesis using 0 step w by simp
      next
        case (Suc k')
        have "lz_copy d n ((pre @ [w]) @ (ws @ [w])) ! (length (pre @ [w]) + length (ws @ [w]) + k') =
            (ws @ [w]) ! (k' mod d)"
          using Suc.IH [of "ws @ [w]" "pre @ [w]"] Suc.prems w k \<open>k = Suc k'\<close> by auto
        moreover have "(ws @ [w]) ! (k' mod d) = window ! (Suc k' mod d)"
        proof (cases "Suc (k' mod d) = d")
          case True
          then have "k' mod d = length ws" using Suc.prems w by simp
          with True w show ?thesis by (simp add: mod_Suc)
        next
          case False
          moreover have "length ws + 1 = d" using Suc.prems w by simp
          ultimately have "k' mod d < length ws"
            using mod_less_divisor [OF assms(1), of k'] by linarith
          with \<open>Suc (k' mod d) \<noteq> d\<close> w show ?thesis by (simp add: mod_Suc nth_append)
        qed
        ultimately show ?thesis using step w Suc by (simp add: add.commute)
      qed
    qed
  qed
  from this [of "drop (length out - d) out" n "take (length out - d) out"] assms show ?thesis by simp
qed


section \<open>Reading the parts of a token\<close>

lemma repetition_tables:
  assumes "i < 29"
  shows "i < length deflate_literal_codes_base" "i < length deflate_literal_codes_number_of_extra_bits"
    "deflate_literal_codes_base ! i \<le> 258" "deflate_literal_codes_number_of_extra_bits ! i \<le> 5"
proof -
  have "list_all (\<lambda>b. b \<le> 258) deflate_literal_codes_base"
    "list_all (\<lambda>n. n \<le> 5) deflate_literal_codes_number_of_extra_bits"
    "length deflate_literal_codes_base = 29" "length deflate_literal_codes_number_of_extra_bits = 29"
    by (simp_all add: deflate_tables)
  with assms show "i < length deflate_literal_codes_base"
    "i < length deflate_literal_codes_number_of_extra_bits"
    "deflate_literal_codes_base ! i \<le> 258" "deflate_literal_codes_number_of_extra_bits ! i \<le> 5"
    by (simp_all add: list_all_length)
qed

lemma distance_tables:
  assumes "j < 30"
  shows "j < length deflate_distance_codes_base" "j < length deflate_distance_codes_number_of_extra_bits"
    "0 < deflate_distance_codes_base ! j" "deflate_distance_codes_base ! j \<le> 24577"
    "deflate_distance_codes_number_of_extra_bits ! j \<le> 13"
proof -
  have "list_all (\<lambda>b. 0 < b \<and> b \<le> 24577) deflate_distance_codes_base"
    "list_all (\<lambda>n. n \<le> 13) deflate_distance_codes_number_of_extra_bits"
    "length deflate_distance_codes_base = 30" "length deflate_distance_codes_number_of_extra_bits = 30"
    by (simp_all add: deflate_tables)
  with assms show "j < length deflate_distance_codes_base"
    "j < length deflate_distance_codes_number_of_extra_bits"
    "0 < deflate_distance_codes_base ! j" "deflate_distance_codes_base ! j \<le> 24577"
    "deflate_distance_codes_number_of_extra_bits ! j \<le> 13"
    by (simp_all add: list_all_length)
qed

lemma extra_bits_fit:
  assumes "length xs \<le> 13" "b \<le> 24577"
  shows "(b + bits_value xs mod 65536) mod 65536 = b + bits_value xs"
proof -
  have "bits_value xs < 2 ^ length xs" by (rule bits_value_bound)
  also have "\<dots> \<le> 2 ^ 13" using assms(1) by (intro power_increasing) simp_all
  finally show ?thesis using assms(2) by simp
qed

lemma read_repetition_size_post:
  assumes "stream_ok bs" "i < 29"
  shows "post lib_error (\<lambda>(size, bs'). \<exists>xs. length xs = deflate_literal_codes_number_of_extra_bits ! i \<and>
      reads bs xs bs' \<and> size = repeat_size i xs) (read_repetition_size i bs)"
proof -
  note t = repetition_tables [OF assms(2)]
  have "post lib_error (\<lambda>(v, bs'). \<exists>xs. length xs = deflate_literal_codes_number_of_extra_bits ! i \<and>
      reads bs xs bs' \<and> unat v = bits_value xs)
      (bit_stream_get_value bs (deflate_literal_codes_number_of_extra_bits ! i))"
    using t(4) by (intro get_value_bits [OF assms(1)]) simp
  then show ?thesis
    unfolding read_repetition_size_def using t
    by (simp, elim post_bindR) (fastforce simp: repeat_size_def extra_bits_fit)
qed

lemma read_repetition_offset_post:
  assumes "tree_of_sizes ds d" "length ds \<le> 30" "stream_ok bs"
  shows "post lib_error (\<lambda>(dist, bs'). \<exists>j ys. j < length ds \<and> 0 < ds ! j \<and>
      length ys = deflate_distance_codes_number_of_extra_bits ! j \<and>
      reads bs (code_bits ds j @ ys) bs' \<and> dist = repeat_distance j ys) (read_repetition_offset d bs)"
proof -
  have symbol: "post lib_error
      (\<lambda>(j, bs'). j < length ds \<and> 0 < ds ! j \<and> reads bs (code_bits ds j) bs')
      (huffman_tree_get_symbol_from_bit_stream d bs)"
    using get_symbol_reads [OF assms(1,3)] by (auto elim: post_weaken)
  show ?thesis
    unfolding read_repetition_offset_def
  proof (rule post_bindR [OF symbol], clarify)
    fix j bs1
    assume j: "j < length ds" "0 < ds ! j" "reads bs (code_bits ds j) bs1"
    then have "j < 30" using assms(2) by simp
    note t = distance_tables [OF this]
    have "post lib_error (\<lambda>(v, bs'). \<exists>ys. length ys = deflate_distance_codes_number_of_extra_bits ! j \<and>
        reads bs1 ys bs' \<and> unat v = bits_value ys)
        (bit_stream_get_value bs1 (deflate_distance_codes_number_of_extra_bits ! j))"
      using t(5) by (intro get_value_bits [OF reads_ok [OF j(3)]]) simp
    then show "post lib_error (\<lambda>(dist, bs'). \<exists>j ys. j < length ds \<and> 0 < ds ! j \<and>
        length ys = deflate_distance_codes_number_of_extra_bits ! j \<and>
        reads bs (code_bits ds j @ ys) bs' \<and> dist = repeat_distance j ys)
       (bindR (rd deflate_distance_codes_number_of_extra_bits j) (\<lambda>number_of_extra_bits.
          bindR (bit_stream_get_value bs1 number_of_extra_bits) (\<lambda>(extra_bits, bs).
            bindR (rd deflate_distance_codes_base j) (\<lambda>base.
              Inr ((base + unat extra_bits mod 65536) mod 65536, bs)))))"
      unfolding rd_Inr [OF t(1)] rd_Inr [OF t(2)] bindR_simps
      using t j by (elim post_bindR) (fastforce simp: repeat_distance_def extra_bits_fit
          intro!: exI [of _ j] intro: reads_trans [OF j(3)])
  qed
qed

lemma copy_repetition_ok:
  assumes "0 < d" "d \<le> off" "off + n \<le> length buf"
  shows "\<exists>buf'. copy_repetition buf off d n = Inr buf' \<and> length buf' = length buf \<and>
    take (off + n) buf' = lz_copy d n (take off buf) \<and> drop (off + n) buf' = drop (off + n) buf"
  using assms
proof (induction n arbitrary: buf off)
  case 0
  then show ?case by simp
next
  case (Suc n)
  let ?b = "buf ! (off - d)"
  have off: "off < length buf" "off - d < off" using Suc.prems by simp_all
  have step: "copy_repetition buf off d (Suc n) = copy_repetition (buf[off := ?b]) (off + 1) d n"
    using off by simp
  have out: "take (off + 1) (buf[off := ?b]) = take off buf @ [take off buf ! (length (take off buf) - d)]"
    using off by (simp add: take_Suc_conv_app_nth)
  have "drop (off + 1 + n) (buf[off := ?b]) = drop (off + Suc n) buf"
    by simp
  with Suc.IH [of "off + 1" "buf[off := ?b]"] Suc.prems step out show ?case by (simp del: copy_repetition.simps)
qed


section \<open>Decoding is sound\<close>

text \<open>
  The outcome of decoding from offset \<open>off\<close> of \<open>buf\<close>, of which \<open>n\<close> bytes may be written: an
  error leaves the data before \<open>off\<close> and everything from \<open>n\<close> on; a value is the expansion of
  the tokens that were read.
\<close>

definition decoded ::
    "nat list \<Rightarrow> nat list \<Rightarrow> bytes \<Rightarrow> nat \<Rightarrow> nat \<Rightarrow> bit_stream \<Rightarrow> bytes \<times> nat \<times> bit_stream \<Rightarrow> bool" where
  "decoded ls ds buf off n bs = (\<lambda>(buf', off', bs').
     length buf' = length buf \<and> off' \<le> n \<and> drop off' buf' = drop off' buf \<and>
     (\<exists>ts. (\<forall>t \<in> set ts. encodable ls ds t) \<and> 256 < length ls \<and> 0 < ls ! 256 \<and>
        reads bs (tokens_bits ls ds ts @ code_bits ls 256) bs' \<and>
        expand ts (take off buf) = Some (take off' buf')))"

lemma expand_token_prefix: "expand_token t out = Some out' \<Longrightarrow> \<exists>more. out' = out @ more"
proof (cases t)
  case (Repeat i xs j ys)
  have "lz_copy d k out = out @ drop (length out) (lz_copy d k out)" for d k
    by (metis append_take_drop_id take_lz_copy)
  then show "expand_token t out = Some out' \<Longrightarrow> \<exists>more. out' = out @ more"
    using Repeat by (auto split: if_splits)
qed auto

lemma expand_prefix: "expand ts out = Some out' \<Longrightarrow> \<exists>more. out' = out @ more"
proof (induction ts arbitrary: out)
  case (Cons t ts)
  then obtain out1 where "expand_token t out = Some out1" "expand ts out1 = Some out'"
    by (auto split: option.splits)
  with Cons.IH expand_token_prefix [of t out out1] show ?case by fastforce
qed simp

text \<open>One token, then the rest of the block.\<close>

lemma decoded_step:
  assumes "encodable ls ds t" "reads bs (token_bits ls ds t) bs1"
    and "length buf1 = length buf" "off1 \<le> n" "off \<le> off1" "n \<le> length buf" "drop off1 buf1 = drop off1 buf"
    and "expand_token t (take off buf) = Some (take off1 buf1)"
  shows "decoded ls ds buf1 off1 n bs1 x \<Longrightarrow> decoded ls ds buf off n bs x"
    and "buffer_kept buf1 off1 n y \<Longrightarrow> buffer_kept buf off n y"
proof -
  have dropped: "drop m buf1 = drop m buf" if "off1 \<le> m" for m
  proof -
    have "drop m buf1 = drop (m - off1) (drop off1 buf1)" using that by simp
    also have "\<dots> = drop m buf" using that assms(7) by simp
    finally show ?thesis .
  qed
  have "\<exists>more. take off1 buf1 = take off buf @ more" by (rule expand_token_prefix [OF assms(8)])
  then obtain more where more: "take off1 buf1 = take off buf @ more" by blast
  show "decoded ls ds buf off n bs x" if dec: "decoded ls ds buf1 off1 n bs1 x"
  proof -
    obtain buf2 off2 bs2 where x: "x = (buf2, off2, bs2)" by (cases x)
    from dec obtain ts where ts: "length buf2 = length buf1" "off2 \<le> n" "drop off2 buf2 = drop off2 buf1"
      "\<forall>t \<in> set ts. encodable ls ds t" "256 < length ls" "0 < ls ! 256"
      "reads bs1 (tokens_bits ls ds ts @ code_bits ls 256) bs2"
      "expand ts (take off1 buf1) = Some (take off2 buf2)" by (auto simp: decoded_def x)
    have "\<exists>more. take off2 buf2 = take off1 buf1 @ more" by (rule expand_prefix [OF ts(8)])
    then obtain more' where "take off2 buf2 = take off1 buf1 @ more'" by blast
    then have "length (take off1 buf1) \<le> length (take off2 buf2)" by simp
    then have drops: "drop off2 buf2 = drop off2 buf"
      using dropped [of off2] ts(1,3) assms(3) by (cases "off1 \<le> off2") auto
    have "reads bs (tokens_bits ls ds (t # ts) @ code_bits ls 256) bs2"
      using reads_trans [OF assms(2) ts(7)] by simp
    with ts assms drops show ?thesis
      unfolding decoded_def x prod.case by (intro conjI exI [of _ "t # ts"]) simp_all
  qed
  show "buffer_kept buf off n y" if "buffer_kept buf1 off1 n y"
  proof -
    obtain e buf2 where y: "y = (e, buf2)" by (cases y)
    with that have buf2: "take off1 buf2 = take off buf @ more" "length buf2 = length buf"
      "drop n buf2 = drop n buf" "lib_error e"
      using dropped [of n] assms(3,4) more by (auto simp: buffer_kept_def)
    have "take off buf2 = take off (take off1 buf2)" using assms(5) by simp
    also have "\<dots> = take off buf" using assms(4-6) by (simp add: buf2(1))
    finally show ?thesis using buf2 y by (simp add: buffer_kept_def)
  qed
qed


text \<open>A literal, respectively a repetition, was written.\<close>

lemma literal_step:
  assumes "s < 256" "s < length ls" "0 < ls ! s" "reads bs (code_bits ls s) bs1"
    and "off < n" "n \<le> length buf"
  shows "decoded ls ds (buf[off := of_nat s]) (off + 1) n bs1 x \<Longrightarrow> decoded ls ds buf off n bs x"
    and "buffer_kept (buf[off := of_nat s]) (off + 1) n y \<Longrightarrow> buffer_kept buf off n y"
proof -
  have s: "unat (of_nat s :: byte) = s" using assms(1) by (simp add: unat_of_nat)
  have out: "expand_token (Literal (of_nat s)) (take off buf) = Some (take (off + 1) (buf[off := of_nat s]))"
    using assms by (simp add: take_Suc_conv_app_nth)
  note step = decoded_step [of ls ds "Literal (of_nat s)" bs bs1 "buf[off := of_nat s]" buf "off + 1" n off]
  show "decoded ls ds (buf[off := of_nat s]) (off + 1) n bs1 x \<Longrightarrow> decoded ls ds buf off n bs x"
    using step(1) out assms by (simp add: s)
  show "buffer_kept (buf[off := of_nat s]) (off + 1) n y \<Longrightarrow> buffer_kept buf off n y"
    using step(2) out assms by (simp add: s)
qed

lemma repetition_step:
  assumes "encodable ls ds (Repeat i xs j ys)"
    and "reads bs (token_bits ls ds (Repeat i xs j ys)) bs1"
    and "repeat_distance j ys \<le> off" "off + repeat_size i xs \<le> n" "n \<le> length buf"
  obtains buf1 where
    "copy_repetition buf off (repeat_distance j ys) (repeat_size i xs) = Inr buf1"
    "length buf1 = length buf"
    "\<And>x. decoded ls ds buf1 (off + repeat_size i xs) n bs1 x \<Longrightarrow> decoded ls ds buf off n bs x"
    "\<And>y. buffer_kept buf1 (off + repeat_size i xs) n y \<Longrightarrow> buffer_kept buf off n y"
proof -
  have "0 < repeat_distance j ys"
    using assms(1) distance_tables(3) [of j] by (simp add: repeat_distance_def)
  then obtain buf1 where buf1:
    "copy_repetition buf off (repeat_distance j ys) (repeat_size i xs) = Inr buf1"
    "length buf1 = length buf"
    "take (off + repeat_size i xs) buf1 = lz_copy (repeat_distance j ys) (repeat_size i xs) (take off buf)"
    "drop (off + repeat_size i xs) buf1 = drop (off + repeat_size i xs) buf"
    using copy_repetition_ok [of "repeat_distance j ys" off "repeat_size i xs" buf] assms by auto
  have "length (take off buf) = off" using assms by simp
  with buf1 assms have out: "expand_token (Repeat i xs j ys) (take off buf) =
      Some (take (off + repeat_size i xs) buf1)" by simp
  show thesis
    using decoded_step [OF assms(1,2) buf1(2) assms(4) _ assms(5) buf1(4) out]
    by (intro that [OF buf1(1,2)]) auto
qed

text \<open>
  The rest of the block is decoded by the continuation \<open>k\<close>, on a shorter stream; the steps
  below carry its guarantee over the token before it.
\<close>

definition decodes_rest ::
    "nat list \<Rightarrow> nat list \<Rightarrow> bytes \<Rightarrow> nat \<Rightarrow> bit_stream \<Rightarrow>
       (bytes \<Rightarrow> nat \<Rightarrow> bit_stream \<Rightarrow> (bytes \<times> nat \<times> bit_stream) buffer_result) \<Rightarrow> bool" where
  "decodes_rest ls ds buf n bs k \<longleftrightarrow>
     (\<forall>buf1 off1 bs1. length buf1 = length buf \<longrightarrow> off1 \<le> n \<longrightarrow> stream_ok bs1 \<longrightarrow>
        length (stream_bits bs1) < length (stream_bits bs) \<longrightarrow>
        post (buffer_kept buf1 off1 n) (decoded ls ds buf1 off1 n bs1) (k buf1 off1 bs1))"

lemma decodes_restD:
  assumes "decodes_rest ls ds buf n bs k" "length buf1 = length buf" "off1 \<le> n" "reads bs bits bs1" "bits \<noteq> []"
  shows "post (buffer_kept buf1 off1 n) (decoded ls ds buf1 off1 n bs1) (k buf1 off1 bs1)"
proof -
  have "length (stream_bits bs1) < length (stream_bits bs)" "stream_ok bs1"
    using assms(4,5) by (auto simp: reads_def)
  with assms show ?thesis by (simp add: decodes_rest_def)
qed

lemma code_bits_nonempty: "0 < sizes ! s \<Longrightarrow> code_bits sizes s \<noteq> []"
  by (metis code_bits_def length_msb_bits less_irrefl list.size(3))

lemma literal_post:
  assumes "decodes_rest ls ds buf n bs k" "n \<le> length buf"
    and "s < 256" "s < length ls" "0 < ls ! s" "reads bs (code_bits ls s) bs1" "off < n"
  shows "post (buffer_kept buf off n) (decoded ls ds buf off n bs)
    (bindR (with_buffer buf (wr buf off (of_nat s))) (\<lambda>buf. k buf (off + 1) bs1))"
proof -
  have "post (buffer_kept (buf[off := of_nat s]) (off + 1) n)
      (decoded ls ds (buf[off := of_nat s]) (off + 1) n bs1) (k (buf[off := of_nat s]) (off + 1) bs1)"
    using assms code_bits_nonempty by (intro decodes_restD [OF assms(1) _ _ assms(6)]) auto
  then show ?thesis
    using literal_step [OF assms(3-7,2)] assms(2,7) by (auto elim!: post_weaken)
qed

lemma repetition_copy_post:
  assumes "decodes_rest ls ds buf n bs k" "n \<le> length buf"
    and "encodable ls ds (Repeat i xs j ys)" "reads bs (token_bits ls ds (Repeat i xs j ys)) bs1"
  shows "post (buffer_kept buf off n) (decoded ls ds buf off n bs)
    (if repeat_distance j ys > off then Inl (RUNTIME_VALUE_OUT_OF_BOUNDS, buf)
     else if off + repeat_size i xs > n then Inl (ARGUMENT_VALUE_TOO_SMALL, buf)
     else bindR (with_buffer buf (copy_repetition buf off (repeat_distance j ys) (repeat_size i xs)))
       (\<lambda>buf. k buf (off + repeat_size i xs) bs1))"
proof (cases "repeat_distance j ys > off \<or> off + repeat_size i xs > n")
  case True
  then show ?thesis by (auto intro: buffer_kept_self)
next
  case False
  then obtain buf1 where buf1: "length buf1 = length buf"
    "copy_repetition buf off (repeat_distance j ys) (repeat_size i xs) = Inr buf1"
    "\<And>x. decoded ls ds buf1 (off + repeat_size i xs) n bs1 x \<Longrightarrow> decoded ls ds buf off n bs x"
    "\<And>y. buffer_kept buf1 (off + repeat_size i xs) n y \<Longrightarrow> buffer_kept buf off n y"
    using repetition_step [OF assms(3,4) _ _ assms(2)] by (metis not_less)
  have "token_bits ls ds (Repeat i xs j ys) \<noteq> []"
    using code_bits_nonempty assms(3) by simp
  from decodes_restD [OF assms(1) buf1(1) _ assms(4) this, of "off + repeat_size i xs"] False buf1
  show ?thesis by (auto elim!: post_weaken)
qed

lemma repetition_post:
  assumes "decodes_rest ls ds buf n bs k" "n \<le> length buf" "tree_of_sizes ds d" "length ds \<le> 30"
    and "256 < s" "s < 286" "s < length ls" "0 < ls ! s" "reads bs (code_bits ls s) bs1"
  shows "post (buffer_kept buf off n) (decoded ls ds buf off n bs)
    (bindR (with_buffer buf (read_repetition_size (s - 257) bs1)) (\<lambda>(size, bs2).
       bindR (with_buffer buf (read_repetition_offset d bs2)) (\<lambda>(dist, bs3).
         if dist > off then Inl (RUNTIME_VALUE_OUT_OF_BOUNDS, buf)
         else if off + size > n then Inl (ARGUMENT_VALUE_TOO_SMALL, buf)
         else bindR (with_buffer buf (copy_repetition buf off dist size)) (\<lambda>buf. k buf (off + size) bs3))))"
proof (rule post_buffer_bindR [OF read_repetition_size_post [OF reads_ok [OF assms(9)]]], goal_cases)
  case (2 x)
  then obtain bs2 xs where x: "x = (repeat_size (s - 257) xs, bs2)"
    "length xs = deflate_literal_codes_number_of_extra_bits ! (s - 257)" "reads bs1 xs bs2" by auto
  show ?case
    unfolding x(1) prod.case
  proof (rule post_buffer_bindR [OF read_repetition_offset_post [OF assms(3,4) reads_ok [OF x(3)]]], clarify)
    fix bs3 j ys
    assume j: "j < length ds" "0 < ds ! j" "length ys = deflate_distance_codes_number_of_extra_bits ! j"
      "reads bs2 (code_bits ds j @ ys) bs3"
    have "encodable ls ds (Repeat (s - 257) xs j ys)"
      using assms x j by auto
    moreover have "reads bs (token_bits ls ds (Repeat (s - 257) xs j ys)) bs3"
      using reads_trans [OF assms(9) reads_trans [OF x(3) j(4)]] assms(5) by simp
    ultimately show "post (buffer_kept buf off n) (decoded ls ds buf off n bs)
       (if repeat_distance j ys > off then Inl (RUNTIME_VALUE_OUT_OF_BOUNDS, buf)
        else if off + repeat_size (s - 257) xs > n then Inl (ARGUMENT_VALUE_TOO_SMALL, buf)
        else bindR (with_buffer buf (copy_repetition buf off (repeat_distance j ys) (repeat_size (s - 257) xs)))
          (\<lambda>buf. k buf (off + repeat_size (s - 257) xs) bs3))"
      by (rule repetition_copy_post [OF assms(1,2)])
  qed
qed (use assms(5,6) in auto)

lemma decode_huffman_loop_sound:
  assumes "block_trees ls ds l d" "stream_ok bs" "off \<le> n" "n \<le> length buf"
  shows "post (buffer_kept buf off n) (decoded ls ds buf off n bs) (decode_huffman_loop l d n buf off bs)"
  using assms
proof (induction "length (stream_bits bs)" arbitrary: buf off bs rule: less_induct)
  case less
  have trees: "tree_of_sizes ls l" "tree_of_sizes ds d" "length ds \<le> 30"
    using less.prems by (simp_all add: block_trees_def)
  have rest: "decodes_rest ls ds buf n bs (decode_huffman_loop l d n)"
    using less by (simp add: decodes_rest_def)
  have symbol: "post lib_error
      (\<lambda>(s, bs1). s < length ls \<and> 0 < ls ! s \<and> reads bs (code_bits ls s) bs1)
      (huffman_tree_get_symbol_from_bit_stream l bs)"
    using get_symbol_reads [OF trees(1) less.prems(2)] by (auto elim: post_weaken)
  show ?case
    unfolding decode_huffman_loop.simps [of l d n buf off bs]
  proof (rule post_buffer_bindR [OF symbol], clarify)
    fix s bs1
    assume s: "s < length ls" "0 < ls ! s" "reads bs (code_bits ls s) bs1"
    have "decoded ls ds buf off n bs (buf, off, bs1)" if "s = 256"
      using that s less.prems by (auto simp: decoded_def intro!: exI [of _ "[]"])
    then show "post (buffer_kept buf off n) (decoded ls ds buf off n bs)
       (if s < 256 then
          if off \<ge> n then Inl (ARGUMENT_VALUE_TOO_SMALL, buf)
          else bindR (with_buffer buf (wr buf off (of_nat s)))
                 (\<lambda>buf. decode_huffman_loop l d n buf (off + 1) bs1)
        else if 256 < s \<and> s < 286 then
          bindR (with_buffer buf (read_repetition_size (s - 257) bs1)) (\<lambda>(size, bs2).
            bindR (with_buffer buf (read_repetition_offset d bs2)) (\<lambda>(dist, bs3).
              if dist > off then Inl (RUNTIME_VALUE_OUT_OF_BOUNDS, buf)
              else if off + size > n then Inl (ARGUMENT_VALUE_TOO_SMALL, buf)
              else bindR (with_buffer buf (copy_repetition buf off dist size)) (\<lambda>buf.
                     decode_huffman_loop l d n buf (off + size) bs3)))
        else if s \<noteq> 256 then Inl (RUNTIME_GET_FAILED, buf)
        else Inr (buf, off, bs1))"
      using literal_post [OF rest less.prems(4) _ s, of off]
        repetition_post [OF rest less.prems(4) trees(2,3) _ _ s, of off]
      by (auto intro: buffer_kept_self)
  qed
qed

section \<open>Decoding is complete\<close>

lemma read_repetition_size_complete:
  assumes "stream_ok bs" "i < 29" "length xs = deflate_literal_codes_number_of_extra_bits ! i"
    and "stream_bits bs = xs @ rest"
  shows "\<exists>bs'. read_repetition_size i bs = Inr (repeat_size i xs, bs') \<and> reads bs xs bs' \<and> stream_bits bs' = rest"
proof -
  note t = repetition_tables [OF assms(2)]
  obtain v bs' where "bit_stream_get_value bs (length xs) = Inr (v, bs')" "reads bs xs bs'"
    "stream_bits bs' = rest" "unat v = bits_value xs"
    using get_value_complete [OF assms(1) _ assms(4)] assms(3) t(4) by auto
  then show ?thesis
    using t assms(3) by (simp add: read_repetition_size_def repeat_size_def extra_bits_fit)
qed

lemma read_repetition_offset_complete:
  assumes "tree_of_sizes ds d" "stream_ok bs" "j < 30" "j < length ds" "0 < ds ! j"
    and "length ys = deflate_distance_codes_number_of_extra_bits ! j"
    and "stream_bits bs = code_bits ds j @ ys @ rest"
  shows "\<exists>bs'. read_repetition_offset d bs = Inr (repeat_distance j ys, bs') \<and>
    reads bs (code_bits ds j @ ys) bs' \<and> stream_bits bs' = rest"
proof -
  note t = distance_tables [OF assms(3)]
  obtain bs1 where bs1: "huffman_tree_get_symbol_from_bit_stream d bs = Inr (j, bs1)"
    "reads bs (code_bits ds j) bs1" "stream_bits bs1 = ys @ rest"
    using get_symbol_complete [OF assms(1,2,4,5,7)] by blast
  obtain v bs' where "bit_stream_get_value bs1 (length ys) = Inr (v, bs')" "reads bs1 ys bs'"
    "stream_bits bs' = rest" "unat v = bits_value ys"
    using get_value_complete [OF reads_ok [OF bs1(2)] _ bs1(3)] assms(6) t(5) by auto
  then show ?thesis
    using t assms(6) bs1 reads_trans [OF bs1(2)]
    by (simp add: read_repetition_offset_def repeat_distance_def extra_bits_fit)
qed


lemma decode_literal:
  assumes "tree_of_sizes ls l" "stream_ok bs" "encodable ls ds (Literal b)" "off < n" "n \<le> length buf"
    and "stream_bits bs = code_bits ls (unat b) @ rest"
  shows "\<exists>bs1. decode_huffman_loop l d n buf off bs = decode_huffman_loop l d n (buf[off := b]) (off + 1) bs1 \<and>
    reads bs (code_bits ls (unat b)) bs1 \<and> stream_bits bs1 = rest"
proof -
  obtain bs1 where bs1: "huffman_tree_get_symbol_from_bit_stream l bs = Inr (unat b, bs1)"
    "reads bs (code_bits ls (unat b)) bs1" "stream_bits bs1 = rest"
    using get_symbol_complete [OF assms(1,2) _ _ assms(6)] assms(3) by auto
  then have "decode_huffman_loop l d n buf off bs = decode_huffman_loop l d n (buf[off := b]) (off + 1) bs1"
    using assms(4,5) unfolding decode_huffman_loop.simps [of l d n buf off bs] by simp
  with bs1 show ?thesis by blast
qed

lemma decode_repetition:
  assumes "block_trees ls ds l d" "stream_ok bs" "encodable ls ds (Repeat i xs j ys)"
    and "repeat_distance j ys \<le> off" "off + repeat_size i xs \<le> n" "n \<le> length buf"
    and "stream_bits bs = token_bits ls ds (Repeat i xs j ys) @ rest"
  shows "\<exists>buf1 bs1. decode_huffman_loop l d n buf off bs =
      decode_huffman_loop l d n buf1 (off + repeat_size i xs) bs1 \<and> length buf1 = length buf \<and>
    take (off + repeat_size i xs) buf1 = lz_copy (repeat_distance j ys) (repeat_size i xs) (take off buf) \<and>
    reads bs (token_bits ls ds (Repeat i xs j ys)) bs1 \<and> stream_bits bs1 = rest"
proof -
  have enc: "i < 29" "257 + i < length ls" "0 < ls ! (257 + i)" "j < 30" "j < length ds" "0 < ds ! j"
    "length xs = deflate_literal_codes_number_of_extra_bits ! i"
    "length ys = deflate_distance_codes_number_of_extra_bits ! j" using assms(3) by simp_all
  have trees: "tree_of_sizes ls l" "tree_of_sizes ds d" using assms(1) by (simp_all add: block_trees_def)
  obtain bs1 where bs1: "huffman_tree_get_symbol_from_bit_stream l bs = Inr (257 + i, bs1)"
    "reads bs (code_bits ls (257 + i)) bs1" "stream_bits bs1 = xs @ code_bits ds j @ ys @ rest"
    using get_symbol_complete [OF trees(1) assms(2) enc(2,3)] assms(7) by auto
  obtain bs2 where bs2: "read_repetition_size i bs1 = Inr (repeat_size i xs, bs2)" "reads bs1 xs bs2"
    "stream_bits bs2 = code_bits ds j @ ys @ rest"
    using read_repetition_size_complete [OF reads_ok [OF bs1(2)] enc(1,7) bs1(3)] by blast
  obtain bs3 where bs3: "read_repetition_offset d bs2 = Inr (repeat_distance j ys, bs3)"
    "reads bs2 (code_bits ds j @ ys) bs3" "stream_bits bs3 = rest"
    using read_repetition_offset_complete [OF trees(2) reads_ok [OF bs2(2)] enc(4-6,8) bs2(3)] by blast
  have "0 < repeat_distance j ys" using distance_tables(3) [OF enc(4)] by (simp add: repeat_distance_def)
  with copy_repetition_ok [OF this assms(4), of "repeat_size i xs" buf] assms(5,6) obtain buf1 where buf1:
    "copy_repetition buf off (repeat_distance j ys) (repeat_size i xs) = Inr buf1" "length buf1 = length buf"
    "take (off + repeat_size i xs) buf1 = lz_copy (repeat_distance j ys) (repeat_size i xs) (take off buf)" by auto
  have "decode_huffman_loop l d n buf off bs = decode_huffman_loop l d n buf1 (off + repeat_size i xs) bs3"
    using assms(4,5) enc(1) unfolding decode_huffman_loop.simps [of l d n buf off bs]
    by (simp add: bs1(1) bs2(1) bs3(1) buf1(1))
  moreover have "reads bs (token_bits ls ds (Repeat i xs j ys)) bs3"
    using reads_trans [OF bs1(2) reads_trans [OF bs2(2) bs3(2)]] by simp
  ultimately show ?thesis using buf1(2,3) bs3(3) by blast
qed

lemma decode_huffman_loop_complete:
  assumes "block_trees ls ds l d" "stream_ok bs" "off \<le> n" "n \<le> length buf"
    and "256 < length ls" "0 < ls ! 256" "\<forall>t \<in> set ts. encodable ls ds t"
    and "stream_bits bs = tokens_bits ls ds ts @ code_bits ls 256 @ rest"
    and "expand ts (take off buf) = Some out" "length out \<le> n"
  shows "\<exists>buf' bs'. decode_huffman_loop l d n buf off bs = Inr (buf', length out, bs') \<and>
    length buf' = length buf \<and> take (length out) buf' = out \<and>
    reads bs (tokens_bits ls ds ts @ code_bits ls 256) bs' \<and> stream_bits bs' = rest"
  using assms
proof (induction ts arbitrary: buf off bs)
  case Nil
  then obtain bs1 where "huffman_tree_get_symbol_from_bit_stream l bs = Inr (256, bs1)"
    "reads bs (code_bits ls 256) bs1" "stream_bits bs1 = rest"
    using get_symbol_complete [of ls l bs 256 rest] by (auto simp: block_trees_def)
  moreover have "off = length out" "take (length out) buf = out" using Nil.prems by auto
  ultimately show ?case by (simp add: decode_huffman_loop.simps [of l d n buf])
next
  case (Cons t ts)
  let ?more = "tokens_bits ls ds ts @ code_bits ls 256 @ rest"
  have bits: "stream_bits bs = token_bits ls ds t @ ?more" and t: "encodable ls ds t"
    using Cons.prems by simp_all
  obtain out1 where out1: "expand_token t (take off buf) = Some out1" "expand ts out1 = Some out"
    using Cons.prems(9) by (auto split: option.splits)
  have fits: "length out1 \<le> n"
    using expand_prefix [OF out1(2)] Cons.prems(10) by auto
  have "\<exists>buf1 bs1. decode_huffman_loop l d n buf off bs = decode_huffman_loop l d n buf1 (length out1) bs1 \<and>
      length buf1 = length buf \<and> take (length out1) buf1 = out1 \<and>
      reads bs (token_bits ls ds t) bs1 \<and> stream_bits bs1 = ?more"
  proof (cases t)
    case (Literal b)
    then have "length out1 = off + 1" "take (off + 1) (buf[off := b]) = out1"
      using out1(1) Cons.prems(3,4) fits by (auto simp: take_Suc_conv_app_nth)
    with Literal decode_literal [of ls l bs ds b off n buf ?more d] Cons.prems bits t fits show ?thesis
      by (auto simp: block_trees_def intro!: exI [of _ "buf[off := b]"])
  next
    case (Repeat i xs j ys)
    then have rep: "repeat_distance j ys \<le> off" "out1 = lz_copy (repeat_distance j ys) (repeat_size i xs) (take off buf)"
      "length out1 = off + repeat_size i xs"
      using out1(1) Cons.prems(3,4) by (auto split: if_splits)
    with decode_repetition [OF Cons.prems(1,2) t [unfolded Repeat] rep(1) _ Cons.prems(4)] bits fits Repeat
    show ?thesis by fastforce
  qed
  then obtain buf1 bs1 where step:
    "decode_huffman_loop l d n buf off bs = decode_huffman_loop l d n buf1 (length out1) bs1"
    "length buf1 = length buf" "take (length out1) buf1 = out1"
    "reads bs (token_bits ls ds t) bs1" "stream_bits bs1 = ?more" by blast
  from Cons.IH [of bs1 "length out1" buf1] Cons.prems step fits out1(2) reads_ok [OF step(4)]
  show ?case by (auto dest: reads_trans [OF step(4)])
qed

section \<open>Properties\<close>

text \<open>
  The copy of a repetition, one byte at a time within the uncompressed data, repeats the
  last \<open>d\<close> bytes periodically, also when the size exceeds the distance, and changes nothing else.
\<close>

theorem copy_repetition_periodic:
  assumes "0 < d" "d \<le> off" "off + n \<le> length buf"
  shows "\<exists>buf'. copy_repetition buf off d n = Inr buf' \<and> length buf' = length buf \<and>
    take off buf' = take off buf \<and> drop (off + n) buf' = drop (off + n) buf \<and>
    (\<forall>k < n. buf' ! (off + k) = buf ! (off - d + k mod d))"
proof -
  obtain buf' where buf': "copy_repetition buf off d n = Inr buf'" "length buf' = length buf"
    "take (off + n) buf' = lz_copy d n (take off buf)" "drop (off + n) buf' = drop (off + n) buf"
    using copy_repetition_ok [OF assms] by blast
  have len: "length (take off buf) = off" using assms by simp
  have "take off buf' = take off (take (off + n) buf')" by simp
  also have "\<dots> = take off buf" using take_lz_copy [of "take off buf" d n] unfolding buf'(3) len .
  finally have "take off buf' = take off buf" .
  moreover have "buf' ! (off + k) = buf ! (off - d + k mod d)" if "k < n" for k
  proof -
    have "k mod d < d" using assms(1) by simp
    then have "off - d + k mod d < off" using assms(2) by linarith
    moreover have "buf' ! (off + k) = take (off + n) buf' ! (off + k)" using that by simp
    ultimately show ?thesis
      using lz_copy_periodic [of d "take off buf" k n] assms(1,2) that len unfolding buf'(3) by simp
  qed
  ultimately show ?thesis using buf' by blast
qed

theorem copy_repetition_periodic_witness:
  "\<exists>buf'. copy_repetition [1, 2, 0, 0, 0, 0, 9] 2 2 4 = Inr buf' \<and> length buf' = length [1, 2, 0, 0, 0, 0, 9 :: byte] \<and>
    take 2 buf' = [1, 2] \<and> drop (2 + 4) buf' = drop (2 + 4) [1, 2, 0, 0, 0, 0, 9] \<and>
    (\<forall>k < 4. buf' ! (2 + k) = [1, 2, 0, 0, 0, 0, 9] ! (2 - 2 + k mod 2))"
  using copy_repetition_periodic [of 2 2 4 "[1, 2, 0, 0, 0, 0, 9]"] by (simp del: copy_repetition.simps)

end
