(* ===== verification/Deflate_Streams.thy ===== *)
theory Deflate_Streams
  imports Deflate_Tokens
begin

text \<open>
  DEFLATE streams: the blocks of RFC 1951 as an inductive relation between a bit sequence and
  the data it stands for. Decompression succeeds exactly on the streams whose data fits the
  buffer; zlib data also has its header and checksum verified.
\<close>

section \<open>Blocks\<close>

text \<open>A stored block: padding up to the byte boundary, the size, its complement and the data.\<close>

definition stored_bits :: "bool list \<Rightarrow> bytes \<Rightarrow> bool list" where
  "stored_bits pad data =
     pad @ lsb_bits 16 (length data) @ lsb_bits 16 (65535 - length data) @ bytes_bits data"

text \<open>
  The body of a block of the given type. It starts when \<open>r\<close> bits of the current byte are
  unread, and extends the data from \<open>out\<close> to \<open>out'\<close>.
\<close>

inductive block_body :: "nat \<Rightarrow> nat \<Rightarrow> bytes \<Rightarrow> bool list \<Rightarrow> bytes \<Rightarrow> bool" where
  stored: "length pad = r \<Longrightarrow> length data \<le> 65535 \<Longrightarrow>
    block_body r 0 out (stored_bits pad data) (out @ data)"
| fixed: "\<forall>t \<in> set ts. encodable fixed_literal_sizes fixed_distance_sizes t \<Longrightarrow>
    expand ts out = Some out' \<Longrightarrow>
    block_body r 1 out (tokens_bits fixed_literal_sizes fixed_distance_sizes ts @
      code_bits fixed_literal_sizes 256) out'"
| dynamic: "dynamic_header header ls ds \<Longrightarrow> \<forall>t \<in> set ts. encodable ls ds t \<Longrightarrow>
    expand ts out = Some out' \<Longrightarrow>
    block_body r 2 out (header @ tokens_bits ls ds ts @ code_bits ls 256) out'"

inductive_cases block_body_storedE: "block_body r 0 out body out'"
inductive_cases block_body_fixedE: "block_body r 1 out body out'"
inductive_cases block_body_dynamicE: "block_body r 2 out body out'"

lemma block_body_types: "block_body r type out body out' \<Longrightarrow> type \<in> {0, 1, 2}"
  by (induction rule: block_body.induct) auto

lemma block_body_prefix: "block_body r type out body out' \<Longrightarrow> \<exists>more. out' = out @ more"
  by (induction rule: block_body.induct) (auto dest: expand_prefix)

section \<open>Stored blocks\<close>

lemma buffered_bits:
  assumes "stream_ok bs"
  shows "bit_buffer_size bs = length (stream_bits bs) mod 8"
  using assms by (simp add: stream_ok_def length_stream_bits)

lemma stream_bits_bytes:
  assumes "bit_buffer_size bs = 0"
  shows "stream_bits bs = bytes_bits (drop (byte_stream_offset bs) (byte_stream bs))"
  using assms by (simp add: stream_bits_def)

text \<open>Skipping the rest of the current byte.\<close>

definition skip_to_byte :: "bit_stream \<Rightarrow> bit_stream result" where
  "skip_to_byte bs =
     (let skip_bits = bit_buffer_size bs mod 8
      in if skip_bits > 0 then bindR (bit_stream_get_value bs skip_bits) (\<lambda>(_, bs). Inr bs) else Inr bs)"

lemma skip_to_byte_ok:
  assumes "stream_ok bs"
  shows "\<exists>bs' pad. skip_to_byte bs = Inr bs' \<and> length pad = length (stream_bits bs) mod 8 \<and>
    reads bs pad bs' \<and> bit_buffer_size bs' = 0"
proof -
  let ?k = "length (stream_bits bs) mod 8"
  have k: "bit_buffer_size bs mod 8 = ?k" "?k \<le> 25" using buffered_bits [OF assms] by simp_all
  obtain v bs' where v: "bit_stream_get_value bs ?k = Inr (v, bs')" "reads bs (take ?k (stream_bits bs)) bs'"
    "stream_bits bs' = drop ?k (stream_bits bs)"
    using get_value_complete [OF assms, of "take ?k (stream_bits bs)" "drop ?k (stream_bits bs)"] k(2)
    by (auto simp: min_absorb2)
  have "length (stream_bits bs') mod 8 = 0"
    using v(3) by (simp add: mod_eq_0_iff_dvd dvd_minus_mod)
  with buffered_bits [OF reads_ok [OF v(2)]] have "bit_buffer_size bs' = 0" by simp
  moreover have "skip_to_byte bs = Inr bs \<and> bs' = bs" if "?k = 0"
    using that v(1) k(1) by (simp add: skip_to_byte_def bit_stream_get_value_def get_value_loop.simps)
  moreover have "skip_to_byte bs = Inr bs'" if "0 < ?k"
    using that v(1) k(1) by (simp add: skip_to_byte_def)
  ultimately show ?thesis
    using v(2) by (intro exI [of _ bs'] exI [of _ "take ?k (stream_bits bs)"]) (auto simp: min_absorb2)
qed

text \<open>The size of the block and its complement.\<close>

lemma complement_value:
  fixes x m :: "'a::len word"
  assumes "x AND m = x"
  shows "unat (x XOR m) = unat m - unat x"
proof -
  have sub: "bit x i \<Longrightarrow> bit m i" for i using assms by (metis bit_and_iff)
  have "(x XOR m) AND x = 0" by (rule bit_word_eqI) (auto simp: bit_simps dest: sub)
  then have "(x XOR m) + x = (x XOR m) OR x" by (rule disjunctive_add_eq_or)
  also have "\<dots> = m" by (rule bit_word_eqI) (auto simp: bit_simps dest: sub)
  finally have "x XOR m = m - x" by (simp add: eq_diff_eq)
  moreover have "x \<le> m" using assms by (metis word_and_le1)
  ultimately show ?thesis by (simp add: unat_sub word_le_nat_alt)
qed

lemma size_words:
  fixes v :: "32 word"
  shows "unat (v AND 0xffff) = unat v mod 65536"
    and "v AND 0xffff = drop_bit 16 v XOR 0xffff \<longleftrightarrow> unat v div 65536 = 65535 - unat v mod 65536"
proof -
  have high: "drop_bit 16 v AND 0xffff = drop_bit 16 v"
  proof -
    have "(0xffff :: 32 word) = mask 16" by (simp add: mask_eq_exp_minus_1)
    then show ?thesis by (auto simp: bit_eq_iff bit_simps dest: bit_imp_le_length)
  qed
  have bound: "unat v div 65536 < 65536"
    using unsigned_less [of v] by (simp add: div_less_iff_less_mult)
  show "unat (v AND 0xffff) = unat v mod 65536" by (rule word_halves)
  moreover have "unat (drop_bit 16 v XOR 0xffff) = 65535 - unat v div 65536"
    using complement_value [OF high] word_halves(2) [of v] by (simp add: high)
  ultimately show "v AND 0xffff = drop_bit 16 v XOR 0xffff \<longleftrightarrow> unat v div 65536 = 65535 - unat v mod 65536"
    using bound mod_less_divisor [of 65536 "unat v"] unfolding word_unat_eq_iff by linarith
qed

lemma size_bits:
  assumes "n \<le> 65535" "v div 65536 = 65535 - n" "v mod 65536 = n"
  shows "lsb_bits 32 v = lsb_bits 16 n @ lsb_bits 16 (65535 - n)"
  using lsb_bits_add [of 16 16 v] lsb_bits_mod [of 16 v] assms
  by (simp del: lsb_bits_Suc lsb_bits_mod)

lemma read_uncompressed_block_eq:
  "read_uncompressed_block bs buf n off =
     bindR (skip_to_byte bs) (\<lambda>bs. bindR (bit_stream_get_value bs 32) (\<lambda>(v, bs).
       let k = unat v mod 65536
       in if unat v div 65536 \<noteq> 65535 - k then Inl INPUT_VALUE_MISMATCH
          else if k = 0 then Inr (buf, off, bs)
          else if k > byte_stream_size bs - byte_stream_offset bs then Inl ARGUMENT_VALUE_TOO_SMALL
          else if k > n - off then Inl ARGUMENT_VALUE_TOO_SMALL
          else bindR (rd_slice (byte_stream bs) (byte_stream_offset bs) k) (\<lambda>block.
                 bindR (wr_slice buf off block) (\<lambda>buf.
                   Inr (buf, off + k, bs\<lparr>byte_stream_offset := byte_stream_offset bs + k,
                                        bit_buffer := 0, bit_buffer_size := 0\<rparr>)))))"
proof -
  have zero: "v AND 0xffff = 0 \<longleftrightarrow> unat v mod 65536 = 0" for v :: "32 word"
    using size_words(1) [of v] by (metis unat_0_iff)
  show ?thesis
    unfolding read_uncompressed_block_def skip_to_byte_def Let_def size_words zero by (rule refl)
qed


text \<open>Whole bytes are taken from the byte stream.\<close>

lemma advance_bytes:
  assumes "stream_ok bs" "bit_buffer_size bs = 0" "k \<le> byte_stream_size bs - byte_stream_offset bs"
  shows "reads bs (bytes_bits (take k (drop (byte_stream_offset bs) (byte_stream bs))))
    (bs\<lparr>byte_stream_offset := byte_stream_offset bs + k, bit_buffer := 0, bit_buffer_size := 0\<rparr>)"
proof -
  have "drop (byte_stream_offset bs) (byte_stream bs) =
      take k (drop (byte_stream_offset bs) (byte_stream bs)) @ drop (byte_stream_offset bs + k) (byte_stream bs)"
    by (metis add.commute append_take_drop_id drop_drop)
  then have "bytes_bits (drop (byte_stream_offset bs) (byte_stream bs)) =
      bytes_bits (take k (drop (byte_stream_offset bs) (byte_stream bs))) @
      bytes_bits (drop (byte_stream_offset bs + k) (byte_stream bs))"
    by (metis bytes_bits_simps(3))
  then show ?thesis
    using assms by (auto simp: reads_def stream_ok_def bs_inv_def same_source_def stream_bits_def)
qed

text \<open>The outcome of a block that was read from offset \<open>off\<close> on.\<close>

definition block_read ::
    "nat \<Rightarrow> bytes \<Rightarrow> nat \<Rightarrow> nat \<Rightarrow> bit_stream \<Rightarrow> bytes \<times> nat \<times> bit_stream \<Rightarrow> bool" where
  "block_read type buf off n bs = (\<lambda>(buf', off', bs').
     length buf' = length buf \<and> off' \<le> n \<and> drop off' buf' = drop off' buf \<and>
     (\<exists>body. block_body (length (stream_bits bs) mod 8) type (take off buf) body (take off' buf') \<and>
        reads bs body bs'))"

lemma write_block:
  assumes "off + length data \<le> n" "n \<le> length buf"
  shows "\<exists>buf'. wr_slice buf off data = Inr buf' \<and> length buf' = length buf \<and>
    take (off + length data) buf' = take off buf @ data \<and>
    drop (off + length data) buf' = drop (off + length data) buf"
  using assms by simp

lemma read_size_post:
  assumes "stream_ok bs" "bit_buffer_size bs = 0"
  shows "post lib_error (\<lambda>(v, bs'). reads bs (lsb_bits 32 (unat v)) bs' \<and> bit_buffer_size bs' = 0)
    (bit_stream_get_value bs 32)"
proof -
  have "post lib_error (\<lambda>(v, bs'). \<exists>bits. length bits = 32 \<and> reads bs bits bs' \<and> unat v = bits_value bits)
      (bit_stream_get_value bs 32)"
    using get_value_reads [OF assms(1), of 32] assms(2) by (auto elim!: post_weaken)
  moreover have "bit_buffer_size bs' = 0" if "reads bs bits bs'" "length bits = 32" for bits bs'
  proof -
    have "length (stream_bits bs) = 32 + length (stream_bits bs')" using that by (simp add: reads_def)
    moreover have "length (stream_bits bs) mod 8 = 0" using buffered_bits [OF assms(1)] assms(2) by simp
    ultimately have "length (stream_bits bs') mod 8 = 0" by presburger
    with buffered_bits [OF reads_ok [OF that(1)]] show ?thesis by simp
  qed
  ultimately show ?thesis by (auto elim!: post_weaken)
qed

lemma read_uncompressed_block_sound:
  assumes "stream_ok bs" "off \<le> n" "n \<le> length buf"
  shows "post lib_error (block_read 0 buf off n bs) (read_uncompressed_block bs buf n off)"
proof -
  obtain bs1 pad where bs1: "skip_to_byte bs = Inr bs1" "length pad = length (stream_bits bs) mod 8"
    "reads bs pad bs1" "bit_buffer_size bs1 = 0" using skip_to_byte_ok [OF assms(1)] by blast
  show ?thesis
    unfolding read_uncompressed_block_eq bs1(1) bindR_simps
  proof (rule post_bindR [OF read_size_post [OF reads_ok [OF bs1(3)] bs1(4)]], goal_cases)
    case (1 x)
    then obtain v bs2 where x: "x = (v, bs2)" "reads bs1 (lsb_bits 32 (unat v)) bs2" "bit_buffer_size bs2 = 0"
      by (cases x) auto
    define k where "k = unat v mod 65536"
    let ?data = "take k (drop (byte_stream_offset bs2) (byte_stream bs2))"
    let ?bs = "bs2\<lparr>byte_stream_offset := byte_stream_offset bs2 + k, bit_buffer := 0, bit_buffer_size := 0\<rparr>"
    have k: "k \<le> 65535" using mod_less_divisor [of 65536 "unat v"] by (simp add: k_def)
    have ok: "stream_ok bs2" using x(2) by (rule reads_ok)
    have body: "block_body (length (stream_bits bs) mod 8) 0 (take off buf) (stored_bits pad data)
        (take off buf @ data) \<and> reads bs (stored_bits pad data) bs'"
      if "unat v div 65536 = 65535 - k" "length data = k" "reads bs2 (bytes_bits data) bs'" for data bs'
      using that k bs1(2) reads_trans [OF bs1(3) reads_trans [OF x(2) that(3)]]
        size_bits [of k "unat v"] block_body.stored
      by (auto simp: stored_bits_def k_def [symmetric])
    show ?case
    proof (cases "unat v div 65536 \<noteq> 65535 - k \<or> k > byte_stream_size bs2 - byte_stream_offset bs2 \<or> k > n - off")
      case True
      then show ?thesis
        using body [of "[]" bs2] ok assms(2) by (auto simp: x(1) Let_def k_def [symmetric] block_read_def)
    next
      case False
      have data: "length ?data = k" "byte_stream_offset bs2 + k \<le> length (byte_stream bs2)"
        using False ok by (auto simp: stream_ok_def bs_inv_def)
      obtain buf' where buf': "wr_slice buf off ?data = Inr buf'" "length buf' = length buf"
        "take (off + k) buf' = take off buf @ ?data" "drop (off + k) buf' = drop (off + k) buf"
        using write_block [of off ?data n buf] data(1) False assms(2,3) by auto
      have "block_read 0 buf off n bs (buf', off + k, ?bs)"
        using body [OF _ data(1) advance_bytes [OF ok x(3)]] False buf' assms(2)
        by (auto simp: block_read_def)
      then show ?thesis
        using False buf'(1) data body [of "[]" bs2] ok assms(2)
        by (auto simp: x(1) Let_def k_def [symmetric] block_read_def)
    qed
  qed
qed


lemma bytes_bits_inject:
  "bytes_bits xs = bytes_bits ys \<Longrightarrow> xs = ys"
proof (induction xs arbitrary: ys)
  case Nil
  then show ?case by (cases ys) (auto simp: byte_bits_def)
next
  case (Cons x xs)
  then obtain y ys' where ys: "ys = y # ys'" by (cases ys) (auto simp: byte_bits_def)
  with Cons.prems have "byte_bits x = byte_bits y" "bytes_bits xs = bytes_bits ys'" by auto
  moreover from this(1) have "x = y"
    by (intro bit_word_eqI) (auto simp: byte_bits_def)
  ultimately show ?case using Cons.IH ys by simp
qed

lemma bytes_bits_prefix:
  assumes "bytes_bits xs = bytes_bits ys @ rest"
  shows "ys = take (length ys) xs" "rest = bytes_bits (drop (length ys) xs)" "length ys \<le> length xs"
proof -
  have "8 * length xs = 8 * length ys + length rest"
    using arg_cong [OF assms, of length] by simp
  then show len: "length ys \<le> length xs" by simp
  have "bytes_bits xs = bytes_bits (take (length ys) xs) @ bytes_bits (drop (length ys) xs)"
    by (metis append_take_drop_id bytes_bits_simps(3))
  with assms have "bytes_bits ys @ rest = bytes_bits (take (length ys) xs) @ bytes_bits (drop (length ys) xs)"
    by simp
  then have "bytes_bits ys = bytes_bits (take (length ys) xs) \<and> rest = bytes_bits (drop (length ys) xs)"
    using len by (subst (asm) append_eq_append_conv) auto
  then show "ys = take (length ys) xs" "rest = bytes_bits (drop (length ys) xs)"
    using bytes_bits_inject by auto
qed

lemma read_uncompressed_block_complete:
  assumes "stream_ok bs" "off \<le> n" "n \<le> length buf"
    and "length pad = length (stream_bits bs) mod 8" "length data \<le> 65535"
    and "stream_bits bs = stored_bits pad data @ rest" "off + length data \<le> n"
  shows "\<exists>buf' bs'. read_uncompressed_block bs buf n off = Inr (buf', off + length data, bs') \<and>
    length buf' = length buf \<and> take (off + length data) buf' = take off buf @ data \<and>
    reads bs (stored_bits pad data) bs' \<and> stream_bits bs' = rest"
proof -
  let ?k = "length data"
  obtain bs1 pad' where bs1: "skip_to_byte bs = Inr bs1" "length pad' = length pad" "reads bs pad' bs1"
    "bit_buffer_size bs1 = 0" using skip_to_byte_ok [OF assms(1)] assms(4) by metis
  have rest1: "pad' = pad" "stream_bits bs1 = (lsb_bits 16 ?k @ lsb_bits 16 (65535 - ?k)) @ bytes_bits data @ rest"
    using bs1(2,3) assms(6) by (auto simp: reads_def stored_bits_def)
  obtain v bs2 where v: "bit_stream_get_value bs1 32 = Inr (v, bs2)"
    "reads bs1 (lsb_bits 16 ?k @ lsb_bits 16 (65535 - ?k)) bs2" "stream_bits bs2 = bytes_bits data @ rest"
    "unat v = bits_value (lsb_bits 16 ?k @ lsb_bits 16 (65535 - ?k))"
    using get_value_complete [OF reads_ok [OF bs1(3)] _ rest1(2)] bs1(4) by auto
  have size: "unat v mod 65536 = ?k" "unat v div 65536 = 65535 - ?k"
    using v(4) assms(5) by (simp_all add: bits_value_append del: lsb_bits_Suc)
  have buffer2: "bit_buffer_size bs2 = 0"
    using read_size_post [OF reads_ok [OF bs1(3)] bs1(4)] v(1) by simp
  have ok2: "stream_ok bs2" using v(2) by (rule reads_ok)
  have prefix: "data = take ?k (drop (byte_stream_offset bs2) (byte_stream bs2))"
    "?k \<le> byte_stream_size bs2 - byte_stream_offset bs2"
    using bytes_bits_prefix [of "drop (byte_stream_offset bs2) (byte_stream bs2)" data rest] v(3)
      stream_bits_bytes [OF buffer2] ok2 by (auto simp: stream_ok_def bs_inv_def)
  let ?bs = "bs2\<lparr>byte_stream_offset := byte_stream_offset bs2 + ?k, bit_buffer := 0, bit_buffer_size := 0\<rparr>"
  have advance: "reads bs2 (bytes_bits data) ?bs"
    using advance_bytes [OF ok2 buffer2 prefix(2)] prefix(1) by simp
  then have whole: "reads bs (stored_bits pad data) ?bs"
    using reads_trans [OF bs1(3) reads_trans [OF v(2) advance]] rest1(1) by (simp add: stored_bits_def)
  show ?thesis
  proof (cases "?k = 0")
    case True
    with v(3) reads_trans [OF bs1(3) v(2)] rest1(1) show ?thesis
      using bs1(1) v(1) size by (simp add: read_uncompressed_block_eq Let_def stored_bits_def)
  next
    case False
    obtain buf' where buf': "wr_slice buf off data = Inr buf'" "length buf' = length buf"
      "take (off + ?k) buf' = take off buf @ data"
      using write_block [OF assms(7,3)] by blast
    have "rd_slice (byte_stream bs2) (byte_stream_offset bs2) ?k = Inr data"
      using prefix ok2 by (auto simp: stream_ok_def bs_inv_def)
    then have "read_uncompressed_block bs buf n off = Inr (buf', off + ?k, ?bs)"
      using bs1(1) v(1) size False prefix(2) buf'(1) assms(7)
      by (simp add: read_uncompressed_block_eq Let_def)
    moreover have "stream_bits ?bs = rest" using advance v(3) by (simp add: reads_def)
    ultimately show ?thesis using whole buf' by blast
  qed
qed


section \<open>Blocks of every type\<close>

definition fixed_ready :: "trees option \<Rightarrow> bool" where
  "fixed_ready fixed_trees \<longleftrightarrow>
     (case fixed_trees of None \<Rightarrow> True
      | Some (l, d) \<Rightarrow> block_trees fixed_literal_sizes fixed_distance_sizes l d)"

lemma prepare_fixed_trees_ok:
  assumes "fixed_ready fixed_trees"
  shows "\<exists>fixed_trees'. prepare_fixed_trees type fixed_trees = Inr fixed_trees' \<and>
    fixed_ready fixed_trees' \<and> (type = 1 \<longrightarrow> fixed_trees' \<noteq> None)"
proof (cases "type = 1 \<and> fixed_trees = None")
  case True
  obtain l d where "deflate_build_fixed_huffman_trees (empty_tree 288) (empty_tree 30) = Inr (l, d)"
    "block_trees fixed_literal_sizes fixed_distance_sizes l d"
    using deflate_build_fixed_huffman_trees_ok [of "empty_tree 288" "empty_tree 30"] by auto
  with True show ?thesis
    by (simp add: prepare_fixed_trees_def initialize_trees fixed_ready_def)
next
  case False
  with assms show ?thesis by (auto simp: prepare_fixed_trees_def)
qed

lemma fixed_end_of_block: "256 < length fixed_literal_sizes" "0 < fixed_literal_sizes ! 256"
  by (simp_all add: fixed_literal_sizes_def fixed_code_size_def del: upt_rec_numeral)

lemma dynamic_header_end_of_block:
  "dynamic_header bits ls ds \<Longrightarrow> 256 < length ls \<and> 0 < ls ! 256"
  by (simp add: dynamic_header_def)

lemma deflate_decode_huffman_sound:
  assumes "block_trees ls ds l d" "stream_ok bs" "off \<le> n" "n \<le> length buf" "n \<le> SSIZE_MAX"
  shows "post (buffer_kept buf off n) (decoded ls ds buf off n bs) (deflate_decode_huffman bs l d buf n off)"
  using decode_huffman_loop_sound [OF assms(1-4)] assms(5) by (simp add: deflate_decode_huffman_def)

lemma deflate_read_block_sound:
  assumes "stream_ok bs" "off \<le> n" "n \<le> length buf" "n \<le> SSIZE_MAX" "fixed_ready fixed_trees"
  shows "post (buffer_kept buf off n) (block_read type buf off n bs)
    (deflate_read_block bs type fixed_trees buf n off)"
proof -
  consider (stored) "type = 0" | (fixed) "type = 1" | (dynamic) "type = 2" | (other) "type > 2" by linarith
  then show ?thesis
  proof cases
    case stored
    have "post (buffer_kept buf off n) (block_read 0 buf off n bs)
        (with_buffer buf (read_uncompressed_block bs buf n off))"
      using post_with_buffer [OF read_uncompressed_block_sound [OF assms(1-3)]]
      by (rule post_weaken) (auto intro: buffer_kept_self)
    with stored assms(4) show ?thesis by (simp add: deflate_read_block_def)
  next
    case fixed
    have "decoded fixed_literal_sizes fixed_distance_sizes buf off n bs x \<Longrightarrow> block_read 1 buf off n bs x" for x
      by (auto simp: decoded_def block_read_def intro: block_body.fixed [unfolded One_nat_def])
    with fixed assms show ?thesis
      by (auto simp: deflate_read_block_def fixed_ready_def buffer_kept_self split: option.splits
          intro: post_weaken [OF deflate_decode_huffman_sound])
  next
    case dynamic
    have "post (buffer_kept buf off n) (block_read 2 buf off n bs) (bindR (with_buffer buf
        (deflate_build_dynamic_huffman_trees bs (empty_tree 288) (empty_tree 30)))
        (\<lambda>(l, d, bs). deflate_decode_huffman bs l d buf n off))"
    proof (rule post_buffer_bindR [OF deflate_build_dynamic_huffman_trees_sound [OF assms(1)]], clarify)
      fix l d bs1 ls ds bits
      assume h: "block_trees ls ds l d" "dynamic_header bits ls ds" "reads bs bits bs1"
      have "block_read 2 buf off n bs x" if "decoded ls ds buf off n bs1 x" for x
        using that h(2) by (auto simp: decoded_def block_read_def intro: block_body.dynamic dest: reads_trans [OF h(3)])
      then show "post (buffer_kept buf off n) (block_read 2 buf off n bs) (deflate_decode_huffman bs1 l d buf n off)"
        by (rule post_weaken [OF deflate_decode_huffman_sound [OF h(1) reads_ok [OF h(3)] assms(2-4)], rotated])
    qed
    with dynamic assms(4) show ?thesis by (simp add: deflate_read_block_def initialize_trees)
  next
    case other
    then show ?thesis using assms(4) by (simp add: deflate_read_block_def buffer_kept_self)
  qed
qed

lemma deflate_read_block_complete:
  assumes "stream_ok bs" "off \<le> n" "n \<le> length buf" "n \<le> SSIZE_MAX" "fixed_ready fixed_trees"
    and "type = 1 \<longrightarrow> fixed_trees \<noteq> None"
    and "block_body (length (stream_bits bs) mod 8) type (take off buf) body out"
    and "stream_bits bs = body @ rest" "length out \<le> n"
  shows "\<exists>buf' bs'. deflate_read_block bs type fixed_trees buf n off = Inr (buf', length out, bs') \<and>
    length buf' = length buf \<and> take (length out) buf' = out \<and> reads bs body bs' \<and> stream_bits bs' = rest"
  using assms(7)
proof cases
  case (stored pad data)
  have "length out = off + length data" using stored assms(2,3) by simp
  with read_uncompressed_block_complete [OF assms(1-3), of pad data rest] stored assms(4,8,9) show ?thesis
    by (auto simp: deflate_read_block_def)
next
  case (fixed ts)
  obtain l d where "fixed_trees = Some (l, d)" "block_trees fixed_literal_sizes fixed_distance_sizes l d"
    using assms(5,6) fixed by (auto simp: fixed_ready_def split: option.splits)
  with decode_huffman_loop_complete [OF _ assms(1-3) fixed_end_of_block fixed(3) _ fixed(4) assms(9)]
    fixed assms(4,8) show ?thesis
    by (simp add: deflate_read_block_def deflate_decode_huffman_def)
next
  case (dynamic header ls ds ts)
  obtain l d bs1 where trees: "deflate_build_dynamic_huffman_trees bs (empty_tree 288) (empty_tree 30) = Inr (l, d, bs1)"
    "block_trees ls ds l d" "reads bs header bs1" "stream_bits bs1 = tokens_bits ls ds ts @ code_bits ls 256 @ rest"
    using deflate_build_dynamic_huffman_trees_complete [OF assms(1) dynamic(3)] assms(8) dynamic(2) by auto
  obtain buf' bs' where "decode_huffman_loop l d n buf off bs1 = Inr (buf', length out, bs')"
    "length buf' = length buf" "take (length out) buf' = out"
    "reads bs1 (tokens_bits ls ds ts @ code_bits ls 256) bs'" "stream_bits bs' = rest"
    using decode_huffman_loop_complete [OF trees(2) reads_ok [OF trees(3)] assms(2,3) _ _ dynamic(4) trees(4)
        dynamic(5) assms(9)] dynamic_header_end_of_block [OF dynamic(3)] by auto
  then show ?thesis
    using trees(1) dynamic assms(4) reads_trans [OF trees(3)]
    by (simp add: deflate_read_block_def deflate_decode_huffman_def initialize_trees)
qed


section \<open>Streams\<close>

text \<open>
  A stream with the bits \<open>s\<close> extends the data from \<open>out\<close> to \<open>out'\<close> and leaves the bits \<open>rest\<close>.
  It ends with the block that has the last block flag. The code also accepts a stream that ends
  after another block, when less than a byte is left.
\<close>

inductive deflate_stream :: "bool list \<Rightarrow> bytes \<Rightarrow> bool list \<Rightarrow> bytes \<Rightarrow> bool" where
  ended: "length s < 8 \<Longrightarrow> deflate_stream s out s out"
| last: "s = True # lsb_bits 2 type @ body @ rest \<Longrightarrow> 8 \<le> length s \<Longrightarrow>
    block_body (length (body @ rest) mod 8) type out body out' \<Longrightarrow>
    deflate_stream s out rest out'"
| more: "s = False # lsb_bits 2 type @ body @ s' \<Longrightarrow> 8 \<le> length s \<Longrightarrow>
    block_body (length (body @ s') mod 8) type out body out1 \<Longrightarrow>
    deflate_stream s' out1 rest out' \<Longrightarrow>
    deflate_stream s out rest out'"

text \<open>
  The same in the words of RFC 1951, without what the code adds or asks for. Distance codes that must hold \<open>D\<close> are a
  parameter: the RFC allows that no distance code is used, with sizes that are all zero, and sizes of up to 32
  distance codes, while the code needs a distance code in every dynamic block and sizes of at most 30.
\<close>

definition rfc1951_header :: "bool list \<Rightarrow> nat list \<Rightarrow> nat list \<Rightarrow> bool" where
  "rfc1951_header bits ls ds \<longleftrightarrow>
     257 \<le> length ls \<and> length ls \<le> 286 \<and> 1 \<le> length ds \<and> length ds \<le> 32 \<and> 0 < ls ! 256 \<and>
     valid_sizes 15 ls \<and> valid_sizes 15 ds \<and>
     (\<exists>n cs ts. 4 \<le> n \<and> n \<le> 19 \<and> alphabet_sizes n cs \<and> (\<forall>t \<in> set ts. size_token_ok cs t) \<and>
        expand_sizes ts [] = Some (ls @ ds) \<and>
        bits = lsb_bits 5 (length ls - 257) @ lsb_bits 5 (length ds - 1) @ lsb_bits 4 (n - 4) @
               codes_bits [0..<n] cs @ size_tokens_bits cs ts)"

definition has_distance_code :: "nat list \<Rightarrow> bool" where
  "has_distance_code ds \<longleftrightarrow> length ds \<le> 30 \<and> (\<exists>i<length ds. ds ! i \<noteq> 0)"

inductive rfc1951_block :: "(nat list \<Rightarrow> bool) \<Rightarrow> nat \<Rightarrow> nat \<Rightarrow> bytes \<Rightarrow> bool list \<Rightarrow> bytes \<Rightarrow> bool" for D where
  stored_block: "length pad = r \<Longrightarrow> length data \<le> 65535 \<Longrightarrow>
    rfc1951_block D r 0 out (stored_bits pad data) (out @ data)"
| fixed_block: "\<forall>t \<in> set ts. encodable fixed_literal_sizes fixed_distance_sizes t \<Longrightarrow> expand ts out = Some out' \<Longrightarrow>
    rfc1951_block D r 1 out (tokens_bits fixed_literal_sizes fixed_distance_sizes ts @ code_bits fixed_literal_sizes 256) out'"
| dynamic_block: "rfc1951_header header ls ds \<Longrightarrow> D ds \<Longrightarrow> \<forall>t \<in> set ts. encodable ls ds t \<Longrightarrow> expand ts out = Some out' \<Longrightarrow>
    rfc1951_block D r 2 out (header @ tokens_bits ls ds ts @ code_bits ls 256) out'"

text \<open>Blocks that are not the last one, from the bits \<open>s\<close> and the data \<open>out\<close> on.\<close>

inductive open_blocks :: "(nat list \<Rightarrow> bool) \<Rightarrow> bool list \<Rightarrow> bytes \<Rightarrow> bool list \<Rightarrow> bytes \<Rightarrow> bool" for D where
  no_block: "open_blocks D s out s out"
| open_block: "rfc1951_block D (length (body @ s1) mod 8) type out body out1 \<Longrightarrow> open_blocks D s1 out1 s2 out2 \<Longrightarrow>
    open_blocks D (False # lsb_bits 2 type @ body @ s1) out s2 out2"

definition rfc1951_stream :: "(nat list \<Rightarrow> bool) \<Rightarrow> bool list \<Rightarrow> bytes \<Rightarrow> bool list \<Rightarrow> bytes \<Rightarrow> bool" where
  "rfc1951_stream D s out rest out' \<longleftrightarrow>
     (\<exists>type body out1. open_blocks D s out (True # lsb_bits 2 type @ body @ rest) out1 \<and>
        rfc1951_block D (length (body @ rest) mod 8) type out1 body out')"

text \<open>A stream that breaks off behind a block that is not the last one, with less than a byte left.\<close>

definition unfinished_stream :: "(nat list \<Rightarrow> bool) \<Rightarrow> bool list \<Rightarrow> bytes \<Rightarrow> bool list \<Rightarrow> bytes \<Rightarrow> bool" where
  "unfinished_stream D s out rest out' \<longleftrightarrow> open_blocks D s out rest out' \<and> length rest < 8"

lemma dynamic_header_rfc: "dynamic_header bits ls ds \<longleftrightarrow> rfc1951_header bits ls ds \<and> has_distance_code ds"
proof -
  have "usable_sizes 15 ls \<longleftrightarrow> valid_sizes 15 ls" if "257 \<le> length ls" "0 < ls ! 256"
    using that by (auto simp: usable_sizes_def intro: exI [of _ 256])
  moreover have "usable_sizes 15 ds \<and> length ds \<le> 30 \<longleftrightarrow> valid_sizes 15 ds \<and> has_distance_code ds"
    by (auto simp: usable_sizes_def has_distance_code_def)
  moreover have "has_distance_code ds \<Longrightarrow> length ds \<le> 32" by (simp add: has_distance_code_def)
  ultimately show ?thesis unfolding dynamic_header_def rfc1951_header_def by blast
qed

lemma block_body_rfc: "block_body r type out body out' \<longleftrightarrow> rfc1951_block has_distance_code r type out body out'"
proof
  assume "block_body r type out body out'"
  then show "rfc1951_block has_distance_code r type out body out'"
    by induction (auto simp: dynamic_header_rfc intro: rfc1951_block.intros [simplified])
next
  assume "rfc1951_block has_distance_code r type out body out'"
  then show "block_body r type out body out'"
    by induction (auto intro: block_body.intros [simplified] simp: dynamic_header_rfc)
qed

text \<open>A block with its header never fits less than a byte.\<close>

lemma block_body_length: "block_body r type out body out' \<Longrightarrow> 5 \<le> length body"
proof (induction rule: block_body.induct)
  case (fixed ts out out' r)
  have "length (code_bits fixed_literal_sizes 256) = 7" by (simp add: code_bits_def fixed_literal_sizes_def fixed_code_size_def nth_append)
  then show ?case by simp
qed (auto simp: stored_bits_def dynamic_header_def)

lemma deflate_stream_rfc:
  "deflate_stream s out rest out' \<longleftrightarrow>
     rfc1951_stream has_distance_code s out rest out' \<or> unfinished_stream has_distance_code s out rest out'"
proof
  assume "deflate_stream s out rest out'"
  then show "rfc1951_stream has_distance_code s out rest out' \<or> unfinished_stream has_distance_code s out rest out'"
  proof induction
    case (ended s out)
    then show ?case by (simp add: unfinished_stream_def no_block)
  next
    case (last s type body rest out out')
    then show ?case unfolding rfc1951_stream_def block_body_rfc by (blast intro: no_block)
  next
    case (more s type body s' out out1 rest out')
    then show ?case unfolding rfc1951_stream_def unfinished_stream_def block_body_rfc by (blast intro: open_block)
  qed
next
  have closing: "deflate_stream s out rest out'"
    if "open_blocks has_distance_code s out s1 out1" "deflate_stream s1 out1 rest out'" for s out s1 out1
    using that
  proof induction
    case (open_block body s1 type out out1 s2 out2)
    then have "block_body (length (body @ s1) mod 8) type out body out1" by (simp add: block_body_rfc)
    with open_block block_body_length [OF this] show ?case by (intro deflate_stream.more [OF refl]) auto
  qed
  assume "rfc1951_stream has_distance_code s out rest out' \<or> unfinished_stream has_distance_code s out rest out'"
  then show "deflate_stream s out rest out'"
  proof
    assume "rfc1951_stream has_distance_code s out rest out'"
    then obtain type body out1 where b: "open_blocks has_distance_code s out (True # lsb_bits 2 type @ body @ rest) out1"
        "block_body (length (body @ rest) mod 8) type out1 body out'"
      by (auto simp: rfc1951_stream_def block_body_rfc)
    show ?thesis
      by (rule closing [OF b(1)], rule deflate_stream.last [OF refl _ b(2)]) (use block_body_length [OF b(2)] in simp)
  next
    assume "unfinished_stream has_distance_code s out rest out'"
    then show ?thesis by (auto simp: unfinished_stream_def intro: closing deflate_stream.ended)
  qed
qed

lemma deflate_stream_prefix: "deflate_stream s out rest out' \<Longrightarrow> \<exists>more. out' = out @ more"
  by (induction rule: deflate_stream.induct) (auto dest!: block_body_prefix)

lemma loop_condition:
  assumes "stream_ok bs"
  shows "byte_stream_offset bs < byte_stream_size bs \<longleftrightarrow> 8 \<le> length (stream_bits bs)"
  using assms by (auto simp: length_stream_bits stream_ok_def bs_inv_def)

lemma header_words:
  fixes v :: "32 word"
  assumes "unat v < 2 ^ 3"
  shows "unat (drop_bit 1 v) mod 256 = unat v div 2" "unat (v AND 1) mod 256 = unat v mod 2"
proof -
  have "unat (drop_bit 1 v) = unat v div 2" by (simp add: drop_bit_eq_div unat_div_distrib)
  then show "unat (drop_bit 1 v) mod 256 = unat v div 2" using assms by simp
  have "v AND 1 = take_bit 1 v" by (simp add: take_bit_eq_mask)
  then have "unat (v AND 1) = unat v mod 2"
    by (simp add: unsigned_take_bit_eq take_bit_eq_mod unat_mod_distrib)
  then show "unat (v AND 1) mod 256 = unat v mod 2" by simp
qed

lemma header_bits: "lsb_bits 3 v = odd v # lsb_bits 2 (v div 2)"
proof -
  have "(3 :: nat) = Suc 2" by simp
  then show ?thesis by (simp only: lsb_bits_Suc)
qed

lemma deflate_read_block_header_sound:
  assumes "stream_ok bs"
  shows "post lib_error (\<lambda>(type, flag, bs'). reads bs ((flag \<noteq> 0) # lsb_bits 2 type) bs')
    (deflate_read_block_header bs)"
  unfolding deflate_read_block_header_def
proof (rule post_bindR [OF get_number_reads [OF assms]], simp, clarify)
  fix v :: "32 word" and bs1
  assume v: "unat v < 2 ^ 3" "reads bs (lsb_bits 3 (unat v)) bs1"
  have "odd (unat v) \<longleftrightarrow> unat v mod 2 \<noteq> 0" by presburger
  with v(2) have "reads bs ((unat v mod 2 \<noteq> 0) # lsb_bits 2 (unat v div 2)) bs1" by (simp add: header_bits)
  then show "post lib_error (\<lambda>(type, flag, bs'). reads bs ((flag \<noteq> 0) # lsb_bits 2 type) bs')
      (Inr (unat (drop_bit 1 v) mod 256, unat (v AND 1) mod 256, bs1))"
    unfolding header_words [OF v(1)] by simp
qed

lemma deflate_read_block_header_complete:
  assumes "stream_ok bs" "type < 4" "stream_bits bs = b # lsb_bits 2 type @ rest"
  shows "\<exists>bs'. deflate_read_block_header bs = Inr (type, of_bool b, bs') \<and>
    reads bs (b # lsb_bits 2 type) bs' \<and> stream_bits bs' = rest"
proof -
  let ?v = "of_bool b + 2 * type"
  have v: "?v div 2 = type" "?v mod 2 = of_bool b" "?v < 2 ^ 3" using assms(2) by auto
  have bits: "b # lsb_bits 2 type = lsb_bits 3 ?v"
    by (cases b) (simp_all add: header_bits)
  with assms(3) have "stream_bits bs = lsb_bits 3 ?v @ rest" by (simp flip: append_Cons)
  from get_number_complete [OF assms(1) _ v(3) this] obtain w bs' where
    "bit_stream_get_value bs 3 = Inr (w, bs')" "reads bs (lsb_bits 3 ?v) bs'"
    "stream_bits bs' = rest" "unat w = ?v" by auto
  then show ?thesis
    using v header_words [of w] bits by (simp add: deflate_read_block_header_def)
qed

text \<open>The outcome of decompression from offset \<open>off\<close> on.\<close>

definition stream_read ::
    "bytes \<Rightarrow> nat \<Rightarrow> nat \<Rightarrow> bit_stream \<Rightarrow> bytes \<times> nat \<times> bit_stream \<Rightarrow> bool" where
  "stream_read buf off n bs = (\<lambda>(buf', off', bs').
     length buf' = length buf \<and> off' \<le> n \<and> drop off' buf' = drop off' buf \<and>
     stream_ok bs' \<and> same_source bs bs' \<and>
     deflate_stream (stream_bits bs) (take off buf) (stream_bits bs') (take off' buf'))"

text \<open>A block without the last block flag, then the rest of the stream.\<close>

lemma stream_read_step:
  assumes "stream_read buf1 off1 n bs2 x" "8 \<le> length (stream_bits bs)" "off1 \<le> length buf1"
    and "reads bs (False # lsb_bits 2 type) bs1" "reads bs1 body bs2"
    and "block_body (length (stream_bits bs1) mod 8) type (take off buf) body (take off1 buf1)"
    and "length buf1 = length buf" "drop off1 buf1 = drop off1 buf"
  shows "stream_read buf off n bs x"
proof -
  obtain buf2 off2 bs3 where x: "x = (buf2, off2, bs3)" by (cases x)
  with assms(1) have r: "length buf2 = length buf1" "off2 \<le> n" "drop off2 buf2 = drop off2 buf1" "stream_ok bs3"
    "same_source bs2 bs3" "deflate_stream (stream_bits bs2) (take off1 buf1) (stream_bits bs3) (take off2 buf2)"
    by (simp_all add: stream_read_def)
  have "stream_bits bs = False # lsb_bits 2 type @ body @ stream_bits bs2" "stream_bits bs1 = body @ stream_bits bs2"
    using assms(4,5) by (simp_all add: reads_def)
  with deflate_stream.more [OF this(1) assms(2) _ r(6)] assms(6)
  have "deflate_stream (stream_bits bs) (take off buf) (stream_bits bs3) (take off2 buf2)" by simp
  moreover have "off1 \<le> off2"
    using deflate_stream_prefix [OF r(6)] take_prefix_length [OF _ assms(3) r(1)] by blast
  moreover have "same_source bs bs3"
    using assms(4,5) r(5) by (auto simp: reads_def intro: same_source_trans)
  ultimately show ?thesis
    using r assms(7) drop_further [OF assms(8)] by (simp add: stream_read_def x)
qed

lemma decompress_blocks_sound:
  assumes "stream_ok bs" "off \<le> n" "n \<le> length buf" "n \<le> SSIZE_MAX" "fixed_ready fixed_trees"
  shows "post (buffer_kept buf off n) (stream_read buf off n bs)
    (decompress_blocks fixed_trees n buf off bs)"
  using assms
proof (induction "length (stream_bits bs)" arbitrary: buf off bs fixed_trees rule: less_induct)
  case less
  show ?case
  proof (cases "8 \<le> length (stream_bits bs)")
    case False
    then have "decompress_blocks fixed_trees n buf off bs = Inr (buf, off, bs)"
      using loop_condition [OF less.prems(1)] unfolding decompress_blocks.simps [of _ _ _ _ bs] by simp
    with False less.prems show ?thesis by (auto simp: stream_read_def intro: deflate_stream.ended)
  next
    case True
    have enter: "byte_stream_offset bs < byte_stream_size bs" using True loop_condition less.prems(1) by simp
    show ?thesis
      unfolding decompress_blocks.simps [of fixed_trees n buf off bs] if_P [OF enter]
    proof (rule post_buffer_bindR [OF deflate_read_block_header_sound [OF less.prems(1)]], clarify)
      fix type flag bs1
      assume r1: "reads bs ((flag \<noteq> 0) # lsb_bits 2 type) bs1"
      obtain trees where trees: "prepare_fixed_trees type fixed_trees = Inr trees" "fixed_ready trees"
        using prepare_fixed_trees_ok [OF less.prems(5)] by blast
      have "post (buffer_kept buf off n) (stream_read buf off n bs)
          (if flag \<noteq> 0 then Inr (buf1, off1, bs2) else decompress_blocks trees n buf1 off1 bs2)"
        if "block_read type buf off n bs1 (buf1, off1, bs2)" for buf1 off1 bs2
      proof -
        from that obtain body where b: "length buf1 = length buf" "off1 \<le> n" "drop off1 buf1 = drop off1 buf"
          "block_body (length (stream_bits bs1) mod 8) type (take off buf) body (take off1 buf1)"
          "reads bs1 body bs2" by (auto simp: block_read_def)
        have bits: "stream_bits bs = (flag \<noteq> 0) # lsb_bits 2 type @ body @ stream_bits bs2"
          "stream_bits bs1 = body @ stream_bits bs2" using r1 b(5) by (auto simp: reads_def)
        obtain more where more: "take off1 buf1 = take off buf @ more" using block_body_prefix [OF b(4)] by blast
        have off1: "off \<le> off1"
          using take_prefix_length [OF more _ b(1)] less.prems(2,3) by simp
        show ?thesis
        proof (cases "flag \<noteq> 0")
          case flag: True
          have "deflate_stream (stream_bits bs) (take off buf) (stream_bits bs2) (take off1 buf1)"
            using deflate_stream.last [of "stream_bits bs" type body "stream_bits bs2"] bits flag True b(4) by simp
          then show ?thesis
            using flag b r1 by (auto simp: stream_read_def reads_def intro: same_source_trans)
        next
          case flag: False
          have "post (buffer_kept buf1 off1 n) (stream_read buf1 off1 n bs2) (decompress_blocks trees n buf1 off1 bs2)"
            using less.prems b bits trees(2) reads_ok [OF b(5)] by (intro less.hyps) auto
          moreover have "stream_read buf off n bs x" if "stream_read buf1 off1 n bs2 x" for x
            using stream_read_step [OF that True _ _ b(5,4,1,3)] flag r1 b(1,2) less.prems(3) by simp
          moreover have "buffer_kept buf off n y" if "buffer_kept buf1 off1 n y" for y
            using buffer_kept_further [OF that b(1-3) more off1] less.prems by simp
          ultimately show ?thesis using flag by (auto elim!: post_weaken)
        qed
      qed
      then show "post (buffer_kept buf off n) (stream_read buf off n bs)
         (bindR (with_buffer buf (prepare_fixed_trees type fixed_trees)) (\<lambda>trees.
            bindR (deflate_read_block bs1 type trees buf n off) (\<lambda>(buf, off, bs).
              if flag \<noteq> 0 then Inr (buf, off, bs) else decompress_blocks trees n buf off bs)))"
        unfolding trees(1) with_buffer_simps bindR_simps
        by (intro post_bindR [OF deflate_read_block_sound [OF reads_ok [OF r1] less.prems(2-4) trees(2)]]) auto
    qed
  qed
qed


lemma decompress_blocks_complete:
  assumes "deflate_stream s out rest out'"
    and "stream_ok bs" "stream_bits bs = s" "take off buf = out" "off \<le> n" "n \<le> length buf" "n \<le> SSIZE_MAX"
    and "fixed_ready fixed_trees" "length out' \<le> n"
  shows "\<exists>buf' bs'. decompress_blocks fixed_trees n buf off bs = Inr (buf', length out', bs') \<and>
    length buf' = length buf \<and> take (length out') buf' = out' \<and> stream_ok bs' \<and> same_source bs bs' \<and>
    stream_bits bs' = rest"
  using assms
proof (induction arbitrary: bs buf off fixed_trees rule: deflate_stream.induct)
  case (ended s out)
  then have "decompress_blocks fixed_trees n buf off bs = Inr (buf, off, bs)"
    using loop_condition [of bs] unfolding decompress_blocks.simps [of _ _ _ _ bs] by simp
  with ended show ?case by auto
next
  case (last s type body rest out out')
  have type: "type < 4" using block_body_types [OF last(3)] by auto
  obtain bs1 where bs1: "deflate_read_block_header bs = Inr (type, 1, bs1)"
    "reads bs (True # lsb_bits 2 type) bs1" "stream_bits bs1 = body @ rest"
    using deflate_read_block_header_complete [of bs type True "body @ rest"] last type by auto
  obtain trees where trees: "prepare_fixed_trees type fixed_trees = Inr trees" "fixed_ready trees"
    "type = 1 \<longrightarrow> trees \<noteq> None" using prepare_fixed_trees_ok [OF last.prems(7)] by blast
  obtain buf' bs' where r: "deflate_read_block bs1 type trees buf n off = Inr (buf', length out', bs')"
    "length buf' = length buf" "take (length out') buf' = out'" "reads bs1 body bs'" "stream_bits bs' = rest"
    using deflate_read_block_complete [OF reads_ok [OF bs1(2)] last.prems(4-6) trees(2,3) _ bs1(3), of out']
      last bs1(3) by auto
  have enter: "byte_stream_offset bs < byte_stream_size bs" using last loop_condition [of bs] by simp
  have "decompress_blocks fixed_trees n buf off bs = Inr (buf', length out', bs')"
    unfolding decompress_blocks.simps [of fixed_trees n buf off bs] if_P [OF enter]
    by (simp add: bs1(1) trees(1) r(1))
  with r bs1(2) show ?case by (auto simp: reads_def intro: same_source_trans)
next
  case (more s type body s' out out1 rest out')
  have type: "type < 4" using block_body_types [OF more(3)] by auto
  have fits: "length out1 \<le> n" using deflate_stream_prefix [OF more(4)] more.prems(8) by auto
  obtain bs1 where bs1: "deflate_read_block_header bs = Inr (type, 0, bs1)"
    "reads bs (False # lsb_bits 2 type) bs1" "stream_bits bs1 = body @ s'"
    using deflate_read_block_header_complete [of bs type False "body @ s'"] more type by auto
  obtain trees where trees: "prepare_fixed_trees type fixed_trees = Inr trees" "fixed_ready trees"
    "type = 1 \<longrightarrow> trees \<noteq> None" using prepare_fixed_trees_ok [OF more.prems(7)] by blast
  obtain buf1 bs2 where r: "deflate_read_block bs1 type trees buf n off = Inr (buf1, length out1, bs2)"
    "length buf1 = length buf" "take (length out1) buf1 = out1" "reads bs1 body bs2" "stream_bits bs2 = s'"
    using deflate_read_block_complete [OF reads_ok [OF bs1(2)] more.prems(4-6) trees(2,3) _ bs1(3) fits] more bs1(3)
    by auto
  have enter: "byte_stream_offset bs < byte_stream_size bs" using more loop_condition [of bs] by simp
  have "decompress_blocks fixed_trees n buf off bs = decompress_blocks trees n buf1 (length out1) bs2"
    unfolding decompress_blocks.simps [of fixed_trees n buf off bs] if_P [OF enter]
    by (simp add: bs1(1) trees(1) r(1))
  moreover have "same_source bs bs2" using bs1(2) r(4) by (auto simp: reads_def intro: same_source_trans)
  ultimately show ?case
    using more.IH [OF reads_ok [OF r(4)] r(5,3) fits _ _ trees(2)] more.prems r(2)
    by (auto intro: same_source_trans)
qed

section \<open>DEFLATE data\<close>

lemma bit_stream_initialize_ok:
  assumes "length data \<le> SSIZE_MAX" "off \<le> length data"
  shows "\<exists>bs. bit_stream_initialize None data (length data) off (Some BYTE_BACK_TO_FRONT) = Inr bs \<and>
    stream_ok bs \<and> stream_bits bs = bytes_bits (drop off data) \<and> byte_stream bs = data \<and>
    byte_stream_size bs = length data"
  using assms by (auto simp: bit_stream_initialize_def stream_ok_def bs_inv_def stream_bits_def)

lemma deflate_decompress_sound:
  assumes "n \<le> length buf"
  shows "post (\<lambda>(e, buf'). lib_error e \<and> length buf' = length buf \<and> drop n buf' = drop n buf)
    (\<lambda>(buf', k). k \<le> n \<and> length buf' = length buf \<and> drop k buf' = drop k buf \<and>
       (\<exists>rest. deflate_stream (bytes_bits data) [] rest (take k buf')))
    (deflate_decompress data (length data) buf n)"
proof (cases "length data > SSIZE_MAX \<or> n > SSIZE_MAX \<or> data = []")
  case True
  then show ?thesis by (auto simp: deflate_decompress_def)
next
  case False
  then obtain bs where bs: "bit_stream_initialize None data (length data) 0 (Some BYTE_BACK_TO_FRONT) = Inr bs"
    "stream_ok bs" "stream_bits bs = bytes_bits data" using bit_stream_initialize_ok [of data 0] by auto
  have "post (buffer_kept buf 0 n) (stream_read buf 0 n bs) (decompress_blocks None n buf 0 bs)"
    using assms bs False by (intro decompress_blocks_sound) (simp_all add: fixed_ready_def)
  then show ?thesis
    using False bs by (cases "decompress_blocks None n buf 0 bs")
      (auto simp: deflate_decompress_def buffer_kept_def stream_read_def)
qed

lemma deflate_decompress_complete:
  assumes "deflate_stream (bytes_bits data) [] rest out" "data \<noteq> []" "length data \<le> SSIZE_MAX"
    and "length out \<le> n" "n \<le> length buf" "n \<le> SSIZE_MAX"
  shows "\<exists>buf'. deflate_decompress data (length data) buf n = Inr (buf', length out) \<and>
    length buf' = length buf \<and> take (length out) buf' = out"
proof -
  obtain bs where "bit_stream_initialize None data (length data) 0 (Some BYTE_BACK_TO_FRONT) = Inr bs"
    "stream_ok bs" "stream_bits bs = bytes_bits data" using bit_stream_initialize_ok [of data 0] assms(3) by auto
  with decompress_blocks_complete [OF assms(1), of bs 0 buf n None] assms show ?thesis
    by (auto simp: deflate_decompress_def fixed_ready_def)
qed


section \<open>Zlib data\<close>

text \<open>
  A zlib header ends at \<open>off\<close>: compression method 8 with a window of at most 32768 bytes, and
  the identifier of a preset dictionary when flag bit 5 is set (the code then asks for two bytes
  more than the header has).
\<close>

definition zlib_header :: "bytes \<Rightarrow> nat \<Rightarrow> bool" where
  "zlib_header data off \<longleftrightarrow>
     2 \<le> length data \<and> data ! 0 AND 0x0f = 8 \<and> unat (drop_bit 4 (data ! 0)) \<le> 7 \<and>
     (if data ! 1 AND 0x20 \<noteq> 0 then 8 \<le> length data \<and> off = 6 else off = 2)"

text \<open>
  The checksum after a stream that leaves the bits \<open>rest\<close>; with less than four bytes left there
  is none.
\<close>

definition zlib_trailer :: "bytes \<Rightarrow> bool list \<Rightarrow> bytes" where
  "zlib_trailer data rest = drop (length data - length rest div 8) data"

definition zlib_stream :: "bytes \<Rightarrow> bytes \<Rightarrow> bool" where
  "zlib_stream data out \<longleftrightarrow>
     (\<exists>off rest. zlib_header data off \<and> off < length data \<and>
        (rfc1951_stream has_distance_code (bytes_bits (drop off data)) [] rest out \<or>
         unfinished_stream has_distance_code (bytes_bits (drop off data)) [] rest out) \<and>
        (4 \<le> length (zlib_trailer data rest) \<longrightarrow>
           be_value (take 4 (zlib_trailer data rest)) = adler32 1 out))"

lemma window_size:
  "(push_bit (unat (w :: byte) + 8) 1 :: 32 word) > 32768 \<longleftrightarrow> 7 < unat w" if "unat w < 16"
proof -
  have "(2 :: nat) ^ (unat w + 8) < 2 ^ 32" using that by (intro power_strict_increasing) simp_all
  moreover have "push_bit (unat w + 8) 1 = (of_nat (2 ^ (unat w + 8)) :: 32 word)"
    by (simp add: push_bit_eq_mult)
  ultimately have "unat (push_bit (unat w + 8) 1 :: 32 word) = 2 ^ (unat w + 8)"
    by (simp only: unat_of_nat) simp
  moreover have "(2 :: nat) ^ 15 < 2 ^ (unat w + 8) \<longleftrightarrow> 15 < unat w + 8"
    by (rule power_strict_increasing_iff) simp
  ultimately show ?thesis by (simp add: word_less_nat_alt)
qed

lemma deflate_read_data_header_spec:
  "deflate_read_data_header data (length data) 0 =
     (if length data > SSIZE_MAX then Inl ARGUMENT_VALUE_EXCEEDS_MAXIMUM
      else if length data < 2 then Inl ARGUMENT_VALUE_TOO_SMALL
      else if data ! 1 AND 0x20 \<noteq> 0 \<and> length data < 8 then Inl ARGUMENT_VALUE_TOO_SMALL
      else if data ! 0 AND 0x0f \<noteq> 8 \<or> 7 < unat (drop_bit 4 (data ! 0)) then Inl RUNTIME_UNSUPPORTED_VALUE
      else Inr (if data ! 1 AND 0x20 \<noteq> 0 then 6 else 2))"
proof -
  have "unat (drop_bit 4 b) < 16" for b :: byte
    by (simp add: drop_bit_eq_div unat_div_distrib less_mult_imp_div_less)
  note window = window_size [OF this]
  show ?thesis unfolding deflate_read_data_header_def Let_def window by (auto simp: rd_def)
qed

lemma zlib_header_iff:
  "length data \<le> SSIZE_MAX \<Longrightarrow>
     deflate_read_data_header data (length data) 0 = Inr off \<longleftrightarrow> zlib_header data off"
  unfolding deflate_read_data_header_spec zlib_header_def by auto

lemma deflate_read_data_header_error:
  "deflate_read_data_header data (length data) 0 = Inl e \<Longrightarrow> lib_error e"
  unfolding deflate_read_data_header_spec by (auto split: if_splits)

lemma verify_checksum_eq:
  assumes "stream_ok bs" "k \<le> length buf" "k \<le> SSIZE_MAX"
  shows "verify_checksum buf k bs =
    (if 4 \<le> length (zlib_trailer (byte_stream bs) (stream_bits bs)) \<and>
        be_value (take 4 (zlib_trailer (byte_stream bs) (stream_bits bs))) \<noteq> adler32 1 (take k buf)
     then Inl INPUT_CHECKSUM_MISMATCH else Inr ())"
proof -
  let ?t = "zlib_trailer (byte_stream bs) (stream_bits bs)"
  have inv: "bs_inv bs" "bit_buffer_size bs < 8" using assms(1) by (simp_all add: stream_ok_def)
  have div: "length (stream_bits bs) div 8 = length (byte_stream bs) - byte_stream_offset bs"
    using inv by (simp add: length_stream_bits)
  have t: "?t = drop (byte_stream_offset bs) (byte_stream bs)"
    using inv by (simp add: zlib_trailer_def div bs_inv_def)
  have unread: "unread_bytes bs = bs" using inv(2) by (simp add: unread_bytes.simps)
  have init: "adler_valid (unat (1 :: 32 word))" by (simp add: adler_valid_def)
  obtain w where w: "deflate_calculate_adler32 (take k buf) 1 = Inr w" "unat w = adler32 1 (take k buf)"
    using deflate_calculate_adler32_correct [OF _ init, of "take k buf"] assms(2,3) by auto
  show ?thesis
    using inv(1) w assms(2) unfolding verify_checksum_def unread Let_def t by (auto simp: bs_inv_def)
qed


text \<open>The part of zlib decompression after a valid header.\<close>

lemma deflate_decompress_zlib_eq:
  assumes "zlib_header data off" "off < length data" "length data \<le> SSIZE_MAX" "n \<le> SSIZE_MAX"
  obtains bs where "stream_ok bs" "stream_bits bs = bytes_bits (drop off data)" "byte_stream bs = data"
    "deflate_decompress_zlib data (length data) buf n =
       bindR (decompress_blocks None n buf 0 bs) (\<lambda>(buf, k, bs).
         bindR (with_buffer buf (verify_checksum buf k bs)) (\<lambda>_. Inr (buf, k)))"
proof -
  obtain bs where bs: "bit_stream_initialize None data (length data) off (Some BYTE_BACK_TO_FRONT) = Inr bs"
    "stream_ok bs" "stream_bits bs = bytes_bits (drop off data)" "byte_stream bs = data"
    using bit_stream_initialize_ok [of data off] assms by auto
  have "deflate_read_data_header data (length data) 0 = Inr off" using zlib_header_iff assms(1,3) by simp
  with bs assms show thesis by (intro that [of bs]) (simp_all add: deflate_decompress_zlib_def)
qed

lemma deflate_decompress_zlib_sound:
  assumes "n \<le> length buf"
  shows "post (\<lambda>(e, buf'). lib_error e \<and> length buf' = length buf \<and> drop n buf' = drop n buf)
    (\<lambda>(buf', k). k \<le> n \<and> length buf' = length buf \<and> drop k buf' = drop k buf \<and> zlib_stream data (take k buf'))
    (deflate_decompress_zlib data (length data) buf n)"
proof (cases "\<exists>off. zlib_header data off \<and> off < length data \<and> length data \<le> SSIZE_MAX \<and> n \<le> SSIZE_MAX")
  case False
  have "post lib_error (zlib_header data) (deflate_read_data_header data (length data) 0)"
    if "length data \<le> SSIZE_MAX"
    using zlib_header_iff [OF that] deflate_read_data_header_error
    by (cases "deflate_read_data_header data (length data) 0") auto
  with False show ?thesis
    by (cases "deflate_read_data_header data (length data) 0") (auto simp: deflate_decompress_zlib_def not_le)
next
  case True
  then obtain off where off: "zlib_header data off" "off < length data" "length data \<le> SSIZE_MAX" "n \<le> SSIZE_MAX"
    by blast
  from deflate_decompress_zlib_eq [OF off] obtain bs where
    bs: "stream_ok bs" "stream_bits bs = bytes_bits (drop off data)" "byte_stream bs = data"
    "deflate_decompress_zlib data (length data) buf n =
       bindR (decompress_blocks None n buf 0 bs) (\<lambda>(buf, k, bs).
         bindR (with_buffer buf (verify_checksum buf k bs)) (\<lambda>_. Inr (buf, k)))" by blast
  have read: "post (buffer_kept buf 0 n) (stream_read buf 0 n bs) (decompress_blocks None n buf 0 bs)"
    using assms bs(1) off by (intro decompress_blocks_sound) (simp_all add: fixed_ready_def)
  then show ?thesis
  proof (cases "decompress_blocks None n buf 0 bs")
    case (Inr x)
    then obtain buf' k bs' where x: "decompress_blocks None n buf 0 bs = Inr (buf', k, bs')" by (cases x) auto
    with read have r: "length buf' = length buf" "k \<le> n" "drop k buf' = drop k buf" "stream_ok bs'"
      "byte_stream bs' = data" "deflate_stream (bytes_bits (drop off data)) [] (stream_bits bs') (take k buf')"
      using bs(2,3) by (auto simp: stream_read_def same_source_def)
    have "k \<le> length buf'" "k \<le> SSIZE_MAX" using r(1,2) off(4) assms by simp_all
    note checksum = verify_checksum_eq [OF r(4) this, unfolded r(5)]
    let ?t = "zlib_trailer data (stream_bits bs')"
    show ?thesis
    proof (cases "4 \<le> length ?t \<and> be_value (take 4 ?t) \<noteq> adler32 1 (take k buf')")
      case True
      then show ?thesis using r(1) drop_further [OF r(3,2)] by (simp add: bs(4) x checksum)
    next
      case False
      then have "zlib_stream data (take k buf')" using off(1,2) r(6) unfolding zlib_stream_def deflate_stream_rfc by blast
      with False r(1-3) show ?thesis by (auto simp: bs(4) x checksum)
    qed
  qed (auto simp: bs(4) buffer_kept_def)
qed

lemma deflate_decompress_zlib_complete:
  assumes "zlib_header data off" "off < length data" "length data \<le> SSIZE_MAX" "n \<le> SSIZE_MAX" "n \<le> length buf"
    and "deflate_stream (bytes_bits (drop off data)) [] rest out" "length out \<le> n"
  shows "\<exists>buf'. length buf' = length buf \<and> take (length out) buf' = out \<and>
    deflate_decompress_zlib data (length data) buf n =
      (if 4 \<le> length (zlib_trailer data rest) \<and> be_value (take 4 (zlib_trailer data rest)) \<noteq> adler32 1 out
       then Inl (INPUT_CHECKSUM_MISMATCH, buf') else Inr (buf', length out))"
proof -
  from deflate_decompress_zlib_eq [OF assms(1-4)] obtain bs where
    bs: "stream_ok bs" "stream_bits bs = bytes_bits (drop off data)" "byte_stream bs = data"
    "deflate_decompress_zlib data (length data) buf n =
       bindR (decompress_blocks None n buf 0 bs) (\<lambda>(buf, k, bs).
         bindR (with_buffer buf (verify_checksum buf k bs)) (\<lambda>_. Inr (buf, k)))" by blast
  obtain buf' bs' where r: "decompress_blocks None n buf 0 bs = Inr (buf', length out, bs')"
    "length buf' = length buf" "take (length out) buf' = out" "stream_ok bs'" "byte_stream bs' = data"
    "stream_bits bs' = rest"
    using decompress_blocks_complete [OF assms(6) bs(1,2), of 0 buf n None] assms bs(3)
    by (auto simp: fixed_ready_def same_source_def)
  show ?thesis
    using verify_checksum_eq [OF r(4), of "length out" buf'] r assms
    by (intro exI [of _ buf']) (simp add: bs(4))
qed

text \<open>
  Data of one stored block in a zlib stream with a trailer: what an encoder without compression
  writes, when the trailer is the checksum.
\<close>

definition zlib_block :: "bytes \<Rightarrow> bytes \<Rightarrow> bytes" where
  "zlib_block data trailer =
     [0x78, 0x01, 0x01] @ le_encode 2 (length data) @ le_encode 2 (65535 - length data) @ data @ trailer"

definition zlib_stored :: "bytes \<Rightarrow> bytes" where
  "zlib_stored data = zlib_block data (be_encode 4 (adler32 1 data))"


lemma byte_bits_of_nat: "byte_bits (of_nat (v mod 256)) = lsb_bits 8 v"
proof -
  have "byte_bits b = lsb_bits 8 (unat b)" for b :: byte
    by (auto simp: byte_bits_def lsb_bits_def bit_unsigned_iff possible_bit_def dest: bit_imp_le_length)
  then show ?thesis using lsb_bits_mod [of 8 v] by (simp add: unat_byte_of_nat del: lsb_bits_Suc lsb_bits_mod)
qed

lemma bytes_bits_le_encode: "bytes_bits (le_encode n v) = lsb_bits (8 * n) v"
proof (induction n v rule: le_encode.induct)
  case (2 n v)
  then show ?case
    using lsb_bits_add [of 8 "8 * n" v] by (simp add: byte_bits_of_nat)
qed simp

lemma adler32_valid: "adler_valid (adler32 1 data)"
proof -
  obtain a b where ab: "adler_sums (1 mod 65536, 1 div 65536) data = (a, b)" by force
  have "a mod 65521 < 65521" "b mod 65521 < 65521" by simp_all
  then show ?thesis using ab by (simp add: adler32_def adler_valid_def)
qed

lemma adler32_bound: "adler32 1 data < 2 ^ 32"
proof -
  have "adler32 1 data div 65536 < 65536" using adler32_valid [of data] by (simp add: adler_valid_def)
  then show ?thesis by (simp add: div_less_iff_less_mult)
qed

lemma zlib_block_stream:
  assumes "length data \<le> 65535"
  shows "deflate_stream (bytes_bits (drop 2 (zlib_block data trailer))) [] (bytes_bits trailer) data"
proof -
  let ?rest = "bytes_bits trailer"
  have first: "byte_bits 0x01 = True # lsb_bits 2 0 @ replicate 5 False" by code_simp
  have "bytes_bits (drop 2 (zlib_block data trailer)) =
      True # lsb_bits 2 0 @ stored_bits (replicate 5 False) data @ ?rest"
    by (simp add: zlib_block_def first bytes_bits_le_encode stored_bits_def del: lsb_bits_Suc replicate.simps)
  moreover have "length (stored_bits (replicate 5 False) data @ ?rest) mod 8 = 5"
  proof -
    have "length (stored_bits (replicate 5 False) data @ ?rest) = 5 + 8 * (4 + length data + length trailer)"
      by (simp add: stored_bits_def del: replicate.simps)
    then show ?thesis by presburger
  qed
  moreover have "block_body 5 0 [] (stored_bits (replicate 5 False) data) data"
    using block_body.stored [of "replicate 5 False" 5 data "[]"] assms by simp
  ultimately show ?thesis
    by (intro deflate_stream.last [where type = 0 and body = "stored_bits (replicate 5 False) data"])
       (simp_all add: stored_bits_def)
qed

lemma zlib_block_trailer:
  "zlib_header (zlib_block data trailer) 2"
  "zlib_trailer (zlib_block data trailer) (bytes_bits trailer) = trailer"
  "length (zlib_block data trailer) = length data + length trailer + 7"
proof -
  let ?z = "zlib_block data trailer"
  let ?pre = "[0x78, 0x01, 0x01] @ le_encode 2 (length data) @ le_encode 2 (65535 - length data) @ data"
  show len: "length ?z = length data + length trailer + 7" by (simp add: zlib_block_def)
  have "?z ! 0 = 0x78" "?z ! 1 = 0x01" by (simp_all add: zlib_block_def)
  then show "zlib_header ?z 2" using len by (simp add: zlib_header_def)
  have "?z = ?pre @ trailer" by (simp add: zlib_block_def)
  moreover have "length ?z - length (bytes_bits trailer) div 8 = length ?pre" by (simp add: len)
  ultimately show "zlib_trailer ?z (bytes_bits trailer) = trailer"
    unfolding zlib_trailer_def by (metis append_eq_conv_conj)
qed

section \<open>Properties\<close>

text \<open>
  C2. Decompression of DEFLATE data succeeds with the data \<open>out\<close> exactly when \<open>out\<close> fits the uncompressed
  data size and the bits of the compressed data start with a stream of RFC 1951 for \<open>out\<close> each of whose dynamic blocks has a distance
  code and sizes of at most 30 of them, or are such a stream that breaks off behind a block that is not the last one, with less
  than a byte left. A stream with a dynamic block without distance codes, which the RFC allows, is rejected.
\<close>

theorem deflate_decompress_correct:
  assumes "data \<noteq> []" "length data \<le> SSIZE_MAX" "n \<le> length buf" "n \<le> SSIZE_MAX"
  shows "(\<exists>buf'. deflate_decompress data (length data) buf n = Inr (buf', length out) \<and> take (length out) buf' = out) \<longleftrightarrow>
    (\<exists>rest. rfc1951_stream has_distance_code (bytes_bits data) [] rest out \<or>
       unfinished_stream has_distance_code (bytes_bits data) [] rest out) \<and> length out \<le> n"
  unfolding deflate_stream_rfc [symmetric]
proof
  assume "\<exists>buf'. deflate_decompress data (length data) buf n = Inr (buf', length out) \<and> take (length out) buf' = out"
  with deflate_decompress_sound [OF assms(3), of data]
  show "(\<exists>rest. deflate_stream (bytes_bits data) [] rest out) \<and> length out \<le> n" by auto
next
  assume "(\<exists>rest. deflate_stream (bytes_bits data) [] rest out) \<and> length out \<le> n"
  with deflate_decompress_complete [OF _ assms(1,2) _ assms(3,4)]
  show "\<exists>buf'. deflate_decompress data (length data) buf n = Inr (buf', length out) \<and> take (length out) buf' = out"
    by blast
qed

theorem deflate_decompress_correct_witness:
  "\<exists>buf'. deflate_decompress (drop 2 (zlib_block [1, 2, 3] [])) (length (drop 2 (zlib_block [1, 2, 3] [])))
      [0, 0, 0, 0] 4 = Inr (buf', length [1, 2, 3 :: byte]) \<and> take (length [1, 2, 3 :: byte]) buf' = [1, 2, 3]"
proof -
  have "drop 2 (zlib_block [1, 2, 3] []) \<noteq> []" "length (drop 2 (zlib_block [1, 2, 3] [])) \<le> SSIZE_MAX"
    "4 \<le> length [0, 0, 0, 0 :: byte]" "4 \<le> SSIZE_MAX"
    by (simp_all add: zlib_block_def SSIZE_MAX_def)
  from deflate_decompress_correct [OF this, of "[1, 2, 3]"] zlib_block_stream [of "[1, 2, 3]" "[]"]
  show ?thesis unfolding deflate_stream_rfc by auto
qed

text \<open>
  C4. Whatever the compressed data is, decompression terminates, never reads or writes outside
  its arrays, reports only errors of the library, never returns more data than the buffer may
  take, and leaves the buffer after the data, or after the uncompressed data size on an error.
\<close>

theorem deflate_decompress_safe:
  assumes "n \<le> length buf"
  shows "case deflate_decompress data (length data) buf n of
      Inl (e, buf') \<Rightarrow> e \<noteq> OUT_OF_BOUNDS_ACCESS \<and> length buf' = length buf \<and> drop n buf' = drop n buf
    | Inr (buf', k) \<Rightarrow> k \<le> n \<and> length buf' = length buf \<and> drop k buf' = drop k buf"
  using deflate_decompress_sound [OF assms, of data]
  by (auto simp: post_def lib_error_def split: sum.splits)

theorem deflate_decompress_safe_witness:
  "case deflate_decompress [0xff, 0x17] (length [0xff, 0x17 :: byte]) [1, 2, 3] 2 of
      Inl (e, buf') \<Rightarrow> e \<noteq> OUT_OF_BOUNDS_ACCESS \<and> length buf' = length [1, 2, 3 :: byte] \<and> drop 2 buf' = drop 2 [1, 2, 3]
    | Inr (buf', k) \<Rightarrow> k \<le> 2 \<and> length buf' = length [1, 2, 3 :: byte] \<and> drop k buf' = drop k [1, 2, 3]"
  by (rule deflate_decompress_safe) simp

text \<open>
  C3. Decompression of zlib data succeeds with the data \<open>out\<close> exactly when \<open>out\<close> fits, the header has
  method 8 and a window of at most 32 KiB (its check bits are not verified, and a preset dictionary needs two bytes more than RFC 1950
  says), the rest starts with a stream of RFC 1951 for \<open>out\<close> whose dynamic blocks have distance codes and sizes of at most 30, or is such a stream that
  breaks off before its last block with less than a byte left, and the big-endian Adler-32 behind it, when there are four bytes, is
  that of \<open>out\<close>.
\<close>

theorem deflate_decompress_zlib_correct:
  assumes "length data \<le> SSIZE_MAX" "n \<le> length buf" "n \<le> SSIZE_MAX"
  shows "(\<exists>buf'. deflate_decompress_zlib data (length data) buf n = Inr (buf', length out) \<and>
      take (length out) buf' = out) \<longleftrightarrow> zlib_stream data out \<and> length out \<le> n"
proof
  assume "\<exists>buf'. deflate_decompress_zlib data (length data) buf n = Inr (buf', length out) \<and> take (length out) buf' = out"
  with deflate_decompress_zlib_sound [OF assms(2), of data] show "zlib_stream data out \<and> length out \<le> n" by auto
next
  assume "zlib_stream data out \<and> length out \<le> n"
  then obtain off rest where "zlib_header data off" "off < length data"
    "deflate_stream (bytes_bits (drop off data)) [] rest out" "length out \<le> n"
    "4 \<le> length (zlib_trailer data rest) \<longrightarrow> be_value (take 4 (zlib_trailer data rest)) = adler32 1 out"
    by (auto simp: zlib_stream_def deflate_stream_rfc)
  with deflate_decompress_zlib_complete [OF this(1,2) assms(1,3,2) this(3,4)]
  show "\<exists>buf'. deflate_decompress_zlib data (length data) buf n = Inr (buf', length out) \<and> take (length out) buf' = out"
    by auto
qed

theorem deflate_decompress_zlib_correct_witness:
  "\<exists>buf'. deflate_decompress_zlib (zlib_stored [7, 8]) (length (zlib_stored [7, 8])) [0, 0, 0] 3 = Inr (buf', length [7, 8 :: byte]) \<and>
    take (length [7, 8 :: byte]) buf' = [7, 8]"
proof -
  let ?t = "be_encode 4 (adler32 1 [7, 8])"
  have "length (zlib_stored [7, 8]) \<le> SSIZE_MAX" "3 \<le> length [0, 0, 0 :: byte]" "3 \<le> SSIZE_MAX"
    using zlib_block_trailer(3) [of "[7, 8]" ?t] by (simp_all add: zlib_stored_def SSIZE_MAX_def)
  moreover have "zlib_stream (zlib_stored [7, 8]) [7, 8]"
    unfolding zlib_stream_def deflate_stream_rfc [symmetric] zlib_stored_def
    using zlib_block_trailer [of "[7, 8]" ?t] zlib_block_stream [of "[7, 8]" ?t] adler32_bound [of "[7, 8]"]
    by (intro exI [of _ 2] exI [of _ "bytes_bits ?t"]) (simp_all del: bytes_bits_simps)
  ultimately show ?thesis using deflate_decompress_zlib_correct [of "zlib_stored [7, 8]" 3 "[0, 0, 0]" "[7, 8]"] by simp
qed

text \<open>
  Zlib data whose stream decodes but whose Adler-32 differs is rejected with the checksum
  mismatch error.
\<close>

theorem deflate_decompress_zlib_mismatch:
  assumes "zlib_header data off" "off < length data" "length data \<le> SSIZE_MAX" "n \<le> SSIZE_MAX" "n \<le> length buf"
    and "deflate_stream (bytes_bits (drop off data)) [] rest out" "length out \<le> n"
    and "4 \<le> length (zlib_trailer data rest)" "be_value (take 4 (zlib_trailer data rest)) \<noteq> adler32 1 out"
  shows "\<exists>buf'. deflate_decompress_zlib data (length data) buf n = Inl (INPUT_CHECKSUM_MISMATCH, buf')"
  using deflate_decompress_zlib_complete [OF assms(1-7)] assms(8,9) by auto


theorem deflate_decompress_zlib_mismatch_witness:
  "\<exists>buf'. deflate_decompress_zlib (zlib_block [7] [0, 0, 0, 0]) (length (zlib_block [7] [0, 0, 0, 0])) [0] 1 =
     Inl (INPUT_CHECKSUM_MISMATCH, buf')"
  by (rule deflate_decompress_zlib_mismatch [OF zlib_block_trailer(1), where rest = "bytes_bits [0, 0, 0, 0]" and out = "[7]"])
     (simp_all add: zlib_block_trailer zlib_block_stream [simplified] SSIZE_MAX_def adler32_def be_value_def
       del: bytes_bits_simps)

text \<open>
  Data of up to 65535 bytes written as a zlib stream with one stored block and its
  checksum is decompressed to itself.
\<close>

theorem zlib_stored_roundtrip:
  assumes "length data \<le> 65535" "length data \<le> n" "n \<le> length buf" "n \<le> SSIZE_MAX"
  shows "\<exists>buf'. deflate_decompress_zlib (zlib_stored data) (length (zlib_stored data)) buf n = Inr (buf', length data) \<and>
    take (length data) buf' = data"
proof -
  let ?t = "be_encode 4 (adler32 1 data)"
  note z = zlib_block_trailer [of data ?t]
  have "2 < length (zlib_block data ?t)" "length (zlib_block data ?t) \<le> SSIZE_MAX"
    using assms(1) unfolding z(3) SSIZE_MAX_def by simp_all
  from deflate_decompress_zlib_complete [OF z(1) this assms(4,3) zlib_block_stream [OF assms(1)] assms(2)]
    z(2) adler32_bound [of data]
  show ?thesis by (auto simp: zlib_stored_def)
qed

theorem zlib_stored_roundtrip_witness:
  "\<exists>buf'. deflate_decompress_zlib (zlib_stored [1, 2, 3]) (length (zlib_stored [1, 2, 3])) [0, 0, 0, 0] 4 =
      Inr (buf', length [1, 2, 3 :: byte]) \<and> take (length [1, 2, 3 :: byte]) buf' = [1, 2, 3]"
  by (rule zlib_stored_roundtrip) (simp_all add: SSIZE_MAX_def)

end
