(* ===== verification/Checksum.thy ===== *)
theory Checksum
  imports Adler32
begin

text \<open>
  The checksums of \<open>libfsapfs_checksum.c\<close>: the table driven weak CRC-32 with its global table,
  and the Fletcher-64 of the object headers. The CRC-32 is specified by the bit-serial shift
  register with the same polynomial, the Fletcher-64 by sums modulo \<open>2 ^ 32 - 1\<close>. Calculating
  a checksum piece by piece is a contract that CRC-32 and Adler-32 share.
\<close>

section \<open>Weak CRC-32\<close>

text \<open>The global variables of the compilation unit.\<close>

record crc32_globals =
  crc32_table :: "32 word list"
  crc32_table_computed :: bool

definition crc32_globals_start :: crc32_globals where
  "crc32_globals_start = \<lparr>crc32_table = replicate 256 0, crc32_table_computed = False\<rparr>"

definition crc32_shift :: "32 word \<Rightarrow> 32 word \<Rightarrow> 32 word" where
  "crc32_shift polynomial checksum =
     (if checksum AND 1 \<noteq> 0 then polynomial XOR drop_bit 1 checksum else drop_bit 1 checksum)"

fun crc32_shifts :: "nat \<Rightarrow> 32 word \<Rightarrow> 32 word \<Rightarrow> 32 word" where
  "crc32_shifts 0 polynomial checksum = checksum"
| "crc32_shifts (Suc n) polynomial checksum = crc32_shifts n polynomial (crc32_shift polynomial checksum)"

definition checksum_initialize_crc32_table :: "32 word \<Rightarrow> crc32_globals \<Rightarrow> crc32_globals" where
  "checksum_initialize_crc32_table polynomial g =
     g\<lparr>crc32_table := map (\<lambda>table_index. crc32_shifts 8 polynomial (of_nat table_index)) [0..<256],
       crc32_table_computed := True\<rparr>"

fun weak_crc32_loop :: "32 word list \<Rightarrow> bytes \<Rightarrow> 32 word \<Rightarrow> 32 word result" where
  "weak_crc32_loop table [] checksum = Inr checksum"
| "weak_crc32_loop table (b # rest) checksum =
     (let table_index = (checksum XOR ucast b) AND 0xff
      in bindR (rd table (unat table_index)) (\<lambda>entry.
           weak_crc32_loop table rest (entry XOR drop_bit 8 checksum)))"

definition checksum_calculate_weak_crc32 ::
    "bytes \<Rightarrow> 32 word \<Rightarrow> crc32_globals \<Rightarrow> (32 word \<times> crc32_globals) result" where
  "checksum_calculate_weak_crc32 buffer initial_value g =
     (if length buffer > SSIZE_MAX then Inl ARGUMENT_VALUE_EXCEEDS_MAXIMUM
      else let g = (if crc32_table_computed g then g else checksum_initialize_crc32_table 0x82f63b78 g)
           in bindR (weak_crc32_loop (crc32_table g) buffer initial_value) (\<lambda>checksum.
                Inr (checksum, g)))"

text \<open>The table is the one of the polynomial once it is marked as computed.\<close>

definition crc32_globals_inv :: "crc32_globals \<Rightarrow> bool" where
  "crc32_globals_inv g \<longleftrightarrow>
     (crc32_table_computed g \<longrightarrow>
        crc32_table g = map (\<lambda>table_index. crc32_shifts 8 0x82f63b78 (of_nat table_index)) [0..<256])"

text \<open>
  The specification: a shift register that takes the bits of the data, least significant bit of
  each byte first, with the reflected Castagnoli polynomial.
\<close>

definition crc32_register :: "32 word \<Rightarrow> bool list \<Rightarrow> 32 word" where
  "crc32_register = foldl (\<lambda>checksum b. crc32_shift 0x82f63b78 (checksum XOR of_bool b))"

lemma crc32_shift_bit0:
  "crc32_shift p c = (if bit c 0 then p else 0) XOR drop_bit 1 c"
proof -
  have "c AND 1 \<noteq> 0 \<longleftrightarrow> bit c 0" by (simp add: and_one_eq bit_0 odd_iff_mod_2_eq_one)
  then show ?thesis by (simp add: crc32_shift_def)
qed

lemma crc32_shift_xor: "crc32_shift p (a XOR b) = crc32_shift p a XOR crc32_shift p b"
  by (rule bit_word_eqI) (auto simp: crc32_shift_bit0 bit_simps)

lemma crc32_shifts_xor: "crc32_shifts n p (a XOR b) = crc32_shifts n p a XOR crc32_shifts n p b"
  by (induction n arbitrary: a b) (simp_all add: crc32_shift_xor)

lemma crc32_shifts_high: "take_bit n c = 0 \<Longrightarrow> crc32_shifts n p c = drop_bit n c"
proof (induction n arbitrary: c)
  case (Suc n)
  have "\<not> bit c i" if "i < Suc n" for i
    using that Suc.prems by (metis bit_take_bit_iff bit_0_eq bot_fun_def bot_bool_def)
  then have "\<not> bit c 0" "take_bit n (drop_bit 1 c) = 0"
    by (auto intro!: bit_word_eqI simp: bit_simps)
  with Suc.IH [of "drop_bit 1 c"] show ?case by (simp add: crc32_shift_bit0)
qed simp

text \<open>Eight shifts are one look-up for the low byte and a shift of the rest.\<close>

lemma crc32_shifts_table:
  "crc32_shifts 8 p c = crc32_shifts 8 p (c AND 0xff) XOR drop_bit 8 c"
proof -
  have mask: "(0xff :: 32 word) = mask 8" by (simp add: mask_eq_exp_minus_1)
  have "c = (c AND 0xff) XOR (c AND NOT 0xff)" by (rule bit_word_eqI) (auto simp: bit_simps)
  then have "crc32_shifts 8 p c = crc32_shifts 8 p (c AND 0xff) XOR crc32_shifts 8 p (c AND NOT 0xff)"
    by (metis crc32_shifts_xor)
  moreover have "take_bit 8 (c AND NOT 0xff) = 0"
    unfolding mask by (rule bit_word_eqI) (auto simp: bit_simps)
  moreover have "drop_bit 8 (c AND NOT 0xff) = drop_bit 8 c"
    unfolding mask by (rule bit_word_eqI) (use bit_imp_le_length [of c] in \<open>fastforce simp: bit_simps\<close>)
  ultimately show ?thesis by (simp add: crc32_shifts_high)
qed

lemma crc32_register_shifts:
  assumes "n \<le> 8"
  shows "crc32_shifts n 0x82f63b78 (c XOR take_bit n x) = crc32_register c (map (bit x) [0..<n])"
  using assms
proof (induction n)
  case 0
  show ?case by (simp add: crc32_register_def)
next
  case (Suc n)
  have step: "crc32_shifts (Suc n) p y = crc32_shift p (crc32_shifts n p y)" for n p y
    by (induction n arbitrary: y) simp_all
  have "take_bit (Suc n) x = take_bit n x XOR push_bit n (of_bool (bit x n))"
    by (rule bit_word_eqI) (auto simp: bit_simps less_Suc_eq)
  moreover have "crc32_shifts n p (push_bit n (of_bool b)) = of_bool b" for p b
  proof -
    have "take_bit n (push_bit n (of_bool b) :: 32 word) = 0" by (simp add: take_bit_push_bit)
    moreover have "drop_bit n (push_bit n (of_bool b) :: 32 word) = of_bool b"
      using Suc.prems by (intro bit_word_eqI) (auto simp: bit_simps)
    ultimately show ?thesis by (simp add: crc32_shifts_high)
  qed
  ultimately have "crc32_shifts n 0x82f63b78 (c XOR take_bit (Suc n) x) =
      crc32_shifts n 0x82f63b78 (c XOR take_bit n x) XOR of_bool (bit x n)"
    by (simp add: crc32_shifts_xor xor.assoc)
  then show ?case
    using Suc by (simp add: step crc32_register_def del: crc32_shifts.simps)
qed

lemma crc32_register_byte:
  "crc32_shifts 8 0x82f63b78 (c XOR ucast (b :: byte)) = crc32_register c (byte_bits b)"
proof -
  have "take_bit 8 (ucast b :: 32 word) = ucast b"
    by (rule bit_word_eqI) (auto simp: bit_simps dest: bit_imp_le_length)
  moreover have "map (bit (ucast b :: 32 word)) [0..<8] = byte_bits b"
    by (auto simp: byte_bits_def bit_simps)
  ultimately show ?thesis using crc32_register_shifts [of 8 c "ucast b"] by simp
qed

lemma weak_crc32_loop_register:
  assumes "table = map (\<lambda>i. crc32_shifts 8 0x82f63b78 (of_nat i)) [0..<256]"
  shows "weak_crc32_loop table data c = Inr (crc32_register c (bytes_bits data))"
proof (induction data arbitrary: c)
  case Nil
  show ?case by (simp add: crc32_register_def)
next
  case (Cons b data)
  let ?i = "(c XOR ucast b) AND 0xff :: 32 word"
  have "?i \<le> 0xff" by (rule word_and_le1)
  then have i: "unat ?i < 256" by (simp add: word_le_nat_alt)
  have "drop_bit 8 (c XOR ucast b) = drop_bit 8 c"
    by (rule bit_word_eqI) (auto simp: bit_simps dest: bit_imp_le_length)
  then have "crc32_shifts 8 0x82f63b78 ?i XOR drop_bit 8 c = crc32_register c (byte_bits b)"
    using crc32_shifts_table [where p = "0x82f63b78" and c = "c XOR ucast b"] by (simp add: crc32_register_byte)
  moreover have "rd table (unat ?i) = Inr (crc32_shifts 8 0x82f63b78 ?i)"
    using i assms by (simp del: upt_rec_numeral)
  ultimately show ?case
    using Cons.IH by (simp add: Let_def crc32_register_def)
qed

lemma checksum_calculate_weak_crc32_eq:
  assumes "crc32_globals_inv g"
  shows "checksum_calculate_weak_crc32 data v g =
    (if length data > SSIZE_MAX then Inl ARGUMENT_VALUE_EXCEEDS_MAXIMUM
     else Inr (crc32_register v (bytes_bits data),
       if crc32_table_computed g then g else checksum_initialize_crc32_table 0x82f63b78 g))"
  using assms
  by (simp add: checksum_calculate_weak_crc32_def Let_def weak_crc32_loop_register crc32_globals_inv_def
      checksum_initialize_crc32_table_def del: upt_rec_numeral)


section \<open>Fletcher-64\<close>

function fletcher64_loop :: "bytes \<Rightarrow> nat \<Rightarrow> nat \<Rightarrow> 64 word \<times> 64 word \<Rightarrow> (64 word \<times> 64 word) result" where
  "fletcher64_loop buffer buffer_size buffer_offset (lower_32bit, upper_32bit) =
     (if buffer_offset < buffer_size then
        bindR (rd_u32_le buffer buffer_offset) (\<lambda>value_32bit.
          let lower_32bit = lower_32bit + of_nat value_32bit;
              upper_32bit = upper_32bit + lower_32bit
          in fletcher64_loop buffer buffer_size (buffer_offset + 4) (lower_32bit, upper_32bit))
      else Inr (lower_32bit, upper_32bit))"
  by pat_completeness auto
termination
  by (relation "measure (\<lambda>(_, buffer_size, buffer_offset, _). buffer_size - buffer_offset)") auto

declare fletcher64_loop.simps [simp del]

definition fletcher64_combine :: "64 word \<times> 64 word \<Rightarrow> 64 word" where
  "fletcher64_combine = (\<lambda>(lower_32bit, upper_32bit).
     let lower_32bit = lower_32bit mod 0xffffffff;
         upper_32bit = upper_32bit mod 0xffffffff;
         value_32bit = (ucast (0xffffffff - (lower_32bit + upper_32bit) mod 0xffffffff) :: 32 word);
         upper_32bit = 0xffffffff - (lower_32bit + ucast value_32bit) mod 0xffffffff
     in push_bit 32 upper_32bit OR ucast value_32bit)"

definition checksum_calculate_fletcher64 :: "bytes \<Rightarrow> nat \<Rightarrow> 64 word \<Rightarrow> 64 word result" where
  "checksum_calculate_fletcher64 buffer buffer_size initial_value =
     (if buffer_size > SSIZE_MAX then Inl ARGUMENT_VALUE_EXCEEDS_MAXIMUM
      else if buffer_size mod 4 \<noteq> 0 then Inl ARGUMENT_VALUE_OUT_OF_BOUNDS
      else bindR (fletcher64_loop buffer buffer_size 0
                   (initial_value AND 0xffffffff, drop_bit 32 initial_value AND 0xffffffff)) (\<lambda>sums.
             Inr (fletcher64_combine sums)))"

text \<open>The specification: sums of 32-bit little-endian values over the natural numbers.\<close>

fun values_32bit :: "bytes \<Rightarrow> nat list" where
  "values_32bit (b0 # b1 # b2 # b3 # rest) = le_value [b0, b1, b2, b3] # values_32bit rest"
| "values_32bit _ = []"

fun fletcher_sums :: "nat \<times> nat \<Rightarrow> nat list \<Rightarrow> nat \<times> nat" where
  "fletcher_sums (a, b) [] = (a, b)"
| "fletcher_sums (a, b) (x # xs) = fletcher_sums (a + x, b + (a + x)) xs"

definition fletcher_checks :: "nat \<times> nat \<Rightarrow> nat \<times> nat" where
  "fletcher_checks = (\<lambda>(a, b).
     let c0 = 4294967295 - (a + b) mod 4294967295; c1 = 4294967295 - (a + c0) mod 4294967295 in (c0, c1))"

lemma values_32bit_Cons:
  assumes "4 \<le> length bs"
  shows "values_32bit bs = le_value (take 4 bs) # values_32bit (drop 4 bs)"
  using assms by (cases bs rule: values_32bit.cases) auto

lemma length_values_32bit: "length (values_32bit bs) = length bs div 4"
  by (induction bs rule: values_32bit.induct) auto

lemma values_32bit_bound: "v \<in> set (values_32bit bs) \<Longrightarrow> v < 2 ^ 32"
proof (induction bs rule: values_32bit.induct)
  case (1 b0 b1 b2 b3 rest)
  then show ?case using le_value_bound [of "[b0, b1, b2, b3]"] by auto
qed auto

lemma fletcher_sums_append: "fletcher_sums s (xs @ ys) = fletcher_sums (fletcher_sums s xs) ys"
proof (induction xs arbitrary: s)
  case Nil
  show ?case by (cases s) simp
next
  case (Cons x xs)
  then show ?case by (cases s) simp
qed

lemma fletcher_sums_mono: "fletcher_sums (a, b) xs = (a', b') \<Longrightarrow> a \<le> a' \<and> b \<le> b'"
  by (induction xs arbitrary: a b) force+

lemma fletcher_sums_bound:
  assumes "fletcher_sums (a, b) xs = (a', b')" "\<forall>x \<in> set xs. x < m"
  shows "a' \<le> a + m * length xs \<and> b' \<le> b + length xs * a + m * (length xs * (length xs + 1))"
  using assms
proof (induction xs arbitrary: a b)
  case Nil
  then show ?case by simp
next
  case (Cons x xs)
  let ?n = "length xs"
  have x: "x \<le> m" using Cons.prems(2) by simp
  have IH: "a' \<le> a + x + m * ?n" "b' \<le> b + (a + x) + ?n * (a + x) + m * (?n * (?n + 1))"
    using Cons by simp_all
  have "x * ?n \<le> m * ?n" using x by (rule mult_le_mono1)
  moreover have "b' \<le> b + (a + x) + (?n * a + x * ?n) + m * (?n * (?n + 1))"
    using IH(2) by (simp add: distrib_left mult.commute)
  ultimately have "b' \<le> b + a + m + ?n * a + m * ?n + m * (?n * (?n + 1))"
    using x by linarith
  also have "\<dots> \<le> b + Suc ?n * a + m * (Suc ?n * (Suc ?n + 1))" by (simp add: algebra_simps)
  finally show ?case using IH(1) x by (simp add: algebra_simps)
qed

text \<open>The 64-bit sums do not wrap for up to 65534 values: no APFS block is that large.\<close>

lemma fletcher64_loop_sums:
  assumes "buffer_size = length buffer" "off \<le> buffer_size" "4 dvd buffer_size - off"
    and "fletcher_sums (unat l, unat u) (values_32bit (drop off buffer)) = (a, b)" "a < 2 ^ 64" "b < 2 ^ 64"
  shows "\<exists>l' u'. fletcher64_loop buffer buffer_size off (l, u) = Inr (l', u') \<and> unat l' = a \<and> unat u' = b"
  using assms
proof (induction buffer buffer_size off "(l, u)" arbitrary: l u rule: fletcher64_loop.induct)
  case (1 buffer buffer_size off l u)
  show ?case
  proof (cases "off < buffer_size")
    case False
    with "1.prems" show ?thesis by (simp add: fletcher64_loop.simps)
  next
    case True
    then have four: "off + 4 \<le> buffer_size" using "1.prems"(3) by presburger
    define v where "v = le_value (take 4 (drop off buffer))"
    have rd: "rd_u32_le buffer off = Inr v" using four "1.prems"(1) by (simp add: v_def)
    have "values_32bit (drop off buffer) = v # values_32bit (drop (off + 4) buffer)"
      using values_32bit_Cons [of "drop off buffer"] four "1.prems"(1) by (simp add: v_def add.commute)
    then have sums: "fletcher_sums (unat l + v, unat u + (unat l + v)) (values_32bit (drop (off + 4) buffer)) = (a, b)"
      using "1.prems"(4) by simp
    from fletcher_sums_mono [OF this] "1.prems"(5,6) have small: "unat l + v < 2 ^ 64" "unat u + (unat l + v) < 2 ^ 64"
      by simp_all
    have "v < 2 ^ 64" using small(1) by linarith
    then have "unat (of_nat v :: 64 word) = v" by (simp add: unat_of_nat)
    with small have next_sums: "unat (l + of_nat v) = unat l + v" "unat (u + (l + of_nat v)) = unat u + (unat l + v)"
      by (simp_all add: unat_word_ariths)
    have "4 dvd buffer_size - (off + 4)" using "1.prems"(3) four by presburger
    with "1.hyps" [OF True rd refl refl "1.prems"(1) four] sums next_sums "1.prems"(5,6)
    have "\<exists>l' u'. fletcher64_loop buffer buffer_size (off + 4) (l + of_nat v, u + (l + of_nat v)) = Inr (l', u') \<and>
        unat l' = a \<and> unat u' = b" by simp
    then show ?thesis using True rd by (simp add: fletcher64_loop.simps [of buffer buffer_size off l u] Let_def)
  qed
qed


lemma unat_mod_word: "unat (w mod 0xffffffff :: 64 word) = unat w mod 4294967295"
  by (simp add: unat_mod_distrib)

lemma low_word_bits: "unat (w AND 0xffffffff :: 64 word) = unat w mod 2 ^ 32"
proof -
  have "w AND 0xffffffff = take_bit 32 w" by (simp add: take_bit_eq_mask mask_eq_exp_minus_1)
  then show ?thesis by (simp add: unsigned_take_bit_eq take_bit_eq_mod unat_mod_distrib)
qed

lemma high_word_bits: "unat (drop_bit 32 w AND 0xffffffff :: 64 word) = unat w div 2 ^ 32"
proof -
  have "unat w div 2 ^ 32 < 2 ^ 32" using unsigned_less [of w] by (simp add: div_less_iff_less_mult)
  then show ?thesis by (simp add: low_word_bits drop_bit_eq_div unat_div_distrib)
qed

lemma fletcher64_combine_value:
  assumes "unat l = a" "unat u = b" "fletcher_checks (a, b) = (c0, c1)"
  shows "unat (fletcher64_combine (l, u)) = 2 ^ 32 * c1 + c0" "c0 < 2 ^ 32" "c1 < 2 ^ 32"
proof -
  let ?M = "4294967295 :: nat"
  have unat_M: "unat (0xffffffff :: 64 word) = ?M" by simp
  define l1 u1 where "l1 = l mod 0xffffffff" and "u1 = u mod 0xffffffff"
  have l1: "unat l1 = a mod ?M" and u1: "unat u1 = b mod ?M"
    using assms(1,2) by (simp_all add: l1_def u1_def unat_mod_word)
  have bounds: "a mod ?M < ?M" "b mod ?M < ?M" by simp_all
  have complement: "unat (0xffffffff - x mod 0xffffffff :: 64 word) = ?M - unat x mod ?M" for x
  proof -
    have "unat (x mod 0xffffffff) \<le> unat (0xffffffff :: 64 word)"
      unfolding unat_mod_word unat_M by (rule less_imp_le) simp
    then show ?thesis by (simp add: unat_sub word_le_nat_alt unat_mod_word)
  qed
  have c0: "c0 = ?M - (a + b) mod ?M" and c1: "c1 = ?M - (a + c0) mod ?M"
    using assms(3) unfolding fletcher_checks_def Let_def prod.case prod.inject by blast+
  show small: "c0 < 2 ^ 32" "c1 < 2 ^ 32" by (simp_all add: c0 c1)
  have "unat (l1 + u1) = a mod ?M + b mod ?M"
    using bounds l1 u1 by (simp add: unat_word_ariths)
  then have "unat (0xffffffff - (l1 + u1) mod 0xffffffff :: 64 word) = c0"
    unfolding complement c0 by (simp add: mod_add_eq)
  then have low: "unat (ucast (0xffffffff - (l1 + u1) mod 0xffffffff :: 64 word) :: 32 word) = c0"
    using small(1) by (simp add: unsigned_ucast_eq take_bit_nat_eq_self)
  define v where "v = (ucast (0xffffffff - (l1 + u1) mod 0xffffffff :: 64 word) :: 32 word)"
  have widen: "unat (ucast y :: 64 word) = unat y" for y :: "32 word"
  proof -
    have "unat y < 2 ^ 32" using unsigned_less [of y] by simp
    then show ?thesis by (simp add: unsigned_ucast_eq take_bit_nat_eq_self)
  qed
  have v: "unat (ucast v :: 64 word) = c0" using low by (simp only: widen v_def)
  have "unat (l1 + ucast v) = a mod ?M + c0"
    using bounds(1) l1 v small(1) by (simp add: unat_word_ariths)
  then have upper: "unat (0xffffffff - (l1 + ucast v) mod 0xffffffff :: 64 word) = c1"
    unfolding complement c1 by (simp add: mod_add_left_eq)
  have combine: "unat (push_bit 32 x OR ucast y :: 64 word) = 2 ^ 32 * unat x + unat y"
    if "unat x < 2 ^ 32" for x and y :: "32 word"
  proof -
    have "push_bit 32 x AND ucast y = 0"
      by (rule bit_word_eqI) (auto simp: bit_simps dest: bit_imp_le_length)
    then have "push_bit 32 x OR ucast y = push_bit 32 x + (ucast y :: 64 word)" by (simp add: disjunctive_add_eq_or)
    moreover have "unat (push_bit 32 x :: 64 word) = 2 ^ 32 * unat x"
      using that by (simp add: push_bit_eq_mult unat_word_ariths mult.commute)
    moreover have "unat y < 2 ^ 32" using unsigned_less [of y] by simp
    then have "2 ^ 32 * unat x + unat y < 2 ^ 64" using that by simp
    ultimately show ?thesis by (simp add: unat_word_ariths widen)
  qed
  show "unat (fletcher64_combine (l, u)) = 2 ^ 32 * c1 + c0"
    using combine [of "0xffffffff - (l1 + ucast v) mod 0xffffffff" v] upper small(2) low
    by (simp add: fletcher64_combine_def Let_def flip: l1_def u1_def v_def)
qed


text \<open>What the sums of the code are: the initial value, then the values of the data.\<close>

definition fletcher_of :: "nat \<Rightarrow> bytes \<Rightarrow> nat \<times> nat" where
  "fletcher_of v data = fletcher_sums (v mod 2 ^ 32, v div 2 ^ 32) (values_32bit data)"

lemma fletcher_of_small:
  assumes "v < 2 ^ 64" "length data \<le> 4 * 65534" "fletcher_of v data = (a, b)"
  shows "a < 2 ^ 64" "b < 2 ^ 64"
proof -
  let ?n = "length (values_32bit data)"
  have n: "?n \<le> 65534" using assms(2) by (simp add: length_values_32bit)
  have bounds: "a \<le> v mod 2 ^ 32 + 2 ^ 32 * ?n"
    "b \<le> v div 2 ^ 32 + ?n * (v mod 2 ^ 32) + 2 ^ 32 * (?n * (?n + 1))"
    using fletcher_sums_bound [OF assms(3) [unfolded fletcher_of_def], of "2 ^ 32"] values_32bit_bound by auto
  have start: "v mod 2 ^ 32 \<le> 2 ^ 32" "v div 2 ^ 32 < 2 ^ 32" using assms(1) by (simp_all add: div_less_iff_less_mult)
  have "2 ^ 32 * ?n \<le> 2 ^ 32 * (65534 :: nat)" using n by (rule mult_le_mono2)
  with bounds(1) start(1) show "a < 2 ^ 64" by simp
  have "?n * (v mod 2 ^ 32) \<le> 65534 * 2 ^ 32" using n start(1) by (rule mult_le_mono)
  moreover have "?n * (?n + 1) \<le> 65534 * 65535" using n by (intro mult_le_mono) simp_all
  ultimately show "b < 2 ^ 64" using bounds(2) start(2) by simp
qed

lemma checksum_calculate_fletcher64_value:
  assumes "length data \<le> 4 * 65534" "4 dvd length data"
  shows "\<exists>w. checksum_calculate_fletcher64 data (length data) v = Inr w \<and>
    (case fletcher_checks (fletcher_of (unat v) data) of (c0, c1) \<Rightarrow>
       unat w = 2 ^ 32 * c1 + c0 \<and> c0 < 2 ^ 32 \<and> c1 < 2 ^ 32)"
proof -
  obtain a b where ab: "fletcher_of (unat v) data = (a, b)" by force
  have small: "a < 2 ^ 64" "b < 2 ^ 64"
    using fletcher_of_small [OF _ assms(1) ab] unsigned_less [of v] by simp_all
  have start: "fletcher_sums (unat (v AND 0xffffffff), unat (drop_bit 32 v AND 0xffffffff))
      (values_32bit (drop 0 data)) = (a, b)"
    using ab by (simp only: fletcher_of_def high_word_bits drop_0) (simp only: low_word_bits)
  obtain l u where lu: "fletcher64_loop data (length data) 0 (v AND 0xffffffff, drop_bit 32 v AND 0xffffffff) = Inr (l, u)"
    "unat l = a" "unat u = b"
    using fletcher64_loop_sums [OF refl _ _ start small] assms(2) by auto
  obtain c0 c1 where c: "fletcher_checks (a, b) = (c0, c1)" by force
  have "length data \<le> SSIZE_MAX" using assms(1) by (simp add: SSIZE_MAX_def)
  then have "checksum_calculate_fletcher64 data (length data) v = Inr (fletcher64_combine (l, u))"
    using lu(1) assms(2) by (simp add: checksum_calculate_fletcher64_def)
  with fletcher64_combine_value [OF lu(2,3) c] ab c show ?thesis by auto
qed

text \<open>The two halves of the checksum bring both sums back to zero.\<close>

lemma complement_mod: "0 < m \<Longrightarrow> (x + (m - x mod m)) mod m = (0 :: nat)"
proof -
  assume "0 < m"
  then have "x mod m \<le> m" by (simp add: less_imp_le)
  then have "x + (m - x mod m) = m * (x div m) + m"
    using mult_div_mod_eq [of m x] by linarith
  then show ?thesis by (simp only: mod_mult_self4 mod_self)
qed

lemma fletcher64_loop_safe:
  assumes "buffer_size \<le> length buffer" "4 dvd buffer_size - off"
  shows "safe (fletcher64_loop buffer buffer_size off sums)"
  using assms
proof (induction buffer buffer_size off sums rule: fletcher64_loop.induct)
  case (1 buffer buffer_size off l u)
  show ?case
  proof (cases "off < buffer_size")
    case True
    obtain k where k: "buffer_size - off = 4 * k" using "1.prems"(2) by (rule dvdE)
    then have "0 < k" using True by (cases k) simp_all
    then have "buffer_size - (off + 4) = 4 * (k - 1)" "off + 4 \<le> length buffer"
      using k True "1.prems"(1) by linarith+
    then have "4 dvd buffer_size - (off + 4)" "off + 4 \<le> length buffer" by simp_all
    then show ?thesis using "1.IH" True "1.prems"(1) by (subst fletcher64_loop.simps) (auto simp: Let_def)
  qed (subst fletcher64_loop.simps, simp)
qed

lemma checksum_calculate_fletcher64_safe:
  "buffer_size \<le> length buffer \<Longrightarrow> safe (checksum_calculate_fletcher64 buffer buffer_size v)"
  using fletcher64_loop_safe [of buffer_size buffer 0] by (auto simp: checksum_calculate_fletcher64_def)

lemma fletcher_checks_cancel:
  assumes "fletcher_checks s = (c0, c1)" "fletcher_sums s [c0, c1] = (a, b)"
  shows "a mod 4294967295 = 0" "b mod 4294967295 = 0"
proof -
  obtain a0 b0 where s: "s = (a0, b0)" by force
  have c: "c0 = 4294967295 - (a0 + b0) mod 4294967295" "c1 = 4294967295 - (a0 + c0) mod 4294967295"
    using assms(1) unfolding s fletcher_checks_def Let_def prod.case prod.inject by blast+
  have a: "a = (a0 + c0) + c1" and b: "b = ((a0 + b0) + c0) + ((a0 + c0) + c1)" using assms(2) s by simp_all
  show first: "a mod 4294967295 = 0" unfolding a c(2) by (rule complement_mod) simp
  have "((a0 + b0) + c0) mod 4294967295 = 0" unfolding c(1) by (rule complement_mod) simp
  with first show "b mod 4294967295 = 0" unfolding b a by (metis mod_add_eq add_0 mod_0)
qed

text \<open>A change of a single 32-bit value changes the checksum, unless it exchanges 0 and all ones.\<close>

lemma fletcher_sums_shift:
  "fletcher_sums (a + d, b + e) xs =
     (fst (fletcher_sums (a, b) xs) + d, snd (fletcher_sums (a, b) xs) + (e + length xs * d))"
proof (induction xs arbitrary: a b e)
  case (Cons x xs)
  have "fletcher_sums (a + d, b + e) (x # xs) = fletcher_sums (a + x + d, b + (a + x) + (e + d)) xs"
    by (simp add: add.commute add.left_commute)
  then show ?case by (simp only: Cons.IH) simp
qed simp


lemma mod_add_cancel:
  fixes a a' c m :: nat
  assumes "(a + c) mod m = (a' + c) mod m"
  shows "a mod m = a' mod m"
  using assms
proof (induction a a' rule: linorder_wlog)
  case (le a a')
  then have "m dvd (a' + c) - (a + c)" by (subst mod_eq_dvd_iff_nat [symmetric]) auto
  with le(1) show ?case by (metis add_diff_cancel_right mod_eq_dvd_iff_nat)
qed (simp add: eq_commute)

lemma fletcher_checks_inject:
  assumes "fletcher_checks (a, b) = fletcher_checks (a', b')"
  shows "a mod 4294967295 = a' mod 4294967295" "b mod 4294967295 = b' mod 4294967295"
proof -
  let ?M = "4294967295 :: nat"
  have less: "x mod ?M < ?M" for x by simp
  have "?M - (a + b) mod ?M = ?M - (a' + b') mod ?M"
    and second: "?M - (a + (?M - (a + b) mod ?M)) mod ?M = ?M - (a' + (?M - (a' + b') mod ?M)) mod ?M"
    using assms unfolding fletcher_checks_def Let_def prod.case prod.inject by blast+
  moreover have same: "x mod ?M = y mod ?M" if "?M - x mod ?M = ?M - y mod ?M" for x y
    using that less by (metis diff_diff_cancel less_imp_le)
  ultimately have sums: "(a + b) mod ?M = (a' + b') mod ?M" by blast
  define c where "c = ?M - (a' + b') mod ?M"
  have "(a + c) mod ?M = (a' + c) mod ?M"
    using second unfolding sums c_def [symmetric] by (rule same)
  then show a: "a mod ?M = a' mod ?M"
    by (rule mod_add_cancel)
  have "(b + a) mod ?M = (b' + a) mod ?M"
    using sums mod_add_cong [OF refl a, of b'] by (simp add: add.commute)
  then show "b mod ?M = b' mod ?M" by (rule mod_add_cancel)
qed


section \<open>Checksums of data in pieces\<close>

text \<open>
  The contract of a checksum that is continued from the value of the previous piece. The
  calculation may keep global state \<open>g\<close>.
\<close>

definition checksum_value :: "('w \<times> 'g) result \<Rightarrow> 'w result" where
  "checksum_value r = bindR r (\<lambda>(w, g). Inr w)"

lemma checksum_value_simps [simp]:
  "checksum_value (Inl e) = Inl e"
  "checksum_value (Inr (w, g)) = Inr w"
  by (simp_all add: checksum_value_def)

locale incremental_checksum =
  fixes calc :: "bytes \<Rightarrow> 'w \<Rightarrow> 'g \<Rightarrow> ('w \<times> 'g) result"
    and valid :: "'w \<Rightarrow> bool"
    and inv :: "'g \<Rightarrow> bool"
  assumes calc_total: "valid v \<Longrightarrow> inv g \<Longrightarrow> length xs \<le> SSIZE_MAX \<Longrightarrow>
      \<exists>w g'. calc xs v g = Inr (w, g') \<and> valid w \<and> inv g'"
    and calc_append: "valid v \<Longrightarrow> inv g \<Longrightarrow> length (xs @ ys) \<le> SSIZE_MAX \<Longrightarrow>
      checksum_value (calc (xs @ ys) v g) = checksum_value (bindR (calc xs v g) (\<lambda>(w, g'). calc ys w g'))"
    and calc_Nil: "valid v \<Longrightarrow> inv g \<Longrightarrow> checksum_value (calc [] v g) = Inr v"

fun calc_pieces :: "(bytes \<Rightarrow> 'w \<Rightarrow> 'g \<Rightarrow> ('w \<times> 'g) result) \<Rightarrow> bytes list \<Rightarrow> 'w \<Rightarrow> 'g \<Rightarrow> ('w \<times> 'g) result" where
  "calc_pieces calc [] v g = Inr (v, g)"
| "calc_pieces calc (xs # xss) v g = bindR (calc xs v g) (\<lambda>(w, g'). calc_pieces calc xss w g')"

context incremental_checksum
begin

lemma pieces:
  assumes "valid v" "inv g" "length (concat xss) \<le> SSIZE_MAX"
  shows "checksum_value (calc_pieces calc xss v g) = checksum_value (calc (concat xss) v g)"
  using assms
proof (induction xss arbitrary: v g)
  case Nil
  then show ?case using calc_Nil by simp
next
  case (Cons xs xss)
  then obtain w g' where w: "calc xs v g = Inr (w, g')" "valid w" "inv g'"
    using calc_total [of v g xs] by auto
  with Cons.IH [of w g'] Cons.prems
  have "checksum_value (calc_pieces calc (xs # xss) v g) = checksum_value (calc (concat xss) w g')" by simp
  with calc_append [of v g xs "concat xss"] Cons.prems w(1) show ?case by simp
qed

end

interpretation adler: incremental_checksum
  "\<lambda>data v (g :: unit). bindR (deflate_calculate_adler32 data v) (\<lambda>w. Inr (w, g))"
  "\<lambda>v. adler_valid (unat v)" "\<lambda>_. True"
proof
  fix v :: "32 word" and g :: unit and xs ys :: bytes
  assume v: "adler_valid (unat v)"
  show "\<exists>w g'. bindR (deflate_calculate_adler32 xs v) (\<lambda>w. Inr (w, g)) = Inr (w, g') \<and> adler_valid (unat w) \<and> True"
    if "length xs \<le> SSIZE_MAX"
    using deflate_calculate_adler32_correct [OF that v] by auto
  show "checksum_value (bindR (deflate_calculate_adler32 (xs @ ys) v) (\<lambda>w. Inr (w, g))) =
      checksum_value (bindR (bindR (deflate_calculate_adler32 xs v) (\<lambda>w. Inr (w, g)))
        (\<lambda>(w, g'). bindR (deflate_calculate_adler32 ys w) (\<lambda>w. Inr (w, g'))))"
    if "length (xs @ ys) \<le> SSIZE_MAX"
  proof -
    note whole = that
    have len: "length xs \<le> SSIZE_MAX" "length ys \<le> SSIZE_MAX" using whole by simp_all
    obtain w where w: "deflate_calculate_adler32 xs v = Inr w" "unat w = adler32 (unat v) xs" "adler_valid (unat w)"
      using deflate_calculate_adler32_correct [OF len(1) v] by blast
    obtain x where x: "deflate_calculate_adler32 ys w = Inr x" "unat x = adler32 (unat w) ys"
      using deflate_calculate_adler32_correct [OF len(2) w(3)] by blast
    obtain y where y: "deflate_calculate_adler32 (xs @ ys) v = Inr y" "unat y = adler32 (unat v) (xs @ ys)"
      using deflate_calculate_adler32_correct [OF whole v] by blast
    have "x = y" using w(2) x(2) y(2) by (simp add: adler32_append word_unat_eq_iff)
    with w(1) x(1) y(1) show ?thesis by simp
  qed
  show "checksum_value (bindR (deflate_calculate_adler32 [] v) (\<lambda>w. Inr (w, g))) = Inr v"
  proof -
    obtain w where w: "deflate_calculate_adler32 [] v = Inr w" "unat w = adler32 (unat v) []"
      using deflate_calculate_adler32_correct [OF _ v, of "[]"] by auto
    have "adler32 (unat v) [] = unat v"
      using v div_mult_mod_eq [of "unat v" 65536] by (simp add: adler32_def adler_valid_def)
    with w show ?thesis by (simp add: word_unat_eq_iff)
  qed
qed

lemma crc32_globals_inv_initialize:
  "crc32_globals_inv (checksum_initialize_crc32_table 0x82f63b78 g)"
  by (simp add: crc32_globals_inv_def checksum_initialize_crc32_table_def del: upt_rec_numeral)

interpretation crc: incremental_checksum checksum_calculate_weak_crc32 "\<lambda>_. True" crc32_globals_inv
proof
  fix v :: "32 word" and g :: crc32_globals and xs ys :: bytes
  assume g: "crc32_globals_inv g"
  let ?g = "if crc32_table_computed g then g else checksum_initialize_crc32_table 0x82f63b78 g"
  have g': "crc32_globals_inv ?g" using g crc32_globals_inv_initialize by simp
  show "\<exists>w g'. checksum_calculate_weak_crc32 xs v g = Inr (w, g') \<and> True \<and> crc32_globals_inv g'"
    if "length xs \<le> SSIZE_MAX"
    using g' that by (simp add: checksum_calculate_weak_crc32_eq [OF g])
  show "checksum_value (checksum_calculate_weak_crc32 (xs @ ys) v g) =
      checksum_value (bindR (checksum_calculate_weak_crc32 xs v g) (\<lambda>(w, g'). checksum_calculate_weak_crc32 ys w g'))"
    if "length (xs @ ys) \<le> SSIZE_MAX"
    using that unfolding checksum_calculate_weak_crc32_eq [OF g]
    by (simp add: checksum_calculate_weak_crc32_eq [OF g'] crc32_register_def)
  show "checksum_value (checksum_calculate_weak_crc32 [] v g) = Inr v"
    by (simp add: checksum_calculate_weak_crc32_eq [OF g] crc32_register_def)
qed


section \<open>Properties\<close>

text \<open>
  The table driven calculation of the weak CRC-32, which fills its global table on
  first use, returns what the bit-serial shift register with polynomial 0x82f63b78 computes
  from the initial value and the bits of the data, and leaves a computed, correct table.
\<close>

theorem weak_crc32_correct:
  assumes "crc32_globals_inv g" "length data \<le> SSIZE_MAX"
  shows "\<exists>g'. checksum_calculate_weak_crc32 data v g = Inr (crc32_register v (bytes_bits data), g') \<and>
    crc32_globals_inv g' \<and> crc32_table_computed g'"
  using assms crc32_globals_inv_initialize [of g]
  by (simp add: checksum_calculate_weak_crc32_eq) (simp add: checksum_initialize_crc32_table_def)

theorem weak_crc32_correct_witness:
  "\<exists>g'. checksum_calculate_weak_crc32 [0x61, 0x62] 0xffffffff crc32_globals_start =
      Inr (crc32_register 0xffffffff (bytes_bits [0x61, 0x62]), g') \<and>
    crc32_globals_inv g' \<and> crc32_table_computed g'"
  by (rule weak_crc32_correct) (simp_all add: crc32_globals_inv_def crc32_globals_start_def SSIZE_MAX_def)

text \<open>
  Calculating the weak CRC-32 piece by piece, each piece continued from the checksum of
  the previous one, gives the checksum of the whole data.
\<close>

theorem weak_crc32_pieces:
  assumes "crc32_globals_inv g" "length (concat xss) \<le> SSIZE_MAX"
  shows "checksum_value (calc_pieces checksum_calculate_weak_crc32 xss v g) =
    checksum_value (checksum_calculate_weak_crc32 (concat xss) v g)"
  using crc.pieces [OF _ assms] by simp

theorem weak_crc32_pieces_witness:
  "checksum_value (calc_pieces checksum_calculate_weak_crc32 [[0x61], [0x62, 0x63]] 7 crc32_globals_start) =
    checksum_value (checksum_calculate_weak_crc32 [0x61, 0x62, 0x63] 7 crc32_globals_start)"
  using weak_crc32_pieces [of crc32_globals_start "[[0x61], [0x62, 0x63]]" 7]
  by (simp add: crc32_globals_inv_def crc32_globals_start_def SSIZE_MAX_def del: calc_pieces.simps)

text \<open>
  The Adler-32 of data in pieces, each continued from the checksum of the previous one, is
  the Adler-32 of the whole data, across the boundaries of the 5552 byte blocks.
\<close>

theorem adler32_pieces:
  assumes "adler_valid (unat v)" "length (concat xss) \<le> SSIZE_MAX"
  shows "checksum_value (calc_pieces (\<lambda>data v g. bindR (deflate_calculate_adler32 data v) (\<lambda>w. Inr (w, g))) xss v ()) =
    deflate_calculate_adler32 (concat xss) v"
proof -
  obtain w where "deflate_calculate_adler32 (concat xss) v = Inr w"
    using deflate_calculate_adler32_correct [OF assms(2,1)] by blast
  with adler.pieces [OF assms(1) _ assms(2), of "()"] show ?thesis by simp
qed

theorem adler32_pieces_witness:
  "checksum_value (calc_pieces (\<lambda>data v g. bindR (deflate_calculate_adler32 data v) (\<lambda>w. Inr (w, g)))
      [[0x61], [0x62, 0x63]] 1 ()) = deflate_calculate_adler32 [0x61, 0x62, 0x63] 1"
  using adler32_pieces [of 1 "[[0x61], [0x62, 0x63]]"] by (simp add: adler_valid_def SSIZE_MAX_def)

text \<open>
  The Fletcher-64 of a buffer of whole 32-bit values returns a checksum whose two halves,
  appended to the buffer as further values, bring both sums to zero modulo \<open>2 ^ 32 - 1\<close>; the
  64-bit sums do not wrap for buffers of up to 262136 bytes.
\<close>

theorem fletcher64_verifies:
  assumes "length data \<le> 4 * 65534" "4 dvd length data"
  shows "\<exists>w. checksum_calculate_fletcher64 data (length data) v = Inr w \<and>
    (case fletcher_sums (unat v mod 2 ^ 32, unat v div 2 ^ 32)
            (values_32bit data @ [unat w mod 2 ^ 32, unat w div 2 ^ 32]) of
       (a, b) \<Rightarrow> a mod 4294967295 = 0 \<and> b mod 4294967295 = 0)"
proof -
  obtain c0 c1 where c: "fletcher_checks (fletcher_of (unat v) data) = (c0, c1)" by force
  obtain w where
    w: "checksum_calculate_fletcher64 data (length data) v = Inr w" "unat w = 2 ^ 32 * c1 + c0" "c0 < 2 ^ 32"
    using checksum_calculate_fletcher64_value [OF assms, of v] c by auto
  then have "unat w mod 2 ^ 32 = c0" "unat w div 2 ^ 32 = c1" by simp_all
  with w(1) fletcher_checks_cancel [OF c] show ?thesis
    by (auto simp: fletcher_sums_append fletcher_of_def)
qed

theorem fletcher64_verifies_witness:
  "\<exists>w. checksum_calculate_fletcher64 [1, 2, 3, 4, 5, 6, 7, 8] 8 0 = Inr w \<and>
    (case fletcher_sums (0, 0) ([0x04030201, 0x08070605] @ [unat w mod 2 ^ 32, unat w div 2 ^ 32]) of
       (a, b) \<Rightarrow> a mod 4294967295 = 0 \<and> b mod 4294967295 = 0)"
proof -
  have "length [1, 2, 3, 4, 5, 6, 7, 8 :: byte] = 8" by simp
  from fletcher64_verifies [of "[1, 2, 3, 4, 5, 6, 7, 8]" 0, unfolded this] show ?thesis by simp
qed

text \<open>
  A change of one 32-bit value of a buffer changes its Fletcher-64, unless it exchanges
  zero and all ones, which are the same modulo \<open>2 ^ 32 - 1\<close>.
\<close>

theorem fletcher64_detects:
  assumes "length data \<le> 4 * 65534" "4 dvd length data" "length data' = length data"
    and "values_32bit data = pre @ x # tail" "values_32bit data' = pre @ y # tail"
    and "x mod 4294967295 \<noteq> y mod 4294967295"
  shows "checksum_calculate_fletcher64 data (length data) v \<noteq> checksum_calculate_fletcher64 data' (length data') v"
proof
  assume same: "checksum_calculate_fletcher64 data (length data) v = checksum_calculate_fletcher64 data' (length data') v"
  obtain c0 c1 d0 d1 where c: "fletcher_checks (fletcher_of (unat v) data) = (c0, c1)"
    and d: "fletcher_checks (fletcher_of (unat v) data') = (d0, d1)" by (meson surj_pair)
  obtain w where w: "checksum_calculate_fletcher64 data (length data) v = Inr w" "unat w = 2 ^ 32 * c1 + c0" "c0 < 2 ^ 32"
    using checksum_calculate_fletcher64_value [OF assms(1,2), of v] c by auto
  moreover obtain w' where "checksum_calculate_fletcher64 data' (length data') v = Inr w'"
    "unat w' = 2 ^ 32 * d1 + d0" "d0 < 2 ^ 32"
    using checksum_calculate_fletcher64_value [of data' v] assms(1-3) d by auto
  ultimately have eq: "2 ^ 32 * c1 + c0 = 2 ^ 32 * d1 + d0" "c0 < 2 ^ 32" "d0 < 2 ^ 32" using same by simp_all
  have halves: "(2 ^ 32 * n + m) mod 2 ^ 32 = m \<and> (2 ^ 32 * n + m) div 2 ^ 32 = n" if "m < 2 ^ 32" for n m :: nat
    using that by simp
  have "c0 = d0 \<and> c1 = d1" using halves [OF eq(2), of c1] halves [OF eq(3), of d1] unfolding eq(1) by blast
  then have checks: "fletcher_checks (fletcher_of (unat v) data) = fletcher_checks (fletcher_of (unat v) data')"
    using c d by simp
  obtain a b where ab: "fletcher_sums (unat v mod 2 ^ 32, unat v div 2 ^ 32) pre = (a, b)" by force
  have of: "fletcher_of (unat v) data = fletcher_sums (a + x, b + (a + x)) tail"
    "fletcher_of (unat v) data' = fletcher_sums (a + y, b + (a + y)) tail"
    unfolding fletcher_of_def assms(4,5) fletcher_sums_append ab by simp_all
  have "fst (fletcher_sums (a + z, b + (a + z)) tail) = z + fst (fletcher_sums (a, b + a) tail)" for z
    using fletcher_sums_shift [of a z "b + a" z tail] by (simp add: add.assoc)
  then have "(x + fst (fletcher_sums (a, b + a) tail)) mod 4294967295 =
      (y + fst (fletcher_sums (a, b + a) tail)) mod 4294967295"
    using fletcher_checks_inject(1) checks unfolding of by (metis prod.collapse)
  with assms(6) mod_add_cancel show False by blast
qed

theorem fletcher64_detects_witness:
  "checksum_calculate_fletcher64 [1, 0, 0, 0, 5, 0, 0, 0] 8 0 \<noteq>
     checksum_calculate_fletcher64 [1, 0, 0, 0, 6, 0, 0, 0] 8 0"
proof -
  have "length [1, 0, 0, 0, 5, 0, 0, 0 :: byte] = 8" "length [1, 0, 0, 0, 6, 0, 0, 0 :: byte] = 8" by simp_all
  from fletcher64_detects [of "[1, 0, 0, 0, 5, 0, 0, 0]" "[1, 0, 0, 0, 6, 0, 0, 0]" "[1]" 5 "[]" 6 0, unfolded this]
  show ?thesis by simp
qed

end
