(* ===== verification/Zbitmap.thy ===== *)
theory Zbitmap
  imports Apfs_Prelude
begin

text \<open>
  ZBITMAP decompression, \<open>libfsapfs_zbitmap.c\<close>. Pointers into the compressed data are offsets.
  The debug output that an environment variable switches on is left out.
\<close>

section \<open>Readers\<close>

record zbitmap_bitmap =
  bitmap :: byte
  period_bytecnt :: byte

record nibble_reader =
  nibble_address :: nat
  nibble :: nat

record bit_reader =
  bit_address :: nat
  bit_offset :: nat

text \<open>A 24-bit value at offset \<open>i\<close>, of which \<open>data_size\<close> bytes may be read.\<close>

definition zbitmap_read_uint24_little_endian :: "bytes \<Rightarrow> nat \<Rightarrow> nat \<Rightarrow> 32 word result" where
  "zbitmap_read_uint24_little_endian data i data_size =
     (if data_size < 3 then Inl RUNTIME_VALUE_OUT_OF_BOUNDS
      else bindR (rd data i) (\<lambda>b0. bindR (rd data (i + 1)) (\<lambda>b1. bindR (rd data (i + 2)) (\<lambda>b2.
             Inr (ucast b0 OR push_bit 8 (ucast b1) OR push_bit 16 (ucast b2))))))"

definition zbitmap_read_bit :: "bytes \<Rightarrow> nat \<Rightarrow> bit_reader \<Rightarrow> (byte \<times> bit_reader) result" where
  "zbitmap_read_bit data limit reader =
     (if bit_address reader \<ge> limit then Inl RUNTIME_VALUE_OUT_OF_BOUNDS
      else bindR (rd data (bit_address reader)) (\<lambda>b.
        let value = drop_bit (bit_offset reader) b AND 1;
            reader = reader\<lparr>bit_offset := bit_offset reader + 1\<rparr>
        in Inr (value, if bit_offset reader \<ge> 8
                       then reader\<lparr>bit_offset := 0, bit_address := bit_address reader + 1\<rparr> else reader)))"

text \<open>The bits with the given indexes of a value.\<close>

fun read_bitmap_bits :: "bytes \<Rightarrow> nat \<Rightarrow> nat list \<Rightarrow> byte \<Rightarrow> bit_reader \<Rightarrow> (byte \<times> bit_reader) result" where
  "read_bitmap_bits data limit [] value reader = Inr (value, reader)"
| "read_bitmap_bits data limit (bit_index # rest) value reader =
     bindR (zbitmap_read_bit data limit reader) (\<lambda>(bit_value, reader).
       read_bitmap_bits data limit rest (value OR push_bit bit_index bit_value) reader)"

definition zbitmap_read_bitmap :: "bytes \<Rightarrow> nat \<Rightarrow> bit_reader \<Rightarrow> (zbitmap_bitmap \<times> bit_reader) result" where
  "zbitmap_read_bitmap data limit reader =
     bindR (read_bitmap_bits data limit [0..<8] 0 reader) (\<lambda>(bitmap_value, reader).
       bindR (read_bitmap_bits data limit [0..<2] 0 reader) (\<lambda>(period_value, reader).
         Inr (\<lparr>bitmap = bitmap_value, period_bytecnt = period_value\<rparr>, reader)))"

definition zbitmap_read_nibble :: "bytes \<Rightarrow> nat \<Rightarrow> nibble_reader \<Rightarrow> (nat \<times> nibble_reader) result" where
  "zbitmap_read_nibble data limit reader =
     (if nibble_address reader \<ge> limit then Inl RUNTIME_VALUE_OUT_OF_BOUNDS
      else bindR (rd data (nibble_address reader)) (\<lambda>b.
        if nibble reader = 0 then Inr (unat (b AND 0x0f), reader\<lparr>nibble := 1\<rparr>)
        else Inr (unat (drop_bit 4 b AND 0x0f),
                  reader\<lparr>nibble := 0, nibble_address := nibble_address reader + 1\<rparr>)))"

definition zbitmap_rewind_nibble :: "nibble_reader \<Rightarrow> nibble_reader" where
  "zbitmap_rewind_nibble reader =
     (if nibble reader = 0 then reader\<lparr>nibble := 1, nibble_address := nibble_address reader - 1\<rparr>
      else reader\<lparr>nibble := 0\<rparr>)"

section \<open>Decompression of a chunk\<close>

text \<open>The state of the decompression of a chunk: the readers, the period and the output.\<close>

record zbitmap_state =
  data_pointer :: nat
  meta1_pointer :: nat
  meta2_pointer :: nat
  meta3_reader :: nibble_reader
  period :: nat
  uncompressed_data :: bytes
  output_offset :: nat
  chunk_written :: nat

text \<open>The bitmaps at the end of the chunk; the list holds the indexes to read.\<close>

fun read_bitmaps :: "bytes \<Rightarrow> nat \<Rightarrow> nat list \<Rightarrow> bit_reader \<Rightarrow> zbitmap_bitmap list result" where
  "read_bitmaps data chunk_end [] reader = Inr []"
| "read_bitmaps data chunk_end (bitmap_index # rest) reader =
     bindR (zbitmap_read_bitmap data chunk_end reader) (\<lambda>(b, reader).
       if period_bytecnt b > 2 then Inl RUNTIME_VALUE_OUT_OF_BOUNDS
       else bindR (read_bitmaps data chunk_end rest reader) (\<lambda>bs. Inr (b # bs)))"

text \<open>Nibbles are added to the 16-bit total while they are 15.\<close>

definition nibbles_left :: "nat \<Rightarrow> nibble_reader \<Rightarrow> nat" where
  "nibbles_left limit reader = 2 * (limit - nibble_address reader) - (if nibble reader = 0 then 0 else 1)"

lemma zbitmap_read_nibble_left:
  "zbitmap_read_nibble data limit reader = Inr (v, reader') \<Longrightarrow> nibbles_left limit reader' < nibbles_left limit reader"
  by (auto simp: zbitmap_read_nibble_def nibbles_left_def result_simps split: if_splits)

function read_total :: "bytes \<Rightarrow> nat \<Rightarrow> nat \<Rightarrow> nat \<Rightarrow> nibble_reader \<Rightarrow> (nat \<times> nibble_reader) result" where
  "read_total data limit nibble_value repeat_total reader =
     (if nibble_value = 0x0f then
        bindR (zbitmap_read_nibble data limit reader) (\<lambda>(nibble_value, reader).
          let repeat_total = (repeat_total + nibble_value) mod 65536
          in if repeat_total < nibble_value then Inl RUNTIME_VALUE_OUT_OF_BOUNDS
             else read_total data limit nibble_value repeat_total reader)
      else Inr (repeat_total, reader))"
  by pat_completeness auto
termination
  by (relation "measure (\<lambda>(_, limit, _, _, reader). nibbles_left limit reader)")
     (auto dest: zbitmap_read_nibble_left)

declare read_total.simps [simp del]

definition read_repeat_count :: "bytes \<Rightarrow> nat \<Rightarrow> nat \<Rightarrow> nibble_reader \<Rightarrow> (nat \<times> nibble_reader) result" where
  "read_repeat_count data limit remaining reader =
     (if remaining > 8 then
        bindR (zbitmap_read_nibble data limit reader) (\<lambda>(nibble_value, reader).
          if nibble_value \<noteq> 0x0f then Inr (1, zbitmap_rewind_nibble reader)
          else read_total data limit nibble_value 4 reader)
      else Inr (1, reader))"

text \<open>The bitmap and the number of period bytes for a bitmap number.\<close>

definition select_bitmap ::
    "bytes \<Rightarrow> nat \<Rightarrow> zbitmap_bitmap list \<Rightarrow> nat \<Rightarrow> zbitmap_state \<Rightarrow> (byte \<times> nat \<times> zbitmap_state) result" where
  "select_bitmap data chunk_end bitmaps bitmap_number st =
     (if bitmap_number = 0x0f then Inl RUNTIME_VALUE_OUT_OF_BOUNDS
      else if bitmap_number \<le> 2 then
        if meta2_pointer st \<ge> chunk_end then Inl RUNTIME_VALUE_OUT_OF_BOUNDS
        else bindR (rd data (meta2_pointer st)) (\<lambda>b.
               Inr (b, bitmap_number, st\<lparr>meta2_pointer := meta2_pointer st + 1\<rparr>))
      else
        let bitmap_index = int bitmap_number - 3
        in if bitmap_index < 0 \<or> bitmap_index \<ge> 12 then Inl RUNTIME_VALUE_OUT_OF_BOUNDS
           else bindR (rd bitmaps (nat bitmap_index)) (\<lambda>b.
                  Inr (bitmap b, unat (period_bytecnt b), st)))"

fun read_period :: "bytes \<Rightarrow> nat \<Rightarrow> nat list \<Rightarrow> 32 word \<Rightarrow> nat \<Rightarrow> (32 word \<times> nat) result" where
  "read_period data chunk_end [] value meta1 = Inr (value, meta1)"
| "read_period data chunk_end (bit_index # rest) value meta1 =
     (if meta1 \<ge> chunk_end then Inl RUNTIME_VALUE_OUT_OF_BOUNDS
      else bindR (rd data meta1) (\<lambda>b.
             read_period data chunk_end rest (value OR push_bit (bit_index * 8) (ucast b)) (meta1 + 1)))"

definition update_period :: "bytes \<Rightarrow> nat \<Rightarrow> nat \<Rightarrow> zbitmap_state \<Rightarrow> zbitmap_state result" where
  "update_period data chunk_end bytecnt st =
     (if bytecnt \<noteq> 0 then
        bindR (read_period data chunk_end [0..<bytecnt] 0 (meta1_pointer st)) (\<lambda>(value, meta1).
          if value = 0 then Inl RUNTIME_VALUE_OUT_OF_BOUNDS
          else Inr (st\<lparr>period := unat value, meta1_pointer := meta1\<rparr>))
      else Inr st)"

text \<open>Up to eight bytes of output; the list holds the bit indexes.\<close>

definition write_output :: "byte \<Rightarrow> zbitmap_state \<Rightarrow> zbitmap_state result" where
  "write_output b st =
     bindR (wr (uncompressed_data st) (output_offset st) b) (\<lambda>buf.
       Inr (st\<lparr>uncompressed_data := buf, output_offset := output_offset st + 1,
               chunk_written := chunk_written st + 1\<rparr>))"

fun write_bits :: "bytes \<Rightarrow> nat \<Rightarrow> nat \<Rightarrow> byte \<Rightarrow> nat list \<Rightarrow> zbitmap_state \<Rightarrow> zbitmap_state buffer_result" where
  "write_bits data chunk_end chunk_size bitmap_value [] st = Inr st"
| "write_bits data chunk_end chunk_size bitmap_value (bit_index # rest) st =
     (if chunk_written st = chunk_size then Inr st
      else bindR (with_buffer (uncompressed_data st)
             (if bitmap_value AND push_bit bit_index 1 \<noteq> 0 then
                if data_pointer st \<ge> chunk_end then Inl RUNTIME_VALUE_OUT_OF_BOUNDS
                else bindR (rd data (data_pointer st)) (\<lambda>b.
                       write_output b (st\<lparr>data_pointer := data_pointer st + 1\<rparr>))
              else
                if output_offset st < period st then Inl RUNTIME_VALUE_OUT_OF_BOUNDS
                else bindR (rd (uncompressed_data st) (output_offset st - period st)) (\<lambda>b.
                       write_output b st)))
             (write_bits data chunk_end chunk_size bitmap_value rest))"

definition apply_bitmap ::
    "bytes \<Rightarrow> nat \<Rightarrow> nat \<Rightarrow> zbitmap_bitmap list \<Rightarrow> nat \<Rightarrow> zbitmap_state \<Rightarrow> zbitmap_state buffer_result" where
  "apply_bitmap data chunk_end chunk_size bitmaps bitmap_number st =
     bindR (with_buffer (uncompressed_data st) (select_bitmap data chunk_end bitmaps bitmap_number st))
       (\<lambda>(bitmap_value, bytecnt, st).
       bindR (with_buffer (uncompressed_data st) (update_period data chunk_end bytecnt st)) (\<lambda>st.
         write_bits data chunk_end chunk_size bitmap_value [0..<8] st))"

fun repeat_bitmap ::
    "bytes \<Rightarrow> nat \<Rightarrow> nat \<Rightarrow> zbitmap_bitmap list \<Rightarrow> nat \<Rightarrow> nat \<Rightarrow> zbitmap_state \<Rightarrow> zbitmap_state buffer_result" where
  "repeat_bitmap data chunk_end chunk_size bitmaps bitmap_number 0 st = Inr st"
| "repeat_bitmap data chunk_end chunk_size bitmaps bitmap_number (Suc repeat_count) st =
     bindR (apply_bitmap data chunk_end chunk_size bitmaps bitmap_number st)
       (repeat_bitmap data chunk_end chunk_size bitmaps bitmap_number repeat_count)"

text \<open>One bitmap number with its repetitions.\<close>

definition decompress_group ::
    "bytes \<Rightarrow> nat \<Rightarrow> nat \<Rightarrow> zbitmap_bitmap list \<Rightarrow> zbitmap_state \<Rightarrow> zbitmap_state buffer_result" where
  "decompress_group data chunk_end chunk_size bitmaps st =
     bindR (with_buffer (uncompressed_data st) (zbitmap_read_nibble data chunk_end (meta3_reader st)))
       (\<lambda>(bitmap_number, reader).
       bindR (with_buffer (uncompressed_data st)
                (read_repeat_count data chunk_end (chunk_size - chunk_written st) reader))
         (\<lambda>(repeat_count, reader).
         repeat_bitmap data chunk_end chunk_size bitmaps bitmap_number repeat_count
           (st\<lparr>meta3_reader := reader\<rparr>)))"


lemma write_output_written:
  "write_output b st = Inr st' \<Longrightarrow> chunk_written st' = chunk_written st + 1"
  by (auto simp: write_output_def result_simps)

lemma write_bits_written:
  assumes "write_bits data chunk_end chunk_size v is st = Inr st'"
  shows "chunk_written st \<le> chunk_written st'"
    and "is \<noteq> [] \<Longrightarrow> chunk_written st \<noteq> chunk_size \<Longrightarrow> chunk_written st < chunk_written st'"
proof -
  have le: "chunk_written st \<le> chunk_written st'" if "write_bits data chunk_end chunk_size v is st = Inr st'" for "is" st
    using that
    by (induction "is" arbitrary: st)
      (auto simp: result_simps dest!: write_output_written split: if_splits, fastforce+)
  show "chunk_written st \<le> chunk_written st'" by (rule le [OF assms])
  show "chunk_written st < chunk_written st'" if "is \<noteq> []" "chunk_written st \<noteq> chunk_size"
    using that assms by (cases "is") (auto simp: result_simps dest!: write_output_written le split: if_splits)
qed

lemma apply_bitmap_written:
  assumes "apply_bitmap data chunk_end chunk_size bitmaps k st = Inr st'"
  shows "chunk_written st \<le> chunk_written st'"
    and "chunk_written st \<noteq> chunk_size \<Longrightarrow> chunk_written st < chunk_written st'"
proof -
  obtain v c st1 st2 where steps: "select_bitmap data chunk_end bitmaps k st = Inr (v, c, st1)"
    "update_period data chunk_end c st1 = Inr st2" "write_bits data chunk_end chunk_size v [0..<8] st2 = Inr st'"
    using assms by (auto simp: apply_bitmap_def result_simps)
  have "chunk_written st1 = chunk_written st"
    using steps(1) by (auto simp: select_bitmap_def result_simps Let_def split: if_splits)
  moreover have "chunk_written st2 = chunk_written st1"
    using steps(2) by (auto simp: update_period_def result_simps split: if_splits)
  ultimately show "chunk_written st \<le> chunk_written st'"
    "chunk_written st \<noteq> chunk_size \<Longrightarrow> chunk_written st < chunk_written st'"
    using write_bits_written [OF steps(3)] by simp_all
qed

lemma repeat_bitmap_written:
  "repeat_bitmap data chunk_end chunk_size bitmaps k m st = Inr st' \<Longrightarrow> chunk_written st \<le> chunk_written st'"
proof (induction m arbitrary: st)
  case (Suc m)
  then obtain st1 where "apply_bitmap data chunk_end chunk_size bitmaps k st = Inr st1"
    "repeat_bitmap data chunk_end chunk_size bitmaps k m st1 = Inr st'" by (auto simp: result_simps)
  with Suc.IH apply_bitmap_written(1) show ?case by fastforce
qed simp

lemma zbitmap_nibble_bound: "zbitmap_read_nibble data limit reader = Inr (v, reader') \<Longrightarrow> v \<le> 15"
proof -
  have "unat (b AND 0x0f) \<le> 15" for b :: byte
  proof -
    have "b AND 0x0f \<le> 0x0f" by (rule word_and_le1)
    then show ?thesis by (simp add: word_le_nat_alt)
  qed
  then show "zbitmap_read_nibble data limit reader = Inr (v, reader') \<Longrightarrow> v \<le> 15"
    by (auto simp: zbitmap_read_nibble_def result_simps split: if_splits)
qed

text \<open>The total does not wrap: the check after the addition catches it.\<close>

lemma no_wrap:
  fixes a w :: nat
  assumes "a < 65536" "w \<le> 15" "\<not> (a + w) mod 65536 < w"
  shows "(a + w) mod 65536 = a + w"
proof (rule ccontr)
  assume "(a + w) mod 65536 \<noteq> a + w"
  then have "65536 \<le> a + w" by (meson mod_less not_le)
  then have "(a + w) mod 65536 = (a + w - 65536) mod 65536" by (rule le_mod_geq)
  also have "\<dots> \<le> a + w - 65536" by (rule mod_less_eq_dividend)
  also have "\<dots> < w" using assms(1) \<open>65536 \<le> a + w\<close> by linarith
  finally show False using assms(3) by simp
qed

lemma read_total_ge:
  assumes "read_total data limit v repeat_total reader = Inr (r, reader')" "repeat_total < 65536"
  shows "repeat_total \<le> r \<and> r < 65536"
  using assms
proof (induction data limit v repeat_total reader rule: read_total.induct)
  case (1 data limit v repeat_total reader)
  show ?case
  proof (cases "v = 15")
    case True
    obtain w reader1 where w: "zbitmap_read_nibble data limit reader = Inr (w, reader1)"
      "\<not> (repeat_total + w) mod 65536 < w"
      "read_total data limit w ((repeat_total + w) mod 65536) reader1 = Inr (r, reader')"
      using "1.prems"(1) unfolding read_total.simps [of data limit v repeat_total reader] if_P [OF True]
      by (auto simp: result_simps Let_def split: if_splits)
    have "w \<le> 15" by (rule zbitmap_nibble_bound [OF w(1)])
    with w(2) "1.prems"(2) have sum: "(repeat_total + w) mod 65536 = repeat_total + w"
      by (intro no_wrap) simp_all
    have "(repeat_total + w) mod 65536 \<le> r \<and> r < 65536"
      by (rule "1.IH" [OF True w(1) refl refl w(2,3)]) simp
    with sum show ?thesis by simp
  next
    case False
    with "1.prems" show ?thesis by (simp add: read_total.simps [of data limit v])
  qed
qed

lemma read_repeat_count_pos:
  "read_repeat_count data limit remaining reader = Inr (m, reader') \<Longrightarrow> 0 < m"
  by (auto simp: read_repeat_count_def result_simps dest!: read_total_ge split: if_splits)

lemma decompress_group_written:
  assumes "decompress_group data chunk_end chunk_size bitmaps st = Inr st'" "chunk_written st < chunk_size"
  shows "chunk_written st < chunk_written st'"
proof -
  obtain k m reader reader' where "read_repeat_count data chunk_end (chunk_size - chunk_written st) reader = Inr (m, reader')"
    and *: "repeat_bitmap data chunk_end chunk_size bitmaps k m (st\<lparr>meta3_reader := reader'\<rparr>) = Inr st'"
    using assms(1) by (auto simp: decompress_group_def result_simps)
  then obtain m' where "m = Suc m'" using read_repeat_count_pos by (metis Suc_pred)
  with * obtain st1 where "apply_bitmap data chunk_end chunk_size bitmaps k (st\<lparr>meta3_reader := reader'\<rparr>) = Inr st1"
    "repeat_bitmap data chunk_end chunk_size bitmaps k m' st1 = Inr st'" by (auto simp: result_simps)
  with apply_bitmap_written(2) repeat_bitmap_written assms(2) show ?thesis by fastforce
qed

text \<open>The groups of a chunk.\<close>

function decompress_groups ::
    "bytes \<Rightarrow> nat \<Rightarrow> nat \<Rightarrow> zbitmap_bitmap list \<Rightarrow> zbitmap_state \<Rightarrow> zbitmap_state buffer_result" where
  "decompress_groups data chunk_end chunk_size bitmaps st =
     (if chunk_written st < chunk_size then
        bindR (decompress_group data chunk_end chunk_size bitmaps st)
          (decompress_groups data chunk_end chunk_size bitmaps)
      else Inr st)"
  by pat_completeness auto
termination
  by (relation "measure (\<lambda>(_, _, chunk_size, _, st). chunk_size - chunk_written st)")
     (auto dest: decompress_group_written)

declare decompress_groups.simps [simp del]


section \<open>Chunks\<close>

text \<open>The header of a compressed chunk, and the state its decompression starts with.\<close>

definition read_chunk_metadata ::
    "bytes \<Rightarrow> nat \<Rightarrow> nat \<Rightarrow> bytes \<Rightarrow> nat \<Rightarrow> (zbitmap_bitmap list \<times> zbitmap_state) result" where
  "read_chunk_metadata data chunk_data chunk_length buf offset =
     (if chunk_length < 15 then Inl RUNTIME_VALUE_OUT_OF_BOUNDS
      else
        bindR (zbitmap_read_uint24_little_endian data (chunk_data + 6) 3) (\<lambda>meta_offset_1.
        bindR (zbitmap_read_uint24_little_endian data (chunk_data + 9) 3) (\<lambda>meta_offset_2.
        bindR (zbitmap_read_uint24_little_endian data (chunk_data + 12) 3) (\<lambda>meta_offset_3.
          if unat meta_offset_1 \<ge> chunk_length \<or> unat meta_offset_2 \<ge> chunk_length \<or>
             unat meta_offset_3 \<ge> chunk_length
          then Inl RUNTIME_VALUE_OUT_OF_BOUNDS
          else if chunk_length < 17 then Inl RUNTIME_VALUE_OUT_OF_BOUNDS
          else
            bindR (read_bitmaps data (chunk_data + chunk_length) [0..<12]
                     \<lparr>bit_address = chunk_data + chunk_length - 17, bit_offset = 0\<rparr>) (\<lambda>bitmaps.
              Inr (bitmaps,
                   \<lparr>data_pointer = chunk_data + 15, meta1_pointer = chunk_data + unat meta_offset_1,
                    meta2_pointer = chunk_data + unat meta_offset_2,
                    meta3_reader = \<lparr>nibble_address = chunk_data + unat meta_offset_3, nibble = 0\<rparr>,
                    period = 8, uncompressed_data = buf, output_offset = offset, chunk_written = 0\<rparr>))))))"

text \<open>
  The chunk at offset \<open>current_offset\<close>: its length and the output after it, or nothing when it
  is the terminating chunk.
\<close>

definition decompress_chunk ::
    "bytes \<Rightarrow> nat \<Rightarrow> nat \<Rightarrow> nat \<Rightarrow> bytes \<Rightarrow> nat \<Rightarrow> (nat \<times> bytes \<times> nat) option buffer_result" where
  "decompress_chunk data data_size current_offset output_capacity buf offset =
     (if data_size - current_offset < 6 then Inl (RUNTIME_VALUE_OUT_OF_BOUNDS, buf)
      else
        bindR (with_buffer buf (zbitmap_read_uint24_little_endian data current_offset 3)) (\<lambda>chunk_length.
        bindR (with_buffer buf (zbitmap_read_uint24_little_endian data (current_offset + 3) 3)) (\<lambda>chunk_size.
          let chunk_length = unat chunk_length; chunk_size = unat chunk_size
          in if chunk_length < 6 then Inl (RUNTIME_VALUE_OUT_OF_BOUNDS, buf)
             else if chunk_size > 0x8000 then Inl (RUNTIME_VALUE_OUT_OF_BOUNDS, buf)
             else if chunk_length > (data_size - current_offset) mod 2 ^ 32
               then Inl (RUNTIME_VALUE_OUT_OF_BOUNDS, buf)
             else if chunk_size = 0 then Inr None
             else if chunk_size > output_capacity - offset then Inl (RUNTIME_VALUE_OUT_OF_BOUNDS, buf)
             else if chunk_length = chunk_size + 6 then
               bindR (with_buffer buf (bindR (rd_slice data (current_offset + 6) chunk_size) (wr_slice buf offset)))
                 (\<lambda>buf. Inr (Some (chunk_length, buf, offset + chunk_size)))
             else
               bindR (with_buffer buf (read_chunk_metadata data current_offset chunk_length buf offset))
                 (\<lambda>(bitmaps, st).
                 bindR (decompress_groups data (current_offset + chunk_length) chunk_size bitmaps st) (\<lambda>st.
                   Inr (Some (chunk_length, uncompressed_data st, output_offset st)))))))"

lemma decompress_chunk_length:
  "decompress_chunk data data_size off n buf out = Inr (Some (k, buf', out')) \<Longrightarrow> 6 \<le> k"
  by (auto simp: decompress_chunk_def result_simps Let_def split: if_splits)

function decompress_chunks ::
    "bytes \<Rightarrow> nat \<Rightarrow> nat \<Rightarrow> nat \<Rightarrow> bytes \<Rightarrow> nat \<Rightarrow> (bytes \<times> nat) buffer_result" where
  "decompress_chunks data data_size current_offset output_capacity buf offset =
     (if current_offset < data_size then
        bindR (decompress_chunk data data_size current_offset output_capacity buf offset) (\<lambda>chunk.
          case chunk of
            None \<Rightarrow> Inr (buf, offset)
          | Some (chunk_length, buf, offset) \<Rightarrow>
              decompress_chunks data data_size (current_offset + chunk_length) output_capacity buf offset)
      else Inr (buf, offset))"
  by pat_completeness auto
termination
  by (relation "measure (\<lambda>(_, data_size, current_offset, _). data_size - current_offset)")
     (auto dest!: decompress_chunk_length)

declare decompress_chunks.simps [simp del]

definition zbitmap_decompress ::
    "bytes \<Rightarrow> nat \<Rightarrow> bytes \<Rightarrow> nat \<Rightarrow> (bytes \<times> nat) buffer_result" where
  "zbitmap_decompress compressed_data compressed_data_size buf output_capacity =
     (if compressed_data_size < 4 then Inl (RUNTIME_VALUE_OUT_OF_BOUNDS, buf)
      else bindR (with_buffer buf (rd_u32_le compressed_data 0)) (\<lambda>magic.
             decompress_chunks compressed_data compressed_data_size
               (if magic = 0x094d425a then 4 else 0) output_capacity buf 0))"


section \<open>Bounds\<close>

text \<open>The only error that the decompression reports.\<close>

definition bounds_error :: "error \<Rightarrow> bool" where
  "bounds_error e \<longleftrightarrow> e = RUNTIME_VALUE_OUT_OF_BOUNDS"

definition failed_from :: "zbitmap_state \<Rightarrow> nat \<Rightarrow> error \<times> bytes \<Rightarrow> bool" where
  "failed_from st n = (\<lambda>(e, buf'). bounds_error e \<and> length buf' = length (uncompressed_data st) \<and>
     take (output_offset st) buf' = take (output_offset st) (uncompressed_data st) \<and>
     drop n buf' = drop n (uncompressed_data st))"

text \<open>There is room for the rest of the chunk before offset \<open>n\<close> of the buffer.\<close>

definition chunk_fits :: "nat \<Rightarrow> nat \<Rightarrow> zbitmap_state \<Rightarrow> bool" where
  "chunk_fits n chunk_size st \<longleftrightarrow> chunk_written st \<le> chunk_size \<and>
     output_offset st + (chunk_size - chunk_written st) \<le> n \<and> n \<le> length (uncompressed_data st)"

text \<open>From \<open>st\<close> to \<open>st'\<close> output was only appended.\<close>

definition appended :: "zbitmap_state \<Rightarrow> zbitmap_state \<Rightarrow> bool" where
  "appended st st' \<longleftrightarrow>
     chunk_written st \<le> chunk_written st' \<and>
     output_offset st' + chunk_written st = output_offset st + chunk_written st' \<and>
     length (uncompressed_data st') = length (uncompressed_data st) \<and>
     take (output_offset st) (uncompressed_data st') = take (output_offset st) (uncompressed_data st) \<and>
     drop (output_offset st') (uncompressed_data st') = drop (output_offset st') (uncompressed_data st)"

lemma appended_refl [simp]: "appended st st"
  by (simp add: appended_def)

lemma appendedD:
  assumes "appended st st'"
  shows "chunk_written st \<le> chunk_written st'"
    and "output_offset st' + chunk_written st = output_offset st + chunk_written st'"
    and "output_offset st \<le> output_offset st'"
    and "length (uncompressed_data st') = length (uncompressed_data st)"
    and "take (output_offset st) (uncompressed_data st') = take (output_offset st) (uncompressed_data st)"
    and "drop (output_offset st') (uncompressed_data st') = drop (output_offset st') (uncompressed_data st)"
  using assms unfolding appended_def by linarith+

lemma take_less:
  assumes "take m xs = take m ys" "k \<le> m"
  shows "take k xs = take k ys"
  using arg_cong [OF assms(1), of "take k"] assms(2) by simp

lemma appended_trans:
  assumes "appended a b" "appended b c"
  shows "appended a c"
proof -
  note ab = appendedD [OF assms(1)] and bc = appendedD [OF assms(2)]
  have "take (output_offset a) (uncompressed_data c) = take (output_offset a) (uncompressed_data a)"
    using take_less [OF bc(5) ab(3)] ab(5) by (rule trans)
  moreover have "drop (output_offset c) (uncompressed_data c) = drop (output_offset c) (uncompressed_data a)"
    using bc(6) drop_further [OF ab(6) bc(3)] by (rule trans)
  moreover have "output_offset c + chunk_written a = output_offset a + chunk_written c"
    using ab(2) bc(2) by linarith
  moreover have "length (uncompressed_data c) = length (uncompressed_data a)"
    using bc(4) ab(4) by (rule trans)
  ultimately show ?thesis
    unfolding appended_def using order_trans [OF ab(1) bc(1)] by blast
qed

lemma failed_from_appended:
  assumes "appended a b" "failed_from b n y" "output_offset b \<le> n"
  shows "failed_from a n y"
proof -
  obtain e buf where y: "y = (e, buf)" by force
  note ab = appendedD [OF assms(1)]
  have failed: "bounds_error e" "length buf = length (uncompressed_data b)"
    "take (output_offset b) buf = take (output_offset b) (uncompressed_data b)"
    "drop n buf = drop n (uncompressed_data b)"
    using assms(2) unfolding failed_from_def y by blast+
  show ?thesis
    unfolding failed_from_def y prod.case
    using failed(1) trans [OF failed(2) ab(4)] trans [OF take_less [OF failed(3) ab(3)] ab(5)]
      trans [OF failed(4) drop_further [OF ab(6) assms(3)]] by blast
qed

lemma chunk_fits_appended:
  "chunk_fits n k st \<Longrightarrow> appended st st' \<Longrightarrow> chunk_written st' \<le> k \<Longrightarrow> chunk_fits n k st'"
  by (auto simp: chunk_fits_def appended_def)

lemma failed_here: "bounds_error e \<Longrightarrow> failed_from st n (e, uncompressed_data st)"
  by (simp add: failed_from_def)

text \<open>A state that only moved its readers.\<close>

definition same_output :: "zbitmap_state \<Rightarrow> zbitmap_state \<Rightarrow> bool" where
  "same_output st st' \<longleftrightarrow> uncompressed_data st' = uncompressed_data st \<and>
     output_offset st' = output_offset st \<and> chunk_written st' = chunk_written st"

lemma same_output_appended: "same_output st st' \<Longrightarrow> appended st st'"
  by (simp add: same_output_def appended_def)

subsection \<open>Readers\<close>

lemma bounds_error_simps [simp]: "bounds_error RUNTIME_VALUE_OUT_OF_BOUNDS"
  by (simp add: bounds_error_def)

lemma zbitmap_read_uint24_value:
  assumes "i + 3 \<le> length data"
  shows "\<exists>w. zbitmap_read_uint24_little_endian data i 3 = Inr w \<and> unat w = le_value (take 3 (drop i data))"
proof -
  have bytes: "take 3 (drop i data) = [data ! i, data ! (i + 1), data ! (i + 2)]"
    using assms by (intro nth_equalityI) (auto simp: less_Suc_eq numeral_3_eq_3)
  have "unat (ucast a OR push_bit 8 (ucast b) OR push_bit 16 (ucast c) :: 32 word) = le_value [a, b, c]"
    for a b c :: byte
  proof -
    have "(ucast a OR push_bit 8 (ucast b)) AND push_bit 16 (ucast c) = (0 :: 32 word)"
      "ucast a AND push_bit 8 (ucast b) = (0 :: 32 word)"
      by (rule bit_word_eqI, auto simp: bit_simps dest: bit_imp_le_length)+
    then have "ucast a OR push_bit 8 (ucast b) OR push_bit 16 (ucast c) =
        ucast a + push_bit 8 (ucast b) + (push_bit 16 (ucast c) :: 32 word)"
      by (simp add: disjunctive_add_eq_or or.assoc)
    moreover have "unat (ucast b :: 32 word) = unat b" for b :: byte by simp
    ultimately show ?thesis
      using unat_byte_less [of a] unat_byte_less [of b] unat_byte_less [of c]
      by (simp add: push_bit_eq_mult unat_word_ariths mult.commute del: unat_byte_less)
  qed
  then show ?thesis
    using assms bytes by (simp add: zbitmap_read_uint24_little_endian_def)
qed

lemma zbitmap_read_bit_post:
  assumes "limit \<le> length data"
  shows "post bounds_error (\<lambda>_. True) (zbitmap_read_bit data limit reader)"
  using assms by (auto simp: zbitmap_read_bit_def Let_def)

lemma read_bitmap_bits_post:
  "limit \<le> length data \<Longrightarrow> post bounds_error (\<lambda>_. True) (read_bitmap_bits data limit is value reader)"
  by (induction data limit "is" "value" reader rule: read_bitmap_bits.induct)
     (auto intro!: post_bindR [OF zbitmap_read_bit_post])

lemma zbitmap_read_bitmap_post:
  "limit \<le> length data \<Longrightarrow> post bounds_error (\<lambda>_. True) (zbitmap_read_bitmap data limit reader)"
  unfolding zbitmap_read_bitmap_def
  by (auto intro!: post_bindR [OF read_bitmap_bits_post])

lemma read_bitmaps_post:
  "limit \<le> length data \<Longrightarrow> post bounds_error (\<lambda>bs. length bs = length is) (read_bitmaps data limit is reader)"
proof (induction "is" arbitrary: reader)
  case (Cons i "is")
  show ?case
    unfolding read_bitmaps.simps
  proof (rule post_bindR [OF zbitmap_read_bitmap_post [OF Cons.prems]], clarify)
    fix b reader'
    show "post bounds_error (\<lambda>bs. length bs = length (i # is))
        (if period_bytecnt b > 2 then Inl RUNTIME_VALUE_OUT_OF_BOUNDS
         else bindR (read_bitmaps data limit is reader') (\<lambda>bs. Inr (b # bs)))"
      using post_bindR [OF Cons.IH [OF Cons.prems], of reader' "\<lambda>bs. length bs = length (i # is)" "\<lambda>bs. Inr (b # bs)"]
      by simp
  qed
qed simp

lemma zbitmap_read_nibble_post:
  "limit \<le> length data \<Longrightarrow> post bounds_error (\<lambda>_. True) (zbitmap_read_nibble data limit reader)"
  by (auto simp: zbitmap_read_nibble_def)

lemma read_total_post:
  "limit \<le> length data \<Longrightarrow> post bounds_error (\<lambda>_. True) (read_total data limit v k reader)"
proof (induction data limit v k reader rule: read_total.induct)
  case (1 data limit v k reader)
  then show ?case
    unfolding read_total.simps [of data limit v k reader]
    by (auto simp: Let_def intro!: post_bindR [OF zbitmap_read_nibble_post])
qed

lemma read_repeat_count_post:
  "limit \<le> length data \<Longrightarrow> post bounds_error (\<lambda>_. True) (read_repeat_count data limit m reader)"
  unfolding read_repeat_count_def
  by (auto intro!: post_bindR [OF zbitmap_read_nibble_post] read_total_post)

lemma select_bitmap_post:
  assumes "limit \<le> length data" "length bitmaps = 12"
  shows "post bounds_error (\<lambda>(v, c, st'). same_output st st') (select_bitmap data limit bitmaps k st)"
  using assms by (auto simp: select_bitmap_def same_output_def Let_def rd_def)

lemma read_period_post:
  "limit \<le> length data \<Longrightarrow> post bounds_error (\<lambda>_. True) (read_period data limit is value m)"
  by (induction data limit "is" "value" m rule: read_period.induct) auto

lemma update_period_post:
  "limit \<le> length data \<Longrightarrow> post bounds_error (same_output st) (update_period data limit c st)"
  unfolding update_period_def
  by (auto simp: same_output_def intro!: post_bindR [OF read_period_post])

subsection \<open>Output\<close>

text \<open>What every step of the decompression of a chunk guarantees.\<close>

definition chunk_step :: "nat \<Rightarrow> nat \<Rightarrow> zbitmap_state \<Rightarrow> zbitmap_state buffer_result \<Rightarrow> bool" where
  "chunk_step n chunk_size st = post (failed_from st n) (\<lambda>st'. appended st st' \<and> chunk_written st' \<le> chunk_size)"

lemma chunk_fits_offset: "chunk_fits n k st \<Longrightarrow> output_offset st \<le> n"
  by (simp add: chunk_fits_def)

lemma chunk_step_refl: "chunk_fits n k st \<Longrightarrow> chunk_step n k st (Inr st)"
  by (simp add: chunk_step_def chunk_fits_def)

lemma chunk_step_bindR:
  assumes "chunk_fits n k st" "chunk_step n k st r"
    and "\<And>st'. r = Inr st' \<Longrightarrow> chunk_fits n k st' \<Longrightarrow> chunk_step n k st' (f st')"
  shows "chunk_step n k st (bindR r f)"
  unfolding chunk_step_def
proof (rule post_bindR [OF assms(2) [unfolded chunk_step_def]])
  fix st' assume st': "r = Inr st'" and app: "appended st st' \<and> chunk_written st' \<le> k"
  then have fits: "chunk_fits n k st'" using chunk_fits_appended [OF assms(1)] by blast
  show "post (failed_from st n) (\<lambda>st'. appended st st' \<and> chunk_written st' \<le> k) (f st')"
    using assms(3) [OF st' fits] unfolding chunk_step_def
    by (rule post_weaken) (use app failed_from_appended appended_trans chunk_fits_offset [OF fits] in blast)+
qed

lemma chunk_step_same:
  assumes "same_output st st'" "chunk_step n k st' r" "chunk_fits n k st"
  shows "chunk_step n k st r"
  using assms(2) unfolding chunk_step_def
proof (rule post_weaken)
  have app: "appended st st'" by (rule same_output_appended [OF assms(1)])
  have "output_offset st' \<le> n" using assms(1,3) by (simp add: same_output_def chunk_fits_def)
  then show "\<And>e. failed_from st' n e \<Longrightarrow> failed_from st n e" using failed_from_appended [OF app] by blast
  show "\<And>s. appended st' s \<and> chunk_written s \<le> k \<Longrightarrow> appended st s \<and> chunk_written s \<le> k"
    using appended_trans [OF app] by blast
qed

lemma chunk_step_reader:
  assumes "post bounds_error P r" "\<And>x. r = Inr x \<Longrightarrow> P x \<Longrightarrow> chunk_step n k st (f x)"
  shows "chunk_step n k st (bindR (with_buffer (uncompressed_data st) r) f)"
  using assms by (cases r) (auto simp: chunk_step_def failed_here)

lemma chunk_fits_same: "same_output st st' \<Longrightarrow> chunk_fits n k st \<Longrightarrow> chunk_fits n k st'"
  by (simp only: same_output_def chunk_fits_def)

lemma chunk_fits_room:
  "chunk_fits n k st \<Longrightarrow> chunk_written st < k \<Longrightarrow> output_offset st < length (uncompressed_data st)"
  unfolding chunk_fits_def by linarith

lemma appended_write:
  assumes "output_offset st < length (uncompressed_data st)"
  shows "appended st (st\<lparr>uncompressed_data := (uncompressed_data st)[output_offset st := b],
           output_offset := output_offset st + 1, chunk_written := chunk_written st + 1\<rparr>)"
  using assms by (simp add: appended_def)

lemma write_output_step:
  assumes "chunk_fits n k st" "chunk_written st < k" "same_output st st'"
  shows "chunk_step n k st (with_buffer (uncompressed_data st) (write_output b st'))"
proof -
  have room: "output_offset st' < length (uncompressed_data st')"
    using chunk_fits_room [OF assms(1,2)] assms(3) by (simp add: same_output_def)
  have "chunk_step n k st' (with_buffer (uncompressed_data st) (write_output b st'))"
    using room assms(2,3) appended_write [OF room, of b]
    by (simp add: write_output_def chunk_step_def same_output_def)
  with assms(1,3) show ?thesis using chunk_step_same by blast
qed

lemma with_buffer_bindR: "with_buffer buf (bindR r f) = bindR (with_buffer buf r) (\<lambda>x. with_buffer buf (f x))"
  by (cases r) simp_all

lemma write_bit_step:
  assumes "chunk_fits n k st" "chunk_written st < k" "chunk_end \<le> length data"
  shows "chunk_step n k st (with_buffer (uncompressed_data st)
           (if v AND push_bit i 1 \<noteq> (0 :: byte) then
              if data_pointer st \<ge> chunk_end then Inl RUNTIME_VALUE_OUT_OF_BOUNDS
              else bindR (rd data (data_pointer st)) (\<lambda>b.
                     write_output b (st\<lparr>data_pointer := data_pointer st + 1\<rparr>))
            else
              if output_offset st < period st then Inl RUNTIME_VALUE_OUT_OF_BOUNDS
              else bindR (rd (uncompressed_data st) (output_offset st - period st)) (\<lambda>b.
                     write_output b st)))"
proof -
  have failure: "chunk_step n k st (with_buffer (uncompressed_data st) (Inl RUNTIME_VALUE_OUT_OF_BOUNDS))"
    by (simp add: chunk_step_def failed_here)
  have "output_offset st - period st < length (uncompressed_data st)"
    using chunk_fits_room [OF assms(1,2)] by simp
  then show ?thesis
    using assms failure write_output_step [OF assms(1,2)] by (simp add: same_output_def)
qed

lemma write_bits_step:
  assumes "chunk_end \<le> length data" "chunk_fits n k st"
  shows "chunk_step n k st (write_bits data chunk_end k v is st)"
  using assms(2)
proof (induction "is" arbitrary: st)
  case Nil
  then show ?case by (simp add: chunk_step_refl)
next
  case (Cons i "is")
  show ?case
  proof (cases "chunk_written st = k")
    case True
    then show ?thesis using Cons.prems by (simp add: chunk_step_refl)
  next
    case False
    then have "chunk_written st < k" using Cons.prems by (simp add: chunk_fits_def)
    from chunk_step_bindR [OF Cons.prems write_bit_step [OF Cons.prems this assms(1)] Cons.IH] False
    show ?thesis by simp
  qed
qed

lemma apply_bitmap_step:
  assumes "chunk_end \<le> length data" "length bitmaps = 12" "chunk_fits n k st"
  shows "chunk_step n k st (apply_bitmap data chunk_end k bitmaps i st)"
  unfolding apply_bitmap_def
proof (rule chunk_step_reader [OF select_bitmap_post [OF assms(1,2)]], clarsimp)
  fix v c st1 assume same1: "same_output st st1"
  note fits1 = chunk_fits_same [OF same1 assms(3)]
  have "chunk_step n k st1 (bindR (with_buffer (uncompressed_data st1) (update_period data chunk_end c st1))
      (write_bits data chunk_end k v [0..<8]))"
  proof (rule chunk_step_reader [OF update_period_post [OF assms(1)]])
    fix st2 assume same2: "same_output st1 st2"
    show "chunk_step n k st1 (write_bits data chunk_end k v [0..<8] st2)"
      by (rule chunk_step_same [OF same2 write_bits_step [OF assms(1) chunk_fits_same [OF same2 fits1]] fits1])
  qed
  then show "chunk_step n k st (bindR (with_buffer (uncompressed_data st1) (update_period data chunk_end c st1))
      (write_bits data chunk_end k v [0..<8]))"
    using chunk_step_same [OF same1 _ assms(3)] by blast
qed

lemma repeat_bitmap_step:
  assumes "chunk_end \<le> length data" "length bitmaps = 12" "chunk_fits n k st"
  shows "chunk_step n k st (repeat_bitmap data chunk_end k bitmaps i m st)"
  using assms(3)
proof (induction m arbitrary: st)
  case 0
  then show ?case by (simp add: chunk_step_refl)
next
  case (Suc m)
  from chunk_step_bindR [OF Suc.prems apply_bitmap_step [OF assms(1,2) Suc.prems] Suc.IH]
  show ?case by simp
qed

lemma decompress_group_step:
  assumes "chunk_end \<le> length data" "length bitmaps = 12" "chunk_fits n k st"
  shows "chunk_step n k st (decompress_group data chunk_end k bitmaps st)"
  unfolding decompress_group_def
proof (rule chunk_step_reader [OF zbitmap_read_nibble_post [OF assms(1)]], clarsimp)
  fix i reader
  show "chunk_step n k st (bindR (with_buffer (uncompressed_data st)
            (read_repeat_count data chunk_end (k - chunk_written st) reader))
         (\<lambda>(m, reader). repeat_bitmap data chunk_end k bitmaps i m (st\<lparr>meta3_reader := reader\<rparr>)))"
  proof (rule chunk_step_reader [OF read_repeat_count_post [OF assms(1)]], clarsimp)
    fix m reader
    have same: "same_output st (st\<lparr>meta3_reader := reader\<rparr>)" by (simp add: same_output_def)
    show "chunk_step n k st (repeat_bitmap data chunk_end k bitmaps i m (st\<lparr>meta3_reader := reader\<rparr>))"
      by (rule chunk_step_same [OF same repeat_bitmap_step [OF assms(1,2) chunk_fits_same [OF same assms(3)]] assms(3)])
  qed
qed

lemma decompress_groups_step:
  assumes "chunk_end \<le> length data" "length bitmaps = 12" "chunk_fits n k st"
  shows "post (failed_from st n) (\<lambda>st'. appended st st' \<and> chunk_written st' = k)
           (decompress_groups data chunk_end k bitmaps st)"
  using assms
proof (induction data chunk_end k bitmaps st rule: decompress_groups.induct)
  case (1 data chunk_end k bitmaps st)
  show ?case
  proof (cases "chunk_written st < k")
    case True
    have group: "chunk_step n k st (decompress_group data chunk_end k bitmaps st)"
      by (rule decompress_group_step [OF "1.prems"])
    have "post (failed_from st n) (\<lambda>st'. appended st st' \<and> chunk_written st' = k)
        (bindR (decompress_group data chunk_end k bitmaps st) (decompress_groups data chunk_end k bitmaps))"
    proof (rule post_bindR [OF group [unfolded chunk_step_def]])
      fix st1 assume st1: "decompress_group data chunk_end k bitmaps st = Inr st1"
        and app: "appended st st1 \<and> chunk_written st1 \<le> k"
      have fits: "chunk_fits n k st1" using chunk_fits_appended [OF "1.prems"(3)] app by blast
      show "post (failed_from st n) (\<lambda>st'. appended st st' \<and> chunk_written st' = k)
          (decompress_groups data chunk_end k bitmaps st1)"
        using "1.IH" [OF True st1 "1.prems"(1,2) fits]
        by (rule post_weaken) (use app failed_from_appended appended_trans chunk_fits_offset [OF fits] in blast)+
    qed
    then show ?thesis using True by (simp add: decompress_groups.simps [of data chunk_end k bitmaps st])
  next
    case False
    then show ?thesis using "1.prems"(3)
      by (simp add: decompress_groups.simps [of data chunk_end k bitmaps st] chunk_fits_def)
  qed
qed

subsection \<open>Chunks\<close>

text \<open>A failure of a call that was given output offset \<open>off\<close> and capacity \<open>n\<close>.\<close>

definition failed_at :: "bytes \<Rightarrow> nat \<Rightarrow> nat \<Rightarrow> error \<times> bytes \<Rightarrow> bool" where
  "failed_at buf off n y \<longleftrightarrow> bounds_error (fst y) \<and> buffer_kept buf off n y"

definition produced :: "bytes \<Rightarrow> nat \<Rightarrow> nat \<Rightarrow> bytes \<Rightarrow> nat \<Rightarrow> bool" where
  "produced buf off n buf' off' \<longleftrightarrow> off \<le> off' \<and> off' \<le> n \<and> length buf' = length buf \<and>
     take off buf' = take off buf \<and> drop off' buf' = drop off' buf"

lemma bounds_error_lib: "bounds_error e \<Longrightarrow> lib_error e"
  by (simp add: bounds_error_def)

lemma failed_from_at: "failed_from st n y \<Longrightarrow> failed_at (uncompressed_data st) (output_offset st) n y"
  by (cases y) (simp add: failed_from_def failed_at_def buffer_kept_def bounds_error_lib)

lemma failed_at_self: "bounds_error e \<Longrightarrow> failed_at buf off n (e, buf)"
  by (simp add: failed_at_def buffer_kept_self bounds_error_lib)

lemma produced_trans:
  assumes "produced buf off n buf1 off1" "produced buf1 off1 n buf2 off2"
  shows "produced buf off n buf2 off2"
proof -
  note one = assms(1) [unfolded produced_def] and two = assms(2) [unfolded produced_def]
  have "take off buf2 = take off buf"
    using one two take_less [of off1 buf2 buf1 off] by metis
  moreover have "drop off2 buf2 = drop off2 buf"
    using one two drop_further [of off1 buf1 buf off2] by metis
  ultimately show ?thesis unfolding produced_def using one two by linarith
qed

lemma failed_at_produced:
  assumes "produced buf off n buf1 off1" "failed_at buf1 off1 n y"
  shows "failed_at buf off n y"
proof -
  obtain e buf2 where y: "y = (e, buf2)" by force
  note one = assms(1) [unfolded produced_def]
  note two = assms(2) [unfolded failed_at_def y buffer_kept_def prod.case fst_conv]
  have "take off buf2 = take off buf"
    using one two take_less [of off1 buf2 buf1 off] by metis
  moreover have "drop n buf2 = drop n buf"
    using one two drop_further [of off1 buf1 buf n] by metis
  ultimately show ?thesis
    unfolding failed_at_def y buffer_kept_def prod.case fst_conv using one two by simp
qed

lemma post_failed_at_bindR:
  assumes "post bounds_error P r" "\<And>x. r = Inr x \<Longrightarrow> P x \<Longrightarrow> post (failed_at buf off n) Q (k x)"
  shows "post (failed_at buf off n) Q (bindR (with_buffer buf r) k)"
  using assms by (cases r) (auto intro: failed_at_self)

lemma zbitmap_read_uint24_post:
  "i + 3 \<le> length data \<Longrightarrow> post bounds_error (\<lambda>_. True) (zbitmap_read_uint24_little_endian data i 3)"
  using zbitmap_read_uint24_value [of i data] by auto

lemma read_chunk_metadata_post:
  assumes "off + k \<le> length data"
  shows "post bounds_error (\<lambda>(bitmaps, st). length bitmaps = 12 \<and> uncompressed_data st = buf \<and>
           output_offset st = out \<and> chunk_written st = 0) (read_chunk_metadata data off k buf out)"
proof (cases "k < 15")
  case True
  then show ?thesis by (simp add: read_chunk_metadata_def)
next
  case False
  show ?thesis
    unfolding read_chunk_metadata_def
    using False assms
    by (auto intro!: post_bindR [OF zbitmap_read_uint24_post] post_bindR [OF read_bitmaps_post])
qed

text \<open>What the decompression of a chunk guarantees.\<close>

definition chunk_outcome :: "bytes \<Rightarrow> nat \<Rightarrow> nat \<Rightarrow> nat \<Rightarrow> (nat \<times> bytes \<times> nat) option \<Rightarrow> bool" where
  "chunk_outcome buf off n size_left r \<longleftrightarrow> (case r of None \<Rightarrow> True
     | Some (k, buf', off') \<Rightarrow> produced buf off n buf' off' \<and> k \<le> size_left)"

lemma produced_stored:
  assumes "off + length xs \<le> n" "n \<le> length buf"
  shows "produced buf off n (take off buf @ xs @ drop (off + length xs) buf) (off + length xs)"
  using assms by (simp add: produced_def)

lemma decompress_stored_post:
  assumes "pos + 6 + k \<le> length data" "out + k \<le> n" "n \<le> length buf" "6 + k \<le> m"
  shows "post (failed_at buf out n) (chunk_outcome buf out n m)
           (bindR (with_buffer buf (bindR (rd_slice data (pos + 6) k) (wr_slice buf out)))
              (\<lambda>buf. Inr (Some (k + 6, buf, out + k))))"
  using produced_stored [of out "take k (drop (pos + 6) data)" n buf] assms
  by (simp add: chunk_outcome_def add.commute)

lemma decompress_compressed_post:
  assumes "pos + k \<le> length data" "out + chunk_size \<le> n" "n \<le> length buf" "k \<le> m"
  shows "post (failed_at buf out n) (chunk_outcome buf out n m)
           (bindR (with_buffer buf (read_chunk_metadata data pos k buf out)) (\<lambda>(bitmaps, st).
              bindR (decompress_groups data (pos + k) chunk_size bitmaps st) (\<lambda>st.
                Inr (Some (k, uncompressed_data st, output_offset st)))))"
proof (rule post_failed_at_bindR [OF read_chunk_metadata_post [OF assms(1)]], clarsimp)
  fix bitmaps :: "zbitmap_bitmap list" and st :: zbitmap_state
  assume bitmaps: "length bitmaps = 12" and st: "chunk_written st = 0"
    and buf: "buf = uncompressed_data st" and out: "out = output_offset st"
  have fits: "chunk_fits n chunk_size st" using assms(2,3) st buf out by (simp add: chunk_fits_def)
  have groups: "post (failed_at buf out n) (\<lambda>st'. appended st st' \<and> chunk_written st' = chunk_size)
      (decompress_groups data (pos + k) chunk_size bitmaps st)"
    using decompress_groups_step [OF assms(1) bitmaps fits]
    by (rule post_weaken) (simp_all add: buf out failed_from_at)
  have "produced buf out n (uncompressed_data st') (output_offset st')" if "appended st st'" "chunk_written st' = chunk_size" for st'
    using appendedD [OF that(1)] that(2) assms(2) st buf out by (simp add: produced_def)
  then show "post (failed_at (uncompressed_data st) (output_offset st) n)
      (chunk_outcome (uncompressed_data st) (output_offset st) n m)
      (bindR (decompress_groups data (pos + k) chunk_size bitmaps st) (\<lambda>st. Inr (Some (k, uncompressed_data st, output_offset st))))"
    unfolding buf [symmetric] out [symmetric]
    by (intro post_bindR [OF groups]) (simp add: chunk_outcome_def assms(4))
qed

lemma decompress_chunk_post:
  assumes "data_size \<le> length data" "n \<le> length buf" "out \<le> n"
  shows "post (failed_at buf out n) (chunk_outcome buf out n (data_size - pos))
           (decompress_chunk data data_size pos n buf out)"
proof (cases "data_size - pos < 6")
  case True
  then show ?thesis by (simp add: decompress_chunk_def failed_at_self)
next
  case False
  then have pos: "pos + 6 \<le> length data" using assms(1) by linarith
  obtain w1 w2 where w: "zbitmap_read_uint24_little_endian data pos 3 = Inr w1"
    "zbitmap_read_uint24_little_endian data (pos + 3) 3 = Inr w2"
    using zbitmap_read_uint24_value [of pos data] zbitmap_read_uint24_value [of "pos + 3" data] pos by auto
  let ?k = "unat w1" and ?size = "unat w2"
  consider "?k < 6 \<or> ?size > 0x8000 \<or> ?k > (data_size - pos) mod 2 ^ 32 \<or> (?size \<noteq> 0 \<and> ?size > n - out)"
    | "6 \<le> ?k" "?size = 0" "?size \<le> 0x8000" "?k \<le> (data_size - pos) mod 2 ^ 32"
    | "6 \<le> ?k" "?size \<noteq> 0" "?size \<le> 0x8000" "?k \<le> (data_size - pos) mod 2 ^ 32" "?size \<le> n - out"
    by linarith
  then show ?thesis
  proof cases
    case 1
    then show ?thesis using False w by (auto simp: decompress_chunk_def failed_at_self Let_def)
  next
    case 2
    then show ?thesis using False w by (simp add: decompress_chunk_def chunk_outcome_def)
  next
    case 3
    have "(data_size - pos) mod 2 ^ 32 \<le> data_size - pos" by (rule mod_less_eq_dividend)
    with 3(4) have k: "?k \<le> data_size - pos" by (rule order_trans)
    then have ends: "pos + ?k \<le> length data" using assms(1) False by linarith
    have room: "out + ?size \<le> n" using 3(5) assms(3) by linarith
    have stored: "post (failed_at buf out n) (chunk_outcome buf out n (data_size - pos))
        (bindR (with_buffer buf (bindR (rd_slice data (pos + 6) ?size) (wr_slice buf out)))
           (\<lambda>buf. Inr (Some (?k, buf, out + ?size))))" if "?k = ?size + 6"
      using decompress_stored_post [of pos "?size" data out n buf "data_size - pos"] ends k room that assms(2)
      by (simp add: add.assoc add.commute)
    show ?thesis
      using False w 3 stored decompress_compressed_post [OF ends room assms(2) k]
      by (simp add: decompress_chunk_def Let_def)
  qed
qed

lemma decompress_chunks_post:
  assumes "data_size \<le> length data" "n \<le> length buf" "out \<le> n"
  shows "post (failed_at buf out n) (\<lambda>(buf', out'). produced buf out n buf' out')
           (decompress_chunks data data_size pos n buf out)"
  using assms
proof (induction data data_size pos n buf out rule: decompress_chunks.induct)
  case (1 data data_size pos n buf out)
  have start: "produced buf out n buf out" using "1.prems" by (simp add: produced_def)
  show ?case
  proof (cases "pos < data_size")
    case False
    then show ?thesis using start by (simp add: decompress_chunks.simps [of data data_size pos])
  next
    case True
    have "post (failed_at buf out n) (\<lambda>(buf', out'). produced buf out n buf' out')
      (case chunk of None \<Rightarrow> Inr (buf, out)
       | Some (k, buf, out) \<Rightarrow> decompress_chunks data data_size (pos + k) n buf out)"
      if chunk: "decompress_chunk data data_size pos n buf out = Inr chunk"
        "chunk_outcome buf out n (data_size - pos) chunk" for chunk
    proof (cases chunk)
      case None
      then show ?thesis using start by simp
    next
      case (Some c)
      obtain k buf1 out1 where c: "c = (k, buf1, out1)" by (cases c)
      have prod: "produced buf out n buf1 out1" using chunk(2) by (simp add: chunk_outcome_def Some c)
      then have "n \<le> length buf1" "out1 \<le> n" using "1.prems"(2) by (simp_all add: produced_def)
      from "1.IH" [OF True chunk(1) Some c [symmetric] refl "1.prems"(1) this]
      have "post (failed_at buf1 out1 n) (\<lambda>(buf', out'). produced buf1 out1 n buf' out')
          (decompress_chunks data data_size (pos + k) n buf1 out1)" by simp
      then have "post (failed_at buf out n) (\<lambda>(buf', out'). produced buf out n buf' out')
          (decompress_chunks data data_size (pos + k) n buf1 out1)"
        by (rule post_weaken) (use prod failed_at_produced produced_trans in blast)+
      then show ?thesis by (simp add: Some c)
    qed
    then show ?thesis
      unfolding decompress_chunks.simps [of data data_size pos] if_P [OF True]
      by (rule post_bindR [OF decompress_chunk_post [OF "1.prems"]])
  qed
qed

section \<open>Stored chunks\<close>

text \<open>An encoder that stores its data: a chunk of each piece, then the terminating chunk.\<close>

definition stored_chunk :: "bytes \<Rightarrow> bytes" where
  "stored_chunk xs = le_encode 3 (length xs + 6) @ le_encode 3 (length xs) @ xs"

definition zbitmap_store :: "bytes list \<Rightarrow> bytes" where
  "zbitmap_store xss = le_encode 4 0x094d425a @ concat (map stored_chunk xss) @ stored_chunk []"

lemma length_stored_chunk [simp]: "length (stored_chunk xs) = length xs + 6"
  by (simp add: stored_chunk_def)

lemma read_uint24_encoded:
  assumes "drop i data = le_encode 3 v @ rest" "v < 2 ^ 24"
  shows "\<exists>w. zbitmap_read_uint24_little_endian data i 3 = Inr w \<and> unat w = v"
proof -
  have "i + 3 \<le> length data" using arg_cong [OF assms(1), of length] by simp
  moreover have "take 3 (drop i data) = le_encode 3 v" by (simp add: assms(1))
  ultimately show ?thesis
    using zbitmap_read_uint24_value [of i data] assms(2) by auto
qed

lemma decompress_stored_chunk:
  assumes at: "drop pos data = stored_chunk xs @ rest" and small: "length xs \<le> 0x8000" "length data < 2 ^ 32"
    and room: "out + length xs \<le> n" "n \<le> length buf"
  shows "decompress_chunk data (length data) pos n buf out =
    Inr (if xs = [] then None
         else Some (length xs + 6, take out buf @ xs @ drop (out + length xs) buf, out + length xs))"
proof -
  have left: "length data - pos = length xs + 6 + length rest"
    using arg_cong [OF at, of length] by simp
  then have short: "length xs + 6 \<le> (length data - pos) mod 2 ^ 32" using small(2) by simp
  have at3: "drop (pos + 3) data = le_encode 3 (length xs) @ xs @ rest"
    using arg_cong [OF at, of "drop 3"] by (simp add: stored_chunk_def add.commute)
  have at6: "take (length xs) (drop (pos + 6) data) = xs"
    using arg_cong [OF at3, of "drop 3"] by (simp add: add.commute)
  obtain w1 w2 where w: "zbitmap_read_uint24_little_endian data pos 3 = Inr w1" "unat w1 = length xs + 6"
    "zbitmap_read_uint24_little_endian data (pos + 3) 3 = Inr w2" "unat w2 = length xs"
    using read_uint24_encoded [of pos data "length xs + 6"] read_uint24_encoded [OF at3] at small(1)
    by (auto simp: stored_chunk_def)
  have fits: "pos + 6 + length xs \<le> length data" using left by linarith
  have fits_capacity: "\<not> n - out < length xs" using room(1) by linarith
  show ?thesis
    using left short small(1) room fits fits_capacity
    by (simp add: decompress_chunk_def w at6 Let_def)
qed

lemma decompress_stored_chunks:
  assumes "drop pos data = concat (map stored_chunk xss) @ stored_chunk [] @ rest"
    and "\<forall>xs\<in>set xss. xs \<noteq> [] \<and> length xs \<le> 0x8000" "length data < 2 ^ 32"
    and "out + length (concat xss) \<le> n" "n \<le> length buf"
  shows "decompress_chunks data (length data) pos n buf out =
    Inr (take out buf @ concat xss @ drop (out + length (concat xss)) buf, out + length (concat xss))"
  using assms
proof (induction xss arbitrary: pos buf out)
  case Nil
  have "pos < length data" using arg_cong [OF Nil.prems(1), of length] by simp
  then show ?case
    using decompress_stored_chunk [of pos data "[]" rest out n buf] Nil.prems
    by (simp add: decompress_chunks.simps [of data "length data" pos])
next
  case (Cons xs xss)
  let ?buf = "take out buf @ xs @ drop (out + length xs) buf"
  have xs: "xs \<noteq> []" "length xs \<le> 0x8000" using Cons.prems(2) by simp_all
  have pos: "pos < length data" using arg_cong [OF Cons.prems(1), of length] by simp
  have chunk: "decompress_chunk data (length data) pos n buf out = Inr (Some (length xs + 6, ?buf, out + length xs))"
    using decompress_stored_chunk [of pos data xs _ out n buf] Cons.prems xs by simp
  have next_at: "drop (pos + (length xs + 6)) data = concat (map stored_chunk xss) @ stored_chunk [] @ rest"
    using arg_cong [OF Cons.prems(1), of "drop (length xs + 6)"] by (simp add: add.commute)
  have "decompress_chunks data (length data) (pos + (length xs + 6)) n ?buf (out + length xs) =
      Inr (take out buf @ concat (xs # xss) @ drop (out + length (concat (xs # xss))) buf,
           out + length (concat (xs # xss)))"
    using Cons.IH [OF next_at _ Cons.prems(3), of "out + length xs" ?buf] Cons.prems(2,4,5)
    by (simp add: ac_simps)
  then show ?case using pos chunk by (simp add: decompress_chunks.simps [of data "length data" pos])
qed

section \<open>The bytes of a bitmap\<close>

text \<open>
  The first \<open>m\<close> bits of a bitmap were expanded between two states: a set bit stands for the
  next literal, a clear bit for the byte a period earlier in the output.
\<close>

definition expanded :: "bytes \<Rightarrow> byte \<Rightarrow> nat list \<Rightarrow> nat \<Rightarrow> zbitmap_state \<Rightarrow> zbitmap_state \<Rightarrow> bool" where
  "expanded data v is m st st' \<longleftrightarrow>
     chunk_written st' = chunk_written st + m \<and> output_offset st' = output_offset st + m \<and>
     data_pointer st' = data_pointer st + length (filter (bit v) (take m is)) \<and>
     take (output_offset st) (uncompressed_data st') = take (output_offset st) (uncompressed_data st) \<and>
     length (uncompressed_data st') = length (uncompressed_data st) \<and>
     (\<forall>i<m. uncompressed_data st' ! (output_offset st + i) =
        (if bit v (is ! i) then data ! (data_pointer st + length (filter (bit v) (take i is)))
         else uncompressed_data st' ! (output_offset st + i - period st)))"

lemma nth_take_eq: "take k xs = take k ys \<Longrightarrow> i < k \<Longrightarrow> xs ! i = ys ! i"
  by (metis nth_take)

lemma expanded_Cons:
  assumes rest: "expanded data v is m st1 st'"
    and step: "chunk_written st1 = chunk_written st + 1" "output_offset st1 = output_offset st + 1"
      "data_pointer st1 = data_pointer st + (if bit v j then 1 else 0)" "period st1 = period st"
      "uncompressed_data st1 = (uncompressed_data st)[output_offset st := b]"
      "output_offset st < length (uncompressed_data st)"
    and byte: "b = (if bit v j then data ! data_pointer st else uncompressed_data st ! (output_offset st - period st))"
    and per: "0 < period st" "bit v j \<or> period st \<le> output_offset st"
  shows "expanded data v (j # is) (Suc m) st st'"
proof -
  let ?o = "output_offset st"
  note r = rest [unfolded expanded_def step]
  have kept: "take (?o + 1) (uncompressed_data st') = take (?o + 1) ((uncompressed_data st)[?o := b])"
    using r by blast
  have before: "take ?o (uncompressed_data st') = take ?o (uncompressed_data st)"
    using take_less [OF kept, of ?o] by simp
  have first: "uncompressed_data st' ! ?o = b"
    using nth_take_eq [OF kept, of ?o] step(6) by simp
  have source: "uncompressed_data st' ! (?o - period st) = uncompressed_data st ! (?o - period st)" if "\<not> bit v j"
    using nth_take_eq [OF before, of "?o - period st"] per that by simp
  have "uncompressed_data st' ! (?o + i) =
        (if bit v ((j # is) ! i) then data ! (data_pointer st + length (filter (bit v) (take i (j # is))))
         else uncompressed_data st' ! (?o + i - period st))" if "i < Suc m" for i
  proof (cases i)
    case 0
    then show ?thesis using first source byte by simp
  next
    case (Suc i')
    with that have "i' < m" by simp
    then have "uncompressed_data st' ! (?o + 1 + i') =
        (if bit v (is ! i') then data ! (data_pointer st + (if bit v j then 1 else 0) + length (filter (bit v) (take i' is)))
         else uncompressed_data st' ! (?o + 1 + i' - period st))" using r by blast
    then show ?thesis by (simp add: Suc)
  qed
  then show ?thesis using r before unfolding expanded_def by simp
qed

lemma write_bits_expanded:
  assumes "write_bits data chunk_end chunk_size v is st = Inr st'"
    and "chunk_written st \<le> chunk_size" "0 < period st" "set is \<subseteq> {..<8}"
  shows "expanded data v is (min (length is) (chunk_size - chunk_written st)) st st'"
  using assms
proof (induction "is" arbitrary: st)
  case Nil
  then show ?case by (simp add: expanded_def)
next
  case (Cons j "is")
  show ?case
  proof (cases "chunk_written st = chunk_size")
    case True
    then show ?thesis using Cons.prems by (simp add: expanded_def)
  next
    case False
    have bit: "v AND push_bit j 1 \<noteq> 0 \<longleftrightarrow> bit v j" by (simp only: bit_iff_and_push_bit_not_eq_0)
    obtain st1 where rest: "write_bits data chunk_end chunk_size v is st1 = Inr st'"
      and st1: "chunk_written st1 = chunk_written st + 1" "output_offset st1 = output_offset st + 1"
        "data_pointer st1 = data_pointer st + (if bit v j then 1 else 0)" "period st1 = period st"
        "uncompressed_data st1 = (uncompressed_data st)[output_offset st :=
           (if bit v j then data ! data_pointer st else uncompressed_data st ! (output_offset st - period st))]"
        "output_offset st < length (uncompressed_data st)"
      and per: "bit v j \<or> period st \<le> output_offset st"
      using Cons.prems(1) False unfolding write_bits.simps bit
      by (auto simp: result_simps write_output_def not_less split: if_splits)
    have "expanded data v is (min (length is) (chunk_size - chunk_written st1)) st1 st'"
      by (rule Cons.IH [OF rest]) (use Cons.prems False st1 in auto)
    from expanded_Cons [OF this st1 refl Cons.prems(3) per]
    have "expanded data v (j # is) (Suc (min (length is) (chunk_size - chunk_written st1))) st st'" .
    moreover have "Suc (min (length is) (chunk_size - chunk_written st1)) =
        min (length (j # is)) (chunk_size - chunk_written st)"
      using False Cons.prems(2) st1(1) by simp
    ultimately show ?thesis by simp
  qed
qed

section \<open>Properties\<close>

text \<open>A bitmap produces eight bytes, or what is left of the chunk: byte \<open>i\<close> is
  the next literal of the data when bit \<open>i\<close> is set, and otherwise the byte one period before it in
  the output, which may itself be a byte of the same bitmap. The data pointer advances by the
  number of literals, and earlier output is kept.\<close>

theorem write_bits_bytes:
  assumes "write_bits data chunk_end chunk_size v [0..<8] st = Inr st'"
    and "chunk_written st \<le> chunk_size" "0 < period st" and "m = min 8 (chunk_size - chunk_written st)"
  shows "output_offset st' = output_offset st + m \<and> chunk_written st' = chunk_written st + m \<and>
    data_pointer st' = data_pointer st + length (filter (bit v) [0..<m]) \<and>
    take (output_offset st) (uncompressed_data st') = take (output_offset st) (uncompressed_data st) \<and>
    (\<forall>i<m. uncompressed_data st' ! (output_offset st + i) =
       (if bit v i then data ! (data_pointer st + length (filter (bit v) [0..<i]))
        else uncompressed_data st' ! (output_offset st + i - period st)))"
proof -
  have m: "m \<le> 8" "m = min (length [0..<8]) (chunk_size - chunk_written st)" by (simp_all add: assms(4))
  have "expanded data v [0..<8] m st st'"
    unfolding m(2) by (rule write_bits_expanded [OF assms(1-3)]) auto
  moreover have "[0..<8] ! i = i" "take i [0..<8] = [0..<i]" if "i < m" for i
    using that m(1) by (simp_all add: take_upt)
  moreover have "take m [0..<8] = [0..<m]" using m(1) by (simp add: take_upt)
  ultimately show ?thesis unfolding expanded_def by simp
qed

text \<open>A state of the output for the witness: one byte written, period 1, a literal to come.\<close>

definition sample_state :: zbitmap_state where
  "sample_state = \<lparr>data_pointer = 0, meta1_pointer = 0, meta2_pointer = 0,
     meta3_reader = \<lparr>nibble_address = 0, nibble = 0\<rparr>, period = 1, uncompressed_data = [5, 0, 0],
     output_offset = 1, chunk_written = 1\<rparr>"

theorem write_bits_bytes_witness:
  "write_bits [9] 1 3 2 [0..<8] sample_state =
      Inr (sample_state\<lparr>data_pointer := 1, uncompressed_data := [5, 5, 9], output_offset := 3, chunk_written := 3\<rparr>) \<and>
   output_offset (sample_state\<lparr>data_pointer := 1, uncompressed_data := [5, 5, 9], output_offset := 3,
     chunk_written := 3\<rparr>) = output_offset sample_state + 2"
proof -
  let ?st' = "sample_state\<lparr>data_pointer := 1, uncompressed_data := [5, 5, 9], output_offset := 3, chunk_written := 3\<rparr>"
  have bits: "[0..<8] = [0, 1, 2, 3, 4, 5, 6, 7 :: nat]" by (simp add: upt_rec)
  have run: "write_bits [9] 1 3 2 [0..<8] sample_state = Inr ?st'"
    unfolding bits by (simp add: sample_state_def write_output_def cong: bindR_weak_cong)
  have "output_offset ?st' = output_offset sample_state + 2"
    by (rule write_bits_bytes [OF run, of 2, THEN conjunct1]) (simp_all add: sample_state_def)
  with run show ?thesis by blast
qed

text \<open>C5. Decompression reads only the given compressed data and writes
  only the given output: on success it reports at most the capacity and leaves the buffer after
  the output untouched; every failure is RUNTIME_VALUE_OUT_OF_BOUNDS, never an access outside an
  array, and leaves the buffer beyond the capacity untouched.\<close>

theorem zbitmap_decompress_safe:
  assumes "compressed_data_size \<le> length compressed_data" "output_capacity \<le> length buf"
  shows "case zbitmap_decompress compressed_data compressed_data_size buf output_capacity of
      Inr (buf', n) \<Rightarrow> n \<le> output_capacity \<and> length buf' = length buf \<and> drop n buf' = drop n buf
    | Inl (e, buf') \<Rightarrow> e = RUNTIME_VALUE_OUT_OF_BOUNDS \<and> length buf' = length buf \<and>
        drop output_capacity buf' = drop output_capacity buf"
proof -
  have "post (failed_at buf 0 output_capacity) (\<lambda>(buf', n). produced buf 0 output_capacity buf' n)
      (zbitmap_decompress compressed_data compressed_data_size buf output_capacity)"
    using decompress_chunks_post [OF assms, of 0] assms
    by (simp add: zbitmap_decompress_def failed_at_self)
  then show ?thesis
    by (auto simp: post_def failed_at_def bounds_error_def buffer_kept_def produced_def split: sum.splits)
qed

theorem zbitmap_decompress_safe_witness:
  "case zbitmap_decompress (zbitmap_store [[1, 2, 3]]) 4 [0, 0] 2 of
      Inr (buf', n) \<Rightarrow> n \<le> 2 \<and> length buf' = length [0 :: byte, 0] \<and> drop n buf' = drop n [0, 0]
    | Inl (e, buf') \<Rightarrow> e = RUNTIME_VALUE_OUT_OF_BOUNDS \<and> length buf' = length [0 :: byte, 0] \<and>
        drop 2 buf' = drop 2 [0, 0]"
  by (rule zbitmap_decompress_safe) (simp_all add: zbitmap_store_def)

text \<open>Data stored in chunks of at most 32768 bytes after the
  \<open>ZBM\<close> signature decompresses to itself, at the start of the output buffer, and anything that
  follows the terminating chunk is ignored.\<close>

theorem zbitmap_store_roundtrip:
  assumes "\<forall>xs\<in>set xss. xs \<noteq> [] \<and> length xs \<le> 0x8000"
    and "length (zbitmap_store xss @ rest) < 2 ^ 32" "length (concat xss) \<le> output_capacity"
    and "output_capacity \<le> length buf"
  shows "zbitmap_decompress (zbitmap_store xss @ rest) (length (zbitmap_store xss @ rest)) buf output_capacity =
    Inr (concat xss @ drop (length (concat xss)) buf, length (concat xss))"
proof -
  let ?data = "zbitmap_store xss @ rest"
  have magic: "take 4 ?data = le_encode 4 0x094d425a" "4 \<le> length ?data"
    and at: "drop 4 ?data = concat (map stored_chunk xss) @ stored_chunk [] @ rest"
    by (simp_all add: zbitmap_store_def)
  show ?thesis
    using decompress_stored_chunks [OF at assms(1,2) _ assms(4), of 0] assms(3) magic
    by (simp add: zbitmap_decompress_def)
qed

theorem zbitmap_store_roundtrip_witness:
  "zbitmap_decompress (zbitmap_store [[1, 2, 3]] @ [7]) (length (zbitmap_store [[1, 2, 3]] @ [7])) [0, 0, 0, 9] 4 =
    Inr (concat [[1, 2, 3]] @ drop (length (concat [[1 :: byte, 2, 3]])) [0, 0, 0, 9], length (concat [[1 :: byte, 2, 3]]))"
  by (rule zbitmap_store_roundtrip) (simp_all add: zbitmap_store_def)

end
