(* ===== verification/Btree.thy ===== *)
theory Btree
  imports Apfs_Prelude
begin

text \<open>
  B-tree nodes: the node header, the footer of a root node, entries and the node itself
  (\<open>libfsapfs_btree_node_header.c\<close>, \<open>libfsapfs_btree_footer.c\<close>, \<open>libfsapfs_btree_entry.c\<close>,
  \<open>libfsapfs_btree_node.c\<close>). A pointer into a buffer is the buffer with an offset. The 16-bit
  arithmetic on offsets is written out. An array of \<open>libcdata\<close> is a list.
\<close>

declare add_2_eq_Suc [simp del] add_2_eq_Suc' [simp del]

section \<open>Node header and footer\<close>

record btree_node_header =
  flags :: nat
  level :: nat
  number_of_keys :: nat
  entries_data_offset :: nat
  entries_data_size :: nat
  unused_data_offset :: nat
  unused_data_size :: nat

text \<open>The structure is allocated and cleared.\<close>

definition btree_node_header_initialize :: "btree_node_header option \<Rightarrow> btree_node_header result" where
  "btree_node_header_initialize btree_node_header =
     (if btree_node_header \<noteq> None then Inl RUNTIME_VALUE_ALREADY_SET
      else Inr \<lparr>flags = 0, level = 0, number_of_keys = 0, entries_data_offset = 0,
                entries_data_size = 0, unused_data_offset = 0, unused_data_size = 0\<rparr>)"

text \<open>The number of keys is stored in 32 bits but kept in a 16-bit variable.\<close>

definition btree_node_header_read_data ::
    "btree_node_header \<Rightarrow> bytes \<Rightarrow> nat \<Rightarrow> nat \<Rightarrow> btree_node_header result" where
  "btree_node_header_read_data btree_node_header data i data_size =
     (if data_size < 24 \<or> data_size > SSIZE_MAX then Inl RUNTIME_VALUE_OUT_OF_BOUNDS
      else
        bindR (rd_u16_le data i) (\<lambda>flags_value.
        bindR (rd_u16_le data (i + 2)) (\<lambda>level_value.
        bindR (rd_u32_le data (i + 4)) (\<lambda>number_of_keys_value.
        bindR (rd_u16_le data (i + 8)) (\<lambda>entries_data_offset_value.
        bindR (rd_u16_le data (i + 10)) (\<lambda>entries_data_size_value.
        bindR (rd_u16_le data (i + 12)) (\<lambda>unused_data_offset_value.
        bindR (rd_u16_le data (i + 14)) (\<lambda>unused_data_size_value.
          Inr (btree_node_header\<lparr>flags := flags_value, level := level_value,
            number_of_keys := number_of_keys_value mod 65536,
            entries_data_offset := entries_data_offset_value,
            entries_data_size := entries_data_size_value,
            unused_data_offset := unused_data_offset_value,
            unused_data_size := unused_data_size_value\<rparr>)))))))))"

record btree_footer =
  footer_flags :: nat
  node_size :: nat
  key_size :: nat
  value_size :: nat
  maximum_key_size :: nat
  maximum_value_size :: nat

definition btree_footer_initialize :: "btree_footer option \<Rightarrow> btree_footer result" where
  "btree_footer_initialize btree_footer =
     (if btree_footer \<noteq> None then Inl RUNTIME_VALUE_ALREADY_SET
      else Inr \<lparr>footer_flags = 0, node_size = 0, key_size = 0, value_size = 0,
                maximum_key_size = 0, maximum_value_size = 0\<rparr>)"

definition btree_footer_read_data :: "btree_footer \<Rightarrow> bytes \<Rightarrow> nat \<Rightarrow> nat \<Rightarrow> btree_footer result" where
  "btree_footer_read_data btree_footer data i data_size =
     (if data_size < 40 \<or> data_size > SSIZE_MAX then Inl RUNTIME_VALUE_OUT_OF_BOUNDS
      else
        bindR (rd_u32_le data i) (\<lambda>flags_value.
        bindR (rd_u32_le data (i + 4)) (\<lambda>node_size_value.
        bindR (rd_u32_le data (i + 8)) (\<lambda>key_size_value.
        bindR (rd_u32_le data (i + 12)) (\<lambda>value_size_value.
        bindR (rd_u32_le data (i + 16)) (\<lambda>maximum_key_size_value.
        bindR (rd_u32_le data (i + 20)) (\<lambda>maximum_value_size_value.
          Inr (btree_footer\<lparr>footer_flags := flags_value, node_size := node_size_value,
            key_size := key_size_value, value_size := value_size_value,
            maximum_key_size := maximum_key_size_value,
            maximum_value_size := maximum_value_size_value\<rparr>))))))))"

section \<open>Entries\<close>

text \<open>Data that was not set is \<open>None\<close>, which stands for the NULL pointer.\<close>

record btree_entry =
  key_data :: "bytes option"
  key_data_size :: nat
  value_data :: "bytes option"
  value_data_size :: nat

definition btree_entry_initialize :: "btree_entry option \<Rightarrow> btree_entry result" where
  "btree_entry_initialize btree_entry =
     (if btree_entry \<noteq> None then Inl RUNTIME_VALUE_ALREADY_SET
      else Inr \<lparr>key_data = None, key_data_size = 0, value_data = None, value_data_size = 0\<rparr>)"

definition btree_entry_set_key_data :: "btree_entry \<Rightarrow> bytes \<Rightarrow> nat \<Rightarrow> nat \<Rightarrow> btree_entry result" where
  "btree_entry_set_key_data btree_entry data i data_size =
     (if key_data btree_entry \<noteq> None then Inl RUNTIME_VALUE_ALREADY_SET
      else if data_size > 0 then
        if data_size > MEMORY_MAXIMUM_ALLOCATION_SIZE then Inl ARGUMENT_VALUE_EXCEEDS_MAXIMUM
        else bindR (rd_slice data i data_size) (\<lambda>copy.
               Inr (btree_entry\<lparr>key_data := Some copy, key_data_size := data_size\<rparr>))
      else Inr btree_entry)"

definition btree_entry_set_value_data :: "btree_entry \<Rightarrow> bytes \<Rightarrow> nat \<Rightarrow> nat \<Rightarrow> btree_entry result" where
  "btree_entry_set_value_data btree_entry data i data_size =
     (if value_data btree_entry \<noteq> None then Inl RUNTIME_VALUE_ALREADY_SET
      else if data_size > MEMORY_MAXIMUM_ALLOCATION_SIZE then Inl ARGUMENT_VALUE_EXCEEDS_MAXIMUM
      else if data_size > 0 then
        bindR (rd_slice data i data_size) (\<lambda>copy.
          Inr (btree_entry\<lparr>value_data := Some copy, value_data_size := data_size\<rparr>))
      else Inr btree_entry)"

section \<open>Nodes\<close>

record btree_node =
  object_type :: nat
  object_subtype :: nat
  node_header :: "btree_node_header option"
  footer :: "btree_footer option"
  entries_array :: "btree_entry list"

definition btree_node_initialize :: "btree_node option \<Rightarrow> btree_node result" where
  "btree_node_initialize btree_node =
     (if btree_node \<noteq> None then Inl RUNTIME_VALUE_ALREADY_SET
      else Inr \<lparr>object_type = 0, object_subtype = 0, node_header = None, footer = None,
                entries_array = []\<rparr>)"

definition btree_node_read_object_data :: "btree_node \<Rightarrow> bytes \<Rightarrow> nat \<Rightarrow> btree_node result" where
  "btree_node_read_object_data btree_node data data_size =
     (if data_size < 32 \<or> data_size > SSIZE_MAX then Inl RUNTIME_VALUE_OUT_OF_BOUNDS
      else
        bindR (rd_u32_le data 24) (\<lambda>type_value.
          let masked_type = type_value AND 0x0ffffff
          in if masked_type \<noteq> 0 \<and> masked_type \<noteq> 2 \<and> masked_type \<noteq> 3 then Inl RUNTIME_UNSUPPORTED_VALUE
             else bindR (rd_u32_le data 28) (\<lambda>subtype_value.
                    Inr (btree_node\<lparr>object_type := type_value, object_subtype := subtype_value\<rparr>))))"

text \<open>The sizes of keys and values of a node with entries of fixed size.\<close>

definition fixed_entry_sizes :: "nat \<Rightarrow> nat \<Rightarrow> (nat \<times> nat) result" where
  "fixed_entry_sizes subtype node_flags =
     (let sizes = (if subtype = 0x0b then Inr (16, 16) else if subtype = 0x1f then Inr (16, 16)
                   else Inl RUNTIME_UNSUPPORTED_VALUE)
      in bindR sizes (\<lambda>(key_data_size, value_data_size).
           Inr (key_data_size, if node_flags AND 0x0002 = 0 then 8 else value_data_size)))"

text \<open>A row of the entries table: the offsets and sizes of the key and the value.\<close>

definition read_entry_location ::
    "nat \<Rightarrow> nat \<Rightarrow> bytes \<Rightarrow> nat \<Rightarrow> (nat \<times> nat \<times> nat \<times> nat) result" where
  "read_entry_location subtype node_flags data i =
     (if node_flags AND 0x0004 = 0 then
        bindR (rd_u16_le data i) (\<lambda>key_data_offset.
        bindR (rd_u16_le data (i + 2)) (\<lambda>key_data_size.
        bindR (rd_u16_le data (i + 4)) (\<lambda>value_data_offset.
        bindR (rd_u16_le data (i + 6)) (\<lambda>value_data_size.
          Inr (key_data_offset, key_data_size, value_data_offset, value_data_size)))))
      else
        bindR (rd_u16_le data i) (\<lambda>key_data_offset.
        bindR (rd_u16_le data (i + 2)) (\<lambda>value_data_offset.
        bindR (fixed_entry_sizes subtype node_flags) (\<lambda>(key_data_size, value_data_size).
          Inr (key_data_offset, key_data_size, value_data_offset, value_data_size)))))"

text \<open>
  The entry at offset \<open>i\<close> of the table. Keys are addressed from the end of the table, values
  backwards from the footer; both sums wrap at 16 bits.
\<close>

definition read_node_entry ::
    "btree_node_header \<Rightarrow> nat \<Rightarrow> bytes \<Rightarrow> nat \<Rightarrow> nat \<Rightarrow> nat \<Rightarrow> nat \<Rightarrow> btree_entry result" where
  "read_node_entry header subtype data data_size entries_offset footer_offset i =
     bindR (read_entry_location subtype (flags header) data i)
       (\<lambda>(key_offset, key_data_size, value_offset, value_data_size).
       let key_data_offset = (key_offset + entries_offset + entries_data_size header) mod 65536
       in if key_data_offset > data_size \<or> key_data_size > data_size - key_data_offset
          then Inl RUNTIME_VALUE_OUT_OF_BOUNDS
          else
            let value_data_offset = (footer_offset + 65536 - value_offset) mod 65536
            in if value_data_offset > data_size \<or> value_data_size > data_size - value_data_offset
               then Inl RUNTIME_VALUE_OUT_OF_BOUNDS
               else
                 bindR (btree_entry_initialize None) (\<lambda>btree_entry.
                 bindR (btree_entry_set_key_data btree_entry data key_data_offset key_data_size) (\<lambda>btree_entry.
                   btree_entry_set_value_data btree_entry data value_data_offset value_data_size)))"

definition entry_data_size :: "nat \<Rightarrow> nat" where
  "entry_data_size node_flags = (if node_flags AND 0x0004 = 0 then 8 else 4)"

text \<open>The entries from offset \<open>i\<close> of the table on are appended to the array.\<close>

fun read_node_entries ::
    "btree_node_header \<Rightarrow> nat \<Rightarrow> bytes \<Rightarrow> nat \<Rightarrow> nat \<Rightarrow> nat \<Rightarrow> nat \<Rightarrow> nat \<Rightarrow> btree_entry list
     \<Rightarrow> btree_entry list result" where
  "read_node_entries header subtype data data_size entries_offset footer_offset 0 i entries = Inr entries"
| "read_node_entries header subtype data data_size entries_offset footer_offset (Suc n) i entries =
     bindR (read_node_entry header subtype data data_size entries_offset footer_offset i) (\<lambda>btree_entry.
       read_node_entries header subtype data data_size entries_offset footer_offset n
         (i + entry_data_size (flags header)) (entries @ [btree_entry]))"

text \<open>The header of a node with the checks of its offsets and sizes.\<close>

definition read_node_header :: "bytes \<Rightarrow> nat \<Rightarrow> btree_node_header result" where
  "read_node_header data data_size =
     bindR (btree_node_header_initialize None) (\<lambda>header.
     bindR (btree_node_header_read_data header data 32 24) (\<lambda>header.
       let remaining_data_size = data_size - 96
       in if entries_data_offset header \<ge> remaining_data_size then Inl RUNTIME_VALUE_OUT_OF_BOUNDS
          else
            let remaining_data_size = remaining_data_size - entries_data_offset header
            in if entries_data_size header > remaining_data_size then Inl RUNTIME_VALUE_OUT_OF_BOUNDS
               else
                 let remaining_data_size = remaining_data_size - entries_data_size header
                 in if unused_data_offset header \<ge> remaining_data_size then Inl RUNTIME_VALUE_OUT_OF_BOUNDS
                    else Inr header))"

text \<open>The footer of a root node, and the offset that values are addressed from.\<close>

definition read_node_footer ::
    "btree_footer option \<Rightarrow> nat \<Rightarrow> bytes \<Rightarrow> nat \<Rightarrow> (btree_footer option \<times> nat) result" where
  "read_node_footer current_footer node_flags data data_size =
     (let footer_offset = data_size mod 65536
      in if node_flags AND 0x0001 \<noteq> 0 then
           bindR (btree_footer_initialize current_footer) (\<lambda>footer.
           bindR (btree_footer_read_data footer data (data_size - 40) 40) (\<lambda>footer.
             Inr (Some footer, (footer_offset + 65536 - 40) mod 65536)))
         else Inr (current_footer, footer_offset))"

text \<open>A node that could not be read is freed by every caller, so an error carries no node.\<close>

definition btree_node_read_data :: "btree_node \<Rightarrow> bytes \<Rightarrow> nat \<Rightarrow> btree_node result" where
  "btree_node_read_data btree_node data data_size =
     (if node_header btree_node \<noteq> None then Inl RUNTIME_VALUE_ALREADY_SET
      else if data_size < 96 \<or> data_size > SSIZE_MAX then Inl RUNTIME_VALUE_OUT_OF_BOUNDS
      else
        bindR (btree_node_read_object_data btree_node data data_size) (\<lambda>btree_node.
        bindR (read_node_header data data_size) (\<lambda>header.
        bindR (read_node_footer (footer btree_node) (flags header) data data_size) (\<lambda>(footer, footer_offset).
          if number_of_keys header > entries_data_size header div entry_data_size (flags header)
          then Inl RUNTIME_VALUE_OUT_OF_BOUNDS
          else
            bindR (read_node_entries header (object_subtype btree_node) data data_size
                     ((entries_data_offset header + 56) mod 65536) footer_offset
                     (number_of_keys header) (56 + entries_data_offset header)
                     (entries_array btree_node)) (\<lambda>entries.
              Inr (btree_node\<lparr>node_header := Some header, footer := footer, entries_array := entries\<rparr>))))))"

definition btree_node_is_leaf_node :: "btree_node \<Rightarrow> nat result" where
  "btree_node_is_leaf_node btree_node =
     (case node_header btree_node of
        None \<Rightarrow> Inl RUNTIME_VALUE_MISSING
      | Some header \<Rightarrow> Inr (flags header AND 0x0002))"

definition btree_node_get_number_of_entries :: "btree_node \<Rightarrow> nat result" where
  "btree_node_get_number_of_entries btree_node = Inr (length (entries_array btree_node))"

definition btree_node_get_entry_by_index :: "btree_node \<Rightarrow> nat \<Rightarrow> btree_entry result" where
  "btree_node_get_entry_by_index btree_node entry_index =
     (if entry_index < length (entries_array btree_node) then Inr (entries_array btree_node ! entry_index)
      else Inl RUNTIME_GET_FAILED)"

section \<open>Safety\<close>

text \<open>
  An entry of a node is a copy of a key and a value that lie in the first \<open>n\<close> bytes of the
  data.
\<close>

definition data_at :: "bytes \<Rightarrow> nat \<Rightarrow> bytes option \<Rightarrow> nat \<Rightarrow> bool" where
  "data_at data n d k \<longleftrightarrow> (if k = 0 then d = None
     else \<exists>i. i + k \<le> n \<and> d = Some (take k (drop i data)))"

definition entry_from :: "bytes \<Rightarrow> nat \<Rightarrow> btree_entry \<Rightarrow> bool" where
  "entry_from data n e \<longleftrightarrow> data_at data n (key_data e) (key_data_size e) \<and>
     data_at data n (value_data e) (value_data_size e)"

lemma data_at_length: "data_at data n d k \<Longrightarrow> n \<le> length data \<Longrightarrow> d = Some xs \<Longrightarrow> length xs = k"
  by (auto simp: data_at_def split: if_splits)

lemma fixed_entry_sizes_post:
  "post lib_error (\<lambda>(k, v). k = 16 \<and> v = (if node_flags AND 2 = 0 then 8 else 16)) (fixed_entry_sizes subtype node_flags)"
  by (simp add: fixed_entry_sizes_def Let_def)

lemma read_entry_location_post:
  assumes "i + entry_data_size node_flags \<le> length data"
  shows "post lib_error (\<lambda>(ko, k, vo, v). node_flags AND 4 \<noteq> 0 \<longrightarrow>
           k = 16 \<and> v = (if node_flags AND 2 = 0 then 8 else 16) \<and> vo < 65536)
           (read_entry_location subtype node_flags data i)"
proof (cases "node_flags AND 4 = 0")
  case True
  then show ?thesis using assms by (simp add: read_entry_location_def entry_data_size_def)
next
  case False
  have "le_value (take 2 (drop (i + 2) data)) < 65536"
    using le_value_bound [of "take 2 (drop (i + 2) data)"] assms False by (simp add: entry_data_size_def)
  then show ?thesis
    using assms False
    by (auto simp: read_entry_location_def entry_data_size_def intro!: post_bindR [OF fixed_entry_sizes_post])
qed

text \<open>The sizes of the entries of a node.\<close>

definition entry_sizes_ok :: "nat \<Rightarrow> btree_entry \<Rightarrow> bool" where
  "entry_sizes_ok node_flags e \<longleftrightarrow> (node_flags AND 4 \<noteq> 0 \<longrightarrow>
     key_data_size e = 16 \<and> value_data_size e = (if node_flags AND 2 = 0 then 8 else 16))"

lemma set_entry_data_post:
  assumes "ko + k \<le> n" "vo + v \<le> n" "n \<le> length data"
  shows "post lib_error (\<lambda>e. entry_from data n e \<and> key_data_size e = k \<and> value_data_size e = v)
    (bindR (btree_entry_initialize None) (\<lambda>e. bindR (btree_entry_set_key_data e data ko k) (\<lambda>e.
       btree_entry_set_value_data e data vo v)))"
  using assms
  by (auto simp: btree_entry_initialize_def btree_entry_set_key_data_def btree_entry_set_value_data_def
      entry_from_def data_at_def)

lemma read_node_entry_post:
  assumes "i + entry_data_size (flags header) \<le> length data" "data_size \<le> length data"
  shows "post lib_error (\<lambda>e. entry_from data data_size e \<and> entry_sizes_ok (flags header) e)
           (read_node_entry header subtype data data_size entries_offset footer_offset i)"
  unfolding read_node_entry_def
proof (rule post_bindR [OF read_entry_location_post [OF assms(1)]], clarify)
  fix ko k vo v :: nat
  assume sizes: "flags header AND 4 \<noteq> 0 \<longrightarrow> k = 16 \<and> v = (if flags header AND 2 = 0 then 8 else 16) \<and> vo < 65536"
  let ?ko = "(ko + entries_offset + entries_data_size header) mod 65536"
    and ?vo = "(footer_offset + 65536 - vo) mod 65536"
  let ?P = "\<lambda>e. entry_from data data_size e \<and> entry_sizes_ok (flags header) e"
  have "post lib_error ?P (bindR (btree_entry_initialize None) (\<lambda>e. bindR (btree_entry_set_key_data e data ?ko k) (\<lambda>e.
          btree_entry_set_value_data e data ?vo v)))"
    if "?ko \<le> data_size" "k \<le> data_size - ?ko" "?vo \<le> data_size" "v \<le> data_size - ?vo"
  proof (rule post_weaken [OF set_entry_data_post])
    show "?ko + k \<le> data_size" "?vo + v \<le> data_size" using that by linarith+
    show "data_size \<le> length data" by (rule assms(2))
  qed (use sizes in \<open>auto simp: entry_sizes_ok_def\<close>)
  then show "post lib_error ?P
     (let key_data_offset = ?ko
       in if key_data_offset > data_size \<or> k > data_size - key_data_offset
          then Inl RUNTIME_VALUE_OUT_OF_BOUNDS
          else
            let value_data_offset = ?vo
            in if value_data_offset > data_size \<or> v > data_size - value_data_offset
               then Inl RUNTIME_VALUE_OUT_OF_BOUNDS
               else bindR (btree_entry_initialize None) (\<lambda>btree_entry.
                 bindR (btree_entry_set_key_data btree_entry data key_data_offset k) (\<lambda>btree_entry.
                   btree_entry_set_value_data btree_entry data value_data_offset v)))"
    unfolding Let_def by (auto simp: not_less)
qed

lemma read_node_entries_post:
  assumes "i + n * entry_data_size (flags header) \<le> length data" "data_size \<le> length data"
    and "\<forall>e\<in>set es. entry_from data data_size e \<and> entry_sizes_ok (flags header) e"
  shows "post lib_error (\<lambda>es'. length es' = length es + n \<and>
           (\<forall>e\<in>set es'. entry_from data data_size e \<and> entry_sizes_ok (flags header) e))
           (read_node_entries header subtype data data_size entries_offset footer_offset n i es)"
  using assms(1,3)
proof (induction n arbitrary: i es)
  case (Suc n)
  let ?P = "\<lambda>e. entry_from data data_size e \<and> entry_sizes_ok (flags header) e"
  have at: "i + entry_data_size (flags header) \<le> length data" using Suc.prems(1) by simp
  show ?case
    unfolding read_node_entries.simps
  proof (rule post_bindR [OF read_node_entry_post [OF at assms(2)]])
    fix e assume "?P e"
    then have "\<forall>e\<in>set (es @ [e]). ?P e" using Suc.prems(2) by auto
    moreover have "i + entry_data_size (flags header) + n * entry_data_size (flags header) \<le> length data"
      using Suc.prems(1) by simp
    ultimately have "post lib_error (\<lambda>es'. length es' = length (es @ [e]) + n \<and> (\<forall>e\<in>set es'. ?P e))
        (read_node_entries header subtype data data_size entries_offset footer_offset n
           (i + entry_data_size (flags header)) (es @ [e]))"
      by (intro Suc.IH)
    then show "post lib_error (\<lambda>es'. length es' = length es + Suc n \<and> (\<forall>e\<in>set es'. ?P e))
        (read_node_entries header subtype data data_size entries_offset footer_offset n
           (i + entry_data_size (flags header)) (es @ [e]))" by simp
  qed
qed simp

lemma read_node_header_post:
  assumes "96 \<le> data_size" "data_size \<le> length data"
  shows "post lib_error (\<lambda>h. 96 + entries_data_offset h + entries_data_size h \<le> data_size \<and> number_of_keys h < 65536)
           (read_node_header data data_size)"
  using assms
  by (auto simp: read_node_header_def btree_node_header_initialize_def btree_node_header_read_data_def Let_def SSIZE_MAX_def)

lemma read_node_footer_post:
  assumes "40 \<le> data_size" "data_size \<le> length data"
  shows "post lib_error (\<lambda>(f, off). f \<noteq> None \<longleftrightarrow> node_flags AND 1 \<noteq> 0) (read_node_footer None node_flags data data_size)"
  using assms
  by (auto simp: read_node_footer_def btree_footer_initialize_def btree_footer_read_data_def Let_def SSIZE_MAX_def)

lemma btree_node_read_object_data_post:
  assumes "32 \<le> length data"
  shows "post lib_error (\<lambda>n. node_header n = node_header m \<and> footer n = footer m \<and> entries_array n = entries_array m)
           (btree_node_read_object_data m data data_size)"
  using assms by (auto simp: btree_node_read_object_data_def Let_def)

text \<open>What a node that was read from data satisfies.\<close>

definition node_from :: "bytes \<Rightarrow> nat \<Rightarrow> btree_node \<Rightarrow> bool" where
  "node_from data n node \<longleftrightarrow> (\<exists>h. node_header node = Some h \<and>
     length (entries_array node) = number_of_keys h \<and> number_of_keys h < 65536 \<and>
     (footer node \<noteq> None \<longleftrightarrow> flags h AND 1 \<noteq> 0) \<and>
     (\<forall>e\<in>set (entries_array node). entry_from data n e \<and> entry_sizes_ok (flags h) e))"

lemma btree_node_read_data_post:
  assumes "data_size \<le> length data" "btree_node_initialize None = Inr m"
  shows "post lib_error (node_from data data_size) (btree_node_read_data m data data_size)"
proof (cases "data_size < 96 \<or> data_size > SSIZE_MAX")
  case True
  then show ?thesis using assms(2) by (auto simp: btree_node_read_data_def btree_node_initialize_def)
next
  case False
  have m: "node_header m = None" "footer m = None" "entries_array m = []"
    using assms(2) by (auto simp: btree_node_initialize_def)
  have entries: "post lib_error (\<lambda>es. length es = number_of_keys h \<and>
         (\<forall>e\<in>set es. entry_from data data_size e \<and> entry_sizes_ok (flags h) e))
       (read_node_entries h subtype data data_size eo fo (number_of_keys h) (56 + entries_data_offset h) [])"
    if h: "96 + entries_data_offset h + entries_data_size h \<le> data_size"
      "number_of_keys h \<le> entries_data_size h div entry_data_size (flags h)" for h subtype eo fo
  proof -
    have "number_of_keys h * entry_data_size (flags h) \<le> entries_data_size h"
      using mult_le_mono1 [OF h(2), of "entry_data_size (flags h)"] div_times_less_eq_dividend order_trans by blast
    then have "56 + entries_data_offset h + number_of_keys h * entry_data_size (flags h) \<le> length data"
      using h(1) assms(1) by linarith
    from read_node_entries_post [OF this assms(1), of "[]"] show ?thesis by simp
  qed
  have long: "32 \<le> length data" "96 \<le> data_size" "40 \<le> data_size" using False assms(1) by linarith+
  have rest: "post lib_error (node_from data data_size)
      (if number_of_keys h > entries_data_size h div entry_data_size (flags h) then Inl RUNTIME_VALUE_OUT_OF_BOUNDS
       else bindR (read_node_entries h (object_subtype m1) data data_size eo fo
                (number_of_keys h) (56 + entries_data_offset h) (entries_array m1)) (\<lambda>entries.
              Inr (m1\<lparr>node_header := Some h, footer := f, entries_array := entries\<rparr>)))"
    if "entries_array m1 = []" "96 + entries_data_offset h + entries_data_size h \<le> data_size \<and> number_of_keys h < 65536"
      "f \<noteq> None \<longleftrightarrow> flags h AND 1 \<noteq> 0" for m1 h eo f fo
    using that by (auto simp: node_from_def not_less intro!: post_bindR [OF entries])
  have "post lib_error (node_from data data_size) (bindR (read_node_footer (footer m1) (flags h) data data_size) (\<lambda>(f, fo).
      if number_of_keys h > entries_data_size h div entry_data_size (flags h) then Inl RUNTIME_VALUE_OUT_OF_BOUNDS
      else bindR (read_node_entries h (object_subtype m1) data data_size eo fo
             (number_of_keys h) (56 + entries_data_offset h) (entries_array m1)) (\<lambda>entries.
           Inr (m1\<lparr>node_header := Some h, footer := f, entries_array := entries\<rparr>))))"
    if "entries_array m1 = []" "footer m1 = None"
      "96 + entries_data_offset h + entries_data_size h \<le> data_size \<and> number_of_keys h < 65536" for m1 h eo
    unfolding that(2)
    by (rule post_bindR [OF read_node_footer_post [OF long(3) assms(1)]]) (clarify, rule rest [OF that(1,3)])
  then show ?thesis
    unfolding btree_node_read_data_def using False m
    by (auto intro!: post_bindR [OF btree_node_read_object_data_post [OF long(1), of m]]
          post_bindR [OF read_node_header_post [OF long(2) assms(1)]])
qed

section \<open>Writing nodes\<close>

text \<open>
  A writer of nodes: the table of locations, the keys, unused space, the values from the end
  backwards, and the footer of a root node. \<open>key_pos\<close> and \<open>value_pos\<close> are the space that the
  keys and the values before an entry take.
\<close>

definition encode_location :: "bool \<Rightarrow> nat \<Rightarrow> nat \<Rightarrow> nat \<Rightarrow> nat \<Rightarrow> bytes" where
  "encode_location fixed key_offset key_length value_offset value_length =
     (if fixed then le_encode 2 key_offset @ le_encode 2 value_offset
      else le_encode 2 key_offset @ le_encode 2 key_length @ le_encode 2 value_offset @ le_encode 2 value_length)"

fun encode_locations :: "bool \<Rightarrow> nat \<Rightarrow> nat \<Rightarrow> (bytes \<times> bytes) list \<Rightarrow> bytes" where
  "encode_locations fixed key_pos value_pos [] = []"
| "encode_locations fixed key_pos value_pos ((k, v) # kvs) =
     encode_location fixed key_pos (length k) (value_pos + length v) (length v) @
     encode_locations fixed (key_pos + length k) (value_pos + length v) kvs"

definition encode_footer :: "btree_footer \<Rightarrow> bytes" where
  "encode_footer f = le_encode 4 (footer_flags f) @ le_encode 4 (node_size f) @ le_encode 4 (key_size f) @
     le_encode 4 (value_size f) @ le_encode 4 (maximum_key_size f) @ le_encode 4 (maximum_value_size f) @
     replicate 16 0"

definition encode_footer_option :: "btree_footer option \<Rightarrow> bytes" where
  "encode_footer_option f = (case f of None \<Rightarrow> [] | Some f \<Rightarrow> encode_footer f)"

definition encode_node_header :: "nat \<Rightarrow> nat \<Rightarrow> nat \<Rightarrow> (bytes \<times> bytes) list \<Rightarrow> bytes" where
  "encode_node_header node_flags node_level unused kvs =
     le_encode 2 node_flags @ le_encode 2 node_level @ le_encode 4 (length kvs) @ le_encode 2 0 @
     le_encode 2 (length kvs * entry_data_size node_flags) @ le_encode 2 (length (concat (map fst kvs))) @
     le_encode 2 unused @ replicate 8 0"

definition encode_node ::
    "nat \<Rightarrow> nat \<Rightarrow> nat \<Rightarrow> nat \<Rightarrow> nat \<Rightarrow> (bytes \<times> bytes) list \<Rightarrow> btree_footer option \<Rightarrow> bytes" where
  "encode_node type_value subtype_value node_flags node_level unused kvs f =
     replicate 24 0 @ le_encode 4 type_value @ le_encode 4 subtype_value @
     encode_node_header node_flags node_level unused kvs @
     encode_locations (node_flags AND 4 \<noteq> 0) 0 0 kvs @ concat (map fst kvs) @ replicate unused 0 @
     concat (rev (map snd kvs)) @ encode_footer_option f"

text \<open>The entry that a key and a value are read back as.\<close>

definition entry_of :: "bytes \<times> bytes \<Rightarrow> btree_entry" where
  "entry_of kv = \<lparr>key_data = (if fst kv = [] then None else Some (fst kv)), key_data_size = length (fst kv),
     value_data = (if snd kv = [] then None else Some (snd kv)), value_data_size = length (snd kv)\<rparr>"

definition header_of :: "nat \<Rightarrow> nat \<Rightarrow> nat \<Rightarrow> (bytes \<times> bytes) list \<Rightarrow> btree_node_header" where
  "header_of node_flags node_level unused kvs =
     \<lparr>flags = node_flags, level = node_level, number_of_keys = length kvs, entries_data_offset = 0,
      entries_data_size = length kvs * entry_data_size node_flags,
      unused_data_offset = length (concat (map fst kvs)), unused_data_size = unused\<rparr>"

text \<open>The keys and values that the entries of a node of the given kind can have.\<close>

definition sizes_allowed :: "nat \<Rightarrow> nat \<Rightarrow> bytes \<times> bytes \<Rightarrow> bool" where
  "sizes_allowed subtype node_flags kv \<longleftrightarrow> (node_flags AND 4 \<noteq> 0 \<longrightarrow>
     (subtype = 0x0b \<or> subtype = 0x1f) \<and> length (fst kv) = 16 \<and>
     length (snd kv) = (if node_flags AND 2 = 0 then 8 else 16))"

lemma length_encode_location: "length (encode_location fixed a b c d) = (if fixed then 4 else 8)"
  by (simp add: encode_location_def)

lemma length_encode_locations:
  "length (encode_locations fixed a b kvs) = length kvs * (if fixed then 4 else 8)"
  by (induction fixed a b kvs rule: encode_locations.induct) (simp_all add: length_encode_location)

lemma length_encode_footer [simp]: "length (encode_footer f) = 40"
  by (simp add: encode_footer_def)

lemma length_encode_node_header [simp]: "length (encode_node_header a b c kvs) = 24"
  by (simp add: encode_node_header_def)

text \<open>A field at a known place of the data.\<close>

lemma drop_next: "drop i data = xs @ ys \<Longrightarrow> j = i + length xs \<Longrightarrow> drop j data = ys"
  by (metis add.commute append_eq_conv_conj drop_drop)

lemma drop_append_length:
  assumes "drop i data = xs @ ys" "xs \<noteq> []"
  shows "i + length xs \<le> length data"
proof -
  have "length data - i = length xs + length ys" using arg_cong [OF assms(1), of length] by simp
  moreover have "0 < length xs" using assms(2) by simp
  ultimately show ?thesis by linarith
qed

lemma rd_le_encoded:
  assumes "drop i data = le_encode n v @ ys" "v < 256 ^ n" "0 < n"
  shows "rd_le n data i = Inr v"
proof -
  have "le_encode n v \<noteq> []" using assms(3) length_le_encode [of n v] by (metis length_greater_0_conv)
  from drop_append_length [OF assms(1) this] have "i + n \<le> length data" by simp
  then show ?thesis using assms(1,2) by simp
qed

lemma read_entry_location_encoded:
  assumes at: "drop i data = encode_location (node_flags AND 4 \<noteq> 0) ko k vo v @ ys"
    and small: "ko < 65536" "k < 65536" "vo < 65536" "v < 65536"
    and fixed: "node_flags AND 4 \<noteq> 0 \<longrightarrow> (subtype = 0x0b \<or> subtype = 0x1f) \<and> k = 16 \<and> v = (if node_flags AND 2 = 0 then 8 else 16)"
  shows "read_entry_location subtype node_flags data i = Inr (ko, k, vo, v)"
proof (cases "node_flags AND 4 = 0")
  case True
  have 0: "drop i data = le_encode 2 ko @ le_encode 2 k @ le_encode 2 vo @ le_encode 2 v @ ys"
    using at True by (simp add: encode_location_def)
  have 2: "drop (i + 2) data = le_encode 2 k @ le_encode 2 vo @ le_encode 2 v @ ys"
    by (rule drop_next [OF 0]) simp
  have 4: "drop (i + 4) data = le_encode 2 vo @ le_encode 2 v @ ys"
    by (rule drop_next [OF 2]) simp
  have 6: "drop (i + 6) data = le_encode 2 v @ ys"
    by (rule drop_next [OF 4]) simp
  show ?thesis
    using True small by (simp add: read_entry_location_def rd_le_encoded [OF 0] rd_le_encoded [OF 2]
        rd_le_encoded [OF 4] rd_le_encoded [OF 6])
next
  case False
  have 0: "drop i data = le_encode 2 ko @ le_encode 2 vo @ ys"
    using at False by (simp add: encode_location_def)
  have 2: "drop (i + 2) data = le_encode 2 vo @ ys" by (rule drop_next [OF 0]) simp
  have "fixed_entry_sizes subtype node_flags = Inr (k, v)" using fixed False by (auto simp: fixed_entry_sizes_def)
  then show ?thesis
    using False small by (simp add: read_entry_location_def rd_le_encoded [OF 0] rd_le_encoded [OF 2])
qed

lemma set_entry_data_encoded:
  assumes "ko + length k \<le> length data" "take (length k) (drop ko data) = k" "length k < 65536"
    and "vo + length v \<le> length data" "take (length v) (drop vo data) = v" "length v < 65536"
  shows "bindR (btree_entry_initialize None) (\<lambda>e. bindR (btree_entry_set_key_data e data ko (length k)) (\<lambda>e.
       btree_entry_set_value_data e data vo (length v))) = Inr (entry_of (k, v))"
  using assms
  by (simp add: btree_entry_initialize_def btree_entry_set_key_data_def btree_entry_set_value_data_def
      MEMORY_MAXIMUM_ALLOCATION_SIZE_def entry_of_def)

text \<open>
  The entries that are still to be read: their rows at \<open>i\<close>, their keys from \<open>base + key_pos\<close>
  on, their values before \<open>foot - value_pos\<close>.
\<close>

definition entries_at :: "bytes \<Rightarrow> bool \<Rightarrow> nat \<Rightarrow> nat \<Rightarrow> nat \<Rightarrow> nat \<Rightarrow> nat \<Rightarrow> (bytes \<times> bytes) list \<Rightarrow> bool" where
  "entries_at data fixed i base key_pos foot value_pos kvs \<longleftrightarrow>
     (\<exists>rest. drop i data = encode_locations fixed key_pos value_pos kvs @ rest) \<and>
     base + key_pos + length (concat (map fst kvs)) \<le> length data \<and>
     take (length (concat (map fst kvs))) (drop (base + key_pos) data) = concat (map fst kvs) \<and>
     value_pos + length (concat (map snd kvs)) \<le> foot \<and> foot \<le> length data \<and>
     drop (foot - value_pos - length (concat (map snd kvs))) (take (foot - value_pos) data) = concat (rev (map snd kvs))"

lemma take_drop_take: "a + c \<le> b \<Longrightarrow> take c (drop a (take b xs)) = drop a (take (a + c) xs)"
  by (simp add: drop_take)

lemma entries_at_Cons:
  assumes "entries_at data fixed i base key_pos foot value_pos ((k, v) # kvs)" "fixed = (node_flags AND 4 \<noteq> 0)"
  shows "\<exists>rest. drop i data = encode_location fixed key_pos (length k) (value_pos + length v) (length v) @ rest"
    and "base + key_pos + length k \<le> length data" "take (length k) (drop (base + key_pos) data) = k"
    and "value_pos + length v \<le> foot" "foot \<le> length data"
    and "take (length v) (drop (foot - (value_pos + length v)) data) = v"
    and "entries_at data fixed (i + entry_data_size node_flags) base (key_pos + length k) foot (value_pos + length v) kvs"
proof -
  let ?K = "concat (map fst kvs)" and ?V = "concat (map snd kvs)" and ?R = "concat (rev (map snd kvs))"
  obtain rest where at: "drop i data = encode_location fixed key_pos (length k) (value_pos + length v) (length v) @
      encode_locations fixed (key_pos + length k) (value_pos + length v) kvs @ rest"
    and keys: "base + key_pos + (length k + length ?K) \<le> length data"
      "take (length k + length ?K) (drop (base + key_pos) data) = k @ ?K"
    and room: "value_pos + (length v + length ?V) \<le> foot" "foot \<le> length data"
    and vals: "drop (foot - value_pos - (length v + length ?V)) (take (foot - value_pos) data) = ?R @ v"
    using assms(1) by (auto simp: entries_at_def)
  have len_R: "length ?R = length ?V" by (simp add: length_concat sum_list_rev flip: rev_map)
  show "\<exists>rest. drop i data = encode_location fixed key_pos (length k) (value_pos + length v) (length v) @ rest"
    using at by blast
  show "base + key_pos + length k \<le> length data" "value_pos + length v \<le> foot" "foot \<le> length data"
    using keys(1) room by linarith+
  show "take (length k) (drop (base + key_pos) data) = k"
    using arg_cong [OF keys(2), of "take (length k)"] by simp
  have "drop (length ?V) (drop (foot - value_pos - (length v + length ?V)) (take (foot - value_pos) data)) = v"
    unfolding vals using len_R by simp
  moreover have "length ?V + (foot - value_pos - (length v + length ?V)) = foot - (value_pos + length v)"
    using room by linarith
  ultimately have "drop (foot - (value_pos + length v)) (take (foot - value_pos) data) = v" by simp
  moreover have "foot - value_pos - (foot - (value_pos + length v)) = length v" using room(1) by linarith
  ultimately show "take (length v) (drop (foot - (value_pos + length v)) data) = v" by (simp add: drop_take)
  have rows: "drop (i + entry_data_size node_flags) data =
      encode_locations fixed (key_pos + length k) (value_pos + length v) kvs @ rest"
    by (rule drop_next [OF at]) (simp add: length_encode_location entry_data_size_def assms(2))
  have next_keys: "take (length ?K) (drop (base + (key_pos + length k)) data) = ?K"
    using arg_cong [OF keys(2), of "drop (length k)"] by (simp add: drop_take ac_simps)
  define a where "a = foot - (value_pos + length v) - length ?V"
  have a: "foot - value_pos - (length v + length ?V) = a" "a + length ?V = foot - (value_pos + length v)"
    "a + length ?V \<le> foot - value_pos"
    using room(1) unfolding a_def by linarith+
  have "take (length ?V) (drop a (take (foot - value_pos) data)) = ?R"
    using vals len_R unfolding a(1) by simp
  then have "drop (foot - (value_pos + length v) - length ?V) (take (foot - (value_pos + length v)) data) = ?R"
    unfolding a_def [symmetric] a(2) [symmetric] take_drop_take [OF a(3)] by (simp only: diff_add_inverse2)
  with rows next_keys keys(1) room
  show "entries_at data fixed (i + entry_data_size node_flags) base (key_pos + length k) foot (value_pos + length v) kvs"
    unfolding entries_at_def by (auto simp: add.assoc)
qed

lemma read_node_entry_encoded:
  assumes at: "entries_at data (flags h AND 4 \<noteq> 0) i base key_pos foot value_pos ((k, v) # kvs)"
    and small: "length data < 65536" and base: "base = entries_offset + entries_data_size h"
    and sizes: "sizes_allowed subtype (flags h) (k, v)"
  shows "read_node_entry h subtype data (length data) entries_offset foot i = Inr (entry_of (k, v))"
proof -
  note e = entries_at_Cons [OF at refl]
  obtain rest where row: "drop i data =
      encode_location (flags h AND 4 \<noteq> 0) key_pos (length k) (value_pos + length v) (length v) @ rest"
    using e(1) by blast
  have loc: "read_entry_location subtype (flags h) data i =
      Inr (key_pos, length k, value_pos + length v, length v)"
    by (rule read_entry_location_encoded [OF row]) (use e small sizes in \<open>auto simp: sizes_allowed_def\<close>)
  have ko: "(key_pos + entries_offset + entries_data_size h) mod 65536 = base + key_pos"
    using e(2) small base by (simp add: ac_simps)
  have wrapped: "foot + 65536 - (value_pos + length v) = 65536 + (foot - (value_pos + length v))"
    using e(4) by linarith
  have vo: "(foot + 65536 - (value_pos + length v)) mod 65536 = foot - (value_pos + length v)"
    unfolding wrapped using e(5) small by simp
  have bounds: "base + key_pos \<le> length data" "length k \<le> length data - (base + key_pos)"
    "foot - (value_pos + length v) + length v \<le> length data"
    using e(2,4,5) by linarith+
  have set: "bindR (btree_entry_initialize None) (\<lambda>e. bindR (btree_entry_set_key_data e data (base + key_pos) (length k)) (\<lambda>e.
       btree_entry_set_value_data e data (foot - (value_pos + length v)) (length v))) = Inr (entry_of (k, v))"
    by (rule set_entry_data_encoded [OF e(2,3) _ bounds(3) e(6)]) (use e small in linarith)+
  show ?thesis
    unfolding read_node_entry_def loc bindR_simps prod.case Let_def ko vo
    using bounds set by (simp add: not_less)
qed

lemma read_node_entries_encoded:
  assumes "entries_at data (flags h AND 4 \<noteq> 0) i base key_pos foot value_pos kvs"
    and "length data < 65536" "base = entries_offset + entries_data_size h"
    and "\<forall>kv\<in>set kvs. sizes_allowed subtype (flags h) kv"
  shows "read_node_entries h subtype data (length data) entries_offset foot (length kvs) i es =
    Inr (es @ map entry_of kvs)"
  using assms(1,4)
proof (induction kvs arbitrary: i key_pos value_pos es)
  case (Cons kv kvs)
  obtain k v where kv: "kv = (k, v)" by force
  have entry: "read_node_entry h subtype data (length data) entries_offset foot i = Inr (entry_of kv)"
    using read_node_entry_encoded [OF _ assms(2,3)] Cons.prems kv by auto
  show ?case
    using Cons.IH [OF entries_at_Cons(7) [OF Cons.prems(1) [unfolded kv] refl]] Cons.prems(2) entry by simp
qed simp

text \<open>A node that is written without overflow.\<close>

definition node_writable ::
    "nat \<Rightarrow> nat \<Rightarrow> nat \<Rightarrow> nat \<Rightarrow> nat \<Rightarrow> (bytes \<times> bytes) list \<Rightarrow> btree_footer option \<Rightarrow> bool" where
  "node_writable type_value subtype node_flags node_level unused kvs f \<longleftrightarrow>
     type_value < 2 ^ 32 \<and> type_value AND 0x0ffffff \<in> {0, 2, 3} \<and> subtype < 2 ^ 32 \<and>
     node_flags < 65536 \<and> node_level < 65536 \<and> 40 < unused \<and>
     (f \<noteq> None \<longleftrightarrow> node_flags AND 1 \<noteq> 0) \<and>
     (\<forall>g. f = Some g \<longrightarrow> footer_flags g < 2 ^ 32 \<and> node_size g < 2 ^ 32 \<and> key_size g < 2 ^ 32 \<and>
        value_size g < 2 ^ 32 \<and> maximum_key_size g < 2 ^ 32 \<and> maximum_value_size g < 2 ^ 32) \<and>
     (\<forall>kv\<in>set kvs. sizes_allowed subtype node_flags kv) \<and>
     length (encode_node type_value subtype node_flags node_level unused kvs f) < 65536"

definition node_of ::
    "nat \<Rightarrow> nat \<Rightarrow> nat \<Rightarrow> nat \<Rightarrow> nat \<Rightarrow> (bytes \<times> bytes) list \<Rightarrow> btree_footer option \<Rightarrow> btree_node" where
  "node_of type_value subtype node_flags node_level unused kvs f =
     \<lparr>object_type = type_value, object_subtype = subtype,
      node_header = Some (header_of node_flags node_level unused kvs), footer = f,
      entries_array = map entry_of kvs\<rparr>"

lemma btree_footer_read_encoded:
  assumes "drop i data = encode_footer g"
    and "footer_flags g < 2 ^ 32" "node_size g < 2 ^ 32" "key_size g < 2 ^ 32"
      "value_size g < 2 ^ 32" "maximum_key_size g < 2 ^ 32" "maximum_value_size g < 2 ^ 32"
  shows "btree_footer_read_data f0 data i 40 = Inr g"
proof -
  note at0 = assms(1) [unfolded encode_footer_def]
  note at4 = drop_next [OF at0, of "i + 4", simplified]
  note at8 = drop_next [OF at4, of "i + 8", simplified]
  note at12 = drop_next [OF at8, of "i + 12", simplified]
  note at16 = drop_next [OF at12, of "i + 16", simplified]
  note at20 = drop_next [OF at16, of "i + 20", simplified]
  show ?thesis
    using assms(2-)
    by (simp add: btree_footer_read_data_def SSIZE_MAX_def rd_le_encoded [OF at0] rd_le_encoded [OF at4]
        rd_le_encoded [OF at8] rd_le_encoded [OF at12] rd_le_encoded [OF at16] rd_le_encoded [OF at20])
qed

lemma btree_node_header_read_encoded:
  assumes "drop i data = encode_node_header node_flags node_level unused kvs @ rest"
    and "node_flags < 65536" "node_level < 65536" "unused < 65536" "length kvs < 65536"
      "length kvs * entry_data_size node_flags < 65536" "length (concat (map fst kvs)) < 65536"
  shows "btree_node_header_read_data h0 data i 24 = Inr (header_of node_flags node_level unused kvs)"
proof -
  note at0 = assms(1) [unfolded encode_node_header_def append_assoc]
  note at2 = drop_next [OF at0, of "i + 2", simplified]
  note at4 = drop_next [OF at2, of "i + 4", simplified]
  note at8 = drop_next [OF at4, of "i + 8", simplified]
  note at10 = drop_next [OF at8, of "i + 10", simplified]
  note at12 = drop_next [OF at10, of "i + 12", simplified]
  note at14 = drop_next [OF at12, of "i + 14", simplified]
  show ?thesis
    using assms(2-)
    by (simp add: btree_node_header_read_data_def SSIZE_MAX_def header_of_def rd_le_encoded [OF at0]
        rd_le_encoded [OF at2] rd_le_encoded [OF at4] rd_le_encoded [OF at8] rd_le_encoded [OF at10]
        rd_le_encoded [OF at12] rd_le_encoded [OF at14])
qed

text \<open>The parts of a written node.\<close>

lemma encode_node_parts:
  fixes kvs :: "(bytes \<times> bytes) list" and node_flags :: nat
  defines "n \<equiv> length kvs * entry_data_size node_flags" and "K \<equiv> concat (map fst kvs)" and "V \<equiv> concat (map snd kvs)"
  assumes data: "data = encode_node t subtype node_flags node_level unused kvs f"
    and foot: "foot = length data - length (encode_footer_option f)"
  shows "length data = 56 + n + length K + unused + length V + length (encode_footer_option f)"
    and "drop 24 data = le_encode 4 t @ drop 28 data" "drop 28 data = le_encode 4 subtype @ drop 32 data"
    and "drop 32 data = encode_node_header node_flags node_level unused kvs @ drop 56 data"
    and "entries_at data (node_flags AND 4 \<noteq> 0) 56 (56 + n) 0 foot 0 kvs"
    and "drop foot data = encode_footer_option f"
proof -
  let ?R = "concat (rev (map snd kvs))" and ?fixed = "node_flags AND 4 \<noteq> 0"
  have len_R: "length ?R = length V" by (simp add: V_def length_concat sum_list_rev flip: rev_map)
  have len_n: "length (encode_locations ?fixed 0 0 kvs) = n"
    by (simp add: n_def length_encode_locations entry_data_size_def)
  have "56 + n + length K + unused + length V + length (encode_footer_option f) = length data"
    unfolding data encode_node_def length_append len_n len_R K_def [symmetric] by simp
  then show len: "length data = 56 + n + length K + unused + length V + length (encode_footer_option f)" by simp
  show "drop 24 data = le_encode 4 t @ drop 28 data" "drop 28 data = le_encode 4 subtype @ drop 32 data"
    "drop 32 data = encode_node_header node_flags node_level unused kvs @ drop 56 data"
    by (simp_all add: data encode_node_def)
  have at56: "drop 56 data = encode_locations ?fixed 0 0 kvs @ K @ replicate unused 0 @ ?R @ encode_footer_option f"
    by (simp add: data encode_node_def K_def)
  have atK: "drop (56 + n) data = K @ replicate unused 0 @ ?R @ encode_footer_option f"
    by (rule drop_next [OF at56]) (simp only: len_n)
  have atP: "drop (56 + n + length K) data = replicate unused 0 @ ?R @ encode_footer_option f"
    by (rule drop_next [OF atK]) simp
  have atR: "drop (56 + n + length K + unused) data = ?R @ encode_footer_option f"
    by (rule drop_next [OF atP]) simp
  have foot': "foot = 56 + n + length K + unused + length V" using foot len by linarith
  show "drop foot data = encode_footer_option f"
    unfolding foot' by (rule drop_next [OF atR]) (simp only: len_R)
  have "take (length V) (drop (56 + n + length K + unused) data) = ?R" unfolding atR by (simp add: V_def)
  then have vals: "drop (foot - length V) (take foot data) = ?R" by (simp add: foot' drop_take)
  show "entries_at data ?fixed 56 (56 + n) 0 foot 0 kvs"
    unfolding entries_at_def using at56 atK vals len foot' by (auto simp: K_def V_def)
qed

lemma read_node_footer_encoded:
  assumes "drop (length data - length (encode_footer_option f)) data = encode_footer_option f"
    and "f \<noteq> None \<longleftrightarrow> node_flags AND 1 \<noteq> 0" "length data < 65536" "96 \<le> length data"
    and "\<forall>g. f = Some g \<longrightarrow> footer_flags g < 2 ^ 32 \<and> node_size g < 2 ^ 32 \<and> key_size g < 2 ^ 32 \<and>
        value_size g < 2 ^ 32 \<and> maximum_key_size g < 2 ^ 32 \<and> maximum_value_size g < 2 ^ 32"
  shows "read_node_footer None node_flags data (length data) =
    Inr (f, length data - length (encode_footer_option f))"
proof (cases f)
  case None
  then show ?thesis using assms(2,3) by (simp add: read_node_footer_def encode_footer_option_def)
next
  case (Some g)
  have "drop (length data - 40) data = encode_footer g" using assms(1) by (simp add: Some encode_footer_option_def)
  from btree_footer_read_encoded [OF this] assms(5) Some
  have "btree_footer_read_data f0 data (length data - 40) 40 = Inr g" for f0 by simp
  moreover have "(length data + 65536 - 40) mod 65536 = length data - 40"
  proof -
    have "length data + 65536 - 40 = 65536 + (length data - 40)" using assms(4) by linarith
    then have "(length data + 65536 - 40) mod 65536 = (length data - 40) mod 65536" by (simp only: mod_add_self1)
    also have "\<dots> = length data - 40" using assms(3) by (intro mod_less) linarith
    finally show ?thesis .
  qed
  ultimately show ?thesis
    using assms(2,3) Some by (simp add: read_node_footer_def btree_footer_initialize_def encode_footer_option_def)
qed

lemma btree_node_read_encoded:
  assumes w: "node_writable t subtype node_flags node_level unused kvs f"
    and data: "data = encode_node t subtype node_flags node_level unused kvs f"
    and fresh: "node_header m = None" "footer m = None" "entries_array m = []"
  shows "btree_node_read_data m data (length data) = Inr (node_of t subtype node_flags node_level unused kvs f)"
proof -
  note small = w [unfolded node_writable_def]
  note parts = encode_node_parts [OF data refl]
  let ?n = "length kvs * entry_data_size node_flags" and ?h = "header_of node_flags node_level unused kvs"
  have long: "96 < length data" and short: "length data < 65536" using small data parts(1) by auto
  have "length kvs * 1 \<le> ?n" by (rule mult_le_mono2) (simp add: entry_data_size_def)
  then have count: "length kvs < 65536" "?n < 65536" "unused < 65536" "length (concat (map fst kvs)) < 65536"
    using parts(1) short unfolding mult_1_right by linarith+
  have type_read: "rd_u32_le data 24 = Inr t" "rd_u32_le data 28 = Inr subtype"
    using rd_le_encoded [OF parts(2)] rd_le_encoded [OF parts(3)] small by auto
  have "t AND 0x0ffffff = 0 \<or> t AND 0x0ffffff = 2 \<or> t AND 0x0ffffff = 3" using small by blast
  then have object: "btree_node_read_object_data m data (length data) =
      Inr (m\<lparr>object_type := t, object_subtype := subtype\<rparr>)"
    using long short type_read by (auto simp: btree_node_read_object_data_def SSIZE_MAX_def)
  have "btree_node_header_read_data h0 data 32 24 = Inr ?h" for h0
    by (rule btree_node_header_read_encoded [OF parts(4)]) (use small count in auto)
  moreover have "?n + length (concat (map fst kvs)) < length data - 96" using parts(1) small by linarith
  ultimately have header: "read_node_header data (length data) = Inr ?h"
    unfolding read_node_header_def btree_node_header_initialize_def header_of_def
    by (simp add: Let_def, linarith)
  have "read_node_footer None node_flags data (length data) = Inr (f, length data - length (encode_footer_option f))"
    by (rule read_node_footer_encoded [OF parts(6)]) (use small short long in auto)
  moreover have "read_node_entries ?h subtype data (length data) 56 (length data - length (encode_footer_option f))
      (length kvs) 56 [] = Inr (map entry_of kvs)"
    by (subst read_node_entries_encoded [of data ?h 56 "56 + ?n" 0 _ 0 kvs])
      (use parts(5) short small in \<open>simp_all add: header_of_def\<close>)
  moreover have "length kvs \<le> ?n div entry_data_size node_flags" by (simp add: entry_data_size_def)
  ultimately show ?thesis
    using object header fresh long short
    by (simp add: btree_node_read_data_def header_of_def node_of_def SSIZE_MAX_def)
qed

section \<open>Properties\<close>

text \<open>Whatever the data is, reading a node never accesses memory outside
  it. A node that is read has as many entries as its header counts keys, a footer exactly when it is a
  root, keys and values that are copies of parts of the data, and, with entries of fixed size,
  keys of 16 bytes and values of 16 or, in a branch node, 8 bytes.\<close>

theorem btree_node_read_data_safe:
  assumes "data_size \<le> length data" "btree_node_initialize None = Inr m"
  shows "case btree_node_read_data m data data_size of
      Inl e \<Rightarrow> e \<noteq> OUT_OF_BOUNDS_ACCESS
    | Inr node \<Rightarrow> \<exists>h. node_header node = Some h \<and> length (entries_array node) = number_of_keys h \<and>
        (footer node \<noteq> None \<longleftrightarrow> flags h AND 1 \<noteq> 0) \<and>
        (\<forall>e\<in>set (entries_array node). entry_from data data_size e \<and> entry_sizes_ok (flags h) e)"
  using btree_node_read_data_post [OF assms]
  by (auto simp: post_def node_from_def lib_error_def split: sum.splits)

theorem btree_node_read_data_safe_witness:
  "\<exists>m. btree_node_initialize None = Inr m \<and>
    (case btree_node_read_data m (replicate 100 255) 98 of
      Inl e \<Rightarrow> e \<noteq> OUT_OF_BOUNDS_ACCESS
    | Inr node \<Rightarrow> \<exists>h. node_header node = Some h \<and> length (entries_array node) = number_of_keys h \<and>
        (footer node \<noteq> None \<longleftrightarrow> flags h AND 1 \<noteq> 0) \<and>
        (\<forall>e\<in>set (entries_array node). entry_from (replicate 100 255) 98 e \<and> entry_sizes_ok (flags h) e))"
proof -
  obtain m where m: "btree_node_initialize None = Inr m" by (simp add: btree_node_initialize_def)
  show ?thesis
    by (rule exI [of _ m], rule conjI [OF m], rule btree_node_read_data_safe [OF _ m]) simp
qed

text \<open>C7. A node written with a table of locations, keys from the front and values
  from the back, of fixed or variable size, as a root with a footer or not, is read back with the
  same type, header, footer, keys and values.\<close>

theorem btree_node_roundtrip:
  assumes "node_writable t subtype node_flags node_level unused kvs f" "btree_node_initialize None = Inr m"
    and "data = encode_node t subtype node_flags node_level unused kvs f"
  shows "btree_node_read_data m data (length data) = Inr (node_of t subtype node_flags node_level unused kvs f)"
  by (rule btree_node_read_encoded [OF assms(1,3)]) (use assms(2) in \<open>auto simp: btree_node_initialize_def\<close>)

theorem btree_node_roundtrip_witness:
  "\<exists>m. btree_node_initialize None = Inr m \<and>
    btree_node_read_data m (encode_node 2 0x0e 2 0 41 [([1, 2], [3]), ([4], [])] None)
      (length (encode_node 2 0x0e 2 0 41 [([1, 2], [3]), ([4], [])] None)) =
    Inr (node_of 2 0x0e 2 0 41 [([1, 2], [3]), ([4], [])] None)"
proof -
  obtain m where m: "btree_node_initialize None = Inr m" by (simp add: btree_node_initialize_def)
  have "node_writable 2 0x0e 2 0 41 [([1, 2], [3]), ([4], [])] None"
    by (simp add: node_writable_def sizes_allowed_def encode_node_def encode_footer_option_def encode_location_def)
  from btree_node_roundtrip [OF this m refl] m show ?thesis by blast
qed

end
