(* ===== verification/Calls.thy ===== *)
theory Calls
  imports Apfs_Prelude
begin

text \<open>
  Calls that change a state, which a failing call leaves behind as well: sequencing, and what a call
  guarantees of its result and of the state.
\<close>

section \<open>Calls that change a state\<close>

type_synonym ('s, 'a) call = "'s \<Rightarrow> 'a result \<times> 's"

definition returnS :: "'a \<Rightarrow> ('s, 'a) call" where
  "returnS x s = (Inr x, s)"

definition failS :: "error \<Rightarrow> ('s, 'a) call" where
  "failS e s = (Inl e, s)"

definition liftS :: "'a result \<Rightarrow> ('s, 'a) call" where
  "liftS r s = (r, s)"

definition bindS :: "('s, 'a) call \<Rightarrow> ('a \<Rightarrow> ('s, 'b) call) \<Rightarrow> ('s, 'b) call" where
  "bindS m k s = (case m s of (Inl e, s') \<Rightarrow> (Inl e, s') | (Inr x, s') \<Rightarrow> k x s')"

lemma call_simps [simp]:
  "returnS x s = (Inr x, s)"
  "failS e s = (Inl e, s)"
  "liftS r s = (r, s)"
  by (simp_all add: returnS_def failS_def liftS_def)

lemma bindS_eq:
  "m s = (Inr x, s') \<Longrightarrow> bindS m k s = k x s'"
  "m s = (Inl e, s') \<Longrightarrow> bindS m k s = (Inl e, s')"
  by (simp_all add: bindS_def)

lemma bindS_simps [simp]:
  "bindS (returnS x) k s = k x s"
  "bindS (failS e) k s = (Inl e, s)"
  "bindS (liftS (Inr x)) k s = k x s"
  "bindS (liftS (Inl e)) k s = (Inl e, s)"
  by (simp_all add: bindS_def)

lemma bindS_cong [fundef_cong]:
  "m s = m' s' \<Longrightarrow> (\<And>x t. m' s' = (Inr x, t) \<Longrightarrow> k x t = k' x t) \<Longrightarrow> bindS m k s = bindS m' k' s'"
  by (simp add: bindS_def split: prod.splits sum.splits)

text \<open>What a call guarantees of its result and of the state.\<close>

definition call_safe :: "('s \<Rightarrow> bool) \<Rightarrow> ('a \<Rightarrow> bool) \<Rightarrow> 'a result \<times> 's \<Rightarrow> bool" where
  "call_safe valid P x \<longleftrightarrow> valid (snd x) \<and> post lib_error P (fst x)"

lemma call_safe_simps [simp]:
  "call_safe valid P (Inr x, s) \<longleftrightarrow> valid s \<and> P x"
  "call_safe valid P (Inl e, s) \<longleftrightarrow> valid s \<and> lib_error e"
  by (simp_all add: call_safe_def)

lemma call_safe_bindS:
  assumes "call_safe valid P (m s)" "\<And>x s'. valid s' \<Longrightarrow> P x \<Longrightarrow> call_safe valid Q (k x s')"
  shows "call_safe valid Q (bindS m k s)"
proof (cases "m s")
  case (Pair r s')
  then show ?thesis using assms by (cases r) (simp_all add: bindS_def)
qed

lemma call_safe_liftS: "valid s \<Longrightarrow> post lib_error P r \<Longrightarrow> call_safe valid P (liftS r s)"
  by (simp add: call_safe_def)

end
