(* ===== verification/Node_Cache.thy ===== *)
theory Node_Cache
  imports Btree Calls
begin

text \<open>
  How the B-trees get their nodes. Blocks come from a \<open>libfdata\<close> vector and nodes are kept in a
  \<open>libfcache\<close> cache; neither library is part of the sources, so both are parameters. The state of
  the cache is threaded through the calls, failing ones included.
\<close>

section \<open>Blocks and caches\<close>

text \<open>
  The data of a block by its number, as \<open>libfdata_vector_get_element_value_by_index\<close> gets it; \<open>None\<close> is
  a NULL data block. The volume is only read, so a block has the same data at every time.
\<close>

type_synonym block_vector = "nat \<Rightarrow> bytes option result"

record 's node_cache_operations =
  cache_get_value_by_identifier :: "nat \<Rightarrow> ('s, btree_node option) call"
  cache_set_value_by_identifier :: "nat \<Rightarrow> btree_node \<Rightarrow> ('s, unit) call"

text \<open>
  The documented behaviour of the cache: it returns what was set for an identifier or nothing, it
  holds what was just set, and it may drop other values at any time. \<open>contents\<close> is what it holds.
\<close>

definition cache_laws :: "'s node_cache_operations \<Rightarrow> ('s \<Rightarrow> nat \<rightharpoonup> btree_node) \<Rightarrow> bool" where
  "cache_laws ops contents \<longleftrightarrow>
     (\<forall>s i. fst (cache_get_value_by_identifier ops i s) = Inr (contents s i) \<and>
        contents (snd (cache_get_value_by_identifier ops i s)) \<subseteq>\<^sub>m contents s) \<and>
     (\<forall>s i n. fst (cache_set_value_by_identifier ops i n s) = Inr () \<and>
        contents (snd (cache_set_value_by_identifier ops i n s)) i = Some n \<and>
        contents (snd (cache_set_value_by_identifier ops i n s)) \<subseteq>\<^sub>m (contents s)(i \<mapsto> n))"

text \<open>INT_MAX, the largest index of a vector.\<close>

definition INT_MAX :: nat where
  "INT_MAX = 2 ^ 31 - 1"

text \<open>The node in a block, with the checks of the tree it belongs to.\<close>

definition read_node :: "block_vector \<Rightarrow> nat \<Rightarrow> btree_node result" where
  "read_node blocks block_number =
     bindR (blocks block_number) (\<lambda>data_block.
       case data_block of
         None \<Rightarrow> Inl RUNTIME_VALUE_MISSING
       | Some data \<Rightarrow>
           bindR (btree_node_initialize None) (\<lambda>node. btree_node_read_data node data (length data)))"

text \<open>
  The part that the functions for root nodes and sub nodes share: the node from the cache, or
  else from its block, checked and put into the cache.
\<close>

definition get_cached_node ::
    "'s node_cache_operations \<Rightarrow> block_vector \<Rightarrow> (btree_node \<Rightarrow> unit result) \<Rightarrow> nat \<Rightarrow> ('s, btree_node) call" where
  "get_cached_node ops blocks check block_number =
     bindS (cache_get_value_by_identifier ops block_number) (\<lambda>cache_value.
       case cache_value of
         Some node \<Rightarrow> returnS node
       | None \<Rightarrow>
           bindS (liftS (read_node blocks block_number)) (\<lambda>node.
           bindS (liftS (check node)) (\<lambda>_.
           bindS (cache_set_value_by_identifier ops block_number node) (\<lambda>_.
           bindS (cache_get_value_by_identifier ops block_number) (\<lambda>cache_value.
             case cache_value of
               None \<Rightarrow> failS RUNTIME_GET_FAILED
             | Some node \<Rightarrow> returnS node)))))"

text \<open>The cache holds only nodes as they are in their blocks.\<close>

definition coherent :: "block_vector \<Rightarrow> (nat \<rightharpoonup> btree_node) \<Rightarrow> bool" where
  "coherent blocks cached \<longleftrightarrow> (\<forall>i n. cached i = Some n \<longrightarrow> read_node blocks i = Inr n)"

lemma coherentD: "coherent blocks c \<Longrightarrow> c i = Some n \<Longrightarrow> read_node blocks i = Inr n"
  by (simp add: coherent_def)

lemma coherent_mono: "coherent blocks c \<Longrightarrow> c' \<subseteq>\<^sub>m c \<Longrightarrow> coherent blocks c'"
  by (auto simp: coherent_def map_le_def dom_def)

lemma coherent_upd: "coherent blocks c \<Longrightarrow> read_node blocks i = Inr n \<Longrightarrow> coherent blocks (c(i \<mapsto> n))"
  by (simp add: coherent_def)

text \<open>
  Whatever the request, the cache stays coherent, and a node that is returned is that of its
  block; a node whose block is readable and passes the check is always returned.
\<close>

lemma get_cached_node_coherent:
  assumes "cache_laws ops contents" "coherent blocks (contents s)"
    and "get_cached_node ops blocks check i s = (r, s')"
  shows "coherent blocks (contents s')" and "\<And>n. r = Inr n \<Longrightarrow> read_node blocks i = Inr n"
    and "\<And>n. read_node blocks i = Inr n \<Longrightarrow> check n = Inr () \<Longrightarrow> r = Inr n"
proof -
  obtain s1 where get: "cache_get_value_by_identifier ops i s = (Inr (contents s i), s1)" "contents s1 \<subseteq>\<^sub>m contents s"
    using assms(1) unfolding cache_laws_def by (metis prod.collapse)
  have coh1: "coherent blocks (contents s1)" by (rule coherent_mono [OF assms(2) get(2)])
  have "coherent blocks (contents s') \<and> (\<forall>n. r = Inr n \<longrightarrow> read_node blocks i = Inr n) \<and>
      (\<forall>n. read_node blocks i = Inr n \<longrightarrow> check n = Inr () \<longrightarrow> r = Inr n)"
  proof (cases "contents s i")
    case (Some n)
    then have "r = Inr n" "s' = s1"
      using assms(3) by (simp_all add: get_cached_node_def bindS_def get(1))
    with coh1 coherentD [OF assms(2) Some] show ?thesis by simp
  next
    case None
    show ?thesis
    proof (cases "read_node blocks i")
      case (Inl e)
      then show ?thesis
        using assms(3) None coh1 by (auto simp: get_cached_node_def bindS_def get(1))
    next
      case (Inr n)
      show ?thesis
      proof (cases "check n")
        case (Inl e)
        then show ?thesis
          using assms(3) None Inr coh1 by (auto simp: get_cached_node_def bindS_def get(1))
      next
        case check: (Inr u)
        obtain s2 where set: "cache_set_value_by_identifier ops i n s1 = (Inr (), s2)"
          "contents s2 i = Some n" "contents s2 \<subseteq>\<^sub>m (contents s1)(i \<mapsto> n)"
          using assms(1) unfolding cache_laws_def by (metis prod.collapse)
        obtain s3 where again: "cache_get_value_by_identifier ops i s2 = (Inr (contents s2 i), s3)"
          "contents s3 \<subseteq>\<^sub>m contents s2"
          using assms(1) unfolding cache_laws_def by (metis prod.collapse)
        have "r = Inr n" "s' = s3"
          using assms(3) None Inr check set again
          by (simp_all add: get_cached_node_def bindS_def get(1))
        moreover have "coherent blocks (contents s3)"
          using coherent_upd [OF coh1 Inr] set(3) again(2) coherent_mono by blast
        ultimately show ?thesis using Inr by simp
      qed
    qed
  qed
  then show "coherent blocks (contents s')" "\<And>n. r = Inr n \<Longrightarrow> read_node blocks i = Inr n"
    "\<And>n. read_node blocks i = Inr n \<Longrightarrow> check n = Inr () \<Longrightarrow> r = Inr n" by blast+
qed

text \<open>A cache that remembers everything satisfies the laws.\<close>

definition map_cache :: "(nat \<rightharpoonup> btree_node) node_cache_operations" where
  "map_cache = \<lparr>cache_get_value_by_identifier = (\<lambda>i s. (Inr (s i), s)),
     cache_set_value_by_identifier = (\<lambda>i n s. (Inr (), s(i \<mapsto> n)))\<rparr>"

lemma map_cache_laws: "cache_laws map_cache (\<lambda>s. s)"
  by (simp add: cache_laws_def map_cache_def)

section \<open>Safety\<close>

text \<open>Nodes that came from a block: the sizes of the entries are those of their data.\<close>

definition block_node :: "btree_node \<Rightarrow> bool" where
  "block_node n \<longleftrightarrow> (\<exists>h. node_header n = Some h \<and> (footer n = None \<longrightarrow> flags h AND 1 = 0)) \<and>
     (\<forall>e\<in>set (entries_array n). (\<forall>k. key_data e = Some k \<longrightarrow> length k = key_data_size e) \<and>
        (\<forall>v. value_data e = Some v \<longrightarrow> length v = value_data_size e))"

lemma read_node_block_node:
  assumes "read_node blocks i = Inr n"
  shows "block_node n"
proof -
  obtain data m where data: "btree_node_initialize None = Inr m" "btree_node_read_data m data (length data) = Inr n"
    using assms by (auto simp: read_node_def result_simps split: option.splits)
  have "node_from data (length data) n"
    using postD [OF btree_node_read_data_post [OF order_refl data(1)] data(2)] .
  then show ?thesis
    by (auto simp: node_from_def block_node_def entry_from_def dest: data_at_length)
qed

lemma read_node_safe:
  assumes "\<And>i. safe (blocks i)"
  shows "safe (read_node blocks i)"
proof -
  obtain m where m: "btree_node_initialize None = Inr m" by (simp add: btree_node_initialize_def)
  have "safe (btree_node_read_data m data (length data))" for data
    using btree_node_read_data_post [OF order_refl m, of data] by (auto simp: safe_post intro: post_weaken)
  then show ?thesis
    unfolding read_node_def m using assms by (intro safe_bindR) (auto split: option.splits)
qed

lemma get_cached_node_safe:
  assumes "cache_laws ops contents" "coherent blocks (contents s)" "\<And>i. safe (blocks i)"
    and "\<And>n. block_node n \<Longrightarrow> safe (check n)" "get_cached_node ops blocks check i s = (r, s')"
  shows "coherent blocks (contents s')" "safe r" "\<And>n. r = Inr n \<Longrightarrow> block_node n"
proof -
  note coh = get_cached_node_coherent [OF assms(1,2,5)]
  show "coherent blocks (contents s')" by (rule coh(1))
  show "\<And>n. r = Inr n \<Longrightarrow> block_node n" using coh(2) read_node_block_node by blast
  obtain s1 where get: "cache_get_value_by_identifier ops i s = (Inr (contents s i), s1)"
    using assms(1) unfolding cache_laws_def by (metis prod.collapse)
  have set: "\<exists>t. cache_set_value_by_identifier ops i n u = (Inr (), t)" for n u
    using assms(1) unfolding cache_laws_def by (metis prod.collapse)
  have again: "\<exists>t. cache_get_value_by_identifier ops i u = (Inr (contents u i), t)" for u
    using assms(1) unfolding cache_laws_def by (metis prod.collapse)
  show "safe r"
  proof (cases "contents s i")
    case (Some n)
    then show ?thesis using assms(5) get by (auto simp: get_cached_node_def bindS_def)
  next
    case None
    show ?thesis
    proof (cases "read_node blocks i")
      case (Inl e)
      then show ?thesis
        using assms(5) get None read_node_safe [of blocks i, OF assms(3)] by (auto simp: get_cached_node_def bindS_def)
    next
      case (Inr n)
      show ?thesis
      proof (cases "check n")
        case (Inl e)
        then show ?thesis
          using assms(5) get None Inr assms(4) [OF read_node_block_node [OF Inr]]
          by (auto simp: get_cached_node_def bindS_def)
      next
        case (Inr u)
        then have "r = Inr n" using coh(3) [OF \<open>read_node blocks i = Inr n\<close>] by simp
        then show ?thesis by simp
      qed
    qed
  qed
qed

end
