(* ===== verification/Tree_Search.thy ===== *)
theory Tree_Search
  imports Node_Cache
begin

text \<open>
  What the lookups in the B-trees have in common: a descent from the root that follows, in each
  branch node, the last entry whose key is not beyond the target. The trees differ in their
  keys, in how an entry names a child and in what they look for in a leaf.
\<close>

section \<open>The last entry up to a key\<close>

definition latest :: "('e \<Rightarrow> 'k::linorder) \<Rightarrow> 'k \<Rightarrow> 'e list \<Rightarrow> 'e option" where
  "latest key target xs = (case filter (\<lambda>x. key x \<le> target) xs of [] \<Rightarrow> None | ys \<Rightarrow> Some (last ys))"

abbreviation sorted_by :: "('e \<Rightarrow> 'k::linorder) \<Rightarrow> 'e list \<Rightarrow> bool" where
  "sorted_by key \<equiv> sorted_wrt (\<lambda>a b. key a \<le> key b)"

lemma latest_None: "latest key target xs = None \<longleftrightarrow> (\<forall>x\<in>set xs. target < key x)"
proof -
  have "latest key target xs = None \<longleftrightarrow> filter (\<lambda>x. key x \<le> target) xs = []"
    by (simp add: latest_def split: list.splits)
  then show ?thesis by (simp add: filter_empty_conv not_le)
qed

lemma latest_append:
  "latest key target (xs @ ys) = (case latest key target ys of None \<Rightarrow> latest key target xs | Some y \<Rightarrow> Some y)"
proof (cases "filter (\<lambda>x. key x \<le> target) ys = []")
  case False
  then obtain z zs where "filter (\<lambda>x. key x \<le> target) xs @ filter (\<lambda>x. key x \<le> target) ys = z # zs"
    by (cases "filter (\<lambda>x. key x \<le> target) xs @ filter (\<lambda>x. key x \<le> target) ys") auto
  moreover have "last (z # zs) = last (filter (\<lambda>x. key x \<le> target) ys)"
    using False by (metis calculation last_append)
  ultimately show ?thesis using False by (auto simp: latest_def split: list.splits)
qed (simp add: latest_def)

lemma latest_Some:
  assumes "latest key target xs = Some x" "sorted_by key xs"
  shows "x \<in> set xs" "key x \<le> target" "\<forall>y\<in>set xs. key y \<le> target \<longrightarrow> key y \<le> key x"
proof -
  let ?ys = "filter (\<lambda>x. key x \<le> target) xs"
  have ne: "?ys \<noteq> []" and x: "x = last ?ys" using assms(1) by (auto simp: latest_def split: list.splits)
  have mem: "x \<in> set ?ys" unfolding x by (rule last_in_set [OF ne])
  then show "x \<in> set xs" "key x \<le> target" by auto
  have split: "?ys = butlast ?ys @ [x]" using ne x by simp
  have "sorted_by key (butlast ?ys @ [x])" using sorted_wrt_filter [OF assms(2)] split by metis
  then have "key y \<le> key x" if "y \<in> set (butlast ?ys)" for y using that by (simp add: sorted_wrt_append)
  then have "\<forall>y\<in>set ?ys. key y \<le> key x"
    by (subst split) auto
  then show "\<forall>y\<in>set xs. key y \<le> target \<longrightarrow> key y \<le> key x" by auto
qed

lemma upto_sorted:
  assumes "sorted_by key xs"
  shows "takeWhile (\<lambda>x. key x \<le> target) xs = filter (\<lambda>x. key x \<le> target) xs"
  using assms
proof (induction xs)
  case (Cons x xs)
  show ?case
  proof (cases "key x \<le> target")
    case False
    then have "\<forall>y\<in>set xs. \<not> key y \<le> target" using Cons.prems by (auto simp: not_le dest: less_le_trans)
    then show ?thesis using False by simp
  qed (use Cons in simp)
qed simp

text \<open>
  Children in the order of their parent's entries, each with the entry that names it: the last
  entry up to the target is found in the child that the descent chooses.
\<close>

definition named_by :: "('e \<Rightarrow> 'k) \<Rightarrow> 'e \<times> 'e list \<Rightarrow> bool" where
  "named_by key p \<longleftrightarrow> snd p \<noteq> [] \<and> key (hd (snd p)) = key (fst p)"

lemma latest_concat_None:
  assumes "\<forall>p\<in>set ps. named_by key p" "sorted_by key (concat (map snd ps))" "ps \<noteq> []" "\<not> key (fst (hd ps)) \<le> target"
  shows "\<forall>x\<in>set (concat (map snd ps)). target < key x"
proof -
  obtain p qs x xs where ps: "ps = p # qs" and p: "snd p = x # xs" "key x = key (fst p)"
    using assms(1,3) by (cases ps; cases "snd (hd ps)") (auto simp: named_by_def)
  have "target < key x" using assms(4) ps p by simp
  moreover have "\<forall>y\<in>set (concat (map snd ps)). key x \<le> key y"
    using assms(2) ps p(1) by (auto simp: sorted_wrt_append)
  ultimately show ?thesis by (meson less_le_trans)
qed

lemma latest_chosen:
  assumes "\<forall>p\<in>set ps. named_by key p" "sorted_by key (concat (map snd ps))"
    and "takeWhile (\<lambda>p. key (fst p) \<le> target) ps \<noteq> []"
  shows "latest key target (concat (map snd ps)) =
    latest key target (snd (last (takeWhile (\<lambda>p. key (fst p) \<le> target) ps)))"
    and "latest key target (concat (map snd ps)) \<noteq> None"
proof -
  have "latest key target (concat (map snd ps)) =
      latest key target (snd (last (takeWhile (\<lambda>p. key (fst p) \<le> target) ps))) \<and>
      latest key target (concat (map snd ps)) \<noteq> None"
    using assms
  proof (induction ps)
    case (Cons p ps)
    have p: "key (fst p) \<le> target" using Cons.prems(3) by (simp split: if_splits)
    obtain x xs where x: "snd p = x # xs" "key x \<le> target"
      using Cons.prems(1) p by (cases "snd p") (auto simp: named_by_def)
    have first: "latest key target (snd p) \<noteq> None" using x by (auto simp: latest_None not_less)
    have sorted: "sorted_by key (concat (map snd ps))" using Cons.prems(2) by (simp add: sorted_wrt_append)
    show ?case
    proof (cases "takeWhile (\<lambda>p. key (fst p) \<le> target) ps = []")
      case False
      with Cons.IH sorted Cons.prems(1) show ?thesis using p by (auto simp: latest_append split: option.splits)
    next
      case True
      have "latest key target (concat (map snd ps)) = None"
      proof (cases "ps = []")
        case False
        then have "\<not> key (fst (hd ps)) \<le> target" using True by (cases ps) (auto split: if_splits)
        with latest_concat_None [OF _ sorted False] Cons.prems(1) show ?thesis by (simp add: latest_None)
      qed (simp add: latest_def)
      then show ?thesis using True p first by (simp add: latest_append)
    qed
  qed simp
  then show "latest key target (concat (map snd ps)) =
      latest key target (snd (last (takeWhile (\<lambda>p. key (fst p) \<le> target) ps)))"
    "latest key target (concat (map snd ps)) \<noteq> None" by blast+
qed

text \<open>
  What the entries of a branch node are to the entries in the leaves below: they are sorted as well,
  and no key occurs more often among them.
\<close>

definition separators_of :: "('e \<Rightarrow> 'k::linorder) \<Rightarrow> 'e list \<Rightarrow> 'e list \<Rightarrow> bool" where
  "separators_of key xs es \<longleftrightarrow> sorted_by key xs \<and> (\<forall>k. count_list (map key xs) k \<le> count_list (map key es) k)"

lemma separators_named:
  assumes "\<forall>p\<in>set ps. named_by key p" "sorted_by key (concat (map snd ps))"
  shows "separators_of key (map fst ps) (concat (map snd ps))"
  using assms
proof (induction ps)
  case (Cons p ps)
  obtain x xs where p: "snd p = x # xs" "key x = key (fst p)"
    using Cons.prems(1) by (cases "snd p") (auto simp: named_by_def)
  have IH: "separators_of key (map fst ps) (concat (map snd ps))"
    using Cons by (simp add: sorted_wrt_append)
  have "key (fst p) \<le> key (fst q)" if q: "q \<in> set ps" for q
  proof -
    have "named_by key q" using Cons.prems(1) q by simp
    then have "hd (snd q) \<in> set (concat (map snd ps))" "key (hd (snd q)) = key (fst q)"
      using q by (auto simp: named_by_def intro!: bexI [of _ q])
    moreover have "\<forall>y\<in>set (concat (map snd ps)). key x \<le> key y" using Cons.prems(2) p(1) by simp
    ultimately show ?thesis using p(2) by metis
  qed
  moreover have "count_list (map key (map fst (p # ps))) k \<le> count_list (map key (concat (map snd (p # ps)))) k" for k
    using IH p by (simp add: separators_of_def count_list_append trans_le_add2 del: map_map)
  ultimately show ?case using IH by (auto simp: separators_of_def)
qed (simp add: separators_of_def)

lemma separators_key:
  assumes "separators_of key xs es" "x \<in> set xs"
  shows "\<exists>e\<in>set es. key e = key x"
proof -
  have "count_list (map key xs) (key x) \<noteq> 0" using assms(2) by (simp add: count_list_0_iff)
  then have "count_list (map key es) (key x) \<noteq> 0"
    using assms(1) by (metis le_zero_eq separators_of_def)
  then show ?thesis by (auto simp: count_list_0_iff)
qed

section \<open>Trees\<close>

definition is_leaf :: "btree_node \<Rightarrow> bool" where
  "is_leaf n \<longleftrightarrow> (case node_header n of None \<Rightarrow> False | Some h \<Rightarrow> flags h AND 2 \<noteq> 0)"

text \<open>
  The entries in the leaves of a tree of at most the given height, in order, or \<open>None\<close> when a
  child is missing or is not named by the key of its first entry.
\<close>

fun tree_entries ::
    "(btree_node \<Rightarrow> btree_entry \<Rightarrow> btree_node option) \<Rightarrow> (btree_entry \<Rightarrow> 'k) \<Rightarrow> nat \<Rightarrow> btree_node
     \<Rightarrow> btree_entry list option" where
  "tree_entries child key h n =
     (if is_leaf n then Some (entries_array n)
      else case h of
        0 \<Rightarrow> None
      | Suc h \<Rightarrow>
          if node_header n = None \<or> entries_array n = [] then None
          else map_option concat (those (map (\<lambda>e.
            case child n e of
              None \<Rightarrow> None
            | Some m \<Rightarrow> (case tree_entries child key h m of
                Some (x # xs) \<Rightarrow> if key x = key e then Some (x # xs) else None
              | _ \<Rightarrow> None)) (entries_array n))))"

declare tree_entries.simps [simp del]

text \<open>The leaf that a descent reaches, and the choice that the descents make.\<close>

fun descend_to ::
    "(btree_node \<Rightarrow> btree_entry \<Rightarrow> btree_node option) \<Rightarrow> (btree_node \<Rightarrow> btree_entry option) \<Rightarrow> nat \<Rightarrow> btree_node
     \<Rightarrow> btree_node option" where
  "descend_to child pick h n =
     (if is_leaf n then Some n
      else case h of
        0 \<Rightarrow> None
      | Suc h \<Rightarrow> (case pick n of None \<Rightarrow> None
          | Some e \<Rightarrow> (case child n e of None \<Rightarrow> None | Some m \<Rightarrow> descend_to child pick h m)))"

declare descend_to.simps [simp del]

definition choice :: "(btree_entry \<Rightarrow> 'k::linorder) \<Rightarrow> 'k \<Rightarrow> btree_entry list \<Rightarrow> btree_entry" where
  "choice key target es = (let upto = takeWhile (\<lambda>e. key e \<le> target) es in if upto = [] then hd es else last upto)"

lemma those_map:
  "those (map f xs) = Some ys \<longleftrightarrow> length ys = length xs \<and> (\<forall>i<length xs. f (xs ! i) = Some (ys ! i))"
proof (induction xs arbitrary: ys)
  case Nil
  show ?case by auto
next
  case (Cons x xs)
  show ?case
    by (cases ys; cases "f x") (auto simp: Cons.IH All_less_Suc2)
qed

lemma tree_entries_branch:
  assumes "tree_entries child key (Suc h) n = Some es" "\<not> is_leaf n"
  obtains hd' ess where "node_header n = Some hd'" "entries_array n \<noteq> []" "length ess = length (entries_array n)"
    "es = concat ess" "\<forall>p\<in>set (zip (entries_array n) ess). named_by key p"
    "\<forall>i<length ess. \<exists>m. child n (entries_array n ! i) = Some m \<and> tree_entries child key h m = Some (ess ! i)"
proof -
  let ?f = "\<lambda>e. case child n e of None \<Rightarrow> None
    | Some m \<Rightarrow> (case tree_entries child key h m of
        Some (x # xs) \<Rightarrow> if key x = key e then Some (x # xs) else None | _ \<Rightarrow> None)"
  obtain hd' where hd': "node_header n = Some hd'" "entries_array n \<noteq> []"
    using assms by (subst (asm) tree_entries.simps) (auto split: if_splits)
  have "map_option concat (those (map ?f (entries_array n))) = Some es"
    using assms hd' by (subst (asm) tree_entries.simps) simp
  then obtain ess where ess: "es = concat ess" "length ess = length (entries_array n)"
    "\<And>i. i < length (entries_array n) \<Longrightarrow> ?f (entries_array n ! i) = Some (ess ! i)"
    by (auto simp: those_map)
  have f: "?f e = Some ys \<longleftrightarrow> (\<exists>m. child n e = Some m \<and> tree_entries child key h m = Some ys \<and> ys \<noteq> [] \<and> key (hd ys) = key e)" for e ys
    by (auto split: option.splits list.splits)
  note children = ess(3) [unfolded f]
  have "\<forall>p\<in>set (zip (entries_array n) ess). named_by key p"
    using ess(2) children by (fastforce simp: set_zip named_by_def)
  moreover have "\<forall>i<length ess. \<exists>m. child n (entries_array n ! i) = Some m \<and> tree_entries child key h m = Some (ess ! i)"
    using ess(2) children by metis
  ultimately show ?thesis using that hd' ess by blast
qed

lemma choice_index:
  assumes "es \<noteq> []" "length ess = length es"
  obtains i where "i < length es" "choice key target es = es ! i"
    "takeWhile (\<lambda>p. key (fst p) \<le> target) (zip es ess) = [] \<Longrightarrow> i = 0"
    "takeWhile (\<lambda>p. key (fst p) \<le> target) (zip es ess) \<noteq> [] \<Longrightarrow>
       snd (last (takeWhile (\<lambda>p. key (fst p) \<le> target) (zip es ess))) = ess ! i"
proof (cases "takeWhile (\<lambda>e. key e \<le> target) es = []")
  case True
  moreover have "takeWhile (\<lambda>p. key (fst p) \<le> target) (zip es ess) = []"
    using True assms by (cases es; cases ess) (auto split: if_splits)
  ultimately show ?thesis using that [of 0] assms(1) by (simp add: choice_def hd_conv_nth)
next
  case False
  let ?t = "takeWhile (\<lambda>e. key e \<le> target) es"
  have len: "0 < length ?t" "length ?t \<le> length es" using False by (auto simp: length_takeWhile_le)
  have zip: "takeWhile (\<lambda>p. key (fst p) \<le> target) (zip es ess) = zip ?t (take (length ?t) ess)"
    using assms(2)
  proof (induction es arbitrary: ess)
    case (Cons e es)
    then show ?case by (cases ess) auto
  qed simp
  have last: "last ?t = es ! (length ?t - 1)"
    using False len by (simp add: last_conv_nth takeWhile_nth)
  have last_zip: "last (zip ?t (take (length ?t) ess)) = (last ?t, ess ! (length ?t - 1))"
    using False len assms(2) by (subst last_conv_nth) (auto simp: last_conv_nth takeWhile_nth)
  show ?thesis
  proof (rule that [of "length ?t - 1"])
    show "length ?t - 1 < length es" using len by linarith
    show "choice key target es = es ! (length ?t - 1)" using False last by (simp add: choice_def)
    show "takeWhile (\<lambda>p. key (fst p) \<le> target) (zip es ess) = [] \<Longrightarrow> length ?t - 1 = 0"
      unfolding zip using False assms(2) len by (cases ?t; cases ess) auto
    show "snd (last (takeWhile (\<lambda>p. key (fst p) \<le> target) (zip es ess))) = ess ! (length ?t - 1)"
      unfolding zip last_zip by simp
  qed
qed

text \<open>
  The leaf that is reached holds the last entry of the tree up to the target, if there is one. What is known
  of a node and its entries may depend on the choices that led to it.
\<close>

lemma descend_latest_invariant:
  assumes "tree_entries child key h n = Some es" "sorted_by key es"
    and "good n es"
    and "\<And>n es m es'. good n es \<Longrightarrow> \<not> is_leaf n \<Longrightarrow> entries_array n \<noteq> [] \<Longrightarrow> key (hd (entries_array n)) = key (hd es) \<Longrightarrow>
      child n (choice key target (entries_array n)) = Some m \<Longrightarrow> key (hd es') = key (choice key target (entries_array n)) \<Longrightarrow> good m es'"
    and "\<And>n es'. good n es' \<Longrightarrow> \<not> is_leaf n \<Longrightarrow> key (hd (entries_array n)) = key (hd es') \<Longrightarrow> node_header n \<noteq> None \<Longrightarrow> entries_array n \<noteq> [] \<Longrightarrow>
      separators_of key (entries_array n) es \<Longrightarrow> pick n = Some (choice key target (entries_array n))"
  obtains m where "descend_to child pick h n = Some m" "is_leaf m" "latest key target (entries_array m) = latest key target es"
    "sorted_by key (entries_array m)" "set (entries_array m) \<subseteq> set es" "\<exists>es'. good m es'"
proof -
  have "\<exists>m. descend_to child pick h n = Some m \<and> is_leaf m \<and> latest key target (entries_array m) = latest key target es' \<and>
      sorted_by key (entries_array m) \<and> set (entries_array m) \<subseteq> set es' \<and> (\<exists>es'. good m es')"
    if "tree_entries child key h n = Some es'" "sorted_by key es'" "good n es'"
      "\<forall>k. count_list (map key es') k \<le> count_list (map key es) k" for es'
    using that
  proof (induction h arbitrary: n es')
    case 0
    then show ?case by (auto simp: tree_entries.simps [of _ _ 0] descend_to.simps [of _ _ 0] split: if_splits)
  next
    case (Suc h)
    show ?case
    proof (cases "is_leaf n")
      case True
      then show ?thesis using Suc.prems by (auto simp: tree_entries.simps [of _ _ _ n] descend_to.simps [of _ _ _ n])
    next
      case False
      obtain hd' ess where n: "node_header n = Some hd'" "entries_array n \<noteq> []" "length ess = length (entries_array n)"
        "es' = concat ess" "\<forall>p\<in>set (zip (entries_array n) ess). named_by key p"
        "\<forall>i<length ess. \<exists>m. child n (entries_array n ! i) = Some m \<and> tree_entries child key h m = Some (ess ! i)"
        by (rule tree_entries_branch [OF Suc.prems(1) False])
      let ?ps = "zip (entries_array n) ess"
      have snd: "map snd ?ps = ess" using n(3) by simp
      obtain i where i: "i < length (entries_array n)" "choice key target (entries_array n) = entries_array n ! i"
        "takeWhile (\<lambda>p. key (fst p) \<le> target) ?ps = [] \<Longrightarrow> i = 0"
        "takeWhile (\<lambda>p. key (fst p) \<le> target) ?ps \<noteq> [] \<Longrightarrow>
          snd (last (takeWhile (\<lambda>p. key (fst p) \<le> target) ?ps)) = ess ! i"
        using choice_index [OF n(2,3), of key target] by metis
      obtain m where m: "child n (entries_array n ! i) = Some m" "tree_entries child key h m = Some (ess ! i)"
        using n(3,6) i(1) by auto
      have "ess ! i \<in> set ess" using i(1) n(3) by simp
      then have sub: "set (ess ! i) \<subseteq> set es'" by (auto simp: n(4))
      have sorted: "sorted_by key (ess ! i)"
        using Suc.prems(2) i(1) n(3) unfolding n(4) by (metis concat_append concat.simps(2) id_take_nth_drop sorted_wrt_append)
      have same: "latest key target (ess ! i) = latest key target es'"
      proof (cases "takeWhile (\<lambda>p. key (fst p) \<le> target) ?ps = []")
        case True
        have "\<not> key (fst (hd ?ps)) \<le> target" using True n(2,3) by (cases "entries_array n"; cases ess) (auto split: if_splits)
        then have "\<forall>x\<in>set es'. target < key x"
          using latest_concat_None [OF n(5) _ _] Suc.prems(2) n(2-4) snd by (metis length_0_conv zip_eq_Nil_iff)
        then show ?thesis using sub latest_None [of key target] by (metis subsetD)
      next
        case False
        then show ?thesis
          using latest_chosen(1) [OF n(5) _ False] Suc.prems(2) i(4) unfolding snd n(4) by simp
      qed
      have "count_list (map key (ess ! i)) k \<le> count_list (map key es) k" for k
      proof -
        have "es' = concat (take i ess) @ ess ! i @ concat (drop (Suc i) ess)"
          using i(1) n(3) unfolding n(4) by (metis concat.simps(2) concat_append id_take_nth_drop)
        then have "count_list (map key (ess ! i)) k \<le> count_list (map key es') k" by (simp add: count_list_append)
        then show ?thesis using Suc.prems(4) order_trans by blast
      qed
      moreover have named: "key (hd (ess ! k)) = key (entries_array n ! k)" "ess ! k \<noteq> []" if "k < length ess" for k
        using n(3,5) that by (auto simp: set_zip named_by_def)
      have first: "key (hd (entries_array n)) = key (hd es')"
      proof -
        have 0: "0 < length ess" using n(2,3) by simp
        then have "hd es' = hd (ess ! 0)" using named(2) [OF 0] unfolding n(4) by (cases ess) auto
        then show ?thesis using named(1) [OF 0] n(2) by (simp add: hd_conv_nth)
      qed
      have "good m (ess ! i)"
        using assms(4) [OF Suc.prems(3) False n(2) first, of m "ess ! i"] m(1) i(1,2) n(3) named(1) [of i] by simp
      ultimately obtain m' where
        "descend_to child pick h m = Some m'" "is_leaf m'" "latest key target (entries_array m') = latest key target es'"
        "sorted_by key (entries_array m')" "set (entries_array m') \<subseteq> set es'" "\<exists>es'. good m' es'"
        using Suc.IH [OF m(2) sorted] same sub by auto
      moreover have "separators_of key (entries_array n) es"
        using separators_named [OF n(5)] Suc.prems(2,4) snd n(3)
        unfolding n(4) by (fastforce simp: separators_of_def intro: order_trans)
      ultimately show ?thesis
        using False assms(5) [OF Suc.prems(3) False first _ n(2)] n(1) m(1) i(2) by (simp add: descend_to.simps [of _ _ _ n])
    qed
  qed
  from this [OF assms(1-3)] show ?thesis using that by blast
qed

lemma descend_latest:
  assumes "tree_entries child key h n = Some es" "sorted_by key es"
    and "good n" "\<And>n e m. child n e = Some m \<Longrightarrow> good m"
    and "\<And>n. good n \<Longrightarrow> \<not> is_leaf n \<Longrightarrow> node_header n \<noteq> None \<Longrightarrow> entries_array n \<noteq> [] \<Longrightarrow>
      separators_of key (entries_array n) es \<Longrightarrow> pick n = Some (choice key target (entries_array n))"
  obtains m where "descend_to child pick h n = Some m" "is_leaf m" "latest key target (entries_array m) = latest key target es"
    "sorted_by key (entries_array m)" "set (entries_array m) \<subseteq> set es" "good m"
  by (rule descend_latest_invariant [where good = "\<lambda>n _. good n" and key = key and pick = pick and target = target, OF assms(1,2,3)])
    (use assms(4,5) in blast)+

section \<open>Descents\<close>

text \<open>
  A lookup loop that fetches the child of the chosen entry of a branch node and goes on there
  reaches the leaf of the descent, whatever the cache holds.
\<close>

locale tree_descent =
  fixes get_child :: "btree_node \<Rightarrow> btree_entry \<Rightarrow> ('s, btree_node) call"
    and child :: "btree_node \<Rightarrow> btree_entry \<Rightarrow> btree_node option"
    and valid :: "'s \<Rightarrow> bool"
    and pick :: "btree_node \<Rightarrow> btree_entry option"
    and limit :: nat
    and loop :: "nat \<Rightarrow> btree_node \<Rightarrow> ('s, 'r) call"
  assumes get_child: "valid s \<Longrightarrow> child n e = Some m \<Longrightarrow> \<exists>s'. get_child n e s = (Inr m, s') \<and> valid s'"
    and loop_branch: "valid s \<Longrightarrow> d \<le> limit \<Longrightarrow> \<not> is_leaf n \<Longrightarrow> pick n = Some e \<Longrightarrow> child n e = Some m \<Longrightarrow>
      loop d n s = bindS (get_child n e) (loop (Suc d)) s"
begin

lemma descends:
  assumes "descend_to child pick h n = Some m" "d + h \<le> limit" "valid s"
  shows "\<exists>d' s'. d' \<le> d + h \<and> valid s' \<and> loop d n s = loop d' m s'"
  using assms
proof (induction h arbitrary: n d s)
  case 0
  then show ?case by (auto simp: descend_to.simps [of _ _ 0] split: if_splits)
next
  case (Suc h)
  show ?case
  proof (cases "is_leaf n")
    case True
    then have "m = n" using Suc.prems(1) by (simp add: descend_to.simps [of _ _ _ n])
    with Suc.prems show ?thesis by (metis le_add1)
  next
    case False
    then obtain e n' where e: "pick n = Some e" "child n e = Some n'" "descend_to child pick h n' = Some m"
      using Suc.prems(1) by (auto simp: descend_to.simps [of _ _ _ n] split: option.splits)
    obtain s1 where s1: "get_child n e s = (Inr n', s1)" "valid s1"
      using get_child [OF Suc.prems(3) e(2)] by blast
    have "loop d n s = loop (Suc d) n' s1"
      using loop_branch [OF Suc.prems(3) _ False e(1,2), of d] Suc.prems(2) s1(1) by (simp add: bindS_def)
    with Suc.IH [OF e(3) _ s1(2), of "Suc d"] Suc.prems(2) show ?thesis by auto
  qed
qed

end

end
