(* ===== verification/Object_Map_Btree.thy ===== *)
theory Object_Map_Btree
  imports Tree_Search "HOL-Library.Product_Lexorder"
begin

text \<open>
  The object map: \<open>libfsapfs_object_map.c\<close>, \<open>libfsapfs_object_map_descriptor.c\<close> and the lookup of
  an object in its B-tree, \<open>libfsapfs_object_map_btree.c\<close>. A key of the tree is an object
  identifier with the transaction that wrote this version of the object.
\<close>

section \<open>Object map and descriptors\<close>

record object_map =
  number_of_snapshots :: nat
  btree_block_number :: nat
  snapshots_btree_block_number :: nat
  most_recent_snapshot_identifier :: nat

definition object_map_initialize :: "object_map option \<Rightarrow> object_map result" where
  "object_map_initialize object_map =
     (if object_map \<noteq> None then Inl RUNTIME_VALUE_ALREADY_SET
      else Inr \<lparr>number_of_snapshots = 0, btree_block_number = 0, snapshots_btree_block_number = 0,
                most_recent_snapshot_identifier = 0\<rparr>)"

definition object_map_read_data :: "object_map \<Rightarrow> bytes \<Rightarrow> nat \<Rightarrow> object_map result" where
  "object_map_read_data object_map data data_size =
     (if data_size < 88 \<or> data_size > SSIZE_MAX then Inl RUNTIME_VALUE_OUT_OF_BOUNDS
      else
        bindR (rd_u32_le data 24) (\<lambda>object_type.
          if object_type \<noteq> 0x4000000b then Inl RUNTIME_UNSUPPORTED_VALUE
          else bindR (rd_u32_le data 28) (\<lambda>object_subtype.
            if object_subtype \<noteq> 0 then Inl RUNTIME_UNSUPPORTED_VALUE
            else
              bindR (rd_u32_le data 36) (\<lambda>snapshots.
              bindR (rd_u64_le data 48) (\<lambda>block_number.
              bindR (rd_u64_le data 56) (\<lambda>snapshots_block_number.
              bindR (rd_u64_le data 64) (\<lambda>snapshot_identifier.
                Inr (object_map\<lparr>number_of_snapshots := snapshots, btree_block_number := block_number,
                  snapshots_btree_block_number := snapshots_block_number,
                  most_recent_snapshot_identifier := snapshot_identifier\<rparr>))))))))"

definition object_map_read_file_io_handle :: "object_map \<Rightarrow> file_io \<Rightarrow> nat \<Rightarrow> object_map result" where
  "object_map_read_file_io_handle object_map file_io_handle file_offset =
     bindR (read_buffer_at_offset file_io_handle file_offset 88) (\<lambda>data.
       object_map_read_data object_map data 88)"

record object_map_descriptor =
  descriptor_identifier :: nat
  transaction_identifier :: nat
  object_flags :: nat
  object_size :: nat
  physical_address :: nat

definition object_map_descriptor_initialize :: "object_map_descriptor option \<Rightarrow> object_map_descriptor result" where
  "object_map_descriptor_initialize object_map_descriptor =
     (if object_map_descriptor \<noteq> None then Inl RUNTIME_VALUE_ALREADY_SET
      else Inr \<lparr>descriptor_identifier = 0, transaction_identifier = 0, object_flags = 0, object_size = 0,
                physical_address = 0\<rparr>)"

definition object_map_descriptor_read_key_data ::
    "object_map_descriptor \<Rightarrow> bytes option \<Rightarrow> nat \<Rightarrow> object_map_descriptor result" where
  "object_map_descriptor_read_key_data descriptor data data_size =
     (case data of
        None \<Rightarrow> Inl RUNTIME_VALUE_MISSING
      | Some data \<Rightarrow>
          if data_size < 16 \<or> data_size > SSIZE_MAX then Inl RUNTIME_VALUE_OUT_OF_BOUNDS
          else
            bindR (rd_u64_le data 0) (\<lambda>object_identifier.
            bindR (rd_u64_le data 8) (\<lambda>object_transaction_identifier.
              Inr (descriptor\<lparr>descriptor_identifier := object_identifier,
                transaction_identifier := object_transaction_identifier\<rparr>))))"

definition object_map_descriptor_read_value_data ::
    "object_map_descriptor \<Rightarrow> bytes option \<Rightarrow> nat \<Rightarrow> object_map_descriptor result" where
  "object_map_descriptor_read_value_data descriptor data data_size =
     (case data of
        None \<Rightarrow> Inl RUNTIME_VALUE_MISSING
      | Some data \<Rightarrow>
          if data_size < 16 \<or> data_size > SSIZE_MAX then Inl RUNTIME_VALUE_OUT_OF_BOUNDS
          else
            bindR (rd_u32_le data 0) (\<lambda>flags_value.
            bindR (rd_u32_le data 4) (\<lambda>size_value.
            bindR (rd_u64_le data 8) (\<lambda>address.
              Inr (descriptor\<lparr>object_flags := flags_value, object_size := size_value,
                physical_address := address\<rparr>)))))"

section \<open>Nodes of the object map B-tree\<close>

text \<open>
  The tree: the node cache is the state that its calls change, the data block vector and the
  root block number do not change.
\<close>

record 's object_map_btree =
  node_cache :: "'s node_cache_operations"
  data_block_vector :: block_vector
  root_node_block_number :: nat

text \<open>The footer of a node with flag 1 is always set; the checks name it only there.\<close>

definition check_root_node :: "btree_node \<Rightarrow> unit result" where
  "check_root_node node =
     (if object_type node \<noteq> 0x40000002 then Inl RUNTIME_UNSUPPORTED_VALUE
      else if object_subtype node \<noteq> 0x0000000b then Inl RUNTIME_UNSUPPORTED_VALUE
      else case (node_header node, footer node) of
        (Some header, Some node_footer) \<Rightarrow>
          if flags header AND 0x0001 = 0 \<or> flags header AND 0x0004 = 0 then Inl RUNTIME_UNSUPPORTED_VALUE
          else if node_size node_footer \<noteq> 4096 then Inl RUNTIME_VALUE_OUT_OF_BOUNDS
          else if key_size node_footer \<noteq> 16 then Inl RUNTIME_VALUE_OUT_OF_BOUNDS
          else if value_size node_footer \<noteq> 16 then Inl RUNTIME_VALUE_OUT_OF_BOUNDS
          else Inr ()
      | (Some header, None) \<Rightarrow>
          if flags header AND 0x0001 = 0 \<or> flags header AND 0x0004 = 0 then Inl RUNTIME_UNSUPPORTED_VALUE
          else Inl OUT_OF_BOUNDS_ACCESS
      | (None, _) \<Rightarrow> Inl OUT_OF_BOUNDS_ACCESS)"

definition check_sub_node :: "btree_node \<Rightarrow> unit result" where
  "check_sub_node node =
     (if object_type node \<noteq> 0x40000003 then Inl RUNTIME_UNSUPPORTED_VALUE
      else if object_subtype node \<noteq> 0x0000000b then Inl RUNTIME_UNSUPPORTED_VALUE
      else case node_header node of
        Some header \<Rightarrow>
          if flags header AND 0x0001 \<noteq> 0 \<or> flags header AND 0x0004 = 0 then Inl RUNTIME_UNSUPPORTED_VALUE
          else Inr ()
      | None \<Rightarrow> Inl OUT_OF_BOUNDS_ACCESS)"

definition object_map_btree_get_root_node :: "'s object_map_btree \<Rightarrow> nat \<Rightarrow> ('s, btree_node) call" where
  "object_map_btree_get_root_node tree block_number =
     (if block_number > INT_MAX then failS RUNTIME_VALUE_OUT_OF_BOUNDS
      else get_cached_node (node_cache tree) (data_block_vector tree) check_root_node block_number)"

definition object_map_btree_get_sub_node :: "'s object_map_btree \<Rightarrow> nat \<Rightarrow> ('s, btree_node) call" where
  "object_map_btree_get_sub_node tree block_number =
     (if block_number > INT_MAX then failS RUNTIME_VALUE_OUT_OF_BOUNDS
      else get_cached_node (node_cache tree) (data_block_vector tree) check_sub_node block_number)"

section \<open>Lookup\<close>

text \<open>
  The loop over the entries of a node, given their indexes: the entry and the key that were
  examined last, and the last entry whose key is not beyond the one that is looked for.
\<close>

fun scan_node_entries ::
    "btree_node \<Rightarrow> nat \<Rightarrow> nat \<Rightarrow> nat list \<Rightarrow> btree_entry option \<times> nat \<times> nat \<times> btree_entry option \<times> nat
     \<Rightarrow> (btree_entry option \<times> nat \<times> nat \<times> btree_entry option \<times> nat) result" where
  "scan_node_entries node object_identifier transaction [] st = Inr st"
| "scan_node_entries node object_identifier transaction (btree_entry_index # rest)
     (entry, map_identifier, map_transaction, previous_entry, previous_identifier) =
     bindR (btree_node_get_entry_by_index node btree_entry_index) (\<lambda>entry.
       case key_data entry of
         None \<Rightarrow> Inl RUNTIME_VALUE_MISSING
       | Some key \<Rightarrow>
           if key_data_size entry < 16 then Inl RUNTIME_VALUE_OUT_OF_BOUNDS
           else
             bindR (rd_u64_le key 0) (\<lambda>map_identifier.
             bindR (rd_u64_le key 8) (\<lambda>map_transaction.
               if map_identifier > object_identifier \<or>
                  (map_identifier = object_identifier \<and> map_transaction > transaction)
               then Inr (Some entry, map_identifier, map_transaction, previous_entry, previous_identifier)
               else scan_node_entries node object_identifier transaction rest
                      (Some entry, map_identifier, map_transaction, Some entry, map_identifier))))"

text \<open>The inner option is the entry pointer, which may be NULL; \<open>None\<close> outside is "not found".\<close>

definition object_map_btree_get_entry_from_node_by_identifier ::
    "btree_node \<Rightarrow> nat \<Rightarrow> nat \<Rightarrow> btree_entry option option result" where
  "object_map_btree_get_entry_from_node_by_identifier node object_identifier transaction =
     bindR (btree_node_is_leaf_node node) (\<lambda>is_leaf_node.
     bindR (btree_node_get_number_of_entries node) (\<lambda>number_of_entries.
     bindR (scan_node_entries node object_identifier transaction [0..<number_of_entries] (None, 0, 0, None, 0))
       (\<lambda>(entry, map_identifier, map_transaction, previous_entry, previous_identifier).
       if is_leaf_node \<noteq> 0 then
         if previous_identifier = object_identifier then Inr (Some previous_entry) else Inr None
       else if previous_entry = None \<or> (map_identifier = object_identifier \<and> map_transaction \<le> transaction)
         then Inr (Some entry)
         else Inr (Some previous_entry))))"

definition MAXIMUM_BTREE_NODE_RECURSION_DEPTH :: nat where
  "MAXIMUM_BTREE_NODE_RECURSION_DEPTH = 256"

text \<open>The block of the child that an entry of a branch node names.\<close>

definition entry_sub_node_block_number :: "btree_entry option \<Rightarrow> nat result" where
  "entry_sub_node_block_number entry =
     (case entry of
        None \<Rightarrow> Inl RUNTIME_VALUE_MISSING
      | Some entry \<Rightarrow>
          (case value_data entry of
             None \<Rightarrow> Inl RUNTIME_VALUE_MISSING
           | Some data \<Rightarrow>
               if value_data_size entry < 8 then Inl RUNTIME_VALUE_OUT_OF_BOUNDS else rd_u64_le data 0))"

function lookup_from_node ::
    "'s object_map_btree \<Rightarrow> nat \<Rightarrow> nat \<Rightarrow> nat \<Rightarrow> btree_node
     \<Rightarrow> ('s, (btree_node \<times> btree_entry option) option) call" where
  "lookup_from_node tree object_identifier transaction recursion_depth node s =
     (if recursion_depth > MAXIMUM_BTREE_NODE_RECURSION_DEPTH then failS RUNTIME_VALUE_OUT_OF_BOUNDS s
      else
        bindS (liftS (btree_node_is_leaf_node node)) (\<lambda>is_leaf_node.
        bindS (liftS (object_map_btree_get_entry_from_node_by_identifier node object_identifier transaction))
          (\<lambda>found.
          case found of
            None \<Rightarrow> returnS None
          | Some entry \<Rightarrow>
              if is_leaf_node \<noteq> 0 then returnS (Some (node, entry))
              else
                bindS (liftS (entry_sub_node_block_number entry)) (\<lambda>sub_node_block_number.
                bindS (object_map_btree_get_sub_node tree sub_node_block_number) (\<lambda>sub_node.
                  lookup_from_node tree object_identifier transaction (recursion_depth + 1) sub_node)))) s)"
  by pat_completeness auto
termination
  by (relation "measure (\<lambda>(_, _, _, d, _). Suc MAXIMUM_BTREE_NODE_RECURSION_DEPTH - d)") auto

declare lookup_from_node.simps [simp del]

definition object_map_btree_get_entry_by_identifier ::
    "'s object_map_btree \<Rightarrow> nat \<Rightarrow> nat \<Rightarrow> ('s, (btree_node \<times> btree_entry option) option) call" where
  "object_map_btree_get_entry_by_identifier tree object_identifier transaction =
     bindS (object_map_btree_get_root_node tree (root_node_block_number tree)) (\<lambda>node.
       lookup_from_node tree object_identifier transaction 0 node)"

text \<open>The descriptor that was found, if any; \<open>descriptor\<close> is what the caller passes.\<close>

definition object_map_btree_get_descriptor_by_object_identifier ::
    "'s object_map_btree \<Rightarrow> nat \<Rightarrow> nat \<Rightarrow> object_map_descriptor option
     \<Rightarrow> ('s, object_map_descriptor option) call" where
  "object_map_btree_get_descriptor_by_object_identifier tree object_identifier transaction descriptor =
     (if descriptor \<noteq> None then failS RUNTIME_VALUE_ALREADY_SET
      else
        bindS (object_map_btree_get_entry_by_identifier tree object_identifier transaction) (\<lambda>found.
          case found of
            None \<Rightarrow> returnS None
          | Some (node, None) \<Rightarrow> failS RUNTIME_VALUE_MISSING
          | Some (node, Some entry) \<Rightarrow>
              liftS
                (bindR (object_map_descriptor_initialize None) (\<lambda>descriptor.
                 bindR (object_map_descriptor_read_key_data descriptor (key_data entry) (key_data_size entry)) (\<lambda>descriptor.
                 bindR (object_map_descriptor_read_value_data descriptor (value_data entry) (value_data_size entry)) (\<lambda>descriptor.
                   Inr (Some descriptor)))))))"

section \<open>Search in a node\<close>

text \<open>The key of an entry; keys are ordered by identifier, then by transaction.\<close>

definition entry_key :: "btree_entry \<Rightarrow> nat \<times> nat" where
  "entry_key e = (case key_data e of None \<Rightarrow> (0, 0)
     | Some k \<Rightarrow> (le_value (take 8 k), le_value (take 8 (drop 8 k))))"

definition entry_keyed :: "btree_entry \<Rightarrow> bool" where
  "entry_keyed e \<longleftrightarrow> (case key_data e of None \<Rightarrow> False | Some k \<Rightarrow> 16 \<le> key_data_size e \<and> 16 \<le> length k)"

text \<open>The entries whose keys are not beyond the target, in a node sorted by key.\<close>

definition upto_key :: "nat \<times> nat \<Rightarrow> btree_entry list \<Rightarrow> btree_entry list" where
  "upto_key target = takeWhile (\<lambda>e. entry_key e \<le> target)"

fun scan_result ::
    "nat \<times> nat \<Rightarrow> btree_entry list \<Rightarrow> btree_entry option \<times> nat \<times> nat \<times> btree_entry option \<times> nat
     \<Rightarrow> btree_entry option \<times> nat \<times> nat \<times> btree_entry option \<times> nat" where
  "scan_result target [] st = st"
| "scan_result target (e # es) (entry, mi, mt, prev, pi) =
     (if entry_key e \<le> target
      then scan_result target es (Some e, fst (entry_key e), snd (entry_key e), Some e, fst (entry_key e))
      else (Some e, fst (entry_key e), snd (entry_key e), prev, pi))"

lemma scan_node_entries_result:
  assumes "\<forall>e\<in>set (entries_array node). entry_keyed e" "i \<le> length (entries_array node)"
  shows "scan_node_entries node oid tr [i..<length (entries_array node)] st =
    Inr (scan_result (oid, tr) (drop i (entries_array node)) st)"
  using assms(2)
proof (induction i arbitrary: st rule: inc_induct)
  case base
  then show ?case by simp
next
  case (step i)
  let ?es = "entries_array node"
  obtain entry mi mt prev pid where st: "st = (entry, mi, mt, prev, pid)" by (cases st)
  have i: "[i..<length ?es] = i # [Suc i..<length ?es]" using step.hyps(2) by (simp add: upt_conv_Cons)
  have cons: "drop i ?es = ?es ! i # drop (Suc i) ?es" using step.hyps(2) by (simp add: Cons_nth_drop_Suc)
  obtain k where k: "key_data (?es ! i) = Some k" "16 \<le> key_data_size (?es ! i)" "16 \<le> length k"
    using assms(1) step.hyps(2) by (auto simp: entry_keyed_def split: option.splits dest: nth_mem)
  have key: "entry_key (?es ! i) = (le_value (take 8 k), le_value (take 8 (drop 8 k)))"
    by (simp add: entry_key_def k(1))
  show ?case
    unfolding i cons st using step.hyps(2) k key step.IH by (auto simp: btree_node_get_entry_by_index_def)
qed

lemma scan_result_upto:
  assumes "upto_key target es \<noteq> []"
  shows "\<exists>entry mi mt. scan_result target es st =
      (entry, mi, mt, Some (last (upto_key target es)), fst (entry_key (last (upto_key target es)))) \<and>
      ((mi, mt) \<le> target \<longrightarrow> entry = Some (last (upto_key target es)))"
  using assms
proof (induction es arbitrary: st)
  case (Cons e es)
  obtain entry mi mt prev pid where st: "st = (entry, mi, mt, prev, pid)" by (cases st)
  have e: "entry_key e \<le> target" using Cons.prems by (simp add: upto_key_def split: if_splits)
  then have up: "upto_key target (e # es) = e # upto_key target es" by (simp add: upto_key_def)
  show ?case
  proof (cases "upto_key target es = []")
    case True
    then show ?thesis
      unfolding up st using e by (cases es) (auto simp: upto_key_def split: if_splits)
  next
    case False
    from Cons.IH [OF this] show ?thesis unfolding up st using e False by simp
  qed
qed (simp add: upto_key_def)

lemma scan_result_none:
  assumes "upto_key target es = []"
  shows "scan_result target es (entry, mi, mt, prev, pid) =
    (case es of [] \<Rightarrow> (entry, mi, mt, prev, pid)
     | e # _ \<Rightarrow> (Some e, fst (entry_key e), snd (entry_key e), prev, pid))"
  using assms by (cases es) (simp_all add: upto_key_def split: if_splits)

text \<open>A leaf node yields the last entry up to the target if it is one of the object.\<close>

lemma get_entry_leaf:
  assumes "\<forall>e\<in>set (entries_array node). entry_keyed e" "node_header node = Some h" "flags h AND 2 \<noteq> 0"
  shows "object_map_btree_get_entry_from_node_by_identifier node oid tr =
    Inr (let found = upto_key (oid, tr) (entries_array node)
         in if found = [] then (if oid = 0 then Some None else None)
            else if fst (entry_key (last found)) = oid then Some (Some (last found)) else None)"
proof (cases "upto_key (oid, tr) (entries_array node) = []")
  case True
  then show ?thesis
    using assms scan_node_entries_result [OF assms(1), of 0 oid tr]
    by (auto simp: object_map_btree_get_entry_from_node_by_identifier_def btree_node_is_leaf_node_def
        btree_node_get_number_of_entries_def scan_result_none split: list.splits)
next
  case False
  obtain entry mi mt where scan: "scan_result (oid, tr) (entries_array node) (None, 0, 0, None, 0) =
      (entry, mi, mt, Some (last (upto_key (oid, tr) (entries_array node))),
       fst (entry_key (last (upto_key (oid, tr) (entries_array node)))))"
    using scan_result_upto [OF False] by blast
  show ?thesis
    using assms False scan scan_node_entries_result [OF assms(1), of 0 oid tr]
    by (simp add: object_map_btree_get_entry_from_node_by_identifier_def btree_node_is_leaf_node_def
        btree_node_get_number_of_entries_def Let_def)
qed

text \<open>A branch node yields the last entry up to the target, or else its first entry.\<close>

lemma get_entry_branch:
  assumes "\<forall>e\<in>set (entries_array node). entry_keyed e" "node_header node = Some h" "flags h AND 2 = 0"
    and "entries_array node \<noteq> []"
  shows "object_map_btree_get_entry_from_node_by_identifier node oid tr =
    Inr (Some (Some (if upto_key (oid, tr) (entries_array node) = [] then hd (entries_array node)
                     else last (upto_key (oid, tr) (entries_array node)))))"
proof (cases "upto_key (oid, tr) (entries_array node) = []")
  case True
  then show ?thesis
    using assms scan_node_entries_result [OF assms(1), of 0 oid tr]
    by (auto simp: object_map_btree_get_entry_from_node_by_identifier_def btree_node_is_leaf_node_def
        btree_node_get_number_of_entries_def scan_result_none split: list.splits)
next
  case False
  obtain entry mi mt where scan: "scan_result (oid, tr) (entries_array node) (None, 0, 0, None, 0) =
      (entry, mi, mt, Some (last (upto_key (oid, tr) (entries_array node))),
       fst (entry_key (last (upto_key (oid, tr) (entries_array node)))))"
    "(mi, mt) \<le> (oid, tr) \<longrightarrow> entry = Some (last (upto_key (oid, tr) (entries_array node)))"
    using scan_result_upto [OF False] by blast
  then have "mi = oid \<and> mt \<le> tr \<longrightarrow> entry = Some (last (upto_key (oid, tr) (entries_array node)))" by auto
  then show ?thesis
    using assms False scan(1) scan_node_entries_result [OF assms(1), of 0 oid tr]
    by (simp add: object_map_btree_get_entry_from_node_by_identifier_def btree_node_is_leaf_node_def
        btree_node_get_number_of_entries_def)
qed

section \<open>Lookup in the tree\<close>

text \<open>The child that an entry of a branch node names, if its block holds a valid sub node.\<close>

definition object_map_child :: "block_vector \<Rightarrow> btree_node \<Rightarrow> btree_entry \<Rightarrow> btree_node option" where
  "object_map_child blocks n e =
     (case entry_sub_node_block_number (Some e) of
        Inl _ \<Rightarrow> None
      | Inr i \<Rightarrow> if i > INT_MAX then None
          else (case read_node blocks i of Inl _ \<Rightarrow> None
            | Inr m \<Rightarrow> if check_sub_node m = Inr () then Some m else None))"

definition object_map_get_child :: "'s object_map_btree \<Rightarrow> btree_node \<Rightarrow> btree_entry \<Rightarrow> ('s, btree_node) call" where
  "object_map_get_child tree n e =
     bindS (liftS (entry_sub_node_block_number (Some e))) (object_map_btree_get_sub_node tree)"

text \<open>The cache is one of the documented kind and holds nodes as they are in their blocks.\<close>

definition cache_valid :: "'s object_map_btree \<Rightarrow> ('s \<Rightarrow> nat \<rightharpoonup> btree_node) \<Rightarrow> 's \<Rightarrow> bool" where
  "cache_valid tree contents s \<longleftrightarrow>
     cache_laws (node_cache tree) contents \<and> coherent (data_block_vector tree) (contents s)"

text \<open>The entry that a lookup follows in a branch node with keys in all its entries.\<close>

definition object_map_pick :: "nat \<times> nat \<Rightarrow> btree_node \<Rightarrow> btree_entry option" where
  "object_map_pick target n =
     (if node_header n = None \<or> entries_array n = [] \<or> \<not> list_all entry_keyed (entries_array n) then None
      else Some (choice entry_key target (entries_array n)))"

lemma object_map_get_child_valid:
  assumes "cache_valid tree contents s" "object_map_child (data_block_vector tree) n e = Some m"
  shows "\<exists>s'. object_map_get_child tree n e s = (Inr m, s') \<and> cache_valid tree contents s'"
proof -
  obtain i where i: "entry_sub_node_block_number (Some e) = Inr i" "i \<le> INT_MAX"
    "read_node (data_block_vector tree) i = Inr m" "check_sub_node m = Inr ()"
    using assms(2) by (auto simp: object_map_child_def split: sum.splits if_splits)
  obtain r s' where get: "get_cached_node (node_cache tree) (data_block_vector tree) check_sub_node i s = (r, s')"
    by fastforce
  note laws = assms(1) [unfolded cache_valid_def]
  from get_cached_node_coherent [OF conjunct1 [OF laws] conjunct2 [OF laws] get] i laws
  have "r = Inr m" "cache_valid tree contents s'" by (simp_all add: cache_valid_def)
  then show ?thesis
    using get i by (simp add: object_map_get_child_def object_map_btree_get_sub_node_def)
qed

lemma lookup_branch:
  assumes "d \<le> MAXIMUM_BTREE_NODE_RECURSION_DEPTH" "\<not> is_leaf n" "object_map_pick (oid, tr) n = Some e"
  shows "lookup_from_node tree oid tr d n s =
    bindS (object_map_get_child tree n e) (lookup_from_node tree oid tr (Suc d)) s"
proof -
  obtain h where h: "node_header n = Some h" "flags h AND 2 = 0"
    using assms(2,3) by (auto simp: is_leaf_def object_map_pick_def split: if_splits)
  have es: "entries_array n \<noteq> []" "\<forall>e\<in>set (entries_array n). entry_keyed e" "e = choice entry_key (oid, tr) (entries_array n)"
    using assms(3) by (auto simp: object_map_pick_def list_all_iff split: if_splits)
  have "object_map_btree_get_entry_from_node_by_identifier n oid tr = Inr (Some (Some e))"
    using get_entry_branch [OF es(2) h es(1), of oid tr] es(3) by (simp add: choice_def upto_key_def Let_def)
  then show ?thesis
    using assms(1) h
    by (cases "entry_sub_node_block_number (Some e)")
      (simp_all add: lookup_from_node.simps [of tree oid tr d] btree_node_is_leaf_node_def object_map_get_child_def bindS_def)
qed

interpretation object_map_lookup: tree_descent "object_map_get_child tree" "object_map_child (data_block_vector tree)"
    "cache_valid tree contents" "object_map_pick (oid, tr)" MAXIMUM_BTREE_NODE_RECURSION_DEPTH
    "lookup_from_node tree oid tr"
  for tree :: "'s object_map_btree" and contents :: "'s \<Rightarrow> nat \<rightharpoonup> btree_node" and oid tr :: nat
proof unfold_locales
  show "\<exists>s'. object_map_get_child tree n e s = (Inr m, s') \<and> cache_valid tree contents s'"
    if "cache_valid tree contents s" "object_map_child (data_block_vector tree) n e = Some m" for s n e m
    by (rule object_map_get_child_valid [OF that])
  show "lookup_from_node tree oid tr d n s = bindS (object_map_get_child tree n e) (lookup_from_node tree oid tr (Suc d)) s"
    if "d \<le> MAXIMUM_BTREE_NODE_RECURSION_DEPTH" "\<not> is_leaf n" "object_map_pick (oid, tr) n = Some e" for d n e s
    by (rule lookup_branch [OF that])
qed

text \<open>Nodes of fixed entry size that were read from a block have whole keys and values.\<close>

lemma read_node_sized:
  assumes "read_node blocks i = Inr n" "node_header n = Some h" "flags h AND 4 \<noteq> 0" "e \<in> set (entries_array n)"
  shows "entry_keyed e" "\<exists>v. value_data e = Some v \<and> length v = value_data_size e \<and>
    value_data_size e = (if flags h AND 2 = 0 then 8 else 16)" "\<exists>k. key_data e = Some k \<and> length k = 16 \<and> key_data_size e = 16"
proof -
  obtain data m where data: "btree_node_initialize None = Inr m" "btree_node_read_data m data (length data) = Inr n"
    using assms(1) by (auto simp: read_node_def result_simps split: option.splits)
  have "node_from data (length data) n"
    using postD [OF btree_node_read_data_post [OF order_refl data(1)] data(2)] .
  then have e: "entry_from data (length data) e" "entry_sizes_ok (flags h) e" using assms(2,4) by (auto simp: node_from_def)
  then have sizes: "key_data_size e = 16" "value_data_size e = (if flags h AND 2 = 0 then 8 else 16)"
    using assms(3) by (auto simp: entry_sizes_ok_def)
  then obtain k v where "key_data e = Some k" "value_data e = Some v"
    using e(1) by (auto simp: entry_from_def data_at_def split: if_splits)
  moreover from this have "length k = 16" "length v = value_data_size e"
    using e(1) sizes data_at_length [of data "length data"] by (auto simp: entry_from_def)
  ultimately show "entry_keyed e" "\<exists>v. value_data e = Some v \<and> length v = value_data_size e \<and>
      value_data_size e = (if flags h AND 2 = 0 then 8 else 16)" "\<exists>k. key_data e = Some k \<and> length k = 16 \<and> key_data_size e = 16"
    using sizes by (simp_all add: entry_keyed_def)
qed

text \<open>The root node as the tree gets it.\<close>

definition object_map_root :: "'s object_map_btree \<Rightarrow> btree_node option" where
  "object_map_root tree =
     (if root_node_block_number tree > INT_MAX then None
      else case read_node (data_block_vector tree) (root_node_block_number tree) of
        Inl _ \<Rightarrow> None
      | Inr n \<Rightarrow> if check_root_node n = Inr () then Some n else None)"

text \<open>The entries of an object map of at most the given height, in the order of their keys.\<close>

definition object_map_entries :: "'s object_map_btree \<Rightarrow> nat \<Rightarrow> btree_entry list option" where
  "object_map_entries tree h =
     (case object_map_root tree of
        None \<Rightarrow> None
      | Some n \<Rightarrow> (case tree_entries (object_map_child (data_block_vector tree)) entry_key h n of
          None \<Rightarrow> None
        | Some es \<Rightarrow> if sorted_by entry_key es then Some es else None))"

definition sized_node :: "btree_node \<Rightarrow> bool" where
  "sized_node n \<longleftrightarrow> (\<exists>h blocks i. node_header n = Some h \<and> flags h AND 4 \<noteq> 0 \<and> read_node blocks i = Inr n)"

lemma sized_node_entries:
  assumes "sized_node n"
  shows "\<forall>e\<in>set (entries_array n). entry_keyed e" "list_all entry_keyed (entries_array n)"
  using assms read_node_sized(1) by (auto simp: sized_node_def list_all_iff)

lemma object_map_child_sized: "object_map_child blocks n e = Some m \<Longrightarrow> sized_node m"
  by (auto simp: object_map_child_def check_sub_node_def sized_node_def split: sum.splits if_splits option.splits)

lemma object_map_root_sized: "object_map_root tree = Some n \<Longrightarrow> sized_node n"
  by (auto simp: object_map_root_def check_root_node_def sized_node_def split: sum.splits if_splits option.splits)

text \<open>The lookup of an entry, for a well-formed tree that is not too high.\<close>

lemma get_entry_by_identifier_found:
  assumes "cache_valid tree contents s" "object_map_entries tree h = Some es"
    and "h \<le> MAXIMUM_BTREE_NODE_RECURSION_DEPTH"
  obtains s' m where "cache_valid tree contents s'" "sized_node m" "is_leaf m"
    "set (entries_array m) \<subseteq> set es"
    "object_map_btree_get_entry_by_identifier tree oid tr s =
      (Inr (case latest entry_key (oid, tr) es of
         None \<Rightarrow> if oid = 0 then Some (m, None) else None
       | Some e \<Rightarrow> if fst (entry_key e) = oid then Some (m, Some e) else None), s')"
    "\<forall>e. latest entry_key (oid, tr) es = Some e \<longrightarrow> e \<in> set (entries_array m)"
proof -
  obtain n where n: "object_map_root tree = Some n" "sorted_by entry_key es"
    "tree_entries (object_map_child (data_block_vector tree)) entry_key h n = Some es"
    using assms(2) by (auto simp: object_map_entries_def split: option.splits if_splits)
  obtain r s1 where get: "get_cached_node (node_cache tree) (data_block_vector tree) check_root_node
      (root_node_block_number tree) s = (r, s1)" by fastforce
  note laws = assms(1) [unfolded cache_valid_def]
  have at: "root_node_block_number tree \<le> INT_MAX"
    "read_node (data_block_vector tree) (root_node_block_number tree) = Inr n" "check_root_node n = Inr ()"
    using n(1) by (auto simp: object_map_root_def split: sum.splits if_splits)
  note coh = get_cached_node_coherent [OF conjunct1 [OF laws] conjunct2 [OF laws] get]
  have root: "r = Inr n" "cache_valid tree contents s1"
    using coh(3) [OF at(2,3)] coh(1) laws by (simp_all add: cache_valid_def)
  obtain m where m: "descend_to (object_map_child (data_block_vector tree)) (object_map_pick (oid, tr)) h n = Some m"
    "is_leaf m" "latest entry_key (oid, tr) (entries_array m) = latest entry_key (oid, tr) es"
    "sorted_by entry_key (entries_array m)" "set (entries_array m) \<subseteq> set es" "sized_node m"
  proof (rule descend_latest [where good = sized_node and pick = "object_map_pick (oid, tr)" and target = "(oid, tr)", OF n(3,2) object_map_root_sized [OF n(1)]])
    show "\<And>n e m. object_map_child (data_block_vector tree) n e = Some m \<Longrightarrow> sized_node m"
      by (rule object_map_child_sized)
    show "object_map_pick (oid, tr) n = Some (choice entry_key (oid, tr) (entries_array n))"
      if "sized_node n" "\<not> is_leaf n" "node_header n \<noteq> None" "entries_array n \<noteq> []" for n
      using that sized_node_entries(2) [OF that(1)] by (simp add: object_map_pick_def)
  qed blast
  obtain d s' where d: "d \<le> 0 + h" "cache_valid tree contents s'"
    "lookup_from_node tree oid tr 0 n s1 = lookup_from_node tree oid tr d m s'"
    using object_map_lookup.descends [OF m(1) _ root(2), of 0] assms(3) by auto
  obtain hd' where hd': "node_header m = Some hd'" "flags hd' AND 2 \<noteq> 0" using m(2) by (auto simp: is_leaf_def split: option.splits)
  have upto: "upto_key (oid, tr) (entries_array m) = filter (\<lambda>e. entry_key e \<le> (oid, tr)) (entries_array m)"
    unfolding upto_key_def by (rule upto_sorted [OF m(4)])
  have found: "object_map_btree_get_entry_from_node_by_identifier m oid tr =
      Inr (case latest entry_key (oid, tr) es of
         None \<Rightarrow> if oid = 0 then Some None else None
       | Some e \<Rightarrow> if fst (entry_key e) = oid then Some (Some e) else None)"
    unfolding get_entry_leaf [OF sized_node_entries(1) [OF m(6)] hd'] upto m(3) [symmetric]
    by (auto simp: latest_def split: list.splits)
  have "lookup_from_node tree oid tr d m s' =
      (Inr (case latest entry_key (oid, tr) es of
         None \<Rightarrow> if oid = 0 then Some (m, None) else None
       | Some e \<Rightarrow> if fst (entry_key e) = oid then Some (m, Some e) else None), s')"
    using d(1) assms(3) hd' found
    by (auto simp: lookup_from_node.simps [of tree oid tr d] btree_node_is_leaf_node_def split: option.splits)
  then have "object_map_btree_get_entry_by_identifier tree oid tr s =
      (Inr (case latest entry_key (oid, tr) es of
         None \<Rightarrow> if oid = 0 then Some (m, None) else None
       | Some e \<Rightarrow> if fst (entry_key e) = oid then Some (m, Some e) else None), s')"
    using root get d(3) at(1)
    by (simp add: object_map_btree_get_entry_by_identifier_def object_map_btree_get_root_node_def bindS_def)
  moreover have "\<forall>e. latest entry_key (oid, tr) es = Some e \<longrightarrow> e \<in> set (entries_array m)"
    using latest_Some(1) [OF _ m(4)] m(3) by metis
  ultimately show ?thesis using that d(2) m by blast
qed

text \<open>The descriptor that an entry of a leaf holds.\<close>

definition descriptor_of :: "btree_entry \<Rightarrow> object_map_descriptor" where
  "descriptor_of e = \<lparr>descriptor_identifier = fst (entry_key e), transaction_identifier = snd (entry_key e),
     object_flags = le_value (take 4 (the (value_data e))),
     object_size = le_value (take 4 (drop 4 (the (value_data e)))),
     physical_address = le_value (take 8 (drop 8 (the (value_data e))))\<rparr>"

lemma read_descriptor:
  assumes "sized_node m" "is_leaf m" "e \<in> set (entries_array m)"
  shows "bindR (object_map_descriptor_initialize None) (\<lambda>d.
      bindR (object_map_descriptor_read_key_data d (key_data e) (key_data_size e)) (\<lambda>d.
      bindR (object_map_descriptor_read_value_data d (value_data e) (value_data_size e)) (\<lambda>d. Inr (Some d)))) =
    Inr (Some (descriptor_of e))"
proof -
  obtain h blocks i where h: "node_header m = Some h" "flags h AND 4 \<noteq> 0" "read_node blocks i = Inr m"
    using assms(1) by (auto simp: sized_node_def)
  have "flags h AND 2 \<noteq> 0" using assms(2) h(1) by (simp add: is_leaf_def)
  with read_node_sized(2,3) [OF h(3,1,2) assms(3)] obtain k v where
    "key_data e = Some k" "length k = 16" "key_data_size e = 16"
    "value_data e = Some v" "length v = 16" "value_data_size e = 16" by auto
  then show ?thesis
    by (simp add: object_map_descriptor_initialize_def object_map_descriptor_read_key_data_def
        object_map_descriptor_read_value_data_def descriptor_of_def entry_key_def SSIZE_MAX_def)
qed

lemma get_descriptor_found:
  assumes "cache_valid tree contents s" "object_map_entries tree h = Some es"
    and "h \<le> MAXIMUM_BTREE_NODE_RECURSION_DEPTH" "oid \<noteq> 0"
  shows "\<exists>s'. cache_valid tree contents s' \<and>
    object_map_btree_get_descriptor_by_object_identifier tree oid tr None s =
      (Inr (case latest entry_key (oid, tr) es of None \<Rightarrow> None
         | Some e \<Rightarrow> if fst (entry_key e) = oid then Some (descriptor_of e) else None), s')"
proof -
  obtain s' m where s': "cache_valid tree contents s'" and m: "sized_node m" "is_leaf m"
    and run: "object_map_btree_get_entry_by_identifier tree oid tr s =
      (Inr (case latest entry_key (oid, tr) es of
         None \<Rightarrow> if oid = 0 then Some (m, None) else None
       | Some e \<Rightarrow> if fst (entry_key e) = oid then Some (m, Some e) else None), s')"
    and mem: "\<forall>e. latest entry_key (oid, tr) es = Some e \<longrightarrow> e \<in> set (entries_array m)"
    by (rule get_entry_by_identifier_found [OF assms(1-3)]) blast
  show ?thesis
  proof (cases "latest entry_key (oid, tr) es")
    case None
    then show ?thesis
      using s' run assms(4) by (auto simp: object_map_btree_get_descriptor_by_object_identifier_def bindS_def)
  next
    case (Some e)
    then have "e \<in> set (entries_array m)" using mem by blast
    then show ?thesis
      using Some s' run read_descriptor [OF m]
      by (auto simp: object_map_btree_get_descriptor_by_object_identifier_def bindS_def)
  qed
qed

section \<open>Safety\<close>

lemma check_node_safe:
  "block_node n \<Longrightarrow> safe (check_root_node n)" "block_node n \<Longrightarrow> safe (check_sub_node n)"
  by (auto simp: check_root_node_def check_sub_node_def block_node_def split: option.splits)

lemma scan_node_entries_safe:
  assumes "block_node n" "set is \<subseteq> {..<length (entries_array n)}"
    and "st = (entry, mi, mt, prev, pid)" "set_option entry \<subseteq> set (entries_array n)" "set_option prev \<subseteq> set (entries_array n)"
  shows "post lib_error (\<lambda>(entry, mi, mt, prev, pid). set_option entry \<subseteq> set (entries_array n) \<and>
           set_option prev \<subseteq> set (entries_array n)) (scan_node_entries n oid tr is st)"
  using assms(2-)
proof (induction "is" arbitrary: st entry mi mt prev pid)
  case (Cons i "is")
  let ?e = "entries_array n ! i"
  have i: "i < length (entries_array n)" using Cons.prems(1) by simp
  then have mem: "?e \<in> set (entries_array n)" by simp
  then have len: "\<And>k. key_data ?e = Some k \<Longrightarrow> length k = key_data_size ?e" using assms(1) by (auto simp: block_node_def)
  show ?case
  proof (cases "key_data ?e")
    case None
    then show ?thesis using i Cons.prems(2) by (simp add: btree_node_get_entry_by_index_def)
  next
    case (Some k)
    show ?thesis
    proof (cases "key_data_size ?e < 16")
      case True
      then show ?thesis using i Some Cons.prems(2) by (simp add: btree_node_get_entry_by_index_def)
    next
      case False
      then have "16 \<le> length k" using len [OF Some] by simp
      then show ?thesis
        using i Some False mem Cons.prems Cons.IH [OF _ refl, of "Some ?e" "Some ?e"]
        by (auto simp: btree_node_get_entry_by_index_def)
    qed
  qed
qed auto

lemma get_entry_from_node_safe:
  assumes "block_node n"
  shows "post lib_error (\<lambda>found. \<forall>e. found = Some (Some e) \<longrightarrow> e \<in> set (entries_array n))
    (object_map_btree_get_entry_from_node_by_identifier n oid tr)"
proof -
  obtain h where h: "node_header n = Some h" using assms by (auto simp: block_node_def)
  have scan: "post lib_error (\<lambda>(entry, mi, mt, prev, pid). set_option entry \<subseteq> set (entries_array n) \<and>
      set_option prev \<subseteq> set (entries_array n))
      (scan_node_entries n oid tr [0..<length (entries_array n)] (None, 0, 0, None, 0))"
    by (rule scan_node_entries_safe [OF assms _ refl]) auto
  show ?thesis
    unfolding object_map_btree_get_entry_from_node_by_identifier_def btree_node_is_leaf_node_def h
      btree_node_get_number_of_entries_def bindR_simps option.case
    by (rule post_bindR [OF scan]) auto
qed

lemma entry_sub_node_block_number_safe:
  assumes "block_node n" "\<forall>e. entry = Some e \<longrightarrow> e \<in> set (entries_array n)"
  shows "safe (entry_sub_node_block_number entry)"
proof (cases entry)
  case (Some e)
  then have "\<forall>v. value_data e = Some v \<longrightarrow> length v = value_data_size e" using assms by (auto simp: block_node_def)
  then show ?thesis by (auto simp: entry_sub_node_block_number_def Some split: option.splits)
qed (simp add: entry_sub_node_block_number_def)

definition tree_valid :: "'s object_map_btree \<Rightarrow> ('s \<Rightarrow> nat \<rightharpoonup> btree_node) \<Rightarrow> 's \<Rightarrow> bool" where
  "tree_valid tree contents s \<longleftrightarrow> cache_valid tree contents s \<and> (\<forall>i. safe (data_block_vector tree i))"

lemma get_node_call_safe:
  assumes "tree_valid tree contents s"
  shows "call_safe (tree_valid tree contents) block_node (object_map_btree_get_root_node tree i s)"
    and "call_safe (tree_valid tree contents) block_node (object_map_btree_get_sub_node tree i s)"
proof -
  have v: "cache_laws (node_cache tree) contents" "coherent (data_block_vector tree) (contents s)"
    "\<And>i. safe (data_block_vector tree i)"
    using assms by (auto simp: tree_valid_def cache_valid_def)
  have node: "call_safe (tree_valid tree contents) block_node
      (get_cached_node (node_cache tree) (data_block_vector tree) check i s)"
    if "\<And>n. block_node n \<Longrightarrow> safe (check n)" for check
  proof (cases "get_cached_node (node_cache tree) (data_block_vector tree) check i s")
    case (Pair r s')
    from get_cached_node_safe [OF v that Pair] show ?thesis
      using v by (cases r) (auto simp: Pair tree_valid_def cache_valid_def lib_error_def)
  qed
  show "call_safe (tree_valid tree contents) block_node (object_map_btree_get_root_node tree i s)"
    "call_safe (tree_valid tree contents) block_node (object_map_btree_get_sub_node tree i s)"
    using node check_node_safe assms
    by (simp_all add: object_map_btree_get_root_node_def object_map_btree_get_sub_node_def)
qed

definition found_in_node :: "(btree_node \<times> btree_entry option) option \<Rightarrow> bool" where
  "found_in_node r \<longleftrightarrow> (case r of None \<Rightarrow> True
     | Some (n, e) \<Rightarrow> block_node n \<and> set_option e \<subseteq> set (entries_array n))"

lemma lookup_from_node_safe:
  assumes "tree_valid tree contents s" "block_node n"
  shows "call_safe (tree_valid tree contents) found_in_node (lookup_from_node tree oid tr d n s)"
  using assms
proof (induction tree oid tr d n s rule: lookup_from_node.induct)
  case (1 tree oid tr d n s)
  show ?case
  proof (cases "d > MAXIMUM_BTREE_NODE_RECURSION_DEPTH")
    case True
    then show ?thesis using "1.prems" by (simp add: lookup_from_node.simps [of tree oid tr d])
  next
    case False
    obtain h where h: "node_header n = Some h" using "1.prems"(2) by (auto simp: block_node_def)
    show ?thesis
    proof (cases "object_map_btree_get_entry_from_node_by_identifier n oid tr")
      case (Inl e)
      then show ?thesis
        using False h "1.prems" get_entry_from_node_safe [OF "1.prems"(2), of oid tr]
        by (simp add: lookup_from_node.simps [of tree oid tr d] btree_node_is_leaf_node_def)
    next
      case (Inr found)
      have in_node: "\<forall>e. found = Some (Some e) \<longrightarrow> e \<in> set (entries_array n)"
        using get_entry_from_node_safe [OF "1.prems"(2), of oid tr] Inr by simp
      show ?thesis
      proof (cases "found = None \<or> flags h AND 2 \<noteq> 0")
        case True
        then show ?thesis
          using False h Inr "1.prems" in_node
          by (auto simp: lookup_from_node.simps [of tree oid tr d] btree_node_is_leaf_node_def found_in_node_def split: option.splits)
      next
        case branch: False
        then obtain entry where entry: "found = Some entry" "flags h AND 2 = 0" by auto
        have sub: "post lib_error (\<lambda>_. True) (entry_sub_node_block_number entry)"
          using entry_sub_node_block_number_safe [OF "1.prems"(2)] in_node entry(1) by (auto simp: safe_post)
        have unfold: "lookup_from_node tree oid tr d n s =
            bindS (liftS (entry_sub_node_block_number entry)) (\<lambda>i. bindS (object_map_btree_get_sub_node tree i)
              (lookup_from_node tree oid tr (d + 1))) s"
          using False h Inr entry by (simp add: lookup_from_node.simps [of tree oid tr d] btree_node_is_leaf_node_def)
        have next_node: "call_safe (tree_valid tree contents) found_in_node (lookup_from_node tree oid tr (d + 1) n' s')"
          if "tree_valid tree contents s'" "block_node n'" "entry_sub_node_block_number entry = Inr i"
            "object_map_btree_get_sub_node tree i s = (Inr n', s')" for i n' s'
          by (rule "1.IH")
            (use False h Inr entry that in \<open>simp_all add: btree_node_is_leaf_node_def\<close>)
        show ?thesis
        proof (cases "entry_sub_node_block_number entry")
          case (Inl e)
          then show ?thesis unfolding unfold using sub "1.prems"(1) by simp
        next
          case i: (Inr i)
          obtain r s' where get: "object_map_btree_get_sub_node tree i s = (r, s')" by fastforce
          show ?thesis
            using get_node_call_safe(2) [OF "1.prems"(1), of i] next_node [OF _ _ i]
            unfolding unfold i get by (cases r) (auto simp: bindS_def get)
        qed
      qed
    qed
  qed
qed

lemma get_descriptor_safe:
  assumes "tree_valid tree contents s"
  shows "call_safe (tree_valid tree contents) (\<lambda>_. True)
    (object_map_btree_get_descriptor_by_object_identifier tree oid tr descriptor s)"
proof (cases "descriptor = None")
  case False
  then show ?thesis using assms by (simp add: object_map_btree_get_descriptor_by_object_identifier_def)
next
  case True
  have entry: "call_safe (tree_valid tree contents) found_in_node (object_map_btree_get_entry_by_identifier tree oid tr s)"
    unfolding object_map_btree_get_entry_by_identifier_def
    by (rule call_safe_bindS, rule get_node_call_safe(1) [OF assms], rule lookup_from_node_safe)
  have read: "post lib_error (\<lambda>_. True) (bindR (object_map_descriptor_initialize None) (\<lambda>d.
      bindR (object_map_descriptor_read_key_data d (key_data e) (key_data_size e)) (\<lambda>d.
      bindR (object_map_descriptor_read_value_data d (value_data e) (value_data_size e)) (\<lambda>d. Inr (Some d)))))"
    if "found_in_node (Some (n, Some e))" for n e
  proof -
    have "\<forall>k. key_data e = Some k \<longrightarrow> length k = key_data_size e" "\<forall>v. value_data e = Some v \<longrightarrow> length v = value_data_size e"
      using that by (auto simp: found_in_node_def block_node_def)
    then show ?thesis
      by (auto simp: object_map_descriptor_initialize_def object_map_descriptor_read_key_data_def
          object_map_descriptor_read_value_data_def split: option.splits)
  qed
  show ?thesis
    unfolding object_map_btree_get_descriptor_by_object_identifier_def
    using True read
    by simp (rule call_safe_bindS, rule entry, auto split: option.splits simp: call_safe_def)
qed

text \<open>A tree of a root and a leaf with two versions of object 7, for the witnesses.\<close>

definition sample_key :: "nat \<Rightarrow> bytes" where
  "sample_key tr = le_encode 8 7 @ le_encode 8 tr"

definition sample_value :: "nat \<Rightarrow> bytes" where
  "sample_value address = le_encode 4 0 @ le_encode 4 4096 @ le_encode 8 address"

definition sample_footer :: btree_footer where
  "sample_footer = \<lparr>footer_flags = 0, node_size = 4096, key_size = 16, value_size = 16,
     maximum_key_size = 16, maximum_value_size = 16\<rparr>"

definition sample_leaf :: "(bytes \<times> bytes) list" where
  "sample_leaf = [(sample_key 3, sample_value 100), (sample_key 5, sample_value 200)]"

definition sample_blocks :: block_vector where
  "sample_blocks i =
     (if i = 1 then Inr (Some (encode_node 0x40000002 0x0b 5 1 41 [(sample_key 3, le_encode 8 2)] (Some sample_footer)))
      else if i = 2 then Inr (Some (encode_node 0x40000003 0x0b 6 0 41 sample_leaf None))
      else Inr None)"

definition sample_tree :: "(nat \<rightharpoonup> btree_node) object_map_btree" where
  "sample_tree = \<lparr>node_cache = map_cache, data_block_vector = sample_blocks, root_node_block_number = 1\<rparr>"

lemma read_node_encoded:
  assumes "blocks i = Inr (Some (encode_node t subtype node_flags node_level unused kvs f))"
    and "node_writable t subtype node_flags node_level unused kvs f"
  shows "read_node blocks i = Inr (node_of t subtype node_flags node_level unused kvs f)"
  using btree_node_read_encoded [OF assms(2) refl] assms(1) by (simp add: read_node_def btree_node_initialize_def)

lemma sample_nodes:
  "read_node sample_blocks 1 = Inr (node_of 0x40000002 0x0b 5 1 41 [(sample_key 3, le_encode 8 2)] (Some sample_footer))"
  "read_node sample_blocks 2 = Inr (node_of 0x40000003 0x0b 6 0 41 sample_leaf None)"
  by (rule read_node_encoded;
      simp add: sample_blocks_def node_writable_def sizes_allowed_def sample_key_def sample_value_def sample_leaf_def
        sample_footer_def encode_node_def encode_footer_option_def encode_location_def)+

lemma sample_entries: "object_map_entries sample_tree 1 = Some (map entry_of sample_leaf)"
proof -
  have keys: "entry_key (entry_of (sample_key tr, v)) = (7, tr mod 2 ^ 64)" for tr v
    by (simp add: entry_key_def entry_of_def sample_key_def)
  have sub: "entry_sub_node_block_number (Some (entry_of (k, le_encode 8 2))) = Inr 2" for k
    by (simp add: entry_sub_node_block_number_def entry_of_def)
  let ?leaf = "node_of 0x40000003 0x0b 6 0 41 sample_leaf None"
  have child: "object_map_child sample_blocks n (entry_of (k, le_encode 8 2)) = Some ?leaf" for n k
    by (simp add: object_map_child_def sub sample_nodes INT_MAX_def check_sub_node_def node_of_def header_of_def)
  have leaf: "is_leaf ?leaf" "entries_array ?leaf = map entry_of sample_leaf"
    by (simp_all add: is_leaf_def node_of_def header_of_def)
  let ?root = "node_of 0x40000002 0x0b 5 1 41 [(sample_key 3, le_encode 8 2)] (Some sample_footer)"
  have branch: "\<not> is_leaf ?root" "entries_array ?root = [entry_of (sample_key 3, le_encode 8 2)]" "node_header ?root \<noteq> None"
    by (simp_all add: is_leaf_def node_of_def header_of_def)
  have "tree_entries (object_map_child sample_blocks) entry_key 0 ?leaf = Some (map entry_of sample_leaf)"
    using leaf by (simp add: tree_entries.simps [of _ _ 0])
  moreover have "map entry_of sample_leaf =
      entry_of (sample_key 3, sample_value 100) # [entry_of (sample_key 5, sample_value 200)]"
    by (simp add: sample_leaf_def)
  ultimately have tree: "tree_entries (object_map_child sample_blocks) entry_key (Suc 0) ?root = Some (map entry_of sample_leaf)"
    using branch child keys by (subst tree_entries.simps) simp
  have root: "check_root_node (node_of 0x40000002 0x0b 5 1 41 [(sample_key 3, le_encode 8 2)] (Some sample_footer)) = Inr ()"
    by (simp add: check_root_node_def node_of_def header_of_def sample_footer_def)
  have "sorted_by entry_key (map entry_of sample_leaf)" by (simp add: sample_leaf_def keys)
  then show ?thesis
    by (simp add: object_map_entries_def object_map_root_def sample_tree_def sample_nodes [simplified] INT_MAX_def root [simplified] tree [simplified])
qed

section \<open>Properties\<close>

text \<open>C1. In a well-formed object map of height at most 256, the lookup
  of an object with an identifier other than 0 at a transaction returns the descriptor of its latest version that is not newer, and
  reports that there is none exactly when the tree holds no such version (for the identifier 0 the code fails instead when it
  comes before the first entry). The state of the node cache
  does not matter, as long as it holds only nodes of their blocks, and it stays so.\<close>

theorem object_map_lookup_latest:
  assumes "cache_valid tree contents s" "object_map_entries tree h = Some es"
    and "h \<le> MAXIMUM_BTREE_NODE_RECURSION_DEPTH" "oid \<noteq> 0"
  shows "\<exists>s' r. object_map_btree_get_descriptor_by_object_identifier tree oid tr None s = (Inr r, s') \<and>
    cache_valid tree contents s' \<and>
    (case r of
       None \<Rightarrow> \<forall>e\<in>set es. \<not> (fst (entry_key e) = oid \<and> snd (entry_key e) \<le> tr)
     | Some d \<Rightarrow> \<exists>e\<in>set es. d = descriptor_of e \<and> fst (entry_key e) = oid \<and> snd (entry_key e) \<le> tr \<and>
         (\<forall>e'\<in>set es. fst (entry_key e') = oid \<and> snd (entry_key e') \<le> tr \<longrightarrow>
            snd (entry_key e') \<le> snd (entry_key e)))"
proof -
  have sorted: "sorted_by entry_key es" using assms(2) by (auto simp: object_map_entries_def split: option.splits if_splits)
  have le: "entry_key e \<le> (oid, tr) \<longleftrightarrow> fst (entry_key e) < oid \<or> fst (entry_key e) = oid \<and> snd (entry_key e) \<le> tr" for e
    by (cases "entry_key e") auto
  have le_key: "entry_key e' \<le> entry_key e \<longleftrightarrow> fst (entry_key e') < fst (entry_key e) \<or>
      fst (entry_key e') = fst (entry_key e) \<and> snd (entry_key e') \<le> snd (entry_key e)" for e e'
    by (cases "entry_key e"; cases "entry_key e'") auto
  obtain s' where run: "cache_valid tree contents s'" "object_map_btree_get_descriptor_by_object_identifier tree oid tr None s =
      (Inr (case latest entry_key (oid, tr) es of None \<Rightarrow> None
         | Some e \<Rightarrow> if fst (entry_key e) = oid then Some (descriptor_of e) else None), s')"
    using get_descriptor_found [OF assms] by blast
  show ?thesis
  proof (cases "latest entry_key (oid, tr) es")
    case None
    then have "\<forall>e\<in>set es. \<not> entry_key e \<le> (oid, tr)" by (simp add: latest_None not_le)
    then show ?thesis using run None le by fastforce
  next
    case (Some e)
    note e = latest_Some [OF Some sorted]
    show ?thesis
    proof (cases "fst (entry_key e) = oid")
      case True
      then show ?thesis using run Some e by (auto simp: le le_key)
    next
      case False
      then have "fst (entry_key e) < oid" using e(2) by (simp add: le)
      then have "\<not> (fst (entry_key e') = oid \<and> snd (entry_key e') \<le> tr)" if "e' \<in> set es" for e'
        using e(3) that by (auto simp: le le_key)
      then show ?thesis using run Some False by auto
    qed
  qed
qed

theorem object_map_lookup_latest_witness:
  "\<exists>s' r. object_map_btree_get_descriptor_by_object_identifier sample_tree 7 4 None Map.empty = (Inr r, s') \<and>
    cache_valid sample_tree (\<lambda>s. s) s' \<and>
    (case r of
       None \<Rightarrow> \<forall>e\<in>set (map entry_of sample_leaf). \<not> (fst (entry_key e) = 7 \<and> snd (entry_key e) \<le> 4)
     | Some d \<Rightarrow> \<exists>e\<in>set (map entry_of sample_leaf). d = descriptor_of e \<and> fst (entry_key e) = 7 \<and> snd (entry_key e) \<le> 4 \<and>
         (\<forall>e'\<in>set (map entry_of sample_leaf). fst (entry_key e') = 7 \<and> snd (entry_key e') \<le> 4 \<longrightarrow>
            snd (entry_key e') \<le> snd (entry_key e)))"
proof (rule object_map_lookup_latest [OF _ sample_entries])
  show "cache_valid sample_tree (\<lambda>s. s) Map.empty"
    by (simp add: cache_valid_def sample_tree_def map_cache_laws coherent_def)
qed (simp_all add: MAXIMUM_BTREE_NODE_RECURSION_DEPTH_def)

text \<open>C6. For any blocks, malformed or cyclic trees included, a lookup in the
  object map terminates, never accesses memory outside a node, and leaves the cache with nodes as
  they are in their blocks, also when it fails.\<close>

theorem object_map_lookup_safe:
  assumes "cache_laws (node_cache tree) contents" "coherent (data_block_vector tree) (contents s)"
    and "\<forall>i. data_block_vector tree i \<noteq> Inl OUT_OF_BOUNDS_ACCESS"
  shows "fst (object_map_btree_get_descriptor_by_object_identifier tree oid tr descriptor s) \<noteq> Inl OUT_OF_BOUNDS_ACCESS \<and>
    coherent (data_block_vector tree)
      (contents (snd (object_map_btree_get_descriptor_by_object_identifier tree oid tr descriptor s)))"
proof -
  have "tree_valid tree contents s"
    using assms by (auto simp: tree_valid_def cache_valid_def safe_def)
  from get_descriptor_safe [OF this, of oid tr descriptor] show ?thesis
    by (auto simp: call_safe_def tree_valid_def cache_valid_def safe_post [symmetric] safe_def)
qed

theorem object_map_lookup_safe_witness:
  "fst (object_map_btree_get_descriptor_by_object_identifier sample_tree 7 4 None Map.empty) \<noteq> Inl OUT_OF_BOUNDS_ACCESS \<and>
    coherent (data_block_vector sample_tree)
      (snd (object_map_btree_get_descriptor_by_object_identifier sample_tree 7 4 None Map.empty))"
  by (rule object_map_lookup_safe [of sample_tree "\<lambda>s. s"])
    (simp_all add: sample_tree_def map_cache_laws coherent_def sample_blocks_def)

end
