(* ===== verification/File_System_Records.thy ===== *)
theory File_System_Records
  imports Apfs_Prelude
begin

text \<open>
  The records that the entries of the file system B-tree hold: inodes (\<open>libfsapfs_inode.c\<close>),
  directory records (\<open>libfsapfs_directory_record.c\<close>), extended attributes
  (\<open>libfsapfs_attribute_values.c\<close>) and file extents (\<open>libfsapfs_file_extent.c\<close>). A record is read
  from the key data and the value data of an entry, where \<open>None\<close> is the NULL pointer.
\<close>

section \<open>Extended fields\<close>

text \<open>
  The values of extended fields follow each other, each padded to 8 bytes as far as the data goes.
\<close>

definition next_extended_field_value :: "nat \<Rightarrow> nat \<Rightarrow> nat \<Rightarrow> nat" where
  "next_extended_field_value data_size value_data_offset value_data_size =
     (let value_data_offset = value_data_offset + value_data_size;
          trailing_data_size = value_data_size mod 8
      in if trailing_data_size > 0 then
           let trailing_data_size = 8 - trailing_data_size;
               trailing_data_size =
                 (if value_data_offset > data_size - trailing_data_size then data_size - value_data_offset
                  else trailing_data_size)
           in value_data_offset + trailing_data_size
         else value_data_offset)"

section \<open>Inodes\<close>

record inode =
  inode_identifier :: nat
  inode_parent_identifier :: nat
  inode_modification_time :: nat
  inode_creation_time :: nat
  inode_change_time :: nat
  inode_access_time :: nat
  inode_owner_identifier :: nat
  inode_group_identifier :: nat
  inode_device_identifier :: nat
  inode_file_mode :: nat
  inode_number_of_links :: nat
  inode_name_size :: nat
  inode_name :: "bytes option"
  inode_flags :: nat
  inode_data_stream_identifier :: nat
  inode_data_stream_size :: nat

definition inode_initialize :: "inode option \<Rightarrow> inode result" where
  "inode_initialize inode =
     (if inode \<noteq> None then Inl RUNTIME_VALUE_ALREADY_SET
      else Inr \<lparr>inode_identifier = 0, inode_parent_identifier = 0, inode_modification_time = 0,
        inode_creation_time = 0, inode_change_time = 0, inode_access_time = 0,
        inode_owner_identifier = 0, inode_group_identifier = 0, inode_device_identifier = 0,
        inode_file_mode = 0, inode_number_of_links = 0, inode_name_size = 0, inode_name = None,
        inode_flags = 0, inode_data_stream_identifier = 0, inode_data_stream_size = 0\<rparr>)"

definition inode_read_key_data :: "inode \<Rightarrow> bytes option \<Rightarrow> nat \<Rightarrow> inode result" where
  "inode_read_key_data inode data data_size =
     (case data of
        None \<Rightarrow> Inl RUNTIME_VALUE_MISSING
      | Some data \<Rightarrow>
          if data_size < 8 \<or> data_size > SSIZE_MAX then Inl RUNTIME_VALUE_OUT_OF_BOUNDS
          else bindR (rd_u64_le data 0) (\<lambda>identifier_value.
            Inr (inode\<lparr>inode_identifier := identifier_value AND 0x0fffffffffffffff\<rparr>)))"

text \<open>The value of one extended field: the name, the data stream size, a device identifier or nothing that is kept.\<close>

definition inode_read_extended_field :: "inode \<Rightarrow> nat \<Rightarrow> bytes \<Rightarrow> nat \<Rightarrow> nat \<Rightarrow> inode result" where
  "inode_read_extended_field inode extended_field_type data i value_data_size =
     (if extended_field_type \<in> {1, 2, 3, 5, 7, 10, 11, 13, 15} then Inr inode
      else if extended_field_type = 4 then
        if inode_name inode \<noteq> None then Inl RUNTIME_VALUE_ALREADY_SET
        else bindR (rd_slice data i value_data_size) (\<lambda>name.
          Inr (inode\<lparr>inode_name := Some name, inode_name_size := value_data_size\<rparr>))
      else if extended_field_type = 8 then
        if value_data_size < 40 then Inl RUNTIME_VALUE_OUT_OF_BOUNDS
        else bindR (rd_u64_le data i) (\<lambda>used_size. Inr (inode\<lparr>inode_data_stream_size := used_size\<rparr>))
      else if extended_field_type = 14 then
        if value_data_size \<noteq> 4 then Inl RUNTIME_VALUE_OUT_OF_BOUNDS
        else bindR (rd_u32_le data i) (\<lambda>device. Inr (inode\<lparr>inode_device_identifier := device\<rparr>))
      else Inl RUNTIME_UNSUPPORTED_VALUE)"

fun inode_read_extended_fields :: "bytes \<Rightarrow> nat \<Rightarrow> nat \<Rightarrow> nat \<Rightarrow> nat \<Rightarrow> inode \<Rightarrow> inode result" where
  "inode_read_extended_fields data data_size 0 data_offset value_data_offset inode = Inr inode"
| "inode_read_extended_fields data data_size (Suc n) data_offset value_data_offset inode =
     (if data_offset > data_size - 4 then Inl RUNTIME_VALUE_OUT_OF_BOUNDS
      else
        bindR (rd data data_offset) (\<lambda>extended_field_type.
        bindR (rd_u16_le data (data_offset + 2)) (\<lambda>value_data_size.
          if value_data_offset > data_size then Inl RUNTIME_VALUE_OUT_OF_BOUNDS
          else if value_data_size = 0 \<or> value_data_size > data_size - value_data_offset
          then Inl RUNTIME_VALUE_OUT_OF_BOUNDS
          else
            bindR (inode_read_extended_field inode (unat extended_field_type) data value_data_offset value_data_size)
              (inode_read_extended_fields data data_size n (data_offset + 4)
                (next_extended_field_value data_size value_data_offset value_data_size)))))"

definition inode_read_value_data :: "inode \<Rightarrow> bytes option \<Rightarrow> nat \<Rightarrow> inode result" where
  "inode_read_value_data inode data data_size =
     (if inode_name inode \<noteq> None then Inl RUNTIME_VALUE_ALREADY_SET
      else case data of
        None \<Rightarrow> Inl RUNTIME_VALUE_MISSING
      | Some data \<Rightarrow>
          if data_size < 92 \<or> data_size > SSIZE_MAX then Inl RUNTIME_VALUE_OUT_OF_BOUNDS
          else
            bindR (rd_u64_le data 0) (\<lambda>parent_value.
            bindR (rd_u64_le data 8) (\<lambda>data_stream_value.
            bindR (rd_u64_le data 16) (\<lambda>modification_value.
            bindR (rd_u64_le data 24) (\<lambda>creation_value.
            bindR (rd_u64_le data 32) (\<lambda>change_value.
            bindR (rd_u64_le data 40) (\<lambda>access_value.
            bindR (rd_u64_le data 48) (\<lambda>flags_value.
            bindR (rd_u32_le data 56) (\<lambda>links_value.
            bindR (rd_u32_le data 72) (\<lambda>owner_value.
            bindR (rd_u32_le data 76) (\<lambda>group_value.
            bindR (rd_u16_le data 80) (\<lambda>mode_value.
              let inode = inode\<lparr>inode_parent_identifier := parent_value,
                    inode_data_stream_identifier := data_stream_value,
                    inode_modification_time := modification_value, inode_creation_time := creation_value,
                    inode_change_time := change_value, inode_access_time := access_value,
                    inode_flags := flags_value, inode_number_of_links := links_value,
                    inode_owner_identifier := owner_value, inode_group_identifier := group_value,
                    inode_file_mode := mode_value\<rparr>
              in if data_size > 92 then
                   if 92 > data_size - 4 then Inl RUNTIME_VALUE_OUT_OF_BOUNDS
                   else bindR (rd_u16_le data 92) (\<lambda>number_of_extended_fields.
                     inode_read_extended_fields data data_size number_of_extended_fields 96
                       (96 + number_of_extended_fields * 4) inode)
                 else Inr inode))))))))))))"

text \<open>Devices: the identifier is present for character and block devices only; the major and minor numbers.\<close>

definition inode_get_device_identifier :: "inode \<Rightarrow> nat option result" where
  "inode_get_device_identifier inode =
     (if inode_file_mode inode AND 0xf000 = 0x2000 \<or> inode_file_mode inode AND 0xf000 = 0x6000
      then Inr (Some (inode_device_identifier inode)) else Inr None)"

definition inode_get_device_number :: "inode \<Rightarrow> (nat \<times> nat) option result" where
  "inode_get_device_number inode =
     (let device = inode_device_identifier inode
      in if inode_file_mode inode AND 0xf000 = 0x2000 \<or> inode_file_mode inode AND 0xf000 = 0x6000 then
           if device AND 0xffff0000 = 0 then Inr (Some (drop_bit 8 device AND 0xff, device AND 0xff))
           else if device AND 0x00ffff00 = 0 then Inr (Some (drop_bit 24 device AND 0xff, device AND 0xff))
           else Inr None
         else Inr None)"

section \<open>Directory records\<close>

record directory_record =
  record_identifier :: nat
  record_name_size :: nat
  record_name :: "bytes option"
  record_name_hash :: nat
  record_added_time :: nat

definition directory_record_initialize :: "directory_record option \<Rightarrow> directory_record result" where
  "directory_record_initialize directory_record =
     (if directory_record \<noteq> None then Inl RUNTIME_VALUE_ALREADY_SET
      else Inr \<lparr>record_identifier = 0, record_name_size = 0, record_name = None, record_name_hash = 0,
        record_added_time = 0\<rparr>)"

text \<open>
  The key holds a name, or a name with a hash: it is the first when the size of the name accounts
  for the rest of the key.
\<close>

definition directory_record_read_key_data :: "directory_record \<Rightarrow> bytes option \<Rightarrow> nat \<Rightarrow> directory_record result" where
  "directory_record_read_key_data directory_record data data_size =
     (if record_name directory_record \<noteq> None then Inl RUNTIME_VALUE_ALREADY_SET
      else case data of
        None \<Rightarrow> Inl RUNTIME_VALUE_MISSING
      | Some data \<Rightarrow>
          if data_size < 10 \<or> data_size > SSIZE_MAX then Inl RUNTIME_VALUE_OUT_OF_BOUNDS
          else
            bindR (rd_u16_le data 8) (\<lambda>size_value.
            bindR
              (if size_value AND 0x3ff < data_size - 10 then
                 if data_size < 12 then Inl RUNTIME_VALUE_OUT_OF_BOUNDS
                 else bindR (rd_u32_le data 8) (\<lambda>hash_value.
                   Inr (hash_value AND 0x3ff, drop_bit 10 (hash_value AND 0xfffffc00), 12))
               else Inr (size_value AND 0x3ff, 0, 10)) (\<lambda>(name_size, name_hash, data_offset).
              if name_size = 0 \<or> name_size > MEMORY_MAXIMUM_ALLOCATION_SIZE \<or> name_size > data_size - data_offset
              then Inl RUNTIME_VALUE_OUT_OF_BOUNDS
              else
                bindR (rd_slice data data_offset name_size) (\<lambda>name.
                  Inr (directory_record\<lparr>record_name := Some name, record_name_size := name_size,
                    record_name_hash := name_hash\<rparr>)))))"

fun directory_record_read_extended_fields :: "bytes \<Rightarrow> nat \<Rightarrow> nat \<Rightarrow> nat \<Rightarrow> nat \<Rightarrow> unit result" where
  "directory_record_read_extended_fields data data_size 0 data_offset value_data_offset = Inr ()"
| "directory_record_read_extended_fields data data_size (Suc n) data_offset value_data_offset =
     (if data_offset > data_size - 4 then Inl RUNTIME_VALUE_OUT_OF_BOUNDS
      else
        bindR (rd data data_offset) (\<lambda>extended_field_type.
        bindR (rd_u16_le data (data_offset + 2)) (\<lambda>value_data_size.
          if value_data_offset > data_size then Inl RUNTIME_VALUE_OUT_OF_BOUNDS
          else if value_data_size > data_size - value_data_offset then Inl RUNTIME_VALUE_OUT_OF_BOUNDS
          else if unat extended_field_type \<noteq> 1 then Inl RUNTIME_UNSUPPORTED_VALUE
          else directory_record_read_extended_fields data data_size n (data_offset + 4)
            (next_extended_field_value data_size value_data_offset value_data_size))))"

definition directory_record_read_value_data :: "directory_record \<Rightarrow> bytes option \<Rightarrow> nat \<Rightarrow> directory_record result" where
  "directory_record_read_value_data directory_record data data_size =
     (case data of
        None \<Rightarrow> Inl RUNTIME_VALUE_MISSING
      | Some data \<Rightarrow>
          if data_size < 18 \<or> data_size > SSIZE_MAX then Inl RUNTIME_VALUE_OUT_OF_BOUNDS
          else
            bindR (rd_u64_le data 0) (\<lambda>identifier_value.
            bindR (rd_u64_le data 8) (\<lambda>added_value.
              let directory_record = directory_record\<lparr>record_identifier := identifier_value,
                    record_added_time := added_value\<rparr>
              in if data_size > 18 then
                   if 18 > data_size - 4 then Inl RUNTIME_VALUE_OUT_OF_BOUNDS
                   else bindR (rd_u16_le data 18) (\<lambda>number_of_extended_fields.
                     bindR (directory_record_read_extended_fields data data_size number_of_extended_fields 22
                       (22 + number_of_extended_fields * 4)) (\<lambda>_. Inr directory_record))
                 else Inr directory_record)))"

section \<open>Extended attributes\<close>

record attribute_values =
  attribute_flags :: nat
  attribute_name :: "bytes option"
  attribute_name_size :: nat
  attribute_value_data :: "bytes option"
  attribute_value_data_size :: nat
  attribute_value_data_stream_identifier :: nat

definition attribute_values_initialize :: "attribute_values option \<Rightarrow> attribute_values result" where
  "attribute_values_initialize attribute_values =
     (if attribute_values \<noteq> None then Inl RUNTIME_VALUE_ALREADY_SET
      else Inr \<lparr>attribute_flags = 0, attribute_name = None, attribute_name_size = 0, attribute_value_data = None,
        attribute_value_data_size = 0, attribute_value_data_stream_identifier = 0\<rparr>)"

definition attribute_values_read_key_data :: "attribute_values \<Rightarrow> bytes option \<Rightarrow> nat \<Rightarrow> attribute_values result" where
  "attribute_values_read_key_data attribute_values data data_size =
     (if attribute_name attribute_values \<noteq> None then Inl RUNTIME_VALUE_ALREADY_SET
      else case data of
        None \<Rightarrow> Inl RUNTIME_VALUE_MISSING
      | Some data \<Rightarrow>
          if data_size < 10 \<or> data_size > SSIZE_MAX then Inl RUNTIME_VALUE_OUT_OF_BOUNDS
          else
            bindR (rd_u16_le data 8) (\<lambda>name_size.
              if name_size = 0 \<or> name_size > data_size - 10 then Inl RUNTIME_VALUE_OUT_OF_BOUNDS
              else
                bindR (rd_slice data 10 name_size) (\<lambda>name.
                  Inr (attribute_values\<lparr>attribute_name := Some name, attribute_name_size := name_size\<rparr>))))"

text \<open>The value is in a data stream (flag 1) or in the record itself (flag 2).\<close>

definition attribute_values_read_value_data :: "attribute_values \<Rightarrow> bytes option \<Rightarrow> nat \<Rightarrow> attribute_values result" where
  "attribute_values_read_value_data attribute_values data data_size =
     (if attribute_value_data attribute_values \<noteq> None then Inl RUNTIME_VALUE_ALREADY_SET
      else case data of
        None \<Rightarrow> Inl RUNTIME_VALUE_MISSING
      | Some data \<Rightarrow>
          if data_size < 4 \<or> data_size > SSIZE_MAX then Inl RUNTIME_VALUE_OUT_OF_BOUNDS
          else
            bindR (rd_u16_le data 0) (\<lambda>flags_value.
            bindR (rd_u16_le data 2) (\<lambda>size_value.
              let attribute_values = attribute_values\<lparr>attribute_flags := flags_value\<rparr>
              in if size_value \<noteq> 0 \<and> size_value > data_size - 4 then Inl RUNTIME_VALUE_OUT_OF_BOUNDS
                 else if flags_value AND 0x0001 \<noteq> 0 then
                   if size_value \<noteq> 48 then Inl RUNTIME_UNSUPPORTED_VALUE
                   else
                     bindR (rd_u64_le data 4) (\<lambda>stream_identifier.
                     bindR (rd_u64_le data 12) (\<lambda>used_size.
                       Inr (attribute_values\<lparr>attribute_value_data_stream_identifier := stream_identifier,
                         attribute_value_data_size := used_size\<rparr>)))
                 else if flags_value AND 0x0002 \<noteq> 0 \<and> size_value > 0 then
                   bindR (rd_slice data 4 size_value) (\<lambda>copy.
                     Inr (attribute_values\<lparr>attribute_value_data := Some copy,
                       attribute_value_data_size := size_value\<rparr>))
                 else Inr attribute_values)))"

section \<open>File extents\<close>

record file_extent =
  extent_data_type :: nat
  extent_identifier :: nat
  extent_logical_address_flags :: nat
  extent_logical_offset :: nat
  extent_physical_block_number :: nat
  extent_data_size :: nat
  extent_encryption_identifier :: nat
  extent_sha256_digest :: bytes
  extent_has_sha256_digest :: bool

definition FILE_EXTENT2 :: nat where "FILE_EXTENT2 = 13"

definition file_extent_initialize :: "file_extent option \<Rightarrow> file_extent result" where
  "file_extent_initialize file_extent =
     (if file_extent \<noteq> None then Inl RUNTIME_VALUE_ALREADY_SET
      else Inr \<lparr>extent_data_type = 0, extent_identifier = 0, extent_logical_address_flags = 0,
        extent_logical_offset = 0, extent_physical_block_number = 0, extent_data_size = 0,
        extent_encryption_identifier = 0, extent_sha256_digest = replicate 32 0,
        extent_has_sha256_digest = False\<rparr>)"

definition file_extent_read_key_data :: "file_extent \<Rightarrow> nat \<Rightarrow> bytes option \<Rightarrow> nat \<Rightarrow> file_extent result" where
  "file_extent_read_key_data file_extent file_system_data_type data data_size =
     (case data of
        None \<Rightarrow> Inl RUNTIME_VALUE_MISSING
      | Some data \<Rightarrow>
          if data_size < 16 \<or> data_size > SSIZE_MAX then Inl RUNTIME_VALUE_OUT_OF_BOUNDS
          else
            bindR (rd_u64_le data 0) (\<lambda>file_system_identifier.
            bindR (rd_u64_le data 8) (\<lambda>logical_address.
              Inr (file_extent\<lparr>extent_data_type := file_system_data_type,
                extent_identifier := file_system_identifier AND 0x0fffffffffffffff,
                extent_logical_offset := logical_address AND 0x00ffffffffffffff,
                extent_logical_address_flags := drop_bit 56 logical_address\<rparr>))))"

definition file_extent_read_value_data :: "file_extent \<Rightarrow> nat \<Rightarrow> bytes option \<Rightarrow> nat \<Rightarrow> file_extent result" where
  "file_extent_read_value_data file_extent file_system_data_type data data_size =
     (case data of
        None \<Rightarrow> Inl RUNTIME_VALUE_MISSING
      | Some data \<Rightarrow>
          if data_size > SSIZE_MAX then Inl RUNTIME_VALUE_OUT_OF_BOUNDS
          else
            let file_extent = file_extent\<lparr>extent_data_type := file_system_data_type\<rparr>
            in if file_system_data_type = FILE_EXTENT2 then
                 if data_size < 35 then Inl RUNTIME_VALUE_OUT_OF_BOUNDS
                 else
                   let file_extent = file_extent\<lparr>extent_data_size := 0, extent_physical_block_number := 0,
                         extent_encryption_identifier := 0, extent_has_sha256_digest := False\<rparr>
                   in bindR (rd_slice data 0 3) (\<lambda>digest_header.
                        if digest_header = [0x04, 0x00, 0x20] then
                          bindR (rd_slice data 3 32) (\<lambda>digest.
                            Inr (file_extent\<lparr>extent_sha256_digest := digest, extent_has_sha256_digest := True\<rparr>))
                        else Inr file_extent)
               else if data_size < 24 then Inl RUNTIME_VALUE_OUT_OF_BOUNDS
               else
                 bindR (rd_u64_le data 0) (\<lambda>size_and_flags.
                 bindR (rd_u64_le data 8) (\<lambda>block_number.
                 bindR (rd_u64_le data 16) (\<lambda>encryption_value.
                   Inr (file_extent\<lparr>extent_data_size := size_and_flags AND 0x00ffffffffffffff,
                     extent_physical_block_number := block_number,
                     extent_encryption_identifier := encryption_value\<rparr>)))))"

section \<open>Safety\<close>

text \<open>Data of an entry: the buffer is as long as its size says.\<close>

definition entry_data_ok :: "bytes option \<Rightarrow> nat \<Rightarrow> bool" where
  "entry_data_ok data n \<longleftrightarrow> (\<forall>d. data = Some d \<longrightarrow> n \<le> length d)"

lemma next_extended_field_value_le:
  assumes "i + n \<le> data_size"
  shows "next_extended_field_value data_size i n \<le> data_size"
  using assms by (auto simp: next_extended_field_value_def Let_def)

lemma inode_read_extended_field_safe:
  assumes "i + n \<le> length data"
  shows "safe (inode_read_extended_field inode ty data i n)"
  using assms by (auto simp: inode_read_extended_field_def)

lemma inode_read_extended_fields_safe:
  assumes "data_size \<le> length data" "4 \<le> data_size"
  shows "safe (inode_read_extended_fields data data_size n off voff inode)"
proof (induction n arbitrary: off voff inode)
  case (Suc n)
  show ?case
    using assms by (auto intro!: safe_bindR Suc.IH inode_read_extended_field_safe)
qed simp

lemma inode_read_safe:
  assumes "entry_data_ok data data_size"
  shows "safe (inode_read_key_data inode data data_size)" "safe (inode_read_value_data inode data data_size)"
  using assms by (auto simp: inode_read_key_data_def inode_read_value_data_def entry_data_ok_def Let_def
      intro!: inode_read_extended_fields_safe split: option.splits)

lemma directory_record_read_extended_fields_safe:
  assumes "data_size \<le> length data" "4 \<le> data_size"
  shows "safe (directory_record_read_extended_fields data data_size n off voff)"
proof (induction n arbitrary: off voff)
  case (Suc n)
  show ?case using assms by (auto intro!: safe_bindR Suc.IH)
qed simp

lemma directory_record_read_safe:
  assumes "entry_data_ok data data_size"
  shows "safe (directory_record_read_key_data r data data_size)" "safe (directory_record_read_value_data r data data_size)"
  using assms by (auto simp: directory_record_read_key_data_def directory_record_read_value_data_def entry_data_ok_def Let_def
      intro!: directory_record_read_extended_fields_safe safe_bindR split: option.splits)

lemma attribute_values_read_safe:
  assumes "entry_data_ok data data_size"
  shows "safe (attribute_values_read_key_data a data data_size)" "safe (attribute_values_read_value_data a data data_size)"
  using assms by (auto simp: attribute_values_read_key_data_def attribute_values_read_value_data_def entry_data_ok_def Let_def
      split: option.splits)

lemma file_extent_read_safe:
  assumes "entry_data_ok data data_size"
  shows "safe (file_extent_read_key_data x ty data data_size)" "safe (file_extent_read_value_data x ty data data_size)"
  using assms by (auto simp: file_extent_read_key_data_def file_extent_read_value_data_def entry_data_ok_def Let_def
      split: option.splits)

section \<open>Keys of directory records\<close>

definition record_key :: "nat \<Rightarrow> bytes \<Rightarrow> bytes" where
  "record_key parent name = le_encode 8 (9 * 2 ^ 60 + parent) @ le_encode 2 (length name) @ name"

definition record_key_with_hash :: "nat \<Rightarrow> nat \<Rightarrow> bytes \<Rightarrow> bytes" where
  "record_key_with_hash parent hash name =
     le_encode 8 (9 * 2 ^ 60 + parent) @ le_encode 4 (hash * 1024 + length name) @ name"

lemma take_le_encode: "m \<le> n \<Longrightarrow> take m (le_encode n v) = le_encode m v"
proof (induction n v arbitrary: m rule: le_encode.induct)
  case (2 n v)
  then show ?case by (cases m) simp_all
qed simp

lemma and_1023: "(n::nat) AND 0x3ff = n mod 1024"
  using take_bit_eq_mask [of 10 n] by (simp add: take_bit_nat_def mask_eq_exp_minus_1)

lemma drop_10_high:
  fixes hash n :: nat
  assumes "hash < 2 ^ 22" "n < 1024"
  shows "drop_bit 10 ((hash * 1024 + n) AND 0xfffffc00) = hash"
proof -
  have "drop_bit 10 (0xfffffc00 :: nat) = mask 22" by (simp add: drop_bit_nat_def mask_eq_exp_minus_1)
  moreover have "drop_bit 10 (hash * 1024 + n) = hash" using assms(2) by (simp add: drop_bit_nat_def)
  ultimately have "drop_bit 10 ((hash * 1024 + n) AND 0xfffffc00) = take_bit 22 hash"
    by (simp add: drop_bit_and take_bit_eq_mask)
  then show ?thesis using assms(1) by (simp add: take_bit_nat_eq_self)
qed

lemma record_key_read:
  assumes "name \<noteq> []" "length name < 1024" "hash < 2 ^ 22" "record_name r = None"
  shows "directory_record_read_key_data r (Some (record_key parent name)) (10 + length name) =
      Inr (r\<lparr>record_name := Some name, record_name_size := length name, record_name_hash := 0\<rparr>) \<and>
    directory_record_read_key_data r (Some (record_key_with_hash parent hash name)) (12 + length name) =
      Inr (r\<lparr>record_name := Some name, record_name_size := length name, record_name_hash := hash\<rparr>)"
proof -
  have bounds: "length name \<noteq> 0" "10 + length name \<le> SSIZE_MAX" "12 + length name \<le> SSIZE_MAX" "length name \<le> MEMORY_MAXIMUM_ALLOCATION_SIZE"
    using assms(1,2) by (simp_all add: SSIZE_MAX_def MEMORY_MAXIMUM_ALLOCATION_SIZE_def)
  have plain: "directory_record_read_key_data r (Some (record_key parent name)) (10 + length name) =
      Inr (r\<lparr>record_name := Some name, record_name_size := length name, record_name_hash := 0\<rparr>)"
    using assms bounds by (simp add: directory_record_read_key_data_def record_key_def and_1023)
  let ?key = "record_key_with_hash parent hash name"
  have stored: "(hash * 1024 + length name) mod 4294967296 = hash * 1024 + length name"
    using assms(2,3) by simp
  have len: "length ?key = 12 + length name" by (simp add: record_key_with_hash_def)
  have size_field: "rd_u16_le ?key 8 = Inr ((hash * 1024 + length name) mod 65536)"
    unfolding rd_le_eq_Inr len by (simp add: record_key_with_hash_def take_le_encode)
  have "(hash * 1024 + length name) mod 65536 mod 1024 = (hash * 1024 + length name) mod 1024"
    by (rule mod_mod_cancel) simp
  then have size: "(hash * 1024 + length name) mod 65536 AND 0x3ff = length name"
    using assms(2) by (simp only: and_1023) simp
  have size': "(hash * 1024 + length name) AND 0x3ff = length name"
    using assms(2) by (simp add: and_1023)
  have hash_field: "rd_u32_le ?key 8 = Inr (hash * 1024 + length name)"
    unfolding rd_le_eq_Inr len using stored by (simp add: record_key_with_hash_def)
  have name: "rd_slice ?key 12 (length name) = Inr name"
    unfolding rd_slice_eq_Inr len by (simp add: record_key_with_hash_def)
  have "directory_record_read_key_data r (Some ?key) (12 + length name) =
      Inr (r\<lparr>record_name := Some name, record_name_size := length name, record_name_hash := hash\<rparr>)"
    unfolding directory_record_read_key_data_def option.case size_field bindR_simps size hash_field size'
      drop_10_high [OF assms(3,2)]
    using assms(1,4) bounds name by simp
  with plain show ?thesis by blast
qed

section \<open>Properties\<close>

text \<open>Reading an inode, a directory record, an extended
  attribute or a file extent from the key and value data of an entry never accesses memory outside the
  data, whatever the numbers and sizes of extended fields in it.\<close>

theorem file_system_records_safe:
  assumes "entry_data_ok key key_size" "entry_data_ok data data_size"
  shows "safe (inode_read_key_data inode key key_size) \<and> safe (inode_read_value_data inode data data_size) \<and>
    safe (directory_record_read_key_data r key key_size) \<and> safe (directory_record_read_value_data r data data_size) \<and>
    safe (attribute_values_read_key_data a key key_size) \<and> safe (attribute_values_read_value_data a data data_size) \<and>
    safe (file_extent_read_key_data x ty key key_size) \<and> safe (file_extent_read_value_data x ty data data_size)"
  using assms inode_read_safe directory_record_read_safe attribute_values_read_safe file_extent_read_safe by simp

text \<open>An inode whose extended fields end in the middle of a value.\<close>

definition truncated_inode :: bytes where
  "truncated_inode = replicate 92 0 @ le_encode 2 2 @ le_encode 2 0 @ [4, 0, 5, 0, 8, 0, 40, 0] @ replicate 5 65"

definition empty_inode :: inode where
  "empty_inode = (case inode_initialize None of Inr i \<Rightarrow> i)"

theorem file_system_records_safe_witness:
  "safe (inode_read_value_data empty_inode (Some truncated_inode) 109)"
proof -
  have "length truncated_inode = 109" by (simp add: truncated_inode_def)
  then have "entry_data_ok (Some truncated_inode) 109" "entry_data_ok None 0" by (simp_all add: entry_data_ok_def)
  from file_system_records_safe [OF this(2,1)] show ?thesis by blast
qed

text \<open>The key of a directory record is read back with its
  name in both of the formats that volumes use, with and without a name hash; the format is
  recognised from the size of the name alone, and a key without a hash gives the hash 0.\<close>

theorem directory_record_key_roundtrip:
  assumes "name \<noteq> []" "length name < 1024" "hash < 2 ^ 22" "record_name r = None"
  shows "directory_record_read_key_data r (Some (record_key parent name)) (10 + length name) =
      Inr (r\<lparr>record_name := Some name, record_name_size := length name, record_name_hash := 0\<rparr>) \<and>
    directory_record_read_key_data r (Some (record_key_with_hash parent hash name)) (12 + length name) =
      Inr (r\<lparr>record_name := Some name, record_name_size := length name, record_name_hash := hash\<rparr>)"
  using record_key_read [OF assms] .

theorem directory_record_key_roundtrip_witness:
  "\<exists>r'. directory_record_read_key_data \<lparr>record_identifier = 0, record_name_size = 0, record_name = None, record_name_hash = 0,
      record_added_time = 0\<rparr> (Some (record_key_with_hash 2 77 [97, 98, 0])) 15 = Inr r' \<and>
    record_name r' = Some [97, 98, 0] \<and> record_name_hash r' = 77"
  using directory_record_key_roundtrip [of "[97, 98, 0]" 77 "\<lparr>record_identifier = 0, record_name_size = 0, record_name = None,
      record_name_hash = 0, record_added_time = 0\<rparr>" 2] by simp

end
