(* ===== verification/File_System_Btree.thy ===== *)
theory File_System_Btree
  imports Object_Map_Btree File_System_Records
begin

text \<open>
  The file system B-tree of a volume, \<open>libfsapfs_file_system_btree.c\<close>: how its nodes are found
  through the object map, and the lookup of the entry with an identifier and a data type.
\<close>

section \<open>The tree and its state\<close>

text \<open>
  What the operations do not change. The sealed extent tree and the encryption context are not used
  by the operations that are modelled here.
\<close>

record ('c, 'o) file_system_btree =
  fs_node_cache :: "'c node_cache_operations"
  fs_data_block_vector :: block_vector
  fs_object_map_btree :: "'o object_map_btree"
  root_node_object_identifier :: nat
  fs_root_node_block_number :: nat
  use_case_folding :: nat

text \<open>
  What they change: the node cache, the node cache of the object map, and how the identifiers of
  children were found to be encoded.
\<close>

record ('c, 'o) file_system_btree_state =
  node_cache_state :: 'c
  object_map_state :: 'o
  branch_child_oid_encoding :: nat

type_synonym ('c, 'o, 'a) tree_call = "(('c, 'o) file_system_btree_state, 'a) call"

definition ENCODING_UNKNOWN :: nat where "ENCODING_UNKNOWN = 0"
definition ENCODING_ABSOLUTE :: nat where "ENCODING_ABSOLUTE = 1"
definition ENCODING_RELATIVE :: nat where "ENCODING_RELATIVE = 2"

definition file_system_btree_initialize ::
    "('c, 'o) file_system_btree option \<Rightarrow> 'c node_cache_operations \<Rightarrow> 'c \<Rightarrow> block_vector \<Rightarrow> 'o object_map_btree \<Rightarrow> 'o
     \<Rightarrow> nat \<Rightarrow> nat \<Rightarrow> nat \<Rightarrow> (('c, 'o) file_system_btree \<times> ('c, 'o) file_system_btree_state) result" where
  "file_system_btree_initialize file_system_btree cache empty_cache blocks object_map object_map_nodes
     object_identifier block_number case_folding =
     (if file_system_btree \<noteq> None then Inl RUNTIME_VALUE_ALREADY_SET
      else Inr (\<lparr>fs_node_cache = cache, fs_data_block_vector = blocks, fs_object_map_btree = object_map,
          root_node_object_identifier = object_identifier, fs_root_node_block_number = block_number,
          use_case_folding = case_folding\<rparr>,
        \<lparr>node_cache_state = empty_cache, object_map_state = object_map_nodes,
          branch_child_oid_encoding = ENCODING_UNKNOWN\<rparr>))"

text \<open>Calls on one of the two caches.\<close>

definition on_nodes :: "('c, 'a) call \<Rightarrow> ('c, 'o, 'a) tree_call" where
  "on_nodes m s = (case m (node_cache_state s) of (r, c) \<Rightarrow> (r, s\<lparr>node_cache_state := c\<rparr>))"

definition on_object_map :: "('o, 'a) call \<Rightarrow> ('c, 'o, 'a) tree_call" where
  "on_object_map m s = (case m (object_map_state s) of (r, c) \<Rightarrow> (r, s\<lparr>object_map_state := c\<rparr>))"

section \<open>Nodes\<close>

text \<open>
  The type of the object is not checked for nodes without an object header (flag 16). The footer
  of a node with flag 1 is always set.
\<close>

definition check_object_header :: "nat set \<Rightarrow> btree_node \<Rightarrow> unit result" where
  "check_object_header types node =
     (if case node_header node of None \<Rightarrow> True | Some header \<Rightarrow> flags header AND 0x0010 = 0 then
        if object_type node \<notin> types then Inl RUNTIME_UNSUPPORTED_VALUE
        else if object_subtype node \<noteq> 0x0000000e then Inl RUNTIME_UNSUPPORTED_VALUE
        else Inr ()
      else Inr ())"

definition check_file_system_root_node :: "btree_node \<Rightarrow> unit result" where
  "check_file_system_root_node node =
     bindR (check_object_header {0x00000002, 0x10000002} node) (\<lambda>_.
       case (node_header node, footer node) of
         (Some header, Some node_footer) \<Rightarrow>
           if flags header AND 0x0001 = 0 \<or> flags header AND 0x0004 \<noteq> 0 then Inl RUNTIME_UNSUPPORTED_VALUE
           else if node_size node_footer \<noteq> 4096 then Inl RUNTIME_VALUE_OUT_OF_BOUNDS
           else if key_size node_footer \<noteq> 0 then Inl RUNTIME_VALUE_OUT_OF_BOUNDS
           else if value_size node_footer \<noteq> 0 then Inl RUNTIME_VALUE_OUT_OF_BOUNDS
           else Inr ()
       | (Some header, None) \<Rightarrow>
           if flags header AND 0x0001 = 0 \<or> flags header AND 0x0004 \<noteq> 0 then Inl RUNTIME_UNSUPPORTED_VALUE
           else Inl OUT_OF_BOUNDS_ACCESS
       | (None, _) \<Rightarrow> Inl OUT_OF_BOUNDS_ACCESS)"

definition check_file_system_sub_node :: "btree_node \<Rightarrow> unit result" where
  "check_file_system_sub_node node =
     bindR (check_object_header {0x00000003, 0x10000003} node) (\<lambda>_.
       case node_header node of
         Some header \<Rightarrow>
           if flags header AND 0x0001 \<noteq> 0 \<or> flags header AND 0x0004 \<noteq> 0 then Inl RUNTIME_UNSUPPORTED_VALUE
           else Inr ()
       | None \<Rightarrow> Inl OUT_OF_BOUNDS_ACCESS)"

text \<open>A block of zero bytes: the root node is not available.\<close>

definition empty_block_node :: "btree_node \<Rightarrow> bool" where
  "empty_block_node node \<longleftrightarrow> object_type node = 0 \<and>
     (case node_header node of None \<Rightarrow> False | Some header \<Rightarrow> flags header = 0)"

definition file_system_btree_get_root_node ::
    "('c, 'o) file_system_btree \<Rightarrow> nat \<Rightarrow> ('c, 'o, btree_node option) tree_call" where
  "file_system_btree_get_root_node tree block_number =
     (if block_number > INT_MAX then failS RUNTIME_VALUE_OUT_OF_BOUNDS
      else on_nodes
        (bindS (cache_get_value_by_identifier (fs_node_cache tree) block_number) (\<lambda>cache_value.
         case cache_value of
           Some node \<Rightarrow> returnS (Some node)
         | None \<Rightarrow>
             bindS (liftS (read_node (fs_data_block_vector tree) block_number)) (\<lambda>node.
             if empty_block_node node then returnS None
             else
               bindS (liftS (check_file_system_root_node node)) (\<lambda>_.
               bindS (cache_set_value_by_identifier (fs_node_cache tree) block_number node) (\<lambda>_.
               bindS (cache_get_value_by_identifier (fs_node_cache tree) block_number) (\<lambda>cache_value.
                 case cache_value of
                   None \<Rightarrow> failS RUNTIME_GET_FAILED
                 | Some node \<Rightarrow> returnS (Some node))))))))"

definition file_system_btree_get_sub_node ::
    "('c, 'o) file_system_btree \<Rightarrow> nat \<Rightarrow> ('c, 'o, btree_node) tree_call" where
  "file_system_btree_get_sub_node tree block_number =
     (if block_number > INT_MAX then failS RUNTIME_VALUE_OUT_OF_BOUNDS
      else on_nodes
        (get_cached_node (fs_node_cache tree) (fs_data_block_vector tree) check_file_system_sub_node block_number))"

section \<open>Children\<close>

text \<open>
  An undefined access stays one; any other failure of a call whose error is dropped is replaced by
  the error of the caller.
\<close>

definition caller_error :: "error \<Rightarrow> error \<Rightarrow> error" where
  "caller_error own e = (if e = OUT_OF_BOUNDS_ACCESS then OUT_OF_BOUNDS_ACCESS else own)"

text \<open>
  The identifiers that the value of an entry can stand for: the value itself, or its sum with the
  identifier of the root node. The encoding that was found before is tried first.
\<close>

definition candidate_object_identifiers :: "nat \<Rightarrow> nat \<Rightarrow> nat \<Rightarrow> (nat \<times> nat) list" where
  "candidate_object_identifiers encoding root_identifier raw =
     (let relative = (if root_identifier \<noteq> 0 then root_identifier + raw else 0);
          relatives = (if relative \<noteq> 0 \<and> relative \<noteq> raw then [(relative, ENCODING_RELATIVE)] else [])
      in if encoding = ENCODING_RELATIVE then relatives @ [(raw, ENCODING_ABSOLUTE)]
         else [(raw, ENCODING_ABSOLUTE)] @ relatives)"

text \<open>The first candidate whose block holds a node of the expected level.\<close>

fun try_candidates ::
    "('c, 'o) file_system_btree \<Rightarrow> nat \<Rightarrow> nat \<Rightarrow> (nat \<times> nat) list \<Rightarrow> ('c, 'o, nat option) tree_call" where
  "try_candidates tree transaction expected_level [] s = (Inr None, s)"
| "try_candidates tree transaction expected_level ((object_identifier, encoding) # candidates) s =
     (case on_object_map (object_map_btree_get_descriptor_by_object_identifier (fs_object_map_btree tree)
             object_identifier transaction None) s of
        (Inl e, s) \<Rightarrow> (Inl (caller_error RUNTIME_GET_FAILED e), s)
      | (Inr None, s) \<Rightarrow> try_candidates tree transaction expected_level candidates s
      | (Inr (Some descriptor), s) \<Rightarrow>
          (case file_system_btree_get_sub_node tree (physical_address descriptor) s of
             (Inl e, s) \<Rightarrow>
               if e = OUT_OF_BOUNDS_ACCESS then (Inl e, s)
               else try_candidates tree transaction expected_level candidates s
           | (Inr sub_node, s) \<Rightarrow>
               if (case node_header sub_node of None \<Rightarrow> False | Some header \<Rightarrow> level header = expected_level)
               then (Inr (Some (physical_address descriptor)),
                     if branch_child_oid_encoding s = ENCODING_UNKNOWN
                     then s\<lparr>branch_child_oid_encoding := encoding\<rparr> else s)
               else try_candidates tree transaction expected_level candidates s))"

definition file_system_btree_get_sub_node_block_number_from_entry ::
    "('c, 'o) file_system_btree \<Rightarrow> btree_node \<Rightarrow> btree_entry option \<Rightarrow> nat \<Rightarrow> ('c, 'o, nat option) tree_call" where
  "file_system_btree_get_sub_node_block_number_from_entry tree node entry transaction s =
     (case node_header node of
        None \<Rightarrow> (Inl RUNTIME_VALUE_MISSING, s)
      | Some header \<Rightarrow>
          if level header = 0 then (Inl RUNTIME_VALUE_OUT_OF_BOUNDS, s)
          else case entry of
            None \<Rightarrow> (Inl ARGUMENT_INVALID_VALUE, s)
          | Some entry \<Rightarrow>
              (case value_data entry of
                 None \<Rightarrow> (Inl RUNTIME_VALUE_MISSING, s)
               | Some data \<Rightarrow>
                   if value_data_size entry < 8 then (Inl RUNTIME_VALUE_OUT_OF_BOUNDS, s)
                   else
                     bindS (liftS (rd_u64_le data 0)) (\<lambda>raw s.
                       if root_node_object_identifier tree \<noteq> 0 \<and>
                          raw > (2 ^ 64 - 1) - root_node_object_identifier tree
                       then (Inl RUNTIME_VALUE_OUT_OF_BOUNDS, s)
                       else
                         try_candidates tree transaction (level header - 1)
                           (candidate_object_identifiers (branch_child_oid_encoding s)
                             (root_node_object_identifier tree) raw) s) s))"

text \<open>The two calls that every descent makes to get from an entry of a branch node to its child.\<close>

definition file_system_btree_get_child ::
    "('c, 'o) file_system_btree \<Rightarrow> nat \<Rightarrow> btree_node \<Rightarrow> btree_entry option \<Rightarrow> ('c, 'o, btree_node) tree_call" where
  "file_system_btree_get_child tree transaction node entry =
     bindS (file_system_btree_get_sub_node_block_number_from_entry tree node entry transaction) (\<lambda>found.
       case found of
         None \<Rightarrow> failS RUNTIME_GET_FAILED
       | Some sub_node_block_number \<Rightarrow> file_system_btree_get_sub_node tree sub_node_block_number)"

section \<open>Lookup by identifier and data type\<close>

text \<open>
  The loop over the entries of a node: in a leaf the first entry with the key; in a branch node the
  first entry whose identifier is not smaller, or the entry before it. The inner option is the
  entry pointer, which is NULL when a branch node has no entries.
\<close>

fun scan_file_system_entries ::
    "btree_node \<Rightarrow> bool \<Rightarrow> nat \<Rightarrow> nat \<Rightarrow> nat list \<Rightarrow> btree_entry option \<Rightarrow> btree_entry option option result" where
  "scan_file_system_entries node is_leaf_node object_identifier data_type [] previous_entry =
     (if is_leaf_node then Inr None else Inr (Some previous_entry))"
| "scan_file_system_entries node is_leaf_node object_identifier data_type (btree_entry_index # rest) previous_entry =
     bindR (btree_node_get_entry_by_index node btree_entry_index) (\<lambda>entry.
       case key_data entry of
         None \<Rightarrow> Inl RUNTIME_VALUE_MISSING
       | Some key \<Rightarrow>
           if key_data_size entry < 8 then Inl RUNTIME_VALUE_OUT_OF_BOUNDS
           else
             bindR (rd_u64_le key 0) (\<lambda>file_system_identifier.
               let file_system_data_type = drop_bit 60 file_system_identifier
               in if is_leaf_node then
                    if file_system_identifier = (push_bit 60 data_type OR object_identifier)
                    then Inr (Some (Some entry))
                    else scan_file_system_entries node is_leaf_node object_identifier data_type rest previous_entry
                  else
                    let file_system_identifier = file_system_identifier AND 0x0fffffffffffffff
                    in if file_system_identifier \<ge> object_identifier then
                         if previous_entry = None \<or>
                            (file_system_identifier = object_identifier \<and> file_system_data_type \<le> data_type)
                         then Inr (Some (Some entry)) else Inr (Some previous_entry)
                       else scan_file_system_entries node is_leaf_node object_identifier data_type rest (Some entry)))"

definition file_system_btree_get_entry_from_node_by_identifier ::
    "btree_node \<Rightarrow> nat \<Rightarrow> nat \<Rightarrow> btree_entry option option result" where
  "file_system_btree_get_entry_from_node_by_identifier node object_identifier data_type =
     bindR (btree_node_is_leaf_node node) (\<lambda>is_leaf_node.
     bindR (btree_node_get_number_of_entries node) (\<lambda>number_of_entries.
       scan_file_system_entries node (is_leaf_node \<noteq> 0) object_identifier data_type [0..<number_of_entries] None))"

function search_file_system_node ::
    "('c, 'o) file_system_btree \<Rightarrow> nat \<Rightarrow> nat \<Rightarrow> nat \<Rightarrow> nat \<Rightarrow> btree_node
     \<Rightarrow> ('c, 'o, (btree_node \<times> btree_entry option) option) tree_call" where
  "search_file_system_node tree object_identifier data_type transaction recursion_depth node s =
     (if recursion_depth > MAXIMUM_BTREE_NODE_RECURSION_DEPTH then failS RUNTIME_VALUE_OUT_OF_BOUNDS s
      else
        bindS (liftS (btree_node_is_leaf_node node)) (\<lambda>is_leaf_node.
        bindS (liftS (file_system_btree_get_entry_from_node_by_identifier node object_identifier data_type))
          (\<lambda>found.
          case found of
            None \<Rightarrow> returnS None
          | Some entry \<Rightarrow>
              if is_leaf_node \<noteq> 0 then returnS (Some (node, entry))
              else
                bindS (file_system_btree_get_child tree transaction node entry)
                  (search_file_system_node tree object_identifier data_type transaction (recursion_depth + 1)))) s)"
  by pat_completeness auto
termination
  by (relation "measure (\<lambda>(_, _, _, _, d, _). Suc MAXIMUM_BTREE_NODE_RECURSION_DEPTH - d)") auto

declare search_file_system_node.simps [simp del]

definition file_system_btree_get_entry_by_identifier ::
    "('c, 'o) file_system_btree \<Rightarrow> nat \<Rightarrow> nat \<Rightarrow> nat \<Rightarrow> ('c, 'o, (btree_node \<times> btree_entry option) option) tree_call" where
  "file_system_btree_get_entry_by_identifier tree object_identifier data_type transaction =
     bindS (file_system_btree_get_root_node tree (fs_root_node_block_number tree)) (\<lambda>root.
       case root of
         None \<Rightarrow> returnS None
       | Some node \<Rightarrow> search_file_system_node tree object_identifier data_type transaction 0 node)"

section \<open>Inodes\<close>

definition DATA_TYPE_INODE :: nat where "DATA_TYPE_INODE = 3"

text \<open>The inode in an entry.\<close>

definition read_inode_entry :: "btree_entry \<Rightarrow> inode result" where
  "read_inode_entry entry =
     bindR (inode_initialize None) (\<lambda>inode.
     bindR (inode_read_key_data inode (key_data entry) (key_data_size entry)) (\<lambda>inode.
       inode_read_value_data inode (value_data entry) (value_data_size entry)))"

definition file_system_btree_get_inode_by_identifier ::
    "('c, 'o) file_system_btree \<Rightarrow> nat \<Rightarrow> nat \<Rightarrow> inode option \<Rightarrow> ('c, 'o, inode option) tree_call" where
  "file_system_btree_get_inode_by_identifier tree object_identifier transaction inode =
     (if inode \<noteq> None then failS RUNTIME_VALUE_ALREADY_SET
      else
        bindS (file_system_btree_get_entry_by_identifier tree object_identifier DATA_TYPE_INODE transaction) (\<lambda>found.
          case found of
            None \<Rightarrow> returnS None
          | Some (node, None) \<Rightarrow> failS RUNTIME_VALUE_MISSING
          | Some (node, Some entry) \<Rightarrow> bindS (liftS (read_inode_entry entry)) (\<lambda>inode. returnS (Some inode))))"

end
