(* ===== verification/File_System_Lookup.thy ===== *)
theory File_System_Lookup
  imports File_System_Btree
begin

text \<open>
  What a lookup by identifier in the file system B-tree finds. The entries of the tree are those of
  its leaves; a child is the node that the object map gives for the identifier in an entry.
\<close>

section \<open>Keys\<close>

text \<open>The key of an entry: the identifier, then the data type in the upper four bits.\<close>

definition fs_key :: "btree_entry \<Rightarrow> nat \<times> nat" where
  "fs_key e = (case key_data e of None \<Rightarrow> (0, 0)
     | Some k \<Rightarrow> (le_value (take 8 k) mod 2 ^ 60, le_value (take 8 k) div 2 ^ 60))"

text \<open>Keys hold the identifier, and those of extents (types 8 and 13) a logical address as well.\<close>

definition fs_keyed :: "btree_entry \<Rightarrow> bool" where
  "fs_keyed e \<longleftrightarrow> (case key_data e of None \<Rightarrow> False
     | Some k \<Rightarrow> 8 \<le> key_data_size e \<and> 8 \<le> length k \<and>
         (snd (fs_key e) \<in> {8, 13} \<longrightarrow> 16 \<le> key_data_size e \<and> 16 \<le> length k))"

text \<open>The order of the entries in a tree: extents are ordered by their logical address as well.\<close>

definition fs_order :: "btree_entry \<Rightarrow> nat \<times> nat \<times> nat" where
  "fs_order e = (fst (fs_key e), snd (fs_key e),
     if snd (fs_key e) \<in> {8, 13} then le_value (take 8 (drop 8 (the (key_data e)))) else 0)"

lemma fs_keyedE:
  assumes "fs_keyed e"
  obtains k where "key_data e = Some k" "8 \<le> key_data_size e" "8 \<le> length k"
  using assms by (auto simp: fs_keyed_def split: option.splits)

lemma mask_60: "(v::nat) AND 0x0fffffffffffffff = v mod 2 ^ 60"
  using take_bit_eq_mask [of 60 v] by (simp add: take_bit_nat_def mask_eq_exp_minus_1)

lemma drop_60: "drop_bit 60 (v::nat) = v div 2 ^ 60"
  by (simp add: drop_bit_nat_def)

lemma lookup_identifier_value:
  assumes "object_identifier < 2 ^ 60"
  shows "push_bit 60 data_type OR object_identifier = data_type * 2 ^ 60 + (object_identifier :: nat)"
proof -
  have "take_bit 60 object_identifier = object_identifier" using assms by (simp add: take_bit_nat_eq_self)
  then have "\<not> bit object_identifier n" if "60 \<le> n" for n
    using that by (metis bit_take_bit_iff linorder_not_less)
  then have "push_bit 60 data_type AND object_identifier = 0" by (auto simp: bit_eq_iff bit_simps)
  then show ?thesis by (simp add: push_bit_nat_def flip: disjunctive_add_eq_or)
qed

lemma lookup_identifier_key:
  assumes "object_identifier < 2 ^ 60"
  shows "v = (push_bit 60 data_type OR object_identifier) \<longleftrightarrow> (v mod 2 ^ 60, v div 2 ^ 60) = (object_identifier, data_type :: nat)"
proof -
  have "v = data_type * 2 ^ 60 + object_identifier \<longleftrightarrow> v mod 2 ^ 60 = object_identifier \<and> v div 2 ^ 60 = data_type"
    using assms div_mult_mod_eq [of v "2 ^ 60"] by auto
  then show ?thesis by (simp only: lookup_identifier_value [OF assms] prod.inject)
qed

section \<open>Search in a node\<close>

text \<open>The two searches on the list of entries.\<close>

fun branch_scan :: "nat \<times> nat \<Rightarrow> btree_entry option \<Rightarrow> btree_entry list \<Rightarrow> btree_entry option" where
  "branch_scan target previous [] = previous"
| "branch_scan target previous (e # es) =
     (if fst (fs_key e) \<ge> fst target then
        if previous = None \<or> (fst (fs_key e) = fst target \<and> snd (fs_key e) \<le> snd target) then Some e else previous
      else branch_scan target (Some e) es)"

lemma scan_index_step:
  assumes "i < length es"
  shows "[i..<length es] = i # [Suc i..<length es]" "drop i es = es ! i # drop (Suc i) es"
  using assms by (simp_all add: upt_conv_Cons Cons_nth_drop_Suc)

lemma scan_leaf:
  assumes "\<forall>e\<in>set (entries_array n). fs_keyed e" "object_identifier < 2 ^ 60" "i \<le> length (entries_array n)"
  shows "scan_file_system_entries n True object_identifier data_type [i..<length (entries_array n)] previous =
    Inr (map_option Some (find (\<lambda>e. fs_key e = (object_identifier, data_type)) (drop i (entries_array n))))"
  using assms(3)
proof (induction i rule: inc_induct)
  case (step i)
  obtain k where k: "key_data (entries_array n ! i) = Some k" "8 \<le> key_data_size (entries_array n ! i)" "8 \<le> length k"
    using assms(1) step.hyps(2) by (meson fs_keyedE nth_mem)
  show ?case
    unfolding scan_index_step [OF step.hyps(2)]
    using step.hyps(2) step.IH k
    by (simp add: btree_node_get_entry_by_index_def Let_def lookup_identifier_key [OF assms(2), simplified] fs_key_def)
qed simp

lemma scan_branch:
  assumes "\<forall>e\<in>set (entries_array n). fs_keyed e" "i \<le> length (entries_array n)"
  shows "scan_file_system_entries n False object_identifier data_type [i..<length (entries_array n)] previous =
    Inr (Some (branch_scan (object_identifier, data_type) previous (drop i (entries_array n))))"
  using assms(2)
proof (induction i arbitrary: previous rule: inc_induct)
  case (step i)
  obtain k where k: "key_data (entries_array n ! i) = Some k" "8 \<le> key_data_size (entries_array n ! i)" "8 \<le> length k"
    using assms(1) step.hyps(2) by (meson fs_keyedE nth_mem)
  show ?case
    unfolding scan_index_step [OF step.hyps(2)]
    using step.hyps(2) step.IH k
    by (simp add: btree_node_get_entry_by_index_def Let_def fs_key_def mask_60 [simplified] drop_60 [simplified])
qed simp

text \<open>
  An identifier whose entries have no smaller data type than the one that is looked for, at most
  one of them of that data type: a branch node is left by the last entry up to the key.
\<close>

definition first_of_identifier :: "nat \<times> nat \<Rightarrow> btree_entry list \<Rightarrow> bool" where
  "first_of_identifier target es \<longleftrightarrow> count_list (map fs_key es) target \<le> 1 \<and>
     (\<forall>e\<in>set es. fst (fs_key e) = fst target \<longrightarrow> snd target \<le> snd (fs_key e))"

lemma first_of_separators:
  assumes "separators_of fs_key xs es" "first_of_identifier target es"
  shows "first_of_identifier target xs"
proof -
  have "snd target \<le> snd (fs_key x)" if "x \<in> set xs" "fst (fs_key x) = fst target" for x
    using separators_key [OF assms(1) that(1)] assms(2) that(2) by (auto simp: first_of_identifier_def)
  moreover have "count_list (map fs_key xs) target \<le> 1"
    using assms le_trans unfolding separators_of_def first_of_identifier_def by blast
  ultimately show ?thesis by (simp add: first_of_identifier_def)
qed

lemma branch_scan_last:
  assumes "sorted_by fs_key es" "first_of_identifier target es" "es \<noteq> [] \<or> previous \<noteq> None"
  shows "branch_scan target previous es =
    (let upto = takeWhile (\<lambda>e. fs_key e \<le> target) es
     in if upto \<noteq> [] then Some (last upto) else if previous = None then Some (hd es) else previous)"
  using assms
proof (induction es arbitrary: previous)
  case (Cons e es)
  obtain i t where target: "target = (i, t)" by (cases target)
  obtain j u where e: "fs_key e = (j, u)" by (cases "fs_key e")
  have first: "first_of_identifier target es"
    using Cons.prems(2) by (auto simp: first_of_identifier_def split: if_splits)
  show ?case
  proof (cases "j < i")
    case True
    from Cons.IH [OF _ first, of "Some e"] Cons.prems(1) True e target show ?thesis by (auto simp: Let_def)
  next
    case False
    show ?thesis
    proof (cases "fs_key e = target")
      case True
      have "takeWhile (\<lambda>e. fs_key e \<le> target) es = []"
      proof (cases es)
        case (Cons x xs)
        have "target \<le> fs_key x" using Cons.prems(1) True Cons by simp
        moreover have "fs_key x \<noteq> target" using Cons.prems(2) True Cons by (auto simp: first_of_identifier_def)
        ultimately show ?thesis using Cons by simp
      qed simp
      then show ?thesis using True e target by (simp add: Let_def)
    next
      case ne: False
      have "j = i \<Longrightarrow> t \<le> u" using Cons.prems(2) e target by (simp add: first_of_identifier_def)
      then have "\<not> fs_key e \<le> target" using False ne e target by (auto simp: not_le)
      then show ?thesis using False ne e target \<open>j = i \<Longrightarrow> t \<le> u\<close> by (auto simp: Let_def)
    qed
  qed
qed simp

section \<open>Valid states\<close>

text \<open>
  Both caches are of the documented kind and hold nodes as they are in their blocks; the object map
  is well-formed with the entries \<open>om\<close>; the block vector gives data or an error.
\<close>

definition object_map_valid :: "('c, 'o) file_system_btree \<Rightarrow> btree_entry list \<Rightarrow> bool" where
  "object_map_valid tree om \<longleftrightarrow>
     (\<exists>h \<le> MAXIMUM_BTREE_NODE_RECURSION_DEPTH. object_map_entries (fs_object_map_btree tree) h = Some om) \<and>
     (\<forall>i. safe (fs_data_block_vector tree i))"

definition caches_valid ::
    "('c, 'o) file_system_btree \<Rightarrow> ('c \<Rightarrow> nat \<rightharpoonup> btree_node) \<Rightarrow> ('o \<Rightarrow> nat \<rightharpoonup> btree_node)
     \<Rightarrow> ('c, 'o) file_system_btree_state \<Rightarrow> bool" where
  "caches_valid tree contents om_contents s \<longleftrightarrow>
     cache_laws (fs_node_cache tree) contents \<and>
     coherent (fs_data_block_vector tree) (contents (node_cache_state s)) \<and>
     cache_valid (fs_object_map_btree tree) om_contents (object_map_state s)"

lemma caches_valid_encoding [simp]:
  "caches_valid tree contents om_contents (s\<lparr>branch_child_oid_encoding := x\<rparr>) = caches_valid tree contents om_contents s"
  by (simp add: caches_valid_def)

lemma check_file_system_node_safe:
  assumes "block_node n"
  shows "safe (check_file_system_root_node n)" "safe (check_file_system_sub_node n)"
  using assms by (auto simp: check_file_system_root_node_def check_file_system_sub_node_def check_object_header_def
      block_node_def split: option.splits)

lemma get_sub_node_valid:
  assumes "caches_valid tree contents om_contents s" "\<forall>i. safe (fs_data_block_vector tree i)"
    and "file_system_btree_get_sub_node tree a s = (r, s')"
  shows "caches_valid tree contents om_contents s'" "safe r"
    "\<And>m. r = Inr m \<Longrightarrow> a \<le> INT_MAX \<and> read_node (fs_data_block_vector tree) a = Inr m"
    "\<And>m. a \<le> INT_MAX \<Longrightarrow> read_node (fs_data_block_vector tree) a = Inr m \<Longrightarrow>
      check_file_system_sub_node m = Inr () \<Longrightarrow> r = Inr m"
proof -
  note v = assms(1) [unfolded caches_valid_def]
  have "caches_valid tree contents om_contents s' \<and> safe r \<and>
    (\<forall>m. r = Inr m \<longrightarrow> a \<le> INT_MAX \<and> read_node (fs_data_block_vector tree) a = Inr m) \<and>
    (\<forall>m. a \<le> INT_MAX \<longrightarrow> read_node (fs_data_block_vector tree) a = Inr m \<longrightarrow>
      check_file_system_sub_node m = Inr () \<longrightarrow> r = Inr m)"
  proof (cases "a > INT_MAX")
    case True
    then show ?thesis using assms by (auto simp: file_system_btree_get_sub_node_def)
  next
    case False
    obtain r1 c where get: "get_cached_node (fs_node_cache tree) (fs_data_block_vector tree) check_file_system_sub_node a
        (node_cache_state s) = (r1, c)" by fastforce
    then have run: "r = r1" "s' = s\<lparr>node_cache_state := c\<rparr>"
      using assms(3) False by (auto simp: file_system_btree_get_sub_node_def on_nodes_def)
    from v have laws: "cache_laws (fs_node_cache tree) contents"
      "coherent (fs_data_block_vector tree) (contents (node_cache_state s))" by auto
    note coh = get_cached_node_coherent [OF laws get]
    have "safe r1"
      by (rule get_cached_node_safe(2) [OF laws _ _ get]) (use assms(2) check_file_system_node_safe(2) in auto)
    moreover have "caches_valid tree contents om_contents s'"
      using coh(1) run(2) v by (simp add: caches_valid_def)
    moreover have "a \<le> INT_MAX" using False by simp
    ultimately show ?thesis using coh(2,3) run(1) by blast
  qed
  then show "caches_valid tree contents om_contents s'" "safe r"
    "\<And>m. r = Inr m \<Longrightarrow> a \<le> INT_MAX \<and> read_node (fs_data_block_vector tree) a = Inr m"
    "\<And>m. a \<le> INT_MAX \<Longrightarrow> read_node (fs_data_block_vector tree) a = Inr m \<Longrightarrow>
      check_file_system_sub_node m = Inr () \<Longrightarrow> r = Inr m" by blast+
qed

section \<open>Children\<close>

text \<open>The block of an object at a transaction, and the node of a level in it.\<close>

definition object_block :: "btree_entry list \<Rightarrow> nat \<Rightarrow> nat \<Rightarrow> nat option" where
  "object_block om transaction oid =
     (case latest entry_key (oid, transaction) om of
        None \<Rightarrow> None
      | Some e \<Rightarrow> if fst (entry_key e) = oid then Some (physical_address (descriptor_of e)) else None)"

definition node_level :: "nat \<Rightarrow> btree_node \<Rightarrow> bool" where
  "node_level expected_level n \<longleftrightarrow> (case node_header n of None \<Rightarrow> False | Some h \<Rightarrow> level h = expected_level)"

definition candidate_node :: "block_vector \<Rightarrow> btree_entry list \<Rightarrow> nat \<Rightarrow> nat \<Rightarrow> nat \<Rightarrow> (nat \<times> btree_node) option" where
  "candidate_node blocks om transaction expected_level oid =
     (case object_block om transaction oid of
        None \<Rightarrow> None
      | Some a \<Rightarrow>
          if a > INT_MAX then None
          else (case read_node blocks a of
            Inl _ \<Rightarrow> None
          | Inr m \<Rightarrow> if node_level expected_level m then Some (a, m) else None))"

lemma candidate_nodeD:
  assumes "candidate_node blocks om transaction lvl oid = Some (a, m)"
  shows "a \<le> INT_MAX" "read_node blocks a = Inr m" "node_level lvl m"
  using assms by (simp_all add: candidate_node_def split: option.splits if_splits sum.splits)

lemma get_object_block:
  assumes "caches_valid tree contents om_contents s" "object_map_valid tree om" "oid \<noteq> 0"
  obtains s' d where "caches_valid tree contents om_contents s'"
    "branch_child_oid_encoding s' = branch_child_oid_encoding s"
    "on_object_map (object_map_btree_get_descriptor_by_object_identifier (fs_object_map_btree tree) oid transaction None) s = (Inr d, s')"
    "map_option physical_address d = object_block om transaction oid"
proof -
  obtain h where h: "h \<le> MAXIMUM_BTREE_NODE_RECURSION_DEPTH" "object_map_entries (fs_object_map_btree tree) h = Some om"
    using assms(2) by (auto simp: object_map_valid_def)
  have "cache_valid (fs_object_map_btree tree) om_contents (object_map_state s)" using assms(1) by (simp add: caches_valid_def)
  from get_descriptor_found [OF this h(2,1) assms(3), of transaction] obtain o' where
    "cache_valid (fs_object_map_btree tree) om_contents o'"
    "object_map_btree_get_descriptor_by_object_identifier (fs_object_map_btree tree) oid transaction None (object_map_state s) =
      (Inr (case latest entry_key (oid, transaction) om of None \<Rightarrow> None
         | Some e \<Rightarrow> if fst (entry_key e) = oid then Some (descriptor_of e) else None), o')" by blast
  then show ?thesis
    using assms(1) by (intro that [of "s\<lparr>object_map_state := o'\<rparr>" "case latest entry_key (oid, transaction) om of None \<Rightarrow> None
         | Some e \<Rightarrow> if fst (entry_key e) = oid then Some (descriptor_of e) else None"])
      (auto simp: on_object_map_def caches_valid_def object_block_def split: option.splits)
qed

text \<open>
  If exactly one node of the level is among the candidates, it is found, whatever the order in
  which they are tried.
\<close>

lemma try_candidates_unique:
  assumes "object_map_valid tree om" "check_file_system_sub_node m = Inr ()"
    and "\<forall>c\<in>set cs. fst c \<noteq> 0 \<and>
      candidate_node (fs_data_block_vector tree) om transaction lvl (fst c) \<in> {None, Some (a, m)}"
    and "\<exists>c\<in>set cs. candidate_node (fs_data_block_vector tree) om transaction lvl (fst c) = Some (a, m)"
    and "caches_valid tree contents om_contents s"
  shows "\<exists>s'. try_candidates tree transaction lvl cs s = (Inr (Some a), s') \<and> caches_valid tree contents om_contents s'"
  using assms(3-5)
proof (induction cs arbitrary: s)
  case (Cons c cs)
  obtain oid enc where c: "c = (oid, enc)" by (cases c)
  have "oid \<noteq> 0" using Cons.prems(1) c by simp
  then obtain s1 d where s1: "caches_valid tree contents om_contents s1"
    "on_object_map (object_map_btree_get_descriptor_by_object_identifier (fs_object_map_btree tree) oid transaction None) s = (Inr d, s1)"
    "map_option physical_address d = object_block om transaction oid"
    by (rule get_object_block [OF Cons.prems(3) assms(1)])
  let ?cand = "candidate_node (fs_data_block_vector tree) om transaction lvl oid"
  have rest: "\<exists>s'. try_candidates tree transaction lvl cs s2 = (Inr (Some a), s') \<and> caches_valid tree contents om_contents s'"
    if "?cand \<noteq> Some (a, m)" "caches_valid tree contents om_contents s2" for s2
    using Cons.IH [OF _ _ that(2)] Cons.prems(1,2) that(1) c by auto
  show ?case
  proof (cases d)
    case None
    then have "?cand = None" using s1(3) by (simp add: candidate_node_def)
    then show ?thesis using rest [OF _ s1(1)] s1(2) None c by simp
  next
    case (Some desc)
    let ?b = "physical_address desc"
    have block: "object_block om transaction oid = Some ?b" using s1(3) Some by simp
    obtain r s2 where sub: "file_system_btree_get_sub_node tree ?b s1 = (r, s2)" by fastforce
    have "\<forall>i. safe (fs_data_block_vector tree i)" using assms(1) by (simp add: object_map_valid_def)
    note get = get_sub_node_valid [OF s1(1) this sub]
    show ?thesis
    proof (cases "?cand = Some (a, m)")
      case True
      then have "?b = a" "?b \<le> INT_MAX" "read_node (fs_data_block_vector tree) ?b = Inr m" "node_level lvl m"
        using block by (auto simp: candidate_node_def split: if_splits sum.splits)
      with get(4) [OF this(2,3) assms(2)] show ?thesis
        using s1(2) Some sub get(1) c by (simp add: node_level_def)
    next
      case False
      then have none: "?cand = None" using Cons.prems(1) c by auto
      show ?thesis
      proof (cases r)
        case (Inl e)
        then show ?thesis using rest [OF False get(1)] get(2) s1(2) Some sub c by simp
      next
        case (Inr n)
        then have "\<not> node_level lvl n" using get(3) [OF Inr] block none by (simp add: candidate_node_def split: if_splits)
        then show ?thesis using rest [OF False get(1)] Inr s1(2) Some sub c by (simp add: node_level_def)
      qed
    qed
  qed
qed simp

text \<open>
  The child that an entry of a branch node names at a transaction: the only node of the level below
  among the candidates, with keys in all its entries.
\<close>

definition file_system_child ::
    "('c, 'o) file_system_btree \<Rightarrow> btree_entry list \<Rightarrow> nat \<Rightarrow> btree_node \<Rightarrow> btree_entry \<Rightarrow> btree_node option" where
  "file_system_child tree om transaction n e =
     (case (node_header n, value_data e) of
        (Some header, Some data) \<Rightarrow>
          let raw = le_value (take 8 data);
              oids = map fst (candidate_object_identifiers ENCODING_UNKNOWN (root_node_object_identifier tree) raw);
              nodes = List.map_filter
                (candidate_node (fs_data_block_vector tree) om transaction (level header - 1)) oids
          in if level header = 0 \<or> value_data_size e < 8 \<or> length data < 8 \<or> raw = 0 \<or>
                raw + root_node_object_identifier tree \<ge> 2 ^ 64
             then None
             else (case nodes of
               [] \<Rightarrow> None
             | (a, m) # others \<Rightarrow>
                 if (\<forall>c\<in>set others. c = (a, m)) \<and> check_file_system_sub_node m = Inr () \<and>
                    list_all fs_keyed (entries_array m)
                 then Some m else None)
      | _ \<Rightarrow> None)"

lemma candidates_encoding:
  "set (map fst (candidate_object_identifiers encoding root raw)) = set (map fst (candidate_object_identifiers ENCODING_UNKNOWN root raw))"
  by (auto simp: candidate_object_identifiers_def Let_def ENCODING_UNKNOWN_def ENCODING_RELATIVE_def)

lemma candidates_nonzero: "raw \<noteq> 0 \<Longrightarrow> c \<in> set (candidate_object_identifiers encoding root raw) \<Longrightarrow> fst c \<noteq> 0"
  by (auto simp: candidate_object_identifiers_def Let_def split: if_splits)

lemma get_child_valid:
  assumes "caches_valid tree contents om_contents s" "object_map_valid tree om"
    and "file_system_child tree om transaction n e = Some m"
  shows "\<exists>s'. file_system_btree_get_child tree transaction n (Some e) s = (Inr m, s') \<and> caches_valid tree contents om_contents s'"
proof -
  let ?blocks = "fs_data_block_vector tree" and ?root = "root_node_object_identifier tree"
  obtain header data where hd: "node_header n = Some header" "value_data e = Some data"
    using assms(3) by (auto simp: file_system_child_def split: option.splits)
  define raw where "raw = le_value (take 8 data)"
  define oids where "oids = map fst (candidate_object_identifiers ENCODING_UNKNOWN ?root raw)"
  define nodes where "nodes = List.map_filter (candidate_node ?blocks om transaction (level header - 1)) oids"
  have *: "level header \<noteq> 0" "8 \<le> value_data_size e" "8 \<le> length data" "raw \<noteq> 0" "raw + ?root < 2 ^ 64"
    using assms(3) hd by (auto simp: file_system_child_def Let_def raw_def split: if_splits)
  have ch: "Some m = (case nodes of [] \<Rightarrow> None | (a, m) # others \<Rightarrow>
      if (\<forall>c\<in>set others. c = (a, m)) \<and> check_file_system_sub_node m = Inr () \<and> list_all fs_keyed (entries_array m)
      then Some m else None)"
    unfolding assms(3) [symmetric] file_system_child_def using hd *
    by (simp add: nodes_def oids_def raw_def [symmetric] del: One_nat_def)
  then obtain a others where nodes: "nodes = (a, m) # others" "\<forall>c\<in>set others. c = (a, m)" "check_file_system_sub_node m = Inr ()"
    by (auto split: list.splits if_splits)
  then have set: "set nodes = {(a, m)}" by auto
  let ?cs = "candidate_object_identifiers (branch_child_oid_encoding s) ?root raw"
  have cs: "set (map fst ?cs) = set oids" unfolding oids_def by (rule candidates_encoding)
  have all: "\<forall>c\<in>set ?cs. fst c \<noteq> 0 \<and> candidate_node ?blocks om transaction (level header - 1) (fst c) \<in> {None, Some (a, m)}"
  proof
    fix c assume c: "c \<in> set ?cs"
    then have "fst c \<in> set oids" using cs by (metis image_eqI list.set_map)
    then have "candidate_node ?blocks om transaction (level header - 1) (fst c) = Some x \<Longrightarrow> x \<in> set nodes" for x
      by (force simp: nodes_def List.map_filter_def)
    then show "fst c \<noteq> 0 \<and> candidate_node ?blocks om transaction (level header - 1) (fst c) \<in> {None, Some (a, m)}"
      using candidates_nonzero [OF *(4) c] set by (cases "candidate_node ?blocks om transaction (level header - 1) (fst c)") auto
  qed
  have "(a, m) \<in> set nodes" using set by simp
  then obtain oid where "oid \<in> set oids" "candidate_node ?blocks om transaction (level header - 1) oid = Some (a, m)"
    by (auto simp: nodes_def List.map_filter_def)
  then have ex: "\<exists>c\<in>set ?cs. candidate_node ?blocks om transaction (level header - 1) (fst c) = Some (a, m)"
    using cs by (metis (no_types, lifting) imageE list.set_map)
  obtain s1 where s1: "try_candidates tree transaction (level header - 1) ?cs s = (Inr (Some a), s1)" "caches_valid tree contents om_contents s1"
    using try_candidates_unique [OF assms(2) nodes(3) all ex assms(1)] by blast
  have at: "a \<le> INT_MAX" "read_node ?blocks a = Inr m"
    using ex candidate_nodeD by blast+
  have "\<not> (?root \<noteq> 0 \<and> raw > (2 ^ 64 - 1) - ?root)" using *(5) by linarith
  then have num: "file_system_btree_get_sub_node_block_number_from_entry tree n (Some e) transaction s = (Inr (Some a), s1)"
    using hd * s1(1) by (simp add: file_system_btree_get_sub_node_block_number_from_entry_def raw_def bindS_def)
  obtain r s2 where sub: "file_system_btree_get_sub_node tree a s1 = (r, s2)" by fastforce
  have "\<forall>i. safe (fs_data_block_vector tree i)" using assms(2) by (simp add: object_map_valid_def)
  from get_sub_node_valid [OF s1(2) this sub] at nodes(3) have "r = Inr m" "caches_valid tree contents om_contents s2" by auto
  then show ?thesis using num sub by (simp add: file_system_btree_get_child_def bindS_def)
qed

lemma file_system_child_keyed:
  assumes "file_system_child tree om transaction n e = Some m"
  shows "list_all fs_keyed (entries_array m)"
  using assms by (auto simp: file_system_child_def Let_def split: option.splits list.splits if_splits)

section \<open>The tree\<close>

text \<open>The root node, as the tree gets it.\<close>

definition file_system_root :: "('c, 'o) file_system_btree \<Rightarrow> btree_node option" where
  "file_system_root tree =
     (if fs_root_node_block_number tree > INT_MAX then None
      else case read_node (fs_data_block_vector tree) (fs_root_node_block_number tree) of
        Inl _ \<Rightarrow> None
      | Inr n \<Rightarrow>
          if \<not> empty_block_node n \<and> check_file_system_root_node n = Inr () \<and> list_all fs_keyed (entries_array n)
          then Some n else None)"

text \<open>The entries of a file system tree of at most the given height, in the order of their keys.\<close>

definition file_system_entries ::
    "(btree_entry \<Rightarrow> 'k::linorder) \<Rightarrow> ('c, 'o) file_system_btree \<Rightarrow> btree_entry list \<Rightarrow> nat \<Rightarrow> nat
     \<Rightarrow> btree_entry list option" where
  "file_system_entries key tree om transaction h =
     (case file_system_root tree of
        None \<Rightarrow> None
      | Some n \<Rightarrow> (case tree_entries (file_system_child tree om transaction) key h n of
          None \<Rightarrow> None
        | Some es \<Rightarrow> if sorted_by key es then Some es else None))"

text \<open>A tree that is ordered by a key is ordered by a coarser one.\<close>

lemma tree_entries_coarser:
  assumes "tree_entries child key h n = Some es" "\<And>x y. key x = key y \<Longrightarrow> key' x = key' y"
  shows "tree_entries child key' h n = Some es"
  using assms(1)
proof (induction h arbitrary: n es)
  case 0
  then show ?case by (auto simp: tree_entries.simps [of _ _ 0] split: if_splits)
next
  case (Suc h)
  show ?case
  proof (cases "is_leaf n")
    case True
    then show ?thesis using Suc.prems by (simp add: tree_entries.simps [of _ _ _ n])
  next
    case False
    obtain hd' ess where n: "node_header n = Some hd'" "entries_array n \<noteq> []" "length ess = length (entries_array n)"
      "es = concat ess" "\<forall>p\<in>set (zip (entries_array n) ess). named_by key p"
      "\<forall>i<length ess. \<exists>m. child n (entries_array n ! i) = Some m \<and> tree_entries child key h m = Some (ess ! i)"
      by (rule tree_entries_branch [OF Suc.prems False])
    have *: "\<exists>m x xs. child n (entries_array n ! i) = Some m \<and> tree_entries child key' h m = Some (ess ! i) \<and>
        ess ! i = x # xs \<and> key' x = key' (entries_array n ! i)" if i: "i < length ess" for i
    proof -
      have "named_by key (entries_array n ! i, ess ! i)" using n(3,5) i by (auto simp: set_zip)
      then obtain x xs where "ess ! i = x # xs" "key x = key (entries_array n ! i)"
        by (cases "ess ! i") (auto simp: named_by_def)
      moreover obtain m where "child n (entries_array n ! i) = Some m" "tree_entries child key h m = Some (ess ! i)"
        using n(6) i by blast
      ultimately show ?thesis using Suc.IH assms(2) by blast
    qed
    have "those (map (\<lambda>e. case child n e of None \<Rightarrow> None
        | Some m \<Rightarrow> (case tree_entries child key' h m of
            Some (x # xs) \<Rightarrow> if key' x = key' e then Some (x # xs) else None | _ \<Rightarrow> None)) (entries_array n)) = Some ess"
      unfolding those_map using n(3) * by fastforce
    then show ?thesis using False n(1,2,4) by (simp add: tree_entries.simps [of _ _ "Suc h" n])
  qed
qed

lemma fs_order_key: "fs_order x = fs_order y \<Longrightarrow> fs_key x = fs_key y" "fs_order x \<le> fs_order y \<Longrightarrow> fs_key x \<le> fs_key y"
proof -
  obtain c d where o: "fs_order x = (fst (fs_key x), snd (fs_key x), c)" "fs_order y = (fst (fs_key y), snd (fs_key y), d)"
    unfolding fs_order_def by blast
  obtain i j k l where k: "fs_key x = (i, j)" "fs_key y = (k, l)" by (metis surj_pair)
  show "fs_order x = fs_order y \<Longrightarrow> fs_key x = fs_key y" "fs_order x \<le> fs_order y \<Longrightarrow> fs_key x \<le> fs_key y"
    unfolding o k by auto
qed

lemma file_system_entries_by_key:
  assumes "file_system_entries fs_order tree om transaction h = Some es"
  shows "file_system_entries fs_key tree om transaction h = Some es"
proof -
  obtain n where n: "file_system_root tree = Some n" "tree_entries (file_system_child tree om transaction) fs_order h n = Some es"
    "sorted_by fs_order es"
    using assms by (auto simp: file_system_entries_def split: option.splits if_splits)
  have "sorted_by fs_key es" by (rule sorted_wrt_mono_rel [OF _ n(3)]) (rule fs_order_key(2))
  moreover have "tree_entries (file_system_child tree om transaction) fs_key h n = Some es"
    by (rule tree_entries_coarser [OF n(2)]) (rule fs_order_key(1))
  ultimately show ?thesis using n(1) by (simp add: file_system_entries_def)
qed

text \<open>The root node is got like other nodes, unless its block is empty.\<close>

lemma get_root_node_cached:
  assumes "fs_root_node_block_number tree \<le> INT_MAX"
    "\<And>n. read_node (fs_data_block_vector tree) (fs_root_node_block_number tree) = Inr n \<Longrightarrow> \<not> empty_block_node n"
  shows "file_system_btree_get_root_node tree (fs_root_node_block_number tree) s =
    on_nodes (bindS (get_cached_node (fs_node_cache tree) (fs_data_block_vector tree) check_file_system_root_node
      (fs_root_node_block_number tree)) (\<lambda>n. returnS (Some n))) s"
  using assms by (auto simp: file_system_btree_get_root_node_def on_nodes_def get_cached_node_def bindS_def fun_eq_iff
      split: sum.splits option.splits prod.splits)

lemma get_root_node_valid:
  assumes "caches_valid tree contents om_contents s" "file_system_root tree = Some n"
  shows "\<exists>s'. file_system_btree_get_root_node tree (fs_root_node_block_number tree) s = (Inr (Some n), s') \<and>
    caches_valid tree contents om_contents s'"
proof -
  have at: "fs_root_node_block_number tree \<le> INT_MAX"
    "read_node (fs_data_block_vector tree) (fs_root_node_block_number tree) = Inr n" "\<not> empty_block_node n"
    "check_file_system_root_node n = Inr ()"
    using assms(2) by (auto simp: file_system_root_def split: if_splits sum.splits)
  obtain r c where get: "get_cached_node (fs_node_cache tree) (fs_data_block_vector tree) check_file_system_root_node
      (fs_root_node_block_number tree) (node_cache_state s) = (r, c)" by fastforce
  have laws: "cache_laws (fs_node_cache tree) contents" "coherent (fs_data_block_vector tree) (contents (node_cache_state s))"
    using assms(1) by (simp_all add: caches_valid_def)
  note coh = get_cached_node_coherent [OF laws get]
  have "r = Inr n" by (rule coh(3) [OF at(2,4)])
  then show ?thesis
    using get_root_node_cached [of tree s] at(1-3) get coh(1) assms(1) by (simp add: on_nodes_def bindS_def caches_valid_def)
qed

text \<open>The entry that a lookup follows in a branch node.\<close>

definition fs_pick :: "nat \<times> nat \<Rightarrow> btree_node \<Rightarrow> btree_entry option" where
  "fs_pick target n =
     (if node_header n = None \<or> \<not> list_all fs_keyed (entries_array n) then None
      else branch_scan target None (entries_array n))"

lemma search_branch:
  assumes "d \<le> MAXIMUM_BTREE_NODE_RECURSION_DEPTH" "\<not> is_leaf n" "fs_pick (oid, ty) n = Some e"
  shows "search_file_system_node tree oid ty tr d n s =
    bindS (file_system_btree_get_child tree tr n (Some e)) (search_file_system_node tree oid ty tr (Suc d)) s"
proof -
  obtain h where h: "node_header n = Some h" "flags h AND 2 = 0"
    using assms(2,3) by (auto simp: is_leaf_def fs_pick_def split: if_splits)
  have keyed: "\<forall>e\<in>set (entries_array n). fs_keyed e" and e: "branch_scan (oid, ty) None (entries_array n) = Some e"
    using assms(3) by (auto simp: fs_pick_def list_all_iff split: if_splits)
  have "file_system_btree_get_entry_from_node_by_identifier n oid ty = Inr (Some (Some e))"
    using scan_branch [OF keyed, of 0 oid ty None] h e
    by (simp add: file_system_btree_get_entry_from_node_by_identifier_def btree_node_is_leaf_node_def btree_node_get_number_of_entries_def)
  then show ?thesis
    using assms(1) h by (simp add: search_file_system_node.simps [of tree oid ty tr d] btree_node_is_leaf_node_def bindS_def)
qed

interpretation file_system_lookup: tree_descent "\<lambda>n e. file_system_btree_get_child tree transaction n (Some e)"
    "file_system_child tree om transaction" "\<lambda>s. caches_valid tree contents om_contents s \<and> object_map_valid tree om"
    "fs_pick (oid, ty)" MAXIMUM_BTREE_NODE_RECURSION_DEPTH "search_file_system_node tree oid ty transaction"
  for tree :: "('c, 'o) file_system_btree" and om transaction contents om_contents oid ty
proof unfold_locales
  show "\<exists>s'. file_system_btree_get_child tree transaction n (Some e) s = (Inr m, s') \<and>
      caches_valid tree contents om_contents s' \<and> object_map_valid tree om"
    if "caches_valid tree contents om_contents s \<and> object_map_valid tree om" "file_system_child tree om transaction n e = Some m" for s n e m
    using get_child_valid [OF _ _ that(2)] that(1) by blast
  show "search_file_system_node tree oid ty transaction d n s =
      bindS (file_system_btree_get_child tree transaction n (Some e)) (search_file_system_node tree oid ty transaction (Suc d)) s"
    if "d \<le> MAXIMUM_BTREE_NODE_RECURSION_DEPTH" "\<not> is_leaf n" "fs_pick (oid, ty) n = Some e" for d n e s
    by (rule search_branch [OF that])
qed

lemma count_le_1_unique:
  assumes "count_list (map f xs) t \<le> 1" "x \<in> set xs" "y \<in> set xs" "f x = t" "f y = t"
  shows "x = y"
  using assms
proof (induction xs)
  case (Cons z zs)
  have "count_list (map f zs) t \<noteq> 0" if "w \<in> set zs" "f w = t" for w
    using that by (auto simp: count_list_0_iff)
  then show ?case using Cons by (auto split: if_splits)
qed simp

text \<open>The lookup of an entry: the one with the key, if the tree has it.\<close>

lemma get_entry_by_identifier_key:
  assumes "caches_valid tree contents om_contents s" "object_map_valid tree om"
    and "file_system_entries fs_key tree om transaction h = Some es" "h \<le> MAXIMUM_BTREE_NODE_RECURSION_DEPTH"
    and "oid < 2 ^ 60" "first_of_identifier (oid, ty) es"
  obtains s' m where "caches_valid tree contents om_contents s'"
    "file_system_btree_get_entry_by_identifier tree oid ty transaction s =
      (Inr (map_option (\<lambda>e. (m, Some e)) (find (\<lambda>e. fs_key e = (oid, ty)) es)), s')"
proof -
  obtain n where n: "file_system_root tree = Some n" "tree_entries (file_system_child tree om transaction) fs_key h n = Some es"
    "sorted_by fs_key es"
    using assms(3) by (auto simp: file_system_entries_def split: option.splits if_splits)
  obtain s1 where s1: "file_system_btree_get_root_node tree (fs_root_node_block_number tree) s = (Inr (Some n), s1)"
    "caches_valid tree contents om_contents s1"
    using get_root_node_valid [OF assms(1) n(1)] by blast
  let ?good = "\<lambda>n. list_all fs_keyed (entries_array n)"
  have "?good n" using n(1) by (auto simp: file_system_root_def split: if_splits sum.splits)
  then obtain m where m: "descend_to (file_system_child tree om transaction) (fs_pick (oid, ty)) h n = Some m" "is_leaf m"
    "latest fs_key (oid, ty) (entries_array m) = latest fs_key (oid, ty) es" "sorted_by fs_key (entries_array m)"
    "set (entries_array m) \<subseteq> set es" "?good m"
  proof (rule descend_latest [where good = ?good and pick = "fs_pick (oid, ty)" and target = "(oid, ty)", OF n(2,3)])
    show "\<And>n e m. file_system_child tree om transaction n e = Some m \<Longrightarrow> ?good m" by (rule file_system_child_keyed)
    show "fs_pick (oid, ty) n = Some (choice fs_key (oid, ty) (entries_array n))"
      if "?good n" "\<not> is_leaf n" "node_header n \<noteq> None" "entries_array n \<noteq> []" "separators_of fs_key (entries_array n) es" for n
      using that branch_scan_last [OF _ first_of_separators [OF that(5) assms(6)], of None]
      by (simp add: fs_pick_def choice_def separators_of_def Let_def)
  qed blast
  obtain d s' where d: "d \<le> 0 + h" "caches_valid tree contents om_contents s'"
    "search_file_system_node tree oid ty transaction 0 n s1 = search_file_system_node tree oid ty transaction d m s'"
    using file_system_lookup.descends [of tree om transaction oid ty h n m 0 contents om_contents s1] m(1) s1(2) assms(2,4) by auto
  have keyed: "\<forall>e\<in>set (entries_array m). fs_keyed e" using m(6) by (simp add: list_all_iff)
  let ?P = "\<lambda>e. fs_key e = (oid, ty)"
  have same: "find ?P (entries_array m) = find ?P es"
  proof (cases "find ?P es")
    case None
    then have "find ?P (entries_array m) = None" using m(5) by (auto simp: find_None_iff)
    then show ?thesis using None by simp
  next
    case (Some e)
    then have e: "e \<in> set es" "fs_key e = (oid, ty)" by (auto simp: find_Some_iff)
    then obtain e' where e': "latest fs_key (oid, ty) es = Some e'"
      by (cases "latest fs_key (oid, ty) es") (auto simp: latest_None)
    from latest_Some [OF e' n(3)] e have "fs_key e' = (oid, ty)" by (metis order_antisym order_refl)
    moreover have "e' \<in> set (entries_array m)" using latest_Some(1) [OF _ m(4)] m(3) e' by metis
    ultimately obtain e2 where e2: "find ?P (entries_array m) = Some e2"
      by (cases "find ?P (entries_array m)") (auto simp: find_None_iff)
    then have "e2 \<in> set es" "fs_key e2 = (oid, ty)" using m(5) by (auto simp: find_Some_iff)
    with e have "e2 = e" using count_le_1_unique [of fs_key es "(oid, ty)"] assms(6) by (auto simp: first_of_identifier_def)
    then show ?thesis using Some e2 by simp
  qed
  obtain hd' where hd': "node_header m = Some hd'" "flags hd' AND 2 \<noteq> 0" using m(2) by (auto simp: is_leaf_def split: option.splits)
  have "file_system_btree_get_entry_from_node_by_identifier m oid ty = Inr (map_option Some (find ?P es))"
    using scan_leaf [OF keyed assms(5), of 0 ty None] hd' same
    by (simp add: file_system_btree_get_entry_from_node_by_identifier_def btree_node_is_leaf_node_def btree_node_get_number_of_entries_def)
  then have "search_file_system_node tree oid ty transaction d m s' = (Inr (map_option (\<lambda>e. (m, Some e)) (find ?P es)), s')"
    using d(1) assms(4) hd' by (cases "find ?P es") (simp_all add: search_file_system_node.simps [of tree oid ty transaction d] btree_node_is_leaf_node_def)
  then have "file_system_btree_get_entry_by_identifier tree oid ty transaction s =
      (Inr (map_option (\<lambda>e. (m, Some e)) (find ?P es)), s')"
    using s1(1) d(3) by (simp add: file_system_btree_get_entry_by_identifier_def bindS_def)
  then show ?thesis using that d(2) by blast
qed

lemma get_inode_by_identifier_key:
  assumes "caches_valid tree contents om_contents s" "object_map_valid tree om"
    and "file_system_entries fs_key tree om transaction h = Some es" "h \<le> MAXIMUM_BTREE_NODE_RECURSION_DEPTH"
    and "oid < 2 ^ 60" "first_of_identifier (oid, DATA_TYPE_INODE) es"
  shows "\<exists>s'. caches_valid tree contents om_contents s' \<and>
    file_system_btree_get_inode_by_identifier tree oid transaction None s =
      (case find (\<lambda>e. fs_key e = (oid, DATA_TYPE_INODE)) es of
         None \<Rightarrow> Inr None
       | Some e \<Rightarrow> bindR (read_inode_entry e) (\<lambda>inode. Inr (Some inode)), s')"
proof -
  obtain s' m where "caches_valid tree contents om_contents s'"
    "file_system_btree_get_entry_by_identifier tree oid DATA_TYPE_INODE transaction s =
      (Inr (map_option (\<lambda>e. (m, Some e)) (find (\<lambda>e. fs_key e = (oid, DATA_TYPE_INODE)) es)), s')"
    by (rule get_entry_by_identifier_key [OF assms])
  then show ?thesis
    by (intro exI [of _ s']) (auto simp: file_system_btree_get_inode_by_identifier_def bindS_def bindR_def
        split: option.splits sum.splits)
qed

section \<open>Safety\<close>

text \<open>The same without any assumption on what the blocks hold.\<close>

definition file_system_state_valid ::
    "('c, 'o) file_system_btree \<Rightarrow> ('c \<Rightarrow> nat \<rightharpoonup> btree_node) \<Rightarrow> ('o \<Rightarrow> nat \<rightharpoonup> btree_node)
     \<Rightarrow> ('c, 'o) file_system_btree_state \<Rightarrow> bool" where
  "file_system_state_valid tree contents om_contents s \<longleftrightarrow>
     caches_valid tree contents om_contents s \<and> (\<forall>i. safe (fs_data_block_vector tree i)) \<and>
     (\<forall>i. safe (data_block_vector (fs_object_map_btree tree) i))"

lemma file_system_state_valid_encoding [simp]:
  "file_system_state_valid tree contents om_contents (s\<lparr>branch_child_oid_encoding := x\<rparr>) =
     file_system_state_valid tree contents om_contents s"
  by (simp add: file_system_state_valid_def)

lemma get_sub_node_safe:
  assumes "file_system_state_valid tree contents om_contents s"
  shows "call_safe (file_system_state_valid tree contents om_contents) block_node (file_system_btree_get_sub_node tree a s)"
proof (cases "file_system_btree_get_sub_node tree a s")
  case (Pair r s')
  have "caches_valid tree contents om_contents s" "\<forall>i. safe (fs_data_block_vector tree i)"
    using assms by (simp_all add: file_system_state_valid_def)
  from get_sub_node_valid [OF this Pair] assms show ?thesis
    by (cases r) (auto simp: Pair file_system_state_valid_def lib_error_def read_node_block_node)
qed

lemma get_root_node_safe:
  assumes "file_system_state_valid tree contents om_contents s"
  shows "call_safe (file_system_state_valid tree contents om_contents) (\<lambda>r. \<forall>n. r = Some n \<longrightarrow> block_node n)
    (file_system_btree_get_root_node tree a s)"
proof (cases "a > INT_MAX")
  case True
  then show ?thesis using assms by (simp add: file_system_btree_get_root_node_def)
next
  case False
  let ?ops = "fs_node_cache tree" and ?blocks = "fs_data_block_vector tree"
  have v: "cache_laws ?ops contents" "coherent ?blocks (contents (node_cache_state s))" "\<And>i. safe (?blocks i)"
    and om: "cache_valid (fs_object_map_btree tree) om_contents (object_map_state s)"
      "\<forall>i. safe (data_block_vector (fs_object_map_btree tree) i)"
    using assms by (simp_all add: file_system_state_valid_def caches_valid_def)
  obtain c where get: "cache_get_value_by_identifier ?ops a (node_cache_state s) = (Inr (contents (node_cache_state s) a), c)"
    "contents c \<subseteq>\<^sub>m contents (node_cache_state s)"
    using v(1) unfolding cache_laws_def by (metis prod.collapse)
  have coh: "coherent ?blocks (contents c)" by (rule coherent_mono [OF v(2) get(2)])
  show ?thesis
  proof (cases "contents (node_cache_state s) a = None \<and> (\<exists>n. read_node ?blocks a = Inr n \<and> empty_block_node n)")
    case True
    then show ?thesis
      using assms False get(1) coh
      by (auto simp: file_system_btree_get_root_node_def on_nodes_def bindS_def file_system_state_valid_def caches_valid_def)
  next
    case other: False
    obtain r c' where cached: "get_cached_node ?ops ?blocks check_file_system_root_node a (node_cache_state s) = (r, c')" by fastforce
    have run: "file_system_btree_get_root_node tree a s =
        (case r of Inl e \<Rightarrow> Inl e | Inr n \<Rightarrow> Inr (Some n), s\<lparr>node_cache_state := c'\<rparr>)"
      using False other get(1) cached
      by (auto simp: file_system_btree_get_root_node_def on_nodes_def get_cached_node_def bindS_def split: sum.splits option.splits prod.splits)
    have "coherent ?blocks (contents c')" "safe r" "\<And>n. r = Inr n \<Longrightarrow> block_node n"
      by (rule get_cached_node_safe [OF v(1,2) _ _ cached]; use v(3) check_file_system_node_safe(1) in auto)+
    then show ?thesis
      unfolding run using v om by (cases r) (auto simp: file_system_state_valid_def caches_valid_def lib_error_def)
  qed
qed

lemma try_candidates_safe:
  assumes "file_system_state_valid tree contents om_contents s"
  shows "call_safe (file_system_state_valid tree contents om_contents) (\<lambda>_. True) (try_candidates tree transaction lvl cs s)"
  using assms
proof (induction cs arbitrary: s)
  case (Cons c cs)
  obtain oid enc where c: "c = (oid, enc)" by (cases c)
  let ?om = "fs_object_map_btree tree"
  let ?valid = "file_system_state_valid tree contents om_contents"
  obtain r o' where get: "object_map_btree_get_descriptor_by_object_identifier ?om oid transaction None (object_map_state s) = (r, o')"
    by fastforce
  have "tree_valid ?om om_contents (object_map_state s)"
    using Cons.prems by (simp add: file_system_state_valid_def caches_valid_def tree_valid_def)
  from get_descriptor_safe [OF this, of oid transaction None]
  have om: "tree_valid ?om om_contents o'" "safe r" by (simp_all add: get call_safe_def safe_post)
  then have s1: "?valid (s\<lparr>object_map_state := o'\<rparr>)"
    using Cons.prems by (simp add: file_system_state_valid_def caches_valid_def tree_valid_def)
  show ?case
  proof (cases r)
    case (Inl e)
    then show ?thesis using om(2) s1 by (simp add: c on_object_map_def get caller_error_def)
  next
    case (Inr d)
    show ?thesis
    proof (cases d)
      case None
      then show ?thesis using Cons.IH [OF s1] by (simp add: c on_object_map_def get Inr)
    next
      case (Some desc)
      obtain r2 s2 where sub: "file_system_btree_get_sub_node tree (physical_address desc) (s\<lparr>object_map_state := o'\<rparr>) = (r2, s2)"
        by fastforce
      have s2: "?valid s2" "post lib_error block_node r2"
        using get_sub_node_safe [OF s1, of "physical_address desc"] by (simp_all add: sub call_safe_def)
      show ?thesis
        using s2 Cons.IH [OF s2(1)] by (cases r2) (auto simp: c on_object_map_def get Inr Some sub)
    qed
  qed
qed simp

lemma get_child_safe:
  assumes "file_system_state_valid tree contents om_contents s" "block_node n" "set_option entry \<subseteq> set (entries_array n)"
  shows "call_safe (file_system_state_valid tree contents om_contents) block_node
    (file_system_btree_get_child tree transaction n entry s)"
proof -
  obtain h where h: "node_header n = Some h" using assms(2) by (auto simp: block_node_def)
  have "call_safe (file_system_state_valid tree contents om_contents) (\<lambda>_. True)
      (file_system_btree_get_sub_node_block_number_from_entry tree n entry transaction s)"
  proof (cases entry)
    case (Some e)
    then have "\<forall>v. value_data e = Some v \<longrightarrow> length v = value_data_size e" using assms(2,3) by (auto simp: block_node_def)
    then show ?thesis
      using assms(1) h Some try_candidates_safe [OF assms(1)]
      by (auto simp: file_system_btree_get_sub_node_block_number_from_entry_def split: option.splits)
  qed (use assms(1) h in \<open>simp add: file_system_btree_get_sub_node_block_number_from_entry_def\<close>)
  then show ?thesis
    unfolding file_system_btree_get_child_def
    by (rule call_safe_bindS) (auto split: option.splits intro: get_sub_node_safe)
qed

lemma scan_file_system_entries_safe:
  assumes "block_node n" "set is \<subseteq> {..<length (entries_array n)}" "set_option previous \<subseteq> set (entries_array n)"
  shows "post lib_error (\<lambda>found. \<forall>entry. found = Some entry \<longrightarrow> set_option entry \<subseteq> set (entries_array n))
    (scan_file_system_entries n leaf oid ty is previous)"
  using assms(2,3)
proof (induction "is" arbitrary: previous)
  case (Cons i "is")
  let ?e = "entries_array n ! i"
  have i: "i < length (entries_array n)" using Cons.prems(1) by simp
  then have mem: "?e \<in> set (entries_array n)" by simp
  then have "\<And>k. key_data ?e = Some k \<Longrightarrow> length k = key_data_size ?e" using assms(1) by (auto simp: block_node_def)
  then show ?case
    using i mem Cons.prems Cons.IH [of previous] Cons.IH [of "Some ?e"]
    by (cases "key_data ?e") (auto simp: btree_node_get_entry_by_index_def Let_def)
qed auto

lemma get_file_system_entry_safe:
  assumes "block_node n"
  shows "post lib_error (\<lambda>found. \<forall>entry. found = Some entry \<longrightarrow> set_option entry \<subseteq> set (entries_array n))
    (file_system_btree_get_entry_from_node_by_identifier n oid ty)"
proof -
  obtain h where h: "node_header n = Some h" using assms by (auto simp: block_node_def)
  show ?thesis
    unfolding file_system_btree_get_entry_from_node_by_identifier_def btree_node_is_leaf_node_def h
      btree_node_get_number_of_entries_def bindR_simps option.case
    by (rule scan_file_system_entries_safe [OF assms]) auto
qed

lemma search_file_system_node_safe:
  assumes "file_system_state_valid tree contents om_contents s" "block_node n"
  shows "call_safe (file_system_state_valid tree contents om_contents) found_in_node
    (search_file_system_node tree oid ty transaction d n s)"
  using assms
proof (induction tree oid ty transaction d n s rule: search_file_system_node.induct)
  case (1 tree oid ty transaction d n s)
  let ?valid = "file_system_state_valid tree contents om_contents"
  show ?case
  proof (cases "d > MAXIMUM_BTREE_NODE_RECURSION_DEPTH")
    case True
    then show ?thesis using "1.prems" by (simp add: search_file_system_node.simps [of tree oid ty transaction d])
  next
    case False
    obtain h where h: "node_header n = Some h" using "1.prems"(2) by (auto simp: block_node_def)
    note unfold = search_file_system_node.simps [of tree oid ty transaction d n s]
    show ?thesis
    proof (cases "file_system_btree_get_entry_from_node_by_identifier n oid ty")
      case (Inl e)
      then show ?thesis
        using False h "1.prems" get_file_system_entry_safe [OF "1.prems"(2), of oid ty]
        by (simp add: unfold btree_node_is_leaf_node_def)
    next
      case (Inr found)
      have in_node: "\<forall>entry. found = Some entry \<longrightarrow> set_option entry \<subseteq> set (entries_array n)"
        using get_file_system_entry_safe [OF "1.prems"(2), of oid ty] Inr by simp
      show ?thesis
      proof (cases "found = None \<or> flags h AND 2 \<noteq> 0")
        case True
        then show ?thesis
          using False h Inr "1.prems" in_node
          by (auto simp: unfold btree_node_is_leaf_node_def found_in_node_def split: option.splits)
      next
        case branch: False
        then obtain entry where entry: "found = Some entry" "flags h AND 2 = 0" by auto
        have child: "call_safe ?valid block_node (file_system_btree_get_child tree transaction n entry s)"
          by (rule get_child_safe [OF "1.prems"]) (use in_node entry(1) in simp)
        have "search_file_system_node tree oid ty transaction d n s =
            bindS (file_system_btree_get_child tree transaction n entry)
              (search_file_system_node tree oid ty transaction (d + 1)) s"
          using False h Inr entry by (simp add: unfold btree_node_is_leaf_node_def)
        moreover have "call_safe ?valid found_in_node (search_file_system_node tree oid ty transaction (d + 1) m s')"
          if "file_system_btree_get_child tree transaction n entry s = (Inr m, s')" for m s'
          by (rule "1.IH") (use child that False h Inr entry in \<open>simp_all add: btree_node_is_leaf_node_def\<close>)
        ultimately show ?thesis
          using child by (cases "file_system_btree_get_child tree transaction n entry s"; cases "fst (file_system_btree_get_child tree transaction n entry s)")
            (auto simp: bindS_def)
      qed
    qed
  qed
qed

lemma read_inode_entry_safe:
  assumes "block_node n" "e \<in> set (entries_array n)"
  shows "safe (read_inode_entry e)"
proof -
  have "entry_data_ok (key_data e) (key_data_size e)" "entry_data_ok (value_data e) (value_data_size e)"
    using assms by (auto simp: block_node_def entry_data_ok_def)
  then show ?thesis using inode_read_safe by (auto simp: read_inode_entry_def inode_initialize_def)
qed

lemma get_entry_by_identifier_safe:
  assumes "file_system_state_valid tree contents om_contents s"
  shows "call_safe (file_system_state_valid tree contents om_contents) found_in_node
    (file_system_btree_get_entry_by_identifier tree oid ty transaction s)"
  unfolding file_system_btree_get_entry_by_identifier_def
  by (rule call_safe_bindS, rule get_root_node_safe [OF assms])
    (auto simp: found_in_node_def split: option.splits intro: search_file_system_node_safe)

lemma get_inode_by_identifier_safe:
  assumes "file_system_state_valid tree contents om_contents s"
  shows "call_safe (file_system_state_valid tree contents om_contents) (\<lambda>_. True)
    (file_system_btree_get_inode_by_identifier tree oid transaction inode s)"
proof (cases "inode = None")
  case True
  show ?thesis
    unfolding file_system_btree_get_inode_by_identifier_def if_not_P [OF iffD2 [OF not_not True]]
  proof (rule call_safe_bindS, rule get_entry_by_identifier_safe [OF assms])
    fix found s'
    assume s': "file_system_state_valid tree contents om_contents s'" "found_in_node found"
    have "safe (read_inode_entry e)" if "found = Some (n, Some e)" for n e
      using s'(2) that by (auto simp: found_in_node_def intro: read_inode_entry_safe)
    then show "call_safe (file_system_state_valid tree contents om_contents) (\<lambda>_. True)
        ((case found of None \<Rightarrow> returnS None | Some (node, None) \<Rightarrow> failS RUNTIME_VALUE_MISSING
          | Some (node, Some entry) \<Rightarrow> bindS (liftS (read_inode_entry entry)) (\<lambda>inode. returnS (Some inode))) s')"
      using s'(1) by (auto split: option.splits simp: bindS_def safe_def lib_error_def split: sum.splits)
  qed
qed (use assms in \<open>simp add: file_system_btree_get_inode_by_identifier_def\<close>)

section \<open>A sample tree\<close>

text \<open>
  A root and a leaf, which the object map of \<open>Object_Map_Btree\<close> places in block 100 at transaction 4:
  two inodes, a directory record of the first and an extent of the second.
\<close>

definition sample_fs_key :: "nat \<Rightarrow> nat \<Rightarrow> bytes" where
  "sample_fs_key ty oid = le_encode 8 (ty * 2 ^ 60 + oid)"

definition sample_inode :: bytes where
  "sample_inode = le_encode 8 1 @ le_encode 8 2 @ replicate 76 0"

definition sample_record :: "bytes \<times> bytes" where
  "sample_record = (record_key_with_hash 2 1988076 [97, 0], le_encode 8 5 @ replicate 10 0)"

definition sample_extent :: "bytes \<times> bytes" where
  "sample_extent = (sample_fs_key 8 5 @ le_encode 8 0, le_encode 8 4096 @ le_encode 8 200 @ le_encode 8 0)"

definition sample_fs_leaf :: "(bytes \<times> bytes) list" where
  "sample_fs_leaf = [(sample_fs_key 3 2, sample_inode), sample_record, (sample_fs_key 3 5, sample_inode), sample_extent]"

definition sample_fs_footer :: btree_footer where
  "sample_fs_footer = \<lparr>footer_flags = 0, node_size = 4096, key_size = 0, value_size = 0,
     maximum_key_size = 14, maximum_value_size = 92\<rparr>"

definition sample_fs_blocks :: block_vector where
  "sample_fs_blocks i =
     (if i = 10 then Inr (Some (encode_node 2 0x0e 1 1 41 [(sample_fs_key 3 2, le_encode 8 7)] (Some sample_fs_footer)))
      else if i = 100 then Inr (Some (encode_node 3 0x0e 2 0 41 sample_fs_leaf None))
      else Inr None)"

definition sample_fs_tree :: "((nat \<rightharpoonup> btree_node), (nat \<rightharpoonup> btree_node)) file_system_btree" where
  "sample_fs_tree = \<lparr>fs_node_cache = map_cache, fs_data_block_vector = sample_fs_blocks,
     fs_object_map_btree = sample_tree, root_node_object_identifier = 1000, fs_root_node_block_number = 10,
     use_case_folding = 0\<rparr>"

definition sample_fs_state :: "((nat \<rightharpoonup> btree_node), (nat \<rightharpoonup> btree_node)) file_system_btree_state" where
  "sample_fs_state = \<lparr>node_cache_state = Map.empty, object_map_state = Map.empty, branch_child_oid_encoding = 0\<rparr>"

lemma sample_fs_nodes:
  "read_node sample_fs_blocks 10 = Inr (node_of 2 0x0e 1 1 41 [(sample_fs_key 3 2, le_encode 8 7)] (Some sample_fs_footer))"
  "read_node sample_fs_blocks 100 = Inr (node_of 3 0x0e 2 0 41 sample_fs_leaf None)"
  by (rule read_node_encoded;
      simp add: sample_fs_blocks_def node_writable_def sizes_allowed_def sample_fs_key_def sample_inode_def sample_fs_leaf_def
        sample_record_def sample_extent_def record_key_with_hash_def sample_fs_footer_def encode_node_def encode_footer_option_def encode_location_def)+

lemma sample_object_block: "object_block (map entry_of sample_leaf) 4 7 = Some 100"
  "object_block (map entry_of sample_leaf) 4 1007 = None"
proof -
  have keys: "entry_key (entry_of (sample_key tr, v)) = (7, tr mod 2 ^ 64)" for tr v
    by (simp add: entry_key_def entry_of_def sample_key_def)
  have "physical_address (descriptor_of (entry_of (k, sample_value 100))) = 100" for k
    by (simp add: descriptor_of_def entry_of_def sample_value_def)
  then show "object_block (map entry_of sample_leaf) 4 7 = Some 100" "object_block (map entry_of sample_leaf) 4 1007 = None"
    by (simp_all add: object_block_def latest_def sample_leaf_def keys)
qed

lemma sample_fs_valid:
  "caches_valid sample_fs_tree (\<lambda>s. s) (\<lambda>s. s) sample_fs_state"
  "object_map_valid sample_fs_tree (map entry_of sample_leaf)"
  "file_system_state_valid sample_fs_tree (\<lambda>s. s) (\<lambda>s. s) sample_fs_state"
proof -
  show "caches_valid sample_fs_tree (\<lambda>s. s) (\<lambda>s. s) sample_fs_state"
    by (simp add: caches_valid_def sample_fs_tree_def sample_fs_state_def map_cache_laws coherent_def cache_valid_def sample_tree_def)
  then show "file_system_state_valid sample_fs_tree (\<lambda>s. s) (\<lambda>s. s) sample_fs_state"
    by (simp add: file_system_state_valid_def sample_fs_tree_def sample_fs_blocks_def sample_tree_def sample_blocks_def)
  show "object_map_valid sample_fs_tree (map entry_of sample_leaf)"
    using sample_entries
    by (auto simp: object_map_valid_def sample_fs_tree_def sample_fs_blocks_def MAXIMUM_BTREE_NODE_RECURSION_DEPTH_def intro!: exI [of _ 1])
qed

lemma sample_fs_keys:
  "map fs_order (map entry_of sample_fs_leaf) = [(2, 3, 0), (2, 9, 0), (5, 3, 0), (5, 8, 0)]"
  "list_all fs_keyed (map entry_of sample_fs_leaf)"
  by (simp_all add: fs_order_def fs_key_def fs_keyed_def entry_of_def sample_fs_leaf_def sample_fs_key_def sample_record_def sample_extent_def record_key_with_hash_def)

text \<open>For any order of the entries in which the root names the leaf.\<close>

lemma sample_fs_entries_by:
  assumes "key (entry_of (sample_fs_key 3 2, sample_inode)) = key (entry_of (sample_fs_key 3 2, le_encode 8 7))"
    and "sorted_by key (map entry_of sample_fs_leaf)"
  shows "file_system_entries key sample_fs_tree (map entry_of sample_leaf) 4 1 = Some (map entry_of sample_fs_leaf)"
proof -
  let ?om = "map entry_of sample_leaf"
  let ?leaf = "node_of 3 0x0e 2 0 41 sample_fs_leaf None"
  let ?root = "node_of 2 0x0e 1 1 41 [(sample_fs_key 3 2, le_encode 8 7)] (Some sample_fs_footer)"
  have leaf: "is_leaf ?leaf" "entries_array ?leaf = map entry_of sample_fs_leaf"
    by (simp_all add: is_leaf_def node_of_def header_of_def)
  have branch: "\<not> is_leaf ?root" "entries_array ?root = [entry_of (sample_fs_key 3 2, le_encode 8 7)]" "node_header ?root \<noteq> None"
    by (simp_all add: is_leaf_def node_of_def header_of_def)
  have cand: "candidate_node sample_fs_blocks ?om 4 0 7 = Some (100, ?leaf)" "candidate_node sample_fs_blocks ?om 4 0 1007 = None"
    by (simp_all add: candidate_node_def sample_object_block INT_MAX_def sample_fs_nodes node_level_def node_of_def header_of_def)
  have child: "file_system_child sample_fs_tree ?om 4 ?root (entry_of (sample_fs_key 3 2, le_encode 8 7)) = Some ?leaf"
    using cand leaf(2) sample_fs_keys(2)
    by (simp add: file_system_child_def sample_fs_tree_def entry_of_def node_of_def header_of_def candidate_object_identifiers_def
        ENCODING_UNKNOWN_def ENCODING_RELATIVE_def List.map_filter_simps check_file_system_sub_node_def check_object_header_def)
  have "tree_entries (file_system_child sample_fs_tree ?om 4) key 0 ?leaf = Some (map entry_of sample_fs_leaf)"
    using leaf by (simp add: tree_entries.simps [of _ _ 0])
  moreover have "map entry_of sample_fs_leaf = entry_of (sample_fs_key 3 2, sample_inode) # map entry_of (tl sample_fs_leaf)"
    by (simp add: sample_fs_leaf_def)
  ultimately have tree: "tree_entries (file_system_child sample_fs_tree ?om 4) key (Suc 0) ?root = Some (map entry_of sample_fs_leaf)"
    using branch child assms(1) by (subst tree_entries.simps) simp
  have "check_file_system_root_node ?root = Inr ()" "\<not> empty_block_node ?root" "list_all fs_keyed (entries_array ?root)"
    by (simp_all add: check_file_system_root_node_def check_object_header_def empty_block_node_def node_of_def header_of_def
        sample_fs_footer_def fs_keyed_def fs_key_def entry_of_def sample_fs_key_def)
  then have "file_system_root sample_fs_tree = Some ?root"
    by (simp add: file_system_root_def sample_fs_tree_def INT_MAX_def sample_fs_nodes)
  then show ?thesis using tree assms(2) by (simp add: file_system_entries_def)
qed

lemma sample_fs_entries:
  "file_system_entries fs_order sample_fs_tree (map entry_of sample_leaf) 4 1 = Some (map entry_of sample_fs_leaf)"
proof (rule sample_fs_entries_by)
  have "sorted_wrt (\<le>) (map fs_order (map entry_of sample_fs_leaf))"
    unfolding sample_fs_keys(1) by simp
  then show "sorted_by fs_order (map entry_of sample_fs_leaf)" unfolding sorted_wrt_map .
qed (simp add: fs_order_def fs_key_def entry_of_def)

section \<open>Properties\<close>

text \<open>C15. In a well-formed file system tree of height at most 256, whose
  branch nodes name their children through the object map by absolute or by relative identifiers, the
  lookup of an inode returns the inode in the entry with its identifier, fails exactly when that entry
  does not hold an inode, and reports that there is none exactly when the tree has no such entry.
  Neither the state of the two caches nor the encoding of identifiers that was found before matters.\<close>

theorem inode_lookup_correct:
  assumes "caches_valid tree contents om_contents s" "object_map_valid tree om"
    and "file_system_entries fs_key tree om transaction h = Some es" "h \<le> MAXIMUM_BTREE_NODE_RECURSION_DEPTH"
    and "oid < 2 ^ 60" "first_of_identifier (oid, DATA_TYPE_INODE) es"
  shows "\<exists>s'. caches_valid tree contents om_contents s' \<and>
    file_system_btree_get_inode_by_identifier tree oid transaction None s =
      (case find (\<lambda>e. fs_key e = (oid, DATA_TYPE_INODE)) es of
         None \<Rightarrow> Inr None
       | Some e \<Rightarrow> bindR (read_inode_entry e) (\<lambda>inode. Inr (Some inode)), s')"
  by (rule get_inode_by_identifier_key [OF assms])

theorem inode_lookup_correct_witness:
  "\<exists>s' inode. file_system_btree_get_inode_by_identifier sample_fs_tree 5 4 None sample_fs_state = (Inr (Some inode), s') \<and>
    inode_identifier inode = 5 \<and> inode_parent_identifier inode = 1"
proof -
  let ?es = "map entry_of sample_fs_leaf"
  have first: "first_of_identifier (5, DATA_TYPE_INODE) ?es"
    by (simp add: first_of_identifier_def DATA_TYPE_INODE_def sample_fs_leaf_def fs_key_def entry_of_def sample_fs_key_def
        sample_record_def sample_extent_def record_key_with_hash_def)
  have found: "find (\<lambda>e. fs_key e = (5, DATA_TYPE_INODE)) ?es = Some (entry_of (sample_fs_key 3 5, sample_inode))"
    by (simp add: DATA_TYPE_INODE_def sample_fs_leaf_def fs_key_def entry_of_def sample_fs_key_def sample_record_def sample_extent_def record_key_with_hash_def)
  have "\<exists>inode. read_inode_entry (entry_of (sample_fs_key 3 5, sample_inode)) = Inr inode \<and>
      inode_identifier inode = 5 \<and> inode_parent_identifier inode = 1"
    by (simp add: read_inode_entry_def inode_initialize_def inode_read_key_data_def inode_read_value_data_def entry_of_def
        sample_fs_key_def sample_inode_def SSIZE_MAX_def mask_60 [simplified] Let_def)
  then show ?thesis
    using inode_lookup_correct [OF sample_fs_valid(1,2) file_system_entries_by_key [OF sample_fs_entries] _ _ first] found
    by (auto simp: MAXIMUM_BTREE_NODE_RECURSION_DEPTH_def)
qed

end
