(* ===== verification/File_System_Enumeration.thy ===== *)
theory File_System_Enumeration
  imports File_System_Lookup
begin

text \<open>
  The functions of \<open>libfsapfs_file_system_btree.c\<close> that collect all records of an identifier: the
  directory entries of a directory, the extended attributes of a file and the extents of a data
  stream. They share their shape: a loop over the entries of a leaf, and in a branch node a loop that
  visits the child before each entry with the key that is looked for, and finally the child of the
  last entry. They differ in the data types, in the reader and in how an entry of a branch node matches.
\<close>

section \<open>Kinds of records\<close>

record 'r record_kind =
  kind_types :: "nat list"
  kind_last_type :: nat
  kind_matches :: "nat \<Rightarrow> nat \<Rightarrow> nat \<Rightarrow> btree_entry \<Rightarrow> bool result"
  kind_read :: "nat \<Rightarrow> btree_entry \<Rightarrow> 'r result"

definition DATA_TYPE_EXTENDED_ATTRIBUTE :: nat where "DATA_TYPE_EXTENDED_ATTRIBUTE = 4"
definition DATA_TYPE_FILE_EXTENT :: nat where "DATA_TYPE_FILE_EXTENT = 8"
definition DATA_TYPE_DIRECTORY_RECORD :: nat where "DATA_TYPE_DIRECTORY_RECORD = 9"

text \<open>An entry of a branch node with the identifier and the data type of a directory or of attributes.\<close>

definition matches_type :: "nat \<Rightarrow> nat \<Rightarrow> nat \<Rightarrow> nat \<Rightarrow> btree_entry \<Rightarrow> bool result" where
  "matches_type data_type identifier file_system_identifier file_system_data_type entry =
     Inr (file_system_identifier = identifier \<and> file_system_data_type = data_type)"

text \<open>For extents the logical address in the key must not be zero: the first extent has no extents before it.\<close>

definition matches_extent :: "nat \<Rightarrow> nat \<Rightarrow> nat \<Rightarrow> btree_entry \<Rightarrow> bool result" where
  "matches_extent identifier file_system_identifier file_system_data_type entry =
     (if file_system_identifier = identifier \<and>
         (file_system_data_type = DATA_TYPE_FILE_EXTENT \<or> file_system_data_type = FILE_EXTENT2)
      then if key_data_size entry < 16 then Inl RUNTIME_VALUE_OUT_OF_BOUNDS
           else case key_data entry of
             None \<Rightarrow> Inl OUT_OF_BOUNDS_ACCESS
           | Some key \<Rightarrow> bindR (rd_u64_le key 8) (\<lambda>logical_address. Inr (logical_address > 0))
      else Inr False)"

definition read_directory_record_entry :: "nat \<Rightarrow> btree_entry \<Rightarrow> directory_record result" where
  "read_directory_record_entry file_system_data_type entry =
     bindR (directory_record_initialize None) (\<lambda>r.
     bindR (directory_record_read_key_data r (key_data entry) (key_data_size entry)) (\<lambda>r.
       directory_record_read_value_data r (value_data entry) (value_data_size entry)))"

definition read_attribute_entry :: "nat \<Rightarrow> btree_entry \<Rightarrow> attribute_values result" where
  "read_attribute_entry file_system_data_type entry =
     bindR (attribute_values_initialize None) (\<lambda>a.
     bindR (attribute_values_read_key_data a (key_data entry) (key_data_size entry)) (\<lambda>a.
       attribute_values_read_value_data a (value_data entry) (value_data_size entry)))"

definition read_file_extent_entry :: "nat \<Rightarrow> btree_entry \<Rightarrow> file_extent result" where
  "read_file_extent_entry file_system_data_type entry =
     bindR (file_extent_initialize None) (\<lambda>x.
     bindR (file_extent_read_key_data x file_system_data_type (key_data entry) (key_data_size entry)) (\<lambda>x.
       file_extent_read_value_data x file_system_data_type (value_data entry) (value_data_size entry)))"

definition directory_records :: "directory_record record_kind" where
  "directory_records = \<lparr>kind_types = [DATA_TYPE_DIRECTORY_RECORD], kind_last_type = DATA_TYPE_DIRECTORY_RECORD,
     kind_matches = matches_type DATA_TYPE_DIRECTORY_RECORD, kind_read = read_directory_record_entry\<rparr>"

definition attributes :: "attribute_values record_kind" where
  "attributes = \<lparr>kind_types = [DATA_TYPE_EXTENDED_ATTRIBUTE], kind_last_type = DATA_TYPE_EXTENDED_ATTRIBUTE,
     kind_matches = matches_type DATA_TYPE_EXTENDED_ATTRIBUTE, kind_read = read_attribute_entry\<rparr>"

definition file_extents :: "file_extent record_kind" where
  "file_extents = \<lparr>kind_types = [DATA_TYPE_FILE_EXTENT, FILE_EXTENT2], kind_last_type = FILE_EXTENT2,
     kind_matches = matches_extent, kind_read = read_file_extent_entry\<rparr>"

section \<open>Leaf nodes\<close>

text \<open>
  The records are appended to the array of the caller. A failing call empties the array, so that
  an error leaves no records.
\<close>

fun collect_leaf_entries ::
    "'r record_kind \<Rightarrow> btree_node \<Rightarrow> nat \<Rightarrow> nat list \<Rightarrow> 'r list \<Rightarrow> bool \<Rightarrow> ('r list \<times> bool) result" where
  "collect_leaf_entries kind node identifier [] records found = Inr (records, found)"
| "collect_leaf_entries kind node identifier (btree_entry_index # rest) records found =
     bindR (btree_node_get_entry_by_index node btree_entry_index) (\<lambda>entry.
       case key_data entry of
         None \<Rightarrow> Inl RUNTIME_VALUE_MISSING
       | Some key \<Rightarrow>
           if key_data_size entry < 8 then Inl RUNTIME_VALUE_OUT_OF_BOUNDS
           else
             bindR (rd_u64_le key 0) (\<lambda>file_system_identifier.
               if file_system_identifier AND 0x0fffffffffffffff > identifier then Inr (records, found)
               else if \<forall>data_type\<in>set (kind_types kind). file_system_identifier \<noteq> (push_bit 60 data_type OR identifier)
               then collect_leaf_entries kind node identifier rest records found
               else
                 bindR (kind_read kind (drop_bit 60 file_system_identifier) entry) (\<lambda>record.
                   collect_leaf_entries kind node identifier rest (records @ [record]) True)))"

definition get_records_from_leaf_node ::
    "'r record_kind \<Rightarrow> btree_node \<Rightarrow> nat \<Rightarrow> 'r list \<Rightarrow> ('r list \<times> bool) result" where
  "get_records_from_leaf_node kind node identifier records =
     bindR (btree_node_is_leaf_node node) (\<lambda>is_leaf_node.
       if is_leaf_node = 0 then Inl RUNTIME_UNSUPPORTED_VALUE
       else
         bindR (btree_node_get_number_of_entries node) (\<lambda>number_of_entries.
           collect_leaf_entries kind node identifier [0..<number_of_entries] records False))"

section \<open>Branch nodes\<close>

text \<open>The loop, given what it does with an entry whose child is visited.\<close>

primrec visit_branch_entries ::
    "(btree_entry option \<Rightarrow> 'r list \<Rightarrow> ('s, 'r list \<times> bool) call) \<Rightarrow> 'r record_kind \<Rightarrow> btree_node \<Rightarrow> nat
     \<Rightarrow> nat list \<Rightarrow> btree_entry option \<Rightarrow> 'r list \<Rightarrow> bool \<Rightarrow> ('s, 'r list \<times> bool) call" where
  "visit_branch_entries visit kind node identifier [] = (\<lambda>previous_entry records found.
     bindS (visit previous_entry records) (\<lambda>(records, found_below). returnS (records, found \<or> found_below)))"
| "visit_branch_entries visit kind node identifier (entry_index # rest) = (\<lambda>previous_entry records found.
     bindS (liftS (btree_node_get_entry_by_index node entry_index)) (\<lambda>entry.
       case key_data entry of
         None \<Rightarrow> failS RUNTIME_VALUE_MISSING
       | Some key \<Rightarrow>
           if key_data_size entry < 8 then failS RUNTIME_VALUE_OUT_OF_BOUNDS
           else
             bindS (liftS (rd_u64_le key 0)) (\<lambda>stored_identifier.
               let file_system_data_type = drop_bit 60 stored_identifier;
                   file_system_identifier = stored_identifier AND 0x0fffffffffffffff
               in if file_system_identifier > identifier \<or>
                     (file_system_identifier = identifier \<and> file_system_data_type > kind_last_type kind)
                  then bindS (visit previous_entry records) (\<lambda>(records, found_below). returnS (records, found \<or> found_below))
                  else
                    bindS (liftS (kind_matches kind identifier file_system_identifier file_system_data_type entry)) (\<lambda>matches.
                      if matches \<and> previous_entry \<noteq> None then
                        bindS (visit previous_entry records) (\<lambda>(records, found_below).
                          visit_branch_entries visit kind node identifier rest (Some entry) records (found \<or> found_below))
                      else visit_branch_entries visit kind node identifier rest (Some entry) records found))))"

text \<open>The number of levels that are still allowed is 257 less the recursion depth.\<close>

primrec get_records_from_branch_node ::
    "'r record_kind \<Rightarrow> ('c, 'o) file_system_btree \<Rightarrow> nat \<Rightarrow> nat \<Rightarrow> nat \<Rightarrow> btree_node \<Rightarrow> 'r list
     \<Rightarrow> ('c, 'o, 'r list \<times> bool) tree_call" where
  "get_records_from_branch_node kind tree identifier transaction 0 = (\<lambda>node records. failS RUNTIME_VALUE_OUT_OF_BOUNDS)"
| "get_records_from_branch_node kind tree identifier transaction (Suc levels) = (\<lambda>node records.
     bindS (liftS (btree_node_is_leaf_node node)) (\<lambda>is_leaf_node.
       if is_leaf_node \<noteq> 0 then failS RUNTIME_UNSUPPORTED_VALUE
       else
         bindS (liftS (btree_node_get_number_of_entries node)) (\<lambda>number_of_entries.
           visit_branch_entries
             (\<lambda>entry records.
                bindS (file_system_btree_get_child tree transaction node entry) (\<lambda>sub_node.
                bindS (liftS (btree_node_is_leaf_node sub_node)) (\<lambda>is_leaf_node.
                  if is_leaf_node \<noteq> 0 then liftS (get_records_from_leaf_node kind sub_node identifier records)
                  else get_records_from_branch_node kind tree identifier transaction levels sub_node records)))
             kind node identifier [0..<number_of_entries] None records False)))"

section \<open>Trees\<close>

text \<open>The result is the array and whether a record was found; an unavailable root leaves the array as it is.\<close>

definition get_records ::
    "'r record_kind \<Rightarrow> ('c, 'o) file_system_btree \<Rightarrow> nat \<Rightarrow> nat \<Rightarrow> 'r list \<Rightarrow> ('c, 'o, 'r list \<times> bool) tree_call" where
  "get_records kind tree identifier transaction records =
     bindS (file_system_btree_get_root_node tree (fs_root_node_block_number tree)) (\<lambda>root.
       case root of
         None \<Rightarrow> returnS (records, False)
       | Some root_node \<Rightarrow>
           bindS (liftS (btree_node_is_leaf_node root_node)) (\<lambda>is_leaf_node.
             if is_leaf_node \<noteq> 0 then liftS (get_records_from_leaf_node kind root_node identifier records)
             else get_records_from_branch_node kind tree identifier transaction
                    (Suc MAXIMUM_BTREE_NODE_RECURSION_DEPTH) root_node records))"

definition file_system_btree_get_directory_entries_from_leaf_node where
  "file_system_btree_get_directory_entries_from_leaf_node = get_records_from_leaf_node directory_records"

definition file_system_btree_get_directory_entries_from_branch_node where
  "file_system_btree_get_directory_entries_from_branch_node = get_records_from_branch_node directory_records"

definition file_system_btree_get_directory_entries ::
    "('c, 'o) file_system_btree \<Rightarrow> nat \<Rightarrow> nat \<Rightarrow> directory_record list \<Rightarrow> ('c, 'o, directory_record list \<times> bool) tree_call" where
  "file_system_btree_get_directory_entries = get_records directory_records"

definition file_system_btree_get_attributes_from_leaf_node where
  "file_system_btree_get_attributes_from_leaf_node = get_records_from_leaf_node attributes"

definition file_system_btree_get_attributes_from_branch_node where
  "file_system_btree_get_attributes_from_branch_node = get_records_from_branch_node attributes"

definition file_system_btree_get_attributes ::
    "('c, 'o) file_system_btree \<Rightarrow> nat \<Rightarrow> nat \<Rightarrow> attribute_values list \<Rightarrow> ('c, 'o, attribute_values list \<times> bool) tree_call" where
  "file_system_btree_get_attributes = get_records attributes"

definition file_system_btree_get_file_extents_from_leaf_node where
  "file_system_btree_get_file_extents_from_leaf_node = get_records_from_leaf_node file_extents"

definition file_system_btree_get_file_extents_from_branch_node where
  "file_system_btree_get_file_extents_from_branch_node = get_records_from_branch_node file_extents"

definition file_system_btree_get_file_extents ::
    "('c, 'o) file_system_btree \<Rightarrow> nat \<Rightarrow> nat \<Rightarrow> file_extent list \<Rightarrow> ('c, 'o, file_extent list \<times> bool) tree_call" where
  "file_system_btree_get_file_extents = get_records file_extents"

section \<open>What is collected\<close>

definition wanted :: "'r record_kind \<Rightarrow> nat \<Rightarrow> btree_entry \<Rightarrow> bool" where
  "wanted kind identifier e \<longleftrightarrow> fst (fs_key e) = identifier \<and> snd (fs_key e) \<in> set (kind_types kind)"

text \<open>The records in entries, or the error of the first that cannot be read.\<close>

fun read_all :: "'r record_kind \<Rightarrow> btree_entry list \<Rightarrow> 'r list result" where
  "read_all kind [] = Inr []"
| "read_all kind (e # es) =
     bindR (kind_read kind (snd (fs_key e)) e) (\<lambda>r. bindR (read_all kind es) (\<lambda>rs. Inr (r # rs)))"

definition collected ::
    "'r record_kind \<Rightarrow> nat \<Rightarrow> 'r list \<Rightarrow> bool \<Rightarrow> btree_entry list \<Rightarrow> ('r list \<times> bool) result" where
  "collected kind identifier records found es =
     bindR (read_all kind (filter (wanted kind identifier) es)) (\<lambda>rs. Inr (records @ rs, found \<or> rs \<noteq> []))"

lemma collected_simps:
  "collected kind identifier records found [] = Inr (records, found)"
  "collected kind identifier records found (e # es) =
     (if wanted kind identifier e
      then bindR (kind_read kind (snd (fs_key e)) e) (\<lambda>r. collected kind identifier (records @ [r]) True es)
      else collected kind identifier records found es)"
  by (auto simp: collected_def bindR_def split: sum.splits)

lemma read_all_append:
  "read_all kind (xs @ ys) = bindR (read_all kind xs) (\<lambda>rs. bindR (read_all kind ys) (\<lambda>rs'. Inr (rs @ rs')))"
  by (induction xs) (auto simp: bindR_def split: sum.splits)

lemma collected_append:
  "collected kind identifier records found (xs @ ys) =
     bindR (collected kind identifier records False xs) (\<lambda>(records, found_below).
       collected kind identifier records (found \<or> found_below) ys)"
  by (auto simp: collected_def read_all_append bindR_def split: sum.splits)

lemma collected_found:
  "bindR (collected kind identifier records False es) (\<lambda>(records, found_below). Inr (records, found \<or> found_below)) =
     collected kind identifier records found es"
  by (auto simp: collected_def bindR_def split: sum.splits)

lemma bindS_collected:
  assumes "m s = (collected kind owner records False es, s')"
  shows "bindS m (\<lambda>(records, found_below). returnS (records, found \<or> found_below)) s = (collected kind owner records found es, s')"
  using assms by (auto simp: bindS_def collected_def bindR_def split: sum.splits)

lemma collected_none:
  assumes "\<forall>e\<in>set es. \<not> wanted kind identifier e"
  shows "collected kind identifier records found es = Inr (records, found)"
  using assms by (simp add: collected_def filter_empty_conv [THEN iffD2])

section \<open>Leaf nodes\<close>

lemma leaf_collects:
  assumes "\<forall>e\<in>set (entries_array n). fs_keyed e" "sorted_by fs_key (entries_array n)" "identifier < 2 ^ 60"
    and "i \<le> length (entries_array n)"
  shows "collect_leaf_entries kind n identifier [i..<length (entries_array n)] records found =
    collected kind identifier records found (drop i (entries_array n))"
  using assms(4)
proof (induction i arbitrary: records found rule: inc_induct)
  case base
  then show ?case by (simp add: collected_simps)
next
  case (step i)
  let ?es = "entries_array n" and ?e = "entries_array n ! i"
  obtain k where k: "key_data ?e = Some k" "8 \<le> key_data_size ?e" "8 \<le> length k"
    using assms(1) step.hyps(2) by (meson fs_keyedE nth_mem)
  have key: "fs_key ?e = (le_value (take 8 k) mod 2 ^ 60, le_value (take 8 k) div 2 ^ 60)" by (simp add: fs_key_def k(1))
  note step_list = scan_index_step [OF step.hyps(2)]
  have get: "btree_node_get_entry_by_index n i = Inr ?e" using step.hyps(2) by (simp add: btree_node_get_entry_by_index_def)
  show ?case
  proof (cases "fst (fs_key ?e) > identifier")
    case True
    have "\<forall>x\<in>set (drop i ?es). fs_key ?e \<le> fs_key x"
      using assms(2) step.hyps(2) unfolding step_list(2)
      by (metis append_take_drop_id list.set_intros(1) set_ConsD sorted_wrt.simps(2) sorted_wrt_append step_list(2) order_refl)
    then have "\<forall>x\<in>set (drop i ?es). \<not> wanted kind identifier x"
      using True unfolding wanted_def by (metis fst_conv leD less_eq_prod_simp linorder_not_le order_le_less prod.collapse)
    then show ?thesis
      using True get k key unfolding step_list(1)
      by (simp add: collected_none mask_60 [simplified])
  next
    case False
    have match: "(\<forall>ty\<in>set (kind_types kind). le_value (take 8 k) \<noteq> (push_bit 60 ty OR identifier)) \<longleftrightarrow> \<not> wanted kind identifier ?e"
      using lookup_identifier_key [OF assms(3), of "le_value (take 8 k)"] key by (auto simp: wanted_def)
    have type: "drop_bit 60 (le_value (take 8 k)) = snd (fs_key ?e)" by (simp add: key drop_60 [simplified])
    have rd: "rd_u64_le k 0 = Inr (le_value (take 8 k))" using k(3) by simp
    have "\<not> le_value (take 8 k) AND 0x0fffffffffffffff > identifier" using False by (simp add: key mask_60 [simplified])
    then have "collect_leaf_entries kind n identifier (i # [Suc i..<length ?es]) records found =
        (if \<not> wanted kind identifier ?e then collect_leaf_entries kind n identifier [Suc i..<length ?es] records found
         else bindR (kind_read kind (snd (fs_key ?e)) ?e) (\<lambda>r.
           collect_leaf_entries kind n identifier [Suc i..<length ?es] (records @ [r]) True))"
      using k(2) unfolding collect_leaf_entries.simps get bindR_simps k(1) option.case rd match type by simp
    then show ?thesis
      unfolding step_list using step.IH by (simp add: collected_simps)
  qed
qed

section \<open>Branch nodes\<close>

text \<open>
  What a kind of records promises of the entries of branch nodes up to its last data type: an entry
  that does not match has no wanted entries before it, so that skipping the child before is right.
  \<open>well\<close> is what the kind needs of the entries of the tree.
\<close>

locale record_enumeration =
  fixes kind :: "'r record_kind" and owner :: nat and well :: "btree_entry list \<Rightarrow> bool"
  assumes types: "ty \<in> set (kind_types kind) \<Longrightarrow> ty \<le> kind_last_type kind"
    and matches: "well (xs @ x # ys) \<Longrightarrow> sorted_by fs_order (xs @ x # ys) \<Longrightarrow> fs_keyed e \<Longrightarrow> fs_order e = fs_order x \<Longrightarrow>
      fs_key e \<le> (owner, kind_last_type kind) \<Longrightarrow>
      \<exists>b. kind_matches kind owner (fst (fs_key e)) (snd (fs_key e)) e = Inr b \<and>
        (b \<or> (\<forall>z\<in>set xs. \<not> wanted kind owner z))"
    and well_part: "well (xs @ ys @ zs) \<Longrightarrow> well ys"
begin

abbreviation limit :: "nat \<times> nat" where
  "limit \<equiv> (owner, kind_last_type kind)"

lemma wanted_limit: "wanted kind owner e \<Longrightarrow> fs_key e \<le> limit"
  using types by (cases "fs_key e") (auto simp: wanted_def)

lemma visit_branch_collects:
  assumes keyed: "\<forall>e\<in>set (entries_array n). fs_keyed e" and len: "length ess = length (entries_array n)"
    and named: "\<forall>p\<in>set (zip (entries_array n) ess). named_by fs_order p"
    and sorted: "sorted_by fs_order (concat ess)" and well: "well (concat ess)"
    and visit: "\<And>i records s. i < length ess \<Longrightarrow> fs_key (entries_array n ! i) \<le> limit \<Longrightarrow> valid s \<Longrightarrow>
      \<exists>s'. visit (Some (entries_array n ! i)) records s = (collected kind owner records False (ess ! i), s') \<and> valid s'"
    and "k < length ess" "fs_key (entries_array n ! k) \<le> limit" "valid s"
  shows "\<exists>s'. visit_branch_entries visit kind n owner [Suc k..<length ess] (Some (entries_array n ! k)) records found s =
    (collected kind owner records found (concat (drop k ess)), s') \<and> valid s'"
  using assms(7-)
proof (induction "length ess - k" arbitrary: k records found s)
  case (Suc m)
  let ?es = "entries_array n"
  obtain s1 where s1: "visit (Some (?es ! k)) records s = (collected kind owner records False (ess ! k), s1)" "valid s1"
    using visit [OF Suc.prems] by blast
  have part: "concat (drop k ess) = ess ! k @ concat (drop (Suc k) ess)"
    using Suc.prems(1) by (metis Cons_nth_drop_Suc concat.simps(2))
  show ?case
  proof (cases "Suc k < length ess")
    case False
    then have "drop (Suc k) ess = []" "[Suc k..<length ess] = []" by simp_all
    then show ?thesis using bindS_collected [where m = "visit (Some (?es ! k)) records" and s = s and found = found, OF s1(1)] s1(2) part by simp
  next
    case True
    let ?e = "?es ! Suc k"
    have mem: "?e \<in> set ?es" using True len by simp
    obtain key where key: "key_data ?e = Some key" "8 \<le> key_data_size ?e" "8 \<le> length key"
      using keyed mem fs_keyedE by blast
    have rd: "rd_u64_le key 0 = Inr (le_value (take 8 key))" using key(3) by simp
    have id: "le_value (take 8 key) AND 0x0fffffffffffffff = fst (fs_key ?e)" "drop_bit 60 (le_value (take 8 key)) = snd (fs_key ?e)"
      by (simp_all add: fs_key_def key(1) mask_60 [simplified] drop_60 [simplified])
    have stop: "(fst (fs_key ?e) > owner \<or> (fst (fs_key ?e) = owner \<and> snd (fs_key ?e) > kind_last_type kind)) \<longleftrightarrow>
        \<not> fs_key ?e \<le> limit" by (cases "fs_key ?e") auto
    have idx: "[Suc k..<length ess] = Suc k # [Suc (Suc k)..<length ess]" using True by (simp add: upt_conv_Cons)
    have get: "btree_node_get_entry_by_index n (Suc k) = Inr ?e" using True len by (simp add: btree_node_get_entry_by_index_def)
    have named_k: "named_by fs_order (?e, ess ! Suc k)" using named True len by (auto simp: set_zip)
    then obtain x xs where x: "ess ! Suc k = x # xs" "fs_order ?e = fs_order x"
      by (cases "ess ! Suc k") (auto simp: named_by_def)
    have rest: "concat (drop (Suc k) ess) = x # xs @ concat (drop (Suc (Suc k)) ess)"
      using True x(1) by (metis Cons_nth_drop_Suc append_Cons concat.simps(2))
    have whole: "concat ess = concat (take k ess) @ ess ! k @ x # xs @ concat (drop (Suc (Suc k)) ess)"
      using Suc.prems(1) part rest by (metis append_take_drop_id concat_append)
    have unfold: "visit_branch_entries visit kind n owner [Suc k..<length ess] (Some (?es ! k)) records found s =
        (if \<not> fs_key ?e \<le> limit
         then bindS (visit (Some (?es ! k)) records) (\<lambda>(records, found_below). returnS (records, found \<or> found_below)) s
         else bindS (liftS (kind_matches kind owner (fst (fs_key ?e)) (snd (fs_key ?e)) ?e)) (\<lambda>matches.
           if matches then bindS (visit (Some (?es ! k)) records) (\<lambda>(records, found_below).
             visit_branch_entries visit kind n owner [Suc (Suc k)..<length ess] (Some ?e) records (found \<or> found_below))
           else visit_branch_entries visit kind n owner [Suc (Suc k)..<length ess] (Some ?e) records found) s)"
      using key(2) unfolding idx visit_branch_entries.simps
      by (simp add: get key(1) rd id stop [symmetric] Let_def)
    show ?thesis
    proof (cases "fs_key ?e \<le> limit")
      case False
      have "\<not> wanted kind owner z" if "z \<in> set (concat (drop (Suc k) ess))" for z
      proof -
        have "sorted_by fs_order (x # xs @ concat (drop (Suc (Suc k)) ess))" using sorted unfolding whole by (simp add: sorted_wrt_append)
        then have "fs_order x \<le> fs_order z" using that unfolding rest by auto
        then have "fs_key ?e \<le> fs_key z" using x(2) fs_order_key by metis
        then show ?thesis using False wanted_limit order_trans by blast
      qed
      then have "collected kind owner records found (concat (drop k ess)) = collected kind owner records found (ess ! k)"
        unfolding part collected_append using collected_found [of kind owner records "ess ! k" found]
        by (auto simp: collected_none bindR_def split: sum.splits)
      then show ?thesis
        using bindS_collected [where m = "visit (Some (?es ! k)) records" and s = s and found = found, OF s1(1)] s1(2) False unfolding unfold by simp
    next
      case le: True
      have "well ((concat (take k ess) @ ess ! k) @ x # (xs @ concat (drop (Suc (Suc k)) ess)))"
        "sorted_by fs_order ((concat (take k ess) @ ess ! k) @ x # (xs @ concat (drop (Suc (Suc k)) ess)))"
        using well sorted unfolding whole by simp_all
      from matches [OF this _ x(2) le] obtain b where
        b: "kind_matches kind owner (fst (fs_key ?e)) (snd (fs_key ?e)) ?e = Inr b"
        "b \<or> (\<forall>z\<in>set (ess ! k). \<not> wanted kind owner z)"
        using keyed mem by auto
      have "m = length ess - Suc k" using Suc.hyps(2) by simp
      note IH = Suc.hyps(1) [OF this True le]
      show ?thesis
      proof (cases b)
        case True
        show ?thesis
        proof (cases "collected kind owner records False (ess ! k)")
          case (Inl e)
          then show ?thesis
            using s1 le b(1) True unfolding unfold part collected_append by (simp add: bindS_def)
        next
          case (Inr rf)
          obtain rs f where rf: "rf = (rs, f)" by (cases rf)
          obtain s2 where "visit_branch_entries visit kind n owner [Suc (Suc k)..<length ess] (Some ?e) rs (found \<or> f) s1 =
              (collected kind owner rs (found \<or> f) (concat (drop (Suc k) ess)), s2)" "valid s2"
            using IH [OF s1(2)] by blast
          then show ?thesis
            using s1 le b(1) True Inr rf unfolding unfold part collected_append by (simp add: bindS_def)
        qed
      next
        case False
        obtain s2 where "visit_branch_entries visit kind n owner [Suc (Suc k)..<length ess] (Some ?e) records found s =
            (collected kind owner records found (concat (drop (Suc k) ess)), s2)" "valid s2"
          using IH [OF Suc.prems(3)] by blast
        moreover have "collected kind owner records found (concat (drop k ess)) =
            collected kind owner records found (concat (drop (Suc k) ess))"
          unfolding part collected_append using b(2) False by (simp add: collected_none)
        ultimately show ?thesis using le b(1) False unfolding unfold by simp
      qed
    qed
  qed
qed simp

end

lemma get_records_leaf:
  assumes "is_leaf n" "list_all fs_keyed (entries_array n)" "sorted_by fs_key (entries_array n)" "owner < 2 ^ 60"
  shows "get_records_from_leaf_node kind n owner records = collected kind owner records False (entries_array n)"
proof -
  obtain h where "node_header n = Some h" "flags h AND 2 \<noteq> 0" using assms(1) by (auto simp: is_leaf_def split: option.splits)
  moreover have "\<forall>e\<in>set (entries_array n). fs_keyed e" using assms(2) by (simp add: list_all_iff)
  ultimately show ?thesis
    using leaf_collects [OF _ assms(3,4), of 0 kind records False]
    by (simp add: get_records_from_leaf_node_def btree_node_is_leaf_node_def btree_node_get_number_of_entries_def)
qed

lemma tree_entries_branch_node:
  assumes "tree_entries child key h n = Some es" "\<not> is_leaf n"
  shows "node_header n \<noteq> None \<and> es \<noteq> []"
proof (cases h)
  case 0
  then show ?thesis using assms by (simp add: tree_entries.simps [of _ _ 0])
next
  case (Suc h')
  obtain hd' ess where n: "node_header n = Some hd'" "entries_array n \<noteq> []" "length ess = length (entries_array n)"
    "es = concat ess" "\<forall>p\<in>set (zip (entries_array n) ess). named_by key p"
    by (rule tree_entries_branch [OF assms(1) [unfolded Suc] assms(2)]) blast
  then obtain e es' l ls where "entries_array n = e # es'" "ess = l # ls"
    by (metis length_0_conv list.exhaust)
  then show ?thesis using n by (simp add: named_by_def)
qed

lemma sorted_fs_key: "sorted_by fs_order es \<Longrightarrow> sorted_by fs_key es"
  by (erule sorted_wrt_mono_rel [rotated]) (rule fs_order_key(2))

context record_enumeration
begin

lemma branch_node_collects:
  assumes "object_map_valid tree om" "owner < 2 ^ 60"
  shows "tree_entries (file_system_child tree om transaction) fs_order h n = Some es \<Longrightarrow> sorted_by fs_order es \<Longrightarrow> well es \<Longrightarrow>
    list_all fs_keyed (entries_array n) \<Longrightarrow> \<not> is_leaf n \<Longrightarrow> fs_key (hd es) \<le> limit \<Longrightarrow> h \<le> levels \<Longrightarrow>
    caches_valid tree contents om_contents s \<Longrightarrow>
    \<exists>s'. get_records_from_branch_node kind tree owner transaction levels n records s =
      (collected kind owner records False es, s') \<and> caches_valid tree contents om_contents s'"
proof (induction h arbitrary: n es levels records s)
  case 0
  then show ?case by (auto simp: tree_entries.simps [of _ _ 0])
next
  case (Suc h)
  let ?es = "entries_array n" and ?valid = "caches_valid tree contents om_contents"
  obtain l where l: "levels = Suc l" "h \<le> l" using Suc.prems(7) by (cases levels) auto
  obtain hd' ess where n: "node_header n = Some hd'" "?es \<noteq> []" "length ess = length ?es"
    "es = concat ess" "\<forall>p\<in>set (zip ?es ess). named_by fs_order p"
    "\<forall>i<length ess. \<exists>m. file_system_child tree om transaction n (?es ! i) = Some m \<and>
       tree_entries (file_system_child tree om transaction) fs_order h m = Some (ess ! i)"
    by (rule tree_entries_branch [OF Suc.prems(1,5)])
  have branch: "flags hd' AND 2 = 0" using Suc.prems(5) n(1) by (simp add: is_leaf_def)
  define visit where "visit = (\<lambda>entry records. bindS (file_system_btree_get_child tree transaction n entry) (\<lambda>sub_node.
      bindS (liftS (btree_node_is_leaf_node sub_node)) (\<lambda>is_leaf_node.
        if is_leaf_node \<noteq> 0 then liftS (get_records_from_leaf_node kind sub_node owner records)
        else get_records_from_branch_node kind tree owner transaction l sub_node records)))"
  have run: "get_records_from_branch_node kind tree owner transaction levels n records s =
      visit_branch_entries visit kind n owner [0..<length ess] None records False s"
    using n(1,3) branch by (simp add: l visit_def btree_node_is_leaf_node_def btree_node_get_number_of_entries_def bindS_def)
  have split: "es = concat (take i ess) @ ess ! i @ concat (drop (Suc i) ess)" if "i < length ess" for i
    using that unfolding n(4) by (metis concat.simps(2) concat_append id_take_nth_drop)
  have named: "named_by fs_order (?es ! i, ess ! i)" if "i < length ess" for i
    using n(3,5) that by (auto simp: set_zip)
  have visit: "\<exists>s'. visit (Some (?es ! i)) records s = (collected kind owner records False (ess ! i), s') \<and> ?valid s'"
    if i: "i < length ess" "fs_key (?es ! i) \<le> limit" "?valid s" for i records s
  proof -
    obtain m where m: "file_system_child tree om transaction n (?es ! i) = Some m"
      "tree_entries (file_system_child tree om transaction) fs_order h m = Some (ess ! i)" using n(6) i(1) by blast
    obtain s1 where s1: "file_system_btree_get_child tree transaction n (Some (?es ! i)) s = (Inr m, s1)" "?valid s1"
      using get_child_valid [OF i(3) assms(1) m(1)] by blast
    have keyed: "list_all fs_keyed (entries_array m)" by (rule file_system_child_keyed [OF m(1)])
    have sorted: "sorted_by fs_order (ess ! i)" and well: "well (ess ! i)"
      using Suc.prems(2,3) split [OF i(1)] well_part by (auto simp: sorted_wrt_append)
    show ?thesis
    proof (cases "is_leaf m")
      case True
      then obtain hm where hm: "node_header m = Some hm" "flags hm AND 2 \<noteq> 0" by (auto simp: is_leaf_def split: option.splits)
      have es: "entries_array m = ess ! i" using m(2) True by (simp add: tree_entries.simps [of _ _ _ m])
      have "get_records_from_leaf_node kind m owner records = collected kind owner records False (ess ! i)"
        using get_records_leaf [OF True keyed _ assms(2)] sorted_fs_key [OF sorted] es by simp
      then show ?thesis using s1 hm by (simp add: visit_def bindS_def btree_node_is_leaf_node_def)
    next
      case False
      have "node_header m \<noteq> None" using m(2) False by (auto simp: tree_entries.simps [of _ _ _ m] split: nat.splits if_splits)
      then obtain hm where hm: "node_header m = Some hm" "flags hm AND 2 = 0" using False by (auto simp: is_leaf_def)
      have "fs_key (hd (ess ! i)) = fs_key (?es ! i)" using named [OF i(1)] by (intro fs_order_key(1)) (simp add: named_by_def)
      then have "fs_key (hd (ess ! i)) \<le> limit" using i(2) by simp
      from Suc.IH [OF m(2) sorted well keyed False this l(2) s1(2), of records] show ?thesis
        using s1 hm by (auto simp: visit_def bindS_def btree_node_is_leaf_node_def)
    qed
  qed
  have keyed: "\<forall>e\<in>set ?es. fs_keyed e" using Suc.prems(4) by (simp add: list_all_iff)
  have 0: "0 < length ess" using n(2,3) by simp
  have mem: "?es ! 0 \<in> set ?es" using n(2) by simp
  obtain x xs where x: "ess ! 0 = x # xs" "fs_order (?es ! 0) = fs_order x"
    using named [OF 0] by (cases "ess ! 0") (auto simp: named_by_def)
  have es: "es = [] @ x # (xs @ concat (drop (Suc 0) ess))" using split [OF 0] x(1) by simp
  have hd: "hd es = x" using es by simp
  have le: "fs_key (?es ! 0) \<le> limit" using Suc.prems(6) fs_order_key(1) [OF x(2)] unfolding hd by simp
  obtain b where b: "kind_matches kind owner (fst (fs_key (?es ! 0))) (snd (fs_key (?es ! 0))) (?es ! 0) = Inr b"
    using matches [OF _ _ _ x(2) le, of "[]" "xs @ concat (drop (Suc 0) ess)"] Suc.prems(2,3) keyed mem
    unfolding es [symmetric] by blast
  obtain key where key: "key_data (?es ! 0) = Some key" "8 \<le> key_data_size (?es ! 0)" "8 \<le> length key"
    using keyed mem fs_keyedE by blast
  have rd: "rd_u64_le key 0 = Inr (le_value (take 8 key))" using key(3) by simp
  have id: "le_value (take 8 key) AND 0x0fffffffffffffff = fst (fs_key (?es ! 0))" "drop_bit 60 (le_value (take 8 key)) = snd (fs_key (?es ! 0))"
    by (simp_all add: fs_key_def key(1) mask_60 [simplified] drop_60 [simplified])
  have stop: "(fst (fs_key (?es ! 0)) > owner) = False"
    "(fst (fs_key (?es ! 0)) = owner \<and> snd (fs_key (?es ! 0)) > kind_last_type kind) = False"
    using le by (cases "fs_key (?es ! 0)", auto)+
  have idx: "[0..<length ess] = 0 # [Suc 0..<length ess]" using 0 by (simp add: upt_conv_Cons)
  have get: "btree_node_get_entry_by_index n 0 = Inr (?es ! 0)" using n(2) by (simp add: btree_node_get_entry_by_index_def)
  have "visit_branch_entries visit kind n owner [0..<length ess] None records False s =
      visit_branch_entries visit kind n owner [Suc 0..<length ess] (Some (?es ! 0)) records False s"
    using key(2) unfolding idx visit_branch_entries.simps by (simp add: get key(1) rd id stop b Let_def)
  moreover have "\<exists>s'. visit_branch_entries visit kind n owner [Suc 0..<length ess] (Some (?es ! 0)) records False s =
      (collected kind owner records False (concat (drop 0 ess)), s') \<and> ?valid s'"
  proof (rule visit_branch_collects [where valid = ?valid and visit = visit and n = n and s = s, OF keyed n(3,5) _ _ _ 0 le Suc.prems(8)])
    show "sorted_by fs_order (concat ess)" "well (concat ess)" using Suc.prems(2,3) n(4) by simp_all
  qed (rule visit)
  ultimately show ?case unfolding run n(4) by auto
qed

text \<open>All records of an owner in the tree, in order; what precedes the first entry of a tree is refused.\<close>

lemma tree_collects:
  assumes "caches_valid tree contents om_contents s" "object_map_valid tree om"
    and "file_system_entries fs_order tree om transaction h = Some es" "h \<le> MAXIMUM_BTREE_NODE_RECURSION_DEPTH"
    and "owner < 2 ^ 60" "well es" "es \<noteq> [] \<Longrightarrow> fs_key (hd es) \<le> limit"
  shows "\<exists>s'. caches_valid tree contents om_contents s' \<and>
    get_records kind tree owner transaction records s = (collected kind owner records False es, s')"
proof -
  obtain n where n: "file_system_root tree = Some n" "tree_entries (file_system_child tree om transaction) fs_order h n = Some es"
    "sorted_by fs_order es"
    using assms(3) by (auto simp: file_system_entries_def split: option.splits if_splits)
  obtain s1 where s1: "file_system_btree_get_root_node tree (fs_root_node_block_number tree) s = (Inr (Some n), s1)"
    "caches_valid tree contents om_contents s1"
    using get_root_node_valid [OF assms(1) n(1)] by blast
  have keyed: "list_all fs_keyed (entries_array n)" using n(1) by (auto simp: file_system_root_def split: if_splits sum.splits)
  show ?thesis
  proof (cases "is_leaf n")
    case True
    then obtain hm where hm: "node_header n = Some hm" "flags hm AND 2 \<noteq> 0" by (auto simp: is_leaf_def split: option.splits)
    have "entries_array n = es" using n(2) True by (simp add: tree_entries.simps [of _ _ _ n])
    then have "get_records_from_leaf_node kind n owner records = collected kind owner records False es"
      using get_records_leaf [OF True keyed _ assms(5)] sorted_fs_key [OF n(3)] by simp
    then show ?thesis using s1 hm by (simp add: get_records_def bindS_def btree_node_is_leaf_node_def)
  next
    case False
    have ne: "node_header n \<noteq> None" "es \<noteq> []" using tree_entries_branch_node [OF n(2) False] by blast+
    from ne(1) obtain hm where hm: "node_header n = Some hm" "flags hm AND 2 = 0" using False by (auto simp: is_leaf_def)
    have "h \<le> Suc MAXIMUM_BTREE_NODE_RECURSION_DEPTH" using assms(4) by simp
    from branch_node_collects [OF assms(2,5) n(2,3) assms(6) keyed False assms(7) this s1(2), of records] ne(2)
    show ?thesis using s1(1) hm by (auto simp: get_records_def bindS_def btree_node_is_leaf_node_def simp del: get_records_from_branch_node.simps)
  qed
qed

end

section \<open>The three kinds of records\<close>

lemma sorted_before_key:
  assumes "sorted_by fs_order (xs @ x # ys)" "fs_order e = fs_order x" "z \<in> set xs"
  shows "fs_order z \<le> fs_order e" "fs_key z \<le> fs_key e"
proof -
  show "fs_order z \<le> fs_order e" using assms by (simp add: sorted_wrt_append)
  then show "fs_key z \<le> fs_key e" by (rule fs_order_key(2))
qed

lemma matches_type_before:
  assumes "kind_types kind = [ty]" "sorted_by fs_order (xs @ x # ys)" "fs_order e = fs_order x" "fs_key e \<le> (owner, ty)"
  shows "\<exists>b. matches_type ty owner (fst (fs_key e)) (snd (fs_key e)) e = Inr b \<and> (b \<or> (\<forall>z\<in>set xs. \<not> wanted kind owner z))"
proof (cases "fs_key e = (owner, ty)")
  case True
  then show ?thesis by (intro exI [of _ True]) (simp add: matches_type_def)
next
  case False
  then have "\<not> wanted kind owner z" if "z \<in> set xs" for z
    using sorted_before_key(2) [OF assms(2,3) that] assms(1,4) by (cases "fs_key z") (auto simp: wanted_def)
  then show ?thesis by (simp add: matches_type_def)
qed

interpretation directory_enumeration: record_enumeration directory_records owner "\<lambda>_. True" for owner
proof
  fix xs x ys e
  assume "sorted_by fs_order (xs @ x # ys)" "fs_order e = fs_order x" "fs_key e \<le> (owner, kind_last_type directory_records)"
  then show "\<exists>b. kind_matches directory_records owner (fst (fs_key e)) (snd (fs_key e)) e = Inr b \<and>
      (b \<or> (\<forall>z\<in>set xs. \<not> wanted directory_records owner z))"
    using matches_type_before [of directory_records DATA_TYPE_DIRECTORY_RECORD] by (simp add: directory_records_def)
qed (simp_all add: directory_records_def)

interpretation attribute_enumeration: record_enumeration attributes owner "\<lambda>_. True" for owner
proof
  fix xs x ys e
  assume "sorted_by fs_order (xs @ x # ys)" "fs_order e = fs_order x" "fs_key e \<le> (owner, kind_last_type attributes)"
  then show "\<exists>b. kind_matches attributes owner (fst (fs_key e)) (snd (fs_key e)) e = Inr b \<and>
      (b \<or> (\<forall>z\<in>set xs. \<not> wanted attributes owner z))"
    using matches_type_before [of attributes DATA_TYPE_EXTENDED_ATTRIBUTE] by (simp add: attributes_def)
qed (simp_all add: attributes_def)

text \<open>
  Extents: the first extent of an owner is stored once, and an owner with extents of type 8 has no
  entries of the types 9 to 13, before which the child with its extents would be skipped.
\<close>

definition extents_of_one_type :: "nat \<Rightarrow> btree_entry list \<Rightarrow> bool" where
  "extents_of_one_type owner es \<longleftrightarrow>
     count_list (map fs_order es) (owner, DATA_TYPE_FILE_EXTENT, 0) \<le> 1 \<and> count_list (map fs_order es) (owner, FILE_EXTENT2, 0) \<le> 1 \<and>
     (\<forall>z\<in>set es. \<forall>e\<in>set es. fs_key z = (owner, DATA_TYPE_FILE_EXTENT) \<longrightarrow> fst (fs_key e) = owner \<longrightarrow>
        snd (fs_key e) \<le> DATA_TYPE_FILE_EXTENT \<or> FILE_EXTENT2 < snd (fs_key e))"

lemma matches_extent_before:
  assumes well: "extents_of_one_type owner (xs @ x # ys)" and sorted: "sorted_by fs_order (xs @ x # ys)"
    and e: "fs_keyed e" "fs_order e = fs_order x" "fs_key e \<le> (owner, FILE_EXTENT2)"
  shows "\<exists>b. matches_extent owner (fst (fs_key e)) (snd (fs_key e)) e = Inr b \<and> (b \<or> (\<forall>z\<in>set xs. \<not> wanted file_extents owner z))"
proof -
  obtain k where k: "key_data e = Some k" using e(1) by (auto simp: fs_keyed_def split: option.splits)
  have key_x: "fs_key x = fs_key e" using fs_order_key(1) [OF e(2)] by simp
  have before: "fs_order z \<le> fs_order e" "fs_key z \<le> fs_key e" if "z \<in> set xs" for z
    using sorted_before_key [OF sorted e(2) that] by blast+
  show ?thesis
  proof (cases "fst (fs_key e) = owner \<and> snd (fs_key e) \<in> {8, 13}")
    case True
    then have size: "16 \<le> key_data_size e" "16 \<le> length k" using e(1) k by (auto simp: fs_keyed_def)
    let ?address = "le_value (take 8 (drop 8 k))"
    have order: "fs_order e = (owner, snd (fs_key e), ?address)" using True k by (simp add: fs_order_def)
    have b: "matches_extent owner (fst (fs_key e)) (snd (fs_key e)) e = Inr (?address > 0)"
      using True size k by (auto simp: matches_extent_def DATA_TYPE_FILE_EXTENT_def FILE_EXTENT2_def)
    have "\<not> wanted file_extents owner z" if zero: "?address = 0" and z: "z \<in> set xs" for z
    proof
      assume w: "wanted file_extents owner z"
      have le: "fs_order z \<le> (owner, snd (fs_key e), 0)" "fs_key z \<le> (owner, snd (fs_key e))"
        using before [OF z] order zero True by (metis prod.collapse)+
      have "fs_order z \<noteq> (owner, snd (fs_key e), 0)"
      proof
        assume "fs_order z = (owner, snd (fs_key e), 0)"
        then have "count_list (map fs_order (xs @ x # ys)) (owner, snd (fs_key e), 0) \<ge> 2"
          using z order zero e(2) count_list_0_iff [of "map fs_order xs" "(owner, snd (fs_key e), 0)"]
          by (auto simp: Suc_le_eq image_iff)
        moreover have "count_list (map fs_order (xs @ x # ys)) (owner, snd (fs_key e), 0) \<le> 1"
          using well True unfolding extents_of_one_type_def DATA_TYPE_FILE_EXTENT_def FILE_EXTENT2_def
          by (metis insertE singletonD)
        ultimately show False by linarith
      qed
      moreover have "fst (fs_key z) = owner" "snd (fs_key z) \<in> {8, 13}"
        using w by (auto simp: wanted_def file_extents_def DATA_TYPE_FILE_EXTENT_def FILE_EXTENT2_def)
      ultimately have "fs_key z = (owner, 8) \<and> snd (fs_key e) = 13"
        using le True by (cases "fs_key z") (auto simp: fs_order_def)
      then show False
        using well z key_x True by (auto simp: extents_of_one_type_def DATA_TYPE_FILE_EXTENT_def FILE_EXTENT2_def)
    qed
    then show ?thesis unfolding b by blast
  next
    case False
    then have "matches_extent owner (fst (fs_key e)) (snd (fs_key e)) e = Inr False"
      by (auto simp: matches_extent_def DATA_TYPE_FILE_EXTENT_def FILE_EXTENT2_def)
    moreover have "\<not> wanted file_extents owner z" if z: "z \<in> set xs" for z
    proof
      assume "wanted file_extents owner z"
      then have "fst (fs_key z) = owner" "snd (fs_key z) \<in> {8, 13}"
        by (auto simp: wanted_def file_extents_def DATA_TYPE_FILE_EXTENT_def FILE_EXTENT2_def)
      then have "fst (fs_key e) = owner" "fs_key z = (owner, 8)" "8 < snd (fs_key e)" "snd (fs_key e) \<le> 13"
        using before(2) [OF z] e(3) False by (cases "fs_key z"; cases "fs_key e"; auto simp: FILE_EXTENT2_def)+
      then show False
        using well z key_x by (auto simp: extents_of_one_type_def DATA_TYPE_FILE_EXTENT_def FILE_EXTENT2_def)
    qed
    ultimately show ?thesis by blast
  qed
qed

interpretation extent_enumeration: record_enumeration file_extents owner "extents_of_one_type owner" for owner
proof
  fix xs x ys e
  assume "extents_of_one_type owner (xs @ x # ys)" "sorted_by fs_order (xs @ x # ys)" "fs_keyed e" "fs_order e = fs_order x"
    "fs_key e \<le> (owner, kind_last_type file_extents)"
  then show "\<exists>b. kind_matches file_extents owner (fst (fs_key e)) (snd (fs_key e)) e = Inr b \<and>
      (b \<or> (\<forall>z\<in>set xs. \<not> wanted file_extents owner z))"
    using matches_extent_before [of owner xs x ys e] by (simp add: file_extents_def)
next
  fix xs ys zs
  assume "extents_of_one_type owner (xs @ ys @ zs)"
  then show "extents_of_one_type owner ys" by (auto simp: extents_of_one_type_def)
qed (auto simp: file_extents_def DATA_TYPE_FILE_EXTENT_def FILE_EXTENT2_def)

section \<open>Safety\<close>

text \<open>A kind whose entries are matched and read without an undefined access.\<close>

definition kind_safe :: "'r record_kind \<Rightarrow> bool" where
  "kind_safe kind \<longleftrightarrow> (\<forall>e. entry_data_ok (key_data e) (key_data_size e) \<longrightarrow> entry_data_ok (value_data e) (value_data_size e) \<longrightarrow>
     (\<forall>ty. safe (kind_read kind ty e)) \<and> (key_data e \<noteq> None \<longrightarrow> (\<forall>owner i ty. safe (kind_matches kind owner i ty e))))"

lemma kinds_safe: "kind_safe directory_records" "kind_safe attributes" "kind_safe file_extents"
proof -
  show "kind_safe directory_records"
    using directory_record_read_safe by (auto simp: kind_safe_def directory_records_def read_directory_record_entry_def
        directory_record_initialize_def matches_type_def)
  show "kind_safe attributes"
    using attribute_values_read_safe by (auto simp: kind_safe_def attributes_def read_attribute_entry_def
        attribute_values_initialize_def matches_type_def)
  show "kind_safe file_extents"
    using file_extent_read_safe by (auto simp: kind_safe_def file_extents_def read_file_extent_entry_def
        file_extent_initialize_def matches_extent_def entry_data_ok_def split: option.splits)
qed

lemma block_node_entry:
  assumes "block_node n" "e \<in> set (entries_array n)"
  shows "entry_data_ok (key_data e) (key_data_size e)" "entry_data_ok (value_data e) (value_data_size e)"
  using assms by (auto simp: block_node_def entry_data_ok_def)

lemma collect_leaf_entries_safe:
  assumes "block_node n" "kind_safe kind" "set is \<subseteq> {..<length (entries_array n)}"
  shows "safe (collect_leaf_entries kind n owner is records found)"
  using assms(3)
proof (induction "is" arbitrary: records found)
  case (Cons i "is")
  let ?e = "entries_array n ! i"
  have i: "i < length (entries_array n)" using Cons.prems by simp
  then have mem: "?e \<in> set (entries_array n)" by simp
  note ok = block_node_entry [OF assms(1) mem]
  have read: "safe (kind_read kind ty ?e)" for ty using assms(2) ok by (simp add: kind_safe_def)
  show ?case
    using i ok Cons.prems Cons.IH read
    by (cases "key_data ?e") (auto simp: btree_node_get_entry_by_index_def entry_data_ok_def)
qed simp

lemma get_records_from_leaf_node_safe:
  assumes "block_node n" "kind_safe kind"
  shows "safe (get_records_from_leaf_node kind n owner records)"
proof -
  obtain h where "node_header n = Some h" using assms(1) by (auto simp: block_node_def)
  then show ?thesis
    using collect_leaf_entries_safe [OF assms, of "[0..<length (entries_array n)]" owner records False]
    by (auto simp: lessThan_atLeast0 get_records_from_leaf_node_def btree_node_is_leaf_node_def btree_node_get_number_of_entries_def)
qed

lemma visit_branch_entries_safe:
  assumes "block_node n" "kind_safe kind" "set is \<subseteq> {..<length (entries_array n)}"
    and visit: "\<And>entry records s. valid s \<Longrightarrow> set_option entry \<subseteq> set (entries_array n) \<Longrightarrow> call_safe valid (\<lambda>_. True) (visit entry records s)"
    and "valid s" "set_option previous \<subseteq> set (entries_array n)"
  shows "call_safe valid (\<lambda>_. True) (visit_branch_entries visit kind n owner is previous records found s)"
  using assms(3,5,6)
proof (induction "is" arbitrary: previous records found s)
  case Nil
  show ?case
    unfolding visit_branch_entries.simps by (rule call_safe_bindS, rule visit [OF Nil.prems(2,3)]) auto
next
  case (Cons i "is")
  let ?e = "entries_array n ! i"
  have i: "i < length (entries_array n)" using Cons.prems(1) by simp
  then have mem: "?e \<in> set (entries_array n)" by simp
  note ok = block_node_entry [OF assms(1) mem]
  have get: "btree_node_get_entry_by_index n i = Inr ?e" using i by (simp add: btree_node_get_entry_by_index_def)
  have next_entries: "call_safe valid (\<lambda>_. True) (visit_branch_entries visit kind n owner is (Some ?e) records found s)"
    if "valid s" for records found s
    using Cons.IH [of s "Some ?e"] Cons.prems(1) mem that by simp
  show ?case
  proof (cases "key_data ?e = None \<or> key_data_size ?e < 8")
    case True
    then show ?thesis using Cons.prems(2) by (cases "key_data ?e") (auto simp: get)
  next
    case False
    then obtain key where key: "key_data ?e = Some key" "8 \<le> key_data_size ?e" "8 \<le> length key"
      using ok(1) by (auto simp: entry_data_ok_def)
    have rd: "rd_u64_le key 0 = Inr (le_value (take 8 key))" using key(3) by simp
    have match: "post lib_error (\<lambda>_. True) (kind_matches kind owner j ty ?e)" for j ty
      using assms(2) ok key(1) by (simp add: kind_safe_def safe_post)
    have last: "call_safe valid (\<lambda>_. True) (bindS (visit previous records) (\<lambda>(records, found_below). returnS (records, found \<or> found_below)) s)"
      by (rule call_safe_bindS, rule visit [OF Cons.prems(2,3)]) auto
    have visited: "call_safe valid (\<lambda>_. True) (bindS (visit previous records) (\<lambda>(records, found_below).
        visit_branch_entries visit kind n owner is (Some ?e) records (found \<or> found_below)) s)"
      by (rule call_safe_bindS, rule visit [OF Cons.prems(2,3)]) (auto intro: next_entries)
    have "call_safe valid (\<lambda>_. True) (bindS (liftS (kind_matches kind owner j ty ?e)) (\<lambda>matches.
        if matches \<and> previous \<noteq> None then bindS (visit previous records) (\<lambda>(records, found_below).
          visit_branch_entries visit kind n owner is (Some ?e) records (found \<or> found_below))
        else visit_branch_entries visit kind n owner is (Some ?e) records found) s)" for j ty
      using match [of j ty] visited next_entries [OF Cons.prems(2)] Cons.prems(2)
      by (cases "kind_matches kind owner j ty ?e") simp_all
    then show ?thesis
      using key(2) last unfolding visit_branch_entries.simps by (simp add: get key(1) rd Let_def)
  qed
qed

lemma get_records_from_branch_node_safe:
  assumes "kind_safe kind"
  shows "file_system_state_valid tree contents om_contents s \<Longrightarrow> block_node n \<Longrightarrow>
    call_safe (file_system_state_valid tree contents om_contents) (\<lambda>_. True)
      (get_records_from_branch_node kind tree owner transaction levels n records s)"
proof (induction levels arbitrary: n records s)
  case (Suc levels)
  let ?valid = "file_system_state_valid tree contents om_contents"
  let ?visit = "\<lambda>entry records. bindS (file_system_btree_get_child tree transaction n entry) (\<lambda>sub_node.
      bindS (liftS (btree_node_is_leaf_node sub_node)) (\<lambda>is_leaf_node.
        if is_leaf_node \<noteq> 0 then liftS (get_records_from_leaf_node kind sub_node owner records)
        else get_records_from_branch_node kind tree owner transaction levels sub_node records))"
  have visit: "call_safe ?valid (\<lambda>_. True) (?visit entry records s)"
    if "?valid s" "set_option entry \<subseteq> set (entries_array n)" for entry records s
  proof (rule call_safe_bindS, rule get_child_safe [OF that(1) Suc.prems(2) that(2)])
    fix m s'
    assume m: "?valid s'" "block_node m"
    then obtain h where "node_header m = Some h" by (auto simp: block_node_def)
    moreover note get_records_from_leaf_node_safe [OF m(2) assms, unfolded safe_post]
    ultimately show "call_safe ?valid (\<lambda>_. True) (bindS (liftS (btree_node_is_leaf_node m)) (\<lambda>is_leaf_node.
        if is_leaf_node \<noteq> 0 then liftS (get_records_from_leaf_node kind m owner records)
        else get_records_from_branch_node kind tree owner transaction levels m records) s')"
      using Suc.IH [OF m] m(1) by (simp add: btree_node_is_leaf_node_def call_safe_def)
  qed
  obtain h where h: "node_header n = Some h" using Suc.prems(2) by (auto simp: block_node_def)
  have "call_safe ?valid (\<lambda>_. True) (visit_branch_entries ?visit kind n owner [0..<length (entries_array n)] None records False s)"
    by (rule visit_branch_entries_safe [OF Suc.prems(2) assms _ visit Suc.prems(1)]) auto
  then show ?case
    using h Suc.prems(1) by (simp add: btree_node_is_leaf_node_def btree_node_get_number_of_entries_def)
qed simp

lemma get_records_safe:
  assumes "file_system_state_valid tree contents om_contents s" "kind_safe kind"
  shows "call_safe (file_system_state_valid tree contents om_contents) (\<lambda>_. True) (get_records kind tree owner transaction records s)"
  unfolding get_records_def
proof (rule call_safe_bindS, rule get_root_node_safe [OF assms(1)])
  fix root s'
  assume root: "file_system_state_valid tree contents om_contents s'" "\<forall>n. root = Some n \<longrightarrow> block_node n"
  show "call_safe (file_system_state_valid tree contents om_contents) (\<lambda>_. True)
      ((case root of None \<Rightarrow> returnS (records, False)
        | Some root_node \<Rightarrow> bindS (liftS (btree_node_is_leaf_node root_node)) (\<lambda>is_leaf_node.
            if is_leaf_node \<noteq> 0 then liftS (get_records_from_leaf_node kind root_node owner records)
            else get_records_from_branch_node kind tree owner transaction (Suc MAXIMUM_BTREE_NODE_RECURSION_DEPTH) root_node records)) s')"
  proof (cases root)
    case (Some n)
    then have n: "block_node n" using root(2) by simp
    then obtain h where "node_header n = Some h" by (auto simp: block_node_def)
    then show ?thesis
      using Some get_records_from_leaf_node_safe [OF n assms(2), unfolded safe_post]
        get_records_from_branch_node_safe [OF assms(2) root(1) n] root(1)
      by (simp add: btree_node_is_leaf_node_def call_safe_def del: get_records_from_branch_node.simps)
  qed (use root(1) in simp)
qed

section \<open>Properties\<close>

text \<open>C16. In a well-formed file system tree of height at most 256
  the directory entries of a directory, and the extended attributes of a file, are all its records in the
  tree, in the order of the tree and each once, appended to the array of the caller, however the
  records are spread over leaves; the result tells whether there is one, and the first record that cannot be
  read is the error.\<close>

theorem records_complete:
  assumes "caches_valid tree contents om_contents s" "object_map_valid tree om"
    and "file_system_entries fs_order tree om transaction h = Some es" "h \<le> MAXIMUM_BTREE_NODE_RECURSION_DEPTH"
    and "owner < 2 ^ 60" "es \<noteq> []" "fs_key (hd es) \<le> (owner, DATA_TYPE_EXTENDED_ATTRIBUTE)"
  shows "(\<exists>s'. caches_valid tree contents om_contents s' \<and>
      file_system_btree_get_directory_entries tree owner transaction records s = (collected directory_records owner records False es, s')) \<and>
    (\<exists>s'. caches_valid tree contents om_contents s' \<and>
      file_system_btree_get_attributes tree owner transaction values s = (collected attributes owner values False es, s'))"
proof -
  have types: "kind_last_type directory_records = DATA_TYPE_DIRECTORY_RECORD" "kind_last_type attributes = DATA_TYPE_EXTENDED_ATTRIBUTE"
    by (simp_all add: directory_records_def attributes_def)
  have "(owner, DATA_TYPE_EXTENDED_ATTRIBUTE) \<le> (owner, DATA_TYPE_DIRECTORY_RECORD)"
    by (simp add: DATA_TYPE_EXTENDED_ATTRIBUTE_def DATA_TYPE_DIRECTORY_RECORD_def)
  then have le: "fs_key (hd es) \<le> (owner, DATA_TYPE_DIRECTORY_RECORD)" using assms(7) by (rule order_trans [rotated])
  show ?thesis
    unfolding file_system_btree_get_directory_entries_def file_system_btree_get_attributes_def
    using directory_enumeration.tree_collects [OF assms(1-5) TrueI, of records]
      attribute_enumeration.tree_collects [OF assms(1-5) TrueI, of "values"] le assms(7)
    unfolding types by blast
qed

lemma mask_56: "(v::nat) AND 0x00ffffffffffffff = v mod 2 ^ 56"
  using take_bit_eq_mask [of 56 v] by (simp add: take_bit_nat_def mask_eq_exp_minus_1)

text \<open>The directory of the sample tree has one entry, the other inode an extent.\<close>

lemma sample_collected:
  "collected directory_records 2 [] False (map entry_of sample_fs_leaf) =
     Inr ([\<lparr>record_identifier = 5, record_name_size = 2, record_name = Some [97, 0], record_name_hash = 1988076, record_added_time = 0\<rparr>], True)"
  "collected attributes 2 [] False (map entry_of sample_fs_leaf) = Inr ([], False)"
  "collected file_extents 5 [] False (map entry_of sample_fs_leaf) = Inr ([\<lparr>extent_data_type = 8, extent_identifier = 5,
     extent_logical_address_flags = 0, extent_logical_offset = 0, extent_physical_block_number = 200, extent_data_size = 4096,
     extent_encryption_identifier = 0, extent_sha256_digest = replicate 32 0, extent_has_sha256_digest = False\<rparr>], True)"
proof -
  have key: "fs_key (entry_of (sample_fs_key 3 2, v)) = (2, 3)" "fs_key (entry_of (sample_fs_key 3 5, v)) = (5, 3)" for v
    by (simp_all add: fs_key_def entry_of_def sample_fs_key_def)
  have record_entry_key: "fs_key (entry_of sample_record) = (2, 9)" using sample_fs_keys(1) by (auto simp: sample_fs_leaf_def fs_order_def prod_eq_iff)
  let ?empty = "\<lparr>record_identifier = 0, record_name_size = 0, record_name = None, record_name_hash = 0, record_added_time = 0\<rparr>"
  have data: "key_data (entry_of sample_record) = Some (record_key_with_hash 2 1988076 [97, 0])" "key_data_size (entry_of sample_record) = 14"
    "value_data (entry_of sample_record) = Some (le_encode 8 5 @ replicate 10 0)" "value_data_size (entry_of sample_record) = 18"
    by (simp_all add: entry_of_def sample_record_def record_key_with_hash_def)
  have read_key: "directory_record_read_key_data ?empty (Some (record_key_with_hash 2 1988076 [97, 0])) 14 =
      Inr (?empty\<lparr>record_name := Some [97, 0], record_name_size := 2, record_name_hash := 1988076\<rparr>)"
    using record_key_read [of "[97, 0]" 1988076 ?empty 2] by simp
  have "read_directory_record_entry t (entry_of sample_record) =
      Inr \<lparr>record_identifier = 5, record_name_size = 2, record_name = Some [97, 0], record_name_hash = 1988076, record_added_time = 0\<rparr>" for t
    unfolding read_directory_record_entry_def directory_record_initialize_def data
    using read_key by (simp add: directory_record_read_value_data_def SSIZE_MAX_def)
  note read = this
  have extent_key: "fs_key (entry_of sample_extent) = (5, 8)"
    by (simp add: fs_key_def entry_of_def sample_extent_def sample_fs_key_def)
  have read_extent: "read_file_extent_entry 8 (entry_of sample_extent) = Inr \<lparr>extent_data_type = 8, extent_identifier = 5,
     extent_logical_address_flags = 0, extent_logical_offset = 0, extent_physical_block_number = 200, extent_data_size = 4096,
     extent_encryption_identifier = 0, extent_sha256_digest = replicate 32 0, extent_has_sha256_digest = False\<rparr>"
    by (simp add: read_file_extent_entry_def file_extent_initialize_def file_extent_read_key_data_def file_extent_read_value_data_def
        entry_of_def sample_extent_def sample_fs_key_def SSIZE_MAX_def FILE_EXTENT2_def Let_def mask_60 [simplified] mask_56)
  show "collected attributes 2 [] False (map entry_of sample_fs_leaf) = Inr ([], False)"
    by (simp add: collected_def wanted_def sample_fs_leaf_def key record_entry_key extent_key attributes_def
        DATA_TYPE_EXTENDED_ATTRIBUTE_def)
  show "collected file_extents 5 [] False (map entry_of sample_fs_leaf) = Inr ([\<lparr>extent_data_type = 8, extent_identifier = 5,
     extent_logical_address_flags = 0, extent_logical_offset = 0, extent_physical_block_number = 200, extent_data_size = 4096,
     extent_encryption_identifier = 0, extent_sha256_digest = replicate 32 0, extent_has_sha256_digest = False\<rparr>], True)"
    by (simp add: collected_def wanted_def sample_fs_leaf_def key record_entry_key extent_key file_extents_def
        DATA_TYPE_FILE_EXTENT_def FILE_EXTENT2_def read_extent)
  show "collected directory_records 2 [] False (map entry_of sample_fs_leaf) =
     Inr ([\<lparr>record_identifier = 5, record_name_size = 2, record_name = Some [97, 0], record_name_hash = 1988076, record_added_time = 0\<rparr>], True)"
    by (simp add: collected_def wanted_def sample_fs_leaf_def key record_entry_key extent_key directory_records_def DATA_TYPE_DIRECTORY_RECORD_def read)
qed

lemma sample_first_key: "map entry_of sample_fs_leaf \<noteq> []" "fs_key (hd (map entry_of sample_fs_leaf)) = (2, 3)"
  by (simp_all add: sample_fs_leaf_def fs_key_def entry_of_def sample_fs_key_def)

theorem records_complete_witness:
  "\<exists>s'. file_system_btree_get_directory_entries sample_fs_tree 2 4 [] sample_fs_state =
    (Inr ([\<lparr>record_identifier = 5, record_name_size = 2, record_name = Some [97, 0], record_name_hash = 1988076, record_added_time = 0\<rparr>], True), s')"
  using records_complete [OF sample_fs_valid(1,2) sample_fs_entries, of 2 "[]" "[]"] sample_first_key sample_collected(1)
  by (auto simp: MAXIMUM_BTREE_NODE_RECURSION_DEPTH_def DATA_TYPE_EXTENDED_ATTRIBUTE_def)

text \<open>In a well-formed file system tree the extents of
  a data stream are all its extents in the tree in order. The stream may have extents in several leaves;
  its extents are of one of the two data types, and its first extent is not stored twice.\<close>

theorem file_extents_complete:
  assumes "caches_valid tree contents om_contents s" "object_map_valid tree om"
    and "file_system_entries fs_order tree om transaction h = Some es" "h \<le> MAXIMUM_BTREE_NODE_RECURSION_DEPTH"
    and "owner < 2 ^ 60" "extents_of_one_type owner es" "es \<noteq> []" "fs_key (hd es) \<le> (owner, FILE_EXTENT2)"
  shows "\<exists>s'. caches_valid tree contents om_contents s' \<and>
    file_system_btree_get_file_extents tree owner transaction extents s = (collected file_extents owner extents False es, s')"
  unfolding file_system_btree_get_file_extents_def
  using extent_enumeration.tree_collects [OF assms(1-6)] assms(7,8) by (simp add: file_extents_def)

theorem file_extents_complete_witness:
  "\<exists>x s'. file_system_btree_get_file_extents sample_fs_tree 5 4 [] sample_fs_state = (Inr ([x], True), s') \<and>
    extent_physical_block_number x = 200 \<and> extent_data_size x = 4096"
proof -
  have "map fs_key (map entry_of sample_fs_leaf) = [(2, 3), (2, 9), (5, 3), (5, 8)]"
    using sample_fs_keys(1) by (auto simp: sample_fs_leaf_def fs_order_def prod_eq_iff)
  then have "extents_of_one_type 5 (map entry_of sample_fs_leaf)"
    unfolding extents_of_one_type_def sample_fs_keys(1) DATA_TYPE_FILE_EXTENT_def FILE_EXTENT2_def
    by (auto simp: sample_fs_leaf_def)
  from file_extents_complete [OF sample_fs_valid(1,2) sample_fs_entries _ _ this, of "[]"] sample_first_key sample_collected(3)
  show ?thesis by (auto simp: MAXIMUM_BTREE_NODE_RECURSION_DEPTH_def FILE_EXTENT2_def)
qed

text \<open>C17. Whatever the blocks of the volume hold, the lookup of an
  inode and the enumerations of directory entries, extended attributes and extents return, with a result
  or one of the errors of the library and without an access outside the data of an entry or a
  node that is not there, and leave both caches in step with the blocks.\<close>

theorem file_system_lookup_safe:
  assumes "file_system_state_valid tree contents om_contents s"
  shows "call_safe (file_system_state_valid tree contents om_contents) (\<lambda>_. True)
      (file_system_btree_get_inode_by_identifier tree oid transaction inode s) \<and>
    call_safe (file_system_state_valid tree contents om_contents) (\<lambda>_. True)
      (file_system_btree_get_directory_entries tree oid transaction records s) \<and>
    call_safe (file_system_state_valid tree contents om_contents) (\<lambda>_. True)
      (file_system_btree_get_attributes tree oid transaction values s) \<and>
    call_safe (file_system_state_valid tree contents om_contents) (\<lambda>_. True)
      (file_system_btree_get_file_extents tree oid transaction extents s)"
  unfolding file_system_btree_get_directory_entries_def file_system_btree_get_attributes_def file_system_btree_get_file_extents_def
  by (intro conjI get_inode_by_identifier_safe [OF assms] get_records_safe [OF assms] kinds_safe)

theorem file_system_lookup_safe_witness:
  "call_safe (file_system_state_valid sample_fs_tree (\<lambda>s. s) (\<lambda>s. s)) (\<lambda>_. True)
    (file_system_btree_get_file_extents sample_fs_tree 1 9 [] sample_fs_state)"
  using file_system_lookup_safe [OF sample_fs_valid(3)] by blast

end
