(* ===== verification/Names.thy ===== *)
theory Names
  imports Name_Tables Checksum "HOL-Library.List_Lexorder" "HOL-Library.Product_Lexorder"
begin

text \<open>
  Names of files: the comparison of a name in a record with a string, \<open>libfsapfs_name.c\<close>, and the
  hash of a name, \<open>libfsapfs_name_hash.c\<close>. Both exist for UTF-8 and for UTF-16 strings and differ in the
  function of libuna that takes the next character from the string.
\<close>

section \<open>Characters\<close>

text \<open>
  \<open>libuna_unicode_character_copy_from_utf8\<close> and its UTF-16 counterpart are parameters. A decoder gets
  the units that remain of a string and gives the character and the number of units it takes beside
  the first; it fails with \<open>None\<close>.
\<close>

type_synonym 'u decoder = "'u word list \<Rightarrow> (nat \<times> nat) option"

definition unicode_character_copy :: "'u::len decoder \<Rightarrow> 'u word list \<Rightarrow> nat \<Rightarrow> nat \<Rightarrow> (nat \<times> nat) option" where
  "unicode_character_copy decode string string_length string_index =
     (case decode (take (string_length - string_index) (drop string_index string)) of
        None \<Rightarrow> None
      | Some (unicode_character, n) \<Rightarrow> Some (unicode_character, string_index + Suc n))"

section \<open>Comparison\<close>

datatype compare_result = COMPARE_LESS | COMPARE_EQUAL | COMPARE_GREATER

definition name_get_mapping :: "nat \<Rightarrow> nat \<Rightarrow> decomposition_mapping result" where
  "name_get_mapping use_case_folding unicode_character =
     (if use_case_folding \<noteq> 0
      then bindR (name_get_case_folding_mapping unicode_character) name_get_decomposition_mapping
      else name_get_decomposition_mapping unicode_character)"

text \<open>
  The characters of two mappings, that of the string first: the shorter of two mappings with the
  same first characters is the greater one.
\<close>

fun compare_mappings :: "decomposition_mapping \<Rightarrow> decomposition_mapping \<Rightarrow> compare_result option" where
  "compare_mappings [] [] = None"
| "compare_mappings [] (y # ys) = Some COMPARE_GREATER"
| "compare_mappings (x # xs) [] = Some COMPARE_LESS"
| "compare_mappings (x # xs) (y # ys) =
     (if x < y then Some COMPARE_LESS else if x > y then Some COMPARE_GREATER else compare_mappings xs ys)"

function name_compare_loop ::
    "'n::len decoder \<Rightarrow> 'u::len decoder \<Rightarrow> nat \<Rightarrow> 'n word list \<Rightarrow> nat \<Rightarrow> 'u word list \<Rightarrow> nat \<Rightarrow> nat \<Rightarrow> nat
     \<Rightarrow> compare_result result" where
  "name_compare_loop decode_name decode_string use_case_folding name name_size string string_length name_index string_index =
     (if name_index < name_size \<and> string_index < string_length then
        case unicode_character_copy decode_name name name_size name_index of
          None \<Rightarrow> Inl CONVERSION_INPUT_FAILED
        | Some (name_character, name_index') \<Rightarrow>
            (case unicode_character_copy decode_string string string_length string_index of
               None \<Rightarrow> Inl CONVERSION_OUTPUT_FAILED
             | Some (string_character, string_index') \<Rightarrow>
                 bindR (name_get_mapping use_case_folding string_character) (\<lambda>string_mapping.
                 bindR (name_get_mapping use_case_folding name_character) (\<lambda>name_mapping.
                   case compare_mappings string_mapping name_mapping of
                     Some result \<Rightarrow> Inr result
                   | None \<Rightarrow> name_compare_loop decode_name decode_string use_case_folding name name_size string string_length
                               name_index' string_index')))
      else if string_index < string_length then Inr COMPARE_GREATER
      else if name_index < name_size then Inr COMPARE_LESS
      else Inr COMPARE_EQUAL)"
  by pat_completeness auto
termination
  by (relation "measure (\<lambda>(_, _, _, _, name_size, _, _, name_index, _). name_size - name_index)")
    (auto simp: unicode_character_copy_def split: option.splits prod.splits)

declare name_compare_loop.simps [simp del]

text \<open>The last unit of a string is dropped when it is zero.\<close>

definition without_end_of_string :: "'u::len word list \<Rightarrow> nat \<Rightarrow> nat result" where
  "without_end_of_string string string_length =
     (if string_length \<ge> 1 then
        bindR (rd string (string_length - 1)) (\<lambda>unit. Inr (if unit = 0 then string_length - 1 else string_length))
      else Inr string_length)"

definition name_compare_with_string ::
    "'n::len decoder \<Rightarrow> 'u::len decoder \<Rightarrow> 'n word list \<Rightarrow> nat \<Rightarrow> 'u word list \<Rightarrow> nat \<Rightarrow> nat \<Rightarrow> compare_result result" where
  "name_compare_with_string decode_name decode_string name name_size string string_length use_case_folding =
     (if name_size > SSIZE_MAX then Inl ARGUMENT_VALUE_EXCEEDS_MAXIMUM
      else if name_size = 0 then Inl ARGUMENT_VALUE_ZERO_OR_LESS
      else if string_length > SSIZE_MAX then Inl ARGUMENT_VALUE_EXCEEDS_MAXIMUM
      else
        bindR (without_end_of_string name name_size) (\<lambda>name_size.
        bindR (without_end_of_string string string_length) (\<lambda>string_length.
          name_compare_loop decode_name decode_string use_case_folding name name_size string string_length 0 0)))"

definition name_compare_with_utf8_string ::
    "8 decoder \<Rightarrow> bytes \<Rightarrow> nat \<Rightarrow> bytes \<Rightarrow> nat \<Rightarrow> nat \<Rightarrow> compare_result result" where
  "name_compare_with_utf8_string copy_from_utf8 = name_compare_with_string copy_from_utf8 copy_from_utf8"

definition name_compare_with_utf16_string ::
    "8 decoder \<Rightarrow> 16 decoder \<Rightarrow> bytes \<Rightarrow> nat \<Rightarrow> 16 word list \<Rightarrow> nat \<Rightarrow> nat \<Rightarrow> compare_result result" where
  "name_compare_with_utf16_string copy_from_utf8 copy_from_utf16 = name_compare_with_string copy_from_utf8 copy_from_utf16"

section \<open>Name hash\<close>

text \<open>Case folding of one character to several, in the order of the \<open>switch\<close>.\<close>

definition special_case_folding_00001f80 :: "decomposition_mapping list" where
  "special_case_folding_00001f80 =
    [[0x3b1, 0x313, 0x3b9], [0x3b1, 0x314, 0x3b9], [0x3b1, 0x313, 0x300, 0x3b9], [0x3b1, 0x314, 0x300, 0x3b9],
     [0x3b1, 0x313, 0x301, 0x3b9], [0x3b1, 0x314, 0x301, 0x3b9], [0x3b1, 0x313, 0x342, 0x3b9],
     [0x3b1, 0x314, 0x342, 0x3b9], [0x3b1, 0x313, 0x3b9], [0x3b1, 0x314, 0x3b9], [0x3b1, 0x313, 0x300, 0x3b9],
     [0x3b1, 0x314, 0x300, 0x3b9], [0x3b1, 0x313, 0x301, 0x3b9], [0x3b1, 0x314, 0x301, 0x3b9],
     [0x3b1, 0x313, 0x342, 0x3b9], [0x3b1, 0x314, 0x342, 0x3b9], [0x3b7, 0x313, 0x3b9], [0x3b7, 0x314, 0x3b9],
     [0x3b7, 0x313, 0x300, 0x3b9], [0x3b7, 0x314, 0x300, 0x3b9], [0x3b7, 0x313, 0x301, 0x3b9],
     [0x3b7, 0x314, 0x301, 0x3b9], [0x3b7, 0x313, 0x342, 0x3b9], [0x3b7, 0x314, 0x342, 0x3b9],
     [0x3b7, 0x313, 0x3b9], [0x3b7, 0x314, 0x3b9], [0x3b7, 0x313, 0x300, 0x3b9], [0x3b7, 0x314, 0x300, 0x3b9],
     [0x3b7, 0x313, 0x301, 0x3b9], [0x3b7, 0x314, 0x301, 0x3b9], [0x3b7, 0x313, 0x342, 0x3b9],
     [0x3b7, 0x314, 0x342, 0x3b9], [0x3c9, 0x313, 0x3b9], [0x3c9, 0x314, 0x3b9], [0x3c9, 0x313, 0x300, 0x3b9],
     [0x3c9, 0x314, 0x300, 0x3b9], [0x3c9, 0x313, 0x301, 0x3b9], [0x3c9, 0x314, 0x301, 0x3b9],
     [0x3c9, 0x313, 0x342, 0x3b9], [0x3c9, 0x314, 0x342, 0x3b9], [0x3c9, 0x313, 0x3b9], [0x3c9, 0x314, 0x3b9],
     [0x3c9, 0x313, 0x300, 0x3b9], [0x3c9, 0x314, 0x300, 0x3b9], [0x3c9, 0x313, 0x301, 0x3b9],
     [0x3c9, 0x314, 0x301, 0x3b9], [0x3c9, 0x313, 0x342, 0x3b9], [0x3c9, 0x314, 0x342, 0x3b9]]"

definition special_case_folding :: "nat \<Rightarrow> decomposition_mapping option" where
  "special_case_folding unicode_character =
    (if unicode_character = 0xdf then Some [0x73, 0x73]
     else if unicode_character = 0x130 then Some [0x69, 0x307]
     else if unicode_character = 0x149 then Some [0x2bc, 0x6e]
     else if unicode_character = 0x587 then Some [0x565, 0x582]
     else if unicode_character = 0x1e9a then Some [0x61, 0x2be]
     else if unicode_character = 0x1fb2 then Some [0x3b1, 0x300, 0x3b9]
     else if unicode_character = 0x1fb3 then Some [0x3b1, 0x3b9]
     else if unicode_character = 0x1fb4 then Some [0x3b1, 0x301, 0x3b9]
     else if unicode_character = 0x1fb6 then Some [0x3b1, 0x342]
     else if unicode_character = 0x1fb7 then Some [0x3b1, 0x342, 0x3b9]
     else if unicode_character = 0x1fbc then Some [0x3b1, 0x3b9]
     else if unicode_character = 0x1fc2 then Some [0x3b7, 0x300, 0x3b9]
     else if unicode_character = 0x1fc3 then Some [0x3b7, 0x3b9]
     else if unicode_character = 0x1fc4 then Some [0x3b7, 0x301, 0x3b9]
     else if unicode_character = 0x1fc6 then Some [0x3b7, 0x342]
     else if unicode_character = 0x1fc7 then Some [0x3b7, 0x342, 0x3b9]
     else if unicode_character = 0x1fcc then Some [0x3b7, 0x3b9]
     else if unicode_character = 0x1ff2 then Some [0x3c9, 0x300, 0x3b9]
     else if unicode_character = 0x1ff3 then Some [0x3c9, 0x3b9]
     else if unicode_character = 0x1ff4 then Some [0x3c9, 0x301, 0x3b9]
     else if unicode_character = 0x1ff6 then Some [0x3c9, 0x342]
     else if unicode_character = 0x1ff7 then Some [0x3c9, 0x342, 0x3b9]
     else if unicode_character = 0x1ffc then Some [0x3c9, 0x3b9]
     else if unicode_character = 0xfb00 then Some [0x66, 0x66]
     else if unicode_character = 0xfb01 then Some [0x66, 0x69]
     else if unicode_character = 0xfb02 then Some [0x66, 0x6c]
     else if unicode_character = 0xfb03 then Some [0x66, 0x66, 0x69]
     else if unicode_character = 0xfb04 then Some [0x66, 0x66, 0x6c]
     else if unicode_character = 0xfb05 then Some [0x73, 0x74]
     else if unicode_character = 0xfb06 then Some [0x73, 0x74]
     else if unicode_character = 0xfb13 then Some [0x574, 0x576]
     else if unicode_character = 0xfb14 then Some [0x574, 0x565]
     else if unicode_character = 0xfb15 then Some [0x574, 0x56b]
     else if unicode_character = 0xfb16 then Some [0x57e, 0x576]
     else if unicode_character = 0xfb17 then Some [0x574, 0x56d]
     else None)"

definition name_hash_get_mapping :: "nat \<Rightarrow> nat \<Rightarrow> decomposition_mapping result" where
  "name_hash_get_mapping use_case_folding unicode_character =
     (if use_case_folding \<noteq> 0 then
        bindR (name_get_case_folding_mapping unicode_character) (\<lambda>unicode_character.
          if 0x00001f80 \<le> unicode_character \<and> unicode_character \<le> 0x00001faf
          then rd special_case_folding_00001f80 (unicode_character - 0x00001f80)
          else case special_case_folding unicode_character of
            Some nfd_mapping \<Rightarrow> Inr nfd_mapping
          | None \<Rightarrow> name_get_decomposition_mapping unicode_character)
      else name_get_decomposition_mapping unicode_character)"

text \<open>The four bytes of each character, the least significant first, are taken into the checksum.\<close>

function name_hash_loop ::
    "'u::len decoder \<Rightarrow> nat \<Rightarrow> 32 word list \<Rightarrow> 'u word list \<Rightarrow> nat \<Rightarrow> nat \<Rightarrow> 32 word \<Rightarrow> 32 word result" where
  "name_hash_loop decode use_case_folding table string string_length string_index calculated_checksum =
     (if string_index < string_length then
        case unicode_character_copy decode string string_length string_index of
          None \<Rightarrow> Inl CONVERSION_INPUT_FAILED
        | Some (unicode_character, string_index') \<Rightarrow>
            if unicode_character = 0 then Inr calculated_checksum
            else
              bindR (name_hash_get_mapping use_case_folding unicode_character) (\<lambda>nfd_mapping.
              bindR (weak_crc32_loop table (concat (map (le_encode 4) nfd_mapping)) calculated_checksum) (\<lambda>calculated_checksum.
                name_hash_loop decode use_case_folding table string string_length string_index' calculated_checksum))
      else Inr calculated_checksum)"
  by pat_completeness auto
termination
  by (relation "measure (\<lambda>(_, _, _, _, string_length, string_index, _). string_length - string_index)")
    (auto simp: unicode_character_copy_def split: option.splits prod.splits)

declare name_hash_loop.simps [simp del]

definition name_hash_calculate_from_string ::
    "'u::len decoder \<Rightarrow> 'u word list \<Rightarrow> nat \<Rightarrow> nat \<Rightarrow> crc32_globals \<Rightarrow> (nat \<times> crc32_globals) result" where
  "name_hash_calculate_from_string decode string string_length use_case_folding g =
     (let g = (if crc32_table_computed g then g else checksum_initialize_crc32_table 0x82f63b78 g)
      in bindR (name_hash_loop decode use_case_folding (crc32_table g) string string_length 0 0xffffffff)
           (\<lambda>calculated_checksum. Inr (unat (calculated_checksum AND 0x003fffff), g)))"

definition name_hash_calculate_from_utf8_string ::
    "8 decoder \<Rightarrow> bytes \<Rightarrow> nat \<Rightarrow> nat \<Rightarrow> crc32_globals \<Rightarrow> (nat \<times> crc32_globals) result" where
  "name_hash_calculate_from_utf8_string = name_hash_calculate_from_string"

definition name_hash_calculate_from_utf16_string ::
    "16 decoder \<Rightarrow> 16 word list \<Rightarrow> nat \<Rightarrow> nat \<Rightarrow> crc32_globals \<Rightarrow> (nat \<times> crc32_globals) result" where
  "name_hash_calculate_from_utf16_string = name_hash_calculate_from_string"

section \<open>The characters of a string\<close>

function characters :: "'u::len decoder \<Rightarrow> 'u word list \<Rightarrow> nat list option" where
  "characters decode units =
     (if units = [] then Some []
      else case decode units of
        None \<Rightarrow> None
      | Some (c, n) \<Rightarrow> map_option ((#) c) (characters decode (drop (Suc n) units)))"
  by pat_completeness auto
termination
  by (relation "measure (\<lambda>(_, units). length units)") auto

declare characters.simps [simp del]

lemma characters_Nil [simp]: "characters decode [] = Some []"
  by (simp add: characters.simps)

lemma characters_step:
  assumes "characters decode units = Some cs" "units \<noteq> []"
  obtains c n cs' where "decode units = Some (c, n)" "cs = c # cs'" "characters decode (drop (Suc n) units) = Some cs'"
  using assms by (subst (asm) characters.simps) (auto split: option.splits)

text \<open>What a loop has still to read.\<close>

abbreviation units_from :: "'u::len word list \<Rightarrow> nat \<Rightarrow> nat \<Rightarrow> 'u word list" where
  "units_from string string_length string_index \<equiv> take (string_length - string_index) (drop string_index string)"

lemma rest_step: "drop (Suc n) (units_from string string_length i) = units_from string string_length (i + Suc n)"
  by (simp add: drop_take add.commute)

lemma rest_ne: "l \<le> length string \<Longrightarrow> units_from string l i \<noteq> [] \<longleftrightarrow> i < l"
  by auto

section \<open>Mappings\<close>

lemma name_get_mapping_total: "\<exists>m. name_get_mapping fold_case c = Inr m"
  using lookup_mapping_covered [OF case_folding_covered] lookup_mapping_covered [OF decomposition_covered]
  unfolding name_get_mapping_def name_get_case_folding_mapping_def name_get_decomposition_mapping_def
  by (metis bindR_simps(2))

definition folded_decomposition :: "nat \<Rightarrow> nat \<Rightarrow> decomposition_mapping" where
  "folded_decomposition fold_case c = (case name_get_mapping fold_case c of Inl e \<Rightarrow> [] | Inr m \<Rightarrow> m)"

lemma name_get_mapping_eq: "name_get_mapping fold_case c = Inr (folded_decomposition fold_case c)"
  using name_get_mapping_total [of fold_case c] by (auto simp: folded_decomposition_def)

fun compare_characters :: "nat \<Rightarrow> nat list \<Rightarrow> nat list \<Rightarrow> compare_result" where
  "compare_characters fold_case [] [] = COMPARE_EQUAL"
| "compare_characters fold_case [] (n # ns) = COMPARE_LESS"
| "compare_characters fold_case (s # ss) [] = COMPARE_GREATER"
| "compare_characters fold_case (s # ss) (n # ns) =
     (case compare_mappings (folded_decomposition fold_case s) (folded_decomposition fold_case n) of
        Some result \<Rightarrow> result
      | None \<Rightarrow> compare_characters fold_case ss ns)"

lemma name_compare_loop_characters:
  assumes "name_size \<le> length name" "string_length \<le> length string"
  shows "characters decode_name (units_from name name_size name_index) = Some ns \<Longrightarrow>
    characters decode_string (units_from string string_length string_index) = Some ss \<Longrightarrow>
    name_compare_loop decode_name decode_string fold_case name name_size string string_length name_index string_index =
      Inr (compare_characters fold_case ss ns)"
proof (induction ss arbitrary: ns name_index string_index)
  case Nil
  have "\<not> string_index < string_length"
    using Nil.prems(2) characters_step rest_ne [OF assms(2)] by blast
  moreover have "ns = [] \<longleftrightarrow> \<not> name_index < name_size"
    using Nil.prems(1) characters_step rest_ne [OF assms(1)] characters_Nil by (metis list.distinct(1) option.inject)
  ultimately show ?case
    by (cases ns) (simp_all add: name_compare_loop.simps [of decode_name decode_string fold_case name name_size string string_length])
next
  case (Cons s ss)
  have string: "string_index < string_length"
    using Cons.prems(2) rest_ne [OF assms(2)] characters_Nil by (metis list.distinct(1) option.inject)
  obtain i where s: "decode_string (units_from string string_length string_index) = Some (s, i)"
    "characters decode_string (units_from string string_length (string_index + Suc i)) = Some ss"
    using characters_step [OF Cons.prems(2)] rest_ne [OF assms(2)] string rest_step by (metis list.inject)
  show ?case
  proof (cases ns)
    case Nil
    then have "\<not> name_index < name_size"
      using Cons.prems(1) characters_step rest_ne [OF assms(1)] by blast
    then show ?thesis
      using string Nil by (simp add: name_compare_loop.simps [of decode_name decode_string fold_case name name_size string string_length])
  next
    case n: (Cons n ns')
    have name: "name_index < name_size"
      using Cons.prems(1) n rest_ne [OF assms(1)] characters_Nil by (metis list.distinct(1) option.inject)
    obtain j where n': "decode_name (units_from name name_size name_index) = Some (n, j)"
      "characters decode_name (units_from name name_size (name_index + Suc j)) = Some ns'"
      using characters_step [OF Cons.prems(1)] rest_ne [OF assms(1)] name n rest_step by (metis list.inject)
    show ?thesis
      using string name n s n' Cons.IH [OF n'(2) s(2)]
      by (simp add: name_compare_loop.simps [of decode_name decode_string fold_case name name_size string string_length name_index]
          unicode_character_copy_def name_get_mapping_eq split: option.split)
  qed
qed

text \<open>The part of a name or string that is compared.\<close>

definition trimmed :: "'u::len word list \<Rightarrow> 'u word list" where
  "trimmed units = (if units \<noteq> [] \<and> last units = 0 then butlast units else units)"

lemma without_end_of_string_trimmed:
  "without_end_of_string units (length units) = Inr (length (trimmed units))"
  "take (length (trimmed units)) units = trimmed units" "length (trimmed units) \<le> length units"
  by (auto simp: without_end_of_string_def trimmed_def last_conv_nth butlast_conv_take Suc_le_eq)

lemma name_compare_characters:
  assumes "characters decode_name (trimmed name) = Some ns" "characters decode_string (trimmed string) = Some ss"
    and "name \<noteq> []" "length name \<le> SSIZE_MAX" "length string \<le> SSIZE_MAX"
  shows "name_compare_with_string decode_name decode_string name (length name) string (length string) fold_case =
    Inr (compare_characters fold_case ss ns)"
  using assms name_compare_loop_characters [of "length (trimmed name)" name "length (trimmed string)" string decode_name 0 ns decode_string 0 ss fold_case]
  by (simp add: name_compare_with_string_def without_end_of_string_trimmed)

section \<open>The order of names\<close>

text \<open>
  Names are ordered by the characters of their mappings, with an end mark that is greater than every
  character behind each mapping.
\<close>

definition mapping_key :: "decomposition_mapping \<Rightarrow> (nat \<times> nat) list" where
  "mapping_key m = map (Pair 0) m @ [(1, 0)]"

definition name_sort_key :: "nat \<Rightarrow> nat list \<Rightarrow> (nat \<times> nat) list" where
  "name_sort_key fold_case cs = concat (map (\<lambda>c. mapping_key (folded_decomposition fold_case c)) cs)"

definition compare_order :: "'a::linorder \<Rightarrow> 'a \<Rightarrow> compare_result" where
  "compare_order x y = (if x < y then COMPARE_LESS else if x = y then COMPARE_EQUAL else COMPARE_GREATER)"

lemma compare_order_Cons: "compare_order (x # xs) (x # ys) = compare_order xs ys"
  by (simp add: compare_order_def)

lemma compare_mappings_order:
  "compare_order (mapping_key a @ xs) (mapping_key b @ ys) =
     (case compare_mappings a b of Some result \<Rightarrow> result | None \<Rightarrow> compare_order xs ys)"
proof (induction a b rule: compare_mappings.induct)
  case (4 x xs' y ys')
  then show ?case by (auto simp: mapping_key_def compare_order_def)
qed (simp_all add: mapping_key_def compare_order_def)

lemma name_sort_key_Nil [simp]: "name_sort_key fold_case [] = []"
  by (simp add: name_sort_key_def)

lemma compare_characters_order: "compare_characters fold_case ss ns = compare_order (name_sort_key fold_case ss) (name_sort_key fold_case ns)"
proof (induction fold_case ss ns rule: compare_characters.induct)
  case (4 fold_case s ss n ns)
  have "name_sort_key fold_case (c # cs) = mapping_key (folded_decomposition fold_case c) @ name_sort_key fold_case cs" for c cs
    by (simp add: name_sort_key_def)
  then show ?case using 4 by (simp add: compare_mappings_order split: option.split)
next
  case (2 fold_case n ns)
  have "name_sort_key fold_case (n # ns) \<noteq> []" by (simp add: name_sort_key_def mapping_key_def)
  then have "[] < name_sort_key fold_case (n # ns)" by (cases "name_sort_key fold_case (n # ns)") simp_all
  then show ?case by (auto simp: compare_order_def)
next
  case (3 fold_case s ss)
  have "name_sort_key fold_case (s # ss) \<noteq> []" by (simp add: name_sort_key_def mapping_key_def)
  then have "[] < name_sort_key fold_case (s # ss)" by (cases "name_sort_key fold_case (s # ss)") simp_all
  then show ?case by (auto simp: compare_order_def)
qed (simp add: name_sort_key_def compare_order_def)

lemma compare_mappings_None: "compare_mappings a b = None \<longleftrightarrow> a = b"
  by (induction a b rule: compare_mappings.induct) auto

lemma compare_characters_equal:
  "compare_characters fold_case ss ns = COMPARE_EQUAL \<longleftrightarrow> map (folded_decomposition fold_case) ss = map (folded_decomposition fold_case) ns"
proof (induction fold_case ss ns rule: compare_characters.induct)
  case (4 fold_case s ss n ns)
  have "compare_mappings a b \<noteq> Some COMPARE_EQUAL" for a b
    by (induction a b rule: compare_mappings.induct) auto
  then show ?case
    using 4 compare_mappings_None [of "folded_decomposition fold_case s" "folded_decomposition fold_case n"]
    by (cases "compare_mappings (folded_decomposition fold_case s) (folded_decomposition fold_case n)") auto
qed auto

section \<open>The hash of a name\<close>

lemma name_hash_get_mapping_total: "\<exists>m. name_hash_get_mapping fold_case c = Inr m"
proof -
  have "length special_case_folding_00001f80 = 48" by (simp add: special_case_folding_00001f80_def)
  then have special: "\<exists>m. rd special_case_folding_00001f80 (x - 0x1f80) = Inr m" if "0x1f80 \<le> x" "x \<le> 0x1faf" for x
    using that by auto
  have fold: "\<exists>m. name_get_case_folding_mapping c = Inr m" "\<exists>m. name_get_decomposition_mapping c = Inr m" for c
    using lookup_mapping_covered [OF case_folding_covered] lookup_mapping_covered [OF decomposition_covered]
    unfolding name_get_case_folding_mapping_def name_get_decomposition_mapping_def by metis+
  then obtain d where "name_get_case_folding_mapping c = Inr d" by blast
  then show ?thesis
    using special [of d] fold(2) [of d] fold(2) [of c] by (auto simp: name_hash_get_mapping_def split: option.split)
qed

definition hash_mapping :: "nat \<Rightarrow> nat \<Rightarrow> decomposition_mapping" where
  "hash_mapping fold_case c = (case name_hash_get_mapping fold_case c of Inl e \<Rightarrow> [] | Inr m \<Rightarrow> m)"

lemma name_hash_get_mapping_eq: "name_hash_get_mapping fold_case c = Inr (hash_mapping fold_case c)"
  using name_hash_get_mapping_total [of fold_case c] by (auto simp: hash_mapping_def)

text \<open>The little-endian UTF-32 form of the mapped characters up to a zero character.\<close>

definition utf32_stream :: "nat \<Rightarrow> nat list \<Rightarrow> bytes" where
  "utf32_stream fold_case cs = concat (map (le_encode 4) (concat (map (hash_mapping fold_case) (takeWhile (\<lambda>c. c \<noteq> 0) cs))))"

lemma crc32_register_append: "crc32_register v (xs @ ys) = crc32_register (crc32_register v xs) ys"
  by (simp add: crc32_register_def)

lemma name_hash_loop_register:
  assumes "table = map (\<lambda>i. crc32_shifts 8 0x82f63b78 (of_nat i)) [0..<256]" "string_length \<le> length string"
  shows "characters decode (units_from string string_length string_index) = Some cs \<Longrightarrow>
    name_hash_loop decode fold_case table string string_length string_index v =
      Inr (crc32_register v (bytes_bits (utf32_stream fold_case cs)))"
proof (induction cs arbitrary: string_index v)
  case Nil
  have "\<not> string_index < string_length"
    using Nil.prems characters_step rest_ne [OF assms(2)] by blast
  then show ?case
    by (simp add: name_hash_loop.simps [of decode fold_case table string string_length string_index] utf32_stream_def crc32_register_def)
next
  case (Cons c cs)
  have string: "string_index < string_length"
    using Cons.prems rest_ne [OF assms(2)] characters_Nil by (metis list.distinct(1) option.inject)
  obtain i where s: "decode (units_from string string_length string_index) = Some (c, i)"
    "characters decode (units_from string string_length (string_index + Suc i)) = Some cs"
    using characters_step [OF Cons.prems] rest_ne [OF assms(2)] string rest_step by (metis list.inject)
  note loop = name_hash_loop.simps [of decode fold_case table string string_length string_index v]
  show ?case
  proof (cases "c = 0")
    case True
    then show ?thesis using string s(1) by (simp add: loop unicode_character_copy_def utf32_stream_def crc32_register_def)
  next
    case False
    have "bytes_bits (utf32_stream fold_case (c # cs)) =
        bytes_bits (concat (map (le_encode 4) (hash_mapping fold_case c))) @ bytes_bits (utf32_stream fold_case cs)"
      using False by (simp add: utf32_stream_def bytes_bits_def)
    then show ?thesis
      using string s False Cons.IH [OF s(2)]
      by (simp add: loop unicode_character_copy_def name_hash_get_mapping_eq weak_crc32_loop_register [OF assms(1)] crc32_register_append)
  qed
qed

definition name_hash_of :: "nat \<Rightarrow> nat list \<Rightarrow> nat" where
  "name_hash_of fold_case cs = unat (crc32_register 0xffffffff (bytes_bits (utf32_stream fold_case cs)) AND 0x003fffff)"

lemma name_hash_calculate_value:
  assumes "crc32_globals_inv g" "characters decode string = Some cs"
  shows "name_hash_calculate_from_string decode string (length string) fold_case g =
    Inr (name_hash_of fold_case cs, if crc32_table_computed g then g else checksum_initialize_crc32_table 0x82f63b78 g)"
proof -
  let ?g = "if crc32_table_computed g then g else checksum_initialize_crc32_table 0x82f63b78 g"
  have "crc32_table ?g = map (\<lambda>i. crc32_shifts 8 0x82f63b78 (of_nat i)) [0..<256]"
    using assms(1) by (simp add: crc32_globals_inv_def checksum_initialize_crc32_table_def del: upt_rec_numeral)
  from name_hash_loop_register [OF this, of "length string" string decode 0 cs fold_case "0xffffffff"] assms(2)
  show ?thesis by (simp add: name_hash_calculate_from_string_def name_hash_of_def Let_def)
qed

end
