(* ===== verification/File_System_Names.thy ===== *)
theory File_System_Names
  imports File_System_Enumeration Names
begin

text \<open>
  Lookup of directory records by name, and of inodes by name and by path, in
  \<open>libfsapfs_file_system_btree.c\<close>. The functions for UTF-8 and for UTF-16 strings are the same but for
  the decoder of the string; the names of records are UTF-8.
\<close>

section \<open>Names of directory records\<close>

text \<open>The hashes decide when both are known.\<close>

definition directory_record_compare_name_with_string ::
    "8 decoder \<Rightarrow> 'u::len decoder \<Rightarrow> directory_record \<Rightarrow> 'u word list \<Rightarrow> nat \<Rightarrow> nat \<Rightarrow> nat \<Rightarrow> compare_result result" where
  "directory_record_compare_name_with_string decode_name decode_string directory_record string string_length name_hash fold_case =
     (if record_name_hash directory_record \<noteq> 0 \<and> name_hash \<noteq> 0 \<and> name_hash < record_name_hash directory_record
      then Inr COMPARE_LESS
      else if record_name_hash directory_record \<noteq> 0 \<and> name_hash \<noteq> 0 \<and> name_hash > record_name_hash directory_record
      then Inr COMPARE_GREATER
      else case record_name directory_record of
        None \<Rightarrow> Inr COMPARE_EQUAL
      | Some name \<Rightarrow>
          name_compare_with_string decode_name decode_string name (record_name_size directory_record) string string_length fold_case)"

definition directory_record_compare_name_with_utf8_string ::
    "8 decoder \<Rightarrow> directory_record \<Rightarrow> bytes \<Rightarrow> nat \<Rightarrow> nat \<Rightarrow> nat \<Rightarrow> compare_result result" where
  "directory_record_compare_name_with_utf8_string copy_from_utf8 =
     directory_record_compare_name_with_string copy_from_utf8 copy_from_utf8"

definition directory_record_compare_name_with_utf16_string ::
    "8 decoder \<Rightarrow> 16 decoder \<Rightarrow> directory_record \<Rightarrow> 16 word list \<Rightarrow> nat \<Rightarrow> nat \<Rightarrow> nat \<Rightarrow> compare_result result" where
  "directory_record_compare_name_with_utf16_string copy_from_utf8 copy_from_utf16 =
     directory_record_compare_name_with_string copy_from_utf8 copy_from_utf16"

section \<open>Nodes\<close>

text \<open>
  The string is represented by its comparison with a record, with or without case folding. The
  lookups read the key of an entry, compare, and only then read the value.
\<close>

type_synonym name_comparison = "directory_record \<Rightarrow> nat \<Rightarrow> compare_result result"

definition read_directory_record_key :: "btree_entry \<Rightarrow> directory_record result" where
  "read_directory_record_key entry =
     bindR (directory_record_initialize None) (\<lambda>r.
       directory_record_read_key_data r (key_data entry) (key_data_size entry))"

fun scan_leaf_by_name ::
    "name_comparison \<Rightarrow> nat \<Rightarrow> btree_node \<Rightarrow> nat \<Rightarrow> nat list \<Rightarrow> directory_record option result" where
  "scan_leaf_by_name compare case_folding node parent_identifier [] = Inr None"
| "scan_leaf_by_name compare case_folding node parent_identifier (entry_index # rest) =
     bindR (btree_node_get_entry_by_index node entry_index) (\<lambda>entry.
       case key_data entry of
         None \<Rightarrow> Inl RUNTIME_VALUE_MISSING
       | Some key \<Rightarrow>
           if key_data_size entry < 8 then Inl RUNTIME_VALUE_OUT_OF_BOUNDS
           else
             bindR (rd_u64_le key 0) (\<lambda>file_system_identifier.
               if file_system_identifier = (push_bit 60 DATA_TYPE_DIRECTORY_RECORD OR parent_identifier) then
                 bindR (read_directory_record_key entry) (\<lambda>directory_record.
                 bindR (compare directory_record case_folding) (\<lambda>compare_result.
                   if compare_result = COMPARE_EQUAL then
                     bindR (directory_record_read_value_data directory_record (value_data entry) (value_data_size entry))
                       (\<lambda>directory_record. Inr (Some directory_record))
                   else scan_leaf_by_name compare case_folding node parent_identifier rest))
               else scan_leaf_by_name compare case_folding node parent_identifier rest))"

definition get_directory_record_from_leaf_node_by_name ::
    "name_comparison \<Rightarrow> nat \<Rightarrow> btree_node \<Rightarrow> nat \<Rightarrow> directory_record option result" where
  "get_directory_record_from_leaf_node_by_name compare case_folding node parent_identifier =
     bindR (btree_node_is_leaf_node node) (\<lambda>is_leaf_node.
       if is_leaf_node = 0 then Inl RUNTIME_UNSUPPORTED_VALUE
       else
         bindR (btree_node_get_number_of_entries node) (\<lambda>number_of_entries.
           scan_leaf_by_name compare case_folding node parent_identifier [0..<number_of_entries]))"

text \<open>The loop over a branch node leaves with the entry before the first one behind the name.\<close>

fun scan_branch_by_name ::
    "name_comparison \<Rightarrow> btree_node \<Rightarrow> nat \<Rightarrow> nat list \<Rightarrow> btree_entry option \<Rightarrow> btree_entry option result" where
  "scan_branch_by_name compare node parent_identifier [] previous_entry = Inr previous_entry"
| "scan_branch_by_name compare node parent_identifier (entry_index # rest) previous_entry =
     bindR (btree_node_get_entry_by_index node entry_index) (\<lambda>entry.
       case key_data entry of
         None \<Rightarrow> Inl RUNTIME_VALUE_MISSING
       | Some key \<Rightarrow>
           if key_data_size entry < 8 then Inl RUNTIME_VALUE_OUT_OF_BOUNDS
           else
             bindR (rd_u64_le key 0) (\<lambda>stored_identifier.
               let file_system_data_type = drop_bit 60 stored_identifier;
                   file_system_identifier = stored_identifier AND 0x0fffffffffffffff
               in if file_system_identifier > parent_identifier \<or>
                     (file_system_identifier = parent_identifier \<and> file_system_data_type > DATA_TYPE_DIRECTORY_RECORD)
                  then Inr previous_entry
                  else if file_system_identifier = parent_identifier \<and> file_system_data_type = DATA_TYPE_DIRECTORY_RECORD then
                    bindR (read_directory_record_key entry) (\<lambda>directory_record.
                    bindR (compare directory_record 0) (\<lambda>compare_result.
                      if compare_result = COMPARE_LESS then Inr previous_entry
                      else scan_branch_by_name compare node parent_identifier rest (Some entry)))
                  else scan_branch_by_name compare node parent_identifier rest (Some entry)))"

primrec get_directory_record_from_branch_node_by_name ::
    "name_comparison \<Rightarrow> ('c, 'o) file_system_btree \<Rightarrow> nat \<Rightarrow> nat \<Rightarrow> nat \<Rightarrow> btree_node
     \<Rightarrow> ('c, 'o, directory_record option) tree_call" where
  "get_directory_record_from_branch_node_by_name compare tree parent_identifier transaction 0 = (\<lambda>node.
     failS RUNTIME_VALUE_OUT_OF_BOUNDS)"
| "get_directory_record_from_branch_node_by_name compare tree parent_identifier transaction (Suc levels) = (\<lambda>node.
     bindS (liftS (btree_node_is_leaf_node node)) (\<lambda>is_leaf_node.
       if is_leaf_node \<noteq> 0 then failS RUNTIME_UNSUPPORTED_VALUE
       else
         bindS (liftS (btree_node_get_number_of_entries node)) (\<lambda>number_of_entries.
         bindS (liftS (scan_branch_by_name compare node parent_identifier [0..<number_of_entries] None)) (\<lambda>previous_entry.
         bindS (file_system_btree_get_child tree transaction node previous_entry) (\<lambda>sub_node.
         bindS (liftS (btree_node_is_leaf_node sub_node)) (\<lambda>is_leaf_node.
           if is_leaf_node \<noteq> 0
           then liftS (get_directory_record_from_leaf_node_by_name compare (use_case_folding tree) sub_node parent_identifier)
           else get_directory_record_from_branch_node_by_name compare tree parent_identifier transaction levels sub_node))))))"

text \<open>From a root node, by the kind of the node.\<close>

definition get_directory_record_by_name ::
    "name_comparison \<Rightarrow> ('c, 'o) file_system_btree \<Rightarrow> nat \<Rightarrow> nat \<Rightarrow> btree_node \<Rightarrow> nat
     \<Rightarrow> ('c, 'o, directory_record option) tree_call" where
  "get_directory_record_by_name compare tree parent_identifier transaction root_node is_leaf_node =
     (if is_leaf_node \<noteq> 0
      then liftS (get_directory_record_from_leaf_node_by_name compare (use_case_folding tree) root_node parent_identifier)
      else get_directory_record_from_branch_node_by_name compare tree parent_identifier transaction
             (Suc MAXIMUM_BTREE_NODE_RECURSION_DEPTH) root_node)"

section \<open>Calls that use the table of the checksum\<close>

type_synonym ('c, 'o, 'a) name_call = "(('c, 'o) file_system_btree_state \<times> crc32_globals, 'a) call"

definition on_tree :: "('c, 'o, 'a) tree_call \<Rightarrow> ('c, 'o, 'a) name_call" where
  "on_tree m = (\<lambda>(s, g). case m s of (r, s') \<Rightarrow> (r, (s', g)))"

definition on_globals :: "(crc32_globals \<Rightarrow> ('a \<times> crc32_globals) result) \<Rightarrow> ('c, 'o, 'a) name_call" where
  "on_globals m = (\<lambda>(s, g). case m g of Inl e \<Rightarrow> (Inl e, (s, g)) | Inr (x, g') \<Rightarrow> (Inr x, (s, g')))"

section \<open>Inodes by name\<close>

text \<open>
  The hash of the string goes into the comparison. The result of the lookup of the inode and the node and the entry
  that it sets are kept apart as in the code, which takes a result other than 0 for a failure.
\<close>

definition string_comparison ::
    "8 decoder \<Rightarrow> 'u::len decoder \<Rightarrow> 'u word list \<Rightarrow> nat \<Rightarrow> nat \<Rightarrow> name_comparison" where
  "string_comparison decode_name decode_string string string_length name_hash directory_record fold_case =
     directory_record_compare_name_with_string decode_name decode_string directory_record string string_length name_hash fold_case"

definition file_system_btree_get_inode_by_name ::
    "8 decoder \<Rightarrow> 'u::len decoder \<Rightarrow> ('c, 'o) file_system_btree \<Rightarrow> nat \<Rightarrow> 'u word list \<Rightarrow> nat \<Rightarrow> nat
     \<Rightarrow> inode option \<Rightarrow> directory_record option \<Rightarrow> ('c, 'o, (inode \<times> directory_record) option) name_call" where
  "file_system_btree_get_inode_by_name decode_name decode_string tree parent_identifier string string_length transaction
     inode directory_record =
     (if string_length > SSIZE_MAX then failS RUNTIME_VALUE_EXCEEDS_MAXIMUM
      else if inode \<noteq> None \<or> directory_record \<noteq> None then failS RUNTIME_VALUE_ALREADY_SET
      else
        bindS (on_tree (file_system_btree_get_root_node tree (fs_root_node_block_number tree))) (\<lambda>root.
          case root of
            None \<Rightarrow> returnS None
          | Some root_node \<Rightarrow>
              bindS (liftS (btree_node_is_leaf_node root_node)) (\<lambda>is_leaf_node.
              bindS (on_globals (name_hash_calculate_from_string decode_string string string_length (use_case_folding tree)))
                (\<lambda>name_hash.
              bindS (on_tree (get_directory_record_by_name (string_comparison decode_name decode_string string string_length name_hash)
                  tree parent_identifier transaction root_node is_leaf_node)) (\<lambda>found.
                case found of
                  None \<Rightarrow> returnS None
                | Some directory_record \<Rightarrow>
                    bindS (on_tree (file_system_btree_get_entry_by_identifier tree (record_identifier directory_record)
                        DATA_TYPE_INODE transaction)) (\<lambda>entry.
                      let (result, btree_node, btree_entry) =
                        (case entry of None \<Rightarrow> (0 :: nat, None, None) | Some (node, entry) \<Rightarrow> (1, Some node, entry))
                      in if result \<noteq> 0 then failS RUNTIME_GET_FAILED
                         else if btree_node = None then failS RUNTIME_VALUE_MISSING
                         else case btree_entry of
                             None \<Rightarrow> failS RUNTIME_VALUE_MISSING
                           | Some entry \<Rightarrow>
                               bindS (liftS (read_inode_entry entry)) (\<lambda>inode. returnS (Some (inode, directory_record)))))))))"

definition file_system_btree_get_inode_by_utf8_name where
  "file_system_btree_get_inode_by_utf8_name (copy_from_utf8 :: 8 decoder) =
     file_system_btree_get_inode_by_name copy_from_utf8 copy_from_utf8"

definition file_system_btree_get_inode_by_utf16_name where
  "file_system_btree_get_inode_by_utf16_name (copy_from_utf8 :: 8 decoder) (copy_from_utf16 :: 16 decoder) =
     file_system_btree_get_inode_by_name copy_from_utf8 copy_from_utf16"

section \<open>Inodes by path\<close>

definition SEPARATOR :: nat where "SEPARATOR = 0x2f"

text \<open>The end of a segment, and whether a separator or a zero ended it.\<close>

function find_segment_end :: "'u::len decoder \<Rightarrow> 'u word list \<Rightarrow> nat \<Rightarrow> nat \<Rightarrow> (nat \<times> nat) result" where
  "find_segment_end decode string string_length string_index =
     (if string_index < string_length then
        case unicode_character_copy decode string string_length string_index of
          None \<Rightarrow> Inl RUNTIME_COPY_FAILED
        | Some (unicode_character, string_index') \<Rightarrow>
            if unicode_character = SEPARATOR \<or> unicode_character = 0 then Inr (string_index', 1)
            else find_segment_end decode string string_length string_index'
      else Inr (string_index, 0))"
  by pat_completeness auto
termination
  by (relation "measure (\<lambda>(_, _, string_length, string_index). string_length - string_index)")
    (auto simp: unicode_character_copy_def split: option.splits prod.splits)

declare find_segment_end.simps [simp del]

lemma find_segment_end_later:
  "find_segment_end decode string string_length i = Inr (j, f) \<Longrightarrow> i < string_length \<Longrightarrow> i < j \<and> f \<le> 1"
proof (induction decode string string_length i rule: find_segment_end.induct)
  case (1 decode string string_length i)
  then obtain c n where c: "unicode_character_copy decode string string_length i = Some (c, i + Suc n)"
    by (subst (asm) (2) find_segment_end.simps) (auto simp: unicode_character_copy_def split: option.splits prod.splits if_splits)
  show ?case
  proof (cases "c = SEPARATOR \<or> c = 0 \<or> string_length \<le> i + Suc n")
    case True
    then show ?thesis
      using "1.prems" c by (subst (asm) find_segment_end.simps, auto simp: find_segment_end.simps [of _ _ _ "Suc (i + n)"] split: if_splits)
  next
    case False
    then show ?thesis using "1.IH" [OF "1.prems"(2) c] "1.prems"(1,2) c
      by (subst (asm) find_segment_end.simps) auto
  qed
qed

text \<open>
  The loop over the segments: each is looked up in the directory that was found before. The
  result is the identifier of the last one and its record, or \<open>None\<close> when a segment is not found or empty.
\<close>

function path_loop ::
    "8 decoder \<Rightarrow> 'u::len decoder \<Rightarrow> ('c, 'o) file_system_btree \<Rightarrow> nat \<Rightarrow> btree_node \<Rightarrow> nat \<Rightarrow> 'u word list \<Rightarrow> nat
     \<Rightarrow> nat \<Rightarrow> nat \<Rightarrow> directory_record option \<Rightarrow> ('c, 'o, (nat \<times> directory_record option) option) name_call" where
  "path_loop decode_name decode_string tree transaction root_node is_leaf_node string string_length string_index
     lookup_identifier directory_record s =
     (if string_index < string_length then
        case find_segment_end decode_string string string_length string_index of
          Inl e \<Rightarrow> (Inl e, s)
        | Inr (string_index', ended) \<Rightarrow>
            let segment = drop string_index string; segment_length = string_index' - (string_index + ended)
            in if segment_length = 0 then (Inr None, s)
               else
                 bindS (on_globals (name_hash_calculate_from_string decode_string segment segment_length (use_case_folding tree)))
                   (\<lambda>name_hash.
                 bindS (on_tree (get_directory_record_by_name
                     (string_comparison decode_name decode_string segment segment_length name_hash)
                     tree lookup_identifier transaction root_node is_leaf_node)) (\<lambda>found.
                   case found of
                     None \<Rightarrow> returnS None
                   | Some directory_record \<Rightarrow>
                       path_loop decode_name decode_string tree transaction root_node is_leaf_node string string_length
                         string_index' (record_identifier directory_record) (Some directory_record))) s
      else (Inr (Some (lookup_identifier, directory_record)), s))"
  by pat_completeness auto
termination
  by (relation "measure (\<lambda>(_, _, _, _, _, _, _, string_length, string_index, _). string_length - string_index)")
    (auto dest!: find_segment_end_later)

declare path_loop.simps [simp del]

definition file_system_btree_get_inode_by_path ::
    "8 decoder \<Rightarrow> 'u::len decoder \<Rightarrow> ('c, 'o) file_system_btree \<Rightarrow> nat \<Rightarrow> 'u word list \<Rightarrow> nat \<Rightarrow> nat
     \<Rightarrow> inode option \<Rightarrow> directory_record option \<Rightarrow> ('c, 'o, (inode \<times> directory_record option) option) name_call" where
  "file_system_btree_get_inode_by_path decode_name decode_string tree parent_identifier string string_length transaction
     inode directory_record =
     (if string_length > SSIZE_MAX then failS RUNTIME_VALUE_EXCEEDS_MAXIMUM
      else if inode \<noteq> None \<or> directory_record \<noteq> None then failS RUNTIME_VALUE_ALREADY_SET
      else
        bindS (on_tree (file_system_btree_get_root_node tree (fs_root_node_block_number tree))) (\<lambda>root.
          case root of
            None \<Rightarrow> returnS None
          | Some root_node \<Rightarrow>
              bindS (liftS (btree_node_is_leaf_node root_node)) (\<lambda>is_leaf_node.
              bindS (liftS (if string_length > 0
                  then bindR (rd string 0) (\<lambda>unit. Inr (if unat unit = SEPARATOR then 1 else 0)) else Inr 0)) (\<lambda>string_index.
              bindS (if string_length = 0 \<or> string_length = 1 then returnS (Some (parent_identifier, None))
                  else path_loop decode_name decode_string tree transaction root_node is_leaf_node string string_length
                    string_index parent_identifier None) (\<lambda>found.
                case found of
                  None \<Rightarrow> returnS None
                | Some (lookup_identifier, directory_record) \<Rightarrow>
                    bindS (on_tree (file_system_btree_get_entry_by_identifier tree lookup_identifier DATA_TYPE_INODE transaction))
                      (\<lambda>entry.
                      case entry of
                        None \<Rightarrow> failS RUNTIME_GET_FAILED
                      | Some (node, None) \<Rightarrow> failS RUNTIME_VALUE_MISSING
                      | Some (node, Some entry) \<Rightarrow>
                          bindS (liftS (read_inode_entry entry)) (\<lambda>inode. returnS (Some (inode, directory_record)))))))))"

definition file_system_btree_get_inode_by_utf8_path where
  "file_system_btree_get_inode_by_utf8_path (copy_from_utf8 :: 8 decoder) =
     file_system_btree_get_inode_by_path copy_from_utf8 copy_from_utf8"

definition file_system_btree_get_inode_by_utf16_path where
  "file_system_btree_get_inode_by_utf16_path (copy_from_utf8 :: 8 decoder) (copy_from_utf16 :: 16 decoder) =
     file_system_btree_get_inode_by_path copy_from_utf8 copy_from_utf16"

end
