(* ===== verification/Name_Consistency.thy ===== *)
theory Name_Consistency
  imports Names
begin

text \<open>
  What the comparison and the hash of names have to do with each other: names that compare equal have
  the same hash, so that comparing hashes first never hides a match. The opposite does not hold, and
  some names that the volume treats as the same do not compare equal.
\<close>

section \<open>Special case folding\<close>

text \<open>The hash replaces some characters by several; that is a function of their decompositions.\<close>

definition special_of_decomposition :: "decomposition_mapping \<Rightarrow> decomposition_mapping" where
  "special_of_decomposition m =
    (if m = [0x49, 0x307] then [0x69, 0x307]
     else if m = [0xdf] then [0x73, 0x73]
     else if m = [0x149] then [0x2bc, 0x6e]
     else if m = [0x391, 0x313, 0x300, 0x345] then [0x3b1, 0x313, 0x300, 0x3b9]
     else if m = [0x391, 0x313, 0x301, 0x345] then [0x3b1, 0x313, 0x301, 0x3b9]
     else if m = [0x391, 0x313, 0x342, 0x345] then [0x3b1, 0x313, 0x342, 0x3b9]
     else if m = [0x391, 0x313, 0x345] then [0x3b1, 0x313, 0x3b9]
     else if m = [0x391, 0x314, 0x300, 0x345] then [0x3b1, 0x314, 0x300, 0x3b9]
     else if m = [0x391, 0x314, 0x301, 0x345] then [0x3b1, 0x314, 0x301, 0x3b9]
     else if m = [0x391, 0x314, 0x342, 0x345] then [0x3b1, 0x314, 0x342, 0x3b9]
     else if m = [0x391, 0x314, 0x345] then [0x3b1, 0x314, 0x3b9]
     else if m = [0x391, 0x345] then [0x3b1, 0x3b9]
     else if m = [0x397, 0x313, 0x300, 0x345] then [0x3b7, 0x313, 0x300, 0x3b9]
     else if m = [0x397, 0x313, 0x301, 0x345] then [0x3b7, 0x313, 0x301, 0x3b9]
     else if m = [0x397, 0x313, 0x342, 0x345] then [0x3b7, 0x313, 0x342, 0x3b9]
     else if m = [0x397, 0x313, 0x345] then [0x3b7, 0x313, 0x3b9]
     else if m = [0x397, 0x314, 0x300, 0x345] then [0x3b7, 0x314, 0x300, 0x3b9]
     else if m = [0x397, 0x314, 0x301, 0x345] then [0x3b7, 0x314, 0x301, 0x3b9]
     else if m = [0x397, 0x314, 0x342, 0x345] then [0x3b7, 0x314, 0x342, 0x3b9]
     else if m = [0x397, 0x314, 0x345] then [0x3b7, 0x314, 0x3b9]
     else if m = [0x397, 0x345] then [0x3b7, 0x3b9]
     else if m = [0x3a9, 0x313, 0x300, 0x345] then [0x3c9, 0x313, 0x300, 0x3b9]
     else if m = [0x3a9, 0x313, 0x301, 0x345] then [0x3c9, 0x313, 0x301, 0x3b9]
     else if m = [0x3a9, 0x313, 0x342, 0x345] then [0x3c9, 0x313, 0x342, 0x3b9]
     else if m = [0x3a9, 0x313, 0x345] then [0x3c9, 0x313, 0x3b9]
     else if m = [0x3a9, 0x314, 0x300, 0x345] then [0x3c9, 0x314, 0x300, 0x3b9]
     else if m = [0x3a9, 0x314, 0x301, 0x345] then [0x3c9, 0x314, 0x301, 0x3b9]
     else if m = [0x3a9, 0x314, 0x342, 0x345] then [0x3c9, 0x314, 0x342, 0x3b9]
     else if m = [0x3a9, 0x314, 0x345] then [0x3c9, 0x314, 0x3b9]
     else if m = [0x3a9, 0x345] then [0x3c9, 0x3b9]
     else if m = [0x3b1, 0x300, 0x345] then [0x3b1, 0x300, 0x3b9]
     else if m = [0x3b1, 0x301, 0x345] then [0x3b1, 0x301, 0x3b9]
     else if m = [0x3b1, 0x313, 0x300, 0x345] then [0x3b1, 0x313, 0x300, 0x3b9]
     else if m = [0x3b1, 0x313, 0x301, 0x345] then [0x3b1, 0x313, 0x301, 0x3b9]
     else if m = [0x3b1, 0x313, 0x342, 0x345] then [0x3b1, 0x313, 0x342, 0x3b9]
     else if m = [0x3b1, 0x313, 0x345] then [0x3b1, 0x313, 0x3b9]
     else if m = [0x3b1, 0x314, 0x300, 0x345] then [0x3b1, 0x314, 0x300, 0x3b9]
     else if m = [0x3b1, 0x314, 0x301, 0x345] then [0x3b1, 0x314, 0x301, 0x3b9]
     else if m = [0x3b1, 0x314, 0x342, 0x345] then [0x3b1, 0x314, 0x342, 0x3b9]
     else if m = [0x3b1, 0x314, 0x345] then [0x3b1, 0x314, 0x3b9]
     else if m = [0x3b1, 0x342] then [0x3b1, 0x342]
     else if m = [0x3b1, 0x342, 0x345] then [0x3b1, 0x342, 0x3b9]
     else if m = [0x3b1, 0x345] then [0x3b1, 0x3b9]
     else if m = [0x3b7, 0x300, 0x345] then [0x3b7, 0x300, 0x3b9]
     else if m = [0x3b7, 0x301, 0x345] then [0x3b7, 0x301, 0x3b9]
     else if m = [0x3b7, 0x313, 0x300, 0x345] then [0x3b7, 0x313, 0x300, 0x3b9]
     else if m = [0x3b7, 0x313, 0x301, 0x345] then [0x3b7, 0x313, 0x301, 0x3b9]
     else if m = [0x3b7, 0x313, 0x342, 0x345] then [0x3b7, 0x313, 0x342, 0x3b9]
     else if m = [0x3b7, 0x313, 0x345] then [0x3b7, 0x313, 0x3b9]
     else if m = [0x3b7, 0x314, 0x300, 0x345] then [0x3b7, 0x314, 0x300, 0x3b9]
     else if m = [0x3b7, 0x314, 0x301, 0x345] then [0x3b7, 0x314, 0x301, 0x3b9]
     else if m = [0x3b7, 0x314, 0x342, 0x345] then [0x3b7, 0x314, 0x342, 0x3b9]
     else if m = [0x3b7, 0x314, 0x345] then [0x3b7, 0x314, 0x3b9]
     else if m = [0x3b7, 0x342] then [0x3b7, 0x342]
     else if m = [0x3b7, 0x342, 0x345] then [0x3b7, 0x342, 0x3b9]
     else if m = [0x3b7, 0x345] then [0x3b7, 0x3b9]
     else if m = [0x3c9, 0x300, 0x345] then [0x3c9, 0x300, 0x3b9]
     else if m = [0x3c9, 0x301, 0x345] then [0x3c9, 0x301, 0x3b9]
     else if m = [0x3c9, 0x313, 0x300, 0x345] then [0x3c9, 0x313, 0x300, 0x3b9]
     else if m = [0x3c9, 0x313, 0x301, 0x345] then [0x3c9, 0x313, 0x301, 0x3b9]
     else if m = [0x3c9, 0x313, 0x342, 0x345] then [0x3c9, 0x313, 0x342, 0x3b9]
     else if m = [0x3c9, 0x313, 0x345] then [0x3c9, 0x313, 0x3b9]
     else if m = [0x3c9, 0x314, 0x300, 0x345] then [0x3c9, 0x314, 0x300, 0x3b9]
     else if m = [0x3c9, 0x314, 0x301, 0x345] then [0x3c9, 0x314, 0x301, 0x3b9]
     else if m = [0x3c9, 0x314, 0x342, 0x345] then [0x3c9, 0x314, 0x342, 0x3b9]
     else if m = [0x3c9, 0x314, 0x345] then [0x3c9, 0x314, 0x3b9]
     else if m = [0x3c9, 0x342] then [0x3c9, 0x342]
     else if m = [0x3c9, 0x342, 0x345] then [0x3c9, 0x342, 0x3b9]
     else if m = [0x3c9, 0x345] then [0x3c9, 0x3b9]
     else if m = [0x587] then [0x565, 0x582]
     else if m = [0x1e9a] then [0x61, 0x2be]
     else if m = [0xfb00] then [0x66, 0x66]
     else if m = [0xfb01] then [0x66, 0x69]
     else if m = [0xfb02] then [0x66, 0x6c]
     else if m = [0xfb03] then [0x66, 0x66, 0x69]
     else if m = [0xfb04] then [0x66, 0x66, 0x6c]
     else if m = [0xfb05] then [0x73, 0x74]
     else if m = [0xfb06] then [0x73, 0x74]
     else if m = [0xfb13] then [0x574, 0x576]
     else if m = [0xfb14] then [0x574, 0x565]
     else if m = [0xfb15] then [0x574, 0x56b]
     else if m = [0xfb16] then [0x57e, 0x576]
     else if m = [0xfb17] then [0x574, 0x56d]
     else m)"

text \<open>A check of every row of a table with the character of the row.\<close>

fun check_from :: "(nat \<Rightarrow> 'a \<Rightarrow> bool) \<Rightarrow> nat \<Rightarrow> 'a list \<Rightarrow> bool" where
  "check_from P c [] = True"
| "check_from P c (m # ms) = (P c m \<and> check_from P (c + 1) ms)"

definition special_mapping :: "nat \<Rightarrow> decomposition_mapping \<Rightarrow> decomposition_mapping" where
  "special_mapping c m =
     (if 0x1f80 \<le> c \<and> c \<le> 0x1faf then special_case_folding_00001f80 ! (c - 0x1f80)
      else case special_case_folding c of Some x \<Rightarrow> x | None \<Rightarrow> m)"

text \<open>A superset of the characters with special mappings, and of those that start their decompositions.\<close>

definition maybe_special :: "nat \<Rightarrow> bool" where
  "maybe_special c \<longleftrightarrow> c = 0x49 \<or> c = 0xdf \<or> c = 0x130 \<or> c = 0x149 \<or> 0x391 \<le> c \<and> c \<le> 0x3c9 \<or> c = 0x587 \<or>
     c = 0x1e9a \<or> 0x1f80 \<le> c \<and> c \<le> 0x1ffc \<or> 0xfb00 \<le> c \<and> c \<le> 0xfb17"

definition row_ok :: "nat \<Rightarrow> decomposition_mapping \<Rightarrow> bool" where
  "row_ok c m \<longleftrightarrow> hd m \<noteq> 0 \<and> (\<not> maybe_special c \<and> \<not> maybe_special (hd m) \<or> special_mapping c m = special_of_decomposition m)"

lemma special_rows:
  "check_from row_ok 0xc0 decomposition_mappings_0x000000c0"
  "check_from row_ok 0x1a0 decomposition_mappings_0x000001a0"
  "check_from row_ok 0x340 decomposition_mappings_0x00000340"
  "check_from row_ok 0x2120 decomposition_mappings_0x00002120"
  "check_from row_ok 0x1e00 decomposition_mappings_0x00001e00"
  by (simp add: decomposition_tables row_ok_def maybe_special_def,
      simp add: special_mapping_def special_of_decomposition_def special_case_folding_00001f80_def special_case_folding_def)+

lemma other_rows:
  "check_from row_ok 0x400 decomposition_mappings_0x00000400"
  "check_from row_ok 0x620 decomposition_mappings_0x00000620"
  "check_from row_ok 0x928 decomposition_mappings_0x00000928"
  "check_from row_ok 0xa30 decomposition_mappings_0x00000a30"
  "check_from row_ok 0xb48 decomposition_mappings_0x00000b48"
  "check_from row_ok 0xc48 decomposition_mappings_0x00000c48"
  "check_from row_ok 0xd48 decomposition_mappings_0x00000d48"
  "check_from row_ok 0xf40 decomposition_mappings_0x00000f40"
  "check_from row_ok 0x1b00 decomposition_mappings_0x00001b00"
  "check_from row_ok 0x2200 decomposition_mappings_0x00002200"
  "check_from row_ok 0x2ad8 decomposition_mappings_0x00002ad8"
  "check_from row_ok 0x3048 decomposition_mappings_0x00003048"
  "check_from row_ok 0xf900 decomposition_mappings_0x0000f900"
  "check_from row_ok 0xac00 decomposition_mappings_0x0000ac00"
  "check_from row_ok 0xd7a0 decomposition_mappings_0x0000d7a0"
  "check_from row_ok 0xfb18 decomposition_mappings_0x0000fb18"
  "check_from row_ok 0x11098 decomposition_mappings_0x00011098"
  "check_from row_ok 0x11128 decomposition_mappings_0x00011128"
  "check_from row_ok 0x11348 decomposition_mappings_0x00011348"
  "check_from row_ok 0x114b8 decomposition_mappings_0x000114b8"
  "check_from row_ok 0x115b8 decomposition_mappings_0x000115b8"
  "check_from row_ok 0x1d158 decomposition_mappings_0x0001d158"
  "check_from row_ok 0x1d1b8 decomposition_mappings_0x0001d1b8"
  "check_from row_ok 0x2f800 decomposition_mappings_0x0002f800"
  by (simp_all add: decomposition_tables row_ok_def maybe_special_def)

lemma decomposition_rows: "list_all (\<lambda>(f, l, ms). check_from row_ok f ms) decomposition_ranges"
  by (simp only: decomposition_ranges_def list.pred_inject case_prod_conv special_rows other_rows simp_thms)

lemma check_from_nth: "check_from P c ms \<Longrightarrow> i < length ms \<Longrightarrow> P (c + i) (ms ! i)"
proof (induction P c ms arbitrary: i rule: check_from.induct)
  case (2 P c m ms)
  then show ?case by (cases i) auto
qed simp

lemma lookup_mapping_cases:
  assumes "ranges_covered ranges"
  shows "(lookup_mapping ranges c d = Inr d \<and> (\<forall>(f, l, ms)\<in>set ranges. \<not> (f \<le> c \<and> c \<le> l))) \<or>
    (\<exists>(f, l, ms)\<in>set ranges. f \<le> c \<and> c - f < length ms \<and> lookup_mapping ranges c d = Inr (ms ! (c - f)))"
  using assms
proof (induction ranges)
  case (Cons r rs)
  obtain f l ms where r: "r = (f, l, ms)" by (cases r)
  show ?case
  proof (cases "f \<le> c \<and> c \<le> l")
    case True
    then have "c - f < length ms" using Cons.prems by (auto simp: r ranges_covered_def)
    then show ?thesis using True by (auto simp: r)
  next
    case False
    then show ?thesis using Cons by (auto simp: r ranges_covered_def)
  qed
qed simp

lemma unlisted_rows:
  assumes "\<not> (0xc0 \<le> c \<and> c \<le> 0x17f)" "\<not> (0x1e00 \<le> c \<and> c \<le> 0x2007)"
  shows "special_mapping c [c] = special_of_decomposition [c]"
proof -
  have "(0x1f80 \<le> c \<and> c \<le> 0x1faf) = False" using assms(2) by auto
  moreover have "c \<noteq> k" if "k \<in> {0xdf, 0x130, 0x149, 0x1e9a} \<or> 0x1f80 \<le> k \<and> k \<le> 0x1ffc" for k using assms that by auto
  ultimately show ?thesis
    by (simp only: special_mapping_def if_False)
      (simp add: special_of_decomposition_def special_case_folding_def)
qed

lemma special_superset:
  "special_case_folding c \<noteq> None \<Longrightarrow> maybe_special c"
  "special_of_decomposition m \<noteq> m \<Longrightarrow> maybe_special (hd m)"
  by (simp_all add: special_case_folding_def special_of_decomposition_def maybe_special_def split: if_split_asm)

lemma not_special: "\<not> maybe_special c \<Longrightarrow> special_mapping c m = m"
  using special_superset(1) [of c] by (auto simp: special_mapping_def maybe_special_def split: option.split)

lemma decomposition_uniform:
  obtains m where "name_get_decomposition_mapping c = Inr m" "special_mapping c m = special_of_decomposition m" "hd m = 0 \<longleftrightarrow> c = 0"
proof -
  let ?r = "lookup_mapping decomposition_ranges c [c]"
  consider (default) "?r = Inr [c]" "\<forall>(f, l, ms)\<in>set decomposition_ranges. \<not> (f \<le> c \<and> c \<le> l)"
    | (row) f l ms where "(f, l, ms) \<in> set decomposition_ranges" "f \<le> c" "c - f < length ms" "?r = Inr (ms ! (c - f))"
    using lookup_mapping_cases [OF decomposition_covered, of c "[c]"] by fast
  then show ?thesis
  proof cases
    case default
    have "\<not> (0xc0 \<le> c \<and> c \<le> 0x17f)" "\<not> (0x1e00 \<le> c \<and> c \<le> 0x2007)"
      using default(2) by (simp_all add: decomposition_ranges_def)
    from unlisted_rows [OF this] default(1) show ?thesis
      by (intro that [of "[c]"]) (simp_all add: name_get_decomposition_mapping_def)
  next
    case row
    have "check_from row_ok f ms" using decomposition_rows row(1) by (auto simp: list_all_iff)
    from check_from_nth [OF this row(3)] row(2) have ok: "row_ok c (ms ! (c - f))" by simp
    have uniform: "special_mapping c (ms ! (c - f)) = special_of_decomposition (ms ! (c - f))"
    proof (cases "maybe_special c \<or> maybe_special (hd (ms ! (c - f)))")
      case True
      then show ?thesis using ok by (auto simp: row_ok_def)
    next
      case False
      then have "\<not> maybe_special c" "\<not> maybe_special (hd (ms ! (c - f)))" by simp_all
      then show ?thesis using not_special special_superset(2) by metis
    qed
    have "list_all (\<lambda>(f, l, ms). 0 < f) decomposition_ranges" by (simp add: decomposition_ranges_def)
    then have "0 < c" using row(1,2) by (auto simp: list_all_iff)
    then show ?thesis using that ok uniform row(4) by (auto simp: row_ok_def name_get_decomposition_mapping_def)
  qed
qed

section \<open>Equal names\<close>

lemma case_folding_rows: "list_all (\<lambda>(f, l, ms). 0 < f \<and> list_all (\<lambda>m. m \<noteq> 0) ms) case_folding_ranges"
  by (simp add: case_folding_ranges_def case_folding_tables)

lemma case_folding_zero:
  obtains d where "name_get_case_folding_mapping c = Inr d" "d = 0 \<longleftrightarrow> c = 0"
proof -
  let ?r = "lookup_mapping case_folding_ranges c c"
  consider (default) "?r = Inr c"
    | (row) f l ms where "(f, l, ms) \<in> set case_folding_ranges" "f \<le> c" "c - f < length ms" "?r = Inr (ms ! (c - f))"
    using lookup_mapping_cases [OF case_folding_covered, of c c] by fast
  then show ?thesis
  proof cases
    case row
    have "0 < f" "\<forall>m\<in>set ms. m \<noteq> 0" using case_folding_rows row(1) by (auto simp: list_all_iff)
    then have "ms ! (c - f) \<noteq> 0" "c \<noteq> 0" using row(2,3) nth_mem [OF row(3)] by auto
    then show ?thesis using that row(4) by (simp add: name_get_case_folding_mapping_def)
  qed (use that in \<open>simp add: name_get_case_folding_mapping_def\<close>)
qed

lemma mapping_of_character:
  "hd (folded_decomposition fold_case c) = 0 \<longleftrightarrow> c = 0"
  "hash_mapping fold_case c =
     (if fold_case = 0 then folded_decomposition fold_case c else special_of_decomposition (folded_decomposition fold_case c))"
proof -
  obtain d where d: "name_get_case_folding_mapping c = Inr d" "d = 0 \<longleftrightarrow> c = 0" by (rule case_folding_zero)
  obtain m where m: "name_get_decomposition_mapping c = Inr m" "hd m = 0 \<longleftrightarrow> c = 0" using decomposition_uniform by metis
  obtain md where md: "name_get_decomposition_mapping d = Inr md" "special_mapping d md = special_of_decomposition md"
    "hd md = 0 \<longleftrightarrow> d = 0" by (rule decomposition_uniform)
  have length: "length special_case_folding_00001f80 = 48" by (simp add: special_case_folding_00001f80_def)
  have special: "name_hash_get_mapping fold_case c = Inr (special_mapping d md)" if "fold_case \<noteq> 0"
    using that d(1) md(1) length by (simp add: name_hash_get_mapping_def special_mapping_def split: option.split) auto
  show "hd (folded_decomposition fold_case c) = 0 \<longleftrightarrow> c = 0"
    using d m md by (simp add: folded_decomposition_def name_get_mapping_def)
  show "hash_mapping fold_case c =
     (if fold_case = 0 then folded_decomposition fold_case c else special_of_decomposition (folded_decomposition fold_case c))"
    using special d(1) m(1) md(1,2)
    by (cases "fold_case = 0") (simp_all add: hash_mapping_def folded_decomposition_def name_get_mapping_def name_hash_get_mapping_def)
qed

lemma equal_names_stream:
  assumes "map (folded_decomposition fold_case) ss = map (folded_decomposition fold_case) ns"
  shows "utf32_stream fold_case ss = utf32_stream fold_case ns"
proof -
  have "list_all2 (\<lambda>s n. folded_decomposition fold_case s = folded_decomposition fold_case n) ss ns"
    using assms by (simp add: list_all2_conv_all_nth list_eq_iff_nth_eq)
  then have "map (hash_mapping fold_case) (takeWhile (\<lambda>c. c \<noteq> 0) ss) = map (hash_mapping fold_case) (takeWhile (\<lambda>c. c \<noteq> 0) ns)"
  proof (induction rule: list_all2_induct)
    case (Cons s ss n ns)
    have "0 < s \<longleftrightarrow> 0 < n" using Cons.hyps(1) mapping_of_character(1) by (metis neq0_conv)
    moreover have "hash_mapping fold_case s = hash_mapping fold_case n"
      using Cons.hyps(1) unfolding mapping_of_character(2) by metis
    ultimately show ?case using Cons.IH by simp
  qed simp
  then show ?thesis by (simp add: utf32_stream_def)
qed

section \<open>UTF-8\<close>

text \<open>The sequences of one to three bytes of UTF-8, for the witnesses.\<close>

definition utf8_decoder :: "8 decoder" where
  "utf8_decoder units =
     (case map unat units of
        [] \<Rightarrow> None
      | b # bs \<Rightarrow>
          if b < 0x80 then Some (b, 0)
          else if 0xc2 \<le> b \<and> b < 0xe0 then (case bs of b1 # _ \<Rightarrow> Some ((b - 0xc0) * 64 + (b1 - 0x80), 1) | _ \<Rightarrow> None)
          else if 0xe0 \<le> b \<and> b < 0xf0 then
            (case bs of
               b1 # b2 # _ \<Rightarrow>
                 let c = ((b - 0xe0) * 64 + (b1 - 0x80)) * 64 + (b2 - 0x80)
                 in if c < 0x800 then None else Some (c, 2)
             | _ \<Rightarrow> None)
          else None)"

lemma utf8_samples:
  "characters utf8_decoder [0xc3, 0xa9] = Some [0xe9]" "characters utf8_decoder [0x65, 0xcc, 0x81] = Some [0x65, 0x301]"
  "characters utf8_decoder [0xc3, 0x9f] = Some [0xdf]" "characters utf8_decoder [0x73, 0x73] = Some [0x73, 0x73]"
  "characters utf8_decoder [0x41] = Some [0x41]" "characters utf8_decoder [0x61] = Some [0x61]"
  by (simp_all add: characters.simps utf8_decoder_def)

lemma sample_mappings:
  "folded_decomposition 0 0xe9 = [0x65, 0x301]" "folded_decomposition 0 0x65 = [0x65]" "folded_decomposition 0 0x301 = [0x301]"
  "folded_decomposition 1 0xdf = [0xdf]" "folded_decomposition 1 0x73 = [0x73]"
  "folded_decomposition 1 0x41 = [0x61]" "folded_decomposition 1 0x61 = [0x61]"
  by (simp_all add: folded_decomposition_def name_get_mapping_def name_get_case_folding_mapping_def name_get_decomposition_mapping_def
      case_folding_ranges_def decomposition_ranges_def
      case_folding_mappings_0x00000040_def case_folding_mappings_0x00000040_part1_def case_folding_mappings_0x00000040_part2_def
      decomposition_mappings_0x000000c0_def decomposition_mappings_0x000000c0_part1_def decomposition_mappings_0x000000c0_part2_def)

text \<open>The hash of the name of the record in the sample tree.\<close>

lemma sample_hash: "name_hash_of 0 [0x61] = 1988076"
proof -
  have four: "(4::nat) = Suc (Suc (Suc (Suc 0)))" by simp
  have bytes: "le_encode 4 97 = [97, 0, 0, 0]" unfolding four by simp
  have bits: "byte_bits 97 = [True, False, False, False, False, True, True, False]"
    "byte_bits 0 = [False, False, False, False, False, False, False, False]"
    by (simp_all add: byte_bits_def upt_conv_Cons)
  have "folded_decomposition 0 0x61 = [0x61]"
    by (simp add: folded_decomposition_def name_get_mapping_def name_get_decomposition_mapping_def decomposition_ranges_def)
  then have "utf32_stream 0 [0x61] = [97, 0, 0, 0]" by (simp add: utf32_stream_def mapping_of_character(2) bytes)
  then have "name_hash_of 0 [0x61] = unat (crc32_register 0xffffffff [True, False, False, False, False, True, True, False,
      False, False, False, False, False, False, False, False, False, False, False, False, False, False, False, False,
      False, False, False, False, False, False, False, False] AND 0x003fffff)"
    by (simp add: name_hash_of_def bits)
  then show ?thesis by (simp add: crc32_register_def crc32_shift_def)
qed

section \<open>Properties\<close>

text \<open>C18. A name of a record is compared with a string character by character,
  each character replaced as a whole by its canonical decomposition, after case folding when that is asked for: the
  result is the place of the string in a linear order of the sequences of these decompositions, equal exactly when the two
  have the same decompositions one by one. Where one character ends and the next one starts counts, so that a composed
  character is not equal to its decomposition spelled out. The encodings of name and string do not matter, and a zero at the
  end is ignored.\<close>

theorem name_compare_correct:
  assumes "characters decode_name (trimmed name) = Some ns" "characters decode_string (trimmed string) = Some ss"
    and "name \<noteq> []" "length name \<le> SSIZE_MAX" "length string \<le> SSIZE_MAX"
  shows "name_compare_with_string decode_name decode_string name (length name) string (length string) fold_case =
      Inr (compare_order (name_sort_key fold_case ss) (name_sort_key fold_case ns)) \<and>
    (name_compare_with_string decode_name decode_string name (length name) string (length string) fold_case = Inr COMPARE_EQUAL
      \<longleftrightarrow> map (folded_decomposition fold_case) ss = map (folded_decomposition fold_case) ns)"
  using name_compare_characters [OF assms] compare_characters_order compare_characters_equal by simp

theorem name_compare_correct_witness:
  "name_compare_with_utf8_string utf8_decoder [0x61, 0] 2 [0x41] 1 1 = Inr COMPARE_EQUAL"
proof -
  have "trimmed [0x61, 0 :: 8 word] = [0x61]" "trimmed [0x41 :: 8 word] = [0x41]" by (simp_all add: trimmed_def)
  then show ?thesis
    using name_compare_correct [of utf8_decoder "[0x61, 0]" "[0x61]" utf8_decoder "[0x41]" "[0x41]" 1, THEN conjunct2]
    by (simp add: utf8_samples sample_mappings [simplified] SSIZE_MAX_def name_compare_with_utf8_string_def) (simp add: numeral_2_eq_2)
qed

text \<open>C19. The hash of a name is the lower 22 bits of the CRC-32C of the
  little-endian UTF-32 form of its characters, case folded when that is asked for and decomposed, up to the first
  zero character. The table of the CRC-32 may have been computed before or not.\<close>

theorem name_hash_correct:
  assumes "crc32_globals_inv g" "characters decode string = Some cs"
  shows "\<exists>g'. crc32_globals_inv g' \<and> name_hash_calculate_from_string decode string (length string) fold_case g =
    Inr (unat (crc32_register 0xffffffff (bytes_bits (utf32_stream fold_case cs)) AND 0x003fffff), g')"
proof -
  have "crc32_globals_inv (if crc32_table_computed g then g else checksum_initialize_crc32_table 0x82f63b78 g)"
    using assms(1) crc32_globals_inv_initialize by simp
  then show ?thesis using name_hash_calculate_value [OF assms, of fold_case] by (auto simp: name_hash_of_def)
qed

theorem name_hash_correct_witness:
  "\<exists>h g'. name_hash_calculate_from_utf8_string utf8_decoder [0xc3, 0xa9] 2 0 crc32_globals_start = Inr (h, g')"
proof -
  have "crc32_globals_inv crc32_globals_start" by (simp add: crc32_globals_inv_def crc32_globals_start_def)
  from name_hash_correct [OF this utf8_samples(1), of 0] show ?thesis
    by (auto simp: name_hash_calculate_from_utf8_string_def numeral_2_eq_2)
qed

text \<open>Names that compare equal have the same hash, with and without
  case folding, although the hash folds some characters to several and the comparison does not: comparing
  the hashes first never hides a match.\<close>

theorem equal_names_equal_hashes:
  assumes "crc32_globals_inv g" "characters decode_name name = Some ns" "characters decode_string string = Some ss"
    and "name \<noteq> []" "trimmed name = name" "trimmed string = string" "length name \<le> SSIZE_MAX" "length string \<le> SSIZE_MAX"
    and "name_compare_with_string decode_name decode_string name (length name) string (length string) fold_case = Inr COMPARE_EQUAL"
  shows "\<exists>h g'. name_hash_calculate_from_string decode_name name (length name) fold_case g = Inr (h, g') \<and>
    name_hash_calculate_from_string decode_string string (length string) fold_case g = Inr (h, g')"
proof -
  have "map (folded_decomposition fold_case) ss = map (folded_decomposition fold_case) ns"
    using assms name_compare_characters [of decode_name name ns decode_string string ss fold_case] compare_characters_equal by simp
  from equal_names_stream [OF this] show ?thesis
    using name_hash_calculate_value [OF assms(1,2)] name_hash_calculate_value [OF assms(1,3)] by (simp add: name_hash_of_def)
qed

theorem equal_names_equal_hashes_witness:
  "\<exists>h g'. name_hash_calculate_from_utf8_string utf8_decoder [0x61] 1 1 crc32_globals_start = Inr (h, g') \<and>
    name_hash_calculate_from_utf8_string utf8_decoder [0x41] 1 1 crc32_globals_start = Inr (h, g')"
proof -
  have g: "crc32_globals_inv crc32_globals_start" by (simp add: crc32_globals_inv_def crc32_globals_start_def)
  have trimmed: "trimmed [0x61 :: 8 word] = [0x61]" "trimmed [0x41 :: 8 word] = [0x41]" by (simp_all add: trimmed_def)
  have "name_compare_with_string utf8_decoder utf8_decoder [0x61] (length [0x61 :: 8 word]) [0x41] (length [0x41 :: 8 word]) 1 = Inr COMPARE_EQUAL"
    using name_compare_characters [of utf8_decoder "[0x61]" "[0x61]" utf8_decoder "[0x41]" "[0x41]" 1] trimmed
    by (simp add: utf8_samples sample_mappings SSIZE_MAX_def compare_characters_equal del: One_nat_def)
  from equal_names_equal_hashes [OF g utf8_samples(6,5) _ trimmed _ _ this] show ?thesis
    by (auto simp: SSIZE_MAX_def name_hash_calculate_from_utf8_string_def)
qed

text \<open>A character in a name takes part in the hash as the characters that it is mapped to, when these stand for themselves.\<close>

lemma mapped_to_themselves: "\<forall>d\<in>set ds. hash_mapping fold_case d = [d] \<Longrightarrow> concat (map (hash_mapping fold_case) ds) = ds"
  by (induction ds) auto

lemma utf32_stream_spelled:
  assumes "c \<noteq> 0" "\<forall>d\<in>set (hash_mapping fold_case c). d \<noteq> 0 \<and> hash_mapping fold_case d = [d]"
  shows "utf32_stream fold_case (pre @ hash_mapping fold_case c @ suf) = utf32_stream fold_case (pre @ c # suf)"
proof (cases "0 \<in> set pre")
  case True
  then show ?thesis by (auto simp: utf32_stream_def takeWhile_append1)
next
  case False
  then have "\<And>x. x \<in> set pre \<Longrightarrow> x \<noteq> 0" by metis
  then show ?thesis
    using assms mapped_to_themselves [of "hash_mapping fold_case c" fold_case] by (simp add: utf32_stream_def takeWhile_append2)
qed

text \<open>C20. The comparison is weaker than the hash: take any name with a
  character whose mapping in the hash has several characters that stand for themselves there, as an accented letter has or,
  with case folding, a sharp s. With that mapping spelled out instead the name has the same hash, but does not compare
  equal, so that a file is not found by the other form of its name.\<close>

theorem names_not_compared_normalized:
  assumes "crc32_globals_inv g" "c \<noteq> 0" "2 \<le> length (hash_mapping fold_case c)"
    and "\<forall>d\<in>set (hash_mapping fold_case c). d \<noteq> 0 \<and> hash_mapping fold_case d = [d]"
    and "characters decode composed = Some (pre @ c # suf)"
    and "characters decode spelled = Some (pre @ hash_mapping fold_case c @ suf)"
    and "\<forall>n\<in>{composed, spelled}. n \<noteq> [] \<and> trimmed n = n \<and> length n \<le> SSIZE_MAX"
  shows "(\<exists>h g'. name_hash_calculate_from_string decode composed (length composed) fold_case g = Inr (h, g') \<and>
        name_hash_calculate_from_string decode spelled (length spelled) fold_case g = Inr (h, g')) \<and>
    (\<exists>r\<in>{COMPARE_LESS, COMPARE_GREATER}.
        name_compare_with_string decode decode spelled (length spelled) composed (length composed) fold_case = Inr r)"
proof
  show "\<exists>h g'. name_hash_calculate_from_string decode composed (length composed) fold_case g = Inr (h, g') \<and>
      name_hash_calculate_from_string decode spelled (length spelled) fold_case g = Inr (h, g')"
    using name_hash_calculate_value [OF assms(1,5)] name_hash_calculate_value [OF assms(1,6)] utf32_stream_spelled [OF assms(2,4)]
    by (simp add: name_hash_of_def)
  let ?ss = "pre @ c # suf" and ?ns = "pre @ hash_mapping fold_case c @ suf"
  have "length ?ss \<noteq> length ?ns" using assms(3) by simp
  then have "compare_characters fold_case ?ss ?ns \<noteq> COMPARE_EQUAL"
    unfolding compare_characters_equal by (metis length_map)
  then have "compare_characters fold_case ?ss ?ns \<in> {COMPARE_LESS, COMPARE_GREATER}"
    by (cases "compare_characters fold_case ?ss ?ns") auto
  then show "\<exists>r\<in>{COMPARE_LESS, COMPARE_GREATER}.
      name_compare_with_string decode decode spelled (length spelled) composed (length composed) fold_case = Inr r"
    using assms(5-7) name_compare_characters [of decode spelled ?ns decode composed ?ss fold_case] by simp
qed

text \<open>An accented letter, and a sharp s with case folding.\<close>

lemma sample_hash_mappings:
  "hash_mapping 0 0xe9 = [0x65, 0x301]" "hash_mapping 0 0x65 = [0x65]" "hash_mapping 0 0x301 = [0x301]"
  "hash_mapping 1 0xdf = [0x73, 0x73]" "hash_mapping 1 0x73 = [0x73]"
  using sample_mappings by (simp_all add: mapping_of_character(2) special_of_decomposition_def del: One_nat_def)

theorem names_not_compared_normalized_witness:
  "(\<exists>r\<in>{COMPARE_LESS, COMPARE_GREATER}. name_compare_with_utf8_string utf8_decoder [0x65, 0xcc, 0x81] 3 [0xc3, 0xa9] 2 0 = Inr r) \<and>
   (\<exists>r\<in>{COMPARE_LESS, COMPARE_GREATER}. name_compare_with_utf8_string utf8_decoder [0x73, 0x73] 2 [0xc3, 0x9f] 2 1 = Inr r)"
proof -
  have g: "crc32_globals_inv crc32_globals_start" by (simp add: crc32_globals_inv_def crc32_globals_start_def)
  have names: "\<forall>n\<in>{[0xc3, 0xa9], [0x65, 0xcc, 0x81 :: 8 word]}. n \<noteq> [] \<and> trimmed n = n \<and> length n \<le> SSIZE_MAX"
    "\<forall>n\<in>{[0xc3, 0x9f], [0x73, 0x73 :: 8 word]}. n \<noteq> [] \<and> trimmed n = n \<and> length n \<le> SSIZE_MAX"
    by (simp_all add: trimmed_def SSIZE_MAX_def)
  have chars: "characters utf8_decoder [0xc3, 0xa9] = Some ([] @ 0xe9 # [])"
    "characters utf8_decoder [0x65, 0xcc, 0x81] = Some ([] @ hash_mapping 0 0xe9 @ [])"
    "characters utf8_decoder [0xc3, 0x9f] = Some ([] @ 0xdf # [])"
    "characters utf8_decoder [0x73, 0x73] = Some ([] @ hash_mapping 1 0xdf @ [])"
    by (simp_all only: utf8_samples(1-4) sample_hash_mappings append_Nil append_Nil2)
  have "\<exists>r\<in>{COMPARE_LESS, COMPARE_GREATER}. name_compare_with_string utf8_decoder utf8_decoder [0x65, 0xcc, 0x81] (length [0x65, 0xcc, 0x81 :: 8 word])
      [0xc3, 0xa9] (length [0xc3, 0xa9 :: 8 word]) 0 = Inr r"
    by (rule names_not_compared_normalized [OF g _ _ _ chars(1,2) names(1), THEN conjunct2]) (simp_all add: sample_hash_mappings)
  moreover have "\<exists>r\<in>{COMPARE_LESS, COMPARE_GREATER}. name_compare_with_string utf8_decoder utf8_decoder [0x73, 0x73] (length [0x73, 0x73 :: 8 word])
      [0xc3, 0x9f] (length [0xc3, 0x9f :: 8 word]) 1 = Inr r"
    by (rule names_not_compared_normalized [OF g _ _ _ chars(3,4) names(2), THEN conjunct2]) (simp_all add: sample_hash_mappings del: One_nat_def)
  ultimately show ?thesis
    by (simp only: name_compare_with_utf8_string_def list.size numeral_2_eq_2 numeral_3_eq_3 add_0 add_Suc_right add_0_right)
qed

end
