(* ===== verification/File_System_Name_Lookup.thy ===== *)
theory File_System_Name_Lookup
  imports File_System_Names Name_Consistency
begin

text \<open>
  What a lookup by name finds, in a tree whose directory records are in the order of their names, and
  what a path resolves to.
\<close>

section \<open>The order of the records of a directory\<close>

text \<open>
  The place of an entry with respect to a name in a directory: its key and, for a record of the
  directory, 0, 1 or 2 when it is before, at or behind the name; 3 when it cannot be compared.
\<close>

definition entry_compare :: "name_comparison \<Rightarrow> nat \<Rightarrow> btree_entry \<Rightarrow> compare_result result" where
  "entry_compare compare fold_case e = bindR (read_directory_record_key e) (\<lambda>r. compare r fold_case)"

definition name_rank :: "compare_result result \<Rightarrow> nat" where
  "name_rank r = (case r of Inl e \<Rightarrow> 3 | Inr COMPARE_GREATER \<Rightarrow> 0 | Inr COMPARE_EQUAL \<Rightarrow> 1 | Inr COMPARE_LESS \<Rightarrow> 2)"

definition name_order :: "name_comparison \<Rightarrow> nat \<Rightarrow> btree_entry \<Rightarrow> nat \<times> nat \<times> nat" where
  "name_order compare parent e = (fst (fs_key e), snd (fs_key e),
     if fs_key e = (parent, DATA_TYPE_DIRECTORY_RECORD) then name_rank (entry_compare compare 0 e) else 0)"

text \<open>
  The records of a directory can be compared with the name, at most one has it, and that does not
  depend on the case folding of the volume.
\<close>

definition names_well :: "name_comparison \<Rightarrow> nat \<Rightarrow> nat \<Rightarrow> btree_entry list \<Rightarrow> bool" where
  "names_well compare fold_case parent es \<longleftrightarrow>
     (\<forall>e\<in>set es. fs_key e = (parent, DATA_TYPE_DIRECTORY_RECORD) \<longrightarrow>
        (\<exists>r. entry_compare compare 0 e = Inr r) \<and> (\<exists>r. entry_compare compare fold_case e = Inr r) \<and>
        (entry_compare compare fold_case e = Inr COMPARE_EQUAL \<longleftrightarrow> entry_compare compare 0 e = Inr COMPARE_EQUAL)) \<and>
     count_list (map (name_order compare parent) es) (parent, DATA_TYPE_DIRECTORY_RECORD, 1) \<le> 1"

definition has_name :: "name_comparison \<Rightarrow> nat \<Rightarrow> nat \<Rightarrow> btree_entry \<Rightarrow> bool" where
  "has_name compare fold_case parent e \<longleftrightarrow>
     fs_key e = (parent, DATA_TYPE_DIRECTORY_RECORD) \<and> entry_compare compare fold_case e = Inr COMPARE_EQUAL"

lemma name_rank_simps:
  "name_rank r \<le> 3" "name_rank r = 1 \<longleftrightarrow> r = Inr COMPARE_EQUAL" "name_rank r = 3 \<longleftrightarrow> (\<exists>e. r = Inl e)"
  "name_rank r = 2 \<longleftrightarrow> r = Inr COMPARE_LESS"
  by (auto simp: name_rank_def split: sum.splits compare_result.splits)

section \<open>Search in a node\<close>

lemma scan_leaf_by_name_find:
  assumes "\<forall>e\<in>set (entries_array n). fs_keyed e" "parent < 2 ^ 60" "i \<le> length (entries_array n)"
    and "\<forall>e\<in>set (entries_array n). fs_key e = (parent, DATA_TYPE_DIRECTORY_RECORD) \<longrightarrow> (\<exists>r. entry_compare compare fold_case e = Inr r)"
  shows "scan_leaf_by_name compare fold_case n parent [i..<length (entries_array n)] =
    (case find (has_name compare fold_case parent) (drop i (entries_array n)) of
       None \<Rightarrow> Inr None
     | Some e \<Rightarrow> bindR (read_directory_record_entry DATA_TYPE_DIRECTORY_RECORD e) (\<lambda>r. Inr (Some r)))"
  using assms(3)
proof (induction i rule: inc_induct)
  case (step i)
  let ?e = "entries_array n ! i"
  have mem: "?e \<in> set (entries_array n)" using step.hyps(2) by simp
  obtain k where k: "key_data ?e = Some k" "8 \<le> key_data_size ?e" "8 \<le> length k"
    using assms(1) mem by (meson fs_keyedE)
  have match: "le_value (take 8 k) = (push_bit 60 DATA_TYPE_DIRECTORY_RECORD OR parent) \<longleftrightarrow> fs_key ?e = (parent, DATA_TYPE_DIRECTORY_RECORD)"
    using lookup_identifier_key [OF assms(2), of "le_value (take 8 k)"] by (simp add: fs_key_def k(1))
  have get: "btree_node_get_entry_by_index n i = Inr ?e" using step.hyps(2) by (simp add: btree_node_get_entry_by_index_def)
  have rd: "rd_u64_le k 0 = Inr (le_value (take 8 k))" using k(3) by simp
  have unfold: "scan_leaf_by_name compare fold_case n parent (i # [Suc i..<length (entries_array n)]) =
     (if fs_key ?e = (parent, DATA_TYPE_DIRECTORY_RECORD) then
        bindR (read_directory_record_key ?e) (\<lambda>r. bindR (compare r fold_case) (\<lambda>c.
          if c = COMPARE_EQUAL then bindR (directory_record_read_value_data r (value_data ?e) (value_data_size ?e)) (\<lambda>r. Inr (Some r))
          else scan_leaf_by_name compare fold_case n parent [Suc i..<length (entries_array n)]))
      else scan_leaf_by_name compare fold_case n parent [Suc i..<length (entries_array n)])"
    using k(2) unfolding scan_leaf_by_name.simps get bindR_simps k(1) option.case rd match by simp
  show ?case
  proof (cases "fs_key ?e = (parent, DATA_TYPE_DIRECTORY_RECORD)")
    case False
    then show ?thesis unfolding scan_index_step [OF step.hyps(2)] unfold using step.IH by (simp add: has_name_def)
  next
    case True
    then obtain c where c: "entry_compare compare fold_case ?e = Inr c" using assms(4) mem by blast
    then obtain r where r: "read_directory_record_key ?e = Inr r" "compare r fold_case = Inr c"
      by (auto simp: entry_compare_def result_simps)
    have "read_directory_record_entry DATA_TYPE_DIRECTORY_RECORD ?e =
        bindR (read_directory_record_key ?e) (\<lambda>r. directory_record_read_value_data r (value_data ?e) (value_data_size ?e))"
      by (simp add: read_directory_record_entry_def read_directory_record_key_def bindR_def split: sum.split)
    then show ?thesis
      unfolding scan_index_step [OF step.hyps(2)] unfold using step.IH True c r by (simp add: has_name_def)
  qed
qed simp

text \<open>A branch node is left by the last entry that is not behind the name.\<close>

lemma scan_branch_by_name_last:
  assumes "\<forall>e\<in>set (entries_array n). fs_keyed e" "i \<le> length (entries_array n)"
    and "\<forall>e\<in>set (entries_array n). fs_key e = (parent, DATA_TYPE_DIRECTORY_RECORD) \<longrightarrow> (\<exists>r. entry_compare compare 0 e = Inr r)"
  shows "scan_branch_by_name compare n parent [i..<length (entries_array n)] previous =
    (let upto = takeWhile (\<lambda>e. name_order compare parent e \<le> (parent, DATA_TYPE_DIRECTORY_RECORD, 1)) (drop i (entries_array n))
     in Inr (if upto = [] then previous else Some (last upto)))"
  using assms(2)
proof (induction i arbitrary: previous rule: inc_induct)
  case (step i)
  let ?e = "entries_array n ! i" and ?target = "(parent, DATA_TYPE_DIRECTORY_RECORD, 1) :: nat \<times> nat \<times> nat"
  have mem: "?e \<in> set (entries_array n)" using step.hyps(2) by simp
  obtain k where k: "key_data ?e = Some k" "8 \<le> key_data_size ?e" "8 \<le> length k"
    using assms(1) mem by (meson fs_keyedE)
  obtain a b where key: "fs_key ?e = (a, b)" by (cases "fs_key ?e")
  then have ids: "le_value (take 8 k) AND 0x0fffffffffffffff = a" "drop_bit 60 (le_value (take 8 k)) = b"
    by (simp_all add: fs_key_def k(1) mask_60 [simplified] drop_60 [simplified])
  have get: "btree_node_get_entry_by_index n i = Inr ?e" using step.hyps(2) by (simp add: btree_node_get_entry_by_index_def)
  have rd: "rd_u64_le k 0 = Inr (le_value (take 8 k))" using k(3) by simp
  have unfold: "scan_branch_by_name compare n parent (i # [Suc i..<length (entries_array n)]) previous =
     (if a > parent \<or> (a = parent \<and> b > DATA_TYPE_DIRECTORY_RECORD) then Inr previous
      else if a = parent \<and> b = DATA_TYPE_DIRECTORY_RECORD then
        bindR (entry_compare compare 0 ?e) (\<lambda>c. if c = COMPARE_LESS then Inr previous
          else scan_branch_by_name compare n parent [Suc i..<length (entries_array n)] (Some ?e))
      else scan_branch_by_name compare n parent [Suc i..<length (entries_array n)] (Some ?e))"
    using k(2) unfolding scan_branch_by_name.simps get bindR_simps k(1) option.case rd ids
    by (simp add: Let_def entry_compare_def bindR_def split: sum.split)
  have le: "name_order compare parent ?e \<le> ?target \<longleftrightarrow>
      \<not> (a > parent \<or> (a = parent \<and> b > DATA_TYPE_DIRECTORY_RECORD) \<or>
         (a = parent \<and> b = DATA_TYPE_DIRECTORY_RECORD \<and> entry_compare compare 0 ?e = Inr COMPARE_LESS))"
    using assms(3) mem key
    by (auto simp: name_order_def name_rank_def split: sum.splits compare_result.splits)
  show ?case
  proof (cases "name_order compare parent ?e \<le> ?target")
    case True
    then have "scan_branch_by_name compare n parent (i # [Suc i..<length (entries_array n)]) previous =
        scan_branch_by_name compare n parent [Suc i..<length (entries_array n)] (Some ?e)"
      using assms(3) mem key unfolding unfold le by auto
    then show ?thesis unfolding scan_index_step [OF step.hyps(2)] using step.IH True by (simp add: Let_def)
  next
    case False
    then have "scan_branch_by_name compare n parent (i # [Suc i..<length (entries_array n)]) previous = Inr previous"
      unfolding unfold using le by auto
    then show ?thesis unfolding scan_index_step [OF step.hyps(2)] using False by (simp add: Let_def)
  qed
qed simp

section \<open>The descent\<close>

abbreviation name_target :: "nat \<Rightarrow> nat \<times> nat \<times> nat" where
  "name_target parent \<equiv> (parent, DATA_TYPE_DIRECTORY_RECORD, 1)"

text \<open>The search at a depth: the lookup in a leaf, or the descent from a branch node.\<close>

definition search_by_name ::
    "name_comparison \<Rightarrow> ('c, 'o) file_system_btree \<Rightarrow> nat \<Rightarrow> nat \<Rightarrow> nat \<Rightarrow> btree_node \<Rightarrow> ('c, 'o, directory_record option) tree_call" where
  "search_by_name compare tree parent transaction d n =
     (if is_leaf n then liftS (get_directory_record_from_leaf_node_by_name compare (use_case_folding tree) n parent)
      else get_directory_record_from_branch_node_by_name compare tree parent transaction (Suc MAXIMUM_BTREE_NODE_RECURSION_DEPTH - d) n)"

definition name_pick :: "name_comparison \<Rightarrow> nat \<Rightarrow> btree_node \<Rightarrow> btree_entry option" where
  "name_pick compare parent n =
     (if node_header n = None \<or> \<not> list_all fs_keyed (entries_array n) \<or>
         \<not> (\<forall>e\<in>set (entries_array n). fs_key e = (parent, DATA_TYPE_DIRECTORY_RECORD) \<longrightarrow> (\<exists>r. entry_compare compare 0 e = Inr r))
      then None
      else let upto = takeWhile (\<lambda>e. name_order compare parent e \<le> name_target parent) (entries_array n)
           in if upto = [] then None else Some (last upto))"

lemma file_system_child_header:
  assumes "file_system_child tree om transaction n e = Some m"
  obtains h where "node_header m = Some h"
proof -
  have "candidate_node blocks om transaction l oid = Some (a, m) \<Longrightarrow> node_header m \<noteq> None" for blocks l oid a
    using candidate_nodeD(3) by (fastforce simp: node_level_def split: option.splits)
  then have "node_header m \<noteq> None"
    using assms by (fastforce simp: file_system_child_def Let_def List.map_filter_def filter_eq_Cons_iff split: option.splits list.splits if_splits)
  then show ?thesis using that by blast
qed

lemma search_by_name_branch:
  assumes "d \<le> MAXIMUM_BTREE_NODE_RECURSION_DEPTH" "\<not> is_leaf n" "name_pick compare parent n = Some e"
    and "file_system_child tree om transaction n e = Some m" "file_system_btree_get_child tree transaction n (Some e) s = (Inr m, s')"
  shows "search_by_name compare tree parent transaction d n s =
    bindS (file_system_btree_get_child tree transaction n (Some e)) (search_by_name compare tree parent transaction (Suc d)) s"
proof -
  have hn: "node_header n \<noteq> None" and keyed: "\<forall>e\<in>set (entries_array n). fs_keyed e"
    and ok: "\<forall>e\<in>set (entries_array n). fs_key e = (parent, DATA_TYPE_DIRECTORY_RECORD) \<longrightarrow> (\<exists>r. entry_compare compare 0 e = Inr r)"
    using assms(3) by (auto simp: name_pick_def list_all_iff split: if_splits)
  let ?upto = "takeWhile (\<lambda>e. name_order compare parent e \<le> name_target parent) (entries_array n)"
  have upto: "?upto \<noteq> []" "last ?upto = e"
    using assms(3) by (auto simp: name_pick_def Let_def split: if_splits)
  obtain hm where hm: "node_header m = Some hm" by (rule file_system_child_header [OF assms(4)])
  obtain h where h: "node_header n = Some h" using hn by blast
  have levels: "Suc MAXIMUM_BTREE_NODE_RECURSION_DEPTH - d = Suc (Suc MAXIMUM_BTREE_NODE_RECURSION_DEPTH - Suc d)"
    using assms(1) by simp
  show ?thesis
    unfolding search_by_name_def [of _ _ _ _ d] levels
    using assms(2,5) h upto scan_branch_by_name_last [OF keyed _ ok, of 0 None]
    by (simp add: btree_node_is_leaf_node_def is_leaf_def hm bindS_def Let_def search_by_name_def btree_node_get_number_of_entries_def)
qed

interpretation name_descent: tree_descent "\<lambda>n e. file_system_btree_get_child tree transaction n (Some e)"
    "file_system_child tree om transaction" "\<lambda>s. caches_valid tree contents om_contents s \<and> object_map_valid tree om"
    "name_pick compare parent" MAXIMUM_BTREE_NODE_RECURSION_DEPTH "search_by_name compare tree parent transaction"
  for tree :: "('c, 'o) file_system_btree" and om transaction contents om_contents compare parent
proof unfold_locales
  show "\<exists>s'. file_system_btree_get_child tree transaction n (Some e) s = (Inr m, s') \<and>
      caches_valid tree contents om_contents s' \<and> object_map_valid tree om"
    if "caches_valid tree contents om_contents s \<and> object_map_valid tree om" "file_system_child tree om transaction n e = Some m" for s n e m
    using get_child_valid [OF _ _ that(2)] that(1) by blast
  show "search_by_name compare tree parent transaction d n s =
      bindS (file_system_btree_get_child tree transaction n (Some e)) (search_by_name compare tree parent transaction (Suc d)) s"
    if "caches_valid tree contents om_contents s \<and> object_map_valid tree om" "d \<le> MAXIMUM_BTREE_NODE_RECURSION_DEPTH"
      "\<not> is_leaf n" "name_pick compare parent n = Some e" "file_system_child tree om transaction n e = Some m" for d n e m s
    using get_child_valid [OF _ _ that(5)] that(1) search_by_name_branch [OF that(2-5)] by blast
qed

section \<open>Records by name\<close>

lemma has_name_order:
  assumes "names_well compare fold_case parent es" "e \<in> set es"
  shows "has_name compare fold_case parent e \<longleftrightarrow> name_order compare parent e = name_target parent"
proof (cases "fs_key e = (parent, DATA_TYPE_DIRECTORY_RECORD)")
  case True
  then have "entry_compare compare fold_case e = Inr COMPARE_EQUAL \<longleftrightarrow> entry_compare compare 0 e = Inr COMPARE_EQUAL"
    using assms by (auto simp: names_well_def)
  moreover have "name_order compare parent e = name_target parent \<longleftrightarrow> name_rank (entry_compare compare 0 e) = 1"
    using True by (simp add: name_order_def)
  ultimately show ?thesis using True unfolding has_name_def by (simp only: name_rank_simps(2) simp_thms)
next
  case False
  then show ?thesis by (auto simp: has_name_def name_order_def)
qed

lemma name_order_comparable:
  assumes "\<forall>e\<in>set es. fs_key e = (parent, DATA_TYPE_DIRECTORY_RECORD) \<longrightarrow> (\<exists>r. entry_compare compare 0 e = Inr r)"
    and "separators_of (name_order compare parent) xs es" "x \<in> set xs" "fs_key x = (parent, DATA_TYPE_DIRECTORY_RECORD)"
  shows "\<exists>r. entry_compare compare 0 x = Inr r"
proof -
  obtain e where e: "e \<in> set es" "name_order compare parent e = name_order compare parent x"
    using separators_key [OF assms(2,3)] by blast
  then have key: "fs_key e = (parent, DATA_TYPE_DIRECTORY_RECORD)" using assms(4) by (simp add: name_order_def prod_eq_iff)
  then have "name_rank (entry_compare compare 0 x) = name_rank (entry_compare compare 0 e)"
    using e(2) assms(4) by (simp add: name_order_def)
  moreover have "name_rank (entry_compare compare 0 e) \<noteq> 3" using assms(1) e(1) key by (auto simp: name_rank_simps(3))
  ultimately show ?thesis using name_rank_simps(3) [of "entry_compare compare 0 x"] by (cases "entry_compare compare 0 x") auto
qed

lemma search_by_name_found:
  assumes "caches_valid tree contents om_contents s" "object_map_valid tree om" "file_system_root tree = Some n"
    and "file_system_entries (name_order compare parent) tree om transaction h = Some es" "h \<le> MAXIMUM_BTREE_NODE_RECURSION_DEPTH"
    and "parent < 2 ^ 60" "names_well compare (use_case_folding tree) parent es"
    and "es \<noteq> []" "name_order compare parent (hd es) \<le> name_target parent"
  obtains s' where "caches_valid tree contents om_contents s'"
    "search_by_name compare tree parent transaction 0 n s =
      (case find (has_name compare (use_case_folding tree) parent) es of
         None \<Rightarrow> Inr None
       | Some e \<Rightarrow> bindR (read_directory_record_entry DATA_TYPE_DIRECTORY_RECORD e) (\<lambda>r. Inr (Some r)), s')"
proof -
  let ?key = "name_order compare parent" and ?target = "name_target parent"
  let ?P = "has_name compare (use_case_folding tree) parent"
  have n: "tree_entries (file_system_child tree om transaction) ?key h n = Some es" "sorted_by ?key es"
    using assms(3,4) by (auto simp: file_system_entries_def split: option.splits if_splits)
  have comparable: "\<forall>e\<in>set es. fs_key e = (parent, DATA_TYPE_DIRECTORY_RECORD) \<longrightarrow> (\<exists>r. entry_compare compare 0 e = Inr r)"
    using assms(7) by (auto simp: names_well_def)
  let ?good = "\<lambda>n es. list_all fs_keyed (entries_array n) \<and> ?key (hd es) \<le> ?target"
  have "?good n es" using assms(3,9) by (auto simp: file_system_root_def split: if_splits sum.splits)
  then obtain m where m: "descend_to (file_system_child tree om transaction) (name_pick compare parent) h n = Some m" "is_leaf m"
    "latest ?key ?target (entries_array m) = latest ?key ?target es" "sorted_by ?key (entries_array m)"
    "set (entries_array m) \<subseteq> set es" "\<exists>es'. ?good m es'"
  proof (rule descend_latest_invariant [where good = ?good and pick = "name_pick compare parent" and target = ?target, OF n])
    fix n m :: btree_node and es es'
    assume good: "?good n es" and ne: "entries_array n \<noteq> []" and hd: "?key (hd (entries_array n)) = ?key (hd es)"
      and child: "file_system_child tree om transaction n (choice ?key ?target (entries_array n)) = Some m"
      and first: "?key (hd es') = ?key (choice ?key ?target (entries_array n))"
    let ?t = "takeWhile (\<lambda>e. ?key e \<le> ?target) (entries_array n)"
    have t: "?t \<noteq> []" using ne hd good by (cases "entries_array n") auto
    then have "?key (last ?t) \<le> ?target" using set_takeWhileD [of "last ?t"] by (metis last_in_set)
    then have "?key (choice ?key ?target (entries_array n)) \<le> ?target" using t by (simp add: choice_def)
    then show "?good m es'" using file_system_child_keyed [OF child] first by simp
  next
    fix n :: btree_node and es'
    assume good: "?good n es'" and hn: "node_header n \<noteq> None" and ne: "entries_array n \<noteq> []"
      and hd: "?key (hd (entries_array n)) = ?key (hd es')" and seps: "separators_of ?key (entries_array n) es"
    have t: "takeWhile (\<lambda>e. ?key e \<le> ?target) (entries_array n) \<noteq> []" using ne hd good by (cases "entries_array n") auto
    have "\<forall>e\<in>set (entries_array n). fs_key e = (parent, DATA_TYPE_DIRECTORY_RECORD) \<longrightarrow> (\<exists>r. entry_compare compare 0 e = Inr r)"
      using name_order_comparable [OF comparable seps] by blast
    then show "name_pick compare parent n = Some (choice ?key ?target (entries_array n))"
      using good hn t by (simp add: name_pick_def choice_def Let_def)
  qed blast
  obtain d s' where d: "caches_valid tree contents om_contents s'"
    "search_by_name compare tree parent transaction 0 n s = search_by_name compare tree parent transaction d m s'"
    using name_descent.descends [of tree om transaction compare parent h n m 0 contents om_contents s] m(1) assms(1,2,5) by auto
  have keyed: "\<forall>e\<in>set (entries_array m). fs_keyed e" using m(6) by (auto simp: list_all_iff)
  have same: "find ?P (entries_array m) = find ?P es"
  proof (cases "find ?P es")
    case None
    then have "find ?P (entries_array m) = None" using m(5) by (auto simp: find_None_iff)
    then show ?thesis using None by simp
  next
    case (Some e)
    then have e: "e \<in> set es" "?key e = ?target" using has_name_order [OF assms(7)] by (auto simp: find_Some_iff)
    then obtain e' where e': "latest ?key ?target es = Some e'"
      by (cases "latest ?key ?target es") (auto simp: latest_None)
    from latest_Some [OF e' n(2)] e have "?key e' = ?target" by (metis order_antisym order_refl)
    moreover have mem: "e' \<in> set (entries_array m)" using latest_Some(1) [OF _ m(4)] m(3) e' by metis
    ultimately have "?P e'" using has_name_order [OF assms(7)] m(5) by blast
    then obtain e2 where e2: "find ?P (entries_array m) = Some e2"
      using mem by (cases "find ?P (entries_array m)") (auto simp: find_None_iff)
    then have "e2 \<in> set es" "?P e2" using m(5) by (auto simp: find_Some_iff)
    then have "e2 \<in> set es" "?key e2 = ?target" using has_name_order [OF assms(7)] by blast+
    with e have "e2 = e" using count_le_1_unique [of ?key es ?target] assms(7) by (simp add: names_well_def)
    then show ?thesis using Some e2 by simp
  qed
  obtain hm where hm: "node_header m = Some hm" "flags hm AND 2 \<noteq> 0" using m(2) by (auto simp: is_leaf_def split: option.splits)
  have "\<forall>e\<in>set (entries_array m). fs_key e = (parent, DATA_TYPE_DIRECTORY_RECORD) \<longrightarrow> (\<exists>r. entry_compare compare (use_case_folding tree) e = Inr r)"
    using assms(7) m(5) by (auto simp: names_well_def)
  from scan_leaf_by_name_find [OF keyed assms(6) le0 this] hm m(2) same d show ?thesis
    by (intro that [of s']) (simp_all add: search_by_name_def get_directory_record_from_leaf_node_by_name_def btree_node_is_leaf_node_def
        btree_node_get_number_of_entries_def)
qed

end
