(* ===== verification/File_System_Paths.thy ===== *)
theory File_System_Paths
  imports File_System_Name_Lookup
begin

text \<open>
  What a path resolves to: its segments are looked up one in the directory of the other, and the inode
  of the last one is read.
\<close>

section \<open>Segments\<close>

text \<open>The functions on strings read the part of a string up to its length only.\<close>

lemma copy_take: "unicode_character_copy decode (take l string) l i = unicode_character_copy decode string l i"
  by (simp only: unicode_character_copy_def drop_take take_take min.idem)

lemma copy_later: "unicode_character_copy decode string l i = Some (c, i') \<Longrightarrow> i < i'"
  by (auto simp: unicode_character_copy_def split: option.splits)

lemma name_hash_loop_take:
  "name_hash_loop decode fold_case table (take l string) l i v = name_hash_loop decode fold_case table string l i v"
proof (induction "l - i" arbitrary: i v rule: less_induct)
  case less
  show ?case
  proof (cases "i < l")
    case True
    have later: "name_hash_loop decode fold_case table (take l string) l i' = name_hash_loop decode fold_case table string l i'"
      if "unicode_character_copy decode string l i = Some (c, i')" for c i'
      using less [of i'] copy_later [OF that] True by (simp add: fun_eq_iff)
    show ?thesis
      unfolding name_hash_loop.simps [of decode fold_case table _ l i v] copy_take
      using later by (simp split: option.split)
  qed (simp add: name_hash_loop.simps [of decode fold_case table _ l i v])
qed

lemma name_compare_loop_take:
  assumes "l \<le> k"
  shows "name_compare_loop decode_name decode fold_case name name_size (take k string) l j i =
    name_compare_loop decode_name decode fold_case name name_size string l j i"
proof (induction "l - i" arbitrary: i j rule: less_induct)
  case less
  have "take l string = take l (take k string)" using assms by (simp add: min_def)
  then have copy: "unicode_character_copy decode (take k string) l i = unicode_character_copy decode string l i"
    by (metis copy_take)
  show ?case
  proof (cases "i < l")
    case True
    have later: "name_compare_loop decode_name decode fold_case name name_size (take k string) l j' i' =
        name_compare_loop decode_name decode fold_case name name_size string l j' i'"
      if "unicode_character_copy decode string l i = Some (c, i')" for c i' j'
      using less [of i' j'] copy_later [OF that] True by simp
    show ?thesis
      unfolding name_compare_loop.simps [of decode_name decode fold_case name name_size _ l j i] copy
      using later by (simp add: name_get_mapping_eq split: option.split)
  qed (simp add: name_compare_loop.simps [of decode_name decode fold_case name name_size _ l j i])
qed

lemma string_comparison_take:
  assumes "l \<le> length string"
  shows "string_comparison decode_name decode (take l string) l name_hash = string_comparison decode_name decode string l name_hash"
proof -
  have loop: "name_compare_loop decode_name decode fold_case name name_size (take l string) l' j i =
      name_compare_loop decode_name decode fold_case name name_size string l' j i" if "l' \<le> l" for l' fold_case name name_size j i
    by (rule name_compare_loop_take [OF that])
  have "without_end_of_string (take l string) l = without_end_of_string string l"
    using assms by (auto simp: without_end_of_string_def)
  moreover have "without_end_of_string string l = Inr l' \<Longrightarrow> l' \<le> l" for l'
    by (auto simp: without_end_of_string_def result_simps split: if_splits)
  ultimately show ?thesis
    using loop
    by (auto simp: string_comparison_def directory_record_compare_name_with_string_def name_compare_with_string_def fun_eq_iff
        split: option.split intro!: bindR_cong)
qed

lemma name_hash_take:
  assumes "l \<le> length string"
  shows "name_hash_calculate_from_string decode string l fold_case g =
    name_hash_calculate_from_string decode (take l string) (length (take l string)) fold_case g"
  using assms by (simp add: name_hash_loop_take name_hash_calculate_from_string_def min_def Let_def)

text \<open>
  A segment and what follows it. A decoder takes no more than it is given, and a separator or a zero
  is one unit.
\<close>

function split_segment :: "'u::len decoder \<Rightarrow> 'u word list \<Rightarrow> ('u word list \<times> 'u word list) option" where
  "split_segment decode units =
     (if units = [] then Some ([], [])
      else case decode units of
        None \<Rightarrow> None
      | Some (c, n) \<Rightarrow>
          if c = SEPARATOR \<or> c = 0 then Some ([], drop (Suc n) units)
          else map_option (\<lambda>(segment, following). (take (Suc n) units @ segment, following)) (split_segment decode (drop (Suc n) units)))"
  by pat_completeness auto
termination
  by (relation "measure (\<lambda>(_, units). length units)") auto

declare split_segment.simps [simp del]

lemma split_segment_shorter:
  "split_segment decode units = Some (segment, following) \<Longrightarrow> units \<noteq> [] \<Longrightarrow> length following < length units"
proof (induction decode units arbitrary: segment following rule: split_segment.induct)
  case (1 decode units)
  obtain c n where c: "decode units = Some (c, n)" using "1.prems" by (subst (asm) split_segment.simps) (auto split: option.splits)
  show ?case
  proof (cases "c = SEPARATOR \<or> c = 0 \<or> drop (Suc n) units = []")
    case True
    then show ?thesis using "1.prems" c
      by (subst (asm) split_segment.simps) (auto simp: split_segment.simps [of decode "[]"] split: if_splits)
  next
    case False
    obtain seg where seg: "split_segment decode (drop (Suc n) units) = Some (seg, following)"
      using "1.prems" c False by (subst (asm) split_segment.simps) auto
    have "length following < length (drop (Suc n) units)"
      using "1.IH" [OF "1.prems"(2) c refl _ seg] False by auto
    then show ?thesis by simp
  qed
qed

function path_segments :: "'u::len decoder \<Rightarrow> 'u word list \<Rightarrow> 'u word list list option" where
  "path_segments decode units =
     (if units = [] then Some []
      else case split_segment decode units of
        None \<Rightarrow> None
      | Some (segment, following) \<Rightarrow> map_option ((#) segment) (path_segments decode following))"
  by pat_completeness auto
termination
  by (relation "measure (\<lambda>(_, units). length units)") (auto dest: split_segment_shorter)

declare path_segments.simps [simp del]

definition path_decoder :: "'u::len decoder \<Rightarrow> bool" where
  "path_decoder decode \<longleftrightarrow> (\<forall>units c n. decode units = Some (c, n) \<longrightarrow>
     Suc n \<le> length units \<and> (c = SEPARATOR \<or> c = 0 \<longrightarrow> n = 0))"

lemma find_segment_end_split:
  assumes "path_decoder decode"
  shows "split_segment decode (drop i string) = Some (segment, following) \<Longrightarrow> i \<le> length string \<Longrightarrow>
    \<exists>j f. find_segment_end decode string (length string) i = Inr (j, f) \<and> segment = take (j - f - i) (drop i string) \<and>
      following = drop j string \<and> i + f \<le> j \<and> j \<le> length string"
proof (induction "length string - i" arbitrary: i segment rule: less_induct)
  case less
  show ?case
  proof (cases "i < length string")
    case False
    then show ?thesis using less.prems by (simp add: find_segment_end.simps split_segment.simps)
  next
    case True
    obtain c n where c: "decode (drop i string) = Some (c, n)"
      using less.prems(1) True by (subst (asm) split_segment.simps) (auto split: option.splits)
    then have copy: "unicode_character_copy decode string (length string) i = Some (c, i + Suc n)"
      by (simp add: unicode_character_copy_def)
    show ?thesis
    proof (cases "c = SEPARATOR \<or> c = 0")
      case sep: True
      then have "n = 0" using assms c by (auto simp: path_decoder_def)
      then show ?thesis
        using less.prems(1) True c sep copy by (subst (asm) split_segment.simps) (auto simp: find_segment_end.simps [of decode string _ i])
    next
      case False
      obtain seg where seg: "split_segment decode (drop (i + Suc n) string) = Some (seg, following)"
        "segment = take (Suc n) (drop i string) @ seg"
        using less.prems(1) True c False by (subst (asm) split_segment.simps) (auto simp: add.commute)
      have fits: "i + Suc n \<le> length string" using assms c True by (fastforce simp: path_decoder_def)
      have "length string - (i + Suc n) < length string - i" using True by simp
      from less.hyps [OF this seg(1) fits] obtain j f where j: "find_segment_end decode string (length string) (i + Suc n) = Inr (j, f)"
        "seg = take (j - f - (i + Suc n)) (drop (i + Suc n) string)" "following = drop j string" "i + Suc n + f \<le> j"
        "j \<le> length string" by blast
      have "j - f - i = Suc n + (j - f - (i + Suc n))" using j(4) by linarith
      then have "segment = take (j - f - i) (drop i string)"
        unfolding seg(2) j(2) by (simp only: take_add drop_drop add.commute)
      moreover have "find_segment_end decode string (length string) i = Inr (j, f)"
        using True False copy j(1) by (simp add: find_segment_end.simps [of decode string _ i])
      ultimately show ?thesis using j(3-5) by auto
    qed
  qed
qed

section \<open>Resolution\<close>

text \<open>The comparison with a segment, and the hash in it.\<close>

definition segment_comparison :: "8 decoder \<Rightarrow> 'u::len decoder \<Rightarrow> nat \<Rightarrow> 'u word list \<Rightarrow> name_comparison" where
  "segment_comparison decode_name decode fold_case segment =
     string_comparison decode_name decode segment (length segment)
       (name_hash_of fold_case (the (characters decode segment)))"

text \<open>From a directory along the segments: the identifier and the record of the last, if there are all.\<close>

fun resolve_path ::
    "('u word list \<Rightarrow> name_comparison) \<Rightarrow> nat \<Rightarrow> btree_entry list \<Rightarrow> nat \<Rightarrow> directory_record option
     \<Rightarrow> 'u::len word list list \<Rightarrow> (nat \<times> directory_record option) option result" where
  "resolve_path comparison fold_case es parent directory_record [] = Inr (Some (parent, directory_record))"
| "resolve_path comparison fold_case es parent directory_record (segment # segments) =
     (if segment = [] then Inr None
      else case find (has_name (comparison segment) fold_case parent) es of
        None \<Rightarrow> Inr None
      | Some e \<Rightarrow> bindR (read_directory_record_entry DATA_TYPE_DIRECTORY_RECORD e) (\<lambda>r.
          resolve_path comparison fold_case es (record_identifier r) (Some r) segments))"

text \<open>The directories on the way have their records in the order of the names.\<close>

fun path_well ::
    "('c, 'o) file_system_btree \<Rightarrow> btree_entry list \<Rightarrow> nat \<Rightarrow> nat \<Rightarrow> btree_entry list \<Rightarrow> ('u word list \<Rightarrow> name_comparison)
     \<Rightarrow> nat \<Rightarrow> 'u::len word list list \<Rightarrow> bool" where
  "path_well tree om transaction h es comparison parent [] \<longleftrightarrow> True"
| "path_well tree om transaction h es comparison parent (segment # segments) \<longleftrightarrow>
     segment \<noteq> [] \<longrightarrow>
       parent < 2 ^ 60 \<and> file_system_entries (name_order (comparison segment) parent) tree om transaction h = Some es \<and>
       names_well (comparison segment) (use_case_folding tree) parent es \<and>
       es \<noteq> [] \<and> name_order (comparison segment) parent (hd es) \<le> name_target parent \<and>
       (\<forall>e. find (has_name (comparison segment) (use_case_folding tree) parent) es = Some e \<longrightarrow>
          (case read_directory_record_entry DATA_TYPE_DIRECTORY_RECORD e of
             Inl _ \<Rightarrow> True
           | Inr r \<Rightarrow> path_well tree om transaction h es comparison (record_identifier r) segments))"

lemma get_directory_record_by_name_search:
  assumes "node_header n = Some h" "btree_node_is_leaf_node n = Inr x"
  shows "get_directory_record_by_name compare tree parent transaction n x = search_by_name compare tree parent transaction 0 n"
  using assms by (auto simp: get_directory_record_by_name_def search_by_name_def is_leaf_def btree_node_is_leaf_node_def fun_eq_iff)

lemma path_segments_step:
  assumes "path_segments decode units = Some segments" "units \<noteq> []"
  obtains segment following segments' where "split_segment decode units = Some (segment, following)"
    "segments = segment # segments'" "path_segments decode following = Some segments'"
  using assms by (subst (asm) path_segments.simps) (auto split: option.splits)

text \<open>The state of a call on the tree and the table of the checksum.\<close>

definition name_state_valid ::
    "('c, 'o) file_system_btree \<Rightarrow> ('c \<Rightarrow> nat \<rightharpoonup> btree_node) \<Rightarrow> ('o \<Rightarrow> nat \<rightharpoonup> btree_node)
     \<Rightarrow> ('c, 'o) file_system_btree_state \<times> crc32_globals \<Rightarrow> bool" where
  "name_state_valid tree contents om_contents s \<longleftrightarrow> caches_valid tree contents om_contents (fst s) \<and> crc32_globals_inv (snd s)"

lemma path_loop_resolves:
  assumes "object_map_valid tree om" "file_system_root tree = Some n" "node_header n = Some hn" "btree_node_is_leaf_node n = Inr x"
    and "h \<le> MAXIMUM_BTREE_NODE_RECURSION_DEPTH" "path_decoder decode"
  shows "path_segments decode (drop i string) = Some segments \<Longrightarrow> i \<le> length string \<Longrightarrow>
    \<forall>segment\<in>set segments. characters decode segment \<noteq> None \<Longrightarrow>
    path_well tree om transaction h es (segment_comparison decode_name decode (use_case_folding tree)) parent segments \<Longrightarrow>
    name_state_valid tree contents om_contents s \<Longrightarrow>
    \<exists>s'. name_state_valid tree contents om_contents s' \<and>
      path_loop decode_name decode tree transaction n x string (length string) i parent last_record s =
        (resolve_path (segment_comparison decode_name decode (use_case_folding tree)) (use_case_folding tree) es parent last_record segments, s')"
proof (induction segments arbitrary: i parent last_record s)
  case Nil
  have "\<not> i < length string"
    using Nil.prems(1) path_segments_step [of decode "drop i string" "[]"] by fastforce
  then show ?case using Nil.prems(5) by (intro exI [of _ s]) (simp add: path_loop.simps)
next
  case (Cons segment segments)
  let ?fold = "use_case_folding tree"
  let ?cmp = "segment_comparison decode_name decode ?fold"
  have i: "i < length string" by (rule ccontr) (use Cons.prems(1) in \<open>simp add: path_segments.simps\<close>)
  then have ne: "drop i string \<noteq> []" by simp
  obtain following where split: "split_segment decode (drop i string) = Some (segment, following)"
    "path_segments decode following = Some segments"
    using path_segments_step [OF Cons.prems(1) ne] by (metis list.inject)
  obtain j f where j: "find_segment_end decode string (length string) i = Inr (j, f)" "segment = take (j - f - i) (drop i string)"
    "following = drop j string" "i + f \<le> j" "j \<le> length string"
    using find_segment_end_split [OF assms(6) split(1) Cons.prems(2)] by blast
  have len: "length segment = j - (i + f)" using j(2,5) by simp
  have segment: "segment = take (j - (i + f)) (drop i string)" using j(2) by (simp add: add.commute)
  obtain st g where s: "s = (st, g)" by (cases s)
  show ?case
  proof (cases "segment = []")
    case True
    then show ?thesis
      using i j(1) len Cons.prems(5) by (intro exI [of _ s]) (auto simp: path_loop.simps [of _ _ _ _ _ _ _ _ i] Let_def)
  next
    case False
    obtain cs where cs: "characters decode segment = Some cs" using Cons.prems(3) by auto
    have seg_le: "j - (i + f) \<le> length (drop i string)" using j(5) by simp
    let ?g = "if crc32_table_computed g then g else checksum_initialize_crc32_table 0x82f63b78 g"
    have inv: "crc32_globals_inv g" "caches_valid tree contents om_contents st" using Cons.prems(5) by (simp_all add: name_state_valid_def s)
    then have inv': "crc32_globals_inv ?g" using crc32_globals_inv_initialize by simp
    have hash: "name_hash_calculate_from_string decode (drop i string) (j - (i + f)) ?fold g = Inr (name_hash_of ?fold cs, ?g)"
      using name_hash_take [OF seg_le, of decode ?fold g] name_hash_calculate_value [OF inv(1) cs, of ?fold] unfolding segment [symmetric] by simp
    have cmp: "string_comparison decode_name decode (drop i string) (j - (i + f)) (name_hash_of ?fold cs) = ?cmp segment"
      using string_comparison_take [OF seg_le, of decode_name decode] cs unfolding segment [symmetric] segment_comparison_def len by simp
    have well: "parent < 2 ^ 60" "file_system_entries (name_order (?cmp segment) parent) tree om transaction h = Some es"
      "names_well (?cmp segment) ?fold parent es" "es \<noteq> []" "name_order (?cmp segment) parent (hd es) \<le> name_target parent"
      using Cons.prems(4) False by auto
    have pos: "j - (i + f) \<noteq> 0" using len False by (metis length_0_conv)
    obtain st' where st': "caches_valid tree contents om_contents st'"
      "search_by_name (?cmp segment) tree parent transaction 0 n st =
        (case find (has_name (?cmp segment) ?fold parent) es of
           None \<Rightarrow> Inr None
         | Some e \<Rightarrow> bindR (read_directory_record_entry DATA_TYPE_DIRECTORY_RECORD e) (\<lambda>r. Inr (Some r)), st')"
      by (rule search_by_name_found [OF inv(2) assms(1,2) well(2) assms(5) well(1,3-5)])
    have unfold: "path_loop decode_name decode tree transaction n x string (length string) i parent last_record s =
        bindS (on_tree (search_by_name (?cmp segment) tree parent transaction 0 n)) (\<lambda>found.
          case found of None \<Rightarrow> returnS None
          | Some r \<Rightarrow> path_loop decode_name decode tree transaction n x string (length string) j (record_identifier r) (Some r)) (st, ?g)"
      using i j(1) pos hash
      by (simp add: path_loop.simps [of _ _ _ _ _ _ _ _ i] cmp Let_def on_globals_def bindS_def s
          get_directory_record_by_name_search [OF assms(3,4)])
    have valid: "name_state_valid tree contents om_contents (st', ?g)" using st'(1) inv' by (simp add: name_state_valid_def)
    show ?thesis
    proof (cases "find (has_name (?cmp segment) ?fold parent) es")
      case None
      then show ?thesis using unfold st'(2) valid False by (auto simp: on_tree_def bindS_def)
    next
      case (Some e)
      show ?thesis
      proof (cases "read_directory_record_entry DATA_TYPE_DIRECTORY_RECORD e")
        case (Inl e')
        then show ?thesis using unfold st'(2) valid False Some by (auto simp: on_tree_def bindS_def)
      next
        case (Inr r)
        have jl: "j \<le> length string" by (rule j(5))
        have "path_well tree om transaction h es ?cmp (record_identifier r) segments"
          using Cons.prems(4) False Some Inr by auto
        from Cons.IH [OF _ jl _ this valid] split(2) j(3) Cons.prems(3) obtain s' where "name_state_valid tree contents om_contents s'"
          "path_loop decode_name decode tree transaction n x string (length string) j (record_identifier r) (Some r) (st', ?g) =
            (resolve_path ?cmp ?fold es (record_identifier r) (Some r) segments, s')" by fastforce
        then show ?thesis using unfold st'(2) False Some Inr by (intro exI [of _ s']) (simp add: on_tree_def bindS_def)
      qed
    qed
  qed
qed

text \<open>What is done with the inode that a path leads to.\<close>

definition inode_of_path :: "btree_entry list \<Rightarrow> (nat \<times> directory_record option) option \<Rightarrow> (inode \<times> directory_record option) option result" where
  "inode_of_path es found =
     (case found of
        None \<Rightarrow> Inr None
      | Some (object_identifier, directory_record) \<Rightarrow>
          (case find (\<lambda>e. fs_key e = (object_identifier, DATA_TYPE_INODE)) es of
             None \<Rightarrow> Inl RUNTIME_GET_FAILED
           | Some e \<Rightarrow> bindR (read_inode_entry e) (\<lambda>inode. Inr (Some (inode, directory_record)))))"

lemma file_system_root_header:
  assumes "file_system_root tree = Some n"
  obtains h where "node_header n = Some h"
proof -
  have "check_file_system_root_node n = Inr ()" using assms by (auto simp: file_system_root_def split: if_splits sum.splits)
  then have "node_header n \<noteq> None" by (auto simp: check_file_system_root_node_def result_simps split: option.splits)
  then show ?thesis using that by blast
qed

lemma path_leading_separator:
  assumes "string \<noteq> []"
  shows "bindR (rd string 0) (\<lambda>unit. Inr (if unat unit = SEPARATOR then 1 else 0)) =
    Inr (if unat (hd string) = SEPARATOR then 1 else 0 :: nat)"
  using assms by (cases string) auto

definition without_leading_separator :: "'u::len word list \<Rightarrow> 'u word list" where
  "without_leading_separator string = (if string \<noteq> [] \<and> unat (hd string) = SEPARATOR then tl string else string)"

section \<open>Properties\<close>

text \<open>C21. In a well-formed file system tree a path of at least two units leads
  to the inode of its last segment, each segment looked up in the directory of the one before by its name in the order of
  names, a leading and a trailing separator ignored, when the search of the branch nodes reaches the records of each segment (they
  are in the order of names that the comparison has, which excludes trees where the search goes wrong with case folding): the result is that inode with the directory record that
  names it, nothing when a segment is empty or is not in its directory, and an error when a record cannot be
  read or its inode is missing.\<close>

theorem path_lookup_correct:
  assumes "name_state_valid tree contents om_contents s" "object_map_valid tree om" "path_decoder decode"
    and "file_system_entries fs_key tree om transaction h = Some es" "h \<le> MAXIMUM_BTREE_NODE_RECURSION_DEPTH"
    and "2 \<le> length string" "length string \<le> SSIZE_MAX"
    and "path_segments decode (without_leading_separator string) = Some segments" "\<forall>segment\<in>set segments. characters decode segment \<noteq> None"
    and "path_well tree om transaction h es (segment_comparison decode_name decode (use_case_folding tree)) parent segments"
    and "resolve_path (segment_comparison decode_name decode (use_case_folding tree)) (use_case_folding tree) es parent None segments = resolved"
    and "\<And>oid r. resolved = Inr (Some (oid, r)) \<Longrightarrow> oid < 2 ^ 60 \<and> first_of_identifier (oid, DATA_TYPE_INODE) es"
  shows "\<exists>s'. file_system_btree_get_inode_by_path decode_name decode tree parent string (length string) transaction None None s =
    (bindR resolved (inode_of_path es), s')"
proof -
  obtain st g where s: "s = (st, g)" by (cases s)
  have valid: "caches_valid tree contents om_contents st" "crc32_globals_inv g" using assms(1) by (simp_all add: name_state_valid_def s)
  obtain n where n: "file_system_root tree = Some n" using assms(4) by (auto simp: file_system_entries_def split: option.splits)
  obtain hn where hn: "node_header n = Some hn" by (rule file_system_root_header [OF n])
  then obtain x where x: "btree_node_is_leaf_node n = Inr x" by (auto simp: btree_node_is_leaf_node_def)
  obtain st1 where st1: "file_system_btree_get_root_node tree (fs_root_node_block_number tree) st = (Inr (Some n), st1)"
    "caches_valid tree contents om_contents st1"
    using get_root_node_valid [OF valid(1) n] by blast
  have ne: "string \<noteq> []" using assms(6) by auto
  let ?i = "if unat (hd string) = SEPARATOR then 1 else 0 :: nat"
  have i: "?i \<le> length string" using assms(6) by simp
  have "drop ?i string = without_leading_separator string"
    using ne by (cases string) (simp_all add: without_leading_separator_def)
  then have segments: "path_segments decode (drop ?i string) = Some segments" using assms(8) by simp
  have "name_state_valid tree contents om_contents (st1, g)" using st1(2) valid(2) by (simp add: name_state_valid_def)
  from path_loop_resolves [OF assms(2) n hn x assms(5,3) segments i assms(9,10) this, of None] obtain s2 where
    s2: "name_state_valid tree contents om_contents s2"
      "path_loop decode_name decode tree transaction n x string (length string) ?i parent None (st1, g) = (resolved, s2)"
    unfolding assms(11) by blast
  have root: "on_tree (file_system_btree_get_root_node tree (fs_root_node_block_number tree)) (st, g) = (Inr (Some n), (st1, g))"
    using st1(1) by (simp add: on_tree_def)
  have run: "file_system_btree_get_inode_by_path decode_name decode tree parent string (length string) transaction None None s =
      bindS (\<lambda>_. (resolved, s2)) (\<lambda>found. case found of
          None \<Rightarrow> returnS None
        | Some (lookup_identifier, directory_record) \<Rightarrow>
            bindS (on_tree (file_system_btree_get_entry_by_identifier tree lookup_identifier DATA_TYPE_INODE transaction)) (\<lambda>entry.
              case entry of None \<Rightarrow> failS RUNTIME_GET_FAILED
              | Some (node, None) \<Rightarrow> failS RUNTIME_VALUE_MISSING
              | Some (node, Some entry) \<Rightarrow>
                  bindS (liftS (read_inode_entry entry)) (\<lambda>inode. returnS (Some (inode, directory_record))))) s"
    using assms(6,7) root x s2(2) ne path_leading_separator [OF ne]
    by (simp add: file_system_btree_get_inode_by_path_def bindS_def s del: split_paired_Ex)
  show ?thesis
  proof (cases "\<exists>oid r. resolved = Inr (Some (oid, r))")
    case False
    then show ?thesis
      unfolding run by (cases resolved) (auto simp: bindS_def inode_of_path_def split: option.split)
  next
    case True
    then obtain oid r where r: "resolved = Inr (Some (oid, r))" by blast
    have oid: "oid < 2 ^ 60" "first_of_identifier (oid, DATA_TYPE_INODE) es" using assms(12) [OF r] by blast+
    obtain st2 g2 where s2': "s2 = (st2, g2)" by (cases s2)
    have "caches_valid tree contents om_contents st2" using s2(1) by (simp add: name_state_valid_def s2')
    from get_entry_by_identifier_key [OF this assms(2,4,5) oid] obtain st3 m where
      "file_system_btree_get_entry_by_identifier tree oid DATA_TYPE_INODE transaction st2 =
        (Inr (map_option (\<lambda>e. (m, Some e)) (find (\<lambda>e. fs_key e = (oid, DATA_TYPE_INODE)) es)), st3)" by metis
    then show ?thesis
      unfolding run r by (auto simp: bindS_def on_tree_def s2' inode_of_path_def bindR_def split: option.split sum.split)
  qed
qed

text \<open>The path to the second inode of the sample tree.\<close>

lemma utf8_path_decoder: "path_decoder utf8_decoder"
  unfolding path_decoder_def
proof (intro allI impI)
  fix units :: bytes and c n
  assume d: "utf8_decoder units = Some (c, n)"
  then obtain b bs where units: "units = b # bs" by (cases units) (auto simp: utf8_decoder_def)
  show "Suc n \<le> length units \<and> (c = SEPARATOR \<or> c = 0 \<longrightarrow> n = 0)"
    using d unfolding units
    by (cases bs; cases "tl bs") (auto simp: utf8_decoder_def Let_def SEPARATOR_def split: if_splits)
qed

lemma sample_segments:
  "path_segments utf8_decoder (without_leading_separator [0x2f, 0x61]) = Some [[0x61]]"
  by (simp add: without_leading_separator_def SEPARATOR_def path_segments.simps split_segment.simps utf8_decoder_def)

lemma sample_record_compare:
  "entry_compare (segment_comparison utf8_decoder utf8_decoder 0 [0x61]) 0 (entry_of sample_record) = Inr COMPARE_EQUAL"
proof -
  let ?empty = "\<lparr>record_identifier = 0, record_name_size = 0, record_name = None, record_name_hash = 0, record_added_time = 0\<rparr>"
  have data: "key_data (entry_of sample_record) = Some (record_key_with_hash 2 1988076 [97, 0])" "key_data_size (entry_of sample_record) = 14"
    by (simp_all add: entry_of_def sample_record_def record_key_with_hash_def)
  have read_key: "directory_record_read_key_data ?empty (Some (record_key_with_hash 2 1988076 [97, 0])) 14 =
      Inr (?empty\<lparr>record_name := Some [97, 0], record_name_size := 2, record_name_hash := 1988076\<rparr>)"
    using record_key_read [of "[97, 0]" 1988076 ?empty 2] by simp
  have trimmed: "trimmed [97, 0 :: 8 word] = [97]" "trimmed [97 :: 8 word] = [97]" by (simp_all add: trimmed_def)
  have "name_compare_with_string utf8_decoder utf8_decoder [97, 0] (length [97, 0 :: 8 word]) [97] (length [97 :: 8 word]) 0 = Inr COMPARE_EQUAL"
    using name_compare_characters [of utf8_decoder "[97, 0]" "[97]" utf8_decoder "[97]" "[97]" 0] trimmed utf8_samples(6)
      compare_characters_equal [of 0 "[97]" "[97]"]
    by (simp add: SSIZE_MAX_def del: compare_characters.simps)
  then have "name_compare_with_string utf8_decoder utf8_decoder [97, 0] 2 [97] (Suc 0) 0 = Inr COMPARE_EQUAL"
    by (simp add: numeral_2_eq_2)
  then show ?thesis
    using utf8_samples(6) sample_hash
    by (simp add: entry_compare_def read_directory_record_key_def directory_record_initialize_def data read_key
        segment_comparison_def string_comparison_def directory_record_compare_name_with_string_def)
qed

lemma sample_name_order:
  "map (name_order (segment_comparison utf8_decoder utf8_decoder 0 [0x61]) 2) (map entry_of sample_fs_leaf) =
     [(2, 3, 0), (2, 9, 1), (5, 3, 0), (5, 8, 0)]"
proof -
  have "map fs_key (map entry_of sample_fs_leaf) = [(2, 3), (2, 9), (5, 3), (5, 8)]"
    using sample_fs_keys(1) by (auto simp: sample_fs_leaf_def fs_order_def prod_eq_iff)
  then show ?thesis
    using sample_record_compare
    by (auto simp: sample_fs_leaf_def name_order_def DATA_TYPE_DIRECTORY_RECORD_def name_rank_def)
qed

lemma sample_path_well:
  "path_well sample_fs_tree (map entry_of sample_leaf) 4 1 (map entry_of sample_fs_leaf) (segment_comparison utf8_decoder utf8_decoder 0) 2 [[0x61]]"
  "resolve_path (segment_comparison utf8_decoder utf8_decoder 0) 0 (map entry_of sample_fs_leaf) 2 None [[0x61]] =
     Inr (Some (5, Some \<lparr>record_identifier = 5, record_name_size = 2, record_name = Some [97, 0], record_name_hash = 1988076,
       record_added_time = 0\<rparr>))"
proof -
  let ?cmp = "segment_comparison utf8_decoder utf8_decoder 0 [0x61]" and ?es = "map entry_of sample_fs_leaf"
  have keys: "map fs_key ?es = [(2, 3), (2, 9), (5, 3), (5, 8)]"
    using sample_fs_keys(1) by (auto simp: sample_fs_leaf_def fs_order_def prod_eq_iff)
  have es: "?es = [entry_of (sample_fs_key 3 2, sample_inode), entry_of sample_record, entry_of (sample_fs_key 3 5, sample_inode), entry_of sample_extent]"
    by (simp add: sample_fs_leaf_def)
  have "sorted_wrt (\<le>) (map (name_order ?cmp 2) ?es)" unfolding sample_name_order by simp
  then have sorted: "sorted_by (name_order ?cmp 2) ?es" unfolding sorted_wrt_map .
  have entries: "file_system_entries (name_order ?cmp 2) sample_fs_tree (map entry_of sample_leaf) 4 1 = Some ?es"
    by (rule sample_fs_entries_by [OF _ sorted])
      (simp add: name_order_def entry_compare_def read_directory_record_key_def fs_key_def entry_of_def)
  have folding: "use_case_folding sample_fs_tree = 0" by (simp add: sample_fs_tree_def)
  have well: "names_well ?cmp 0 2 ?es"
    unfolding names_well_def sample_name_order DATA_TYPE_DIRECTORY_RECORD_def
    using keys sample_record_compare unfolding es by auto
  have first: "name_order ?cmp 2 (hd ?es) \<le> name_target 2"
    using sample_name_order by (auto simp: es DATA_TYPE_DIRECTORY_RECORD_def)
  have found: "find (has_name ?cmp 0 2) ?es = Some (entry_of sample_record)"
    using keys sample_record_compare unfolding es by (simp add: has_name_def DATA_TYPE_DIRECTORY_RECORD_def)
  have data: "value_data (entry_of sample_record) = Some (le_encode 8 5 @ replicate 10 0)" "value_data_size (entry_of sample_record) = 18"
    by (simp_all add: entry_of_def sample_record_def)
  have "collected directory_records 2 [] False ?es = bindR (read_directory_record_entry DATA_TYPE_DIRECTORY_RECORD (entry_of sample_record)) (\<lambda>r. Inr ([r], True))"
    using keys unfolding es by (simp add: collected_def wanted_def directory_records_def DATA_TYPE_DIRECTORY_RECORD_def bindR_def split: sum.split)
  then have read: "read_directory_record_entry DATA_TYPE_DIRECTORY_RECORD (entry_of sample_record) =
      Inr \<lparr>record_identifier = 5, record_name_size = 2, record_name = Some [97, 0], record_name_hash = 1988076, record_added_time = 0\<rparr>"
    using sample_collected(1)
    by (cases "read_directory_record_entry DATA_TYPE_DIRECTORY_RECORD (entry_of sample_record)") simp_all
  show "path_well sample_fs_tree (map entry_of sample_leaf) 4 1 ?es (segment_comparison utf8_decoder utf8_decoder 0) 2 [[0x61]]"
    using entries well first found by (simp add: folding es split: sum.split)
  show "resolve_path (segment_comparison utf8_decoder utf8_decoder 0) 0 ?es 2 None [[0x61]] =
     Inr (Some (5, Some \<lparr>record_identifier = 5, record_name_size = 2, record_name = Some [97, 0], record_name_hash = 1988076,
       record_added_time = 0\<rparr>))"
    using found read by simp
qed

theorem path_lookup_correct_witness:
  "\<exists>inode record_found s'. file_system_btree_get_inode_by_utf8_path utf8_decoder sample_fs_tree 2 [0x2f, 0x61] 2 4 None None
      (sample_fs_state, crc32_globals_start) = (Inr (Some (inode, Some record_found)), s') \<and>
    inode_identifier inode = 5 \<and> record_name record_found = Some [97, 0]"
proof -
  have valid: "name_state_valid sample_fs_tree (\<lambda>s. s) (\<lambda>s. s) (sample_fs_state, crc32_globals_start)"
    using sample_fs_valid(1) by (simp add: name_state_valid_def crc32_globals_inv_def crc32_globals_start_def)
  have folding: "use_case_folding sample_fs_tree = 0" by (simp add: sample_fs_tree_def)
  have len: "2 \<le> length [0x2f, 0x61 :: 8 word]" "length [0x2f, 0x61 :: 8 word] \<le> SSIZE_MAX" by (simp_all add: SSIZE_MAX_def)
  have decoded: "\<forall>segment\<in>set [[0x61]]. characters utf8_decoder segment \<noteq> None" using utf8_samples(6) by simp
  have keys: "map fs_key (map entry_of sample_fs_leaf) = [(2, 3), (2, 9), (5, 3), (5, 8)]"
    using sample_fs_keys(1) by (auto simp: sample_fs_leaf_def fs_order_def prod_eq_iff)
  have first: "first_of_identifier (5, DATA_TYPE_INODE) (map entry_of sample_fs_leaf)"
    unfolding first_of_identifier_def keys using keys by (auto simp: DATA_TYPE_INODE_def sample_fs_leaf_def)
  have found: "find (\<lambda>e. fs_key e = (5, DATA_TYPE_INODE)) (map entry_of sample_fs_leaf) = Some (entry_of (sample_fs_key 3 5, sample_inode))"
    using keys by (auto simp: DATA_TYPE_INODE_def sample_fs_leaf_def)
  have inode: "\<exists>inode. read_inode_entry (entry_of (sample_fs_key 3 5, sample_inode)) = Inr inode \<and> inode_identifier inode = 5"
    by (simp add: read_inode_entry_def inode_initialize_def inode_read_key_data_def inode_read_value_data_def entry_of_def
        sample_fs_key_def sample_inode_def SSIZE_MAX_def mask_60 [simplified] Let_def)
  have "\<exists>s'. file_system_btree_get_inode_by_path utf8_decoder utf8_decoder sample_fs_tree 2 [0x2f, 0x61] (length [0x2f, 0x61 :: 8 word]) 4 None None
      (sample_fs_state, crc32_globals_start) = (bindR (Inr (Some (5, Some \<lparr>record_identifier = 5, record_name_size = 2,
        record_name = Some [97, 0], record_name_hash = 1988076, record_added_time = 0\<rparr>))) (inode_of_path (map entry_of sample_fs_leaf)), s')"
    by (rule path_lookup_correct [OF valid sample_fs_valid(2) utf8_path_decoder file_system_entries_by_key [OF sample_fs_entries] _ len
          sample_segments decoded])
      (use sample_path_well first folding in \<open>simp_all add: MAXIMUM_BTREE_NODE_RECURSION_DEPTH_def\<close>)
  then show ?thesis
    using found inode by (auto simp: file_system_btree_get_inode_by_utf8_path_def inode_of_path_def numeral_2_eq_2)
qed

end
