(* ===== verification/File_System_Name_Safety.thy ===== *)
theory File_System_Name_Safety
  imports File_System_Paths
begin

text \<open>
  The lookups by name and by path on arbitrary blocks, names and strings, and what they get wrong whatever
  the tree holds.
\<close>

section \<open>Comparison and hash\<close>

lemma name_compare_loop_safe:
  "safe (name_compare_loop decode_name decode fold_case name name_size string string_length j i)"
proof (induction "name_size - j" arbitrary: i j rule: less_induct)
  case less
  show ?case
  proof (cases "j < name_size \<and> i < string_length")
    case True
    have "safe (name_compare_loop decode_name decode fold_case name name_size string string_length j' i')"
      if "unicode_character_copy decode_name name name_size j = Some (c, j')" for c j' i'
      using less [of j' i'] diff_less_mono2 [OF copy_later [OF that]] True by blast
    then show ?thesis
      using True by (simp add: name_compare_loop.simps [of _ _ _ _ name_size _ _ j] name_get_mapping_eq split: option.split)
  qed (auto simp: name_compare_loop.simps [of _ _ _ _ name_size _ _ j])
qed

lemma without_end_of_string_safe: "l \<le> length units \<Longrightarrow> safe (without_end_of_string units l)"
  by (auto simp: without_end_of_string_def)

lemma name_compare_safe:
  assumes "name_size \<le> length name" "string_length \<le> length string"
  shows "safe (name_compare_with_string decode_name decode name name_size string string_length fold_case)"
  using assms name_compare_loop_safe
  by (auto simp: name_compare_with_string_def intro!: safe_bindR without_end_of_string_safe)

lemma name_hash_loop_safe:
  assumes "table = map (\<lambda>i. crc32_shifts 8 0x82f63b78 (of_nat i)) [0..<256]"
  shows "safe (name_hash_loop decode fold_case table string string_length i v)"
proof (induction "string_length - i" arbitrary: i v rule: less_induct)
  case less
  show ?case
  proof (cases "i < string_length")
    case True
    have "safe (name_hash_loop decode fold_case table string string_length i' v')"
      if "unicode_character_copy decode string string_length i = Some (c, i')" for c i' v'
      using less [of i' v'] diff_less_mono2 [OF copy_later [OF that] True] by blast
    then show ?thesis
      using True by (simp add: name_hash_loop.simps [of _ _ _ _ string_length i] name_hash_get_mapping_eq
          weak_crc32_loop_register [OF assms] split: option.split)
  qed (simp add: name_hash_loop.simps [of _ _ _ _ string_length i])
qed

lemma name_hash_safe:
  assumes "crc32_globals_inv g"
  shows "post lib_error (\<lambda>(h, g'). crc32_globals_inv g') (name_hash_calculate_from_string decode string string_length fold_case g)"
proof -
  define g' where "g' = (if crc32_table_computed g then g else checksum_initialize_crc32_table 0x82f63b78 g)"
  have "crc32_table g' = map (\<lambda>i. crc32_shifts 8 0x82f63b78 (of_nat i)) [0..<256]"
    using assms by (simp add: g'_def crc32_globals_inv_def checksum_initialize_crc32_table_def del: upt_rec_numeral)
  note loop = name_hash_loop_safe [OF this, unfolded safe_post]
  have "crc32_globals_inv g'" using assms crc32_globals_inv_initialize by (simp add: g'_def)
  then show ?thesis
    unfolding name_hash_calculate_from_string_def Let_def g'_def [symmetric]
    by (intro post_bindR [OF loop]) simp
qed

section \<open>Nodes\<close>

definition record_ok :: "directory_record \<Rightarrow> bool" where
  "record_ok r \<longleftrightarrow> (\<forall>name. record_name r = Some name \<longrightarrow> record_name_size r \<le> length name)"

definition comparison_safe :: "name_comparison \<Rightarrow> bool" where
  "comparison_safe compare \<longleftrightarrow> (\<forall>r fold_case. record_ok r \<longrightarrow> safe (compare r fold_case))"

lemma string_comparison_safe:
  assumes "string_length \<le> length string"
  shows "comparison_safe (string_comparison decode_name decode string string_length name_hash)"
  using name_compare_safe [OF _ assms]
  by (auto simp: comparison_safe_def record_ok_def string_comparison_def directory_record_compare_name_with_string_def split: option.split)

lemma post_of_safe: "safe r \<Longrightarrow> (\<And>x. r = Inr x \<Longrightarrow> P x) \<Longrightarrow> post lib_error P r"
  by (cases r) (auto simp: safe_def lib_error_def)

lemma read_directory_record_key_ok:
  assumes "entry_data_ok (key_data e) (key_data_size e)"
  shows "post lib_error record_ok (read_directory_record_key e)"
proof -
  have slice: "rd_slice data i n = Inr xs \<Longrightarrow> length xs = n" for data :: bytes and i n xs
    by (auto simp: rd_slice_eq_Inr)
  have "safe (directory_record_read_key_data r (key_data e) (key_data_size e))" for r
    using directory_record_read_safe(1) [OF assms] by blast
  moreover have "directory_record_read_key_data r (key_data e) (key_data_size e) = Inr r' \<Longrightarrow> record_ok r'" for r r'
    by (auto simp: directory_record_read_key_data_def record_ok_def Let_def result_simps dest!: slice split: option.splits if_splits)
  ultimately have "post lib_error record_ok (directory_record_read_key_data r (key_data e) (key_data_size e))" for r
    using post_of_safe by blast
  then show ?thesis by (simp add: read_directory_record_key_def directory_record_initialize_def)
qed


lemma entry_compared_safe:
  assumes "block_node n" "e \<in> set (entries_array n)" "comparison_safe compare" "\<And>r c. safe (k r c)"
  shows "safe (bindR (read_directory_record_key e) (\<lambda>r. bindR (compare r fold_case) (k r)))"
proof -
  have "post lib_error record_ok (read_directory_record_key e)"
    by (rule read_directory_record_key_ok [OF block_node_entry(1) [OF assms(1,2)]])
  then show ?thesis
    using assms(3,4) by (cases "read_directory_record_key e") (auto simp: comparison_safe_def lib_error_def intro!: safe_bindR)
qed

lemma scan_leaf_by_name_safe:
  assumes "block_node n" "comparison_safe compare" "set is \<subseteq> {..<length (entries_array n)}"
  shows "safe (scan_leaf_by_name compare fold_case n parent is)"
  using assms(3)
proof (induction "is")
  case (Cons i "is")
  let ?e = "entries_array n ! i"
  have i: "i < length (entries_array n)" using Cons.prems by simp
  then have mem: "?e \<in> set (entries_array n)" by simp
  note ok = block_node_entry [OF assms(1) mem]
  have IH: "safe (scan_leaf_by_name compare fold_case n parent is)" using Cons by simp
  have "safe (directory_record_read_value_data r (value_data ?e) (value_data_size ?e))" for r
    using directory_record_read_safe(2) [OF ok(2)] by blast
  then have "safe (bindR (read_directory_record_key ?e) (\<lambda>r. bindR (compare r fold_case) (\<lambda>c.
      if c = COMPARE_EQUAL then bindR (directory_record_read_value_data r (value_data ?e) (value_data_size ?e)) (\<lambda>r. Inr (Some r))
      else scan_leaf_by_name compare fold_case n parent is)))"
    using IH by (intro entry_compared_safe [OF assms(1) mem assms(2)]) auto
  then show ?case
    using i ok(1) IH by (cases "key_data ?e") (auto simp: btree_node_get_entry_by_index_def entry_data_ok_def)
qed simp

lemma scan_branch_by_name_safe:
  assumes "block_node n" "comparison_safe compare" "set is \<subseteq> {..<length (entries_array n)}" "set_option previous \<subseteq> set (entries_array n)"
  shows "post lib_error (\<lambda>entry. set_option entry \<subseteq> set (entries_array n)) (scan_branch_by_name compare n parent is previous)"
  using assms(3,4)
proof (induction "is" arbitrary: previous)
  case (Cons i "is")
  let ?e = "entries_array n ! i" and ?P = "\<lambda>entry. set_option entry \<subseteq> set (entries_array n)"
  have i: "i < length (entries_array n)" using Cons.prems by simp
  then have mem: "?e \<in> set (entries_array n)" by simp
  note ok = block_node_entry [OF assms(1) mem]
  have IH: "post lib_error ?P (scan_branch_by_name compare n parent is (Some ?e))" using Cons mem by simp
  have "post lib_error record_ok (read_directory_record_key ?e)" by (rule read_directory_record_key_ok [OF ok(1)])
  then have compared: "post lib_error ?P (bindR (read_directory_record_key ?e) (\<lambda>r. bindR (compare r 0) (\<lambda>c.
      if c = COMPARE_LESS then Inr previous else scan_branch_by_name compare n parent is (Some ?e))))"
  proof (rule post_bindR)
    fix r assume "record_ok r"
    then have "post lib_error (\<lambda>_. True) (compare r 0)" using assms(2) by (simp add: comparison_safe_def safe_post)
    then show "post lib_error ?P (bindR (compare r 0) (\<lambda>c.
        if c = COMPARE_LESS then Inr previous else scan_branch_by_name compare n parent is (Some ?e)))"
      by (rule post_bindR) (use Cons.prems(2) IH in simp)
  qed
  show ?case
  proof (cases "key_data ?e = None \<or> key_data_size ?e < 8")
    case True
    then show ?thesis by (cases "key_data ?e") (auto simp: btree_node_get_entry_by_index_def i)
  next
    case False
    then obtain key where key: "key_data ?e = Some key" "8 \<le> key_data_size ?e" "8 \<le> length key"
      using ok(1) by (auto simp: entry_data_ok_def)
    then show ?thesis
      using i compared IH Cons.prems(2) by (simp add: btree_node_get_entry_by_index_def Let_def)
  qed
qed simp

section \<open>Trees\<close>

lemma leaf_by_name_safe:
  assumes "block_node n" "comparison_safe compare"
  shows "post lib_error (\<lambda>_. True) (get_directory_record_from_leaf_node_by_name compare fold_case n parent)"
proof -
  obtain h where "node_header n = Some h" using assms(1) by (auto simp: block_node_def)
  then show ?thesis
    using scan_leaf_by_name_safe [OF assms, of "[0..<length (entries_array n)]" fold_case parent]
    by (auto simp: get_directory_record_from_leaf_node_by_name_def btree_node_is_leaf_node_def btree_node_get_number_of_entries_def
        safe_post lessThan_atLeast0)
qed

lemma branch_by_name_safe:
  assumes "comparison_safe compare"
  shows "file_system_state_valid tree contents om_contents s \<Longrightarrow> block_node n \<Longrightarrow>
    call_safe (file_system_state_valid tree contents om_contents) (\<lambda>_. True)
      (get_directory_record_from_branch_node_by_name compare tree parent transaction levels n s)"
proof (induction levels arbitrary: n s)
  case (Suc levels)
  let ?valid = "file_system_state_valid tree contents om_contents"
  obtain h where h: "node_header n = Some h" using Suc.prems(2) by (auto simp: block_node_def)
  have scan: "post lib_error (\<lambda>entry. set_option entry \<subseteq> set (entries_array n))
      (scan_branch_by_name compare n parent [0..<length (entries_array n)] None)"
    by (rule scan_branch_by_name_safe [OF Suc.prems(2) assms]) auto
  let ?rest = "\<lambda>sub_node. bindS (liftS (btree_node_is_leaf_node sub_node)) (\<lambda>is_leaf_node.
      if is_leaf_node \<noteq> 0
      then liftS (get_directory_record_from_leaf_node_by_name compare (use_case_folding tree) sub_node parent)
      else get_directory_record_from_branch_node_by_name compare tree parent transaction levels sub_node)"
  have sub: "call_safe ?valid (\<lambda>_. True) (?rest m s')" if valid: "?valid s'" and m: "block_node m" for m s'
  proof -
    obtain hm where "node_header m = Some hm" using m by (auto simp: block_node_def)
    then show ?thesis
      using Suc.IH [OF valid m] leaf_by_name_safe [OF m assms] valid by (simp add: btree_node_is_leaf_node_def call_safe_def)
  qed
  have "call_safe ?valid (\<lambda>_. True) (bindS (liftS (scan_branch_by_name compare n parent [0..<length (entries_array n)] None))
      (\<lambda>previous_entry. bindS (file_system_btree_get_child tree transaction n previous_entry) ?rest) s)"
  proof (rule call_safe_bindS, rule call_safe_liftS, rule Suc.prems(1), rule scan)
    fix previous s'
    assume valid: "?valid s'" and previous: "set_option previous \<subseteq> set (entries_array n)"
    show "call_safe ?valid (\<lambda>_. True) (bindS (file_system_btree_get_child tree transaction n previous) ?rest s')"
      by (rule call_safe_bindS, rule get_child_safe [OF valid Suc.prems(2) previous]) (rule sub)
  qed
  then show ?case
    using h Suc.prems(1) by (simp add: btree_node_is_leaf_node_def btree_node_get_number_of_entries_def)
qed simp

lemma get_directory_record_by_name_safe:
  assumes "comparison_safe compare" "file_system_state_valid tree contents om_contents s" "block_node n"
  shows "call_safe (file_system_state_valid tree contents om_contents) (\<lambda>_. True)
    (get_directory_record_by_name compare tree parent transaction n x s)"
  using branch_by_name_safe [OF assms] leaf_by_name_safe [OF assms(3,1)] assms(2)
  by (simp add: get_directory_record_by_name_def call_safe_def del: get_directory_record_from_branch_node_by_name.simps)

definition name_call_valid ::
    "('c, 'o) file_system_btree \<Rightarrow> ('c \<Rightarrow> nat \<rightharpoonup> btree_node) \<Rightarrow> ('o \<Rightarrow> nat \<rightharpoonup> btree_node)
     \<Rightarrow> ('c, 'o) file_system_btree_state \<times> crc32_globals \<Rightarrow> bool" where
  "name_call_valid tree contents om_contents s \<longleftrightarrow>
     file_system_state_valid tree contents om_contents (fst s) \<and> crc32_globals_inv (snd s)"

lemma on_tree_safe:
  assumes "call_safe (file_system_state_valid tree contents om_contents) P (m (fst s))" "name_call_valid tree contents om_contents s"
  shows "call_safe (name_call_valid tree contents om_contents) P (on_tree m s)"
  using assms by (cases s) (auto simp: on_tree_def name_call_valid_def call_safe_def split: prod.split)

lemma on_globals_hash_safe:
  assumes "name_call_valid tree contents om_contents s"
  shows "call_safe (name_call_valid tree contents om_contents) (\<lambda>_. True)
    (on_globals (name_hash_calculate_from_string decode string string_length fold_case) s)"
proof -
  obtain st g where s: "s = (st, g)" by (cases s)
  then have "crc32_globals_inv g" using assms by (simp add: name_call_valid_def)
  from name_hash_safe [OF this, of decode string string_length fold_case] assms show ?thesis
    by (cases "name_hash_calculate_from_string decode string string_length fold_case g") (auto simp: s on_globals_def name_call_valid_def)
qed

lemma find_segment_end_safe:
  assumes "path_decoder decode" "l \<le> length string"
  shows "i \<le> l \<Longrightarrow> post lib_error (\<lambda>(j, f). j \<le> l) (find_segment_end decode string l i)"
proof (induction "l - i" arbitrary: i rule: less_induct)
  case less
  show ?case
  proof (cases "i < l")
    case True
    have "i' \<le> l \<and> post lib_error (\<lambda>(j, f). j \<le> l) (find_segment_end decode string l i')"
      if copy: "unicode_character_copy decode string l i = Some (c, i')" for c i'
    proof -
      obtain n where n: "decode (units_from string l i) = Some (c, n)" "i' = i + Suc n"
        using copy by (auto simp: unicode_character_copy_def split: option.splits)
      then have "Suc n \<le> length (units_from string l i)" using assms(1) unfolding path_decoder_def by blast
      then have "i' \<le> l" using assms(2) n(2) by simp
      then show ?thesis using less.hyps [of i'] diff_less_mono2 [OF copy_later [OF copy] True] by blast
    qed
    then show ?thesis
      using True by (auto simp: find_segment_end.simps [of decode string l i] split: option.split)
  qed (use less.prems in \<open>subst find_segment_end.simps, simp\<close>)
qed

lemma path_loop_safe:
  assumes "block_node n" "string_length \<le> length string" "path_decoder decode"
  shows "name_call_valid tree contents om_contents s \<Longrightarrow> i \<le> string_length \<Longrightarrow>
    call_safe (name_call_valid tree contents om_contents) (\<lambda>_. True)
      (path_loop decode_name decode tree transaction n x string string_length i parent last_record s)"
proof (induction "string_length - i" arbitrary: i parent last_record s rule: less_induct)
  case less
  let ?valid = "name_call_valid tree contents om_contents"
  show ?case
  proof (cases "i < string_length")
    case True
    show ?thesis
    proof (cases "find_segment_end decode string string_length i")
      case (Inl e)
      then have "lib_error e" using find_segment_end_safe [OF assms(3,2) less.prems(2)] by simp
      then show ?thesis using True Inl less.prems(1) by (simp add: path_loop.simps [of _ _ _ _ _ _ _ string_length i])
    next
      case (Inr jf)
      obtain j f where jf: "jf = (j, f)" by (cases jf)
      have j: "i < j" "j \<le> string_length"
        using find_segment_end_later [of decode string string_length i j f] find_segment_end_safe [OF assms(3,2) less.prems(2)] Inr jf True by simp_all
      let ?segment = "drop i string" and ?length = "j - (i + f)"
      have length: "?length \<le> length ?segment" using j(2) assms(2) by simp
      have "call_safe ?valid (\<lambda>_. True) (bindS (on_globals (name_hash_calculate_from_string decode ?segment ?length (use_case_folding tree)))
          (\<lambda>name_hash. bindS (on_tree (get_directory_record_by_name (string_comparison decode_name decode ?segment ?length name_hash)
            tree parent transaction n x)) (\<lambda>found. case found of None \<Rightarrow> returnS None
              | Some r \<Rightarrow> path_loop decode_name decode tree transaction n x string string_length j (record_identifier r) (Some r))) s)"
      proof (rule call_safe_bindS, rule on_globals_hash_safe [OF less.prems(1)], rule call_safe_bindS)
        fix name_hash s'
        assume valid: "?valid s'"
        then show "call_safe ?valid (\<lambda>_. True) (on_tree (get_directory_record_by_name
            (string_comparison decode_name decode ?segment ?length name_hash) tree parent transaction n x) s')"
          by (intro on_tree_safe get_directory_record_by_name_safe string_comparison_safe length assms(1))
            (simp_all add: name_call_valid_def)
      next
        fix found s'
        assume "?valid s'"
        then show "call_safe ?valid (\<lambda>_. True) ((case found of None \<Rightarrow> returnS None
            | Some r \<Rightarrow> path_loop decode_name decode tree transaction n x string string_length j (record_identifier r) (Some r)) s')"
          using less.hyps [of j s'] j True by (auto split: option.split)
      qed
      then show ?thesis
        using True Inr less.prems(1) by (simp add: jf path_loop.simps [of _ _ _ _ _ _ _ string_length i] Let_def)
    qed
  qed (use less.prems(1) in \<open>simp add: path_loop.simps [of _ _ _ _ _ _ _ string_length i]\<close>)
qed

section \<open>Properties\<close>

text \<open>C22. Whatever the blocks of the volume hold and whatever the string is, the
  lookup of a path returns, with a result or one of the errors of the library and without an access
  outside a name, a string, a table or a node, and leaves the caches in step with the blocks.\<close>

theorem path_lookup_safe:
  assumes "name_call_valid tree contents om_contents s" "string_length \<le> length string" "path_decoder decode"
  shows "call_safe (name_call_valid tree contents om_contents) (\<lambda>_. True)
    (file_system_btree_get_inode_by_path decode_name decode tree parent string string_length transaction inode last_record s)"
proof -
  let ?valid = "name_call_valid tree contents om_contents"
  have st: "file_system_state_valid tree contents om_contents (fst s)" if "?valid s" for s using that by (simp add: name_call_valid_def)
  show ?thesis
  proof (cases "string_length > SSIZE_MAX \<or> inode \<noteq> None \<or> last_record \<noteq> None")
    case True
    then show ?thesis using assms(1) by (auto simp: file_system_btree_get_inode_by_path_def)
  next
    case False
    have final: "call_safe ?valid (\<lambda>_. True) (bindS (on_tree (file_system_btree_get_entry_by_identifier tree oid DATA_TYPE_INODE transaction))
        (\<lambda>entry. case entry of None \<Rightarrow> failS RUNTIME_GET_FAILED
          | Some (node, None) \<Rightarrow> failS RUNTIME_VALUE_MISSING
          | Some (node, Some entry) \<Rightarrow> bindS (liftS (read_inode_entry entry)) (\<lambda>inode. returnS (Some (inode, r)))) s')"
      if "?valid s'" for oid r s'
    proof (rule call_safe_bindS, rule on_tree_safe, rule get_entry_by_identifier_safe, rule st [OF that], rule that)
      fix found s''
      assume "?valid s''" "found_in_node found"
      then show "call_safe ?valid (\<lambda>_. True) ((case found of None \<Rightarrow> failS RUNTIME_GET_FAILED
          | Some (node, None) \<Rightarrow> failS RUNTIME_VALUE_MISSING
          | Some (node, Some entry) \<Rightarrow> bindS (liftS (read_inode_entry entry)) (\<lambda>inode. returnS (Some (inode, r)))) s'')"
        by (auto simp: found_in_node_def bindS_def safe_def lib_error_def dest!: read_inode_entry_safe split: option.split sum.split)
    qed
    show ?thesis
      unfolding file_system_btree_get_inode_by_path_def if_not_P [OF False [unfolded de_Morgan_disj, THEN conjunct1]]
        if_not_P [OF False [unfolded de_Morgan_disj, THEN conjunct2, folded de_Morgan_disj]]
    proof (rule call_safe_bindS, rule on_tree_safe, rule get_root_node_safe, rule st [OF assms(1)], rule assms(1))
      fix root s1
      assume s1: "?valid s1" "\<forall>n. root = Some n \<longrightarrow> block_node n"
      show "call_safe ?valid (\<lambda>_. True) ((case root of None \<Rightarrow> returnS None
          | Some root_node \<Rightarrow>
              bindS (liftS (btree_node_is_leaf_node root_node)) (\<lambda>is_leaf_node.
              bindS (liftS (if string_length > 0
                  then bindR (rd string 0) (\<lambda>unit. Inr (if unat unit = SEPARATOR then 1 else 0)) else Inr 0)) (\<lambda>string_index.
              bindS (if string_length = 0 \<or> string_length = 1 then returnS (Some (parent, None))
                  else path_loop decode_name decode tree transaction root_node is_leaf_node string string_length
                    string_index parent None) (\<lambda>found.
                case found of
                  None \<Rightarrow> returnS None
                | Some (lookup_identifier, directory_record) \<Rightarrow>
                    bindS (on_tree (file_system_btree_get_entry_by_identifier tree lookup_identifier DATA_TYPE_INODE transaction))
                      (\<lambda>entry.
                      case entry of
                        None \<Rightarrow> failS RUNTIME_GET_FAILED
                      | Some (node, None) \<Rightarrow> failS RUNTIME_VALUE_MISSING
                      | Some (node, Some entry) \<Rightarrow>
                          bindS (liftS (read_inode_entry entry)) (\<lambda>inode. returnS (Some (inode, directory_record)))))))) s1)"
      proof (cases root)
        case (Some n)
        then have n: "block_node n" using s1(2) by simp
        then obtain h where h: "btree_node_is_leaf_node n = Inr h" by (auto simp: block_node_def btree_node_is_leaf_node_def)
        have index: "post lib_error (\<lambda>i. i \<le> string_length) (if string_length > 0
            then bindR (rd string 0) (\<lambda>unit. Inr (if unat unit = SEPARATOR then 1 else 0)) else Inr 0)"
          using assms(2) by (cases string) auto
        have loop: "call_safe ?valid (\<lambda>_. True) ((if string_length = 0 \<or> string_length = 1 then returnS (Some (parent, None))
            else path_loop decode_name decode tree transaction n h string string_length i parent None) s2)"
          if "?valid s2" "i \<le> string_length" for i s2
          using path_loop_safe [OF n assms(2,3) that] that(1) by simp
        show ?thesis
          unfolding Some option.case h bindS_simps
        proof (rule call_safe_bindS, rule call_safe_liftS, rule s1(1), rule index)
          fix i s2
          assume s2: "?valid s2" "i \<le> string_length"
          let ?rest = "\<lambda>found. case found of
              None \<Rightarrow> returnS None
            | Some (lookup_identifier, directory_record) \<Rightarrow>
                bindS (on_tree (file_system_btree_get_entry_by_identifier tree lookup_identifier DATA_TYPE_INODE transaction))
                  (\<lambda>entry.
                  case entry of
                    None \<Rightarrow> failS RUNTIME_GET_FAILED
                  | Some (node, None) \<Rightarrow> failS RUNTIME_VALUE_MISSING
                  | Some (node, Some entry) \<Rightarrow>
                      bindS (liftS (read_inode_entry entry)) (\<lambda>inode. returnS (Some (inode, directory_record))))"
          show "call_safe ?valid (\<lambda>_. True) (bindS (if string_length = 0 \<or> string_length = 1
              then returnS (Some (parent, None))
              else path_loop decode_name decode tree transaction n h string string_length i parent None) ?rest s2)"
          proof (rule call_safe_bindS, rule loop [OF s2])
            fix found s3
            assume s3: "?valid s3"
            show "call_safe ?valid (\<lambda>_. True) (?rest found s3)"
              using s3 by (cases found) (auto intro!: final)
          qed
        qed
      qed (use s1(1) in simp)
    qed
  qed
qed

theorem path_lookup_safe_witness:
  "call_safe (name_call_valid sample_fs_tree (\<lambda>s. s) (\<lambda>s. s)) (\<lambda>_. True)
    (file_system_btree_get_inode_by_utf8_path utf8_decoder sample_fs_tree 77 [0x2f, 0x2f, 0xff] 3 9 None None (sample_fs_state, crc32_globals_start))"
proof -
  have "name_call_valid sample_fs_tree (\<lambda>s. s) (\<lambda>s. s) (sample_fs_state, crc32_globals_start)"
    using sample_fs_valid(3) by (simp add: name_call_valid_def crc32_globals_inv_def crc32_globals_start_def)
  from path_lookup_safe [OF this _ utf8_path_decoder, of 3 "[0x2f, 0x2f, 0xff]"] show ?thesis
    by (simp add: file_system_btree_get_inode_by_utf8_path_def)
qed

text \<open>Without an entry there is no node to read an inode from, and with one the lookup has failed.\<close>

lemma inode_by_name_no_inode:
  "fst (file_system_btree_get_inode_by_name decode_name decode tree parent string string_length transaction inode last_record s) \<noteq> Inr (Some found)"
  by (auto simp: file_system_btree_get_inode_by_name_def bindS_def split: prod.splits sum.splits option.splits)




text \<open>A string of one unit is taken for the root of the path: any name of one unit leads to the directory itself.\<close>

lemma path_of_one_unit:
  "file_system_btree_get_inode_by_path decode_name decode tree parent [a] 1 transaction None None s =
     file_system_btree_get_inode_by_path decode_name decode tree parent [b] 1 transaction None None s"
  unfolding file_system_btree_get_inode_by_path_def
  by (simp add: bindS_def [of "on_tree (file_system_btree_get_root_node tree (fs_root_node_block_number tree))"]
      split: prod.split sum.split option.split)
    (auto simp: bindS_def split: sum.split)

end
