(* ===== verification/Encryption.thy ===== *)
theory Encryption
  imports Apfs_Prelude
begin

text \<open>
  Decryption of sectors and AES key unwrapping, \<open>libfsapfs_encryption_context.c\<close>, and the key
  derivation of \<open>libfsapfs_password.c\<close>. The ciphers and hashes of \<open>libcaes\<close> and \<open>libhmac\<close> are
  parameters.
\<close>

section \<open>Cipher operations\<close>

text \<open>AES-XTS: a new context, its keys with their sizes in bits, the decryption with a tweak value, and the value of \<open>LIBCAES_CRYPT_MODE_DECRYPT\<close>.\<close>

record 'x xts_operations =
  tweaked_context_initialize :: "'x result"
  tweaked_context_set_keys :: "'x \<Rightarrow> bytes \<Rightarrow> nat \<Rightarrow> bytes \<Rightarrow> nat \<Rightarrow> 'x result"
  crypt_xts :: "'x \<Rightarrow> bytes \<Rightarrow> bytes \<Rightarrow> bytes result"
  caes_mode_decrypt :: int

text \<open>AES: the context of a decryption key with its size in bits, and the decryption of a block.\<close>

record 'a aes_operations =
  aes_context :: "bytes \<Rightarrow> nat \<Rightarrow> 'a result"
  crypt_ecb :: "'a \<Rightarrow> bytes \<Rightarrow> bytes result"

text \<open>HMAC-SHA-256 of data with a key, and SHA-256.\<close>

record hash_operations =
  calculate_hmac :: "bytes \<Rightarrow> bytes \<Rightarrow> bytes result"
  calculate_sha256 :: "bytes \<Rightarrow> bytes result"

section \<open>Encryption context\<close>

definition METHOD_AES_128_XTS :: nat where
  "METHOD_AES_128_XTS = 2"

definition CRYPT_MODE_DECRYPT :: int where
  "CRYPT_MODE_DECRYPT = 0"

record 'x encryption_context =
  encryption_method :: nat
  decryption_context :: 'x

definition encryption_context_initialize ::
    "'x xts_operations \<Rightarrow> 'x encryption_context option \<Rightarrow> nat \<Rightarrow> 'x encryption_context result" where
  "encryption_context_initialize ops encryption_context method_value =
     (if encryption_context \<noteq> None then Inl RUNTIME_VALUE_ALREADY_SET
      else if method_value \<noteq> METHOD_AES_128_XTS then Inl ARGUMENT_UNSUPPORTED_VALUE
      else bindR (tweaked_context_initialize ops) (\<lambda>decryption.
             Inr \<lparr>encryption_method = method_value, decryption_context = decryption\<rparr>))"

definition encryption_context_set_keys ::
    "'x xts_operations \<Rightarrow> 'x encryption_context \<Rightarrow> bytes \<Rightarrow> nat \<Rightarrow> bytes \<Rightarrow> nat \<Rightarrow> 'x encryption_context result" where
  "encryption_context_set_keys ops encryption_context key key_size tweak_key tweak_key_size =
     (if key_size > SSIZE_MAX then Inl ARGUMENT_VALUE_EXCEEDS_MAXIMUM
      else if tweak_key_size > SSIZE_MAX then Inl ARGUMENT_VALUE_EXCEEDS_MAXIMUM
      else
        let key_byte_size = (if encryption_method encryption_context = METHOD_AES_128_XTS then 16 else 0)
        in if key_size < key_byte_size then Inl ARGUMENT_VALUE_TOO_SMALL
           else if tweak_key_size < key_byte_size then Inl ARGUMENT_VALUE_TOO_SMALL
           else
             let key_bit_size = key_byte_size * 8
             in bindR (tweaked_context_set_keys ops (decryption_context encryption_context)
                         key key_bit_size tweak_key key_bit_size) (\<lambda>decryption.
                  Inr (encryption_context\<lparr>decryption_context := decryption\<rparr>)))"

text \<open>The tweak value of a sector: its number in the first 8 of 16 bytes.\<close>

definition tweak_value :: "nat \<Rightarrow> bytes" where
  "tweak_value sector_number = le_encode 8 sector_number @ replicate 8 0"

text \<open>The loop over the sectors; \<open>None\<close> stands for not returning, as with sectors of no bytes.\<close>

partial_function (option) crypt_sectors ::
    "'x xts_operations \<Rightarrow> 'x encryption_context \<Rightarrow> bytes \<Rightarrow> nat \<Rightarrow> nat \<Rightarrow> nat \<Rightarrow> nat \<Rightarrow> bytes \<Rightarrow> bytes buffer_result option" where
  "crypt_sectors ops encryption_context input_data input_data_size bytes_per_sector data_offset sector_number output_data =
     (if data_offset < input_data_size then
        case bindR (rd_slice input_data data_offset bytes_per_sector) (\<lambda>sector.
               bindR (crypt_xts ops (decryption_context encryption_context) (tweak_value sector_number) sector)
                 (wr_slice output_data data_offset)) of
          Inl e \<Rightarrow> Some (Inl (e, output_data))
        | Inr output_data \<Rightarrow>
            crypt_sectors ops encryption_context input_data input_data_size bytes_per_sector
              (data_offset + bytes_per_sector) ((sector_number + 1) mod 2 ^ 64) output_data
      else Some (Inr output_data))"

definition encryption_context_crypt ::
    "'x xts_operations \<Rightarrow> 'x encryption_context \<Rightarrow> int \<Rightarrow> bytes \<Rightarrow> nat \<Rightarrow> bytes \<Rightarrow> nat \<Rightarrow> nat \<Rightarrow> nat
     \<Rightarrow> bytes buffer_result option" where
  "encryption_context_crypt ops encryption_context mode input_data input_data_size output_data output_data_size
       sector_number bytes_per_sector =
     (if mode \<noteq> CRYPT_MODE_DECRYPT then Some (Inl (ARGUMENT_UNSUPPORTED_VALUE, output_data))
      else if input_data_size > SSIZE_MAX then Some (Inl (ARGUMENT_VALUE_EXCEEDS_MAXIMUM, output_data))
      else if output_data_size > SSIZE_MAX then Some (Inl (ARGUMENT_VALUE_EXCEEDS_MAXIMUM, output_data))
      else if output_data_size < input_data_size then Some (Inl (ARGUMENT_VALUE_OUT_OF_BOUNDS, output_data))
      else crypt_sectors ops encryption_context input_data input_data_size bytes_per_sector 0 sector_number output_data)"

section \<open>AES key unwrapping\<close>

definition xor_bytes :: "bytes \<Rightarrow> bytes \<Rightarrow> bytes" where
  "xor_bytes xs ys = map2 (XOR) xs ys"

text \<open>
  One block of a round: the first 8 bytes of the buffer are the initialization vector, block
  \<open>block_index\<close> is the 8 bytes at \<open>8 * block_index\<close>.
\<close>

definition unwrap_block ::
    "'a aes_operations \<Rightarrow> 'a \<Rightarrow> nat \<Rightarrow> nat \<Rightarrow> nat \<Rightarrow> bytes \<Rightarrow> bytes result" where
  "unwrap_block ops context number_of_blocks round_index block_index buf =
     bindR (rd_slice buf 0 8) (\<lambda>initialization_vector.
     bindR (rd_slice buf (block_index * 8) 8) (\<lambda>block.
       let counter = (round_index * (number_of_blocks - 1) + block_index) mod 2 ^ 64;
           vector_data = xor_bytes (be_encode 8 counter) initialization_vector
       in bindR (crypt_ecb ops context (vector_data @ block)) (\<lambda>block_data.
          bindR (wr_slice buf 0 (take 8 block_data)) (\<lambda>buf.
            wr_slice buf (block_index * 8) (take 8 (drop 8 block_data))))))"

fun unwrap_blocks :: "'a aes_operations \<Rightarrow> 'a \<Rightarrow> nat \<Rightarrow> (nat \<times> nat) list \<Rightarrow> bytes \<Rightarrow> bytes result" where
  "unwrap_blocks ops context number_of_blocks [] buf = Inr buf"
| "unwrap_blocks ops context number_of_blocks ((round_index, block_index) # rest) buf =
     bindR (unwrap_block ops context number_of_blocks round_index block_index buf)
       (unwrap_blocks ops context number_of_blocks rest)"

text \<open>The rounds from 5 down to 0, in each the blocks from the last down to block 1.\<close>

definition unwrap_order :: "nat \<Rightarrow> (nat \<times> nat) list" where
  "unwrap_order number_of_blocks =
     concat (map (\<lambda>round_index. map (Pair round_index) (rev [1..<number_of_blocks])) (rev [0..<6]))"

definition encryption_aes_key_unwrap ::
    "'a aes_operations \<Rightarrow> bytes \<Rightarrow> nat \<Rightarrow> bytes \<Rightarrow> nat \<Rightarrow> bytes \<Rightarrow> nat \<Rightarrow> bytes result" where
  "encryption_aes_key_unwrap ops key key_bit_size wrapped_data wrapped_data_size unwrapped_data unwrapped_data_size =
     (if key_bit_size \<noteq> 128 \<and> key_bit_size \<noteq> 192 \<and> key_bit_size \<noteq> 256 then Inl ARGUMENT_VALUE_OUT_OF_BOUNDS
      else if wrapped_data_size > SSIZE_MAX then Inl ARGUMENT_VALUE_EXCEEDS_MAXIMUM
      else if wrapped_data_size \<le> 8 then Inl ARGUMENT_VALUE_TOO_SMALL
      else if wrapped_data_size mod 8 \<noteq> 0 then Inl ARGUMENT_VALUE_OUT_OF_BOUNDS
      else if unwrapped_data_size > SSIZE_MAX then Inl ARGUMENT_VALUE_EXCEEDS_MAXIMUM
      else if unwrapped_data_size < wrapped_data_size then Inl ARGUMENT_VALUE_TOO_SMALL
      else
        bindR (aes_context ops key key_bit_size) (\<lambda>context.
        bindR (rd_slice wrapped_data 0 wrapped_data_size) (\<lambda>wrapped.
        bindR (wr_slice unwrapped_data 0 wrapped) (\<lambda>buf.
          unwrap_blocks ops context (wrapped_data_size div 8) (unwrap_order (wrapped_data_size div 8)) buf))))"

section \<open>Key derivation\<close>

text \<open>The hash is computed over itself and added to the output, \<open>n\<close> times.\<close>

fun pbkdf2_iterations :: "hash_operations \<Rightarrow> bytes \<Rightarrow> nat \<Rightarrow> bytes \<Rightarrow> bytes \<Rightarrow> bytes result" where
  "pbkdf2_iterations ops password 0 hash_buffer output = Inr output"
| "pbkdf2_iterations ops password (Suc n) hash_buffer output =
     bindR (calculate_hmac ops password hash_buffer) (\<lambda>hash_buffer.
       pbkdf2_iterations ops password n hash_buffer (xor_bytes output hash_buffer))"

text \<open>One block of the output, of which \<open>output_size\<close> bytes are used.\<close>

definition pbkdf2_block ::
    "hash_operations \<Rightarrow> bytes \<Rightarrow> bytes \<Rightarrow> nat \<Rightarrow> nat \<Rightarrow> nat \<Rightarrow> bytes result" where
  "pbkdf2_block ops password salt number_of_iterations block_index output_size =
     bindR (calculate_hmac ops password (salt @ be_encode 4 ((block_index + 1) mod 2 ^ 32))) (\<lambda>hash_buffer.
     bindR (rd_slice hash_buffer 0 output_size) (\<lambda>output.
       pbkdf2_iterations ops password (number_of_iterations - 1) hash_buffer output))"

fun pbkdf2_blocks :: "hash_operations \<Rightarrow> bytes \<Rightarrow> bytes \<Rightarrow> nat \<Rightarrow> (nat \<times> nat) list \<Rightarrow> bytes result" where
  "pbkdf2_blocks ops password salt number_of_iterations [] = Inr []"
| "pbkdf2_blocks ops password salt number_of_iterations ((block_index, output_size) # rest) =
     bindR (pbkdf2_block ops password salt number_of_iterations block_index output_size) (\<lambda>block.
     bindR (pbkdf2_blocks ops password salt number_of_iterations rest) (\<lambda>blocks.
       Inr (block @ blocks)))"

text \<open>The number of blocks is kept in 32 bits.\<close>

definition password_pbkdf2 ::
    "hash_operations \<Rightarrow> bytes \<Rightarrow> nat \<Rightarrow> bytes \<Rightarrow> nat \<Rightarrow> nat \<Rightarrow> nat \<Rightarrow> bytes result" where
  "password_pbkdf2 ops password password_size salt salt_size number_of_iterations output_data_size =
     (if password_size > SSIZE_MAX then Inl ARGUMENT_VALUE_EXCEEDS_MAXIMUM
      else if salt_size > SSIZE_MAX then Inl ARGUMENT_VALUE_EXCEEDS_MAXIMUM
      else if number_of_iterations = 0 then Inl ARGUMENT_VALUE_ZERO_OR_LESS
      else if output_data_size > SSIZE_MAX then Inl ARGUMENT_VALUE_EXCEEDS_MAXIMUM
      else
        let number_of_blocks = (output_data_size div 32) mod 2 ^ 32;
            remaining_data_size = output_data_size - number_of_blocks * 32
        in if salt_size + 4 > MEMORY_MAXIMUM_ALLOCATION_SIZE then Inl RUNTIME_VALUE_EXCEEDS_MAXIMUM
           else
             bindR (rd_slice password 0 password_size) (\<lambda>password.
             bindR (rd_slice salt 0 salt_size) (\<lambda>salt.
               pbkdf2_blocks ops password salt number_of_iterations
                 (map (\<lambda>block_index. (block_index, 32)) [0..<number_of_blocks] @
                  (if remaining_data_size > 0 then [(number_of_blocks, remaining_data_size)] else [])))))"

section \<open>Decryption of sectors\<close>

text \<open>A cipher that decrypts every sector of \<open>n\<close> bytes to as many bytes.\<close>

definition decrypts_sectors :: "'x xts_operations \<Rightarrow> 'x \<Rightarrow> nat \<Rightarrow> (bytes \<Rightarrow> bytes \<Rightarrow> bytes) \<Rightarrow> bool" where
  "decrypts_sectors ops context n D \<longleftrightarrow>
     (\<forall>t xs. length xs = n \<longrightarrow> crypt_xts ops context t xs = Inr (D t xs) \<and> length (D t xs) = n)"

text \<open>\<open>count\<close> sectors from offset \<open>i\<close> on, the first of them with the given number.\<close>

fun decrypted_sectors :: "(bytes \<Rightarrow> bytes \<Rightarrow> bytes) \<Rightarrow> bytes \<Rightarrow> nat \<Rightarrow> nat \<Rightarrow> nat \<Rightarrow> nat \<Rightarrow> bytes" where
  "decrypted_sectors D input n 0 i sector_number = []"
| "decrypted_sectors D input n (Suc count) i sector_number =
     D (tweak_value sector_number) (take n (drop i input)) @
     decrypted_sectors D input n count (i + n) ((sector_number + 1) mod 2 ^ 64)"

lemma length_decrypted_sectors:
  assumes "decrypts_sectors ops context n D" "i + count * n \<le> length input"
  shows "length (decrypted_sectors D input n count i sector_number) = count * n"
  using assms(2)
  by (induction count arbitrary: i sector_number) (use assms(1) in \<open>auto simp: decrypts_sectors_def\<close>)

lemma crypt_sectors_result:
  assumes "decrypts_sectors ops (decryption_context ec) n D" "0 < n"
    and "i + count * n = size_value" "size_value \<le> length input" "size_value \<le> length out"
  shows "crypt_sectors ops ec input size_value n i sector_number out =
    Some (Inr (take i out @ decrypted_sectors D input n count i sector_number @ drop size_value out))"
  using assms(3-)
proof (induction count arbitrary: i sector_number out)
  case 0
  then show ?case by (subst crypt_sectors.simps) simp
next
  case (Suc count)
  let ?d = "D (tweak_value sector_number) (take n (drop i input))"
  let ?out = "take i out @ ?d @ drop (i + n) out"
  have i: "i < size_value" "i + n \<le> length input" "i + n \<le> length out"
    using Suc.prems assms(2) by auto
  have d: "crypt_xts ops (decryption_context ec) (tweak_value sector_number) (take n (drop i input)) = Inr ?d" "length ?d = n"
    using assms(1) i(2) by (auto simp: decrypts_sectors_def)
  have outs: "length ?out = length out" "take (i + n) ?out = take i out @ ?d" "drop size_value ?out = drop size_value out"
    using i d(2) Suc.prems by (simp_all add: add.assoc)
  have "crypt_sectors ops ec input size_value n i sector_number out =
      crypt_sectors ops ec input size_value n (i + n) ((sector_number + 1) mod 2 ^ 64) ?out"
    using i d by (subst crypt_sectors.simps) simp
  also have "\<dots> = Some (Inr (take (i + n) ?out @
      decrypted_sectors D input n count (i + n) ((sector_number + 1) mod 2 ^ 64) @ drop size_value ?out))"
    by (rule Suc.IH) (use Suc.prems outs(1) in auto)
  finally show ?case unfolding outs by simp
qed

section \<open>Key wrapping\<close>

text \<open>
  Key wrapping by RFC 3394 with a block encryption \<open>E\<close>: rounds 0 to 5, in each the blocks from
  the first to the last. The first 8 bytes of the buffer are the integrity check value.
\<close>

definition wrap_block :: "(bytes \<Rightarrow> bytes) \<Rightarrow> nat \<Rightarrow> bytes \<Rightarrow> nat \<times> nat \<Rightarrow> bytes" where
  "wrap_block E n buf = (\<lambda>(j, i).
     let block = E (take 8 buf @ take 8 (drop (i * 8) buf));
         a = xor_bytes (be_encode 8 (n * j + i)) (take 8 block)
     in a @ take (i * 8 - 8) (drop 8 buf) @ drop 8 block @ drop (i * 8 + 8) buf)"

definition wrap_order :: "nat \<Rightarrow> (nat \<times> nat) list" where
  "wrap_order n = concat (map (\<lambda>j. map (Pair j) [1..<Suc n]) [0..<6])"

definition wrap :: "(bytes \<Rightarrow> bytes) \<Rightarrow> bytes \<Rightarrow> bytes \<Rightarrow> bytes" where
  "wrap E iv plain = foldl (wrap_block E (length plain div 8)) (iv @ plain) (wrap_order (length plain div 8))"

text \<open>A cipher whose decryption undoes the encryption \<open>E\<close> of a block.\<close>

definition decrypts_blocks :: "'a aes_operations \<Rightarrow> 'a \<Rightarrow> (bytes \<Rightarrow> bytes) \<Rightarrow> bool" where
  "decrypts_blocks ops context E \<longleftrightarrow>
     (\<forall>xs. length xs = 16 \<longrightarrow> length (E xs) = 16 \<and> crypt_ecb ops context (E xs) = Inr xs)"

lemma length_xor_bytes [simp]: "length (xor_bytes xs ys) = min (length xs) (length ys)"
  by (simp add: xor_bytes_def)

lemma xor_bytes_cancel: "length xs = length ys \<Longrightarrow> xor_bytes xs (xor_bytes xs ys) = ys"
  by (induction xs ys rule: list_induct2) (simp_all add: xor_bytes_def xor.assoc [symmetric])

lemma length_wrap_block:
  assumes "decrypts_blocks ops context E" "1 \<le> i" "i * 8 + 8 \<le> length buf"
  shows "length (wrap_block E n buf (j, i)) = length buf"
proof -
  have "length (take 8 buf @ take 8 (drop (i * 8) buf)) = 16" using assms(2,3) by simp
  then have "length (E (take 8 buf @ take 8 (drop (i * 8) buf))) = 16" using assms(1) by (simp add: decrypts_blocks_def)
  then show ?thesis using assms(2,3) by (simp add: wrap_block_def Let_def)
qed

lemma split_block:
  assumes "1 \<le> i" "i * 8 + 8 \<le> length buf"
  shows "buf = take 8 buf @ take (i * 8 - 8) (drop 8 buf) @ take 8 (drop (i * 8) buf) @ drop (i * 8 + 8) buf"
proof -
  have "take (i * 8 - 8) (drop 8 buf) @ drop (i * 8 - 8) (drop 8 buf) = drop 8 buf" by (rule append_take_drop_id)
  moreover have "drop (i * 8 - 8) (drop 8 buf) = drop (i * 8) buf" using assms(1) by simp
  moreover have "take 8 (drop (i * 8) buf) @ drop 8 (drop (i * 8) buf) = drop (i * 8) buf" by (rule append_take_drop_id)
  moreover have "drop 8 (drop (i * 8) buf) = drop (i * 8 + 8) buf" by (simp add: add.commute)
  ultimately show ?thesis by (metis append_take_drop_id)
qed

lemma slice_parts:
  assumes "length iv = 8" "length r = 8" "length mid + 8 = i * 8"
  shows "rd_slice (iv @ mid @ r @ rest) 0 8 = Inr iv" "rd_slice (iv @ mid @ r @ rest) (i * 8) 8 = Inr r"
    and "length iv' = 8 \<Longrightarrow> wr_slice (iv @ mid @ r @ rest) 0 iv' = Inr (iv' @ mid @ r @ rest)"
    and "length r' = 8 \<Longrightarrow> wr_slice (iv @ mid @ r @ rest) (i * 8) r' = Inr (iv @ mid @ r' @ rest)"
proof -
  note i = assms(3) [symmetric]
  show "rd_slice (iv @ mid @ r @ rest) 0 8 = Inr iv" "rd_slice (iv @ mid @ r @ rest) (i * 8) 8 = Inr r"
    unfolding i rd_slice_def using assms(1,2) by (simp_all add: add.commute)
  show "length iv' = 8 \<Longrightarrow> wr_slice (iv @ mid @ r @ rest) 0 iv' = Inr (iv' @ mid @ r @ rest)"
    "length r' = 8 \<Longrightarrow> wr_slice (iv @ mid @ r @ rest) (i * 8) r' = Inr (iv @ mid @ r' @ rest)"
    unfolding i wr_slice_def using assms(1,2) by (simp_all add: add.commute)
qed

lemma unwrap_wrap_block:
  assumes "decrypts_blocks ops context E" "1 \<le> i" "i * 8 + 8 \<le> length buf" "(j * n + i) < 2 ^ 64"
  shows "unwrap_block ops context (Suc n) j i (wrap_block E n buf (j, i)) = Inr buf"
proof -
  define iv r mid rest where "iv = take 8 buf" and "r = take 8 (drop (i * 8) buf)"
    and "mid = take (i * 8 - 8) (drop 8 buf)" and "rest = drop (i * 8 + 8) buf"
  have buf: "buf = iv @ mid @ r @ rest"
    unfolding iv_def r_def mid_def rest_def by (rule split_block [OF assms(2,3)])
  have len: "length iv = 8" "length r = 8" "length mid + 8 = i * 8"
    unfolding iv_def r_def mid_def using assms(2,3) by auto
  define b t where "b = E (iv @ r)" and "t = be_encode 8 (j * n + i)"
  have b: "length b = 16" "crypt_ecb ops context b = Inr (iv @ r)"
    using assms(1) len by (auto simp: decrypts_blocks_def b_def)
  have w: "wrap_block E n buf (j, i) = xor_bytes t (take 8 b) @ mid @ drop 8 b @ rest"
    by (simp add: wrap_block_def Let_def mult.commute b_def t_def iv_def r_def mid_def rest_def)
  have lens: "length (xor_bytes t (take 8 b)) = 8" "length (drop 8 b) = 8" using b by (simp_all add: t_def)
  have cancel: "xor_bytes t (xor_bytes t (take 8 b)) = take 8 b" by (rule xor_bytes_cancel) (use b in \<open>simp add: t_def\<close>)
  have counter: "be_encode 8 ((j * (Suc n - 1) + i) mod 2 ^ 64) = t" using assms(4) by (simp add: t_def)
  have halves: "take 8 (iv @ r) = iv" "take 8 (drop 8 (iv @ r)) = r" using len by simp_all
  show ?thesis
    unfolding unwrap_block_def w slice_parts [OF lens len(3)] bindR_simps Let_def counter cancel append_take_drop_id b(2) halves
      slice_parts(3) [OF lens len(3,1)] slice_parts(4) [OF len(1) lens(2) len(3) len(2)]
    by (simp only: buf)
qed

lemma unwrap_blocks_append:
  "unwrap_blocks ops context n (xs @ ys) buf = bindR (unwrap_blocks ops context n xs buf) (unwrap_blocks ops context n ys)"
proof (induction xs arbitrary: buf)
  case (Cons x xs)
  obtain j i where x: "x = (j, i)" by force
  show ?case by (cases "unwrap_block ops context n j i buf") (simp_all add: x Cons.IH)
qed simp

lemma unwrap_wrap_blocks:
  assumes "decrypts_blocks ops context E" "length buf = Suc n * 8"
    and "\<forall>(j, i)\<in>set order. 1 \<le> i \<and> i \<le> n \<and> j * n + i < 2 ^ 64"
  shows "unwrap_blocks ops context (Suc n) (rev order) (foldl (wrap_block E n) buf order) = Inr buf"
  using assms(2,3)
proof (induction order arbitrary: buf)
  case (Cons x order)
  obtain j i where x: "x = (j, i)" by force
  have i: "1 \<le> i" "i * 8 + 8 \<le> length buf" "j * n + i < 2 ^ 64" using Cons.prems x by auto
  have "length (wrap_block E n buf (j, i)) = Suc n * 8"
    using length_wrap_block [OF assms(1) i(1,2)] Cons.prems(1) by simp
  from Cons.IH [OF this] Cons.prems(2) unwrap_wrap_block [OF assms(1) i]
  show ?case by (simp add: x unwrap_blocks_append)
qed simp

lemma unwrap_order_rev: "unwrap_order (Suc n) = rev (wrap_order n)"
  by (simp add: unwrap_order_def wrap_order_def rev_concat rev_map comp_def)

lemma length_wrap:
  assumes "decrypts_blocks ops context E" "length iv = 8" "length plain = n * 8"
  shows "length (wrap E iv plain) = Suc n * 8"
proof -
  have "length (foldl (wrap_block E n) buf order) = length buf"
    if "\<forall>(j, i)\<in>set order. 1 \<le> i \<and> i \<le> n" "length buf = Suc n * 8" for order buf
    using that
  proof (induction order arbitrary: buf)
    case (Cons x order)
    obtain j i where x: "x = (j, i)" by force
    have "length (wrap_block E n buf x) = length buf"
      unfolding x by (rule length_wrap_block [OF assms(1)]) (use Cons.prems x in auto)
    then show ?case using Cons by simp
  qed simp
  from this [of "wrap_order n" "iv @ plain"] assms(2,3) show ?thesis
    by (auto simp: wrap_def wrap_order_def)
qed

lemma aes_key_unwrap_wrap:
  assumes "aes_context ops key bits = Inr context" "decrypts_blocks ops context E"
    and "bits = 128 \<or> bits = 192 \<or> bits = 256"
    and "length iv = 8" "length plain = n * 8" "0 < n" "n < 2 ^ 56" "length buf = Suc n * 8"
  shows "encryption_aes_key_unwrap ops key bits (wrap E iv plain @ rest) (Suc n * 8) buf (Suc n * 8) = Inr (iv @ plain)"
proof -
  have "1 \<le> i \<and> i \<le> n \<and> j * n + i < 2 ^ 64" if "(j, i) \<in> set (wrap_order n)" for j i
  proof -
    have ji: "j < 6" "1 \<le> i" "i \<le> n" using that by (auto simp: wrap_order_def)
    then have "j * n \<le> 6 * n" by simp
    then have "j * n + i \<le> 7 * n" using ji(3) by linarith
    also have "\<dots> < 2 ^ 64" using assms(7) by simp
    finally show ?thesis using ji by blast
  qed
  then have "\<forall>(j, i)\<in>set (wrap_order n). 1 \<le> i \<and> i \<le> n \<and> j * n + i < 2 ^ 64" by blast
  then have "unwrap_blocks ops context (Suc n) (unwrap_order (Suc n)) (wrap E iv plain) = Inr (iv @ plain)"
    unfolding unwrap_order_rev using unwrap_wrap_blocks [OF assms(2), of "iv @ plain" n "wrap_order n"] assms(4,5)
    by (simp add: wrap_def)
  moreover have "length (wrap E iv plain) = Suc n * 8" by (rule length_wrap [OF assms(2,4,5)])
  moreover have "Suc n * 8 \<le> SSIZE_MAX" using assms(7) by (simp add: SSIZE_MAX_def)
  ultimately show ?thesis
    using assms(1,3,6,8) by (auto simp: encryption_aes_key_unwrap_def)
qed

section \<open>Password based keys\<close>

text \<open>PBKDF2 by RFC 8018 with a pseudo random function \<open>H\<close>: the hashes of a block and their sum.\<close>

definition pbkdf2_hash :: "(bytes \<Rightarrow> bytes) \<Rightarrow> bytes \<Rightarrow> nat \<Rightarrow> nat \<Rightarrow> bytes" where
  "pbkdf2_hash H salt i j = (H ^^ j) (H (salt @ be_encode 4 i))"

definition pbkdf2_sum :: "(bytes \<Rightarrow> bytes) \<Rightarrow> bytes \<Rightarrow> nat \<Rightarrow> nat \<Rightarrow> bytes" where
  "pbkdf2_sum H salt c i = foldl xor_bytes (pbkdf2_hash H salt i 0) (map (pbkdf2_hash H salt i) [1..<c])"

definition pbkdf2 :: "(bytes \<Rightarrow> bytes) \<Rightarrow> bytes \<Rightarrow> nat \<Rightarrow> nat \<Rightarrow> bytes" where
  "pbkdf2 H salt c n = take n (concat (map (pbkdf2_sum H salt c) [1..<Suc (n div 32 + 1)]))"

text \<open>A hash function that computes \<open>H\<close>, with 32 bytes.\<close>

definition computes_hmac :: "hash_operations \<Rightarrow> bytes \<Rightarrow> (bytes \<Rightarrow> bytes) \<Rightarrow> bool" where
  "computes_hmac ops password H \<longleftrightarrow> (\<forall>d. calculate_hmac ops password d = Inr (H d) \<and> length (H d) = 32)"

lemma take_xor_bytes: "take n (xor_bytes xs ys) = xor_bytes (take n xs) (take n ys)"
  by (simp add: xor_bytes_def take_map take_zip)

lemma xor_bytes_take: "length xs = k \<Longrightarrow> xor_bytes xs ys = xor_bytes xs (take k ys)"
  using take_xor_bytes [of k xs ys] by simp

lemma pbkdf2_iterations_sum:
  assumes "computes_hmac ops password H" "length out = k" "k \<le> 32"
  shows "pbkdf2_iterations ops password n (pbkdf2_hash H salt i j) out =
    Inr (foldl xor_bytes out (map (\<lambda>j. take k (pbkdf2_hash H salt i j)) [Suc j..<Suc j + n]))"
  using assms(2)
proof (induction n arbitrary: j out)
  case (Suc n)
  let ?u = "pbkdf2_hash H salt i (Suc j)"
  have step: "calculate_hmac ops password (pbkdf2_hash H salt i j) = Inr ?u" "length ?u = 32"
    using assms(1) by (simp_all add: computes_hmac_def pbkdf2_hash_def)
  have upt: "[Suc j..<Suc j + Suc n] = Suc j # [Suc (Suc j)..<Suc (Suc j) + n]" by (simp add: upt_conv_Cons del: upt_Suc)
  have "length (xor_bytes out ?u) = k" using step(2) Suc.prems assms(3) by simp
  from Suc.IH [OF this, of "Suc j"] show ?case
    unfolding upt using step(1) xor_bytes_take [OF Suc.prems, of ?u] by simp
qed simp

lemma foldl_take_xor:
  "foldl xor_bytes (take k x) (map (\<lambda>j. take k (f j)) js) = take k (foldl xor_bytes x (map f js))"
  by (induction js arbitrary: x) (simp_all add: take_xor_bytes [symmetric])

lemma pbkdf2_block_sum:
  assumes "computes_hmac ops password H" "k \<le> 32" "0 < c" "i + 1 < 2 ^ 32"
  shows "pbkdf2_block ops password salt c i k = Inr (take k (pbkdf2_sum H salt c (i + 1)))"
proof -
  have first: "calculate_hmac ops password (salt @ be_encode 4 ((i + 1) mod 2 ^ 32)) = Inr (pbkdf2_hash H salt (i + 1) 0)"
    "length (pbkdf2_hash H salt (i + 1) 0) = 32"
    using assms(1,4) by (simp_all add: computes_hmac_def pbkdf2_hash_def)
  have "pbkdf2_iterations ops password (c - 1) (pbkdf2_hash H salt (i + 1) 0) (take k (pbkdf2_hash H salt (i + 1) 0)) =
      Inr (foldl xor_bytes (take k (pbkdf2_hash H salt (i + 1) 0))
        (map (\<lambda>j. take k (pbkdf2_hash H salt (i + 1) j)) [Suc 0..<Suc 0 + (c - 1)]))"
    by (rule pbkdf2_iterations_sum [OF assms(1) _ assms(2)]) (use first(2) assms(2) in simp)
  then have "pbkdf2_iterations ops password (c - 1) (pbkdf2_hash H salt (i + 1) 0) (take k (pbkdf2_hash H salt (i + 1) 0)) =
      Inr (take k (pbkdf2_sum H salt c (i + 1)))"
    using assms(3) unfolding foldl_take_xor pbkdf2_sum_def by simp
  then show ?thesis using first assms(2) by (simp add: pbkdf2_block_def)
qed

lemma length_pbkdf2_sum:
  assumes "computes_hmac ops password H"
  shows "length (pbkdf2_sum H salt c i) = 32"
proof -
  have hash: "length (pbkdf2_hash H salt i j) = 32" for j
    using assms by (cases j) (simp_all add: computes_hmac_def pbkdf2_hash_def)
  have "length (foldl xor_bytes x (map (pbkdf2_hash H salt i) js)) = 32" if "length x = 32" for x js
    using that by (induction js arbitrary: x) (simp_all add: hash)
  then show ?thesis by (simp add: pbkdf2_sum_def hash)
qed

lemma pbkdf2_blocks_append:
  "pbkdf2_blocks ops password salt c (xs @ ys) =
    bindR (pbkdf2_blocks ops password salt c xs) (\<lambda>a. bindR (pbkdf2_blocks ops password salt c ys) (\<lambda>b. Inr (a @ b)))"
proof (induction xs)
  case Nil
  show ?case by (cases "pbkdf2_blocks ops password salt c ys") simp_all
next
  case (Cons x xs)
  obtain i k where x: "x = (i, k)" by force
  show ?case
    by (cases "pbkdf2_block ops password salt c i k"; cases "pbkdf2_blocks ops password salt c xs";
        cases "pbkdf2_blocks ops password salt c ys") (simp_all add: x Cons.IH)
qed

lemma pbkdf2_whole_blocks:
  assumes "computes_hmac ops password H" "0 < c" "n < 2 ^ 32"
  shows "pbkdf2_blocks ops password salt c (map (\<lambda>i. (i, 32)) [0..<n]) =
    Inr (concat (map (pbkdf2_sum H salt c) [1..<Suc n]))"
  using assms(3)
proof (induction n)
  case (Suc n)
  have "pbkdf2_block ops password salt c n 32 = Inr (pbkdf2_sum H salt c (n + 1))"
    using pbkdf2_block_sum [OF assms(1) order_refl assms(2)] Suc.prems length_pbkdf2_sum [OF assms(1)] by simp
  then show ?case using Suc by (simp add: pbkdf2_blocks_append)
qed simp

lemma password_pbkdf2_result:
  assumes "computes_hmac ops password H" "0 < c" "n \<le> 2 ^ 36" "length salt + 4 \<le> MEMORY_MAXIMUM_ALLOCATION_SIZE"
    and "length password \<le> SSIZE_MAX"
  shows "password_pbkdf2 ops password (length password) salt (length salt) c n = Inr (pbkdf2 H salt c n)"
proof -
  let ?m = "n div 32" and ?r = "n mod 32"
  have m: "?m + 1 < 2 ^ 32" using assms(3) by simp
  have r: "n - ?m * 32 = ?r" by (simp add: minus_div_mult_eq_mod)
  have whole: "pbkdf2_blocks ops password salt c (map (\<lambda>i. (i, 32)) [0..<?m]) =
      Inr (concat (map (pbkdf2_sum H salt c) [1..<Suc ?m]))"
    by (rule pbkdf2_whole_blocks [OF assms(1,2)]) (use m in simp)
  have "pbkdf2_block ops password salt c ?m ?r = Inr (take ?r (pbkdf2_sum H salt c (?m + 1)))"
    by (rule pbkdf2_block_sum [OF assms(1) _ assms(2) m]) (simp add: less_imp_le)
  with whole have blocks: "pbkdf2_blocks ops password salt c (map (\<lambda>i. (i, 32)) [0..<?m] @ (if ?r > 0 then [(?m, ?r)] else [])) =
      Inr (concat (map (pbkdf2_sum H salt c) [1..<Suc ?m]) @ take ?r (pbkdf2_sum H salt c (?m + 1)))"
    by (simp add: pbkdf2_blocks_append)
  have "length (concat (map (pbkdf2_sum H salt c) [1..<Suc ?m])) = ?m * 32"
    by (simp add: length_concat comp_def length_pbkdf2_sum [OF assms(1)] sum_list_triv del: upt_Suc)
  then have "pbkdf2 H salt c n = concat (map (pbkdf2_sum H salt c) [1..<Suc ?m]) @ take ?r (pbkdf2_sum H salt c (?m + 1))"
    unfolding pbkdf2_def using r by (simp add: minus_div_mult_eq_mod)
  then have blocks': "pbkdf2_blocks ops password salt c (map (\<lambda>i. (i, 32)) [0..<?m] @ (if ?r > 0 then [(?m, ?r)] else [])) =
      Inr (pbkdf2 H salt c n)" using blocks by (simp only:)
  have bounds: "n \<le> SSIZE_MAX" "length salt \<le> SSIZE_MAX"
    using assms(3,4) by (simp_all add: SSIZE_MAX_def MEMORY_MAXIMUM_ALLOCATION_SIZE_def)
  have m_mod: "?m mod 2 ^ 32 = ?m" using m by simp
  have "password_pbkdf2 ops password (length password) salt (length salt) c n =
      pbkdf2_blocks ops password salt c (map (\<lambda>i. (i, 32)) [0..<?m] @ (if ?r > 0 then [(?m, ?r)] else []))"
    unfolding password_pbkdf2_def Let_def m_mod r using assms(2,4,5) bounds by simp
  then show ?thesis using blocks' by (rule trans)
qed

text \<open>Only the bytes that the size covers are used.\<close>

lemma password_pbkdf2_slice:
  "password_pbkdf2 ops (password @ rest) (length password) salt n c m = password_pbkdf2 ops password (length password) salt n c m"
  by (simp add: password_pbkdf2_def Let_def)

section \<open>Properties\<close>

text \<open>C8. Unwrapping inverts AES key wrapping (RFC 3394): data wrapped under
  an initialization vector is recovered, with the vector in front, for any block cipher whose
  decryption undoes its encryption; bytes behind the wrapped data are not used.\<close>

theorem aes_key_unwrap_inverts_wrap:
  assumes "aes_context ops key bits = Inr context" "decrypts_blocks ops context E"
    and "bits = 128 \<or> bits = 192 \<or> bits = 256"
    and "length iv = 8" "length plain = n * 8" "0 < n" "n < 2 ^ 56" "length buf = Suc n * 8"
  shows "encryption_aes_key_unwrap ops key bits (wrap E iv plain @ rest) (Suc n * 8) buf (Suc n * 8) = Inr (iv @ plain)"
  by (rule aes_key_unwrap_wrap [OF assms])

text \<open>A cipher for the witnesses: every block is its own encryption, reversed.\<close>

definition reversing_aes :: "unit aes_operations" where
  "reversing_aes = \<lparr>aes_context = (\<lambda>key bits. Inr ()), crypt_ecb = (\<lambda>context block. Inr (rev block))\<rparr>"

lemma reversing_aes_decrypts: "decrypts_blocks reversing_aes () rev"
  by (simp add: decrypts_blocks_def reversing_aes_def)

theorem aes_key_unwrap_inverts_wrap_witness:
  "encryption_aes_key_unwrap reversing_aes [] 128 (wrap rev (replicate 8 0xa6) (replicate 16 7) @ [5]) (Suc 2 * 8)
    (replicate 24 0) (Suc 2 * 8) = Inr (replicate 8 0xa6 @ replicate 16 7)"
  by (rule aes_key_unwrap_inverts_wrap [OF _ reversing_aes_decrypts])
    (simp_all add: reversing_aes_def)

text \<open>C9. The derived key is that of PBKDF2 (RFC 8018) with HMAC-SHA-256: the
  first bytes of the blocks, each the sum of the iterated hashes of the salt with the block number.\<close>

theorem password_pbkdf2_correct:
  assumes "computes_hmac ops password H" "0 < c" "n \<le> 2 ^ 36" "length salt + 4 \<le> MEMORY_MAXIMUM_ALLOCATION_SIZE"
    and "length password \<le> SSIZE_MAX"
  shows "password_pbkdf2 ops password (length password) salt (length salt) c n = Inr (pbkdf2 H salt c n)"
  by (rule password_pbkdf2_result [OF assms])

definition padding_hash :: hash_operations where
  "padding_hash = \<lparr>calculate_hmac = (\<lambda>key d. Inr (take 32 (d @ replicate 32 1))),
     calculate_sha256 = (\<lambda>d. Inr (take 32 (d @ replicate 32 1)))\<rparr>"

lemma padding_hash_computes: "computes_hmac padding_hash password (\<lambda>d. take 32 (d @ replicate 32 1))"
  by (auto simp: computes_hmac_def padding_hash_def min_def)

theorem password_pbkdf2_correct_witness:
  "password_pbkdf2 padding_hash [1, 2] (length [1 :: byte, 2]) [3] (length [3 :: byte]) 2 40 =
    Inr (pbkdf2 (\<lambda>d. take 32 (d @ replicate 32 1)) [3] 2 40)"
  by (rule password_pbkdf2_correct [OF padding_hash_computes])
    (simp_all add: MEMORY_MAXIMUM_ALLOCATION_SIZE_def SSIZE_MAX_def)

text \<open>C10. Decryption of whole sectors terminates and decrypts each
  sector with the tweak of its own number, counted on from the first with wrap-around at 64 bits,
  and leaves the output behind the data unchanged.\<close>

theorem encryption_context_crypt_sectors:
  assumes "decrypts_sectors ops (decryption_context ec) n D" "0 < n"
    and "count * n \<le> length input" "count * n \<le> length out" "length out \<le> SSIZE_MAX"
  shows "encryption_context_crypt ops ec CRYPT_MODE_DECRYPT input (count * n) out (length out) sector_number n =
    Some (Inr (decrypted_sectors D input n count 0 sector_number @ drop (count * n) out))"
  using crypt_sectors_result [OF assms(1,2), of 0 count "count * n" input out sector_number] assms(3-)
  by (simp add: encryption_context_crypt_def)

definition xor_xts :: "unit xts_operations" where
  "xor_xts = \<lparr>tweaked_context_initialize = Inr (), tweaked_context_set_keys = (\<lambda>x k kb t tb. Inr x),
     crypt_xts = (\<lambda>x t xs. Inr (map (\<lambda>b. b XOR hd t) xs)), caes_mode_decrypt = 0\<rparr>"

theorem encryption_context_crypt_sectors_witness:
  "encryption_context_crypt xor_xts \<lparr>encryption_method = 2, decryption_context = ()\<rparr> CRYPT_MODE_DECRYPT
     [1, 2, 3, 4] (2 * 2) [0, 0, 0, 0, 9] (length [0 :: byte, 0, 0, 0, 9]) 5 2 =
    Some (Inr (decrypted_sectors (\<lambda>t. map (\<lambda>b. b XOR hd t)) [1, 2, 3, 4] 2 2 0 5 @ drop (2 * 2) [0, 0, 0, 0, 9]))"
  by (rule encryption_context_crypt_sectors) (simp_all add: decrypts_sectors_def xor_xts_def SSIZE_MAX_def)

end
