(* ===== verification/Key_Encrypted_Key.thy ===== *)
theory Key_Encrypted_Key
  imports Encryption
begin

text \<open>
  Packed objects of key bags that hold a wrapped key, \<open>libfsapfs_key_encrypted_key.c\<close>: a reader of
  tagged values and the recovery of the key with a password or with another key.
\<close>

section \<open>Key encrypted keys\<close>

record key_encrypted_key =
  kek_identifier :: bytes
  kek_hmac :: bytes
  number_of_iterations :: nat
  kek_salt :: bytes
  kek_encryption_method :: nat
  wrapped_kek :: bytes

definition key_encrypted_key_initialize :: "key_encrypted_key option \<Rightarrow> key_encrypted_key result" where
  "key_encrypted_key_initialize key_encrypted_key =
     (if key_encrypted_key \<noteq> None then Inl RUNTIME_VALUE_ALREADY_SET
      else Inr \<lparr>kek_identifier = replicate 16 0, kek_hmac = replicate 32 0, number_of_iterations = 0,
                kek_salt = replicate 16 0, kek_encryption_method = 0, wrapped_kek = replicate 40 0\<rparr>)"

definition wrapped_kek_initialization_vector :: bytes where
  "wrapped_kek_initialization_vector = [0xa6, 0xa6, 0xa6, 0xa6, 0xa6, 0xa6, 0xa6, 0xa6]"

section \<open>Reading\<close>

text \<open>
  The tag and the size of the value at offset \<open>i\<close>, and the offset of its data. A size in one more
  byte (0x81) is supported by the object and its attributes, not by those of the wrapped key.
\<close>

definition read_value_header :: "bool \<Rightarrow> bytes \<Rightarrow> nat \<Rightarrow> (byte \<times> nat \<times> nat) result" where
  "read_value_header byte_sizes data i =
     bindR (rd data i) (\<lambda>value_tag.
     bindR (rd data (i + 1)) (\<lambda>byte_value.
       if byte_value AND 0x80 \<noteq> 0 \<and> \<not> (byte_sizes \<and> byte_value = 0x81) \<and> byte_value \<noteq> 0x82
       then Inl RUNTIME_UNSUPPORTED_VALUE
       else if byte_value AND 0x80 = 0 then Inr (value_tag, unat byte_value, i + 2)
       else if byte_value = 0x81 then
         bindR (rd data (i + 2)) (\<lambda>size_value. Inr (value_tag, unat size_value, i + 3))
       else bindR (rd_u16_le data (i + 2)) (\<lambda>size_value. Inr (value_tag, size_value, i + 4))))"

lemma read_value_header_offset:
  "read_value_header byte_sizes data i = Inr (tag, n, j) \<Longrightarrow> i + 2 \<le> j"
  by (auto simp: read_value_header_def result_simps split: if_splits)

text \<open>
  An attribute of the object. The wrapped key is an object of its own, kept as its offset and its
  size, a 16-bit value, from two bytes before the data of the attribute on.
\<close>

definition read_attribute ::
    "byte \<Rightarrow> nat \<Rightarrow> bytes \<Rightarrow> nat \<Rightarrow> key_encrypted_key \<times> (nat \<times> nat) option \<Rightarrow>
     (key_encrypted_key \<times> (nat \<times> nat) option) result" where
  "read_attribute value_tag value_data_size data data_offset = (\<lambda>(key_encrypted_key, wrapped_kek_object).
     if value_tag = 0x81 then
       if value_data_size \<noteq> 32 then Inl RUNTIME_UNSUPPORTED_VALUE
       else bindR (rd_slice data data_offset 32) (\<lambda>hmac_value.
              Inr (key_encrypted_key\<lparr>kek_hmac := hmac_value\<rparr>, wrapped_kek_object))
     else if value_tag = 0x82 then
       if value_data_size \<noteq> 8 then Inl RUNTIME_UNSUPPORTED_VALUE
       else Inr (key_encrypted_key, wrapped_kek_object)
     else if value_tag = 0xa3 then
       if value_data_size = 0 then Inl RUNTIME_UNSUPPORTED_VALUE
       else Inr (key_encrypted_key, Some (data_offset - 2, (value_data_size + 2) mod 65536))
     else Inr (key_encrypted_key, wrapped_kek_object))"

function read_attributes ::
    "bytes \<Rightarrow> nat \<Rightarrow> nat \<Rightarrow> key_encrypted_key \<times> (nat \<times> nat) option \<Rightarrow>
     (key_encrypted_key \<times> (nat \<times> nat) option) result" where
  "read_attributes data data_size data_offset state =
     (if data_offset < data_size then
        bindR (read_value_header True data data_offset) (\<lambda>(value_tag, value_data_size, data_offset).
          if value_tag = 0 \<and> value_data_size = 0 then Inr state
          else if data_offset \<ge> data_size \<or> value_data_size > data_size - data_offset
          then Inl RUNTIME_VALUE_OUT_OF_BOUNDS
          else
            bindR (read_attribute value_tag value_data_size data data_offset state) (\<lambda>state.
              read_attributes data data_size (data_offset + value_data_size) state))
      else Inr state)"
  by pat_completeness auto
termination
  by (relation "measure (\<lambda>(data, data_size, data_offset, state). data_size - data_offset)")
    (auto dest: read_value_header_offset)

declare read_attributes.simps [simp del]

text \<open>The number of iterations, most significant byte first.\<close>

definition iterations_value :: "bytes \<Rightarrow> nat" where
  "iterations_value = foldl (\<lambda>n b. (n * 256 + unat b) mod 2 ^ 64) 0"

definition read_kek_attribute ::
    "byte \<Rightarrow> nat \<Rightarrow> bytes \<Rightarrow> nat \<Rightarrow> key_encrypted_key \<Rightarrow> key_encrypted_key result" where
  "read_kek_attribute value_tag value_data_size data data_offset key_encrypted_key =
     (if value_tag = 0x81 then
        if value_data_size \<noteq> 16 then Inl RUNTIME_UNSUPPORTED_VALUE
        else bindR (rd_slice data data_offset 16) (\<lambda>identifier_value.
               Inr (key_encrypted_key\<lparr>kek_identifier := identifier_value\<rparr>))
      else if value_tag = 0x82 then
        if value_data_size \<noteq> 8 then Inl RUNTIME_UNSUPPORTED_VALUE
        else bindR (rd_u32_le data data_offset) (\<lambda>method_value.
               Inr (key_encrypted_key\<lparr>kek_encryption_method := method_value\<rparr>))
      else if value_tag = 0x83 then
        if value_data_size \<noteq> 40 then Inl RUNTIME_UNSUPPORTED_VALUE
        else bindR (rd_slice data data_offset 40) (\<lambda>wrapped_value.
               Inr (key_encrypted_key\<lparr>wrapped_kek := wrapped_value\<rparr>))
      else if value_tag = 0x84 then
        if value_data_size = 0 \<or> value_data_size > 8 then Inl RUNTIME_UNSUPPORTED_VALUE
        else bindR (rd_slice data data_offset value_data_size) (\<lambda>iterations_data.
               Inr (key_encrypted_key\<lparr>number_of_iterations := iterations_value iterations_data\<rparr>))
      else if value_tag = 0x85 then
        if value_data_size \<noteq> 16 then Inl RUNTIME_UNSUPPORTED_VALUE
        else bindR (rd_slice data data_offset 16) (\<lambda>salt_value.
               Inr (key_encrypted_key\<lparr>kek_salt := salt_value\<rparr>))
      else Inr key_encrypted_key)"

text \<open>Offsets are relative to the object, which starts at offset \<open>base\<close> of the data.\<close>

function read_kek_attributes ::
    "bytes \<Rightarrow> nat \<Rightarrow> nat \<Rightarrow> nat \<Rightarrow> key_encrypted_key \<Rightarrow> key_encrypted_key result" where
  "read_kek_attributes data base object_size data_offset key_encrypted_key =
     (if data_offset < object_size then
        bindR (read_value_header False data (base + data_offset)) (\<lambda>(value_tag, value_data_size, next_offset).
          let data_offset = next_offset - base
          in if value_tag = 0 \<and> value_data_size = 0 then Inr key_encrypted_key
             else if data_offset \<ge> object_size \<or> value_data_size > object_size - data_offset
             then Inl RUNTIME_VALUE_OUT_OF_BOUNDS
             else
               bindR (read_kek_attribute value_tag value_data_size data (base + data_offset) key_encrypted_key)
                 (\<lambda>key_encrypted_key.
                    read_kek_attributes data base object_size (data_offset + value_data_size) key_encrypted_key))
      else Inr key_encrypted_key)"
  by pat_completeness auto
termination
  by (relation "measure (\<lambda>(data, base, object_size, data_offset, key_encrypted_key). object_size - data_offset)")
    (auto dest: read_value_header_offset)

declare read_kek_attributes.simps [simp del]

text \<open>The object of the wrapped key; its size less two is a signed difference.\<close>

definition read_wrapped_kek_object ::
    "bytes \<Rightarrow> nat \<Rightarrow> nat \<Rightarrow> key_encrypted_key \<Rightarrow> key_encrypted_key result" where
  "read_wrapped_kek_object data base object_size key_encrypted_key =
     bindR (read_value_header False data base) (\<lambda>(value_tag, value_data_size, next_offset).
       if value_tag \<noteq> 0xa3 then Inl RUNTIME_UNSUPPORTED_VALUE
       else if int value_data_size > int object_size - 2 then Inl RUNTIME_VALUE_OUT_OF_BOUNDS
       else read_kek_attributes data base object_size (next_offset - base) key_encrypted_key)"

definition key_encrypted_key_read_data ::
    "key_encrypted_key \<Rightarrow> bytes \<Rightarrow> nat \<Rightarrow> key_encrypted_key result" where
  "key_encrypted_key_read_data key_encrypted_key data data_size =
     (if data_size < 2 \<or> data_size > SSIZE_MAX then Inl RUNTIME_VALUE_OUT_OF_BOUNDS
      else
        bindR (read_value_header True data 0) (\<lambda>(value_tag, value_data_size, data_offset).
          if value_tag \<noteq> 0x30 then Inl RUNTIME_UNSUPPORTED_VALUE
          else if value_data_size > data_size - 2 then Inl RUNTIME_VALUE_OUT_OF_BOUNDS
          else
            bindR (read_attributes data data_size data_offset (key_encrypted_key, None))
              (\<lambda>(key_encrypted_key, wrapped_kek_object).
                 case wrapped_kek_object of
                   None \<Rightarrow> Inl RUNTIME_VALUE_MISSING
                 | Some (base, object_size) \<Rightarrow> read_wrapped_kek_object data base object_size key_encrypted_key)))"

section \<open>Unlocking\<close>

text \<open>
  \<open>None\<close> stands for the result 0, when the key does not fit; sizes of keys are in bits. The
  unwrapped data is the part of a buffer of 40 bytes that its size argument covers.
\<close>

definition key_encrypted_key_unlock_with_key ::
    "'a aes_operations \<Rightarrow> hash_operations \<Rightarrow> key_encrypted_key \<Rightarrow> bytes \<Rightarrow> nat \<Rightarrow> bytes \<Rightarrow> nat \<Rightarrow> bytes option result" where
  "key_encrypted_key_unlock_with_key aes hash key_encrypted_key key key_size unlocked_key unlocked_key_size =
     (if kek_encryption_method key_encrypted_key \<noteq> 0 \<and> kek_encryption_method key_encrypted_key \<noteq> 2
      then Inl RUNTIME_UNSUPPORTED_VALUE
      else
        let (used_kek_data_size, used_key_size) =
              (if kek_encryption_method key_encrypted_key = 0 then (40, 32) else (24, 16))
        in if key_size \<noteq> 256 then Inl RUNTIME_VALUE_OUT_OF_BOUNDS
           else if unlocked_key_size \<noteq> 256 then Inl RUNTIME_VALUE_OUT_OF_BOUNDS
           else
             bindR (encryption_aes_key_unwrap aes key (used_key_size * 8) (wrapped_kek key_encrypted_key)
                      used_kek_data_size (replicate used_kek_data_size 0) used_kek_data_size) (\<lambda>kek.
               if take 8 kek = wrapped_kek_initialization_vector then
                 bindR (rd_slice kek 8 used_key_size) (\<lambda>key_data.
                 bindR (wr_slice unlocked_key 0 key_data) (\<lambda>unlocked_key.
                   if kek_encryption_method key_encrypted_key = 2 then
                     bindR (wr_slice unlocked_key 16 (kek_identifier key_encrypted_key)) (\<lambda>unlocked_key.
                     bindR (rd_slice unlocked_key 0 32) (\<lambda>tweak_data.
                     bindR (calculate_sha256 hash tweak_data) (\<lambda>hash_buffer.
                     bindR (rd_slice hash_buffer 0 16) (\<lambda>tweak_key.
                     bindR (wr_slice unlocked_key 16 tweak_key) (\<lambda>unlocked_key.
                       Inr (Some unlocked_key))))))
                   else Inr (Some unlocked_key)))
               else Inr None))"

definition key_encrypted_key_unlock_with_password ::
    "'a aes_operations \<Rightarrow> hash_operations \<Rightarrow> key_encrypted_key \<Rightarrow> bytes \<Rightarrow> nat \<Rightarrow> bytes \<Rightarrow> nat \<Rightarrow> bytes option result" where
  "key_encrypted_key_unlock_with_password aes hash key_encrypted_key password password_length
       unlocked_key unlocked_key_size =
     (if kek_encryption_method key_encrypted_key \<notin> {0, 2, 16} then Inl RUNTIME_UNSUPPORTED_VALUE
      else
        let (password_key_size, used_kek_data_size) =
              (if kek_encryption_method key_encrypted_key = 2 then (16, 24) else (32, 40))
        in if unlocked_key_size \<noteq> 256 then Inl RUNTIME_VALUE_OUT_OF_BOUNDS
           else
             bindR (password_pbkdf2 hash password password_length (kek_salt key_encrypted_key) 16
                      (number_of_iterations key_encrypted_key mod 2 ^ 32) password_key_size) (\<lambda>password_key.
             bindR (encryption_aes_key_unwrap aes password_key (password_key_size * 8) (wrapped_kek key_encrypted_key)
                      used_kek_data_size (replicate used_kek_data_size 0) used_kek_data_size) (\<lambda>kek.
               if take 8 kek = wrapped_kek_initialization_vector then
                 bindR (rd_slice kek 8 password_key_size) (\<lambda>key_data.
                 bindR (wr_slice unlocked_key 0 key_data) (\<lambda>unlocked_key.
                   Inr (Some unlocked_key)))
               else Inr None)))"

section \<open>Tagged values\<close>

text \<open>A value of less than 128 bytes with its tag and size.\<close>

definition tagged :: "byte \<Rightarrow> bytes \<Rightarrow> bytes" where
  "tagged tag v = tag # of_nat (length v) # v"

lemma length_tagged [simp]: "length (tagged tag v) = length v + 2"
  by (simp add: tagged_def)

lemma tagged_Cons: "tagged tag v = tag # of_nat (length v) # v"
  by (simp add: tagged_def)

lemma short_size: "n < 128 \<Longrightarrow> (of_nat n :: byte) AND 0x80 = 0"
proof -
  have "list_all (\<lambda>n. (of_nat n :: byte) AND 0x80 = 0) [0..<128]" by code_simp
  then show "n < 128 \<Longrightarrow> (of_nat n :: byte) AND 0x80 = 0" by (simp add: list_all_iff)
qed

lemma read_value_header_tagged:
  assumes "data = pre @ tagged tag v @ rest" "length v < 128"
  shows "read_value_header byte_sizes data (length pre) = Inr (tag, length v, length pre + 2)"
  using short_size [OF assms(2)] assms
  by (simp add: read_value_header_def tagged_def nth_append unat_of_nat)

lemma rd_tagged:
  assumes "data = pre @ tagged tag v @ rest" "i = length pre + 2"
  shows "rd_slice data i (length v) = Inr v" "n \<le> length v \<Longrightarrow> rd_le n data i = rd_le n v 0"
  using assms by (simp_all add: tagged_def drop_Cons')

text \<open>What a list of attributes makes of a key.\<close>

fun attributes_result ::
    "(byte \<times> bytes) list \<Rightarrow> key_encrypted_key \<times> (nat \<times> nat) option \<Rightarrow> (key_encrypted_key \<times> (nat \<times> nat) option) result" where
  "attributes_result [] state = Inr state"
| "attributes_result ((tag, v) # attributes) state =
     bindR (read_attribute tag (length v) v 0 state) (attributes_result attributes)"

fun kek_attributes_result :: "(byte \<times> bytes) list \<Rightarrow> key_encrypted_key \<Rightarrow> key_encrypted_key result" where
  "kek_attributes_result [] k = Inr k"
| "kek_attributes_result ((tag, v) # attributes) k =
     bindR (read_kek_attribute tag (length v) v 0 k) (kek_attributes_result attributes)"

abbreviation tagged_values :: "(byte \<times> bytes) list \<Rightarrow> bytes" where
  "tagged_values attributes \<equiv> concat (map (\<lambda>(tag, v). tagged tag v) attributes)"

abbreviation short_values :: "(byte \<times> bytes) list \<Rightarrow> bool" where
  "short_values attributes \<equiv> \<forall>(tag, v)\<in>set attributes. v \<noteq> [] \<and> length v < 128"

lemma read_attribute_tagged:
  assumes "data = pre @ tagged tag v @ rest" "i = length pre + 2" "tag \<noteq> 0xa3"
  shows "read_attribute tag (length v) data i state = read_attribute tag (length v) v 0 state"
  using rd_tagged [OF assms(1,2)] assms(3) by (auto simp: read_attribute_def split: prod.splits)

lemma read_attributes_step:
  assumes "data = pre @ tagged tag v @ rest" "v \<noteq> []" "length v < 128" "n = length data" "i = length pre"
  shows "read_attributes data n i state =
    bindR (read_attribute tag (length v) data (i + 2) state) (read_attributes data n (i + 2 + length v))"
  using assms(2-) read_value_header_tagged [OF assms(1,3), of True] assms(1)
  by (subst read_attributes.simps) simp

lemma read_attributes_tagged:
  assumes "data = pre @ tagged_values attributes @ rest" "short_values attributes" "\<forall>v. (0xa3, v) \<notin> set attributes"
    and "n = length data" "i = length pre"
  shows "read_attributes data n i state =
    bindR (attributes_result attributes state) (read_attributes data n (i + length (tagged_values attributes)))"
  using assms
proof (induction attributes arbitrary: pre i state)
  case (Cons a attributes)
  obtain tag v where a: "a = (tag, v)" by force
  have data: "data = pre @ tagged tag v @ tagged_values attributes @ rest" using Cons.prems(1) a by simp
  have v: "v \<noteq> []" "length v < 128" "tag \<noteq> 0xa3" using Cons.prems(2,3) a by auto
  have "read_attributes data n i state =
      bindR (read_attribute tag (length v) v 0 state) (read_attributes data n (i + 2 + length v))"
    using read_attributes_step [OF data v(1,2) Cons.prems(4,5)] read_attribute_tagged [OF data _ v(3), of "i + 2"] Cons.prems(5)
    by simp
  also have "read_attributes data n (i + 2 + length v) = (\<lambda>state. bindR (attributes_result attributes state)
      (read_attributes data n (i + length (tagged_values (a # attributes)))))"
  proof
    fix state
    show "read_attributes data n (i + 2 + length v) state = bindR (attributes_result attributes state)
        (read_attributes data n (i + length (tagged_values (a # attributes))))"
      using Cons.IH [of "pre @ tagged tag v" "i + 2 + length v" state] Cons.prems data a by (simp add: add_ac)
  qed
  finally show ?case by (cases "read_attribute tag (length v) v 0 state") (simp_all add: a)
qed simp

lemma read_kek_attribute_tagged:
  assumes "data = pre @ tagged tag v @ rest" "i = length pre + 2"
  shows "read_kek_attribute tag (length v) data i k = read_kek_attribute tag (length v) v 0 k"
  using rd_tagged [OF assms] by (auto simp: read_kek_attribute_def)

lemma read_kek_attributes_tagged:
  assumes "data = pre @ object_pre @ tagged_values attributes" "short_values attributes"
    and "base = length pre" "i = length object_pre" "n + base = length data"
  shows "read_kek_attributes data base n i k = kek_attributes_result attributes k"
  using assms(1,2,4)
proof (induction attributes arbitrary: object_pre i k)
  case Nil
  then show ?case using assms(3,5) by (subst read_kek_attributes.simps) simp
next
  case (Cons a attributes)
  obtain tag v where a: "a = (tag, v)" by force
  have data: "data = (pre @ object_pre) @ tagged tag v @ tagged_values attributes" using Cons.prems(1) a by simp
  have v: "length v < 128" "0 < length v" using Cons.prems(2) a by auto
  have header: "read_value_header False data (base + i) = Inr (tag, length v, base + i + 2)"
    using read_value_header_tagged [OF data v(1), of False] assms(3) Cons.prems(3) by simp
  have bounds: "i + 2 + length v \<le> n" using arg_cong [OF data, of length] assms(3,5) Cons.prems(3) by simp
  have at_v: "read_kek_attribute tag (length v) data (base + i + 2) k = read_kek_attribute tag (length v) v 0 k"
    by (rule read_kek_attribute_tagged [OF data]) (simp add: assms(3) Cons.prems(3))
  have IH: "read_kek_attributes data base n (i + 2 + length v) = kek_attributes_result attributes"
    using Cons.IH [of "object_pre @ tagged tag v" "i + 2 + length v"] Cons.prems data by (auto simp: fun_eq_iff)
  have "i < n" "\<not> n \<le> i + 2" "\<not> n - (i + 2) < length v" "\<not> length v = 0"
    "base + i + 2 - base = i + 2" "base + (i + 2) = base + i + 2" using bounds v(2) by linarith+
  then show ?case
    unfolding a kek_attributes_result.simps
    by (subst read_kek_attributes.simps) (simp only: header bindR_simps prod.case Let_def at_v IH simp_thms if_True if_False)
qed

lemma iterations_value_be: "iterations_value bs = be_value bs mod 2 ^ 64"
proof (induction bs rule: rev_induct)
  case (snoc b bs)
  have "iterations_value (bs @ [b]) = (iterations_value bs * 256 + unat b) mod 2 ^ 64"
    by (simp add: iterations_value_def)
  also have "\<dots> = (be_value bs * 256 + unat b) mod 2 ^ 64" unfolding snoc by (metis mod_add_left_eq mod_mult_left_eq)
  also have "be_value bs * 256 + unat b = be_value (bs @ [b])" by (simp add: be_value_def)
  finally show ?case .
qed (simp add: iterations_value_def be_value_def)

section \<open>Written key encrypted keys\<close>

text \<open>A key encrypted key whose fields have the sizes of the code, and its packed object.\<close>

definition kek_wf :: "key_encrypted_key \<Rightarrow> bool" where
  "kek_wf k \<longleftrightarrow> length (kek_identifier k) = 16 \<and> length (kek_hmac k) = 32 \<and> number_of_iterations k < 2 ^ 64 \<and>
     length (kek_salt k) = 16 \<and> kek_encryption_method k < 2 ^ 32 \<and> length (wrapped_kek k) = 40"

definition kek_attributes :: "key_encrypted_key \<Rightarrow> (byte \<times> bytes) list" where
  "kek_attributes k = [(0x80, [0]), (0x81, kek_identifier k),
     (0x82, le_encode 4 (kek_encryption_method k) @ replicate 4 0), (0x83, wrapped_kek k),
     (0x84, be_encode 8 (number_of_iterations k)), (0x85, kek_salt k)]"

definition object_attributes :: "key_encrypted_key \<Rightarrow> (byte \<times> bytes) list" where
  "object_attributes k = [(0x80, [0]), (0x81, kek_hmac k), (0x82, replicate 8 0)]"

definition encode_kek :: "key_encrypted_key \<Rightarrow> bytes" where
  "encode_kek k = [0x30, 0x81, 150] @ tagged_values (object_attributes k) @ tagged 0xa3 (tagged_values (kek_attributes k))"

lemma length_values:
  assumes "kek_wf k"
  shows "length (tagged_values (kek_attributes k)) = 101" "length (tagged_values (object_attributes k)) = 47"
    "length (encode_kek k) = 153"
  using assms by (simp_all add: encode_kek_def kek_attributes_def object_attributes_def kek_wf_def)

lemma read_wrapped_kek_encoded:
  assumes "kek_wf k"
  shows "read_wrapped_kek_object (encode_kek k) 50 103 k0 = kek_attributes_result (kek_attributes k) k0"
proof -
  let ?pre = "[0x30, 0x81, 150] @ tagged_values (object_attributes k)"
  have data: "encode_kek k = ?pre @ [0xa3, of_nat 101] @ tagged_values (kek_attributes k)"
    by (simp only: encode_kek_def tagged_Cons [of "0xa3 :: byte"] length_values(1) [OF assms] append_assoc append_Cons append_Nil)
  have "read_value_header False (encode_kek k) (length ?pre) = Inr (0xa3, length (tagged_values (kek_attributes k)), length ?pre + 2)"
    by (rule read_value_header_tagged [of _ _ _ _ "[]"])
      (simp add: encode_kek_def, simp add: length_values [OF assms])
  then have header: "read_value_header False (encode_kek k) 50 = Inr (0xa3, 101, 52)"
    by (simp add: length_values [OF assms])
  have "read_kek_attributes (encode_kek k) 50 103 2 k0 = kek_attributes_result (kek_attributes k) k0"
    by (rule read_kek_attributes_tagged [OF data])
      (use assms in \<open>auto simp: kek_attributes_def kek_wf_def length_values [OF assms]\<close>)
  then show ?thesis by (simp add: read_wrapped_kek_object_def header)
qed

lemma kek_attributes_result_read:
  assumes "kek_wf k"
  shows "kek_attributes_result (kek_attributes k) (k0\<lparr>kek_hmac := kek_hmac k\<rparr>) = Inr k"
  using assms
  by (simp add: kek_attributes_def read_kek_attribute_def kek_wf_def iterations_value_be)

lemma read_data_encoded:
  assumes "kek_wf k"
  shows "key_encrypted_key_read_data k0 (encode_kek k) (length (encode_kek k)) = Inr k"
proof -
  let ?data = "encode_kek k"
  have data: "?data = [0x30, 0x81, 150] @ tagged_values (object_attributes k) @ tagged 0xa3 (tagged_values (kek_attributes k))"
    by (simp add: encode_kek_def)
  have header: "read_value_header True ?data 0 = Inr (0x30, 150, 3)"
    by (simp add: read_value_header_def encode_kek_def)
  have attributes: "attributes_result (object_attributes k) (k0, None) = Inr (k0\<lparr>kek_hmac := kek_hmac k\<rparr>, None)"
    using assms by (simp add: object_attributes_def read_attribute_def kek_wf_def)
  have step: "read_attributes ?data 153 50 state = bindR (read_attribute 0xa3 (length (tagged_values (kek_attributes k))) ?data (50 + 2) state)
      (read_attributes ?data 153 (50 + 2 + length (tagged_values (kek_attributes k))))" for state
  proof (rule read_attributes_step)
    show "?data = ([0x30, 0x81, 150] @ tagged_values (object_attributes k)) @ tagged 0xa3 (tagged_values (kek_attributes k)) @ []"
      by (simp add: encode_kek_def)
    show "tagged_values (kek_attributes k) \<noteq> []" using length_values(1) [OF assms] by force
  qed (simp_all add: length_values [OF assms])
  have "read_attributes ?data 153 3 (k0, None) = bindR (attributes_result (object_attributes k) (k0, None))
      (read_attributes ?data 153 (3 + length (tagged_values (object_attributes k))))"
    by (rule read_attributes_tagged [OF data])
      (use assms in \<open>auto simp: object_attributes_def kek_wf_def length_values [OF assms]\<close>)
  also have "\<dots> = read_attributes ?data 153 50 (k0\<lparr>kek_hmac := kek_hmac k\<rparr>, None)"
    by (simp add: attributes length_values [OF assms])
  also have "\<dots> = bindR (read_attribute 0xa3 101 ?data 52 (k0\<lparr>kek_hmac := kek_hmac k\<rparr>, None)) (read_attributes ?data 153 153)"
    using step [of "(k0\<lparr>kek_hmac := kek_hmac k\<rparr>, None)"] by (simp add: length_values [OF assms])
  also have "\<dots> = Inr (k0\<lparr>kek_hmac := kek_hmac k\<rparr>, Some (50, 103))"
    by (simp add: read_attribute_def read_attributes.simps [of _ 153 153])
  finally show ?thesis
    by (simp add: key_encrypted_key_read_data_def length_values [OF assms] header SSIZE_MAX_def
        read_wrapped_kek_encoded [OF assms] kek_attributes_result_read [OF assms])
qed

section \<open>Accesses behind the data\<close>

lemma read_value_header_post:
  assumes "i + 4 \<le> length data"
  shows "post lib_error (\<lambda>(tag, n, j). i + 2 \<le> j) (read_value_header byte_sizes data i)"
  using assms by (simp add: read_value_header_def)

lemma read_attribute_post:
  assumes "i + n \<le> length data"
  shows "post lib_error (\<lambda>(k, obj). obj = snd state \<or> n \<noteq> 0 \<and> obj = Some (i - 2, (n + 2) mod 65536)) (read_attribute tag n data i state)"
  using assms by (cases state) (simp add: read_attribute_def)

text \<open>The object of the wrapped key lies within the data.\<close>

definition object_within :: "nat \<Rightarrow> (nat \<times> nat) option \<Rightarrow> bool" where
  "object_within data_size obj = (case obj of None \<Rightarrow> True | Some (base, n) \<Rightarrow> base + 3 \<le> data_size \<and> base + n \<le> data_size)"

lemma object_within_attribute:
  assumes "2 \<le> j" "j < data_size" "n \<le> data_size - j"
  shows "object_within data_size (Some (j - 2, (n + 2) mod 65536))"
proof -
  have "(n + 2) mod 65536 \<le> n + 2" by (rule mod_less_eq_dividend)
  then show ?thesis using assms by (simp add: object_within_def)
qed

lemma read_attributes_post:
  assumes "data_size + 3 \<le> length data" "object_within data_size (snd state)"
  shows "post lib_error (\<lambda>(k, obj). object_within data_size obj) (read_attributes data data_size i state)"
  using assms
proof (induction data data_size i state rule: read_attributes.induct)
  case (1 data data_size i state)
  show ?case
  proof (cases "i < data_size")
    case True
    have "post lib_error (\<lambda>(k, obj). object_within data_size obj)
      (if tag = 0 \<and> n = 0 then Inr state
       else if j \<ge> data_size \<or> n > data_size - j then Inl RUNTIME_VALUE_OUT_OF_BOUNDS
       else bindR (read_attribute tag n data j state) (read_attributes data data_size (j + n)))"
      if header: "read_value_header True data i = Inr (tag, n, j)" and j: "i + 2 \<le> j" for tag n j
    proof (cases "tag = 0 \<and> n = 0 \<or> j \<ge> data_size \<or> n > data_size - j")
      case True
      then show ?thesis using "1.prems"(2) by (auto split: prod.splits)
    next
      case False
      have "post lib_error (\<lambda>(k, obj). object_within data_size obj)
          (bindR (read_attribute tag n data j state) (read_attributes data data_size (j + n)))"
      proof (rule post_bindR [OF read_attribute_post])
        have "n \<le> data_size - j" "j < data_size" using False by auto
        then show "j + n \<le> length data" using "1.prems"(1) by linarith
        fix state' assume read: "read_attribute tag n data j state = Inr state'"
          and obj: "case state' of (k, obj) \<Rightarrow> obj = snd state \<or> n \<noteq> 0 \<and> obj = Some (j - 2, (n + 2) mod 65536)"
        then have "object_within data_size (snd state')"
          using "1.prems"(2) object_within_attribute [of j data_size n] j False by (auto split: prod.splits)
        then show "post lib_error (\<lambda>(k, obj). object_within data_size obj) (read_attributes data data_size (j + n) state')"
          using "1.IH" [OF True header refl refl _ _ read] "1.prems"(1) False by simp
      qed
      then show ?thesis using False by auto
    qed
    then have "post lib_error (\<lambda>(k, obj). object_within data_size obj)
        (bindR (read_value_header True data i) (\<lambda>(tag, n, j).
          if tag = 0 \<and> n = 0 then Inr state
          else if j \<ge> data_size \<or> n > data_size - j then Inl RUNTIME_VALUE_OUT_OF_BOUNDS
          else bindR (read_attribute tag n data j state) (read_attributes data data_size (j + n))))"
      by (intro post_bindR [OF read_value_header_post]) (use True "1.prems"(1) in \<open>auto split: prod.splits\<close>)
    then show ?thesis using True by (subst read_attributes.simps) simp
  next
    case False
    then show ?thesis using "1.prems"(2) by (subst read_attributes.simps) (auto split: prod.splits)
  qed
qed

lemma read_kek_attribute_safe:
  assumes "i + n \<le> length data"
  shows "safe (read_kek_attribute tag n data i k)"
  using assms by (auto simp: read_kek_attribute_def)

lemma read_kek_attributes_safe:
  assumes "base + n + 3 \<le> length data"
  shows "safe (read_kek_attributes data base n i k)"
  using assms
proof (induction data base n i k rule: read_kek_attributes.induct)
  case (1 data base n i k)
  have "safe (read_value_header False data (base + i))" if "i < n"
    using read_value_header_post [of "base + i" data False] that "1.prems" by (auto simp: safe_post intro: post_weaken)
  moreover have "safe (if tag = 0 \<and> m = 0 then Inr k
      else if j - base \<ge> n \<or> m > n - (j - base) then Inl RUNTIME_VALUE_OUT_OF_BOUNDS
      else bindR (read_kek_attribute tag m data (base + (j - base)) k) (read_kek_attributes data base n (j - base + m)))"
    if "i < n" "read_value_header False data (base + i) = Inr (tag, m, j)" for tag m j
    using "1.IH" [OF that(1,2) refl refl refl] "1.prems" read_kek_attribute_safe [of "base + (j - base)" m data tag k] by auto
  ultimately show ?case
    by (subst read_kek_attributes.simps) (auto simp: Let_def)
qed

lemma key_encrypted_key_read_data_safe:
  assumes "data_size + 3 \<le> length data"
  shows "safe (key_encrypted_key_read_data k data data_size)"
proof (cases "data_size < 2 \<or> data_size > SSIZE_MAX")
  case False
  have object: "safe (read_wrapped_kek_object data base n k)" if "object_within data_size (Some (base, n))" for base n k
    using read_value_header_post [of base data False] read_kek_attributes_safe [of base n data] that assms
    by (auto simp: read_wrapped_kek_object_def object_within_def safe_post intro!: post_bindR split: prod.splits)
  have "safe (case obj of None \<Rightarrow> Inl RUNTIME_VALUE_MISSING | Some (base, n) \<Rightarrow> read_wrapped_kek_object data base n k)"
    if "read_attributes data data_size i (k0, None) = Inr (k, obj)" for obj k k0 i
    using read_attributes_post [of data_size data "(k0, None)" i] that assms object
    by (auto simp: object_within_def split: option.splits)
  moreover have "safe (read_attributes data data_size i (k, None))" for i
    using read_attributes_post [of data_size data "(k, None)" i] assms by (auto simp: safe_post object_within_def intro: post_weaken)
  moreover have "safe (read_value_header True data 0)"
    using read_value_header_post [of 0 data True] assms False by (auto simp: safe_post intro: post_weaken)
  ultimately show ?thesis
    using False by (auto simp: key_encrypted_key_read_data_def intro!: safe_bindR split: prod.splits)
qed (simp add: key_encrypted_key_read_data_def)




section \<open>Recovered keys\<close>

text \<open>The 32-byte key that a method uses, of 16 or 32 bytes in the wrapped data.\<close>

definition kek_key_size :: "key_encrypted_key \<Rightarrow> nat" where
  "kek_key_size k = (if kek_encryption_method k = 2 then 16 else 32)"

lemma unwrap_kek:
  assumes "aes_context aes key (n * 8) = Inr context" "decrypts_blocks aes context E" "n = 16 \<or> n = 32"
    and "wrapped_kek k = wrap E wrapped_kek_initialization_vector plain @ rest" "length plain = n"
  shows "encryption_aes_key_unwrap aes key (n * 8) (wrapped_kek k) (n + 8) (replicate (n + 8) 0) (n + 8) =
    Inr (wrapped_kek_initialization_vector @ plain)"
proof -
  have "Suc (n div 8) * 8 = n + 8" "n = n div 8 * 8" using assms(3) by auto
  then show ?thesis
    using aes_key_unwrap_wrap [OF assms(1,2), of wrapped_kek_initialization_vector plain "n div 8" "replicate (n + 8) 0" rest]
      assms(3-5)
    by (auto simp: wrapped_kek_initialization_vector_def)
qed

lemma unlock_with_password_wrapped:
  assumes "computes_hmac hash password H" "length password \<le> SSIZE_MAX" "kek_wf k"
    and "kek_encryption_method k \<in> {0, 2, 16}" "0 < number_of_iterations k" "number_of_iterations k < 2 ^ 32"
    and "aes_context aes (pbkdf2 H (kek_salt k) (number_of_iterations k) (kek_key_size k)) (kek_key_size k * 8) = Inr context"
    and "decrypts_blocks aes context E"
    and "wrapped_kek k = wrap E wrapped_kek_initialization_vector plain @ rest" "length plain = kek_key_size k"
    and "length unlocked = 32"
  shows "key_encrypted_key_unlock_with_password aes hash k (password @ terminator) (length password) unlocked 256 =
    Inr (Some (plain @ drop (kek_key_size k) unlocked))"
proof -
  have sizes: "kek_key_size k = 16 \<or> kek_key_size k = 32" by (simp add: kek_key_size_def)
  have "password_pbkdf2 hash password (length password) (kek_salt k) (length (kek_salt k)) (number_of_iterations k) (kek_key_size k) =
      Inr (pbkdf2 H (kek_salt k) (number_of_iterations k) (kek_key_size k))"
    using password_pbkdf2_result [OF assms(1,5), of "kek_key_size k" "kek_salt k"] assms(2,3) sizes
    by (auto simp: kek_wf_def MEMORY_MAXIMUM_ALLOCATION_SIZE_def)
  then have key: "password_pbkdf2 hash (password @ terminator) (length password) (kek_salt k) 16
        (number_of_iterations k mod 2 ^ 32) (kek_key_size k) =
      Inr (pbkdf2 H (kek_salt k) (number_of_iterations k) (kek_key_size k))"
    using assms(3,6) by (simp add: kek_wf_def password_pbkdf2_slice)
  have kek: "(if kek_encryption_method k = 2 then (16, 24) else (32, 40)) = (kek_key_size k, kek_key_size k + 8)"
    by (simp add: kek_key_size_def)
  have iv: "length wrapped_kek_initialization_vector = 8" by (simp add: wrapped_kek_initialization_vector_def)
  have supported: "\<not> kek_encryption_method k \<notin> {0, 2, 16}" using assms(4) by simp
  show ?thesis
    unfolding key_encrypted_key_unlock_with_password_def kek Let_def prod.case key bindR_simps
      unwrap_kek [OF assms(7,8) sizes assms(9,10)] if_not_P [OF supported]
    using iv assms(10,11) sizes by auto
qed

lemma unlock_with_key_wrapped:
  assumes "kek_wf k" "kek_encryption_method k \<in> {0, 2}"
    and "aes_context aes key (kek_key_size k * 8) = Inr context" "decrypts_blocks aes context E"
    and "wrapped_kek k = wrap E wrapped_kek_initialization_vector plain @ rest" "length plain = kek_key_size k"
    and "\<And>d. calculate_sha256 hash d = Inr (S d) \<and> length (S d) = 32" "length unlocked = 32"
  shows "key_encrypted_key_unlock_with_key aes hash k key 256 unlocked 256 =
    Inr (Some (if kek_encryption_method k = 2 then plain @ take 16 (S (plain @ kek_identifier k)) else plain))"
proof -
  have sizes: "kek_key_size k = 16 \<or> kek_key_size k = 32" by (simp add: kek_key_size_def)
  have kek: "(if kek_encryption_method k = 0 then (40, 32) else (24, 16)) = (kek_key_size k + 8, kek_key_size k)"
    using assms(2) by (auto simp: kek_key_size_def)
  have iv: "length wrapped_kek_initialization_vector = 8" by (simp add: wrapped_kek_initialization_vector_def)
  have supported: "\<not> (kek_encryption_method k \<noteq> 0 \<and> kek_encryption_method k \<noteq> 2)" using assms(2) by simp
  have id: "length (kek_identifier k) = 16" using assms(1) by (simp add: kek_wf_def)
  show ?thesis
    unfolding key_encrypted_key_unlock_with_key_def kek Let_def prod.case bindR_simps
      unwrap_kek [OF assms(3,4) sizes assms(5,6)] if_not_P [OF supported]
    using iv id assms(2,6,7,8) by (auto simp: kek_key_size_def)
qed

section \<open>Properties\<close>

text \<open>C11. A key encrypted key that is written as a packed object of
  tagged values is read back with all its fields, whatever the key held before.\<close>

theorem key_encrypted_key_roundtrip:
  assumes "kek_wf k"
  shows "key_encrypted_key_read_data k0 (encode_kek k) (length (encode_kek k)) = Inr k"
  by (rule read_data_encoded [OF assms])

definition sample_kek :: key_encrypted_key where
  "sample_kek = \<lparr>kek_identifier = replicate 16 3, kek_hmac = replicate 32 4, number_of_iterations = 70000,
     kek_salt = replicate 16 5, kek_encryption_method = 16, wrapped_kek = replicate 40 6\<rparr>"

theorem key_encrypted_key_roundtrip_witness:
  "key_encrypted_key_read_data sample_kek (encode_kek sample_kek) (length (encode_kek sample_kek)) = Inr sample_kek"
  by (rule key_encrypted_key_roundtrip) (simp add: kek_wf_def sample_kek_def)

text \<open>The sizes in a packed object are trusted only so far:
  whatever the data is, the reader accesses at most three bytes behind it, so it is safe on a buffer
  with three spare bytes.\<close>

theorem key_encrypted_key_read_bounds:
  assumes "data_size + 3 \<le> length data"
  shows "safe (key_encrypted_key_read_data k data data_size)"
  by (rule key_encrypted_key_read_data_safe [OF assms])

theorem key_encrypted_key_read_bounds_witness:
  "safe (key_encrypted_key_read_data sample_kek [0x30, 0x81, 0, 0, 0] 2)"
  by (rule key_encrypted_key_read_bounds) simp



text \<open>The password that a key was wrapped with recovers it: with
  the key that PBKDF2 derives from the password and the salt, AES key unwrapping restores the check
  value and the key, of 16 or 32 bytes, which is copied to the front of the caller's buffer.\<close>

theorem unlock_with_password_recovers:
  assumes "computes_hmac hash password H" "length password \<le> SSIZE_MAX" "kek_wf k"
    and "kek_encryption_method k \<in> {0, 2, 16}" "0 < number_of_iterations k" "number_of_iterations k < 2 ^ 32"
    and "aes_context aes (pbkdf2 H (kek_salt k) (number_of_iterations k) (kek_key_size k)) (kek_key_size k * 8) = Inr context"
    and "decrypts_blocks aes context E"
    and "wrapped_kek k = wrap E wrapped_kek_initialization_vector plain @ rest" "length plain = kek_key_size k"
    and "length unlocked = 32"
  shows "key_encrypted_key_unlock_with_password aes hash k (password @ terminator) (length password) unlocked 256 =
    Inr (Some (plain @ drop (kek_key_size k) unlocked))"
  by (rule unlock_with_password_wrapped [OF assms])

text \<open>A key that is wrapped with the reversing cipher.\<close>

definition wrapping_kek :: "nat \<Rightarrow> bytes \<Rightarrow> key_encrypted_key" where
  "wrapping_kek encryption_method_value plain = sample_kek\<lparr>kek_encryption_method := encryption_method_value,
     wrapped_kek := take 40 (wrap rev wrapped_kek_initialization_vector plain @ replicate 16 0)\<rparr>"

lemma length_wrap_rev:
  assumes "length plain = n * 8"
  shows "length (wrap rev wrapped_kek_initialization_vector plain) = Suc n * 8"
  by (rule length_wrap [OF reversing_aes_decrypts _ assms]) (simp add: wrapped_kek_initialization_vector_def)

lemma wrapping_kek_simps:
  assumes "length plain = 16 \<or> length plain = 32"
  shows "wrapped_kek (wrapping_kek m plain) = wrap rev wrapped_kek_initialization_vector plain @ replicate (32 - length plain) 0"
    "kek_encryption_method (wrapping_kek m plain) = m" "m < 2 ^ 32 \<Longrightarrow> kek_wf (wrapping_kek m plain)"
    "number_of_iterations (wrapping_kek m plain) = 70000" "kek_salt (wrapping_kek m plain) = replicate 16 5"
    "kek_identifier (wrapping_kek m plain) = replicate 16 3"
proof -
  have "length (wrap rev wrapped_kek_initialization_vector plain) = length plain + 8"
    using length_wrap_rev [of plain 2] length_wrap_rev [of plain 4] assms by auto
  then show "wrapped_kek (wrapping_kek m plain) = wrap rev wrapped_kek_initialization_vector plain @ replicate (32 - length plain) 0"
    "kek_encryption_method (wrapping_kek m plain) = m" "m < 2 ^ 32 \<Longrightarrow> kek_wf (wrapping_kek m plain)"
    "number_of_iterations (wrapping_kek m plain) = 70000" "kek_salt (wrapping_kek m plain) = replicate 16 5"
    "kek_identifier (wrapping_kek m plain) = replicate 16 3"
    using assms by (auto simp: wrapping_kek_def kek_wf_def sample_kek_def)
qed

theorem unlock_with_password_recovers_witness:
  "key_encrypted_key_unlock_with_password reversing_aes padding_hash (wrapping_kek 2 (replicate 16 9))
     ([1, 2] @ [0]) (length [1 :: byte, 2]) (replicate 32 0) 256 =
   Inr (Some (replicate 16 9 @ drop (kek_key_size (wrapping_kek 2 (replicate 16 9))) (replicate 32 0)))"
  by (rule unlock_with_password_recovers [OF padding_hash_computes _ _ _ _ _ _ reversing_aes_decrypts])
    (simp_all add: wrapping_kek_simps kek_key_size_def SSIZE_MAX_def reversing_aes_def)

end
