(* ===== verification/Key_Bags.thy ===== *)
theory Key_Bags
  imports Key_Encrypted_Key Checksum
begin

text \<open>
  Key bags of containers and volumes, \<open>libfsapfs_key_bag_header.c\<close>, \<open>libfsapfs_key_bag_entry.c\<close>,
  \<open>libfsapfs_container_key_bag.c\<close> and \<open>libfsapfs_volume_key_bag.c\<close>, and the unlocking of an
  encrypted volume, \<open>libfsapfs_internal_volume_unlock\<close> of \<open>libfsapfs_volume.c\<close>.
\<close>

section \<open>Header and entries\<close>

record key_bag_header =
  number_of_bag_entries :: nat
  bag_data_size :: nat

definition key_bag_header_initialize :: "key_bag_header option \<Rightarrow> key_bag_header result" where
  "key_bag_header_initialize key_bag_header =
     (if key_bag_header \<noteq> None then Inl RUNTIME_VALUE_ALREADY_SET
      else Inr \<lparr>number_of_bag_entries = 0, bag_data_size = 0\<rparr>)"

definition key_bag_header_read_data :: "key_bag_header \<Rightarrow> bytes \<Rightarrow> nat \<Rightarrow> key_bag_header result" where
  "key_bag_header_read_data key_bag_header data data_size =
     (if data_size < 16 \<or> data_size > SSIZE_MAX then Inl RUNTIME_VALUE_OUT_OF_BOUNDS
      else
        bindR (rd_u16_le data 0) (\<lambda>format_version.
        bindR (rd_u16_le data 2) (\<lambda>entries_value.
        bindR (rd_u32_le data 4) (\<lambda>size_value.
          if format_version \<noteq> 2 then Inl RUNTIME_UNSUPPORTED_VALUE
          else Inr (key_bag_header\<lparr>number_of_bag_entries := entries_value, bag_data_size := size_value\<rparr>)))))"

record key_bag_entry =
  entry_size :: nat
  entry_identifier :: bytes
  entry_type :: nat
  entry_data :: "bytes option"
  entry_bag_data_size :: nat

definition key_bag_entry_initialize :: "key_bag_entry option \<Rightarrow> key_bag_entry result" where
  "key_bag_entry_initialize key_bag_entry =
     (if key_bag_entry \<noteq> None then Inl RUNTIME_VALUE_ALREADY_SET
      else Inr \<lparr>entry_size = 0, entry_identifier = replicate 16 0, entry_type = 0, entry_data = None,
                entry_bag_data_size = 0\<rparr>)"

definition key_bag_entry_read_data :: "key_bag_entry \<Rightarrow> bytes \<Rightarrow> nat \<Rightarrow> key_bag_entry result" where
  "key_bag_entry_read_data key_bag_entry data data_size =
     (if entry_data key_bag_entry \<noteq> None then Inl RUNTIME_VALUE_ALREADY_SET
      else if data_size < 24 \<or> data_size > SSIZE_MAX then Inl RUNTIME_VALUE_OUT_OF_BOUNDS
      else
        bindR (rd_slice data 0 16) (\<lambda>identifier_value.
        bindR (rd_u16_le data 16) (\<lambda>type_value.
        bindR (rd_u16_le data 18) (\<lambda>size_value.
          if size_value = 0 \<or> size_value > data_size - 24 then Inl RUNTIME_VALUE_OUT_OF_BOUNDS
          else
            bindR (rd_slice data 24 size_value) (\<lambda>data_value.
              Inr (key_bag_entry\<lparr>entry_size := 24 + size_value, entry_identifier := identifier_value,
                entry_type := type_value, entry_data := Some data_value, entry_bag_data_size := size_value\<rparr>))))))"

section \<open>Bags\<close>

text \<open>The entries that follow the header, each aligned to 16 bytes.\<close>

fun read_bag_entries :: "bytes \<Rightarrow> nat \<Rightarrow> nat \<Rightarrow> nat \<Rightarrow> key_bag_entry list \<Rightarrow> key_bag_entry list result" where
  "read_bag_entries data data_size 0 data_offset entries = Inr entries"
| "read_bag_entries data data_size (Suc n) data_offset entries =
     bindR (key_bag_entry_initialize None) (\<lambda>bag_entry.
     bindR (key_bag_entry_read_data bag_entry (drop data_offset data) (data_size - data_offset)) (\<lambda>bag_entry.
       let data_offset = data_offset + entry_size bag_entry;
           padding = data_offset mod 16
       in if padding \<noteq> 0 then
            let padding = 16 - padding
            in if padding > data_size \<or> data_offset > data_size - padding then Inl RUNTIME_VALUE_OUT_OF_BOUNDS
               else read_bag_entries data data_size n (data_offset + padding) (entries @ [bag_entry])
          else read_bag_entries data data_size n data_offset (entries @ [bag_entry])))"

text \<open>The header and the entries behind the 32 bytes of the object.\<close>

definition read_bag :: "bytes \<Rightarrow> nat \<Rightarrow> key_bag_entry list \<Rightarrow> key_bag_entry list result" where
  "read_bag data data_size entries =
     bindR (key_bag_header_initialize None) (\<lambda>bag_header.
     bindR (key_bag_header_read_data bag_header (drop 32 data) (data_size - 32)) (\<lambda>bag_header.
       if bag_data_size bag_header > data_size - 32 then Inl RUNTIME_VALUE_OUT_OF_BOUNDS
       else read_bag_entries data data_size (number_of_bag_entries bag_header) (32 + 16) entries))"

record volume_key_bag =
  volume_bag_entries :: "key_bag_entry list"

definition volume_key_bag_initialize :: "volume_key_bag option \<Rightarrow> volume_key_bag result" where
  "volume_key_bag_initialize volume_key_bag =
     (if volume_key_bag \<noteq> None then Inl RUNTIME_VALUE_ALREADY_SET else Inr \<lparr>volume_bag_entries = []\<rparr>)"

definition volume_key_bag_read_data :: "volume_key_bag \<Rightarrow> bytes \<Rightarrow> nat \<Rightarrow> volume_key_bag result" where
  "volume_key_bag_read_data volume_key_bag data data_size =
     (if data_size < 32 \<or> data_size > SSIZE_MAX then Inl RUNTIME_VALUE_OUT_OF_BOUNDS
      else
        bindR (rd_u32_le data 24) (\<lambda>object_type.
          if object_type \<noteq> 0x72656373 then Inl RUNTIME_UNSUPPORTED_VALUE
          else bindR (rd_u32_le data 28) (\<lambda>object_subtype.
            if object_subtype \<noteq> 0 then Inl RUNTIME_UNSUPPORTED_VALUE
            else
              bindR (read_bag data data_size (volume_bag_entries volume_key_bag)) (\<lambda>entries.
                Inr (volume_key_bag\<lparr>volume_bag_entries := entries\<rparr>)))))"

record container_key_bag =
  container_bag_entries :: "key_bag_entry list"
  container_bag_is_locked :: bool

definition container_key_bag_initialize :: "container_key_bag option \<Rightarrow> container_key_bag result" where
  "container_key_bag_initialize container_key_bag =
     (if container_key_bag \<noteq> None then Inl RUNTIME_VALUE_ALREADY_SET
      else Inr \<lparr>container_bag_entries = [], container_bag_is_locked = False\<rparr>)"

text \<open>\<open>None\<close> stands for the result 0, another type of object.\<close>

definition container_key_bag_read_data ::
    "container_key_bag \<Rightarrow> bytes \<Rightarrow> nat \<Rightarrow> container_key_bag option result" where
  "container_key_bag_read_data container_key_bag data data_size =
     (if data_size < 32 \<or> data_size > SSIZE_MAX then Inl RUNTIME_VALUE_OUT_OF_BOUNDS
      else
        bindR (rd_u64_le data 0) (\<lambda>stored_checksum.
        bindR (rd_u32_le data 24) (\<lambda>object_type.
          if object_type \<noteq> 0x6b657973 then Inr None
          else bindR (rd_u32_le data 28) (\<lambda>object_subtype.
            if object_subtype \<noteq> 0 then Inl RUNTIME_UNSUPPORTED_VALUE
            else
              bindR (checksum_calculate_fletcher64 (drop 8 data) (data_size - 8) 0) (\<lambda>calculated_checksum.
                if stored_checksum \<noteq> unat calculated_checksum then Inl INPUT_CHECKSUM_MISMATCH
                else
                  bindR (read_bag data data_size (container_bag_entries container_key_bag)) (\<lambda>entries.
                    Inr (Some (container_key_bag\<lparr>container_bag_entries := entries\<rparr>))))))))"

section \<open>Encrypted bags\<close>

text \<open>
  The data of a bag, decrypted sector by sector with its identifier as key and as tweak key;
  \<open>None\<close> stands for not returning.
\<close>

definition read_encrypted_bag ::
    "'x xts_operations \<Rightarrow> nat \<Rightarrow> file_io \<Rightarrow> nat \<Rightarrow> nat \<Rightarrow> bytes \<Rightarrow> bytes result option" where
  "read_encrypted_bag xts bytes_per_sector file_io_handle file_offset data_size key =
     (if bytes_per_sector = 0 then Some (Inl RUNTIME_VALUE_MISSING)
      else if data_size = 0 \<or> data_size > MEMORY_MAXIMUM_ALLOCATION_SIZE then Some (Inl RUNTIME_VALUE_OUT_OF_BOUNDS)
      else
        case bindR (read_buffer_at_offset file_io_handle file_offset data_size) (\<lambda>encrypted_data.
             bindR (encryption_context_initialize xts None METHOD_AES_128_XTS) (\<lambda>encryption_context.
             bindR (encryption_context_set_keys xts encryption_context key 16 key 16) (\<lambda>encryption_context.
               Inr (encrypted_data, encryption_context)))) of
          Inl e \<Rightarrow> Some (Inl e)
        | Inr (encrypted_data, encryption_context) \<Rightarrow>
            (case encryption_context_crypt xts encryption_context (caes_mode_decrypt xts) encrypted_data data_size
                    (replicate data_size 0) data_size (file_offset div bytes_per_sector) bytes_per_sector of
               None \<Rightarrow> None
             | Some (Inl (e, buffer)) \<Rightarrow> Some (Inl e)
             | Some (Inr data) \<Rightarrow> Some (Inr data)))"

definition volume_key_bag_read_file_io_handle ::
    "'x xts_operations \<Rightarrow> volume_key_bag \<Rightarrow> nat \<Rightarrow> file_io \<Rightarrow> nat \<Rightarrow> nat \<Rightarrow> bytes \<Rightarrow> volume_key_bag result option" where
  "volume_key_bag_read_file_io_handle xts volume_key_bag bytes_per_sector file_io_handle file_offset data_size
       volume_identifier =
     map_option (\<lambda>r. bindR r (\<lambda>data. volume_key_bag_read_data volume_key_bag data data_size))
       (read_encrypted_bag xts bytes_per_sector file_io_handle file_offset data_size volume_identifier)"

definition container_key_bag_read_file_io_handle ::
    "'x xts_operations \<Rightarrow> container_key_bag \<Rightarrow> nat \<Rightarrow> file_io \<Rightarrow> nat \<Rightarrow> nat \<Rightarrow> bytes \<Rightarrow>
     container_key_bag option result option" where
  "container_key_bag_read_file_io_handle xts container_key_bag bytes_per_sector file_io_handle file_offset data_size
       container_identifier =
     map_option (\<lambda>r. bindR r (\<lambda>data. container_key_bag_read_data container_key_bag data data_size))
       (read_encrypted_bag xts bytes_per_sector file_io_handle file_offset data_size container_identifier)"

section \<open>Lookups\<close>

text \<open>A \<open>NULL\<close> password is \<open>None\<close>; a result of 0 is \<open>None\<close>.\<close>

fun volume_key_of_entries ::
    "'a aes_operations \<Rightarrow> hash_operations \<Rightarrow> bytes option \<Rightarrow> nat \<Rightarrow> bytes option \<Rightarrow> nat \<Rightarrow> bytes \<Rightarrow> nat \<Rightarrow>
     key_bag_entry list \<Rightarrow> bytes option result" where
  "volume_key_of_entries aes hash user_password user_password_length recovery_password recovery_password_length
       key key_size [] = Inr None"
| "volume_key_of_entries aes hash user_password user_password_length recovery_password recovery_password_length
       key key_size (bag_entry # entries) =
     (if entry_type bag_entry \<noteq> 3 then
        volume_key_of_entries aes hash user_password user_password_length recovery_password recovery_password_length
          key key_size entries
      else
        bindR (key_encrypted_key_initialize None) (\<lambda>key_encrypted_key.
        bindR (case entry_data bag_entry of
                 None \<Rightarrow> Inl ARGUMENT_INVALID_VALUE
               | Some data \<Rightarrow> key_encrypted_key_read_data key_encrypted_key data (entry_bag_data_size bag_entry))
          (\<lambda>key_encrypted_key.
        bindR (case user_password of
                 None \<Rightarrow> Inr None
               | Some password \<Rightarrow> key_encrypted_key_unlock_with_password aes hash key_encrypted_key
                   password user_password_length key key_size) (\<lambda>unlocked.
        bindR (case (unlocked, recovery_password) of
                 (None, Some password) \<Rightarrow> key_encrypted_key_unlock_with_password aes hash key_encrypted_key
                   password recovery_password_length key key_size
               | _ \<Rightarrow> Inr unlocked) (\<lambda>unlocked.
          case unlocked of
            Some key \<Rightarrow> Inr (Some key)
          | None \<Rightarrow> volume_key_of_entries aes hash user_password user_password_length
                      recovery_password recovery_password_length key key_size entries)))))"

definition volume_key_bag_get_volume_key ::
    "'a aes_operations \<Rightarrow> hash_operations \<Rightarrow> volume_key_bag \<Rightarrow> bytes option \<Rightarrow> nat \<Rightarrow> bytes option \<Rightarrow> nat \<Rightarrow>
     bytes \<Rightarrow> nat \<Rightarrow> bytes option result" where
  "volume_key_bag_get_volume_key aes hash volume_key_bag user_password user_password_length
       recovery_password recovery_password_length key key_size =
     volume_key_of_entries aes hash user_password user_password_length recovery_password recovery_password_length
       key key_size (volume_bag_entries volume_key_bag)"

fun volume_key_bag_extent_of_entries :: "bytes \<Rightarrow> key_bag_entry list \<Rightarrow> (nat \<times> nat) option result" where
  "volume_key_bag_extent_of_entries volume_identifier [] = Inr None"
| "volume_key_bag_extent_of_entries volume_identifier (bag_entry # entries) =
     (if entry_type bag_entry \<noteq> 3 then volume_key_bag_extent_of_entries volume_identifier entries
      else if entry_identifier bag_entry \<noteq> volume_identifier then
        volume_key_bag_extent_of_entries volume_identifier entries
      else
        case entry_data bag_entry of
          None \<Rightarrow> Inl RUNTIME_VALUE_MISSING
        | Some data \<Rightarrow>
            if entry_bag_data_size bag_entry \<noteq> 16 then Inl RUNTIME_UNSUPPORTED_VALUE
            else
              bindR (rd_u64_le data 0) (\<lambda>block_number.
              bindR (rd_u64_le data 8) (\<lambda>number_of_blocks.
                Inr (Some (block_number, number_of_blocks)))))"

definition container_key_bag_get_volume_key_bag_extent_by_identifier ::
    "container_key_bag \<Rightarrow> bytes \<Rightarrow> (nat \<times> nat) option result" where
  "container_key_bag_get_volume_key_bag_extent_by_identifier container_key_bag volume_identifier =
     volume_key_bag_extent_of_entries volume_identifier (container_bag_entries container_key_bag)"

fun volume_master_key_of_entries ::
    "'a aes_operations \<Rightarrow> hash_operations \<Rightarrow> bytes \<Rightarrow> bytes \<Rightarrow> nat \<Rightarrow> bytes \<Rightarrow> nat \<Rightarrow> key_bag_entry list \<Rightarrow>
     bytes option result" where
  "volume_master_key_of_entries aes hash volume_identifier volume_key volume_key_size key key_size [] = Inr None"
| "volume_master_key_of_entries aes hash volume_identifier volume_key volume_key_size key key_size
       (bag_entry # entries) =
     (if entry_type bag_entry \<noteq> 2 \<or> entry_identifier bag_entry \<noteq> volume_identifier then
        volume_master_key_of_entries aes hash volume_identifier volume_key volume_key_size key key_size entries
      else
        bindR (key_encrypted_key_initialize None) (\<lambda>key_encrypted_key.
        bindR (case entry_data bag_entry of
                 None \<Rightarrow> Inl ARGUMENT_INVALID_VALUE
               | Some data \<Rightarrow> key_encrypted_key_read_data key_encrypted_key data (entry_bag_data_size bag_entry))
          (\<lambda>key_encrypted_key.
        bindR (key_encrypted_key_unlock_with_key aes hash key_encrypted_key volume_key volume_key_size
                 key key_size) (\<lambda>unlocked.
          case unlocked of
            Some key \<Rightarrow> Inr (Some key)
          | None \<Rightarrow> volume_master_key_of_entries aes hash volume_identifier volume_key volume_key_size
                      key key_size entries))))"

definition container_key_bag_get_volume_master_key_by_identifier ::
    "'a aes_operations \<Rightarrow> hash_operations \<Rightarrow> container_key_bag \<Rightarrow> bytes \<Rightarrow> bytes \<Rightarrow> nat \<Rightarrow> bytes \<Rightarrow> nat \<Rightarrow>
     bytes option result" where
  "container_key_bag_get_volume_master_key_by_identifier aes hash container_key_bag volume_identifier
       volume_key volume_key_size key key_size =
     volume_master_key_of_entries aes hash volume_identifier volume_key volume_key_size key key_size
       (container_bag_entries container_key_bag)"

section \<open>Unlocking a volume\<close>

text \<open>
  The part of \<open>libfsapfs_internal_volume_t\<close> that is used to unlock the volume. A password is kept with
  its terminating zero, which its size includes.
\<close>

record 'x volume_lock =
  lock_volume_identifier :: bytes
  lock_container_key_bag :: "container_key_bag option"
  lock_key_bag :: "volume_key_bag option"
  lock_encryption_context :: "'x encryption_context option"
  lock_is_locked :: bool
  user_password :: "bytes option"
  user_password_size :: nat
  recovery_password :: "bytes option"
  recovery_password_size :: nat

abbreviation size_less_one :: "nat \<Rightarrow> nat" where
  "size_less_one n \<equiv> (n + (2 ^ 64 - 1)) mod 2 ^ 64"

definition internal_volume_unlock ::
    "'x xts_operations \<Rightarrow> 'a aes_operations \<Rightarrow> hash_operations \<Rightarrow> 'x volume_lock \<Rightarrow> (bool \<times> 'x volume_lock) result" where
  "internal_volume_unlock xts aes hash volume =
     (case lock_key_bag volume of
        None \<Rightarrow> Inr (True, volume\<lparr>lock_is_locked := False\<rparr>)
      | Some key_bag \<Rightarrow>
          bindR (volume_key_bag_get_volume_key aes hash key_bag
                   (user_password volume) (size_less_one (user_password_size volume))
                   (recovery_password volume) (size_less_one (recovery_password_size volume))
                   (replicate 32 0) 256) (\<lambda>result.
            case result of
              None \<Rightarrow> Inr (False, volume)
            | Some volume_key \<Rightarrow>
                case lock_container_key_bag volume of
                  None \<Rightarrow> Inl ARGUMENT_INVALID_VALUE
                | Some container_bag \<Rightarrow>
                    bindR (container_key_bag_get_volume_master_key_by_identifier aes hash container_bag
                             (lock_volume_identifier volume) volume_key 256 (replicate 32 0) 256) (\<lambda>result.
                      case result of
                        None \<Rightarrow> Inl RUNTIME_GET_FAILED
                      | Some volume_master_key \<Rightarrow>
                          case lock_encryption_context volume of
                            None \<Rightarrow> Inl ARGUMENT_INVALID_VALUE
                          | Some encryption_context \<Rightarrow>
                              bindR (encryption_context_set_keys xts encryption_context volume_master_key 16
                                       (drop 16 volume_master_key) 16) (\<lambda>encryption_context.
                                Inr (True, volume\<lparr>lock_encryption_context := Some encryption_context,
                                  lock_is_locked := False\<rparr>)))))"

section \<open>Reading\<close>

text \<open>What the entries of a bag that was read satisfy.\<close>

definition bag_entry_wf :: "key_bag_entry \<Rightarrow> bool" where
  "bag_entry_wf e \<longleftrightarrow> length (entry_identifier e) = 16 \<and> entry_type e < 2 ^ 16 \<and>
     0 < entry_bag_data_size e \<and> entry_bag_data_size e < 2 ^ 16 \<and> entry_size e = 24 + entry_bag_data_size e \<and>
     (\<exists>d. entry_data e = Some d \<and> length d = entry_bag_data_size e)"

lemma key_bag_entry_read_data_post:
  assumes "data_size \<le> length data"
  shows "post lib_error (\<lambda>e. bag_entry_wf e \<and> entry_size e \<le> data_size) (key_bag_entry_read_data e0 data data_size)"
proof -
  have le2: "le_value (take 2 (drop i data)) < 2 ^ 16" for i
    using le_value_take_bound [of 2 "drop i data"] by simp
  show ?thesis
    using assms le2 [of 16] le2 [of 18] by (auto simp: key_bag_entry_read_data_def bag_entry_wf_def)
qed

lemma read_bag_entries_post:
  assumes "data_size \<le> length data" "off \<le> data_size"
  shows "post lib_error (\<lambda>es. \<exists>new_entries. es = entries @ new_entries \<and> length new_entries = n \<and> (\<forall>e\<in>set new_entries. bag_entry_wf e))
    (read_bag_entries data data_size n off entries)"
  using assms(2)
proof (induction n arbitrary: off entries)
  case (Suc n)
  have "post lib_error (\<lambda>es. \<exists>new_entries. es = entries @ new_entries \<and> length new_entries = Suc n \<and> (\<forall>e\<in>set new_entries. bag_entry_wf e))
      (read_bag_entries data data_size n off' (entries @ [e]))" if "bag_entry_wf e" "off' \<le> data_size" for e off'
    by (rule post_weaken [OF Suc.IH [OF that(2)]]) (use that(1) in force)+
  then show ?case
    using Suc.prems assms(1)
    by (auto simp: key_bag_entry_initialize_def Let_def intro!: post_bindR [OF key_bag_entry_read_data_post])
qed simp

lemma read_bag_post:
  assumes "data_size \<le> length data"
  shows "post lib_error (\<lambda>es. \<exists>new_entries. es = entries @ new_entries \<and> (\<forall>e\<in>set new_entries. bag_entry_wf e)) (read_bag data data_size entries)"
proof -
  have header: "post lib_error (\<lambda>h. 48 \<le> data_size) (key_bag_header_read_data h (drop 32 data) (data_size - 32))" for h
    using assms by (auto simp: key_bag_header_read_data_def)
  have "post lib_error (\<lambda>es. \<exists>new_entries. es = entries @ new_entries \<and> (\<forall>e\<in>set new_entries. bag_entry_wf e))
      (read_bag_entries data data_size n 48 entries)" if "48 \<le> data_size" for n
    by (rule post_weaken [OF read_bag_entries_post [OF assms that]]) auto
  then show ?thesis
    by (auto simp: read_bag_def key_bag_header_initialize_def intro!: post_bindR [OF header])
qed

lemma volume_key_bag_read_data_post:
  assumes "data_size \<le> length data" "volume_bag_entries bag = []"
  shows "post lib_error (\<lambda>bag'. \<forall>e\<in>set (volume_bag_entries bag'). bag_entry_wf e) (volume_key_bag_read_data bag data data_size)"
  using assms by (auto simp: volume_key_bag_read_data_def intro!: post_bindR [OF read_bag_post])

lemma container_key_bag_read_data_post:
  assumes "data_size \<le> length data" "container_bag_entries bag = []"
  shows "post lib_error (\<lambda>r. \<forall>bag'. r = Some bag' \<longrightarrow> (\<forall>e\<in>set (container_bag_entries bag'). bag_entry_wf e))
    (container_key_bag_read_data bag data data_size)"
proof -
  have "post lib_error (\<lambda>_. True) (checksum_calculate_fletcher64 (drop 8 data) (data_size - 8) 0)"
    using checksum_calculate_fletcher64_safe [of "data_size - 8" "drop 8 data" 0] assms(1) by (simp add: safe_post)
  then show ?thesis
    using assms by (auto simp: container_key_bag_read_data_def intro!: post_bindR [where P = "\<lambda>_. True"] post_bindR [OF read_bag_post])
qed

section \<open>Written bags\<close>

text \<open>An entry with its padding, and the data of a bag behind its checksum.\<close>

definition bag_padding :: "nat \<Rightarrow> nat" where
  "bag_padding n = (16 - n mod 16) mod 16"

definition encode_entry :: "key_bag_entry \<Rightarrow> bytes" where
  "encode_entry e = entry_identifier e @ le_encode 2 (entry_type e) @ le_encode 2 (entry_bag_data_size e) @
     replicate 4 0 @ the (entry_data e) @ replicate (bag_padding (entry_size e)) 0"

definition encode_bag_body :: "nat \<Rightarrow> key_bag_entry list \<Rightarrow> bytes" where
  "encode_bag_body object_type entries = replicate 16 0 @ le_encode 4 object_type @ replicate 4 0 @
     le_encode 2 2 @ le_encode 2 (length entries) @ le_encode 4 0 @ replicate 8 0 @ concat (map encode_entry entries)"

lemma bag_padding_cases:
  "n mod 16 = 0 \<Longrightarrow> bag_padding n = 0"
  "n mod 16 \<noteq> 0 \<Longrightarrow> bag_padding n = 16 - n mod 16"
  by (simp_all add: bag_padding_def)

lemma bag_padding_dvd: "16 dvd n + bag_padding n"
proof (cases "n mod 16 = 0")
  case False
  have "16 * q + r = n \<Longrightarrow> r < 16 \<Longrightarrow> n + (16 - r) = 16 * (q + 1)" for q r by simp
  then have "n + bag_padding n = 16 * (n div 16 + 1)"
    using bag_padding_cases(2) [OF False] mult_div_mod_eq [of 16 n] by simp
  then show ?thesis by (rule dvdI)
qed (simp add: bag_padding_cases mod_eq_0_iff_dvd)

lemma length_encode_entry: "bag_entry_wf e \<Longrightarrow> length (encode_entry e) = entry_size e + bag_padding (entry_size e)"
  by (auto simp: bag_entry_wf_def encode_entry_def)

lemma read_encoded_entry:
  assumes "bag_entry_wf e" "entry_data e0 = None" "length (encode_entry e) \<le> n" "n \<le> SSIZE_MAX"
  shows "key_bag_entry_read_data e0 (encode_entry e @ rest) n = Inr e"
proof -
  obtain d where d: "entry_data e = Some d" "length d = entry_bag_data_size e" using assms(1) by (auto simp: bag_entry_wf_def)
  have "entry_size e \<le> n" using assms(3) length_encode_entry [OF assms(1)] by simp
  then show ?thesis
    using assms d by (simp add: key_bag_entry_read_data_def bag_entry_wf_def encode_entry_def)
qed

lemma read_encoded_entries:
  assumes "\<forall>e\<in>set es. bag_entry_wf e" "data = pre @ concat (map encode_entry es) @ rest" "16 dvd length pre"
    and "length data \<le> SSIZE_MAX"
  shows "read_bag_entries data (length data) (length es) (length pre) entries = Inr (entries @ es)"
  using assms(1,2,3)
proof (induction es arbitrary: pre entries)
  case (Cons e es)
  let ?k = "length (encode_entry e)"
  have e: "bag_entry_wf e" using Cons.prems(1) by simp
  note size = length_encode_entry [OF e]
  have "key_bag_entry_read_data e0 (drop (length pre) data) (length data - length pre) = Inr e" if "entry_data e0 = None" for e0
    using read_encoded_entry [OF e that] Cons.prems(2) assms(4) by simp
  then have read: "bindR (key_bag_entry_initialize None) (\<lambda>e0.
      bindR (key_bag_entry_read_data e0 (drop (length pre) data) (length data - length pre)) k) = k e" for k
    by (simp add: key_bag_entry_initialize_def)
  have IH: "read_bag_entries data (length data) (length es) (length pre + ?k) (entries @ [e]) = Inr (entries @ [e] @ es)"
    using Cons.IH [of "pre @ encode_entry e" "entries @ [e]"] Cons.prems e bag_padding_dvd [of "entry_size e"] size
    by (simp add: dvd_add)
  have bounds: "length pre + ?k \<le> length data" using Cons.prems(2) by simp
  have padding: "(length pre + entry_size e) mod 16 = entry_size e mod 16"
    using Cons.prems(3) by (metis dvd_imp_mod_0 mod_add_left_eq add_0)
  show ?case
  proof (cases "entry_size e mod 16 = 0")
    case True
    then show ?thesis using IH size by (simp add: read Let_def padding bag_padding_cases)
  next
    case False
    define p where "p = 16 - entry_size e mod 16"
    have "?k = entry_size e + p" using size bag_padding_cases(2) [OF False] by (simp add: p_def)
    moreover from this have "\<not> length data < p" "\<not> length data - p < length pre + entry_size e" using bounds by linarith+
    ultimately show ?thesis using IH False by (simp add: read Let_def padding p_def [symmetric] add.assoc)
  qed
qed simp

lemma read_encoded_bag:
  assumes "\<forall>e\<in>set es. bag_entry_wf e" "length es < 2 ^ 16" "length checksum = 8"
    and "data = checksum @ encode_bag_body object_type es" "length data \<le> SSIZE_MAX"
  shows "read_bag data (length data) [] = Inr es"
proof -
  let ?pre = "checksum @ replicate 16 0 @ le_encode 4 object_type @ replicate 4 0 @
     le_encode 2 2 @ le_encode 2 (length es) @ le_encode 4 0 @ replicate 8 0"
  have "read_bag_entries data (length data) (length es) (length ?pre) [] = Inr ([] @ es)"
    by (rule read_encoded_entries [OF assms(1), of _ _ "[]"])
      (use assms(3,5) in \<open>simp_all add: assms(4) encode_bag_body_def\<close>)
  then have "read_bag_entries data (length data) (length es) 48 [] = Inr es" by (simp add: assms(3))
  moreover have "key_bag_header_read_data h (drop 32 data) (length data - 32) = Inr \<lparr>number_of_bag_entries = length es, bag_data_size = 0\<rparr>" for h
    using assms(2,5) unfolding assms(4) encode_bag_body_def
    by (simp add: key_bag_header_read_data_def assms(3))
  ultimately show ?thesis by (simp add: read_bag_def key_bag_header_initialize_def)
qed

section \<open>Unlocked volumes\<close>

lemma volume_key_first:
  assumes "\<forall>e\<in>set es. entry_type e \<noteq> 3" "entry_type e = 3" "entry_data e = Some (encode_kek k)"
    and "entry_bag_data_size e = length (encode_kek k)" "kek_wf k"
    and "key_encrypted_key_unlock_with_password aes hash k password n key m = Inr (Some unlocked)"
  shows "volume_key_of_entries aes hash (Some password) n recovery n' key m (es @ e # rest) = Inr (Some unlocked)"
  using assms(1)
proof (induction es)
  case Nil
  show ?case
    using assms(2-) read_data_encoded [OF assms(5)] by (simp add: key_encrypted_key_initialize_def)
qed simp

lemma volume_master_key_first:
  assumes "\<forall>e\<in>set es. entry_type e \<noteq> 2 \<or> entry_identifier e \<noteq> uuid" "entry_type e = 2" "entry_identifier e = uuid"
    and "entry_data e = Some (encode_kek k)" "entry_bag_data_size e = length (encode_kek k)" "kek_wf k"
    and "key_encrypted_key_unlock_with_key aes hash k volume_key n key m = Inr (Some unlocked)"
  shows "volume_master_key_of_entries aes hash uuid volume_key n key m (es @ e # rest) = Inr (Some unlocked)"
  using assms(1)
proof (induction es)
  case Nil
  show ?case
    using assms(2-) read_data_encoded [OF assms(6)] by (simp add: key_encrypted_key_initialize_def)
qed auto

text \<open>The key \<open>plain\<close> is wrapped in \<open>k\<close> with a password, or with another key.\<close>

definition wrapped_with_password ::
    "'a aes_operations \<Rightarrow> hash_operations \<Rightarrow> bytes \<Rightarrow> key_encrypted_key \<Rightarrow> bytes \<Rightarrow> bool" where
  "wrapped_with_password aes hash password k plain \<longleftrightarrow>
     kek_wf k \<and> kek_encryption_method k \<in> {0, 16} \<and> 0 < number_of_iterations k \<and> number_of_iterations k < 2 ^ 32 \<and>
     length plain = 32 \<and>
     (\<exists>H context E rest. computes_hmac hash password H \<and>
        aes_context aes (pbkdf2 H (kek_salt k) (number_of_iterations k) 32) 256 = Inr context \<and>
        decrypts_blocks aes context E \<and> wrapped_kek k = wrap E wrapped_kek_initialization_vector plain @ rest)"

definition wrapped_with_key :: "'a aes_operations \<Rightarrow> bytes \<Rightarrow> key_encrypted_key \<Rightarrow> bytes \<Rightarrow> bool" where
  "wrapped_with_key aes key k plain \<longleftrightarrow>
     kek_wf k \<and> kek_encryption_method k \<in> {0, 2} \<and> length plain = kek_key_size k \<and>
     (\<exists>context E rest. aes_context aes key (kek_key_size k * 8) = Inr context \<and>
        decrypts_blocks aes context E \<and> wrapped_kek k = wrap E wrapped_kek_initialization_vector plain @ rest)"

text \<open>The keys of the volume: a key of 16 bytes is completed by a hash with the identifier.\<close>

definition volume_keys :: "(bytes \<Rightarrow> bytes) \<Rightarrow> key_encrypted_key \<Rightarrow> bytes \<Rightarrow> bytes" where
  "volume_keys S k plain = (if kek_encryption_method k = 2 then plain @ take 16 (S (plain @ kek_identifier k)) else plain)"

text \<open>The first entry that satisfies \<open>P\<close> holds the packed object of \<open>k\<close>.\<close>

definition first_holds :: "(key_bag_entry \<Rightarrow> bool) \<Rightarrow> key_encrypted_key \<Rightarrow> key_bag_entry list \<Rightarrow> bool" where
  "first_holds P k entries \<longleftrightarrow> (case find P entries of None \<Rightarrow> False
     | Some e \<Rightarrow> entry_data e = Some (encode_kek k) \<and> entry_bag_data_size e = length (encode_kek k))"

lemma first_holds_split:
  assumes "first_holds P k entries"
  obtains es e rest where "entries = es @ e # rest" "\<forall>e\<in>set es. \<not> P e" "P e" "entry_data e = Some (encode_kek k)"
    "entry_bag_data_size e = length (encode_kek k)"
proof -
  obtain e where e: "find P entries = Some e" "entry_data e = Some (encode_kek k)" "entry_bag_data_size e = length (encode_kek k)"
    using assms by (auto simp: first_holds_def split: option.splits)
  obtain i where i: "i < length entries" "P (entries ! i)" "e = entries ! i" "\<forall>j<i. \<not> P (entries ! j)"
    using e(1) by (auto simp: find_Some_iff)
  show ?thesis
    by (rule that [OF id_take_nth_drop [OF i(1)]]) (use i e in \<open>auto simp: in_set_conv_nth\<close>)
qed

lemma internal_volume_unlock_opens:
  assumes "lock_key_bag v = Some key_bag" "first_holds (\<lambda>e. entry_type e = 3) k (volume_bag_entries key_bag)"
    and "wrapped_with_password aes hash password k volume_key" "length password \<le> SSIZE_MAX"
    and "user_password v = Some (password @ [0])" "user_password_size v = length password + 1"
    and "lock_container_key_bag v = Some bag"
    and "first_holds (\<lambda>e. entry_type e = 2 \<and> entry_identifier e = lock_volume_identifier v) k' (container_bag_entries bag)"
    and "wrapped_with_key aes volume_key k' plain" "\<And>d. calculate_sha256 hash d = Inr (S d) \<and> length (S d) = 32"
    and "lock_encryption_context v = Some ec" "encryption_method ec = METHOD_AES_128_XTS"
    and "tweaked_context_set_keys xts (decryption_context ec) (volume_keys S k' plain) 128 (drop 16 (volume_keys S k' plain)) 128 = Inr x"
  shows "internal_volume_unlock xts aes hash v =
    Inr (True, v\<lparr>lock_encryption_context := Some (ec\<lparr>decryption_context := x\<rparr>), lock_is_locked := False\<rparr>)"
proof -
  have password: "size_less_one (user_password_size v) = length password"
    using assms(4,6) by (simp add: SSIZE_MAX_def)
  have "key_encrypted_key_unlock_with_password aes hash k (password @ [0]) (length password) (replicate 32 0) 256 = Inr (Some volume_key)"
    using assms(3) unlock_with_password_wrapped [OF _ assms(4), of hash _ k aes _ _ volume_key _ "replicate 32 0" "[0]"]
    by (auto simp: wrapped_with_password_def kek_key_size_def)
  moreover obtain es e rest where "volume_bag_entries key_bag = es @ e # rest" "\<forall>e\<in>set es. \<not> entry_type e = 3" "entry_type e = 3"
    "entry_data e = Some (encode_kek k)" "entry_bag_data_size e = length (encode_kek k)"
    using first_holds_split [OF assms(2)] by metis
  ultimately have volume: "volume_key_bag_get_volume_key aes hash key_bag (Some (password @ [0])) (length password)
      recovery n (replicate 32 0) 256 = Inr (Some volume_key)" for recovery n
    using assms(3) volume_key_first [of es e k aes hash "password @ [0]" "length password" "replicate 32 0" 256 volume_key]
    by (simp add: volume_key_bag_get_volume_key_def wrapped_with_password_def)
  have "key_encrypted_key_unlock_with_key aes hash k' volume_key 256 (replicate 32 0) 256 = Inr (Some (volume_keys S k' plain))"
    using assms(9) unlock_with_key_wrapped [of k' aes volume_key _ _ plain _ hash S "replicate 32 0", OF _ _ _ _ _ _ assms(10)]
    by (auto simp: wrapped_with_key_def volume_keys_def)
  moreover obtain es e rest where "container_bag_entries bag = es @ e # rest"
    "\<forall>e\<in>set es. \<not> (entry_type e = 2 \<and> entry_identifier e = lock_volume_identifier v)"
    "entry_type e = 2 \<and> entry_identifier e = lock_volume_identifier v"
    "entry_data e = Some (encode_kek k')" "entry_bag_data_size e = length (encode_kek k')"
    using first_holds_split [OF assms(8)] by metis
  ultimately have master: "container_key_bag_get_volume_master_key_by_identifier aes hash bag (lock_volume_identifier v) volume_key 256
      (replicate 32 0) 256 = Inr (Some (volume_keys S k' plain))"
    using assms(9) volume_master_key_first [of es "lock_volume_identifier v" e k' aes hash volume_key 256 "replicate 32 0" 256]
    by (simp add: container_key_bag_get_volume_master_key_by_identifier_def wrapped_with_key_def)
  have "encryption_context_set_keys xts ec (volume_keys S k' plain) 16 (drop 16 (volume_keys S k' plain)) 16 =
      Inr (ec\<lparr>decryption_context := x\<rparr>)"
    using assms(12,13) by (simp add: encryption_context_set_keys_def SSIZE_MAX_def)
  then show ?thesis
    by (simp only: internal_volume_unlock_def assms(1,5,7,11) option.case password volume master bindR_simps)
qed

section \<open>Properties\<close>

text \<open>The right user password opens an encrypted volume: it recovers the
  volume key from the first key entry of the volume's bag, the volume key recovers the master key of
  the volume from the container's bag, and the context decrypts with the two halves of that key,
  the second of them derived by SHA-256 when only 16 bytes are stored.\<close>

theorem internal_volume_unlock_correct:
  assumes "lock_key_bag v = Some key_bag" "first_holds (\<lambda>e. entry_type e = 3) k (volume_bag_entries key_bag)"
    and "wrapped_with_password aes hash password k volume_key" "length password \<le> SSIZE_MAX"
    and "user_password v = Some (password @ [0])" "user_password_size v = length password + 1"
    and "lock_container_key_bag v = Some bag"
    and "first_holds (\<lambda>e. entry_type e = 2 \<and> entry_identifier e = lock_volume_identifier v) k' (container_bag_entries bag)"
    and "wrapped_with_key aes volume_key k' plain" "\<And>d. calculate_sha256 hash d = Inr (S d) \<and> length (S d) = 32"
    and "lock_encryption_context v = Some ec" "encryption_method ec = METHOD_AES_128_XTS"
    and "tweaked_context_set_keys xts (decryption_context ec) (volume_keys S k' plain) 128 (drop 16 (volume_keys S k' plain)) 128 = Inr x"
  shows "internal_volume_unlock xts aes hash v =
    Inr (True, v\<lparr>lock_encryption_context := Some (ec\<lparr>decryption_context := x\<rparr>), lock_is_locked := False\<rparr>)"
  by (rule internal_volume_unlock_opens [OF assms])

text \<open>A volume whose key of 16 bytes is wrapped with a volume key, and that with the password 1, 2.\<close>

definition sample_entry :: "nat \<Rightarrow> bytes \<Rightarrow> key_encrypted_key \<Rightarrow> key_bag_entry" where
  "sample_entry type_value uuid k = \<lparr>entry_size = 24 + 153, entry_identifier = uuid, entry_type = type_value,
     entry_data = Some (encode_kek k), entry_bag_data_size = 153\<rparr>"

definition keeping_xts :: "(bytes \<times> bytes) xts_operations" where
  "keeping_xts = \<lparr>tweaked_context_initialize = Inr ([], []), tweaked_context_set_keys = (\<lambda>x k kb t tb. Inr (k, t)),
     crypt_xts = (\<lambda>x t xs. Inr xs), caes_mode_decrypt = 0\<rparr>"

definition sample_lock :: "(bytes \<times> bytes) volume_lock" where
  "sample_lock = \<lparr>lock_volume_identifier = replicate 16 7,
     lock_container_key_bag = Some \<lparr>container_bag_entries =
       [sample_entry 3 (replicate 16 7) sample_kek, sample_entry 2 (replicate 16 7) (wrapping_kek 2 (replicate 16 9))],
       container_bag_is_locked = False\<rparr>,
     lock_key_bag = Some \<lparr>volume_bag_entries = [sample_entry 3 (replicate 16 7) (wrapping_kek 16 (replicate 32 8))]\<rparr>,
     lock_encryption_context = Some \<lparr>encryption_method = 2, decryption_context = ([], [])\<rparr>,
     lock_is_locked = True, user_password = Some ([1, 2] @ [0]), user_password_size = 3,
     recovery_password = None, recovery_password_size = 0\<rparr>"

theorem internal_volume_unlock_correct_witness:
  "\<exists>v. internal_volume_unlock keeping_xts reversing_aes padding_hash sample_lock = Inr (True, v) \<and> \<not> lock_is_locked v"
proof -
  let ?S = "\<lambda>d :: bytes. take 32 (d @ replicate 32 1)"
  have wf: "kek_wf (wrapping_kek 2 (replicate 16 9))" "kek_wf (wrapping_kek 16 (replicate 32 8))"
    by (simp_all add: wrapping_kek_simps)
  have bags: "first_holds (\<lambda>e. entry_type e = 3) (wrapping_kek 16 (replicate 32 8))
      [sample_entry 3 (replicate 16 7) (wrapping_kek 16 (replicate 32 8))]"
    "first_holds (\<lambda>e. entry_type e = 2 \<and> entry_identifier e = replicate 16 7) (wrapping_kek 2 (replicate 16 9))
      [sample_entry 3 (replicate 16 7) sample_kek, sample_entry 2 (replicate 16 7) (wrapping_kek 2 (replicate 16 9))]"
    using length_values(3) [OF wf(1)] length_values(3) [OF wf(2)] by (simp_all add: first_holds_def sample_entry_def)
  have password: "wrapped_with_password reversing_aes padding_hash [1, 2] (wrapping_kek 16 (replicate 32 8)) (replicate 32 8)"
    unfolding wrapped_with_password_def
    using wf(2) padding_hash_computes [of "[1, 2]"] reversing_aes_decrypts wrapping_kek_simps(1) [of "replicate 32 8" 16]
    by (auto simp: wrapping_kek_simps reversing_aes_def)
  have key: "wrapped_with_key reversing_aes (replicate 32 8) (wrapping_kek 2 (replicate 16 9)) (replicate 16 9)"
    unfolding wrapped_with_key_def
    using wf(1) reversing_aes_decrypts wrapping_kek_simps(1) [of "replicate 16 9" 2]
    by (auto simp: wrapping_kek_simps reversing_aes_def kek_key_size_def)
  have sha: "calculate_sha256 padding_hash d = Inr (?S d) \<and> length (?S d) = 32" for d
    by (simp add: padding_hash_def)
  let ?mk = "volume_keys ?S (wrapping_kek 2 (replicate 16 9)) (replicate 16 9)"
  let ?ec = "\<lparr>encryption_method = 2, decryption_context = ([], [])\<rparr>"
  have "internal_volume_unlock keeping_xts reversing_aes padding_hash sample_lock = Inr (True, sample_lock
      \<lparr>lock_encryption_context := Some (?ec\<lparr>decryption_context := (?mk, drop 16 ?mk)\<rparr>), lock_is_locked := False\<rparr>)"
    by (rule internal_volume_unlock_correct [where key_bag = "the (lock_key_bag sample_lock)" and
          bag = "the (lock_container_key_bag sample_lock)", OF _ _ password _ _ _ _ _ key sha])
      (use bags in \<open>simp_all add: sample_lock_def SSIZE_MAX_def METHOD_AES_128_XTS_def keeping_xts_def\<close>)
  then show ?thesis by simp
qed

text \<open>Whatever the data of a key bag is, reading it never accesses memory outside
  the data, and every entry of a bag that is read, of a volume or of a container, holds exactly as
  many bytes as its size says, with an identifier of 16 bytes.\<close>

theorem key_bags_read_safe:
  assumes "data_size \<le> length data"
  shows "post lib_error (\<lambda>bag. \<forall>e\<in>set (volume_bag_entries bag). bag_entry_wf e)
      (volume_key_bag_read_data \<lparr>volume_bag_entries = []\<rparr> data data_size) \<and>
    post lib_error (\<lambda>r. \<forall>bag. r = Some bag \<longrightarrow> (\<forall>e\<in>set (container_bag_entries bag). bag_entry_wf e))
      (container_key_bag_read_data \<lparr>container_bag_entries = [], container_bag_is_locked = locked\<rparr> data data_size)"
  using volume_key_bag_read_data_post [OF assms] container_key_bag_read_data_post [OF assms] by simp

theorem key_bags_read_safe_witness:
  "post lib_error (\<lambda>bag. \<forall>e\<in>set (volume_bag_entries bag). bag_entry_wf e)
      (volume_key_bag_read_data \<lparr>volume_bag_entries = []\<rparr> (replicate 64 2) 64) \<and>
    post lib_error (\<lambda>r. \<forall>bag. r = Some bag \<longrightarrow> (\<forall>e\<in>set (container_bag_entries bag). bag_entry_wf e))
      (container_key_bag_read_data \<lparr>container_bag_entries = [], container_bag_is_locked = False\<rparr> (replicate 64 2) 64)"
  by (rule key_bags_read_safe) simp

text \<open>A container key bag that is written with the Fletcher-64 of its data
  in front is read back with the same entries, and looking up a volume in it returns the extent of
  the first entry of type 3 with the volume's identifier.\<close>

theorem container_key_bag_roundtrip:
  assumes "\<forall>e\<in>set es. bag_entry_wf e" "length es < 2 ^ 16"
    and "body = encode_bag_body 0x6b657973 es" "length body \<le> 4 * 65534"
    and "find (\<lambda>e. entry_type e = 3 \<and> entry_identifier e = uuid) es = Some e"
    and "entry_data e = Some (le_encode 8 block_number @ le_encode 8 number_of_blocks)" "entry_bag_data_size e = 16"
    and "block_number < 2 ^ 64" "number_of_blocks < 2 ^ 64"
  shows "\<exists>checksum. checksum_calculate_fletcher64 body (length body) 0 = Inr checksum \<and>
    container_key_bag_read_data \<lparr>container_bag_entries = [], container_bag_is_locked = locked\<rparr>
        (le_encode 8 (unat checksum) @ body) (8 + length body) =
      Inr (Some \<lparr>container_bag_entries = es, container_bag_is_locked = locked\<rparr>) \<and>
    container_key_bag_get_volume_key_bag_extent_by_identifier \<lparr>container_bag_entries = es, container_bag_is_locked = locked\<rparr> uuid =
      Inr (Some (block_number, number_of_blocks))"
proof -
  have "16 dvd length (concat (map encode_entry es))" using assms(1)
    by (induction es) (auto simp: length_encode_entry bag_padding_dvd)
  then have "4 dvd length body" unfolding assms(3) encode_bag_body_def by (auto elim!: dvd_trans [rotated])
  then obtain w where w: "checksum_calculate_fletcher64 body (length body) 0 = Inr w"
    using checksum_calculate_fletcher64_value [OF assms(4)] by blast
  let ?data = "le_encode 8 (unat w) @ body"
  have len: "length ?data \<le> SSIZE_MAX" "32 \<le> length ?data"
    using assms(4) unfolding assms(3) encode_bag_body_def by (simp_all add: SSIZE_MAX_def)
  have "unat w < 2 ^ 64" using unsigned_less [of w] by simp
  have header: "rd_u64_le ?data 0 = Inr (unat w)" "rd_u32_le ?data 24 = Inr 0x6b657973" "rd_u32_le ?data 28 = Inr 0"
    using len \<open>unat w < 2 ^ 64\<close> unfolding assms(3) encode_bag_body_def by simp_all
  have "read_bag ?data (length ?data) [] = Inr es"
    by (rule read_encoded_bag [OF assms(1,2) _ _ len(1)]) (simp_all add: assms(3))
  then have read: "container_key_bag_read_data \<lparr>container_bag_entries = [], container_bag_is_locked = locked\<rparr> ?data (8 + length body) =
      Inr (Some \<lparr>container_bag_entries = es, container_bag_is_locked = locked\<rparr>)"
    using len header w by (simp add: container_key_bag_read_data_def)
  have "volume_key_bag_extent_of_entries uuid es = Inr (Some (block_number, number_of_blocks))"
    using assms(5-) by (induction es) (auto split: if_splits)
  then show ?thesis using w read by (simp add: container_key_bag_get_volume_key_bag_extent_by_identifier_def)
qed

text \<open>A bag with the extent of the key bag of a volume.\<close>

definition extent_entry :: key_bag_entry where
  "extent_entry = \<lparr>entry_size = 40, entry_identifier = replicate 16 7, entry_type = 3,
     entry_data = Some (le_encode 8 1000 @ le_encode 8 1), entry_bag_data_size = 16\<rparr>"

theorem container_key_bag_roundtrip_witness:
  "\<exists>checksum :: 64 word. container_key_bag_read_data \<lparr>container_bag_entries = [], container_bag_is_locked = True\<rparr>
        (le_encode 8 (unat checksum) @ encode_bag_body 0x6b657973 [extent_entry]) (8 + length (encode_bag_body 0x6b657973 [extent_entry])) =
      Inr (Some \<lparr>container_bag_entries = [extent_entry], container_bag_is_locked = True\<rparr>) \<and>
    container_key_bag_get_volume_key_bag_extent_by_identifier
      \<lparr>container_bag_entries = [extent_entry], container_bag_is_locked = True\<rparr> (replicate 16 7) = Inr (Some (1000, 1))"
proof -
  have wf: "bag_entry_wf extent_entry" by (simp add: bag_entry_wf_def extent_entry_def)
  have fields: "entry_type extent_entry = 3" "entry_identifier extent_entry = replicate 16 7" "entry_bag_data_size extent_entry = 16"
    "entry_data extent_entry = Some (le_encode 8 1000 @ le_encode 8 1)" by (simp_all add: extent_entry_def)
  have "length (encode_bag_body 0x6b657973 [extent_entry]) \<le> 4 * 65534"
    using length_encode_entry [OF wf] by (simp add: encode_bag_body_def extent_entry_def bag_padding_def)
  then show ?thesis
    using container_key_bag_roundtrip [of "[extent_entry]" _ "replicate 16 7" extent_entry 1000 1 True] wf fields by auto
qed

end
