(* ===== verification/Compression.thy ===== *)
theory Compression
  imports Deflate_Streams Zbitmap
begin

text \<open>
  The choice of a decompression method, \<open>libfsapfs_compression.c\<close>, in the build that uses the
  library's own DEFLATE decompression and not zlib, and the header of compressed data,
  \<open>libfsapfs_compressed_data_header.c\<close>. LZFSE and LZVN belong to \<open>libfmos\<close> and are parameters.
\<close>

section \<open>Methods\<close>

definition COMPRESSION_METHOD_DEFLATE :: nat where "COMPRESSION_METHOD_DEFLATE = 1"
definition COMPRESSION_METHOD_LZFSE :: nat where "COMPRESSION_METHOD_LZFSE = 2"
definition COMPRESSION_METHOD_LZVN :: nat where "COMPRESSION_METHOD_LZVN = 3"
definition COMPRESSION_METHOD_ZBITMAP :: nat where "COMPRESSION_METHOD_ZBITMAP = 4"
definition COMPRESSION_METHOD_UNKNOWN5 :: nat where "COMPRESSION_METHOD_UNKNOWN5 = 5"

lemmas compression_methods = COMPRESSION_METHOD_DEFLATE_def COMPRESSION_METHOD_LZFSE_def
  COMPRESSION_METHOD_LZVN_def COMPRESSION_METHOD_ZBITMAP_def COMPRESSION_METHOD_UNKNOWN5_def

text \<open>Decompression of data of a size into a buffer of a size, as all methods do it.\<close>

type_synonym decompression = "bytes \<Rightarrow> nat \<Rightarrow> bytes \<Rightarrow> nat \<Rightarrow> (bytes \<times> nat) buffer_result"

record lz_operations =
  lzfse_decompress :: decompression
  lzvn_decompress :: decompression

text \<open>Data that is stored behind a marker byte.\<close>

definition copy_uncompressed :: decompression where
  "copy_uncompressed compressed_data compressed_data_size buf uncompressed_data_size =
     (if compressed_data_size > SSIZE_MAX then Inl (ARGUMENT_VALUE_EXCEEDS_MAXIMUM, buf)
      else if uncompressed_data_size > SSIZE_MAX then Inl (ARGUMENT_VALUE_EXCEEDS_MAXIMUM, buf)
      else if compressed_data_size - 1 > uncompressed_data_size then Inl (RUNTIME_VALUE_OUT_OF_BOUNDS, buf)
      else with_buffer buf
        (bindR (rd_slice compressed_data 1 (compressed_data_size - 1)) (\<lambda>data.
         bindR (wr_slice buf 0 data) (\<lambda>buf.
           Inr (buf, compressed_data_size - 1)))))"

text \<open>A method whose data may be stored behind the marker.\<close>

definition marked_or :: "byte \<Rightarrow> decompression \<Rightarrow> decompression" where
  "marked_or marker decompress compressed_data compressed_data_size buf uncompressed_data_size =
     bindR (with_buffer buf
              (if compressed_data_size \<ge> 1 then bindR (rd compressed_data 0) (\<lambda>b. Inr (b = marker)) else Inr False)) (\<lambda>stored.
       if stored
       then copy_uncompressed compressed_data compressed_data_size buf uncompressed_data_size
       else decompress compressed_data compressed_data_size buf uncompressed_data_size)"

definition decompress_data :: "lz_operations \<Rightarrow> nat \<Rightarrow> decompression" where
  "decompress_data lz compression_method =
     (if compression_method = COMPRESSION_METHOD_DEFLATE then marked_or 0xff deflate_decompress_zlib
      else if compression_method = COMPRESSION_METHOD_LZFSE then lzfse_decompress lz
      else if compression_method = COMPRESSION_METHOD_LZVN then marked_or 0x06 (lzvn_decompress lz)
      else if compression_method = COMPRESSION_METHOD_ZBITMAP then marked_or 0xff zbitmap_decompress
      else (\<lambda>compressed_data compressed_data_size buf uncompressed_data_size.
              Inl (RUNTIME_UNSUPPORTED_VALUE, buf)))"

section \<open>Header\<close>

record compressed_data_header =
  header_compression_method :: nat
  header_uncompressed_data_size :: nat

definition compressed_data_header_initialize ::
    "compressed_data_header option \<Rightarrow> compressed_data_header result" where
  "compressed_data_header_initialize compressed_data_header =
     (if compressed_data_header \<noteq> None then Inl RUNTIME_VALUE_ALREADY_SET
      else Inr \<lparr>header_compression_method = 0, header_uncompressed_data_size = 0\<rparr>)"

text \<open>The signature "fpmc".\<close>

definition compressed_data_signature :: bytes where
  "compressed_data_signature = [0x66, 0x70, 0x6d, 0x63]"

text \<open>\<open>None\<close> stands for the result 0, another signature.\<close>

definition compressed_data_header_read_data ::
    "compressed_data_header \<Rightarrow> bytes \<Rightarrow> nat \<Rightarrow> compressed_data_header option result" where
  "compressed_data_header_read_data compressed_data_header data data_size =
     (if data_size < 16 \<or> data_size > SSIZE_MAX then Inl RUNTIME_VALUE_OUT_OF_BOUNDS
      else
        bindR (rd_slice data 0 4) (\<lambda>signature.
          if signature \<noteq> compressed_data_signature then Inr None
          else
            bindR (rd_u32_le data 4) (\<lambda>method_value.
            bindR (rd_u64_le data 8) (\<lambda>size_value.
              Inr (Some (compressed_data_header\<lparr>header_compression_method := method_value,
                header_uncompressed_data_size := size_value\<rparr>))))))"

section \<open>The contract of a method\<close>

text \<open>
  Whatever the compressed data is, a method writes only to the part of the buffer that it was given
  and returns at most its size.
\<close>

locale block_decompressor =
  fixes decompress :: decompression
  assumes decompress_post: "n \<le> length buf \<Longrightarrow>
    post (buffer_kept buf 0 n) (\<lambda>(buf', k). k \<le> n \<and> length buf' = length buf \<and> drop k buf' = drop k buf)
      (decompress data (length data) buf n)"
begin

lemma copy_post:
  assumes "n \<le> length buf"
  shows "post (buffer_kept buf 0 n) (\<lambda>(buf', k). k \<le> n \<and> length buf' = length buf \<and> drop k buf' = drop k buf)
    (copy_uncompressed (b # data) (Suc (length data)) buf n)"
  using assms by (simp add: copy_uncompressed_def buffer_kept_self)

lemma marked_post:
  assumes "n \<le> length buf"
  shows "post (buffer_kept buf 0 n) (\<lambda>(buf', k). k \<le> n \<and> length buf' = length buf \<and> drop k buf' = drop k buf)
    (marked_or marker decompress data (length data) buf n)"
  using decompress_post [OF assms, of data] copy_post [OF assms] by (cases data) (simp_all add: marked_or_def)

text \<open>What the method makes of data, if it does not depend on what the buffer held before.\<close>

definition expands :: "bytes \<Rightarrow> nat \<Rightarrow> bytes \<Rightarrow> bool" where
  "expands data n out \<longleftrightarrow>
     (\<forall>buf. length buf = n \<longrightarrow> (\<exists>buf'. decompress data (length data) buf n = Inr (buf', length out) \<and> take (length out) buf' = out))"

lemma expands_length:
  assumes "expands data n out"
  shows "length out \<le> n"
proof -
  obtain buf' where "decompress data (length data) (replicate n 0) n = Inr (buf', length out)"
    using assms unfolding expands_def by (metis length_replicate)
  then show ?thesis using decompress_post [of n "replicate n 0" data] by simp
qed

end

interpretation zlib_method: block_decompressor deflate_decompress_zlib
proof
  fix n and buf data :: bytes
  assume "n \<le> length buf"
  from deflate_decompress_zlib_sound [OF this, of data]
  show "post (buffer_kept buf 0 n) (\<lambda>(buf', k). k \<le> n \<and> length buf' = length buf \<and> drop k buf' = drop k buf)
      (deflate_decompress_zlib data (length data) buf n)"
    by (rule post_weaken) (auto simp: buffer_kept_def)
qed

interpretation zbitmap_method: block_decompressor zbitmap_decompress
proof
  fix n and buf data :: bytes
  assume n: "n \<le> length buf"
  have "post (buffer_kept buf 0 n) (\<lambda>(buf', k). k \<le> n \<and> length buf' = length buf \<and> drop k buf' = drop k buf)
      (decompress_chunks data (length data) pos n buf 0)" for pos
    by (rule post_weaken [OF decompress_chunks_post [OF order_refl n]]) (auto simp: failed_at_def produced_def)
  then show "post (buffer_kept buf 0 n) (\<lambda>(buf', k). k \<le> n \<and> length buf' = length buf \<and> drop k buf' = drop k buf)
      (zbitmap_decompress data (length data) buf n)"
    by (simp add: zbitmap_decompress_def buffer_kept_self)
qed

interpretation stored_zlib: block_decompressor "marked_or 0xff deflate_decompress_zlib"
  by unfold_locales (rule zlib_method.marked_post)

interpretation stored_zbitmap: block_decompressor "marked_or 0xff zbitmap_decompress"
  by unfold_locales (rule zbitmap_method.marked_post)

text \<open>The methods of the library, given methods of \<open>libfmos\<close> that keep the contract.\<close>

definition lz_laws :: "lz_operations \<Rightarrow> bool" where
  "lz_laws lz \<longleftrightarrow> block_decompressor (lzfse_decompress lz) \<and> block_decompressor (lzvn_decompress lz)"

lemma decompress_data_decompressor:
  assumes "lz_laws lz"
  shows "block_decompressor (decompress_data lz m)"
proof -
  have "block_decompressor (\<lambda>data n buf m. Inl (RUNTIME_UNSUPPORTED_VALUE, buf))"
    by unfold_locales (simp add: buffer_kept_self)
  moreover have "block_decompressor (marked_or 0x06 (lzvn_decompress lz))"
    using assms block_decompressor.marked_post by (auto simp: lz_laws_def intro!: block_decompressor.intro)
  ultimately show ?thesis
    using assms stored_zlib.block_decompressor_axioms stored_zbitmap.block_decompressor_axioms
    by (auto simp: decompress_data_def lz_laws_def)
qed

end
