(* ===== verification/Segment_Reader.thy ===== *)
theory Segment_Reader
  imports Calls
begin

text \<open>
  Data handles that serve the segments of a \<open>libfdata\<close> stream: what a handle promises, sequences of
  seeks and reads, and the handle of data in memory, \<open>libfsapfs_buffer_data_handle.c\<close>.
\<close>

section \<open>Requests\<close>

datatype request = Seek nat | Read nat

fun run_requests :: "(nat \<Rightarrow> ('h, bytes) call) \<Rightarrow> (nat \<Rightarrow> ('h, nat) call) \<Rightarrow> request list \<Rightarrow> ('h, bytes list) call" where
  "run_requests read seek [] = returnS []"
| "run_requests read seek (Seek i # requests) = bindS (seek i) (\<lambda>_. run_requests read seek requests)"
| "run_requests read seek (Read n # requests) =
     bindS (read n) (\<lambda>data. bindS (run_requests read seek requests) (\<lambda>answers. returnS (data # answers)))"

text \<open>The answers of a file with the given content, from a position on.\<close>

fun answers :: "bytes \<Rightarrow> nat \<Rightarrow> request list \<Rightarrow> bytes list" where
  "answers content pos [] = []"
| "answers content pos (Seek i # requests) = answers content i requests"
| "answers content pos (Read n # requests) = take n (drop pos content) # answers content (pos + n) requests"

text \<open>Every read lies within the content, as the stream asks for it.\<close>

fun within :: "bytes \<Rightarrow> nat \<Rightarrow> request list \<Rightarrow> bool" where
  "within content pos [] = True"
| "within content pos (Seek i # requests) = (i \<le> length content \<and> within content i requests)"
| "within content pos (Read n # requests) = (pos + n \<le> length content \<and> within content (pos + n) requests)"

section \<open>The contract of a handle\<close>

text \<open>\<open>rep h content pos\<close>: the handle stands for the content and is at the position.\<close>

locale segment_reader =
  fixes read :: "nat \<Rightarrow> ('h, bytes) call"
    and seek :: "nat \<Rightarrow> ('h, nat) call"
    and rep :: "'h \<Rightarrow> bytes \<Rightarrow> nat \<Rightarrow> bool"
  assumes read_rep: "rep h content pos \<Longrightarrow> pos + n \<le> length content \<Longrightarrow>
      \<exists>h'. read n h = (Inr (take n (drop pos content)), h') \<and> rep h' content (pos + n)"
    and seek_rep: "rep h content pos \<Longrightarrow> i \<le> length content \<Longrightarrow> \<exists>h'. seek i h = (Inr i, h') \<and> rep h' content i"
begin

lemma requests_answered:
  assumes "rep h content pos" "within content pos requests"
  shows "\<exists>h' pos'. run_requests read seek requests h = (Inr (answers content pos requests), h') \<and> rep h' content pos'"
  using assms
proof (induction requests arbitrary: h pos)
  case Nil
  then show ?case by auto
next
  case (Cons r requests)
  show ?case
  proof (cases r)
    case (Seek i)
    then obtain h1 where "seek i h = (Inr i, h1)" "rep h1 content i"
      using seek_rep [OF Cons.prems(1), of i] Cons.prems(2) by auto
    then show ?thesis using Cons.IH [of h1 i] Cons.prems(2) Seek by (simp add: bindS_eq)
  next
    case (Read n)
    then obtain h1 where "read n h = (Inr (take n (drop pos content)), h1)" "rep h1 content (pos + n)"
      using read_rep [OF Cons.prems(1), of n] Cons.prems(2) by auto
    then show ?thesis using Cons.IH [of h1 "pos + n"] Cons.prems(2) Read by (fastforce simp: bindS_eq)
  qed
qed

end

section \<open>Data in memory\<close>

record buffer_data_handle =
  buffer_current_offset :: int
  buffer_data :: bytes
  buffer_data_size :: nat

definition buffer_data_handle_initialize ::
    "buffer_data_handle option \<Rightarrow> bytes \<Rightarrow> nat \<Rightarrow> buffer_data_handle result" where
  "buffer_data_handle_initialize data_handle data data_size =
     (if data_handle \<noteq> None then Inl RUNTIME_VALUE_ALREADY_SET
      else if data_size > SSIZE_MAX then Inl ARGUMENT_VALUE_EXCEEDS_MAXIMUM
      else Inr \<lparr>buffer_current_offset = 0, buffer_data = data, buffer_data_size = data_size\<rparr>)"

text \<open>A read returns the bytes that it copies to the buffer of its caller.\<close>

definition buffer_data_handle_read_segment_data :: "int \<Rightarrow> nat \<Rightarrow> (buffer_data_handle, bytes) call" where
  "buffer_data_handle_read_segment_data segment_index segment_data_size data_handle =
     (if buffer_current_offset data_handle < 0 then failS ARGUMENT_VALUE_OUT_OF_BOUNDS data_handle
      else if segment_index \<noteq> 0 then failS ARGUMENT_VALUE_OUT_OF_BOUNDS data_handle
      else if segment_data_size > SSIZE_MAX then failS ARGUMENT_VALUE_EXCEEDS_MAXIMUM data_handle
      else if buffer_current_offset data_handle \<ge> int (buffer_data_size data_handle) then returnS [] data_handle
      else
        let i = nat (buffer_current_offset data_handle);
            read_size = min (buffer_data_size data_handle - i) segment_data_size
        in bindS (liftS (rd_slice (buffer_data data_handle) i read_size)) (\<lambda>data data_handle.
             returnS data (data_handle\<lparr>buffer_current_offset := buffer_current_offset data_handle + int read_size\<rparr>))
             data_handle)"

definition buffer_data_handle_seek_segment_offset :: "int \<Rightarrow> int \<Rightarrow> (buffer_data_handle, int) call" where
  "buffer_data_handle_seek_segment_offset segment_index segment_offset data_handle =
     (if segment_index \<noteq> 0 then failS ARGUMENT_VALUE_OUT_OF_BOUNDS data_handle
      else if segment_offset < 0 then failS ARGUMENT_VALUE_OUT_OF_BOUNDS data_handle
      else returnS segment_offset (data_handle\<lparr>buffer_current_offset := segment_offset\<rparr>))"

text \<open>Seeks of a stream are at offsets that are not negative.\<close>

definition seek_at :: "(int \<Rightarrow> ('h, int) call) \<Rightarrow> nat \<Rightarrow> ('h, nat) call" where
  "seek_at seek i = bindS (seek (int i)) (\<lambda>j. returnS (nat j))"

definition buffer_rep :: "buffer_data_handle \<Rightarrow> bytes \<Rightarrow> nat \<Rightarrow> bool" where
  "buffer_rep h content pos \<longleftrightarrow> content = buffer_data h \<and> buffer_data_size h = length content \<and>
     length content \<le> SSIZE_MAX \<and> buffer_current_offset h = int pos \<and> pos \<le> length content"

interpretation buffer_reader: segment_reader "buffer_data_handle_read_segment_data 0"
  "seek_at (buffer_data_handle_seek_segment_offset 0)" buffer_rep
proof
  fix h content pos n
  assume "buffer_rep h content pos" "pos + n \<le> length content"
  then show "\<exists>h'. buffer_data_handle_read_segment_data 0 n h = (Inr (take n (drop pos content)), h') \<and> buffer_rep h' content (pos + n)"
    by (auto simp: buffer_rep_def buffer_data_handle_read_segment_data_def Let_def)
next
  fix h content pos i
  assume "buffer_rep h content pos" "i \<le> length content"
  then show "\<exists>h'. seek_at (buffer_data_handle_seek_segment_offset 0) i h = (Inr i, h') \<and> buffer_rep h' content i"
    by (auto simp: buffer_rep_def seek_at_def buffer_data_handle_seek_segment_offset_def bindS_def)
qed

end
