(* ===== verification/Compressed_Data_Handle.thy ===== *)
theory Compressed_Data_Handle
  imports Compression Segment_Reader
begin

text \<open>
  Compressed files, \<open>libfsapfs_compressed_data_handle.c\<close>: the table of blocks in front of the
  compressed data and reads of uncompressed data through a cache of one block. The stream of the
  compressed data belongs to \<open>libfdata\<close> and is a parameter. Debug output is not modelled; without
  it the size and the offset of the footer of DEFLATE data stay 0.
\<close>

section \<open>State\<close>

definition COMPRESSED_DATA_HANDLE_BLOCK_SIZE :: nat where
  "COMPRESSED_DATA_HANDLE_BLOCK_SIZE = 65536"

text \<open>The size of the stream, and the bytes it returns for a size and an offset.\<close>

record data_stream =
  stream_get_size :: "nat result"
  stream_read :: "nat \<Rightarrow> nat \<Rightarrow> bytes result"

text \<open>
  The buffer for compressed data has room for a block and one more byte; every use of it follows a
  read that fills the bytes that are used, so that it is not part of the state.
\<close>

record compressed_data_handle =
  current_segment_offset :: int
  uncompressed_size :: nat
  compression_method :: nat
  current_compressed_block_index :: nat
  segment_data :: "bytes option"
  segment_data_size :: nat
  number_of_compressed_blocks :: nat
  compressed_block_offsets :: "nat list option"

definition compressed_data_handle_initialize ::
    "compressed_data_handle option \<Rightarrow> nat \<Rightarrow> nat \<Rightarrow> compressed_data_handle result" where
  "compressed_data_handle_initialize data_handle uncompressed_data_size method_value =
     (if data_handle \<noteq> None then Inl RUNTIME_VALUE_ALREADY_SET
      else if method_value \<noteq> COMPRESSION_METHOD_DEFLATE \<and> method_value \<noteq> COMPRESSION_METHOD_LZFSE \<and>
              method_value \<noteq> COMPRESSION_METHOD_LZVN \<and> method_value \<noteq> COMPRESSION_METHOD_ZBITMAP \<and>
              method_value \<noteq> COMPRESSION_METHOD_UNKNOWN5
      then Inl ARGUMENT_UNSUPPORTED_VALUE
      else Inr \<lparr>current_segment_offset = 0, uncompressed_size = uncompressed_data_size,
                compression_method = method_value, current_compressed_block_index = 2 ^ 32 - 1,
                segment_data = (if method_value \<noteq> COMPRESSION_METHOD_UNKNOWN5
                                then Some (replicate COMPRESSED_DATA_HANDLE_BLOCK_SIZE 0) else None),
                segment_data_size = 0, number_of_compressed_blocks = 0, compressed_block_offsets = None\<rparr>)"

text \<open>A read of a number of bytes that must be available, into a buffer with room for \<open>capacity\<close> bytes.\<close>

definition stream_read_into :: "data_stream \<Rightarrow> nat \<Rightarrow> nat \<Rightarrow> nat \<Rightarrow> bytes result" where
  "stream_read_into stream capacity n i =
     bindR (stream_read stream n i) (\<lambda>data.
       if length data > capacity then Inl OUT_OF_BOUNDS_ACCESS
       else if length data \<noteq> n then Inl IO_READ_FAILED
       else Inr data)"

section \<open>Block offsets\<close>

text \<open>
  The start of the table: the number of blocks, the first offset, the offset of the other entries,
  what is added to offsets, and the size of an entry.
\<close>

definition read_block_table_header ::
    "data_stream \<Rightarrow> nat \<Rightarrow> nat \<Rightarrow> nat \<Rightarrow> bytes \<Rightarrow> (nat \<times> nat \<times> nat \<times> nat \<times> nat) result" where
  "read_block_table_header stream method_value blocks_value compressed_data_size signature =
     (if method_value = COMPRESSION_METHOD_DEFLATE then
        let compressed_descriptors_offset = be_value signature
        in if compressed_descriptors_offset \<noteq> 0x100 then Inl RUNTIME_VALUE_OUT_OF_BOUNDS
           else
             bindR (stream_read_into stream (COMPRESSED_DATA_HANDLE_BLOCK_SIZE + 1 - 4)
                      (compressed_descriptors_offset + 16 - 4) 4) (\<lambda>data.
             bindR (rd_u32_le (signature @ data) 260) (\<lambda>number_of_blocks.
               if number_of_blocks > (2 ^ 32 - 1) div 8 then Inl RUNTIME_VALUE_OUT_OF_BOUNDS
               else
                 bindR (rd_u32_le (signature @ data) 264) (\<lambda>compressed_block_offset.
                   Inr (number_of_blocks, compressed_block_offset, 268, compressed_descriptors_offset + 4, 8))))
      else if method_value \<in>
                {COMPRESSION_METHOD_LZVN, COMPRESSION_METHOD_LZFSE, COMPRESSION_METHOD_ZBITMAP} then
        let compressed_block_offset = le_value signature
        in if compressed_block_offset \<le> 4 \<or> compressed_block_offset \<ge> compressed_data_size
           then Inl RUNTIME_VALUE_OUT_OF_BOUNDS
           else Inr (compressed_block_offset div 4, compressed_block_offset, 4, 0, 4)
      else Inr (blocks_value, 0, 0, 0, 0))"

text \<open>The other entries: \<open>n\<close> offsets at \<open>i\<close>, each with a size behind it in entries of 8 bytes.\<close>

fun read_block_offsets :: "bytes \<Rightarrow> nat \<Rightarrow> nat \<Rightarrow> nat \<Rightarrow> nat \<Rightarrow> nat list \<Rightarrow> nat list result" where
  "read_block_offsets descriptor_data descriptors_offset descriptor_size 0 i offsets = Inr offsets"
| "read_block_offsets descriptor_data descriptors_offset descriptor_size (Suc n) i offsets =
     bindR (rd_u32_le descriptor_data i) (\<lambda>offset_value.
       let compressed_block_offset = (offset_value + descriptors_offset) mod 2 ^ 32;
           previous_compressed_block_offset = last offsets
       in if previous_compressed_block_offset > compressed_block_offset \<or>
             compressed_block_offset - previous_compressed_block_offset > COMPRESSED_DATA_HANDLE_BLOCK_SIZE + 1
          then Inl RUNTIME_VALUE_OUT_OF_BOUNDS
          else read_block_offsets descriptor_data descriptors_offset descriptor_size n (i + descriptor_size)
                 (offsets @ [compressed_block_offset]))"

definition read_block_table ::
    "data_stream \<Rightarrow> nat \<Rightarrow> nat \<times> nat \<times> nat \<times> nat \<times> nat \<Rightarrow> nat list result" where
  "read_block_table stream compressed_data_size =
     (\<lambda>(number_of_blocks, compressed_block_offset, segment_data_offset, descriptors_offset, descriptor_size).
        let read_size = ((number_of_blocks + (2 ^ 64 - 1)) mod 2 ^ 64 * descriptor_size) mod 2 ^ 64;
            descriptor_buffer_size = (segment_data_offset + read_size) mod 2 ^ 64;
            capacity = max descriptor_buffer_size (COMPRESSED_DATA_HANDLE_BLOCK_SIZE + 1) - segment_data_offset
        in bindR (stream_read_into stream capacity read_size segment_data_offset) (\<lambda>descriptor_data.
             if compressed_block_offset \<le> descriptor_size \<or> compressed_block_offset \<ge> compressed_data_size
             then Inl RUNTIME_VALUE_OUT_OF_BOUNDS
             else read_block_offsets descriptor_data descriptors_offset descriptor_size (number_of_blocks - 1)
                    (descriptor_size - 4) [(compressed_block_offset + descriptors_offset) mod 2 ^ 32]))"

text \<open>The number of blocks and the offsets, of which the last is the size of the compressed data.\<close>

definition determine_compressed_block_offsets :: "data_stream \<Rightarrow> nat \<Rightarrow> nat \<Rightarrow> (nat \<times> nat list) result" where
  "determine_compressed_block_offsets stream method_value blocks_value =
     bindR (stream_get_size stream) (\<lambda>compressed_data_size.
     bindR (stream_read_into stream (COMPRESSED_DATA_HANDLE_BLOCK_SIZE + 1) 4 0) (\<lambda>signature.
     bindR (if signature = compressed_data_signature then
              if compressed_data_size > COMPRESSED_DATA_HANDLE_BLOCK_SIZE + 1 then Inl RUNTIME_VALUE_OUT_OF_BOUNDS
              else Inr (1, 0, 0, 0, 0)
            else read_block_table_header stream method_value blocks_value compressed_data_size signature) (\<lambda>table.
       if fst table > MEMORY_MAXIMUM_ALLOCATION_SIZE div 4 - 1 then Inl RUNTIME_VALUE_OUT_OF_BOUNDS
       else
         bindR (if signature = compressed_data_signature then Inr [16]
                else read_block_table stream compressed_data_size table) (\<lambda>offsets.
           if last offsets > compressed_data_size \<or>
              compressed_data_size - last offsets > COMPRESSED_DATA_HANDLE_BLOCK_SIZE + 1
           then Inl RUNTIME_VALUE_OUT_OF_BOUNDS
           else if length offsets > fst table then Inl OUT_OF_BOUNDS_ACCESS
           else
             bindR (if method_value = COMPRESSION_METHOD_DEFLATE
                    then stream_read_into stream (COMPRESSED_DATA_HANDLE_BLOCK_SIZE + 1) 0 0
                    else if method_value = COMPRESSION_METHOD_UNKNOWN5 then
                      if compressed_data_size > SSIZE_MAX then Inl RUNTIME_VALUE_OUT_OF_BOUNDS
                      else stream_read_into stream (COMPRESSED_DATA_HANDLE_BLOCK_SIZE + 1) (compressed_data_size - 16) 16
                    else Inr []) (\<lambda>_.
               Inr (fst table, offsets @ [compressed_data_size mod 2 ^ 32]))))))"

text \<open>
  After an error the number of blocks may differ from the old one, but it is determined again before
  its next use, so that the handle of a failing call is the old one.
\<close>

definition compressed_data_handle_get_compressed_block_offsets ::
    "data_stream \<Rightarrow> (compressed_data_handle, unit) call" where
  "compressed_data_handle_get_compressed_block_offsets stream data_handle =
     (if compressed_block_offsets data_handle \<noteq> None then failS RUNTIME_VALUE_ALREADY_SET data_handle
      else
        bindS (liftS (determine_compressed_block_offsets stream (compression_method data_handle)
                        (number_of_compressed_blocks data_handle))) (\<lambda>(number_of_blocks, offsets) data_handle.
          returnS () (data_handle\<lparr>number_of_compressed_blocks := number_of_blocks,
            compressed_block_offsets := Some offsets\<rparr>)) data_handle)"

section \<open>Reads\<close>

text \<open>The block becomes the current one only after it was decompressed with the size it must have.\<close>

definition load_compressed_block :: "lz_operations \<Rightarrow> data_stream \<Rightarrow> nat \<Rightarrow> (compressed_data_handle, unit) call" where
  "load_compressed_block lz stream compressed_block_index data_handle =
     (if current_compressed_block_index data_handle = compressed_block_index then returnS () data_handle
      else
        case (compressed_block_offsets data_handle, segment_data data_handle) of
          (Some offsets, Some buffer) \<Rightarrow>
            bindS (liftS
              (bindR (rd offsets compressed_block_index) (\<lambda>data_stream_offset.
               bindR (rd offsets (compressed_block_index + 1)) (\<lambda>next_offset.
                 stream_read_into stream (COMPRESSED_DATA_HANDLE_BLOCK_SIZE + 1)
                   ((next_offset + (2 ^ 64 - data_stream_offset)) mod 2 ^ 64) data_stream_offset)))) (\<lambda>data data_handle.
              case decompress_data lz (compression_method data_handle) data (length data) buffer
                     COMPRESSED_DATA_HANDLE_BLOCK_SIZE of
                Inl (e, buffer) \<Rightarrow>
                  failS e (data_handle\<lparr>segment_data := Some buffer,
                    segment_data_size := COMPRESSED_DATA_HANDLE_BLOCK_SIZE\<rparr>)
              | Inr (buffer, n) \<Rightarrow>
                  let data_handle = data_handle\<lparr>segment_data := Some buffer, segment_data_size := n\<rparr>;
                      uncompressed_block_offset = ((compressed_block_index + 1) * COMPRESSED_DATA_HANDLE_BLOCK_SIZE) mod 2 ^ 32
                  in if uncompressed_block_offset < uncompressed_size data_handle \<and> n \<noteq> COMPRESSED_DATA_HANDLE_BLOCK_SIZE
                     then failS RUNTIME_VALUE_OUT_OF_BOUNDS data_handle
                     else returnS () (data_handle\<lparr>current_compressed_block_index := compressed_block_index\<rparr>))
              data_handle
        | _ \<Rightarrow> failS OUT_OF_BOUNDS_ACCESS data_handle)"

text \<open>The rest of the current block, or what is asked for of it.\<close>

definition copy_block_data :: "nat \<Rightarrow> nat \<Rightarrow> compressed_data_handle \<Rightarrow> bytes result" where
  "copy_block_data data_offset n data_handle =
     (if data_offset \<ge> segment_data_size data_handle then Inl RUNTIME_VALUE_OUT_OF_BOUNDS
      else
        case segment_data data_handle of
          None \<Rightarrow> Inl OUT_OF_BOUNDS_ACCESS
        | Some buffer \<Rightarrow> rd_slice buffer data_offset (min (segment_data_size data_handle - data_offset) n))"

lemma copy_block_data_length:
  "copy_block_data data_offset n data_handle = Inr data \<Longrightarrow> 0 < n \<Longrightarrow> 0 < length data \<and> length data \<le> n"
  by (auto simp: copy_block_data_def result_simps split: if_splits option.splits)

function read_compressed_blocks ::
    "lz_operations \<Rightarrow> data_stream \<Rightarrow> nat \<Rightarrow> nat \<Rightarrow> nat \<Rightarrow> (compressed_data_handle, bytes) call" where
  "read_compressed_blocks lz stream compressed_block_index data_offset n data_handle =
     (if n > 0 then
        if compressed_block_index \<ge> number_of_compressed_blocks data_handle
        then failS RUNTIME_VALUE_OUT_OF_BOUNDS data_handle
        else
          bindS (load_compressed_block lz stream compressed_block_index) (\<lambda>_ data_handle.
            bindS (liftS (copy_block_data data_offset n data_handle)) (\<lambda>data.
            bindS (read_compressed_blocks lz stream (compressed_block_index + 1) 0 (n - length data)) (\<lambda>rest.
              returnS (data @ rest))) data_handle) data_handle
      else returnS [] data_handle)"
  by pat_completeness auto
termination
  by (relation "measure (\<lambda>(lz, stream, compressed_block_index, data_offset, n, data_handle). n)")
    (auto dest!: copy_block_data_length simp: bindS_def split: prod.splits sum.splits)

declare read_compressed_blocks.simps [simp del]

definition compressed_data_handle_read_segment_data ::
    "lz_operations \<Rightarrow> data_stream \<Rightarrow> int \<Rightarrow> nat \<Rightarrow> (compressed_data_handle, bytes) call" where
  "compressed_data_handle_read_segment_data lz stream segment_index read_size data_handle =
     (if segment_index \<noteq> 0 then failS ARGUMENT_VALUE_OUT_OF_BOUNDS data_handle
      else if read_size > SSIZE_MAX then failS ARGUMENT_VALUE_EXCEEDS_MAXIMUM data_handle
      else
        bindS (if compressed_block_offsets data_handle = None
               then compressed_data_handle_get_compressed_block_offsets stream else returnS ()) (\<lambda>_ data_handle.
          let i = nat (current_segment_offset data_handle)
          in if i \<ge> uncompressed_size data_handle then returnS [] data_handle
             else if compression_method data_handle = COMPRESSION_METHOD_UNKNOWN5 then
               let n = min (uncompressed_size data_handle - i) read_size
               in returnS (replicate n 0) (data_handle\<lparr>current_segment_offset := current_segment_offset data_handle + int n\<rparr>)
             else
               bindS (read_compressed_blocks lz stream (i div COMPRESSED_DATA_HANDLE_BLOCK_SIZE mod 2 ^ 32)
                        (i mod COMPRESSED_DATA_HANDLE_BLOCK_SIZE) read_size) (\<lambda>data data_handle.
                 returnS data (data_handle\<lparr>current_segment_offset := current_segment_offset data_handle + int (length data)\<rparr>))
                 data_handle) data_handle)"

definition compressed_data_handle_seek_segment_offset :: "int \<Rightarrow> int \<Rightarrow> (compressed_data_handle, int) call" where
  "compressed_data_handle_seek_segment_offset segment_index segment_offset data_handle =
     (if segment_index \<noteq> 0 then failS ARGUMENT_VALUE_OUT_OF_BOUNDS data_handle
      else if segment_offset < 0 then failS ARGUMENT_VALUE_OUT_OF_BOUNDS data_handle
      else returnS segment_offset (data_handle\<lparr>current_segment_offset := segment_offset\<rparr>))"

section \<open>What a handle stands for\<close>

abbreviation block_size :: nat where "block_size \<equiv> 65536"

definition block_of :: "bytes \<Rightarrow> nat \<Rightarrow> bytes" where
  "block_of content i = take block_size (drop (i * block_size) content)"

text \<open>The data of block \<open>i\<close> is read and expands to that part of the content.\<close>

definition block_expands :: "lz_operations \<Rightarrow> data_stream \<Rightarrow> nat \<Rightarrow> nat list \<Rightarrow> nat \<Rightarrow> bytes \<Rightarrow> bool" where
  "block_expands lz stream m offsets i out \<longleftrightarrow> i + 1 < length offsets \<and> offsets ! i \<le> offsets ! (i + 1) \<and>
     offsets ! (i + 1) < 2 ^ 32 \<and>
     (\<exists>data. stream_read_into stream (block_size + 1) (offsets ! (i + 1) - offsets ! i) (offsets ! i) = Inr data \<and>
        block_decompressor.expands (decompress_data lz m) data block_size out)"

text \<open>The current block is none or a block of the content.\<close>

definition block_cached :: "compressed_data_handle \<Rightarrow> bytes \<Rightarrow> bool" where
  "block_cached h content \<longleftrightarrow> (\<exists>buf. segment_data h = Some buf \<and> length buf = block_size \<and>
     (current_compressed_block_index h = 2 ^ 32 - 1 \<or>
      segment_data_size h = length (block_of content (current_compressed_block_index h)) \<and>
      take (segment_data_size h) buf = block_of content (current_compressed_block_index h)))"

definition blocks_ready :: "lz_operations \<Rightarrow> data_stream \<Rightarrow> compressed_data_handle \<Rightarrow> bytes \<Rightarrow> bool" where
  "blocks_ready lz stream h content \<longleftrightarrow> lz_laws lz \<and> compression_method h \<noteq> COMPRESSION_METHOD_UNKNOWN5 \<and>
     uncompressed_size h = length content \<and> length content \<le> 2 ^ 32 - block_size \<and>
     length content \<le> number_of_compressed_blocks h * block_size \<and> block_cached h content \<and>
     (\<exists>offsets. compressed_block_offsets h = Some offsets \<and>
        (\<forall>i. i * block_size < length content \<longrightarrow>
           block_expands lz stream (compression_method h) offsets i (block_of content i)))"

text \<open>The offsets of the blocks may still have to be determined.\<close>

definition compressed_rep :: "lz_operations \<Rightarrow> data_stream \<Rightarrow> compressed_data_handle \<Rightarrow> bytes \<Rightarrow> nat \<Rightarrow> bool" where
  "compressed_rep lz stream h content pos \<longleftrightarrow> current_segment_offset h = int pos \<and> pos \<le> length content \<and>
     (blocks_ready lz stream h content \<or>
      compressed_block_offsets h = None \<and>
        (\<exists>n offsets. determine_compressed_block_offsets stream (compression_method h) (number_of_compressed_blocks h) = Inr (n, offsets) \<and>
           blocks_ready lz stream (h\<lparr>number_of_compressed_blocks := n, compressed_block_offsets := Some offsets\<rparr>) content))"

lemma length_block_of: "length (block_of content i) = min block_size (length content - i * block_size)"
  by (simp add: block_of_def)

lemma blocks_ready_lz: "blocks_ready lz stream h content \<Longrightarrow> lz_laws lz"
  by (simp add: blocks_ready_def)

lemma load_block_ready:
  assumes "blocks_ready lz stream h content" "i * block_size < length content"
  shows "\<exists>h'. load_compressed_block lz stream i h = (Inr (), h') \<and> blocks_ready lz stream h' content \<and>
    current_compressed_block_index h' = i \<and> current_segment_offset h' = current_segment_offset h"
proof (cases "current_compressed_block_index h = i")
  case True
  then show ?thesis using assms(1) by (simp add: load_compressed_block_def)
next
  case False
  obtain offsets where offsets: "compressed_block_offsets h = Some offsets"
    and expands: "\<forall>i. i * block_size < length content \<longrightarrow>
      block_expands lz stream (compression_method h) offsets i (block_of content i)"
    using assms(1) by (auto simp: blocks_ready_def)
  obtain buf where buf: "segment_data h = Some buf" "length buf = block_size"
    using assms(1) by (auto simp: blocks_ready_def block_cached_def)
  from expands assms(2) obtain data where i: "i + 1 < length offsets" "offsets ! i \<le> offsets ! (i + 1)" "offsets ! (i + 1) < 2 ^ 32"
    and data: "stream_read_into stream (block_size + 1) (offsets ! (i + 1) - offsets ! i) (offsets ! i) = Inr data"
    and out: "block_decompressor.expands (decompress_data lz (compression_method h)) data block_size (block_of content i)"
    by (auto simp: block_expands_def)
  have size_eq: "(offsets ! (i + 1) + (2 ^ 64 - offsets ! i)) mod 2 ^ 64 = offsets ! (i + 1) - offsets ! i"
  proof -
    have "offsets ! (i + 1) + (2 ^ 64 - offsets ! i) = 2 ^ 64 + (offsets ! (i + 1) - offsets ! i)" using i(2,3) by simp
    moreover have "(2 ^ 64 + (offsets ! (i + 1) - offsets ! i)) mod 2 ^ 64 = offsets ! (i + 1) - offsets ! i"
      using i(3) by simp
    ultimately show ?thesis by (simp only:)
  qed
  note decompressor = decompress_data_decompressor [OF blocks_ready_lz [OF assms(1)], of "compression_method h"]
  obtain buf' where buf': "decompress_data lz (compression_method h) data (length data) buf block_size = Inr (buf', length (block_of content i))"
    "take (length (block_of content i)) buf' = block_of content i"
    using out buf(2) unfolding block_decompressor.expands_def [OF decompressor] by blast
  have len: "length buf' = block_size"
    using block_decompressor.decompress_post [OF decompressor, of block_size buf data] buf' buf(2) by simp
  let ?h = "h\<lparr>segment_data := Some buf', segment_data_size := length (block_of content i), current_compressed_block_index := i\<rparr>"
  have full: "\<not> ((i + 1) * block_size mod 2 ^ 32 < uncompressed_size h \<and> length (block_of content i) \<noteq> block_size)"
  proof (cases "(i + 1) * block_size \<le> length content")
    case True
    then show ?thesis by (simp add: length_block_of)
  next
    case False
    moreover have "uncompressed_size h = length content" "length content \<le> 2 ^ 32 - block_size" using assms(1) by (simp_all add: blocks_ready_def)
    moreover from this(2) have "(i + 1) * block_size < 2 ^ 32" using assms(2) by simp
    ultimately show ?thesis by simp
  qed
  have "load_compressed_block lz stream i h = (Inr (), ?h)"
    using False i(1) full
    by (simp add: load_compressed_block_def offsets buf(1) COMPRESSED_DATA_HANDLE_BLOCK_SIZE_def
        size_eq [simplified] data [simplified] buf'(1) Let_def)
  moreover have "blocks_ready lz stream ?h content"
    using assms(1) len buf'(2) by (auto simp: blocks_ready_def block_cached_def)
  ultimately show ?thesis by simp
qed

lemma copy_block_data_cached:
  assumes "blocks_ready lz stream h content" "current_compressed_block_index h = i" "i * block_size + off < length content" "off < block_size"
  shows "copy_block_data off n h = Inr (take n (drop off (block_of content i)))"
proof -
  have "i * block_size < 2 ^ 32 - block_size" using assms(1,3) by (simp add: blocks_ready_def)
  then have "i \<noteq> 2 ^ 32 - 1" by simp
  then obtain buf where buf: "segment_data h = Some buf" "length buf = block_size" "segment_data_size h = length (block_of content i)"
    "take (segment_data_size h) buf = block_of content i"
    using assms(1,2) by (auto simp: blocks_ready_def block_cached_def)
  have len: "off < length (block_of content i)" "length (block_of content i) \<le> block_size"
    using assms(3,4) by (simp_all add: length_block_of)
  have "take n (drop off (take (segment_data_size h) buf)) = take (min (length (block_of content i) - off) n) (drop off buf)"
    by (simp only: drop_take take_take buf(3) min.commute)
  then have "take (min (length (block_of content i) - off) n) (drop off buf) = take n (drop off (block_of content i))"
    by (simp only: buf(4))
  then show ?thesis using buf len by (simp add: copy_block_data_def)
qed

lemma read_blocks_ready:
  assumes "blocks_ready lz stream h content" "i * block_size + off + n \<le> length content" "off < block_size"
  shows "\<exists>h'. read_compressed_blocks lz stream i off n h = (Inr (take n (drop (i * block_size + off) content)), h') \<and>
    blocks_ready lz stream h' content \<and> current_segment_offset h' = current_segment_offset h"
  using assms
proof (induction n arbitrary: i off h rule: less_induct)
  case (less n)
  show ?case
  proof (cases "n = 0")
    case True
    then show ?thesis using less.prems(1) by (simp add: read_compressed_blocks.simps)
  next
    case False
    have pos: "i * block_size + off < length content" "i * block_size < length content" using less.prems(2) False by simp_all
    then have number: "\<not> number_of_compressed_blocks h \<le> i"
      using less.prems(1) unfolding blocks_ready_def by (metis leD le_trans mult_le_mono1 not_less)
    obtain h1 where h1: "load_compressed_block lz stream i h = (Inr (), h1)" "blocks_ready lz stream h1 content"
      "current_compressed_block_index h1 = i" "current_segment_offset h1 = current_segment_offset h"
      using load_block_ready [OF less.prems(1) pos(2)] by blast
    let ?d = "take n (drop off (block_of content i))"
    note copy = copy_block_data_cached [OF h1(2,3) pos(1) less.prems(3), of n]
    have d: "?d = take (min n (block_size - off)) (drop (i * block_size + off) content)"
      by (simp add: block_of_def drop_take min.commute add.commute)
    define k where "k = length ?d"
    have k: "k = min n (block_size - off)" unfolding k_def d using less.prems(2) by simp
    have "\<exists>h2. read_compressed_blocks lz stream (i + 1) 0 (n - k) h1 =
        (Inr (take (n - k) (drop (i * block_size + off + k) content)), h2) \<and>
      blocks_ready lz stream h2 content \<and> current_segment_offset h2 = current_segment_offset h1"
    proof (cases "n \<le> block_size - off")
      case True
      then show ?thesis using h1(2) unfolding k by (simp add: read_compressed_blocks.simps)
    next
      case more: False
      then have next_block: "i * block_size + off + k = (i + 1) * block_size + 0" "n - k < n"
        unfolding k using less.prems(3) by simp_all
      show ?thesis unfolding next_block(1)
        by (rule less.IH [OF next_block(2) h1(2)]) (use less.prems(2) next_block k in simp_all)
    qed
    then obtain h2 where h2: "read_compressed_blocks lz stream (i + 1) 0 (n - length ?d) h1 =
        (Inr (take (n - k) (drop (i * block_size + off + k) content)), h2)"
      "blocks_ready lz stream h2 content" "current_segment_offset h2 = current_segment_offset h1"
      unfolding k_def by blast
    have "?d = take k (drop (i * block_size + off) content)" unfolding k by (rule d)
    moreover have "k + (n - k) = n" unfolding k by simp
    ultimately have "?d @ take (n - k) (drop (i * block_size + off + k) content) = take n (drop (i * block_size + off) content)"
      using take_add [of k "n - k" "drop (i * block_size + off) content"] by (simp only: drop_drop add.commute add.left_commute)
    then have "read_compressed_blocks lz stream i off n h = (Inr (take n (drop (i * block_size + off) content)), h2)"
      using number False
      by (simp only: read_compressed_blocks.simps [of lz stream i off n h] bindS_def h1(1) copy h2(1) call_simps
          prod.case sum.case) simp
    then show ?thesis using h1(4) h2(2,3) by simp
  qed
qed

text \<open>The handle with its offsets, determined before if need be.\<close>

lemma compressed_rep_ready:
  assumes "compressed_rep lz stream h content pos"
  shows "\<exists>h1. (if compressed_block_offsets h = None then compressed_data_handle_get_compressed_block_offsets stream else returnS ()) h = (Inr (), h1) \<and>
    blocks_ready lz stream h1 content \<and> current_segment_offset h1 = int pos"
proof (cases "compressed_block_offsets h = None")
  case True
  then have "\<not> blocks_ready lz stream h content" by (simp add: blocks_ready_def)
  then show ?thesis
    using assms True by (auto simp: compressed_rep_def compressed_data_handle_get_compressed_block_offsets_def)
qed (use assms in \<open>auto simp: compressed_rep_def\<close>)

lemma compressed_read_rep:
  assumes "compressed_rep lz stream h content pos" "pos + n \<le> length content"
  shows "\<exists>h'. compressed_data_handle_read_segment_data lz stream 0 n h = (Inr (take n (drop pos content)), h') \<and>
    compressed_rep lz stream h' content (pos + n)"
proof -
  obtain h1 where h1: "(if compressed_block_offsets h = None then compressed_data_handle_get_compressed_block_offsets stream else returnS ()) h = (Inr (), h1)"
    "blocks_ready lz stream h1 content" "current_segment_offset h1 = int pos"
    using compressed_rep_ready [OF assms(1)] by blast
  have fields: "uncompressed_size h1 = length content" "length content \<le> 2 ^ 32 - block_size" "compression_method h1 \<noteq> COMPRESSION_METHOD_UNKNOWN5"
    using h1(2) by (simp_all add: blocks_ready_def)
  then have n: "\<not> SSIZE_MAX < n" using assms(2) by (simp add: SSIZE_MAX_def)
  show ?thesis
  proof (cases "length content \<le> pos")
    case True
    then have "compressed_data_handle_read_segment_data lz stream 0 n h = (Inr (take n (drop pos content)), h1)"
      using assms(2) n fields(1)
      by (simp add: compressed_data_handle_read_segment_data_def bindS_def h1(1,3) Let_def)
    then show ?thesis using True assms(2) h1(2,3) by (simp add: compressed_rep_def)
  next
    case False
    have index: "pos div block_size mod 2 ^ 32 = pos div block_size" using False fields(2) by simp
    obtain h2 where h2: "read_compressed_blocks lz stream (pos div block_size) (pos mod block_size) n h1 =
        (Inr (take n (drop pos content)), h2)" "blocks_ready lz stream h2 content" "current_segment_offset h2 = int pos"
      using read_blocks_ready [OF h1(2), of "pos div block_size" "pos mod block_size" n] assms(2) h1(3) by auto
    have "compressed_data_handle_read_segment_data lz stream 0 n h =
        (Inr (take n (drop pos content)), h2\<lparr>current_segment_offset := int pos + int (length (take n (drop pos content)))\<rparr>)"
      using n False fields(3)
      by (simp add: compressed_data_handle_read_segment_data_def bindS_def h1(1,3) h2(1,3) fields(1) Let_def index [simplified]
          COMPRESSED_DATA_HANDLE_BLOCK_SIZE_def del: length_take)
    moreover have "blocks_ready lz stream (h2\<lparr>current_segment_offset := x\<rparr>) content" for x
      using h2(2) by (simp add: blocks_ready_def block_cached_def)
    ultimately show ?thesis using assms(2) by (simp add: compressed_rep_def)
  qed
qed

lemma compressed_seek_rep:
  assumes "compressed_rep lz stream h content pos" "i \<le> length content"
  shows "\<exists>h'. seek_at (compressed_data_handle_seek_segment_offset 0) i h = (Inr i, h') \<and> compressed_rep lz stream h' content i"
proof -
  let ?h = "h\<lparr>current_segment_offset := int i\<rparr>"
  have ready: "blocks_ready lz stream (h'\<lparr>current_segment_offset := x\<rparr>) content = blocks_ready lz stream h' content" for h' x
    by (simp add: blocks_ready_def block_cached_def)
  have "blocks_ready lz stream (h\<lparr>current_segment_offset := x, number_of_compressed_blocks := n, compressed_block_offsets := offs\<rparr>) content =
      blocks_ready lz stream (h\<lparr>number_of_compressed_blocks := n, compressed_block_offsets := offs\<rparr>) content" for x n offs
    by (simp add: blocks_ready_def block_cached_def)
  then have "compressed_rep lz stream ?h content i"
    using assms ready by (auto simp: compressed_rep_def)
  then show ?thesis by (simp add: seek_at_def compressed_data_handle_seek_segment_offset_def bindS_def)
qed

interpretation compressed_reader: segment_reader "compressed_data_handle_read_segment_data lz stream 0"
  "seek_at (compressed_data_handle_seek_segment_offset 0)" "compressed_rep lz stream"
  for lz stream
  by unfold_locales (rule compressed_read_rep compressed_seek_rep; assumption)+

section \<open>Written tables\<close>

text \<open>The stream of given data, as \<open>libfdata\<close> reads it.\<close>

definition stream_serves :: "data_stream \<Rightarrow> bytes \<Rightarrow> bool" where
  "stream_serves stream data \<longleftrightarrow> stream_get_size stream = Inr (length data) \<and>
     (\<forall>n i. n \<le> SSIZE_MAX \<longrightarrow> stream_read stream n i = Inr (take n (drop i data)))"

text \<open>Where the blocks start, the first of them at \<open>i\<close>.\<close>

fun block_starts :: "nat \<Rightarrow> bytes list \<Rightarrow> nat list" where
  "block_starts i [] = []"
| "block_starts i (b # blocks) = i # block_starts (i + length b) blocks"

text \<open>
  The table of a method: of LZFSE, LZVN and ZBITMAP data the offsets of the blocks, of DEFLATE data a
  header and the offsets, less 260, with the sizes of the blocks.
\<close>

definition table_size :: "nat \<Rightarrow> bytes list \<Rightarrow> nat" where
  "table_size m blocks = (if m = COMPRESSION_METHOD_DEFLATE then 264 + 8 * length blocks else 4 * length blocks)"

definition encode_table :: "nat \<Rightarrow> bytes list \<Rightarrow> bytes" where
  "encode_table m blocks =
     (if m = COMPRESSION_METHOD_DEFLATE
      then be_encode 4 0x100 @ replicate 256 0 @ le_encode 4 (length blocks) @
           concat (map2 (\<lambda>i b. le_encode 4 (i - 260) @ le_encode 4 (length b)) (block_starts (table_size m blocks) blocks) blocks)
      else concat (map (le_encode 4) (block_starts (table_size m blocks) blocks)))"

definition encode_compressed :: "nat \<Rightarrow> bytes list \<Rightarrow> bytes" where
  "encode_compressed m blocks = encode_table m blocks @ concat blocks"

definition table_writable :: "nat \<Rightarrow> bytes list \<Rightarrow> bool" where
  "table_writable m blocks \<longleftrightarrow>
     m \<in> {COMPRESSION_METHOD_DEFLATE, COMPRESSION_METHOD_LZFSE, COMPRESSION_METHOD_LZVN, COMPRESSION_METHOD_ZBITMAP} \<and>
     (if m = COMPRESSION_METHOD_DEFLATE then 1 else 2) \<le> length blocks \<and> length blocks < 2 ^ 25 \<and>
     (\<forall>b\<in>set blocks. length b \<le> block_size + 1) \<and> concat blocks \<noteq> [] \<and> length (encode_compressed m blocks) < 2 ^ 32"

lemma length_block_starts [simp]: "length (block_starts i blocks) = length blocks"
  by (induction i blocks rule: block_starts.induct) simp_all

lemma block_starts_step:
  assumes "j < length blocks"
  shows "(block_starts i blocks @ [i + length (concat blocks)]) ! (Suc j) = (block_starts i blocks @ [i + length (concat blocks)]) ! j + length (blocks ! j)"
  using assms
proof (induction i blocks arbitrary: j rule: block_starts.induct)
  case (2 i b blocks)
  then show ?case
  proof (cases j)
    case 0
    then show ?thesis by (cases blocks) simp_all
  next
    case (Suc k)
    then show ?thesis using "2.IH" [of k] "2.prems" by (simp add: add.assoc)
  qed
qed simp

lemma take_block:
  assumes "j < length blocks" "length pre = i"
  shows "take (length (blocks ! j)) (drop (block_starts i blocks ! j) (pre @ concat blocks)) = blocks ! j"
  using assms
proof (induction i blocks arbitrary: j pre rule: block_starts.induct)
  case (2 i b blocks)
  show ?case
  proof (cases j)
    case 0
    then show ?thesis using "2.prems" by simp
  next
    case (Suc k)
    then show ?thesis using "2.IH" [of k "pre @ b"] "2.prems" by simp
  qed
qed simp

lemma block_starts_bound: "j < length blocks \<Longrightarrow> block_starts i blocks ! j \<le> i + length (concat blocks)"
proof (induction i blocks arbitrary: j rule: block_starts.induct)
  case (2 i b blocks)
  then show ?case by (cases j) (auto simp: add.assoc)
qed simp

lemma block_starts_ge: "j < length blocks \<Longrightarrow> i \<le> block_starts i blocks ! j"
proof (induction i blocks arbitrary: j rule: block_starts.induct)
  case (2 i b blocks)
  then show ?case
  proof (cases j)
    case (Suc k)
    then show ?thesis using "2.IH" [of k] "2.prems" by simp
  qed simp
qed simp

text \<open>Offsets that follow each other at the distance of a block at most.\<close>

definition near :: "nat \<Rightarrow> nat \<Rightarrow> bool" where
  "near i j \<longleftrightarrow> i \<le> j \<and> j - i \<le> block_size + 1"

lemma read_block_offsets_near:
  assumes "\<And>j. j < length vs \<Longrightarrow> rd_u32_le data (i + j * k) = Inr (vs ! j)"
    and "successively near (last offsets # map (\<lambda>v. (v + d) mod 2 ^ 32) vs)" "offsets \<noteq> []"
  shows "read_block_offsets data d k (length vs) i offsets = Inr (offsets @ map (\<lambda>v. (v + d) mod 2 ^ 32) vs)"
  using assms
proof (induction vs arbitrary: i offsets)
  case (Cons v vs)
  have "rd_u32_le data (i + k + j * k) = Inr (vs ! j)" if "j < length vs" for j
    using Cons.prems(1) [of "Suc j"] that by (simp add: add.assoc)
  moreover have "rd_u32_le data i = Inr v" using Cons.prems(1) [of 0] by simp
  moreover have "near (last offsets) ((v + d) mod 2 ^ 32)" using Cons.prems(2) by simp
  moreover have "successively near ((v + d) mod 2 ^ 32 # map (\<lambda>v. (v + d) mod 2 ^ 32) vs)" using Cons.prems(2) by (cases vs) simp_all
  ultimately show ?case
    using Cons.IH [of "i + k" "offsets @ [(v + d) mod 2 ^ 32]"]
    by (simp add: near_def Let_def COMPRESSED_DATA_HANDLE_BLOCK_SIZE_def)
qed simp

lemma successively_block_starts:
  assumes "\<forall>b\<in>set blocks. length b \<le> block_size + 1"
  shows "successively near (block_starts i blocks @ [i + length (concat blocks)])"
  using assms
proof (induction i blocks rule: block_starts.induct)
  case (2 i b blocks)
  then show ?case by (cases blocks) (auto simp: near_def add.assoc)
qed simp

lemma take_fixed:
  assumes "\<forall>x\<in>set xs. length (f x) = k" "j < length xs"
  shows "take k (drop (j * k) (concat (map f xs) @ rest)) = f (xs ! j)"
  using assms
proof (induction xs arbitrary: j)
  case (Cons x xs)
  then show ?case by (cases j) simp_all
qed simp

lemma length_fixed: "\<forall>x\<in>set xs. length (f x) = k \<Longrightarrow> length (concat (map f xs)) = length xs * k"
  by (induction xs) simp_all

lemma stream_read_into_serves:
  assumes "stream_serves stream data" "n \<le> SSIZE_MAX" "n \<le> capacity" "i + n \<le> length data"
  shows "stream_read_into stream capacity n i = Inr (take n (drop i data))"
  using assms by (simp add: stream_read_into_def stream_serves_def)

lemma rd_le_slice:
  assumes "j + 4 \<le> n" "i + n \<le> length data"
  shows "rd_u32_le (take n (drop i data)) j = Inr (le_value (take 4 (drop (i + j) data)))"
  using assms by (simp add: drop_take add.commute)

lemma block_starts_Cons: "blocks \<noteq> [] \<Longrightarrow> block_starts i blocks = i # tl (block_starts i blocks)"
  by (cases blocks) simp_all

text \<open>The offsets of the table of a method, of entries of \<open>k\<close> bytes at \<open>e\<close>, from which \<open>d\<close> is subtracted.\<close>

lemma read_block_table_encoded:
  assumes serves: "stream_serves stream data" and "data = pre @ concat blocks" "length pre = t" "length data < 2 ^ 32"
    and blocks: "\<forall>b\<in>set blocks. length b \<le> block_size + 1" "blocks \<noteq> []"
    and entries: "\<And>j. j < length blocks \<Longrightarrow> le_value (take 4 (drop (e + j * k) data)) = block_starts t blocks ! j - d"
    and "e + length blocks * k \<le> t" "4 \<le> k" "d + k < t" "t - d < length data"
  shows "read_block_table stream (length data) (length blocks, t - d, e + 4, d, k) = Inr (block_starts t blocks)"
proof -
  let ?n = "length blocks" and ?s = "block_starts t blocks"
  let ?vs = "map (\<lambda>i. i - d) (tl ?s)" and ?D = "take ((?n - 1) * k) (drop (e + 4) data)"
  have n: "0 < ?n" using blocks(2) by simp
  have fits: "e + 4 + (?n - 1) * k \<le> length data"
  proof -
    obtain m where "?n = Suc m" using n gr0_implies_Suc by blast
    then show ?thesis using assms(2,3,8,9) by simp
  qed
  have small: "(?n - 1) * k < 2 ^ 32" using fits assms(4) by simp
  have len: "length data = t + length (concat blocks)" using assms(2,3) by simp
  have "?n \<le> ?n * k" using assms(9) by (cases k) simp_all
  then have "?n < 2 ^ 32" using len assms(4,8) by linarith
  then have n_mod: "(?n + (2 ^ 64 - 1)) mod 2 ^ 64 = ?n - 1"
  proof -
    have "?n + (2 ^ 64 - 1) = 2 ^ 64 + (?n - 1)" using n by simp
    then show ?thesis using \<open>?n < 2 ^ 32\<close> by (simp only: mod_add_self1) simp
  qed
  have read_size: "((?n + (2 ^ 64 - 1)) mod 2 ^ 64 * k) mod 2 ^ 64 = (?n - 1) * k" unfolding n_mod using small by simp
  have starts: "t \<le> ?s ! j" "?s ! j < 2 ^ 32" if "j < ?n" for j
    using block_starts_ge [OF that, of t] block_starts_bound [OF that, of t] len assms(4) by linarith+
  have d: "d \<le> t" "t < 2 ^ 32" using assms(10) len assms(4) by linarith+
  have restored: "map (\<lambda>v. (v + d) mod 2 ^ 32) ?vs = tl ?s"
  proof (rule nth_equalityI)
    fix j assume "j < length (map (\<lambda>v. (v + d) mod 2 ^ 32) ?vs)"
    then have "Suc j < ?n" by simp
    then show "map (\<lambda>v. (v + d) mod 2 ^ 32) ?vs ! j = tl ?s ! j"
      using starts [of "Suc j"] d by (simp add: nth_tl)
  qed simp
  have read: "stream_read_into stream (max ((e + 4 + (?n - 1) * k) mod 2 ^ 64) (block_size + 1) - (e + 4)) ((?n - 1) * k) (e + 4) = Inr ?D"
    by (rule stream_read_into_serves [OF serves]) (use small fits assms(4) in \<open>simp_all add: SSIZE_MAX_def\<close>)
  have "rd_u32_le ?D (k - 4 + j * k) = Inr (?vs ! j)" if "j < length ?vs" for j
  proof -
    have j: "Suc j < ?n" using that by simp
    have "(Suc j) * k \<le> (?n - 1) * k" using j by (intro mult_le_mono1) simp
    then have "k - 4 + j * k + 4 \<le> (?n - 1) * k" using assms(9) by simp
    from rd_le_slice [OF this fits] have "rd_u32_le ?D (k - 4 + j * k) = Inr (le_value (take 4 (drop (e + Suc j * k) data)))"
      using assms(9) by (simp add: add.assoc)
    moreover have "tl ?s ! j = ?s ! Suc j" using that by (simp add: nth_tl)
    ultimately show ?thesis using entries [OF j] that by simp
  qed
  then have offsets: "read_block_offsets ?D d k (length ?vs) (k - 4) [t] = Inr ([t] @ map (\<lambda>v. (v + d) mod 2 ^ 32) ?vs)"
  proof (rule read_block_offsets_near)
    have "successively near (?s @ [t + length (concat blocks)])" by (rule successively_block_starts [OF blocks(1)])
    then show "successively near (last [t] # map (\<lambda>v. (v + d) mod 2 ^ 32) ?vs)"
      unfolding restored using block_starts_Cons [OF blocks(2), of t] by (simp add: successively_append_iff)
  qed simp_all
  have first: "(t - d + d) mod 2 ^ 32 = t" using d by simp
  show ?thesis
    unfolding read_block_table_def prod.case Let_def read_size COMPRESSED_DATA_HANDLE_BLOCK_SIZE_def read bindR_simps first
    using offsets restored block_starts_Cons [OF blocks(2), of t] assms(10,11) by simp
qed

lemma length_encode_table:
  assumes "table_writable m blocks"
  shows "length (encode_table m blocks) = table_size m blocks"
proof -
  have "length (concat (map (le_encode 4) (block_starts t blocks))) = 4 * length blocks" for t
    using length_fixed [of "block_starts t blocks" "le_encode 4" 4] by simp
  moreover have "length (concat (map2 (\<lambda>i b. le_encode 4 (i - 260) @ le_encode 4 (length b)) (block_starts t blocks) blocks)) = 8 * length blocks" for t
    using length_fixed [of "zip (block_starts t blocks) blocks" "\<lambda>(i, b). le_encode 4 (i - 260) @ le_encode 4 (length b)" 8]
    by (simp add: split_beta)
  ultimately show ?thesis unfolding encode_table_def by (simp add: table_size_def [of m blocks])
qed

lemma encode_table_entries:
  assumes "table_writable m blocks" "j < length blocks"
  shows "m \<noteq> COMPRESSION_METHOD_DEFLATE \<Longrightarrow>
      le_value (take 4 (drop (0 + j * 4) (encode_compressed m blocks))) = block_starts (table_size m blocks) blocks ! j - 0"
    and "m = COMPRESSION_METHOD_DEFLATE \<Longrightarrow>
      le_value (take 4 (drop (264 + j * 8) (encode_compressed m blocks))) = block_starts (table_size m blocks) blocks ! j - 260"
proof -
  let ?s = "block_starts (table_size m blocks) blocks"
  have len: "length (encode_compressed m blocks) = table_size m blocks + length (concat blocks)"
    using length_encode_table [OF assms(1)] by (simp add: encode_compressed_def)
  have small: "?s ! j < 2 ^ 32"
    using block_starts_bound [OF assms(2), of "table_size m blocks"] len assms(1) unfolding table_writable_def by linarith
  show "le_value (take 4 (drop (0 + j * 4) (encode_compressed m blocks))) = ?s ! j - 0" if "m \<noteq> COMPRESSION_METHOD_DEFLATE"
    using that take_fixed [of ?s "le_encode 4" 4 j "concat blocks"] assms(2) small
    by (simp add: encode_compressed_def encode_table_def)
  show "le_value (take 4 (drop (264 + j * 8) (encode_compressed m blocks))) = ?s ! j - 260" if "m = COMPRESSION_METHOD_DEFLATE"
  proof -
    let ?e = "\<lambda>(i, b). le_encode 4 (i - 260) @ le_encode 4 (length b)"
    define rest where "rest = concat (map ?e (zip ?s blocks)) @ concat blocks"
    have "take 8 (drop (j * 8) rest) = le_encode 4 (?s ! j - 260) @ le_encode 4 (length (blocks ! j))"
      unfolding rest_def using take_fixed [of "zip ?s blocks" ?e 8 j "concat blocks"] assms(2) by (simp add: split_beta)
    then have "take 4 (take 8 (drop (j * 8) rest)) = le_encode 4 (?s ! j - 260)" by simp
    moreover have "encode_compressed m blocks = (be_encode 4 0x100 @ replicate 256 0 @ le_encode 4 (length blocks)) @ rest"
      using that by (simp add: encode_compressed_def encode_table_def rest_def)
    then have "drop (264 + j * 8) (encode_compressed m blocks) = drop (j * 8) rest" by simp
    ultimately have "take 4 (drop (264 + j * 8) (encode_compressed m blocks)) = le_encode 4 (?s ! j - 260)" by simp
    then show ?thesis using small by simp
  qed
qed

lemma table_header_encoded:
  assumes "table_writable m blocks" "stream_serves stream (encode_compressed m blocks)"
  shows "take 4 (encode_compressed m blocks) \<noteq> compressed_data_signature"
    "read_block_table_header stream m n0 (length (encode_compressed m blocks)) (take 4 (encode_compressed m blocks)) =
      Inr (if m = COMPRESSION_METHOD_DEFLATE then (length blocks, table_size m blocks - 260, 268, 260, 8)
           else (length blocks, table_size m blocks, 4, 0, 4))"
proof -
  let ?D = "encode_compressed m blocks" and ?t = "table_size m blocks"
  have w: "length blocks < 2 ^ 25" "blocks \<noteq> []" "?t < length ?D"
    "(if m = COMPRESSION_METHOD_DEFLATE then 1 else 2) \<le> length blocks"
    "m \<in> {COMPRESSION_METHOD_DEFLATE, COMPRESSION_METHOD_LZFSE, COMPRESSION_METHOD_LZVN, COMPRESSION_METHOD_ZBITMAP}"
    using assms(1) length_encode_table [OF assms(1)] unfolding table_writable_def by (auto simp: encode_compressed_def)
  have first: "block_starts ?t blocks ! 0 = ?t" using block_starts_Cons [OF w(2), of ?t] by (metis nth_Cons_0)
  have "take 4 ?D \<noteq> compressed_data_signature \<and> read_block_table_header stream m n0 (length ?D) (take 4 ?D) =
      Inr (if m = COMPRESSION_METHOD_DEFLATE then (length blocks, ?t - 260, 268, 260, 8) else (length blocks, ?t, 4, 0, 4))"
  proof (cases "m = COMPRESSION_METHOD_DEFLATE")
    case True
    have t: "?t = 264 + 8 * length blocks" "272 \<le> length ?D" using w(3,4) True by (simp_all add: table_size_def)
    have D: "take 4 ?D = be_encode 4 0x100" "take 4 (drop 260 ?D) = le_encode 4 (length blocks)"
      using True by (simp_all add: encode_compressed_def encode_table_def)
    have "be_value compressed_data_signature = 0x66706d63" by (simp add: compressed_data_signature_def be_value_def)
    moreover have "be_value (be_encode 4 0x100) = 0x100" by simp
    ultimately have "be_encode 4 0x100 \<noteq> compressed_data_signature" by force
    then have signature: "be_value (take 4 ?D) = 0x100" "take 4 ?D \<noteq> compressed_data_signature" unfolding D by simp_all
    have read: "stream_read_into stream 65533 268 4 = Inr (take 268 (drop 4 ?D))"
      by (rule stream_read_into_serves [OF assms(2)]) (use t in \<open>simp_all add: SSIZE_MAX_def\<close>)
    have front: "take 4 ?D @ take 268 (drop 4 ?D) = take 272 (drop 0 ?D)" using take_add [of 4 268 ?D] by simp
    have "rd_u32_le (take 272 (drop 0 ?D)) 260 = Inr (length blocks)" "rd_u32_le (take 272 (drop 0 ?D)) 264 = Inr (?t - 260)"
      using rd_le_slice [of 260 272 0 ?D] rd_le_slice [of 264 272 0 ?D] t(2) D(2) w(1)
        encode_table_entries(2) [OF assms(1), of 0] True w(2) first by (simp_all del: drop_0)
    then show ?thesis
      using True signature read w(1) unfolding read_block_table_header_def COMPRESSED_DATA_HANDLE_BLOCK_SIZE_def
      by (simp add: front [unfolded True])
  next
    case False
    have t: "?t = 4 * length blocks" "4 < ?t" using w(4) False by (simp_all add: table_size_def)
    have le: "le_value (take 4 ?D) = ?t" using encode_table_entries(1) [OF assms(1), of 0] w(2) False first by simp
    have "le_value compressed_data_signature = 0x636d7066" by (simp add: compressed_data_signature_def)
    then have "take 4 ?D \<noteq> compressed_data_signature" using le t(1) w(1) by auto
    then show ?thesis
      using False le t w(3,5) unfolding read_block_table_header_def by auto
  qed
  then show "take 4 ?D \<noteq> compressed_data_signature" "read_block_table_header stream m n0 (length ?D) (take 4 ?D) =
      Inr (if m = COMPRESSION_METHOD_DEFLATE then (length blocks, ?t - 260, 268, 260, 8) else (length blocks, ?t, 4, 0, 4))"
    by blast+
qed

lemma determine_encoded:
  assumes "table_writable m blocks" "stream_serves stream (encode_compressed m blocks)"
  shows "determine_compressed_block_offsets stream m n0 =
    Inr (length blocks, block_starts (table_size m blocks) blocks @ [table_size m blocks + length (concat blocks)])"
proof -
  let ?D = "encode_compressed m blocks" and ?t = "table_size m blocks"
  let ?s = "block_starts ?t blocks"
  have D: "?D = encode_table m blocks @ concat blocks" "length (encode_table m blocks) = ?t"
    using length_encode_table [OF assms(1)] by (simp_all add: encode_compressed_def)
  then have len: "length ?D = ?t + length (concat blocks)" by simp
  have w: "length blocks < 2 ^ 25" "\<forall>b\<in>set blocks. length b \<le> block_size + 1" "blocks \<noteq> []" "?t < length ?D" "length ?D < 2 ^ 32"
    "(if m = COMPRESSION_METHOD_DEFLATE then 1 else 2) \<le> length blocks"
    "m \<in> {COMPRESSION_METHOD_DEFLATE, COMPRESSION_METHOD_LZFSE, COMPRESSION_METHOD_LZVN, COMPRESSION_METHOD_ZBITMAP}"
    using assms(1) len unfolding table_writable_def by auto
  have t: "if m = COMPRESSION_METHOD_DEFLATE then 272 \<le> ?t else 8 \<le> ?t" using w(6) by (simp add: table_size_def split: if_splits)
  define table :: "nat \<times> nat \<times> nat \<times> nat \<times> nat" where "table = (if m = COMPRESSION_METHOD_DEFLATE then (length blocks, ?t - 260, 268, 260, 8) else (length blocks, ?t, 4, 0, 4))"
  have read: "stream_read_into stream 65537 4 0 = Inr (take 4 ?D)"
    using stream_read_into_serves [OF assms(2), of 4 65537 0] t w(4) by (simp add: SSIZE_MAX_def split: if_splits)
  note header = table_header_encoded(1) [OF assms] table_header_encoded(2) [OF assms, of n0, folded table_def]
  have offsets: "read_block_table stream (length ?D) table = Inr ?s"
    using read_block_table_encoded [OF assms(2) D w(5,2,3), of 0 4 0] read_block_table_encoded [OF assms(2) D w(5,2,3), of 264 8 260]
      encode_table_entries [OF assms(1)] t w(4) unfolding table_def by (simp add: table_size_def split: if_splits)
  have "near (last ?s) (length ?D)"
    using successively_block_starts [OF w(2), of ?t] block_starts_Cons [OF w(3), of ?t] len
    by (auto simp: successively_append_iff)
  moreover have "fst table = length blocks" by (simp add: table_def)
  moreover have "m = COMPRESSION_METHOD_DEFLATE \<Longrightarrow> stream_read_into stream 65537 0 0 = Inr []"
    using stream_read_into_serves [OF assms(2), of 0 65537 0] by simp
  moreover have "stream_get_size stream = Inr (length ?D)" using assms(2) by (simp add: stream_serves_def)
  moreover have "m \<noteq> COMPRESSION_METHOD_UNKNOWN5" using w(7) by (auto simp: compression_methods)
  moreover have "length ?D mod 2 ^ 32 = ?t + length (concat blocks)" using len w(5) by simp
  ultimately show ?thesis
    using w(1) header offsets read
    unfolding determine_compressed_block_offsets_def COMPRESSED_DATA_HANDLE_BLOCK_SIZE_def near_def MEMORY_MAXIMUM_ALLOCATION_SIZE_def
    by (simp add: not_less)
qed

lemma block_offsets_at:
  assumes "table_writable m blocks" "stream_serves stream (encode_compressed m blocks)" "i < length blocks"
    and "block_decompressor.expands (decompress_data lz m) (blocks ! i) block_size out"
  shows "block_expands lz stream m
    (block_starts (table_size m blocks) blocks @ [table_size m blocks + length (concat blocks)]) i out"
proof -
  let ?t = "table_size m blocks"
  let ?o = "block_starts ?t blocks @ [?t + length (concat blocks)]"
  have len: "length (encode_compressed m blocks) = ?t + length (concat blocks)"
    using length_encode_table [OF assms(1)] by (simp add: encode_compressed_def)
  have step: "?o ! Suc i = ?o ! i + length (blocks ! i)" by (rule block_starts_step [OF assms(3)])
  have size: "length (blocks ! i) \<le> block_size + 1" using assms(1,3) unfolding table_writable_def by auto
  have at: "?o ! i = block_starts ?t blocks ! i" using assms(3) by (simp add: nth_append)
  have "?o ! Suc i \<le> ?t + length (concat blocks)"
    using block_starts_bound [of "Suc i" blocks ?t] assms(3) by (cases "Suc i < length blocks") (simp_all add: nth_append)
  then have bound: "?o ! i + length (blocks ! i) \<le> length (encode_compressed m blocks)" using step len by linarith
  have "take (length (blocks ! i)) (drop (?o ! i) (encode_compressed m blocks)) = blocks ! i"
    unfolding at encode_compressed_def using take_block [OF assms(3) length_encode_table [OF assms(1)]] by simp
  then have "stream_read_into stream (block_size + 1) (length (blocks ! i)) (?o ! i) = Inr (blocks ! i)"
    using stream_read_into_serves [OF assms(2) _ size bound] size by (simp add: SSIZE_MAX_def)
  moreover have "length (encode_compressed m blocks) < 2 ^ 32" using assms(1) by (simp add: table_writable_def)
  ultimately show ?thesis
    using assms(3,4) bound step unfolding block_expands_def by (simp del: nth_append)
qed

lemma initialized_rep:
  assumes "compressed_data_handle_initialize None (length content) m = Inr h"
    and "table_writable m blocks" "stream_serves stream (encode_compressed m blocks)" "lz_laws lz"
    and "length content \<le> 2 ^ 32 - block_size"
    and "\<And>i. i * block_size < length content \<Longrightarrow> i < length blocks \<and>
      block_decompressor.expands (decompress_data lz m) (blocks ! i) block_size (block_of content i)"
  shows "compressed_rep lz stream h content 0"
proof -
  have m: "m \<noteq> COMPRESSION_METHOD_UNKNOWN5" using assms(2) by (auto simp: table_writable_def compression_methods)
  have h: "h = \<lparr>current_segment_offset = 0, uncompressed_size = length content, compression_method = m,
      current_compressed_block_index = 2 ^ 32 - 1, segment_data = Some (replicate block_size 0), segment_data_size = 0,
      number_of_compressed_blocks = 0, compressed_block_offsets = None\<rparr>"
    using assms(1) m by (auto simp: compressed_data_handle_initialize_def COMPRESSED_DATA_HANDLE_BLOCK_SIZE_def split: if_splits)
  have enough: "length content \<le> length blocks * block_size"
  proof (rule ccontr)
    assume "\<not> length content \<le> length blocks * block_size"
    then show False using assms(6) [of "length blocks"] by simp
  qed
  show ?thesis
    using determine_encoded [OF assms(2,3), of 0] block_offsets_at [OF assms(2,3)] assms(4-6) enough m
    unfolding h compressed_rep_def blocks_ready_def block_cached_def by auto
qed

section \<open>Safety\<close>

text \<open>
  The documented behaviour of a stream: it returns at most what was asked for, and nothing more than
  the largest size of a read.
\<close>

definition stream_law :: "data_stream \<Rightarrow> bool" where
  "stream_law stream \<longleftrightarrow> post lib_error (\<lambda>_. True) (stream_get_size stream) \<and>
     (\<forall>n i. post lib_error (\<lambda>data. length data \<le> n \<and> n \<le> SSIZE_MAX) (stream_read stream n i))"

text \<open>
  The offsets of the blocks: consecutive, but for the size of the compressed data, which is reduced
  to 32 bits.
\<close>

definition offsets_ok :: "nat \<Rightarrow> nat list \<Rightarrow> bool" where
  "offsets_ok n offsets \<longleftrightarrow> length offsets = n + 1 \<and>
     (\<forall>i<n. offsets ! i < 2 ^ 32 \<and> (near (offsets ! i) (offsets ! Suc i) \<or> offsets ! Suc i < offsets ! i))"

definition handle_ok :: "compressed_data_handle \<Rightarrow> bool" where
  "handle_ok h \<longleftrightarrow> (compression_method h \<noteq> COMPRESSION_METHOD_UNKNOWN5 \<longrightarrow> (\<exists>buf. segment_data h = Some buf \<and> length buf = block_size)) \<and>
     segment_data_size h \<le> block_size \<and>
     (case compressed_block_offsets h of None \<Rightarrow> number_of_compressed_blocks h = 0 | Some offsets \<Rightarrow> offsets_ok (number_of_compressed_blocks h) offsets)"

lemma stream_read_into_post:
  assumes "stream_law stream" "n \<le> capacity \<or> SSIZE_MAX < n"
  shows "post lib_error (\<lambda>data. length data = n \<and> n \<le> SSIZE_MAX) (stream_read_into stream capacity n i)"
  using assms
  by (auto simp: stream_read_into_def stream_law_def intro!: post_bindR [where P = "\<lambda>data. length data \<le> n \<and> n \<le> SSIZE_MAX"])

lemma read_block_offsets_post:
  assumes "n = 0 \<or> i + (n - 1) * k + 4 \<le> length data" "offsets \<noteq> []" "successively near offsets" "\<forall>i\<in>set offsets. i < 2 ^ 32"
  shows "post lib_error (\<lambda>o'. length o' = length offsets + n \<and> o' \<noteq> [] \<and> successively near o' \<and> (\<forall>i\<in>set o'. i < 2 ^ 32))
    (read_block_offsets data d k n i offsets)"
  using assms
proof (induction n arbitrary: i offsets)
  case (Suc n)
  have fits: "i + 4 \<le> length data" "n = 0 \<or> i + k + (n - 1) * k + 4 \<le> length data"
    using Suc.prems(1) by (cases n; simp)+
  have "post lib_error (\<lambda>o'. length o' = length offsets + Suc n \<and> o' \<noteq> [] \<and> successively near o' \<and> (\<forall>i\<in>set o'. i < 2 ^ 32))
      (read_block_offsets data d k n (i + k) (offsets @ [v mod 2 ^ 32]))" if "near (last offsets) (v mod 2 ^ 32)" for v
    using Suc.IH [OF fits(2), of "offsets @ [v mod 2 ^ 32]"] Suc.prems(2-4) that by (simp add: successively_append_iff)
  then show ?case using fits(1) by (auto simp: Let_def near_def COMPRESSED_DATA_HANDLE_BLOCK_SIZE_def not_less)
qed simp

definition table_ok :: "nat \<times> nat \<times> nat \<times> nat \<times> nat \<Rightarrow> bool" where
  "table_ok = (\<lambda>(n, i, e, d, k). e \<le> 268 \<and> (k = 4 \<or> k = 8 \<or> k = 0 \<and> i = 0))"

text \<open>Entries of no size are those of no table.\<close>

abbreviation entry_bytes :: "nat \<times> nat \<times> nat \<times> nat \<times> nat \<Rightarrow> nat" where
  "entry_bytes table \<equiv> snd (snd (snd (snd table)))"

lemma read_block_table_header_post:
  assumes "stream_law stream" "length signature = 4"
  shows "post lib_error (\<lambda>t. table_ok t \<and> (m = COMPRESSION_METHOD_UNKNOWN5 \<longrightarrow> entry_bytes t = 0))
    (read_block_table_header stream m n0 size_value signature)"
proof -
  have "post lib_error (\<lambda>data. length data = 268 \<and> 268 \<le> SSIZE_MAX) (stream_read_into stream 65533 268 4)"
    by (rule stream_read_into_post [OF assms(1)]) simp
  then show ?thesis
    using assms(2)
    by (auto simp: read_block_table_header_def table_ok_def Let_def COMPRESSED_DATA_HANDLE_BLOCK_SIZE_def compression_methods
        intro!: post_bindR [where P = "\<lambda>data. length data = 268 \<and> 268 \<le> SSIZE_MAX"])
qed

abbreviation offsets_read :: "nat \<Rightarrow> nat list \<Rightarrow> bool" where
  "offsets_read n offsets \<equiv> length offsets = n \<and> offsets \<noteq> [] \<and> successively near offsets \<and> (\<forall>i\<in>set offsets. i < 2 ^ 32)"

lemma read_block_table_post:
  assumes "stream_law stream" "table_ok table" "fst table < 2 ^ 25"
  shows "post lib_error (\<lambda>offsets. offsets_read (fst table) offsets \<and> entry_bytes table \<noteq> 0)
    (read_block_table stream size_value table)"
proof -
  obtain n i e d k where table: "table = (n, i, e, d, k)" by (cases table)
  have ok: "e \<le> 268" "k = 4 \<or> k = 8 \<or> k = 0 \<and> i = 0" "n < 2 ^ 25" using assms(2,3) by (auto simp: table table_ok_def)
  define r where "r = ((n + (2 ^ 64 - 1)) mod 2 ^ 64 * k) mod 2 ^ 64"
  have r: "n = 0 \<and> k \<noteq> 0 \<longrightarrow> SSIZE_MAX < r" "0 < n \<longrightarrow> r = (n - 1) * k"
  proof -
    show "n = 0 \<and> k \<noteq> 0 \<longrightarrow> SSIZE_MAX < r" using ok(2) by (auto simp: r_def SSIZE_MAX_def)
    show "0 < n \<longrightarrow> r = (n - 1) * k"
    proof
      assume "0 < n"
      then have "n + (2 ^ 64 - 1) = 2 ^ 64 + (n - 1)" by simp
      then have "(n + (2 ^ 64 - 1)) mod 2 ^ 64 = n - 1" using ok(3) by (simp only: mod_add_self1) simp
      moreover have "(n - 1) * k \<le> n * 8" using ok(2) by (intro mult_le_mono) auto
      ultimately show "r = (n - 1) * k" using ok(3) by (simp add: r_def)
    qed
  qed
  have "r \<le> max ((e + r) mod 2 ^ 64) (block_size + 1) - e \<or> SSIZE_MAX < r"
  proof (cases "n = 0 \<and> k \<noteq> 0")
    case False
    have "r \<le> 2 ^ 28"
    proof (cases "n = 0")
      case False
      have "(n - 1) * k \<le> 2 ^ 25 * 8" using ok(2,3) by (intro mult_le_mono) auto
      then show ?thesis using r(2) False by simp
    qed (use \<open>\<not> (n = 0 \<and> k \<noteq> 0)\<close> r_def in simp)
    then have "(e + r) mod 2 ^ 64 = e + r" using ok(1) by simp
    moreover have "r \<le> max (e + r) (block_size + 1) - e" by linarith
    ultimately show ?thesis by simp
  qed (use r in simp)
  from stream_read_into_post [OF assms(1) this]
  have "post lib_error (\<lambda>data. length data = r \<and> r \<le> SSIZE_MAX)
      (stream_read_into stream (max ((e + r) mod 2 ^ 64) (block_size + 1) - e) r e)" .
  moreover have "post lib_error (\<lambda>offsets. offsets_read n offsets \<and> k \<noteq> 0) (read_block_offsets data d k (n - 1) (k - 4) [(i + d) mod 2 ^ 32])"
    if "length data = r" "r \<le> SSIZE_MAX" "k < i" for data
  proof -
    have k: "k = 4 \<or> k = 8" using ok(2) that(3) by auto
    then have n: "0 < n" "r = (n - 1) * k" using r that(2) by auto
    have "n - 1 = 0 \<or> k - 4 + (n - 1 - 1) * k + 4 \<le> length data"
      using k by (cases "n - 1") (auto simp: that(1) n(2))
    from read_block_offsets_post [OF this, of "[(i + d) mod 2 ^ 32]" d] show ?thesis
      by (rule post_weaken) (use n(1) k in auto)
  qed
  ultimately show ?thesis
    unfolding table read_block_table_def prod.case Let_def r_def [symmetric] COMPRESSED_DATA_HANDLE_BLOCK_SIZE_def
    by (auto simp: not_le intro!: post_bindR [where P = "\<lambda>data. length data = r \<and> r \<le> SSIZE_MAX"])
qed

lemma offsets_ok_end:
  assumes "offsets_read n offsets" "last offsets \<le> size_value" "size_value - last offsets \<le> block_size + 1"
  shows "offsets_ok n (offsets @ [size_value mod 2 ^ 32])"
  unfolding offsets_ok_def
proof (intro conjI allI impI)
  fix i assume i: "i < n"
  let ?o = "offsets @ [size_value mod 2 ^ 32]"
  show "?o ! i < 2 ^ 32" using i assms(1) by (simp add: nth_append)
  show "near (?o ! i) (?o ! Suc i) \<or> ?o ! Suc i < ?o ! i"
  proof (cases "Suc i < n")
    case True
    then have "near (offsets ! i) (offsets ! Suc i)" using assms(1) by (simp add: successively_conv_nth)
    then show ?thesis using True assms(1) by (simp add: nth_append)
  next
    case False
    then have n: "n = Suc i" using i by simp
    then have last: "?o ! i = last offsets" "?o ! Suc i = size_value mod 2 ^ 32"
      using assms(1) by (auto simp: nth_append last_conv_nth)
    have "last offsets < 2 ^ 32" using assms(1) by auto
    then show ?thesis
      using assms(2,3) unfolding last near_def
      by (cases "size_value < 2 ^ 32") (auto simp: not_less le_mod_geq)
  qed
qed (use assms(1) in simp)

lemma determine_post:
  assumes "stream_law stream"
  shows "post lib_error (\<lambda>(n, offsets). offsets_ok n offsets) (determine_compressed_block_offsets stream m n0)"
proof -
  have signature: "post lib_error (\<lambda>data. length data = 4 \<and> 4 \<le> SSIZE_MAX) (stream_read_into stream 65537 4 0)"
    by (rule stream_read_into_post [OF assms]) simp
  have table: "post lib_error (\<lambda>t. if signature = compressed_data_signature then fst t = 1 \<and> size_value \<le> 65537
        else table_ok t \<and> (m = COMPRESSION_METHOD_UNKNOWN5 \<longrightarrow> entry_bytes t = 0))
      (if signature = compressed_data_signature then if size_value > 65537 then Inl RUNTIME_VALUE_OUT_OF_BOUNDS else Inr (1, 0, 0, 0, 0)
       else read_block_table_header stream m n0 size_value signature)" if "length signature = 4" for signature size_value
    using read_block_table_header_post [OF assms that] by simp
  have offsets: "post lib_error (\<lambda>offsets. offsets_read (fst t) offsets \<and> (m = COMPRESSION_METHOD_UNKNOWN5 \<longrightarrow> size_value \<le> 65537))
      (if signature = compressed_data_signature then Inr [16] else read_block_table stream size_value t)"
    if "if signature = compressed_data_signature then fst t = 1 \<and> size_value \<le> 65537
        else table_ok t \<and> (m = COMPRESSION_METHOD_UNKNOWN5 \<longrightarrow> entry_bytes t = 0)" "fst t < 2 ^ 25" for t signature size_value
  proof (cases "signature = compressed_data_signature")
    case False
    then have t: "table_ok t" "m = COMPRESSION_METHOD_UNKNOWN5 \<longrightarrow> entry_bytes t = 0" using that(1) by simp_all
    have "post lib_error (\<lambda>offsets. offsets_read (fst t) offsets \<and> (m = COMPRESSION_METHOD_UNKNOWN5 \<longrightarrow> size_value \<le> 65537))
        (read_block_table stream size_value t)"
      by (rule post_weaken [OF read_block_table_post [OF assms t(1) that(2)]]) (use t(2) in auto)
    then show ?thesis using False by simp
  qed (use that in simp)
  have rest: "post lib_error (\<lambda>_. True) (if m = COMPRESSION_METHOD_DEFLATE then stream_read_into stream 65537 0 0
      else if m = COMPRESSION_METHOD_UNKNOWN5 then if size_value > SSIZE_MAX then Inl RUNTIME_VALUE_OUT_OF_BOUNDS
        else stream_read_into stream 65537 (size_value - 16) 16 else Inr [])"
    if "m = COMPRESSION_METHOD_UNKNOWN5 \<longrightarrow> size_value \<le> 65537" for size_value
  proof -
    have "post lib_error (\<lambda>_. True) (stream_read_into stream 65537 0 0)"
      by (rule post_weaken [OF stream_read_into_post [OF assms]]) simp_all
    moreover have "post lib_error (\<lambda>_. True) (stream_read_into stream 65537 (size_value - 16) 16)" if "size_value \<le> 65537"
      by (rule post_weaken [OF stream_read_into_post [OF assms]]) (use that in auto)
    ultimately show ?thesis using that by simp
  qed
  have size: "post lib_error (\<lambda>_. True) (stream_get_size stream)" using assms by (simp add: stream_law_def)
  have block: "COMPRESSED_DATA_HANDLE_BLOCK_SIZE + 1 = 65537" by (simp add: COMPRESSED_DATA_HANDLE_BLOCK_SIZE_def)
  have finish: "post lib_error (\<lambda>(n, offsets). offsets_ok n offsets)
      (if last offsets > size_value \<or> size_value - last offsets > 65537 then Inl RUNTIME_VALUE_OUT_OF_BOUNDS
       else if length offsets > fst t then Inl OUT_OF_BOUNDS_ACCESS
       else bindR (if m = COMPRESSION_METHOD_DEFLATE then stream_read_into stream 65537 0 0
          else if m = COMPRESSION_METHOD_UNKNOWN5 then if size_value > SSIZE_MAX then Inl RUNTIME_VALUE_OUT_OF_BOUNDS
            else stream_read_into stream 65537 (size_value - 16) 16 else Inr [])
          (\<lambda>_. Inr (fst t, offsets @ [size_value mod 2 ^ 32])))"
    if "offsets_read (fst t) offsets \<and> (m = COMPRESSION_METHOD_UNKNOWN5 \<longrightarrow> size_value \<le> 65537)" for offsets t size_value
  proof (cases "last offsets > size_value \<or> size_value - last offsets > 65537")
    case False
    then have ok: "offsets_ok (fst t) (offsets @ [size_value mod 2 ^ 32])" using that by (intro offsets_ok_end) auto
    have number: "\<not> length offsets > fst t" using that by simp
    show ?thesis
      unfolding if_not_P [OF False] if_not_P [OF number] by (rule post_bindR [OF rest]) (use that ok in simp_all)
  qed simp
  show ?thesis
    unfolding determine_compressed_block_offsets_def block
  proof (rule post_bindR [OF size], rule post_bindR [OF signature], rule post_bindR [OF table])
    fix size_value :: nat and data :: bytes assume data: "length data = 4 \<and> 4 \<le> SSIZE_MAX"
    then show "length data = 4" by simp
    fix t :: "nat \<times> nat \<times> nat \<times> nat \<times> nat"
    assume t: "if data = compressed_data_signature then fst t = 1 \<and> size_value \<le> 65537
        else table_ok t \<and> (m = COMPRESSION_METHOD_UNKNOWN5 \<longrightarrow> entry_bytes t = 0)"
    show "post lib_error (\<lambda>(n, offsets). offsets_ok n offsets)
      (if fst t > MEMORY_MAXIMUM_ALLOCATION_SIZE div 4 - 1 then Inl RUNTIME_VALUE_OUT_OF_BOUNDS
       else bindR (if data = compressed_data_signature then Inr [16] else read_block_table stream size_value t) (\<lambda>offsets.
         if last offsets > size_value \<or> size_value - last offsets > 65537 then Inl RUNTIME_VALUE_OUT_OF_BOUNDS
         else if length offsets > fst t then Inl OUT_OF_BOUNDS_ACCESS
         else bindR (if m = COMPRESSION_METHOD_DEFLATE then stream_read_into stream 65537 0 0
            else if m = COMPRESSION_METHOD_UNKNOWN5 then if size_value > SSIZE_MAX then Inl RUNTIME_VALUE_OUT_OF_BOUNDS
              else stream_read_into stream 65537 (size_value - 16) 16 else Inr [])
            (\<lambda>_. Inr (fst t, offsets @ [size_value mod 2 ^ 32]))))"
    proof (cases "fst t > MEMORY_MAXIMUM_ALLOCATION_SIZE div 4 - 1")
      case False
      then have "fst t < 2 ^ 25" by (simp add: MEMORY_MAXIMUM_ALLOCATION_SIZE_def)
      then show ?thesis unfolding if_not_P [OF False] by (intro post_bindR [OF offsets [OF t]] finish)
    qed simp
  qed
qed

lemma load_compressed_block_safe:
  assumes "stream_law stream" "lz_laws lz" "handle_ok h" "i < number_of_compressed_blocks h"
    and "compression_method h \<noteq> COMPRESSION_METHOD_UNKNOWN5"
  shows "call_safe (\<lambda>h'. handle_ok h' \<and> compression_method h' = compression_method h \<and>
      number_of_compressed_blocks h' = number_of_compressed_blocks h \<and> current_segment_offset h' = current_segment_offset h)
    (\<lambda>_. True) (load_compressed_block lz stream i h)"
proof (cases "current_compressed_block_index h = i")
  case True
  then show ?thesis using assms(3) by (simp add: load_compressed_block_def)
next
  case False
  obtain buf where buf: "segment_data h = Some buf" "length buf = block_size" using assms(3,5) by (auto simp: handle_ok_def)
  obtain offsets where offsets: "compressed_block_offsets h = Some offsets" "offsets_ok (number_of_compressed_blocks h) offsets"
    using assms(3,4) by (auto simp: handle_ok_def split: option.splits)
  have len: "length offsets = number_of_compressed_blocks h + 1" using offsets(2) by (simp add: offsets_ok_def)
  let ?n = "(offsets ! (i + 1) + (2 ^ 64 - offsets ! i)) mod 2 ^ 64"
  have i: "offsets ! i < 2 ^ 32" "near (offsets ! i) (offsets ! (i + 1)) \<or> offsets ! (i + 1) < offsets ! i"
    using offsets(2) assms(4) by (auto simp: offsets_ok_def)
  have "?n \<le> block_size + 1 \<or> SSIZE_MAX < ?n"
  proof (cases "near (offsets ! i) (offsets ! (i + 1))")
    case True
    then have "offsets ! (i + 1) + (2 ^ 64 - offsets ! i) = 2 ^ 64 + (offsets ! (i + 1) - offsets ! i)"
      "offsets ! (i + 1) - offsets ! i \<le> block_size + 1" using i(1) by (simp_all add: near_def)
    then show ?thesis by (simp only: mod_add_self1) simp
  next
    case False
    then have "offsets ! (i + 1) + (2 ^ 64 - offsets ! i) < 2 ^ 64" "2 ^ 64 - 2 ^ 32 \<le> offsets ! (i + 1) + (2 ^ 64 - offsets ! i)"
      using i by auto
    then show ?thesis by (simp add: SSIZE_MAX_def)
  qed
  from stream_read_into_post [OF assms(1) this]
  have data: "post lib_error (\<lambda>_. True) (stream_read_into stream (block_size + 1) ?n (offsets ! i))"
    by (rule post_weaken) simp_all
  note contract = block_decompressor.decompress_post [OF decompress_data_decompressor [OF assms(2), of "compression_method h"], of block_size buf]
  let ?valid = "\<lambda>h'. handle_ok h' \<and> compression_method h' = compression_method h \<and>
      number_of_compressed_blocks h' = number_of_compressed_blocks h \<and> current_segment_offset h' = current_segment_offset h"
  have kept: "?valid (h\<lparr>segment_data := Some buf', segment_data_size := k\<rparr>)"
    "?valid (h\<lparr>segment_data := Some buf', segment_data_size := k, current_compressed_block_index := j\<rparr>)"
    if "length buf' = block_size" "k \<le> block_size" for buf' k j
    using assms(3) that by (auto simp: handle_ok_def split: option.splits)
  have read: "bindR (rd offsets i) (\<lambda>a. bindR (rd offsets (i + 1)) (\<lambda>b. f a b)) = f (offsets ! i) (offsets ! (i + 1))"
    for f :: "nat \<Rightarrow> nat \<Rightarrow> bytes result" using len assms(4) by simp
  show ?thesis
  proof (cases "stream_read_into stream (block_size + 1) ?n (offsets ! i)")
    case (Inl e)
    then show ?thesis
      using False data assms(3)
      unfolding load_compressed_block_def offsets(1) buf(1) option.case prod.case read COMPRESSED_DATA_HANDLE_BLOCK_SIZE_def by simp
  next
    case (Inr d)
    from contract [of d] buf(2) show ?thesis
      using False kept
      unfolding load_compressed_block_def offsets(1) buf(1) option.case prod.case read COMPRESSED_DATA_HANDLE_BLOCK_SIZE_def Inr
      by (auto simp: buffer_kept_def Let_def split: sum.splits)
  qed
qed

lemma copy_block_data_safe:
  assumes "handle_ok h" "compression_method h \<noteq> COMPRESSION_METHOD_UNKNOWN5"
  shows "post lib_error (\<lambda>data. length data \<le> n) (copy_block_data i n h)"
proof -
  obtain buf where "segment_data h = Some buf" "length buf = block_size" "segment_data_size h \<le> block_size"
    using assms by (auto simp: handle_ok_def)
  then show ?thesis by (simp add: copy_block_data_def)
qed

lemma read_compressed_blocks_safe:
  assumes "stream_law stream" "lz_laws lz" "handle_ok h" "compression_method h \<noteq> COMPRESSION_METHOD_UNKNOWN5"
  shows "call_safe handle_ok (\<lambda>data. length data \<le> n) (read_compressed_blocks lz stream i off n h)"
  using assms(3,4)
proof (induction n arbitrary: i off h rule: less_induct)
  case (less n)
  show ?case
  proof (cases "n = 0 \<or> number_of_compressed_blocks h \<le> i")
    case True
    then show ?thesis using less.prems(1) by (subst read_compressed_blocks.simps) auto
  next
    case False
    have rest: "call_safe handle_ok (\<lambda>data. length data \<le> n)
        (bindS (liftS (copy_block_data off n h')) (\<lambda>data. bindS (read_compressed_blocks lz stream (i + 1) 0 (n - length data)) (\<lambda>rest. returnS (data @ rest))) h')"
      if h': "handle_ok h'" "compression_method h' = compression_method h" for h'
    proof (cases "copy_block_data off n h'")
      case (Inl e)
      then show ?thesis using copy_block_data_safe [OF h'(1), of n off] h' less.prems(2) by simp
    next
      case (Inr data)
      have "0 < length data" "length data \<le> n" using copy_block_data_length [OF Inr] False by simp_all
      then have "n - length data < n" by linarith
      then have "call_safe handle_ok (\<lambda>d. length d \<le> n - length data) (read_compressed_blocks lz stream (i + 1) 0 (n - length data) h')"
        by (rule less.IH) (use h' less.prems(2) in simp_all)
      then show ?thesis unfolding Inr bindS_simps
        by (rule call_safe_bindS) (use \<open>length data \<le> n\<close> in auto)
    qed
    have "call_safe handle_ok (\<lambda>data. length data \<le> n)
        (bindS (load_compressed_block lz stream i) (\<lambda>_ h'. bindS (liftS (copy_block_data off n h')) (\<lambda>data.
          bindS (read_compressed_blocks lz stream (i + 1) 0 (n - length data)) (\<lambda>rest. returnS (data @ rest))) h') h)"
    proof (cases "load_compressed_block lz stream i h")
      case (Pair r h')
      have "call_safe (\<lambda>h'. handle_ok h' \<and> compression_method h' = compression_method h \<and>
          number_of_compressed_blocks h' = number_of_compressed_blocks h \<and> current_segment_offset h' = current_segment_offset h)
        (\<lambda>_. True) (load_compressed_block lz stream i h)"
        by (rule load_compressed_block_safe [OF assms(1,2) less.prems(1) _ less.prems(2)]) (use False in simp)
      then show ?thesis using rest [of h'] unfolding Pair by (cases r) (auto simp: bindS_def Pair)
    qed
    then show ?thesis using False by (subst read_compressed_blocks.simps) simp
  qed
qed

lemma compressed_read_call_safe:
  assumes "stream_law stream" "lz_laws lz" "handle_ok h"
  shows "call_safe handle_ok (\<lambda>data. length data \<le> n) (compressed_data_handle_read_segment_data lz stream segment_index n h)"
proof -
  have offsets: "call_safe (\<lambda>h'. handle_ok h') (\<lambda>_. True)
      ((if compressed_block_offsets h = None then compressed_data_handle_get_compressed_block_offsets stream else returnS ()) h)"
  proof (cases "compressed_block_offsets h = None")
    case True
    then show ?thesis
      using determine_post [OF assms(1), of "compression_method h" "number_of_compressed_blocks h"] assms(3)
      by (cases "determine_compressed_block_offsets stream (compression_method h) (number_of_compressed_blocks h)")
        (auto simp: compressed_data_handle_get_compressed_block_offsets_def handle_ok_def)
  qed (use assms(3) in auto)
  have moved: "handle_ok (h'\<lparr>current_segment_offset := x\<rparr>)" if "handle_ok h'" for h' x
    using that by (auto simp: handle_ok_def split: option.splits)
  have inner: "call_safe handle_ok (\<lambda>data. length data \<le> n)
      (bindS (read_compressed_blocks lz stream i off n) (\<lambda>data h. returnS data (h\<lparr>current_segment_offset := current_segment_offset h + int (length data)\<rparr>)) h')"
    if "handle_ok h'" "compression_method h' \<noteq> COMPRESSION_METHOD_UNKNOWN5" for h' i off
    by (rule call_safe_bindS [where P = "\<lambda>data. length data \<le> n"], rule read_compressed_blocks_safe [OF assms(1,2) that]) (simp add: moved)
  have "call_safe handle_ok (\<lambda>data. length data \<le> n) (compressed_data_handle_read_segment_data lz stream 0 n h)"
    if "\<not> SSIZE_MAX < n"
    unfolding compressed_data_handle_read_segment_data_def if_not_P [OF that] simp_thms if_False
    by (rule call_safe_bindS, rule offsets) (auto simp: Let_def intro: moved inner [simplified])
  then show ?thesis using assms(3) by (cases "segment_index = 0 \<and> \<not> SSIZE_MAX < n") (auto simp: compressed_data_handle_read_segment_data_def)
qed

section \<open>Properties\<close>

text \<open>C13. A compressed file reads like its content: for compressed data
  with the table of its method (that of DEFLATE with at least one block, or that of LZFSE, LZVN and ZBITMAP with at least two, and less
  than 4 GiB with the blocks) whose blocks expand to the 65536-byte parts of a content of at
  most 4 GiB less 64 KiB, any sequence of seeks and reads within the
  content answers each read with exactly that part of the content, however reads cross blocks and
  whatever block is cached.\<close>

theorem compressed_reads_refine:
  assumes "compressed_data_handle_initialize None (length content) m = Inr h"
    and "table_writable m blocks" "stream_serves stream (encode_compressed m blocks)" "lz_laws lz"
    and "length content \<le> 2 ^ 32 - 65536"
    and "\<And>i. i * 65536 < length content \<Longrightarrow> i < length blocks \<and>
      block_decompressor.expands (decompress_data lz m) (blocks ! i) 65536 (block_of content i)"
    and "within content 0 requests"
  shows "fst (run_requests (compressed_data_handle_read_segment_data lz stream 0)
      (seek_at (compressed_data_handle_seek_segment_offset 0)) requests h) = Inr (answers content 0 requests)"
  using compressed_reader.requests_answered [OF initialized_rep [OF assms(1-6)] assms(7)] by force

text \<open>Two blocks of ZBITMAP data, the first of them stored, the second one empty.\<close>

definition failing_lz :: lz_operations where
  "failing_lz = \<lparr>lzfse_decompress = (\<lambda>data n buf m. Inl (COMPRESSION_DECOMPRESS_FAILED, buf)),
     lzvn_decompress = (\<lambda>data n buf m. Inl (COMPRESSION_DECOMPRESS_FAILED, buf))\<rparr>"

definition sample_blocks :: "bytes list" where
  "sample_blocks = [[0xff, 1, 2, 3], []]"

definition stream_of :: "bytes \<Rightarrow> data_stream" where
  "stream_of data = \<lparr>stream_get_size = Inr (length data), stream_read = (\<lambda>n i. Inr (take n (drop i data)))\<rparr>"

lemma failing_lz_laws: "lz_laws failing_lz"
  by (auto simp: lz_laws_def failing_lz_def buffer_kept_self intro!: block_decompressor.intro)

lemma stored_expands:
  assumes "length out \<le> 65536"
  shows "block_decompressor.expands (decompress_data failing_lz COMPRESSION_METHOD_ZBITMAP) (0xff # out) 65536 out"
proof -
  have zbitmap: "decompress_data failing_lz COMPRESSION_METHOD_ZBITMAP = marked_or 0xff zbitmap_decompress"
    by (simp add: decompress_data_def compression_methods)
  show ?thesis
    using assms unfolding zbitmap stored_zbitmap.expands_def
    by (simp add: marked_or_def copy_uncompressed_def SSIZE_MAX_def)
qed

theorem compressed_reads_refine_witness:
  "\<exists>h. compressed_data_handle_initialize None 3 COMPRESSION_METHOD_ZBITMAP = Inr h \<and>
    fst (run_requests (compressed_data_handle_read_segment_data failing_lz
          (stream_of (encode_compressed COMPRESSION_METHOD_ZBITMAP sample_blocks)) 0)
        (seek_at (compressed_data_handle_seek_segment_offset 0)) [Read 2, Seek 1, Read 2] h) =
      Inr (answers [1, 2, 3] 0 [Read 2, Seek 1, Read 2])"
proof -
  let ?m = COMPRESSION_METHOD_ZBITMAP
  obtain h where h: "compressed_data_handle_initialize None 3 ?m = Inr h"
    by (simp add: compressed_data_handle_initialize_def)
  have writable: "table_writable ?m sample_blocks"
    by (simp add: table_writable_def compression_methods sample_blocks_def encode_compressed_def encode_table_def)
  have serves: "stream_serves (stream_of data) data" for data by (simp add: stream_serves_def stream_of_def)
  have blocks: "i * 65536 < length [1, 2, 3 :: byte] \<Longrightarrow> i < length sample_blocks \<and>
      block_decompressor.expands (decompress_data failing_lz ?m) (sample_blocks ! i) 65536 (block_of [1, 2, 3] i)" for i
    using stored_expands [of "[1, 2, 3]"] by (cases i) (simp_all add: sample_blocks_def block_of_def)
  have "fst (run_requests (compressed_data_handle_read_segment_data failing_lz (stream_of (encode_compressed ?m sample_blocks)) 0)
        (seek_at (compressed_data_handle_seek_segment_offset 0)) [Read 2, Seek 1, Read 2] h) =
      Inr (answers [1, 2, 3] 0 [Read 2, Seek 1, Read 2])"
    by (rule compressed_reads_refine [where content = "[1, 2, 3]", OF _ writable serves failing_lz_laws _ blocks])
      (use h in \<open>simp_all add: numeral_3_eq_3\<close>)
  then show ?thesis using h by blast
qed

text \<open>C14. Whatever the compressed data is, and after any earlier reads
  and failures, a read returns at most what was asked for and never accesses memory outside the table
  of offsets or the two buffers of the handle, provided the stream returns no more than it is asked
  for.\<close>

theorem compressed_read_safe:
  assumes "stream_law stream" "lz_laws lz" "handle_ok h"
  shows "call_safe handle_ok (\<lambda>data. length data \<le> n) (compressed_data_handle_read_segment_data lz stream segment_index n h)"
  by (rule compressed_read_call_safe [OF assms])

theorem compressed_read_safe_witness:
  "call_safe handle_ok (\<lambda>data. length data \<le> 5) (compressed_data_handle_read_segment_data failing_lz
     \<lparr>stream_get_size = Inr 9, stream_read = (\<lambda>n i. Inl IO_READ_FAILED)\<rparr> 0 5
     \<lparr>current_segment_offset = 0, uncompressed_size = 3, compression_method = 1, current_compressed_block_index = 0,
       segment_data = Some (replicate 65536 0), segment_data_size = 0, number_of_compressed_blocks = 0, compressed_block_offsets = None\<rparr>)"
  by (rule compressed_read_safe [OF _ failing_lz_laws]) (simp_all add: stream_law_def handle_ok_def)

end
