(* ===== verification/Sealed_Extents.thy ===== *)
theory Sealed_Extents
  imports File_System_Btree "HOL-Library.Product_Lexorder" "HOL-Library.Multiset"
begin

text \<open>
  The sealed extent tree of a volume, \<open>libfsapfs_sealed_extent_tree.c\<close>: all extents of the tree are read
  into an array, which is sorted by identifier and logical offset and searched by bisection.
\<close>

section \<open>The tree\<close>

record sealed_extent_tree_entry =
  sealed_identifier :: nat
  sealed_logical_offset :: nat
  sealed_data_size :: nat
  sealed_physical_block_number :: nat

text \<open>The number of entries is the length of the array; the memory behind it is only counted.\<close>

record sealed_extent_tree =
  sealed_root_node_block_number :: nat
  sealed_entries :: "sealed_extent_tree_entry list"
  sealed_entries_capacity :: nat
  sealed_is_built :: bool

definition sealed_extent_tree_initialize :: "sealed_extent_tree option \<Rightarrow> nat \<Rightarrow> sealed_extent_tree result" where
  "sealed_extent_tree_initialize sealed_extent_tree block_number =
     (if sealed_extent_tree \<noteq> None then Inl RUNTIME_VALUE_ALREADY_SET
      else Inr \<lparr>sealed_root_node_block_number = block_number, sealed_entries = [], sealed_entries_capacity = 0,
        sealed_is_built = False\<rparr>)"

definition sealed_extent_tree_entry_compare :: "sealed_extent_tree_entry \<Rightarrow> sealed_extent_tree_entry \<Rightarrow> int" where
  "sealed_extent_tree_entry_compare entry1 entry2 =
     (if sealed_identifier entry1 < sealed_identifier entry2 then -1
      else if sealed_identifier entry1 > sealed_identifier entry2 then 1
      else if sealed_logical_offset entry1 < sealed_logical_offset entry2 then -1
      else if sealed_logical_offset entry1 > sealed_logical_offset entry2 then 1
      else 0)"

text \<open>
  The array of entries of 32 bytes grows to 1024 entries first and then to twice its capacity. A size of more than
  \<open>SSIZE_MAX\<close> bytes is not allocated; from 1024 on it is reached, with 2 to the power of 63, before the product of
  the size of an entry and the capacity wraps around.
\<close>

definition SEALED_ENTRY_SIZE :: nat where "SEALED_ENTRY_SIZE = 32"

definition sealed_extent_tree_append_entry ::
    "nat \<Rightarrow> nat \<Rightarrow> nat \<Rightarrow> nat \<Rightarrow> (sealed_extent_tree, unit) call" where
  "sealed_extent_tree_append_entry i logical_offset data_size physical_block_number tree =
     (let entry = \<lparr>sealed_identifier = i, sealed_logical_offset = logical_offset, sealed_data_size = data_size,
          sealed_physical_block_number = physical_block_number\<rparr>;
          capacity = sealed_entries_capacity tree;
          new_capacity = (if capacity = 0 then 1024 else capacity * 2)
      in if length (sealed_entries tree) \<ge> capacity then
           if capacity \<noteq> 0 \<and> capacity > SSIZE_MAX div 2 then (Inl RUNTIME_VALUE_OUT_OF_BOUNDS, tree)
           else if SEALED_ENTRY_SIZE * new_capacity > SSIZE_MAX then (Inl MEMORY_INSUFFICIENT, tree)
           else (Inr (), tree\<lparr>sealed_entries := sealed_entries tree @ [entry], sealed_entries_capacity := new_capacity\<rparr>)
         else (Inr (), tree\<lparr>sealed_entries := sealed_entries tree @ [entry]\<rparr>))"

section \<open>Reading the tree\<close>

text \<open>The block of a node, read without the cache of the other trees.\<close>

definition sealed_node_data :: "nat \<Rightarrow> file_io \<Rightarrow> nat \<Rightarrow> btree_node result" where
  "sealed_node_data block_size file_io_handle node_block_number =
     (if block_size = 0 then Inl RUNTIME_VALUE_OUT_OF_BOUNDS
      else
        bindR (read_buffer_at_offset file_io_handle ((node_block_number * block_size) mod 2 ^ 64) block_size) (\<lambda>node_data.
        bindR (btree_node_initialize None) (\<lambda>node.
          btree_node_read_data node node_data block_size)))"

definition sealed_key :: "btree_entry \<Rightarrow> (nat \<times> nat) result" where
  "sealed_key entry =
     (case key_data entry of
        None \<Rightarrow> Inl RUNTIME_VALUE_MISSING
      | Some key \<Rightarrow>
          if key_data_size entry < 16 then Inl RUNTIME_VALUE_OUT_OF_BOUNDS
          else bindR (rd_u64_le key 0) (\<lambda>i. bindR (rd_u64_le key 8) (\<lambda>logical_offset. Inr (i, logical_offset))))"

definition sealed_child :: "btree_entry \<Rightarrow> nat result" where
  "sealed_child entry =
     (case value_data entry of
        None \<Rightarrow> Inl RUNTIME_VALUE_MISSING
      | Some val \<Rightarrow> if value_data_size entry < 8 then Inl RUNTIME_VALUE_OUT_OF_BOUNDS else rd_u64_le val 0)"

definition sealed_extent :: "btree_entry \<Rightarrow> (nat \<times> nat) result" where
  "sealed_extent entry =
     (case value_data entry of
        None \<Rightarrow> Inl RUNTIME_VALUE_MISSING
      | Some val \<Rightarrow>
          if value_data_size entry < 16 then Inl RUNTIME_VALUE_OUT_OF_BOUNDS
          else bindR (rd_u32_le val 0) (\<lambda>data_size.
               bindR (rd_u64_le val 8) (\<lambda>physical_block_number. Inr (data_size, physical_block_number))))"

fun read_sealed_entries ::
    "(nat \<Rightarrow> (sealed_extent_tree, unit) call) \<Rightarrow> nat \<Rightarrow> btree_entry list \<Rightarrow> (sealed_extent_tree, unit) call" where
  "read_sealed_entries read_sub_node is_leaf_node [] = returnS ()"
| "read_sealed_entries read_sub_node is_leaf_node (entry # entries) =
     bindS (liftS (sealed_key entry)) (\<lambda>(i, logical_offset).
     bindS (if is_leaf_node = 0 then bindS (liftS (sealed_child entry)) read_sub_node
            else bindS (liftS (sealed_extent entry)) (\<lambda>(data_size, physical_block_number).
              sealed_extent_tree_append_entry i logical_offset data_size physical_block_number)) (\<lambda>_.
       read_sealed_entries read_sub_node is_leaf_node entries))"

text \<open>The levels that are left: 257 less the depth of the recursion.\<close>

primrec sealed_extent_tree_read_node :: "nat \<Rightarrow> file_io \<Rightarrow> nat \<Rightarrow> nat \<Rightarrow> (sealed_extent_tree, unit) call" where
  "sealed_extent_tree_read_node block_size file_io_handle 0 = (\<lambda>node_block_number. failS RUNTIME_VALUE_OUT_OF_BOUNDS)"
| "sealed_extent_tree_read_node block_size file_io_handle (Suc levels) = (\<lambda>node_block_number.
     bindS (liftS (sealed_node_data block_size file_io_handle node_block_number)) (\<lambda>node.
     bindS (liftS (btree_node_is_leaf_node node)) (\<lambda>is_leaf_node.
       read_sealed_entries (sealed_extent_tree_read_node block_size file_io_handle levels) is_leaf_node
         (entries_array node))))"

text \<open>
  The function \<open>qsort\<close> of the standard library is a parameter, because it does not say how it orders
  elements that compare equal.
\<close>

type_synonym sort_function =
  "(sealed_extent_tree_entry \<Rightarrow> sealed_extent_tree_entry \<Rightarrow> int) \<Rightarrow> sealed_extent_tree_entry list \<Rightarrow> sealed_extent_tree_entry list"

definition sealed_extent_tree_build :: "sort_function \<Rightarrow> nat \<Rightarrow> file_io \<Rightarrow> (sealed_extent_tree, unit) call" where
  "sealed_extent_tree_build qsort block_size file_io_handle tree =
     (if sealed_is_built tree then returnS () tree
      else if sealed_root_node_block_number tree = 0 then failS RUNTIME_VALUE_MISSING tree
      else
        bindS (sealed_extent_tree_read_node block_size file_io_handle (Suc MAXIMUM_BTREE_NODE_RECURSION_DEPTH)
            (sealed_root_node_block_number tree)) (\<lambda>_ tree.
          returnS () (tree\<lparr>sealed_entries := (if length (sealed_entries tree) > 1
              then qsort sealed_extent_tree_entry_compare (sealed_entries tree) else sealed_entries tree),
            sealed_is_built := True\<rparr>)) tree)"

section \<open>Lookup\<close>

text \<open>The number of entries up to the key, by bisection.\<close>

function sealed_bisect :: "sealed_extent_tree_entry list \<Rightarrow> nat \<Rightarrow> nat \<Rightarrow> nat \<Rightarrow> nat \<Rightarrow> nat result" where
  "sealed_bisect entries i logical_offset lower upper =
     (if lower < upper then
        let index = lower + (upper - lower) div 2
        in bindR (rd entries index) (\<lambda>entry.
             if sealed_identifier entry < i \<or> (sealed_identifier entry = i \<and> sealed_logical_offset entry \<le> logical_offset)
             then sealed_bisect entries i logical_offset (index + 1) upper
             else sealed_bisect entries i logical_offset lower index)
      else Inr lower)"
  by pat_completeness auto
termination by (relation "measure (\<lambda>(_, _, _, lower, upper). upper - lower)") auto

declare sealed_bisect.simps [simp del]

text \<open>A result of 0 is \<open>None\<close>; otherwise the block and how many bytes are left in the extent from the offset on.\<close>

definition sealed_extent_tree_lookup :: "nat \<Rightarrow> sealed_extent_tree \<Rightarrow> nat \<Rightarrow> nat \<Rightarrow> (nat \<times> nat) option result" where
  "sealed_extent_tree_lookup block_size tree i logical_offset =
     (if \<not> sealed_is_built tree then Inl RUNTIME_VALUE_MISSING
      else if sealed_entries tree = [] then Inr None
      else
        bindR (sealed_bisect (sealed_entries tree) i logical_offset 0 (length (sealed_entries tree))) (\<lambda>lower.
          if lower = 0 then Inr None
          else
            bindR (rd (sealed_entries tree) (lower - 1)) (\<lambda>entry.
              if sealed_identifier entry \<noteq> i then Inr None
              else if logical_offset < sealed_logical_offset entry \<or>
                      logical_offset - sealed_logical_offset entry \<ge> sealed_data_size entry then Inr None
              else if block_size = 0 then Inl RUNTIME_VALUE_OUT_OF_BOUNDS
              else if (logical_offset - sealed_logical_offset entry) mod block_size \<noteq> 0 then Inl RUNTIME_VALUE_OUT_OF_BOUNDS
              else Inr (Some ((sealed_physical_block_number entry + (logical_offset - sealed_logical_offset entry) div block_size) mod 2 ^ 64,
                     sealed_data_size entry - (logical_offset - sealed_logical_offset entry))))))"

text \<open>
  The sealed extent tree of a file system B-tree, created and built at its first use. A block number of 0
  says that there is none.
\<close>

definition file_system_btree_get_sealed_extent_tree ::
    "sort_function \<Rightarrow> nat \<Rightarrow> file_io \<Rightarrow> nat \<Rightarrow> (sealed_extent_tree option, sealed_extent_tree option) call" where
  "file_system_btree_get_sealed_extent_tree qsort block_size file_io_handle block_number sealed =
     (if block_number = 0 then returnS None sealed
      else
        case (case sealed of None \<Rightarrow> sealed_extent_tree_initialize None block_number | Some tree \<Rightarrow> Inr tree) of
          Inl e \<Rightarrow> (Inl e, sealed)
        | Inr tree \<Rightarrow>
            (case sealed_extent_tree_build qsort block_size file_io_handle tree of
               (Inl e, tree) \<Rightarrow> (Inl e, Some tree)
             | (Inr _, tree) \<Rightarrow> (Inr (Some tree), Some tree)))"

section \<open>What a lookup finds\<close>

text \<open>The extents of a tree, in the order in which they are read.\<close>

definition sealed_leaf_extent :: "btree_entry \<Rightarrow> sealed_extent_tree_entry option" where
  "sealed_leaf_extent entry =
     (case (sealed_key entry, sealed_extent entry) of
        (Inr (i, logical_offset), Inr (data_size, physical_block_number)) \<Rightarrow>
          Some \<lparr>sealed_identifier = i, sealed_logical_offset = logical_offset, sealed_data_size = data_size,
            sealed_physical_block_number = physical_block_number\<rparr>
      | _ \<Rightarrow> None)"

definition sealed_branch_child :: "btree_entry \<Rightarrow> nat option" where
  "sealed_branch_child entry =
     (case (sealed_key entry, sealed_child entry) of (Inr _, Inr child) \<Rightarrow> Some child | _ \<Rightarrow> None)"

primrec sealed_extents :: "nat \<Rightarrow> file_io \<Rightarrow> nat \<Rightarrow> nat \<Rightarrow> sealed_extent_tree_entry list option" where
  "sealed_extents block_size file_io_handle 0 = (\<lambda>node_block_number. None)"
| "sealed_extents block_size file_io_handle (Suc levels) = (\<lambda>node_block_number.
     case sealed_node_data block_size file_io_handle node_block_number of
       Inl _ \<Rightarrow> None
     | Inr node \<Rightarrow>
         (case btree_node_is_leaf_node node of
            Inl _ \<Rightarrow> None
          | Inr is_leaf_node \<Rightarrow>
              map_option concat (those (map (\<lambda>entry.
                if is_leaf_node = 0
                then Option.bind (sealed_branch_child entry) (sealed_extents block_size file_io_handle levels)
                else map_option (\<lambda>extent. [extent]) (sealed_leaf_extent entry)) (entries_array node)))))"

text \<open>The tree with more extents; the memory of the array may have grown.\<close>

definition extended_by :: "sealed_extent_tree \<Rightarrow> sealed_extent_tree_entry list \<Rightarrow> sealed_extent_tree \<Rightarrow> bool" where
  "extended_by tree es tree' \<longleftrightarrow> (\<exists>capacity. tree' = tree\<lparr>sealed_entries := sealed_entries tree @ es, sealed_entries_capacity := capacity\<rparr>)"

lemma extended_by_Nil [simp]: "extended_by tree [] tree"
  by (auto simp: extended_by_def intro: exI [of _ "sealed_entries_capacity tree"])

lemma extended_by_trans: "extended_by t xs t' \<Longrightarrow> extended_by t' ys t'' \<Longrightarrow> extended_by t (xs @ ys) t''"
  by (auto simp: extended_by_def)

lemma extended_by_length: "extended_by t xs t' \<Longrightarrow> length (sealed_entries t') = length (sealed_entries t) + length xs"
  by (auto simp: extended_by_def)

lemma append_entry_extends:
  assumes "length (sealed_entries tree) \<le> SSIZE_MAX div 64"
  shows "\<exists>tree'. sealed_extent_tree_append_entry i l n p tree = (Inr (), tree') \<and>
    extended_by tree [\<lparr>sealed_identifier = i, sealed_logical_offset = l, sealed_data_size = n, sealed_physical_block_number = p\<rparr>] tree'"
  using assms by (auto simp: sealed_extent_tree_append_entry_def Let_def extended_by_def SEALED_ENTRY_SIZE_def SSIZE_MAX_def)
    (auto intro!: exI [of _ "sealed_entries_capacity tree"])

lemma read_sealed_entries_extends:
  assumes "those (map (\<lambda>entry. if leaf = 0 then Option.bind (sealed_branch_child entry) extents
      else map_option (\<lambda>extent. [extent]) (sealed_leaf_extent entry)) entries) = Some ess"
    and "\<And>b es tree. extents b = Some es \<Longrightarrow> length (sealed_entries tree) + length es \<le> SSIZE_MAX div 64 \<Longrightarrow>
      \<exists>tree'. read_sub_node b tree = (Inr (), tree') \<and> extended_by tree es tree'"
    and "length (sealed_entries tree) + length (concat ess) \<le> SSIZE_MAX div 64"
  shows "\<exists>tree'. read_sealed_entries read_sub_node leaf entries tree = (Inr (), tree') \<and> extended_by tree (concat ess) tree'"
  using assms(1,3)
proof (induction entries arbitrary: ess tree)
  case (Cons e entries)
  obtain es ess' where es: "(if leaf = 0 then Option.bind (sealed_branch_child e) extents
      else map_option (\<lambda>extent. [extent]) (sealed_leaf_extent e)) = Some es"
    and ess': "those (map (\<lambda>entry. if leaf = 0 then Option.bind (sealed_branch_child entry) extents
      else map_option (\<lambda>extent. [extent]) (sealed_leaf_extent entry)) entries) = Some ess'" "ess = es # ess'"
    using Cons.prems(1) by (auto split: option.splits)
  have len: "length (sealed_entries tree) + length es \<le> SSIZE_MAX div 64" using Cons.prems(2) ess'(2) by simp
  obtain i l where key: "sealed_key e = Inr (i, l)"
    using es by (auto simp: sealed_branch_child_def sealed_leaf_extent_def split: if_splits option.splits sum.splits)
  have "\<exists>tree'. (if leaf = 0 then bindS (liftS (sealed_child e)) read_sub_node
            else bindS (liftS (sealed_extent e)) (\<lambda>(data_size, physical_block_number).
              sealed_extent_tree_append_entry i l data_size physical_block_number)) tree = (Inr (), tree') \<and> extended_by tree es tree'"
  proof (cases "leaf = 0")
    case True
    then obtain b where "sealed_child e = Inr b" "extents b = Some es"
      using es by (auto simp: sealed_branch_child_def bind_eq_Some_conv split: sum.splits)
    then show ?thesis using True assms(2) [OF _ len] by simp
  next
    case False
    then obtain n p where "sealed_extent e = Inr (n, p)" "es = [\<lparr>sealed_identifier = i, sealed_logical_offset = l,
        sealed_data_size = n, sealed_physical_block_number = p\<rparr>]"
      using es key by (auto simp: sealed_leaf_extent_def split: sum.splits)
    then show ?thesis using False append_entry_extends [of tree i l n p] len by simp
  qed
  then obtain tree' where step: "(if leaf = 0 then bindS (liftS (sealed_child e)) read_sub_node
            else bindS (liftS (sealed_extent e)) (\<lambda>(data_size, physical_block_number).
              sealed_extent_tree_append_entry i l data_size physical_block_number)) tree = (Inr (), tree')"
    and ext: "extended_by tree es tree'" by blast
  have "length (sealed_entries tree') + length (concat ess') \<le> SSIZE_MAX div 64"
    using Cons.prems(2) ess'(2) extended_by_length [OF ext] by simp
  from Cons.IH [OF ess'(1) this] obtain tree'' where tail: "read_sealed_entries read_sub_node leaf entries tree' = (Inr (), tree'')"
    "extended_by tree' (concat ess') tree''" by blast
  have "read_sealed_entries read_sub_node leaf (e # entries) tree = (Inr (), tree'')"
    by (simp add: key bindS_eq(1) [where m = "if leaf = 0 then _ else _", OF step] tail(1))
  then show ?case using extended_by_trans [OF ext tail(2)] ess'(2) by auto
qed simp

lemma read_node_extends:
  assumes "sealed_extents block_size f levels b = Some es" "levels \<le> levels'"
    and "length (sealed_entries tree) + length es \<le> SSIZE_MAX div 64"
  shows "\<exists>tree'. sealed_extent_tree_read_node block_size f levels' b tree = (Inr (), tree') \<and> extended_by tree es tree'"
  using assms
proof (induction levels arbitrary: levels' b es tree)
  case (Suc levels)
  obtain m where m: "levels' = Suc m" "levels \<le> m" using Suc.prems(2) by (cases levels') auto
  from Suc.prems(1) obtain node leaf ess where node: "sealed_node_data block_size f b = Inr node"
      "btree_node_is_leaf_node node = Inr leaf"
    and ess: "those (map (\<lambda>entry. if leaf = 0 then Option.bind (sealed_branch_child entry) (sealed_extents block_size f levels)
      else map_option (\<lambda>extent. [extent]) (sealed_leaf_extent entry)) (entries_array node)) = Some ess" "es = concat ess"
    by (auto split: sum.splits)
  show ?case
    using read_sealed_entries_extends [OF ess(1), of "sealed_extent_tree_read_node block_size f m" tree] Suc.IH [OF _ m(2)]
      Suc.prems(3) ess(2) node m(1) by simp
qed simp

text \<open>Extents are ordered by their key.\<close>

definition extent_key :: "sealed_extent_tree_entry \<Rightarrow> nat \<times> nat" where
  "extent_key e = (sealed_identifier e, sealed_logical_offset e)"

lemma compare_key: "sealed_extent_tree_entry_compare x y \<le> 0 \<longleftrightarrow> extent_key x \<le> extent_key y"
  by (auto simp: sealed_extent_tree_entry_compare_def extent_key_def)

definition sorts :: "sort_function \<Rightarrow> bool" where
  "sorts qsort \<longleftrightarrow> (\<forall>xs. mset (qsort sealed_extent_tree_entry_compare xs) = mset xs \<and>
     sorted_wrt (\<lambda>x y. sealed_extent_tree_entry_compare x y \<le> 0) (qsort sealed_extent_tree_entry_compare xs))"

lemma below_key:
  "sealed_identifier e < i \<or> (sealed_identifier e = i \<and> sealed_logical_offset e \<le> l) \<longleftrightarrow> extent_key e \<le> (i, l)"
  by (auto simp: extent_key_def)

lemma sealed_bisect_end [simp]: "sealed_bisect es i l k k = Inr k"
  by (simp add: sealed_bisect.simps [of es i l k k])

lemma sealed_bisect_step:
  assumes "lower < upper" "upper \<le> length es"
  shows "sealed_bisect es i l lower upper =
    (let index = lower + (upper - lower) div 2
     in if extent_key (es ! index) \<le> (i, l) then sealed_bisect es i l (index + 1) upper else sealed_bisect es i l lower index)"
proof -
  have "lower + (upper - lower) div 2 < length es" using assms by linarith
  then show ?thesis
    using assms(1) by (simp only: sealed_bisect.simps [of es i l lower upper] below_key Let_def if_True rd_Inr bindR_simps)
qed

lemma sealed_bisect_between:
  assumes "lower \<le> upper" "upper \<le> length es"
  shows "\<exists>m. sealed_bisect es i l lower upper = Inr m \<and> lower \<le> m \<and> m \<le> upper"
  using assms
proof (induction "upper - lower" arbitrary: lower upper rule: less_induct)
  case less
  show ?case
  proof (cases "lower < upper")
    case True
    let ?index = "lower + (upper - lower) div 2"
    have index: "lower \<le> ?index" "?index < upper" "upper - (?index + 1) < upper - lower" "?index - lower < upper - lower"
      "?index + 1 \<le> upper" "?index \<le> length es"
      using True less.prems(2) by linarith+
    obtain m where "sealed_bisect es i l (?index + 1) upper = Inr m" "?index + 1 \<le> m" "m \<le> upper"
      using less.hyps [OF index(3,5) less.prems(2)] by blast
    moreover obtain n where "sealed_bisect es i l lower ?index = Inr n" "lower \<le> n" "n \<le> ?index"
      using less.hyps [OF index(4,1,6)] by blast
    ultimately show ?thesis
      using index by (auto simp: sealed_bisect_step [OF True less.prems(2)] Let_def)
  qed (use less.prems(1) in simp)
qed

lemma sealed_bisect_correct:
  assumes "sorted_wrt (\<lambda>x y. extent_key x \<le> extent_key y) es" "lower \<le> upper" "upper \<le> length es"
    and "\<forall>j<lower. extent_key (es ! j) \<le> (i, l)" "\<forall>j. upper \<le> j \<and> j < length es \<longrightarrow> (i, l) < extent_key (es ! j)"
  shows "\<exists>m\<le>length es. sealed_bisect es i l lower upper = Inr m \<and> (\<forall>j<m. extent_key (es ! j) \<le> (i, l)) \<and>
    (\<forall>j. m \<le> j \<and> j < length es \<longrightarrow> (i, l) < extent_key (es ! j))"
  using assms(2-5)
proof (induction "upper - lower" arbitrary: lower upper rule: less_induct)
  case less
  have sorted: "extent_key (es ! j) \<le> extent_key (es ! k)" if "j \<le> k" "k < length es" for j k
    using sorted_wrt_nth_less [OF assms(1), of j k] that by (cases "j = k") auto
  show ?case
  proof (cases "lower < upper")
    case True
    let ?index = "lower + (upper - lower) div 2"
    have index: "lower \<le> ?index" "?index + 1 \<le> upper" "?index < length es" "upper - (?index + 1) < upper - lower"
      "?index - lower < upper - lower" "?index \<le> length es"
      using True less.prems(2) by linarith+
    show ?thesis
    proof (cases "extent_key (es ! ?index) \<le> (i, l)")
      case below: True
      have "\<forall>j<?index + 1. extent_key (es ! j) \<le> (i, l)"
        using sorted [OF _ index(3)] below order_trans by (metis Suc_eq_plus1 less_Suc_eq_le)
      then show ?thesis
        unfolding sealed_bisect_step [OF True less.prems(2)] Let_def if_P [OF below]
        by (rule less.hyps [OF index(4,2) less.prems(2) _ less.prems(4)])
    next
      case above: False
      have "\<forall>j. ?index \<le> j \<and> j < length es \<longrightarrow> (i, l) < extent_key (es ! j)"
        using sorted [of ?index] above by (meson leI le_less_trans not_le)
      then show ?thesis
        unfolding sealed_bisect_step [OF True less.prems(2)] Let_def if_not_P [OF above]
        by (rule less.hyps [OF index(5,1,6) less.prems(3)])
    qed
  next
    case False
    then show ?thesis using less.prems by auto
  qed
qed

text \<open>The specification of a lookup: the extent that covers the offset.\<close>

definition covers :: "nat \<Rightarrow> nat \<Rightarrow> sealed_extent_tree_entry \<Rightarrow> bool" where
  "covers i l e \<longleftrightarrow> sealed_identifier e = i \<and> sealed_logical_offset e \<le> l \<and> l < sealed_logical_offset e + sealed_data_size e"

definition sealed_mapping :: "nat \<Rightarrow> sealed_extent_tree_entry list \<Rightarrow> nat \<Rightarrow> nat \<Rightarrow> (nat \<times> nat) option result" where
  "sealed_mapping block_size es i l =
     (case find (covers i l) es of
        None \<Rightarrow> Inr None
      | Some e \<Rightarrow>
          if (l - sealed_logical_offset e) mod block_size \<noteq> 0 then Inl RUNTIME_VALUE_OUT_OF_BOUNDS
          else Inr (Some ((sealed_physical_block_number e + (l - sealed_logical_offset e) div block_size) mod 2 ^ 64,
            sealed_data_size e - (l - sealed_logical_offset e))))"

definition extents_disjoint :: "sealed_extent_tree_entry list \<Rightarrow> bool" where
  "extents_disjoint es \<longleftrightarrow> distinct (map extent_key es) \<and>
     (\<forall>x\<in>set es. \<forall>y\<in>set es. sealed_identifier x = sealed_identifier y \<and> sealed_logical_offset x < sealed_logical_offset y \<longrightarrow>
        sealed_logical_offset x + sealed_data_size x \<le> sealed_logical_offset y)"

lemma extents_disjointD:
  "extents_disjoint es \<Longrightarrow> x \<in> set es \<Longrightarrow> y \<in> set es \<Longrightarrow> sealed_identifier x = sealed_identifier y \<Longrightarrow>
     sealed_logical_offset x < sealed_logical_offset y \<Longrightarrow>
     sealed_logical_offset x + sealed_data_size x \<le> sealed_logical_offset y"
  by (simp add: extents_disjoint_def)

lemma covers_unique:
  assumes "extents_disjoint es" "x \<in> set es" "y \<in> set es" "covers i l x" "covers i l y"
  shows "x = y"
proof -
  have "\<not> sealed_logical_offset x < sealed_logical_offset y"
    using extents_disjointD [OF assms(1,2,3)] assms(4,5) by (auto simp: covers_def)
  moreover have "\<not> sealed_logical_offset y < sealed_logical_offset x"
    using extents_disjointD [OF assms(1,3,2)] assms(4,5) by (auto simp: covers_def)
  ultimately have "extent_key x = extent_key y" using assms(4,5) by (auto simp: covers_def extent_key_def)
  then show ?thesis using assms(1-3) by (auto simp: extents_disjoint_def distinct_map dest: inj_onD)
qed

lemma find_covers:
  assumes "extents_disjoint es" "e \<in> set es" "covers i l e"
  shows "find (covers i l) es = Some e"
proof -
  obtain e' where e': "find (covers i l) es = Some e'"
    using assms(2,3) by (cases "find (covers i l) es") (auto simp: find_None_iff)
  then have "e' \<in> set es" "covers i l e'" by (auto simp: find_Some_iff)
  with covers_unique [OF assms(1) this(1) assms(2) this(2) assms(3)] e' show ?thesis by simp
qed

lemma sealed_lookup_sorted:
  assumes "sorted_wrt (\<lambda>x y. extent_key x \<le> extent_key y) (sealed_entries tree)" "sealed_is_built tree" "block_size > 0"
    and "extents_disjoint (sealed_entries tree)"
  shows "sealed_extent_tree_lookup block_size tree i l = sealed_mapping block_size (sealed_entries tree) i l"
proof -
  let ?xs = "sealed_entries tree"
  obtain m where m: "m \<le> length ?xs" "sealed_bisect ?xs i l 0 (length ?xs) = Inr m"
      "\<forall>j<m. extent_key (?xs ! j) \<le> (i, l)" "\<forall>j. m \<le> j \<and> j < length ?xs \<longrightarrow> (i, l) < extent_key (?xs ! j)"
  proof -
    have "\<exists>m\<le>length ?xs. sealed_bisect ?xs i l 0 (length ?xs) = Inr m \<and> (\<forall>j<m. extent_key (?xs ! j) \<le> (i, l)) \<and>
      (\<forall>j. m \<le> j \<and> j < length ?xs \<longrightarrow> (i, l) < extent_key (?xs ! j))"
      by (rule sealed_bisect_correct [OF assms(1)]) auto
    then show thesis using that by blast
  qed
  have at_last: "j = m - 1 \<and> 0 < m" if "j < length ?xs" "covers i l (?xs ! j)" for j
  proof -
    have key: "extent_key (?xs ! j) \<le> (i, l)" using that(2) by (auto simp: covers_def extent_key_def)
    have "j < m"
    proof (rule ccontr)
      assume "\<not> j < m"
      then have "(i, l) < extent_key (?xs ! j)" using m(4) that(1) by simp
      then show False using key by (simp add: leD)
    qed
    moreover have False if less: "j < m - 1"
    proof -
      have key: "extent_key (?xs ! j) \<le> extent_key (?xs ! (m - 1))" "extent_key (?xs ! (m - 1)) \<le> (i, l)"
        using sorted_wrt_nth_less [OF assms(1) less] less m(1,3) by auto
      have mem: "?xs ! j \<in> set ?xs" "?xs ! (m - 1) \<in> set ?xs" using less m(1) by (auto intro: nth_mem)
      have i: "sealed_identifier (?xs ! (m - 1)) = i" using key \<open>covers i l (?xs ! j)\<close> by (auto simp: covers_def extent_key_def)
      have "extent_key (?xs ! j) \<noteq> extent_key (?xs ! (m - 1))"
        using assms(4) less m(1) nth_eq_iff_index_eq [of "map extent_key ?xs" j "m - 1"] by (auto simp: extents_disjoint_def)
      then have "sealed_logical_offset (?xs ! j) < sealed_logical_offset (?xs ! (m - 1))"
        using key \<open>covers i l (?xs ! j)\<close> i by (auto simp: covers_def extent_key_def)
      then have "sealed_logical_offset (?xs ! j) + sealed_data_size (?xs ! j) \<le> sealed_logical_offset (?xs ! (m - 1))"
        using extents_disjointD [OF assms(4) mem] i \<open>covers i l (?xs ! j)\<close> by (simp add: covers_def)
      then show False using \<open>covers i l (?xs ! j)\<close> key(2) i by (auto simp: covers_def extent_key_def)
    qed
    ultimately show ?thesis by force
  qed
  show ?thesis
  proof (cases "\<exists>e\<in>set ?xs. covers i l e")
    case True
    then obtain j where j: "j < length ?xs" "covers i l (?xs ! j)" by (auto simp: in_set_conv_nth)
    have "find (covers i l) ?xs = Some (?xs ! j)" by (rule find_covers [OF assms(4) nth_mem [OF j(1)] j(2)])
    then show ?thesis
      using at_last [OF j] j m(2) assms(2,3) by (auto simp: sealed_extent_tree_lookup_def sealed_mapping_def covers_def)
  next
    case False
    then have none: "find (covers i l) ?xs = None" by (simp add: find_None_iff)
    have "\<not> covers i l (?xs ! (m - 1))" if "0 < m" using False m(1) that by (force intro: nth_mem)
    then show ?thesis
      using m(1,2) assms(2,3) none by (auto simp: sealed_extent_tree_lookup_def sealed_mapping_def covers_def rd_def)
  qed
qed

lemma sealed_mapping_mset:
  assumes "extents_disjoint es" "mset xs = mset es"
  shows "extents_disjoint xs" "sealed_mapping block_size xs i l = sealed_mapping block_size es i l"
proof -
  have set: "set xs = set es" using assms(2) by (metis set_mset_mset)
  have "distinct (map extent_key xs) = distinct (map extent_key es)"
    using assms(2) by (metis mset_eq_imp_distinct_iff mset_map)
  then show disjoint: "extents_disjoint xs" using assms(1) set by (simp add: extents_disjoint_def)
  have "find (covers i l) xs = find (covers i l) es"
  proof (cases "find (covers i l) es")
    case None
    then have "find (covers i l) xs = None" using set by (simp add: find_None_iff)
    with None show ?thesis by simp
  next
    case (Some e)
    then have "e \<in> set es" "covers i l e" by (auto simp: find_Some_iff)
    then show ?thesis using find_covers [OF disjoint] set Some by simp
  qed
  then show "sealed_mapping block_size xs i l = sealed_mapping block_size es i l" by (simp add: sealed_mapping_def)
qed

lemma sealed_extents_block_size: "sealed_extents block_size f levels b = Some es \<Longrightarrow> 0 < block_size"
  by (cases levels; cases "block_size = 0") (auto simp: sealed_node_data_def)

lemma sealed_tree_built:
  assumes "sealed_extents block_size f levels b = Some es" "levels \<le> Suc MAXIMUM_BTREE_NODE_RECURSION_DEPTH"
    and "b \<noteq> 0" "length es \<le> SSIZE_MAX div 64" "sorts qsort"
  shows "\<exists>tree. file_system_btree_get_sealed_extent_tree qsort block_size f b None = (Inr (Some tree), Some tree) \<and>
    sealed_is_built tree \<and> mset (sealed_entries tree) = mset es \<and>
    sorted_wrt (\<lambda>x y. extent_key x \<le> extent_key y) (sealed_entries tree)"
proof -
  let ?tree = "\<lparr>sealed_root_node_block_number = b, sealed_entries = [], sealed_entries_capacity = 0, sealed_is_built = False\<rparr>"
  obtain capacity where read: "sealed_extent_tree_read_node block_size f (Suc MAXIMUM_BTREE_NODE_RECURSION_DEPTH) b ?tree =
      (Inr (), ?tree\<lparr>sealed_entries := es, sealed_entries_capacity := capacity\<rparr>)"
    using read_node_extends [OF assms(1,2), of ?tree] assms(4) by (auto simp: extended_by_def)
  let ?sorted = "if length es > 1 then qsort sealed_extent_tree_entry_compare es else es"
  have "sealed_extent_tree_build qsort block_size f ?tree = (Inr (), ?tree\<lparr>sealed_entries := ?sorted,
      sealed_entries_capacity := capacity, sealed_is_built := True\<rparr>)"
    using assms(3) by (simp add: sealed_extent_tree_build_def bindS_eq(1) [where m = "sealed_extent_tree_read_node block_size f (Suc MAXIMUM_BTREE_NODE_RECURSION_DEPTH) b", OF read] del: sealed_extent_tree_read_node.simps)
  moreover have "mset ?sorted = mset es" "sorted_wrt (\<lambda>x y. extent_key x \<le> extent_key y) ?sorted"
    using assms(5) by (auto simp: sorts_def compare_key [abs_def] intro: sorted_wrt01)
  ultimately show ?thesis using assms(3) by (simp add: file_system_btree_get_sealed_extent_tree_def sealed_extent_tree_initialize_def)
qed

section \<open>Safety\<close>

lemma sealed_node_data_read_node:
  "block_size \<noteq> 0 \<Longrightarrow> sealed_node_data block_size f b = read_node (\<lambda>b. bindR (read_buffer_at_offset f ((b * block_size) mod 2 ^ 64) block_size)
     (\<lambda>data. Inr (Some data))) b"
  unfolding sealed_node_data_def read_node_def
  by (cases "f ((b * block_size) mod 2 ^ 64) block_size") (auto simp: read_buffer_at_offset_def)

lemma sealed_node_data_safe:
  assumes "\<And>i n. safe (f i n)"
  shows "post lib_error block_node (sealed_node_data block_size f b)"
proof (cases "block_size = 0")
  case False
  have "safe (read_buffer_at_offset f i n)" for i n
    unfolding read_buffer_at_offset_def using assms by (intro safe_bindR) auto
  then have "safe (sealed_node_data block_size f b)"
    unfolding sealed_node_data_read_node [OF False] by (intro read_node_safe safe_bindR) auto
  moreover have "block_node n" if "sealed_node_data block_size f b = Inr n" for n
    using that unfolding sealed_node_data_read_node [OF False] by (rule read_node_block_node)
  ultimately show ?thesis by (cases "sealed_node_data block_size f b") (auto simp: lib_error_def)
qed (simp add: sealed_node_data_def)

lemma call_safe_lifted:
  assumes "valid s" "post lib_error P r" "\<And>x. P x \<Longrightarrow> call_safe valid Q (k x s)"
  shows "call_safe valid Q (bindS (liftS r) k s)"
  using assms by (cases r) simp_all

abbreviation sealed_safe :: "'a result \<times> sealed_extent_tree \<Rightarrow> bool" where
  "sealed_safe \<equiv> call_safe (\<lambda>_. True) (\<lambda>_. True)"

lemma read_sealed_entries_safe:
  assumes "\<And>b tree. sealed_safe (read_sub_node b tree)"
    and "\<forall>e\<in>set entries. (\<forall>k. key_data e = Some k \<longrightarrow> length k = key_data_size e) \<and> (\<forall>v. value_data e = Some v \<longrightarrow> length v = value_data_size e)"
  shows "sealed_safe (read_sealed_entries read_sub_node leaf entries tree)"
  using assms(2)
proof (induction entries arbitrary: tree)
  case (Cons e entries)
  have key: "post lib_error (\<lambda>_. True) (sealed_key e)" and child: "post lib_error (\<lambda>_. True) (sealed_child e)"
    and extent: "post lib_error (\<lambda>_. True) (sealed_extent e)"
    using Cons.prems by (auto simp: sealed_key_def sealed_child_def sealed_extent_def rd_le_def split: option.split)
  have append: "sealed_safe (sealed_extent_tree_append_entry i l n p tree)" for i l n p tree
    by (simp add: sealed_extent_tree_append_entry_def Let_def)
  have step: "sealed_safe ((if leaf = 0 then bindS (liftS (sealed_child e)) read_sub_node
            else bindS (liftS (sealed_extent e)) (\<lambda>(data_size, physical_block_number).
              sealed_extent_tree_append_entry i l data_size physical_block_number)) tree)" for i l tree
  proof (cases "leaf = 0")
    case True
    show ?thesis unfolding if_P [OF True] by (rule call_safe_lifted [OF _ child]) (auto intro: assms(1))
  next
    case False
    show ?thesis unfolding if_not_P [OF False] by (rule call_safe_lifted [OF _ extent]) (auto intro: append)
  qed
  show ?case
    unfolding read_sealed_entries.simps
  proof (rule call_safe_lifted, rule TrueI, rule key)
    fix x :: "nat \<times> nat"
    obtain i l where x: "x = (i, l)" by (cases x)
    show "sealed_safe ((case x of (i, logical_offset) \<Rightarrow>
        bindS (if leaf = 0 then bindS (liftS (sealed_child e)) read_sub_node
            else bindS (liftS (sealed_extent e)) (\<lambda>(data_size, physical_block_number).
              sealed_extent_tree_append_entry i logical_offset data_size physical_block_number)) (\<lambda>_.
          read_sealed_entries read_sub_node leaf entries)) tree)"
      unfolding x prod.case by (rule call_safe_bindS, rule step) (use Cons in simp)
  qed
qed simp

lemma sealed_read_node_safe:
  assumes "\<And>i n. safe (f i n)"
  shows "sealed_safe (sealed_extent_tree_read_node block_size f levels b tree)"
proof (induction levels arbitrary: b tree)
  case (Suc levels)
  show ?case
    unfolding sealed_extent_tree_read_node.simps
  proof (rule call_safe_lifted, rule TrueI, rule sealed_node_data_safe, rule assms)
    fix node
    assume node: "block_node node"
    then obtain leaf where leaf: "btree_node_is_leaf_node node = Inr leaf"
      by (auto simp: block_node_def btree_node_is_leaf_node_def)
    show "sealed_safe (bindS (liftS (btree_node_is_leaf_node node)) (\<lambda>is_leaf_node.
        read_sealed_entries (sealed_extent_tree_read_node block_size f levels) is_leaf_node (entries_array node)) tree)"
      using node unfolding leaf bindS_simps by (intro read_sealed_entries_safe Suc.IH) (simp add: block_node_def)
  qed
qed simp

lemma sealed_lookup_safe: "safe (sealed_extent_tree_lookup block_size tree i l)"
proof -
  obtain m where "sealed_bisect (sealed_entries tree) i l 0 (length (sealed_entries tree)) = Inr m" "m \<le> length (sealed_entries tree)"
    using sealed_bisect_between [of 0 "length (sealed_entries tree)" "sealed_entries tree" i l] by auto
  then show ?thesis by (auto simp: sealed_extent_tree_lookup_def rd_def)
qed

lemma sealed_tree_safe:
  assumes "\<And>i n. safe (f i n)"
  shows "post lib_error (\<lambda>r. b = 0 \<longleftrightarrow> r = None) (fst (file_system_btree_get_sealed_extent_tree qsort block_size f b sealed))"
proof -
  have build: "sealed_safe (sealed_extent_tree_build qsort block_size f tree)" for tree
  proof -
    have "sealed_safe (bindS (sealed_extent_tree_read_node block_size f levels b) (\<lambda>_ tree. returnS () (g tree)) tree)" for levels b g
      by (rule call_safe_bindS, rule sealed_read_node_safe [OF assms]) simp
    then show ?thesis by (simp add: sealed_extent_tree_build_def del: sealed_extent_tree_read_node.simps)
  qed
  have get: "post lib_error (\<lambda>r. r \<noteq> None) (fst (case sealed_extent_tree_build qsort block_size f tree of
      (Inl e, tree) \<Rightarrow> (Inl e, Some tree) | (Inr _, tree) \<Rightarrow> (Inr (Some tree), Some tree)))" for tree
    using build [of tree] by (cases "sealed_extent_tree_build qsort block_size f tree") (auto split: sum.split)
  show ?thesis
    using get by (auto simp: file_system_btree_get_sealed_extent_tree_def sealed_extent_tree_initialize_def split: option.split)
qed

section \<open>Properties\<close>

definition sample_sealed_footer :: btree_footer where
  "sample_sealed_footer = \<lparr>footer_flags = 0, node_size = 209, key_size = 16, value_size = 16,
     maximum_key_size = 16, maximum_value_size = 16\<rparr>"

definition sample_sealed_kvs :: "(bytes \<times> bytes) list" where
  "sample_sealed_kvs = [(le_encode 8 20 @ le_encode 8 418, le_encode 4 100 @ le_encode 4 0 @ le_encode 8 70),
     (le_encode 8 20 @ le_encode 8 0, le_encode 4 418 @ le_encode 4 0 @ le_encode 8 50)]"

definition sample_sealed_data :: bytes where
  "sample_sealed_data = encode_node 0x40000002 0x1f 7 0 41 sample_sealed_kvs (Some sample_sealed_footer)"

definition sample_sealed_io :: file_io where
  "sample_sealed_io i n = (if i = 209 then Inr (take n sample_sealed_data) else Inl IO_READ_FAILED)"

definition sample_sort :: sort_function where
  "sample_sort cmp = sort_key extent_key"

lemma sample_sorts: "sorts sample_sort"
  using sorted_sort_key [of extent_key] by (simp add: sorts_def sample_sort_def compare_key sorted_map)

definition sample_sealed_extents :: "sealed_extent_tree_entry list" where
  "sample_sealed_extents = [\<lparr>sealed_identifier = 20, sealed_logical_offset = 418, sealed_data_size = 100, sealed_physical_block_number = 70\<rparr>,
     \<lparr>sealed_identifier = 20, sealed_logical_offset = 0, sealed_data_size = 418, sealed_physical_block_number = 50\<rparr>]"

lemma sample_sealed_tree: "sealed_extents 209 sample_sealed_io (Suc 0) 1 = Some sample_sealed_extents"
proof -
  have writable: "node_writable 0x40000002 0x1f 7 0 41 sample_sealed_kvs (Some sample_sealed_footer)"
    by (simp add: node_writable_def sizes_allowed_def sample_sealed_kvs_def sample_sealed_footer_def
        encode_node_def encode_footer_option_def encode_location_def)
  have data: "length sample_sealed_data = 209"
    by (simp add: sample_sealed_data_def encode_node_def encode_footer_option_def sample_sealed_kvs_def encode_location_def)
  obtain m where m: "btree_node_initialize None = Inr m" "node_header m = None" "footer m = None" "entries_array m = []"
    by (simp add: btree_node_initialize_def)
  have "btree_node_read_data m sample_sealed_data 209 =
      Inr (node_of 0x40000002 0x1f 7 0 41 sample_sealed_kvs (Some sample_sealed_footer))"
    using btree_node_read_encoded [OF writable sample_sealed_data_def m(2-4)] data by simp
  then have node: "sealed_node_data 209 sample_sealed_io 1 =
      Inr (node_of 0x40000002 0x1f 7 0 41 sample_sealed_kvs (Some sample_sealed_footer))"
    using data m(1) by (simp add: sealed_node_data_def read_buffer_at_offset_def sample_sealed_io_def)
  have "btree_node_is_leaf_node (node_of 0x40000002 0x1f 7 0 41 sample_sealed_kvs (Some sample_sealed_footer)) = Inr 2"
    by (simp add: btree_node_is_leaf_node_def node_of_def header_of_def)
  then show ?thesis
    by (simp add: node [simplified] node_of_def sample_sealed_kvs_def sample_sealed_extents_def sealed_leaf_extent_def
        sealed_key_def sealed_extent_def entry_of_def rd_le_def)
qed

text \<open>C25. The sealed extent tree, of as many extents as memory can hold (the bound
  is 2 to the power of 57), is built from all its nodes, whatever \<open>qsort\<close> does with equal elements, and kept. A lookup in it gives the block of an offset and the bytes that
  are left in the extent that covers it, nothing when no extent does, and an error when the offset is
  not at a block of its extent.\<close>

theorem sealed_extent_lookup_correct:
  assumes "sealed_extents block_size f levels b = Some es" "levels \<le> Suc MAXIMUM_BTREE_NODE_RECURSION_DEPTH"
    and "b \<noteq> 0" "length es \<le> SSIZE_MAX div 64" "sorts qsort" "extents_disjoint es"
  shows "\<exists>tree. file_system_btree_get_sealed_extent_tree qsort block_size f b None = (Inr (Some tree), Some tree) \<and>
    file_system_btree_get_sealed_extent_tree qsort block_size f b (Some tree) = (Inr (Some tree), Some tree) \<and>
    (\<forall>i l. sealed_extent_tree_lookup block_size tree i l = sealed_mapping block_size es i l)"
proof -
  obtain tree where tree: "file_system_btree_get_sealed_extent_tree qsort block_size f b None = (Inr (Some tree), Some tree)"
      "sealed_is_built tree" "mset (sealed_entries tree) = mset es"
      "sorted_wrt (\<lambda>x y. extent_key x \<le> extent_key y) (sealed_entries tree)"
    using sealed_tree_built [OF assms(1-5)] by blast
  have "file_system_btree_get_sealed_extent_tree qsort block_size f b (Some tree) = (Inr (Some tree), Some tree)"
    using assms(3) tree(2) by (simp add: file_system_btree_get_sealed_extent_tree_def sealed_extent_tree_build_def)
  then show ?thesis
    using tree(1) sealed_lookup_sorted [OF tree(4,2) sealed_extents_block_size [OF assms(1)]] sealed_mapping_mset [OF assms(6) tree(3)]
    by auto
qed

theorem sealed_extent_lookup_correct_witness:
  "\<exists>tree. file_system_btree_get_sealed_extent_tree sample_sort 209 sample_sealed_io 1 None = (Inr (Some tree), Some tree) \<and>
    sealed_extent_tree_lookup 209 tree 20 209 = Inr (Some (51, 209)) \<and> sealed_extent_tree_lookup 209 tree 21 0 = Inr None"
proof -
  have "sealed_mapping 209 sample_sealed_extents 20 209 = Inr (Some (51, 209))" "sealed_mapping 209 sample_sealed_extents 21 0 = Inr None"
    by (simp_all add: sealed_mapping_def sample_sealed_extents_def covers_def)
  moreover have "extents_disjoint sample_sealed_extents" "length sample_sealed_extents \<le> SSIZE_MAX div 64"
    by (simp_all add: extents_disjoint_def sample_sealed_extents_def extent_key_def SSIZE_MAX_def)
  ultimately show ?thesis
    using sealed_extent_lookup_correct [OF sample_sealed_tree _ _ _ sample_sorts] by fastforce
qed

text \<open>C26. Whatever the blocks hold, building the sealed extent tree returns the tree or
  an error, after any earlier failure and without an undefined access, and so does every lookup in it.\<close>

theorem sealed_extents_safe:
  assumes "\<And>i n. safe (f i n)"
  shows "(case file_system_btree_get_sealed_extent_tree qsort block_size f b sealed of
      (Inl e, sealed') \<Rightarrow> lib_error e
    | (Inr None, sealed') \<Rightarrow> b = 0 \<and> sealed' = sealed
    | (Inr (Some tree), sealed') \<Rightarrow> sealed' = Some tree \<and> (\<forall>i l. safe (sealed_extent_tree_lookup block_size tree i l)))"
proof -
  have "sealed' = (case r of None \<Rightarrow> sealed | Some tree \<Rightarrow> Some tree)"
    if "file_system_btree_get_sealed_extent_tree qsort block_size f b sealed = (Inr r, sealed')" for r sealed'
    using that by (auto simp: file_system_btree_get_sealed_extent_tree_def split: if_splits sum.splits prod.splits)
  then show ?thesis
    using sealed_tree_safe [where b = b and qsort = qsort and block_size = block_size and sealed = sealed and f = f, OF assms] sealed_lookup_safe
    by (auto split: prod.split sum.split option.split)
qed

theorem sealed_extents_safe_witness:
  "case file_system_btree_get_sealed_extent_tree sample_sort 4096 (\<lambda>i n. Inr (replicate n 255)) 1 None of
      (Inl e, sealed') \<Rightarrow> lib_error e
    | (Inr None, sealed') \<Rightarrow> (1 :: nat) = 0 \<and> sealed' = None
    | (Inr (Some tree), sealed') \<Rightarrow> sealed' = Some tree \<and> (\<forall>i l. safe (sealed_extent_tree_lookup 4096 tree i l))"
  by (rule sealed_extents_safe) simp

end
