(* ===== verification/Data_Blocks.thy ===== *)
theory Data_Blocks
  imports Encryption Segment_Reader File_System_Records
begin

text \<open>
  File contents in blocks of the volume: a block and its decryption, \<open>libfsapfs_data_block.c\<close>, the callback that
  reads a block of a file, \<open>libfsapfs_file_system_data_handle.c\<close>, the vector of the blocks of a file,
  \<open>libfsapfs_data_block_vector.c\<close>, and the handle that reads it, \<open>libfsapfs_data_block_data_handle.c\<close>.
\<close>

section \<open>IO handle\<close>

record io_handle =
  io_bytes_per_sector :: nat
  io_block_size :: nat
  io_container_size :: nat
  io_abort :: nat

definition io_handle_initialize :: "io_handle option \<Rightarrow> io_handle result" where
  "io_handle_initialize handle =
     (if handle \<noteq> None then Inl RUNTIME_VALUE_ALREADY_SET
      else Inr \<lparr>io_bytes_per_sector = 512, io_block_size = 4096, io_container_size = 0, io_abort = 0\<rparr>)"

definition io_handle_clear :: "io_handle \<Rightarrow> io_handle result" where
  "io_handle_clear handle = Inr \<lparr>io_bytes_per_sector = 512, io_block_size = 4096, io_container_size = 0, io_abort = 0\<rparr>"

section \<open>Data block\<close>

text \<open>A block of no bytes has no data. What newly allocated data holds is never read.\<close>

record data_block =
  block_data :: "bytes option"
  block_data_size :: nat

definition data_block_initialize :: "data_block option \<Rightarrow> nat \<Rightarrow> data_block result" where
  "data_block_initialize block n =
     (if block \<noteq> None then Inl RUNTIME_VALUE_ALREADY_SET
      else if n > MEMORY_MAXIMUM_ALLOCATION_SIZE then Inl ARGUMENT_VALUE_EXCEEDS_MAXIMUM
      else Inr \<lparr>block_data = (if n > 0 then Some (replicate n 0) else None), block_data_size = n\<rparr>)"

definition data_block_clear_data :: "data_block \<Rightarrow> data_block result" where
  "data_block_clear_data block =
     (if block_data block = None then Inl RUNTIME_VALUE_MISSING
      else if block_data_size block > SSIZE_MAX then Inl RUNTIME_VALUE_OUT_OF_BOUNDS
      else Inr (block\<lparr>block_data := Some (replicate (block_data_size block) 0)\<rparr>))"

text \<open>
  The outcome of decryption without the buffer. A call that does not return, as with sectors of no bytes,
  is taken for an undefined access; the sector size has been checked before.
\<close>

definition crypt_outcome :: "bytes buffer_result option \<Rightarrow> bytes result" where
  "crypt_outcome outcome =
     (case outcome of
        None \<Rightarrow> Inl OUT_OF_BOUNDS_ACCESS
      | Some (Inl (e, buffer)) \<Rightarrow> Inl e
      | Some (Inr data) \<Rightarrow> Inr data)"

definition data_block_read ::
    "'x xts_operations \<Rightarrow> data_block \<Rightarrow> io_handle \<Rightarrow> 'x encryption_context option \<Rightarrow> file_io \<Rightarrow> nat \<Rightarrow> nat \<Rightarrow> data_block result" where
  "data_block_read xts block handle encryption_context file_io_handle file_offset encryption_identifier =
     (let n = block_data_size block in
      case block_data block of
        None \<Rightarrow> Inl RUNTIME_VALUE_MISSING
      | Some data \<Rightarrow>
          if n > SSIZE_MAX then Inl RUNTIME_VALUE_OUT_OF_BOUNDS
          else if io_bytes_per_sector handle = 0 then Inl RUNTIME_VALUE_MISSING
          else
            bindR (read_buffer_at_offset file_io_handle file_offset n) (\<lambda>read_buffer.
              case encryption_context of
                None \<Rightarrow> Inr (block\<lparr>block_data := Some read_buffer\<rparr>)
              | Some encryption_context \<Rightarrow>
                  let sector_number = ((encryption_identifier * n) mod 2 ^ 64) div io_bytes_per_sector handle
                  in bindR (crypt_outcome (encryption_context_crypt xts encryption_context CRYPT_MODE_DECRYPT
                       read_buffer n data n sector_number (io_bytes_per_sector handle))) (\<lambda>data.
                       Inr (block\<lparr>block_data := Some data\<rparr>))))"

section \<open>Reading a block of a file\<close>

record 'x file_system_data_handle =
  handle_io :: io_handle
  handle_encryption_context :: "'x encryption_context option"
  handle_file_extents :: "file_extent list option"

definition file_system_data_handle_initialize ::
    "'x file_system_data_handle option \<Rightarrow> io_handle \<Rightarrow> 'x encryption_context option \<Rightarrow> file_extent list option
     \<Rightarrow> 'x file_system_data_handle result" where
  "file_system_data_handle_initialize handle io encryption_context file_extents =
     (if handle \<noteq> None then Inl RUNTIME_VALUE_ALREADY_SET
      else Inr \<lparr>handle_io = io, handle_encryption_context = encryption_context, handle_file_extents = file_extents\<rparr>)"

text \<open>
  The callback of the vector. The value that it sets for the element is its result. The identifier that the block is
  encrypted with counts on from that of its extent; a size of 0 would divide by zero.
\<close>

definition file_system_data_handle_read_data_block ::
    "'x xts_operations \<Rightarrow> file_io \<Rightarrow> 'x file_system_data_handle \<Rightarrow> nat \<Rightarrow> nat \<Rightarrow> nat \<Rightarrow> bool \<Rightarrow> data_block result" where
  "file_system_data_handle_read_data_block xts file_io_handle handle element_data_file_index element_data_offset
       element_data_size is_sparse =
     (if element_data_size > SSIZE_MAX then Inl ARGUMENT_VALUE_EXCEEDS_MAXIMUM
      else
        bindR (data_block_initialize None element_data_size) (\<lambda>block.
          if is_sparse then data_block_clear_data block
          else if element_data_size = 0 then Inl OUT_OF_BOUNDS_ACCESS
          else
            let block_number = element_data_offset div element_data_size
            in bindR (case handle_file_extents handle of
                   None \<Rightarrow> Inr block_number
                 | Some file_extents \<Rightarrow>
                     if element_data_file_index \<ge> length file_extents then Inl RUNTIME_GET_FAILED
                     else
                       let file_extent = file_extents ! element_data_file_index
                       in Inr (nat ((int (extent_encryption_identifier file_extent) +
                            (int block_number - int (extent_physical_block_number file_extent))) mod 2 ^ 64)))
                 (\<lambda>encryption_identifier.
                   data_block_read xts block (handle_io handle) (handle_encryption_context handle) file_io_handle
                     element_data_offset encryption_identifier)))"

section \<open>The vector of the blocks\<close>

text \<open>
  Vectors and their caches belong to \<open>libfdata\<close> and \<open>libfcache\<close> and are parameters. A segment has the index of
  its extent, an offset in the file, a size, and a flag that it is sparse; the value at an offset comes
  with the offset in it.
\<close>

record vector_segment =
  range_file_index :: nat
  range_offset :: nat
  range_size :: nat
  range_is_sparse :: bool

type_synonym read_element = "nat \<Rightarrow> nat \<Rightarrow> nat \<Rightarrow> bool \<Rightarrow> data_block result"

record ('v, 'c) vector_operations =
  vector_initialize :: "nat \<Rightarrow> 'v result"
  vector_append_segment :: "'v \<Rightarrow> vector_segment \<Rightarrow> 'v result"
  vector_get_size :: "'v \<Rightarrow> nat result"
  vector_get_element_value_at_offset :: "'v \<Rightarrow> read_element \<Rightarrow> nat \<Rightarrow> ('c, nat \<times> data_block option) call"

fun append_extents ::
    "('v, 'c) vector_operations \<Rightarrow> nat \<Rightarrow> nat \<Rightarrow> nat \<Rightarrow> nat \<Rightarrow> file_extent list \<Rightarrow> 'v \<Rightarrow> 'v result" where
  "append_extents ops block_size is_sparse extent_index logical_offset [] v = Inr v"
| "append_extents ops block_size is_sparse extent_index logical_offset (e # es) v =
     (if extent_logical_offset e < logical_offset then Inl ARGUMENT_VALUE_OUT_OF_BOUNDS
      else
        bindR (if extent_logical_offset e > logical_offset
               then vector_append_segment ops v \<lparr>range_file_index = 0, range_offset = 0,
                      range_size = extent_logical_offset e - logical_offset, range_is_sparse = True\<rparr>
               else Inr v) (\<lambda>v.
        bindR (vector_append_segment ops v \<lparr>range_file_index = extent_index,
                 range_offset = (extent_physical_block_number e * block_size) mod 2 ^ 64,
                 range_size = extent_data_size e,
                 range_is_sparse = (is_sparse \<noteq> 0 \<and> extent_physical_block_number e = 0)\<rparr>) (\<lambda>v.
          append_extents ops block_size is_sparse (extent_index + 1)
            ((extent_logical_offset e + extent_data_size e) mod 2 ^ 64) es v)))"

definition data_block_vector_initialize ::
    "('v, 'c) vector_operations \<Rightarrow> 'v option \<Rightarrow> io_handle \<Rightarrow> file_extent list \<Rightarrow> nat \<Rightarrow> 'v result" where
  "data_block_vector_initialize ops v io file_extents is_sparse =
     (if v \<noteq> None then Inl RUNTIME_VALUE_ALREADY_SET
      else bindR (vector_initialize ops (io_block_size io)) (append_extents ops (io_block_size io) is_sparse 0 0 file_extents))"

section \<open>The handle of a file\<close>

record ('v, 'c, 'x) data_block_data_handle =
  handle_file_system :: "'x file_system_data_handle"
  handle_vector :: 'v
  handle_data_size :: nat
  handle_cache :: 'c
  handle_current_offset :: int

definition data_block_data_handle_initialize ::
    "('v, 'c) vector_operations \<Rightarrow> 'c \<Rightarrow> ('v, 'c, 'x) data_block_data_handle option \<Rightarrow> io_handle \<Rightarrow> 'x encryption_context option
     \<Rightarrow> file_extent list \<Rightarrow> nat \<Rightarrow> ('v, 'c, 'x) data_block_data_handle result" where
  "data_block_data_handle_initialize ops empty_cache data_handle io encryption_context file_extents is_sparse =
     (if data_handle \<noteq> None then Inl RUNTIME_VALUE_ALREADY_SET
      else
        bindR (file_system_data_handle_initialize None io encryption_context (Some file_extents)) (\<lambda>file_system_handle.
        bindR (data_block_vector_initialize ops None io file_extents is_sparse) (\<lambda>v.
        bindR (vector_get_size ops v) (\<lambda>n.
          Inr \<lparr>handle_file_system = file_system_handle, handle_vector = v, handle_data_size = n,
            handle_cache = empty_cache, handle_current_offset = 0\<rparr>))))"

text \<open>The block at the current offset, with the cache of the handle.\<close>

definition get_data_block ::
    "('v, 'c) vector_operations \<Rightarrow> read_element \<Rightarrow> (('v, 'c, 'x) data_block_data_handle, nat \<times> data_block option) call" where
  "get_data_block ops read_data_block h =
     (case vector_get_element_value_at_offset ops (handle_vector h) read_data_block (nat (handle_current_offset h)) (handle_cache h) of
        (r, cache) \<Rightarrow> (r, h\<lparr>handle_cache := cache\<rparr>))"

definition copy_data_block :: "nat \<Rightarrow> nat \<times> data_block option \<Rightarrow> bytes result" where
  "copy_data_block segment_data_size = (\<lambda>(data_block_offset, block).
     case block of
       None \<Rightarrow> Inl RUNTIME_VALUE_MISSING
     | Some block \<Rightarrow>
         (case block_data block of
            None \<Rightarrow> Inl RUNTIME_VALUE_MISSING
          | Some data \<Rightarrow>
              if data_block_offset \<ge> block_data_size block then Inl RUNTIME_VALUE_OUT_OF_BOUNDS
              else rd_slice data data_block_offset (min (block_data_size block - data_block_offset) segment_data_size)))"

text \<open>Every turn of the loop copies at least one byte.\<close>

lemma copy_data_block_length:
  assumes "copy_data_block n found = Inr data" "0 < n"
  shows "0 < length data"
  using assms by (auto simp: copy_data_block_def rd_slice_def split: prod.splits option.splits if_splits)

function read_data_blocks ::
    "('v, 'c) vector_operations \<Rightarrow> read_element \<Rightarrow> nat \<Rightarrow> (('v, 'c, 'x) data_block_data_handle, bytes) call" where
  "read_data_blocks ops read_data_block segment_data_size h =
     (if segment_data_size = 0 then returnS [] h
      else
        bindS (get_data_block ops read_data_block) (\<lambda>found.
        bindS (liftS (copy_data_block segment_data_size found)) (\<lambda>data h.
          let h = h\<lparr>handle_current_offset := handle_current_offset h + int (length data)\<rparr>
          in if handle_current_offset h \<ge> int (handle_data_size h) then returnS data h
             else bindS (read_data_blocks ops read_data_block (segment_data_size - length data)) (\<lambda>rest.
                    returnS (data @ rest)) h)) h)"
  by pat_completeness auto
termination
  by (relation "measure (\<lambda>(ops, read_data_block, n, h). n)")
    (use copy_data_block_length in \<open>fastforce simp: returnS_def liftS_def\<close>)+

declare read_data_blocks.simps [simp del]

definition data_block_data_handle_read_segment_data ::
    "'x xts_operations \<Rightarrow> ('v, 'c) vector_operations \<Rightarrow> file_io \<Rightarrow> int \<Rightarrow> nat \<Rightarrow> (('v, 'c, 'x) data_block_data_handle, bytes) call" where
  "data_block_data_handle_read_segment_data xts ops file_io_handle segment_index segment_data_size h =
     (if handle_current_offset h < 0 then failS ARGUMENT_VALUE_OUT_OF_BOUNDS h
      else if segment_index < 0 then failS ARGUMENT_VALUE_OUT_OF_BOUNDS h
      else if segment_data_size > SSIZE_MAX then failS ARGUMENT_VALUE_EXCEEDS_MAXIMUM h
      else if handle_current_offset h \<ge> int (handle_data_size h) then returnS [] h
      else read_data_blocks ops (file_system_data_handle_read_data_block xts file_io_handle (handle_file_system h))
             segment_data_size h)"

definition data_block_data_handle_seek_segment_offset ::
    "int \<Rightarrow> int \<Rightarrow> (('v, 'c, 'x) data_block_data_handle, int) call" where
  "data_block_data_handle_seek_segment_offset segment_index segment_offset h =
     (if segment_index < 0 then failS ARGUMENT_VALUE_OUT_OF_BOUNDS h
      else if segment_offset < 0 then failS ARGUMENT_VALUE_OUT_OF_BOUNDS h
      else returnS segment_offset (h\<lparr>handle_current_offset := segment_offset\<rparr>))"

end
