(* ===== verification/File_Contents.thy ===== *)
theory File_Contents
  imports Data_Blocks Node_Cache
begin

text \<open>
  The content of a file from its extents, and that any sequence of seeks and reads through the data block
  handle gives the parts of it.
\<close>

section \<open>Vectors\<close>

text \<open>
  The documented behaviour of a vector of \<open>libfdata\<close>: its segments are those that were appended, and its
  elements are the parts of the element size of every segment. The value at an offset is what the callback
  gives for the element there, from the cache or not; a valid cache holds such values. Whether the element at the
  end of a segment is as large as the others or has only what is left of the segment is left open, but for \<open>full\<close>.
\<close>

fun locate :: "vector_segment list \<Rightarrow> nat \<Rightarrow> (vector_segment \<times> nat) option" where
  "locate [] i = None"
| "locate (r # rs) i = (if i < range_size r then Some (r, i) else locate rs (i - range_size r))"

definition number_of_elements :: "nat \<Rightarrow> vector_segment list \<Rightarrow> nat" where
  "number_of_elements n rs = sum_list (map (\<lambda>r. (range_size r + n - 1) div n) rs)"

definition element_sizes :: "bool \<Rightarrow> nat \<Rightarrow> nat \<Rightarrow> nat set" where
  "element_sizes full n left = (if full then {n} else {n, min n left})"

definition vector_laws ::
    "('v, 'c) vector_operations \<Rightarrow> ('v \<Rightarrow> vector_segment list) \<Rightarrow> ('v \<Rightarrow> nat) \<Rightarrow> (read_element \<Rightarrow> 'v \<Rightarrow> 'c \<Rightarrow> bool) \<Rightarrow> bool \<Rightarrow> bool" where
  "vector_laws ops ranges element_size valid full \<longleftrightarrow>
     (\<forall>n>0. \<exists>v. vector_initialize ops n = Inr v \<and> ranges v = [] \<and> element_size v = n) \<and>
     (\<forall>v r. 0 < range_size r \<and> range_offset r + range_size r \<le> SSIZE_MAX \<and>
        sum_list (map range_size (ranges v)) + range_size r \<le> SSIZE_MAX \<longrightarrow>
        (\<exists>v'. vector_append_segment ops v r = Inr v' \<and> ranges v' = ranges v @ [r] \<and> element_size v' = element_size v)) \<and>
     (\<forall>v. vector_get_size ops v = Inr (sum_list (map range_size (ranges v)))) \<and>
     (\<forall>v read c off r i. valid read v c \<and> locate (ranges v) off = Some (r, i) \<and>
        number_of_elements (element_size v) (ranges v) \<le> INT_MAX \<longrightarrow>
        (\<exists>n\<in>element_sizes full (element_size v) (range_size r - i div element_size v * element_size v). \<exists>c'. valid read v c' \<and>
           vector_get_element_value_at_offset ops v read off c =
             (bindR (read (range_file_index r) (range_offset r + i div element_size v * element_size v) n (range_is_sparse r))
                (\<lambda>b. Inr (i mod element_size v, Some b)), c')))"

section \<open>Content of the segments\<close>

text \<open>A segment of blocks \<open>B r 0\<close>, \<open>B r 1\<close> and so on, of \<open>n\<close> bytes each.\<close>

definition range_content :: "(vector_segment \<Rightarrow> nat \<Rightarrow> bytes) \<Rightarrow> nat \<Rightarrow> vector_segment \<Rightarrow> bytes" where
  "range_content B n r = take (range_size r) (concat (map (B r) [0..<(range_size r + n - 1) div n]))"

lemma length_concat_blocks: "(\<And>k. length (f k) = n) \<Longrightarrow> length (concat (map f ks)) = length ks * n"
  by (induction ks) auto

lemma blocks_enough: "0 < n \<Longrightarrow> size_value \<le> ((size_value + n - 1) div n) * (n :: nat)"
  using div_mult_mod_eq [of "size_value + n - 1" n] mod_less_divisor [of n "size_value + n - 1"] by linarith

lemma length_range_content:
  assumes "\<And>k. length (B r k) = n" "0 < n"
  shows "length (range_content B n r) = range_size r"
  using blocks_enough [OF assms(2), of "range_size r"]
  by (simp add: range_content_def length_concat_blocks [OF assms(1)])

lemma drop_concat_blocks:
  assumes "\<And>k. length (f k) = n" "k < m"
  shows "drop (k * n) (concat (map f [0..<m])) = f k @ concat (map f [Suc k..<m])"
proof -
  have "[0..<m] = [0..<k] @ k # [Suc k..<m]"
    using upt_add_eq_append [of 0 k "m - k"] assms(2) by (simp add: upt_conv_Cons)
  then have "concat (map f [0..<m]) = concat (map f [0..<k]) @ f k @ concat (map f [Suc k..<m])" by simp
  moreover have "length (concat (map f [0..<k])) = k * n" using length_concat_blocks [where f = f and n = n, OF assms(1)] by simp
  ultimately show ?thesis by simp
qed

lemma locate_exists: "off < sum_list (map range_size rs) \<Longrightarrow> \<exists>r i. locate rs off = Some (r, i)"
  by (induction rs arbitrary: off) auto

lemma locate_content:
  assumes "locate rs off = Some (r, i)" "\<And>r k. length (B r k) = n" "0 < n"
    and "\<forall>r\<in>set (butlast rs). range_size r mod n = 0"
  shows "i < range_size r \<and> r \<in> set rs \<and>
    (\<exists>rest. drop off (concat (map (range_content B n) rs)) = drop i (range_content B n r) @ rest \<and> (rest = [] \<or> range_size r mod n = 0))"
  using assms(1,4)
proof (induction rs arbitrary: off)
  case (Cons s rs)
  have len: "length (range_content B n s) = range_size s" by (rule length_range_content [OF assms(2,3)])
  show ?case
  proof (cases "off < range_size s")
    case True
    then have "r = s" "i = off" using Cons.prems(1) by simp_all
    then show ?thesis using True len Cons.prems(2) by (cases rs) auto
  next
    case False
    have "\<forall>r\<in>set (butlast rs). range_size r mod n = 0" using Cons.prems(2) by (cases rs) auto
    with Cons.IH [of "off - range_size s"] Cons.prems(1) False len show ?thesis by auto
  qed
qed simp

lemma element_content:
  assumes "locate rs off = Some (r, i)" "\<And>r k. length (B r k) = n" "0 < n"
    and "\<forall>r\<in>set (butlast rs). range_size r mod n = 0"
    and "size_value \<in> element_sizes full n (range_size r - i div n * n)"
    and "m \<le> size_value - i mod n" "off + m \<le> length (concat (map (range_content B n) rs))"
  shows "i mod n < size_value" "i div n * n < range_size r"
    and "take m (drop (i mod n) (take size_value (B r (i div n)))) = take m (drop off (concat (map (range_content B n) rs)))"
proof -
  let ?k = "i div n" and ?j = "i mod n"
  note located = locate_content [where B = B, OF assms(1-4)]
  from located obtain rest where i: "i < range_size r"
      "drop off (concat (map (range_content B n) rs)) = drop i (range_content B n r) @ rest" "rest = [] \<or> range_size r mod n = 0"
    by (elim conjE exE)
  have kj: "i = ?k * n + ?j" "?j < n" using assms(3) by simp_all
  then show left: "?k * n < range_size r" using i(1) by linarith
  have "?j < range_size r - ?k * n" using kj(1) i(1) by linarith
  then show j: "?j < size_value"
    using assms(5) kj(2) by (auto simp: element_sizes_def split: if_splits)
  have "?k * n < ((range_size r + n - 1) div n) * n"
    using left blocks_enough [OF assms(3), of "range_size r"] by linarith
  then have k: "?k < (range_size r + n - 1) div n" by simp
  let ?X = "concat (map (B r) [Suc ?k..<(range_size r + n - 1) div n])"
  have "drop (?k * n) (range_content B n r) = take (range_size r - ?k * n) (B r ?k @ ?X)"
    unfolding range_content_def drop_take drop_concat_blocks [where f = "B r" and n = n, OF assms(2) k] by (rule refl)
  then have "drop ?j (drop (?k * n) (range_content B n r)) = drop ?j (take (range_size r - ?k * n) (B r ?k @ ?X))"
    by (rule arg_cong)
  moreover have "drop ?j (drop (?k * n) (range_content B n r)) = drop i (range_content B n r)"
    unfolding drop_drop by (rule arg_cong [where f = "\<lambda>i. drop i _"]) (use kj(1) in linarith)
  moreover have "range_size r - ?k * n - ?j = range_size r - i" "?j - length (B r ?k) = 0"
    using kj assms(2) [of r ?k] by linarith+
  ultimately have drop_i: "drop i (range_content B n r) = take (range_size r - i) (drop ?j (B r ?k) @ ?X)"
    by (simp only: drop_take drop_append drop_0)
  show "take m (drop ?j (take size_value (B r ?k))) = take m (drop off (concat (map (range_content B n) rs)))"
  proof (cases "n \<le> range_size r - ?k * n")
    case True
    then have "size_value = n" using assms(5) by (auto simp: element_sizes_def split: if_splits)
    moreover have "m \<le> range_size r - i" using True \<open>size_value = n\<close> assms(6) kj by linarith
    ultimately show ?thesis using assms(2) [of r ?k] assms(6) by (simp add: i(2) drop_i)
  next
    case False
    have "range_size r mod n \<noteq> 0"
    proof
      assume "range_size r mod n = 0"
      then obtain q where q: "range_size r = q * n" by (metis add.right_neutral div_mult_mod_eq)
      then have "?k < q" using left assms(3) by simp
      then have "Suc ?k * n \<le> q * n" by (metis Suc_leI mult_le_mono1)
      then show False using False q by simp
    qed
    then have rest: "rest = []" using i(3) by simp
    have "length (drop off (concat (map (range_content B n) rs))) = range_size r - i"
      unfolding i(2) rest using length_range_content [of B r n, OF assms(2,3)] by simp
    then have m: "m \<le> range_size r - i" using assms(7) i(1) by simp
    have "size_value = n \<or> size_value = range_size r - ?k * n"
      using assms(5) False by (auto simp: element_sizes_def split: if_splits)
    then show ?thesis
    proof
      assume "size_value = n"
      then show ?thesis using assms(2) [of r ?k] assms(6) m by (simp add: i(2) drop_i rest)
    next
      assume "size_value = range_size r - ?k * n"
      moreover have "range_size r - ?k * n - ?j = range_size r - i" using kj(1) by linarith
      ultimately have "m \<le> size_value - ?j" "m \<le> n - ?j" using m False by linarith+
      then have "take m (drop ?j (take size_value (B r ?k))) = take m (drop ?j (B r ?k))"
        "take m (drop off (concat (map (range_content B n) rs))) = take m (drop ?j (B r ?k))"
        using m assms(2) [of r ?k] by (simp_all add: i(2) drop_i rest drop_take min_absorb1)
      then show ?thesis by simp
    qed
  qed
qed

section \<open>Reading\<close>

text \<open>What the value at an offset of a vector is worth, for the content of all its segments.\<close>

definition presents ::
    "('v, 'c) vector_operations \<Rightarrow> ('c \<Rightarrow> bool) \<Rightarrow> read_element \<Rightarrow> 'v \<Rightarrow> bytes \<Rightarrow> bool" where
  "presents ops valid read v content \<longleftrightarrow>
     (\<forall>c off. valid c \<and> off < length content \<longrightarrow>
       (\<exists>i b d c'. vector_get_element_value_at_offset ops v read off c = (Inr (i, Some b), c') \<and> valid c' \<and>
          block_data b = Some d \<and> block_data_size b = length d \<and> i < length d \<and>
          (\<forall>m. m \<le> length d - i \<and> off + m \<le> length content \<longrightarrow> take m (drop i d) = take m (drop off content))))"

definition reads_blocks :: "read_element \<Rightarrow> bool \<Rightarrow> (vector_segment \<Rightarrow> nat \<Rightarrow> bytes) \<Rightarrow> nat \<Rightarrow> vector_segment \<Rightarrow> bool" where
  "reads_blocks read full B n r \<longleftrightarrow> (\<forall>k. k * n < range_size r \<longrightarrow>
     (\<forall>size_value\<in>element_sizes full n (range_size r - k * n).
        read (range_file_index r) (range_offset r + k * n) size_value (range_is_sparse r) =
          Inr \<lparr>block_data = Some (take size_value (B r k)), block_data_size = size_value\<rparr>))"

lemma vector_presents:
  assumes "vector_laws ops ranges element_size valid full" "number_of_elements (element_size v) (ranges v) \<le> INT_MAX"
    and "\<And>r k. length (B r k) = element_size v" "0 < element_size v"
    and "\<forall>r\<in>set (butlast (ranges v)). range_size r mod element_size v = 0"
    and "\<forall>r\<in>set (ranges v). reads_blocks read full B (element_size v) r"
  shows "presents ops (valid read v) read v (concat (map (range_content B (element_size v)) (ranges v)))"
  unfolding presents_def
proof (intro allI impI)
  fix c off
  let ?n = "element_size v" and ?content = "concat (map (range_content B (element_size v)) (ranges v))"
  assume off: "valid read v c \<and> off < length ?content"
  have "length ?content = sum_list (map range_size (ranges v))"
    using length_range_content [where B = B, OF assms(3,4)] by (simp add: length_concat comp_def)
  then obtain r i where loc: "locate (ranges v) off = Some (r, i)" using off locate_exists [of off "ranges v"] by auto
  obtain n c' where n: "n \<in> element_sizes full ?n (range_size r - i div ?n * ?n)" and c': "valid read v c'"
    and get: "vector_get_element_value_at_offset ops v read off c =
      (bindR (read (range_file_index r) (range_offset r + i div ?n * ?n) n (range_is_sparse r)) (\<lambda>b. Inr (i mod ?n, Some b)), c')"
    using assms(1) off loc assms(2) unfolding vector_laws_def by meson
  note element = element_content [where B = B, OF loc assms(3,4,5) n]
  have zero: "i mod ?n < n" "i div ?n * ?n < range_size r" using element(1,2) [of 0] off by auto
  have "r \<in> set (ranges v)" using locate_content [where B = B, OF loc assms(3,4,5)] by blast
  with assms(6) n zero(2) have read: "read (range_file_index r) (range_offset r + i div ?n * ?n) n (range_is_sparse r) =
      Inr \<lparr>block_data = Some (take n (B r (i div ?n))), block_data_size = n\<rparr>"
    by (simp add: reads_blocks_def)
  have "n \<le> ?n" using n by (auto simp: element_sizes_def split: if_splits)
  then have len: "length (take n (B r (i div ?n))) = n" using assms(3) by simp
  show "\<exists>i b d c'. vector_get_element_value_at_offset ops v read off c = (Inr (i, Some b), c') \<and> valid read v c' \<and>
      block_data b = Some d \<and> block_data_size b = length d \<and> i < length d \<and>
      (\<forall>m. m \<le> length d - i \<and> off + m \<le> length ?content \<longrightarrow> take m (drop i d) = take m (drop off ?content))"
    using get c' len zero(1) element(3) unfolding read
    by (intro exI [of _ "i mod ?n"] exI [of _ "\<lparr>block_data = Some (take n (B r (i div ?n))), block_data_size = n\<rparr>"]
        exI [of _ "take n (B r (i div ?n))"] exI [of _ c']) simp
qed

text \<open>The loop of the handle.\<close>

lemma get_data_block_presented:
  assumes "presents ops valid read (handle_vector h) content" "valid (handle_cache h)"
    and "handle_current_offset h = int pos" "pos < length content" "0 < n" "pos + n \<le> length content"
  shows "\<exists>m c' i b. 0 < m \<and> m \<le> n \<and> get_data_block ops read h = (Inr (i, Some b), h\<lparr>handle_cache := c'\<rparr>) \<and>
    copy_data_block n (i, Some b) = Inr (take m (drop pos content)) \<and> valid c'"
proof -
  obtain i b d c' where b: "vector_get_element_value_at_offset ops (handle_vector h) read pos (handle_cache h) = (Inr (i, Some b), c')"
      "valid c'" "block_data b = Some d" "block_data_size b = length d" "i < length d"
      "\<And>m. m \<le> length d - i \<Longrightarrow> pos + m \<le> length content \<Longrightarrow> take m (drop i d) = take m (drop pos content)"
    using assms(1,2,4) unfolding presents_def by metis
  let ?m = "min (length d - i) n"
  have "copy_data_block n (i, Some b) = Inr (take ?m (drop pos content))"
    using b(3-6) assms(6) by (simp add: copy_data_block_def)
  moreover have "get_data_block ops read h = (Inr (i, Some b), h\<lparr>handle_cache := c'\<rparr>)"
    using b(1) assms(3) by (simp add: get_data_block_def)
  ultimately show ?thesis using b(2,5) assms(5) by (intro exI [of _ ?m] exI [of _ c'] exI [of _ i] exI [of _ b]) simp
qed

lemma read_data_blocks_presented:
  assumes "presents ops valid read (handle_vector h) content" "valid (handle_cache h)"
    and "handle_current_offset h = int pos" "pos + n \<le> length content" "handle_data_size h = length content"
  shows "\<exists>c'. read_data_blocks ops read n h = (Inr (take n (drop pos content)),
      h\<lparr>handle_cache := c', handle_current_offset := int (pos + n)\<rparr>) \<and> valid c'"
  using assms
proof (induction n arbitrary: h pos rule: less_induct)
  case (less n)
  show ?case
  proof (cases "n = 0")
    case True
    moreover have "h\<lparr>handle_cache := handle_cache h, handle_current_offset := int pos\<rparr> = h" using less.prems(3) by (cases h) simp
    ultimately show ?thesis
      using less.prems(2) by (intro exI [of _ "handle_cache h"]) (simp add: read_data_blocks.simps [of _ _ 0])
  next
    case False
    then obtain m c' i b where m: "0 < m" "m \<le> n" and get: "get_data_block ops read h = (Inr (i, Some b), h\<lparr>handle_cache := c'\<rparr>)"
      and copy: "copy_data_block n (i, Some b) = Inr (take m (drop pos content))" and c': "valid c'"
      using get_data_block_presented [OF less.prems(1-3), of n] less.prems(4) by auto
    have len: "length (take m (drop pos content)) = m" using m(2) less.prems(4) by simp
    let ?h = "h\<lparr>handle_cache := c', handle_current_offset := int (pos + m)\<rparr>"
    have step: "read_data_blocks ops read n h =
      (if pos + m \<ge> length content then (Inr (take m (drop pos content)), ?h)
       else bindS (read_data_blocks ops read (n - m)) (\<lambda>rest. returnS (take m (drop pos content) @ rest)) ?h)"
      using False get copy len less.prems(3,5)
      by (simp add: read_data_blocks.simps [of _ _ n] bindS_eq(1) [where m = "get_data_block ops read", OF get] Let_def)
    show ?thesis
    proof (cases "pos + m \<ge> length content")
      case True
      then have "m = n" using m(2) less.prems(4) by linarith
      then show ?thesis using step True c' by auto
    next
      case more: False
      obtain c'' where rest: "read_data_blocks ops read (n - m) ?h = (Inr (take (n - m) (drop (pos + m) content)),
          ?h\<lparr>handle_cache := c'', handle_current_offset := int (pos + m + (n - m))\<rparr>)" "valid c''"
        using less.IH [of "n - m" ?h "pos + m"] m False less.prems c' by auto
      have "take m (drop pos content) @ take (n - m) (drop (pos + m) content) = take n (drop pos content)"
        using m(2) by (metis add.commute drop_drop le_add_diff_inverse take_add)
      moreover have "read_data_blocks ops read n h =
          bindS (read_data_blocks ops read (n - m)) (\<lambda>rest. returnS (take m (drop pos content) @ rest)) ?h"
        using step more by simp
      ultimately show ?thesis
        using rest(2) m(2) unfolding bindS_eq(1) [where m = "read_data_blocks ops read (n - m)", OF rest(1)] by auto
    qed
  qed
qed

section \<open>Content of the extents\<close>

text \<open>
  Block \<open>k\<close> of an extent in the image of the volume, decrypted when there is a decryption of sectors: the number of
  its first sector follows from the identifier of the extent.
\<close>

definition block_bytes :: "(bytes \<Rightarrow> bytes \<Rightarrow> bytes) option \<Rightarrow> io_handle \<Rightarrow> bytes \<Rightarrow> file_extent \<Rightarrow> nat \<Rightarrow> bytes" where
  "block_bytes decryption io disk e k =
     (let n = io_block_size io; block = take n (drop ((extent_physical_block_number e + k) * n) disk)
      in case decryption of
           None \<Rightarrow> block
         | Some D \<Rightarrow> decrypted_sectors D block (io_bytes_per_sector io) (n div io_bytes_per_sector io) 0
             ((((extent_encryption_identifier e + k) mod 2 ^ 64 * n) mod 2 ^ 64) div io_bytes_per_sector io))"

definition sparse_extent :: "nat \<Rightarrow> file_extent \<Rightarrow> bool" where
  "sparse_extent is_sparse e \<longleftrightarrow> is_sparse \<noteq> 0 \<and> extent_physical_block_number e = 0"

text \<open>The content of a file: its extents in order, with zeros in the gaps before them and for sparse extents.\<close>

fun extents_content :: "(file_extent \<Rightarrow> nat \<Rightarrow> bytes) \<Rightarrow> nat \<Rightarrow> nat \<Rightarrow> nat \<Rightarrow> file_extent list \<Rightarrow> bytes" where
  "extents_content blocks n is_sparse logical_offset [] = []"
| "extents_content blocks n is_sparse logical_offset (e # es) =
     replicate (extent_logical_offset e - logical_offset) 0 @
     (if sparse_extent is_sparse e then replicate (extent_data_size e) 0
      else take (extent_data_size e) (concat (map (blocks e) [0..<(extent_data_size e + n - 1) div n]))) @
     extents_content blocks n is_sparse (extent_logical_offset e + extent_data_size e) es"

text \<open>Extents that follow each other at multiples of the block size and lie within the image.\<close>

fun extents_well :: "nat \<Rightarrow> bytes \<Rightarrow> nat \<Rightarrow> nat \<Rightarrow> file_extent list \<Rightarrow> bool" where
  "extents_well n disk is_sparse logical_offset [] = True"
| "extents_well n disk is_sparse logical_offset (e # es) =
     (logical_offset \<le> extent_logical_offset e \<and> extent_logical_offset e mod n = 0 \<and> 0 < extent_data_size e \<and>
      (es \<noteq> [] \<longrightarrow> extent_data_size e mod n = 0) \<and> extent_logical_offset e + extent_data_size e \<le> SSIZE_MAX \<and>
      (sparse_extent is_sparse e \<or>
        (extent_physical_block_number e + (extent_data_size e + n - 1) div n) * n \<le> length disk) \<and>
      extents_well n disk is_sparse (extent_logical_offset e + extent_data_size e) es)"

fun extent_ranges :: "nat \<Rightarrow> nat \<Rightarrow> nat \<Rightarrow> nat \<Rightarrow> file_extent list \<Rightarrow> vector_segment list" where
  "extent_ranges n is_sparse extent_index logical_offset [] = []"
| "extent_ranges n is_sparse extent_index logical_offset (e # es) =
     (if extent_logical_offset e > logical_offset
      then [\<lparr>range_file_index = 0, range_offset = 0, range_size = extent_logical_offset e - logical_offset, range_is_sparse = True\<rparr>]
      else []) @
     \<lparr>range_file_index = extent_index, range_offset = extent_physical_block_number e * n, range_size = extent_data_size e,
       range_is_sparse = sparse_extent is_sparse e\<rparr> #
     extent_ranges n is_sparse (extent_index + 1) (extent_logical_offset e + extent_data_size e) es"

lemma mod_two_power_64: "x \<le> SSIZE_MAX \<Longrightarrow> x mod 2 ^ 64 = x"
  by (simp add: SSIZE_MAX_def)

lemma extent_in_image:
  assumes "(b + (s + n - 1) div n) * n \<le> length disk" "0 < n" "length disk \<le> SSIZE_MAX"
  shows "b * n + s \<le> SSIZE_MAX" "(b * n) mod 2 ^ 64 = b * n"
proof -
  show "b * n + s \<le> SSIZE_MAX" using assms blocks_enough [OF assms(2), of s] by (simp add: add_mult_distrib)
  then show "(b * n) mod 2 ^ 64 = b * n" by (intro mod_two_power_64) linarith
qed

lemma append_extents_ranges:
  assumes "vector_laws ops ranges element_size valid full" "0 < n" "length disk \<le> SSIZE_MAX"
    and "extents_well n disk is_sparse logical_offset es" "sum_list (map range_size (ranges v)) = logical_offset"
  shows "\<exists>v'. append_extents ops n is_sparse extent_index logical_offset es v = Inr v' \<and>
    ranges v' = ranges v @ extent_ranges n is_sparse extent_index logical_offset es \<and> element_size v' = element_size v"
  using assms(4,5)
proof (induction es arbitrary: extent_index logical_offset v)
  case (Cons e es)
  have append: "\<exists>v'. vector_append_segment ops v r = Inr v' \<and> ranges v' = ranges v @ [r] \<and> element_size v' = element_size v"
    if "0 < range_size r" "range_offset r + range_size r \<le> SSIZE_MAX" "sum_list (map range_size (ranges v)) + range_size r \<le> SSIZE_MAX" for v r
    using assms(1) that unfolding vector_laws_def by blast
  let ?l = "extent_logical_offset e" and ?s = "extent_data_size e"
  let ?gap = "\<lparr>range_file_index = 0, range_offset = 0, range_size = ?l - logical_offset, range_is_sparse = True\<rparr>"
  obtain v1 where v1: "(if ?l > logical_offset then vector_append_segment ops v ?gap else Inr v) = Inr v1"
      "ranges v1 = ranges v @ (if ?l > logical_offset then [?gap] else [])" "element_size v1 = element_size v"
  proof (cases "?l > logical_offset")
    case True
    have "?l \<le> SSIZE_MAX" using Cons.prems(1) by simp
    then have "\<exists>v1. vector_append_segment ops v ?gap = Inr v1 \<and> ranges v1 = ranges v @ [?gap] \<and> element_size v1 = element_size v"
      using True Cons.prems(2) by (intro append) auto
    then show thesis using that True by auto
  qed (use that [of v] in simp)
  let ?r = "\<lparr>range_file_index = extent_index, range_offset = extent_physical_block_number e * n, range_size = ?s,
    range_is_sparse = sparse_extent is_sparse e\<rparr>"
  have offset: "(extent_physical_block_number e * n) mod 2 ^ 64 = extent_physical_block_number e * n"
      "extent_physical_block_number e * n + ?s \<le> SSIZE_MAX"
    using Cons.prems(1) extent_in_image [OF _ assms(2,3)] by (auto simp: sparse_extent_def)
  have size1: "sum_list (map range_size (ranges v1)) = ?l" using v1(2) Cons.prems by auto
  obtain v2 where v2: "vector_append_segment ops v1 ?r = Inr v2" "ranges v2 = ranges v1 @ [?r]" "element_size v2 = element_size v1"
    using append [of ?r v1] size1 offset(2) Cons.prems(1) by auto
  have next_offset: "(?l + ?s) mod 2 ^ 64 = ?l + ?s" using Cons.prems(1) by (intro mod_two_power_64) simp
  obtain v' where "append_extents ops n is_sparse (extent_index + 1) (?l + ?s) es v2 = Inr v'"
      "ranges v' = ranges v2 @ extent_ranges n is_sparse (extent_index + 1) (?l + ?s) es" "element_size v' = element_size v2"
    using Cons.IH [of "?l + ?s" v2 "extent_index + 1"] Cons.prems(1) v2(2) size1 by auto
  then show ?case
    using v1 v2 offset(1) next_offset Cons.prems(1) by (simp add: sparse_extent_def)
qed simp

text \<open>The content of the segments is that of the extents.\<close>

definition range_block :: "(file_extent \<Rightarrow> nat \<Rightarrow> bytes) \<Rightarrow> nat \<Rightarrow> file_extent list \<Rightarrow> vector_segment \<Rightarrow> nat \<Rightarrow> bytes" where
  "range_block blocks n es r k =
     (if range_is_sparse r then replicate n 0 else take n (blocks (es ! range_file_index r) k @ replicate n 0))"

lemma length_range_block [simp]: "length (range_block blocks n es r k) = n"
  by (auto simp: range_block_def min_def)

lemma concat_replicate_zeros: "concat (map (\<lambda>k. replicate n x) ks) = replicate (length ks * n) x"
  by (induction ks) (simp_all add: replicate_add [symmetric])

lemma range_content_sparse:
  "range_is_sparse r \<Longrightarrow> 0 < n \<Longrightarrow> range_content (range_block blocks n es) n r = replicate (range_size r) 0"
  using blocks_enough [of n "range_size r"]
  by (simp add: range_content_def range_block_def [abs_def] concat_replicate_zeros min_absorb1)

lemma ranges_content:
  assumes "0 < n" "extents_well n disk is_sparse logical_offset es" "all = before @ es"
    and "\<And>e k. (extent_physical_block_number e + k + 1) * n \<le> length disk \<Longrightarrow> length (blocks e k) = n"
  shows "concat (map (range_content (range_block blocks n all) n) (extent_ranges n is_sparse (length before) logical_offset es)) =
    extents_content blocks n is_sparse logical_offset es"
  using assms(2,3)
proof (induction es arbitrary: before logical_offset)
  case (Cons e es)
  let ?s = "extent_data_size e" and ?r = "\<lparr>range_file_index = length before, range_offset = extent_physical_block_number e * n,
    range_size = extent_data_size e, range_is_sparse = sparse_extent is_sparse e\<rparr>"
  have "range_content (range_block blocks n all) n ?r =
    (if sparse_extent is_sparse e then replicate ?s 0 else take ?s (concat (map (blocks e) [0..<(?s + n - 1) div n])))"
  proof (cases "sparse_extent is_sparse e")
    case False
    have "range_block blocks n all ?r k = blocks e k" if "k < (?s + n - 1) div n" for k
    proof -
      have "(extent_physical_block_number e + k + 1) * n \<le> (extent_physical_block_number e + (?s + n - 1) div n) * n"
        using that by (intro mult_le_mono1) simp
      then have "length (blocks e k) = n" using Cons.prems(1) False by (intro assms(4)) auto
      then show ?thesis using False Cons.prems(2) by (simp add: range_block_def nth_append)
    qed
    then have "map (range_block blocks n all ?r) [0..<(?s + n - 1) div n] = map (blocks e) [0..<(?s + n - 1) div n]"
      by (intro map_cong) auto
    then show ?thesis using False by (simp add: range_content_def del: map_eq_conv)
  qed (use assms(1) in \<open>simp add: range_content_sparse\<close>)
  moreover have "concat (map (range_content (range_block blocks n all) n)
      (extent_ranges n is_sparse (length (before @ [e])) (extent_logical_offset e + ?s) es)) =
      extents_content blocks n is_sparse (extent_logical_offset e + ?s) es"
    using Cons.IH [of "extent_logical_offset e + ?s" "before @ [e]"] Cons.prems by simp
  ultimately show ?case using assms(1) by (simp add: range_content_sparse)
qed simp

lemma ranges_aligned:
  assumes "extents_well n disk is_sparse logical_offset es" "logical_offset mod n = 0" "0 < n"
  shows "\<forall>r\<in>set (butlast (extent_ranges n is_sparse extent_index logical_offset es)). range_size r mod n = 0"
  using assms(1,2)
proof (induction es arbitrary: extent_index logical_offset)
  case (Cons e es)
  have gap: "(extent_logical_offset e - logical_offset) mod n = 0"
    using Cons.prems by (simp add: mod_eq_0_iff_dvd)
  show ?case
  proof (cases "es = []")
    case False
    then have more: "extent_ranges n is_sparse (extent_index + 1) (extent_logical_offset e + extent_data_size e) es \<noteq> []"
      by (cases es) simp_all
    have "(extent_logical_offset e + extent_data_size e) mod n = 0"
      using Cons.prems(1) False by (simp add: mod_eq_0_iff_dvd)
    then show ?thesis
      using Cons.IH [of "extent_logical_offset e + extent_data_size e" "extent_index + 1"] Cons.prems(1) False more gap
      by (auto simp: butlast_append)
  qed (use gap in \<open>auto simp: butlast_append\<close>)
qed simp

section \<open>The callback reads the blocks\<close>

text \<open>Reads of the file give the bytes of the image, and decryption of sectors works as \<open>decryption\<close>.\<close>

definition reads_disk :: "file_io \<Rightarrow> bytes \<Rightarrow> bool" where
  "reads_disk f disk \<longleftrightarrow> length disk \<le> SSIZE_MAX \<and> (\<forall>i n. i + n \<le> length disk \<longrightarrow> f i n = Inr (take n (drop i disk)))"

definition deciphers ::
    "'x xts_operations \<Rightarrow> io_handle \<Rightarrow> bool \<Rightarrow> 'x encryption_context option \<Rightarrow> (bytes \<Rightarrow> bytes \<Rightarrow> bytes) option \<Rightarrow> bool" where
  "deciphers xts io full encryption_context decryption \<longleftrightarrow>
     0 < io_block_size io \<and> io_block_size io \<le> MEMORY_MAXIMUM_ALLOCATION_SIZE \<and> 0 < io_bytes_per_sector io \<and>
     (case encryption_context of
        None \<Rightarrow> decryption = None
      | Some ec \<Rightarrow> full \<and> io_block_size io mod io_bytes_per_sector io = 0 \<and>
          (\<exists>D. decryption = Some D \<and> decrypts_sectors xts (decryption_context ec) (io_bytes_per_sector io) D))"

lemma element_sizes_bounds:
  "s \<in> element_sizes full n left \<Longrightarrow> 0 < n \<Longrightarrow> 0 < left \<Longrightarrow> 0 < s \<and> s \<le> n \<and> (full \<longrightarrow> s = n)"
  by (auto simp: element_sizes_def split: if_splits)

lemma sparse_reads_blocks:
  assumes "deciphers xts io full ec decryption" "range_is_sparse r"
  shows "reads_blocks (file_system_data_handle_read_data_block xts f h) full (range_block blocks (io_block_size io) all) (io_block_size io) r"
  unfolding reads_blocks_def
proof (intro allI impI ballI)
  fix k s
  assume "k * io_block_size io < range_size r" "s \<in> element_sizes full (io_block_size io) (range_size r - k * io_block_size io)"
  then have s: "0 < s" "s \<le> io_block_size io"
    using element_sizes_bounds [of s full "io_block_size io"] assms(1) by (auto simp: deciphers_def)
  then have "s \<le> SSIZE_MAX" "s \<le> MEMORY_MAXIMUM_ALLOCATION_SIZE"
    using assms(1) by (auto simp: deciphers_def SSIZE_MAX_def MEMORY_MAXIMUM_ALLOCATION_SIZE_def)
  then show "file_system_data_handle_read_data_block xts f h (range_file_index r) (range_offset r + k * io_block_size io) s (range_is_sparse r) =
      Inr \<lparr>block_data = Some (take s (range_block blocks (io_block_size io) all r k)), block_data_size = s\<rparr>"
    using assms(2) s
    by (simp add: file_system_data_handle_read_data_block_def data_block_initialize_def data_block_clear_data_def range_block_def min_absorb1)
qed

lemma data_block_read_decrypted:
  assumes "deciphers xts io full ec decryption" "reads_disk f disk" "0 < s" "s \<le> io_block_size io" "ec \<noteq> None \<Longrightarrow> s = io_block_size io"
    and "i + s \<le> length disk"
  shows "data_block_read xts \<lparr>block_data = Some (replicate s 0), block_data_size = s\<rparr> io ec f i identifier =
    Inr \<lparr>block_data = Some (case decryption of None \<Rightarrow> take s (drop i disk)
      | Some D \<Rightarrow> decrypted_sectors D (take s (drop i disk)) (io_bytes_per_sector io) (s div io_bytes_per_sector io) 0
          ((identifier * s mod 2 ^ 64) div io_bytes_per_sector io)), block_data_size = s\<rparr>"
proof -
  have read: "read_buffer_at_offset f i s = Inr (take s (drop i disk))" "s \<le> SSIZE_MAX" "0 < io_bytes_per_sector io"
    using assms(1,2,4,6) by (auto simp: reads_disk_def read_buffer_at_offset_def deciphers_def SSIZE_MAX_def
        MEMORY_MAXIMUM_ALLOCATION_SIZE_def)
  show ?thesis
  proof (cases ec)
    case None
    then show ?thesis using assms(1) read by (simp add: data_block_read_def deciphers_def)
  next
    case (Some cx)
    let ?bps = "io_bytes_per_sector io" and ?number = "(identifier * s mod 2 ^ 64) div io_bytes_per_sector io"
    obtain D where D: "decryption = Some D" "decrypts_sectors xts (decryption_context cx) ?bps D" "s mod ?bps = 0"
      using assms(1,5) Some by (auto simp: deciphers_def)
    have "crypt_sectors xts cx (take s (drop i disk)) s ?bps 0 ?number (replicate s 0) =
        Some (Inr (decrypted_sectors D (take s (drop i disk)) ?bps (s div ?bps) 0 ?number))"
      using crypt_sectors_result [OF D(2) read(3), of 0 "s div ?bps" s "take s (drop i disk)" "replicate s 0" ?number] D(3) assms(6)
      by (simp add: minus_mod_eq_div_mult [symmetric])
    then show ?thesis
      using Some D(1) read by (simp add: data_block_read_def Let_def crypt_outcome_def encryption_context_crypt_def)
  qed
qed

lemma nat_mod_64: "nat ((int a + int k) mod 2 ^ 64) = (a + k) mod 2 ^ 64"
  by (metis nat_int of_nat_add of_nat_mod of_nat_numeral of_nat_power)

lemma extent_reads_blocks:
  assumes "deciphers xts io full ec decryption" "reads_disk f disk"
    and "range_file_index r < length all" "e = all ! range_file_index r" "\<not> range_is_sparse r"
    and "range_offset r = extent_physical_block_number e * io_block_size io"
    and "(extent_physical_block_number e + (range_size r + io_block_size io - 1) div io_block_size io) * io_block_size io \<le> length disk"
  shows "reads_blocks (file_system_data_handle_read_data_block xts f
      \<lparr>handle_io = io, handle_encryption_context = ec, handle_file_extents = Some all\<rparr>) full
      (range_block (block_bytes decryption io disk) (io_block_size io) all) (io_block_size io) r"
  unfolding reads_blocks_def
proof (intro allI impI ballI)
  fix k s
  let ?n = "io_block_size io" and ?b = "extent_physical_block_number e + k"
  assume k: "k * ?n < range_size r" and "s \<in> element_sizes full ?n (range_size r - k * ?n)"
  then have s: "0 < s" "s \<le> ?n" "ec \<noteq> None \<Longrightarrow> s = ?n"
    using element_sizes_bounds [of s full ?n] assms(1) by (auto simp: deciphers_def)
  have n: "0 < ?n" "?n \<le> MEMORY_MAXIMUM_ALLOCATION_SIZE" using assms(1) by (auto simp: deciphers_def)
  then have small: "s \<le> SSIZE_MAX" "s \<le> MEMORY_MAXIMUM_ALLOCATION_SIZE" using s(2) by (auto simp: SSIZE_MAX_def MEMORY_MAXIMUM_ALLOCATION_SIZE_def)
  have "k * ?n < ((range_size r + ?n - 1) div ?n) * ?n" using k blocks_enough [OF n(1), of "range_size r"] by linarith
  then have "k + 1 \<le> (range_size r + ?n - 1) div ?n" by simp
  then have "(?b + 1) * ?n \<le> (extent_physical_block_number e + (range_size r + ?n - 1) div ?n) * ?n" by (intro mult_le_mono1) simp
  then have disk: "?b * ?n + ?n \<le> length disk" using assms(7) by simp
  then have block: "length (take ?n (drop (?b * ?n) disk)) = ?n" "?b * ?n + s \<le> length disk" using s(2) by auto
  have offset: "range_offset r + k * ?n = ?b * ?n" using assms(6) by (simp add: add_mult_distrib)
  let ?id = "nat ((int (extent_encryption_identifier e) + (int (?b * ?n div s) - int (extent_physical_block_number e))) mod 2 ^ 64)"
  note read = data_block_read_decrypted [OF assms(1,2) s block(2), of ?id]
  have "(case decryption of None \<Rightarrow> take s (drop (?b * ?n) disk)
      | Some D \<Rightarrow> decrypted_sectors D (take s (drop (?b * ?n) disk)) (io_bytes_per_sector io) (s div io_bytes_per_sector io) 0
          ((?id * s mod 2 ^ 64) div io_bytes_per_sector io)) =
      take s (range_block (block_bytes decryption io disk) ?n all r k)"
  proof (cases ec)
    case None
    then have "decryption = None" using assms(1) by (simp add: deciphers_def)
    then show ?thesis
      using assms(4,5) s(2) block(1) by (simp add: range_block_def block_bytes_def Let_def min_absorb1)
  next
    case (Some cx)
    then have sn: "s = ?n" using s(3) by simp
    have id_value: "?id = (extent_encryption_identifier e + k) mod 2 ^ 64"
      unfolding sn using n(1) nat_mod_64 [of "extent_encryption_identifier e" k] by simp
    obtain D where D: "decryption = Some D" "decrypts_sectors xts (decryption_context cx) (io_bytes_per_sector io) D"
        "?n mod io_bytes_per_sector io = 0"
      using assms(1) Some by (auto simp: deciphers_def)
    let ?plain = "decrypted_sectors D (take ?n (drop (?b * ?n) disk)) (io_bytes_per_sector io) (?n div io_bytes_per_sector io) 0
      ((((extent_encryption_identifier e + k) mod 2 ^ 64) * ?n mod 2 ^ 64) div io_bytes_per_sector io)"
    have "length ?plain = ?n"
      using length_decrypted_sectors [OF D(2), of 0 "?n div io_bytes_per_sector io"] block(1) D(3)
      by (simp add: minus_mod_eq_div_mult [symmetric])
    then show ?thesis
      using assms(4,5) D(1) unfolding id_value unfolding sn by (simp add: range_block_def block_bytes_def Let_def)
  qed
  with read show "file_system_data_handle_read_data_block xts f \<lparr>handle_io = io, handle_encryption_context = ec, handle_file_extents = Some all\<rparr>
      (range_file_index r) (range_offset r + k * ?n) s (range_is_sparse r) =
      Inr \<lparr>block_data = Some (take s (range_block (block_bytes decryption io disk) ?n all r k)), block_data_size = s\<rparr>"
    using assms(3,4,5) s(1) small unfolding offset
    by (simp add: file_system_data_handle_read_data_block_def data_block_initialize_def Let_def)
qed

section \<open>The handle keeps the contract of a reader\<close>

definition extents_rep ::
    "'x xts_operations \<Rightarrow> ('v, 'c) vector_operations \<Rightarrow> (read_element \<Rightarrow> 'v \<Rightarrow> 'c \<Rightarrow> bool) \<Rightarrow> file_io
     \<Rightarrow> ('v, 'c, 'x) data_block_data_handle \<Rightarrow> bytes \<Rightarrow> nat \<Rightarrow> bool" where
  "extents_rep xts ops valid f h content pos \<longleftrightarrow>
     (let read = file_system_data_handle_read_data_block xts f (handle_file_system h)
      in presents ops (valid read (handle_vector h)) read (handle_vector h) content \<and>
         valid read (handle_vector h) (handle_cache h)) \<and>
     handle_current_offset h = int pos \<and> pos \<le> length content \<and> handle_data_size h = length content \<and> length content \<le> SSIZE_MAX"

interpretation extents_reader: segment_reader "data_block_data_handle_read_segment_data xts ops f 0"
  "seek_at (data_block_data_handle_seek_segment_offset 0)" "extents_rep xts ops valid f"
proof
  fix h content pos n
  assume rep: "extents_rep xts ops valid f h content pos" and n: "pos + n \<le> length content"
  let ?read = "file_system_data_handle_read_data_block xts f (handle_file_system h)"
  note parts = rep [unfolded extents_rep_def Let_def]
  show "\<exists>h'. data_block_data_handle_read_segment_data xts ops f 0 n h = (Inr (take n (drop pos content)), h') \<and>
      extents_rep xts ops valid f h' content (pos + n)"
  proof (cases "pos < length content")
    case True
    obtain c' where "read_data_blocks ops ?read n h = (Inr (take n (drop pos content)),
        h\<lparr>handle_cache := c', handle_current_offset := int (pos + n)\<rparr>)" "valid ?read (handle_vector h) c'"
      using read_data_blocks_presented [of ops "valid ?read (handle_vector h)" ?read h content pos n] parts n by auto
    then show ?thesis
      using parts n True by (auto simp: data_block_data_handle_read_segment_data_def extents_rep_def)
  next
    case False
    then have "n = 0" "pos = length content" using n by simp_all
    then show ?thesis
      using rep parts by (auto simp: data_block_data_handle_read_segment_data_def)
  qed
next
  fix h content pos i
  assume "extents_rep xts ops valid f h content pos" "i \<le> length content"
  then show "\<exists>h'. seek_at (data_block_data_handle_seek_segment_offset 0) i h = (Inr i, h') \<and> extents_rep xts ops valid f h' content i"
    by (auto simp: extents_rep_def seek_at_def data_block_data_handle_seek_segment_offset_def bindS_def)
qed

text \<open>A handle that is initialized with the extents of a file stands for its content.\<close>

lemma extents_content_length:
  assumes "extents_well n disk is_sparse l es" "0 < n" "\<And>e k. (extent_physical_block_number e + k + 1) * n \<le> length disk \<Longrightarrow> length (blocks e k) = n"
  shows "length (extents_content blocks n is_sparse l es) = sum_list (map range_size (extent_ranges n is_sparse i l es))"
    and "es \<noteq> [] \<Longrightarrow> l + sum_list (map range_size (extent_ranges n is_sparse i l es)) \<le> SSIZE_MAX"
proof -
  have "concat (map (range_content (range_block blocks n es) n) (extent_ranges n is_sparse (length []) l es)) =
      extents_content blocks n is_sparse l es"
    using ranges_content [OF assms(2,1), of es "[]" blocks] assms(3) by simp
  moreover have sizes: "map range_size (extent_ranges n is_sparse i l es) = map range_size (extent_ranges n is_sparse j l es)" for i j
    by (induction es arbitrary: i j l) auto
  moreover have "length (concat (map (range_content (range_block blocks n es) n) rs)) = sum_list (map range_size rs)" for rs
    using length_range_content [where B = "range_block blocks n es" and n = n, OF _ assms(2)] by (simp add: length_concat comp_def)
  ultimately show "length (extents_content blocks n is_sparse l es) = sum_list (map range_size (extent_ranges n is_sparse i l es))"
    by metis
  show "l + sum_list (map range_size (extent_ranges n is_sparse i l es)) \<le> SSIZE_MAX" if "es \<noteq> []"
    using assms(1) that
  proof (induction es arbitrary: i l)
    case (Cons e es)
    let ?l = "extent_logical_offset e + extent_data_size e"
    have "?l + sum_list (map range_size (extent_ranges n is_sparse (i + 1) ?l es)) \<le> SSIZE_MAX"
      using Cons.IH [of ?l "i + 1"] Cons.prems(1) by (cases "es = []") simp_all
    moreover have "l \<le> extent_logical_offset e" using Cons.prems(1) by simp
    ultimately show ?case by simp
  qed simp
qed

lemma block_bytes_length:
  assumes "deciphers xts io full ec decryption" "(extent_physical_block_number e + k + 1) * io_block_size io \<le> length disk"
  shows "length (block_bytes decryption io disk e k) = io_block_size io"
proof -
  have block: "length (take (io_block_size io) (drop ((extent_physical_block_number e + k) * io_block_size io) disk)) = io_block_size io"
    using assms(2) by simp
  show ?thesis
  proof (cases ec)
    case None
    then show ?thesis using assms(1) block by (simp add: deciphers_def block_bytes_def Let_def)
  next
    case (Some cx)
    then obtain D where D: "decryption = Some D" "decrypts_sectors xts (decryption_context cx) (io_bytes_per_sector io) D"
        "io_block_size io mod io_bytes_per_sector io = 0"
      using assms(1) by (auto simp: deciphers_def)
    then show ?thesis
      using length_decrypted_sectors [OF D(2), of 0 "io_block_size io div io_bytes_per_sector io"] block
      by (simp add: block_bytes_def Let_def minus_mod_eq_div_mult [symmetric])
  qed
qed

lemma ranges_read_blocks:
  assumes "deciphers xts io full ec decryption" "reads_disk f disk" "extents_well (io_block_size io) disk is_sparse l es" "all = before @ es"
    and "r \<in> set (extent_ranges (io_block_size io) is_sparse (length before) l es)"
  shows "reads_blocks (file_system_data_handle_read_data_block xts f
      \<lparr>handle_io = io, handle_encryption_context = ec, handle_file_extents = Some all\<rparr>) full
      (range_block (block_bytes decryption io disk) (io_block_size io) all) (io_block_size io) r"
  using assms(3-5)
proof (induction es arbitrary: before l)
  case (Cons e es)
  show ?case
  proof (cases "range_is_sparse r")
    case True
    then show ?thesis by (rule sparse_reads_blocks [OF assms(1)])
  next
    case False
    have "all = (before @ [e]) @ es" "length (before @ [e]) = length before + 1" using Cons.prems(2) by simp_all
    then consider "r = \<lparr>range_file_index = length before, range_offset = extent_physical_block_number e * io_block_size io,
          range_size = extent_data_size e, range_is_sparse = sparse_extent is_sparse e\<rparr>"
      | "r \<in> set (extent_ranges (io_block_size io) is_sparse (length (before @ [e])) (extent_logical_offset e + extent_data_size e) es)"
      using Cons.prems(3) False by (auto split: if_splits)
    then show ?thesis
    proof cases
      case 1
      show ?thesis
        by (rule extent_reads_blocks [OF assms(1,2), of _ _ e]) (use 1 False Cons.prems(1,2) in \<open>auto simp: nth_append\<close>)
    next
      case 2
      then show ?thesis using Cons.IH [of "extent_logical_offset e + extent_data_size e" "before @ [e]"] Cons.prems(1,2) by simp
    qed
  qed
qed simp

lemma data_block_data_handle_rep:
  assumes "vector_laws ops ranges element_size valid full" "deciphers xts io full ec decryption" "reads_disk f disk"
    and "extents_well (io_block_size io) disk is_sparse 0 es"
    and "number_of_elements (io_block_size io) (extent_ranges (io_block_size io) is_sparse 0 0 es) \<le> INT_MAX"
    and "\<And>read v. valid read v empty_cache"
  shows "\<exists>h. data_block_data_handle_initialize ops empty_cache None io ec es is_sparse = Inr h \<and>
    extents_rep xts ops valid f h (extents_content (block_bytes decryption io disk) (io_block_size io) is_sparse 0 es) 0"
proof -
  let ?n = "io_block_size io" and ?ranges = "extent_ranges (io_block_size io) is_sparse 0 0 es"
  let ?blocks = "block_bytes decryption io disk"
  let ?fs = "\<lparr>handle_io = io, handle_encryption_context = ec, handle_file_extents = Some es\<rparr>"
  let ?read = "file_system_data_handle_read_data_block xts f ?fs" and ?content = "extents_content ?blocks ?n is_sparse 0 es"
  have n: "0 < ?n" using assms(2) by (simp add: deciphers_def)
  obtain v0 where v0: "vector_initialize ops ?n = Inr v0" "ranges v0 = []" "element_size v0 = ?n"
    using assms(1) n unfolding vector_laws_def by blast
  obtain v where v: "append_extents ops ?n is_sparse 0 0 es v0 = Inr v" "ranges v = ?ranges" "element_size v = ?n"
    using append_extents_ranges [OF assms(1) n _ assms(4), of v0 0] assms(3) v0 by (auto simp: reads_disk_def)
  have size_value: "vector_get_size ops v = Inr (sum_list (map range_size ?ranges))"
    using assms(1) v(2) unfolding vector_laws_def by metis
  note lengths = extents_content_length [OF assms(4) n block_bytes_length [OF assms(2)], where i = 0]
  have content: "concat (map (range_content (range_block ?blocks ?n es) ?n) ?ranges) = ?content"
    using ranges_content [OF n assms(4), of es "[]" ?blocks] block_bytes_length [OF assms(2)] by simp
  have "presents ops (valid ?read v) ?read v (concat (map (range_content (range_block ?blocks ?n es) (element_size v)) (ranges v)))"
    using assms(5) n v(2,3) ranges_aligned [OF assms(4) _ n, of 0] ranges_read_blocks [OF assms(2,3,4), of es "[]"]
    by (intro vector_presents [OF assms(1)]) simp_all
  then have "presents ops (valid ?read v) ?read v ?content" using v(2,3) content by simp
  moreover have "length ?content \<le> SSIZE_MAX" using lengths by (cases "es = []") simp_all
  ultimately show ?thesis
    using v0(1) v(1) size_value lengths(1) assms(6)
    by (simp add: data_block_data_handle_initialize_def file_system_data_handle_initialize_def data_block_vector_initialize_def
        extents_rep_def)
qed

section \<open>Properties\<close>

text \<open>C24. A file with the given extents has the content of its extents: the
  blocks of the image, decrypted with the sector numbers that their identifiers give, with zeros for sparse
  extents and for the gaps between extents. Any sequence of seeks and reads gives the parts of this
  content, across blocks and extents and whatever the cache keeps.\<close>

theorem file_content_correct:
  assumes "vector_laws ops ranges element_size valid full" "deciphers xts io full ec decryption" "reads_disk f disk"
    and "extents_well (io_block_size io) disk is_sparse 0 es"
    and "number_of_elements (io_block_size io) (extent_ranges (io_block_size io) is_sparse 0 0 es) \<le> INT_MAX"
    and "\<And>read v. valid read v empty_cache"
    and "content = extents_content (block_bytes decryption io disk) (io_block_size io) is_sparse 0 es" "within content 0 requests"
  shows "\<exists>h h'. data_block_data_handle_initialize ops empty_cache None io ec es is_sparse = Inr h \<and>
    run_requests (data_block_data_handle_read_segment_data xts ops f 0) (seek_at (data_block_data_handle_seek_segment_offset 0))
      requests h = (Inr (answers content 0 requests), h')"
proof -
  obtain h where h: "data_block_data_handle_initialize ops empty_cache None io ec es is_sparse = Inr h"
      "extents_rep xts ops valid f h content 0"
    using data_block_data_handle_rep [OF assms(1-6)] assms(7) by blast
  with extents_reader.requests_answered [OF h(2) assms(8)] show ?thesis by blast
qed

text \<open>A vector without a cache.\<close>

definition plain_vector :: "(vector_segment list \<times> nat, unit) vector_operations" where
  "plain_vector = \<lparr>vector_initialize = (\<lambda>n. Inr ([], n)), vector_append_segment = (\<lambda>v r. Inr (fst v @ [r], snd v)),
     vector_get_size = (\<lambda>v. Inr (sum_list (map range_size (fst v)))),
     vector_get_element_value_at_offset = (\<lambda>v read off c.
       (case locate (fst v) off of
          None \<Rightarrow> Inl RUNTIME_GET_FAILED
        | Some (r, i) \<Rightarrow> bindR (read (range_file_index r) (range_offset r + i div snd v * snd v) (snd v) (range_is_sparse r))
            (\<lambda>b. Inr (i mod snd v, Some b)), c))\<rparr>"

lemma plain_vector_laws: "vector_laws plain_vector fst snd (\<lambda>_ _ _. True) True"
  by (simp add: vector_laws_def plain_vector_def element_sizes_def)

definition sample_extent_at :: "nat \<Rightarrow> nat \<Rightarrow> nat \<Rightarrow> nat \<Rightarrow> file_extent" where
  "sample_extent_at l b s i = \<lparr>extent_data_type = 8, extent_identifier = 20, extent_logical_address_flags = 0, extent_logical_offset = l,
     extent_physical_block_number = b, extent_data_size = s, extent_encryption_identifier = i, extent_sha256_digest = [],
     extent_has_sha256_digest = False\<rparr>"

definition sample_disk :: bytes where
  "sample_disk = [10, 11, 12, 13, 14, 15, 16, 17]"

definition sample_disk_io :: file_io where
  "sample_disk_io i n = (if i + n \<le> 8 then Inr (take n (drop i sample_disk)) else Inl IO_READ_FAILED)"

definition sample_io :: io_handle where
  "sample_io = \<lparr>io_bytes_per_sector = 2, io_block_size = 2, io_container_size = 8, io_abort = 0\<rparr>"

lemma sample_deciphers:
  "deciphers xor_xts sample_io True (Some \<lparr>encryption_method = 2, decryption_context = ()\<rparr>) (Some (\<lambda>t. map (\<lambda>b. b XOR hd t)))"
  by (simp add: deciphers_def sample_io_def MEMORY_MAXIMUM_ALLOCATION_SIZE_def decrypts_sectors_def xor_xts_def)

lemma sample_reads_disk: "reads_disk sample_disk_io sample_disk"
  by (simp add: reads_disk_def sample_disk_io_def sample_disk_def SSIZE_MAX_def)

theorem file_content_correct_witness:
  "\<exists>h h'. data_block_data_handle_initialize plain_vector () None sample_io (Some \<lparr>encryption_method = 2, decryption_context = ()\<rparr>)
      [sample_extent_at 0 2 2 5, sample_extent_at 4 1 1 7] 0 = Inr h \<and>
    run_requests (data_block_data_handle_read_segment_data xor_xts plain_vector sample_disk_io 0)
      (seek_at (data_block_data_handle_seek_segment_offset 0)) [Seek 1, Read 4, Seek 0, Read 1] h = (Inr [[10, 0, 0, 11], [11]], h')"
proof -
  have "le_encode 8 v = of_nat (v mod 256) # le_encode 7 (v div 256)" for v using le_encode.simps(2) [of 7 v] by simp
  moreover have "replicate 2 (0 :: byte) = [0, 0]" by (simp add: numeral_2_eq_2)
  ultimately have "extents_content (block_bytes (Some (\<lambda>t. map (\<lambda>b. b XOR hd t))) sample_io sample_disk) (io_block_size sample_io) 0 0
      [sample_extent_at 0 2 2 5, sample_extent_at 4 1 1 7] = [11, 10, 0, 0, 11]"
    by (simp add: block_bytes_def sample_io_def sample_disk_def sample_extent_at_def sparse_extent_def tweak_value_def)
  moreover have "extents_well (io_block_size sample_io) sample_disk 0 0 [sample_extent_at 0 2 2 5, sample_extent_at 4 1 1 7]"
    by (simp add: sample_io_def sample_disk_def sample_extent_at_def SSIZE_MAX_def)
  moreover have "number_of_elements (io_block_size sample_io) (extent_ranges (io_block_size sample_io) 0 0 0
      [sample_extent_at 0 2 2 5, sample_extent_at 4 1 1 7]) \<le> INT_MAX"
    by (simp add: number_of_elements_def sample_io_def sample_extent_at_def INT_MAX_def)
  ultimately show ?thesis
    using file_content_correct [OF plain_vector_laws sample_deciphers sample_reads_disk, where is_sparse = 0 and empty_cache = "()"
        and es = "[sample_extent_at 0 2 2 5, sample_extent_at 4 1 1 7]" and requests = "[Seek 1, Read 4, Seek 0, Read 1]"] by simp
qed

end
