(* ===== verification/Snapshots.thy ===== *)
theory Snapshots
  imports File_System_Lookup Sealed_Extents
begin

text \<open>
  The snapshots of a volume: a snapshot metadata record, \<open>libfsapfs_snapshot_metadata.c\<close>, and the tree of these
  records, \<open>libfsapfs_snapshot_metadata_tree.c\<close>, with the lookup of one record and the enumeration of all.
\<close>

section \<open>Snapshot metadata\<close>

record snapshot_metadata =
  snapshot_superblock_block_number :: nat
  snapshot_name :: "bytes option"
  snapshot_name_size :: nat

definition snapshot_metadata_initialize :: "snapshot_metadata option \<Rightarrow> snapshot_metadata result" where
  "snapshot_metadata_initialize metadata =
     (if metadata \<noteq> None then Inl RUNTIME_VALUE_ALREADY_SET
      else Inr \<lparr>snapshot_superblock_block_number = 0, snapshot_name = None, snapshot_name_size = 0\<rparr>)"

definition snapshot_metadata_read_key_data ::
    "snapshot_metadata \<Rightarrow> bytes option \<Rightarrow> nat \<Rightarrow> snapshot_metadata result" where
  "snapshot_metadata_read_key_data metadata data data_size =
     (case data of
        None \<Rightarrow> Inl RUNTIME_VALUE_MISSING
      | Some _ \<Rightarrow> if data_size < 8 \<or> data_size > SSIZE_MAX then Inl RUNTIME_VALUE_OUT_OF_BOUNDS else Inr metadata)"

text \<open>Of the 8 bytes of the block number only the lower 4 are read.\<close>

definition snapshot_metadata_read_value_data ::
    "snapshot_metadata \<Rightarrow> bytes option \<Rightarrow> nat \<Rightarrow> snapshot_metadata result" where
  "snapshot_metadata_read_value_data metadata data data_size =
     (case data of
        None \<Rightarrow> Inl RUNTIME_VALUE_MISSING
      | Some val \<Rightarrow>
          if data_size < 50 \<or> data_size > SSIZE_MAX then Inl RUNTIME_VALUE_OUT_OF_BOUNDS
          else
            bindR (rd_u32_le val 8) (\<lambda>block_number.
            bindR (rd_u16_le val 48) (\<lambda>name_size.
              if name_size = 0 \<or> name_size > data_size - 50 then Inl RUNTIME_VALUE_OUT_OF_BOUNDS
              else
                bindR (rd_slice val 50 name_size) (\<lambda>name.
                  Inr (metadata\<lparr>snapshot_superblock_block_number := block_number, snapshot_name := Some name,
                    snapshot_name_size := name_size\<rparr>)))))"

definition read_snapshot_metadata_entry :: "btree_entry \<Rightarrow> snapshot_metadata result" where
  "read_snapshot_metadata_entry entry =
     bindR (snapshot_metadata_initialize None) (\<lambda>metadata.
     bindR (snapshot_metadata_read_key_data metadata (key_data entry) (key_data_size entry)) (\<lambda>metadata.
       snapshot_metadata_read_value_data metadata (value_data entry) (value_data_size entry)))"

section \<open>The tree\<close>

record ('c, 'o) snapshot_metadata_tree =
  snapshot_node_cache :: "'c node_cache_operations"
  snapshot_data_block_vector :: block_vector
  snapshot_object_map_btree :: "'o object_map_btree"
  snapshot_root_node_block_number :: nat

text \<open>
  What its operations change: its node cache, the node cache of the object map and the array of snapshots
  that the caller passes.
\<close>

record ('c, 'o) snapshot_state =
  snapshot_nodes :: 'c
  snapshot_object_map_nodes :: 'o
  snapshots_found :: "snapshot_metadata list"

type_synonym ('c, 'o, 'a) snapshot_call = "(('c, 'o) snapshot_state, 'a) call"

definition snapshot_metadata_tree_initialize ::
    "('c, 'o) snapshot_metadata_tree option \<Rightarrow> 'c node_cache_operations \<Rightarrow> block_vector \<Rightarrow> 'o object_map_btree \<Rightarrow> nat
     \<Rightarrow> ('c, 'o) snapshot_metadata_tree result" where
  "snapshot_metadata_tree_initialize tree cache blocks object_map block_number =
     (if tree \<noteq> None then Inl RUNTIME_VALUE_ALREADY_SET
      else Inr \<lparr>snapshot_node_cache = cache, snapshot_data_block_vector = blocks, snapshot_object_map_btree = object_map,
        snapshot_root_node_block_number = block_number\<rparr>)"

definition on_snapshot_nodes :: "('c, 'a) call \<Rightarrow> ('c, 'o, 'a) snapshot_call" where
  "on_snapshot_nodes m s = (case m (snapshot_nodes s) of (r, c) \<Rightarrow> (r, s\<lparr>snapshot_nodes := c\<rparr>))"

definition on_snapshot_object_map :: "('o, 'a) call \<Rightarrow> ('c, 'o, 'a) snapshot_call" where
  "on_snapshot_object_map m s = (case m (snapshot_object_map_nodes s) of (r, c) \<Rightarrow> (r, s\<lparr>snapshot_object_map_nodes := c\<rparr>))"

definition on_snapshots :: "(snapshot_metadata list, 'a) call \<Rightarrow> ('c, 'o, 'a) snapshot_call" where
  "on_snapshots m s = (case m (snapshots_found s) of (r, c) \<Rightarrow> (r, s\<lparr>snapshots_found := c\<rparr>))"

text \<open>A failing enumeration empties the array.\<close>

definition or_empty :: "('c, 'o, 'a) snapshot_call \<Rightarrow> ('c, 'o, 'a) snapshot_call" where
  "or_empty m s = (case m s of (Inl e, s) \<Rightarrow> (Inl e, s\<lparr>snapshots_found := []\<rparr>) | (Inr x, s) \<Rightarrow> (Inr x, s))"

section \<open>Nodes\<close>

text \<open>The physical address that the object map has for an identifier.\<close>

definition snapshot_physical_address ::
    "('c, 'o) snapshot_metadata_tree \<Rightarrow> nat \<Rightarrow> nat \<Rightarrow> ('c, 'o, nat option) snapshot_call" where
  "snapshot_physical_address tree object_identifier transaction =
     bindS (on_snapshot_object_map (object_map_btree_get_descriptor_by_object_identifier (snapshot_object_map_btree tree)
       object_identifier transaction None)) (\<lambda>descriptor. returnS (map_option physical_address descriptor))"

definition snapshot_metadata_tree_get_sub_node_block_number_from_entry ::
    "('c, 'o) snapshot_metadata_tree \<Rightarrow> btree_entry \<Rightarrow> nat \<Rightarrow> ('c, 'o, nat option) snapshot_call" where
  "snapshot_metadata_tree_get_sub_node_block_number_from_entry tree entry transaction =
     (case value_data entry of
        None \<Rightarrow> failS RUNTIME_VALUE_MISSING
      | Some val \<Rightarrow>
          if value_data_size entry < 8 then failS RUNTIME_VALUE_OUT_OF_BOUNDS
          else bindS (liftS (rd_u64_le val 0)) (\<lambda>object_identifier.
            snapshot_physical_address tree object_identifier transaction))"

text \<open>The type of a node without an object header (flag 16) is not checked.\<close>

definition check_snapshot_object :: "nat \<Rightarrow> btree_node \<Rightarrow> unit result" where
  "check_snapshot_object node_type node =
     (if case node_header node of None \<Rightarrow> True | Some header \<Rightarrow> flags header AND 0x0010 = 0 then
        if object_type node \<noteq> node_type then Inl RUNTIME_UNSUPPORTED_VALUE
        else if object_subtype node \<noteq> 0x00000010 then Inl RUNTIME_UNSUPPORTED_VALUE
        else Inr ()
      else Inr ())"

definition check_snapshot_root_node :: "btree_node \<Rightarrow> unit result" where
  "check_snapshot_root_node node =
     bindR (check_snapshot_object 0x40000002 node) (\<lambda>_.
       case node_header node of
         None \<Rightarrow> Inl RUNTIME_VALUE_MISSING
       | Some header \<Rightarrow>
           if flags header AND 0x0001 = 0 then Inl RUNTIME_UNSUPPORTED_VALUE
           else case footer node of
             None \<Rightarrow> Inl RUNTIME_VALUE_MISSING
           | Some node_footer \<Rightarrow>
               if node_size node_footer \<noteq> 4096 then Inl RUNTIME_VALUE_OUT_OF_BOUNDS
               else if key_size node_footer \<noteq> 0 then Inl RUNTIME_VALUE_OUT_OF_BOUNDS
               else if value_size node_footer \<noteq> 0 then Inl RUNTIME_VALUE_OUT_OF_BOUNDS
               else Inr ())"

definition check_snapshot_sub_node :: "btree_node \<Rightarrow> unit result" where
  "check_snapshot_sub_node node =
     bindR (check_snapshot_object 0x40000003 node) (\<lambda>_.
       case node_header node of
         None \<Rightarrow> Inl OUT_OF_BOUNDS_ACCESS
       | Some header \<Rightarrow> if flags header AND 0x0001 \<noteq> 0 then Inl RUNTIME_UNSUPPORTED_VALUE else Inr ())"

text \<open>
  The root node is named by its block, or by an identifier that the object map translates. It is put into the
  cache by its block and then asked for by the number that was passed.
\<close>

definition cached_snapshot_root ::
    "'c node_cache_operations \<Rightarrow> block_vector \<Rightarrow> nat \<Rightarrow> nat \<Rightarrow> ('c, btree_node option) call" where
  "cached_snapshot_root ops blocks physical_block_number block_number =
     bindS (cache_get_value_by_identifier ops physical_block_number) (\<lambda>cache_value.
       case cache_value of
         Some node \<Rightarrow> returnS (Some node)
       | None \<Rightarrow>
           bindS (liftS (read_node blocks physical_block_number)) (\<lambda>node.
           if empty_block_node node then returnS None
           else
             bindS (liftS (check_snapshot_root_node node)) (\<lambda>_.
             bindS (cache_set_value_by_identifier ops physical_block_number node) (\<lambda>_.
             bindS (cache_get_value_by_identifier ops block_number) (\<lambda>cache_value.
               case cache_value of
                 None \<Rightarrow> failS RUNTIME_GET_FAILED
               | Some node \<Rightarrow> returnS (Some node))))))"

definition snapshot_metadata_tree_get_root_node ::
    "('c, 'o) snapshot_metadata_tree \<Rightarrow> nat \<Rightarrow> nat \<Rightarrow> ('c, 'o, btree_node option) snapshot_call" where
  "snapshot_metadata_tree_get_root_node tree transaction block_number =
     bindS (snapshot_physical_address tree block_number transaction) (\<lambda>address.
       let physical_block_number = (case address of None \<Rightarrow> block_number | Some address \<Rightarrow> address)
       in if physical_block_number > INT_MAX then failS RUNTIME_VALUE_OUT_OF_BOUNDS
          else on_snapshot_nodes
            (cached_snapshot_root (snapshot_node_cache tree) (snapshot_data_block_vector tree) physical_block_number block_number))"

definition snapshot_metadata_tree_get_sub_node ::
    "('c, 'o) snapshot_metadata_tree \<Rightarrow> nat \<Rightarrow> ('c, 'o, btree_node) snapshot_call" where
  "snapshot_metadata_tree_get_sub_node tree block_number =
     (if block_number > INT_MAX then failS RUNTIME_VALUE_OUT_OF_BOUNDS
      else on_snapshot_nodes
        (get_cached_node (snapshot_node_cache tree) (snapshot_data_block_vector tree) check_snapshot_sub_node block_number))"

section \<open>Lookup\<close>

definition snapshot_key :: "btree_entry \<Rightarrow> nat result" where
  "snapshot_key entry =
     (case key_data entry of
        None \<Rightarrow> Inl RUNTIME_VALUE_MISSING
      | Some key \<Rightarrow> if key_data_size entry < 8 then Inl RUNTIME_VALUE_OUT_OF_BOUNDS else rd_u64_le key 0)"

text \<open>The inner option is the entry pointer, which is NULL when a branch node has no entries.\<close>

fun scan_snapshot_entries ::
    "bool \<Rightarrow> nat \<Rightarrow> btree_entry list \<Rightarrow> btree_entry option \<Rightarrow> btree_entry option option result" where
  "scan_snapshot_entries is_leaf_node object_identifier [] previous_entry =
     (if is_leaf_node then Inr None else Inr (Some previous_entry))"
| "scan_snapshot_entries is_leaf_node object_identifier (entry # entries) previous_entry =
     bindR (snapshot_key entry) (\<lambda>key.
       let snapshot_identifier = key AND 0x0fffffffffffffff
       in if is_leaf_node then
            if snapshot_identifier = object_identifier then Inr (Some (Some entry))
            else scan_snapshot_entries is_leaf_node object_identifier entries previous_entry
          else if snapshot_identifier \<ge> object_identifier then
            if previous_entry = None \<or> snapshot_identifier = object_identifier then Inr (Some (Some entry))
            else Inr (Some previous_entry)
          else scan_snapshot_entries is_leaf_node object_identifier entries (Some entry))"

definition snapshot_metadata_tree_get_entry_from_node_by_identifier ::
    "btree_node \<Rightarrow> nat \<Rightarrow> btree_entry option option result" where
  "snapshot_metadata_tree_get_entry_from_node_by_identifier node object_identifier =
     bindR (btree_node_is_leaf_node node) (\<lambda>is_leaf_node.
       scan_snapshot_entries (is_leaf_node \<noteq> 0) object_identifier (entries_array node) None)"

text \<open>
  The descent takes the value of an entry for the block of the child; the object map is not asked. The levels that are
  left are 257 less the depth of the recursion.
\<close>

primrec search_snapshot_node ::
    "('c, 'o) snapshot_metadata_tree \<Rightarrow> nat \<Rightarrow> nat \<Rightarrow> btree_node
     \<Rightarrow> ('c, 'o, (btree_node \<times> btree_entry) option) snapshot_call" where
  "search_snapshot_node tree object_identifier 0 = (\<lambda>node. failS RUNTIME_VALUE_OUT_OF_BOUNDS)"
| "search_snapshot_node tree object_identifier (Suc levels) = (\<lambda>node.
     bindS (liftS (btree_node_is_leaf_node node)) (\<lambda>is_leaf_node.
     bindS (liftS (snapshot_metadata_tree_get_entry_from_node_by_identifier node object_identifier)) (\<lambda>found.
       case found of
         None \<Rightarrow> returnS None
       | Some None \<Rightarrow> failS RUNTIME_VALUE_MISSING
       | Some (Some entry) \<Rightarrow>
           if is_leaf_node \<noteq> 0 then returnS (Some (node, entry))
           else
             bindS (liftS (entry_sub_node_block_number (Some entry))) (\<lambda>sub_node_block_number.
             bindS (snapshot_metadata_tree_get_sub_node tree sub_node_block_number)
               (search_snapshot_node tree object_identifier levels)))))"

definition snapshot_metadata_tree_get_entry_by_identifier ::
    "('c, 'o) snapshot_metadata_tree \<Rightarrow> nat \<Rightarrow> nat \<Rightarrow> ('c, 'o, (btree_node \<times> btree_entry) option) snapshot_call" where
  "snapshot_metadata_tree_get_entry_by_identifier tree transaction object_identifier =
     bindS (snapshot_metadata_tree_get_root_node tree transaction (snapshot_root_node_block_number tree)) (\<lambda>root.
       case root of
         None \<Rightarrow> failS RUNTIME_GET_FAILED
       | Some node \<Rightarrow>
           search_snapshot_node tree object_identifier (Suc MAXIMUM_BTREE_NODE_RECURSION_DEPTH) node)"

definition snapshot_metadata_tree_get_metadata_by_object_identifier ::
    "('c, 'o) snapshot_metadata_tree \<Rightarrow> nat \<Rightarrow> nat \<Rightarrow> snapshot_metadata option
     \<Rightarrow> ('c, 'o, snapshot_metadata option) snapshot_call" where
  "snapshot_metadata_tree_get_metadata_by_object_identifier tree transaction object_identifier metadata =
     (if metadata \<noteq> None then failS RUNTIME_VALUE_ALREADY_SET
      else
        bindS (snapshot_metadata_tree_get_entry_by_identifier tree transaction object_identifier) (\<lambda>found.
          case found of
            None \<Rightarrow> returnS None
          | Some (node, entry) \<Rightarrow>
              bindS (liftS (read_snapshot_metadata_entry entry)) (\<lambda>metadata. returnS (Some metadata))))"

section \<open>All snapshots\<close>

definition DATA_TYPE_SNAPSHOT_METADATA :: nat where "DATA_TYPE_SNAPSHOT_METADATA = 1"

text \<open>
  The entries of other types are skipped. Every failure empties the array, but that of a key that is too small;
  the callers do it then.
\<close>

fun collect_snapshots :: "btree_entry list \<Rightarrow> bool \<Rightarrow> (snapshot_metadata list, bool) call" where
  "collect_snapshots [] found snapshots = (Inr found, snapshots)"
| "collect_snapshots (entry # entries) found snapshots =
     (case snapshot_key entry of
        Inl e \<Rightarrow> (Inl e, if key_data entry \<noteq> None \<and> key_data_size entry < 8 then snapshots else [])
      | Inr key \<Rightarrow>
          if drop_bit 60 key \<noteq> DATA_TYPE_SNAPSHOT_METADATA then collect_snapshots entries found snapshots
          else
            (case read_snapshot_metadata_entry entry of
               Inl e \<Rightarrow> (Inl e, [])
             | Inr metadata \<Rightarrow> collect_snapshots entries True (snapshots @ [metadata])))"

definition snapshot_metadata_tree_get_snapshots_from_leaf_node :: "btree_node \<Rightarrow> (snapshot_metadata list, bool) call" where
  "snapshot_metadata_tree_get_snapshots_from_leaf_node node snapshots =
     (case btree_node_is_leaf_node node of
        Inl e \<Rightarrow> (Inl e, [])
      | Inr is_leaf_node \<Rightarrow>
          if is_leaf_node = 0 then (Inl RUNTIME_UNSUPPORTED_VALUE, [])
          else collect_snapshots (entries_array node) False snapshots)"

text \<open>The snapshots below the entries of a branch node.\<close>

fun visit_snapshot_children ::
    "('c, 'o) snapshot_metadata_tree \<Rightarrow> nat \<Rightarrow> (btree_node \<Rightarrow> ('c, 'o, bool) snapshot_call) \<Rightarrow> btree_entry list \<Rightarrow> bool
     \<Rightarrow> ('c, 'o, bool) snapshot_call" where
  "visit_snapshot_children tree transaction from_branch [] found = returnS found"
| "visit_snapshot_children tree transaction from_branch (entry # entries) found =
     bindS (liftS (snapshot_key entry)) (\<lambda>_.
     bindS (snapshot_metadata_tree_get_sub_node_block_number_from_entry tree entry transaction) (\<lambda>block_number.
       case block_number of
         None \<Rightarrow> failS RUNTIME_GET_FAILED
       | Some block_number \<Rightarrow>
           bindS (snapshot_metadata_tree_get_sub_node tree block_number) (\<lambda>sub_node.
           bindS (liftS (btree_node_is_leaf_node sub_node)) (\<lambda>is_leaf_node.
           bindS (if is_leaf_node \<noteq> 0 then on_snapshots (snapshot_metadata_tree_get_snapshots_from_leaf_node sub_node)
                  else from_branch sub_node) (\<lambda>result.
             visit_snapshot_children tree transaction from_branch entries (found \<or> result))))))"

primrec snapshot_metadata_tree_get_snapshots_from_branch_node ::
    "('c, 'o) snapshot_metadata_tree \<Rightarrow> nat \<Rightarrow> nat \<Rightarrow> btree_node \<Rightarrow> ('c, 'o, bool) snapshot_call" where
  "snapshot_metadata_tree_get_snapshots_from_branch_node tree transaction 0 = (\<lambda>node. failS RUNTIME_VALUE_OUT_OF_BOUNDS)"
| "snapshot_metadata_tree_get_snapshots_from_branch_node tree transaction (Suc levels) = (\<lambda>node.
     or_empty
       (bindS (liftS (btree_node_is_leaf_node node)) (\<lambda>is_leaf_node.
          if is_leaf_node \<noteq> 0 then failS RUNTIME_UNSUPPORTED_VALUE
          else visit_snapshot_children tree transaction
            (snapshot_metadata_tree_get_snapshots_from_branch_node tree transaction levels) (entries_array node) False)))"

definition snapshot_metadata_tree_get_snapshots ::
    "('c, 'o) snapshot_metadata_tree \<Rightarrow> nat \<Rightarrow> ('c, 'o, bool) snapshot_call" where
  "snapshot_metadata_tree_get_snapshots tree transaction =
     or_empty
       (bindS (snapshot_metadata_tree_get_root_node tree transaction (snapshot_root_node_block_number tree)) (\<lambda>root.
          case root of
            None \<Rightarrow> failS RUNTIME_GET_FAILED
          | Some root_node \<Rightarrow>
              bindS (liftS (btree_node_is_leaf_node root_node)) (\<lambda>is_leaf_node.
                if is_leaf_node \<noteq> 0 then on_snapshots (snapshot_metadata_tree_get_snapshots_from_leaf_node root_node)
                else snapshot_metadata_tree_get_snapshots_from_branch_node tree transaction
                  (Suc MAXIMUM_BTREE_NODE_RECURSION_DEPTH) root_node)))"

section \<open>What the enumeration finds\<close>

text \<open>The caches hold nodes as they are in their blocks, and the object map has the entries \<open>om\<close>.\<close>

definition snapshot_state_valid ::
    "('c, 'o) snapshot_metadata_tree \<Rightarrow> ('c \<Rightarrow> nat \<rightharpoonup> btree_node) \<Rightarrow> ('o \<Rightarrow> nat \<rightharpoonup> btree_node)
     \<Rightarrow> ('c, 'o) snapshot_state \<Rightarrow> bool" where
  "snapshot_state_valid tree contents om_contents s \<longleftrightarrow>
     cache_laws (snapshot_node_cache tree) contents \<and>
     coherent (snapshot_data_block_vector tree) (contents (snapshot_nodes s)) \<and>
     cache_valid (snapshot_object_map_btree tree) om_contents (snapshot_object_map_nodes s)"

definition snapshot_object_map :: "('c, 'o) snapshot_metadata_tree \<Rightarrow> btree_entry list \<Rightarrow> bool" where
  "snapshot_object_map tree om \<longleftrightarrow>
     (\<exists>h\<le>MAXIMUM_BTREE_NODE_RECURSION_DEPTH. object_map_entries (snapshot_object_map_btree tree) h = Some om)"

text \<open>The child that an entry names, and the entries in the leaves of a tree of at most the given height.\<close>

definition snapshot_child :: "block_vector \<Rightarrow> btree_entry list \<Rightarrow> nat \<Rightarrow> btree_entry \<Rightarrow> btree_node option" where
  "snapshot_child blocks om transaction e =
     (case (snapshot_key e, entry_sub_node_block_number (Some e)) of
        (Inr _, Inr oid) \<Rightarrow>
          if oid = 0 then None
          else (case object_block om transaction oid of
             None \<Rightarrow> None
           | Some a \<Rightarrow>
               if a > INT_MAX then None
               else (case read_node blocks a of
                  Inl _ \<Rightarrow> None
                | Inr m \<Rightarrow> if check_snapshot_sub_node m = Inr () then Some m else None))
      | _ \<Rightarrow> None)"

primrec snapshot_leaves :: "(btree_entry \<Rightarrow> btree_node option) \<Rightarrow> nat \<Rightarrow> btree_node \<Rightarrow> btree_entry list option" where
  "snapshot_leaves child 0 = (\<lambda>n. if is_leaf n then Some (entries_array n) else None)"
| "snapshot_leaves child (Suc h) = (\<lambda>n.
     if is_leaf n then Some (entries_array n)
     else if node_header n = None then None
     else map_option concat (those (map (\<lambda>e. Option.bind (child e) (snapshot_leaves child h)) (entries_array n))))"

text \<open>The snapshots among the entries of the leaves, when all of them are readable.\<close>

definition snapshot_record :: "btree_entry \<Rightarrow> bool" where
  "snapshot_record e \<longleftrightarrow> (case snapshot_key e of Inl _ \<Rightarrow> False | Inr key \<Rightarrow> drop_bit 60 key = DATA_TYPE_SNAPSHOT_METADATA)"

definition snapshot_of :: "btree_entry \<Rightarrow> snapshot_metadata option" where
  "snapshot_of e = (case read_snapshot_metadata_entry e of Inl _ \<Rightarrow> None | Inr metadata \<Rightarrow> Some metadata)"

definition keys_readable :: "btree_entry list \<Rightarrow> bool" where
  "keys_readable es \<longleftrightarrow> list_all (\<lambda>e. case snapshot_key e of Inl _ \<Rightarrow> False | Inr _ \<Rightarrow> True) es"

definition snapshot_records :: "btree_entry list \<Rightarrow> snapshot_metadata list option" where
  "snapshot_records es = (if keys_readable es then those (map snapshot_of (filter snapshot_record es)) else None)"

lemma those_append:
  "those (xs @ ys) = Some zs \<longleftrightarrow> (\<exists>us vs. those xs = Some us \<and> those ys = Some vs \<and> zs = us @ vs)"
proof (induction xs arbitrary: zs)
  case (Cons x xs)
  show ?case
    by (cases x) (auto simp: Cons.IH)
qed simp

lemma snapshot_records_append:
  "snapshot_records (xs @ ys) = Some zs \<longleftrightarrow>
     (\<exists>us vs. snapshot_records xs = Some us \<and> snapshot_records ys = Some vs \<and> zs = us @ vs)"
  by (auto simp: snapshot_records_def keys_readable_def those_append)

lemma snapshot_records_Nil [simp]: "snapshot_records [] = Some []"
  by (simp add: snapshot_records_def keys_readable_def)

lemma collect_snapshots_records:
  assumes "snapshot_records es = Some ms"
  shows "collect_snapshots es found snapshots = (Inr (found \<or> ms \<noteq> []), snapshots @ ms)"
  using assms
proof (induction es arbitrary: ms found snapshots)
  case (Cons e es)
  from Cons.prems obtain us vs where ms: "snapshot_records [e] = Some us" "snapshot_records es = Some vs" "ms = us @ vs"
    using snapshot_records_append [of "[e]" es ms] by auto
  obtain key where key: "snapshot_key e = Inr key"
    using ms(1) by (auto simp: snapshot_records_def keys_readable_def split: if_splits sum.splits)
  show ?case
  proof (cases "drop_bit 60 key = DATA_TYPE_SNAPSHOT_METADATA")
    case True
    then obtain m where "read_snapshot_metadata_entry e = Inr m" "us = [m]"
      using ms(1) key
      by (auto simp: snapshot_records_def snapshot_record_def snapshot_of_def split: if_splits sum.splits option.splits)
    then show ?thesis using Cons.IH [OF ms(2)] True key ms(3) by simp
  next
    case False
    then have "us = []" using ms(1) key by (auto simp: snapshot_records_def snapshot_record_def split: if_splits)
    then show ?thesis using Cons.IH [OF ms(2)] False key ms(3) by simp
  qed
qed simp

lemma leaf_snapshots:
  assumes "snapshot_records (entries_array n) = Some ms" "is_leaf n"
  shows "on_snapshots (snapshot_metadata_tree_get_snapshots_from_leaf_node n) s =
    (Inr (ms \<noteq> []), s\<lparr>snapshots_found := snapshots_found s @ ms\<rparr>)"
  using assms(2) collect_snapshots_records [OF assms(1)]
  by (auto simp: on_snapshots_def snapshot_metadata_tree_get_snapshots_from_leaf_node_def is_leaf_def
      btree_node_is_leaf_node_def split: option.splits)

lemma snapshot_state_valid_found [simp]:
  "snapshot_state_valid tree contents om_contents (s\<lparr>snapshots_found := xs\<rparr>) \<longleftrightarrow>
   snapshot_state_valid tree contents om_contents s"
  by (simp add: snapshot_state_valid_def)

text \<open>The calls on the caches do not change the array.\<close>

lemma physical_address_found:
  assumes "snapshot_state_valid tree contents om_contents s" "snapshot_object_map tree om" "oid \<noteq> 0"
  obtains s' where "snapshot_state_valid tree contents om_contents s'" "snapshots_found s' = snapshots_found s"
    "snapshot_nodes s' = snapshot_nodes s"
    "snapshot_physical_address tree oid transaction s = (Inr (object_block om transaction oid), s')"
proof -
  obtain h where h: "h \<le> MAXIMUM_BTREE_NODE_RECURSION_DEPTH" "object_map_entries (snapshot_object_map_btree tree) h = Some om"
    using assms(2) by (auto simp: snapshot_object_map_def)
  have "cache_valid (snapshot_object_map_btree tree) om_contents (snapshot_object_map_nodes s)"
    using assms(1) by (simp add: snapshot_state_valid_def)
  from get_descriptor_found [OF this h(2,1) assms(3), of transaction] obtain o' where
    "cache_valid (snapshot_object_map_btree tree) om_contents o'"
    "object_map_btree_get_descriptor_by_object_identifier (snapshot_object_map_btree tree) oid transaction None (snapshot_object_map_nodes s) =
      (Inr (case latest entry_key (oid, transaction) om of None \<Rightarrow> None
         | Some e \<Rightarrow> if fst (entry_key e) = oid then Some (descriptor_of e) else None), o')" by blast
  then show ?thesis
    using assms(1) by (intro that [of "s\<lparr>snapshot_object_map_nodes := o'\<rparr>"])
      (auto simp: snapshot_physical_address_def on_snapshot_object_map_def bindS_def snapshot_state_valid_def object_block_def split: option.splits)
qed

lemma sub_node_found:
  assumes "snapshot_state_valid tree contents om_contents s" "a \<le> INT_MAX"
    and "read_node (snapshot_data_block_vector tree) a = Inr m" "check_snapshot_sub_node m = Inr ()"
  obtains s' where "snapshot_state_valid tree contents om_contents s'" "snapshots_found s' = snapshots_found s"
    "snapshot_metadata_tree_get_sub_node tree a s = (Inr m, s')"
proof -
  obtain r c where get: "get_cached_node (snapshot_node_cache tree) (snapshot_data_block_vector tree) check_snapshot_sub_node a
      (snapshot_nodes s) = (r, c)" by fastforce
  have laws: "cache_laws (snapshot_node_cache tree) contents"
    "coherent (snapshot_data_block_vector tree) (contents (snapshot_nodes s))"
    using assms(1) by (auto simp: snapshot_state_valid_def)
  have "r = Inr m" by (rule get_cached_node_coherent(3) [OF laws get assms(3,4)])
  then show ?thesis
    using that [of "s\<lparr>snapshot_nodes := c\<rparr>"] assms(1,2) get get_cached_node_coherent(1) [OF laws get]
    by (simp add: snapshot_metadata_tree_get_sub_node_def on_snapshot_nodes_def snapshot_state_valid_def)
qed

lemma child_found:
  assumes "snapshot_state_valid tree contents om_contents s" "snapshot_object_map tree om"
    and "snapshot_child (snapshot_data_block_vector tree) om transaction e = Some m"
  obtains s' where "snapshot_state_valid tree contents om_contents s'" "snapshots_found s' = snapshots_found s"
    "visit_snapshot_children tree transaction branch (e # es) found s =
      bindS (liftS (btree_node_is_leaf_node m)) (\<lambda>is_leaf_node.
      bindS (if is_leaf_node \<noteq> 0 then on_snapshots (snapshot_metadata_tree_get_snapshots_from_leaf_node m)
             else branch m) (\<lambda>result. visit_snapshot_children tree transaction branch es (found \<or> result))) s'"
proof -
  from assms(3) obtain key oid a where c: "snapshot_key e = Inr key" "entry_sub_node_block_number (Some e) = Inr oid" "oid \<noteq> 0"
    "object_block om transaction oid = Some a" "a \<le> INT_MAX" "read_node (snapshot_data_block_vector tree) a = Inr m"
    "check_snapshot_sub_node m = Inr ()"
    by (auto simp: snapshot_child_def split: sum.splits option.splits if_splits)
  obtain s1 where s1: "snapshot_state_valid tree contents om_contents s1" "snapshots_found s1 = snapshots_found s"
    "snapshot_physical_address tree oid transaction s = (Inr (Some a), s1)"
    using physical_address_found [OF assms(1,2) c(3), of transaction] c(4) by metis
  obtain s2 where s2: "snapshot_state_valid tree contents om_contents s2" "snapshots_found s2 = snapshots_found s1"
    "snapshot_metadata_tree_get_sub_node tree a s1 = (Inr m, s2)"
    by (rule sub_node_found [OF s1(1) c(5-7)])
  have "snapshot_metadata_tree_get_sub_node_block_number_from_entry tree e transaction s = (Inr (Some a), s1)"
    using c(2) s1(3)
    by (auto simp: snapshot_metadata_tree_get_sub_node_block_number_from_entry_def entry_sub_node_block_number_def
        split: option.splits if_splits)
  then show ?thesis
    using that [OF s2(1)] s1(2) s2(2,3) c(1) by (simp add: bindS_def)
qed

lemma branch_snapshots:
  assumes "snapshot_leaves (snapshot_child (snapshot_data_block_vector tree) om transaction) h n = Some es" "h \<le> levels"
    and "\<not> is_leaf n" "snapshot_records es = Some ms" "snapshot_object_map tree om"
    and "snapshot_state_valid tree contents om_contents s"
  shows "\<exists>s'. snapshot_metadata_tree_get_snapshots_from_branch_node tree transaction levels n s = (Inr (ms \<noteq> []), s') \<and>
    snapshot_state_valid tree contents om_contents s' \<and> snapshots_found s' = snapshots_found s @ ms"
  using assms(1-4,6)
proof (induction h arbitrary: levels n es ms s)
  case (Suc h)
  let ?child = "snapshot_child (snapshot_data_block_vector tree) om transaction"
  obtain l where l: "levels = Suc l" "h \<le> l" using Suc.prems(2) by (cases levels) auto
  let ?branch = "snapshot_metadata_tree_get_snapshots_from_branch_node tree transaction l"
  obtain hd' where hd': "node_header n = Some hd'" using Suc.prems(1,3) by (auto split: if_splits)
  obtain ess where ess: "those (map (\<lambda>e. Option.bind (?child e) (snapshot_leaves ?child h)) (entries_array n)) = Some ess"
    "es = concat ess" using Suc.prems(1,3) hd' by auto
  have "\<exists>s'. visit_snapshot_children tree transaction ?branch entries found s = (Inr (found \<or> ms \<noteq> []), s') \<and>
      snapshot_state_valid tree contents om_contents s' \<and> snapshots_found s' = snapshots_found s @ ms"
    if "those (map (\<lambda>e. Option.bind (?child e) (snapshot_leaves ?child h)) entries) = Some ess"
      "snapshot_records (concat ess) = Some ms" "snapshot_state_valid tree contents om_contents s" for entries ess ms found s
    using that
  proof (induction entries arbitrary: ess ms found s)
    case (Cons e entries)
    obtain m es' ess' where e: "?child e = Some m" "snapshot_leaves ?child h m = Some es'" "ess = es' # ess'"
      "those (map (\<lambda>e. Option.bind (?child e) (snapshot_leaves ?child h)) entries) = Some ess'"
      using Cons.prems(1) by (auto simp: bind_eq_Some_conv split: option.splits)
    obtain us vs where ms: "snapshot_records es' = Some us" "snapshot_records (concat ess') = Some vs" "ms = us @ vs"
      using Cons.prems(2) e(3) by (auto simp: snapshot_records_append)
    obtain s1 where s1: "snapshot_state_valid tree contents om_contents s1" "snapshots_found s1 = snapshots_found s"
      "visit_snapshot_children tree transaction ?branch (e # entries) found s =
        bindS (liftS (btree_node_is_leaf_node m)) (\<lambda>is_leaf_node.
        bindS (if is_leaf_node \<noteq> 0 then on_snapshots (snapshot_metadata_tree_get_snapshots_from_leaf_node m)
               else ?branch m) (\<lambda>result. visit_snapshot_children tree transaction ?branch entries (found \<or> result))) s1"
      by (rule child_found [OF Cons.prems(3) assms(5) e(1)])
    have "node_header m \<noteq> None"
      using e(1) by (auto simp: snapshot_child_def check_snapshot_sub_node_def bindR_eq_Inr split: sum.splits option.splits if_splits)
    then obtain hm where hm: "node_header m = Some hm" by auto
    have "\<exists>s2. (if is_leaf m then on_snapshots (snapshot_metadata_tree_get_snapshots_from_leaf_node m) else ?branch m) s1 =
        (Inr (us \<noteq> []), s2) \<and> snapshot_state_valid tree contents om_contents s2 \<and> snapshots_found s2 = snapshots_found s1 @ us"
    proof (cases "is_leaf m")
      case True
      then have "es' = entries_array m" using e(2) by (cases h) auto
      then show ?thesis using True leaf_snapshots [of m us s1] ms(1) s1(1) by simp
    next
      case False
      then show ?thesis using Suc.IH [OF e(2) l(2) False ms(1) s1(1)] by simp
    qed
    then obtain s2 where s2: "(if is_leaf m then on_snapshots (snapshot_metadata_tree_get_snapshots_from_leaf_node m) else ?branch m) s1 =
        (Inr (us \<noteq> []), s2)" "snapshot_state_valid tree contents om_contents s2" "snapshots_found s2 = snapshots_found s1 @ us"
      by blast
    have "visit_snapshot_children tree transaction ?branch (e # entries) found s =
        visit_snapshot_children tree transaction ?branch entries (found \<or> us \<noteq> []) s2"
      unfolding s1(3) using s2(1) hm
      by (cases "flags hm AND 2 = 0") (simp_all add: btree_node_is_leaf_node_def is_leaf_def bindS_def)
    then show ?case using Cons.IH [OF e(4) ms(2) s2(2), of "found \<or> us \<noteq> []"] s1(2) s2(3) ms(3) by auto
  qed simp
  from this [OF ess(1) _ Suc.prems(5), of ms False] Suc.prems(4) ess(2) obtain s' where
    "visit_snapshot_children tree transaction ?branch (entries_array n) False s = (Inr (ms \<noteq> []), s')"
    "snapshot_state_valid tree contents om_contents s'" "snapshots_found s' = snapshots_found s @ ms" by auto
  moreover have "btree_node_is_leaf_node n = Inr 0"
    using Suc.prems(3) hd' by (simp add: is_leaf_def btree_node_is_leaf_node_def)
  ultimately show ?case by (simp add: l(1) or_empty_def)
qed simp

text \<open>The root node by its block: the identifier is not one of the object map, or one that is its own address.\<close>

definition snapshot_root :: "('c, 'o) snapshot_metadata_tree \<Rightarrow> btree_entry list \<Rightarrow> nat \<Rightarrow> btree_node option" where
  "snapshot_root tree om transaction =
     (let block_number = (case object_block om transaction (snapshot_root_node_block_number tree) of
          None \<Rightarrow> snapshot_root_node_block_number tree | Some a \<Rightarrow> a)
      in if block_number > INT_MAX then None
         else case read_node (snapshot_data_block_vector tree) block_number of
           Inl _ \<Rightarrow> None
         | Inr n \<Rightarrow> if \<not> empty_block_node n \<and> check_snapshot_root_node n = Inr () then Some n else None)"

text \<open>What the calls on a node cache return.\<close>

lemma cache_calls:
  assumes "cache_laws ops contents"
  obtains s1 where "cache_get_value_by_identifier ops i s = (Inr (contents s i), s1)" "contents s1 \<subseteq>\<^sub>m contents s"
  using assms unfolding cache_laws_def by (metis prod.collapse)

lemma cache_set_call:
  assumes "cache_laws ops contents"
  obtains s1 where "cache_set_value_by_identifier ops i n s = (Inr (), s1)" "contents s1 i = Some n"
    "contents s1 \<subseteq>\<^sub>m (contents s)(i \<mapsto> n)"
  using assms unfolding cache_laws_def by (metis prod.collapse)

lemma cached_root_found:
  assumes "cache_laws ops contents" "coherent blocks (contents s)" "read_node blocks i = Inr n"
    and "\<not> empty_block_node n" "check_snapshot_root_node n = Inr ()"
  shows "\<exists>s'. cached_snapshot_root ops blocks i i s = (Inr (Some n), s') \<and> coherent blocks (contents s')"
proof -
  obtain c1 where get: "cache_get_value_by_identifier ops i s = (Inr (contents s i), c1)" "contents c1 \<subseteq>\<^sub>m contents s"
    by (rule cache_calls [OF assms(1)])
  obtain c2 where set: "cache_set_value_by_identifier ops i n c1 = (Inr (), c2)" "contents c2 i = Some n"
    "contents c2 \<subseteq>\<^sub>m (contents c1)(i \<mapsto> n)"
    by (rule cache_set_call [OF assms(1)])
  obtain c3 where again: "cache_get_value_by_identifier ops i c2 = (Inr (contents c2 i), c3)" "contents c3 \<subseteq>\<^sub>m contents c2"
    by (rule cache_calls [OF assms(1)])
  have coh1: "coherent blocks (contents c1)" by (rule coherent_mono [OF assms(2) get(2)])
  show ?thesis
  proof (cases "contents s i")
    case None
    have "coherent blocks (contents c3)"
      by (rule coherent_mono [OF coherent_mono [OF coherent_upd [OF coh1 assms(3)] set(3)] again(2)])
    then show ?thesis using None get set again assms(3-5) by (simp add: cached_snapshot_root_def bindS_def)
  next
    case (Some m)
    then have "m = n" using coherentD [OF assms(2) Some] assms(3) by simp
    then show ?thesis using get Some coh1 by (simp add: cached_snapshot_root_def bindS_def)
  qed
qed

text \<open>
  When the identifier stands for another block, the node is put into the cache for that block and asked for by
  the identifier.
\<close>

lemma cached_root_not_found:
  assumes "cache_laws ops contents" "contents s = Map.empty" "read_node blocks i = Inr n"
    and "\<not> empty_block_node n" "check_snapshot_root_node n = Inr ()" "i \<noteq> j"
  shows "fst (cached_snapshot_root ops blocks i j s) = Inl RUNTIME_GET_FAILED"
proof -
  obtain c1 where get: "cache_get_value_by_identifier ops i s = (Inr (contents s i), c1)" "contents c1 \<subseteq>\<^sub>m contents s"
    by (rule cache_calls [OF assms(1)])
  obtain c2 where set: "cache_set_value_by_identifier ops i n c1 = (Inr (), c2)" "contents c2 \<subseteq>\<^sub>m (contents c1)(i \<mapsto> n)"
    by (rule cache_set_call [OF assms(1)])
  obtain c3 where again: "cache_get_value_by_identifier ops j c2 = (Inr (contents c2 j), c3)"
    by (rule cache_calls [OF assms(1)])
  have "contents c2 j = None"
    using set(2) get(2) assms(2,6) by (fastforce simp: map_le_def dom_def)
  then show ?thesis
    using get set again assms(2-5) by (simp add: cached_snapshot_root_def bindS_def)
qed

lemma root_found:
  assumes "snapshot_state_valid tree contents om_contents s" "snapshot_object_map tree om"
    and "snapshot_root tree om transaction = Some n" "snapshot_root_node_block_number tree \<noteq> 0"
    and "object_block om transaction (snapshot_root_node_block_number tree) \<in> {None, Some (snapshot_root_node_block_number tree)}"
  obtains s' where "snapshot_state_valid tree contents om_contents s'" "snapshots_found s' = snapshots_found s"
    "snapshot_metadata_tree_get_root_node tree transaction (snapshot_root_node_block_number tree) s = (Inr (Some n), s')"
proof -
  let ?root = "snapshot_root_node_block_number tree"
  have n: "?root \<le> INT_MAX" "read_node (snapshot_data_block_vector tree) ?root = Inr n" "\<not> empty_block_node n"
    "check_snapshot_root_node n = Inr ()"
    using assms(3,5) by (auto simp: snapshot_root_def Let_def split: if_splits sum.splits)
  obtain s1 where s1: "snapshot_state_valid tree contents om_contents s1" "snapshots_found s1 = snapshots_found s"
    "snapshot_physical_address tree ?root transaction s = (Inr (object_block om transaction ?root), s1)"
    using physical_address_found [OF assms(1,2,4), of transaction] by metis
  have laws: "cache_laws (snapshot_node_cache tree) contents"
    "coherent (snapshot_data_block_vector tree) (contents (snapshot_nodes s1))"
    using s1(1) by (auto simp: snapshot_state_valid_def)
  from cached_root_found [OF laws n(2-4)] obtain c where c:
    "cached_snapshot_root (snapshot_node_cache tree) (snapshot_data_block_vector tree) ?root ?root (snapshot_nodes s1) = (Inr (Some n), c)"
    "coherent (snapshot_data_block_vector tree) (contents c)" by blast
  have address: "(case object_block om transaction ?root of None \<Rightarrow> ?root | Some a \<Rightarrow> a) = ?root" using assms(5) by auto
  have "snapshot_metadata_tree_get_root_node tree transaction ?root s = (Inr (Some n), s1\<lparr>snapshot_nodes := c\<rparr>)"
    using n(1) c(1) s1(3)
    by (simp add: snapshot_metadata_tree_get_root_node_def bindS_def address Let_def on_snapshot_nodes_def)
  then show ?thesis using that [of "s1\<lparr>snapshot_nodes := c\<rparr>"] s1(1,2) c(2) by (simp add: snapshot_state_valid_def)
qed

lemma all_snapshots:
  assumes "snapshot_state_valid tree contents om_contents s" "snapshot_object_map tree om"
    and "snapshot_root tree om transaction = Some n" "snapshot_root_node_block_number tree \<noteq> 0"
    and "object_block om transaction (snapshot_root_node_block_number tree) \<in> {None, Some (snapshot_root_node_block_number tree)}"
    and "snapshot_leaves (snapshot_child (snapshot_data_block_vector tree) om transaction) h n = Some es"
    and "h \<le> Suc MAXIMUM_BTREE_NODE_RECURSION_DEPTH" "snapshot_records es = Some ms"
  shows "\<exists>s'. snapshot_metadata_tree_get_snapshots tree transaction s = (Inr (ms \<noteq> []), s') \<and>
    snapshot_state_valid tree contents om_contents s' \<and> snapshots_found s' = snapshots_found s @ ms"
proof -
  obtain s1 where s1: "snapshot_state_valid tree contents om_contents s1" "snapshots_found s1 = snapshots_found s"
    "snapshot_metadata_tree_get_root_node tree transaction (snapshot_root_node_block_number tree) s = (Inr (Some n), s1)"
    by (rule root_found [OF assms(1-5)])
  have "node_header n \<noteq> None"
    using assms(3) by (auto simp: snapshot_root_def Let_def check_snapshot_root_node_def bindR_eq_Inr split: if_splits sum.splits option.splits)
  then obtain hn where hn: "node_header n = Some hn" by auto
  show ?thesis
  proof (cases "is_leaf n")
    case True
    then have "es = entries_array n" using assms(6) by (cases h) auto
    then show ?thesis
      using True hn s1 leaf_snapshots [of n ms s1] assms(8)
      by (simp add: snapshot_metadata_tree_get_snapshots_def or_empty_def bindS_def btree_node_is_leaf_node_def is_leaf_def)
  next
    case False
    from branch_snapshots [OF assms(6,7) False assms(8,2) s1(1)] obtain s' where
      "snapshot_metadata_tree_get_snapshots_from_branch_node tree transaction (Suc MAXIMUM_BTREE_NODE_RECURSION_DEPTH) n s1 = (Inr (ms \<noteq> []), s')"
      "snapshot_state_valid tree contents om_contents s'" "snapshots_found s' = snapshots_found s1 @ ms" by blast
    then show ?thesis
      using False hn s1
      by (simp add: snapshot_metadata_tree_get_snapshots_def or_empty_def bindS_def btree_node_is_leaf_node_def is_leaf_def
          del: snapshot_metadata_tree_get_snapshots_from_branch_node.simps)
  qed
qed

section \<open>Safety\<close>

definition snapshot_tree_valid ::
    "('c, 'o) snapshot_metadata_tree \<Rightarrow> ('c \<Rightarrow> nat \<rightharpoonup> btree_node) \<Rightarrow> ('o \<Rightarrow> nat \<rightharpoonup> btree_node)
     \<Rightarrow> ('c, 'o) snapshot_state \<Rightarrow> bool" where
  "snapshot_tree_valid tree contents om_contents s \<longleftrightarrow>
     snapshot_state_valid tree contents om_contents s \<and> (\<forall>i. safe (snapshot_data_block_vector tree i)) \<and>
     (\<forall>i. safe (data_block_vector (snapshot_object_map_btree tree) i))"

lemma snapshot_tree_valid_found [simp]:
  "snapshot_tree_valid tree contents om_contents (s\<lparr>snapshots_found := xs\<rparr>) \<longleftrightarrow>
   snapshot_tree_valid tree contents om_contents s"
  by (simp add: snapshot_tree_valid_def)

lemma check_snapshot_node_safe:
  assumes "block_node n"
  shows "safe (check_snapshot_root_node n)" "safe (check_snapshot_sub_node n)"
  using assms
  by (auto simp: block_node_def check_snapshot_root_node_def check_snapshot_sub_node_def check_snapshot_object_def split: option.splits)

lemma physical_address_safe:
  assumes "snapshot_tree_valid tree contents om_contents s"
  shows "call_safe (snapshot_tree_valid tree contents om_contents) (\<lambda>_. True) (snapshot_physical_address tree oid transaction s)"
proof -
  have "tree_valid (snapshot_object_map_btree tree) om_contents (snapshot_object_map_nodes s)"
    using assms by (simp add: snapshot_tree_valid_def snapshot_state_valid_def tree_valid_def)
  from get_descriptor_safe [OF this, of oid transaction None] show ?thesis
    using assms
    by (auto simp: snapshot_physical_address_def on_snapshot_object_map_def call_safe_def bindS_def snapshot_tree_valid_def
        snapshot_state_valid_def tree_valid_def split: prod.splits sum.splits)
qed

lemma cached_root_safe:
  assumes "cache_laws ops contents" "coherent blocks (contents s)" "\<And>i. safe (blocks i)"
    and "cached_snapshot_root ops blocks i j s = (r, s')"
  shows "coherent blocks (contents s')" "safe r" "\<And>n. r = Inr (Some n) \<Longrightarrow> block_node n"
proof -
  obtain c1 where get: "cache_get_value_by_identifier ops i s = (Inr (contents s i), c1)" "contents c1 \<subseteq>\<^sub>m contents s"
    by (rule cache_calls [OF assms(1)])
  have coh1: "coherent blocks (contents c1)" by (rule coherent_mono [OF assms(2) get(2)])
  have "coherent blocks (contents s') \<and> safe r \<and> (\<forall>n. r = Inr (Some n) \<longrightarrow> block_node n)"
  proof (cases "contents s i")
    case (Some n)
    then have "block_node n" using coherentD [OF assms(2)] read_node_block_node by blast
    then show ?thesis using Some get coh1 assms(4) by (auto simp: cached_snapshot_root_def bindS_def)
  next
    case None
    show ?thesis
    proof (cases "read_node blocks i")
      case (Inl e)
      then show ?thesis
        using None get coh1 assms(4) read_node_safe [of blocks i, OF assms(3)] by (auto simp: cached_snapshot_root_def bindS_def)
    next
      case (Inr n)
      obtain c2 where set: "cache_set_value_by_identifier ops i n c1 = (Inr (), c2)" "contents c2 \<subseteq>\<^sub>m (contents c1)(i \<mapsto> n)"
        by (rule cache_set_call [OF assms(1)])
      obtain c3 where again: "cache_get_value_by_identifier ops j c2 = (Inr (contents c2 j), c3)" "contents c3 \<subseteq>\<^sub>m contents c2"
        by (rule cache_calls [OF assms(1)])
      have coh2: "coherent blocks (contents c2)" by (rule coherent_mono [OF coherent_upd [OF coh1 Inr] set(2)])
      have "coherent blocks (contents c3)" by (rule coherent_mono [OF coh2 again(2)])
      moreover have "\<forall>m. contents c2 j = Some m \<longrightarrow> block_node m" using coherentD [OF coh2] read_node_block_node by blast
      moreover have "safe (check_snapshot_root_node n)" by (rule check_snapshot_node_safe(1) [OF read_node_block_node [OF Inr]])
      ultimately show ?thesis
        using None get coh1 set again Inr assms(4)
        by (auto simp: cached_snapshot_root_def bindS_def split: if_splits option.splits sum.splits)
    qed
  qed
  then show "coherent blocks (contents s')" "safe r" "\<And>n. r = Inr (Some n) \<Longrightarrow> block_node n" by blast+
qed

lemma snapshot_root_safe:
  assumes "snapshot_tree_valid tree contents om_contents s"
  shows "call_safe (snapshot_tree_valid tree contents om_contents) (\<lambda>r. \<forall>n. r = Some n \<longrightarrow> block_node n)
    (snapshot_metadata_tree_get_root_node tree transaction i s)"
  unfolding snapshot_metadata_tree_get_root_node_def
proof (rule call_safe_bindS, rule physical_address_safe [OF assms])
  fix address s1 assume s1: "snapshot_tree_valid tree contents om_contents s1"
  let ?a = "case address of None \<Rightarrow> i | Some address \<Rightarrow> address"
  obtain r c where run: "cached_snapshot_root (snapshot_node_cache tree) (snapshot_data_block_vector tree) ?a i (snapshot_nodes s1) = (r, c)"
    by fastforce
  have v: "cache_laws (snapshot_node_cache tree) contents" "coherent (snapshot_data_block_vector tree) (contents (snapshot_nodes s1))"
    "\<And>i. safe (snapshot_data_block_vector tree i)"
    using s1 by (auto simp: snapshot_tree_valid_def snapshot_state_valid_def)
  from cached_root_safe [OF v run] show "call_safe (snapshot_tree_valid tree contents om_contents) (\<lambda>r. \<forall>n. r = Some n \<longrightarrow> block_node n)
     ((let physical_block_number = ?a
       in if physical_block_number > INT_MAX then failS RUNTIME_VALUE_OUT_OF_BOUNDS
          else on_snapshot_nodes
            (cached_snapshot_root (snapshot_node_cache tree) (snapshot_data_block_vector tree) physical_block_number i)) s1)"
    using s1 run
    by (cases r) (auto simp: Let_def on_snapshot_nodes_def snapshot_tree_valid_def snapshot_state_valid_def lib_error_def)
qed

lemma snapshot_sub_node_safe:
  assumes "snapshot_tree_valid tree contents om_contents s"
  shows "call_safe (snapshot_tree_valid tree contents om_contents) block_node (snapshot_metadata_tree_get_sub_node tree i s)"
proof (cases "i > INT_MAX")
  case True
  then show ?thesis using assms by (simp add: snapshot_metadata_tree_get_sub_node_def)
next
  case False
  obtain r c where run: "get_cached_node (snapshot_node_cache tree) (snapshot_data_block_vector tree) check_snapshot_sub_node i
      (snapshot_nodes s) = (r, c)" by fastforce
  have v: "cache_laws (snapshot_node_cache tree) contents" "coherent (snapshot_data_block_vector tree) (contents (snapshot_nodes s))"
    "\<And>i. safe (snapshot_data_block_vector tree i)"
    using assms by (auto simp: snapshot_tree_valid_def snapshot_state_valid_def)
  from get_cached_node_safe [OF v check_snapshot_node_safe(2) run] show ?thesis
    using False assms run
    by (cases r) (auto simp: snapshot_metadata_tree_get_sub_node_def on_snapshot_nodes_def snapshot_tree_valid_def
        snapshot_state_valid_def lib_error_def)
qed

text \<open>Entries of a node of a block: the sizes are those of the data.\<close>

definition sized_entry :: "btree_entry \<Rightarrow> bool" where
  "sized_entry e \<longleftrightarrow> (\<forall>k. key_data e = Some k \<longrightarrow> length k = key_data_size e) \<and>
     (\<forall>v. value_data e = Some v \<longrightarrow> length v = value_data_size e)"

lemma block_node_sized: "block_node n \<Longrightarrow> list_all sized_entry (entries_array n)"
  by (simp add: block_node_def sized_entry_def list_all_iff)

lemma snapshot_key_safe: "sized_entry e \<Longrightarrow> post lib_error (\<lambda>_. True) (snapshot_key e)"
  by (auto simp: sized_entry_def snapshot_key_def safe_post [symmetric] split: option.splits)

lemma snapshot_entry_safe:
  assumes "sized_entry e"
  shows "post lib_error (\<lambda>_. True) (read_snapshot_metadata_entry e)"
  using assms
  by (auto simp: sized_entry_def read_snapshot_metadata_entry_def snapshot_metadata_initialize_def snapshot_metadata_read_key_data_def
      snapshot_metadata_read_value_data_def safe_post [symmetric] split: option.splits)

lemma collect_snapshots_safe:
  "list_all sized_entry es \<Longrightarrow> call_safe (\<lambda>_. True) (\<lambda>_. True) (collect_snapshots es found snapshots)"
proof (induction es found snapshots rule: collect_snapshots.induct)
  case (2 e es found snapshots)
  then show ?case
    using snapshot_key_safe [of e] snapshot_entry_safe [of e] by (auto split: sum.splits)
qed simp

lemma leaf_snapshots_safe:
  assumes "snapshot_tree_valid tree contents om_contents s" "block_node n"
  shows "call_safe (snapshot_tree_valid tree contents om_contents) (\<lambda>_. True)
    (on_snapshots (snapshot_metadata_tree_get_snapshots_from_leaf_node n) s)"
proof -
  have "post lib_error (\<lambda>_. True) (fst (snapshot_metadata_tree_get_snapshots_from_leaf_node n xs))" for xs
    using collect_snapshots_safe [OF block_node_sized [OF assms(2)], of False xs] assms(2)
    by (auto simp: snapshot_metadata_tree_get_snapshots_from_leaf_node_def btree_node_is_leaf_node_def block_node_def call_safe_def)
  then show ?thesis using assms(1) by (auto simp: on_snapshots_def call_safe_def split: prod.splits) (metis fst_conv)
qed

lemma is_leaf_node_safe: "block_node n \<Longrightarrow> post lib_error (\<lambda>_. True) (btree_node_is_leaf_node n)"
  by (auto simp: block_node_def btree_node_is_leaf_node_def)

lemma entry_child_safe:
  assumes "snapshot_tree_valid tree contents om_contents s" "sized_entry e"
  shows "call_safe (snapshot_tree_valid tree contents om_contents) (\<lambda>_. True)
    (snapshot_metadata_tree_get_sub_node_block_number_from_entry tree e transaction s)"
proof (cases "value_data e")
  case (Some val)
  show ?thesis
  proof (cases "value_data_size e < 8")
    case False
    then have "length val \<ge> 8" using Some assms(2) by (auto simp: sized_entry_def)
    then show ?thesis
      using Some False physical_address_safe [OF assms(1)]
      by (simp add: snapshot_metadata_tree_get_sub_node_block_number_from_entry_def)
  qed (use Some assms(1) in \<open>simp add: snapshot_metadata_tree_get_sub_node_block_number_from_entry_def\<close>)
qed (use assms(1) in \<open>simp add: snapshot_metadata_tree_get_sub_node_block_number_from_entry_def\<close>)

lemma visit_snapshot_children_safe:
  assumes "\<forall>n s. snapshot_tree_valid tree contents om_contents s \<longrightarrow> block_node n \<longrightarrow>
      call_safe (snapshot_tree_valid tree contents om_contents) (\<lambda>_. True) (from_branch n s)"
    and "snapshot_tree_valid tree contents om_contents s" "list_all sized_entry es"
  shows "call_safe (snapshot_tree_valid tree contents om_contents) (\<lambda>_. True)
    (visit_snapshot_children tree transaction from_branch es found s)"
  using assms(2,3)
proof (induction es arbitrary: found s)
  case (Cons e es)
  let ?valid = "snapshot_tree_valid tree contents om_contents"
  have e: "sized_entry e" "list_all sized_entry es" using Cons.prems(2) by auto
  have result: "call_safe ?valid (\<lambda>_. True) ((if leaf \<noteq> 0 then on_snapshots (snapshot_metadata_tree_get_snapshots_from_leaf_node n)
      else from_branch n) t)" if "?valid t" "block_node n" for leaf n t
    using leaf_snapshots_safe [OF that] assms(1) that by simp
  have child: "call_safe ?valid (\<lambda>_. True)
      (bindS (snapshot_metadata_tree_get_sub_node tree a) (\<lambda>sub_node.
       bindS (liftS (btree_node_is_leaf_node sub_node)) (\<lambda>is_leaf_node.
       bindS (if is_leaf_node \<noteq> 0 then on_snapshots (snapshot_metadata_tree_get_snapshots_from_leaf_node sub_node)
              else from_branch sub_node) (\<lambda>result.
         visit_snapshot_children tree transaction from_branch es (found \<or> result)))) t)" if "?valid t" for a t
    by (rule call_safe_bindS, rule snapshot_sub_node_safe [OF that], rule call_safe_bindS,
        erule call_safe_liftS, erule is_leaf_node_safe, rule call_safe_bindS, erule result, assumption, rule Cons.IH [OF _ e(2)])
  show ?case
    unfolding visit_snapshot_children.simps
    by (rule call_safe_bindS, rule call_safe_liftS, rule Cons.prems(1), rule snapshot_key_safe [OF e(1)], rule call_safe_bindS,
        erule entry_child_safe [OF _ e(1)]) (auto split: option.splits intro: child [simplified])
qed simp

lemma or_empty_safe:
  assumes "call_safe (snapshot_tree_valid tree contents om_contents) P (m s)"
  shows "call_safe (snapshot_tree_valid tree contents om_contents) P (or_empty m s)"
  using assms by (auto simp: or_empty_def split: prod.splits sum.splits)

lemma branch_snapshots_safe:
  "snapshot_tree_valid tree contents om_contents s \<Longrightarrow> block_node n \<Longrightarrow>
   call_safe (snapshot_tree_valid tree contents om_contents) (\<lambda>_. True)
     (snapshot_metadata_tree_get_snapshots_from_branch_node tree transaction levels n s)"
proof (induction levels arbitrary: n s)
  case (Suc levels)
  have "call_safe (snapshot_tree_valid tree contents om_contents) (\<lambda>_. True)
      (bindS (liftS (btree_node_is_leaf_node n)) (\<lambda>is_leaf_node.
          if is_leaf_node \<noteq> 0 then failS RUNTIME_UNSUPPORTED_VALUE
          else visit_snapshot_children tree transaction
            (snapshot_metadata_tree_get_snapshots_from_branch_node tree transaction levels) (entries_array n) False) s)"
    by (rule call_safe_bindS, rule call_safe_liftS, rule Suc.prems(1), rule is_leaf_node_safe [OF Suc.prems(2)])
      (use Suc.IH block_node_sized [OF Suc.prems(2)] in \<open>auto intro!: visit_snapshot_children_safe\<close>)
  then show ?case by (simp add: or_empty_safe)
qed simp

lemma get_snapshots_safe:
  assumes "snapshot_tree_valid tree contents om_contents s"
  shows "call_safe (snapshot_tree_valid tree contents om_contents) (\<lambda>_. True)
    (snapshot_metadata_tree_get_snapshots tree transaction s)"
  unfolding snapshot_metadata_tree_get_snapshots_def
proof (rule or_empty_safe, rule call_safe_bindS, rule snapshot_root_safe [OF assms])
  fix root t assume t: "snapshot_tree_valid tree contents om_contents t" "\<forall>n. root = Some n \<longrightarrow> block_node n"
  show "call_safe (snapshot_tree_valid tree contents om_contents) (\<lambda>_. True)
     ((case root of
         None \<Rightarrow> failS RUNTIME_GET_FAILED
       | Some root_node \<Rightarrow>
           bindS (liftS (btree_node_is_leaf_node root_node)) (\<lambda>is_leaf_node.
             if is_leaf_node \<noteq> 0 then on_snapshots (snapshot_metadata_tree_get_snapshots_from_leaf_node root_node)
             else snapshot_metadata_tree_get_snapshots_from_branch_node tree transaction
               (Suc MAXIMUM_BTREE_NODE_RECURSION_DEPTH) root_node)) t)"
  proof (cases root)
    case (Some n)
    have bn: "block_node n" using t(2) Some by simp
    have "call_safe (snapshot_tree_valid tree contents om_contents) (\<lambda>_. True)
       (bindS (liftS (btree_node_is_leaf_node n)) (\<lambda>is_leaf_node.
             if is_leaf_node \<noteq> 0 then on_snapshots (snapshot_metadata_tree_get_snapshots_from_leaf_node n)
             else snapshot_metadata_tree_get_snapshots_from_branch_node tree transaction
               (Suc MAXIMUM_BTREE_NODE_RECURSION_DEPTH) n) t)"
      by (rule call_safe_bindS, rule call_safe_liftS, rule t(1), rule is_leaf_node_safe [OF bn])
        (auto simp del: snapshot_metadata_tree_get_snapshots_from_branch_node.simps
           intro: leaf_snapshots_safe [OF _ bn] branch_snapshots_safe [OF _ bn])
    then show ?thesis using Some by simp
  qed (use t(1) in simp)
qed

text \<open>A failing enumeration leaves no snapshots.\<close>

lemma get_snapshots_failed:
  "fst (snapshot_metadata_tree_get_snapshots tree transaction s) = Inl e \<Longrightarrow>
   snapshots_found (snd (snapshot_metadata_tree_get_snapshots tree transaction s)) = []"
  by (auto simp: snapshot_metadata_tree_get_snapshots_def or_empty_def split: prod.splits sum.splits)

text \<open>A root whose identifier the object map translates is read but not found.\<close>

lemma translated_root:
  assumes "snapshot_state_valid tree contents om_contents s" "snapshot_object_map tree om"
    and "snapshot_root tree om transaction = Some n" "snapshot_root_node_block_number tree \<noteq> 0"
    and "object_block om transaction (snapshot_root_node_block_number tree) = Some a" "a \<noteq> snapshot_root_node_block_number tree"
    and "contents (snapshot_nodes s) = Map.empty"
  shows "fst (snapshot_metadata_tree_get_root_node tree transaction (snapshot_root_node_block_number tree) s) = Inl RUNTIME_GET_FAILED"
proof -
  let ?root = "snapshot_root_node_block_number tree"
  have n: "a \<le> INT_MAX" "read_node (snapshot_data_block_vector tree) a = Inr n" "\<not> empty_block_node n"
    "check_snapshot_root_node n = Inr ()"
    using assms(3,5) by (auto simp: snapshot_root_def Let_def split: if_splits sum.splits)
  obtain s1 where s1: "snapshot_nodes s1 = snapshot_nodes s"
    "snapshot_physical_address tree ?root transaction s = (Inr (Some a), s1)"
    using physical_address_found [OF assms(1,2,4), of transaction] assms(5) by metis
  have laws: "cache_laws (snapshot_node_cache tree) contents" using assms(1) by (simp add: snapshot_state_valid_def)
  have "contents (snapshot_nodes s1) = Map.empty" using s1(1) assms(7) by simp
  from cached_root_not_found [OF laws this n(2-4) assms(6)] show ?thesis
    using n(1) s1(2)
    by (auto simp: snapshot_metadata_tree_get_root_node_def bindS_def on_snapshot_nodes_def split: prod.splits)
qed

section \<open>Sample snapshots\<close>

definition sample_snapshot_value :: "nat \<Rightarrow> bytes \<Rightarrow> bytes" where
  "sample_snapshot_value block_number name =
     le_encode 8 0 @ le_encode 8 block_number @ replicate 32 0 @ le_encode 2 (length name) @ name"

definition sample_snapshot_key :: "nat \<Rightarrow> nat \<Rightarrow> bytes" where
  "sample_snapshot_key data_type oid = le_encode 8 (data_type * 2 ^ 60 + oid)"

definition sample_snapshot_leaf :: "(bytes \<times> bytes) list" where
  "sample_snapshot_leaf = [(sample_snapshot_key 1 5, sample_snapshot_value 33 [97, 0]),
     (sample_snapshot_key 11 5, le_encode 8 5), (sample_snapshot_key 1 6, sample_snapshot_value 44 [98, 0])]"

text \<open>A root in block 50 over the leaf that is object 7, and in block 200 a later version of object 7.\<close>

definition sample_snapshot_blocks :: block_vector where
  "sample_snapshot_blocks i =
     (if i = 50 then Inr (Some (encode_node 0x40000002 0x10 1 1 41 [(sample_snapshot_key 1 5, le_encode 8 7)] (Some sample_fs_footer)))
      else if i = 100 then Inr (Some (encode_node 0x40000003 0x10 2 0 41 sample_snapshot_leaf None))
      else if i = 200 then Inr (Some (encode_node 0x40000002 0x10 3 0 41 sample_snapshot_leaf (Some sample_fs_footer)))
      else Inr None)"

definition sample_snapshot_tree :: "nat \<Rightarrow> ((nat \<rightharpoonup> btree_node), (nat \<rightharpoonup> btree_node)) snapshot_metadata_tree" where
  "sample_snapshot_tree block_number = \<lparr>snapshot_node_cache = map_cache, snapshot_data_block_vector = sample_snapshot_blocks,
     snapshot_object_map_btree = sample_tree, snapshot_root_node_block_number = block_number\<rparr>"

definition sample_snapshot_state :: "((nat \<rightharpoonup> btree_node), (nat \<rightharpoonup> btree_node)) snapshot_state" where
  "sample_snapshot_state = \<lparr>snapshot_nodes = Map.empty, snapshot_object_map_nodes = Map.empty, snapshots_found = []\<rparr>"

definition sample_snapshots :: "snapshot_metadata list" where
  "sample_snapshots =
     [\<lparr>snapshot_superblock_block_number = 33, snapshot_name = Some [97, 0], snapshot_name_size = 2\<rparr>,
      \<lparr>snapshot_superblock_block_number = 44, snapshot_name = Some [98, 0], snapshot_name_size = 2\<rparr>]"

lemma sample_snapshot_nodes:
  "read_node sample_snapshot_blocks 50 = Inr (node_of 0x40000002 0x10 1 1 41 [(sample_snapshot_key 1 5, le_encode 8 7)] (Some sample_fs_footer))"
  "read_node sample_snapshot_blocks 100 = Inr (node_of 0x40000003 0x10 2 0 41 sample_snapshot_leaf None)"
  "read_node sample_snapshot_blocks 200 = Inr (node_of 0x40000002 0x10 3 0 41 sample_snapshot_leaf (Some sample_fs_footer))"
  by (rule read_node_encoded;
      simp add: sample_snapshot_blocks_def node_writable_def sizes_allowed_def sample_snapshot_key_def sample_snapshot_value_def
        sample_snapshot_leaf_def sample_fs_footer_def encode_node_def encode_footer_option_def encode_location_def)+

lemma sample_snapshot_valid:
  "snapshot_state_valid (sample_snapshot_tree b) (\<lambda>s. s) (\<lambda>s. s) sample_snapshot_state"
  "snapshot_object_map (sample_snapshot_tree b) (map entry_of sample_leaf)"
  "snapshot_tree_valid (sample_snapshot_tree b) (\<lambda>s. s) (\<lambda>s. s) sample_snapshot_state"
proof -
  show v: "snapshot_state_valid (sample_snapshot_tree b) (\<lambda>s. s) (\<lambda>s. s) sample_snapshot_state"
    by (simp add: snapshot_state_valid_def sample_snapshot_tree_def sample_snapshot_state_def map_cache_laws coherent_def
        cache_valid_def sample_tree_def)
  then show "snapshot_tree_valid (sample_snapshot_tree b) (\<lambda>s. s) (\<lambda>s. s) sample_snapshot_state"
    by (simp add: snapshot_tree_valid_def sample_snapshot_tree_def sample_snapshot_blocks_def sample_tree_def sample_blocks_def)
  show "snapshot_object_map (sample_snapshot_tree b) (map entry_of sample_leaf)"
    using sample_entries
    by (auto simp: snapshot_object_map_def sample_snapshot_tree_def MAXIMUM_BTREE_NODE_RECURSION_DEPTH_def intro!: exI [of _ 1])
qed

lemma sample_snapshot_block:
  "object_block (map entry_of sample_leaf) 4 50 = None" "object_block (map entry_of sample_leaf) 6 7 = Some 200"
proof -
  have keys: "entry_key (entry_of (sample_key tr, v)) = (7, tr mod 2 ^ 64)" for tr v
    by (simp add: entry_key_def entry_of_def sample_key_def)
  have "physical_address (descriptor_of (entry_of (k, sample_value 200))) = 200" for k
    by (simp add: descriptor_of_def entry_of_def sample_value_def)
  then show "object_block (map entry_of sample_leaf) 4 50 = None" "object_block (map entry_of sample_leaf) 6 7 = Some 200"
    by (simp_all add: object_block_def latest_def sample_leaf_def keys)
qed

lemma sample_snapshot_roots:
  "snapshot_root (sample_snapshot_tree 50) (map entry_of sample_leaf) 4 =
     Some (node_of 0x40000002 0x10 1 1 41 [(sample_snapshot_key 1 5, le_encode 8 7)] (Some sample_fs_footer))"
  "snapshot_root (sample_snapshot_tree 7) (map entry_of sample_leaf) 6 =
     Some (node_of 0x40000002 0x10 3 0 41 sample_snapshot_leaf (Some sample_fs_footer))"
proof -
  have "check_snapshot_root_node (node_of 0x40000002 0x10 1 1 41 kvs (Some sample_fs_footer)) = Inr ()"
    "check_snapshot_root_node (node_of 0x40000002 0x10 3 0 41 kvs (Some sample_fs_footer)) = Inr ()"
    "\<not> empty_block_node (node_of 0x40000002 0x10 fl l 41 kvs f)" for kvs fl l f
    by (simp_all add: check_snapshot_root_node_def check_snapshot_object_def node_of_def header_of_def sample_fs_footer_def empty_block_node_def)
  then show "snapshot_root (sample_snapshot_tree 50) (map entry_of sample_leaf) 4 =
     Some (node_of 0x40000002 0x10 1 1 41 [(sample_snapshot_key 1 5, le_encode 8 7)] (Some sample_fs_footer))"
    "snapshot_root (sample_snapshot_tree 7) (map entry_of sample_leaf) 6 =
     Some (node_of 0x40000002 0x10 3 0 41 sample_snapshot_leaf (Some sample_fs_footer))"
    by (simp_all only: snapshot_root_def sample_snapshot_tree_def Let_def snapshot_metadata_tree.select_convs sample_snapshot_block
        option.case sample_snapshot_nodes sum.case INT_MAX_def) simp_all
qed

lemma sample_snapshot_leaves:
  "snapshot_leaves (snapshot_child sample_snapshot_blocks (map entry_of sample_leaf) 4) 1
     (node_of 0x40000002 0x10 1 1 41 [(sample_snapshot_key 1 5, le_encode 8 7)] (Some sample_fs_footer)) =
   Some (map entry_of sample_snapshot_leaf)"
proof -
  let ?leaf = "node_of 0x40000003 0x10 2 0 41 sample_snapshot_leaf None"
  have "snapshot_key (entry_of (sample_snapshot_key 1 5, v)) = Inr (2 ^ 60 + 5)" for v
    by (simp add: snapshot_key_def entry_of_def sample_snapshot_key_def)
  moreover have "entry_sub_node_block_number (Some (entry_of (k, le_encode 8 7))) = Inr 7" for k
    by (simp add: entry_sub_node_block_number_def entry_of_def)
  moreover have "check_snapshot_sub_node ?leaf = Inr ()"
    by (simp add: check_snapshot_sub_node_def check_snapshot_object_def node_of_def header_of_def)
  ultimately have child: "snapshot_child sample_snapshot_blocks (map entry_of sample_leaf) 4
      (entry_of (sample_snapshot_key 1 5, le_encode 8 7)) = Some ?leaf"
    by (simp only: snapshot_child_def prod.case sum.case sample_object_block option.case sample_snapshot_nodes INT_MAX_def) simp
  then show ?thesis
    by (simp add: is_leaf_def node_of_def header_of_def)
qed

lemma sample_snapshot_records: "snapshot_records (map entry_of sample_snapshot_leaf) = Some sample_snapshots"
proof -
  have key: "snapshot_key (entry_of (sample_snapshot_key 1 o', v)) = Inr (2 ^ 60 + o')" if "o' < 2 ^ 59" for o' v
    using that by (simp add: snapshot_key_def entry_of_def sample_snapshot_key_def)
  have other: "snapshot_key (entry_of (sample_snapshot_key 11 5, v)) = Inr (11 * 2 ^ 60 + 5)" for v
    by (simp add: snapshot_key_def entry_of_def sample_snapshot_key_def)
  have type1: "drop_bit 60 (2 ^ 60 + 5 :: nat) = 1" "drop_bit 60 (2 ^ 60 + 6 :: nat) = 1" "drop_bit 60 (11 * 2 ^ 60 + 5 :: nat) = 11"
    by (simp_all add: drop_bit_eq_div)
  have value_read: "snapshot_of (entry_of (sample_snapshot_key 1 o', sample_snapshot_value b [c, 0])) =
      Some \<lparr>snapshot_superblock_block_number = b, snapshot_name = Some [c, 0], snapshot_name_size = 2\<rparr>" if "b < 2 ^ 32" for o' b c
    using that
    by (simp add: snapshot_of_def read_snapshot_metadata_entry_def snapshot_metadata_initialize_def snapshot_metadata_read_key_data_def
        snapshot_metadata_read_value_data_def entry_of_def sample_snapshot_key_def sample_snapshot_value_def SSIZE_MAX_def take_le_encode)
  show ?thesis
    by (simp add: snapshot_records_def keys_readable_def snapshot_record_def sample_snapshot_leaf_def key [simplified] other [simplified]
        type1 [simplified] DATA_TYPE_SNAPSHOT_METADATA_def value_read [simplified] sample_snapshots_def)
qed

section \<open>Properties\<close>

text \<open>C33. The enumeration of the snapshots appends to the array, in order, what all records
  of the snapshot type in the leaves hold, however many levels (at most 257) of branch nodes the object map has above them, and says
  whether there are any, provided that the object map does not have another address for the root of the tree than the one it is
  asked for. The state of the caches does not matter as long as they hold nodes as they are in their blocks.\<close>

theorem snapshots_complete:
  assumes "snapshot_state_valid tree contents om_contents s" "snapshot_object_map tree om"
    and "snapshot_root tree om transaction = Some n" "snapshot_root_node_block_number tree \<noteq> 0"
    and "object_block om transaction (snapshot_root_node_block_number tree) \<in> {None, Some (snapshot_root_node_block_number tree)}"
    and "snapshot_leaves (snapshot_child (snapshot_data_block_vector tree) om transaction) h n = Some es"
    and "h \<le> Suc MAXIMUM_BTREE_NODE_RECURSION_DEPTH" "snapshot_records es = Some ms"
  shows "\<exists>s'. snapshot_metadata_tree_get_snapshots tree transaction s = (Inr (ms \<noteq> []), s') \<and>
    snapshot_state_valid tree contents om_contents s' \<and> snapshots_found s' = snapshots_found s @ ms"
  using all_snapshots [OF assms] .

theorem snapshots_complete_witness:
  "\<exists>s'. snapshot_metadata_tree_get_snapshots (sample_snapshot_tree 50) 4 sample_snapshot_state = (Inr (sample_snapshots \<noteq> []), s') \<and>
    snapshot_state_valid (sample_snapshot_tree 50) (\<lambda>s. s) (\<lambda>s. s) s' \<and>
    snapshots_found s' = snapshots_found sample_snapshot_state @ sample_snapshots"
  by (rule snapshots_complete [where h = 1, OF sample_snapshot_valid(1,2) sample_snapshot_roots(1) _ _ _ _ sample_snapshot_records])
    (use sample_snapshot_leaves in \<open>simp_all add: sample_snapshot_tree_def sample_snapshot_block MAXIMUM_BTREE_NODE_RECURSION_DEPTH_def\<close>)

text \<open>C34. For any blocks, malformed or cyclic trees included, the enumeration of the snapshots returns without an
  access outside a node, leaves the caches with nodes as they are in their blocks, and when it fails it leaves an empty array.\<close>

theorem snapshots_safe:
  assumes "snapshot_tree_valid tree contents om_contents s"
    and "snapshot_metadata_tree_get_snapshots tree transaction s = (r, s')"
  shows "r \<noteq> Inl OUT_OF_BOUNDS_ACCESS \<and> snapshot_tree_valid tree contents om_contents s' \<and>
    (\<forall>e. r = Inl e \<longrightarrow> snapshots_found s' = [])"
  using get_snapshots_safe [OF assms(1), of transaction] get_snapshots_failed [of tree transaction s] assms(2)
  by (cases r) (auto simp: lib_error_def)

theorem snapshots_safe_witness:
  "fst (snapshot_metadata_tree_get_snapshots (sample_snapshot_tree 100) 4 sample_snapshot_state) \<noteq> Inl OUT_OF_BOUNDS_ACCESS"
  using snapshots_safe [OF sample_snapshot_valid(3) [of 100], of 4] by (metis prod.collapse)

text \<open>C35. When the object map has another address for the identifier of the root node, the root node is
  read, checked and cached by that address and then asked for by the identifier: on the first access both the enumeration and the lookup fail
  although the node is valid.\<close>

theorem translated_root_never_found:
  assumes "snapshot_state_valid tree contents om_contents s" "snapshot_object_map tree om"
    and "snapshot_root tree om transaction = Some n" "snapshot_root_node_block_number tree \<noteq> 0"
    and "object_block om transaction (snapshot_root_node_block_number tree) = Some a" "a \<noteq> snapshot_root_node_block_number tree"
    and "contents (snapshot_nodes s) = Map.empty"
  shows "fst (snapshot_metadata_tree_get_snapshots tree transaction s) = Inl RUNTIME_GET_FAILED \<and>
    fst (snapshot_metadata_tree_get_metadata_by_object_identifier tree transaction oid None s) = Inl RUNTIME_GET_FAILED"
  using translated_root [OF assms]
  by (auto simp: snapshot_metadata_tree_get_snapshots_def snapshot_metadata_tree_get_metadata_by_object_identifier_def
      snapshot_metadata_tree_get_entry_by_identifier_def or_empty_def bindS_def split: prod.splits)

theorem translated_root_never_found_witness:
  "fst (snapshot_metadata_tree_get_snapshots (sample_snapshot_tree 7) 6 sample_snapshot_state) = Inl RUNTIME_GET_FAILED \<and>
    fst (snapshot_metadata_tree_get_metadata_by_object_identifier (sample_snapshot_tree 7) 6 5 None sample_snapshot_state) =
      Inl RUNTIME_GET_FAILED"
  by (rule translated_root_never_found [where a = 200, OF sample_snapshot_valid(1,2) sample_snapshot_roots(2)])
    (simp_all add: sample_snapshot_tree_def sample_snapshot_block sample_snapshot_state_def)

end
