(* ===== verification/Container_Objects.thy ===== *)
theory Container_Objects
  imports Checksum Btree
begin

text \<open>
  The objects of a container that are a structure of fixed layout: \<open>libfsapfs_object.c\<close>,
  \<open>libfsapfs_checkpoint_map_entry.c\<close>, \<open>libfsapfs_checkpoint_map.c\<close>, \<open>libfsapfs_container_superblock.c\<close>,
  \<open>libfsapfs_volume_superblock.c\<close>, and those of which only the type is checked,
  \<open>libfsapfs_space_manager.c\<close>, \<open>libfsapfs_container_reaper.c\<close>, \<open>libfsapfs_chunk_information_block.c\<close>,
  \<open>libfsapfs_extent_reference_tree.c\<close> and \<open>libfsapfs_fusion_middle_tree.c\<close>. The offsets are those of the
  members of the structures in the headers \<open>fsapfs_*.h\<close>.
\<close>

section \<open>Objects\<close>

record apfs_object =
  object_identifier_value :: nat
  object_transaction :: nat
  object_type_value :: nat
  object_subtype_value :: nat

definition object_initialize :: "apfs_object option \<Rightarrow> apfs_object result" where
  "object_initialize object =
     (if object \<noteq> None then Inl RUNTIME_VALUE_ALREADY_SET
      else Inr \<lparr>object_identifier_value = 0, object_transaction = 0, object_type_value = 0, object_subtype_value = 0\<rparr>)"

definition object_read_data :: "apfs_object \<Rightarrow> bytes \<Rightarrow> nat \<Rightarrow> apfs_object result" where
  "object_read_data object data data_size =
     (if data_size < 32 \<or> data_size > SSIZE_MAX then Inl RUNTIME_VALUE_OUT_OF_BOUNDS
      else
        bindR (rd_u64_le data 8) (\<lambda>object_id.
        bindR (rd_u64_le data 16) (\<lambda>transaction_id.
        bindR (rd_u32_le data 24) (\<lambda>type_value.
        bindR (rd_u32_le data 28) (\<lambda>subtype_value.
          Inr (object\<lparr>object_identifier_value := object_id, object_transaction := transaction_id,
            object_type_value := type_value, object_subtype_value := subtype_value\<rparr>))))))"

definition object_read_file_io_handle :: "apfs_object \<Rightarrow> file_io \<Rightarrow> nat \<Rightarrow> apfs_object result" where
  "object_read_file_io_handle object file_io_handle file_offset =
     bindR (read_buffer_at_offset file_io_handle file_offset 32) (\<lambda>data. object_read_data object data 32)"

text \<open>What the objects have in common: the type and subtype that they must have, and the checksum.\<close>

definition check_object_type :: "nat \<Rightarrow> nat \<Rightarrow> bytes \<Rightarrow> unit result" where
  "check_object_type expected_type expected_subtype data =
     bindR (rd_u32_le data 24) (\<lambda>object_type.
       if object_type \<noteq> expected_type then Inl RUNTIME_UNSUPPORTED_VALUE
       else bindR (rd_u32_le data 28) (\<lambda>object_subtype.
         if object_subtype \<noteq> expected_subtype then Inl RUNTIME_UNSUPPORTED_VALUE else Inr ()))"

definition check_object_checksum :: "bytes \<Rightarrow> nat \<Rightarrow> unit result" where
  "check_object_checksum data data_size =
     bindR (rd_u64_le data 0) (\<lambda>stored_checksum.
     bindR (checksum_calculate_fletcher64 (drop 8 data) (data_size - 8) 0) (\<lambda>calculated_checksum.
       if stored_checksum \<noteq> unat calculated_checksum then Inl INPUT_CHECKSUM_MISMATCH else Inr ()))"

section \<open>Objects of which only the type is read\<close>

text \<open>Their structures hold no more than a dummy.\<close>

definition space_manager_read_data :: "bytes \<Rightarrow> nat \<Rightarrow> unit result" where
  "space_manager_read_data data data_size =
     (if data_size < 344 \<or> data_size > SSIZE_MAX then Inl RUNTIME_VALUE_OUT_OF_BOUNDS
      else check_object_type 0x80000005 0x00000000 data)"

definition space_manager_read_file_io_handle :: "file_io \<Rightarrow> nat \<Rightarrow> unit result" where
  "space_manager_read_file_io_handle file_io_handle file_offset =
     bindR (read_buffer_at_offset file_io_handle file_offset 4096) (\<lambda>data. space_manager_read_data data 4096)"

definition container_reaper_read_data :: "bytes \<Rightarrow> nat \<Rightarrow> unit result" where
  "container_reaper_read_data data data_size =
     (if data_size < 40 \<or> data_size > SSIZE_MAX then Inl RUNTIME_VALUE_OUT_OF_BOUNDS
      else check_object_type 0x80000011 0x00000000 data)"

definition container_reaper_read_file_io_handle :: "file_io \<Rightarrow> nat \<Rightarrow> unit result" where
  "container_reaper_read_file_io_handle file_io_handle file_offset =
     bindR (read_buffer_at_offset file_io_handle file_offset 40) (\<lambda>data. container_reaper_read_data data 40)"

definition chunk_information_block_read_data :: "bytes \<Rightarrow> nat \<Rightarrow> unit result" where
  "chunk_information_block_read_data data data_size =
     (if data_size < 36 \<or> data_size > SSIZE_MAX then Inl RUNTIME_VALUE_OUT_OF_BOUNDS
      else check_object_type 0x40000007 0x00000000 data)"

definition chunk_information_block_read_file_io_handle :: "file_io \<Rightarrow> nat \<Rightarrow> unit result" where
  "chunk_information_block_read_file_io_handle file_io_handle file_offset =
     bindR (read_buffer_at_offset file_io_handle file_offset 4096) (\<lambda>data.
       chunk_information_block_read_data data 4096)"

definition extent_reference_tree_read_data :: "bytes \<Rightarrow> nat \<Rightarrow> unit result" where
  "extent_reference_tree_read_data data data_size =
     (if data_size < 36 \<or> data_size > SSIZE_MAX then Inl RUNTIME_VALUE_OUT_OF_BOUNDS
      else check_object_type 0x40000002 0x0000000f data)"

definition extent_reference_tree_read_file_io_handle :: "file_io \<Rightarrow> nat \<Rightarrow> unit result" where
  "extent_reference_tree_read_file_io_handle file_io_handle file_offset =
     bindR (read_buffer_at_offset file_io_handle file_offset 4096) (\<lambda>data.
       extent_reference_tree_read_data data 4096)"

definition fusion_middle_tree_read_data :: "bytes \<Rightarrow> nat \<Rightarrow> unit result" where
  "fusion_middle_tree_read_data data data_size =
     (if data_size < 36 \<or> data_size > SSIZE_MAX then Inl RUNTIME_VALUE_OUT_OF_BOUNDS
      else check_object_type 0x40000002 0x00000015 data)"

definition fusion_middle_tree_read_file_io_handle :: "file_io \<Rightarrow> nat \<Rightarrow> unit result" where
  "fusion_middle_tree_read_file_io_handle file_io_handle file_offset =
     bindR (read_buffer_at_offset file_io_handle file_offset 4096) (\<lambda>data.
       fusion_middle_tree_read_data data 4096)"

section \<open>Checkpoint map\<close>

record checkpoint_map_entry =
  mapped_object_identifier :: nat
  mapped_physical_address :: nat

definition checkpoint_map_entry_initialize :: "checkpoint_map_entry option \<Rightarrow> checkpoint_map_entry result" where
  "checkpoint_map_entry_initialize map_entry =
     (if map_entry \<noteq> None then Inl RUNTIME_VALUE_ALREADY_SET
      else Inr \<lparr>mapped_object_identifier = 0, mapped_physical_address = 0\<rparr>)"

definition checkpoint_map_entry_read_data ::
    "checkpoint_map_entry \<Rightarrow> bytes \<Rightarrow> nat \<Rightarrow> checkpoint_map_entry result" where
  "checkpoint_map_entry_read_data map_entry data data_size =
     (if data_size < 40 \<or> data_size > SSIZE_MAX then Inl RUNTIME_VALUE_OUT_OF_BOUNDS
      else
        bindR (rd_u64_le data 24) (\<lambda>object_identifier.
        bindR (rd_u64_le data 32) (\<lambda>address.
          Inr (map_entry\<lparr>mapped_object_identifier := object_identifier, mapped_physical_address := address\<rparr>))))"

record checkpoint_map =
  map_entries :: "checkpoint_map_entry list"

definition checkpoint_map_initialize :: "checkpoint_map option \<Rightarrow> checkpoint_map result" where
  "checkpoint_map_initialize checkpoint_map =
     (if checkpoint_map \<noteq> None then Inl RUNTIME_VALUE_ALREADY_SET else Inr \<lparr>map_entries = []\<rparr>)"

text \<open>The loop over the entries: the number of those that are left and the offset of the next.\<close>

fun read_map_entries ::
    "bytes \<Rightarrow> nat \<Rightarrow> nat \<Rightarrow> nat \<Rightarrow> checkpoint_map_entry list \<Rightarrow> checkpoint_map_entry list result" where
  "read_map_entries data data_size 0 data_offset entries = Inr entries"
| "read_map_entries data data_size (Suc n) data_offset entries =
     bindR (checkpoint_map_entry_initialize None) (\<lambda>map_entry.
     bindR (checkpoint_map_entry_read_data map_entry (drop data_offset data) (data_size - data_offset)) (\<lambda>map_entry.
       read_map_entries data data_size n (data_offset + 40) (entries @ [map_entry])))"

definition checkpoint_map_read_data :: "checkpoint_map \<Rightarrow> bytes \<Rightarrow> nat \<Rightarrow> checkpoint_map result" where
  "checkpoint_map_read_data checkpoint_map data data_size =
     (if data_size < 4080 \<or> data_size > SSIZE_MAX then Inl RUNTIME_VALUE_OUT_OF_BOUNDS
      else
        bindR (check_object_type 0x4000000c 0x00000000 data) (\<lambda>_.
        bindR (rd_u32_le data 36) (\<lambda>number_of_map_entries.
        bindR (check_object_checksum data data_size) (\<lambda>_.
          if number_of_map_entries > 101 then Inl RUNTIME_VALUE_OUT_OF_BOUNDS
          else
            bindR (read_map_entries data data_size number_of_map_entries 40 (map_entries checkpoint_map)) (\<lambda>entries.
              Inr (checkpoint_map\<lparr>map_entries := entries\<rparr>))))))"

definition checkpoint_map_read_file_io_handle :: "checkpoint_map \<Rightarrow> file_io \<Rightarrow> nat \<Rightarrow> checkpoint_map result" where
  "checkpoint_map_read_file_io_handle checkpoint_map file_io_handle file_offset =
     bindR (read_buffer_at_offset file_io_handle file_offset 4096) (\<lambda>data.
       checkpoint_map_read_data checkpoint_map data 4096)"

text \<open>\<open>None\<close> is the result 0, no such object.\<close>

fun map_entries_lookup :: "checkpoint_map_entry list \<Rightarrow> nat \<Rightarrow> nat option" where
  "map_entries_lookup [] object_identifier = None"
| "map_entries_lookup (map_entry # entries) object_identifier =
     (if object_identifier = mapped_object_identifier map_entry then Some (mapped_physical_address map_entry)
      else map_entries_lookup entries object_identifier)"

definition checkpoint_map_get_physical_address_by_object_identifier ::
    "checkpoint_map \<Rightarrow> nat \<Rightarrow> nat option result" where
  "checkpoint_map_get_physical_address_by_object_identifier checkpoint_map object_identifier =
     Inr (map_entries_lookup (map_entries checkpoint_map) object_identifier)"

section \<open>Container superblock\<close>

record container_superblock =
  superblock_transaction :: nat
  superblock_block_size :: nat
  container_number_of_blocks :: nat
  container_incompatible_features :: nat
  container_identifier :: bytes
  descriptor_area_number_of_blocks :: nat
  descriptor_area_block_number :: nat
  space_manager_identifier :: nat
  container_object_map_block :: nat
  reaper_identifier :: nat
  fusion_set_identifier :: bytes
  key_bag_block :: nat
  key_bag_number_of_blocks :: nat
  number_of_volumes :: nat
  volume_object_identifiers :: "nat list"
  fusion_middle_tree_block :: nat

definition container_superblock_initialize :: "container_superblock option \<Rightarrow> container_superblock result" where
  "container_superblock_initialize superblock =
     (if superblock \<noteq> None then Inl RUNTIME_VALUE_ALREADY_SET
      else Inr \<lparr>superblock_transaction = 0, superblock_block_size = 0, container_number_of_blocks = 0,
        container_incompatible_features = 0, container_identifier = replicate 16 0,
        descriptor_area_number_of_blocks = 0, descriptor_area_block_number = 0, space_manager_identifier = 0,
        container_object_map_block = 0, reaper_identifier = 0, fusion_set_identifier = replicate 16 0,
        key_bag_block = 0, key_bag_number_of_blocks = 0, number_of_volumes = 0,
        volume_object_identifiers = replicate 100 0, fusion_middle_tree_block = 0\<rparr>)"

text \<open>The identifiers of volumes from an offset on; the count of those that are set is added up.\<close>

fun read_volume_identifiers :: "bytes \<Rightarrow> nat \<Rightarrow> nat \<Rightarrow> nat \<Rightarrow> (nat list \<times> nat) result" where
  "read_volume_identifiers data 0 data_offset volumes = Inr ([], volumes)"
| "read_volume_identifiers data (Suc n) data_offset volumes =
     bindR (rd_u64_le data data_offset) (\<lambda>volume_object_identifier.
     bindR (read_volume_identifiers data n (data_offset + 8)
              (if volume_object_identifier \<noteq> 0 then volumes + 1 else volumes)) (\<lambda>(identifiers, volumes).
       Inr (volume_object_identifier # identifiers, volumes)))"

text \<open>
  The members. The block number of the descriptor area has 64 bits in the data and 32 bits in
  the structure.
\<close>

definition container_superblock_members :: "container_superblock \<Rightarrow> bytes \<Rightarrow> container_superblock result" where
  "container_superblock_members superblock data =
     bindR (rd_u32_le data 36) (\<lambda>block_size.
     bindR (rd_u64_le data 40) (\<lambda>number_of_blocks.
     bindR (rd_u64_le data 64) (\<lambda>incompatible_features_flags.
     bindR (rd_slice data 72 16) (\<lambda>identifier_data.
     bindR (rd_u64_le data 152) (\<lambda>space_manager.
     bindR (rd_u64_le data 160) (\<lambda>object_map_block_number.
     bindR (rd_u64_le data 168) (\<lambda>reaper.
     bindR (read_volume_identifiers data 100 184 (number_of_volumes superblock)) (\<lambda>(identifiers, volumes).
     bindR (rd_slice data 1280 16) (\<lambda>fusion_set.
     bindR (rd_u64_le data 1296) (\<lambda>key_bag_block_number.
     bindR (rd_u64_le data 1304) (\<lambda>key_bag_blocks.
     bindR (rd_u32_le data 104) (\<lambda>descriptor_blocks.
     bindR (rd_u64_le data 112) (\<lambda>descriptor_block_number.
     bindR (rd_u64_le data 1352) (\<lambda>fusion_middle_tree.
       Inr (superblock\<lparr>superblock_block_size := block_size, container_number_of_blocks := number_of_blocks,
         container_incompatible_features := incompatible_features_flags, container_identifier := identifier_data,
         descriptor_area_number_of_blocks := descriptor_blocks,
         descriptor_area_block_number := descriptor_block_number mod 2 ^ 32,
         space_manager_identifier := space_manager, container_object_map_block := object_map_block_number,
         reaper_identifier := reaper, fusion_set_identifier := fusion_set, key_bag_block := key_bag_block_number,
         key_bag_number_of_blocks := key_bag_blocks, number_of_volumes := volumes,
         volume_object_identifiers := identifiers, fusion_middle_tree_block := fusion_middle_tree\<rparr>)))))))))))))))"

definition container_superblock_check :: "container_superblock \<Rightarrow> nat \<Rightarrow> unit result" where
  "container_superblock_check superblock maximum_number_of_volumes =
     (if container_incompatible_features superblock AND 0x0000000000000001 \<noteq> 0 then Inl RUNTIME_UNSUPPORTED_VALUE
      else if superblock_block_size superblock \<noteq> 4096 then Inl RUNTIME_UNSUPPORTED_VALUE
      else if descriptor_area_number_of_blocks superblock AND 0x80000000 \<noteq> 0 then Inl RUNTIME_UNSUPPORTED_VALUE
      else if descriptor_area_block_number superblock = 0 then Inl RUNTIME_UNSUPPORTED_VALUE
      else if maximum_number_of_volumes > 100 then Inl RUNTIME_VALUE_OUT_OF_BOUNDS
      else Inr ())"

text \<open>The letters \<open>NXSB\<close> and \<open>APSB\<close>.\<close>

definition container_signature :: bytes where
  "container_signature = [0x4e, 0x58, 0x53, 0x42]"

definition volume_signature :: bytes where
  "volume_signature = [0x41, 0x50, 0x53, 0x42]"

definition container_superblock_read_data :: "container_superblock \<Rightarrow> bytes \<Rightarrow> nat \<Rightarrow> container_superblock result" where
  "container_superblock_read_data superblock data data_size =
     (if data_size < 1384 \<or> data_size > SSIZE_MAX then Inl RUNTIME_VALUE_OUT_OF_BOUNDS
      else
        bindR (rd_u64_le data 16) (\<lambda>transaction_id.
        bindR (check_object_type 0x80000001 0x00000000 data) (\<lambda>_.
        bindR (rd_slice data 32 4) (\<lambda>signature.
          if signature \<noteq> container_signature then Inl RUNTIME_UNSUPPORTED_VALUE
          else
            bindR (container_superblock_members (superblock\<lparr>superblock_transaction := transaction_id\<rparr>) data) (\<lambda>superblock.
            bindR (rd_u32_le data 180) (\<lambda>maximum_number_of_volumes.
            bindR (check_object_checksum data data_size) (\<lambda>_.
            bindR (container_superblock_check superblock maximum_number_of_volumes) (\<lambda>_.
              Inr superblock))))))))"

definition container_superblock_read_file_io_handle ::
    "container_superblock \<Rightarrow> file_io \<Rightarrow> nat \<Rightarrow> container_superblock result" where
  "container_superblock_read_file_io_handle superblock file_io_handle file_offset =
     bindR (read_buffer_at_offset file_io_handle file_offset 4096) (\<lambda>data.
       container_superblock_read_data superblock data 4096)"

text \<open>The identifier is copied to the start of the buffer.\<close>

definition container_superblock_get_container_identifier ::
    "container_superblock \<Rightarrow> bytes \<Rightarrow> nat \<Rightarrow> bytes result" where
  "container_superblock_get_container_identifier superblock uuid_data uuid_data_size =
     (if uuid_data_size < 16 \<or> uuid_data_size > SSIZE_MAX then Inl RUNTIME_VALUE_OUT_OF_BOUNDS
      else bindR (rd_slice (container_identifier superblock) 0 16) (wr_slice uuid_data 0))"

section \<open>Volume superblock\<close>

record volume_superblock =
  volume_transaction :: nat
  volume_compatible_features :: nat
  volume_read_only_compatible_features :: nat
  volume_incompatible_features :: nat
  volume_object_map_block :: nat
  root_tree_identifier :: nat
  extent_reference_tree_block :: nat
  snapshot_metadata_tree_block :: nat
  next_object_identifier :: nat
  volume_identifier :: bytes
  volume_flags :: nat
  volume_name :: bytes
  sealed_tree_identifier :: nat
  sealed_tree_block :: nat

definition volume_superblock_initialize :: "volume_superblock option \<Rightarrow> volume_superblock result" where
  "volume_superblock_initialize superblock =
     (if superblock \<noteq> None then Inl RUNTIME_VALUE_ALREADY_SET
      else Inr \<lparr>volume_transaction = 0, volume_compatible_features = 0, volume_read_only_compatible_features = 0,
        volume_incompatible_features = 0, volume_object_map_block = 0, root_tree_identifier = 0,
        extent_reference_tree_block = 0, snapshot_metadata_tree_block = 0, next_object_identifier = 0,
        volume_identifier = replicate 16 0, volume_flags = 0, volume_name = replicate 256 0,
        sealed_tree_identifier = 0, sealed_tree_block = 0\<rparr>)"

definition volume_superblock_members :: "volume_superblock \<Rightarrow> bytes \<Rightarrow> volume_superblock result" where
  "volume_superblock_members superblock data =
     bindR (rd_u64_le data 40) (\<lambda>compatible.
     bindR (rd_u64_le data 48) (\<lambda>read_only_compatible.
     bindR (rd_u64_le data 56) (\<lambda>incompatible.
     bindR (rd_u64_le data 128) (\<lambda>object_map_block_number.
     bindR (rd_u64_le data 136) (\<lambda>root_object.
     bindR (rd_u64_le data 144) (\<lambda>extent_reference_tree.
     bindR (rd_u64_le data 152) (\<lambda>snapshot_metadata_tree.
     bindR (rd_u64_le data 176) (\<lambda>next_object.
     bindR (rd_slice data 240 16) (\<lambda>identifier_data.
     bindR (rd_u64_le data 264) (\<lambda>flags_value.
     bindR (rd_slice data 704 256) (\<lambda>name_data.
       Inr (superblock\<lparr>volume_compatible_features := compatible,
         volume_read_only_compatible_features := read_only_compatible, volume_incompatible_features := incompatible,
         volume_object_map_block := object_map_block_number, root_tree_identifier := root_object,
         extent_reference_tree_block := extent_reference_tree,
         snapshot_metadata_tree_block := snapshot_metadata_tree, next_object_identifier := next_object,
         volume_identifier := identifier_data, volume_flags := flags_value, volume_name := name_data\<rparr>))))))))))))"

text \<open>The extension of sealed volumes, behind the structure.\<close>

definition volume_superblock_sealed :: "volume_superblock \<Rightarrow> bytes \<Rightarrow> nat \<Rightarrow> bool \<Rightarrow> volume_superblock result" where
  "volume_superblock_sealed superblock data data_size is_snapshot =
     (let superblock = superblock\<lparr>sealed_tree_identifier := 0, sealed_tree_block := 0\<rparr>
      in if \<not> is_snapshot \<and> data_size \<ge> 0x400 + 16
         then
           bindR (rd_u64_le data 0x400) (\<lambda>root_object.
           bindR (rd_u64_le data 0x408) (\<lambda>root_block.
             Inr (superblock\<lparr>sealed_tree_identifier := root_object, sealed_tree_block := root_block\<rparr>)))
         else Inr superblock)"

definition volume_superblock_read_data ::
    "volume_superblock \<Rightarrow> bytes \<Rightarrow> nat \<Rightarrow> bool \<Rightarrow> volume_superblock result" where
  "volume_superblock_read_data superblock data data_size is_snapshot =
     (if data_size < 1008 \<or> data_size > SSIZE_MAX then Inl RUNTIME_VALUE_OUT_OF_BOUNDS
      else
        bindR (rd_u64_le data 16) (\<lambda>transaction_id.
        bindR (check_object_type (if is_snapshot then 0x4000000d else 0x0000000d) 0x00000000 data) (\<lambda>_.
        bindR (rd_slice data 32 4) (\<lambda>signature.
          if signature \<noteq> volume_signature then Inl RUNTIME_UNSUPPORTED_VALUE
          else
            bindR (volume_superblock_members (superblock\<lparr>volume_transaction := transaction_id\<rparr>) data) (\<lambda>superblock.
            bindR (volume_superblock_sealed superblock data data_size is_snapshot) (\<lambda>superblock.
            bindR (check_object_checksum data data_size) (\<lambda>_. Inr superblock)))))))"

definition volume_superblock_read_file_io_handle ::
    "volume_superblock \<Rightarrow> file_io \<Rightarrow> nat \<Rightarrow> bool \<Rightarrow> volume_superblock result" where
  "volume_superblock_read_file_io_handle superblock file_io_handle file_offset is_snapshot =
     bindR (read_buffer_at_offset file_io_handle file_offset 4096) (\<lambda>data.
       volume_superblock_read_data superblock data 4096 is_snapshot)"

definition volume_superblock_get_volume_identifier :: "volume_superblock \<Rightarrow> bytes \<Rightarrow> nat \<Rightarrow> bytes result" where
  "volume_superblock_get_volume_identifier superblock uuid_data uuid_data_size =
     (if uuid_data_size < 16 \<or> uuid_data_size > SSIZE_MAX then Inl RUNTIME_VALUE_OUT_OF_BOUNDS
      else bindR (rd_slice (volume_identifier superblock) 0 16) (wr_slice uuid_data 0))"

end
