(* ===== verification/Container_Layout.thy ===== *)
theory Container_Layout
  imports Container_Objects
begin

text \<open>
  What the readers of \<open>Container_Objects\<close> recover: an object is written member by member at the offsets of its
  layout over arbitrary other bytes, with its Fletcher-64 in front. Reading returns what was
  written, a corrupted object is rejected, and no data lets a reader access memory outside it.
\<close>

section \<open>Layouts\<close>

text \<open>
  Members by their offset, in ascending order from \<open>k\<close> on and within \<open>n\<close> bytes; \<open>place\<close> writes
  them over the bytes of \<open>base\<close> from \<open>k\<close> on.
\<close>

type_synonym layout = "(nat \<times> bytes) list"

fun fits :: "nat \<Rightarrow> layout \<Rightarrow> nat \<Rightarrow> bool" where
  "fits k [] n \<longleftrightarrow> k \<le> n"
| "fits k ((offset, bs) # members) n \<longleftrightarrow> k \<le> offset \<and> fits (offset + length bs) members n"

fun place :: "nat \<Rightarrow> bytes \<Rightarrow> layout \<Rightarrow> bytes" where
  "place k base [] = drop k base"
| "place k base ((offset, bs) # members) =
     take (offset - k) (drop k base) @ bs @ place (offset + length bs) base members"

lemma fits_le: "fits k members n \<Longrightarrow> k \<le> n"
  by (induction k members n rule: fits.induct) auto

lemma length_place: "fits k members (length base) \<Longrightarrow> length (place k base members) = length base - k"
proof (induction k base members rule: place.induct)
  case (2 k base offset bs members)
  then show ?case using fits_le [of "offset + length bs" members "length base"] by simp
qed simp

lemma place_member:
  assumes "fits k members (length base)" "(offset, bs) \<in> set members"
  shows "k \<le> offset \<and> offset + length bs \<le> length base \<and> take (length bs) (drop (offset - k) (place k base members)) = bs"
  using assms
proof (induction k base members rule: place.induct)
  case (2 k base off cs members)
  let ?k = "off + length cs"
  have inner: "k \<le> off" "?k \<le> length base" using 2(2) fits_le [of ?k members "length base"] by auto
  then have gap: "length (take (off - k) (drop k base)) = off - k" by simp
  show ?case
  proof (cases "(offset, bs) = (off, cs)")
    case True
    then show ?thesis using inner gap by simp
  next
    case False
    then have "(offset, bs) \<in> set members" using 2(3) by auto
    with 2 have IH: "?k \<le> offset" "offset + length bs \<le> length base"
      "take (length bs) (drop (offset - ?k) (place ?k base members)) = bs" by auto
    have "drop (offset - k) (place k base ((off, cs) # members)) = drop (offset - ?k) (place ?k base members)"
      using IH(1) inner gap by (simp add: drop_append)
    with IH inner show ?thesis by simp
  qed
qed simp

text \<open>An object: its checksum and its members, which start at offset 8.\<close>

definition fletcher64_value :: "bytes \<Rightarrow> nat" where
  "fletcher64_value body = (case checksum_calculate_fletcher64 body (length body) 0 of Inl e \<Rightarrow> 0 | Inr w \<Rightarrow> unat w)"

definition write_object :: "bytes \<Rightarrow> layout \<Rightarrow> bytes" where
  "write_object base members = le_encode 8 (fletcher64_value (place 8 base members)) @ place 8 base members"

text \<open>The sizes for which the sums of the Fletcher-64 do not wrap around.\<close>

definition object_fits :: "bytes \<Rightarrow> layout \<Rightarrow> bool" where
  "object_fits base members \<longleftrightarrow> fits 8 members (length base) \<and> 4 dvd length base \<and> length base \<le> 262144"

lemma length_write_object [simp]: "object_fits base members \<Longrightarrow> length (write_object base members) = length base"
  using fits_le by (auto simp: write_object_def object_fits_def length_place)

lemma slice_write_object:
  assumes "object_fits base members" "(offset, bs) \<in> set members"
  shows "offset + length bs \<le> length base" "take (length bs) (drop offset (write_object base members)) = bs"
  using place_member [of 8 members base offset bs] assms by (auto simp: object_fits_def write_object_def)

lemma member_slice:
  assumes "object_fits base members" "offset \<in> fst ` set members" "length (the (map_of members offset)) = n"
  shows "rd_slice (write_object base members) offset n = Inr (the (map_of members offset))"
proof -
  obtain bs where "map_of members offset = Some bs" using assms(2) by (metis map_of_eq_None_iff not_Some_eq)
  then show ?thesis
    using slice_write_object [OF assms(1) map_of_SomeD] assms(1,3) by (auto simp: rd_slice_eq_Inr)
qed

lemma member_le:
  assumes "object_fits base members" "offset \<in> fst ` set members" "length (the (map_of members offset)) = n"
  shows "rd_le n (write_object base members) offset = Inr (le_value (the (map_of members offset)))"
  using member_slice [OF assms] by (simp add: rd_le_def)

lemma fletcher64_value_calculated:
  assumes "length body \<le> 4 * 65534" "4 dvd length body"
  shows "\<exists>w. checksum_calculate_fletcher64 body (length body) 0 = Inr w \<and> unat w = fletcher64_value body"
proof -
  obtain w where "checksum_calculate_fletcher64 body (length body) 0 = Inr w"
    using checksum_calculate_fletcher64_value [OF assms, of 0] by blast
  then show ?thesis by (simp add: fletcher64_value_def)
qed

lemma written_checksum:
  assumes "object_fits base members"
  shows "check_object_checksum (write_object base members) (length base) = Inr ()"
proof -
  let ?body = "place 8 base members"
  have body: "length ?body = length base - 8" "8 \<le> length base"
    using assms length_place [of 8 members base] fits_le [of 8 members "length base"] by (auto simp: object_fits_def)
  have "4 dvd length ?body" using assms body by (simp add: object_fits_def dvd_diff_nat)
  moreover have "length ?body \<le> 4 * 65534" using assms body by (auto simp: object_fits_def)
  ultimately obtain w where w: "checksum_calculate_fletcher64 ?body (length ?body) 0 = Inr w" "unat w = fletcher64_value ?body"
    using fletcher64_value_calculated [of ?body] by blast
  have "rd_u64_le (write_object base members) 0 = Inr (fletcher64_value ?body mod 256 ^ 8)"
    by (simp add: write_object_def rd_le_def rd_slice_def)
  moreover have "fletcher64_value ?body mod 256 ^ 8 = unat w" using w(2) unsigned_less [of w, where 'a = nat] by simp
  ultimately show ?thesis using w(1) body by (simp add: check_object_checksum_def write_object_def)
qed

lemma written_type:
  assumes "object_fits base members" "map_of members 24 = Some (le_encode 4 expected_type)"
    "map_of members 28 = Some (le_encode 4 expected_subtype)" "expected_type < 2 ^ 32" "expected_subtype < 2 ^ 32"
  shows "check_object_type expected_type expected_subtype (write_object base members) = Inr ()"
  using member_le [OF assms(1), of 24 4] member_le [OF assms(1), of 28 4] assms(2-5) map_of_SomeD [OF assms(2)]
    map_of_SomeD [OF assms(3)] by (force simp: check_object_type_def image_iff)

section \<open>Container superblock\<close>

definition container_layout :: "container_superblock \<Rightarrow> nat \<Rightarrow> layout" where
  "container_layout superblock maximum_number_of_volumes =
     [(16, le_encode 8 (superblock_transaction superblock)),
      (24, le_encode 4 0x80000001), (28, le_encode 4 0), (32, container_signature),
      (36, le_encode 4 (superblock_block_size superblock)),
      (40, le_encode 8 (container_number_of_blocks superblock)),
      (64, le_encode 8 (container_incompatible_features superblock)),
      (72, container_identifier superblock),
      (104, le_encode 4 (descriptor_area_number_of_blocks superblock)),
      (112, le_encode 8 (descriptor_area_block_number superblock)),
      (152, le_encode 8 (space_manager_identifier superblock)),
      (160, le_encode 8 (container_object_map_block superblock)),
      (168, le_encode 8 (reaper_identifier superblock)),
      (180, le_encode 4 maximum_number_of_volumes),
      (184, concat (map (le_encode 8) (volume_object_identifiers superblock))),
      (1280, fusion_set_identifier superblock),
      (1296, le_encode 8 (key_bag_block superblock)),
      (1304, le_encode 8 (key_bag_number_of_blocks superblock)),
      (1352, le_encode 8 (fusion_middle_tree_block superblock))]"

definition container_superblock_wf :: "container_superblock \<Rightarrow> bool" where
  "container_superblock_wf superblock \<longleftrightarrow>
     superblock_transaction superblock < 2 ^ 64 \<and> superblock_block_size superblock = 4096 \<and>
     container_number_of_blocks superblock < 2 ^ 64 \<and>
     container_incompatible_features superblock < 2 ^ 64 \<and> even (container_incompatible_features superblock) \<and>
     length (container_identifier superblock) = 16 \<and>
     descriptor_area_number_of_blocks superblock < 2 ^ 31 \<and>
     0 < descriptor_area_block_number superblock \<and> descriptor_area_block_number superblock < 2 ^ 32 \<and>
     space_manager_identifier superblock < 2 ^ 64 \<and> container_object_map_block superblock < 2 ^ 64 \<and>
     reaper_identifier superblock < 2 ^ 64 \<and> length (fusion_set_identifier superblock) = 16 \<and>
     key_bag_block superblock < 2 ^ 64 \<and> key_bag_number_of_blocks superblock < 2 ^ 64 \<and>
     fusion_middle_tree_block superblock < 2 ^ 64 \<and>
     length (volume_object_identifiers superblock) = 100 \<and>
     list_all (\<lambda>i. i < 2 ^ 64) (volume_object_identifiers superblock) \<and>
     number_of_volumes superblock = length (filter (\<lambda>i. i \<noteq> 0) (volume_object_identifiers superblock))"

lemma length_concat_encode: "length (concat (map (le_encode n) xs)) = length xs * n"
  by (induction xs) simp_all

lemma read_volume_identifiers_encoded:
  assumes "list_all (\<lambda>i. i < 2 ^ 64) ids" "offset + 8 * length ids \<le> length data"
    "take (8 * length ids) (drop offset data) = concat (map (le_encode 8) ids)"
  shows "read_volume_identifiers data (length ids) offset volumes =
    Inr (ids, volumes + length (filter (\<lambda>i. i \<noteq> 0) ids))"
  using assms
proof (induction ids arbitrary: offset volumes)
  case (Cons i ids)
  have parts: "take 8 (drop offset data) @ take (8 * length ids) (drop (offset + 8) data)
      = le_encode 8 i @ concat (map (le_encode 8) ids)"
    using Cons.prems(3) by (simp add: take_add add.commute)
  have "length (take 8 (drop offset data)) = 8" using Cons.prems(2) by simp
  then have "take 8 (drop offset data) = le_encode 8 i"
    and rest: "take (8 * length ids) (drop (offset + 8) data) = concat (map (le_encode 8) ids)"
    using append_eq_append_conv [THEN iffD1, OF _ parts] by simp_all
  then have "rd_u64_le data offset = Inr i" using Cons.prems(1,2) by (simp add: rd_le_eq_Inr)
  moreover have "read_volume_identifiers data (length ids) (offset + 8) v =
      Inr (ids, v + length (filter (\<lambda>i. i \<noteq> 0) ids))" for v
    using Cons.IH rest Cons.prems(1,2) by simp
  ultimately show ?case by simp
qed simp

lemma container_object_fits:
  assumes "container_superblock_wf superblock" "1384 \<le> length base" "4 dvd length base" "length base \<le> 262144"
  shows "object_fits base (container_layout superblock maximum)"
  using assms by (simp add: object_fits_def container_layout_def container_superblock_wf_def length_concat_encode
      container_signature_def del: le_encode.simps)

lemma low_bit_clear: "even (n :: nat) \<Longrightarrow> n AND 1 = 0"
  by (simp add: and_one_eq)

lemma msb_clear: "n < 2 ^ 31 \<Longrightarrow> (n :: nat) AND 0x80000000 = 0"
proof -
  assume "n < 2 ^ 31"
  then have "\<not> bit n 31" by (simp add: bit_nat_def)
  then have "n AND 2 ^ 31 = 0" by (simp only: and_exp_eq_0_iff_not_bit not_False_eq_True)
  then show ?thesis by simp
qed

lemma container_superblock_written:
  assumes "container_superblock_wf superblock" "maximum \<le> 100" "1384 \<le> length base" "4 dvd length base"
    "length base \<le> 262144" "container_superblock_initialize None = Inr empty_superblock"
  shows "container_superblock_read_data empty_superblock (write_object base (container_layout superblock maximum)) (length base)
    = Inr superblock"
proof -
  define data where "data = write_object base (container_layout superblock maximum)"
  note wf = assms(1) [unfolded container_superblock_wf_def]
  note fits = container_object_fits [OF assms(1,3-5), of maximum]
  note reads = member_le [OF fits, folded data_def] member_slice [OF fits, folded data_def]
  have initial: "number_of_volumes empty_superblock = 0" using assms(6) by (auto simp: container_superblock_initialize_def)
  have volumes: "read_volume_identifiers data 100 184 0 = Inr (volume_object_identifiers superblock, number_of_volumes superblock)"
    using read_volume_identifiers_encoded [of "volume_object_identifiers superblock" 184 data 0] wf
      slice_write_object [OF fits, folded data_def, of 184] fits
    by (simp add: container_layout_def length_concat_encode data_def)
  have members: "container_superblock_members (empty_superblock\<lparr>superblock_transaction := superblock_transaction superblock\<rparr>) data
      = Inr superblock"
    using wf
    by (simp add: container_superblock_members_def volumes initial reads container_layout_def del: le_encode.simps)
  have "check_object_type 0x80000001 0x00000000 data = Inr ()"
    unfolding data_def by (rule written_type [OF fits]) (simp_all add: container_layout_def)
  moreover have "check_object_checksum data (length base) = Inr ()"
    unfolding data_def by (rule written_checksum [OF fits])
  moreover have "rd_u64_le data 16 = Inr (superblock_transaction superblock)" "rd_slice data 32 4 = Inr container_signature"
    "rd_u32_le data 180 = Inr maximum"
    using wf assms(2) by (simp_all add: reads container_layout_def container_signature_def del: le_encode.simps)
  moreover have "container_superblock_check superblock maximum = Inr ()"
    using wf assms(2) by (simp add: container_superblock_check_def low_bit_clear msb_clear)
  ultimately show ?thesis
    using assms(3,5) members by (simp add: container_superblock_read_data_def SSIZE_MAX_def data_def)
qed

section \<open>Volume superblock\<close>

definition volume_layout :: "volume_superblock \<Rightarrow> bool \<Rightarrow> nat \<Rightarrow> layout" where
  "volume_layout superblock is_snapshot n =
     [(16, le_encode 8 (volume_transaction superblock)),
      (24, le_encode 4 (if is_snapshot then 0x4000000d else 0x0000000d)), (28, le_encode 4 0),
      (32, volume_signature),
      (40, le_encode 8 (volume_compatible_features superblock)),
      (48, le_encode 8 (volume_read_only_compatible_features superblock)),
      (56, le_encode 8 (volume_incompatible_features superblock)),
      (128, le_encode 8 (volume_object_map_block superblock)),
      (136, le_encode 8 (root_tree_identifier superblock)),
      (144, le_encode 8 (extent_reference_tree_block superblock)),
      (152, le_encode 8 (snapshot_metadata_tree_block superblock)),
      (176, le_encode 8 (next_object_identifier superblock)),
      (240, volume_identifier superblock),
      (264, le_encode 8 (volume_flags superblock)),
      (704, volume_name superblock)] @
     (if \<not> is_snapshot \<and> n \<ge> 0x410
      then [(0x400, le_encode 8 (sealed_tree_identifier superblock)), (0x408, le_encode 8 (sealed_tree_block superblock))]
      else [])"

definition volume_superblock_wf :: "volume_superblock \<Rightarrow> bool \<Rightarrow> nat \<Rightarrow> bool" where
  "volume_superblock_wf superblock is_snapshot n \<longleftrightarrow>
     volume_transaction superblock < 2 ^ 64 \<and> volume_compatible_features superblock < 2 ^ 64 \<and>
     volume_read_only_compatible_features superblock < 2 ^ 64 \<and> volume_incompatible_features superblock < 2 ^ 64 \<and>
     volume_object_map_block superblock < 2 ^ 64 \<and> root_tree_identifier superblock < 2 ^ 64 \<and>
     extent_reference_tree_block superblock < 2 ^ 64 \<and> snapshot_metadata_tree_block superblock < 2 ^ 64 \<and>
     next_object_identifier superblock < 2 ^ 64 \<and> length (volume_identifier superblock) = 16 \<and>
     volume_flags superblock < 2 ^ 64 \<and> length (volume_name superblock) = 256 \<and>
     sealed_tree_identifier superblock < 2 ^ 64 \<and> sealed_tree_block superblock < 2 ^ 64 \<and>
     (is_snapshot \<or> n < 0x410 \<longrightarrow> sealed_tree_identifier superblock = 0 \<and> sealed_tree_block superblock = 0)"

lemma volume_object_fits:
  assumes "volume_superblock_wf superblock is_snapshot (length base)" "1008 \<le> length base" "4 dvd length base"
    "length base \<le> 262144"
  shows "object_fits base (volume_layout superblock is_snapshot (length base))"
  using assms by (simp add: object_fits_def volume_layout_def volume_superblock_wf_def volume_signature_def
      del: le_encode.simps)

lemma volume_superblock_written:
  assumes "volume_superblock_wf superblock is_snapshot (length base)" "1008 \<le> length base" "4 dvd length base"
    "length base \<le> 262144"
  shows "volume_superblock_read_data initial
      (write_object base (volume_layout superblock is_snapshot (length base))) (length base) is_snapshot = Inr superblock"
proof -
  define data where "data = write_object base (volume_layout superblock is_snapshot (length base))"
  note wf = assms(1) [unfolded volume_superblock_wf_def]
  note fits = volume_object_fits [OF assms]
  note reads = member_le [OF fits, folded data_def] member_slice [OF fits, folded data_def]
  have members: "volume_superblock_members (initial\<lparr>volume_transaction := volume_transaction superblock\<rparr>) data =
      Inr (superblock\<lparr>sealed_tree_identifier := sealed_tree_identifier initial, sealed_tree_block := sealed_tree_block initial\<rparr>)"
    using wf by (simp add: volume_superblock_members_def reads volume_layout_def del: le_encode.simps)
  have sealed: "volume_superblock_sealed (superblock\<lparr>sealed_tree_identifier := i, sealed_tree_block := b\<rparr>) data
      (length base) is_snapshot = Inr superblock" for i b
    using wf by (simp add: volume_superblock_sealed_def Let_def reads volume_layout_def del: le_encode.simps)
  have "check_object_type (if is_snapshot then 0x4000000d else 0x0000000d) 0x00000000 data = Inr ()"
    unfolding data_def by (rule written_type [OF fits]) (simp_all add: volume_layout_def)
  moreover have "check_object_checksum data (length base) = Inr ()"
    unfolding data_def by (rule written_checksum [OF fits])
  moreover have "rd_u64_le data 16 = Inr (volume_transaction superblock)" "rd_slice data 32 4 = Inr volume_signature"
    using wf by (simp_all add: reads volume_layout_def volume_signature_def del: le_encode.simps)
  ultimately show ?thesis
    using assms(2,4) members sealed
    by (simp add: volume_superblock_read_data_def SSIZE_MAX_def data_def)
qed

section \<open>Checkpoint map\<close>

text \<open>An entry with its other members, 24 bytes.\<close>

definition encode_map_entry :: "bytes \<times> checkpoint_map_entry \<Rightarrow> bytes" where
  "encode_map_entry = (\<lambda>(other, e). other @ le_encode 8 (mapped_object_identifier e) @ le_encode 8 (mapped_physical_address e))"

definition map_entry_wf :: "bytes \<times> checkpoint_map_entry \<Rightarrow> bool" where
  "map_entry_wf = (\<lambda>(other, e).
     length other = 24 \<and> mapped_object_identifier e < 2 ^ 64 \<and> mapped_physical_address e < 2 ^ 64)"

definition checkpoint_map_layout :: "nat \<Rightarrow> (bytes \<times> checkpoint_map_entry) list \<Rightarrow> layout" where
  "checkpoint_map_layout transaction_id entries =
     [(16, le_encode 8 transaction_id), (24, le_encode 4 0x4000000c), (28, le_encode 4 0), (36, le_encode 4 (length entries)),
      (40, concat (map encode_map_entry entries))]"

lemma length_encode_map_entry: "map_entry_wf e \<Longrightarrow> length (encode_map_entry e) = 40"
  by (auto simp: map_entry_wf_def encode_map_entry_def)

lemma length_encode_map_entries: "list_all map_entry_wf es \<Longrightarrow> length (concat (map encode_map_entry es)) = 40 * length es"
  by (induction es) (simp_all add: length_encode_map_entry)

lemma map_entry_read:
  assumes "map_entry_wf e" "take 40 data = encode_map_entry e" "40 \<le> n" "n \<le> SSIZE_MAX"
  shows "checkpoint_map_entry_read_data initial data n = Inr (snd e)"
proof -
  have data: "data = encode_map_entry e @ drop 40 data" using assms(2) by (metis append_take_drop_id)
  show ?thesis
    using assms(1,3,4)
    by (subst data) (auto simp: map_entry_wf_def encode_map_entry_def checkpoint_map_entry_read_data_def
        rd_le_def rd_slice_def split: prod.splits simp del: le_encode.simps)
qed

lemma read_map_entries_written:
  assumes "list_all map_entry_wf es" "offset + 40 * length es \<le> length data" "length data \<le> SSIZE_MAX"
    "take (40 * length es) (drop offset data) = concat (map encode_map_entry es)"
  shows "read_map_entries data (length data) (length es) offset entries = Inr (entries @ map snd es)"
  using assms
proof (induction es arbitrary: offset entries)
  case (Cons e es)
  have e: "map_entry_wf e" using Cons.prems(1) by simp
  have parts: "take 40 (drop offset data) @ take (40 * length es) (drop (offset + 40) data)
      = encode_map_entry e @ concat (map encode_map_entry es)"
    using Cons.prems(4) by (simp add: take_add add.commute)
  have "length (take 40 (drop offset data)) = length (encode_map_entry e)"
    using Cons.prems(2) length_encode_map_entry [OF e] by simp
  then have one: "take 40 (drop offset data) = encode_map_entry e"
    and rest: "take (40 * length es) (drop (offset + 40) data) = concat (map encode_map_entry es)"
    using append_eq_append_conv [THEN iffD1, OF _ parts] by simp_all
  obtain initial where initial: "checkpoint_map_entry_initialize None = Inr initial"
    by (simp add: checkpoint_map_entry_initialize_def)
  have "checkpoint_map_entry_read_data initial (drop offset data) (length data - offset) = Inr (snd e)"
    using Cons.prems(2,3) by (intro map_entry_read [OF e one]) simp_all
  moreover have "read_map_entries data (length data) (length es) (offset + 40) es' = Inr (es' @ map snd es)" for es'
    using Cons.IH rest Cons.prems(1-3) by simp
  ultimately show ?case using initial by simp
qed simp

lemma map_entries_lookup_map_of:
  "map_entries_lookup es i = map_of (map (\<lambda>e. (mapped_object_identifier e, mapped_physical_address e)) es) i"
  by (induction es) auto

lemma checkpoint_map_written:
  assumes "list_all map_entry_wf es" "length es \<le> 101" "4080 \<le> length base" "4 dvd length base" "length base \<le> 262144"
  shows "checkpoint_map_read_data \<lparr>map_entries = []\<rparr> (write_object base (checkpoint_map_layout t es)) (length base) =
    Inr \<lparr>map_entries = map snd es\<rparr>"
proof -
  define data where "data = write_object base (checkpoint_map_layout t es)"
  have fits: "object_fits base (checkpoint_map_layout t es)"
    using assms by (simp add: object_fits_def checkpoint_map_layout_def length_encode_map_entries del: le_encode.simps)
  have len: "length data = length base" using fits by (simp add: data_def)
  have entries: "read_map_entries data (length base) (length es) 40 [] = Inr (map snd es)"
    using read_map_entries_written [OF assms(1), of 40 data "[]"] len assms(2,3,5) length_encode_map_entries [OF assms(1)]
      slice_write_object(2) [OF fits, folded data_def, of 40]
    by (simp add: checkpoint_map_layout_def SSIZE_MAX_def)
  have "check_object_type 0x4000000c 0x00000000 data = Inr ()"
    unfolding data_def by (rule written_type [OF fits]) (simp_all add: checkpoint_map_layout_def)
  moreover have "check_object_checksum data (length base) = Inr ()"
    unfolding data_def by (rule written_checksum [OF fits])
  moreover have "rd_u32_le data 36 = Inr (length es)"
    using member_le [OF fits, folded data_def, of 36 4] assms(2)
    by (simp add: checkpoint_map_layout_def del: le_encode.simps)
  ultimately show ?thesis
    using assms(2,3,5) entries by (simp add: checkpoint_map_read_data_def SSIZE_MAX_def data_def)
qed

section \<open>Corruption\<close>

lemma le_value_inject: "length xs = length ys \<Longrightarrow> le_value xs = le_value ys \<longleftrightarrow> xs = ys"
proof (induction xs ys rule: list_induct2)
  case (Cons x xs y ys)
  have "a + 256 * m = b + 256 * n \<longleftrightarrow> a = b \<and> m = n" if "a < 256" "b < 256" for a b m n :: nat
  proof
    assume sums: "a + 256 * m = b + 256 * n"
    have "(a + 256 * m) mod 256 = a" "(b + 256 * n) mod 256 = b" using that by simp_all
    then have "a = b" using sums by simp
    then show "a = b \<and> m = n" using sums by simp
  qed simp
  then have "unat x + 256 * m = unat y + 256 * n \<longleftrightarrow> unat x = unat y \<and> m = n" for m n by simp
  then show ?case using Cons.IH by (simp add: word_unat_eq_iff)
qed simp

lemma values_32bit_append: "4 dvd length xs \<Longrightarrow> values_32bit (xs @ ys) = values_32bit xs @ values_32bit ys"
proof (induction xs rule: values_32bit.induct)
  case (1 a b c d rest)
  have "length (a # b # c # d # rest) = 4 + length rest" by simp
  then have "4 dvd length rest" using 1(2) by (simp only: dvd_add_right_iff dvd_refl)
  with 1 show ?case by simp
qed (simp_all add: dvd_eq_mod_eq_0)

text \<open>
  One 32-bit value behind the checksum changed, other than between zero and all ones, or the checksum itself.
\<close>

definition corrupted :: "bytes \<Rightarrow> bytes \<Rightarrow> bool" where
  "corrupted data data' \<longleftrightarrow> length data' = length data \<and>
     (drop 8 data' = drop 8 data \<and> take 8 data' \<noteq> take 8 data \<or>
      take 8 data' = take 8 data \<and>
      (\<exists>before x y behind. values_32bit (drop 8 data) = before @ x # behind \<and>
         values_32bit (drop 8 data') = before @ y # behind \<and> x mod 4294967295 \<noteq> y mod 4294967295))"

lemma checksum_accepted:
  assumes "check_object_checksum data n = Inr ()"
  shows "8 \<le> length data \<and> (\<exists>w. checksum_calculate_fletcher64 (drop 8 data) (n - 8) 0 = Inr w \<and>
    le_value (take 8 data) = unat w)"
  using assms by (auto simp: check_object_checksum_def result_simps split: if_splits)

lemma corrupted_rejected:
  assumes "corrupted data data'" "length data \<le> 262144" "check_object_checksum data (length data) = Inr ()"
  shows "check_object_checksum data' (length data') \<noteq> Inr ()"
proof
  assume other: "check_object_checksum data' (length data') = Inr ()"
  have len: "length data' = length data" using assms(1) by (simp add: corrupted_def)
  from checksum_accepted [OF assms(3)] checksum_accepted [OF other] len obtain w w' where
    w: "checksum_calculate_fletcher64 (drop 8 data) (length data - 8) 0 = Inr w" "le_value (take 8 data) = unat w"
      "checksum_calculate_fletcher64 (drop 8 data') (length data - 8) 0 = Inr w'" "le_value (take 8 data') = unat w'"
    and eight: "8 \<le> length data" by auto
  have multiple: "4 dvd length data - 8"
    using w(1) by (auto simp: checksum_calculate_fletcher64_def dvd_eq_mod_eq_0 split: if_splits)
  show False
  proof (cases "drop 8 data' = drop 8 data")
    case True
    then have "le_value (take 8 data') = le_value (take 8 data)" using w by simp
    then have same: "take 8 data' = take 8 data" using len by (subst (asm) le_value_inject) simp_all
    then show False using assms(1) True unfolding corrupted_def by force
  next
    case False
    then obtain before x y behind where change: "values_32bit (drop 8 data) = before @ x # behind"
      "values_32bit (drop 8 data') = before @ y # behind" "x mod 4294967295 \<noteq> y mod 4294967295"
      and same: "take 8 data' = take 8 data"
      using assms(1) unfolding corrupted_def by blast
    have "checksum_calculate_fletcher64 (drop 8 data) (length (drop 8 data)) 0 \<noteq>
        checksum_calculate_fletcher64 (drop 8 data') (length (drop 8 data')) 0"
      using assms(2) len multiple by (intro fletcher64_detects [OF _ _ _ change]) simp_all
    then have "w \<noteq> w'" using w len by simp
    then show False using w same by (simp add: word_unat_eq_iff)
  qed
qed

lemma accepted_checksums:
  "container_superblock_read_data c data n = Inr c' \<Longrightarrow> check_object_checksum data n = Inr ()"
  "volume_superblock_read_data v data n snap = Inr v' \<Longrightarrow> check_object_checksum data n = Inr ()"
  "checkpoint_map_read_data m data n = Inr m' \<Longrightarrow> check_object_checksum data n = Inr ()"
  by (auto simp: container_superblock_read_data_def volume_superblock_read_data_def checkpoint_map_read_data_def
      result_simps split: if_splits)

lemma rejected:
  "(\<And>x. r \<noteq> Inr x) \<Longrightarrow> \<exists>e. r = Inl e"
  by (cases r) auto

section \<open>Safety\<close>

lemma check_object_type_safe: "32 \<le> length data \<Longrightarrow> safe (check_object_type t s data)"
  by (simp add: check_object_type_def)

lemma check_object_checksum_safe: "8 \<le> length data \<Longrightarrow> n \<le> length data \<Longrightarrow> safe (check_object_checksum data n)"
  unfolding check_object_checksum_def
  by (intro safe_bindR checksum_calculate_fletcher64_safe) (auto simp: safe_bindR)

lemma read_map_entries_safe: "safe (read_map_entries data (length data) n offset entries)"
  by (induction n arbitrary: offset entries)
    (auto simp: checkpoint_map_entry_initialize_def checkpoint_map_entry_read_data_def intro!: safe_bindR)

lemma read_volume_identifiers_safe:
  "offset + 8 * n \<le> length data \<Longrightarrow> safe (read_volume_identifiers data n offset volumes)"
proof (induction n arbitrary: offset volumes)
  case (Suc n)
  have "safe (read_volume_identifiers data n (offset + 8) v)" for v using Suc by simp
  then show ?case using Suc.prems by (auto intro!: safe_bindR)
qed simp

lemma container_superblock_members_safe:
  assumes "1384 \<le> length data"
  shows "safe (container_superblock_members superblock data)"
proof -
  have "safe (read_volume_identifiers data 100 184 (number_of_volumes superblock))"
    using assms by (intro read_volume_identifiers_safe) simp
  then show ?thesis
    unfolding container_superblock_members_def using assms
    by (simp del: read_volume_identifiers.simps) (intro safe_bindR, auto)
qed

lemma container_superblock_read_data_safe: "safe (container_superblock_read_data superblock data (length data))"
  unfolding container_superblock_read_data_def container_superblock_check_def
  by (auto intro!: safe_bindR check_object_type_safe check_object_checksum_safe container_superblock_members_safe)

lemma volume_superblock_read_data_safe: "safe (volume_superblock_read_data superblock data (length data) snap)"
  unfolding volume_superblock_read_data_def volume_superblock_members_def volume_superblock_sealed_def Let_def
  by (auto intro!: safe_bindR check_object_type_safe check_object_checksum_safe)

lemma checkpoint_map_read_data_safe: "safe (checkpoint_map_read_data checkpoint_map data (length data))"
  unfolding checkpoint_map_read_data_def
  by (auto intro!: safe_bindR check_object_type_safe check_object_checksum_safe read_map_entries_safe)

lemma read_buffer_at_offset_safe: "(\<And>i n. safe (f i n)) \<Longrightarrow> safe (read_buffer_at_offset f off n)"
  unfolding read_buffer_at_offset_def by (auto intro!: safe_bindR)

section \<open>Properties\<close>

text \<open>
  C31. A container superblock and a volume superblock, written at the offsets of
  their members over arbitrary other bytes with their Fletcher-64 in front, are read back; the
  number of volumes is that of the identifiers that are set.
\<close>

theorem superblocks_roundtrip:
  assumes "container_superblock_wf container" "maximum \<le> 100"
    and "volume_superblock_wf volume is_snapshot (length base)"
    and "1384 \<le> length base" "4 dvd length base" "length base \<le> 262144"
  shows "bindR (container_superblock_initialize None) (\<lambda>empty.
      container_superblock_read_data empty (write_object base (container_layout container maximum)) (length base)) = Inr container \<and>
    bindR (volume_superblock_initialize None) (\<lambda>empty.
      volume_superblock_read_data empty (write_object base (volume_layout volume is_snapshot (length base))) (length base)
        is_snapshot) = Inr volume"
proof -
  obtain c where c: "container_superblock_initialize None = Inr c" by (simp add: container_superblock_initialize_def)
  obtain v where v: "volume_superblock_initialize None = Inr v" by (simp add: volume_superblock_initialize_def)
  show ?thesis
    using container_superblock_written [OF assms(1,2,4-6) c] volume_superblock_written [OF assms(3) _ assms(5,6), of v]
      assms(4) c v by simp
qed

definition sample_container :: container_superblock where
  "sample_container = \<lparr>superblock_transaction = 7, superblock_block_size = 4096, container_number_of_blocks = 1000,
     container_incompatible_features = 2, container_identifier = replicate 16 1,
     descriptor_area_number_of_blocks = 8, descriptor_area_block_number = 1, space_manager_identifier = 1024,
     container_object_map_block = 300, reaper_identifier = 1025, fusion_set_identifier = replicate 16 0,
     key_bag_block = 0, key_bag_number_of_blocks = 0, number_of_volumes = 1,
     volume_object_identifiers = 1026 # replicate 99 0, fusion_middle_tree_block = 0\<rparr>"

definition sample_volume :: volume_superblock where
  "sample_volume = \<lparr>volume_transaction = 7, volume_compatible_features = 0, volume_read_only_compatible_features = 0,
     volume_incompatible_features = 1, volume_object_map_block = 310, root_tree_identifier = 1028,
     extent_reference_tree_block = 320, snapshot_metadata_tree_block = 330, next_object_identifier = 20,
     volume_identifier = replicate 16 2, volume_flags = 1, volume_name = replicate 256 0x41,
     sealed_tree_identifier = 0, sealed_tree_block = 0\<rparr>"

lemma sample_superblocks: "container_superblock_wf sample_container" "volume_superblock_wf sample_volume False n"
  by (simp_all add: container_superblock_wf_def sample_container_def volume_superblock_wf_def sample_volume_def list_all_iff)

theorem superblocks_roundtrip_witness:
  "bindR (container_superblock_initialize None) (\<lambda>empty.
      container_superblock_read_data empty (write_object (replicate 4096 3) (container_layout sample_container 1)) 4096)
        = Inr sample_container \<and>
    bindR (volume_superblock_initialize None) (\<lambda>empty.
      volume_superblock_read_data empty (write_object (replicate 4096 3) (volume_layout sample_volume False 4096)) 4096
        False) = Inr sample_volume"
  using superblocks_roundtrip [OF sample_superblocks(1) _ sample_superblocks(2), of 1 "replicate 4096 3"]
  by (simp only: length_replicate) simp

text \<open>
  A checkpoint map that is written with its entries and its
  Fletcher-64 is read back, and the lookup of an object returns the address of its first entry, or
  0 when the map has no such object.
\<close>

theorem checkpoint_map_lookup_correct:
  assumes "list_all map_entry_wf entries" "length entries \<le> 101"
    and "4080 \<le> length base" "4 dvd length base" "length base \<le> 262144"
  shows "bindR (checkpoint_map_initialize None) (\<lambda>checkpoint_map.
    bindR (checkpoint_map_read_data checkpoint_map (write_object base (checkpoint_map_layout t entries)) (length base))
      (\<lambda>checkpoint_map. checkpoint_map_get_physical_address_by_object_identifier checkpoint_map i)) =
    Inr (map_of (map (\<lambda>(_, e). (mapped_object_identifier e, mapped_physical_address e)) entries) i)"
  using checkpoint_map_written [OF assms]
  by (simp add: checkpoint_map_initialize_def checkpoint_map_get_physical_address_by_object_identifier_def
      map_entries_lookup_map_of comp_def case_prod_unfold)

theorem checkpoint_map_lookup_correct_witness:
  "bindR (checkpoint_map_initialize None) (\<lambda>checkpoint_map.
    bindR (checkpoint_map_read_data checkpoint_map (write_object (replicate 4096 0) (checkpoint_map_layout 7
        [(replicate 24 9, \<lparr>mapped_object_identifier = 1024, mapped_physical_address = 77\<rparr>)])) 4096)
      (\<lambda>checkpoint_map. checkpoint_map_get_physical_address_by_object_identifier checkpoint_map 1024)) = Inr (Some 77)"
proof -
  let ?entries = "[(replicate 24 9, \<lparr>mapped_object_identifier = 1024, mapped_physical_address = 77\<rparr>)]"
  have "list_all map_entry_wf ?entries" by (simp add: map_entry_wf_def)
  from checkpoint_map_lookup_correct [OF this, of "replicate 4096 0" 7 1024, unfolded length_replicate]
  show ?thesis by simp
qed

text \<open>
  C32. When one 32-bit value of an accepted container superblock, volume superblock or
  checkpoint map changes, or its checksum, the object is rejected, unless the old and the new value are equal modulo
  2 to the power of 32 less 1, as 0 and all ones are: the Fletcher-64 does not tell these apart.
\<close>

theorem corruption_detected:
  assumes "corrupted data data'" "length data \<le> 262144"
  shows "(container_superblock_read_data c data (length data) = Inr container \<longrightarrow>
      (\<exists>e. container_superblock_read_data c' data' (length data') = Inl e)) \<and>
    (volume_superblock_read_data v data (length data) snap = Inr volume \<longrightarrow>
      (\<exists>e. volume_superblock_read_data v' data' (length data') snap' = Inl e)) \<and>
    (checkpoint_map_read_data m data (length data) = Inr checkpoints \<longrightarrow>
      (\<exists>e. checkpoint_map_read_data m' data' (length data') = Inl e))"
  using corrupted_rejected [OF assms] by (blast intro: rejected dest: accepted_checksums)

lemma first_value_changed:
  assumes "12 \<le> length data" "take 4 (drop 8 data) = [b0, b1, b2, b3]"
    "le_value [b0, b1, b2, b3] mod 4294967295 \<noteq> le_value [c0, c1, c2, c3] mod 4294967295"
  shows "corrupted data (take 8 data @ [c0, c1, c2, c3] @ drop 12 data)"
proof -
  have "drop 8 data = take 4 (drop 8 data) @ drop 4 (drop 8 data)" by (simp only: append_take_drop_id)
  then have "values_32bit (drop 8 data) = [] @ le_value [b0, b1, b2, b3] # values_32bit (drop 12 data)"
    unfolding assms(2) by simp
  moreover have "values_32bit (drop 8 (take 8 data @ [c0, c1, c2, c3] @ drop 12 data)) =
      [] @ le_value [c0, c1, c2, c3] # values_32bit (drop 12 data)"
    using assms(1) by simp
  moreover have "length (take 8 data @ [c0, c1, c2, c3] @ drop 12 data) = length data"
    "take 8 (take 8 data @ [c0, c1, c2, c3] @ drop 12 data) = take 8 data"
    using assms(1) by simp_all
  ultimately show ?thesis using assms(3) unfolding corrupted_def by blast
qed

definition sample_container_data :: bytes where
  "sample_container_data = write_object (replicate 4096 3) (container_layout sample_container 1)"

lemma sample_container_data:
  "length sample_container_data = 4096" "take 4 (drop 8 sample_container_data) = [3, 3, 3, 3]"
proof -
  have "object_fits (replicate 4096 3) (container_layout sample_container 1)"
    using container_object_fits [OF sample_superblocks(1), of "replicate 4096 3" 1] by simp
  then show "length sample_container_data = 4096" by (simp add: sample_container_data_def)
  obtain bs ms where layout: "container_layout sample_container 1 = (16, bs) # ms"
    unfolding container_layout_def by blast
  have "take 4 (place 8 base ((16, bs) # ms)) = take 4 (drop 8 base)" if "16 \<le> length base" for base
    using that by simp
  from this [of "replicate 4096 3"] have "take 4 (drop 8 sample_container_data) = replicate 4 3"
    unfolding sample_container_data_def write_object_def layout by (simp del: place.simps)
  also have "\<dots> = [3, 3, 3, 3]" by (simp add: numeral_eq_Suc)
  finally show "take 4 (drop 8 sample_container_data) = [3, 3, 3, 3]" .
qed

theorem corruption_detected_witness:
  "\<exists>e. bindR (container_superblock_initialize None) (\<lambda>c.
     container_superblock_read_data c (take 8 sample_container_data @ [4, 3, 3, 3] @ drop 12 sample_container_data) 4096) = Inl e"
proof -
  obtain c where c: "container_superblock_initialize None = Inr c" by (simp add: container_superblock_initialize_def)
  have "container_superblock_read_data c sample_container_data (length sample_container_data) = Inr sample_container"
    using container_superblock_written [OF sample_superblocks(1) _ _ _ _ c, of 1 "replicate 4096 3"]
    unfolding sample_container_data(1) by (simp add: sample_container_data_def)
  moreover have "corrupted sample_container_data (take 8 sample_container_data @ [4, 3, 3, 3] @ drop 12 sample_container_data)"
    by (rule first_value_changed [OF _ sample_container_data(2)]) (simp_all add: sample_container_data)
  ultimately have "\<exists>e. container_superblock_read_data c data' (length data') = Inl e"
    if "data' = take 8 sample_container_data @ [4, 3, 3, 3] @ drop 12 sample_container_data" for data'
    using corruption_detected [of sample_container_data data' c sample_container c, THEN conjunct1] that
      sample_container_data(1) by simp
  from this [OF refl] show ?thesis using c sample_container_data(1) by simp
qed

text \<open>
  Whatever the blocks hold, reading an object, a superblock, a checkpoint map
  or one of the objects of which the type is checked returns it or an error of the library, and accesses no
  memory outside the data.
\<close>

theorem container_objects_safe:
  assumes "\<And>i n. safe (f i n)"
  shows "safe (object_read_file_io_handle object f off) \<and>
    safe (container_superblock_read_file_io_handle container f off) \<and>
    safe (volume_superblock_read_file_io_handle volume f off is_snapshot) \<and>
    safe (checkpoint_map_read_file_io_handle checkpoint_map f off) \<and>
    safe (space_manager_read_file_io_handle f off) \<and> safe (container_reaper_read_file_io_handle f off) \<and>
    safe (chunk_information_block_read_file_io_handle f off) \<and>
    safe (extent_reference_tree_read_file_io_handle f off) \<and> safe (fusion_middle_tree_read_file_io_handle f off)"
proof -
  note reading = safe_bindR [OF read_buffer_at_offset_safe [OF assms]]
  note readers = container_superblock_read_data_safe volume_superblock_read_data_safe checkpoint_map_read_data_safe
  have "safe (object_read_file_io_handle object f off)"
    unfolding object_read_file_io_handle_def object_read_data_def
    by (rule reading) (auto simp: read_buffer_at_offset_length)
  moreover have "safe (container_superblock_read_file_io_handle container f off)"
    "safe (volume_superblock_read_file_io_handle volume f off is_snapshot)"
    "safe (checkpoint_map_read_file_io_handle checkpoint_map f off)"
    unfolding container_superblock_read_file_io_handle_def volume_superblock_read_file_io_handle_def
      checkpoint_map_read_file_io_handle_def
    by (rule reading; metis read_buffer_at_offset_length readers)+
  moreover have "safe (space_manager_read_file_io_handle f off)" "safe (container_reaper_read_file_io_handle f off)"
    "safe (chunk_information_block_read_file_io_handle f off)" "safe (extent_reference_tree_read_file_io_handle f off)"
    "safe (fusion_middle_tree_read_file_io_handle f off)"
    unfolding space_manager_read_file_io_handle_def container_reaper_read_file_io_handle_def
      chunk_information_block_read_file_io_handle_def extent_reference_tree_read_file_io_handle_def
      fusion_middle_tree_read_file_io_handle_def space_manager_read_data_def container_reaper_read_data_def
      chunk_information_block_read_data_def extent_reference_tree_read_data_def fusion_middle_tree_read_data_def
    by (rule reading; simp add: read_buffer_at_offset_length check_object_type_safe)+
  ultimately show ?thesis by blast
qed

theorem container_objects_safe_witness:
  "safe (object_read_file_io_handle \<lparr>object_identifier_value = 0, object_transaction = 0, object_type_value = 0,
      object_subtype_value = 0\<rparr> (\<lambda>i n. Inr (replicate n 0)) 4096)"
  by (rule conjunct1 [OF container_objects_safe [of "\<lambda>i n. Inr (replicate n 0)"]]) simp

end
