(* ===== verification/Container_Open.thy ===== *)
theory Container_Open
  imports Container_Layout Data_Blocks Key_Bags Object_Map_Btree
begin

text \<open>
  Opening a container, \<open>libfsapfs_container.c\<close>, with the callback that reads its blocks,
  \<open>libfsapfs_container_data_handle.c\<close>: out of the superblocks and checkpoint maps in the checkpoint
  descriptor area the latest ones are used.
\<close>

section \<open>Blocks of the container\<close>

definition container_data_handle_initialize :: "io_handle option \<Rightarrow> io_handle \<Rightarrow> io_handle result" where
  "container_data_handle_initialize container_data_handle io =
     (if container_data_handle \<noteq> None then Inl RUNTIME_VALUE_ALREADY_SET else Inr io)"

text \<open>The callback of the vector. The value that it sets for the element is its result.\<close>

definition container_data_handle_read_data_block ::
    "'x xts_operations \<Rightarrow> file_io \<Rightarrow> io_handle \<Rightarrow> nat \<Rightarrow> nat \<Rightarrow> data_block result" where
  "container_data_handle_read_data_block xts file_io_handle io element_data_offset element_data_size =
     (if element_data_size > SSIZE_MAX then Inl ARGUMENT_VALUE_EXCEEDS_MAXIMUM
      else
        bindR (data_block_initialize None element_data_size) (\<lambda>block.
          data_block_read xts block io None file_io_handle element_data_offset 0))"

text \<open>
  The libraries that opening uses. A vector of \<open>libfdata\<close> with a single segment at offset 0 is made out of
  the callback that reads an element at an offset, the size of the elements and that of the segment.
  A cache of \<open>libfcache\<close> starts empty.
\<close>

record ('s, 'x) libraries =
  xts_library :: "'x xts_operations"
  node_cache_library :: "'s node_cache_operations"
  empty_node_cache :: 's
  vector_library :: "(nat \<Rightarrow> nat \<Rightarrow> data_block result) \<Rightarrow> nat \<Rightarrow> nat \<Rightarrow> block_vector result"

definition object_map_btree_initialize ::
    "('s, 'x) libraries \<Rightarrow> ('s object_map_btree \<times> 's) option \<Rightarrow> block_vector \<Rightarrow> nat \<Rightarrow> ('s object_map_btree \<times> 's) result" where
  "object_map_btree_initialize lib tree vector root_block =
     (if tree \<noteq> None then Inl RUNTIME_VALUE_ALREADY_SET
      else Inr (\<lparr>node_cache = node_cache_library lib, data_block_vector = vector, root_node_block_number = root_block\<rparr>,
        empty_node_cache lib))"

section \<open>The container\<close>

text \<open>The file is open when \<open>container_file\<close> is set; the B-tree comes with the state of its cache.\<close>

record 's internal_container =
  container_super :: "container_superblock option"
  container_fusion_middle_tree :: "unit option"
  container_checkpoint_map :: "checkpoint_map option"
  container_vector :: "block_vector option"
  container_object_map :: "('s object_map_btree \<times> 's) option"
  container_keys :: "container_key_bag option"
  container_io :: "io_handle option"
  container_file :: "file_io option"
  file_created_in_library :: bool
  file_opened_in_library :: bool

definition container_initialize :: "'s internal_container option \<Rightarrow> 's internal_container result" where
  "container_initialize container =
     (if container \<noteq> None then Inl RUNTIME_VALUE_ALREADY_SET
      else bindR (io_handle_initialize None) (\<lambda>io.
        Inr \<lparr>container_super = None, container_fusion_middle_tree = None, container_checkpoint_map = None,
          container_vector = None, container_object_map = None, container_keys = None, container_io = Some io,
          container_file = None, file_created_in_library = False, file_opened_in_library = False\<rparr>))"

definition container_signal_abort :: "'s internal_container \<Rightarrow> 's internal_container result" where
  "container_signal_abort container =
     (case container_io container of
        None \<Rightarrow> Inl RUNTIME_VALUE_MISSING
      | Some io \<Rightarrow> Inr (container\<lparr>container_io := Some (io\<lparr>io_abort := 1\<rparr>)\<rparr>))"

section \<open>The checkpoint descriptor area\<close>

text \<open>
  The loop over the blocks of the area, from an index and an offset on, with the object that is read
  over and over, the latest superblock and the block number and the transaction of the latest checkpoint map. The number of
  blocks is that of the superblock that is the latest so far, a member of 32 bits.
\<close>

type_synonym scan_state = "apfs_object \<times> container_superblock \<times> nat \<times> nat"

definition scan_block :: "file_io \<Rightarrow> nat \<Rightarrow> nat \<Rightarrow> scan_state \<Rightarrow> scan_state result" where
  "scan_block file_io_handle metadata_block_index file_offset =
     (\<lambda>(object, superblock, map_block_number, map_transaction).
       bindR (object_read_file_io_handle object file_io_handle file_offset) (\<lambda>object.
         if object_type_value object = 0x4000000c then
           if object_transaction object > map_transaction
           then Inr (object, superblock,
                  (descriptor_area_block_number superblock + metadata_block_index) mod 2 ^ 64, object_transaction object)
           else Inr (object, superblock, map_block_number, map_transaction)
         else if object_type_value object = 0x80000001 then
           bindR (container_superblock_initialize None) (\<lambda>backup.
           bindR (container_superblock_read_file_io_handle backup file_io_handle file_offset) (\<lambda>backup.
             if superblock_transaction backup > superblock_transaction superblock
             then Inr (object, backup, map_block_number, map_transaction)
             else Inr (object, superblock, map_block_number, map_transaction)))
         else Inr (object, superblock, map_block_number, map_transaction)))"

function scan_descriptor_area :: "file_io \<Rightarrow> nat \<Rightarrow> nat \<Rightarrow> nat \<Rightarrow> scan_state \<Rightarrow> scan_state result" where
  "scan_descriptor_area file_io_handle block_size metadata_block_index file_offset st =
     (if metadata_block_index \<le> descriptor_area_number_of_blocks (fst (snd st)) mod 2 ^ 32 then
        bindR (scan_block file_io_handle metadata_block_index file_offset st) (\<lambda>st.
          scan_descriptor_area file_io_handle block_size (metadata_block_index + 1)
            ((file_offset + block_size) mod 2 ^ 64) st)
      else Inr st)"
  by pat_completeness auto
termination
proof (relation "measure (\<lambda>(_, _, i, _, _). 2 ^ 32 - i)", goal_cases)
  case (2 f n i off st x)
  have "descriptor_area_number_of_blocks (fst (snd st)) mod 2 ^ 32 < (2 ^ 32 :: nat)" by (rule mod_less_divisor) simp
  with 2 have "i < 2 ^ 32" by linarith
  then show ?case by simp
qed simp

declare scan_descriptor_area.simps [simp del]

section \<open>Opening\<close>

definition check_container_unset :: "'s internal_container \<Rightarrow> io_handle result" where
  "check_container_unset container =
     (case container_io container of
        None \<Rightarrow> Inl RUNTIME_VALUE_MISSING
      | Some io \<Rightarrow>
          if container_super container \<noteq> None \<or> container_fusion_middle_tree container \<noteq> None \<or>
             container_checkpoint_map container \<noteq> None \<or> container_vector container \<noteq> None \<or>
             container_object_map container \<noteq> None \<or> container_keys container \<noteq> None
          then Inl RUNTIME_VALUE_ALREADY_SET
          else Inr io)"

text \<open>The latest superblock and the map of the latest checkpoint.\<close>

definition read_checkpoint ::
    "file_io \<Rightarrow> io_handle \<Rightarrow> container_superblock \<Rightarrow> (container_superblock \<times> checkpoint_map) result" where
  "read_checkpoint file_io_handle io superblock =
     (if container_incompatible_features superblock AND 0x0000000000000100 \<noteq> 0 then Inl RUNTIME_UNSUPPORTED_VALUE
      else
        bindR (object_initialize None) (\<lambda>object.
        bindR (scan_descriptor_area file_io_handle (io_block_size io) 0
                 (descriptor_area_block_number superblock * io_block_size io) (object, superblock, 0, 0))
          (\<lambda>(object, superblock, map_block_number, map_transaction).
          if map_block_number = 0 then Inl RUNTIME_VALUE_MISSING
          else
            bindR (checkpoint_map_initialize None) (\<lambda>checkpoint_map.
            bindR (checkpoint_map_read_file_io_handle checkpoint_map file_io_handle
                     ((map_block_number * io_block_size io) mod 2 ^ 64)) (\<lambda>checkpoint_map.
              Inr (superblock, checkpoint_map))))))"

text \<open>
  The parts that containers and volumes share: the vector of all blocks of the container, and the object map with its
  B-tree.
\<close>

definition container_blocks :: "('s, 'x) libraries \<Rightarrow> file_io \<Rightarrow> io_handle \<Rightarrow> block_vector result" where
  "container_blocks lib file_io_handle io =
     bindR (container_data_handle_initialize None io) (\<lambda>container_data_handle.
       vector_library lib (container_data_handle_read_data_block (xts_library lib) file_io_handle container_data_handle)
         (io_block_size io) (io_container_size io))"

definition open_object_map ::
    "('s, 'x) libraries \<Rightarrow> file_io \<Rightarrow> io_handle \<Rightarrow> block_vector \<Rightarrow> nat \<Rightarrow> ('s object_map_btree \<times> 's) result" where
  "open_object_map lib file_io_handle io vector object_map_block_number =
     (if object_map_block_number = 0 then Inl RUNTIME_VALUE_MISSING
      else
        bindR (object_map_initialize None) (\<lambda>object_map.
        bindR (object_map_read_file_io_handle object_map file_io_handle
                 ((object_map_block_number * io_block_size io) mod 2 ^ 64)) (\<lambda>object_map.
          if btree_block_number object_map = 0 then Inl RUNTIME_VALUE_MISSING
          else object_map_btree_initialize lib None vector (btree_block_number object_map))))"

text \<open>
  The key bag, if there is one; a bag that is of another type is taken for locked. A decryption that does not
  return is taken for an undefined access.
\<close>

definition open_container_key_bag ::
    "('s, 'x) libraries \<Rightarrow> file_io \<Rightarrow> io_handle \<Rightarrow> container_superblock \<Rightarrow> container_key_bag option result" where
  "open_container_key_bag lib file_io_handle io superblock =
     (if key_bag_block superblock > 0 \<and> key_bag_number_of_blocks superblock > 0 then
        bindR (container_key_bag_initialize None) (\<lambda>key_bag.
          case container_key_bag_read_file_io_handle (xts_library lib) key_bag (io_bytes_per_sector io) file_io_handle
                 ((key_bag_block superblock * io_block_size io) mod 2 ^ 64)
                 ((key_bag_number_of_blocks superblock * io_block_size io) mod 2 ^ 64)
                 (container_identifier superblock) of
            None \<Rightarrow> Inl OUT_OF_BOUNDS_ACCESS
          | Some r \<Rightarrow> bindR r (\<lambda>read_bag.
              case read_bag of
                None \<Rightarrow> Inr (Some (key_bag\<lparr>container_bag_is_locked := True\<rparr>))
              | Some key_bag \<Rightarrow> Inr (Some key_bag)))
      else Inr None)"

text \<open>
  Each step sets the members that it has read. The size of a block and of the container are those of the superblock in the first
  block, although a newer one may follow.
\<close>

definition open_container_superblock ::
    "file_io \<Rightarrow> nat \<Rightarrow> io_handle \<Rightarrow> ('s internal_container, io_handle \<times> container_superblock) call" where
  "open_container_superblock file_io_handle file_offset io container =
     bindS (liftS (container_superblock_initialize (container_super container))) (\<lambda>superblock container.
       bindS (liftS (container_superblock_read_file_io_handle superblock file_io_handle file_offset)) (\<lambda>superblock container.
         let io = io\<lparr>io_block_size := superblock_block_size superblock,
                     io_container_size := (container_number_of_blocks superblock * superblock_block_size superblock) mod 2 ^ 64\<rparr>
         in (Inr (io, superblock), container\<lparr>container_super := Some superblock, container_io := Some io\<rparr>))
       (container\<lparr>container_super := Some superblock\<rparr>)) container"

definition open_container_checkpoint ::
    "file_io \<Rightarrow> io_handle \<Rightarrow> container_superblock \<Rightarrow> ('s internal_container, container_superblock) call" where
  "open_container_checkpoint file_io_handle io superblock =
     bindS (liftS (read_checkpoint file_io_handle io superblock)) (\<lambda>(superblock, checkpoint_map) container.
       (Inr superblock, container\<lparr>container_super := Some superblock, container_checkpoint_map := Some checkpoint_map\<rparr>))"

definition open_container_blocks ::
    "('s, 'x) libraries \<Rightarrow> file_io \<Rightarrow> io_handle \<Rightarrow> ('s internal_container, block_vector) call" where
  "open_container_blocks lib file_io_handle io =
     bindS (liftS (container_blocks lib file_io_handle io)) (\<lambda>vector container.
       (Inr vector, container\<lparr>container_vector := Some vector\<rparr>))"

definition open_container_object_map ::
    "('s, 'x) libraries \<Rightarrow> file_io \<Rightarrow> io_handle \<Rightarrow> block_vector \<Rightarrow> container_superblock \<Rightarrow> ('s internal_container, unit) call" where
  "open_container_object_map lib file_io_handle io vector superblock =
     bindS (liftS (open_object_map lib file_io_handle io vector (container_object_map_block superblock))) (\<lambda>object_map container.
       (Inr (), container\<lparr>container_object_map := Some object_map\<rparr>))"

definition open_container_keys ::
    "('s, 'x) libraries \<Rightarrow> file_io \<Rightarrow> io_handle \<Rightarrow> container_superblock \<Rightarrow> ('s internal_container, unit) call" where
  "open_container_keys lib file_io_handle io superblock =
     bindS (liftS (open_container_key_bag lib file_io_handle io superblock)) (\<lambda>key_bag container.
       (Inr (), container\<lparr>container_keys := key_bag\<rparr>))"

definition open_container_parts ::
    "('s, 'x) libraries \<Rightarrow> file_io \<Rightarrow> nat \<Rightarrow> io_handle \<Rightarrow> ('s internal_container, unit) call" where
  "open_container_parts lib file_io_handle file_offset io =
     bindS (open_container_superblock file_io_handle file_offset io) (\<lambda>(io, superblock).
     bindS (open_container_checkpoint file_io_handle io superblock) (\<lambda>superblock.
     bindS (open_container_blocks lib file_io_handle io) (\<lambda>vector.
     bindS (open_container_object_map lib file_io_handle io vector superblock) (\<lambda>_.
       open_container_keys lib file_io_handle io superblock))))"

text \<open>A failing call frees every member that is set, but leaves the sizes in the I/O handle.\<close>

definition clear_failed_container :: "'s internal_container \<Rightarrow> 's internal_container" where
  "clear_failed_container container =
     container\<lparr>container_keys := None, container_object_map := None, container_vector := None,
       container_checkpoint_map := None, container_fusion_middle_tree := None, container_super := None\<rparr>"

definition internal_container_open_read ::
    "('s, 'x) libraries \<Rightarrow> file_io \<Rightarrow> nat \<Rightarrow> ('s internal_container, unit) call" where
  "internal_container_open_read lib file_io_handle file_offset container =
     (case check_container_unset container of
        Inl e \<Rightarrow> (Inl e, container)
      | Inr io \<Rightarrow>
          (case open_container_parts lib file_io_handle file_offset io container of
             (Inl e, container) \<Rightarrow> (Inl e, clear_failed_container container)
           | (Inr _, container) \<Rightarrow> (Inr (), container)))"

text \<open>
  What that comes to: the parts that are read, and the members that are set when all of them are. A failure leaves the container
  as it was but for the sizes, because every member was unset before.
\<close>

type_synonym 's container_parts =
  "container_superblock \<times> checkpoint_map \<times> block_vector \<times> ('s object_map_btree \<times> 's) \<times> container_key_bag option"

definition read_container_parts ::
    "('s, 'x) libraries \<Rightarrow> file_io \<Rightarrow> io_handle \<Rightarrow> container_superblock \<Rightarrow> 's container_parts result" where
  "read_container_parts lib file_io_handle io superblock =
     bindR (read_checkpoint file_io_handle io superblock) (\<lambda>(superblock, checkpoint_map).
     bindR (container_blocks lib file_io_handle io) (\<lambda>vector.
     bindR (open_object_map lib file_io_handle io vector (container_object_map_block superblock)) (\<lambda>object_map.
     bindR (open_container_key_bag lib file_io_handle io superblock) (\<lambda>key_bag.
       Inr (superblock, checkpoint_map, vector, object_map, key_bag)))))"

lemma container_unset:
  assumes "check_container_unset container = Inr io"
  shows "container_super container = None" "container_fusion_middle_tree container = None" "container_checkpoint_map container = None"
    "container_vector container = None" "container_object_map container = None" "container_keys container = None"
  using assms by (auto simp: check_container_unset_def simp del: not_None_eq split: option.split_asm if_split_asm)

lemma clear_failed_unset:
  assumes "check_container_unset container = Inr io"
  shows "container_file failed = container_file container \<Longrightarrow> file_created_in_library failed = file_created_in_library container \<Longrightarrow>
    file_opened_in_library failed = file_opened_in_library container \<Longrightarrow>
    clear_failed_container failed = container\<lparr>container_io := container_io failed\<rparr>"
  using container_unset [OF assms] by (cases container; cases failed) (simp add: clear_failed_container_def)

lemma internal_container_open_read_eq:
  "internal_container_open_read lib file_io_handle file_offset container =
     (case bindR (check_container_unset container) (\<lambda>io.
           bindR (container_superblock_initialize None) (\<lambda>superblock.
           bindR (container_superblock_read_file_io_handle superblock file_io_handle file_offset) (\<lambda>superblock.
             Inr (io, superblock)))) of
        Inl e \<Rightarrow> (Inl e, container)
      | Inr (io, superblock) \<Rightarrow>
          let io = io\<lparr>io_block_size := superblock_block_size superblock,
                      io_container_size := (container_number_of_blocks superblock * superblock_block_size superblock) mod 2 ^ 64\<rparr>
          in case read_container_parts lib file_io_handle io superblock of
               Inl e \<Rightarrow> (Inl e, container\<lparr>container_io := Some io\<rparr>)
             | Inr (superblock, checkpoint_map, vector, object_map, key_bag) \<Rightarrow>
                 (Inr (), container\<lparr>container_io := Some io, container_super := Some superblock,
                    container_checkpoint_map := Some checkpoint_map, container_vector := Some vector,
                    container_object_map := Some object_map, container_keys := key_bag\<rparr>))"
proof (cases "check_container_unset container")
  case (Inr io)
  obtain start where start: "container_superblock_initialize None = Inr start" by (simp add: container_superblock_initialize_def)
  show ?thesis
  proof (cases "container_superblock_read_file_io_handle start file_io_handle file_offset")
    case (Inl e)
    then have "open_container_superblock file_io_handle file_offset io container = (Inl e, container\<lparr>container_super := Some start\<rparr>)"
      using start by (simp add: open_container_superblock_def container_unset(1) [OF Inr])
    then show ?thesis
      using Inr start Inl by (simp add: internal_container_open_read_def open_container_parts_def bindS_eq(2)
          clear_failed_unset [OF Inr])
  next
    case super: (Inr superblock)
    let ?io = "io\<lparr>io_block_size := superblock_block_size superblock,
        io_container_size := (container_number_of_blocks superblock * superblock_block_size superblock) mod 2 ^ 64\<rparr>"
    have super_read: "open_container_superblock file_io_handle file_offset io container =
        (Inr (?io, superblock), container\<lparr>container_super := Some superblock, container_io := Some ?io\<rparr>)"
      using start super by (simp add: open_container_superblock_def container_unset(1) [OF Inr] Let_def)
    then have parts: "open_container_parts lib file_io_handle file_offset io container =
        (case read_container_parts lib file_io_handle ?io superblock of
           Inl e \<Rightarrow> (Inl e, snd (open_container_parts lib file_io_handle file_offset io container))
         | Inr (superblock, checkpoint_map, vector, object_map, key_bag) \<Rightarrow>
             (Inr (), container\<lparr>container_io := Some ?io, container_super := Some superblock,
                container_checkpoint_map := Some checkpoint_map, container_vector := Some vector,
                container_object_map := Some object_map, container_keys := key_bag\<rparr>))"
      by (simp add: open_container_parts_def bindS_def read_container_parts_def open_container_checkpoint_def
          open_container_blocks_def open_container_object_map_def open_container_keys_def bindR_def split: sum.split prod.split)
    let ?failed = "snd (open_container_parts lib file_io_handle file_offset io container)"
    from super_read have "container_file ?failed = container_file container \<and> file_created_in_library ?failed = file_created_in_library container \<and>
        file_opened_in_library ?failed = file_opened_in_library container \<and> container_io ?failed = Some ?io"
      by (simp add: open_container_parts_def bindS_def open_container_checkpoint_def open_container_blocks_def
          open_container_object_map_def open_container_keys_def split: sum.split prod.split)
    then have failed: "clear_failed_container ?failed = container\<lparr>container_io := Some ?io\<rparr>"
      by (simp add: clear_failed_unset [OF Inr])
    define d where "d = ?failed"
    note parts = parts [folded d_def] and failed = failed [folded d_def]
    show ?thesis
      unfolding internal_container_open_read_def Inr sum.case parts
      using start super failed
      by (cases "read_container_parts lib file_io_handle ?io superblock") (auto simp: Let_def split: prod.split)
  qed
qed (simp add: internal_container_open_read_def)

text \<open>
  The handle of a file belongs to libbfio: whether it is open, opening and closing it, and reading.
\<close>

record file_handle =
  handle_is_open :: "bool result"
  handle_open :: "unit result"
  handle_close :: "unit result"
  handle_read :: file_io

definition ACCESS_FLAG_READ :: nat where "ACCESS_FLAG_READ = 1"
definition ACCESS_FLAG_WRITE :: nat where "ACCESS_FLAG_WRITE = 2"

definition check_access_flags :: "nat \<Rightarrow> unit result" where
  "check_access_flags access_flags =
     (if access_flags AND ACCESS_FLAG_READ = 0 \<and> access_flags AND ACCESS_FLAG_WRITE = 0 then Inl ARGUMENT_UNSUPPORTED_VALUE
      else if access_flags AND ACCESS_FLAG_WRITE \<noteq> 0 then Inl ARGUMENT_UNSUPPORTED_VALUE
      else Inr ())"

definition container_open_file_io_handle ::
    "('s, 'x) libraries \<Rightarrow> file_handle \<Rightarrow> nat \<Rightarrow> ('s internal_container, unit) call" where
  "container_open_file_io_handle lib file access_flags =
     (\<lambda>container.
       if container_file container \<noteq> None then failS RUNTIME_VALUE_ALREADY_SET container
       else
         bindS (liftS (check_access_flags access_flags)) (\<lambda>_.
         bindS (liftS (handle_is_open file)) (\<lambda>file_is_open.
         bindS (liftS (if file_is_open then Inr () else handle_open file)) (\<lambda>_.
         bindS (internal_container_open_read lib (handle_read file) 0) (\<lambda>_ container.
           (Inr (), container\<lparr>container_file := Some (handle_read file),
              file_opened_in_library := \<not> file_is_open\<rparr>))))) container)"

definition container_open ::
    "('s, 'x) libraries \<Rightarrow> (string \<Rightarrow> file_handle result) \<Rightarrow> string \<Rightarrow> nat \<Rightarrow> ('s internal_container, unit) call" where
  "container_open lib named_file filename access_flags =
     bindS (liftS (check_access_flags access_flags)) (\<lambda>_.
     bindS (liftS (named_file filename)) (\<lambda>file.
     bindS (container_open_file_io_handle lib file access_flags) (\<lambda>_ container.
       (Inr (), container\<lparr>file_created_in_library := True\<rparr>))))"

text \<open>Everything is freed even when closing the file fails, which is then the error that is reported.\<close>

definition container_close :: "unit result \<Rightarrow> ('s internal_container, unit) call" where
  "container_close file_closed container =
     (if container_file container = None then failS RUNTIME_VALUE_MISSING container
      else
        (if file_opened_in_library container then file_closed else Inr (),
         container\<lparr>container_file := None, file_opened_in_library := False, file_created_in_library := False,
           container_io := map_option (\<lambda>_. \<lparr>io_bytes_per_sector = 512, io_block_size = 4096, io_container_size = 0, io_abort = 0\<rparr>)
             (container_io container),
           container_super := None, container_fusion_middle_tree := None, container_checkpoint_map := None,
           container_vector := None, container_object_map := None, container_keys := None\<rparr>))"

section \<open>Values of an open container\<close>

definition container_get_size :: "'s internal_container \<Rightarrow> nat result" where
  "container_get_size container =
     (case container_io container of
        None \<Rightarrow> Inl RUNTIME_VALUE_MISSING
      | Some io \<Rightarrow> if container_super container = None then Inl RUNTIME_VALUE_MISSING else Inr (io_container_size io))"

definition container_get_identifier :: "'s internal_container \<Rightarrow> bytes \<Rightarrow> nat \<Rightarrow> bytes result" where
  "container_get_identifier container uuid_data uuid_data_size =
     (case container_super container of
        None \<Rightarrow> Inl ARGUMENT_INVALID_VALUE
      | Some superblock \<Rightarrow> container_superblock_get_container_identifier superblock uuid_data uuid_data_size)"

definition container_is_locked :: "'s internal_container \<Rightarrow> bool result" where
  "container_is_locked container =
     (case container_keys container of None \<Rightarrow> Inr False | Some key_bag \<Rightarrow> Inr (container_bag_is_locked key_bag))"

definition container_get_number_of_volumes :: "'s internal_container \<Rightarrow> nat result" where
  "container_get_number_of_volumes container =
     (case container_super container of
        None \<Rightarrow> Inl RUNTIME_VALUE_MISSING
      | Some superblock \<Rightarrow> Inr (number_of_volumes superblock))"

section \<open>The latest checkpoint\<close>

text \<open>What a block of the descriptor area holds: a superblock, a checkpoint map of a transaction, or something else.\<close>

datatype descriptor = Superblock_Block container_superblock | Map_Block nat | Other_Block

definition no_object :: apfs_object where
  "no_object = \<lparr>object_identifier_value = 0, object_transaction = 0, object_type_value = 0, object_subtype_value = 0\<rparr>"

definition descriptor_block :: "file_io \<Rightarrow> nat \<Rightarrow> descriptor result" where
  "descriptor_block f block_number =
     bindR (object_read_file_io_handle no_object f (block_number * 4096)) (\<lambda>object.
       if object_type_value object = 0x4000000c then Inr (Map_Block (object_transaction object))
       else if object_type_value object = 0x80000001 then
         bindR (container_superblock_initialize None) (\<lambda>empty.
         bindR (container_superblock_read_file_io_handle empty f (block_number * 4096)) (\<lambda>superblock.
           Inr (Superblock_Block superblock)))
       else Inr Other_Block)"

text \<open>The blocks that are scanned: those of the descriptor area of a superblock, and one more behind it.\<close>

definition scanned_area :: "file_io \<Rightarrow> container_superblock \<Rightarrow> descriptor list \<Rightarrow> bool" where
  "scanned_area f superblock blocks \<longleftrightarrow>
     length blocks = descriptor_area_number_of_blocks superblock + 1 \<and>
     (\<forall>k < length blocks. descriptor_block f (descriptor_area_block_number superblock + k) = Inr (blocks ! k))"

definition same_area :: "container_superblock \<Rightarrow> descriptor \<Rightarrow> bool" where
  "same_area superblock d \<longleftrightarrow> (case d of Superblock_Block other \<Rightarrow>
      descriptor_area_block_number other = descriptor_area_block_number superblock \<and>
      descriptor_area_number_of_blocks other = descriptor_area_number_of_blocks superblock | _ \<Rightarrow> True)"

text \<open>The newest superblock, and the block and transaction of the newest checkpoint map.\<close>

fun newest :: "nat \<Rightarrow> descriptor list \<Rightarrow> container_superblock \<times> nat \<times> nat \<Rightarrow> container_superblock \<times> nat \<times> nat" where
  "newest block_number [] st = st"
| "newest block_number (d # blocks) (superblock, map_block_number, map_transaction) =
     newest (block_number + 1) blocks
       (case d of
          Superblock_Block other \<Rightarrow> (if superblock_transaction other > superblock_transaction superblock then other
             else superblock, map_block_number, map_transaction)
        | Map_Block t \<Rightarrow> if t > map_transaction then (superblock, block_number, t)
             else (superblock, map_block_number, map_transaction)
        | Other_Block \<Rightarrow> (superblock, map_block_number, map_transaction))"

lemma newest_superblock:
  assumes "newest b blocks (s, m, t) = (s', m', t')"
  shows "(s' = s \<or> Superblock_Block s' \<in> set blocks) \<and> superblock_transaction s \<le> superblock_transaction s' \<and>
    (\<forall>other. Superblock_Block other \<in> set blocks \<longrightarrow> superblock_transaction other \<le> superblock_transaction s')"
  using assms
proof (induction b blocks "(s, m, t)" arbitrary: s m t rule: newest.induct)
  case (2 b d blocks s m t)
  show ?case
  proof (cases d)
    case (Superblock_Block other)
    with 2 show ?thesis by (cases "superblock_transaction other > superblock_transaction s") fastforce+
  qed (use 2 in \<open>force split: if_splits\<close>)+
qed simp

lemma newest_map:
  assumes "newest b blocks (s, m, t) = (s', m', t')"
  shows "((m', t') = (m, t) \<or> (\<exists>k < length blocks. blocks ! k = Map_Block t' \<and> m' = b + k)) \<and> t \<le> t' \<and>
    (\<forall>u. Map_Block u \<in> set blocks \<longrightarrow> u \<le> t')"
  using assms
proof (induction b blocks "(s, m, t)" arbitrary: s m t rule: newest.induct)
  case (2 b d blocks s m t)
  have later: "\<exists>k < length (d # blocks). (d # blocks) ! k = Map_Block t' \<and> m' = b + k"
    if "\<exists>k < length blocks. blocks ! k = Map_Block t' \<and> m' = b + 1 + k"
    using that by (metis Suc_less_eq add_Suc_right length_Cons nth_Cons_Suc plus_1_eq_Suc add.assoc add.left_commute)
  show ?case
  proof (cases d)
    case (Map_Block u)
    with 2 later show ?thesis by (cases "u > t") fastforce+
  qed (use 2 later in \<open>force split: if_splits\<close>)+
qed simp

lemma object_read_initial:
  "object_read_file_io_handle object f off = object_read_file_io_handle no_object f off"
  by (cases object) (simp add: object_read_file_io_handle_def object_read_data_def no_object_def SSIZE_MAX_def)

lemma scan_block_descriptor:
  assumes "descriptor_block f (b + k) = Inr d" "off = (b + k) * 4096" "descriptor_area_block_number s = b" "b + k < 2 ^ 64"
  shows "\<exists>object'. scan_block f k off (object, s, m, t) = Inr (object', newest (b + k) [d] (s, m, t))"
proof -
  obtain read where read: "object_read_file_io_handle object f off = Inr read"
    "object_read_file_io_handle no_object f ((b + k) * 4096) = Inr read"
    using assms(1,2) object_read_initial [of object f off] by (auto simp: descriptor_block_def bindR_eq_Inr)
  show ?thesis
  proof (cases "object_type_value read = 0x80000001")
    case True
    then obtain empty other where "container_superblock_initialize None = Inr empty"
      "container_superblock_read_file_io_handle empty f ((b + k) * 4096) = Inr other" "d = Superblock_Block other"
      using assms(1) read(2) by (auto simp: descriptor_block_def bindR_eq_Inr)
    then show ?thesis using True read(1) assms(2) by (simp add: scan_block_def)
  next
    case False
    then show ?thesis using assms read by (auto simp: scan_block_def descriptor_block_def split: if_splits)
  qed
qed

lemma newest_area:
  assumes "newest b [d] (s, m, t) = (s', m', t')" "same_area s d"
  shows "descriptor_area_block_number s' = descriptor_area_block_number s \<and>
    descriptor_area_number_of_blocks s' = descriptor_area_number_of_blocks s"
  using assms by (auto simp: same_area_def split: descriptor.splits if_splits)

lemma scan_descriptor_area_newest:
  assumes "\<forall>j < length blocks. descriptor_block f (b + (k + j)) = Inr (blocks ! j)"
    and "descriptor_area_block_number s = b" "descriptor_area_number_of_blocks s = n" "n < 2 ^ 31" "b < 2 ^ 32"
    and "k + length blocks = n + 1" "\<forall>d\<in>set blocks. same_area s d"
  shows "\<exists>object'. scan_descriptor_area f 4096 k ((b + k) * 4096) (object, s, m, t) =
    Inr (object', newest (b + k) blocks (s, m, t))"
  using assms
proof (induction blocks arbitrary: k object s m t)
  case Nil
  then show ?case by (subst scan_descriptor_area.simps) simp
next
  case (Cons d blocks)
  obtain s' m' t' where step: "newest (b + k) [d] (s, m, t) = (s', m', t')" by (metis prod_cases3)
  have first: "descriptor_block f (b + k) = Inr d" using Cons.prems(1) by force
  have small: "b + k < 2 ^ 64" using Cons.prems(4,5,6) by simp
  obtain object' where scan: "scan_block f k ((b + k) * 4096) (object, s, m, t) = Inr (object', s', m', t')"
    using scan_block_descriptor [OF first refl Cons.prems(2) small, of object m t] step by auto
  have area: "descriptor_area_block_number s' = b" "descriptor_area_number_of_blocks s' = n"
    using newest_area [OF step] Cons.prems(2,3,7) by auto
  have same: "\<forall>d\<in>set blocks. same_area s' d"
    using Cons.prems(2,3,7) area by (auto simp: same_area_def split: descriptor.splits)
  have rest: "\<forall>j < length blocks. descriptor_block f (b + (k + 1 + j)) = Inr (blocks ! j)"
    using Cons.prems(1) by (auto dest: spec [of _ "Suc _"])
  have remaining: "(k + 1) + length blocks = n + 1" using Cons.prems(6) by simp
  obtain object'' where IH: "scan_descriptor_area f 4096 (k + 1) ((b + (k + 1)) * 4096) (object', s', m', t') =
      Inr (object'', newest (b + (k + 1)) blocks (s', m', t'))"
    using Cons.IH [OF rest area Cons.prems(4,5) remaining same] by blast
  have off: "((b + k) * 4096 + 4096) mod 2 ^ 64 = (b + (k + 1)) * 4096" using Cons.prems(4,5,6) by simp
  have whole: "newest (b + k) (d # blocks) (s, m, t) = newest (b + (k + 1)) blocks (s', m', t')"
    using step by (cases d) (auto split: if_splits)
  show ?case
    using Cons.prems(3,4,6) scan off IH whole by (subst scan_descriptor_area.simps) simp
qed

end
