(* ===== verification/Container_States.thy ===== *)
theory Container_States
  imports Container_Open
begin

text \<open>
  Properties of opening a container (\<open>Container_Open\<close>): the newest checkpoint is used, nothing outside the blocks is
  accessed, and the life of a container, a step relation over opening, closing and aborting, keeps its members
  consistent.
\<close>

section \<open>Safety\<close>

text \<open>A cipher that reports its errors and keeps the length of a sector.\<close>

definition xts_well_behaved :: "'x xts_operations \<Rightarrow> bool" where
  "xts_well_behaved xts \<longleftrightarrow> safe (tweaked_context_initialize xts) \<and>
     (\<forall>c k n t m. safe (tweaked_context_set_keys xts c k n t m)) \<and>
     (\<forall>c t d. post lib_error (\<lambda>e. length e = length d) (crypt_xts xts c t d))"

text \<open>Whole sectors are decrypted in the end, or an error of the library is reported.\<close>

lemma crypt_sectors_safe:
  assumes "xts_well_behaved xts" "0 < n" "i + count * n = m" "m \<le> length input" "m \<le> length out"
  shows "\<exists>r. crypt_sectors xts ec input m n i sector out = Some r \<and> post (\<lambda>(e, _). lib_error e) (\<lambda>d. length d = length out) r"
  using assms(3-)
proof (induction count arbitrary: i sector out)
  case 0
  then show ?case by (subst crypt_sectors.simps) simp
next
  case (Suc count)
  have i: "i < m" "i + n \<le> length input" "i + n \<le> length out" using Suc.prems assms(2) by auto
  have crypt: "post lib_error (\<lambda>e. length e = n) (crypt_xts xts (decryption_context ec) (tweak_value sector) (take n (drop i input)))"
  proof -
    have "length (take n (drop i input)) = n" using i(2) by simp
    moreover have "post lib_error (\<lambda>e. length e = length d) (crypt_xts xts c t d)" for c t d
      using assms(1) by (simp add: xts_well_behaved_def)
    ultimately show ?thesis by metis
  qed
  show ?case
  proof (cases "crypt_xts xts (decryption_context ec) (tweak_value sector) (take n (drop i input))")
    case (Inl e)
    then show ?thesis using crypt i by (subst crypt_sectors.simps) simp
  next
    case (Inr d)
    then have d: "length d = n" using crypt by simp
    have "\<exists>r. crypt_sectors xts ec input m n (i + n) ((sector + 1) mod 2 ^ 64) (take i out @ d @ drop (i + n) out) = Some r \<and>
        post (\<lambda>(e, _). lib_error e) (\<lambda>d. length d = length out) r"
    proof -
      have len: "length (take i out @ d @ drop (i + n) out) = length out" using i d by simp
      have "i + n + count * n = m" using Suc.prems(1) by (simp add: add.assoc)
      from Suc.IH [OF this Suc.prems(2)] show ?thesis unfolding len using Suc.prems(3) len by metis
    qed
    then show ?thesis using Inr d i by (subst crypt_sectors.simps) simp
  qed
qed

lemma encryption_context_crypt_safe:
  assumes "xts_well_behaved xts" "0 < n" "n dvd m" "m \<le> length input" "m \<le> length out"
  shows "\<exists>r. encryption_context_crypt xts ec mode input m out k sector n = Some r \<and>
    post (\<lambda>(e, _). lib_error e) (\<lambda>d. length d = length out) r"
proof -
  obtain count where "0 + count * n = m" using assms(3) by (metis dvd_def add_0 mult.commute)
  from crypt_sectors_safe [OF assms(1,2) this assms(4,5), of ec sector] obtain r where
    "crypt_sectors xts ec input m n 0 sector out = Some r" "post (\<lambda>(e, _). lib_error e) (\<lambda>d. length d = length out) r"
    by blast
  then show ?thesis by (simp add: encryption_context_crypt_def)
qed

lemma read_encrypted_bag_safe:
  assumes "xts_well_behaved xts" "\<And>i n. safe (f i n)" "n = 0 \<or> n dvd data_size"
  shows "\<exists>r. read_encrypted_bag xts n f off data_size key = Some r \<and> post lib_error (\<lambda>d. length d = data_size) r"
proof (cases "n = 0 \<or> data_size = 0 \<or> data_size > MEMORY_MAXIMUM_ALLOCATION_SIZE")
  case True
  then show ?thesis by (auto simp: read_encrypted_bag_def)
next
  case False
  let ?opened = "bindR (read_buffer_at_offset f off data_size) (\<lambda>encrypted_data.
      bindR (encryption_context_initialize xts None METHOD_AES_128_XTS) (\<lambda>encryption_context.
      bindR (encryption_context_set_keys xts encryption_context key 16 key 16) (\<lambda>encryption_context.
        Inr (encrypted_data, encryption_context))))"
  have contexts: "safe (encryption_context_initialize xts None METHOD_AES_128_XTS)"
    "safe (encryption_context_set_keys xts c key 16 key 16)" for c
    using assms(1) by (auto simp: xts_well_behaved_def encryption_context_initialize_def encryption_context_set_keys_def
        Let_def intro!: safe_bindR)
  have "post lib_error (\<lambda>d. length d = data_size) (read_buffer_at_offset f off data_size)"
    unfolding read_buffer_at_offset_def
    by (rule post_bindR [where P = "\<lambda>_. True"]) (use assms(2) in \<open>auto simp: safe_post\<close>)
  then have opened: "post lib_error (\<lambda>x. length (fst x) = data_size) ?opened"
    by (rule post_bindR) (use contexts in \<open>auto simp: safe_post intro!: post_bindR\<close>)
  show ?thesis
  proof (cases ?opened)
    case (Inl e)
    then show ?thesis using False opened by (simp add: read_encrypted_bag_def)
  next
    case (Inr x)
    obtain d c where x: "x = (d, c)" by force
    have "length d = data_size" using opened Inr x by simp
    then obtain r where r: "encryption_context_crypt xts c (caes_mode_decrypt xts) d data_size (replicate data_size 0) data_size
        (off div n) n = Some r" "post (\<lambda>(e, _). lib_error e) (\<lambda>d. length d = data_size) r"
      using encryption_context_crypt_safe [OF assms(1), of n data_size d "replicate data_size 0" c] assms(3) False by fastforce
    show ?thesis
    proof (cases r)
      case (Inl p)
      then show ?thesis using False Inr x r by (cases p) (simp add: read_encrypted_bag_def)
    next
      case (Inr y)
      then show ?thesis using False \<open>?opened = Inr x\<close> x r by (simp add: read_encrypted_bag_def)
    qed
  qed
qed

lemma object_map_read_safe:
  assumes "\<And>i n. safe (f i n)"
  shows "safe (object_map_read_file_io_handle om f off)"
  unfolding object_map_read_file_io_handle_def object_map_read_data_def
  by (rule safe_bindR [OF read_buffer_at_offset_safe [OF assms]]) (auto simp: read_buffer_at_offset_length intro!: safe_bindR)

definition vector_safe :: "('s, 'x) libraries \<Rightarrow> bool" where
  "vector_safe lib \<longleftrightarrow> (\<forall>read n m. safe (vector_library lib read n m))"

lemma even_below_two: "even k \<Longrightarrow> k < 2 \<Longrightarrow> k = (0 :: nat)"
  by presburger

lemma read_superblock_wf:
  assumes "container_superblock_read_file_io_handle initial f off = Inr superblock"
  shows "superblock_block_size superblock = 4096 \<and> descriptor_area_number_of_blocks superblock < 2 ^ 31 \<and>
    0 < descriptor_area_block_number superblock \<and> descriptor_area_block_number superblock < 2 ^ 32"
proof -
  obtain data where data: "container_superblock_read_data initial data 4096 = Inr superblock"
    using assms by (auto simp: container_superblock_read_file_io_handle_def bindR_eq_Inr)
  obtain s m where s: "container_superblock_members s data = Inr superblock" "container_superblock_check superblock m = Inr ()"
    using data unfolding container_superblock_read_data_def by (auto simp: bindR_eq_Inr split: if_splits)
  have bounds: "descriptor_area_number_of_blocks superblock < 2 ^ 32" "descriptor_area_block_number superblock < 2 ^ 32"
    using s(1) le_value_take_bound [of 4] unfolding container_superblock_members_def
    by (auto simp: bindR_eq_Inr rd_le_eq_Inr)
  have "descriptor_area_number_of_blocks superblock AND 2 ^ 31 = 0"
    using s(2) by (auto simp: container_superblock_check_def split: if_splits)
  then have "\<not> bit (descriptor_area_number_of_blocks superblock) 31" by (simp only: and_exp_eq_0_iff_not_bit not_False_eq_True)
  then have "even (descriptor_area_number_of_blocks superblock div 2 ^ 31)" unfolding bit_iff_odd by blast
  moreover have "descriptor_area_number_of_blocks superblock div 2 ^ 31 < 2"
    using bounds(1) by (simp add: div_less_iff_less_mult)
  ultimately have "descriptor_area_number_of_blocks superblock div 2 ^ 31 = 0" by (rule even_below_two)
  then have "descriptor_area_number_of_blocks superblock < 2 ^ 31" by (simp add: div_eq_0_iff)
  then show ?thesis using s(2) bounds by (auto simp: container_superblock_check_def split: if_splits)
qed

lemma object_read_safe:
  assumes "\<And>i n. safe (f i n)"
  shows "safe (object_read_file_io_handle object f off)"
  unfolding object_read_file_io_handle_def object_read_data_def
  by (rule safe_bindR [OF read_buffer_at_offset_safe [OF assms]]) (auto simp: read_buffer_at_offset_length)

lemma superblock_read_safe:
  assumes "\<And>i n. safe (f i n)"
  shows "safe (container_superblock_read_file_io_handle superblock f off)"
  unfolding container_superblock_read_file_io_handle_def
  by (rule safe_bindR [OF read_buffer_at_offset_safe [OF assms]])
    (metis read_buffer_at_offset_length container_superblock_read_data_safe)

lemma checkpoint_map_read_safe:
  assumes "\<And>i n. safe (f i n)"
  shows "safe (checkpoint_map_read_file_io_handle checkpoint_map f off)"
  unfolding checkpoint_map_read_file_io_handle_def
  by (rule safe_bindR [OF read_buffer_at_offset_safe [OF assms]])
    (metis read_buffer_at_offset_length checkpoint_map_read_data_safe)

lemma scan_block_safe:
  assumes "\<And>i n. safe (f i n)"
  shows "safe (scan_block f k off st)"
  by (cases st) (auto simp: scan_block_def container_superblock_initialize_def
      intro!: safe_bindR [OF object_read_safe [OF assms]] safe_bindR [OF superblock_read_safe [OF assms]])

lemma scan_descriptor_area_safe:
  assumes "\<And>i n. safe (f i n)"
  shows "safe (scan_descriptor_area f block_size k off st)"
  using assms
proof (induction f block_size k off st rule: scan_descriptor_area.induct)
  case (1 f block_size k off st)
  then show ?case
    by (subst scan_descriptor_area.simps) (auto intro!: safe_bindR [OF scan_block_safe])
qed

lemma read_checkpoint_safe:
  assumes "\<And>i n. safe (f i n)"
  shows "safe (read_checkpoint f io superblock)"
  by (auto simp: read_checkpoint_def object_initialize_def checkpoint_map_initialize_def
      intro!: safe_bindR [OF scan_descriptor_area_safe [OF assms]] safe_bindR [OF checkpoint_map_read_safe [OF assms]])

lemma open_object_map_safe:
  assumes "\<And>i n. safe (f i n)"
  shows "safe (open_object_map lib f io vector block_number)"
  by (auto simp: open_object_map_def object_map_initialize_def object_map_btree_initialize_def
      intro!: safe_bindR [OF object_map_read_safe [OF assms]])

lemma open_container_key_bag_safe:
  assumes "\<And>i n. safe (f i n)" "xts_well_behaved (xts_library lib)" "io_bytes_per_sector io = 512" "io_block_size io = 4096"
  shows "safe (open_container_key_bag lib f io superblock)"
proof -
  define m where "m = (key_bag_number_of_blocks superblock * 4096) mod 2 ^ 64"
  define off where "off = (key_bag_block superblock * 4096) mod 2 ^ 64"
  have "512 dvd m" unfolding m_def by (intro dvd_mod dvd_mult) simp_all
  then have "(512 :: nat) = 0 \<or> 512 dvd m" by (rule disjI2)
  from read_encrypted_bag_safe [where f = f, OF assms(2,1) this, where off = off and key = "container_identifier superblock"]
  obtain r where r: "read_encrypted_bag (xts_library lib) 512 f off m (container_identifier superblock) = Some r"
    "post lib_error (\<lambda>d. length d = m) r" by blast
  have "safe (bindR r (\<lambda>data. container_key_bag_read_data \<lparr>container_bag_entries = [], container_bag_is_locked = False\<rparr> data m))"
  proof (cases r)
    case (Inr d)
    then show ?thesis
      using r(2) container_key_bag_read_data_post [of m d "\<lparr>container_bag_entries = [], container_bag_is_locked = False\<rparr>"]
      by (auto simp: safe_post intro: post_weaken)
  qed (use r(2) in \<open>simp add: lib_error_def\<close>)
  then show ?thesis
    using r(1) assms(3,4)
    by (auto simp: open_container_key_bag_def container_key_bag_initialize_def container_key_bag_read_file_io_handle_def
        m_def off_def split: option.splits intro!: safe_bindR)
qed

lemma container_blocks_safe: "vector_safe lib \<Longrightarrow> safe (container_blocks lib f io)"
  by (simp add: container_blocks_def container_data_handle_initialize_def vector_safe_def)

section \<open>States of a container\<close>

text \<open>
  Closed with no member set, or open with all of them set; the key bag is set when the superblock has the blocks of one.
\<close>

definition container_closed :: "'s internal_container \<Rightarrow> bool" where
  "container_closed c \<longleftrightarrow> container_file c = None \<and> container_super c = None \<and> container_checkpoint_map c = None \<and>
     container_vector c = None \<and> container_object_map c = None \<and> container_keys c = None \<and>
     \<not> file_created_in_library c \<and> \<not> file_opened_in_library c"

definition container_opened :: "'s internal_container \<Rightarrow> bool" where
  "container_opened c \<longleftrightarrow> container_file c \<noteq> None \<and> container_super c \<noteq> None \<and> container_checkpoint_map c \<noteq> None \<and>
     container_vector c \<noteq> None \<and> container_object_map c \<noteq> None \<and>
     (container_keys c \<noteq> None \<longleftrightarrow> 0 < key_bag_block (the (container_super c)) \<and> 0 < key_bag_number_of_blocks (the (container_super c))) \<and>
     io_block_size (the (container_io c)) = 4096 \<and> superblock_block_size (the (container_super c)) = 4096"

definition container_consistent :: "'s internal_container \<Rightarrow> bool" where
  "container_consistent c \<longleftrightarrow> container_io c \<noteq> None \<and> io_bytes_per_sector (the (container_io c)) = 512 \<and>
     container_fusion_middle_tree c = None \<and> (container_closed c \<or> container_opened c)"

lemma scanned_block_size:
  assumes "scan_descriptor_area f n k off (object, superblock, m, t) = Inr (object', superblock', m', t')"
    and "superblock_block_size superblock = 4096"
  shows "superblock_block_size superblock' = 4096"
  using assms
proof (induction f n k off "(object, superblock, m, t)" arbitrary: object superblock m t rule: scan_descriptor_area.induct)
  case (1 f n k off object superblock m t)
  show ?case
  proof (cases "k \<le> descriptor_area_number_of_blocks superblock mod 2 ^ 32")
    case False
    then show ?thesis using 1(2,3) by (subst (asm) scan_descriptor_area.simps) simp
  next
    case True
    then obtain o1 s1 m1 t1 where step: "scan_block f k off (object, superblock, m, t) = Inr (o1, s1, m1, t1)"
      "scan_descriptor_area f n (k + 1) ((off + n) mod 2 ^ 64) (o1, s1, m1, t1) = Inr (object', superblock', m', t')"
      using 1(2) by (subst (asm) scan_descriptor_area.simps) (auto simp: bindR_eq_Inr)
    have "superblock_block_size s1 = 4096"
      using step(1) 1(3) read_superblock_wf unfolding scan_block_def
      by (auto simp: bindR_eq_Inr split: if_splits)
    then show ?thesis using 1(1) True step by simp
  qed
qed

lemma open_container_key_bag_set:
  "open_container_key_bag lib f io superblock = Inr keys \<Longrightarrow>
     keys \<noteq> None \<longleftrightarrow> 0 < key_bag_block superblock \<and> 0 < key_bag_number_of_blocks superblock"
  by (auto simp: open_container_key_bag_def bindR_eq_Inr split: if_splits option.splits)

lemma internal_container_open_read_state:
  assumes "container_consistent c" "container_closed c" "internal_container_open_read lib f 0 c = (r, c')"
  shows "container_io c' \<noteq> None \<and> io_bytes_per_sector (the (container_io c')) = 512 \<and> container_fusion_middle_tree c' = None \<and>
    (case r of Inl e \<Rightarrow> container_closed c' \<and> (\<exists>io. c' = c\<lparr>container_io := io\<rparr>)
     | Inr _ \<Rightarrow> container_opened (c'\<lparr>container_file := Some f\<rparr>) \<and> container_file c' = None)"
proof -
  obtain io where io: "container_io c = Some io" "check_container_unset c = Inr io" "io_bytes_per_sector io = 512"
    using assms(1,2) by (auto simp: container_consistent_def container_closed_def check_container_unset_def)
  obtain start where start: "container_superblock_initialize None = Inr start" by (simp add: container_superblock_initialize_def)
  show ?thesis
  proof (cases "container_superblock_read_file_io_handle start f 0")
    case (Inl e)
    then have "r = Inl e" "c' = c" using assms(3) io start by (simp_all add: internal_container_open_read_eq)
    then show ?thesis using assms(1,2) by (auto simp: container_consistent_def intro!: exI [of _ "container_io c"])
  next
    case (Inr superblock)
    let ?io = "io\<lparr>io_block_size := superblock_block_size superblock,
        io_container_size := (container_number_of_blocks superblock * superblock_block_size superblock) mod 2 ^ 64\<rparr>"
    let ?rest = "read_container_parts lib f ?io superblock"
    have size: "superblock_block_size superblock = 4096" using read_superblock_wf [OF Inr] by simp
    show ?thesis
    proof (cases ?rest)
      case (Inl e)
      then have "r = Inl e" "c' = c\<lparr>container_io := Some ?io\<rparr>"
        using assms(3) io(2) start Inr by (simp_all add: internal_container_open_read_eq)
      then show ?thesis using assms(1,2) io(3) by (auto simp: container_consistent_def container_closed_def)
    next
      case rest: (Inr x)
      obtain sb m v om kb where x: "x = (sb, m, v, om, kb)" by (metis prod_cases5)
      have "superblock_block_size sb = 4096"
        using rest x size unfolding read_container_parts_def read_checkpoint_def by (auto simp: bindR_eq_Inr split: if_splits dest: scanned_block_size)
      moreover have "r = Inr ()" "c' = c\<lparr>container_io := Some ?io, container_super := Some sb,
          container_checkpoint_map := Some m, container_vector := Some v, container_object_map := Some om, container_keys := kb\<rparr>"
        using assms(3) io(2) start Inr rest x by (simp_all add: internal_container_open_read_eq)
      moreover have "kb \<noteq> None \<longleftrightarrow> 0 < key_bag_block sb \<and> 0 < key_bag_number_of_blocks sb"
        by (rule open_container_key_bag_set [where lib = lib and f = f and io = ?io])
          (use rest x in \<open>auto simp: read_container_parts_def bindR_eq_Inr\<close>)
      ultimately show ?thesis
        using assms(1,2) io(3) size by (auto simp: container_consistent_def container_closed_def container_opened_def)
    qed
  qed
qed

text \<open>The steps in the life of a container: opening a file by its handle or by its name, closing, aborting.\<close>

inductive container_step :: "('s, 'x) libraries \<Rightarrow> 's internal_container \<Rightarrow> 's internal_container \<Rightarrow> bool" for lib where
  open_handle: "container_open_file_io_handle lib file access_flags c = (r, c') \<Longrightarrow> container_step lib c c'"
| open_name: "container_open lib named_file filename access_flags c = (r, c') \<Longrightarrow> container_step lib c c'"
| close: "container_close file_closed c = (r, c') \<Longrightarrow> container_step lib c c'"
| abort: "container_signal_abort c = Inr c' \<Longrightarrow> container_step lib c c'"

inductive container_reachable :: "('s, 'x) libraries \<Rightarrow> 's internal_container \<Rightarrow> bool" for lib where
  initial: "container_initialize None = Inr c \<Longrightarrow> container_reachable lib c"
| step: "container_reachable lib c \<Longrightarrow> container_step lib c c' \<Longrightarrow> container_reachable lib c'"

inductive_cases container_stepE: "container_step lib c c'"

lemma bindS_liftS: "bindS (liftS r) k s = (case r of Inl e \<Rightarrow> (Inl e, s) | Inr x \<Rightarrow> k x s)"
  by (cases r) simp_all

text \<open>The file is opened first, then the container is read.\<close>

definition opened_file :: "file_handle \<Rightarrow> nat \<Rightarrow> bool result" where
  "opened_file handle access_flags =
     bindR (check_access_flags access_flags) (\<lambda>_.
     bindR (handle_is_open handle) (\<lambda>file_is_open.
     bindR (if file_is_open then Inr () else handle_open handle) (\<lambda>_. Inr file_is_open)))"

lemma open_file_io_handle_result:
  assumes "container_file c = None"
  shows "container_open_file_io_handle lib handle access_flags c =
    (case opened_file handle access_flags of
       Inl e \<Rightarrow> (Inl e, c)
     | Inr file_is_open \<Rightarrow>
         (case internal_container_open_read lib (handle_read handle) 0 c of
            (Inl e, c') \<Rightarrow> (Inl e, c')
          | (Inr _, c') \<Rightarrow> (Inr (), c'\<lparr>container_file := Some (handle_read handle),
              file_opened_in_library := \<not> file_is_open\<rparr>)))"
proof (cases "check_access_flags access_flags")
  case flags: (Inr u)
  show ?thesis
  proof (cases "handle_is_open handle")
    case is_open: (Inr b)
    show ?thesis
    proof (cases "if b then Inr () else handle_open handle")
      case (Inr v)
      show ?thesis
        unfolding container_open_file_io_handle_def opened_file_def bindS_liftS
        by (simp add: assms flags is_open Inr bindS_def split: prod.splits sum.splits)
    qed (simp add: container_open_file_io_handle_def opened_file_def assms flags is_open bindS_liftS)
  qed (simp add: container_open_file_io_handle_def opened_file_def assms flags)
qed (simp add: container_open_file_io_handle_def opened_file_def assms)

lemma open_file_io_handle_state:
  assumes "container_consistent c" "container_open_file_io_handle lib handle access_flags c = (r, c')"
  shows "container_consistent c' \<and> (r = Inr () \<longrightarrow> container_opened c')"
proof (cases "container_file c = None")
  case False
  then show ?thesis using assms by (auto simp: container_open_file_io_handle_def)
next
  case True
  then have closed: "container_closed c" using assms(1) by (auto simp: container_consistent_def container_opened_def)
  obtain r1 c1 where run: "internal_container_open_read lib (handle_read handle) 0 c = (r1, c1)" by fastforce
  note state = internal_container_open_read_state [OF assms(1) closed run]
  show ?thesis
  proof (cases "opened_file handle access_flags")
    case (Inl e)
    then have "r = Inl e" "c' = c" using assms(2) open_file_io_handle_result [OF True, where lib = lib and handle = handle and access_flags = access_flags] by simp_all
    then show ?thesis using assms(1) by simp
  next
    case opened: (Inr file_is_open)
    show ?thesis
    proof (cases r1)
      case (Inl e)
      then have "r = Inl e" "c' = c1" using assms(2) open_file_io_handle_result [OF True, where lib = lib and handle = handle and access_flags = access_flags] run opened by simp_all
      then show ?thesis using state Inl by (auto simp: container_consistent_def)
    next
      case (Inr u)
      then have "c' = c1\<lparr>container_file := Some (handle_read handle), file_opened_in_library := \<not> file_is_open\<rparr>"
        using assms(2) open_file_io_handle_result [OF True, where lib = lib and handle = handle and access_flags = access_flags] run opened by simp
      then show ?thesis using state Inr by (auto simp: container_consistent_def container_opened_def)
    qed
  qed
qed

lemma container_step_consistent:
  assumes "container_step lib c c'" "container_consistent c"
  shows "container_consistent c'"
  using assms
proof (cases rule: container_step.cases)
  case (open_handle h access_flags r)
  then show ?thesis using open_file_io_handle_state assms(2) by blast
next
  case (open_name named_file filename access_flags r)
  show ?thesis
  proof (cases "check_access_flags access_flags")
    case (Inl e)
    then show ?thesis using open_name assms(2) by (simp add: container_open_def)
  next
    case flags: (Inr u)
    show ?thesis
    proof (cases "named_file filename")
      case (Inl e)
      then show ?thesis using open_name flags assms(2) by (simp add: container_open_def)
    next
      case (Inr h)
      obtain r1 c1 where run: "container_open_file_io_handle lib h access_flags c = (r1, c1)" by fastforce
      then have "c' = (case r1 of Inl e \<Rightarrow> c1 | Inr _ \<Rightarrow> c1\<lparr>file_created_in_library := True\<rparr>)"
        using open_name flags Inr by (auto simp: container_open_def bindS_liftS bindS_def split: sum.splits)
      with open_file_io_handle_state [OF assms(2) run] show ?thesis
        by (auto simp: container_consistent_def container_opened_def split: sum.splits)
    qed
  qed
next
  case (close file_closed r)
  then show ?thesis
    using assms(2) by (auto simp: container_close_def container_consistent_def container_closed_def split: if_splits)
next
  case abort
  then show ?thesis
    using assms(2) by (auto simp: container_signal_abort_def container_consistent_def container_closed_def container_opened_def
        split: option.splits)
qed

lemma container_reachable_consistent: "container_reachable lib c \<Longrightarrow> container_consistent c"
proof (induction rule: container_reachable.induct)
  case (initial c)
  then show ?case
    by (auto simp: container_initialize_def io_handle_initialize_def container_consistent_def container_closed_def)
qed (rule container_step_consistent)

text \<open>Opening does not depend on what was opened before, and not on a signal to abort.\<close>

lemma abort_ignored:
  "read_checkpoint f (io\<lparr>io_abort := a\<rparr>) superblock = read_checkpoint f io superblock"
  "open_object_map lib f (io\<lparr>io_abort := a\<rparr>) vector block_number = open_object_map lib f io vector block_number"
  "open_container_key_bag lib f (io\<lparr>io_abort := a\<rparr>) superblock = open_container_key_bag lib f io superblock"
  "container_blocks lib f (io\<lparr>io_abort := a\<rparr>) = container_blocks lib f io"
proof -
  have "container_data_handle_read_data_block (xts_library lib) f (io\<lparr>io_abort := a\<rparr>) =
      container_data_handle_read_data_block (xts_library lib) f io"
    by (intro ext) (simp add: container_data_handle_read_data_block_def data_block_read_def Let_def cong: option.case_cong if_cong)
  then show "container_blocks lib f (io\<lparr>io_abort := a\<rparr>) = container_blocks lib f io"
    by (simp add: container_blocks_def container_data_handle_initialize_def)
qed (simp_all add: read_checkpoint_def open_object_map_def open_container_key_bag_def cong: if_cong)

text \<open>An open container has the members that its file holds.\<close>

definition container_of_file :: "('s, 'x) libraries \<Rightarrow> 's internal_container \<Rightarrow> bool" where
  "container_of_file lib c \<longleftrightarrow> (\<exists>f io first_superblock superblock checkpoint_map vector object_map.
     container_file c = Some f \<and> container_io c = Some io \<and>
     bindR (container_superblock_initialize None) (\<lambda>s. container_superblock_read_file_io_handle s f 0) = Inr first_superblock \<and>
     io_block_size io = superblock_block_size first_superblock \<and>
     io_container_size io = (container_number_of_blocks first_superblock * superblock_block_size first_superblock) mod 2 ^ 64 \<and>
     read_container_parts lib f io first_superblock = Inr (superblock, checkpoint_map, vector, object_map, container_keys c) \<and>
     container_super c = Some superblock \<and> container_checkpoint_map c = Some checkpoint_map \<and>
     container_vector c = Some vector \<and> container_object_map c = Some object_map)"

lemma container_of_file_abort:
  assumes "container_of_file lib c" "container_signal_abort c = Inr c'"
  shows "container_of_file lib c'"
proof -
  obtain io where "container_io c = Some io" "c' = c\<lparr>container_io := Some (io\<lparr>io_abort := 1\<rparr>)\<rparr>"
    using assms(2) by (auto simp: container_signal_abort_def split: option.splits)
  then show ?thesis using assms(1) by (auto simp: container_of_file_def read_container_parts_def abort_ignored)
qed

lemma internal_container_open_read_file:
  assumes "internal_container_open_read lib f 0 c = (r, c')"
  shows "container_file c' = container_file c" "r = Inr () \<Longrightarrow> container_of_file lib (c'\<lparr>container_file := Some f, file_opened_in_library := b\<rparr>)"
  using assms unfolding internal_container_open_read_eq container_of_file_def
  by (auto simp: Let_def bindR_eq_Inr split: sum.splits prod.splits)

lemma open_file_io_handle_file:
  assumes "container_open_file_io_handle lib handle access_flags c = (r, c')" "container_file c \<noteq> None \<longrightarrow> container_of_file lib c"
  shows "container_file c' \<noteq> None \<longrightarrow> container_of_file lib c'"
proof (cases "container_file c = None")
  case True
  obtain r1 c1 where run: "internal_container_open_read lib (handle_read handle) 0 c = (r1, c1)" by fastforce
  note read_file = internal_container_open_read_file [OF run]
  show ?thesis
  proof (cases "opened_file handle access_flags")
    case (Inl e)
    then show ?thesis using assms(1) True open_file_io_handle_result [OF True, where lib = lib and handle = handle and access_flags = access_flags]
      by simp
  next
    case (Inr b)
    then show ?thesis
      using assms(1) True run read_file open_file_io_handle_result [OF True, where lib = lib and handle = handle and access_flags = access_flags]
      by (cases r1) auto
  qed
qed (use assms in \<open>auto simp: container_open_file_io_handle_def\<close>)

lemma container_reachable_of_file:
  assumes "container_reachable lib c"
  shows "container_file c \<noteq> None \<longrightarrow> container_of_file lib c"
  using assms
proof (induction rule: container_reachable.induct)
  case (initial c)
  then show ?case by (auto simp: container_initialize_def io_handle_initialize_def)
next
  case (step c c')
  from step(2) show ?case
  proof (cases rule: container_step.cases)
    case (open_handle h access_flags r)
    then show ?thesis using open_file_io_handle_file step.IH by blast
  next
    case (open_name named_file filename access_flags r)
    show ?thesis
    proof (cases "\<exists>u h. check_access_flags access_flags = Inr u \<and> named_file filename = Inr h")
      case True
      then obtain u h where h: "check_access_flags access_flags = Inr u" "named_file filename = Inr h" by blast
      obtain r1 c1 where run: "container_open_file_io_handle lib h access_flags c = (r1, c1)" by fastforce
      then have "c' = (case r1 of Inl e \<Rightarrow> c1 | Inr _ \<Rightarrow> c1\<lparr>file_created_in_library := True\<rparr>)"
        using open_name h by (auto simp: container_open_def bindS_liftS bindS_def split: sum.splits)
      with open_file_io_handle_file [OF run step.IH] show ?thesis by (cases r1) (auto simp: container_of_file_def)
    next
      case False
      then show ?thesis
        using open_name step.IH by (cases "check_access_flags access_flags"; cases "named_file filename") (auto simp: container_open_def)
    qed
  next
    case (close file_closed r)
    then show ?thesis using step.IH by (auto simp: container_close_def split: if_splits)
  next
    case abort
    moreover from this have "container_file c' = container_file c"
      by (auto simp: container_signal_abort_def split: option.splits)
    ultimately show ?thesis using step.IH container_of_file_abort by metis
  qed
qed

lemma closed_containers_alike:
  assumes "container_consistent c" "container_closed c" "container_consistent d" "container_closed d"
  shows "\<exists>n m a. d = c\<lparr>container_io := Some ((the (container_io c))\<lparr>io_block_size := n, io_container_size := m, io_abort := a\<rparr>)\<rparr>"
proof -
  obtain io jo where io: "container_io c = Some io" "io_bytes_per_sector io = 512"
    "container_io d = Some jo" "io_bytes_per_sector jo = 512"
    using assms by (auto simp: container_consistent_def)
  have "jo = io\<lparr>io_block_size := io_block_size jo, io_container_size := io_container_size jo, io_abort := io_abort jo\<rparr>"
    using io by (cases io; cases jo) simp
  then have "d = c\<lparr>container_io := Some (io\<lparr>io_block_size := io_block_size jo, io_container_size := io_container_size jo,
      io_abort := io_abort jo\<rparr>)\<rparr>"
    using assms io by (cases c; cases d) (auto simp: container_closed_def container_consistent_def)
  then show ?thesis using io(1) by auto
qed

lemma open_read_again:
  assumes "container_closed c" "container_io c = Some io" "container_fusion_middle_tree c = None"
    and "d = c\<lparr>container_io := Some (io\<lparr>io_block_size := n, io_container_size := m, io_abort := a\<rparr>)\<rparr>"
    and "internal_container_open_read lib f 0 c = (Inr (), c')"
  shows "internal_container_open_read lib f 0 d =
    (Inr (), c'\<lparr>container_io := Some ((the (container_io c'))\<lparr>io_abort := a\<rparr>)\<rparr>)"
proof -
  have unset: "check_container_unset c = Inr io"
    "check_container_unset d = Inr (io\<lparr>io_block_size := n, io_container_size := m, io_abort := a\<rparr>)"
    using assms(1-4) by (auto simp: check_container_unset_def container_closed_def)
  obtain start superblock where start: "container_superblock_initialize None = Inr start"
    "container_superblock_read_file_io_handle start f 0 = Inr superblock"
    using assms(5) unset(1) by (auto simp: internal_container_open_read_eq bindR_eq_Inr split: sum.splits)
  let ?io = "io\<lparr>io_block_size := superblock_block_size superblock,
      io_container_size := (container_number_of_blocks superblock * superblock_block_size superblock) mod 2 ^ 64\<rparr>"
  obtain x where x: "read_container_parts lib f ?io superblock = Inr x"
    using assms(5) unset(1) start by (auto simp: internal_container_open_read_eq Let_def split: sum.splits)
  obtain sb cm v om kb where parts: "x = (sb, cm, v, om, kb)" by (metis prod_cases5)
  have c': "c' = c\<lparr>container_io := Some ?io, container_super := Some sb, container_checkpoint_map := Some cm,
      container_vector := Some v, container_object_map := Some om, container_keys := kb\<rparr>"
    using assms(5) unset(1) start x parts by (simp add: internal_container_open_read_eq)
  have "read_container_parts lib f (?io\<lparr>io_abort := a\<rparr>) superblock = Inr x"
    using x unfolding read_container_parts_def abort_ignored .
  moreover have order: "io\<lparr>io_abort := a, io_block_size := j, io_container_size := k\<rparr> =
      io\<lparr>io_block_size := j, io_container_size := k, io_abort := a\<rparr>" for j k
    by (cases io) simp
  ultimately have "internal_container_open_read lib f 0 d = (Inr (), d\<lparr>container_io := Some (?io\<lparr>io_abort := a\<rparr>),
      container_super := Some sb, container_checkpoint_map := Some cm,
      container_vector := Some v, container_object_map := Some om, container_keys := kb\<rparr>)"
    using unset(2) start parts by (simp add: internal_container_open_read_eq Let_def order)
  then show ?thesis unfolding c' assms(4) by simp
qed

section \<open>The newest checkpoint is used\<close>

lemma newest_unique:
  assumes "newest b blocks (first_superblock, 0, 0) = (s', m', t')"
    and "current = first_superblock \<or> Superblock_Block current \<in> set blocks"
    and "\<forall>s. s = first_superblock \<or> Superblock_Block s \<in> set blocks \<longrightarrow> s \<noteq> current \<longrightarrow>
      superblock_transaction s < superblock_transaction current"
    and "k < length blocks" "blocks ! k = Map_Block t" "0 < t"
    and "\<forall>j u. j < length blocks \<longrightarrow> blocks ! j = Map_Block u \<longrightarrow> j \<noteq> k \<longrightarrow> u < t"
  shows "s' = current \<and> m' = b + k"
proof
  note super = newest_superblock [OF assms(1)]
  show "s' = current"
  proof (rule ccontr)
    assume "s' \<noteq> current"
    then have "superblock_transaction s' < superblock_transaction current" using assms(3) super by blast
    then show False using super assms(2) by auto
  qed
  note map = newest_map [OF assms(1)]
  have t: "t \<le> t'" using map assms(4,5) by (metis nth_mem)
  then obtain j where j: "j < length blocks" "blocks ! j = Map_Block t'" "m' = b + j" using map assms(6) by auto
  then show "m' = b + k" using assms(7) t by force
qed

lemma container_latest:
  assumes "container_consistent c" "container_closed c"
    and first_block: "bindR (container_superblock_initialize None) (\<lambda>s. container_superblock_read_file_io_handle s f 0) = Inr first_superblock"
    and "container_incompatible_features first_superblock AND 0x100 = 0"
    and area: "scanned_area f first_superblock blocks" "\<forall>d\<in>set blocks. same_area first_superblock d"
    and newer: "current = first_superblock \<or> Superblock_Block current \<in> set blocks"
      "\<forall>s. s = first_superblock \<or> Superblock_Block s \<in> set blocks \<longrightarrow> s \<noteq> current \<longrightarrow>
        superblock_transaction s < superblock_transaction current"
    and checkpoint: "k < length blocks" "blocks ! k = Map_Block t" "0 < t"
      "\<forall>j u. j < length blocks \<longrightarrow> blocks ! j = Map_Block u \<longrightarrow> j \<noteq> k \<longrightarrow> u < t"
      "checkpoint_map_read_file_io_handle \<lparr>map_entries = []\<rparr> f ((descriptor_area_block_number first_superblock + k) * 4096) = Inr m"
    and io: "io = (the (container_io c))\<lparr>io_block_size := 4096,
      io_container_size := (container_number_of_blocks first_superblock * 4096) mod 2 ^ 64\<rparr>"
    and parts: "container_blocks lib f io = Inr vector"
      "open_object_map lib f io vector (container_object_map_block current) = Inr object_map"
      "open_container_key_bag lib f io current = Inr key_bag"
  shows "internal_container_open_read lib f 0 c = (Inr (), c\<lparr>container_io := Some io, container_super := Some current,
    container_checkpoint_map := Some m, container_vector := Some vector, container_object_map := Some object_map,
    container_keys := key_bag\<rparr>)"
proof -
  obtain io0 where io0: "container_io c = Some io0" "check_container_unset c = Inr io0"
    using assms(1,2) by (auto simp: container_consistent_def container_closed_def check_container_unset_def)
  obtain start where start: "container_superblock_initialize None = Inr start"
    "container_superblock_read_file_io_handle start f 0 = Inr first_superblock"
    using first_block by (auto simp: bindR_eq_Inr)
  note wf = read_superblock_wf [OF start(2)]
  let ?b = "descriptor_area_block_number first_superblock"
  obtain s' m' t' where new: "newest ?b blocks (first_superblock, 0, 0) = (s', m', t')" by (metis prod_cases3)
  have new': "s' = current" "m' = ?b + k" using newest_unique [OF new newer checkpoint(1-4)] by blast+
  obtain object where object: "object_initialize None = Inr object" by (simp add: object_initialize_def)
  have "\<forall>j < length blocks. descriptor_block f (?b + (0 + j)) = Inr (blocks ! j)"
    "0 + length blocks = descriptor_area_number_of_blocks first_superblock + 1"
    using area(1) by (simp_all add: scanned_area_def)
  from scan_descriptor_area_newest [OF this(1) refl refl _ _ this(2) area(2), of object 0 0] wf new new'
  obtain object' where scan: "scan_descriptor_area f 4096 0 (?b * 4096) (object, first_superblock, 0, 0) =
      Inr (object', current, ?b + k, t')" by auto
  have "k < 2 ^ 32" using checkpoint(1) area(1) wf by (simp add: scanned_area_def)
  then have small: "((?b + k) * 4096) mod 2 ^ 64 = (?b + k) * 4096" using wf by simp
  have "read_checkpoint f io first_superblock = Inr (current, m)"
    using assms(4) object scan checkpoint(5) wf small io
    by (simp add: read_checkpoint_def checkpoint_map_initialize_def)
  then have "read_container_parts lib f io first_superblock = Inr (current, m, vector, object_map, key_bag)"
    using parts by (simp add: read_container_parts_def)
  moreover have "io0\<lparr>io_block_size := superblock_block_size first_superblock, io_container_size :=
      (container_number_of_blocks first_superblock * superblock_block_size first_superblock) mod 2 ^ 64\<rparr> = io"
    using io io0(1) wf by simp
  ultimately show ?thesis
    using io0(2) start by (simp add: internal_container_open_read_eq Let_def)
qed

section \<open>A sample\<close>

text \<open>
  A file of blocks of 4096 bytes: the superblock of transaction 5, the descriptor area of three blocks with the checkpoint maps of
  the transactions 5 and 7 and the superblock of transaction 7, and the object map, which is scanned as well.
\<close>

definition block_file :: "(nat \<Rightarrow> bytes) \<Rightarrow> file_io" where
  "block_file blocks off n = Inr (take n (drop (off mod 4096) (blocks (off div 4096))))"

definition sample_super :: "nat \<Rightarrow> container_superblock" where
  "sample_super t = sample_container\<lparr>superblock_transaction := t, descriptor_area_number_of_blocks := 3,
     container_object_map_block := 4\<rparr>"

definition sample_object_map_layout :: layout where
  "sample_object_map_layout = [(16, le_encode 8 6), (24, le_encode 4 0x4000000b), (28, le_encode 4 0), (36, le_encode 4 0), (48, le_encode 8 5),
     (56, le_encode 8 0), (64, le_encode 8 0)]"

definition sample_container_blocks :: "nat \<Rightarrow> bytes" where
  "sample_container_blocks i =
     (if i = 0 then write_object (replicate 4096 0) (container_layout (sample_super 5) 1)
      else if i = 1 then write_object (replicate 4096 0) (checkpoint_map_layout 5 [])
      else if i = 2 then write_object (replicate 4096 0) (container_layout (sample_super 7) 1)
      else if i = 3 then write_object (replicate 4096 0) (checkpoint_map_layout 7 [])
      else if i = 4 then write_object (replicate 4096 0) sample_object_map_layout
      else replicate 4096 0)"

definition sample_libraries :: "(nat \<rightharpoonup> btree_node, bytes \<times> bytes) libraries" where
  "sample_libraries = \<lparr>xts_library = keeping_xts, node_cache_library = map_cache, empty_node_cache = Map.empty,
     vector_library = (\<lambda>read n m. Inr (\<lambda>i. if i * n + n \<le> m then bindR (read (i * n) n) (\<lambda>block. Inr (block_data block))
       else Inl ARGUMENT_VALUE_OUT_OF_BOUNDS))\<rparr>"

lemma read_block_file:
  assumes "length (blocks b) = 4096" "n \<le> 4096"
  shows "read_buffer_at_offset (block_file blocks) (b * 4096) n = Inr (take n (blocks b))"
  using assms by (simp add: read_buffer_at_offset_def block_file_def)

lemma rd_le_take: "i + n \<le> m \<Longrightarrow> m \<le> length data \<Longrightarrow> rd_le n (take m data) i = rd_le n data i"
  by (simp add: rd_le_def rd_slice_def take_drop min_def)

lemma object_read_written:
  assumes "object_fits base members" "length base = 4096" "blocks b = write_object base members"
    and "map_of members 16 = Some (le_encode 8 t)" "map_of members 24 = Some (le_encode 4 ty)" "t < 2 ^ 64" "ty < 2 ^ 32"
  shows "\<exists>object. object_read_file_io_handle no_object (block_file blocks) (b * 4096) = Inr object \<and>
    object_transaction object = t \<and> object_type_value object = ty"
proof -
  have len: "length (write_object base members) = 4096" using assms(1,2) by simp
  have "16 \<in> fst ` set members" "24 \<in> fst ` set members"
    using map_of_SomeD [OF assms(4)] map_of_SomeD [OF assms(5)] by force+
  then have "rd_u64_le (write_object base members) 16 = Inr t" "rd_u32_le (write_object base members) 24 = Inr ty"
    using member_le [OF assms(1), of 16 8] member_le [OF assms(1), of 24 4] assms(4-7) by simp_all
  then show ?thesis
    using len assms(3)
    by (simp add: object_read_file_io_handle_def read_block_file object_read_data_def rd_le_take SSIZE_MAX_def no_object_def
        del: rd_le_Inr) simp
qed

lemma sample_super_wf: "t < 2 ^ 64 \<Longrightarrow> container_superblock_wf (sample_super t)"
  using sample_superblocks(1) by (simp add: container_superblock_wf_def sample_super_def)

lemma sample_fits:
  "t < 2 ^ 64 \<Longrightarrow> object_fits (replicate 4096 0) (container_layout (sample_super t) 1)"
  "object_fits (replicate 4096 0) (checkpoint_map_layout t [])"
  "object_fits (replicate 4096 0) sample_object_map_layout"
  using container_object_fits [OF sample_super_wf, of t "replicate 4096 0" 1]
  by (simp_all add: object_fits_def checkpoint_map_layout_def sample_object_map_layout_def del: le_encode.simps)

lemma sample_superblock_read:
  assumes "sample_container_blocks b = write_object (replicate 4096 0) (container_layout (sample_super t) 1)" "t < 2 ^ 64"
    and "container_superblock_initialize None = Inr start"
  shows "container_superblock_read_file_io_handle start (block_file sample_container_blocks) (b * 4096) = Inr (sample_super t)"
  using container_superblock_written [OF sample_super_wf [OF assms(2)] _ _ _ _ assms(3), of 1 "replicate 4096 0"]
    sample_fits(1) [OF assms(2)] assms(1)
  by (simp add: container_superblock_read_file_io_handle_def read_block_file)

lemma sample_descriptor_super:
  assumes "sample_container_blocks b = write_object (replicate 4096 0) (container_layout (sample_super t) 1)" "t < 2 ^ 64"
  shows "descriptor_block (block_file sample_container_blocks) b = Inr (Superblock_Block (sample_super t))"
proof -
  obtain start where start: "container_superblock_initialize None = Inr start" by (simp add: container_superblock_initialize_def)
  have "map_of (container_layout (sample_super t) 1) 16 = Some (le_encode 8 t)"
    "map_of (container_layout (sample_super t) 1) 24 = Some (le_encode 4 0x80000001)"
    by (simp_all add: container_layout_def sample_super_def del: le_encode.simps)
  from object_read_written [where blocks = sample_container_blocks and b = b, OF sample_fits(1) [OF assms(2)] _ assms(1) this assms(2)]
  show ?thesis using sample_superblock_read [OF assms start] start by (auto simp: descriptor_block_def)
qed

lemma sample_descriptor_map:
  assumes "sample_container_blocks b = write_object (replicate 4096 0) (checkpoint_map_layout t [])" "t < 2 ^ 64"
  shows "descriptor_block (block_file sample_container_blocks) b = Inr (Map_Block t)"
proof -
  have "map_of (checkpoint_map_layout t []) 16 = Some (le_encode 8 t)"
    "map_of (checkpoint_map_layout t []) 24 = Some (le_encode 4 0x4000000c)"
    by (simp_all add: checkpoint_map_layout_def del: le_encode.simps)
  from object_read_written [where blocks = sample_container_blocks and b = b, OF sample_fits(2) [of t] _ assms(1) this assms(2)]
  show ?thesis by (auto simp: descriptor_block_def)
qed

lemma sample_descriptor_other: "descriptor_block (block_file sample_container_blocks) 4 = Inr Other_Block"
proof -
  have "map_of sample_object_map_layout 16 = Some (le_encode 8 6)" "map_of sample_object_map_layout 24 = Some (le_encode 4 0x4000000b)"
    by (simp_all add: sample_object_map_layout_def del: le_encode.simps)
  from object_read_written [where blocks = sample_container_blocks and b = 4, OF sample_fits(3) _ _ this]
  show ?thesis by (auto simp: descriptor_block_def sample_container_blocks_def)
qed

definition new_io :: io_handle where
  "new_io = \<lparr>io_bytes_per_sector = 512, io_block_size = 4096, io_container_size = 0, io_abort = 0\<rparr>"

definition new_container :: "'s internal_container" where
  "new_container = \<lparr>container_super = None, container_fusion_middle_tree = None, container_checkpoint_map = None,
     container_vector = None, container_object_map = None, container_keys = None,
     container_io = Some new_io, container_file = None, file_created_in_library = False, file_opened_in_library = False\<rparr>"

lemma new_container: "container_initialize None = Inr new_container" "container_consistent new_container"
  "container_closed new_container"
  by (simp_all add: container_initialize_def io_handle_initialize_def new_container_def new_io_def
      container_consistent_def container_closed_def)

definition sample_area_blocks :: "descriptor list" where
  "sample_area_blocks = [Map_Block 5, Superblock_Block (sample_super 7), Map_Block 7, Other_Block]"

lemma sample_super_values:
  "superblock_transaction (sample_super t) = t" "descriptor_area_number_of_blocks (sample_super t) = 3"
  "descriptor_area_block_number (sample_super t) = 1" "container_object_map_block (sample_super t) = 4"
  "key_bag_block (sample_super t) = 0" "container_number_of_blocks (sample_super t) = 1000"
  "container_incompatible_features (sample_super t) = 2"
  by (simp_all add: sample_super_def sample_container_def)

lemma sample_area:
  "scanned_area (block_file sample_container_blocks) (sample_super 5) sample_area_blocks"
  "\<forall>d\<in>set sample_area_blocks. same_area (sample_super 5) d"
  "Superblock_Block s \<in> set sample_area_blocks \<longleftrightarrow> s = sample_super 7" "2 < length sample_area_blocks"
  "sample_area_blocks ! 2 = Map_Block 7"
  "j < length sample_area_blocks \<longrightarrow> sample_area_blocks ! j = Map_Block u \<longrightarrow> j \<noteq> 2 \<longrightarrow> u < 7"
proof -
  have "descriptor_block (block_file sample_container_blocks) 1 = Inr (Map_Block 5)"
    "descriptor_block (block_file sample_container_blocks) 2 = Inr (Superblock_Block (sample_super 7))"
    "descriptor_block (block_file sample_container_blocks) 3 = Inr (Map_Block 7)"
    by (rule sample_descriptor_map sample_descriptor_super; simp add: sample_container_blocks_def)+
  moreover have "descriptor_block (block_file sample_container_blocks) 4 = Inr Other_Block" by (rule sample_descriptor_other)
  ultimately show "scanned_area (block_file sample_container_blocks) (sample_super 5) sample_area_blocks"
    by (auto simp: scanned_area_def sample_super_values sample_area_blocks_def less_Suc_eq numeral_eq_Suc)
qed (auto simp: sample_area_blocks_def same_area_def sample_super_values less_Suc_eq numeral_eq_Suc)

lemma sample_first:
  "bindR (container_superblock_initialize None)
     (\<lambda>s. container_superblock_read_file_io_handle s (block_file sample_container_blocks) 0) = Inr (sample_super 5)"
proof -
  obtain start where start: "container_superblock_initialize None = Inr start" by (simp add: container_superblock_initialize_def)
  have "sample_container_blocks 0 = write_object (replicate 4096 0) (container_layout (sample_super 5) 1)"
    by (simp add: sample_container_blocks_def)
  from sample_superblock_read [OF this _ start] start show ?thesis by simp
qed

lemma sample_map_read:
  "checkpoint_map_read_file_io_handle \<lparr>map_entries = []\<rparr> (block_file sample_container_blocks) (3 * 4096) = Inr \<lparr>map_entries = []\<rparr>"
proof -
  have block: "sample_container_blocks 3 = write_object (replicate 4096 0) (checkpoint_map_layout 7 [])"
    by (simp add: sample_container_blocks_def)
  have "length (sample_container_blocks 3) = 4096" using sample_fits(2) by (simp add: block)
  then have "read_buffer_at_offset (block_file sample_container_blocks) (3 * 4096) 4096 = Inr (sample_container_blocks 3)"
    by (subst read_block_file) simp_all
  moreover have "checkpoint_map_read_data \<lparr>map_entries = []\<rparr> (sample_container_blocks 3) 4096 = Inr \<lparr>map_entries = []\<rparr>"
    using checkpoint_map_written [of "[]" "replicate 4096 0" 7] by (simp add: block)
  ultimately show ?thesis unfolding checkpoint_map_read_file_io_handle_def by simp
qed

lemma sample_object_map_read:
  "open_object_map sample_libraries (block_file sample_container_blocks) io vector 4 =
    Inr (\<lparr>node_cache = map_cache, data_block_vector = vector, root_node_block_number = 5\<rparr>, Map.empty)"
  if "io_block_size io = 4096"
proof -
  let ?data = "write_object (replicate 4096 0) sample_object_map_layout"
  have len: "length ?data = 4096" using sample_fits(3) by simp
  have "read_buffer_at_offset (block_file sample_container_blocks) (4 * 4096) 88 = Inr (take 88 ?data)"
    using len by (subst read_block_file) (simp_all add: sample_container_blocks_def)
  moreover have "rd_u32_le ?data 24 = Inr 0x4000000b" "rd_u32_le ?data 28 = Inr 0" "rd_u32_le ?data 36 = Inr 0"
    "rd_u64_le ?data 48 = Inr 5" "rd_u64_le ?data 56 = Inr 0" "rd_u64_le ?data 64 = Inr 0"
    using member_le [OF sample_fits(3)] by (simp_all add: sample_object_map_layout_def del: le_encode.simps rd_le_Inr)
  ultimately show ?thesis
    using that len by (simp add: open_object_map_def object_map_initialize_def object_map_read_file_io_handle_def
        object_map_read_data_def rd_le_take SSIZE_MAX_def object_map_btree_initialize_def sample_libraries_def del: rd_le_Inr)
qed

definition sample_opened_io :: io_handle where
  "sample_opened_io = new_io\<lparr>io_block_size := 4096, io_container_size := 1000 * 4096\<rparr>"

definition sample_vector :: block_vector where
  "sample_vector = (\<lambda>i. if i * 4096 + 4096 \<le> 1000 * 4096
     then bindR (container_data_handle_read_data_block keeping_xts (block_file sample_container_blocks) sample_opened_io (i * 4096) 4096)
       (\<lambda>block. Inr (block_data block))
     else Inl ARGUMENT_VALUE_OUT_OF_BOUNDS)"

lemma sample_parts:
  "checkpoint_map_read_file_io_handle \<lparr>map_entries = []\<rparr> (block_file sample_container_blocks)
     ((descriptor_area_block_number (sample_super 5) + 2) * 4096) = Inr \<lparr>map_entries = []\<rparr>"
  "container_blocks sample_libraries (block_file sample_container_blocks) sample_opened_io = Inr sample_vector"
  "open_object_map sample_libraries (block_file sample_container_blocks) sample_opened_io sample_vector
     (container_object_map_block (sample_super 7)) =
   Inr (\<lparr>node_cache = map_cache, data_block_vector = sample_vector, root_node_block_number = 5\<rparr>, Map.empty)"
  "open_container_key_bag sample_libraries (block_file sample_container_blocks) sample_opened_io (sample_super 7) = Inr None"
  "sample_opened_io = (the (container_io new_container))\<lparr>io_block_size := 4096,
      io_container_size := (container_number_of_blocks (sample_super 5) * 4096) mod 2 ^ 64\<rparr>"
proof -
  have io: "io_block_size sample_opened_io = 4096" "io_container_size sample_opened_io = 1000 * 4096"
    by (simp_all add: sample_opened_io_def)
  show "open_object_map sample_libraries (block_file sample_container_blocks) sample_opened_io sample_vector
      (container_object_map_block (sample_super 7)) =
      Inr (\<lparr>node_cache = map_cache, data_block_vector = sample_vector, root_node_block_number = 5\<rparr>, Map.empty)"
    unfolding sample_super_values by (rule sample_object_map_read [OF io(1)])
  show "container_blocks sample_libraries (block_file sample_container_blocks) sample_opened_io = Inr sample_vector"
    by (simp add: container_blocks_def container_data_handle_initialize_def sample_libraries_def sample_vector_def io)
  show "checkpoint_map_read_file_io_handle \<lparr>map_entries = []\<rparr> (block_file sample_container_blocks)
      ((descriptor_area_block_number (sample_super 5) + 2) * 4096) = Inr \<lparr>map_entries = []\<rparr>"
    using sample_map_read by (simp add: sample_super_values)
qed (simp_all add: sample_super_values open_container_key_bag_def sample_opened_io_def new_io_def new_container_def)

lemma sample_opens:
  "\<exists>d. internal_container_open_read sample_libraries (block_file sample_container_blocks) 0 new_container = (Inr (), d)"
proof -
  have "internal_container_open_read sample_libraries (block_file sample_container_blocks) 0 new_container = (Inr (),
    new_container\<lparr>container_io := Some sample_opened_io, container_super := Some (sample_super 7),
      container_checkpoint_map := Some \<lparr>map_entries = []\<rparr>, container_vector := Some sample_vector, container_object_map :=
      Some (\<lparr>node_cache = map_cache, data_block_vector = sample_vector, root_node_block_number = 5\<rparr>, Map.empty), container_keys := None\<rparr>)"
    by (rule container_latest [where k = 2 and t = 7 and blocks = sample_area_blocks, OF new_container(2,3) sample_first
          _ sample_area(1,2) _ _ sample_area(4,5) _ _ sample_parts(1,5,2,3,4)])
      (use sample_area(3,6) in \<open>auto simp: sample_super_values\<close>)
  then show ?thesis by blast
qed

section \<open>Properties\<close>

text \<open>
  C27. Opening a container scans all blocks of the checkpoint descriptor area and, as the
  loop counts one too many, the block behind it. It uses the superblock with the greatest transaction out of the first block and
  these, when one has it alone, and the checkpoint map with the greatest transaction out of these; the object map and the key
  bag are those of this superblock. The superblocks that are scanned must name the same area as the first one.
\<close>

theorem container_open_newest:
  assumes "container_reachable lib c" "container_file c = None"
    and "bindR (container_superblock_initialize None) (\<lambda>s. container_superblock_read_file_io_handle s f 0) = Inr first_superblock"
    and "container_incompatible_features first_superblock AND 0x100 = 0"
    and "scanned_area f first_superblock blocks" "\<forall>d\<in>set blocks. same_area first_superblock d"
    and "current = first_superblock \<or> Superblock_Block current \<in> set blocks"
    and "\<forall>s. s = first_superblock \<or> Superblock_Block s \<in> set blocks \<longrightarrow> s \<noteq> current \<longrightarrow>
        superblock_transaction s < superblock_transaction current"
    and "k < length blocks" "blocks ! k = Map_Block t" "0 < t"
    and "\<forall>j u. j < length blocks \<longrightarrow> blocks ! j = Map_Block u \<longrightarrow> j \<noteq> k \<longrightarrow> u < t"
    and "checkpoint_map_read_file_io_handle \<lparr>map_entries = []\<rparr> f ((descriptor_area_block_number first_superblock + k) * 4096) = Inr m"
    and "io = (the (container_io c))\<lparr>io_block_size := 4096,
      io_container_size := (container_number_of_blocks first_superblock * 4096) mod 2 ^ 64\<rparr>"
    and "container_blocks lib f io = Inr vector"
    and "open_object_map lib f io vector (container_object_map_block current) = Inr object_map"
    and "open_container_key_bag lib f io current = Inr key_bag"
  shows "internal_container_open_read lib f 0 c = (Inr (), c\<lparr>container_io := Some io, container_super := Some current,
    container_checkpoint_map := Some m, container_vector := Some vector, container_object_map := Some object_map,
    container_keys := key_bag\<rparr>)"
proof -
  have "container_consistent c" using assms(1) by (rule container_reachable_consistent)
  moreover from this have "container_closed c" using assms(2) by (auto simp: container_consistent_def container_opened_def)
  ultimately show ?thesis by (rule container_latest [OF _ _ assms(3-)])
qed

theorem container_open_newest_witness:
  "\<exists>c. internal_container_open_read sample_libraries (block_file sample_container_blocks) 0 new_container = (Inr (), c) \<and>
    container_super c = Some (sample_super 7) \<and> container_checkpoint_map c = Some \<lparr>map_entries = []\<rparr>"
proof -
  have "container_file new_container = None" by (simp add: new_container_def)
  from container_open_newest [where f = "block_file sample_container_blocks" and k = 2 and t = 7 and
      blocks = sample_area_blocks and first_superblock = "sample_super 5" and current = "sample_super 7",
      OF container_reachable.initial [OF new_container(1)] this sample_first _ sample_area(1,2) _ _ sample_area(4,5) _ _
        sample_parts(1,5,2,3,4)]
  show ?thesis using sample_area(3,6) by (auto simp: sample_super_values)
qed

text \<open>
  C29. Whatever files are opened, closed or fail to open, in any order, a
  container is either closed, with no file and no member but the I/O handle set, or open, with a block size of 4096, its superblock, checkpoint map,
  vector and object map set, and its key bag exactly when the superblock has the blocks of one; these members and the sizes
  in the I/O handle are then those that reading its file gives. The fusion middle tree is never set.
\<close>

theorem container_states_consistent:
  assumes "container_reachable lib c"
  shows "container_io c \<noteq> None \<and> container_fusion_middle_tree c = None \<and>
    (container_closed c \<or> container_opened c \<and> container_of_file lib c)"
proof -
  have "container_consistent c" using assms by (rule container_reachable_consistent)
  then show ?thesis
    using container_reachable_of_file [OF assms] by (auto simp: container_consistent_def container_opened_def)
qed

text \<open>The sample file, opened by its handle.\<close>

definition sample_handle :: file_handle where
  "sample_handle = \<lparr>handle_is_open = Inr False, handle_open = Inr (), handle_close = Inr (),
     handle_read = block_file sample_container_blocks\<rparr>"

lemma sample_reachable:
  "\<exists>c. container_open_file_io_handle sample_libraries sample_handle 1 new_container = (Inr (), c) \<and>
    container_reachable sample_libraries c \<and> container_file c = Some (block_file sample_container_blocks)"
proof -
  obtain d where d: "internal_container_open_read sample_libraries (block_file sample_container_blocks) 0 new_container = (Inr (), d)"
    using sample_opens by blast
  have opened: "container_open_file_io_handle sample_libraries sample_handle 1 new_container =
      (Inr (), d\<lparr>container_file := Some (block_file sample_container_blocks), file_opened_in_library := True\<rparr>)"
    using d by (simp add: container_open_file_io_handle_def sample_handle_def check_access_flags_def ACCESS_FLAG_READ_def
        ACCESS_FLAG_WRITE_def new_container_def bindS_eq)
  have "container_step sample_libraries new_container (d\<lparr>container_file := Some (block_file sample_container_blocks), file_opened_in_library := True\<rparr>)"
    by (rule container_step.open_handle [OF opened])
  with container_reachable.initial [OF new_container(1)] have
    "container_reachable sample_libraries (d\<lparr>container_file := Some (block_file sample_container_blocks), file_opened_in_library := True\<rparr>)"
    by (rule container_reachable.step)
  with opened show ?thesis by auto
qed

theorem container_states_consistent_witness:
  "\<exists>c. container_open_file_io_handle sample_libraries sample_handle 1 new_container = (Inr (), c) \<and>
    container_opened c \<and> container_of_file sample_libraries c"
proof -
  obtain c where c: "container_open_file_io_handle sample_libraries sample_handle 1 new_container = (Inr (), c)"
    "container_reachable sample_libraries c" "container_file c = Some (block_file sample_container_blocks)"
    using sample_reachable by blast
  with container_states_consistent [OF c(2)] show ?thesis by (auto simp: container_closed_def)
qed

text \<open>
  C30. A container that has been closed, or that failed to open, whatever happened before,
  opens every file that a new container opens, with the same members; only a signal to abort is kept.
\<close>

theorem container_opens_again:
  assumes "container_reachable lib c" "container_file c = None"
    and "internal_container_open_read lib f 0 new_container = (Inr (), d)"
  shows "\<exists>a. internal_container_open_read lib f 0 c =
    (Inr (), d\<lparr>container_io := Some ((the (container_io d))\<lparr>io_abort := a\<rparr>)\<rparr>)"
proof -
  have c: "container_consistent c" using assms(1) by (rule container_reachable_consistent)
  then have closed: "container_closed c" using assms(2) by (auto simp: container_consistent_def container_opened_def)
  have io: "container_io new_container = Some new_io" "container_fusion_middle_tree new_container = None"
    by (simp_all add: new_container_def)
  obtain n m a where "c = new_container\<lparr>container_io := Some (new_io\<lparr>io_block_size := n, io_container_size := m, io_abort := a\<rparr>)\<rparr>"
    using closed_containers_alike [OF new_container(2,3) c closed] by (auto simp: new_container_def)
  from open_read_again [OF new_container(3) io this assms(3)] show ?thesis by blast
qed

theorem container_opens_again_witness:
  "\<exists>c a d. container_open_file_io_handle sample_libraries sample_handle 1 new_container = (Inr (), c) \<and>
    internal_container_open_read sample_libraries (block_file sample_container_blocks) 0 (snd (container_close (Inr ()) c)) =
      (Inr (), d\<lparr>container_io := Some ((the (container_io d))\<lparr>io_abort := a\<rparr>)\<rparr>)"
proof -
  obtain c where c: "container_open_file_io_handle sample_libraries sample_handle 1 new_container = (Inr (), c)"
    "container_reachable sample_libraries c" "container_file c = Some (block_file sample_container_blocks)"
    using sample_reachable by blast
  have "container_reachable sample_libraries (snd (container_close (Inr ()) c))"
    by (rule container_reachable.step [OF c(2)], rule container_step.close) (rule prod.collapse [symmetric])
  moreover have "container_file (snd (container_close (Inr ()) c)) = None" by (simp add: container_close_def c(3))
  moreover obtain d where "internal_container_open_read sample_libraries (block_file sample_container_blocks) 0 new_container = (Inr (), d)"
    using sample_opens by blast
  ultimately show ?thesis using container_opens_again c(1) by metis
qed

text \<open>
  C28. Whatever the file holds, opening it terminates, returns an error of the library or
  opens the container, and accesses no memory outside the blocks; the ciphers and the file keep to their
  interfaces.
\<close>

theorem container_open_safe:
  assumes "container_reachable lib c" "\<And>i n. safe (f i n)" "xts_well_behaved (xts_library lib)" "vector_safe lib"
  shows "safe (fst (internal_container_open_read lib f 0 c))"
proof (cases "check_container_unset c")
  case (Inl e)
  then show ?thesis
    by (auto simp: internal_container_open_read_eq check_container_unset_def split: option.splits if_splits)
next
  case (Inr io)
  then have io: "container_io c = Some io" "io_bytes_per_sector io = 512"
    using container_reachable_consistent [OF assms(1)]
    by (auto simp: check_container_unset_def container_consistent_def split: option.splits if_splits)
  obtain start where start: "container_superblock_initialize None = Inr start" by (simp add: container_superblock_initialize_def)
  have super: "safe (container_superblock_read_file_io_handle start f 0)" by (rule superblock_read_safe [OF assms(2)])
  show ?thesis
  proof (cases "container_superblock_read_file_io_handle start f 0")
    case (Inl e)
    then show ?thesis using super Inr start by (simp add: internal_container_open_read_eq)
  next
    case sb: (Inr superblock)
    note wf = read_superblock_wf [OF sb]
    have "safe (read_container_parts lib f (io\<lparr>io_block_size := 4096, io_container_size := m\<rparr>) superblock)" for m
      unfolding read_container_parts_def
      by (intro safe_bindR [OF read_checkpoint_safe [OF assms(2)]]; clarsimp)
        (intro safe_bindR container_blocks_safe [OF assms(4)] open_object_map_safe [OF assms(2)]
          open_container_key_bag_safe [OF assms(2,3)]; simp add: io)
    from this [of "(container_number_of_blocks superblock * 4096) mod 2 ^ 64"] show ?thesis
      using Inr start sb wf by (auto simp: internal_container_open_read_eq Let_def split: sum.splits)
  qed
qed

theorem container_open_safe_witness:
  "safe (fst (internal_container_open_read sample_libraries (\<lambda>i n. Inr (replicate n 255)) 0 new_container))"
  by (rule container_open_safe [OF container_reachable.initial [OF new_container(1)]])
    (simp_all add: sample_libraries_def vector_safe_def xts_well_behaved_def keeping_xts_def)

end
