(* ===== verification/Volume_Open.thy ===== *)
theory Volume_Open
  imports Snapshots Container_States
begin

text \<open>
  Opening, unlocking and closing a volume, \<open>libfsapfs_volume.c\<close>: its superblock, object map, key bag and snapshots,
  and the vector of the blocks of its file system.
\<close>

section \<open>The volume\<close>

text \<open>
  A B-tree comes with the state of its cache. The callback of the vector of the file system reads the encryption
  context, which it shares with the volume, when a block is read. The file system is a B-tree with its node cache and the
  encoding of children that it has found; the object map that it uses is that of the volume.
\<close>

record ('s, 'x) internal_volume =
  volume_super :: "volume_superblock option"
  volume_container_keys :: "container_key_bag option"
  volume_vector :: "block_vector option"
  volume_object_map :: "('s object_map_btree \<times> 's) option"
  volume_snapshot_tree :: "(('s, 's) snapshot_metadata_tree \<times> 's) option"
  volume_snapshots :: "snapshot_metadata list option"
  volume_bag :: "volume_key_bag option"
  volume_encryption :: "'x encryption_context option"
  volume_file_blocks :: "('x encryption_context option \<Rightarrow> block_vector result) option"
  volume_file_system :: "(('s, 's) file_system_btree \<times> 's \<times> nat) option"
  volume_io :: "io_handle option"
  volume_file :: "file_io option"
  volume_locked :: bool
  volume_user_password :: "bytes option"
  volume_user_password_size :: nat
  volume_recovery_password :: "bytes option"
  volume_recovery_password_size :: nat

definition volume_initialize ::
    "('s, 'x) internal_volume option \<Rightarrow> io_handle \<Rightarrow> file_io \<Rightarrow> container_key_bag option \<Rightarrow> ('s, 'x) internal_volume result" where
  "volume_initialize volume io file_io_handle container_bag =
     (if volume \<noteq> None then Inl RUNTIME_VALUE_ALREADY_SET
      else Inr \<lparr>volume_super = None, volume_container_keys = container_bag, volume_vector = None, volume_object_map = None,
        volume_snapshot_tree = None, volume_snapshots = None, volume_bag = None, volume_encryption = None,
        volume_file_blocks = None, volume_file_system = None, volume_io = Some io, volume_file = Some file_io_handle,
        volume_locked = True, volume_user_password = None, volume_user_password_size = 0,
        volume_recovery_password = None, volume_recovery_password_size = 0\<rparr>)"

section \<open>Opening\<close>

text \<open>Opening is a sequence of calls that set the members of the volume one after the other.\<close>

type_synonym ('s, 'x, 'a) volume_call = "(('s, 'x) internal_volume, 'a) call"

definition check_volume_unset :: "('s, 'x) internal_volume \<Rightarrow> io_handle result" where
  "check_volume_unset volume =
     (case volume_io volume of
        None \<Rightarrow> Inl RUNTIME_VALUE_MISSING
      | Some io \<Rightarrow>
          if volume_super volume \<noteq> None \<or> volume_vector volume \<noteq> None \<or> volume_object_map volume \<noteq> None \<or>
             volume_snapshot_tree volume \<noteq> None \<or> volume_bag volume \<noteq> None \<or> volume_encryption volume \<noteq> None \<or>
             volume_file_blocks volume \<noteq> None
          then Inl RUNTIME_VALUE_ALREADY_SET
          else Inr io)"

definition open_volume_superblock :: "file_io \<Rightarrow> nat \<Rightarrow> ('s, 'x, volume_superblock) volume_call" where
  "open_volume_superblock file_io_handle file_offset =
     bindS (liftS (volume_superblock_initialize None)) (\<lambda>superblock.
     bindS (liftS (volume_superblock_read_file_io_handle superblock file_io_handle file_offset False)) (\<lambda>superblock volume.
       (Inr superblock, volume\<lparr>volume_super := Some superblock\<rparr>)))"

definition open_volume_object_map ::
    "('s, 'x) libraries \<Rightarrow> file_io \<Rightarrow> io_handle \<Rightarrow> volume_superblock \<Rightarrow> ('s, 'x, block_vector \<times> 's object_map_btree \<times> 's) volume_call" where
  "open_volume_object_map lib file_io_handle io superblock =
     bindS (liftS (container_blocks lib file_io_handle io)) (\<lambda>vector volume.
     bindS (liftS (open_object_map lib file_io_handle io vector (volume_object_map_block superblock))) (\<lambda>object_map volume.
       (Inr (vector, object_map), volume\<lparr>volume_object_map := Some object_map\<rparr>)) (volume\<lparr>volume_vector := Some vector\<rparr>))"

text \<open>
  An encrypted volume (without flag 1) with an extent in the key bag of the container is locked. A decryption that does not
  return is taken for an undefined access.
\<close>

definition open_volume_key_bag ::
    "('s, 'x) libraries \<Rightarrow> file_io \<Rightarrow> io_handle \<Rightarrow> volume_superblock \<Rightarrow> ('s, 'x, unit) volume_call" where
  "open_volume_key_bag lib file_io_handle io superblock volume =
     (case (if volume_flags superblock AND 0x00000001 = 0 then volume_container_keys volume else None) of
        None \<Rightarrow> (Inr (), volume\<lparr>volume_locked := False\<rparr>)
      | Some container_bag \<Rightarrow>
          bindS (liftS (container_key_bag_get_volume_key_bag_extent_by_identifier container_bag (volume_identifier superblock)))
            (\<lambda>extent volume.
            case extent of
              None \<Rightarrow> (Inr (), volume)
            | Some (block_number, number_of_blocks) \<Rightarrow>
                if block_number = 0 \<or> number_of_blocks = 0 then (Inl RUNTIME_VALUE_OUT_OF_BOUNDS, volume)
                else
                  bindS (liftS (volume_key_bag_initialize None)) (\<lambda>key_bag.
                  bindS (liftS (case volume_key_bag_read_file_io_handle (xts_library lib) key_bag (io_bytes_per_sector io)
                        file_io_handle ((block_number * io_block_size io) mod 2 ^ 64)
                        ((number_of_blocks * io_block_size io) mod 2 ^ 64) (volume_identifier superblock) of
                      None \<Rightarrow> Inl OUT_OF_BOUNDS_ACCESS | Some r \<Rightarrow> r)) (\<lambda>key_bag.
                  bindS (liftS (encryption_context_initialize (xts_library lib) None METHOD_AES_128_XTS))
                    (\<lambda>encryption_context volume.
                      (Inr (), volume\<lparr>volume_bag := Some key_bag, volume_encryption := Some encryption_context,
                         volume_locked := True\<rparr>)))) volume)
            (volume\<lparr>volume_locked := container_bag_is_locked container_bag\<rparr>))"

text \<open>
  The snapshots. When their enumeration fails the tree is freed, the array stays empty and opening goes on. The
  file is the one that the volume was created with.
\<close>

definition open_volume_snapshots ::
    "('s, 'x) libraries \<Rightarrow> block_vector \<Rightarrow> 's object_map_btree \<times> 's \<Rightarrow> volume_superblock
     \<Rightarrow> ('s, 'x, snapshot_metadata list) volume_call" where
  "open_volume_snapshots lib vector object_map superblock volume =
     (if volume_snapshots volume \<noteq> None then (Inl RUNTIME_VALUE_ALREADY_SET, volume)
      else if snapshot_metadata_tree_block superblock = 0 then (Inr [], volume\<lparr>volume_snapshots := Some []\<rparr>)
      else
        bindS (liftS (snapshot_metadata_tree_initialize None (node_cache_library lib) vector (fst object_map)
                 (snapshot_metadata_tree_block superblock))) (\<lambda>tree volume.
          case snapshot_metadata_tree_get_snapshots tree (volume_transaction superblock)
                 \<lparr>snapshot_nodes = empty_node_cache lib, snapshot_object_map_nodes = snd object_map, snapshots_found = []\<rparr> of
            (r, s) \<Rightarrow>
              (if r = Inl OUT_OF_BOUNDS_ACCESS then Inl OUT_OF_BOUNDS_ACCESS else Inr (snapshots_found s),
               volume\<lparr>volume_object_map := Some (fst object_map, snapshot_object_map_nodes s),
                 volume_snapshots := Some (snapshots_found s),
                 volume_snapshot_tree := (case r of Inl _ \<Rightarrow> None | Inr _ \<Rightarrow> Some (tree, snapshot_nodes s))\<rparr>)) volume)"

text \<open>
  A sealed volume (feature 32) is read from its first snapshot: its superblock is of the type of a volume or, failing
  that, of the type of a snapshot.
\<close>

definition open_sealed_superblock ::
    "file_io \<Rightarrow> io_handle \<Rightarrow> snapshot_metadata list \<Rightarrow> volume_superblock \<Rightarrow> ('s, 'x, volume_superblock) volume_call" where
  "open_sealed_superblock file_io_handle io snapshots superblock =
     (if volume_incompatible_features superblock AND 0x0000000000000020 = 0 then returnS superblock
      else case snapshots of
        [] \<Rightarrow> returnS superblock
      | snapshot # _ \<Rightarrow>
          let file_offset = (snapshot_superblock_block_number snapshot * io_block_size io) mod 2 ^ 64
          in bindS (liftS (volume_superblock_initialize None)) (\<lambda>initial.
             bindS (liftS (case volume_superblock_read_file_io_handle initial file_io_handle file_offset False of
                   Inr superblock \<Rightarrow> Inr superblock
                 | Inl e \<Rightarrow>
                     if e = OUT_OF_BOUNDS_ACCESS then Inl e
                     else volume_superblock_read_file_io_handle initial file_io_handle file_offset True))
               (\<lambda>superblock volume. (Inr superblock, volume\<lparr>volume_super := Some superblock\<rparr>))))"

text \<open>The blocks of the file system, decrypted with the encryption context of the time.\<close>

definition file_system_blocks ::
    "('s, 'x) libraries \<Rightarrow> file_io \<Rightarrow> io_handle \<Rightarrow> 'x encryption_context option \<Rightarrow> block_vector result" where
  "file_system_blocks lib file_io_handle io encryption_context =
     bindR (file_system_data_handle_initialize None io encryption_context None) (\<lambda>handle.
       vector_library lib (\<lambda>offset n. file_system_data_handle_read_data_block (xts_library lib) file_io_handle handle 0 offset n False)
         (io_block_size io) (io_container_size io))"

definition open_file_system_blocks ::
    "('s, 'x) libraries \<Rightarrow> file_io \<Rightarrow> io_handle \<Rightarrow> volume_superblock \<Rightarrow> ('s, 'x, unit) volume_call" where
  "open_file_system_blocks lib file_io_handle io superblock volume =
     (if root_tree_identifier superblock = 0 then (Inl RUNTIME_VALUE_OUT_OF_BOUNDS, volume)
      else
        bindS (liftS (file_system_blocks lib file_io_handle io (volume_encryption volume))) (\<lambda>_ volume.
          (Inr (), volume\<lparr>volume_file_blocks := Some (file_system_blocks lib file_io_handle io)\<rparr>)) volume)"

text \<open>A failure frees what was set; the snapshots only together with their tree.\<close>

definition clear_failed_volume :: "('s, 'x) internal_volume \<Rightarrow> ('s, 'x) internal_volume" where
  "clear_failed_volume volume =
     volume\<lparr>volume_file_blocks := None, volume_encryption := None, volume_bag := None,
       volume_snapshots := (if volume_snapshot_tree volume \<noteq> None then None else volume_snapshots volume),
       volume_snapshot_tree := None, volume_object_map := None, volume_vector := None, volume_super := None\<rparr>"

definition open_volume_parts :: "('s, 'x) libraries \<Rightarrow> file_io \<Rightarrow> nat \<Rightarrow> io_handle \<Rightarrow> ('s, 'x, unit) volume_call" where
  "open_volume_parts lib file_io_handle file_offset io =
     bindS (open_volume_superblock file_io_handle file_offset) (\<lambda>superblock.
     bindS (open_volume_object_map lib file_io_handle io superblock) (\<lambda>(vector, object_map).
     bindS (open_volume_key_bag lib file_io_handle io superblock) (\<lambda>_.
     bindS (open_volume_snapshots lib vector object_map superblock) (\<lambda>snapshots.
     bindS (open_sealed_superblock file_io_handle io snapshots superblock) (\<lambda>superblock.
       open_file_system_blocks lib file_io_handle io superblock)))))"

definition internal_volume_open_read ::
    "('s, 'x) libraries \<Rightarrow> file_io \<Rightarrow> nat \<Rightarrow> ('s, 'x, unit) volume_call" where
  "internal_volume_open_read lib file_io_handle file_offset volume =
     (case check_volume_unset volume of
        Inl e \<Rightarrow> (Inl e, volume)
      | Inr io \<Rightarrow>
          (case open_volume_parts lib file_io_handle file_offset io volume of
             (Inl e, volume) \<Rightarrow> (Inl e, clear_failed_volume volume)
           | (Inr _, volume) \<Rightarrow> (Inr (), volume)))"

section \<open>Closing\<close>

definition internal_volume_close :: "('s, 'x, unit) volume_call" where
  "internal_volume_close volume =
     (if volume_io volume = None then (Inl RUNTIME_VALUE_MISSING, volume)
      else
        (Inr (), volume\<lparr>volume_file := None, volume_locked := True, volume_user_password := None, volume_user_password_size := 0,
           volume_recovery_password := None, volume_recovery_password_size := 0, volume_super := None, volume_vector := None,
           volume_object_map := None, volume_snapshot_tree := None, volume_snapshots := None, volume_bag := None,
           volume_encryption := None, volume_file_blocks := None, volume_file_system := None\<rparr>))"

section \<open>Passwords\<close>

text \<open>The number of units before the first zero; without one the string is read behind its end.\<close>

fun string_length :: "bytes \<Rightarrow> nat result" where
  "string_length [] = Inl OUT_OF_BOUNDS_ACCESS"
| "string_length (c # cs) = (if c = 0 then Inr 0 else bindR (string_length cs) (\<lambda>n. Inr (n + 1)))"

text \<open>
  The password with its size: the buffer has the length of the string up to its first zero and one byte more, and as many bytes as
  the caller says are copied into it. The bytes that a new buffer holds are a parameter.
\<close>

definition copied_password :: "(nat \<Rightarrow> bytes) \<Rightarrow> bytes \<Rightarrow> nat \<Rightarrow> (bytes \<times> nat) result" where
  "copied_password fresh utf8_string utf8_string_length =
     bindR (string_length utf8_string) (\<lambda>n.
       if n = 0 \<or> n > MEMORY_MAXIMUM_ALLOCATION_SIZE - 1 then Inl RUNTIME_VALUE_OUT_OF_BOUNDS
       else
         bindR (rd_slice utf8_string 0 utf8_string_length) (\<lambda>data.
         bindR (wr_slice (fresh (n + 1)) 0 data) (\<lambda>password.
         bindR (wr password n 0) (\<lambda>password. Inr (password, n + 1)))))"

definition volume_set_utf8_password :: "(nat \<Rightarrow> bytes) \<Rightarrow> bytes \<Rightarrow> nat \<Rightarrow> ('s, 'x, unit) volume_call" where
  "volume_set_utf8_password fresh utf8_string utf8_string_length volume =
     (case copied_password fresh utf8_string utf8_string_length of
        Inl e \<Rightarrow> (Inl e, volume\<lparr>volume_user_password := None, volume_user_password_size := 0\<rparr>)
      | Inr (password, password_size) \<Rightarrow>
          (Inr (), volume\<lparr>volume_user_password := Some password, volume_user_password_size := password_size\<rparr>))"

definition volume_set_utf8_recovery_password :: "(nat \<Rightarrow> bytes) \<Rightarrow> bytes \<Rightarrow> nat \<Rightarrow> ('s, 'x, unit) volume_call" where
  "volume_set_utf8_recovery_password fresh utf8_string utf8_string_length volume =
     (case copied_password fresh utf8_string utf8_string_length of
        Inl e \<Rightarrow> (Inl e, volume\<lparr>volume_recovery_password := None, volume_recovery_password_size := 0\<rparr>)
      | Inr (password, password_size) \<Rightarrow>
          (Inr (), volume\<lparr>volume_recovery_password := Some password, volume_recovery_password_size := password_size\<rparr>))"

section \<open>Unlocking\<close>

text \<open>What unlocking uses of the volume.\<close>

definition lock_of :: "volume_superblock \<Rightarrow> ('s, 'x) internal_volume \<Rightarrow> 'x volume_lock" where
  "lock_of superblock volume =
     \<lparr>lock_volume_identifier = volume_identifier superblock, lock_container_key_bag = volume_container_keys volume,
       lock_key_bag = volume_bag volume, lock_encryption_context = volume_encryption volume, lock_is_locked = volume_locked volume,
       user_password = volume_user_password volume, user_password_size = volume_user_password_size volume,
       recovery_password = volume_recovery_password volume, recovery_password_size = volume_recovery_password_size volume\<rparr>"

definition unlock_opened_volume ::
    "'x xts_operations \<Rightarrow> 'a aes_operations \<Rightarrow> hash_operations \<Rightarrow> ('s, 'x, bool) volume_call" where
  "unlock_opened_volume xts aes hash volume =
     (case volume_super volume of
        None \<Rightarrow> (Inl RUNTIME_VALUE_MISSING, volume)
      | Some superblock \<Rightarrow>
          (case internal_volume_unlock xts aes hash (lock_of superblock volume) of
             Inl e \<Rightarrow> (Inl e, volume)
           | Inr (result, lock) \<Rightarrow>
               (Inr result, volume\<lparr>volume_encryption := lock_encryption_context lock, volume_locked := lock_is_locked lock\<rparr>)))"

definition volume_unlock ::
    "'x xts_operations \<Rightarrow> 'a aes_operations \<Rightarrow> hash_operations \<Rightarrow> ('s, 'x, bool) volume_call" where
  "volume_unlock xts aes hash volume = (if volume_locked volume then unlock_opened_volume xts aes hash volume else (Inr True, volume))"

section \<open>Values of an open volume\<close>

definition volume_is_locked :: "('s, 'x) internal_volume \<Rightarrow> bool" where
  "volume_is_locked volume = volume_locked volume"

definition volume_get_features_flags :: "('s, 'x) internal_volume \<Rightarrow> (nat \<times> nat \<times> nat) result" where
  "volume_get_features_flags volume =
     (case volume_super volume of
        None \<Rightarrow> Inl RUNTIME_VALUE_MISSING
      | Some superblock \<Rightarrow> Inr (volume_compatible_features superblock, volume_incompatible_features superblock,
          volume_read_only_compatible_features superblock))"

definition volume_get_identifier :: "('s, 'x) internal_volume \<Rightarrow> bytes \<Rightarrow> nat \<Rightarrow> bytes result" where
  "volume_get_identifier volume uuid_data uuid_data_size =
     (case volume_super volume of
        None \<Rightarrow> Inl RUNTIME_VALUE_MISSING
      | Some superblock \<Rightarrow> volume_superblock_get_volume_identifier superblock uuid_data uuid_data_size)"

text \<open>The superblock is not checked.\<close>

definition volume_get_next_file_entry_identifier :: "('s, 'x) internal_volume \<Rightarrow> nat result" where
  "volume_get_next_file_entry_identifier volume =
     (case volume_super volume of
        None \<Rightarrow> Inl OUT_OF_BOUNDS_ACCESS
      | Some superblock \<Rightarrow> Inr (next_object_identifier superblock))"

definition volume_get_number_of_snapshots :: "('s, 'x) internal_volume \<Rightarrow> nat result" where
  "volume_get_number_of_snapshots volume =
     (case volume_snapshots volume of None \<Rightarrow> Inl ARGUMENT_INVALID_VALUE | Some snapshots \<Rightarrow> Inr (length snapshots))"

end
