(* ===== verification/Volume_States.thy ===== *)
theory Volume_States
  imports Volume_Open
begin

text \<open>
  The states of a volume: what opening, closing and unlocking keep and leave, that opening is safe for any file, and that
  the password that was set is the one that unlocks.
\<close>

section \<open>States\<close>

definition volume_unopened :: "('s, 'x) internal_volume \<Rightarrow> bool" where
  "volume_unopened v \<longleftrightarrow> volume_super v = None \<and> volume_vector v = None \<and> volume_object_map v = None \<and>
     volume_snapshot_tree v = None \<and> volume_bag v = None \<and> volume_encryption v = None \<and> volume_file_blocks v = None \<and>
     volume_file_system v = None"

definition volume_opened :: "('s, 'x) internal_volume \<Rightarrow> bool" where
  "volume_opened v \<longleftrightarrow> (\<exists>superblock. volume_super v = Some superblock \<and> root_tree_identifier superblock \<noteq> 0) \<and>
     volume_vector v \<noteq> None \<and> volume_object_map v \<noteq> None \<and> volume_snapshots v \<noteq> None \<and> volume_file_blocks v \<noteq> None \<and>
     (volume_bag v \<noteq> None \<longrightarrow> volume_encryption v \<noteq> None \<and> volume_container_keys v \<noteq> None)"

text \<open>
  What the libraries promise: a cache that starts empty, and a vector whose elements are read with the callback.
\<close>

definition libraries_lawful :: "('s, 'x) libraries \<Rightarrow> ('s \<Rightarrow> nat \<rightharpoonup> btree_node) \<Rightarrow> bool" where
  "libraries_lawful lib contents \<longleftrightarrow>
     cache_laws (node_cache_library lib) contents \<and> contents (empty_node_cache lib) = Map.empty \<and>
     xts_well_behaved (xts_library lib) \<and> vector_safe lib \<and>
     (\<forall>read n m vector. vector_library lib read n m = Inr vector \<longrightarrow> n dvd m \<longrightarrow> (\<forall>i. safe (read i n)) \<longrightarrow> (\<forall>i. safe (vector i)))"

definition volume_valid :: "('s \<Rightarrow> nat \<rightharpoonup> btree_node) \<Rightarrow> ('s, 'x) internal_volume \<Rightarrow> bool" where
  "volume_valid contents v \<longleftrightarrow>
     (\<exists>io. volume_io v = Some io \<and> io_bytes_per_sector io = 512 \<and> io_block_size io = 4096 \<and> 4096 dvd io_container_size io) \<and>
     (\<forall>tree nodes. volume_object_map v = Some (tree, nodes) \<longrightarrow> tree_valid tree contents nodes) \<and>
     (\<forall>bag. volume_container_keys v = Some bag \<longrightarrow> (\<forall>e\<in>set (container_bag_entries bag). bag_entry_wf e)) \<and>
     (\<forall>blocks context vector. volume_file_blocks v = Some blocks \<longrightarrow> blocks context = Inr vector \<longrightarrow> (\<forall>i. safe (vector i)))"

section \<open>Safety\<close>

lemma data_block_read_safe:
  assumes "\<forall>i n. safe (f i n)" "xts_well_behaved xts" "io_bytes_per_sector io = 512" "512 dvd block_data_size block"
    and "\<And>d. block_data block = Some d \<Longrightarrow> length d = block_data_size block"
  shows "safe (data_block_read xts block io context f off i)"
proof (cases "block_data block")
  case (Some d)
  have read: "post lib_error (\<lambda>r. length r = block_data_size block) (read_buffer_at_offset f off (block_data_size block))"
    unfolding read_buffer_at_offset_def
    by (rule post_bindR [where P = "\<lambda>_. True"]) (use assms(1) in \<open>auto simp: safe_post\<close>)
  have crypt: "safe (crypt_outcome (encryption_context_crypt xts c mode r (block_data_size block) d (block_data_size block) k 512))"
    if len: "length r = block_data_size block" for c mode r k
  proof -
    from encryption_context_crypt_safe [OF assms(2) _ assms(4), of r d c mode "block_data_size block" k] obtain x where
      "encryption_context_crypt xts c mode r (block_data_size block) d (block_data_size block) k 512 = Some x"
      "post (\<lambda>(e, _). lib_error e) (\<lambda>y. length y = length d) x"
      using len assms(5) [OF Some] by auto
    then show ?thesis by (cases x) (auto simp: crypt_outcome_def safe_def lib_error_def)
  qed
  then show ?thesis
    using Some assms(3) read crypt by (auto simp: data_block_read_def Let_def safe_post split: option.splits intro!: post_bindR)
qed (simp add: data_block_read_def)

lemma container_block_safe:
  assumes "\<forall>i n. safe (f i n)" "xts_well_behaved xts" "io_bytes_per_sector io = 512"
  shows "safe (container_data_handle_read_data_block xts f io off 4096)"
proof -
  have "safe (data_block_read xts \<lparr>block_data = Some (replicate 4096 0), block_data_size = 4096\<rparr> io None f off 0)"
    by (rule data_block_read_safe [OF assms]) simp_all
  then show ?thesis
    by (simp add: container_data_handle_read_data_block_def data_block_initialize_def)
qed

lemma file_system_block_safe:
  assumes "\<forall>i n. safe (f i n)" "xts_well_behaved xts" "io_bytes_per_sector (handle_io handle) = 512" "handle_file_extents handle = None"
  shows "safe (file_system_data_handle_read_data_block xts f handle 0 off 4096 False)"
proof -
  have "safe (data_block_read xts \<lparr>block_data = Some (replicate 4096 0), block_data_size = 4096\<rparr> (handle_io handle)
      (handle_encryption_context handle) f off i)" for i
    by (rule data_block_read_safe [OF assms(1-3)]) simp_all
  then show ?thesis
    by (simp add: file_system_data_handle_read_data_block_def data_block_initialize_def Let_def assms(4))
qed

lemma container_blocks_elements_safe:
  assumes "libraries_lawful lib contents" "\<forall>i n. safe (f i n)" "io_bytes_per_sector io = 512" "io_block_size io = 4096"
    and "4096 dvd io_container_size io" "container_blocks lib f io = Inr vector"
  shows "safe (vector i)"
proof -
  have xts: "xts_well_behaved (xts_library lib)"
    and law: "\<And>read n m vector. vector_library lib read n m = Inr vector \<Longrightarrow> n dvd m \<Longrightarrow> \<forall>i. safe (read i n) \<Longrightarrow> \<forall>i. safe (vector i)"
    using assms(1) unfolding libraries_lawful_def by blast+
  have "vector_library lib (container_data_handle_read_data_block (xts_library lib) f io) 4096 (io_container_size io) = Inr vector"
    using assms(4,6) by (simp add: container_blocks_def container_data_handle_initialize_def)
  from law [OF this assms(5)] show ?thesis using container_block_safe [OF assms(2) xts assms(3)] by blast
qed

lemma file_system_blocks_elements_safe:
  assumes "libraries_lawful lib contents" "\<forall>i n. safe (f i n)" "io_bytes_per_sector io = 512" "io_block_size io = 4096"
    and "4096 dvd io_container_size io" "file_system_blocks lib f io context = Inr vector"
  shows "safe (vector i)"
proof -
  have xts: "xts_well_behaved (xts_library lib)"
    and law: "\<And>read n m vector. vector_library lib read n m = Inr vector \<Longrightarrow> n dvd m \<Longrightarrow> \<forall>i. safe (read i n) \<Longrightarrow> \<forall>i. safe (vector i)"
    using assms(1) unfolding libraries_lawful_def by blast+
  let ?handle = "\<lparr>handle_io = io, handle_encryption_context = context, handle_file_extents = None\<rparr>"
  have "vector_library lib (\<lambda>offset n. file_system_data_handle_read_data_block (xts_library lib) f ?handle 0 offset n False)
      4096 (io_container_size io) = Inr vector"
    using assms(4,6) by (simp add: file_system_blocks_def file_system_data_handle_initialize_def)
  from law [OF this assms(5)] show ?thesis using file_system_block_safe [OF assms(2) xts, of ?handle] assms(3) by simp
qed

lemma volume_superblock_reading_safe:
  assumes "\<forall>i n. safe (f i n)"
  shows "post lib_error (\<lambda>_. True) (volume_superblock_read_file_io_handle superblock f off snap)"
proof -
  have "safe (volume_superblock_read_file_io_handle superblock f off snap)"
    unfolding volume_superblock_read_file_io_handle_def
    by (rule safe_bindR [OF read_buffer_at_offset_safe]) (use assms in \<open>simp, metis read_buffer_at_offset_length volume_superblock_read_data_safe\<close>)
  then show ?thesis by (simp add: safe_post)
qed

text \<open>A volume that is being opened with a file and the blocks of a container.\<close>

definition opening_context :: "('s, 'x) libraries \<Rightarrow> ('s \<Rightarrow> nat \<rightharpoonup> btree_node) \<Rightarrow> file_io \<Rightarrow> io_handle \<Rightarrow> bool" where
  "opening_context lib contents f io \<longleftrightarrow> libraries_lawful lib contents \<and> (\<forall>i n. safe (f i n)) \<and>
     io_bytes_per_sector io = 512 \<and> io_block_size io = 4096 \<and> 4096 dvd io_container_size io"

definition volume_during :: "('s \<Rightarrow> nat \<rightharpoonup> btree_node) \<Rightarrow> io_handle \<Rightarrow> ('s, 'x) internal_volume \<Rightarrow> bool" where
  "volume_during contents io v \<longleftrightarrow> volume_valid contents v \<and> volume_io v = Some io"

lemma volume_during_updates [simp]:
  "volume_during contents io (v\<lparr>volume_super := a\<rparr>) = volume_during contents io v"
  "volume_during contents io (v\<lparr>volume_vector := b\<rparr>) = volume_during contents io v"
  "volume_during contents io (v\<lparr>volume_snapshot_tree := c\<rparr>) = volume_during contents io v"
  "volume_during contents io (v\<lparr>volume_snapshots := d\<rparr>) = volume_during contents io v"
  "volume_during contents io (v\<lparr>volume_bag := e\<rparr>) = volume_during contents io v"
  "volume_during contents io (v\<lparr>volume_encryption := g\<rparr>) = volume_during contents io v"
  "volume_during contents io (v\<lparr>volume_locked := h\<rparr>) = volume_during contents io v"
  by (simp_all add: volume_during_def volume_valid_def)

lemma volume_during_object_map:
  "volume_during contents io v \<Longrightarrow> tree_valid (fst m) contents (snd m) \<Longrightarrow>
   volume_during contents io (v\<lparr>volume_object_map := Some m\<rparr>)"
  by (auto simp: volume_during_def volume_valid_def)

lemma superblock_step:
  assumes "opening_context lib contents f io" "volume_during contents io v"
  shows "call_safe (volume_during contents io) (\<lambda>_. True) (open_volume_superblock f off v)"
proof -
  obtain initial where initial: "volume_superblock_initialize None = Inr initial" by (simp add: volume_superblock_initialize_def)
  have "\<forall>i n. safe (f i n)" using assms(1) by (simp add: opening_context_def)
  from volume_superblock_reading_safe [OF this, of initial off False] show ?thesis
    using assms(2)
    by (cases "volume_superblock_read_file_io_handle initial f off False")
      (simp_all add: open_volume_superblock_def initial bindS_liftS)
qed

lemma object_map_step:
  assumes "opening_context lib contents f io" "volume_during contents io v"
  shows "call_safe (volume_during contents io)
    (\<lambda>(vector, tree, nodes). (\<forall>i. safe (vector i)) \<and> tree_valid tree contents nodes)
    (open_volume_object_map lib f io superblock v)"
proof -
  have c: "libraries_lawful lib contents" "\<forall>i n. safe (f i n)" "io_bytes_per_sector io = 512" "io_block_size io = 4096"
    "4096 dvd io_container_size io" using assms(1) by (auto simp: opening_context_def)
  show ?thesis
  proof (cases "container_blocks lib f io")
    case (Inl e)
    have "safe (container_blocks lib f io)" using c(1) by (intro container_blocks_safe) (simp add: libraries_lawful_def)
    then show ?thesis using Inl assms by (simp add: open_volume_object_map_def bindS_liftS lib_error_def)
  next
    case vector: (Inr vector)
    have blocks: "\<forall>i. safe (vector i)" using container_blocks_elements_safe [OF c vector] by blast
    have om: "safe (open_object_map lib f io vector (volume_object_map_block superblock))"
      using c(2) by (intro open_object_map_safe) simp
    show ?thesis
    proof (cases "open_object_map lib f io vector (volume_object_map_block superblock)")
      case (Inl e)
      then show ?thesis
        using vector om assms
        by (simp add: open_volume_object_map_def bindS_liftS lib_error_def)
    next
      case (Inr object_map)
      then obtain root where map: "object_map = (\<lparr>node_cache = node_cache_library lib, data_block_vector = vector,
          root_node_block_number = root\<rparr>, empty_node_cache lib)"
        by (auto simp: open_object_map_def object_map_btree_initialize_def bindR_eq_Inr split: if_splits)
      then have "tree_valid (fst object_map) contents (snd object_map)"
        using c(1) blocks by (simp add: tree_valid_def cache_valid_def libraries_lawful_def coherent_def)
      then show ?thesis
        using vector Inr assms blocks
        by (auto simp: open_volume_object_map_def bindS_liftS intro!: volume_during_object_map split: prod.splits)
    qed
  qed
qed

lemma key_bag_extent_safe:
  "\<forall>e\<in>set entries. bag_entry_wf e \<Longrightarrow> post lib_error (\<lambda>_. True) (volume_key_bag_extent_of_entries uuid entries)"
  by (induction entries) (auto simp: bag_entry_wf_def split: option.splits intro!: post_bindR)

lemma key_bag_reading_safe:
  assumes "opening_context lib contents f io" "volume_bag_entries key_bag = []"
  shows "\<exists>r. volume_key_bag_read_file_io_handle (xts_library lib) key_bag (io_bytes_per_sector io) f off
      ((number_of_blocks * io_block_size io) mod 2 ^ 64) uuid = Some r \<and> post lib_error (\<lambda>_. True) r"
proof -
  have c: "xts_well_behaved (xts_library lib)" "\<forall>i n. safe (f i n)" "io_bytes_per_sector io = 512" "io_block_size io = 4096"
    using assms(1) by (auto simp: opening_context_def libraries_lawful_def)
  define m where "m = (number_of_blocks * io_block_size io) mod 2 ^ 64"
  have "512 dvd m" unfolding m_def c by (intro dvd_mod dvd_mult) simp_all
  then obtain r where r: "read_encrypted_bag (xts_library lib) 512 f off m uuid = Some r" "post lib_error (\<lambda>d. length d = m) r"
    using read_encrypted_bag_safe [of "xts_library lib" f 512 m off uuid] c by auto
  have "post lib_error (\<lambda>_. True) (bindR r (\<lambda>data. volume_key_bag_read_data key_bag data m))"
  proof (cases r)
    case (Inr d)
    then have "m \<le> length d" using r(2) by simp
    from volume_key_bag_read_data_post [OF this assms(2)] show ?thesis using Inr by (auto intro: post_weaken)
  qed (use r(2) in simp)
  then show ?thesis using r(1) by (simp add: volume_key_bag_read_file_io_handle_def c(3) m_def)
qed

lemma key_bag_step:
  assumes "opening_context lib contents f io" "volume_during contents io v"
  shows "call_safe (volume_during contents io) (\<lambda>_. True) (open_volume_key_bag lib f io superblock v)"
proof (cases "if volume_flags superblock AND 0x00000001 = 0 then volume_container_keys v else None")
  case None
  then show ?thesis using assms(2) by (simp add: open_volume_key_bag_def)
next
  case (Some bag)
  let ?v = "v\<lparr>volume_locked := container_bag_is_locked bag\<rparr>"
  have v: "volume_during contents io ?v" using assms(2) by simp
  have "volume_container_keys v = Some bag" using Some by (simp split: if_splits)
  then have "\<forall>e\<in>set (container_bag_entries bag). bag_entry_wf e"
    using assms(2) by (simp add: volume_during_def volume_valid_def)
  then have extent: "post lib_error (\<lambda>_. True)
      (container_key_bag_get_volume_key_bag_extent_by_identifier bag (volume_identifier superblock))"
    by (simp add: container_key_bag_get_volume_key_bag_extent_by_identifier_def key_bag_extent_safe)
  obtain start where start: "volume_key_bag_initialize None = Inr start" "volume_bag_entries start = []"
    by (rule that [of "\<lparr>volume_bag_entries = []\<rparr>"]) (simp_all add: volume_key_bag_initialize_def)
  have bag_read: "post lib_error (\<lambda>_. True) (case volume_key_bag_read_file_io_handle (xts_library lib) start (io_bytes_per_sector io) f off
      (b * io_block_size io mod 18446744073709551616) uuid of None \<Rightarrow> Inl OUT_OF_BOUNDS_ACCESS | Some r \<Rightarrow> r)" for off b uuid
    using key_bag_reading_safe [OF assms(1) start(2), of off b uuid] by auto
  have context_safe: "post lib_error (\<lambda>_. True) (encryption_context_initialize (xts_library lib) None METHOD_AES_128_XTS)"
  proof -
    have "safe (tweaked_context_initialize (xts_library lib))"
      using assms(1) by (simp add: opening_context_def libraries_lawful_def xts_well_behaved_def)
    then show ?thesis by (auto simp: encryption_context_initialize_def safe_post intro!: post_bindR)
  qed
  show ?thesis
    unfolding open_volume_key_bag_def Some option.case
    by (rule call_safe_bindS, rule call_safe_liftS, rule v, rule extent)
      (auto simp: start(1) bag_read split: option.split [where option = "_ :: (nat \<times> nat) option"]
        intro!: call_safe_bindS [where P = "\<lambda>_. True"] call_safe_liftS context_safe)
qed

lemma snapshots_step:
  assumes "opening_context lib contents f io" "volume_during contents io v" "\<forall>i. safe (vector i)"
    and "tree_valid tree contents nodes"
  shows "call_safe (volume_during contents io) (\<lambda>_. True) (open_volume_snapshots lib vector (tree, nodes) superblock v)"
proof (cases "volume_snapshots v \<noteq> None \<or> snapshot_metadata_tree_block superblock = 0")
  case True
  then show ?thesis using assms(2) by (auto simp: open_volume_snapshots_def)
next
  case False
  let ?tree = "\<lparr>snapshot_node_cache = node_cache_library lib, snapshot_data_block_vector = vector, snapshot_object_map_btree = tree,
      snapshot_root_node_block_number = snapshot_metadata_tree_block superblock\<rparr>"
  let ?s = "\<lparr>snapshot_nodes = empty_node_cache lib, snapshot_object_map_nodes = nodes, snapshots_found = []\<rparr>"
  have "snapshot_tree_valid ?tree contents contents ?s"
    using assms(1,3,4) by (simp add: snapshot_tree_valid_def snapshot_state_valid_def opening_context_def libraries_lawful_def
        coherent_def tree_valid_def)
  note run = get_snapshots_safe [OF this, of "volume_transaction superblock"]
  obtain r s where rs: "snapshot_metadata_tree_get_snapshots ?tree (volume_transaction superblock) ?s = (r, s)" by fastforce
  have s: "snapshot_tree_valid ?tree contents contents s" "post lib_error (\<lambda>_. True) r"
    using run by (simp_all add: call_safe_def rs)
  then have "tree_valid tree contents (snapshot_object_map_nodes s)"
    by (simp add: snapshot_tree_valid_def snapshot_state_valid_def tree_valid_def)
  then show ?thesis
    using False assms(2) s(2) rs
    by (auto simp: open_volume_snapshots_def snapshot_metadata_tree_initialize_def call_safe_def lib_error_def
        intro!: volume_during_object_map)
qed

lemma sealed_step:
  assumes "opening_context lib contents f io" "volume_during contents io v"
  shows "call_safe (volume_during contents io) (\<lambda>_. True) (open_sealed_superblock f io snapshots superblock v)"
proof -
  obtain initial where initial: "volume_superblock_initialize None = Inr initial" by (simp add: volume_superblock_initialize_def)
  have "\<forall>i n. safe (f i n)" using assms(1) by (simp add: opening_context_def)
  note read = volume_superblock_reading_safe [OF this, of initial]
  have both: "post lib_error (\<lambda>_. True) (case volume_superblock_read_file_io_handle initial f off False of
       Inr superblock \<Rightarrow> Inr superblock
     | Inl e \<Rightarrow> if e = OUT_OF_BOUNDS_ACCESS then Inl e else volume_superblock_read_file_io_handle initial f off True)" for off
    using read [of off False] read [of off True] by (auto split: sum.splits)
  show ?thesis
    using assms(2) both
    by (auto simp: open_sealed_superblock_def initial Let_def split: list.splits
        intro!: call_safe_bindS [where P = "\<lambda>_. True"] call_safe_liftS)
qed

lemma file_blocks_step:
  assumes "opening_context lib contents f io" "volume_during contents io v"
  shows "call_safe (volume_during contents io) (\<lambda>_. True) (open_file_system_blocks lib f io superblock v)"
proof -
  have c: "libraries_lawful lib contents" "\<forall>i n. safe (f i n)" "io_bytes_per_sector io = 512" "io_block_size io = 4096"
    "4096 dvd io_container_size io" using assms(1) by (auto simp: opening_context_def)
  have "safe (file_system_blocks lib f io ec)" for ec
    using c(1) by (simp add: file_system_blocks_def file_system_data_handle_initialize_def libraries_lawful_def vector_safe_def)
  moreover have "volume_during contents io (w\<lparr>volume_file_blocks := Some (file_system_blocks lib f io)\<rparr>)"
    if "volume_during contents io w" for w
    using that file_system_blocks_elements_safe [OF c] by (auto simp: volume_during_def volume_valid_def)
  ultimately show ?thesis
    using assms(2) by (auto simp: open_file_system_blocks_def safe_post intro!: call_safe_bindS [where P = "\<lambda>_. True"] call_safe_liftS)
qed

lemma open_parts_safe:
  assumes "opening_context lib contents f io" "volume_during contents io v"
  shows "call_safe (volume_during contents io) (\<lambda>_. True) (open_volume_parts lib f off io v)"
  unfolding open_volume_parts_def
proof (rule call_safe_bindS, rule superblock_step [OF assms], rule call_safe_bindS, erule object_map_step [OF assms(1)], goal_cases)
  case (1 superblock v1 parts v2)
  obtain vector tree nodes where parts: "parts = (vector, tree, nodes)" by (metis prod_cases3)
  have p: "\<forall>i. safe (vector i)" "tree_valid tree contents nodes" using 1(4) by (auto simp: parts)
  show ?case
    unfolding parts prod.case
    by (rule call_safe_bindS, rule key_bag_step [OF assms(1) 1(3)], rule call_safe_bindS, erule snapshots_step [OF assms(1) _ p],
        rule call_safe_bindS, erule sealed_step [OF assms(1)], erule file_blocks_step [OF assms(1)])
qed

lemma clear_failed_valid: "volume_valid contents v \<Longrightarrow> volume_valid contents (clear_failed_volume v)"
  by (simp add: volume_valid_def clear_failed_volume_def)

lemma open_read_safe:
  assumes "libraries_lawful lib contents" "\<forall>i n. safe (f i n)" "volume_valid contents v"
  shows "call_safe (volume_valid contents) (\<lambda>_. True) (internal_volume_open_read lib f off v)"
proof (cases "check_volume_unset v")
  case (Inl e)
  then show ?thesis
    using assms(3) by (auto simp: internal_volume_open_read_def check_volume_unset_def split: option.splits if_splits)
next
  case (Inr io)
  then have io: "volume_io v = Some io" by (auto simp: check_volume_unset_def split: option.splits if_splits)
  then have "opening_context lib contents f io" "volume_during contents io v"
    using assms by (auto simp: opening_context_def volume_during_def volume_valid_def)
  from open_parts_safe [OF this, of off] show ?thesis
    using Inr clear_failed_valid by (auto simp: internal_volume_open_read_def call_safe_def volume_during_def split: prod.splits sum.splits)
qed

section \<open>What opening leaves\<close>

lemma bindS_keeps:
  assumes "\<And>s. g (snd (m s)) = g s" "\<And>x s. g (snd (k x s)) = g s"
  shows "g (snd (bindS m k s)) = g s"
  using assms(1) [of s] assms(2) by (auto simp: bindS_def split: prod.splits sum.splits)

lemma bindS_liftS_keeps: "(\<And>x. g (snd (k x s)) = g s) \<Longrightarrow> g (snd (bindS (liftS r) k s)) = g s"
  by (cases r) simp_all

lemma bindS_Inr: "bindS m k s = (Inr y, s') \<longleftrightarrow> (\<exists>x t. m s = (Inr x, t) \<and> k x t = (Inr y, s'))"
  by (auto simp: bindS_def split: prod.splits sum.splits)

lemma liftS_Inr: "bindS (liftS r) k s = (Inr y, s') \<longleftrightarrow> (\<exists>x. r = Inr x \<and> k x s = (Inr y, s'))"
  by (cases r) simp_all

lemma option_case_eq: "(case x of None \<Rightarrow> a | Some y \<Rightarrow> k y) = z \<longleftrightarrow> (x = None \<and> a = z) \<or> (\<exists>y. x = Some y \<and> k y = z)"
  by (cases x) simp_all

text \<open>The members that opening does not set.\<close>

definition outside :: "('s, 'x) internal_volume \<Rightarrow>
    (('s, 's) file_system_btree \<times> 's \<times> nat) option \<times> container_key_bag option \<times> io_handle option \<times>
    bytes option \<times> nat \<times> bytes option \<times> nat" where
  "outside v = (volume_file_system v, volume_container_keys v, volume_io v, volume_user_password v, volume_user_password_size v,
     volume_recovery_password v, volume_recovery_password_size v)"

lemma open_parts_outside: "outside (snd (open_volume_parts lib f off io v)) = outside v"
  unfolding open_volume_parts_def
proof (rule bindS_keeps, goal_cases)
  case (1 v)
  show ?case unfolding open_volume_superblock_def by (intro bindS_liftS_keeps) (simp add: outside_def)
next
  case (2 superblock v)
  show ?case
  proof (rule bindS_keeps, goal_cases)
    case (1 v)
    show ?case by (auto simp: open_volume_object_map_def bindS_liftS outside_def split: sum.splits)
  next
    case (2 parts v)
    show ?case
      unfolding split_beta
    proof (rule bindS_keeps, goal_cases)
      case (1 v)
      show ?case
        by (auto simp: open_volume_key_bag_def bindS_liftS outside_def split: sum.splits option.splits if_splits)
    next
      case (2 u v)
      show ?case
      proof (rule bindS_keeps, goal_cases)
        case (1 v)
        show ?case
          by (auto simp: open_volume_snapshots_def bindS_liftS outside_def split: sum.splits prod.splits)
      next
        case (2 snapshots v)
        show ?case
        proof (rule bindS_keeps, goal_cases)
          case (1 v)
          show ?case
            by (auto simp: open_sealed_superblock_def Let_def bindS_liftS outside_def split: sum.splits list.splits if_splits)
        next
          case (2 superblock v)
          show ?case by (auto simp: open_file_system_blocks_def bindS_liftS outside_def split: sum.splits)
        qed
      qed
    qed
  qed
qed

lemma key_bag_outcome:
  assumes "open_volume_key_bag lib f io superblock v = (Inr (), v')"
  shows "\<exists>b e l. v' = v\<lparr>volume_bag := b, volume_encryption := e, volume_locked := l\<rparr> \<and>
    ((b = volume_bag v \<and> e = volume_encryption v) \<or> (b \<noteq> None \<and> e \<noteq> None \<and> volume_container_keys v \<noteq> None))"
proof (cases "if volume_flags superblock AND 0x00000001 = 0 then volume_container_keys v else None")
  case None
  then have "v' = v\<lparr>volume_locked := False\<rparr>" using assms unfolding open_volume_key_bag_def by simp
  then show ?thesis by (intro exI [of _ "volume_bag v"] exI [of _ "volume_encryption v"] exI [of _ False]) simp
next
  case (Some bag)
  have keys: "volume_container_keys v = Some bag" using Some by (simp split: if_splits)
  let ?v = "v\<lparr>volume_locked := container_bag_is_locked bag\<rparr>"
  obtain extent where extent: "container_key_bag_get_volume_key_bag_extent_by_identifier bag (volume_identifier superblock) = Inr extent"
    using assms unfolding open_volume_key_bag_def Some by (auto simp: liftS_Inr)
  show ?thesis
  proof (cases extent)
    case None
    then have "v' = ?v" using assms extent unfolding open_volume_key_bag_def Some by simp
    then show ?thesis
      by (intro exI [of _ "volume_bag v"] exI [of _ "volume_encryption v"] exI [of _ "container_bag_is_locked bag"]) simp
  next
    case found: (Some bn)
    then obtain k e where "v' = ?v\<lparr>volume_bag := Some k, volume_encryption := Some e, volume_locked := True\<rparr>"
      using assms extent unfolding open_volume_key_bag_def Some by (cases bn) (auto simp: liftS_Inr split: if_splits)
    then show ?thesis using keys by (intro exI [of _ "Some k"] exI [of _ "Some e"] exI [of _ True]) simp
  qed
qed

lemma snapshots_outcome:
  assumes "open_volume_snapshots lib vector object_map superblock v = (Inr snapshots, v')"
  shows "\<exists>m tree. v' = v\<lparr>volume_object_map := m, volume_snapshots := Some snapshots, volume_snapshot_tree := tree\<rparr> \<and>
    (m = volume_object_map v \<or> m \<noteq> None)"
proof (cases "snapshot_metadata_tree_block superblock = 0")
  case True
  then show ?thesis
    using assms by (auto simp: open_volume_snapshots_def split: if_splits
        intro!: exI [of _ "volume_object_map v"] exI [of _ "volume_snapshot_tree v"])
next
  case False
  obtain r s where rs: "snapshot_metadata_tree_get_snapshots
      \<lparr>snapshot_node_cache = node_cache_library lib, snapshot_data_block_vector = vector, snapshot_object_map_btree = fst object_map,
        snapshot_root_node_block_number = snapshot_metadata_tree_block superblock\<rparr> (volume_transaction superblock)
      \<lparr>snapshot_nodes = empty_node_cache lib, snapshot_object_map_nodes = snd object_map, snapshots_found = []\<rparr> = (r, s)"
    by fastforce
  from False obtain m tree where
    "v' = v\<lparr>volume_object_map := Some m, volume_snapshots := Some snapshots, volume_snapshot_tree := tree\<rparr>"
    using assms by (auto simp: open_volume_snapshots_def snapshot_metadata_tree_initialize_def rs split: if_splits)
  then show ?thesis by (intro exI [of _ "Some m"] exI [of _ tree]) simp
qed

lemma open_parts_opened:
  assumes "open_volume_parts lib f off io v = (Inr (), v')" "volume_bag v = None"
  shows "volume_opened v'"
proof -
  obtain superblock v1 vector tree nodes v2 v3 snapshots v4 superblock' v5 where steps:
    "open_volume_superblock f off v = (Inr superblock, v1)"
    "open_volume_object_map lib f io superblock v1 = (Inr (vector, tree, nodes), v2)"
    "open_volume_key_bag lib f io superblock v2 = (Inr (), v3)"
    "open_volume_snapshots lib vector (tree, nodes) superblock v3 = (Inr snapshots, v4)"
    "open_sealed_superblock f io snapshots superblock v4 = (Inr superblock', v5)"
    "open_file_system_blocks lib f io superblock' v5 = (Inr (), v')"
    using assms(1) unfolding open_volume_parts_def by (auto simp: bindS_Inr split: prod.splits)
  have v1: "v1 = v\<lparr>volume_super := Some superblock\<rparr>"
    using steps(1) by (auto simp: open_volume_superblock_def liftS_Inr)
  have v2: "v2 = v1\<lparr>volume_vector := Some vector, volume_object_map := Some (tree, nodes)\<rparr>"
    using steps(2) by (auto simp: open_volume_object_map_def liftS_Inr)
  have v3: "volume_super v3 = Some superblock" "volume_vector v3 = Some vector" "volume_object_map v3 = Some (tree, nodes)"
    "volume_bag v3 \<noteq> None \<longrightarrow> volume_encryption v3 \<noteq> None \<and> volume_container_keys v3 \<noteq> None"
    using key_bag_outcome [OF steps(3)] assms(2) unfolding v2 v1 by auto
  have v4: "volume_super v4 = Some superblock" "volume_vector v4 = Some vector" "volume_object_map v4 \<noteq> None"
    "volume_bag v4 = volume_bag v3" "volume_encryption v4 = volume_encryption v3" "volume_container_keys v4 = volume_container_keys v3"
    "volume_snapshots v4 = Some snapshots"
    using snapshots_outcome [OF steps(4)] v3(1-3) by auto
  have v5: "volume_super v5 = Some superblock'" "\<exists>s. v5 = v4\<lparr>volume_super := s\<rparr>"
    using steps(5) v4(1)
    by (auto simp: open_sealed_superblock_def liftS_Inr Let_def split: if_splits list.splits intro: exI [of _ "volume_super v4"])
  have v': "v' = v5\<lparr>volume_file_blocks := Some (file_system_blocks lib f io)\<rparr>" "root_tree_identifier superblock' \<noteq> 0"
    using steps(6) by (auto simp: open_file_system_blocks_def liftS_Inr split: if_splits)
  show ?thesis
    using v5 v4 v3(4) v' by (auto simp: volume_opened_def)
qed

lemma open_read_state:
  assumes "internal_volume_open_read lib f off v = (r, v')" "volume_unopened v \<or> volume_opened v"
  shows "(volume_unopened v' \<or> volume_opened v') \<and> (r = Inr () \<longrightarrow> volume_opened v') \<and>
    (volume_unopened v \<longrightarrow> r \<noteq> Inr () \<longrightarrow> volume_unopened v')"
proof (cases "check_volume_unset v")
  case (Inl e)
  then show ?thesis using assms by (auto simp: internal_volume_open_read_def)
next
  case (Inr io)
  then have "\<not> volume_opened v" "volume_bag v = None"
    by (auto simp: check_volume_unset_def volume_opened_def split: option.splits if_splits)
  then have unopened: "volume_unopened v" "volume_bag v = None" using assms(2) by auto
  show ?thesis
  proof (cases "open_volume_parts lib f off io v")
    case (Pair q w)
    show ?thesis
    proof (cases q)
      case (Inl e)
      have "volume_file_system w = None"
        using open_parts_outside [of lib f off io v] Pair unopened(1) by (simp add: outside_def volume_unopened_def)
      then have "volume_unopened v'" "r = Inl e"
        using assms(1) Inr Pair Inl by (auto simp: internal_volume_open_read_def volume_unopened_def clear_failed_volume_def)
      then show ?thesis by simp
    next
      case ok: (Inr u)
      then show ?thesis
        using assms(1) Inr Pair open_parts_opened [of lib f off io v w] unopened(2) by (simp add: internal_volume_open_read_def)
    qed
  qed
qed

text \<open>The steps in the life of a volume.\<close>

inductive volume_step :: "('s, 'x) libraries \<Rightarrow> 'a aes_operations \<Rightarrow> hash_operations \<Rightarrow> ('s, 'x) internal_volume
    \<Rightarrow> ('s, 'x) internal_volume \<Rightarrow> bool" for lib aes hash where
  open_file: "\<forall>i n. safe (f i n) \<Longrightarrow> internal_volume_open_read lib f off v = (r, v') \<Longrightarrow> volume_step lib aes hash v v'"
| close: "internal_volume_close v = (r, v') \<Longrightarrow> volume_step lib aes hash v v'"
| set_password: "volume_set_utf8_password fresh password n v = (r, v') \<Longrightarrow> volume_step lib aes hash v v'"
| set_recovery_password: "volume_set_utf8_recovery_password fresh password n v = (r, v') \<Longrightarrow> volume_step lib aes hash v v'"
| unlock: "volume_unlock (xts_library lib) aes hash v = (r, v') \<Longrightarrow> volume_step lib aes hash v v'"

inductive volume_reachable :: "('s, 'x) libraries \<Rightarrow> 'a aes_operations \<Rightarrow> hash_operations \<Rightarrow> ('s, 'x) internal_volume \<Rightarrow> bool"
  for lib aes hash where
  initial: "volume_initialize None io f bag = Inr v \<Longrightarrow> io_bytes_per_sector io = 512 \<Longrightarrow> io_block_size io = 4096 \<Longrightarrow>
    4096 dvd io_container_size io \<Longrightarrow> \<forall>e\<in>set (case bag of None \<Rightarrow> [] | Some bag \<Rightarrow> container_bag_entries bag). bag_entry_wf e \<Longrightarrow>
    volume_reachable lib aes hash v"
| step: "volume_reachable lib aes hash v \<Longrightarrow> volume_step lib aes hash v v' \<Longrightarrow> volume_reachable lib aes hash v'"

definition volume_consistent :: "('s \<Rightarrow> nat \<rightharpoonup> btree_node) \<Rightarrow> ('s, 'x) internal_volume \<Rightarrow> bool" where
  "volume_consistent contents v \<longleftrightarrow> volume_valid contents v \<and> (volume_unopened v \<or> volume_opened v)"

lemma unlocked_members:
  assumes "internal_volume_unlock xts aes hash lock = Inr (b, lock')" "lock_encryption_context lock \<noteq> None"
  shows "lock_encryption_context lock' \<noteq> None"
  using assms
  by (cases "lock_key_bag lock")
    (auto simp: internal_volume_unlock_def option_case_eq bindR_eq_Inr)

lemma unlocked_without_bag:
  assumes "internal_volume_unlock xts aes hash lock = Inr (b, lock')" "lock_key_bag lock = None"
  shows "b" "lock' = lock\<lparr>lock_is_locked := False\<rparr>"
  using assms by (auto simp: internal_volume_unlock_def)

lemma volume_valid_same:
  assumes "volume_valid contents v" "volume_io v' = volume_io v" "volume_container_keys v' = volume_container_keys v"
    and "volume_object_map v' = None \<or> volume_object_map v' = volume_object_map v"
    and "volume_file_blocks v' = None \<or> volume_file_blocks v' = volume_file_blocks v"
  shows "volume_valid contents v'"
  using assms by (elim disjE) (simp_all add: volume_valid_def)

lemma volume_step_consistent:
  assumes "volume_step lib aes hash v v'" "volume_consistent contents v" "libraries_lawful lib contents"
  shows "volume_consistent contents v'"
  using assms(1)
proof (cases rule: volume_step.cases)
  case (open_file f off r)
  then show ?thesis
    using open_read_state [OF open_file(2)] open_read_safe [OF assms(3) open_file(1), of v off] assms(2)
    by (auto simp: volume_consistent_def call_safe_def)
next
  case (close r)
  then have "v' = v \<or> (volume_unopened v' \<and> volume_io v' = volume_io v \<and> volume_container_keys v' = volume_container_keys v)"
    by (auto simp: internal_volume_close_def volume_unopened_def split: if_splits)
  then show ?thesis
    using assms(2) volume_valid_same [of contents v v'] by (auto simp: volume_consistent_def volume_unopened_def)
next
  case (set_password fresh password n r)
  then obtain p k where "v' = v\<lparr>volume_user_password := p, volume_user_password_size := k\<rparr>"
    by (auto simp: volume_set_utf8_password_def split: sum.splits)
  then show ?thesis
    using assms(2) volume_valid_same [of contents v v'] by (simp add: volume_consistent_def volume_unopened_def volume_opened_def)
next
  case (set_recovery_password fresh password n r)
  then obtain p k where "v' = v\<lparr>volume_recovery_password := p, volume_recovery_password_size := k\<rparr>"
    by (auto simp: volume_set_utf8_recovery_password_def split: sum.splits)
  then show ?thesis
    using assms(2) volume_valid_same [of contents v v'] by (simp add: volume_consistent_def volume_unopened_def volume_opened_def)
next
  case (unlock r)
  show ?thesis
  proof (cases "volume_super v")
    case None
    then show ?thesis
      using unlock assms(2) by (auto simp: volume_unlock_def unlock_opened_volume_def split: if_splits)
  next
    case (Some superblock)
    show ?thesis
    proof (cases "internal_volume_unlock (xts_library lib) aes hash (lock_of superblock v)")
      case (Inl e)
      then show ?thesis
        using unlock Some assms(2) by (auto simp: volume_unlock_def unlock_opened_volume_def split: if_splits)
    next
      case (Inr x)
      obtain b lock where x: "x = (b, lock)" by force
      have opened: "volume_opened v" using Some assms(2) by (auto simp: volume_consistent_def volume_unopened_def)
      have "volume_encryption v \<noteq> None \<longrightarrow> lock_encryption_context lock \<noteq> None"
        using unlocked_members [OF Inr [unfolded x]] by (simp add: lock_of_def)
      moreover have "v' = v \<or> v' = v\<lparr>volume_encryption := lock_encryption_context lock, volume_locked := lock_is_locked lock\<rparr>"
        using unlock Some Inr x by (auto simp: volume_unlock_def unlock_opened_volume_def split: if_splits)
      ultimately show ?thesis
        using assms(2) opened volume_valid_same [of contents v v'] by (auto simp: volume_consistent_def volume_opened_def)
    qed
  qed
qed

lemma volume_reachable_consistent:
  assumes "volume_reachable lib aes hash v" "libraries_lawful lib contents"
  shows "volume_consistent contents v"
  using assms(1)
proof (induction rule: volume_reachable.induct)
  case (initial io f bag v)
  then show ?case
    by (auto simp: volume_initialize_def volume_consistent_def volume_valid_def volume_unopened_def)
next
  case (step v v')
  then show ?case using volume_step_consistent assms(2) by blast
qed

text \<open>A password that is set ends in a zero at its size, within its buffer.\<close>

definition password_terminated :: "bytes option \<Rightarrow> nat \<Rightarrow> bool" where
  "password_terminated password password_size \<longleftrightarrow>
     (case password of
        None \<Rightarrow> password_size = 0
      | Some bs \<Rightarrow> 2 \<le> password_size \<and> password_size \<le> MEMORY_MAXIMUM_ALLOCATION_SIZE \<and> password_size \<le> length bs \<and>
          bs ! (password_size - 1) = 0)"

definition volume_passwords :: "('s, 'x) internal_volume \<Rightarrow> bool" where
  "volume_passwords v \<longleftrightarrow> password_terminated (volume_user_password v) (volume_user_password_size v) \<and>
     password_terminated (volume_recovery_password v) (volume_recovery_password_size v)"

lemma copied_password_kept: "copied_password fresh string n = Inr (password, k) \<Longrightarrow> password_terminated (Some password) k"
  by (auto simp: copied_password_def password_terminated_def bindR_eq_Inr wr_def split: if_splits)

lemma open_read_passwords:
  assumes "internal_volume_open_read lib f off v = (r, v')" "volume_passwords v"
  shows "volume_passwords v'"
proof (cases "check_volume_unset v")
  case (Inr io)
  obtain q w where run: "open_volume_parts lib f off io v = (q, w)" by fastforce
  then have "outside w = outside v" using open_parts_outside [of lib f off io v] by simp
  then have "volume_passwords w" using assms(2) by (simp add: volume_passwords_def outside_def)
  then show ?thesis
    using assms(1) Inr run by (cases q) (auto simp: internal_volume_open_read_def volume_passwords_def clear_failed_volume_def)
qed (use assms in \<open>auto simp: internal_volume_open_read_def\<close>)

lemma volume_reachable_passwords:
  assumes "volume_reachable lib aes hash v"
  shows "volume_passwords v"
  using assms
proof (induction rule: volume_reachable.induct)
  case (initial io f bag v)
  then show ?case by (auto simp: volume_initialize_def volume_passwords_def password_terminated_def)
next
  case (step v v')
  have none: "password_terminated None 0" by (simp add: password_terminated_def)
  from step(2) show ?case
  proof (cases rule: volume_step.cases)
    case (open_file f off r)
    then show ?thesis using open_read_passwords step.IH by blast
  next
    case (close r)
    then show ?thesis using step.IH none by (auto simp: internal_volume_close_def volume_passwords_def split: if_splits)
  next
    case (set_password fresh password n r)
    then show ?thesis
      using step.IH none by (auto simp: volume_set_utf8_password_def volume_passwords_def copied_password_kept split: sum.splits)
  next
    case (set_recovery_password fresh password n r)
    then show ?thesis
      using step.IH none by (auto simp: volume_set_utf8_recovery_password_def volume_passwords_def copied_password_kept split: sum.splits)
  next
    case (unlock r)
    then show ?thesis
      using step.IH
      by (auto simp: volume_unlock_def unlock_opened_volume_def volume_passwords_def split: if_splits option.splits sum.splits)
  qed
qed

text \<open>A volume that still has an array of snapshots is not opened.\<close>

lemma opened_without_snapshots:
  assumes "internal_volume_open_read lib f off v = (Inr (), v')"
  shows "volume_snapshots v = None"
proof -
  obtain io where "open_volume_parts lib f off io v = (Inr (), v')"
    using assms by (auto simp: internal_volume_open_read_def split: sum.splits prod.splits)
  then obtain superblock v1 parts v2 v3 snapshots v4 where steps:
    "open_volume_superblock f off v = (Inr superblock, v1)"
    "open_volume_object_map lib f io superblock v1 = (Inr parts, v2)"
    "open_volume_key_bag lib f io superblock v2 = (Inr (), v3)"
    "open_volume_snapshots lib (fst parts) (snd parts) superblock v3 = (Inr snapshots, v4)"
    unfolding open_volume_parts_def by (auto simp: bindS_Inr split: prod.splits)
  have "volume_snapshots v1 = volume_snapshots v"
    using steps(1) by (auto simp: open_volume_superblock_def liftS_Inr)
  moreover have "volume_snapshots v2 = volume_snapshots v1"
    using steps(2) by (auto simp: open_volume_object_map_def liftS_Inr)
  moreover have "volume_snapshots v3 = volume_snapshots v2" using key_bag_outcome [OF steps(3)] by auto
  moreover have "volume_snapshots v3 = None" using steps(4) by (auto simp: open_volume_snapshots_def split: if_splits)
  ultimately show ?thesis by simp
qed

text \<open>An opening that has an array of snapshots without a tree keeps it, and fails.\<close>

definition kept_snapshots :: "('s, 'x) internal_volume \<Rightarrow> bool" where
  "kept_snapshots v \<longleftrightarrow> volume_snapshots v \<noteq> None \<and> volume_snapshot_tree v = None"

lemma steps_before_snapshots:
  "kept_snapshots (snd (open_volume_superblock f off v)) = kept_snapshots v"
  "kept_snapshots (snd (open_volume_object_map lib f io superblock v)) = kept_snapshots v"
  "kept_snapshots (snd (open_volume_key_bag lib f io superblock v)) = kept_snapshots v"
  by (auto simp: open_volume_superblock_def open_volume_object_map_def open_volume_key_bag_def bindS_liftS kept_snapshots_def
      split: sum.splits option.splits if_splits)

definition fails_kept :: "'a result \<times> ('s, 'x) internal_volume \<Rightarrow> bool" where
  "fails_kept x \<longleftrightarrow> (\<exists>e. fst x = Inl e) \<and> kept_snapshots (snd x)"

lemma fails_kept_bindS:
  assumes "kept_snapshots (snd (m s))" "\<And>x s'. kept_snapshots s' \<Longrightarrow> fails_kept (k x s')"
  shows "fails_kept (bindS m k s)"
  using assms by (auto simp: bindS_def fails_kept_def split: prod.splits sum.splits)

lemma fails_kept_snapshots:
  "kept_snapshots s \<Longrightarrow> fails_kept (bindS (open_volume_snapshots lib vector object_map superblock) k s)"
  by (simp add: open_volume_snapshots_def bindS_def kept_snapshots_def fails_kept_def)

lemma open_parts_kept:
  assumes "kept_snapshots v"
  shows "fails_kept (open_volume_parts lib f off io v)"
  unfolding open_volume_parts_def
proof (rule fails_kept_bindS, goal_cases)
  case (2 superblock s1)
  show ?case
  proof (rule fails_kept_bindS, goal_cases)
    case (2 parts s2)
    show ?case
      unfolding split_beta
      by (rule fails_kept_bindS) (use 2 in \<open>simp_all add: steps_before_snapshots fails_kept_snapshots\<close>)
  qed (use 2 in \<open>simp add: steps_before_snapshots\<close>)
qed (use assms in \<open>simp add: steps_before_snapshots\<close>)

lemma open_read_kept:
  assumes "kept_snapshots v" "internal_volume_open_read lib f off v = (r, v')"
  shows "\<exists>e. r = Inl e" "kept_snapshots v'"
proof -
  have "(\<exists>e. r = Inl e) \<and> kept_snapshots v'"
  proof (cases "check_volume_unset v")
    case (Inr io)
    obtain e w where "open_volume_parts lib f off io v = (Inl e, w)" "kept_snapshots w"
      using open_parts_kept [OF assms(1), of lib f off io] unfolding fails_kept_def by (metis prod.collapse)
    then show ?thesis using assms(2) Inr by (auto simp: internal_volume_open_read_def clear_failed_volume_def kept_snapshots_def)
  qed (use assms in \<open>auto simp: internal_volume_open_read_def\<close>)
  then show "\<exists>e. r = Inl e" "kept_snapshots v'" by blast+
qed

text \<open>Whatever is done with a volume but closing it.\<close>

inductive volume_unclosed :: "('s, 'x) libraries \<Rightarrow> 'a aes_operations \<Rightarrow> hash_operations \<Rightarrow> ('s, 'x) internal_volume
    \<Rightarrow> ('s, 'x) internal_volume \<Rightarrow> bool" for lib aes hash v where
  start: "volume_unclosed lib aes hash v v"
| open_again: "volume_unclosed lib aes hash v w \<Longrightarrow> internal_volume_open_read lib f off w = (r, w') \<Longrightarrow>
    volume_unclosed lib aes hash v w'"
| set_password_again: "volume_unclosed lib aes hash v w \<Longrightarrow> volume_set_utf8_password fresh password n w = (r, w') \<Longrightarrow>
    volume_unclosed lib aes hash v w'"
| set_recovery_password_again: "volume_unclosed lib aes hash v w \<Longrightarrow>
    volume_set_utf8_recovery_password fresh password n w = (r, w') \<Longrightarrow> volume_unclosed lib aes hash v w'"
| unlock_again: "volume_unclosed lib aes hash v w \<Longrightarrow> volume_unlock (xts_library lib) aes hash w = (r, w') \<Longrightarrow>
    volume_unclosed lib aes hash v w'"

lemma snapshots_kept:
  assumes "check_volume_unset v = Inr io" "volume_snapshots v = None"
    and "open_volume_superblock f off v = (Inr superblock, v1)" "snapshot_metadata_tree_block superblock = 0"
    and "open_volume_object_map lib f io superblock v1 = (Inr (vector, object_map), v2)"
    and "open_volume_key_bag lib f io superblock v2 = (Inr (), v3)"
    and "internal_volume_open_read lib f off v = (Inl e, v')"
  shows "volume_snapshots v' = Some [] \<and> kept_snapshots v'"
proof -
  have tree: "volume_snapshot_tree v = None" using assms(1) by (auto simp: check_volume_unset_def simp del: not_None_eq split: option.split_asm if_split_asm)
  have v1: "v1 = v\<lparr>volume_super := Some superblock\<rparr>" using assms(3) by (auto simp: open_volume_superblock_def liftS_Inr)
  have v2: "v2 = v1\<lparr>volume_vector := Some vector, volume_object_map := Some object_map\<rparr>"
    using assms(5) by (auto simp: open_volume_object_map_def liftS_Inr)
  have v3: "volume_snapshots v3 = None" "volume_snapshot_tree v3 = None"
    using key_bag_outcome [OF assms(6)] assms(2) tree by (auto simp: v1 v2)
  let ?v4 = "v3\<lparr>volume_snapshots := Some []\<rparr>"
  have "open_volume_snapshots lib vector object_map superblock v3 = (Inr [], ?v4)"
    using assms(4) v3 by (simp add: open_volume_snapshots_def)
  then have parts: "open_volume_parts lib f off io v =
      bindS (open_sealed_superblock f io [] superblock) (\<lambda>superblock. open_file_system_blocks lib f io superblock) ?v4"
    using assms(3,5,6) by (simp add: open_volume_parts_def bindS_def [of "open_volume_superblock f off"]
        bindS_def [of "open_volume_object_map lib f io superblock"] bindS_def [of "open_volume_key_bag lib f io superblock"]
        bindS_def [of "open_volume_snapshots lib vector object_map superblock"])
  have sealed: "open_sealed_superblock f io [] superblock ?v4 = (Inr superblock, ?v4)" by (simp add: open_sealed_superblock_def)
  obtain r w where run: "open_file_system_blocks lib f io superblock ?v4 = (r, w)" by fastforce
  then have "volume_snapshots w = Some []" "volume_snapshot_tree w = None"
    using v3 by (auto simp: open_file_system_blocks_def bindS_liftS split: if_splits sum.splits)
  then show ?thesis
    using assms(1,7) run parts sealed
    by (cases r) (auto simp: internal_volume_open_read_def bindS_eq(1) clear_failed_volume_def kept_snapshots_def)
qed

lemma unclosed_kept:
  assumes "volume_unclosed lib aes hash v w" "kept_snapshots v"
  shows "kept_snapshots w"
  using assms(1)
proof (induction rule: volume_unclosed.induct)
  case (open_again w f off r w')
  then show ?case using open_read_kept(2) by blast
qed (use assms(2) in \<open>auto simp: kept_snapshots_def volume_set_utf8_password_def volume_set_utf8_recovery_password_def volume_unlock_def
  unlock_opened_volume_def split: sum.splits if_splits option.splits\<close>)

section \<open>Passwords\<close>

lemma string_length_terminated: "0 \<notin> set password \<Longrightarrow> string_length (password @ 0 # rest) = Inr (length password)"
  by (induction password) auto

lemma copied_password_terminated:
  assumes "0 \<notin> set password" "password \<noteq> []" "length password < MEMORY_MAXIMUM_ALLOCATION_SIZE" "\<And>n. length (fresh n) = n"
  shows "copied_password fresh (password @ 0 # rest) (length password) = Inr (password @ [0], length password + 1)"
proof -
  have "wr_slice (fresh (length password + 1)) 0 password = Inr (password @ drop (length password) (fresh (length password + 1)))"
    using assms(4) [of "length password + 1"] by (simp add: wr_slice_def)
  moreover have "wr (password @ drop (length password) (fresh (length password + 1))) (length password) 0 = Inr (password @ [0])"
  proof -
    have "length (drop (length password) (fresh (length password + 1))) = Suc 0" using assms(4) by simp
    then obtain c where "drop (length password) (fresh (length password + 1)) = [c]" by (metis length_0_conv length_Suc_conv)
    then show ?thesis by simp
  qed
  ultimately show ?thesis
    using assms(2,3) string_length_terminated [OF assms(1), of rest] by (simp add: copied_password_def)
qed

lemma copied_password_overflow:
  assumes "0 \<notin> set password" "password \<noteq> []" "length password < MEMORY_MAXIMUM_ALLOCATION_SIZE" "\<And>n. length (fresh n) = n"
    and "length password + 1 < n" "n \<le> length (password @ 0 # rest)"
  shows "copied_password fresh (password @ 0 # rest) n = Inl OUT_OF_BOUNDS_ACCESS"
  using assms(2-) string_length_terminated [OF assms(1), of rest] by (simp add: copied_password_def wr_slice_def)

text \<open>The password that was set is the one that unlocking uses.\<close>

lemma set_password_unlocks:
  assumes "volume_super v = Some superblock" "volume_locked v" "volume_bag v = Some key_bag"
    and "first_holds (\<lambda>e. entry_type e = 3) k (volume_bag_entries key_bag)"
    and "wrapped_with_password aes hash password k volume_key" "volume_container_keys v = Some bag"
    and "first_holds (\<lambda>e. entry_type e = 2 \<and> entry_identifier e = volume_identifier superblock) k' (container_bag_entries bag)"
    and "wrapped_with_key aes volume_key k' plain" "\<And>d. calculate_sha256 hash d = Inr (S d) \<and> length (S d) = 32"
    and "volume_encryption v = Some ec" "encryption_method ec = METHOD_AES_128_XTS"
    and "tweaked_context_set_keys xts (decryption_context ec) (volume_keys S k' plain) 128 (drop 16 (volume_keys S k' plain)) 128 = Inr x"
    and "0 \<notin> set password" "password \<noteq> []" "length password < MEMORY_MAXIMUM_ALLOCATION_SIZE" "\<And>n. length (fresh n) = n"
  shows "volume_unlock xts aes hash (snd (volume_set_utf8_password fresh (password @ 0 # rest) (length password) v)) =
    (Inr True, v\<lparr>volume_user_password := Some (password @ [0]), volume_user_password_size := length password + 1,
      volume_encryption := Some (ec\<lparr>decryption_context := x\<rparr>), volume_locked := False\<rparr>)"
proof -
  let ?v = "v\<lparr>volume_user_password := Some (password @ [0]), volume_user_password_size := length password + 1\<rparr>"
  have set: "snd (volume_set_utf8_password fresh (password @ 0 # rest) (length password) v) = ?v"
    using copied_password_terminated [OF assms(13-16), of rest] by (simp add: volume_set_utf8_password_def)
  have small: "length password \<le> SSIZE_MAX" using assms(15) by (simp add: MEMORY_MAXIMUM_ALLOCATION_SIZE_def SSIZE_MAX_def)
  have "internal_volume_unlock xts aes hash (lock_of superblock ?v) = Inr (True, (lock_of superblock ?v)
      \<lparr>lock_encryption_context := Some (ec\<lparr>decryption_context := x\<rparr>), lock_is_locked := False\<rparr>)"
    by (rule internal_volume_unlock_opens [OF _ assms(4,5) small _ _ _ _ assms(8,9) _ assms(11,12)])
      (use assms in \<open>simp_all add: lock_of_def\<close>)
  then show ?thesis
    unfolding set using assms(1,2) by (simp add: volume_unlock_def unlock_opened_volume_def lock_of_def)
qed

section \<open>Sample volumes\<close>

definition sample_volume_super :: "nat \<Rightarrow> volume_superblock" where
  "sample_volume_super root_object =
     sample_volume\<lparr>root_tree_identifier := root_object, snapshot_metadata_tree_block := 0, volume_object_map_block := 4\<rparr>"

definition sample_volume_blocks :: "nat \<Rightarrow> nat \<Rightarrow> bytes" where
  "sample_volume_blocks root_object i =
     (if i = 6 then write_object (replicate 4096 0) (volume_layout (sample_volume_super root_object) False 4096)
      else sample_container_blocks i)"

definition sample_volume_io :: io_handle where
  "sample_volume_io = new_io\<lparr>io_container_size := 1000 * 4096\<rparr>"

definition new_volume :: "file_io \<Rightarrow> container_key_bag option \<Rightarrow> ('s, 'x) internal_volume" where
  "new_volume f bag = \<lparr>volume_super = None, volume_container_keys = bag, volume_vector = None, volume_object_map = None,
     volume_snapshot_tree = None, volume_snapshots = None, volume_bag = None, volume_encryption = None,
     volume_file_blocks = None, volume_file_system = None, volume_io = Some sample_volume_io, volume_file = Some f,
     volume_locked = True, volume_user_password = None, volume_user_password_size = 0,
     volume_recovery_password = None, volume_recovery_password_size = 0\<rparr>"

lemma new_volume_initial: "volume_initialize None sample_volume_io f bag = Inr (new_volume f bag)"
  by (simp add: volume_initialize_def new_volume_def)

lemma new_volume_reachable: "volume_reachable lib aes hash (new_volume f None)"
  by (rule volume_reachable.initial [OF new_volume_initial]) (simp_all add: sample_volume_io_def new_io_def)

lemma sample_libraries_lawful: "libraries_lawful sample_libraries (\<lambda>s. s)"
proof -
  have "safe (bindR r (\<lambda>block. Inr (block_data block)))" if "safe r" for r
    using that by (auto intro!: safe_bindR)
  then show ?thesis
    by (auto simp: libraries_lawful_def sample_libraries_def map_cache_laws vector_safe_def xts_well_behaved_def keeping_xts_def)
qed

lemma sample_volume_read:
  assumes "root_object < 2 ^ 64"
  shows "volume_superblock_read_file_io_handle initial (block_file (sample_volume_blocks root_object)) (6 * 4096) False =
    Inr (sample_volume_super root_object)"
proof -
  have wf: "volume_superblock_wf (sample_volume_super root_object) False 4096"
    using assms sample_superblocks(2) [of 4096] by (simp add: volume_superblock_wf_def sample_volume_super_def)
  have "length (sample_volume_blocks root_object 6) = 4096"
    using volume_object_fits [of "sample_volume_super root_object" False "replicate 4096 0"] wf
    by (simp add: sample_volume_blocks_def)
  then have "read_buffer_at_offset (block_file (sample_volume_blocks root_object)) (6 * 4096) 4096 = Inr (sample_volume_blocks root_object 6)"
    by (subst read_block_file) simp_all
  moreover have "volume_superblock_read_data initial (sample_volume_blocks root_object 6) 4096 False = Inr (sample_volume_super root_object)"
    using volume_superblock_written [of "sample_volume_super root_object" False "replicate 4096 0" initial] wf
    by (simp add: sample_volume_blocks_def)
  ultimately show ?thesis by (simp add: volume_superblock_read_file_io_handle_def)
qed

lemma sample_volume_object_map:
  "open_object_map sample_libraries (block_file (sample_volume_blocks root_object)) sample_volume_io vector 4 =
    Inr (\<lparr>node_cache = map_cache, data_block_vector = vector, root_node_block_number = 5\<rparr>, Map.empty)"
proof -
  have io: "io_block_size sample_volume_io = 4096" by (simp add: sample_volume_io_def new_io_def)
  have "block_file (sample_volume_blocks root_object) (4 * 4096) = block_file sample_container_blocks (4 * 4096)"
    by (rule ext) (simp add: block_file_def sample_volume_blocks_def)
  then have "object_map_read_file_io_handle m (block_file (sample_volume_blocks root_object)) (4 * 4096) =
      object_map_read_file_io_handle m (block_file sample_container_blocks) (4 * 4096)" for m
    by (simp add: object_map_read_file_io_handle_def read_buffer_at_offset_def)
  then show ?thesis
    using sample_object_map_read [OF io, of vector] by (simp add: open_object_map_def io)
qed

lemma sample_volume_steps:
  assumes "root_object < 2 ^ 64"
  shows "open_volume_superblock (block_file (sample_volume_blocks root_object)) (6 * 4096) v = (Inr (sample_volume_super root_object),
      v\<lparr>volume_super := Some (sample_volume_super root_object)\<rparr>)"
    "container_blocks sample_libraries (block_file (sample_volume_blocks root_object)) sample_volume_io = Inr vector \<Longrightarrow>
      open_volume_object_map sample_libraries (block_file (sample_volume_blocks root_object)) sample_volume_io (sample_volume_super root_object) v' =
      (Inr (vector, \<lparr>node_cache = map_cache, data_block_vector = vector, root_node_block_number = 5\<rparr>, Map.empty), v'\<lparr>volume_vector := Some vector,
        volume_object_map := Some (\<lparr>node_cache = map_cache, data_block_vector = vector, root_node_block_number = 5\<rparr>, Map.empty)\<rparr>)"
proof -
  obtain initial where initial: "volume_superblock_initialize None = Inr initial" by (simp add: volume_superblock_initialize_def)
  show "open_volume_superblock (block_file (sample_volume_blocks root_object)) (6 * 4096) v = (Inr (sample_volume_super root_object),
      v\<lparr>volume_super := Some (sample_volume_super root_object)\<rparr>)"
    using sample_volume_read [OF assms, of initial] by (simp add: open_volume_superblock_def initial)
  have "volume_object_map_block (sample_volume_super root_object) = 4" by (simp add: sample_volume_super_def)
  then show "container_blocks sample_libraries (block_file (sample_volume_blocks root_object)) sample_volume_io = Inr vector \<Longrightarrow>
      open_volume_object_map sample_libraries (block_file (sample_volume_blocks root_object)) sample_volume_io (sample_volume_super root_object) v' =
      (Inr (vector, \<lparr>node_cache = map_cache, data_block_vector = vector, root_node_block_number = 5\<rparr>, Map.empty), v'\<lparr>volume_vector := Some vector,
        volume_object_map := Some (\<lparr>node_cache = map_cache, data_block_vector = vector, root_node_block_number = 5\<rparr>, Map.empty)\<rparr>)"
    by (simp add: open_volume_object_map_def sample_volume_object_map)
qed

lemma sample_volume_opens:
  assumes "root_object < 2 ^ 64"
  obtains vector where
    "container_blocks sample_libraries (block_file (sample_volume_blocks root_object)) sample_volume_io = Inr vector"
    "internal_volume_open_read sample_libraries (block_file (sample_volume_blocks root_object)) (6 * 4096) (new_volume f None) =
      (if root_object = 0 then (Inl RUNTIME_VALUE_OUT_OF_BOUNDS, (new_volume f None)\<lparr>volume_snapshots := Some [], volume_locked := False\<rparr>)
       else (Inr (), (new_volume f None)\<lparr>volume_super := Some (sample_volume_super root_object), volume_vector := Some vector,
         volume_object_map := Some (\<lparr>node_cache = map_cache, data_block_vector = vector, root_node_block_number = 5\<rparr>, Map.empty),
         volume_snapshots := Some [], volume_locked := False, volume_file_blocks :=
         Some (file_system_blocks sample_libraries (block_file (sample_volume_blocks root_object)) sample_volume_io)\<rparr>))"
proof -
  let ?file = "block_file (sample_volume_blocks root_object)"
  obtain vector where vector: "container_blocks sample_libraries ?file sample_volume_io = Inr vector"
    by (simp add: container_blocks_def container_data_handle_initialize_def sample_libraries_def)
  have members: "volume_object_map_block (sample_volume_super root_object) = 4" "snapshot_metadata_tree_block (sample_volume_super root_object) = 0"
    "root_tree_identifier (sample_volume_super root_object) = root_object"
    "volume_incompatible_features (sample_volume_super root_object) AND 0x20 = 0"
    by (simp_all add: sample_volume_super_def sample_volume_def)
  obtain initial where initial: "volume_superblock_initialize None = Inr initial" by (simp add: volume_superblock_initialize_def)
  have superblock: "open_volume_superblock ?file (6 * 4096) v = (Inr (sample_volume_super root_object),
      v\<lparr>volume_super := Some (sample_volume_super root_object)\<rparr>)" for v :: "(nat \<rightharpoonup> btree_node, bytes \<times> bytes) internal_volume"
    using sample_volume_read [OF assms, of initial] by (simp add: open_volume_superblock_def initial)
  let ?om = "(\<lparr>node_cache = map_cache, data_block_vector = vector, root_node_block_number = 5\<rparr>, Map.empty)"
  have object_map: "open_volume_object_map sample_libraries ?file sample_volume_io (sample_volume_super root_object) v =
      (Inr (vector, ?om), v\<lparr>volume_vector := Some vector, volume_object_map := Some ?om\<rparr>)" for v
    by (simp add: open_volume_object_map_def vector members sample_volume_object_map)
  have key_bag: "open_volume_key_bag sample_libraries ?file sample_volume_io (sample_volume_super root_object) v =
      (Inr (), v\<lparr>volume_locked := False\<rparr>)" if "volume_container_keys v = None" for v
    using that by (simp add: open_volume_key_bag_def)
  have snapshots: "open_volume_snapshots sample_libraries vector m (sample_volume_super root_object) v = (Inr [], v\<lparr>volume_snapshots := Some []\<rparr>)"
    if "volume_snapshots v = None" for v m
    using that by (simp add: open_volume_snapshots_def members)
  have sealed: "open_sealed_superblock ?file sample_volume_io [] (sample_volume_super root_object) v = (Inr (sample_volume_super root_object), v)" for v
    by (simp add: open_sealed_superblock_def)
  have blocks: "open_file_system_blocks sample_libraries ?file sample_volume_io (sample_volume_super root_object) v =
      (if root_object = 0 then (Inl RUNTIME_VALUE_OUT_OF_BOUNDS, v)
       else (Inr (), v\<lparr>volume_file_blocks := Some (file_system_blocks sample_libraries ?file sample_volume_io)\<rparr>))" for v
    by (simp add: open_file_system_blocks_def members file_system_blocks_def file_system_data_handle_initialize_def sample_libraries_def)
  have unset: "check_volume_unset (new_volume f None) = Inr sample_volume_io"
    by (simp add: check_volume_unset_def new_volume_def)
  have parts: "open_volume_parts sample_libraries ?file (6 * 4096) sample_volume_io (new_volume f None) =
      (if root_object = 0 then (Inl RUNTIME_VALUE_OUT_OF_BOUNDS, (new_volume f None)\<lparr>volume_super := Some (sample_volume_super root_object),
         volume_vector := Some vector, volume_object_map := Some ?om, volume_locked := False, volume_snapshots := Some []\<rparr>)
       else (Inr (), (new_volume f None)\<lparr>volume_super := Some (sample_volume_super root_object), volume_vector := Some vector,
         volume_object_map := Some ?om, volume_locked := False, volume_snapshots := Some [], volume_file_blocks :=
         Some (file_system_blocks sample_libraries ?file sample_volume_io)\<rparr>))"
    unfolding open_volume_parts_def
    by (simp add: bindS_def superblock [simplified] object_map key_bag snapshots sealed blocks new_volume_def)
  show ?thesis
    by (rule that [OF vector], unfold internal_volume_open_read_def unset sum.case parts)
      (cases "root_object = 0"; simp add: clear_failed_volume_def new_volume_def)
qed

section \<open>Properties\<close>

text \<open>
  C36. Whatever a volume is asked to do, in any order, it either has no superblock, no object
  map, no keys and no blocks, though an array of snapshots may be left of an opening that failed, or all that an open volume has: a
  superblock with a file system root, the object map, the snapshots and the blocks of the file system, and with a key bag also the
  encryption context and the keys of the container. Each password is unset, with size 0, or has its terminating zero as the last
  byte of its size, within its buffer. Its caches hold only nodes as they are in their blocks.
\<close>

theorem volume_states_consistent:
  assumes "volume_reachable lib aes hash v" "libraries_lawful lib contents"
  shows "volume_valid contents v \<and> (volume_unopened v \<or> volume_opened v) \<and>
    password_terminated (volume_user_password v) (volume_user_password_size v) \<and>
    password_terminated (volume_recovery_password v) (volume_recovery_password_size v)"
  using volume_reachable_consistent [OF assms] volume_reachable_passwords [OF assms(1)]
  by (simp add: volume_consistent_def volume_passwords_def)

theorem volume_states_consistent_witness:
  "\<exists>v w. internal_volume_open_read sample_libraries (block_file (sample_volume_blocks 9)) (6 * 4096) (new_volume (block_file (\<lambda>i. [])) None) =
      (Inr (), v) \<and> volume_set_utf8_password (\<lambda>n. replicate n 0) [1, 2, 0] 2 v = (Inr (), w) \<and>
    volume_opened w \<and> volume_user_password w \<noteq> None \<and> password_terminated (volume_user_password w) (volume_user_password_size w)"
proof -
  have small: "(9 :: nat) < 2 ^ 64" by simp
  let ?v = "new_volume (block_file (\<lambda>i. [])) None :: (nat \<rightharpoonup> btree_node, bytes \<times> bytes) internal_volume"
  obtain v where v: "internal_volume_open_read sample_libraries (block_file (sample_volume_blocks 9)) (6 * 4096) ?v = (Inr (), v)"
    "volume_super v \<noteq> None"
    by (rule sample_volume_opens [OF small, of "block_file (\<lambda>i. [])"]) simp
  let ?w = "v\<lparr>volume_user_password := Some [1, 2, 0], volume_user_password_size := 3\<rparr>"
  have w: "volume_set_utf8_password (\<lambda>n. replicate n 0) [1, 2, 0] 2 v = (Inr (), ?w)"
    using copied_password_terminated [of "[1, 2]" "\<lambda>n. replicate n 0" "[]"]
    by (simp add: volume_set_utf8_password_def MEMORY_MAXIMUM_ALLOCATION_SIZE_def numeral_2_eq_2)
  have "\<forall>i n. safe (block_file (sample_volume_blocks 9) i n)" by (simp add: block_file_def)
  from volume_reachable.step [OF new_volume_reachable volume_step.open_file [OF this v(1)]]
  have "volume_reachable sample_libraries reversing_aes padding_hash v" .
  then have "volume_reachable sample_libraries reversing_aes padding_hash ?w"
    by (rule volume_reachable.step) (rule volume_step.set_password [OF w])
  from volume_states_consistent [OF this sample_libraries_lawful] show ?thesis
    using v w by (auto simp: volume_unopened_def)
qed

text \<open>
  C38. Whatever the file holds, opening a volume terminates, with an error of the library or an open volume, and
  accesses no memory outside of what it has read; the ciphers, the file and the vectors keep to their interfaces.
\<close>

theorem volume_open_safe:
  assumes "volume_reachable lib aes hash v" "libraries_lawful lib contents" "\<forall>i n. safe (f i n)"
    and "internal_volume_open_read lib f off v = (r, v')"
  shows "r \<noteq> Inl OUT_OF_BOUNDS_ACCESS \<and> (r = Inr () \<longrightarrow> volume_opened v')"
proof -
  have v: "volume_consistent contents v" by (rule volume_reachable_consistent [OF assms(1,2)])
  then have "call_safe (volume_valid contents) (\<lambda>_. True) (internal_volume_open_read lib f off v)"
    using open_read_safe [OF assms(2,3)] by (simp add: volume_consistent_def)
  then show ?thesis
    using assms(4) open_read_state [OF assms(4)] v
    by (cases r) (auto simp: lib_error_def volume_consistent_def)
qed

theorem volume_open_safe_witness:
  "fst (internal_volume_open_read sample_libraries (\<lambda>i n. Inr (replicate n 255)) 0 (new_volume (block_file (\<lambda>i. [])) None)) \<noteq>
    Inl OUT_OF_BOUNDS_ACCESS"
  using volume_open_safe [OF new_volume_reachable sample_libraries_lawful] by (metis prod.collapse safe_simps(1))

text \<open>
  C39. When opening a volume without a snapshot metadata tree fails after its superblock, its
  object map and its key bag were read, as it does when the root of the file system is missing, the empty array of its
  snapshots is kept. From then on every opening fails, with any file and at any offset, whatever else is done with the
  volume, until it is closed.
\<close>

theorem failed_opening_is_final:
  assumes "check_volume_unset v = Inr io" "volume_snapshots v = None"
    and "open_volume_superblock f off v = (Inr superblock, v1)" "snapshot_metadata_tree_block superblock = 0"
    and "open_volume_object_map lib f io superblock v1 = (Inr (vector, object_map), v2)"
    and "open_volume_key_bag lib f io superblock v2 = (Inr (), v3)"
    and "internal_volume_open_read lib f off v = (Inl e, v')"
  shows "volume_snapshots v' = Some [] \<and>
    (\<forall>w. volume_unclosed lib aes hash v' w \<longrightarrow> (\<forall>f off. \<exists>e. fst (internal_volume_open_read lib f off w) = Inl e))"
proof -
  have kept: "volume_snapshots v' = Some [] \<and> kept_snapshots v'" by (rule snapshots_kept [OF assms])
  have "\<exists>e. fst (internal_volume_open_read lib f off w) = Inl e" if "volume_unclosed lib aes hash v' w" for w f off
    using open_read_kept(1) [OF unclosed_kept [OF that]] kept by (metis prod.collapse)
  then show ?thesis using kept by blast
qed

theorem failed_opening_is_final_witness:
  "\<exists>v' w e. internal_volume_open_read sample_libraries (block_file (sample_volume_blocks 0)) (6 * 4096) (new_volume (block_file (\<lambda>i. [])) None) =
      (Inl RUNTIME_VALUE_OUT_OF_BOUNDS, v') \<and> volume_snapshots v' = Some [] \<and>
    volume_set_utf8_password (\<lambda>n. replicate n 0) [1, 2, 0] 2 v' = (Inr (), w) \<and>
    fst (internal_volume_open_read sample_libraries (block_file (sample_volume_blocks 9)) (6 * 4096) w) = Inl e"
proof -
  have small: "(0 :: nat) < 2 ^ 64" by simp
  let ?f = "block_file (sample_volume_blocks 0)" and ?v = "new_volume (block_file (\<lambda>i. [])) None :: (nat \<rightharpoonup> btree_node, bytes \<times> bytes) internal_volume"
  obtain vector v' where fails: "container_blocks sample_libraries ?f sample_volume_io = Inr vector"
    "internal_volume_open_read sample_libraries ?f (6 * 4096) ?v = (Inl RUNTIME_VALUE_OUT_OF_BOUNDS, v')"
    using sample_volume_opens [OF small, of "block_file (\<lambda>i. [])"] by (metis (full_types))
  have unset: "check_volume_unset ?v = Inr sample_volume_io" "volume_snapshots ?v = None"
    by (simp_all add: check_volume_unset_def new_volume_def)
  note steps = sample_volume_steps [OF small]
  have key_bag: "open_volume_key_bag sample_libraries ?f sample_volume_io (sample_volume_super 0) s = (Inr (), s\<lparr>volume_locked := False\<rparr>)"
    if "volume_container_keys s = None" for s
    using that by (simp add: open_volume_key_bag_def)
  have keys: "volume_container_keys (?v\<lparr>volume_super := Some (sample_volume_super 0), volume_vector := Some vector,
      volume_object_map := Some (\<lparr>node_cache = map_cache, data_block_vector = vector, root_node_block_number = 5\<rparr>, Map.empty)\<rparr>) = None"
    by (simp add: new_volume_def)
  have "snapshot_metadata_tree_block (sample_volume_super 0) = 0" by (simp add: sample_volume_super_def)
  note final = failed_opening_is_final [OF unset steps(1) this steps(2) [OF fails(1)] key_bag [OF keys] fails(2), where aes = reversing_aes and hash = padding_hash]
  obtain w where w: "volume_set_utf8_password (\<lambda>n. replicate n 0) [1, 2, 0] 2 v' = (Inr (), w)"
    using copied_password_terminated [of "[1, 2]" "\<lambda>n. replicate n 0" "[]"]
    by (simp add: volume_set_utf8_password_def MEMORY_MAXIMUM_ALLOCATION_SIZE_def numeral_2_eq_2)
  then have "volume_unclosed sample_libraries reversing_aes padding_hash v' w"
    by (rule volume_unclosed.set_password_again [OF volume_unclosed.start])
  then show ?thesis using final fails(2) w by blast
qed

text \<open>
  C37. A password without zeros that is set on an opened, encrypted volume and is the one that its volume
  key is wrapped with unlocks the volume: its encryption context has the keys of the volume, of which the second is
  derived by SHA-256 when only 16 bytes are stored.
\<close>

theorem set_password_unlocks_volume:
  assumes "volume_super v = Some superblock" "volume_locked v" "volume_bag v = Some key_bag"
    and "first_holds (\<lambda>e. entry_type e = 3) k (volume_bag_entries key_bag)"
    and "wrapped_with_password aes hash password k volume_key" "volume_container_keys v = Some bag"
    and "first_holds (\<lambda>e. entry_type e = 2 \<and> entry_identifier e = volume_identifier superblock) k' (container_bag_entries bag)"
    and "wrapped_with_key aes volume_key k' plain" "\<And>d. calculate_sha256 hash d = Inr (S d) \<and> length (S d) = 32"
    and "volume_encryption v = Some ec" "encryption_method ec = METHOD_AES_128_XTS"
    and "tweaked_context_set_keys xts (decryption_context ec) (volume_keys S k' plain) 128 (drop 16 (volume_keys S k' plain)) 128 = Inr x"
    and "0 \<notin> set password" "password \<noteq> []" "length password < MEMORY_MAXIMUM_ALLOCATION_SIZE" "\<And>n. length (fresh n) = n"
  shows "volume_unlock xts aes hash (snd (volume_set_utf8_password fresh (password @ 0 # rest) (length password) v)) =
    (Inr True, v\<lparr>volume_user_password := Some (password @ [0]), volume_user_password_size := length password + 1,
      volume_encryption := Some (ec\<lparr>decryption_context := x\<rparr>), volume_locked := False\<rparr>)"
  by (rule set_password_unlocks [OF assms])

definition sample_locked_volume :: "(nat \<rightharpoonup> btree_node, bytes \<times> bytes) internal_volume" where
  "sample_locked_volume = (new_volume (block_file (\<lambda>i. [])) (lock_container_key_bag sample_lock))
     \<lparr>volume_super := Some (sample_volume\<lparr>volume_identifier := replicate 16 7\<rparr>), volume_bag := lock_key_bag sample_lock,
      volume_encryption := lock_encryption_context sample_lock\<rparr>"

theorem set_password_unlocks_volume_witness:
  "\<exists>v. volume_unlock keeping_xts reversing_aes padding_hash
      (snd (volume_set_utf8_password (\<lambda>n. replicate n 0) [1, 2, 0, 5] 2 sample_locked_volume)) = (Inr True, v) \<and> \<not> volume_locked v"
proof -
  let ?S = "\<lambda>d :: bytes. take 32 (d @ replicate 32 1)"
  have wf: "kek_wf (wrapping_kek 2 (replicate 16 9))" "kek_wf (wrapping_kek 16 (replicate 32 8))"
    by (simp_all add: wrapping_kek_simps)
  have bags: "first_holds (\<lambda>e. entry_type e = 3) (wrapping_kek 16 (replicate 32 8))
      [sample_entry 3 (replicate 16 7) (wrapping_kek 16 (replicate 32 8))]"
    "first_holds (\<lambda>e. entry_type e = 2 \<and> entry_identifier e = replicate 16 7) (wrapping_kek 2 (replicate 16 9))
      [sample_entry 3 (replicate 16 7) sample_kek, sample_entry 2 (replicate 16 7) (wrapping_kek 2 (replicate 16 9))]"
    using length_values(3) [OF wf(1)] length_values(3) [OF wf(2)] by (simp_all add: first_holds_def sample_entry_def)
  have password: "wrapped_with_password reversing_aes padding_hash [1, 2] (wrapping_kek 16 (replicate 32 8)) (replicate 32 8)"
    unfolding wrapped_with_password_def
    using wf(2) padding_hash_computes [of "[1, 2]"] reversing_aes_decrypts wrapping_kek_simps(1) [of "replicate 32 8" 16]
    by (auto simp: wrapping_kek_simps reversing_aes_def)
  have key: "wrapped_with_key reversing_aes (replicate 32 8) (wrapping_kek 2 (replicate 16 9)) (replicate 16 9)"
    unfolding wrapped_with_key_def
    using wf(1) reversing_aes_decrypts wrapping_kek_simps(1) [of "replicate 16 9" 2]
    by (auto simp: wrapping_kek_simps reversing_aes_def kek_key_size_def)
  have sha: "calculate_sha256 padding_hash d = Inr (?S d) \<and> length (?S d) = 32" for d
    by (simp add: padding_hash_def)
  let ?mk = "volume_keys ?S (wrapping_kek 2 (replicate 16 9)) (replicate 16 9)"
  let ?ec = "\<lparr>encryption_method = 2, decryption_context = ([], [])\<rparr>"
  have "volume_unlock keeping_xts reversing_aes padding_hash
      (snd (volume_set_utf8_password (\<lambda>n. replicate n 0) ([1, 2] @ 0 # [5]) (length [1 :: byte, 2]) sample_locked_volume)) =
    (Inr True, sample_locked_volume\<lparr>volume_user_password := Some ([1, 2] @ [0]), volume_user_password_size := length [1 :: byte, 2] + 1,
      volume_encryption := Some (?ec\<lparr>decryption_context := (?mk, drop 16 ?mk)\<rparr>), volume_locked := False\<rparr>)"
    by (rule set_password_unlocks_volume [where key_bag = "the (lock_key_bag sample_lock)" and
          bag = "the (lock_container_key_bag sample_lock)" and superblock = "sample_volume\<lparr>volume_identifier := replicate 16 7\<rparr>",
          OF _ _ _ _ password _ _ key sha])
      (use bags in \<open>simp_all add: sample_locked_volume_def new_volume_def sample_lock_def METHOD_AES_128_XTS_def keeping_xts_def
         MEMORY_MAXIMUM_ALLOCATION_SIZE_def\<close>)
  then show ?thesis by (simp add: numeral_2_eq_2)
qed

text \<open>
  C40. The buffer of a password has the length of the string up to its first zero, but as many bytes as the caller
  says are copied into it: with a zero before the last byte of the password, memory behind the buffer is written.
\<close>

theorem long_password_overflows:
  assumes "0 \<notin> set password" "password \<noteq> []" "length password < MEMORY_MAXIMUM_ALLOCATION_SIZE" "\<And>n. length (fresh n) = n"
    and "length password + 1 < n" "n \<le> length (password @ 0 # rest)"
  shows "fst (volume_set_utf8_password fresh (password @ 0 # rest) n v) = Inl OUT_OF_BOUNDS_ACCESS \<and>
    fst (volume_set_utf8_recovery_password fresh (password @ 0 # rest) n v) = Inl OUT_OF_BOUNDS_ACCESS"
  using copied_password_overflow [OF assms]
  by (simp add: volume_set_utf8_password_def volume_set_utf8_recovery_password_def)

theorem long_password_overflows_witness:
  "fst (volume_set_utf8_password (\<lambda>n. replicate n 0) [1, 2, 0, 3, 4] 5 sample_locked_volume) = Inl OUT_OF_BOUNDS_ACCESS"
  using long_password_overflows [of "[1, 2]" "\<lambda>n. replicate n 0" 5 "[3, 4]" sample_locked_volume]
  by (simp add: MEMORY_MAXIMUM_ALLOCATION_SIZE_def)

end
