(* ===== verification/Spec2Isabelle.thy ===== *)
theory Spec2Isabelle
  imports Deflate_Streams Checksum Zbitmap Object_Map_Btree File_System_Name_Safety Key_Bags Compressed_Data_Handle
    Sealed_Extents File_Contents Volume_States
begin

text \<open>
  Verification of libfsapfs, a reader of the Apple File System.

  \<^bold>\<open>The program.\<close> A container (\<open>libfsapfs_container.c\<close>) is a sequence of blocks. Its superblock leads
  to an object map, a B-tree that gives the block of an object for a transaction, and through it to the
  superblocks of volumes. Each volume (\<open>libfsapfs_volume.c\<close>) has an object map of its own and a file system
  B-tree, whose entries are inodes, directory records, extended attributes and file extents. Encrypted
  volumes are opened with keys out of key bags, and a compressed file has its data in an extended attribute,
  in blocks of 64 KiB that DEFLATE, ZBITMAP, LZVN or LZFSE compress.

  \<^bold>\<open>Theories and sources\<close> (files of \<open>src/libfsapfs\<close>, without the prefix \<open>libfsapfs_\<close>):

  \<^item> \<open>Apfs_Prelude\<close>: machine types, the errors of libcerror, results as sums, checked reads of byte arrays;
    \<open>Calls\<close>: calls that change a state, which a failing call leaves behind as well.
  \<^item> \<open>Bit_Stream\<close> (\<open>bit_stream.c\<close>), \<open>Huffman_Tree\<close> (\<open>huffman_tree.c\<close>), \<open>Adler32\<close>, \<open>Deflate\<close>, \<open>Deflate_Trees\<close>,
    \<open>Deflate_Tokens\<close>, \<open>Deflate_Streams\<close> (\<open>deflate.c\<close>): the streams of RFC 1951 are a relation between bits and data;
    decompression succeeds exactly on those whose dynamic blocks have a distance code and at most 30 sizes of them, and on
    those that break off behind a block that is not the last one.
  \<^item> \<open>Zbitmap\<close> (\<open>zbitmap.c\<close>), \<open>Compression\<close> (\<open>compression.c\<close>, \<open>compressed_data_header.c\<close>), \<open>Segment_Reader\<close>
    (\<open>buffer_data_handle.c\<close>), \<open>Compressed_Data_Handle\<close> (\<open>compressed_data_handle.c\<close>): any sequence of seeks and
    reads of a compressed file gives the parts of its content.
  \<^item> \<open>Checksum\<close> (\<open>checksum.c\<close>): CRC-32 and Fletcher-64 equal their bitwise and arithmetic definitions.
  \<^item> \<open>Btree\<close> (\<open>btree_node.c\<close>, \<open>btree_node_header.c\<close>, \<open>btree_footer.c\<close>, \<open>btree_entry.c\<close>): reading a node inverts writing
    it and is safe. \<open>Node_Cache\<close> and \<open>Tree_Search\<close> hold what the B-trees share: the cache of nodes and
    the descent to the last entry that is not beyond a key.
  \<^item> \<open>Object_Map_Btree\<close> (\<open>object_map.c\<close>, \<open>object_map_descriptor.c\<close>, \<open>object_map_btree.c\<close>): the lookup gives the latest
    version of an object that is not newer than the transaction.
  \<^item> \<open>File_System_Records\<close> (\<open>inode.c\<close>, \<open>directory_record.c\<close>, \<open>attribute_values.c\<close>, \<open>file_extent.c\<close>),
    \<open>File_System_Btree\<close>, \<open>File_System_Lookup\<close>, \<open>File_System_Enumeration\<close>, \<open>File_System_Names\<close>, \<open>File_System_Name_Lookup\<close>,
    \<open>File_System_Paths\<close>, \<open>File_System_Name_Safety\<close> (\<open>file_system_btree.c\<close>): lookups by identifier, by name and by path,
    and enumerations. Each is compared with the list of all entries of a well-formed tree, and is safe on any blocks.
  \<^item> \<open>Sealed_Extents\<close> (\<open>sealed_extent_tree.c\<close>): the tree of the extents of a sealed volume, collected, sorted and
    searched by bisection: the lookup finds the extent that covers an address.
  \<^item> \<open>Data_Blocks\<close>, \<open>File_Contents\<close> (\<open>io_handle.c\<close>, \<open>data_block.c\<close>, \<open>file_system_data_handle.c\<close>, \<open>data_block_vector.c\<close>,
    \<open>data_block_data_handle.c\<close>): seeks and reads of a file that is given by its extents, decrypted where needed.
  \<^item> \<open>Snapshots\<close> (\<open>snapshot_metadata.c\<close>, \<open>snapshot_metadata_tree.c\<close>): the enumeration finds all snapshot records;
    a root node whose identifier is translated is never found.
  \<^item> \<open>Container_Objects\<close> (\<open>object.c\<close>, \<open>container_superblock.c\<close>, \<open>volume_superblock.c\<close>, \<open>checkpoint_map.c\<close>,
    \<open>checkpoint_map_entry.c\<close>, \<open>space_manager.c\<close>, \<open>container_reaper.c\<close>, \<open>chunk_information_block.c\<close>,
    \<open>extent_reference_tree.c\<close>, \<open>fusion_middle_tree.c\<close>), \<open>Container_Layout\<close>: the objects of fixed layout, read back as they
    were written, and rejected when a value is corrupted in a way that the Fletcher-64 tells apart. \<open>Container_Open\<close>, \<open>Container_States\<close> (\<open>container.c\<close>,
    \<open>container_data_handle.c\<close>): opening uses the newest checkpoint of the blocks that it scans; the life of a container as a
    step relation, in which an open container has the members that its file holds.
  \<^item> \<open>Volume_Open\<close>, \<open>Volume_States\<close> (\<open>volume.c\<close>): opening, unlocking and closing a volume as a step relation; the right
    password unlocks it, and some failed openings are final.
  \<^item> \<open>Name_Tables\<close>, \<open>Names\<close>, \<open>Name_Consistency\<close> (\<open>name.c\<close>, \<open>name.h\<close>, \<open>name_hash.c\<close>): case folding, decomposition,
    comparison and hash of names.
  \<^item> \<open>Encryption\<close> (\<open>encryption_context.c\<close>, \<open>password.c\<close>), \<open>Key_Encrypted_Key\<close> (\<open>key_encrypted_key.c\<close>), \<open>Key_Bags\<close>
    (\<open>key_bag_header.c\<close>, \<open>key_bag_entry.c\<close>, \<open>container_key_bag.c\<close>, \<open>volume_key_bag.c\<close> and the unlocking of
    \<open>volume.c\<close>): the right password opens a volume.

  \<^bold>\<open>Conventions.\<close> A definition has the name of the C function without \<open>libfsapfs_\<close>; a structure is a record with
  its members. A result is \<open>Inr\<close> a value or \<open>Inl\<close> the first error that the function reports; where a
  function returns 0 for not found the value is \<open>None\<close>. A read outside a buffer, which C leaves undefined, is the
  error \<open>OUT_OF_BOUNDS_ACCESS\<close>, which is not a \<open>lib_error\<close>: a property of kind safety says that it does not occur.
  Integers are words where they wrap around in the source, and otherwise natural numbers within the
  bounds that the code checks. Checks of NULL arguments, failing allocations, debug output, locks and the freeing of memory that no
  member refers to have no counterpart; a member that is freed is \<open>None\<close>. Arrays of libcdata are lists.

  \<^bold>\<open>Parameters.\<close> Code outside the repository is an argument of the definitions: the vector and the cache of
  libfdata and libfcache (a function of the state of the cache that gives a cached node or the block), the streams of
  libfdata, the ciphers of libcaes, HMAC of libhmac, LZFSE and LZVN of libfmos, and the decoders of libuna, which take the next
  character of a string with the number of units behind the first that it consists of. \<open>Container_Open\<close> collects those that
  opening needs in the record \<open>libraries\<close>, and a file of libbfio in \<open>file_handle\<close>. The properties
  state what they assume of them, and the witnesses instantiate them.

  \<^bold>\<open>Bounds and fuel.\<close> The descent in a B-tree takes \<open>MAXIMUM_BTREE_NODE_RECURSION_DEPTH + 1\<close> = 257 levels as fuel,
  which is the depth at which the source itself fails, so that no behaviour is lost. All other loops
  terminate by a measure. An object identifier, a data size or an index that is a 64-bit member is a natural number, with
  \<open>mod 2 ^ 64\<close> where sums and products of it may wrap around. The tables of names are checked to have as many elements as the ranges in
  \<open>name.h\<close> need.
\<close>

end
